(* ===== verification/Prelude.thy ===== *)
theory Prelude
  imports Complex_Main "HOL-Library.AList" "HOL-Library.Multiset"
begin

text \<open>
  What every component of the development shares: the error values that stand for the
  exceptions of the C++ code, the result type and its bind, the numeric constants of
  include/ils_sp/core.hpp, the reading of \<open>double\<close> as a real number with an explicit
  finite range, and generic lemmas on lists and association lists.

  A \<open>double\<close> is a real number.  The largest finite value \<open>dbl_max\<close> is the IEEE binary64
  one, and the library test \<open>std::isfinite\<close> is the range test \<open>isfinite\<close>, so that a guard
  on finiteness stays a real guard of the model.  Rounding is not modelled here (the
  theories that depend on directed rounding take it as a parameter).
\<close>

section \<open>Fact collections\<close>

named_theorems model_defs \<open>unfolding rules of small definitions\<close>
named_theorems inv_intros \<open>preservation of component invariants\<close>

section \<open>Errors as values\<close>

text \<open>
  One constructor per exception class that the code throws, with its message;
  \<open>Undefined\<close> is an access the language leaves undefined (a null pointer, an index out of
  the range of a raw array), kept as a value so that its absence can be proved.
\<close>

datatype error =
    Invalid_Argument string
  | Out_Of_Range string
  | Logic_Error string
  | Length_Error string
  | Runtime_Error string
  | Undefined string

type_synonym 'a result = "error + 'a"

definition rbind :: "'a result \<Rightarrow> ('a \<Rightarrow> 'b result) \<Rightarrow> 'b result" where
  "rbind m f = (case m of Inl e \<Rightarrow> Inl e | Inr x \<Rightarrow> f x)"

lemma rbind_Inl [simp]: "rbind (Inl e) f = Inl e"
  by (simp add: rbind_def)

lemma rbind_Inr [simp]: "rbind (Inr x) f = f x"
  by (simp add: rbind_def)

lemma rbind_eq_Inr_conv: "rbind m f = Inr y \<longleftrightarrow> (\<exists>x. m = Inr x \<and> f x = Inr y)"
  by (cases m) auto

lemma rbind_eq_Inl_conv:
  "rbind m f = Inl e \<longleftrightarrow> m = Inl e \<or> (\<exists>x. m = Inr x \<and> f x = Inl e)"
  by (cases m) auto

lemma rbind_assoc: "rbind (rbind m f) g = rbind m (\<lambda>x. rbind (f x) g)"
  by (cases m) auto

lemma rbind_cong [fundef_cong]:
  "m = m' \<Longrightarrow> (\<And>x. m' = Inr x \<Longrightarrow> f x = f' x) \<Longrightarrow> rbind m f = rbind m' f'"
  by (cases m') auto

lemma rbind_InrE:
  assumes "rbind m f = Inr y"
  obtains x where "m = Inr x" and "f x = Inr y"
  using assms by (auto simp: rbind_eq_Inr_conv)

text \<open>\<open>require c e\<close> is the guard \<open>if (!c) throw e\<close>.\<close>

definition require :: "bool \<Rightarrow> error \<Rightarrow> unit result" where
  "require c e = (if c then Inr () else Inl e)"

lemma require_simps [simp]:
  "require True e = Inr ()"
  "require False e = Inl e"
  by (simp_all add: require_def)

lemma require_eq_Inr [simp]: "require c e = Inr u \<longleftrightarrow> c"
  by (simp add: require_def)

lemma require_eq_Inl [simp]: "require c e = Inl e' \<longleftrightarrow> \<not> c \<and> e = e'"
  by (auto simp: require_def)

text \<open>A loop over a sequence whose body may throw, with an accumulator.\<close>

fun rfold :: "('s \<Rightarrow> 'a \<Rightarrow> 's result) \<Rightarrow> 's \<Rightarrow> 'a list \<Rightarrow> 's result" where
  "rfold f s [] = Inr s"
| "rfold f s (x # xs) = rbind (f s x) (\<lambda>s'. rfold f s' xs)"

fun rmap :: "('a \<Rightarrow> 'b result) \<Rightarrow> 'a list \<Rightarrow> 'b list result" where
  "rmap f [] = Inr []"
| "rmap f (x # xs) = rbind (f x) (\<lambda>y. rbind (rmap f xs) (\<lambda>ys. Inr (y # ys)))"

lemma rfold_append: "rfold f s (xs @ ys) = rbind (rfold f s xs) (\<lambda>s'. rfold f s' ys)"
  by (induction xs arbitrary: s) (simp_all add: rbind_assoc)

lemma rfold_Inr: "(\<And>s x. x \<in> set xs \<Longrightarrow> f s x = Inr (g s x)) \<Longrightarrow> rfold f s xs = Inr (foldl g s xs)"
  by (induction xs arbitrary: s) simp_all

lemma rfold_invariant:
  assumes "rfold f s xs = Inr s'"
    and "P s"
    and "\<And>s x s'. x \<in> set xs \<Longrightarrow> P s \<Longrightarrow> f s x = Inr s' \<Longrightarrow> P s'"
  shows "P s'"
  using assms
proof (induction xs arbitrary: s)
  case (Cons x xs)
  then obtain t where "f s x = Inr t" and "rfold f t xs = Inr s'"
    by (auto simp: rbind_eq_Inr_conv)
  with Cons show ?case by (metis list.set_intros)
qed simp

lemma rmap_Inr: "(\<And>x. x \<in> set xs \<Longrightarrow> f x = Inr (g x)) \<Longrightarrow> rmap f xs = Inr (map g xs)"
  by (induction xs) simp_all

lemma rmap_length: "rmap f xs = Inr ys \<Longrightarrow> length ys = length xs"
  by (induction xs arbitrary: ys) (auto simp: rbind_eq_Inr_conv)

section \<open>Doubles\<close>

text \<open>The largest finite binary64 value; a real beyond it stands for an infinite double.\<close>

definition dbl_max :: real where
  "dbl_max = (2 - 1 / 2 ^ 52) * 2 ^ 1023"

definition isfinite :: "real \<Rightarrow> bool" where
  "isfinite x \<longleftrightarrow> \<bar>x\<bar> \<le> dbl_max"

lemma dbl_max_ge: "2 ^ 1023 \<le> dbl_max"
proof -
  have "(1::real) \<le> 2 - 1 / 2 ^ 52" by simp
  then have "(1::real) * 2 ^ 1023 \<le> (2 - 1 / 2 ^ 52) * 2 ^ 1023"
    by (intro mult_right_mono) simp_all
  then show ?thesis by (simp add: dbl_max_def)
qed

lemma isfinite_le: "\<bar>x\<bar> \<le> y \<Longrightarrow> y \<le> 2 ^ 1023 \<Longrightarrow> isfinite x"
  using dbl_max_ge by (simp add: isfinite_def)

lemma isfinite_numeral_small: "\<bar>x\<bar> \<le> 2 ^ 64 \<Longrightarrow> isfinite x"
proof (rule isfinite_le)
  show "(2::real) ^ 64 \<le> 2 ^ 1023" by (rule power_increasing) simp_all
qed

lemma isfinite_between: "isfinite a \<Longrightarrow> isfinite b \<Longrightarrow> a \<le> x \<Longrightarrow> x \<le> b \<Longrightarrow> isfinite x"
  by (auto simp: isfinite_def)

section \<open>Tolerances (core.hpp)\<close>

definition kEnergyToleranceWh :: real where "kEnergyToleranceWh = 1 / 10 ^ 6"
definition kTimeToleranceH :: real where "kTimeToleranceH = 1 / 10 ^ 9"
definition kCostTolerance :: real where "kCostTolerance = 1 / 10 ^ 9"

lemma tolerance_pos:
  "0 < kEnergyToleranceWh" "0 < kTimeToleranceH" "0 < kCostTolerance"
  "0 \<le> kEnergyToleranceWh" "0 \<le> kTimeToleranceH" "0 \<le> kCostTolerance"
  by (simp_all add: kEnergyToleranceWh_def kTimeToleranceH_def kCostTolerance_def)

lemmas tolerance_defs = kEnergyToleranceWh_def kTimeToleranceH_def kCostTolerance_def

text \<open>\<open>std::clamp (v, lo, hi)\<close>.\<close>

definition clamp :: "real \<Rightarrow> real \<Rightarrow> real \<Rightarrow> real" where
  "clamp v lo hi = (if v < lo then lo else if hi < v then hi else v)"

lemma clamp_bounds: "lo \<le> hi \<Longrightarrow> lo \<le> clamp v lo hi \<and> clamp v lo hi \<le> hi"
  by (simp add: clamp_def)

lemma clamp_id: "lo \<le> v \<Longrightarrow> v \<le> hi \<Longrightarrow> clamp v lo hi = v"
  by (simp add: clamp_def)

lemma clamp_mono: "lo \<le> hi \<Longrightarrow> v \<le> w \<Longrightarrow> clamp v lo hi \<le> clamp w lo hi"
  by (simp add: clamp_def)

section \<open>Lists and association lists\<close>

text \<open>
  \<open>std::unique\<close> with a predicate: an element is dropped when it is equivalent to the last
  one kept.
\<close>

fun unique_by :: "('a \<Rightarrow> 'a \<Rightarrow> bool) \<Rightarrow> 'a list \<Rightarrow> 'a list" where
  "unique_by p [] = []"
| "unique_by p [x] = [x]"
| "unique_by p (x # y # ys) =
     (if p x y then unique_by p (x # ys) else x # unique_by p (y # ys))"

lemma set_unique_by: "set (unique_by p xs) \<subseteq> set xs"
  by (induction p xs rule: unique_by.induct) auto

lemma set_unique_by_eq: "set (unique_by (=) xs) = set xs"
  by (induction "(=) :: 'a \<Rightarrow> 'a \<Rightarrow> bool" xs rule: unique_by.induct) auto

lemma sorted_unique_by: "sorted xs \<Longrightarrow> sorted (unique_by p xs)"
proof (induction p xs rule: unique_by.induct)
  case (3 p x y ys)
  have "set (unique_by p (y # ys)) \<subseteq> set (y # ys)" by (rule set_unique_by)
  with 3 show ?case by (auto dest!: subsetD)
qed simp_all

lemma distinct_unique_by:
  fixes xs :: "'a::linorder list"
  shows "sorted xs \<Longrightarrow> distinct (unique_by (=) xs)"
proof (induction "(=) :: 'a \<Rightarrow> 'a \<Rightarrow> bool" xs rule: unique_by.induct)
  case (3 x y ys)
  then show ?case
    by (auto simp: set_unique_by_eq)
qed simp_all

lemma sorted_map_le_last: "sorted (map f xs) \<Longrightarrow> x \<in> set xs \<Longrightarrow> f x \<le> f (last xs)"
  by (induction xs) auto

lemma sorted_map_hd_le: "sorted (map f xs) \<Longrightarrow> x \<in> set xs \<Longrightarrow> f (hd xs) \<le> f x"
  by (cases xs) auto

lemma map_of_delete [simp]: "map_of (AList.delete k al) = (map_of al)(k := None)"
  by (rule delete_conv')

lemma map_of_update [simp]: "map_of (AList.update k v al) = (map_of al)(k \<mapsto> v)"
  by (rule update_conv')

lemma map_of_eq_None_keys: "map_of al k = None \<longleftrightarrow> k \<notin> fst ` set al"
  by (rule map_of_eq_None_iff)

lemma length_delete_distinct:
  "distinct (map fst al) \<Longrightarrow>
    length (AList.delete k al) = (if k \<in> fst ` set al then length al - 1 else length al)"
proof (induction al)
  case (Cons a al)
  have "AList.delete k al = al" if "k \<notin> fst ` set al"
    using that by (auto simp: delete_id)
  with Cons show ?case by (auto split: if_splits simp: Suc_diff_1) (metis Suc_pred image_eqI length_pos_if_in_set prod.sel(1))+
qed simp

lemma update_new: "k \<notin> fst ` set al \<Longrightarrow> AList.update k v al = al @ [(k, v)]"
  by (induction al) auto

lemma mset_delete: "mset (AList.delete k al) = filter_mset (\<lambda>p. fst p \<noteq> k) (mset al)"
  by (induction al) auto

lemma length_update_keys:
  "length (AList.update k v al) = (if k \<in> fst ` set al then length al else Suc (length al))"
  by (induction al) auto


lemma map_of_filter_key: "map_of (filter (\<lambda>p. P (fst p)) al) x = (if P x then map_of al x else None)"
  by (induction al) auto

lemmas map_of_filter_keys [simp] =
  map_of_filter_key [where P = "\<lambda>x. x \<noteq> k" for k] map_of_filter_key [where P = "\<lambda>x. x = k" for k]

lemma map_of_move_back:
  "map_of (filter (\<lambda>p. fst p \<noteq> k) al @ [(k, v)]) = (map_of al)(k \<mapsto> v)"
  by (rule ext) (auto simp: map_add_def split: option.split)

lemma map_of_partition:
  "map_of (filter (\<lambda>p. fst p \<noteq> k) al @ filter (\<lambda>p. fst p = k) al) = map_of al"
  by (rule ext) (auto simp: map_add_def split: option.split)

lemma distinct_map_filter: "distinct (map f xs) \<Longrightarrow> distinct (map f (filter P xs))"
  by (induction xs) auto

lemma map_of_tl_le: "distinct (map fst al) \<Longrightarrow> map_of (tl al) \<subseteq>\<^sub>m map_of al"
  by (cases al) (auto simp: map_le_def map_of_eq_None_iff [symmetric])

lemma map_of_tl_last:
  "distinct (map fst (al @ [(k, v)])) \<Longrightarrow> al \<noteq> [] \<Longrightarrow> map_of (tl (al @ [(k, v)])) k = Some v"
  by (cases al) (auto simp: map_add_def map_of_eq_None_iff [symmetric])

section \<open>Decimal numerals\<close>

text \<open>\<open>std::to_string\<close> of an integer.\<close>

fun string_of_nat :: "nat \<Rightarrow> string" where
  "string_of_nat n =
     (if n < 10 then [''0123456789'' ! n]
      else string_of_nat (n div 10) @ [''0123456789'' ! (n mod 10)])"

declare string_of_nat.simps [simp del]

definition string_of_int :: "int \<Rightarrow> string" where
  "string_of_int i = (if i < 0 then CHR ''-'' # string_of_nat (nat (- i)) else string_of_nat (nat i))"

end
