(* ===== verification/Lru_Cache.thy ===== *)
theory Lru_Cache
  imports Prelude
begin

text \<open>
  The class template \<open>LruCache\<close> of include/ils_sp/lru_cache.hpp: a list of items from the
  least to the most recently used one, and an index from keys to list iterators.  An
  iterator is the identity of a list node, which \<open>splice\<close> keeps; a node is a triple of its
  identity, key and value.  The lemmas show that the index and the list agree after every
  operation, and refine the class to the plain recency list of (key, value) pairs.  The
  locale \<open>memo_cache\<close> is the contract that the memoising clients rely on.
\<close>

section \<open>State\<close>

type_synonym ('k, 'v) lru_node = "nat \<times> 'k \<times> 'v"

record ('k, 'v) lru_cache =
  capacity :: nat
  order :: "('k, 'v) lru_node list"
  index :: "('k \<times> nat) list"
  fresh_node :: nat
  hits :: nat
  misses :: nat
  evictions :: nat

definition lru_new :: "nat \<Rightarrow> ('k, 'v) lru_cache result" where
  "lru_new n =
     (if n = 0 then Inl (Invalid_Argument ''LRU capacity must be positive'')
      else Inr \<lparr>capacity = n, order = [], index = [], fresh_node = 0,
                hits = 0, misses = 0, evictions = 0\<rparr>)"

definition lru_size :: "('k, 'v) lru_cache \<Rightarrow> nat" where
  "lru_size c = length (index c)"

definition lru_contains :: "'k \<Rightarrow> ('k, 'v) lru_cache \<Rightarrow> bool" where
  "lru_contains k c = (map_of (index c) k \<noteq> None)"

section \<open>Operations\<close>

text \<open>The value an iterator points to; \<open>None\<close> would be a dangling iterator.\<close>

definition node_value :: "nat \<Rightarrow> ('k, 'v) lru_node list \<Rightarrow> 'v option" where
  "node_value it ns = map_option (\<lambda>n. snd (snd n)) (find (\<lambda>n. fst n = it) ns)"

text \<open>\<open>order_.splice (order_.end (), order_, it)\<close> moves one node to the back.\<close>

definition splice_back :: "nat \<Rightarrow> ('k, 'v) lru_node list \<Rightarrow> ('k, 'v) lru_node list" where
  "splice_back it ns = filter (\<lambda>n. fst n \<noteq> it) ns @ filter (\<lambda>n. fst n = it) ns"

definition set_value :: "nat \<Rightarrow> 'v \<Rightarrow> ('k, 'v) lru_node list \<Rightarrow> ('k, 'v) lru_node list" where
  "set_value it v ns = map (\<lambda>(i, k, w). if i = it then (i, k, v) else (i, k, w)) ns"

definition lru_get :: "'k \<Rightarrow> ('k, 'v) lru_cache \<Rightarrow> 'v option \<times> ('k, 'v) lru_cache" where
  "lru_get key c =
     (case map_of (index c) key of
        None \<Rightarrow> (None, c\<lparr>misses := Suc (misses c)\<rparr>)
      | Some it \<Rightarrow>
          (node_value it (order c),
           c\<lparr>order := splice_back it (order c), hits := Suc (hits c)\<rparr>))"

text \<open>Dropping the front item, shared by \<open>put\<close> and \<open>discard_oldest\<close>.\<close>

definition evict_front :: "('k, 'v) lru_cache \<Rightarrow> ('k, 'v) lru_cache" where
  "evict_front c =
     c\<lparr>index := AList.delete (fst (snd (hd (order c)))) (index c),
       order := tl (order c), evictions := Suc (evictions c)\<rparr>"

definition lru_put :: "'k \<Rightarrow> 'v \<Rightarrow> ('k, 'v) lru_cache \<Rightarrow> ('k, 'v) lru_cache" where
  "lru_put key v c =
     (case map_of (index c) key of
        Some it \<Rightarrow> c\<lparr>order := splice_back it (set_value it v (order c))\<rparr>
      | None \<Rightarrow>
          (let item = fresh_node c;
               c' = c\<lparr>order := order c @ [(item, key, v)],
                      index := AList.update key item (index c),
                      fresh_node := Suc item\<rparr>
           in if length (index c') > capacity c' then evict_front c' else c'))"

definition lru_clear :: "('k, 'v) lru_cache \<Rightarrow> ('k, 'v) lru_cache" where
  "lru_clear c = c\<lparr>order := [], index := []\<rparr>"

definition lru_discard_oldest :: "('k, 'v) lru_cache \<Rightarrow> 'v option \<times> ('k, 'v) lru_cache" where
  "lru_discard_oldest c =
     (case order c of [] \<Rightarrow> (None, c) | n # _ \<Rightarrow> (Some (snd (snd n)), evict_front c))"

section \<open>Invariant and abstraction\<close>

text \<open>The abstract state: the (key, value) pairs from least to most recently used.\<close>

definition lru_items :: "('k, 'v) lru_cache \<Rightarrow> ('k \<times> 'v) list" where
  "lru_items c = map snd (order c)"

text \<open>The index entry of a node.\<close>

definition node_entry :: "('k, 'v) lru_node \<Rightarrow> 'k \<times> nat" where
  "node_entry n = (fst (snd n), fst n)"

definition lru_ok :: "('k, 'v) lru_cache \<Rightarrow> bool" where
  "lru_ok c \<longleftrightarrow> 0 < capacity c \<and> length (order c) \<le> capacity c \<and>
     distinct (map fst (order c)) \<and> distinct (map fst (lru_items c)) \<and>
     mset (index c) = mset (map node_entry (order c)) \<and>
     (\<forall>n \<in> set (order c). fst n < fresh_node c)"

lemma lru_okD:
  assumes "lru_ok c"
  shows "0 < capacity c" "length (order c) \<le> capacity c" "distinct (map fst (order c))"
    "distinct (map fst (lru_items c))" "mset (index c) = mset (map node_entry (order c))"
    "\<And>n. n \<in> set (order c) \<Longrightarrow> fst n < fresh_node c"
  using assms by (auto simp: lru_ok_def)

lemma fst_node_entry [simp]: "fst (node_entry n) = fst (snd n)" "fst \<circ> node_entry = fst \<circ> snd"
  by (auto simp: node_entry_def)

lemma lru_index_eq: "lru_ok c \<Longrightarrow> map_of (index c) = map_of (map node_entry (order c))"
proof -
  assume ok: "lru_ok c"
  note d = lru_okD [OF ok]
  have "image_mset fst (mset (index c)) = mset (map fst (lru_items c))"
    unfolding d(5) by (simp add: lru_items_def flip: mset_map)
  then have "mset (map fst (index c)) = mset (map fst (lru_items c))"
    by simp
  then have "distinct (map fst (index c))"
    using d(4) by (metis mset_eq_imp_distinct_iff)
  moreover have "distinct (map fst (map node_entry (order c)))"
    using d(4) by (simp add: lru_items_def)
  moreover have "set (index c) = set (map node_entry (order c))"
    using d(5) by (rule mset_eq_setD)
  ultimately show ?thesis by (metis map_of_inject_set)
qed

lemma lru_index_iff:
  assumes "lru_ok c"
  shows "map_of (index c) k = Some it \<longleftrightarrow> (\<exists>v. (it, k, v) \<in> set (order c))"
proof -
  have "distinct (map fst (map node_entry (order c)))"
    using lru_okD(4) [OF assms] by (simp add: lru_items_def)
  then have "map_of (index c) k = Some it \<longleftrightarrow> (k, it) \<in> node_entry ` set (order c)"
    by (simp add: lru_index_eq [OF assms])
  then show ?thesis by (force simp: node_entry_def)
qed

lemma lru_index_None: "lru_ok c \<Longrightarrow> map_of (index c) k = None \<longleftrightarrow> k \<notin> fst ` set (lru_items c)"
  by (simp add: lru_index_eq map_of_eq_None_iff lru_items_def node_entry_def image_image)

lemma lru_size_items: "lru_ok c \<Longrightarrow> lru_size c = length (lru_items c)"
  using lru_okD(5) [of c] by (metis length_map lru_items_def lru_size_def mset_eq_length)

lemma node_value_in:
  assumes "distinct (map fst ns)" and "(it, k, v) \<in> set ns"
  shows "node_value it ns = Some v"
  using assms by (induction ns) (auto simp: node_value_def, force)

lemma splice_back_split:
  assumes "distinct (map fst (xs @ (it, k, v) # ys))"
  shows "splice_back it (xs @ (it, k, v) # ys) = xs @ ys @ [(it, k, v)]"
proof -
  have "filter (\<lambda>n. fst n \<noteq> it) xs = xs" "filter (\<lambda>n. fst n \<noteq> it) ys = ys"
    "filter (\<lambda>n. fst n = it) xs = []" "filter (\<lambda>n. fst n = it) ys = []"
    using assms by (force simp: filter_id_conv filter_empty_conv)+
  then show ?thesis by (simp add: splice_back_def)
qed

lemma set_value_split:
  assumes "distinct (map fst (xs @ (it, k, w) # ys))"
  shows "set_value it v (xs @ (it, k, w) # ys) = xs @ (it, k, v) # ys"
proof -
  have "set_value it v zs = zs" if "it \<notin> fst ` set zs" for zs :: "('a, 'b) lru_node list"
    using that by (induction zs) (auto simp: set_value_def)
  with assms show ?thesis by (auto simp: set_value_def image_iff)
qed

lemma filter_key_split:
  assumes "distinct (map fst (xs @ (k, v) # ys))"
  shows "filter (\<lambda>p. fst p \<noteq> k) (xs @ (k, v) # ys) = xs @ ys"
    and "filter (\<lambda>p. fst p = k) (xs @ (k, v) # ys) = [(k, v)]"
proof -
  have "fst p \<noteq> k" if "p \<in> set xs \<union> set ys" for p
    using assms that by force
  then have "filter (\<lambda>p. fst p \<noteq> k) xs = xs" "filter (\<lambda>p. fst p \<noteq> k) ys = ys"
    "filter (\<lambda>p. fst p = k) xs = []" "filter (\<lambda>p. fst p = k) ys = []"
    by (simp_all add: filter_id_conv filter_empty_conv)
  then show "filter (\<lambda>p. fst p \<noteq> k) (xs @ (k, v) # ys) = xs @ ys"
    and "filter (\<lambda>p. fst p = k) (xs @ (k, v) # ys) = [(k, v)]" by simp_all
qed

text \<open>Where a key is in the index, its node splits the list.\<close>

lemma lru_index_split:
  assumes "lru_ok c" and "map_of (index c) k = Some it"
  obtains xs v ys where "order c = xs @ (it, k, v) # ys"
    and "lru_items c = map snd xs @ (k, v) # map snd ys"
proof -
  from assms obtain v where "(it, k, v) \<in> set (order c)" by (auto simp: lru_index_iff)
  then obtain xs ys where "order c = xs @ (it, k, v) # ys" by (auto simp: in_set_conv_decomp)
  with that show ?thesis by (auto simp: lru_items_def)
qed

lemma lru_ok_reorder:
  assumes "lru_ok c" and "order c = xs @ (it, k, w) # ys"
  shows "lru_ok (c\<lparr>order := xs @ ys @ [(it, k, v)]\<rparr>)"
proof -
  note d = lru_okD [OF assms(1)]
  have "\<forall>n \<in> set (xs @ ys @ [(it, k, v)]). fst n < fresh_node c"
    using d(6) [of "(it, k, w)"] d(6) by (auto simp: assms(2))
  moreover have "mset (map node_entry (xs @ ys @ [(it, k, v)])) = mset (index c)"
    unfolding d(5) assms(2) by (simp add: node_entry_def)
  moreover have "distinct (map fst (xs @ ys @ [(it, k, v)]))"
    "distinct (map fst (map snd (xs @ ys @ [(it, k, v)])))"
    using d(3,4) by (auto simp: assms(2) lru_items_def)
  ultimately show ?thesis
    using d(1,2) by (simp add: lru_ok_def lru_items_def assms(2))
qed

lemma lru_ok_stats [simp]:
  "lru_ok (c\<lparr>hits := n\<rparr>) = lru_ok c" "lru_ok (c\<lparr>misses := n\<rparr>) = lru_ok c"
  "lru_ok (c\<lparr>evictions := n\<rparr>) = lru_ok c"
  by (simp_all add: lru_ok_def lru_items_def)

lemma lru_items_stats [simp]:
  "lru_items (c\<lparr>hits := n\<rparr>) = lru_items c" "lru_items (c\<lparr>misses := n\<rparr>) = lru_items c"
  "lru_items (c\<lparr>order := ns\<rparr>) = map snd ns"
  by (simp_all add: lru_items_def)

lemma lru_new_ok [inv_intros]: "lru_new n = Inr c \<Longrightarrow> lru_ok c \<and> lru_items c = [] \<and> capacity c = n"
  by (auto simp: lru_new_def lru_ok_def lru_items_def split: if_splits)

section \<open>Every operation on the recency list\<close>

lemma lru_get_miss:
  "map_of (index c) k = None \<Longrightarrow> lru_get k c = (None, c\<lparr>misses := Suc (misses c)\<rparr>)"
  by (simp add: lru_get_def)

lemma lru_get_hit:
  assumes "lru_ok c" and "map_of (index c) k = Some it"
  shows "lru_ok (snd (lru_get k c))"
    and "fst (lru_get k c) = map_of (lru_items c) k"
    and "lru_items (snd (lru_get k c)) =
      filter (\<lambda>p. fst p \<noteq> k) (lru_items c) @ filter (\<lambda>p. fst p = k) (lru_items c)"
proof -
  obtain xs v ys where o: "order c = xs @ (it, k, v) # ys"
    and i: "lru_items c = map snd xs @ (k, v) # map snd ys"
    using lru_index_split [OF assms] .
  note d = lru_okD [OF assms(1)]
  have splice: "splice_back it (order c) = xs @ ys @ [(it, k, v)]"
    using d(3) unfolding o by (rule splice_back_split)
  show "lru_ok (snd (lru_get k c))"
    using lru_ok_reorder [OF assms(1) o] assms(2) by (simp add: lru_get_def splice)
  have "node_value it (order c) = Some v"
    using d(3) by (rule node_value_in [where k = k]) (simp add: o)
  moreover have "map_of (lru_items c) k = Some v"
    using d(4) by (rule map_of_is_SomeI) (simp add: i)
  ultimately show "fst (lru_get k c) = map_of (lru_items c) k"
    using assms(2) by (simp add: lru_get_def)
  have "filter (\<lambda>p. fst p = k) (lru_items c) = [(k, v)]"
    using d(4) unfolding i by (rule filter_key_split)
  then show "lru_items (snd (lru_get k c)) =
      filter (\<lambda>p. fst p \<noteq> k) (lru_items c) @ filter (\<lambda>p. fst p = k) (lru_items c)"
    using assms(2) filter_key_split(1) [of "map snd xs" k v "map snd ys"] d(4)
    by (simp add: lru_get_def splice i)
qed

lemma evict_front_ok:
  assumes "0 < capacity c" "order c = n # ns" "length ns \<le> capacity c"
    "distinct (map fst (order c))" "distinct (map fst (lru_items c))"
    "mset (index c) = mset (map node_entry (order c))"
    "\<And>m. m \<in> set (order c) \<Longrightarrow> fst m < fresh_node c"
  shows "lru_ok (evict_front c)" and "lru_items (evict_front c) = tl (lru_items c)"
proof -
  have "fst (snd m) \<noteq> fst (snd n)" if "m \<in> set ns" for m
    using assms(2,5) that by (fastforce simp: lru_items_def image_iff)
  then have "filter_mset (\<lambda>p. fst p \<noteq> fst (snd n)) (mset (map node_entry ns)) = mset (map node_entry ns)"
    by (auto simp: filter_mset_eq_conv)
  then have "mset (AList.delete (fst (snd n)) (index c)) = mset (map node_entry ns)"
    by (simp add: mset_delete assms(6) assms(2))
  then show "lru_ok (evict_front c)"
    using assms by (simp add: lru_ok_def evict_front_def lru_items_def)
  show "lru_items (evict_front c) = tl (lru_items c)"
    by (simp add: evict_front_def lru_items_def map_tl)
qed

lemma lru_put_hit:
  assumes "lru_ok c" and "map_of (index c) k = Some it"
  shows "lru_ok (lru_put k v c)"
    and "lru_items (lru_put k v c) = filter (\<lambda>p. fst p \<noteq> k) (lru_items c) @ [(k, v)]"
proof -
  obtain xs w ys where o: "order c = xs @ (it, k, w) # ys"
    and i: "lru_items c = map snd xs @ (k, w) # map snd ys"
    using lru_index_split [OF assms] .
  note d = lru_okD [OF assms(1)]
  have "set_value it v (order c) = xs @ (it, k, v) # ys"
    using d(3) unfolding o by (rule set_value_split)
  moreover have "splice_back it (xs @ (it, k, v) # ys) = xs @ ys @ [(it, k, v)]"
    by (rule splice_back_split) (use d(3) in \<open>auto simp: o\<close>)
  ultimately have put: "lru_put k v c = c\<lparr>order := xs @ ys @ [(it, k, v)]\<rparr>"
    using assms(2) by (simp add: lru_put_def)
  then show "lru_ok (lru_put k v c)" using lru_ok_reorder [OF assms(1) o] by simp
  have "filter (\<lambda>p. fst p \<noteq> k) (lru_items c) = map snd xs @ map snd ys"
    using d(4) unfolding i by (rule filter_key_split)
  then show "lru_items (lru_put k v c) = filter (\<lambda>p. fst p \<noteq> k) (lru_items c) @ [(k, v)]"
    by (simp add: put)
qed

lemma lru_put_miss:
  assumes "lru_ok c" and "map_of (index c) k = None"
  shows "lru_ok (lru_put k v c)"
    and "lru_items (lru_put k v c) =
      (let l = lru_items c @ [(k, v)] in if length l > capacity c then tl l else l)"
proof -
  note d = lru_okD [OF assms(1)]
  define c' where "c' = c\<lparr>order := order c @ [(fresh_node c, k, v)],
    index := AList.update k (fresh_node c) (index c), fresh_node := Suc (fresh_node c)\<rparr>"
  have put: "lru_put k v c = (if length (index c') > capacity c then evict_front c' else c')"
    using assms(2) by (simp add: lru_put_def c'_def Let_def)
  have fresh: "k \<notin> fst ` set (lru_items c)" using assms by (simp add: lru_index_None)
  have upd: "AList.update k (fresh_node c) (index c) = index c @ [(k, fresh_node c)]"
    by (rule update_new) (use assms(2) in \<open>simp add: map_of_eq_None_iff\<close>)
  have items: "lru_items c' = lru_items c @ [(k, v)]" by (simp add: c'_def lru_items_def)
  have len: "length (index c') = length (lru_items c')"
    using lru_size_items [OF assms(1)] by (simp add: c'_def upd lru_size_def lru_items_def)
  have ok: "distinct (map fst (order c'))" "distinct (map fst (lru_items c'))"
    "mset (index c') = mset (map node_entry (order c'))"
    "\<And>m. m \<in> set (order c') \<Longrightarrow> fst m < fresh_node c'"
  proof -
    have "fresh_node c \<notin> fst ` set (order c)" using d(6) by fastforce
    with d(3) show "distinct (map fst (order c'))" by (simp add: c'_def)
    show "distinct (map fst (lru_items c'))" using d(4) fresh by (simp add: items)
    show "mset (index c') = mset (map node_entry (order c'))"
      using d(5) by (simp add: c'_def upd node_entry_def)
    show "fst m < fresh_node c'" if "m \<in> set (order c')" for m
      using that d(6) [of m] by (auto simp: c'_def)
  qed
  have cap: "capacity c' = capacity c" "length (order c') \<le> Suc (capacity c)"
    using d(2) by (simp_all add: c'_def)
  obtain n ns where o: "order c' = n # ns" by (cases "order c'") (auto simp: c'_def)
  show "lru_ok (lru_put k v c)"
  proof (cases "length (index c') > capacity c")
    case True
    have "lru_ok (evict_front c')"
      by (rule evict_front_ok [OF _ o]) (use d(1) cap o ok in auto)
    with True show ?thesis by (simp add: put)
  next
    case False
    with ok d(1) cap(1) len show ?thesis by (simp add: put lru_ok_def lru_items_def)
  qed
  show "lru_items (lru_put k v c) =
      (let l = lru_items c @ [(k, v)] in if length l > capacity c then tl l else l)"
    using evict_front_ok(2) [OF _ o] d(1) cap o ok len items by (auto simp: put Let_def)
qed

lemma lru_put_spec:
  assumes "lru_ok c"
  shows "lru_items (lru_put k v c) =
      (let l = filter (\<lambda>p. fst p \<noteq> k) (lru_items c) @ [(k, v)]
       in if length l > capacity c then tl l else l)"
proof (cases "map_of (index c) k")
  case None
  then have "k \<notin> fst ` set (lru_items c)" using assms by (simp add: lru_index_None)
  then have "filter (\<lambda>p. fst p \<noteq> k) (lru_items c) = lru_items c"
    by (force simp: filter_id_conv)
  then show ?thesis using lru_put_miss [OF assms None] by simp
next
  case (Some it)
  obtain xs w ys where o: "order c = xs @ (it, k, w) # ys"
    and "lru_items c = map snd xs @ (k, w) # map snd ys"
    using lru_index_split [OF assms Some] .
  then have "length (filter (\<lambda>p. fst p \<noteq> k) (lru_items c)) < capacity c"
    using lru_okD(2,4) [OF assms] filter_key_split(1) [of "map snd xs" k w "map snd ys"] by simp
  then show ?thesis using lru_put_hit [OF assms Some] by simp
qed

lemma lru_put_ok [inv_intros]: "lru_ok c \<Longrightarrow> lru_ok (lru_put k v c)"
  using lru_put_hit(1) lru_put_miss(1) by (cases "map_of (index c) k") fastforce+

lemma lru_get_spec:
  assumes "lru_ok c"
  shows "fst (lru_get k c) = map_of (lru_items c) k"
    and "lru_items (snd (lru_get k c)) =
      filter (\<lambda>p. fst p \<noteq> k) (lru_items c) @ filter (\<lambda>p. fst p = k) (lru_items c)"
proof -
  have miss: "filter (\<lambda>p. fst p \<noteq> k) (lru_items c) = lru_items c"
    "filter (\<lambda>p. fst p = k) (lru_items c) = []" "map_of (lru_items c) k = None"
    if "map_of (index c) k = None"
  proof -
    have "k \<notin> fst ` set (lru_items c)" using that lru_index_None [OF assms] by simp
    then have "fst p \<noteq> k" if "p \<in> set (lru_items c)" for p using that by force
    then show "filter (\<lambda>p. fst p \<noteq> k) (lru_items c) = lru_items c"
      "filter (\<lambda>p. fst p = k) (lru_items c) = []"
      by (simp_all add: filter_id_conv filter_empty_conv)
    show "map_of (lru_items c) k = None"
      using \<open>k \<notin> fst ` set (lru_items c)\<close> by (simp add: map_of_eq_None_iff)
  qed
  show "fst (lru_get k c) = map_of (lru_items c) k"
    using lru_get_hit(2) [OF assms] miss(3) lru_get_miss by (cases "map_of (index c) k") fastforce+
  show "lru_items (snd (lru_get k c)) =
      filter (\<lambda>p. fst p \<noteq> k) (lru_items c) @ filter (\<lambda>p. fst p = k) (lru_items c)"
    using lru_get_hit(3) [OF assms] miss(1,2)
    by (cases "map_of (index c) k") (simp_all add: lru_get_miss)
qed

lemma lru_get_ok [inv_intros]: "lru_ok c \<Longrightarrow> lru_ok (snd (lru_get k c))"
  using lru_get_hit(1) by (cases "map_of (index c) k") (fastforce simp: lru_get_miss)+

lemma lru_capacity [simp]:
  "capacity (lru_put k v c) = capacity c" "capacity (snd (lru_get k c)) = capacity c"
  by (auto simp: lru_put_def lru_get_def Let_def evict_front_def split: option.split)

section \<open>Properties\<close>

text \<open>
  Every operation of the cache refines the recency list.  Storing a key moves it
  to the most recently used end and, beyond the capacity, drops exactly the least recently
  used pair; looking a key up returns its value and moves it to that end.  The class invariant
  is kept and the capacity never changes.
\<close>

theorem lru_refines_recency_list:
  assumes "lru_ok c"
  shows "lru_ok (lru_put k v c) \<and> capacity (lru_put k v c) = capacity c \<and>
    lru_items (lru_put k v c) =
      (let l = filter (\<lambda>p. fst p \<noteq> k) (lru_items c) @ [(k, v)]
       in if length l > capacity c then tl l else l) \<and>
    lru_ok (snd (lru_get k c)) \<and> capacity (snd (lru_get k c)) = capacity c \<and>
    fst (lru_get k c) = map_of (lru_items c) k \<and>
    lru_items (snd (lru_get k c)) =
      filter (\<lambda>p. fst p \<noteq> k) (lru_items c) @ filter (\<lambda>p. fst p = k) (lru_items c)"
  using lru_put_ok [OF assms] lru_put_spec [OF assms] lru_get_ok [OF assms] lru_get_spec [OF assms]
  by simp

theorem lru_refines_recency_list_witness:
  "\<exists>c :: (nat, nat) lru_cache. lru_ok c \<and> lru_items (lru_put 2 7 c) = [(2, 7)]"
proof -
  define c where "c = lru_put (1 :: nat) (5 :: nat)
    \<lparr>capacity = 1, order = [], index = [], fresh_node = 0, hits = 0, misses = 0, evictions = 0\<rparr>"
  have ok: "lru_ok c" "lru_items c = [(1, 5)]" "capacity c = 1"
    by (simp_all add: c_def lru_put_def lru_ok_def lru_items_def node_entry_def)
  from lru_refines_recency_list [OF ok(1), of 2 7] ok show ?thesis by auto
qed

section \<open>The contract of a memoising client\<close>

text \<open>
  A client that stores results of a function keeps \<open>memo_agrees\<close>: whatever the cache
  holds is what the function returns.
\<close>

definition memo_agrees :: "('k \<Rightarrow> 'v option) \<Rightarrow> ('k \<Rightarrow> 'v result) \<Rightarrow> bool" where
  "memo_agrees look f \<longleftrightarrow> (\<forall>k v. look k = Some v \<longrightarrow> f k = Inr v)"

locale memo_cache =
  fixes get :: "'k \<Rightarrow> 'c \<Rightarrow> 'v option \<times> 'c"
    and put :: "'k \<Rightarrow> 'v \<Rightarrow> 'c \<Rightarrow> 'c"
    and look :: "'c \<Rightarrow> 'k \<Rightarrow> 'v option"
    and invar :: "'c \<Rightarrow> bool"
  assumes get_value: "invar c \<Longrightarrow> fst (get k c) = look c k"
    and get_look: "invar c \<Longrightarrow> look (snd (get k c)) = look c"
    and get_invar: "invar c \<Longrightarrow> invar (snd (get k c))"
    and put_look: "invar c \<Longrightarrow> look (put k v c) \<subseteq>\<^sub>m (look c)(k \<mapsto> v)"
    and put_present: "invar c \<Longrightarrow> look (put k v c) k = Some v"
    and put_invar: "invar c \<Longrightarrow> invar (put k v c)"
begin

lemma hit_value:
  "invar c \<Longrightarrow> memo_agrees (look c) f \<Longrightarrow> get k c = (Some v, c') \<Longrightarrow> f k = Inr v"
  using get_value [of c k] by (auto simp: memo_agrees_def)

lemma get_agrees:
  "invar c \<Longrightarrow> memo_agrees (look c) f \<Longrightarrow> get k c = (r, c') \<Longrightarrow> invar c' \<and> memo_agrees (look c') f"
  using get_look [of c k] get_invar [of c k] by auto

lemma put_agrees:
  assumes "invar c" and "memo_agrees (look c) f" and "f k = Inr v"
  shows "invar (put k v c) \<and> memo_agrees (look (put k v c)) f"
proof -
  have "f k' = Inr v'" if found: "look (put k v c) k' = Some v'" for k' v'
  proof -
    have "((look c)(k \<mapsto> v)) k' = Some v'"
      using put_look [OF assms(1), of k v] found by (metis domI map_le_def)
    then show ?thesis using assms(2,3) by (auto simp: memo_agrees_def split: if_splits)
  qed
  then show ?thesis using put_invar [OF assms(1)] by (simp add: memo_agrees_def)
qed

end

lemma lru_look_put:
  assumes "lru_ok c"
  shows "map_of (lru_items (lru_put k v c)) \<subseteq>\<^sub>m (map_of (lru_items c))(k \<mapsto> v)"
    and "map_of (lru_items (lru_put k v c)) k = Some v"
proof -
  let ?rest = "filter (\<lambda>p. fst p \<noteq> k) (lru_items c)"
  note put = lru_put_spec [OF assms, of k v]
  have look: "map_of (?rest @ [(k, v)]) = (map_of (lru_items c))(k \<mapsto> v)"
    by (rule map_of_move_back)
  have dist: "distinct (map fst (?rest @ [(k, v)]))"
    using lru_okD(4) [OF assms] by (auto simp: distinct_map_filter)
  show "map_of (lru_items (lru_put k v c)) \<subseteq>\<^sub>m (map_of (lru_items c))(k \<mapsto> v)"
    using map_of_tl_le [OF dist] look by (auto simp: put Let_def)
  show "map_of (lru_items (lru_put k v c)) k = Some v"
  proof (cases "?rest = []")
    case True
    with lru_okD(1) [OF assms] show ?thesis by (simp add: put Let_def)
  next
    case False
    then have "map_of (tl (?rest @ [(k, v)])) k = Some v" by (rule map_of_tl_last [OF dist])
    moreover have "map_of (?rest @ [(k, v)]) k = Some v" by (simp only: look) simp
    ultimately show ?thesis by (simp only: put Let_def split: if_split) simp
  qed
qed


lemma lru_look_get:
  assumes "lru_ok c"
  shows "map_of (lru_items (snd (lru_get k c))) = map_of (lru_items c)"
  unfolding lru_get_spec(2) [OF assms] by (rule map_of_partition)

interpretation lru: memo_cache lru_get lru_put "\<lambda>c. map_of (lru_items c)" lru_ok
  by unfold_locales
    (auto simp: lru_look_get lru_get_spec(1) lru_get_ok lru_put_ok dest: lru_look_put)

end
