(* ===== verification/Charging_Curve.thy ===== *)
theory Charging_Curve
  imports Prelude
begin

text \<open>
  The piecewise linear charging curves of include/ils_sp/core.hpp and src/core.cpp: the
  class \<open>ChargingCurve\<close> with its checking constructor \<open>mk_curve\<close>, the inverse curve
  \<open>time_at_energy\<close>, \<open>charge_duration\<close>, \<open>marginal_rate_at\<close>, \<open>next_breakpoint_energy\<close> and the
  curve comparison \<open>charging_curve_no_slower\<close>.  The lemmas show that the constructor
  establishes \<open>curve_ok\<close>, that the inverse curve is bounded and monotone on the whole
  battery range, that charging durations are nonnegative and additive, and that inside one
  segment the duration is the energy divided by the marginal rate.
\<close>

section \<open>Data\<close>

record charging_point =
  time_h :: real
  energy_wh :: real

record charging_curve =
  curve_station_type :: string
  points :: "charging_point list"

text \<open>\<open>points_.back().energy_wh\<close>; the constructor rejects an empty list.\<close>

definition capacity_wh :: "charging_curve \<Rightarrow> real" where
  "capacity_wh c = energy_wh (last (points c))"

section \<open>The constructor\<close>

text \<open>The loop over the points, with the previous time and energy as its state.\<close>

fun check_points :: "real \<Rightarrow> real \<Rightarrow> charging_point list \<Rightarrow> bool" where
  "check_points previous_time previous_energy [] = True"
| "check_points previous_time previous_energy (p # ps) =
     (if \<not> isfinite (time_h p) \<or> \<not> isfinite (energy_wh p) \<or>
         time_h p < previous_time \<or> energy_wh p < previous_energy
      then False
      else check_points (time_h p) (energy_wh p) ps)"

definition mk_curve :: "string \<Rightarrow> charging_point list \<Rightarrow> charging_curve result" where
  "mk_curve ty ps =
     (if ty = [] \<or> length ps < 2 then Inl (Invalid_Argument ''charging curve is incomplete'')
      else if \<not> check_points (- 1) (- 1) ps
      then Inl (Invalid_Argument ''charging curve must be finite and monotone'')
      else if \<bar>time_h (hd ps)\<bar> > 1 / 10 ^ 12 \<or> \<bar>energy_wh (hd ps)\<bar> > 1 / 10 ^ 9
      then Inl (Invalid_Argument ''charging curve must begin at (0, 0)'')
      else Inr \<lparr>curve_station_type = ty, points = ps\<rparr>)"

section \<open>The inverse curve and the charging duration\<close>

text \<open>
  The loop over the segments: the first segment whose right end reaches the energy gives
  the interpolated time; past the last point the last time is returned.
\<close>

fun time_scan :: "real \<Rightarrow> charging_point list \<Rightarrow> real" where
  "time_scan energy (left # right # ps) =
     (if energy \<le> energy_wh right
      then (let delta_energy = energy_wh right - energy_wh left
            in if delta_energy = 0 then time_h left
               else (let ratio = (energy - energy_wh left) / delta_energy
                     in time_h left + ratio * (time_h right - time_h left)))
      else time_scan energy (right # ps))"
| "time_scan energy [p] = time_h p"
| "time_scan energy [] = 0"

definition time_at_energy :: "charging_curve \<Rightarrow> real \<Rightarrow> real result" where
  "time_at_energy c e =
     (if \<not> isfinite e \<or> e < - kEnergyToleranceWh \<or> e > capacity_wh c + kEnergyToleranceWh
      then Inl (Out_Of_Range ''energy is outside the charging curve'')
      else Inr (time_scan (clamp e 0 (capacity_wh c)) (points c)))"

definition charge_duration :: "charging_curve \<Rightarrow> real \<Rightarrow> real \<Rightarrow> real result" where
  "charge_duration c arrival departure =
     (if departure < arrival - 1 / 10 ^ 7
      then Inl (Invalid_Argument ''a charging event cannot discharge the battery'')
      else rbind (time_at_energy c departure) (\<lambda>t_departure.
           rbind (time_at_energy c arrival) (\<lambda>t_arrival.
           Inr (t_departure - t_arrival))))"

section \<open>Marginal rate and breakpoints\<close>

text \<open>A rate is a double that the code sets to infinity on a vertical segment.\<close>

datatype rate = Finite_Rate real | Infinite_Rate

fun isinf_rate :: "rate \<Rightarrow> bool" where
  "isinf_rate Infinite_Rate = True"
| "isinf_rate (Finite_Rate r) = False"

fun rate_scan :: "real \<Rightarrow> charging_point list \<Rightarrow> rate" where
  "rate_scan energy (left # right # ps) =
     (if energy < energy_wh right - 1 / 10 ^ 8
      then (let delta_time = time_h right - time_h left
            in if delta_time \<le> 1 / 10 ^ 15 then Infinite_Rate
               else Finite_Rate ((energy_wh right - energy_wh left) / delta_time))
      else rate_scan energy (right # ps))"
| "rate_scan energy [p] = Finite_Rate 0"
| "rate_scan energy [] = Finite_Rate 0"

definition marginal_rate_at :: "charging_curve \<Rightarrow> real \<Rightarrow> rate" where
  "marginal_rate_at c e =
     (if e \<ge> capacity_wh c - 1 / 10 ^ 8 then Finite_Rate 0
      else rate_scan (max 0 e) (points c))"

fun breakpoint_scan :: "real \<Rightarrow> charging_point list \<Rightarrow> real option" where
  "breakpoint_scan e [] = None"
| "breakpoint_scan e (p # ps) =
     (if energy_wh p > e + 1 / 10 ^ 8 then Some (energy_wh p) else breakpoint_scan e ps)"

definition next_breakpoint_energy :: "charging_curve \<Rightarrow> real \<Rightarrow> real" where
  "next_breakpoint_energy c e =
     (case breakpoint_scan e (tl (points c)) of None \<Rightarrow> capacity_wh c | Some b \<Rightarrow> b)"

section \<open>Comparing two curves\<close>

fun intervals_no_slower ::
  "charging_curve \<Rightarrow> charging_curve \<Rightarrow> real list \<Rightarrow> bool result" where
  "intervals_no_slower l r (start # finish # bs) =
     (if finish \<le> start + kEnergyToleranceWh then intervals_no_slower l r (finish # bs)
      else rbind (charge_duration l start finish) (\<lambda>dl.
           rbind (charge_duration r start finish) (\<lambda>dr.
           if dl > dr + kTimeToleranceH then Inr False
           else intervals_no_slower l r (finish # bs))))"
| "intervals_no_slower l r [b] = Inr True"
| "intervals_no_slower l r [] = Inr True"

definition merged_breakpoints :: "charging_curve \<Rightarrow> charging_curve \<Rightarrow> real list" where
  "merged_breakpoints l r =
     unique_by (\<lambda>first second. \<bar>first - second\<bar> \<le> kEnergyToleranceWh)
       (sort (map energy_wh (points l) @ map energy_wh (points r)))"

definition charging_curve_no_slower :: "charging_curve \<Rightarrow> charging_curve \<Rightarrow> bool result" where
  "charging_curve_no_slower l r = intervals_no_slower l r (merged_breakpoints l r)"

section \<open>The class invariant\<close>

definition points_mono :: "charging_point list \<Rightarrow> bool" where
  "points_mono ps \<longleftrightarrow> sorted (map time_h ps) \<and> sorted (map energy_wh ps)"

text \<open>
  What every constructed curve satisfies.  The first point is the origin up to the two
  tolerances of the constructor; \<open>curve_exact\<close> is the case of a first point (0, 0).
\<close>

definition curve_ok :: "charging_curve \<Rightarrow> bool" where
  "curve_ok c \<longleftrightarrow> curve_station_type c \<noteq> [] \<and> 2 \<le> length (points c) \<and> points_mono (points c) \<and>
     (\<forall>p \<in> set (points c). isfinite (time_h p) \<and> isfinite (energy_wh p)) \<and>
     \<bar>time_h (hd (points c))\<bar> \<le> 1 / 10 ^ 12 \<and> \<bar>energy_wh (hd (points c))\<bar> \<le> 1 / 10 ^ 9"

definition curve_exact :: "charging_curve \<Rightarrow> bool" where
  "curve_exact c \<longleftrightarrow> curve_ok c \<and> time_h (hd (points c)) = 0 \<and> energy_wh (hd (points c)) = 0"

lemma points_mono_Cons [simp]:
  "points_mono (p # q # ps) \<longleftrightarrow>
    time_h p \<le> time_h q \<and> energy_wh p \<le> energy_wh q \<and> points_mono (q # ps)"
  by (auto simp: points_mono_def)

lemma points_mono_single [simp]: "points_mono [p]" "points_mono []"
  by (simp_all add: points_mono_def)

lemma check_points_iff:
  "check_points t e ps \<longleftrightarrow> points_mono ps \<and>
    (\<forall>p \<in> set ps. isfinite (time_h p) \<and> isfinite (energy_wh p)) \<and>
    (ps \<noteq> [] \<longrightarrow> t \<le> time_h (hd ps) \<and> e \<le> energy_wh (hd ps))"
proof (induction t e ps rule: check_points.induct)
  case (2 t e p ps)
  then show ?case by (cases ps) auto
qed simp

text \<open>The constructor succeeds exactly on the lists that satisfy the invariant.\<close>

lemma mk_curve_iff: "mk_curve ty ps = Inr c \<longleftrightarrow> c = \<lparr>curve_station_type = ty, points = ps\<rparr> \<and> curve_ok c"
proof -
  have small: "(1::real) / 10 ^ 12 \<le> 1" "(1::real) / 10 ^ 9 \<le> 1" by simp_all
  show ?thesis
    by (cases ps) (use small in \<open>auto simp: mk_curve_def curve_ok_def check_points_iff Suc_le_eq\<close>)
qed

section \<open>Monotonicity and bounds of the inverse curve\<close>

lemma time_scan_le_last:
  "points_mono ps \<Longrightarrow> ps \<noteq> [] \<Longrightarrow> time_scan e ps \<le> time_h (last ps)"
proof (induction e ps rule: time_scan.induct)
  case (1 e l r ps)
  have last: "time_h r \<le> time_h (last (r # ps))"
    using "1.prems"(1) by (auto simp: points_mono_def)
  show ?case
  proof (cases "e \<le> energy_wh r")
    case True
    define d where "d = energy_wh r - energy_wh l"
    show ?thesis
    proof (cases "d = 0")
      case True
      with \<open>e \<le> energy_wh r\<close> "1.prems" last show ?thesis by (auto simp: Let_def d_def)
    next
      case False
      with "1.prems" have "0 < d" by (auto simp: d_def)
      have "(e - energy_wh l) / d \<le> 1"
        using True \<open>0 < d\<close> by (simp add: d_def)
      then have "(e - energy_wh l) / d * (time_h r - time_h l) \<le> 1 * (time_h r - time_h l)"
        by (rule mult_right_mono) (use "1.prems"(1) in auto)
      with True False last show ?thesis by (auto simp: Let_def d_def)
    qed
  next
    case False
    with "1" show ?thesis by auto
  qed
qed simp_all

lemma time_scan_ge_hd:
  "points_mono ps \<Longrightarrow> ps \<noteq> [] \<Longrightarrow> energy_wh (hd ps) \<le> e \<Longrightarrow> time_h (hd ps) \<le> time_scan e ps"
proof (induction e ps rule: time_scan.induct)
  case (1 e l r ps)
  show ?case
  proof (cases "e \<le> energy_wh r")
    case True
    have "0 \<le> (e - energy_wh l) / (energy_wh r - energy_wh l) * (time_h r - time_h l)"
      using "1.prems" by auto
    with True show ?thesis by (auto simp: Let_def)
  next
    case False
    with "1" show ?thesis by auto
  qed
qed simp_all

lemma time_scan_mono:
  "points_mono ps \<Longrightarrow> ps \<noteq> [] \<Longrightarrow> a \<le> b \<Longrightarrow> time_scan a ps \<le> time_scan b ps"
proof (induction a ps rule: time_scan.induct)
  case (1 a l r ps)
  define seg where "seg e = time_h l + (e - energy_wh l) / (energy_wh r - energy_wh l) *
    (time_h r - time_h l)" for e
  have step: "time_scan e (l # r # ps) =
      (if e \<le> energy_wh r then (if energy_wh r = energy_wh l then time_h l else seg e)
       else time_scan e (r # ps))" for e
    by (simp add: Let_def seg_def)
  consider "b \<le> energy_wh r" | "a \<le> energy_wh r" "energy_wh r < b" | "energy_wh r < a"
    by linarith
  then show ?case
  proof cases
    case 1
    have "seg a \<le> seg b"
      unfolding seg_def using "1.prems"
      by (intro add_left_mono mult_right_mono divide_right_mono) auto
    with 1 "1.prems" show ?thesis by (simp only: step) auto
  next
    case 2
    have "time_scan a (l # r # ps) \<le> time_h r"
      using time_scan_le_last [of "[l, r]" a] 2 "1.prems" by (simp split: if_splits)
    also have "\<dots> \<le> time_scan b (r # ps)"
      using time_scan_ge_hd [of "r # ps" b] 2 "1.prems" by simp
    finally show ?thesis using 2 by (simp add: step)
  next
    case 3
    with "1" show ?thesis by auto
  qed
qed simp_all


section \<open>The curve on the battery range\<close>

text \<open>The time at an energy, as the real number the code returns on the battery range.\<close>

definition curve_time :: "charging_curve \<Rightarrow> real \<Rightarrow> real" where
  "curve_time c e = time_scan e (points c)"

lemma curve_okD:
  assumes "curve_ok c"
  shows "points_mono (points c)" and "points c \<noteq> []" and "isfinite (capacity_wh c)"
    and "2 \<le> length (points c)" and "energy_wh (hd (points c)) \<le> 1 / 10 ^ 9"
proof -
  show ne: "points c \<noteq> []" using assms by (auto simp: curve_ok_def)
  show "points_mono (points c)" "2 \<le> length (points c)" "energy_wh (hd (points c)) \<le> 1 / 10 ^ 9"
    using assms by (auto simp: curve_ok_def)
  show "isfinite (capacity_wh c)"
    using assms ne by (simp add: curve_ok_def capacity_wh_def)
qed

lemma curve_exactD:
  assumes "curve_exact c"
  shows "points_mono (points c)" and "points c \<noteq> []"
    and "energy_wh (hd (points c)) = 0" and "time_h (hd (points c)) = 0"
    and "0 \<le> capacity_wh c" and "isfinite (capacity_wh c)"
proof -
  from assms show "points_mono (points c)" and ne: "points c \<noteq> []"
    and hd: "energy_wh (hd (points c)) = 0" and "time_h (hd (points c)) = 0"
    by (auto simp: curve_exact_def curve_ok_def)
  from assms ne show "isfinite (capacity_wh c)"
    by (auto simp: curve_exact_def curve_ok_def capacity_wh_def)
  have "energy_wh (hd (points c)) \<le> energy_wh (last (points c))"
    by (rule sorted_map_hd_le) (use assms ne in \<open>auto simp: curve_exact_def curve_ok_def points_mono_def\<close>)
  with hd show "0 \<le> capacity_wh c" by (simp add: capacity_wh_def)
qed

lemma isfinite_on_battery: "curve_ok c \<Longrightarrow> 0 \<le> e \<Longrightarrow> e \<le> capacity_wh c \<Longrightarrow> isfinite e"
  using curve_okD(3) [of c] by (auto simp: isfinite_def)

lemma time_at_energy_eq:
  "curve_ok c \<Longrightarrow> 0 \<le> e \<Longrightarrow> e \<le> capacity_wh c \<Longrightarrow> time_at_energy c e = Inr (curve_time c e)"
  using isfinite_on_battery [of c e] tolerance_pos(1)
  by (simp add: time_at_energy_def curve_time_def clamp_id)

lemma charge_duration_eq:
  assumes "curve_ok c" and "0 \<le> a" and "a \<le> b" and "b \<le> capacity_wh c"
  shows "charge_duration c a b = Inr (curve_time c b - curve_time c a)"
  using assms time_at_energy_eq [of c a] time_at_energy_eq [of c b]
  by (simp add: charge_duration_def)

lemma curve_time_mono: "curve_ok c \<Longrightarrow> a \<le> b \<Longrightarrow> curve_time c a \<le> curve_time c b"
  using curve_okD [of c] by (auto simp: curve_time_def intro: time_scan_mono)

lemma curve_exact_ok: "curve_exact c \<Longrightarrow> curve_ok c"
  by (simp add: curve_exact_def)

lemma curve_time_nonneg: "curve_exact c \<Longrightarrow> 0 \<le> e \<Longrightarrow> 0 \<le> curve_time c e"
  using curve_exactD [of c] time_scan_ge_hd [of "points c" e] by (auto simp: curve_time_def)

lemma curve_time_le_last: "curve_ok c \<Longrightarrow> curve_time c e \<le> time_h (last (points c))"
  using curve_okD [of c] time_scan_le_last [of "points c" e] by (auto simp: curve_time_def)

lemma curve_time_0:
  assumes "curve_exact c" shows "curve_time c 0 = 0"
proof -
  obtain l r ps where "points c = l # r # ps"
    using assms by (cases "points c"; cases "tl (points c)") (auto simp: curve_exact_def curve_ok_def)
  with assms show ?thesis
    by (auto simp: curve_exact_def curve_ok_def curve_time_def Let_def)
qed

section \<open>Marginal rate of a segment\<close>

text \<open>
  The rate and the next breakpoint are read with a tolerance of 1e-8 below each breakpoint.
  Outside those windows, and on a curve whose energies strictly increase, the rate is the
  slope of the segment that holds the energy.
\<close>

definition off_window :: "real \<Rightarrow> charging_point list \<Rightarrow> bool" where
  "off_window e ps \<longleftrightarrow> (\<forall>p \<in> set ps. e < energy_wh p - 1 / 10 ^ 8 \<or> energy_wh p \<le> e)"

definition energies_strict :: "charging_point list \<Rightarrow> bool" where
  "energies_strict ps \<longleftrightarrow> sorted_wrt (<) (map energy_wh ps)"

lemma segment_rate:
  assumes "points_mono ps" and "energies_strict ps" and "ps \<noteq> []" and "energy_wh (hd ps) \<le> e"
    and "off_window e ps" and "breakpoint_scan e (tl ps) = Some b"
    and "rate_scan e ps = Finite_Rate r" and "0 < r" and "0 \<le> x" and "e + x \<le> b"
  shows "time_scan (e + x) ps - time_scan e ps = x / r"
  using assms
proof (induction e ps rule: rate_scan.induct)
  case (1 e l q ps)
  show ?case
  proof (cases "e < energy_wh q - 1 / 10 ^ 8")
    case True
    with "1.prems" have b: "b = energy_wh q" and dt: "0 < time_h q - time_h l"
      and r: "r = (energy_wh q - energy_wh l) / (time_h q - time_h l)"
      by (auto simp: Let_def split: if_splits)
    have de: "0 < energy_wh q - energy_wh l"
      using "1.prems" by (auto simp: energies_strict_def)
    have "time_scan y (l # q # ps) = time_h l + (y - energy_wh l) / r" if "y \<le> energy_wh q" for y
      using that de by (simp add: Let_def r divide_simps)
    from this [of e] this [of "e + x"] "1.prems" b show ?thesis
      by (simp add: add_divide_distrib diff_divide_distrib)
  next
    case False
    then have le: "energy_wh q \<le> e" using "1.prems"(5) by (auto simp: off_window_def)
    have de: "0 < energy_wh q - energy_wh l"
      using "1.prems" by (auto simp: energies_strict_def)
    have shift: "time_scan y (l # q # ps) = time_scan y (q # ps)" if "energy_wh q \<le> y" for y
    proof (cases "y = energy_wh q")
      case True
      with de "1.prems"(2) show ?thesis
        by (cases ps) (auto simp: Let_def energies_strict_def)
    qed (use that in auto)
    have "off_window e (q # ps)" "energies_strict (q # ps)" "points_mono (q # ps)"
      using "1.prems" by (auto simp: off_window_def energies_strict_def)
    moreover have "rate_scan e (q # ps) = Finite_Rate r"
      using "1.prems" False by simp
    moreover have "breakpoint_scan e (tl (q # ps)) = Some b"
      using "1.prems" le by simp
    ultimately have "time_scan (e + x) (q # ps) - time_scan e (q # ps) = x / r"
      using "1.IH" [OF False] le "1.prems" by auto
    with shift [of e] shift [of "e + x"] le "1.prems" show ?thesis by auto
  qed
qed auto

lemma breakpoint_scan_Some:
  "breakpoint_scan e ps = Some b \<Longrightarrow> e + 1 / 10 ^ 8 < b \<and> (\<exists>p \<in> set ps. b = energy_wh p)"
  by (induction e ps rule: breakpoint_scan.induct) (auto split: if_splits)

lemma breakpoint_scan_None:
  "breakpoint_scan e ps = None \<Longrightarrow> p \<in> set ps \<Longrightarrow> energy_wh p \<le> e + 1 / 10 ^ 8"
  by (induction e ps rule: breakpoint_scan.induct) (auto split: if_splits)

lemma points_le_capacity:
  "points_mono (points c) \<Longrightarrow> p \<in> set (points c) \<Longrightarrow> energy_wh p \<le> capacity_wh c"
  by (auto simp: points_mono_def capacity_wh_def intro: sorted_map_le_last)

text \<open>A breakpoint above the energy lies at most at the capacity; with none the slack ends there.\<close>

lemma next_breakpoint_le_capacity:
  assumes "curve_ok c" shows "next_breakpoint_energy c e \<le> capacity_wh c"
proof (cases "breakpoint_scan e (tl (points c))")
  case (Some b)
  then obtain p where "p \<in> set (tl (points c))" and "b = energy_wh p"
    by (blast dest: breakpoint_scan_Some)
  with Some assms show ?thesis
    by (auto simp: next_breakpoint_energy_def dest: curve_okD intro!: points_le_capacity
        list.set_sel(2))
qed (simp add: next_breakpoint_energy_def)

lemma rate_scan_nonneg: "points_mono ps \<Longrightarrow> rate_scan e ps = Finite_Rate r \<Longrightarrow> 0 \<le> r"
  by (induction e ps rule: rate_scan.induct) (auto simp: Let_def split: if_splits)

lemma marginal_rate_nonneg: "curve_ok c \<Longrightarrow> marginal_rate_at c e = Finite_Rate r \<Longrightarrow> 0 \<le> r"
  using curve_okD(1) [of c] by (auto simp: marginal_rate_at_def split: if_splits intro: rate_scan_nonneg)


section \<open>Soundness of the curve comparison\<close>

text \<open>
  The kept breakpoints are more than the energy tolerance apart, so the skip inside the
  comparison loop never fires; on two curves of one capacity the comparison returns.
\<close>

definition spread :: "real list \<Rightarrow> bool" where
  "spread bs \<longleftrightarrow> sorted_wrt (\<lambda>a b. a + kEnergyToleranceWh < b) bs"

lemma unique_by_spread:
  "sorted bs \<Longrightarrow> spread (unique_by (\<lambda>a b. \<bar>a - b\<bar> \<le> kEnergyToleranceWh) bs)"
proof (induction "\<lambda>a b :: real. \<bar>a - b\<bar> \<le> kEnergyToleranceWh" bs rule: unique_by.induct)
  case (3 x y ys)
  let ?p = "\<lambda>a b :: real. \<bar>a - b\<bar> \<le> kEnergyToleranceWh"
  show ?case
  proof (cases "?p x y")
    case True
    with 3 show ?thesis by auto
  next
    case False
    have "set (unique_by ?p (y # ys)) \<subseteq> set (y # ys)" by (rule set_unique_by)
    with False 3(3) have "\<forall>z \<in> set (unique_by ?p (y # ys)). x + kEnergyToleranceWh < z" by fastforce
    with False 3 show ?thesis by (simp add: spread_def)
  qed
qed (simp_all add: spread_def)

lemma merged_breakpoints_spread: "spread (merged_breakpoints l r)"
  unfolding merged_breakpoints_def by (rule unique_by_spread) simp

lemma merged_breakpoints_range:
  assumes "curve_exact l" and "curve_exact r" and "capacity_wh l = capacity_wh r"
    and "b \<in> set (merged_breakpoints l r)"
  shows "0 \<le> b \<and> b \<le> capacity_wh l"
proof -
  have "b \<in> energy_wh ` set (points l) \<union> energy_wh ` set (points r)"
    using assms(4) set_unique_by by (fastforce simp: merged_breakpoints_def)
  moreover have "0 \<le> energy_wh p \<and> energy_wh p \<le> capacity_wh c"
    if "curve_exact c" "p \<in> set (points c)" for c p
    using that curve_exactD [of c] sorted_map_hd_le [of energy_wh "points c" p]
    by (auto simp: points_mono_def intro: points_le_capacity)
  ultimately show ?thesis using assms(1-3) by (metis UnE imageE)
qed

definition on_battery :: "charging_curve \<Rightarrow> charging_curve \<Rightarrow> real list \<Rightarrow> bool" where
  "on_battery l r bs \<longleftrightarrow> (\<forall>b \<in> set bs. 0 \<le> b \<and> b \<le> capacity_wh l \<and> b \<le> capacity_wh r)"

lemma intervals_step:
  assumes "curve_exact l" and "curve_exact r" and "spread (a # b # bs)" and "on_battery l r (a # b # bs)"
  shows "intervals_no_slower l r (a # b # bs) =
    (if curve_time l b - curve_time l a > curve_time r b - curve_time r a + kTimeToleranceH
     then Inr False else intervals_no_slower l r (b # bs))"
proof -
  have "a + kEnergyToleranceWh < b" using assms(3) by (simp add: spread_def)
  with assms tolerance_pos(1) show ?thesis
    by (simp add: on_battery_def charge_duration_eq curve_exact_ok)
qed

lemma intervals_returns:
  "curve_exact l \<Longrightarrow> curve_exact r \<Longrightarrow> spread bs \<Longrightarrow> on_battery l r bs \<Longrightarrow>
    \<exists>v. intervals_no_slower l r bs = Inr v"
proof (induction bs rule: induct_list012)
  case (3 a b bs)
  then have "spread (b # bs)" "on_battery l r (b # bs)"
    by (auto simp: spread_def on_battery_def)
  with 3 intervals_step [of l r a b bs] show ?case by auto
qed auto

lemma intervals_sound:
  assumes "curve_exact l" and "curve_exact r" and "spread bs" and "on_battery l r bs"
    and "intervals_no_slower l r bs = Inr True" and "i \<le> j" and "j < length bs"
  shows "curve_time l (bs ! j) - curve_time l (bs ! i)
    \<le> curve_time r (bs ! j) - curve_time r (bs ! i) + real (j - i) * kTimeToleranceH"
  using assms(3-7)
proof (induction bs arbitrary: i j rule: induct_list012)
  case (3 a b bs)
  have tail: "spread (b # bs)" "on_battery l r (b # bs)"
    using "3.prems" by (auto simp: spread_def on_battery_def)
  have first: "curve_time l b - curve_time l a \<le> curve_time r b - curve_time r a + kTimeToleranceH"
    and rest: "intervals_no_slower l r (b # bs) = Inr True"
    using "3.prems"(3) intervals_step [OF assms(1,2) "3.prems"(1,2)] by (auto split: if_splits)
  show ?case
  proof (cases i)
    case (Suc i')
    then obtain j' where "j = Suc j'" using "3.prems"(4) by (cases j) auto
    with Suc "3.IH"(2) [OF tail rest, of i' j'] "3.prems" show ?thesis by simp
  next
    case 0
    show ?thesis
    proof (cases j)
      case (Suc j')
      have "curve_time l ((b # bs) ! j') - curve_time l b
          \<le> curve_time r ((b # bs) ! j') - curve_time r b + real j' * kTimeToleranceH"
        using "3.IH"(2) [OF tail rest, of 0 j'] "3.prems"(5) Suc by simp
      with first 0 Suc show ?thesis by (simp add: algebra_simps)
    qed (use 0 in simp)
  qed
qed auto

lemma merged_on_battery:
  "curve_exact l \<Longrightarrow> curve_exact r \<Longrightarrow> capacity_wh l = capacity_wh r \<Longrightarrow>
    on_battery l r (merged_breakpoints l r)"
  using merged_breakpoints_range [of l r] by (simp add: on_battery_def)


section \<open>Properties\<close>

text \<open>
  On the battery range of every curve the constructor accepts a charging duration is always
  returned, is nonnegative, and is additive: charging from a to b and then from b to d takes
  as long as charging from a to d.
\<close>

theorem charge_duration_additive:
  assumes "mk_curve ty ps = Inr c" and "0 \<le> a" and "a \<le> b" and "b \<le> d" and "d \<le> capacity_wh c"
  shows "\<exists>x y. charge_duration c a b = Inr x \<and> charge_duration c b d = Inr y \<and>
    charge_duration c a d = Inr (x + y) \<and> 0 \<le> x \<and> 0 \<le> y"
proof -
  have ok: "curve_ok c" using assms(1) unfolding mk_curve_iff by (rule conjunct2)
  then have "curve_time c a \<le> curve_time c b" "curve_time c b \<le> curve_time c d"
    using assms by (auto intro: curve_time_mono)
  then show ?thesis using assms ok by (auto simp: charge_duration_eq)
qed

text \<open>A two-segment curve of 100 Wh for the witnesses.\<close>

definition demo_curve :: charging_curve where
  "demo_curve = \<lparr>curve_station_type = ''fast'',
     points = [\<lparr>time_h = 0, energy_wh = 0\<rparr>, \<lparr>time_h = 1, energy_wh = 80\<rparr>,
               \<lparr>time_h = 2, energy_wh = 100\<rparr>]\<rparr>"

lemma demo_curve_ok: "curve_exact demo_curve" "capacity_wh demo_curve = 100"
  by (auto simp: demo_curve_def curve_exact_def curve_ok_def capacity_wh_def
      intro!: isfinite_numeral_small)

theorem charge_duration_additive_witness:
  "\<exists>x y. charge_duration demo_curve 40 80 = Inr x \<and> charge_duration demo_curve 80 100 = Inr y \<and>
    charge_duration demo_curve 40 100 = Inr (x + y) \<and> 0 \<le> x \<and> 0 \<le> y"
proof -
  have "mk_curve (curve_station_type demo_curve) (points demo_curve) = Inr demo_curve"
    using demo_curve_ok(1) by (simp add: mk_curve_iff curve_exact_def)
  then show ?thesis by (rule charge_duration_additive) (simp_all add: demo_curve_ok)
qed

text \<open>
  Where the energy is not within 1e-8 Wh below a breakpoint and the breakpoints'
  energies strictly increase, charging x Wh without passing the breakpoint that
  \<open>next_breakpoint_energy\<close> reports takes exactly x divided by \<open>marginal_rate_at\<close>.
\<close>

theorem marginal_rate_segment:
  assumes "curve_ok c" and "energies_strict (points c)" and "0 \<le> e"
    and "off_window e (points c)" and "marginal_rate_at c e = Finite_Rate r" and "0 < r"
    and "0 \<le> x" and "e + x \<le> next_breakpoint_energy c e"
  shows "charge_duration c e (e + x) = Inr (x / r)"
proof -
  have cap: "e < capacity_wh c - 1 / 10 ^ 8" and scan: "rate_scan e (points c) = Finite_Rate r"
    using assms(3,5,6) by (auto simp: marginal_rate_at_def split: if_splits)
  have le: "e + x \<le> capacity_wh c"
    using assms(8) next_breakpoint_le_capacity [OF assms(1), of e] by simp
  note ps = curve_okD [OF assms(1)]
  have hd: "energy_wh (hd (points c)) \<le> e"
  proof -
    have "hd (points c) \<in> set (points c)" using ps(2) by simp
    then have "e < energy_wh (hd (points c)) - 1 / 10 ^ 8 \<or> energy_wh (hd (points c)) \<le> e"
      using assms(4) by (simp only: off_window_def)
    with ps(5) assms(3) show ?thesis by auto
  qed
  have "breakpoint_scan e (tl (points c)) = Some (next_breakpoint_energy c e)"
  proof (cases "breakpoint_scan e (tl (points c))")
    case None
    have "last (points c) \<in> set (tl (points c))"
      using assms(1) by (cases "points c") (auto simp: curve_ok_def)
    then have "\<not> capacity_wh c > e + 1 / 10 ^ 8"
      using None breakpoint_scan_None [of e "tl (points c)" "last (points c)"] by (auto simp: capacity_wh_def)
    with cap show ?thesis by simp
  qed (simp add: next_breakpoint_energy_def)
  then have "curve_time c (e + x) - curve_time c e = x / r"
    unfolding curve_time_def using assms ps hd scan by (intro segment_rate) auto
  with assms le show ?thesis by (simp add: charge_duration_eq)
qed

theorem marginal_rate_segment_witness:
  "charge_duration demo_curve 80 (80 + 10) = Inr (10 / 20)"
  by (rule marginal_rate_segment)
    (simp_all only: demo_curve_ok curve_exact_ok, auto simp: demo_curve_def energies_strict_def off_window_def
      marginal_rate_at_def next_breakpoint_energy_def capacity_wh_def)

text \<open>
  The comparison of two curves of one capacity always returns, and when it answers
  true then between any two merged breakpoints the left curve charges no slower than the right
  one, up to the time tolerance for each interval between them.
\<close>

theorem charging_curve_no_slower_sound:
  assumes "curve_exact l" and "curve_exact r" and "capacity_wh l = capacity_wh r"
  shows "\<exists>v. charging_curve_no_slower l r = Inr v \<and>
    (v \<longrightarrow> (\<forall>i j. i \<le> j \<longrightarrow> j < length (merged_breakpoints l r) \<longrightarrow>
      (let a = merged_breakpoints l r ! i; b = merged_breakpoints l r ! j
       in \<exists>x y. charge_duration l a b = Inr x \<and> charge_duration r a b = Inr y \<and>
         x \<le> y + real (j - i) * kTimeToleranceH)))"
proof -
  let ?bs = "merged_breakpoints l r"
  note on = merged_on_battery [OF assms]
  obtain v where v: "charging_curve_no_slower l r = Inr v"
    using intervals_returns [OF assms(1,2) merged_breakpoints_spread on]
    by (auto simp: charging_curve_no_slower_def)
  have "\<exists>x y. charge_duration l (?bs ! i) (?bs ! j) = Inr x \<and>
      charge_duration r (?bs ! i) (?bs ! j) = Inr y \<and> x \<le> y + real (j - i) * kTimeToleranceH"
    if "v" "i \<le> j" "j < length ?bs" for i j
  proof -
    have "sorted ?bs" by (simp add: merged_breakpoints_def sorted_unique_by)
    then have le: "?bs ! i \<le> ?bs ! j" using that by (simp add: sorted_nth_mono)
    have range: "0 \<le> ?bs ! k \<and> ?bs ! k \<le> capacity_wh l" if "k < length ?bs" for k
      using merged_breakpoints_range [OF assms, of "?bs ! k"] that by simp
    show ?thesis
      using intervals_sound [OF assms(1,2) merged_breakpoints_spread on, of i j] that v le
        range [of i] range [of j] assms
      by (simp add: charging_curve_no_slower_def charge_duration_eq curve_exact_ok)
  qed
  with v show ?thesis by (simp add: Let_def)
qed

theorem charging_curve_no_slower_sound_witness:
  "\<exists>v. charging_curve_no_slower demo_curve demo_curve = Inr v \<and>
    (v \<longrightarrow> (\<forall>i j. i \<le> j \<longrightarrow> j < length (merged_breakpoints demo_curve demo_curve) \<longrightarrow>
      (let a = merged_breakpoints demo_curve demo_curve ! i;
           b = merged_breakpoints demo_curve demo_curve ! j
       in \<exists>x y. charge_duration demo_curve a b = Inr x \<and> charge_duration demo_curve a b = Inr y \<and>
         x \<le> y + real (j - i) * kTimeToleranceH)))"
  by (rule charging_curve_no_slower_sound) (simp_all add: demo_curve_ok)

end
