(* ===== verification/Instance_Model.thy ===== *)
theory Instance_Model
  imports Charging_Curve
begin

text \<open>
  The problem instance of include/ils_sp/core.hpp and src/core.cpp: \<open>Node\<close>, \<open>Vehicle\<close> and
  the class \<open>Instance\<close> with its checking constructor and its lookups.  The invariant
  \<open>inst_ok\<close> holds of every constructed instance; under it the fast path of \<open>node\<close> and
  \<open>distance_km\<close> (dense identifiers used as array indices) agrees with the search by
  identifier, and the distance table is a metric.
\<close>

section \<open>Data\<close>

datatype node_kind = Depot | Customer | Station

record node =
  node_id :: int
  kind :: node_kind
  x_km :: real
  y_km :: real
  node_service_time_h :: real
  station_type :: string

record vehicle =
  speed_kmph :: real
  consumption_wh_per_km :: real
  battery_capacity_wh :: real
  max_route_duration_h :: real

definition range_km :: "vehicle \<Rightarrow> real" where
  "range_km v = battery_capacity_wh v / consumption_wh_per_km v"

record inst =
  name :: string
  dataset :: string
  nodes :: "node list"
  vehicle_of :: vehicle
  charging_curves :: "(string \<times> charging_curve) list"
  index_by_id :: "(int \<times> nat) list"
  nodes_indexed_by_id :: bool
  distances_km :: "real list list"
  depot_id :: int
  customer_ids :: "int list"
  station_ids :: "int list"

section \<open>The constructor\<close>

text \<open>The state of the loop over the nodes: the members it fills and the depot counter.\<close>

record node_scan =
  scan_index :: "(int \<times> nat) list"
  scan_indexed :: bool
  scan_depots :: nat
  scan_depot_id :: int
  scan_customers :: "int list"
  scan_stations :: "int list"

definition scan_node ::
  "vehicle \<Rightarrow> (string \<times> charging_curve) list \<Rightarrow> node_scan \<Rightarrow> nat \<times> node \<Rightarrow> node_scan result" where
  "scan_node v curves s ix =
     (let i = fst ix; current = snd ix;
          s1 = s\<lparr>scan_indexed := scan_indexed s \<and> node_id current \<ge> 0 \<and> nat (node_id current) = i\<rparr>
      in if map_of (scan_index s1) (node_id current) \<noteq> None
         then Inl (Invalid_Argument ''node ids must be unique'')
         else let s2 = s1\<lparr>scan_index := AList.update (node_id current) i (scan_index s1)\<rparr>
         in if \<not> isfinite (x_km current) \<or> \<not> isfinite (y_km current) \<or>
               \<not> isfinite (node_service_time_h current) \<or> node_service_time_h current < 0
            then Inl (Invalid_Argument ''invalid node geometry or service time'')
            else (case kind current of
                Depot \<Rightarrow> Inr (s2\<lparr>scan_depots := Suc (scan_depots s2), scan_depot_id := node_id current\<rparr>)
              | Customer \<Rightarrow> Inr (s2\<lparr>scan_customers := scan_customers s2 @ [node_id current]\<rparr>)
              | Station \<Rightarrow>
                  let s3 = s2\<lparr>scan_stations := scan_stations s2 @ [node_id current]\<rparr>
                  in (case map_of curves (station_type current) of
                        None \<Rightarrow> Inl (Invalid_Argument ''station references an unknown curve'')
                      | Some curve \<Rightarrow>
                          if \<bar>capacity_wh curve - battery_capacity_wh v\<bar> > 1 / 10 ^ 6
                          then Inl (Invalid_Argument ''curve and vehicle capacities differ'')
                          else Inr s3)))"

text \<open>\<open>std::hypot\<close>.\<close>

definition hypot :: "real \<Rightarrow> real \<Rightarrow> real" where
  "hypot x y = sqrt (x\<^sup>2 + y\<^sup>2)"

definition node_distance :: "node \<Rightarrow> node \<Rightarrow> real" where
  "node_distance left right = hypot (x_km left - x_km right) (y_km left - y_km right)"

definition distance_table :: "node list \<Rightarrow> real list list" where
  "distance_table ns = map (\<lambda>left. map (\<lambda>right. node_distance left right) ns) ns"

definition vehicle_valid :: "vehicle \<Rightarrow> bool" where
  "vehicle_valid v =
     list_all (\<lambda>value. isfinite value \<and> value > 0)
       [speed_kmph v, consumption_wh_per_km v, battery_capacity_wh v, max_route_duration_h v]"

definition empty_scan :: node_scan where
  "empty_scan = \<lparr>scan_index = [], scan_indexed = True, scan_depots = 0, scan_depot_id = 0,
                 scan_customers = [], scan_stations = []\<rparr>"

definition mk_instance ::
  "string \<Rightarrow> string \<Rightarrow> node list \<Rightarrow> vehicle \<Rightarrow> (string \<times> charging_curve) list \<Rightarrow> inst result" where
  "mk_instance nm ds ns v curves =
     (if nm = [] \<or> ns = [] then Inl (Invalid_Argument ''instance name and node set are required'')
      else if \<not> vehicle_valid v
      then Inl (Invalid_Argument ''vehicle parameters must be positive and finite'')
      else rbind (rfold (scan_node v curves) empty_scan (enumerate 0 ns)) (\<lambda>s.
        if scan_depots s \<noteq> 1 \<or> scan_customers s = []
        then Inl (Invalid_Argument ''instance needs one depot and at least one customer'')
        else Inr \<lparr>name = nm, dataset = ds, nodes = ns, vehicle_of = v, charging_curves = curves,
                  index_by_id = scan_index s, nodes_indexed_by_id = scan_indexed s,
                  distances_km = distance_table ns, depot_id = scan_depot_id s,
                  customer_ids = sort (scan_customers s), station_ids = sort (scan_stations s)\<rparr>))"

section \<open>Lookups\<close>

text \<open>The exception of a lookup that finds no node.\<close>

definition unknown_node :: "int \<Rightarrow> error" where
  "unknown_node i = Out_Of_Range (''unknown node id '' @ string_of_int i)"

definition node_of :: "inst \<Rightarrow> int \<Rightarrow> node result" where
  "node_of I i =
     (if nodes_indexed_by_id I \<and> i \<ge> 0 \<and> nat i < length (nodes I) then Inr (nodes I ! nat i)
      else (case map_of (index_by_id I) i of
              None \<Rightarrow> Inl (unknown_node i)
            | Some k \<Rightarrow> Inr (nodes I ! k)))"

definition depot_of :: "inst \<Rightarrow> node result" where
  "depot_of I = node_of I (depot_id I)"

definition curve_for_station :: "inst \<Rightarrow> int \<Rightarrow> charging_curve result" where
  "curve_for_station I i =
     rbind (node_of I i) (\<lambda>station.
       if kind station \<noteq> Station then Inl (Invalid_Argument ''node is not a charging station'')
       else (case map_of (charging_curves I) (station_type station) of
               None \<Rightarrow> Inl (Out_Of_Range ''_Map_base::at'')
             | Some c \<Rightarrow> Inr c))"

text \<open>\<open>index_by_id_.at (id)\<close> and the two bounds-checked vector accesses of the slow path.\<close>

definition index_at :: "inst \<Rightarrow> int \<Rightarrow> nat result" where
  "index_at I i =
     (case map_of (index_by_id I) i of None \<Rightarrow> Inl (Out_Of_Range ''_Map_base::at'') | Some k \<Rightarrow> Inr k)"

definition vector_at :: "'a list \<Rightarrow> nat \<Rightarrow> 'a result" where
  "vector_at xs i = (if i < length xs then Inr (xs ! i) else Inl (Out_Of_Range ''vector::_M_range_check''))"

definition distance_km :: "inst \<Rightarrow> int \<Rightarrow> int \<Rightarrow> real result" where
  "distance_km I origin target =
     (if nodes_indexed_by_id I \<and> origin \<ge> 0 \<and> target \<ge> 0 \<and>
         nat origin < length (nodes I) \<and> nat target < length (nodes I)
      then Inr (distances_km I ! nat origin ! nat target)
      else rbind (index_at I origin) (\<lambda>o_index.
           rbind (vector_at (distances_km I) o_index) (\<lambda>row.
           rbind (index_at I target) (\<lambda>t_index. vector_at row t_index))))"

definition travel_time_h :: "inst \<Rightarrow> int \<Rightarrow> int \<Rightarrow> real result" where
  "travel_time_h I origin target =
     rbind (distance_km I origin target) (\<lambda>d. Inr (d / speed_kmph (vehicle_of I)))"

definition energy_between_wh :: "inst \<Rightarrow> int \<Rightarrow> int \<Rightarrow> real result" where
  "energy_between_wh I origin target =
     rbind (distance_km I origin target) (\<lambda>d. Inr (d * consumption_wh_per_km (vehicle_of I)))"

section \<open>The class invariant\<close>

definition ids :: "inst \<Rightarrow> int list" where
  "ids I = map node_id (nodes I)"

definition ids_of_kind :: "node_kind \<Rightarrow> node list \<Rightarrow> int list" where
  "ids_of_kind k ns = map node_id (filter (\<lambda>n. kind n = k) ns)"

definition station_curves_ok :: "vehicle \<Rightarrow> (string \<times> charging_curve) list \<Rightarrow> node list \<Rightarrow> bool" where
  "station_curves_ok v curves ns \<longleftrightarrow>
     (\<forall>n \<in> set ns. kind n = Station \<longrightarrow>
        (\<exists>c. map_of curves (station_type n) = Some c \<and>
             \<bar>capacity_wh c - battery_capacity_wh v\<bar> \<le> 1 / 10 ^ 6))"

text \<open>Dense identifiers: the i-th node has identifier i.\<close>

definition dense_ids :: "node list \<Rightarrow> bool" where
  "dense_ids ns \<longleftrightarrow> (\<forall>i < length ns. node_id (ns ! i) = int i)"

definition node_valid :: "node \<Rightarrow> bool" where
  "node_valid n \<longleftrightarrow> isfinite (x_km n) \<and> isfinite (y_km n) \<and>
     isfinite (node_service_time_h n) \<and> 0 \<le> node_service_time_h n"

definition inst_ok :: "inst \<Rightarrow> bool" where
  "inst_ok I \<longleftrightarrow> name I \<noteq> [] \<and> vehicle_valid (vehicle_of I) \<and> distinct (ids I) \<and>
     index_by_id I = zip (ids I) [0..<length (nodes I)] \<and>
     nodes_indexed_by_id I = dense_ids (nodes I) \<and>
     distances_km I = distance_table (nodes I) \<and>
     ids_of_kind Depot (nodes I) = [depot_id I] \<and>
     customer_ids I = sort (ids_of_kind Customer (nodes I)) \<and> customer_ids I \<noteq> [] \<and>
     station_ids I = sort (ids_of_kind Station (nodes I)) \<and>
     station_curves_ok (vehicle_of I) (charging_curves I) (nodes I) \<and>
     (\<forall>n \<in> set (nodes I). node_valid n)"

text \<open>The state of the loop after a prefix of the nodes.\<close>

definition scan_inv ::
  "vehicle \<Rightarrow> (string \<times> charging_curve) list \<Rightarrow> node list \<Rightarrow> node_scan \<Rightarrow> bool" where
  "scan_inv v curves ns s \<longleftrightarrow> distinct (map node_id ns) \<and>
     scan_index s = zip (map node_id ns) [0..<length ns] \<and>
     scan_indexed s = dense_ids ns \<and>
     scan_depots s = length (ids_of_kind Depot ns) \<and>
     (ids_of_kind Depot ns \<noteq> [] \<longrightarrow> scan_depot_id s = last (ids_of_kind Depot ns)) \<and>
     scan_customers s = ids_of_kind Customer ns \<and> scan_stations s = ids_of_kind Station ns \<and>
     station_curves_ok v curves ns \<and>
     (\<forall>n \<in> set ns. node_valid n)"

lemma ids_of_kind_append: "ids_of_kind k (xs @ ys) = ids_of_kind k xs @ ids_of_kind k ys"
  by (simp add: ids_of_kind_def)

lemma ids_of_kind_single: "ids_of_kind k [n] = (if kind n = k then [node_id n] else [])"
  by (simp add: ids_of_kind_def)

lemma scan_index_snoc:
  assumes "distinct (map node_id (ns @ [n]))"
  shows "AList.update (node_id n) (length ns) (zip (map node_id ns) [0..<length ns]) =
    zip (map node_id (ns @ [n])) [0..<length (ns @ [n])]"
proof -
  have "node_id n \<notin> fst ` set (zip (map node_id ns) [0..<length ns])"
    using assms by (auto dest!: set_zip_leftD)
  then show ?thesis by (simp add: update_new)
qed

text \<open>What a successful pass over one node checked and what it stored.\<close>

lemma scan_node_Inr:
  assumes "scan_node v curves s (i, n) = Inr s'"
  shows "map_of (scan_index s) (node_id n) = None" and "node_valid n"
    and "scan_index s' = AList.update (node_id n) i (scan_index s)"
    and "scan_indexed s' = (scan_indexed s \<and> node_id n \<ge> 0 \<and> nat (node_id n) = i)"
    and "scan_depots s' = (if kind n = Depot then Suc (scan_depots s) else scan_depots s)"
    and "scan_depot_id s' = (if kind n = Depot then node_id n else scan_depot_id s)"
    and "scan_customers s' = scan_customers s @ (if kind n = Customer then [node_id n] else [])"
    and "scan_stations s' = scan_stations s @ (if kind n = Station then [node_id n] else [])"
    and "station_curves_ok v curves [n]"
proof -
  show fresh: "map_of (scan_index s) (node_id n) = None"
    by (rule ccontr) (use assms in \<open>simp add: scan_node_def\<close>)
  show valid: "node_valid n"
    by (rule ccontr) (use assms fresh in \<open>auto simp: scan_node_def node_valid_def\<close>)
  have "(case kind n of
        Depot \<Rightarrow> Inr (s\<lparr>scan_indexed := scan_indexed s \<and> node_id n \<ge> 0 \<and> nat (node_id n) = i,
          scan_index := AList.update (node_id n) i (scan_index s),
          scan_depots := Suc (scan_depots s), scan_depot_id := node_id n\<rparr>)
      | Customer \<Rightarrow> Inr (s\<lparr>scan_indexed := scan_indexed s \<and> node_id n \<ge> 0 \<and> nat (node_id n) = i,
          scan_index := AList.update (node_id n) i (scan_index s),
          scan_customers := scan_customers s @ [node_id n]\<rparr>)
      | Station \<Rightarrow> (case map_of curves (station_type n) of
          None \<Rightarrow> Inl (Invalid_Argument ''station references an unknown curve'')
        | Some curve \<Rightarrow>
            if \<bar>capacity_wh curve - battery_capacity_wh v\<bar> > 1 / 10 ^ 6
            then Inl (Invalid_Argument ''curve and vehicle capacities differ'')
            else Inr (s\<lparr>scan_indexed := scan_indexed s \<and> node_id n \<ge> 0 \<and> nat (node_id n) = i,
              scan_index := AList.update (node_id n) i (scan_index s),
              scan_stations := scan_stations s @ [node_id n]\<rparr>))) = Inr s'"
    using assms fresh valid
    by (simp add: scan_node_def Let_def node_valid_def cong: node_kind.case_cong option.case_cong)
  then show "scan_index s' = AList.update (node_id n) i (scan_index s)"
    "scan_indexed s' = (scan_indexed s \<and> node_id n \<ge> 0 \<and> nat (node_id n) = i)"
    "scan_depots s' = (if kind n = Depot then Suc (scan_depots s) else scan_depots s)"
    "scan_depot_id s' = (if kind n = Depot then node_id n else scan_depot_id s)"
    "scan_customers s' = scan_customers s @ (if kind n = Customer then [node_id n] else [])"
    "scan_stations s' = scan_stations s @ (if kind n = Station then [node_id n] else [])"
    "station_curves_ok v curves [n]"
    by (auto simp: station_curves_ok_def split: node_kind.splits option.splits if_splits)
qed

lemma scan_node_inv:
  assumes "scan_inv v curves ns s" and "scan_node v curves s (length ns, n) = Inr s'"
  shows "scan_inv v curves (ns @ [n]) s'"
proof -
  note step = scan_node_Inr [OF assms(2)]
  have "map_of (zip (map node_id ns) [0..<length ns]) (node_id n) = None"
    using step(1) assms(1) by (simp only: scan_inv_def)
  then have dist: "distinct (map node_id (ns @ [n]))"
    using assms(1) by (simp add: scan_inv_def map_of_zip_is_None del: map_of_eq_None_iff)
  have "dense_ids (ns @ [n]) \<longleftrightarrow> dense_ids ns \<and> node_id n \<ge> 0 \<and> nat (node_id n) = length ns"
    by (auto simp: dense_ids_def less_Suc_eq nth_append)
  moreover have "station_curves_ok v curves (ns @ [n])"
    using assms(1) step(9) by (auto simp: scan_inv_def station_curves_ok_def)
  ultimately show ?thesis
    using assms(1) step(2-8) dist scan_index_snoc [OF dist]
    by (simp add: scan_inv_def ids_of_kind_append ids_of_kind_single)
qed

lemma scan_nodes_inv:
  "scan_inv v curves ns s \<Longrightarrow> rfold (scan_node v curves) s (enumerate (length ns) ms) = Inr s' \<Longrightarrow>
    scan_inv v curves (ns @ ms) s'"
proof (induction ms arbitrary: ns s)
  case (Cons m ms)
  then obtain t where "scan_node v curves s (length ns, m) = Inr t"
    and "rfold (scan_node v curves) t (enumerate (length (ns @ [m])) ms) = Inr s'"
    by (auto simp: rbind_eq_Inr_conv)
  with Cons.IH [of "ns @ [m]" t] scan_node_inv [OF Cons.prems(1)] show ?case by auto
qed simp

lemma mk_instance_ok:
  assumes "mk_instance nm ds ns v curves = Inr I"
  shows "inst_ok I" and "nodes I = ns" and "vehicle_of I = v" and "charging_curves I = curves"
proof -
  from assms obtain s where s: "rfold (scan_node v curves) empty_scan (enumerate 0 ns) = Inr s"
    and I: "I = \<lparr>name = nm, dataset = ds, nodes = ns, vehicle_of = v, charging_curves = curves,
                  index_by_id = scan_index s, nodes_indexed_by_id = scan_indexed s,
                  distances_km = distance_table ns, depot_id = scan_depot_id s,
                  customer_ids = sort (scan_customers s), station_ids = sort (scan_stations s)\<rparr>"
    and g: "nm \<noteq> []" "vehicle_valid v" "scan_depots s = 1" "scan_customers s \<noteq> []"
    by (auto simp: mk_instance_def rbind_eq_Inr_conv split: if_splits)
  have "scan_inv v curves [] empty_scan"
    by (simp add: scan_inv_def empty_scan_def ids_of_kind_def station_curves_ok_def dense_ids_def)
  then have inv: "scan_inv v curves ns s" using scan_nodes_inv [of v curves "[]"] s by simp
  then have "length (ids_of_kind Depot ns) = 1" using g(3) by (simp add: scan_inv_def)
  then obtain d where "ids_of_kind Depot ns = [d]"
    by (cases "ids_of_kind Depot ns") auto
  moreover have "sort (scan_customers s) \<noteq> []" using g(4) by (metis set_empty set_sort)
  ultimately show "inst_ok I"
    using inv g by (simp add: inst_ok_def I ids_def scan_inv_def)
  show "nodes I = ns" and "vehicle_of I = v" and "charging_curves I = curves"
    by (simp_all add: I)
qed


section \<open>Lookups agree with the search by identifier\<close>

definition find_node :: "inst \<Rightarrow> int \<Rightarrow> node option" where
  "find_node I i = find (\<lambda>n. node_id n = i) (nodes I)"

lemma inst_okD:
  assumes "inst_ok I"
  shows "vehicle_valid (vehicle_of I)" "distinct (map node_id (nodes I))"
    "index_by_id I = zip (map node_id (nodes I)) [0..<length (nodes I)]"
    "nodes_indexed_by_id I = dense_ids (nodes I)" "distances_km I = distance_table (nodes I)"
    "ids_of_kind Depot (nodes I) = [depot_id I]"
    "customer_ids I = sort (ids_of_kind Customer (nodes I))"
    "station_ids I = sort (ids_of_kind Station (nodes I))"
    "station_curves_ok (vehicle_of I) (charging_curves I) (nodes I)"
    "\<And>n. n \<in> set (nodes I) \<Longrightarrow> node_valid n" "customer_ids I \<noteq> []"
  using assms by (auto simp: inst_ok_def ids_def)

lemma vehicle_pos:
  assumes "inst_ok I"
  shows "0 < speed_kmph (vehicle_of I)" "0 < consumption_wh_per_km (vehicle_of I)"
    "0 < battery_capacity_wh (vehicle_of I)" "0 < max_route_duration_h (vehicle_of I)"
    "isfinite (battery_capacity_wh (vehicle_of I))"
  using inst_okD(1) [OF assms] by (auto simp: vehicle_valid_def)

lemma find_nth: "distinct (map f xs) \<Longrightarrow> k < length xs \<Longrightarrow> find (\<lambda>x. f x = f (xs ! k)) xs = Some (xs ! k)"
proof (induction xs arbitrary: k)
  case (Cons x xs)
  show ?case
  proof (cases k)
    case (Suc j)
    then have "f (xs ! j) \<in> f ` set xs" using Cons.prems by simp
    with Cons Suc show ?thesis by auto
  qed simp
qed simp

lemma map_of_zip_upt:
  "distinct is \<Longrightarrow> map_of (zip is [0..<length is]) i = Some k \<longleftrightarrow> k < length is \<and> is ! k = i"
  by (auto simp: map_of_zip_nth set_zip)

lemma find_node_None: "find_node I i = None \<longleftrightarrow> i \<notin> set (ids I)"
  by (auto simp: find_node_def find_None_iff ids_def)

lemma node_of_nth:
  assumes "inst_ok I" and "k < length (nodes I)"
  shows "node_of I (node_id (nodes I ! k)) = Inr (nodes I ! k)"
proof -
  have look: "map_of (index_by_id I) (node_id (nodes I ! k)) = Some k"
    using assms(2) inst_okD(2,3) [OF assms(1)]
      map_of_zip_upt [of "map node_id (nodes I)" "node_id (nodes I ! k)" k] by simp
  show ?thesis
  proof (cases "nodes_indexed_by_id I")
    case True
    then have "node_id (nodes I ! k) = int k"
      using inst_okD(4) [OF assms(1)] assms(2) by (simp add: dense_ids_def)
    with True assms(2) show ?thesis by (simp add: node_of_def)
  qed (simp add: node_of_def look)
qed

lemma node_of_unknown:
  assumes "inst_ok I" and "i \<notin> set (ids I)"
  shows "node_of I i = Inl (unknown_node i)"
proof -
  have "map_of (index_by_id I) i = None"
    using assms(2) inst_okD(3) [OF assms(1)] by (simp add: ids_def map_of_zip_is_None del: map_of_eq_None_iff)
  moreover have "\<not> (nodes_indexed_by_id I \<and> 0 \<le> i \<and> nat i < length (nodes I))"
  proof
    assume "nodes_indexed_by_id I \<and> 0 \<le> i \<and> nat i < length (nodes I)"
    then have "i = node_id (nodes I ! nat i)" "nat i < length (nodes I)"
      using inst_okD(4) [OF assms(1)] by (auto simp: dense_ids_def)
    with assms(2) show False by (auto simp: ids_def)
  qed
  ultimately show ?thesis by (simp add: node_of_def)
qed

lemma ids_nth:
  assumes "i \<in> set (ids I)"
  obtains k where "k < length (nodes I)" and "i = node_id (nodes I ! k)"
  using assms by (auto simp: ids_def in_set_conv_nth)

lemma node_of_find:
  assumes "inst_ok I"
  shows "node_of I i = (case find_node I i of
      None \<Rightarrow> Inl (unknown_node i) | Some n \<Rightarrow> Inr n)"
proof (cases "i \<in> set (ids I)")
  case True
  then obtain k where k: "k < length (nodes I)" "i = node_id (nodes I ! k)" by (rule ids_nth)
  then have "find_node I i = Some (nodes I ! k)"
    using find_nth [OF inst_okD(2) [OF assms]] by (simp add: find_node_def)
  with node_of_nth [OF assms k(1)] k(2) show ?thesis by simp
next
  case False
  with node_of_unknown [OF assms] show ?thesis by (simp add: find_node_None [THEN iffD2])
qed

text \<open>The node of a known identifier, the distance, travel time and energy between two.\<close>

definition the_node :: "inst \<Rightarrow> int \<Rightarrow> node" where
  "the_node I i = (case node_of I i of Inr n \<Rightarrow> n | Inl _ \<Rightarrow> hd (nodes I))"

definition dist_km :: "inst \<Rightarrow> int \<Rightarrow> int \<Rightarrow> real" where
  "dist_km I i j = node_distance (the_node I i) (the_node I j)"

definition leg_travel :: "inst \<Rightarrow> int \<Rightarrow> int \<Rightarrow> real" where
  "leg_travel I i j = dist_km I i j / speed_kmph (vehicle_of I)"

definition leg_energy :: "inst \<Rightarrow> int \<Rightarrow> int \<Rightarrow> real" where
  "leg_energy I i j = dist_km I i j * consumption_wh_per_km (vehicle_of I)"

lemma node_of_known:
  assumes "inst_ok I" and "i \<in> set (ids I)"
  shows "node_of I i = Inr (the_node I i)" and "the_node I i \<in> set (nodes I)"
    and "node_id (the_node I i) = i"
proof -
  obtain k where "k < length (nodes I)" "i = node_id (nodes I ! k)"
    using assms(2) by (rule ids_nth)
  with node_of_nth [OF assms(1)] show "node_of I i = Inr (the_node I i)"
    "the_node I i \<in> set (nodes I)" "node_id (the_node I i) = i"
    by (auto simp: the_node_def)
qed

lemma distance_km_known:
  assumes "inst_ok I" and "i \<in> set (ids I)" and "j \<in> set (ids I)"
  shows "distance_km I i j = Inr (dist_km I i j)"
proof -
  obtain a b where a: "a < length (nodes I)" "i = node_id (nodes I ! a)"
    and b: "b < length (nodes I)" "j = node_id (nodes I ! b)"
    using assms(2,3) by (metis ids_nth)
  have entry: "distances_km I ! a ! b = dist_km I i j"
    using a b node_of_nth [OF assms(1) a(1)] node_of_nth [OF assms(1) b(1)]
    by (simp add: inst_okD(5) [OF assms(1)] distance_table_def dist_km_def the_node_def)
  have len: "length (distances_km I) = length (nodes I)"
    "length (distances_km I ! a) = length (nodes I)"
    using a by (simp_all add: inst_okD(5) [OF assms(1)] distance_table_def)
  have at: "index_at I (node_id (nodes I ! k)) = Inr k" if "k < length (nodes I)" for k
    using that inst_okD(2,3) [OF assms(1)]
      map_of_zip_upt [of "map node_id (nodes I)" "node_id (nodes I ! k)" k]
    by (simp add: index_at_def)
  show ?thesis
  proof (cases "nodes_indexed_by_id I")
    case True
    then have ij: "i = int a" "j = int b"
      using a b inst_okD(4) [OF assms(1)] by (auto simp: dense_ids_def)
    have "distance_km I i j = Inr (distances_km I ! a ! b)"
      using True a(1) b(1) by (simp add: distance_km_def ij)
    with entry show ?thesis by simp
  next
    case False
    have "index_at I i = Inr a" "index_at I j = Inr b"
      using at [OF a(1)] at [OF b(1)] a(2) b(2) by simp_all
    with False a(1) b(1) entry len show ?thesis by (simp add: distance_km_def vector_at_def)
  qed
qed

lemma distance_km_unknown:
  assumes "inst_ok I" and "i \<notin> set (ids I) \<or> j \<notin> set (ids I)"
  shows "distance_km I i j = Inl (Out_Of_Range ''_Map_base::at'')"
proof -
  have none: "index_at I k = Inl (Out_Of_Range ''_Map_base::at'')" if "k \<notin> set (ids I)" for k
  proof -
    have "map_of (index_by_id I) k = None"
      using that inst_okD(3) [OF assms(1)] by (simp add: ids_def map_of_zip_is_None del: map_of_eq_None_iff)
    then show ?thesis by (simp add: index_at_def)
  qed
  have dense: "k \<in> set (ids I)" if "nodes_indexed_by_id I" "0 \<le> k" "nat k < length (nodes I)" for k
  proof -
    have "k = node_id (nodes I ! nat k)"
      using that inst_okD(4) [OF assms(1)] by (simp add: dense_ids_def)
    with that(3) show ?thesis by (auto simp: ids_def)
  qed
  have at: "\<exists>k. index_at I i = Inr k \<and> k < length (nodes I)" if known: "i \<in> set (ids I)"
  proof -
    obtain k where k: "k < length (nodes I)" "i = node_id (nodes I ! k)"
      by (rule ids_nth [OF known])
    then have "map_of (index_by_id I) i = Some k"
      using inst_okD(2,3) [OF assms(1)] map_of_zip_upt [of "map node_id (nodes I)" i k] by simp
    with k(1) show ?thesis by (simp add: index_at_def)
  qed
  have "\<not> (nodes_indexed_by_id I \<and> i \<ge> 0 \<and> j \<ge> 0 \<and> nat i < length (nodes I) \<and> nat j < length (nodes I))"
    using dense assms(2) by blast
  then have slow: "distance_km I i j = rbind (index_at I i) (\<lambda>o_index.
      rbind (vector_at (distances_km I) o_index) (\<lambda>row.
      rbind (index_at I j) (\<lambda>t_index. vector_at row t_index)))"
    unfolding distance_km_def by (simp only: if_False)
  show ?thesis
  proof (cases "i \<in> set (ids I)")
    case True
    then obtain k where "index_at I i = Inr k" "k < length (distances_km I)"
      using at by (auto simp: inst_okD(5) [OF assms(1)] distance_table_def)
    with none [of j] True assms(2) show ?thesis by (simp add: slow vector_at_def)
  next
    case False
    with none [of i] show ?thesis by (simp add: slow)
  qed
qed

lemma travel_time_known:
  "inst_ok I \<Longrightarrow> i \<in> set (ids I) \<Longrightarrow> j \<in> set (ids I) \<Longrightarrow> travel_time_h I i j = Inr (leg_travel I i j)"
  by (simp add: travel_time_h_def distance_km_known leg_travel_def)

lemma energy_known:
  "inst_ok I \<Longrightarrow> i \<in> set (ids I) \<Longrightarrow> j \<in> set (ids I) \<Longrightarrow> energy_between_wh I i j = Inr (leg_energy I i j)"
  by (simp add: energy_between_wh_def distance_km_known leg_energy_def)

lemma known_lookups:
  assumes "inst_ok I"
  shows "depot_id I \<in> set (ids I)" and "set (customer_ids I) \<subseteq> set (ids I)"
    and "set (station_ids I) \<subseteq> set (ids I)"
proof -
  have sub: "set (ids_of_kind k (nodes I)) \<subseteq> set (ids I)" for k
    by (auto simp: ids_of_kind_def ids_def)
  from sub [of Depot] show "depot_id I \<in> set (ids I)" by (simp add: inst_okD(6) [OF assms])
  show "set (customer_ids I) \<subseteq> set (ids I)" "set (station_ids I) \<subseteq> set (ids I)"
    using sub by (simp_all add: inst_okD(7,8) [OF assms])
qed

lemma kind_of_known:
  assumes "inst_ok I" and "i \<in> set (ids I)"
  shows "i \<in> set (ids_of_kind k (nodes I)) \<longleftrightarrow> kind (the_node I i) = k"
proof -
  note n = node_of_known [OF assms]
  have unique: "m = the_node I i" if m: "m \<in> set (nodes I)" "node_id m = i" for m
  proof -
    have "inj_on node_id (set (nodes I))"
      using inst_okD(2) [OF assms(1)] by (simp add: distinct_map)
    then show ?thesis using m n(2,3) by (metis inj_onD)
  qed
  show ?thesis
  proof
    assume "i \<in> set (ids_of_kind k (nodes I))"
    then obtain m where "m \<in> set (nodes I)" "node_id m = i" "kind m = k"
      by (auto simp: ids_of_kind_def)
    with unique [of m] show "kind (the_node I i) = k" by simp
  next
    assume "kind (the_node I i) = k"
    with n(2,3) show "i \<in> set (ids_of_kind k (nodes I))"
      unfolding ids_of_kind_def by force
  qed
qed

section \<open>The distance table is a metric\<close>

lemma node_distance_nonneg: "0 \<le> node_distance a b"
  by (simp add: node_distance_def hypot_def)

lemma node_distance_self [simp]: "node_distance a a = 0"
  by (simp add: node_distance_def hypot_def)

lemma node_distance_sym: "node_distance a b = node_distance b a"
  by (simp add: node_distance_def hypot_def power2_commute)

lemma node_distance_triangle: "node_distance a c \<le> node_distance a b + node_distance b c"
  using real_sqrt_sum_squares_triangle_ineq
    [of "x_km a - x_km b" "x_km b - x_km c" "y_km a - y_km b" "y_km b - y_km c"]
  by (simp add: node_distance_def hypot_def)

lemma dist_km_nonneg [simp]: "0 \<le> dist_km I i j"
  by (simp add: dist_km_def node_distance_nonneg)

lemma dist_km_self [simp]: "dist_km I i i = 0"
  by (simp add: dist_km_def)

lemma dist_km_triangle: "dist_km I i k \<le> dist_km I i j + dist_km I j k"
  by (simp add: dist_km_def node_distance_triangle)

lemma leg_travel_nonneg: "inst_ok I \<Longrightarrow> 0 \<le> leg_travel I i j"
  by (simp add: leg_travel_def vehicle_pos less_imp_le)

lemma leg_energy_nonneg: "inst_ok I \<Longrightarrow> 0 \<le> leg_energy I i j"
  by (simp add: leg_energy_def vehicle_pos less_imp_le)

lemma hypot_axis [simp]: "hypot x 0 = \<bar>x\<bar>" "hypot 0 y = \<bar>y\<bar>"
  by (simp_all add: hypot_def)

section \<open>Properties\<close>

text \<open>A small instance on one axis: depot 0, customers 1 and 3, station 2.\<close>

definition demo_nodes :: "node list" where
  "demo_nodes =
     [\<lparr>node_id = 0, kind = Depot, x_km = 0, y_km = 0, node_service_time_h = 0, station_type = []\<rparr>,
      \<lparr>node_id = 1, kind = Customer, x_km = 60, y_km = 0, node_service_time_h = 1, station_type = []\<rparr>,
      \<lparr>node_id = 2, kind = Station, x_km = 30, y_km = 0, node_service_time_h = 0, station_type = ''fast''\<rparr>,
      \<lparr>node_id = 3, kind = Customer, x_km = 45, y_km = 0, node_service_time_h = 1, station_type = []\<rparr>]"

definition demo_vehicle :: vehicle where
  "demo_vehicle = \<lparr>speed_kmph = 40, consumption_wh_per_km = 1, battery_capacity_wh = 100,
                   max_route_duration_h = 10\<rparr>"

definition demo_inst :: inst where
  "demo_inst = \<lparr>name = ''demo'', dataset = ''axis'', nodes = demo_nodes, vehicle_of = demo_vehicle,
     charging_curves = [(''fast'', demo_curve)],
     index_by_id = [(0, 0), (1, 1), (2, 2), (3, 3)], nodes_indexed_by_id = True,
     distances_km = distance_table demo_nodes, depot_id = 0, customer_ids = [1, 3],
     station_ids = [2]\<rparr>"

lemma demo_vehicle_valid: "vehicle_valid demo_vehicle"
  by (simp add: vehicle_valid_def demo_vehicle_def isfinite_numeral_small)

lemma demo_inst_constructed:
  "mk_instance ''demo'' ''axis'' demo_nodes demo_vehicle [(''fast'', demo_curve)] = Inr demo_inst"
proof -
  have cap: "battery_capacity_wh demo_vehicle = 100" by (simp add: demo_vehicle_def)
  have "rfold (scan_node demo_vehicle [(''fast'', demo_curve)]) empty_scan (enumerate 0 demo_nodes) =
      Inr \<lparr>scan_index = [(0, 0), (1, 1), (2, 2), (3, 3)], scan_indexed = True, scan_depots = 1,
           scan_depot_id = 0, scan_customers = [1, 3], scan_stations = [2]\<rparr>"
    by (simp add: demo_nodes_def scan_node_def empty_scan_def isfinite_numeral_small
        demo_curve_ok cap Let_def)
  then show ?thesis
    by (simp add: mk_instance_def demo_vehicle_valid demo_inst_def, simp add: demo_nodes_def)
qed

lemma demo_inst_ok: "inst_ok demo_inst"
  by (rule mk_instance_ok(1) [OF demo_inst_constructed])

text \<open>
  In a constructed instance the fast path of \<open>node\<close> and \<open>distance_km\<close>, taken when
  the identifiers are dense, agrees with the search by identifier: a known identifier
  gives its node and the Euclidean distance, an unknown one throws \<open>out_of_range\<close>.
\<close>

theorem lookups_by_identifier:
  assumes "mk_instance nm ds ns v curves = Inr I"
  shows "node_of I i = (case find (\<lambda>n. node_id n = i) ns of
      None \<Rightarrow> Inl (unknown_node i) | Some n \<Rightarrow> Inr n) \<and>
    distance_km I i j =
      (case (find (\<lambda>n. node_id n = i) ns, find (\<lambda>n. node_id n = j) ns) of
        (Some a, Some b) \<Rightarrow> Inr (node_distance a b)
      | _ \<Rightarrow> Inl (Out_Of_Range ''_Map_base::at''))"
proof -
  note ok = mk_instance_ok [OF assms]
  have find: "find (\<lambda>n. node_id n = k) ns = find_node I k" for k
    by (simp add: find_node_def ok(2))
  have known: "find_node I k = (if k \<in> set (ids I) then Some (the_node I k) else None)" for k
    using node_of_find [OF ok(1), of k] node_of_known(1) [OF ok(1), of k] find_node_None [of I k]
    by (cases "find_node I k") auto
  show ?thesis
    using node_of_find [OF ok(1), of i] distance_km_known [OF ok(1), of i j]
      distance_km_unknown [OF ok(1), of i j]
    by (auto simp: find known dist_km_def)
qed

theorem lookups_by_identifier_witness:
  "node_of demo_inst 2 = Inr (demo_nodes ! 2) \<and> distance_km demo_inst 2 7 = Inl (Out_Of_Range ''_Map_base::at'')"
  using lookups_by_identifier [OF demo_inst_constructed, of 2 7] by (simp add: demo_nodes_def)

text \<open>
  The constructor accepts only instances with pairwise distinct identifiers, exactly
  one depot and at least one customer; \<open>customer_ids\<close> and \<open>station_ids\<close> are the sorted
  identifiers of the nodes of that kind, and \<open>curve_for_station\<close> returns a curve exactly
  for stations, whose capacity is the battery's up to 1e-6 Wh.
\<close>

theorem instance_constructor_sound:
  assumes "mk_instance nm ds ns v curves = Inr I"
  shows "distinct (map node_id ns) \<and>
    (\<exists>!n. n \<in> set ns \<and> kind n = Depot) \<and>
    customer_ids I \<noteq> [] \<and> sorted_wrt (<) (customer_ids I) \<and> sorted_wrt (<) (station_ids I) \<and>
    set (customer_ids I) = {node_id n |n. n \<in> set ns \<and> kind n = Customer} \<and>
    set (station_ids I) = {node_id n |n. n \<in> set ns \<and> kind n = Station} \<and>
    (i \<in> set (station_ids I) \<longleftrightarrow> (\<exists>c. curve_for_station I i = Inr c)) \<and>
    (\<forall>c. curve_for_station I i = Inr c \<longrightarrow>
      \<bar>capacity_wh c - battery_capacity_wh v\<bar> \<le> 1 / 10 ^ 6)"
proof -
  note ok = mk_instance_ok [OF assms]
  note inv = inst_okD [OF ok(1), unfolded ok(2,3,4)]
  have sets: "set (ids_of_kind k ns) = {node_id n |n. n \<in> set ns \<and> kind n = k}" for k
    by (auto simp: ids_of_kind_def)
  have dist: "distinct (ids_of_kind k ns)" for k
    using inv(2) by (simp add: ids_of_kind_def distinct_map_filter)
  have depot: "\<exists>!n. n \<in> set ns \<and> kind n = Depot"
  proof -
    obtain d where "filter (\<lambda>n. kind n = Depot) ns = [d]"
      using inv(6) by (auto simp: ids_of_kind_def)
    then have "{n \<in> set ns. kind n = Depot} = {d}" by (metis list.simps(15) empty_set set_filter)
    then have "n \<in> set ns \<and> kind n = Depot \<longleftrightarrow> n = d" for n by blast
    then show ?thesis by simp
  qed
  have curve: "curve_for_station I i = (if i \<in> set (ids I) then
      (if kind (the_node I i) = Station then Inr (the (map_of curves (station_type (the_node I i))))
       else Inl (Invalid_Argument ''node is not a charging station''))
      else Inl (unknown_node i))"
    and cap: "i \<in> set (ids I) \<Longrightarrow> kind (the_node I i) = Station \<Longrightarrow>
      \<bar>capacity_wh (the (map_of curves (station_type (the_node I i)))) - battery_capacity_wh v\<bar> \<le> 1 / 10 ^ 6"
    using inv(9) node_of_known [OF ok(1), of i] node_of_unknown [OF ok(1), of i]
    by (auto simp: curve_for_station_def station_curves_ok_def ok(2,4))
  have station: "i \<in> set (station_ids I) \<longleftrightarrow> i \<in> set (ids I) \<and> kind (the_node I i) = Station"
    using kind_of_known [OF ok(1), of i Station] known_lookups(3) [OF ok(1)]
    by (auto simp: inv(8) ok(2))
  have "(\<forall>c. curve_for_station I i = Inr c \<longrightarrow>
      \<bar>capacity_wh c - battery_capacity_wh v\<bar> \<le> 1 / 10 ^ 6)"
    using cap by (simp add: curve)
  then show ?thesis
    using inv(2,11) depot dist station
    by (simp add: inv(7,8) sets curve strict_sorted_iff)
qed

theorem instance_constructor_sound_witness:
  "2 \<in> set (station_ids demo_inst) \<and> (\<exists>c. curve_for_station demo_inst 2 = Inr c)"
proof -
  have "2 \<in> set (station_ids demo_inst)" by (simp add: demo_inst_def)
  with instance_constructor_sound [OF demo_inst_constructed, of 2] show ?thesis by blast
qed

text \<open>
  Travel times and energies between known nodes are a metric: zero from a node to
  itself, nonnegative, symmetric, and never larger than the way over a third node (what the
  path dominance rules and the deletion of a station visit rely on).
\<close>

theorem travel_is_metric:
  assumes "mk_instance nm ds ns v curves = Inr I"
    and "{i, j, k} \<subseteq> node_id ` set ns"
  shows "travel_time_h I i i = Inr 0 \<and> energy_between_wh I i i = Inr 0 \<and>
    travel_time_h I i j = travel_time_h I j i \<and> energy_between_wh I i j = energy_between_wh I j i \<and>
    (\<exists>a b c. travel_time_h I i k = Inr a \<and> travel_time_h I i j = Inr b \<and>
      travel_time_h I j k = Inr c \<and> 0 \<le> a \<and> a \<le> b + c) \<and>
    (\<exists>a b c. energy_between_wh I i k = Inr a \<and> energy_between_wh I i j = Inr b \<and>
      energy_between_wh I j k = Inr c \<and> 0 \<le> a \<and> a \<le> b + c)"
proof -
  note ok = mk_instance_ok [OF assms(1)]
  have known: "i \<in> set (ids I)" "j \<in> set (ids I)" "k \<in> set (ids I)"
    using assms(2) by (auto simp: ids_def ok(2))
  note pos = vehicle_pos [OF ok(1)]
  have travel: "leg_travel I i k \<le> leg_travel I i j + leg_travel I j k"
    using dist_km_triangle [of I i k j] pos(1)
    by (simp add: leg_travel_def add_divide_distrib [symmetric] divide_right_mono)
  have energy: "leg_energy I i k \<le> leg_energy I i j + leg_energy I j k"
    using dist_km_triangle [of I i k j] pos(2)
    by (simp add: leg_energy_def distrib_right [symmetric] mult_right_mono)
  have sym: "dist_km I i j = dist_km I j i"
    by (simp add: dist_km_def node_distance_sym)
  show ?thesis
    using known travel energy sym leg_travel_nonneg [OF ok(1), of i k] leg_energy_nonneg [OF ok(1), of i k]
    by (simp add: travel_time_known [OF ok(1)] energy_known [OF ok(1)],
        simp add: leg_travel_def leg_energy_def)
qed

theorem travel_is_metric_witness:
  "\<exists>a b c. travel_time_h demo_inst 0 3 = Inr a \<and> travel_time_h demo_inst 0 1 = Inr b \<and>
    travel_time_h demo_inst 1 3 = Inr c \<and> 0 \<le> a \<and> a \<le> b + c"
proof -
  have "{0, 1, 3} \<subseteq> node_id ` set demo_nodes" by (simp add: demo_nodes_def)
  from travel_is_metric [OF demo_inst_constructed this] show ?thesis by blast
qed

end
