(* ===== verification/Route_Plan.thy ===== *)
theory Route_Plan
  imports Instance_Model
begin

text \<open>
  Routes, evaluations, plans and solutions (include/ils_sp/core.hpp, the end of
  src/core.cpp): \<open>Route\<close>, \<open>ChargingEvent\<close>, \<open>RouteCostSummary\<close>, \<open>RouteEvaluation\<close>, \<open>Plan\<close>
  and \<open>Solution\<close>, the expansion of a customer sequence with its charging paths, the
  partition check and the penalised cost.  The record of an evaluation extends the record
  of the cost summary, whose fields the two C++ structs share.
\<close>

section \<open>Data\<close>

record route =
  visits :: "int list"

record charging_event =
  visit_index :: nat
  event_station_id :: int
  event_arrival_wh :: real
  event_departure_wh :: real
  duration_h :: real

record route_cost_summary =
  feasible :: bool
  raw_cost_h :: real
  total_travel_h :: real
  charging_time_h :: real
  total_service_h :: real
  route_duration_h :: real
  energy_shortfall_wh :: real
  duration_excess_h :: real

record route_evaluation = route_cost_summary +
  evaluated_route :: route
  arrival_energy_wh :: "real list"
  departure_energy_wh :: "real list"
  charging_events :: "charging_event list"

text \<open>The shared pointer to the evaluation may be null.\<close>

record plan =
  plan_customers :: "int list"
  gaps :: "int list list"
  plan_route :: route
  evaluation :: "route_evaluation option"
  exact_charging :: bool

record solution =
  plans :: "plan list"

section \<open>Expansion of a route\<close>

definition expand_route :: "int list \<Rightarrow> int list list \<Rightarrow> route result" where
  "expand_route customers gs =
     (if length gs \<noteq> length customers + 1
      then Inl (Invalid_Argument ''a route needs one more gap than customers'')
      else Inr \<lparr>visits = concat (map (\<lambda>index. gs ! index @ [customers ! index]) [0..<length customers])
                          @ last gs\<rparr>)"

definition direct_gaps :: "nat \<Rightarrow> int list list" where
  "direct_gaps customers = replicate (customers + 1) []"

text \<open>The same interleaving by recursion on the two lists.\<close>

fun interleave :: "int list list \<Rightarrow> int list \<Rightarrow> int list" where
  "interleave (g # gs) (c # cs) = g @ c # interleave gs cs"
| "interleave (g # gs) [] = g"
| "interleave [] cs = []"

lemma interleave_eq:
  "length gs = length cs + 1 \<Longrightarrow>
    concat (map (\<lambda>i. gs ! i @ [cs ! i]) [0..<length cs]) @ last gs = interleave gs cs"
proof (induction gs cs rule: interleave.induct)
  case (1 g gs c cs)
  then have "gs \<noteq> []" by auto
  with 1 show ?case
    by (simp add: upt_conv_Cons map_Suc_upt [symmetric] comp_def del: upt_Suc)
qed auto

lemma expand_route_eq:
  "expand_route cs gs = (if length gs = length cs + 1 then Inr \<lparr>visits = interleave gs cs\<rparr>
     else Inl (Invalid_Argument ''a route needs one more gap than customers''))"
  by (simp add: expand_route_def interleave_eq)

lemma filter_interleave:
  "length gs = length cs + 1 \<Longrightarrow> (\<forall>g \<in> set gs. \<forall>s \<in> set g. \<not> P s) \<Longrightarrow> (\<forall>c \<in> set cs. P c) \<Longrightarrow>
    filter P (interleave gs cs) = cs"
  by (induction gs cs rule: interleave.induct) (auto simp: filter_empty_conv)

lemma interleave_direct: "interleave (direct_gaps (length cs)) cs = cs"
proof (induction cs)
  case (Cons c cs)
  then show ?case by (simp add: direct_gaps_def)
qed (simp add: direct_gaps_def)

lemma set_interleave:
  "length gs = length cs + 1 \<Longrightarrow> set (interleave gs cs) = set cs \<union> \<Union> (set ` set gs)"
  by (induction gs cs rule: interleave.induct) auto

section \<open>Solutions\<close>

definition sol_feasible :: "solution \<Rightarrow> bool" where
  "sol_feasible s =
     list_all (\<lambda>p. case evaluation p of None \<Rightarrow> False | Some e \<Rightarrow> feasible e) (plans s)"

definition deref :: "'a option \<Rightarrow> 'a result" where
  "deref p = (case p of None \<Rightarrow> Inl (Undefined ''null evaluation'') | Some x \<Rightarrow> Inr x)"

definition sol_raw_cost_h :: "solution \<Rightarrow> real result" where
  "sol_raw_cost_h s =
     rfold (\<lambda>total p. rbind (deref (evaluation p)) (\<lambda>e. Inr (total + raw_cost_h e))) 0 (plans s)"

definition customer_sequences :: "solution \<Rightarrow> int list list" where
  "customer_sequences s = map plan_customers (plans s)"

definition generalized_cost :: "route_evaluation \<Rightarrow> inst \<Rightarrow> real \<Rightarrow> real result" where
  "generalized_cost e I penalty_lambda =
     (if \<not> isfinite penalty_lambda \<or> penalty_lambda < 0
      then Inl (Invalid_Argument ''penalty lambda must be finite and nonnegative'')
      else let distance_violation_km = energy_shortfall_wh e / consumption_wh_per_km (vehicle_of I)
           in Inr (raw_cost_h e + penalty_lambda * (distance_violation_km + duration_excess_h e)))"

definition sol_generalized_cost :: "solution \<Rightarrow> inst \<Rightarrow> real \<Rightarrow> real result" where
  "sol_generalized_cost s I penalty_lambda =
     rfold (\<lambda>total p. rbind (deref (evaluation p)) (\<lambda>e.
              rbind (generalized_cost e I penalty_lambda) (\<lambda>c. Inr (total + c)))) 0 (plans s)"

definition sorted_customer_set :: "int list \<Rightarrow> int list" where
  "sorted_customer_set customers = unique_by (=) (sort customers)"

lemma sorted_customer_set_correct:
  "set (sorted_customer_set cs) = set cs \<and> sorted_wrt (<) (sorted_customer_set cs)"
  by (simp add: sorted_customer_set_def set_unique_by_eq strict_sorted_iff sorted_unique_by
      distinct_unique_by)

text \<open>Two customer sequences have the same key exactly when they visit the same customers.\<close>

lemma sorted_customer_set_eq_iff:
  "sorted_customer_set cs = sorted_customer_set ds \<longleftrightarrow> set cs = set ds"
  using sorted_customer_set_correct [of cs] sorted_customer_set_correct [of ds]
  by (metis strict_sorted_equal)

section \<open>The partition check\<close>

definition insert_customer :: "inst \<Rightarrow> int set \<Rightarrow> int \<Rightarrow> int set result" where
  "insert_customer I seen c =
     rbind (node_of I c) (\<lambda>n.
       if kind n \<noteq> Customer \<or> c \<in> seen
       then Inl (Invalid_Argument ''solution repeats or misclassifies a customer'')
       else Inr (insert c seen))"

definition plan_consistent :: "plan \<Rightarrow> bool" where
  "plan_consistent p \<longleftrightarrow>
     \<not> (plan_customers p = [] \<or> length (gaps p) \<noteq> length (plan_customers p) + 1 \<or>
        Inr (plan_route p) \<noteq> expand_route (plan_customers p) (gaps p))"

definition insert_plan :: "inst \<Rightarrow> int set \<Rightarrow> plan \<Rightarrow> int set result" where
  "insert_plan I seen p =
     (if \<not> plan_consistent p then Inl (Invalid_Argument ''plan representation is inconsistent'')
      else rfold (insert_customer I) seen (plan_customers p))"

definition validate_partition :: "inst \<Rightarrow> solution \<Rightarrow> unit result" where
  "validate_partition I s =
     rbind (rfold (insert_plan I) {} (plans s)) (\<lambda>seen.
       if card seen \<noteq> length (customer_ids I)
       then Inl (Invalid_Argument ''solution does not cover every customer'')
       else rfold (\<lambda>u c. if c \<notin> seen
                         then Inl (Invalid_Argument (''solution misses customer '' @ string_of_int c))
                         else Inr ()) () (customer_ids I))"

lemma insert_customers_Inr:
  assumes "inst_ok I"
  shows "rfold (insert_customer I) seen cs = Inr seen' \<longleftrightarrow>
    seen' = seen \<union> set cs \<and> distinct cs \<and> seen \<inter> set cs = {} \<and> set cs \<subseteq> set (customer_ids I)"
proof (induction cs arbitrary: seen)
  case (Cons c cs)
  have "insert_customer I seen c =
      (if c \<in> set (ids I) then if kind (the_node I c) \<noteq> Customer \<or> c \<in> seen
         then Inl (Invalid_Argument ''solution repeats or misclassifies a customer'')
         else Inr (insert c seen)
       else Inl (unknown_node c))"
    using node_of_known(1) [OF assms, of c] node_of_unknown [OF assms, of c]
    by (auto simp: insert_customer_def)
  moreover have "c \<in> set (customer_ids I) \<longleftrightarrow> c \<in> set (ids I) \<and> kind (the_node I c) = Customer"
    using kind_of_known [OF assms, of c Customer] known_lookups(2) [OF assms]
    by (auto simp: inst_okD(7) [OF assms])
  ultimately show ?case by (auto simp: Cons)
qed auto

lemma insert_plan_Inr:
  assumes "inst_ok I"
  shows "insert_plan I seen p = Inr seen' \<longleftrightarrow> plan_consistent p \<and>
    seen' = seen \<union> set (plan_customers p) \<and> distinct (plan_customers p) \<and>
    seen \<inter> set (plan_customers p) = {} \<and> set (plan_customers p) \<subseteq> set (customer_ids I)"
  by (auto simp: insert_plan_def insert_customers_Inr [OF assms])

lemma insert_plans_Inr:
  assumes "inst_ok I"
  shows "rfold (insert_plan I) seen ps = Inr seen' \<longleftrightarrow>
    (\<forall>p \<in> set ps. plan_consistent p) \<and> seen' = seen \<union> set (concat (map plan_customers ps)) \<and>
    distinct (concat (map plan_customers ps)) \<and> seen \<inter> set (concat (map plan_customers ps)) = {} \<and>
    set (concat (map plan_customers ps)) \<subseteq> set (customer_ids I)"
proof (induction ps arbitrary: seen)
  case (Cons p ps)
  show ?case
    by (simp add: rbind_eq_Inr_conv insert_plan_Inr [OF assms] Cons.IH del: set_concat) auto
qed auto

lemma customer_ids_distinct: "inst_ok I \<Longrightarrow> distinct (customer_ids I)"
  using inst_okD(2,7) [of I] by (simp add: ids_of_kind_def distinct_map_filter)

lemma rfold_check: "rfold (\<lambda>u c. if P c then Inl (f c) else Inr ()) () xs = Inr () \<longleftrightarrow> (\<forall>c \<in> set xs. \<not> P c)"
  by (induction xs) auto

text \<open>The partition check and its last loop.\<close>

lemma validate_partition_Inr:
  assumes "inst_ok I"
  shows "validate_partition I s = Inr () \<longleftrightarrow>
    (\<forall>p \<in> set (plans s). plan_consistent p) \<and>
    distinct (concat (customer_sequences s)) \<and>
    set (concat (customer_sequences s)) = set (customer_ids I)"
proof -
  let ?cs = "concat (map plan_customers (plans s))"
  have "validate_partition I s = Inr () \<longleftrightarrow>
      (\<exists>seen. rfold (insert_plan I) {} (plans s) = Inr seen \<and> card seen = length (customer_ids I) \<and>
        set (customer_ids I) \<subseteq> seen)"
    by (auto simp: validate_partition_def rbind_eq_Inr_conv rfold_check)
  also have "\<dots> \<longleftrightarrow> (\<forall>p \<in> set (plans s). plan_consistent p) \<and> distinct ?cs \<and>
      set ?cs \<subseteq> set (customer_ids I) \<and> card (set ?cs) = length (customer_ids I) \<and>
      set (customer_ids I) \<subseteq> set ?cs"
    by (simp only: insert_plans_Inr [OF assms]) auto
  also have "\<dots> \<longleftrightarrow> (\<forall>p \<in> set (plans s). plan_consistent p) \<and> distinct ?cs \<and>
      set ?cs = set (customer_ids I)"
    using distinct_card [OF customer_ids_distinct [OF assms]] by auto
  finally show ?thesis by (simp add: customer_sequences_def)
qed

section \<open>Properties\<close>

text \<open>
  \<open>validate_partition\<close> accepts a solution exactly when every plan is nonempty and its
  route is the expansion of its customers with its gaps, and the customer sequences together
  visit every customer of the instance exactly once.
\<close>

theorem validate_partition_iff:
  assumes "inst_ok I"
  shows "validate_partition I s = Inr () \<longleftrightarrow>
    (\<forall>p \<in> set (plans s). plan_customers p \<noteq> [] \<and>
       expand_route (plan_customers p) (gaps p) = Inr (plan_route p)) \<and>
    mset (concat (customer_sequences s)) = mset (customer_ids I)"
proof -
  have "plan_consistent p \<longleftrightarrow> plan_customers p \<noteq> [] \<and>
      expand_route (plan_customers p) (gaps p) = Inr (plan_route p)" for p
    by (auto simp: plan_consistent_def expand_route_def)
  moreover have "distinct xs \<and> set xs = set (customer_ids I) \<longleftrightarrow> mset xs = mset (customer_ids I)"
    for xs
    using customer_ids_distinct [OF assms]
    by (metis mset_eq_setD mset_eq_imp_distinct_iff set_eq_iff_mset_eq_distinct)
  ultimately show ?thesis by (simp add: validate_partition_Inr [OF assms] del: set_concat)
qed

definition demo_solution :: solution where
  "demo_solution = \<lparr>plans =
     [\<lparr>plan_customers = [3], gaps = [[2], []], plan_route = \<lparr>visits = [2, 3]\<rparr>, evaluation = None,
       exact_charging = False\<rparr>,
      \<lparr>plan_customers = [1], gaps = [[], []], plan_route = \<lparr>visits = [1]\<rparr>, evaluation = None,
       exact_charging = False\<rparr>]\<rparr>"

theorem validate_partition_iff_witness: "validate_partition demo_inst demo_solution = Inr ()"
  unfolding validate_partition_iff [OF demo_inst_ok]
  by (simp add: demo_solution_def demo_inst_def customer_sequences_def expand_route_def)

text \<open>
  The penalised cost of a solution whose plans are all evaluated is the raw cost plus
  the penalty weight times the total violation (kilometres of missing energy plus hours
  over the duration limit); it fails only on a negative or infinite penalty.
\<close>

theorem sol_generalized_cost_decomposes:
  assumes "isfinite lambda" and "0 \<le> lambda" and "\<forall>p \<in> set (plans s). evaluation p \<noteq> None"
  shows "\<exists>r. sol_raw_cost_h s = Inr r \<and> sol_generalized_cost s I lambda = Inr (r + lambda *
    sum_list (map (\<lambda>p. energy_shortfall_wh (the (evaluation p)) / consumption_wh_per_km (vehicle_of I)
                        + duration_excess_h (the (evaluation p))) (plans s)))"
proof -
  let ?v = "\<lambda>p. energy_shortfall_wh (the (evaluation p)) / consumption_wh_per_km (vehicle_of I)
    + duration_excess_h (the (evaluation p))"
  have raw: "rfold (\<lambda>total p. rbind (deref (evaluation p)) (\<lambda>e. Inr (total + raw_cost_h e))) a ps =
      Inr (a + sum_list (map (\<lambda>p. raw_cost_h (the (evaluation p))) ps))"
    if "\<forall>p \<in> set ps. evaluation p \<noteq> None" for a ps
    using that by (induction ps arbitrary: a) (auto simp: deref_def)
  have penalised: "rfold (\<lambda>total p. rbind (deref (evaluation p)) (\<lambda>e.
        rbind (generalized_cost e I lambda) (\<lambda>c. Inr (total + c)))) a ps =
      Inr (a + sum_list (map (\<lambda>p. raw_cost_h (the (evaluation p))) ps) + lambda * sum_list (map ?v ps))"
    if "\<forall>p \<in> set ps. evaluation p \<noteq> None" for a ps
    using that
  proof (induction ps arbitrary: a)
    case (Cons p ps)
    then obtain e where "evaluation p = Some e" by auto
    with Cons assms(1,2) show ?case
      by (simp add: deref_def generalized_cost_def distrib_left add.assoc)
  qed simp
  show ?thesis
    using raw [OF assms(3), of 0] penalised [OF assms(3), of 0]
    by (simp add: sol_raw_cost_h_def sol_generalized_cost_def)
qed

definition demo_costed :: solution where
  "demo_costed = \<lparr>plans = [\<lparr>plan_customers = [1], gaps = [[], []], plan_route = \<lparr>visits = [1]\<rparr>,
     evaluation = Some \<lparr>feasible = False, raw_cost_h = 3, total_travel_h = 3, charging_time_h = 0,
       total_service_h = 1, route_duration_h = 4, energy_shortfall_wh = 20, duration_excess_h = 0,
       evaluated_route = \<lparr>visits = [1]\<rparr>, arrival_energy_wh = [], departure_energy_wh = [],
       charging_events = []\<rparr>, exact_charging = False\<rparr>]\<rparr>"

theorem sol_generalized_cost_decomposes_witness:
  "sol_generalized_cost demo_costed demo_inst 2 = Inr (3 + 2 * 20)"
  using sol_generalized_cost_decomposes [of 2 demo_costed demo_inst]
  by (simp add: isfinite_numeral_small demo_costed_def sol_raw_cost_h_def deref_def
      demo_inst_def demo_vehicle_def)

end
