(* ===== verification/Charging_Labels.thy ===== *)
theory Charging_Labels
  imports Route_Plan
begin

text \<open>
  The resource labels of include/ils_sp/evaluator.hpp and src/evaluator.cpp:
  \<open>ChargingSequenceLeg\<close>, \<open>ChargingSequenceLabel\<close>, and \<open>edge_label\<close>, \<open>append\<close>, \<open>concatenate\<close>
  and \<open>route_label\<close> of \<open>NonlinearSequenceEvaluator\<close>.  The specification is \<open>path_label\<close>,
  the label of a path of nodes given directly by its travel time, its service time and its
  energy segments.  The locale \<open>label_algebra\<close> states what the evaluator and the segment
  trees rely on: appending is associative and has the uninitialised label as unit; the
  interpretation shows it of the code's \<open>append\<close>.
\<close>

section \<open>Data\<close>

record charging_leg =
  leg_station_id :: int
  energy_from_previous_station_wh :: real
  physical_same_station_predecessor :: bool

record charging_label =
  initialized :: bool
  origin_id :: int
  target_id :: int
  station_legs :: "charging_leg list"
  tail_energy_wh :: real
  label_travel_h :: real
  label_service_h :: real

text \<open>The default constructed label.\<close>

definition empty_label :: charging_label where
  "empty_label = \<lparr>initialized = False, origin_id = 0, target_id = 0, station_legs = [],
                  tail_energy_wh = 0, label_travel_h = 0, label_service_h = 0\<rparr>"

section \<open>Edge labels\<close>

text \<open>The lambda \<open>traverse\<close> on the label, the energy since the last station and the last node.\<close>

definition traverse ::
  "inst \<Rightarrow> int \<Rightarrow> bool \<Rightarrow> charging_label \<times> real \<times> int \<Rightarrow> (charging_label \<times> real \<times> int) result" where
  "traverse I n charging_opportunity s =
     (case s of (lab, accumulated, prior) \<Rightarrow>
       rbind (travel_time_h I prior n) (\<lambda>t.
       rbind (energy_between_wh I prior n) (\<lambda>e.
       let lab1 = lab\<lparr>label_travel_h := label_travel_h lab + t\<rparr>;
           accumulated1 = accumulated + e
       in if charging_opportunity
          then Inr (lab1\<lparr>station_legs := station_legs lab1 @
                      [\<lparr>leg_station_id = n, energy_from_previous_station_wh = accumulated1,
                        physical_same_station_predecessor = (prior = n)\<rparr>]\<rparr>, 0, n)
          else Inr (lab1, accumulated1, n))))"

definition traverse_station ::
  "inst \<Rightarrow> charging_label \<times> real \<times> int \<Rightarrow> int \<Rightarrow> (charging_label \<times> real \<times> int) result" where
  "traverse_station I s station =
     rbind (node_of I station) (\<lambda>n.
       if kind n \<noteq> Station then Inl (Invalid_Argument ''sequence label path contains a non-station'')
       else traverse I station True s)"

definition edge_label :: "inst \<Rightarrow> int \<Rightarrow> int list \<Rightarrow> int \<Rightarrow> charging_label result" where
  "edge_label I orig stations targ =
     rbind (node_of I orig) (\<lambda>_.
     rbind (node_of I targ) (\<lambda>t.
     let result0 = \<lparr>initialized = True, origin_id = orig, target_id = targ, station_legs = [],
                    tail_energy_wh = 0, label_travel_h = 0, label_service_h = 0\<rparr>
     in rbind (rfold (traverse_station I) (result0, 0, orig) stations) (\<lambda>s.
        rbind (traverse I targ (kind t = Station) s) (\<lambda>(result1, energy_since_station, previous).
        let result2 = result1\<lparr>tail_energy_wh := energy_since_station\<rparr>
        in Inr (if kind t = Customer then result2\<lparr>label_service_h := node_service_time_h t\<rparr>
                else result2)))))"

section \<open>Appending labels\<close>

definition append_label :: "charging_label \<Rightarrow> charging_label \<Rightarrow> charging_label result" where
  "append_label left right =
     (if \<not> initialized right then Inr left
      else if \<not> initialized left then Inr right
      else if target_id left \<noteq> origin_id right
      then Inl (Invalid_Argument ''non-contiguous charging sequence labels'')
      else let left1 = left\<lparr>target_id := target_id right,
                            label_travel_h := label_travel_h left + label_travel_h right,
                            label_service_h := label_service_h left + label_service_h right\<rparr>
           in case station_legs right of
                [] \<Rightarrow> Inr (left1\<lparr>tail_energy_wh := tail_energy_wh left1 + tail_energy_wh right\<rparr>)
              | front # rest \<Rightarrow>
                  let first = front\<lparr>energy_from_previous_station_wh :=
                                energy_from_previous_station_wh front + tail_energy_wh left1\<rparr>
                  in Inr (left1\<lparr>station_legs := station_legs left1 @ [first] @ rest,
                                tail_energy_wh := tail_energy_wh right\<rparr>))"

definition concatenate :: "charging_label \<Rightarrow> charging_label \<Rightarrow> charging_label result" where
  "concatenate left right = append_label left right"

text \<open>Appending the labels of a sequence, from a label on.\<close>

definition append_all :: "charging_label \<Rightarrow> charging_label list \<Rightarrow> charging_label result" where
  "append_all lab labs = rfold append_label lab labs"

section \<open>Route labels\<close>

definition append_edge :: "inst \<Rightarrow> charging_label \<times> int \<Rightarrow> int \<Rightarrow> (charging_label \<times> int) result" where
  "append_edge I s n =
     (case s of (lab, previous) \<Rightarrow>
       rbind (edge_label I previous [] n) (\<lambda>e. rbind (append_label lab e) (\<lambda>lab'. Inr (lab', n))))"

definition route_label :: "inst \<Rightarrow> route \<Rightarrow> charging_label result" where
  "route_label I r =
     rbind (depot_of I) (\<lambda>d.
     rbind (rfold (append_edge I) (empty_label, node_id d) (visits r)) (\<lambda>(lab, previous).
     rbind (edge_label I previous [] (node_id d)) (\<lambda>e. append_label lab e)))"

section \<open>The algebra of labels\<close>

lemma append_uninitialized_right [simp]: "\<not> initialized b \<Longrightarrow> append_label a b = Inr a"
  by (simp add: append_label_def)

lemma append_uninitialized_left [simp]:
  "\<not> initialized a \<Longrightarrow> initialized b \<Longrightarrow> append_label a b = Inr b"
  by (simp add: append_label_def)

lemma append_noncontiguous:
  "initialized a \<Longrightarrow> initialized b \<Longrightarrow> target_id a \<noteq> origin_id b \<Longrightarrow>
    append_label a b = Inl (Invalid_Argument ''non-contiguous charging sequence labels'')"
  by (simp add: append_label_def)

lemma append_label_Inr:
  assumes "append_label a b = Inr c" and "initialized a" and "initialized b"
  shows "initialized c" and "origin_id c = origin_id a" and "target_id c = target_id b"
    and "target_id a = origin_id b"
  using assms by (auto simp: append_label_def Let_def split: if_splits list.splits)

lemma append_label_assoc:
  "rbind (append_label a b) (\<lambda>x. append_label x c) = rbind (append_label b c) (append_label a)"
proof -
  consider "\<not> initialized c" | "initialized c" "\<not> initialized b"
    | "initialized c" "initialized b" "\<not> initialized a"
    | "initialized a" "initialized b" "initialized c" by blast
  then show ?thesis
  proof cases
    case 1
    then show ?thesis by (cases "append_label a b") simp_all
  next
    case 2
    then show ?thesis by simp
  next
    case 3
    show ?thesis
    proof (cases "append_label b c")
      case (Inr d)
      with 3 have "initialized d" using append_label_Inr(1) by blast
      with 3 Inr show ?thesis by simp
    qed (use 3 in simp)
  next
    case 4
    then show ?thesis
      by (cases "station_legs b"; cases "station_legs c"; cases "target_id a = origin_id b";
          cases "target_id b = origin_id c")
        (simp_all add: append_label_def)
  qed
qed

locale label_algebra =
  fixes app :: "'l \<Rightarrow> 'l \<Rightarrow> 'l result" and neutral :: "'l \<Rightarrow> bool"
  assumes assoc: "rbind (app a b) (\<lambda>x. app x c) = rbind (app b c) (app a)"
    and unit_right: "neutral b \<Longrightarrow> app a b = Inr a"
    and unit_left: "neutral a \<Longrightarrow> \<not> neutral b \<Longrightarrow> app a b = Inr b"
    and closed: "\<not> neutral a \<Longrightarrow> \<not> neutral b \<Longrightarrow> app a b = Inr c \<Longrightarrow> \<not> neutral c"
begin

text \<open>Appending one by one is the same as appending the combined rest.\<close>

lemma fold_append:
  "rbind (app a b) (\<lambda>x. rfold app x xs) = rbind (rfold app b xs) (app a)"
proof (induction xs arbitrary: b)
  case Nil
  then show ?case by (cases "app a b") simp_all
next
  case (Cons x xs)
  have "rbind (app a b) (\<lambda>y. rfold app y (x # xs)) =
      rbind (rbind (app a b) (\<lambda>y. app y x)) (\<lambda>y. rfold app y xs)"
    by (cases "app a b") simp_all
  also have "\<dots> = rbind (rbind (app b x) (app a)) (\<lambda>y. rfold app y xs)" by (simp only: assoc)
  also have "\<dots> = rbind (app b x) (\<lambda>y. rbind (rfold app y xs) (app a))"
    by (cases "app b x") (simp_all add: Cons)
  also have "\<dots> = rbind (rfold app b (x # xs)) (app a)"
    by (cases "app b x") simp_all
  finally show ?case .
qed

text \<open>
  A list of labels can be cut anywhere: combining the parts first and then each other gives
  the label (or the error) of the whole list.
\<close>

lemma fold_neutral: "neutral n \<Longrightarrow> \<not> neutral x \<Longrightarrow> rfold app n (x # xs) = rfold app x xs"
  by (simp add: unit_left)

lemma fold_not_neutral: "\<not> neutral a \<Longrightarrow> \<forall>x \<in> set xs. \<not> neutral x \<Longrightarrow> rfold app a xs = Inr c \<Longrightarrow> \<not> neutral c"
proof (induction xs arbitrary: a)
  case (Cons x xs)
  then obtain b where "app a x = Inr b" "rfold app b xs = Inr c"
    by (auto simp: rbind_eq_Inr_conv)
  with Cons closed [of a x b] show ?case by auto
qed simp

lemma fold_split:
  assumes "neutral n" and "\<forall>x \<in> set ys. \<not> neutral x" and "ys \<noteq> []"
  shows "rfold app a (xs @ ys) = rbind (rfold app a xs) (\<lambda>x. rbind (rfold app n ys) (app x))"
proof -
  obtain y zs where ys: "ys = y # zs" using assms(3) by (cases ys) auto
  have "rfold app n ys = rfold app y zs" using assms by (simp add: ys unit_left)
  moreover have "rfold app x ys = rbind (rfold app y zs) (app x)" for x
    using fold_append [of x y zs] by (simp add: ys)
  ultimately show ?thesis by (simp add: rfold_append)
qed

end

interpretation lab: label_algebra append_label "\<lambda>l. \<not> initialized l"
proof
  show "rbind (append_label a b) (\<lambda>x. append_label x c) = rbind (append_label b c) (append_label a)"
    for a b c by (rule append_label_assoc)
  show "\<not> \<not> initialized c"
    if "\<not> \<not> initialized a" "\<not> \<not> initialized b" "append_label a b = Inr c" for a b c
    using that append_label_Inr(1) by blast
qed simp_all

section \<open>The label of a path\<close>

text \<open>
  The specification: the energy segments between charging opportunities of the path that
  leaves \<open>p\<close> having used \<open>acc\<close> since the last one, and what is left behind the last station.
\<close>

fun segments :: "inst \<Rightarrow> int \<Rightarrow> real \<Rightarrow> int list \<Rightarrow> charging_leg list" where
  "segments I p acc [] = []"
| "segments I p acc (n # ns) =
     (if kind (the_node I n) = Station
      then \<lparr>leg_station_id = n, energy_from_previous_station_wh = acc + leg_energy I p n,
            physical_same_station_predecessor = (p = n)\<rparr> # segments I n 0 ns
      else segments I n (acc + leg_energy I p n) ns)"

fun tail_segment :: "inst \<Rightarrow> int \<Rightarrow> real \<Rightarrow> int list \<Rightarrow> real" where
  "tail_segment I p acc [] = acc"
| "tail_segment I p acc (n # ns) =
     tail_segment I n (if kind (the_node I n) = Station then 0 else acc + leg_energy I p n) ns"

fun path_travel :: "inst \<Rightarrow> int \<Rightarrow> int list \<Rightarrow> real" where
  "path_travel I p [] = 0"
| "path_travel I p (n # ns) = leg_travel I p n + path_travel I n ns"

definition path_service :: "inst \<Rightarrow> int list \<Rightarrow> real" where
  "path_service I ns =
     sum_list (map (\<lambda>n. if kind (the_node I n) = Customer then node_service_time_h (the_node I n) else 0) ns)"

definition path_label :: "inst \<Rightarrow> int \<Rightarrow> int list \<Rightarrow> charging_label" where
  "path_label I p ns = \<lparr>initialized = True, origin_id = p, target_id = last (p # ns),
     station_legs = segments I p 0 ns, tail_energy_wh = tail_segment I p 0 ns,
     label_travel_h = path_travel I p ns, label_service_h = path_service I ns\<rparr>"

lemma path_label_initialized [simp]: "initialized (path_label I p ns)"
  by (simp add: path_label_def)

lemma path_travel_append: "path_travel I p (xs @ ys) = path_travel I p xs + path_travel I (last (p # xs)) ys"
  by (induction xs arbitrary: p) (simp_all add: add.assoc)

lemma path_service_append: "path_service I (xs @ ys) = path_service I xs + path_service I ys"
  by (simp add: path_service_def)

lemma segments_append:
  "segments I p acc (xs @ ys) =
    segments I p acc xs @ segments I (last (p # xs)) (tail_segment I p acc xs) ys"
  by (induction xs arbitrary: p acc) simp_all

lemma tail_segment_append:
  "tail_segment I p acc (xs @ ys) = tail_segment I (last (p # xs)) (tail_segment I p acc xs) ys"
  by (induction xs arbitrary: p acc) simp_all

text \<open>An energy used before the path goes into the first segment, or into the tail.\<close>

lemma segments_shift:
  "segments I p (acc + d) ns =
    (case segments I p acc ns of [] \<Rightarrow> []
     | l # ls \<Rightarrow> l\<lparr>energy_from_previous_station_wh := energy_from_previous_station_wh l + d\<rparr> # ls)"
proof (induction ns arbitrary: p acc)
  case (Cons n ns)
  then show ?case
    using Cons [of n "acc + leg_energy I p n"] by (simp add: add.assoc add.commute [of d])
qed simp

lemma tail_shift:
  "tail_segment I p (acc + d) ns =
    (if segments I p acc ns = [] then tail_segment I p acc ns + d else tail_segment I p acc ns)"
proof (induction ns arbitrary: p acc)
  case (Cons n ns)
  then show ?case
    using Cons [of n "acc + leg_energy I p n"] by (simp add: add.assoc add.commute [of d])
qed simp

lemma append_path_label:
  "append_label (path_label I p xs) (path_label I (last (p # xs)) ys) = Inr (path_label I p (xs @ ys))"
proof -
  let ?q = "last (p # xs)" and ?t = "tail_segment I p 0 xs"
  have segs: "segments I ?q ?t ys = (case segments I ?q 0 ys of [] \<Rightarrow> []
     | l # ls \<Rightarrow> l\<lparr>energy_from_previous_station_wh := energy_from_previous_station_wh l + ?t\<rparr> # ls)"
    using segments_shift [of I ?q 0 ?t ys] by simp
  have tail: "tail_segment I ?q ?t ys =
    (if segments I ?q 0 ys = [] then tail_segment I ?q 0 ys + ?t else tail_segment I ?q 0 ys)"
    using tail_shift [of I ?q 0 ?t ys] by simp
  show ?thesis
  proof (cases "segments I ?q 0 ys")
    case Nil
    with segs tail show ?thesis
      by (simp add: append_label_def path_label_def path_travel_append path_service_append
          segments_append tail_segment_append add.commute del: last.simps)
        (simp add: last_append)
  next
    case (Cons l ls)
    with segs tail show ?thesis
      by (simp add: append_label_def path_label_def path_travel_append path_service_append
          segments_append tail_segment_append del: last.simps)
        (simp add: last_append)
  qed
qed

section \<open>The code computes path labels\<close>

definition known_station :: "inst \<Rightarrow> int \<Rightarrow> bool" where
  "known_station I s \<longleftrightarrow> s \<in> set (ids I) \<and> kind (the_node I s) = Station"

lemma traverse_eq:
  assumes "inst_ok I" and "p \<in> set (ids I)" and "n \<in> set (ids I)"
  shows "traverse I n (kind (the_node I n) = Station)
      (\<lparr>initialized = i, origin_id = og, target_id = ta, station_legs = ls, tail_energy_wh = te,
        label_travel_h = tr, label_service_h = se\<rparr>, acc, p) =
    Inr (\<lparr>initialized = i, origin_id = og, target_id = ta, station_legs = ls @ segments I p acc [n],
          tail_energy_wh = te, label_travel_h = tr + path_travel I p [n], label_service_h = se\<rparr>,
         tail_segment I p acc [n], n)"
  using assms by (simp add: traverse_def travel_time_known energy_known)

lemma traverse_stations:
  assumes "inst_ok I" and "p \<in> set (ids I)" and "\<forall>s \<in> set ss. known_station I s"
  shows "rfold (traverse_station I)
      (\<lparr>initialized = i, origin_id = og, target_id = ta, station_legs = ls, tail_energy_wh = te,
        label_travel_h = tr, label_service_h = se\<rparr>, acc, p) ss =
    Inr (\<lparr>initialized = i, origin_id = og, target_id = ta, station_legs = ls @ segments I p acc ss,
          tail_energy_wh = te, label_travel_h = tr + path_travel I p ss, label_service_h = se\<rparr>,
         tail_segment I p acc ss, last (p # ss))"
  using assms(2,3)
proof (induction ss arbitrary: p ls tr acc)
  case (Cons s ss)
  then have s: "s \<in> set (ids I)" "kind (the_node I s) = Station"
    by (simp_all add: known_station_def)
  have "traverse_station I (\<lparr>initialized = i, origin_id = og, target_id = ta, station_legs = ls,
        tail_energy_wh = te, label_travel_h = tr, label_service_h = se\<rparr>, acc, p) s =
      Inr (\<lparr>initialized = i, origin_id = og, target_id = ta, station_legs = ls @ segments I p acc [s],
          tail_energy_wh = te, label_travel_h = tr + path_travel I p [s], label_service_h = se\<rparr>,
         tail_segment I p acc [s], s)"
    using traverse_eq [OF assms(1) Cons.prems(1) s(1)] s node_of_known(1) [OF assms(1) s(1)]
    by (simp add: traverse_station_def)
  with Cons.IH [OF s(1)] Cons.prems s(2) show ?case by (simp add: add.assoc)
qed simp

lemma edge_label_eq:
  assumes "inst_ok I" and "p \<in> set (ids I)" and "t \<in> set (ids I)"
    and "\<forall>s \<in> set ss. known_station I s"
  shows "edge_label I p ss t = Inr (path_label I p (ss @ [t]))"
proof -
  have last: "last (p # ss) \<in> set (ids I)"
    using assms(2,4) by (cases "ss = []") (auto simp: known_station_def dest: last_in_set)
  have nosvc: "path_service I ss = 0"
    using assms(4) by (induction ss) (simp_all add: path_service_def known_station_def)
  show ?thesis
    using traverse_stations [OF assms(1,2,4)] traverse_eq [OF assms(1) last assms(3)]
      node_of_known(1) [OF assms(1,2)] node_of_known(1) [OF assms(1,3)] nosvc
    by (simp add: edge_label_def path_label_def path_travel_append path_service_append
        segments_append tail_segment_append del: segments.simps tail_segment.simps path_travel.simps)
      (simp add: path_service_def)
qed

lemma append_edge_eq:
  assumes "inst_ok I" and "last (p # xs) \<in> set (ids I)" and "n \<in> set (ids I)"
  shows "append_edge I (path_label I p xs, last (p # xs)) n =
    Inr (path_label I p (xs @ [n]), n)"
  using edge_label_eq [OF assms, of "[]"] append_path_label [of I p xs "[n]"]
  by (simp add: append_edge_def del: last.simps)

lemma append_edges_eq:
  assumes "inst_ok I" and "last (p # xs) \<in> set (ids I)" and "set ns \<subseteq> set (ids I)"
  shows "rfold (append_edge I) (path_label I p xs, last (p # xs)) ns =
    Inr (path_label I p (xs @ ns), last (p # xs @ ns))"
  using assms(2,3)
proof (induction ns arbitrary: xs)
  case (Cons n ns)
  have "rfold (append_edge I) (path_label I p (xs @ [n]), n) ns =
      Inr (path_label I p ((xs @ [n]) @ ns), last (p # (xs @ [n]) @ ns))"
    using Cons.IH [of "xs @ [n]"] Cons.prems by simp
  with append_edge_eq [OF assms(1) Cons.prems(1), of n] Cons.prems show ?case
    by (simp del: last.simps)
qed simp

lemma route_label_eq:
  assumes "inst_ok I" and "set (visits r) \<subseteq> set (ids I)"
  shows "route_label I r = Inr (path_label I (depot_id I) (visits r @ [depot_id I]))"
proof -
  let ?d = "depot_id I"
  have d: "?d \<in> set (ids I)" by (rule known_lookups(1) [OF assms(1)])
  have depot: "depot_of I = Inr (the_node I ?d)" "node_id (the_node I ?d) = ?d"
    using node_of_known [OF assms(1) d] by (simp_all add: depot_of_def)
  note edge = edge_label_eq [OF assms(1), where ss = "[]", simplified]
  show ?thesis
  proof (cases "visits r")
    case Nil
    with depot edge [OF d d] show ?thesis
      by (simp add: route_label_def) (simp add: empty_label_def)
  next
    case (Cons v vs)
    then have known: "v \<in> set (ids I)" "set vs \<subseteq> set (ids I)" using assms(2) by auto
    have "append_edge I (empty_label, ?d) v = Inr (path_label I ?d [v], v)"
      using edge [OF d known(1)] by (simp add: append_edge_def) (simp add: empty_label_def)
    moreover have "rfold (append_edge I) (path_label I ?d [v], v) vs =
        Inr (path_label I ?d (v # vs), last (v # vs))"
      using append_edges_eq [OF assms(1), of ?d "[v]" vs] known by simp
    moreover have "last (v # vs) \<in> set (ids I)"
      using known by (cases "vs = []") (auto dest: last_in_set)
    ultimately show ?thesis
      using depot edge [OF _ d] append_path_label [of I ?d "v # vs" "[?d]"] Cons
      by (simp add: route_label_def)
  qed
qed

lemma edge_label_error:
  assumes "inst_ok I" and "\<not> (p \<in> set (ids I) \<and> t \<in> set (ids I) \<and> (\<forall>s \<in> set ss. known_station I s))"
  shows "\<exists>e. edge_label I p ss t = Inl e"
proof (cases "p \<in> set (ids I) \<and> t \<in> set (ids I)")
  case True
  then have "\<exists>s \<in> set ss. \<not> known_station I s" using assms(2) by blast
  then obtain xs s ys where ss: "ss = xs @ s # ys" "\<not> known_station I s"
    and xs: "\<forall>x \<in> set xs. known_station I x"
    using split_list_first_prop [of ss "\<lambda>s. \<not> known_station I s"] by auto
  have "\<exists>e. traverse_station I st s = Inl e" for st
    using ss(2) node_of_known(1) [OF assms(1), of s] node_of_unknown [OF assms(1), of s]
    by (cases "s \<in> set (ids I)") (auto simp: traverse_station_def known_station_def)
  then have "\<exists>e. rfold (traverse_station I) st ss = Inl e" for st
    by (cases "rfold (traverse_station I) st xs") (auto simp: ss(1) rfold_append, metis rbind_Inl)
  with True show ?thesis
    using node_of_known(1) [OF assms(1)] by (simp add: edge_label_def) (metis rbind_Inl)
next
  case False
  then show ?thesis
    using node_of_known(1) [OF assms(1)] node_of_unknown [OF assms(1)]
    by (cases "p \<in> set (ids I)") (auto simp: edge_label_def)
qed

section \<open>Properties\<close>

text \<open>
  Appending labels is associative as computations that may throw: combining three
  labels left to right or right to left gives the same label, or the same error when they
  do not meet.  Any tree of appends over a sequence of labels is thus the label of the
  sequence.
\<close>

theorem append_label_associative:
  "rbind (append_label a b) (\<lambda>x. concatenate x c) = rbind (append_label b c) (concatenate a)"
  unfolding concatenate_def by (rule lab.assoc)

text \<open>
  C13: \<open>route_label\<close> of a route over known nodes is the label of the whole path from depot
  to depot, and for every way to cut the path into a first part, a chain of stations and a
  rest it is what appending the label of the first part, the edge label over the stations
  and the label of the rest gives.
\<close>

theorem route_label_correct:
  assumes "inst_ok I" and "set (visits r) \<subseteq> set (ids I)"
    and "visits r @ [depot_id I] = xs @ ss @ [t] @ ys" and "\<forall>s \<in> set ss. known_station I s"
  shows "route_label I r = Inr (path_label I (depot_id I) (visits r @ [depot_id I])) \<and>
    rbind (edge_label I (last (depot_id I # xs)) ss t) (\<lambda>e.
      rbind (append_label (path_label I (depot_id I) xs) e) (\<lambda>l.
        append_label l (path_label I t ys))) = route_label I r"
proof -
  let ?d = "depot_id I"
  have known: "set (xs @ ss @ [t] @ ys) \<subseteq> set (ids I)"
    using assms(2) known_lookups(1) [OF assms(1)] by (simp only: assms(3) [symmetric]) simp
  then have "last (?d # xs) \<in> set (ids I)" "t \<in> set (ids I)"
    using known_lookups(1) [OF assms(1)] by (auto dest: last_in_set)
  note edge = edge_label_eq [OF assms(1) this assms(4)]
  have "append_label (path_label I ?d xs) (path_label I (last (?d # xs)) (ss @ [t])) =
      Inr (path_label I ?d (xs @ ss @ [t]))"
    by (rule append_path_label)
  moreover have "append_label (path_label I ?d (xs @ ss @ [t])) (path_label I t ys) =
      Inr (path_label I ?d ((xs @ ss @ [t]) @ ys))"
    using append_path_label [of I ?d "xs @ ss @ [t]" ys] by simp
  ultimately show ?thesis
    using edge route_label_eq [OF assms(1,2)] assms(3) by (simp del: last.simps)
qed

theorem route_label_correct_witness:
  "route_label demo_inst \<lparr>visits = [2, 3, 1]\<rparr> = Inr (path_label demo_inst 0 [2, 3, 1, 0])"
proof -
  have n: "kind (the_node demo_inst 2) = Station"
    by (simp add: the_node_def node_of_def demo_inst_def demo_nodes_def)
  have d: "depot_id demo_inst = 0" by (simp add: demo_inst_def)
  have i: "set (ids demo_inst) = {0, 1, 2, 3}"
    by (auto simp: ids_def demo_inst_def demo_nodes_def)
  have "set (visits \<lparr>visits = [2, 3, 1]\<rparr>) \<subseteq> set (ids demo_inst)" by (simp add: i)
  from route_label_correct [OF demo_inst_ok this, of "[]" "[2]" 3 "[1, 0]"] show ?thesis
    by (simp add: n d i known_station_def)
qed

end
