(* ===== verification/Charge_Loop.thy ===== *)
theory Charge_Loop
  imports Charging_Labels
begin

text \<open>
  The charging loop that \<open>NonlinearSequenceEvaluator::evaluate_data\<close> and
  \<open>RouteEvaluator::evaluate_uncached\<close> (src/evaluator.cpp) share: while the energy on arrival
  at a position is negative beyond the tolerance, the preceding station with the best
  marginal rate charges what the missing energy, the free capacity up to the position, the
  next breakpoint and the remaining shift allow; when no station can, the missing energy is
  recorded as a shortfall.  The two callers differ in how far a change is carried to later
  positions (\<open>last_pos\<close>) and in the early return of the bounded evaluation (\<open>cut_off\<close>), which
  are parameters here.  The loop is a partial function; \<open>charge_loop_rule\<close> shows that it
  returns, because every iteration charges more than the tolerance, and carries
  invariants through it.
\<close>

section \<open>Data\<close>

record nonlinear_cost_lower_bound =
  lb_travel_h :: real
  lb_shortfall_wh :: real
  lb_excess_h :: real

record eval_state =
  arrival :: "real list"
  departure :: "real list"
  remaining_shift_h :: real
  shortfall_wh :: real

text \<open>How a run of the loop ends: normally, by the early return of a bound, or by a throw.\<close>

datatype 'a run = Done 'a | Cut nonlinear_cost_lower_bound | Threw error

record charge_env =
  env_capacity :: real
  curve_at :: "nat \<Rightarrow> charging_curve result"
  scan_stations :: "real \<Rightarrow> bool"
  cut_off :: "real \<Rightarrow> nonlinear_cost_lower_bound option result"

section \<open>One iteration\<close>

text \<open>\<open>for (suffix = lo; suffix <= hi; ++suffix) xs[suffix] += c\<close>.\<close>

definition add_range :: "nat \<Rightarrow> nat \<Rightarrow> real \<Rightarrow> real list \<Rightarrow> real list" where
  "add_range lo hi c xs = map (\<lambda>(k, x). if lo \<le> k \<and> k \<le> hi then x + c else x) (enumerate 0 xs)"

text \<open>
  The backward loop that fills \<open>capacity_slack\<close>: the entry of a position is the minimum of
  the free capacity over the positions from it up to (not including) the current one.
\<close>

fun suffix_slacks :: "real \<Rightarrow> real list \<Rightarrow> real list" where
  "suffix_slacks capacity [] = []"
| "suffix_slacks capacity [d] = [capacity - d]"
| "suffix_slacks capacity (d # ds) =
     (let rest = suffix_slacks capacity ds in min (hd rest) (capacity - d) # rest)"

definition capacity_slack :: "real \<Rightarrow> real list \<Rightarrow> nat \<Rightarrow> nat \<Rightarrow> nat \<Rightarrow> real" where
  "capacity_slack capacity dep earliest pos station =
     suffix_slacks capacity (map (\<lambda>k. dep ! k) [earliest..<pos]) ! (station - earliest)"

text \<open>\<open>rate > best_rate + 1e-9\<close> and \<open>std::abs (rate - best_rate) <= 1e-9\<close> on doubles.\<close>

fun rate_exceeds :: "rate \<Rightarrow> rate \<Rightarrow> bool" where
  "rate_exceeds (Finite_Rate r) (Finite_Rate b) \<longleftrightarrow> r > b + 1 / 10 ^ 9"
| "rate_exceeds Infinite_Rate (Finite_Rate b) \<longleftrightarrow> True"
| "rate_exceeds _ Infinite_Rate \<longleftrightarrow> False"

fun rate_ties :: "rate \<Rightarrow> rate \<Rightarrow> bool" where
  "rate_ties (Finite_Rate r) (Finite_Rate b) \<longleftrightarrow> \<bar>r - b\<bar> \<le> 1 / 10 ^ 9"
| "rate_ties _ _ \<longleftrightarrow> False"

record best_choice =
  best_station :: "nat option"
  best_rate :: rate
  best_available_wh :: real

definition no_choice :: best_choice where
  "no_choice = \<lparr>best_station = None, best_rate = Finite_Rate (- 1), best_available_wh = 0\<rparr>"

definition consider_station ::
  "charge_env \<Rightarrow> nat \<Rightarrow> nat \<Rightarrow> eval_state \<Rightarrow> best_choice \<Rightarrow> nat \<Rightarrow> best_choice result" where
  "consider_station env earliest pos st best station_position =
     rbind (curve_at env station_position) (\<lambda>curve.
       let current_energy = departure st ! station_position
       in if current_energy < - kEnergyToleranceWh then Inr best
       else let segment_slack = next_breakpoint_energy curve current_energy - current_energy;
                available1 = min (capacity_slack (env_capacity env) (departure st) earliest pos
                                    station_position) segment_slack
       in if available1 \<le> kEnergyToleranceWh then Inr best
       else let rate = marginal_rate_at curve current_energy;
                available2 = (case rate of Infinite_Rate \<Rightarrow> available1
                              | Finite_Rate r \<Rightarrow> min available1 (remaining_shift_h st * r))
       in if available2 \<le> kEnergyToleranceWh then Inr best
       else if rate_exceeds rate (best_rate best) \<or>
               (rate_ties rate (best_rate best) \<and>
                (case best_station best of None \<Rightarrow> True | Some b \<Rightarrow> station_position > b))
       then Inr \<lparr>best_station = Some station_position, best_rate = rate,
                 best_available_wh = available2\<rparr>
       else Inr best)"

definition find_best ::
  "charge_env \<Rightarrow> nat \<Rightarrow> nat list \<Rightarrow> eval_state \<Rightarrow> best_choice result" where
  "find_best env pos preceding st =
     (if scan_stations env (remaining_shift_h st)
      then rfold (consider_station env (hd preceding) pos st) no_choice preceding
      else Inr no_choice)"

text \<open>The branch without a usable station, with the bound check of the bounded evaluation.\<close>

definition add_shortfall ::
  "charge_env \<Rightarrow> nat \<Rightarrow> nat \<Rightarrow> eval_state \<Rightarrow> (eval_state \<times> bool) run" where
  "add_shortfall env last_pos pos st =
     (let required_wh = - (arrival st ! pos);
          st1 = st\<lparr>shortfall_wh := shortfall_wh st + required_wh,
                   arrival := add_range pos last_pos required_wh (arrival st),
                   departure := add_range pos last_pos required_wh (departure st)\<rparr>
      in (case cut_off env (shortfall_wh st1) of
            Inl e \<Rightarrow> Threw e
          | Inr (Some bound) \<Rightarrow> Cut bound
          | Inr None \<Rightarrow> Done (st1, True)))"

text \<open>The body of the while loop; the flag says that it ended with \<open>break\<close>.\<close>

definition charge_iteration ::
  "charge_env \<Rightarrow> nat \<Rightarrow> nat \<Rightarrow> nat list \<Rightarrow> eval_state \<Rightarrow> (eval_state \<times> bool) run" where
  "charge_iteration env last_pos pos preceding st =
     (let required_wh = - (arrival st ! pos)
      in if preceding = [] then add_shortfall env last_pos pos st
      else (case find_best env pos preceding st of
              Inl e \<Rightarrow> Threw e
            | Inr best \<Rightarrow>
                (case best_station best of
                   None \<Rightarrow> add_shortfall env last_pos pos st
                 | Some b \<Rightarrow>
                     let charged_wh = min required_wh (best_available_wh best)
                     in (case rbind (curve_at env b) (\<lambda>curve.
                           charge_duration curve (departure st ! b) (departure st ! b + charged_wh)) of
                           Inl e \<Rightarrow> Threw e
                         | Inr charge_duration_h \<Rightarrow>
                             Done (st\<lparr>departure := add_range (b + 1) last_pos charged_wh
                                        ((departure st)[b := departure st ! b + charged_wh]),
                                      arrival := add_range (b + 1) last_pos charged_wh (arrival st),
                                      remaining_shift_h :=
                                        max 0 (remaining_shift_h st - charge_duration_h)\<rparr>, False)))))"

section \<open>The loop\<close>

partial_function (option) charge_loop ::
  "charge_env \<Rightarrow> nat \<Rightarrow> nat \<Rightarrow> nat list \<Rightarrow> eval_state \<Rightarrow> eval_state run option" where
  "charge_loop env last_pos pos preceding st =
     (if arrival st ! pos < - kEnergyToleranceWh
      then (case charge_iteration env last_pos pos preceding st of
              Done p \<Rightarrow> if snd p then Some (Done (fst p))
                        else charge_loop env last_pos pos preceding (fst p)
            | Cut bound \<Rightarrow> Some (Cut bound)
            | Threw e \<Rightarrow> Some (Threw e))
      else Some (Done st))"

text \<open>
  The rule for the loop.  An iteration that does not leave it must keep the invariant and
  raise the energy on arrival by more than the tolerance; that bounds the number of
  iterations.
\<close>

lemma charge_loop_rule:
  assumes init: "P st"
    and exit: "\<And>st. P st \<Longrightarrow> - kEnergyToleranceWh \<le> arrival st ! pos \<Longrightarrow> Q (Done st)"
    and brk: "\<And>st st'. P st \<Longrightarrow> arrival st ! pos < - kEnergyToleranceWh \<Longrightarrow>
      charge_iteration env last_pos pos preceding st = Done (st', True) \<Longrightarrow> Q (Done st')"
    and step: "\<And>st st'. P st \<Longrightarrow> arrival st ! pos < - kEnergyToleranceWh \<Longrightarrow>
      charge_iteration env last_pos pos preceding st = Done (st', False) \<Longrightarrow>
      P st' \<and> arrival st ! pos + kEnergyToleranceWh \<le> arrival st' ! pos"
    and cut: "\<And>st b. P st \<Longrightarrow> arrival st ! pos < - kEnergyToleranceWh \<Longrightarrow>
      charge_iteration env last_pos pos preceding st = Cut b \<Longrightarrow> Q (Cut b)"
    and throw: "\<And>st e. P st \<Longrightarrow> arrival st ! pos < - kEnergyToleranceWh \<Longrightarrow>
      charge_iteration env last_pos pos preceding st = Threw e \<Longrightarrow> Q (Threw e)"
  shows "\<exists>r. charge_loop env last_pos pos preceding st = Some r \<and> Q r"
  using init
proof (induction "nat \<lceil>- (arrival st ! pos) / kEnergyToleranceWh\<rceil>" arbitrary: st rule: less_induct)
  case less
  show ?case
  proof (cases "arrival st ! pos < - kEnergyToleranceWh")
    case False
    then show ?thesis
      using exit [OF less.prems] by (simp add: charge_loop.simps)
  next
    case True
    show ?thesis
    proof (cases "charge_iteration env last_pos pos preceding st")
      case (Done p)
      obtain st' b where p: "p = (st', b)" by (cases p)
      show ?thesis
      proof (cases b)
        case True
        with Done p brk [OF less.prems \<open>arrival st ! pos < - kEnergyToleranceWh\<close>] show ?thesis
          using \<open>arrival st ! pos < - kEnergyToleranceWh\<close> by (simp add: charge_loop.simps)
      next
        case False
        note st' = step [OF less.prems True Done [unfolded p, simplified False]]
        define x y where "x = - (arrival st ! pos) / kEnergyToleranceWh"
          and "y = - (arrival st' ! pos) / kEnergyToleranceWh"
        have "1 < x" "y \<le> x - 1"
          using True st' tolerance_pos(1) by (simp_all add: x_def y_def field_simps)
        then have "nat \<lceil>y\<rceil> < nat \<lceil>x\<rceil>" by linarith
        with less.hyps [of st'] st' obtain r where
          "charge_loop env last_pos pos preceding st' = Some r" "Q r"
          by (auto simp: x_def y_def)
        with Done p False True show ?thesis
          by (simp add: charge_loop.simps [of env last_pos pos preceding st])
      qed
    next
      case (Cut bound)
      with True cut [OF less.prems True] show ?thesis by (simp add: charge_loop.simps)
    next
      case (Threw e)
      with True throw [OF less.prems True] show ?thesis by (simp add: charge_loop.simps)
    qed
  qed
qed

section \<open>Arrays\<close>

lemma length_add_range [simp]: "length (add_range lo hi c xs) = length xs"
  by (simp add: add_range_def)

lemma nth_add_range [simp]:
  "k < length xs \<Longrightarrow> add_range lo hi c xs ! k = (if lo \<le> k \<and> k \<le> hi then xs ! k + c else xs ! k)"
  by (simp add: add_range_def nth_enumerate_eq)

lemma length_suffix_slacks [simp]: "length (suffix_slacks cap ds) = length ds"
  by (induction cap ds rule: suffix_slacks.induct) (simp_all add: Let_def)

lemma suffix_slacks_nth:
  "i < length ds \<Longrightarrow> suffix_slacks cap ds ! i = Min ((\<lambda>d. cap - d) ` set (drop i ds))"
proof (induction cap ds arbitrary: i rule: suffix_slacks.induct)
  case (3 cap d d' ds)
  show ?case
  proof (cases i)
    case 0
    have "suffix_slacks cap (d' # ds) ! 0 = Min ((\<lambda>d. cap - d) ` set (d' # ds))"
      using "3.IH" [of 0] by simp
    moreover have "suffix_slacks cap (d' # ds) \<noteq> []"
      using length_suffix_slacks [of cap "d' # ds"] by (metis list.size(3) nat.simps(3) list.size(4) add_Suc_right)
    ultimately have "hd (suffix_slacks cap (d' # ds)) = Min ((\<lambda>d. cap - d) ` set (d' # ds))"
      by (simp add: hd_conv_nth)
    with 0 show ?thesis by (simp add: Let_def min.commute)
  next
    case (Suc j)
    with "3.IH" [of j] "3.prems" show ?thesis by (simp add: Let_def)
  qed
qed simp_all

lemma capacity_slack_eq:
  assumes "earliest \<le> b" and "b < pos"
  shows "capacity_slack cap dep earliest pos b = Min ((\<lambda>k. cap - dep ! k) ` {b..<pos})"
proof -
  have "drop (b - earliest) [earliest..<pos] = [b..<pos]" using assms by simp
  then have "set (drop (b - earliest) (map (\<lambda>k. dep ! k) [earliest..<pos])) = (\<lambda>k. dep ! k) ` {b..<pos}"
    by (simp add: drop_map)
  with assms show ?thesis
    by (simp add: capacity_slack_def suffix_slacks_nth image_image)
qed

lemma capacity_slack_le:
  "earliest \<le> b \<Longrightarrow> b \<le> k \<Longrightarrow> k < pos \<Longrightarrow> capacity_slack cap dep earliest pos b \<le> cap - dep ! k"
  by (simp add: capacity_slack_eq)

section \<open>The station scan\<close>

lemma consider_station_Inr:
  assumes "consider_station env lo pos st best s = Inr best'"
  shows "best' = best \<or> (best_station best' = Some s \<and> (\<exists>c. curve_at env s = Inr c \<and>
      - kEnergyToleranceWh \<le> departure st ! s \<and>
      kEnergyToleranceWh < best_available_wh best' \<and>
      best_available_wh best' \<le> capacity_slack (env_capacity env) (departure st) lo pos s \<and>
      departure st ! s + best_available_wh best' \<le> next_breakpoint_energy c (departure st ! s) \<and>
      (\<forall>r. marginal_rate_at c (departure st ! s) = Finite_Rate r \<longrightarrow>
        best_available_wh best' \<le> remaining_shift_h st * r)))"
  using assms
  by (auto simp: consider_station_def Let_def rbind_eq_Inr_conv split: if_splits rate.splits)

lemma consider_station_total:
  "curve_at env s = Inr c \<Longrightarrow> \<exists>best'. consider_station env lo pos st best s = Inr best'"
  by (simp add: consider_station_def Let_def)

text \<open>What the scan promises of the station it chose.\<close>

definition choice_ok :: "charge_env \<Rightarrow> nat \<Rightarrow> nat \<Rightarrow> eval_state \<Rightarrow> nat list \<Rightarrow> best_choice \<Rightarrow> bool" where
  "choice_ok env lo pos st preceding best \<longleftrightarrow>
     (\<forall>b. best_station best = Some b \<longrightarrow> b \<in> set preceding \<and> (\<exists>c. curve_at env b = Inr c \<and>
        - kEnergyToleranceWh \<le> departure st ! b \<and> kEnergyToleranceWh < best_available_wh best \<and>
        best_available_wh best \<le> capacity_slack (env_capacity env) (departure st) lo pos b \<and>
        departure st ! b + best_available_wh best \<le> next_breakpoint_energy c (departure st ! b) \<and>
        (\<forall>r. marginal_rate_at c (departure st ! b) = Finite_Rate r \<longrightarrow>
          best_available_wh best \<le> remaining_shift_h st * r)))"

lemma find_best_ok:
  assumes "\<forall>s \<in> set preceding. \<exists>c. curve_at env s = Inr c"
  shows "\<exists>best. find_best env pos preceding st = Inr best \<and>
    choice_ok env (hd preceding) pos st preceding best"
proof -
  have "\<exists>best. rfold (consider_station env lo pos st) b0 xs = Inr best \<and>
      choice_ok env lo pos st preceding best"
    if "set xs \<subseteq> set preceding" "choice_ok env lo pos st preceding b0" for lo xs b0
    using that
  proof (induction xs arbitrary: b0)
    case (Cons x xs)
    then obtain b1 where b1: "consider_station env lo pos st b0 x = Inr b1"
      using assms consider_station_total by (metis insert_subset list.simps(15))
    have "choice_ok env lo pos st preceding b1"
      using consider_station_Inr [OF b1] Cons.prems by (auto simp: choice_ok_def)
    with Cons b1 show ?case by simp
  qed simp
  then show ?thesis
    by (simp add: find_best_def choice_ok_def no_choice_def)
qed

section \<open>The invariant of the schedule\<close>

text \<open>
  \<open>deficit e st k\<close> is the energy that was written off on the leg to position k: what the
  arrival exceeds the physical balance by.
\<close>

definition deficit :: "(nat \<Rightarrow> real) \<Rightarrow> eval_state \<Rightarrow> nat \<Rightarrow> real" where
  "deficit e st k = arrival st ! k - (departure st ! (k - 1) - e k)"

definition schedule_inv ::
  "real \<Rightarrow> (nat \<Rightarrow> real) \<Rightarrow> nat \<Rightarrow> nat \<Rightarrow> nat list \<Rightarrow> eval_state \<Rightarrow> bool" where
  "schedule_inv cap e last_pos pos preceding st \<longleftrightarrow>
     length (departure st) = length (arrival st) \<and> 1 \<le> pos \<and> pos \<le> last_pos \<and>
     last_pos < length (arrival st) \<and> set preceding \<subseteq> {1..<pos} \<and>
     departure st ! 0 = cap \<and>
     (\<forall>k \<in> {1..last_pos}. 0 \<le> deficit e st k) \<and>
     (\<forall>k \<in> {pos<..last_pos}. deficit e st k = 0) \<and>
     (\<Sum>k = 1..last_pos. deficit e st k) = shortfall_wh st \<and>
     (\<forall>k \<in> {1..last_pos}. arrival st ! k \<le> departure st ! k) \<and>
     (\<forall>k \<in> {1..last_pos}. k \<notin> set preceding \<longrightarrow> departure st ! k = arrival st ! k) \<and>
     (\<forall>k < pos. departure st ! k \<le> cap) \<and>
     (\<forall>k \<in> {1..<pos}. - kEnergyToleranceWh \<le> arrival st ! k) \<and>
     arrival st ! pos \<le> cap"

lemma schedule_invD:
  assumes "schedule_inv cap e last_pos pos preceding st"
  shows "length (departure st) = length (arrival st)" "1 \<le> pos" "pos \<le> last_pos"
    "last_pos < length (arrival st)" "set preceding \<subseteq> {1..<pos}" "departure st ! 0 = cap"
    "\<And>k. 1 \<le> k \<Longrightarrow> k \<le> last_pos \<Longrightarrow> 0 \<le> deficit e st k"
    "\<And>k. pos < k \<Longrightarrow> k \<le> last_pos \<Longrightarrow> deficit e st k = 0"
    "(\<Sum>k = 1..last_pos. deficit e st k) = shortfall_wh st"
    "\<And>k. 1 \<le> k \<Longrightarrow> k \<le> last_pos \<Longrightarrow> arrival st ! k \<le> departure st ! k"
    "\<And>k. 1 \<le> k \<Longrightarrow> k \<le> last_pos \<Longrightarrow> k \<notin> set preceding \<Longrightarrow> departure st ! k = arrival st ! k"
    "\<And>k. k < pos \<Longrightarrow> departure st ! k \<le> cap"
    "\<And>k. 1 \<le> k \<Longrightarrow> k < pos \<Longrightarrow> - kEnergyToleranceWh \<le> arrival st ! k"
    "arrival st ! pos \<le> cap"
  using assms by (auto simp: schedule_inv_def)

text \<open>Charging c at station b keeps the invariant when c fits in the capacity.\<close>

lemma schedule_inv_charge:
  assumes inv: "schedule_inv cap e last_pos pos preceding st"
    and b: "b \<in> set preceding" and c: "0 \<le> c"
    and fits: "\<And>k. b \<le> k \<Longrightarrow> k < pos \<Longrightarrow> departure st ! k + c \<le> cap"
    and need: "arrival st ! pos + c \<le> cap"
  shows "schedule_inv cap e last_pos pos preceding
    (st\<lparr>departure := add_range (b + 1) last_pos c ((departure st)[b := departure st ! b + c]),
        arrival := add_range (b + 1) last_pos c (arrival st), remaining_shift_h := r\<rparr>)"
    (is "schedule_inv _ _ _ _ _ ?st")
proof -
  note I = schedule_invD [OF inv]
  have bp: "1 \<le> b" "b < pos" using I(5) b by auto
  have dep: "departure ?st ! k = (if b \<le> k then departure st ! k + c else departure st ! k)"
    and arr: "arrival ?st ! k = (if b < k then arrival st ! k + c else arrival st ! k)"
    if "k \<le> last_pos" for k
    using that I(1,3,4) bp by (auto simp: nth_list_update le_less_Suc_eq not_less_eq_eq)
  have def: "deficit e ?st k = deficit e st k" if "1 \<le> k" "k \<le> last_pos" for k
  proof -
    have "b \<le> k - 1 \<longleftrightarrow> b < k" using that bp by auto
    then show ?thesis using that dep [of "k - 1"] arr [of k] by (simp add: deficit_def)
  qed
  have "(\<Sum>k = 1..last_pos. deficit e ?st k) = (\<Sum>k = 1..last_pos. deficit e st k)"
    by (rule sum.cong) (use def in auto)
  moreover have "departure ?st ! k \<le> cap" if "k < pos" for k
    using that fits [of k] I(12) [of k] dep [of k] I(3) by auto
  moreover have "arrival ?st ! k \<le> departure ?st ! k" if "1 \<le> k" "k \<le> last_pos" for k
    using that dep [of k] arr [of k] I(10) [of k] c by auto
  moreover have "departure ?st ! k = arrival ?st ! k" if "1 \<le> k" "k \<le> last_pos" "k \<notin> set preceding" for k
    using that dep [of k] arr [of k] I(11) [of k] b by (cases "k = b") auto
  moreover have "- kEnergyToleranceWh \<le> arrival ?st ! k" if "1 \<le> k" "k < pos" for k
    using that arr [of k] I(13) [of k] I(3) c by auto
  moreover have "arrival ?st ! pos \<le> cap" using arr [of pos] need bp I(3) by auto
  moreover have "departure ?st ! 0 = cap" using dep [of 0] I(6) bp by auto
  ultimately show ?thesis
    unfolding schedule_inv_def using I(1-5,7,8,9) def by auto
qed

lemma schedule_inv_shortfall:
  assumes inv: "schedule_inv cap e last_pos pos preceding st"
    and neg: "arrival st ! pos < 0" and cap: "0 \<le> cap"
  shows "schedule_inv cap e last_pos pos preceding
    (st\<lparr>shortfall_wh := shortfall_wh st + - (arrival st ! pos),
        arrival := add_range pos last_pos (- (arrival st ! pos)) (arrival st),
        departure := add_range pos last_pos (- (arrival st ! pos)) (departure st)\<rparr>)"
    (is "schedule_inv _ _ _ _ _ ?st")
proof -
  note I = schedule_invD [OF inv]
  define c where "c = - (arrival st ! pos)"
  have c: "0 < c" using neg by (simp add: c_def)
  have dep: "departure ?st ! k = (if pos \<le> k then departure st ! k + c else departure st ! k)"
    and arr: "arrival ?st ! k = (if pos \<le> k then arrival st ! k + c else arrival st ! k)"
    if "k \<le> last_pos" for k
    using that I(1,3,4) by (auto simp: c_def)
  have def: "deficit e ?st k = (if k = pos then deficit e st k + c else deficit e st k)"
    if "1 \<le> k" "k \<le> last_pos" for k
  proof -
    have "pos \<le> k - 1 \<longleftrightarrow> pos \<le> k \<and> k \<noteq> pos" using that I(2) by auto
    then show ?thesis using that dep [of "k - 1"] arr [of k] by (simp add: deficit_def)
  qed
  have pin: "pos \<in> {1..last_pos}" using I(2,3) by simp
  have "(\<Sum>k = 1..last_pos. deficit e ?st k) =
      (\<Sum>k = 1..last_pos. deficit e st k + (if k = pos then c else 0))"
    by (rule sum.cong) (use def in auto)
  also have "\<dots> = shortfall_wh st + c"
    using pin I(9) by (simp add: sum.distrib sum.delta)
  finally have "(\<Sum>k = 1..last_pos. deficit e ?st k) = shortfall_wh ?st" by (simp add: c_def)
  moreover have "0 \<le> deficit e ?st k" if "1 \<le> k" "k \<le> last_pos" for k
    using that def [of k] I(7) [of k] c by auto
  moreover have "deficit e ?st k = 0" if "pos < k" "k \<le> last_pos" for k
    using that def [of k] I(8) [of k] I(2) by auto
  moreover have "departure ?st ! k \<le> cap" if "k < pos" for k
    using that I(12) [of k] dep [of k] I(3) by auto
  moreover have "arrival ?st ! k \<le> departure ?st ! k" if "1 \<le> k" "k \<le> last_pos" for k
    using that dep [of k] arr [of k] I(10) [of k] by auto
  moreover have "departure ?st ! k = arrival ?st ! k" if "1 \<le> k" "k \<le> last_pos" "k \<notin> set preceding" for k
    using that dep [of k] arr [of k] I(11) [of k] by auto
  moreover have "- kEnergyToleranceWh \<le> arrival ?st ! k" if "1 \<le> k" "k < pos" for k
    using that arr [of k] I(13) [of k] I(3) by auto
  moreover have "arrival ?st ! pos \<le> cap" using arr [of pos] cap I(3) by (simp add: c_def)
  moreover have "departure ?st ! 0 = cap" using dep [of 0] I(2,6) by auto
  moreover have "length (departure ?st) = length (arrival ?st)" using I(1) by simp
  moreover have "last_pos < length (arrival ?st)" using I(4) by simp
  ultimately show ?thesis
    unfolding schedule_inv_def using I(2,3,5) by auto
qed

section \<open>Charging durations\<close>

lemma charge_duration_total:
  assumes "curve_ok c" and "- kEnergyToleranceWh \<le> a" and "a \<le> b" and "isfinite b"
    and "b \<le> capacity_wh c + kEnergyToleranceWh" and "0 \<le> capacity_wh c"
  shows "\<exists>d. charge_duration c a b = Inr d \<and> 0 \<le> d"
proof -
  have fin: "isfinite a"
  proof (rule isfinite_between [OF _ assms(4,2,3)])
    show "isfinite (- kEnergyToleranceWh)"
      by (rule isfinite_numeral_small) (simp add: kEnergyToleranceWh_def)
  qed
  have "clamp a 0 (capacity_wh c) \<le> clamp b 0 (capacity_wh c)"
    by (rule clamp_mono [OF assms(6,3)])
  then have "time_scan (clamp a 0 (capacity_wh c)) (points c) \<le> time_scan (clamp b 0 (capacity_wh c)) (points c)"
    using curve_time_mono [OF assms(1)] by (simp add: curve_time_def)
  then show ?thesis
    using assms fin by (simp add: charge_duration_def time_at_energy_def)
qed

section \<open>What the loop guarantees\<close>

text \<open>The curves of the stations exist, are well formed and belong to the battery.\<close>

definition curves_usable :: "charge_env \<Rightarrow> nat list \<Rightarrow> bool" where
  "curves_usable env preceding \<longleftrightarrow> (\<forall>s \<in> set preceding. \<exists>c. curve_at env s = Inr c \<and> curve_ok c \<and>
     0 \<le> capacity_wh c \<and> env_capacity env \<le> capacity_wh c + kEnergyToleranceWh)"

lemma charge_iteration_inv:
  assumes inv: "schedule_inv (env_capacity env) e last_pos pos preceding st"
    and neg: "arrival st ! pos < - kEnergyToleranceWh" and cap: "0 \<le> env_capacity env"
    and curves: "curves_usable env preceding" and cutable: "\<And>x. \<exists>r. cut_off env x = Inr r"
    and sorted: "\<forall>s \<in> set preceding. hd preceding \<le> s"
  shows "case charge_iteration env last_pos pos preceding st of
      Done (st', stop) \<Rightarrow> schedule_inv (env_capacity env) e last_pos pos preceding st' \<and>
        shortfall_wh st \<le> shortfall_wh st' \<and> length (arrival st') = length (arrival st) \<and>
        (if stop then arrival st' ! pos = 0
         else arrival st ! pos + kEnergyToleranceWh \<le> arrival st' ! pos)
    | Cut bound \<Rightarrow> \<exists>x \<ge> shortfall_wh st. cut_off env x = Inr (Some bound)
    | Threw err \<Rightarrow> False"
proof -
  note I = schedule_invD [OF inv]
  let ?req = "- (arrival st ! pos)"
  have req: "kEnergyToleranceWh < ?req" using neg by simp
  have short: "case add_shortfall env last_pos pos st of
      Done (st', stop) \<Rightarrow> schedule_inv (env_capacity env) e last_pos pos preceding st' \<and>
        shortfall_wh st \<le> shortfall_wh st' \<and> length (arrival st') = length (arrival st) \<and>
        (if stop then arrival st' ! pos = 0
         else arrival st ! pos + kEnergyToleranceWh \<le> arrival st' ! pos)
    | Cut bound \<Rightarrow> \<exists>x \<ge> shortfall_wh st. cut_off env x = Inr (Some bound)
    | Threw err \<Rightarrow> False"
  proof -
    have "arrival st ! pos < 0" using neg tolerance_pos(1) by linarith
    note inv' = schedule_inv_shortfall [OF inv this cap]
    obtain r where r: "cut_off env (shortfall_wh st + ?req) = Inr r" using cutable by blast
    have "shortfall_wh st \<le> shortfall_wh st + ?req" using \<open>arrival st ! pos < 0\<close> by simp
    show ?thesis
    proof (cases r)
      case None
      with r inv' I(3,4) \<open>arrival st ! pos < 0\<close> show ?thesis by (simp add: add_shortfall_def Let_def)
    next
      case (Some bound)
      with r have "add_shortfall env last_pos pos st = Cut bound"
        by (simp add: add_shortfall_def Let_def)
      moreover have "\<exists>x \<ge> shortfall_wh st. cut_off env x = Inr (Some bound)"
        using r Some \<open>shortfall_wh st \<le> shortfall_wh st + ?req\<close> by blast
      ultimately show ?thesis by simp
    qed
  qed
  show ?thesis
  proof (cases "preceding = []")
    case True
    with short show ?thesis by (simp add: charge_iteration_def)
  next
    case False
    have "\<forall>s \<in> set preceding. \<exists>c. curve_at env s = Inr c"
      using curves by (auto simp: curves_usable_def)
    then obtain best where best: "find_best env pos preceding st = Inr best"
      and ok: "choice_ok env (hd preceding) pos st preceding best"
      using find_best_ok by blast
    show ?thesis
    proof (cases "best_station best")
      case None
      with short best False show ?thesis by (simp add: charge_iteration_def)
    next
      case (Some b)
      define c where "c = min ?req (best_available_wh best)"
      from ok Some obtain cv where b: "b \<in> set preceding" and cv: "curve_at env b = Inr cv"
        and dep: "- kEnergyToleranceWh \<le> departure st ! b"
        and av: "kEnergyToleranceWh < best_available_wh best"
          "best_available_wh best \<le> capacity_slack (env_capacity env) (departure st) (hd preceding) pos b"
          "departure st ! b + best_available_wh best \<le> next_breakpoint_energy cv (departure st ! b)"
        by (auto simp: choice_ok_def)
      have cvok: "curve_ok cv" "0 \<le> capacity_wh cv" using curves b cv by (auto simp: curves_usable_def)
      have c: "kEnergyToleranceWh < c" "c \<le> ?req" "c \<le> best_available_wh best"
        using req av(1) by (auto simp: c_def)
      have bp: "1 \<le> b" "b < pos" using I(5) b by auto
      have fits: "departure st ! k + c \<le> env_capacity env" if "b \<le> k" "k < pos" for k
        using capacity_slack_le [of "hd preceding" b k pos "env_capacity env" "departure st"]
          that sorted b av(2) c(3) by auto
      have top: "departure st ! b + c \<le> capacity_wh cv"
        using av(3) c(3) next_breakpoint_le_capacity [OF cvok(1), of "departure st ! b"] by linarith
      have fin: "isfinite (departure st ! b + c)"
      proof (rule isfinite_between [OF _ curve_okD(3) [OF cvok(1)] _ top])
        show "isfinite (- kEnergyToleranceWh)"
          by (rule isfinite_numeral_small) (simp add: kEnergyToleranceWh_def)
        show "- kEnergyToleranceWh \<le> departure st ! b + c"
          using dep c(1) tolerance_pos(1) by linarith
      qed
      have "departure st ! b \<le> departure st ! b + c" using c(1) tolerance_pos(1) by linarith
      then obtain d where d: "charge_duration cv (departure st ! b) (departure st ! b + c) = Inr d"
        using charge_duration_total [OF cvok(1) dep _ fin _ cvok(2)] top tolerance_pos(4) by fastforce
      have "arrival st ! pos + c \<le> env_capacity env" using c(2) cap by linarith
      moreover have "0 \<le> c" using c(1) tolerance_pos(1) by linarith
      ultimately have "schedule_inv (env_capacity env) e last_pos pos preceding
          (st\<lparr>departure := add_range (b + 1) last_pos c ((departure st)[b := departure st ! b + c]),
              arrival := add_range (b + 1) last_pos c (arrival st),
              remaining_shift_h := max 0 (remaining_shift_h st - d)\<rparr>)"
        using schedule_inv_charge [OF inv b _ fits] by blast
      moreover have "charge_iteration env last_pos pos preceding st =
          Done (st\<lparr>departure := add_range (b + 1) last_pos c ((departure st)[b := departure st ! b + c]),
              arrival := add_range (b + 1) last_pos c (arrival st),
              remaining_shift_h := max 0 (remaining_shift_h st - d)\<rparr>, False)"
        using False best Some cv d by (simp add: charge_iteration_def c_def [symmetric] Let_def)
      ultimately show ?thesis using c(1) bp I(3,4) by simp
    qed
  qed
qed

text \<open>
  The loop returns; normally it leaves the position reachable and the schedule physical, and
  an early return reports a bound for a shortfall at least as large as the one on entry.
\<close>

definition loop_post ::
  "charge_env \<Rightarrow> (nat \<Rightarrow> real) \<Rightarrow> nat \<Rightarrow> nat \<Rightarrow> nat list \<Rightarrow> eval_state \<Rightarrow> eval_state run \<Rightarrow> bool" where
  "loop_post env e last_pos pos preceding before r = (case r of
       Done st' \<Rightarrow> schedule_inv (env_capacity env) e last_pos pos preceding st' \<and>
         shortfall_wh before \<le> shortfall_wh st' \<and> length (arrival st') = length (arrival before) \<and>
         - kEnergyToleranceWh \<le> arrival st' ! pos
     | Cut bound \<Rightarrow> \<exists>x \<ge> shortfall_wh before. cut_off env x = Inr (Some bound)
     | Threw err \<Rightarrow> False)"

lemma charge_loop_inv:
  assumes inv: "schedule_inv (env_capacity env) e last_pos pos preceding st"
    and cap: "0 \<le> env_capacity env" and curves: "curves_usable env preceding"
    and cutable: "\<And>x. \<exists>r. cut_off env x = Inr r"
    and sorted: "\<forall>s \<in> set preceding. hd preceding \<le> s"
  shows "\<exists>r. charge_loop env last_pos pos preceding st = Some r \<and>
    loop_post env e last_pos pos preceding st r"
proof (rule charge_loop_rule [where P = "\<lambda>s. schedule_inv (env_capacity env) e last_pos pos preceding s \<and>
      shortfall_wh st \<le> shortfall_wh s \<and> length (arrival s) = length (arrival st)"])
  note it = charge_iteration_inv [OF _ _ cap curves cutable sorted]
  fix s s' b err
  assume P: "schedule_inv (env_capacity env) e last_pos pos preceding s \<and>
      shortfall_wh st \<le> shortfall_wh s \<and> length (arrival s) = length (arrival st)"
    and neg: "arrival s ! pos < - kEnergyToleranceWh"
  note it = it [OF conjunct1 [OF P] neg]
  {
    assume "charge_iteration env last_pos pos preceding s = Done (s', True)"
    with it P tolerance_pos(4) show "loop_post env e last_pos pos preceding st (Done s')"
      by (simp add: loop_post_def)
  next
    assume "charge_iteration env last_pos pos preceding s = Done (s', False)"
    with it P show "(schedule_inv (env_capacity env) e last_pos pos preceding s' \<and>
        shortfall_wh st \<le> shortfall_wh s' \<and> length (arrival s') = length (arrival st)) \<and>
        arrival s ! pos + kEnergyToleranceWh \<le> arrival s' ! pos"
      by simp
  next
    assume "charge_iteration env last_pos pos preceding s = Cut b"
    with it obtain x where "shortfall_wh s \<le> x" "cut_off env x = Inr (Some b)" by auto
    with P have "shortfall_wh st \<le> x \<and> cut_off env x = Inr (Some b)" by simp
    then show "loop_post env e last_pos pos preceding st (Cut b)"
      by (auto simp: loop_post_def)
  next
    assume "charge_iteration env last_pos pos preceding s = Threw err"
    with it show "loop_post env e last_pos pos preceding st (Threw err)" by simp
  }
qed (use inv in \<open>auto simp: loop_post_def\<close>)

section \<open>The bounded loop against the full one\<close>

definition unbounded :: "charge_env \<Rightarrow> charge_env" where
  "unbounded env = env\<lparr>scan_stations := \<lambda>_. True, cut_off := \<lambda>_. Inr None\<rparr>"

lemma unbounded_simps [simp]:
  "env_capacity (unbounded env) = env_capacity env" "curve_at (unbounded env) = curve_at env"
  "scan_stations (unbounded env) r" "cut_off (unbounded env) x = Inr None"
  "curves_usable (unbounded env) preceding = curves_usable env preceding"
  by (simp_all add: unbounded_def curves_usable_def)

text \<open>The scan may be skipped only with no shift left and finite rates.\<close>

definition skip_justified :: "charge_env \<Rightarrow> nat list \<Rightarrow> bool" where
  "skip_justified env preceding \<longleftrightarrow> (\<forall>r. \<not> scan_stations env r \<longrightarrow> r = 0 \<and>
     (\<forall>s \<in> set preceding. \<forall>c. curve_at env s = Inr c \<longrightarrow> (\<forall>e. marginal_rate_at c e \<noteq> Infinite_Rate)))"

lemma consider_station_unbounded:
  "consider_station (unbounded env) = consider_station env"
  unfolding consider_station_def [abs_def] unbounded_simps by (rule refl)

lemma find_best_unbounded:
  assumes "curves_usable env preceding" and "skip_justified env preceding"
  shows "find_best (unbounded env) pos preceding st = find_best env pos preceding st"
proof (cases "scan_stations env (remaining_shift_h st)")
  case False
  then have r: "remaining_shift_h st = 0" and fin: "\<And>s c e. s \<in> set preceding \<Longrightarrow> curve_at env s = Inr c \<Longrightarrow>
      marginal_rate_at c e \<noteq> Infinite_Rate"
    using assms(2) by (auto simp: skip_justified_def)
  have "consider_station env lo pos st best s = Inr best" if s: "s \<in> set preceding" for lo best s
  proof -
    from assms(1) s obtain c where c: "curve_at env s = Inr c" unfolding curves_usable_def by blast
    obtain x where x: "marginal_rate_at c (departure st ! s) = Finite_Rate x"
      using fin [OF s c] by (cases "marginal_rate_at c (departure st ! s)") auto
    have "min a 0 \<le> kEnergyToleranceWh" for a using tolerance_pos(4) by (simp add: min_le_iff_disj)
    then show ?thesis by (simp add: consider_station_def c x r Let_def)
  qed
  then have "rfold (consider_station env lo pos st) b preceding = Inr b" for lo b
  proof -
    have "rfold (consider_station env lo pos st) b xs = Inr b" if "set xs \<subseteq> set preceding" for xs
      using that \<open>\<And>s lo best. s \<in> set preceding \<Longrightarrow> consider_station env lo pos st best s = Inr best\<close>
      by (induction xs) auto
    then show ?thesis by simp
  qed
  with False show ?thesis by (simp add: find_best_def consider_station_unbounded)
qed (simp add: find_best_def consider_station_unbounded)

lemma add_shortfall_unbounded:
  "case add_shortfall env last_pos pos st of
     Done x \<Rightarrow> add_shortfall (unbounded env) last_pos pos st = Done x
   | Cut b \<Rightarrow> \<exists>st'. add_shortfall (unbounded env) last_pos pos st = Done (st', True) \<and>
       cut_off env (shortfall_wh st') = Inr (Some b)
   | Threw e \<Rightarrow> True"
proof (cases "cut_off env (shortfall_wh st - arrival st ! pos)")
  case (Inr r)
  then show ?thesis by (cases r) (simp_all add: add_shortfall_def Let_def)
qed (simp add: add_shortfall_def Let_def)

lemma charge_iteration_unbounded:
  assumes "curves_usable env preceding" and "skip_justified env preceding"
  shows "case charge_iteration env last_pos pos preceding st of
     Done x \<Rightarrow> charge_iteration (unbounded env) last_pos pos preceding st = Done x
   | Cut b \<Rightarrow> \<exists>st'. charge_iteration (unbounded env) last_pos pos preceding st = Done (st', True) \<and>
       cut_off env (shortfall_wh st') = Inr (Some b)
   | Threw e \<Rightarrow> True"
proof -
  note fb = find_best_unbounded [OF assms, of pos st]
  show ?thesis
  proof (cases "preceding = []")
    case True
    then have "charge_iteration x last_pos pos preceding st = add_shortfall x last_pos pos st" for x
      by (simp add: charge_iteration_def)
    then show ?thesis using add_shortfall_unbounded [of env last_pos pos st] by (simp only:)
  next
    case False
    show ?thesis
    proof (cases "find_best env pos preceding st")
      case (Inr best)
      show ?thesis
      proof (cases "best_station best")
        case None
        with False Inr fb have
          "charge_iteration env last_pos pos preceding st = add_shortfall env last_pos pos st"
          "charge_iteration (unbounded env) last_pos pos preceding st =
             add_shortfall (unbounded env) last_pos pos st"
          by (simp_all add: charge_iteration_def)
        then show ?thesis using add_shortfall_unbounded [of env last_pos pos st] by (simp only:)
      next
        case (Some b)
        with False Inr fb show ?thesis
          by (simp add: charge_iteration_def Let_def split: sum.split)
      qed
    qed (simp add: charge_iteration_def False)
  qed
qed

lemma charge_loop_unbounded:
  assumes inv: "schedule_inv (env_capacity env) e last_pos pos preceding st"
    and cap: "0 \<le> env_capacity env" and curves: "curves_usable env preceding"
    and cutable: "\<And>x. \<exists>r. cut_off env x = Inr r"
    and sorted: "\<forall>s \<in> set preceding. hd preceding \<le> s" and skip: "skip_justified env preceding"
  shows "\<exists>r. charge_loop env last_pos pos preceding st = Some r \<and> (case r of
      Done st' \<Rightarrow> charge_loop (unbounded env) last_pos pos preceding st = Some (Done st')
    | Cut b \<Rightarrow> \<exists>st'. charge_loop (unbounded env) last_pos pos preceding st = Some (Done st') \<and>
        cut_off env (shortfall_wh st') = Inr (Some b)
    | Threw err \<Rightarrow> False)"
proof (rule charge_loop_rule [where P = "\<lambda>s. schedule_inv (env_capacity env) e last_pos pos preceding s \<and>
      charge_loop (unbounded env) last_pos pos preceding st = charge_loop (unbounded env) last_pos pos preceding s"])
  note it = charge_iteration_inv [OF _ _ cap curves cutable sorted]
  note un = charge_iteration_unbounded [OF curves skip, of last_pos pos]
  fix s s' b err
  assume P: "schedule_inv (env_capacity env) e last_pos pos preceding s \<and>
      charge_loop (unbounded env) last_pos pos preceding st = charge_loop (unbounded env) last_pos pos preceding s"
    and neg: "arrival s ! pos < - kEnergyToleranceWh"
  note it = it [OF conjunct1 [OF P] neg]
  have unfold: "charge_loop (unbounded env) last_pos pos preceding s =
      (case charge_iteration (unbounded env) last_pos pos preceding s of
         Done p \<Rightarrow> if snd p then Some (Done (fst p))
                   else charge_loop (unbounded env) last_pos pos preceding (fst p)
       | Cut bound \<Rightarrow> Some (Cut bound) | Threw e \<Rightarrow> Some (Threw e))"
    using neg by (simp add: charge_loop.simps [of "unbounded env" last_pos pos preceding s])
  {
    assume "charge_iteration env last_pos pos preceding s = Done (s', True)"
    with un [of s] P unfold show "case Done s' of
        Done st' \<Rightarrow> charge_loop (unbounded env) last_pos pos preceding st = Some (Done st')
      | Cut b \<Rightarrow> \<exists>st'. charge_loop (unbounded env) last_pos pos preceding st = Some (Done st') \<and>
          cut_off env (shortfall_wh st') = Inr (Some b)
      | Threw err \<Rightarrow> False" by simp
  next
    assume "charge_iteration env last_pos pos preceding s = Done (s', False)"
    with un [of s] it P unfold show "(schedule_inv (env_capacity env) e last_pos pos preceding s' \<and>
        charge_loop (unbounded env) last_pos pos preceding st =
        charge_loop (unbounded env) last_pos pos preceding s') \<and>
        arrival s ! pos + kEnergyToleranceWh \<le> arrival s' ! pos"
      by simp
  next
    assume "charge_iteration env last_pos pos preceding s = Cut b"
    with un [of s] P unfold show "case Cut b of
        Done st' \<Rightarrow> charge_loop (unbounded env) last_pos pos preceding st = Some (Done st')
      | Cut b \<Rightarrow> \<exists>st'. charge_loop (unbounded env) last_pos pos preceding st = Some (Done st') \<and>
          cut_off env (shortfall_wh st') = Inr (Some b)
      | Threw err \<Rightarrow> False" by auto
  next
    assume "charge_iteration env last_pos pos preceding s = Threw err"
    with it show "case Threw err of
        Done st' \<Rightarrow> charge_loop (unbounded env) last_pos pos preceding st = Some (Done st')
      | Cut b \<Rightarrow> \<exists>st'. charge_loop (unbounded env) last_pos pos preceding st = Some (Done st') \<and>
          cut_off env (shortfall_wh st') = Inr (Some b)
      | Threw err \<Rightarrow> False" by simp
  }
next
  fix s
  assume "schedule_inv (env_capacity env) e last_pos pos preceding s \<and>
      charge_loop (unbounded env) last_pos pos preceding st = charge_loop (unbounded env) last_pos pos preceding s"
    and "- kEnergyToleranceWh \<le> arrival s ! pos"
  then show "case Done s of
      Done st' \<Rightarrow> charge_loop (unbounded env) last_pos pos preceding st = Some (Done st')
    | Cut b \<Rightarrow> \<exists>st'. charge_loop (unbounded env) last_pos pos preceding st = Some (Done st') \<and>
        cut_off env (shortfall_wh st') = Inr (Some b)
    | Threw err \<Rightarrow> False"
    by (simp add: charge_loop.simps [of "unbounded env" last_pos pos preceding s])
qed (use inv in auto)

end
