(* ===== verification/Nonlinear_Eval.thy ===== *)
theory Nonlinear_Eval
  imports Charge_Loop "HOL-Library.Sublist"
begin

text \<open>
  \<open>NonlinearSequenceEvaluator\<close> (include/ils_sp/evaluator.hpp, src/evaluator.cpp): the
  evaluation of a resource label by the greedy nonlinear charging rule, in its full and its
  bounded form, from one label or from a span of labels, and the quotient of adjacent visits
  of one station.  \<open>evaluate_data\<close> is one definition: \<open>limits = None\<close> is the instantiation
  without bounds.  The local arrays are lists; the inline and the allocated workspace of the
  code hold the same values.

  The lemmas show that the evaluation returns, never throws on labels of known stations,
  that its result comes from a physical charging schedule, and that the bounded evaluation
  returns the same summary or a lower bound of its cost that exceeds a limit.
\<close>

section \<open>Adjacent visits of one station\<close>

fun points_strict :: "charging_point list \<Rightarrow> bool" where
  "points_strict [] = True"
| "points_strict [p] = (isfinite (time_h p) \<and> isfinite (energy_wh p))"
| "points_strict (p # q # ps) =
     (isfinite (time_h p) \<and> isfinite (energy_wh p) \<and>
      time_h q > time_h p \<and> energy_wh q > energy_wh p \<and> points_strict (q # ps))"

definition canonical_same_station_supported :: "inst \<Rightarrow> int \<Rightarrow> bool result" where
  "canonical_same_station_supported I i =
     rbind (node_of I i) (\<lambda>n.
       if kind n \<noteq> Station \<or> node_service_time_h n \<noteq> 0 then Inr False
       else rbind (travel_time_h I i i) (\<lambda>t. if t \<noteq> 0 then Inr False
       else rbind (energy_between_wh I i i) (\<lambda>e. if e \<noteq> 0 then Inr False
       else rbind (curve_for_station I i) (\<lambda>c.
         if length (points c) < 2 then Inr False else Inr (points_strict (points c))))))"

definition mergeable_leg :: "inst \<Rightarrow> charging_leg \<Rightarrow> charging_leg \<Rightarrow> bool result" where
  "mergeable_leg I prior leg =
     (if physical_same_station_predecessor leg \<and> leg_station_id prior = leg_station_id leg \<and>
         energy_from_previous_station_wh leg = 0
      then canonical_same_station_supported I (leg_station_id leg) else Inr False)"

text \<open>The first index whose leg merges with its predecessor, and the copy loop from there.\<close>

fun find_merge :: "inst \<Rightarrow> charging_leg list \<Rightarrow> nat option result" where
  "find_merge I (a # b # ls) =
     rbind (mergeable_leg I a b) (\<lambda>m. if m then Inr (Some 1)
       else rbind (find_merge I (b # ls)) (\<lambda>r. Inr (map_option Suc r)))"
| "find_merge I [a] = Inr None"
| "find_merge I [] = Inr None"

definition push_leg :: "inst \<Rightarrow> charging_leg list \<Rightarrow> charging_leg \<Rightarrow> charging_leg list result" where
  "push_leg I canonical leg =
     rbind (mergeable_leg I (last canonical) leg) (\<lambda>m. Inr (if m then canonical else canonical @ [leg]))"

definition canonical_legs :: "inst \<Rightarrow> charging_leg list \<Rightarrow> charging_leg list result" where
  "canonical_legs I legs =
     rbind (find_merge I legs) (\<lambda>r. case r of None \<Rightarrow> Inr legs
       | Some i \<Rightarrow> rfold (push_leg I) (take i legs) (drop i legs))"

section \<open>Costs and limits\<close>

text \<open>\<open>generalized_cost\<close> on a summary, and on a lower bound through the numeric envelope.\<close>

definition summary_cost :: "'a route_cost_summary_scheme \<Rightarrow> inst \<Rightarrow> real \<Rightarrow> real result" where
  "summary_cost s I penalty_lambda =
     (if \<not> isfinite penalty_lambda \<or> penalty_lambda < 0
      then Inl (Invalid_Argument ''penalty lambda must be finite and nonnegative'')
      else Inr (raw_cost_h s + penalty_lambda *
                  (energy_shortfall_wh s / consumption_wh_per_km (vehicle_of I) + duration_excess_h s)))"

definition lower_bound_cost :: "nonlinear_cost_lower_bound \<Rightarrow> inst \<Rightarrow> real \<Rightarrow> real result" where
  "lower_bound_cost b I penalty_lambda =
     summary_cost \<lparr>feasible = False, raw_cost_h = lb_travel_h b, total_travel_h = 0,
       charging_time_h = 0, total_service_h = 0, route_duration_h = 0,
       energy_shortfall_wh = lb_shortfall_wh b, duration_excess_h = lb_excess_h b\<rparr> I penalty_lambda"

record bounded_limits =
  penalty_lambda :: real
  incumbent_limit :: real
  minimum_limit :: real
  all_charging_rates_finite :: bool

datatype bounded_evaluation = Summary route_cost_summary | Lower_Bound nonlinear_cost_lower_bound

section \<open>The evaluation\<close>

definition shortage_bound ::
  "inst \<Rightarrow> bounded_limits option \<Rightarrow> real \<Rightarrow> real \<Rightarrow> real \<Rightarrow> nonlinear_cost_lower_bound option result" where
  "shortage_bound I limits travel_h no_charge_duration_h shortfall =
     (case limits of None \<Rightarrow> Inr None
      | Some l \<Rightarrow>
          let lower_bound = \<lparr>lb_travel_h = travel_h, lb_shortfall_wh = shortfall,
                lb_excess_h = max 0 (no_charge_duration_h - max_route_duration_h (vehicle_of I))\<rparr>
          in rbind (lower_bound_cost lower_bound I (penalty_lambda l)) (\<lambda>cost.
             Inr (if cost \<ge> incumbent_limit l \<or> cost > minimum_limit l then Some lower_bound else None)))"

definition label_env ::
  "inst \<Rightarrow> bounded_limits option \<Rightarrow> charging_leg list \<Rightarrow> real \<Rightarrow> real \<Rightarrow> charge_env" where
  "label_env I limits legs travel_h no_charge_duration_h =
     \<lparr>env_capacity = battery_capacity_wh (vehicle_of I),
      curve_at = (\<lambda>position. curve_for_station I (leg_station_id (legs ! (position - 1)))),
      scan_stations = (\<lambda>remaining. case limits of None \<Rightarrow> True
                         | Some l \<Rightarrow> \<not> (all_charging_rates_finite l \<and> remaining = 0)),
      cut_off = shortage_bound I limits travel_h no_charge_duration_h\<rparr>"

text \<open>The two assignments at the head of the loop over the positions.\<close>

definition enter_position :: "real \<Rightarrow> nat \<Rightarrow> eval_state \<Rightarrow> eval_state" where
  "enter_position energy_required position st =
     (let a = departure st ! (position - 1) - energy_required
      in st\<lparr>arrival := (arrival st)[position := a], departure := (departure st)[position := a]\<rparr>)"

definition energy_to :: "charging_leg list \<Rightarrow> real \<Rightarrow> nat \<Rightarrow> real" where
  "energy_to legs tail_wh position =
     (if position \<le> length legs then energy_from_previous_station_wh (legs ! (position - 1)) else tail_wh)"

fun run_positions ::
  "charge_env \<Rightarrow> charging_leg list \<Rightarrow> real \<Rightarrow> nat list \<Rightarrow> nat list \<Rightarrow> eval_state \<Rightarrow> eval_state run option" where
  "run_positions env legs tail_wh [] preceding st = Some (Done st)"
| "run_positions env legs tail_wh (position # ps) preceding st =
     (case charge_loop env position position preceding
             (enter_position (energy_to legs tail_wh position) position st) of
        None \<Rightarrow> None
      | Some (Done st') \<Rightarrow>
          run_positions env legs tail_wh ps
            (if position \<le> length legs then preceding @ [position] else preceding) st'
      | Some (Cut b) \<Rightarrow> Some (Cut b)
      | Some (Threw e) \<Rightarrow> Some (Threw e))"

definition initial_state :: "inst \<Rightarrow> nat \<Rightarrow> real \<Rightarrow> eval_state" where
  "initial_state I cnt no_charge_duration_h =
     \<lparr>arrival = replicate cnt 0,
      departure = (replicate cnt 0)[0 := battery_capacity_wh (vehicle_of I)],
      remaining_shift_h = max 0 (max_route_duration_h (vehicle_of I) - no_charge_duration_h),
      shortfall_wh = 0\<rparr>"

text \<open>The last loop: the duration of the visit of each station, on the clamped energies.\<close>

definition visit_duration :: "charge_env \<Rightarrow> eval_state \<Rightarrow> nat \<Rightarrow> real result" where
  "visit_duration env st position =
     (let start = clamp (arrival st ! position) 0 (env_capacity env);
          finish = clamp (departure st ! position) start (env_capacity env)
      in rbind (curve_at env position) (\<lambda>curve. charge_duration curve start finish))"

definition total_charging_time :: "charge_env \<Rightarrow> eval_state \<Rightarrow> nat list \<Rightarrow> real result" where
  "total_charging_time env st positions =
     rfold (\<lambda>total position. rbind (visit_duration env st position) (\<lambda>d. Inr (total + d))) 0 positions"

definition finish_summary ::
  "inst \<Rightarrow> real \<Rightarrow> real \<Rightarrow> real \<Rightarrow> real \<Rightarrow> route_cost_summary" where
  "finish_summary I travel_h service_h charging shortfall =
     (let no_charge_duration_h = travel_h + service_h;
          limit = max_route_duration_h (vehicle_of I);
          raw = travel_h + charging;
          duration = raw + service_h;
          excess = max (max (no_charge_duration_h - limit) (duration - limit)) 0
      in \<lparr>feasible = (shortfall \<le> kEnergyToleranceWh \<and> excess \<le> kTimeToleranceH),
          raw_cost_h = raw, total_travel_h = travel_h, charging_time_h = charging,
          total_service_h = service_h, route_duration_h = duration,
          energy_shortfall_wh = shortfall, duration_excess_h = excess\<rparr>)"

definition evaluate_without_stations :: "inst \<Rightarrow> real \<Rightarrow> real \<Rightarrow> real \<Rightarrow> route_cost_summary" where
  "evaluate_without_stations I travel_h service_h tail_wh =
     (let deficit_wh = tail_wh - battery_capacity_wh (vehicle_of I);
          shortfall = (if deficit_wh > kEnergyToleranceWh then deficit_wh else 0);
          duration = travel_h + service_h;
          excess = max 0 (duration - max_route_duration_h (vehicle_of I))
      in \<lparr>feasible = (shortfall \<le> kEnergyToleranceWh \<and> excess \<le> kTimeToleranceH),
          raw_cost_h = travel_h, total_travel_h = travel_h, charging_time_h = 0,
          total_service_h = service_h, route_duration_h = duration,
          energy_shortfall_wh = shortfall, duration_excess_h = excess\<rparr>)"

definition evaluate_legs ::
  "inst \<Rightarrow> bounded_limits option \<Rightarrow> real \<Rightarrow> real \<Rightarrow> charging_leg list \<Rightarrow> real \<Rightarrow>
   bounded_evaluation result option" where
  "evaluate_legs I limits travel_h service_h legs tail_wh =
     (if legs = [] then Some (Inr (Summary (evaluate_without_stations I travel_h service_h tail_wh)))
      else let cnt = length legs + 2;
               env = label_env I limits legs travel_h (travel_h + service_h)
      in (case run_positions env legs tail_wh [1..<cnt] []
                 (initial_state I cnt (travel_h + service_h)) of
            None \<Rightarrow> None
          | Some (Threw e) \<Rightarrow> Some (Inl e)
          | Some (Cut b) \<Rightarrow> Some (Inr (Lower_Bound b))
          | Some (Done st) \<Rightarrow>
              Some (rbind (total_charging_time env st [1..<cnt - 1]) (\<lambda>charging.
                Inr (Summary (finish_summary I travel_h service_h charging (shortfall_wh st)))))))"

definition evaluate_data ::
  "inst \<Rightarrow> bounded_limits option \<Rightarrow> real \<Rightarrow> real \<Rightarrow> charging_leg list \<Rightarrow> real \<Rightarrow>
   bounded_evaluation result option" where
  "evaluate_data I limits travel_h service_h legs tail_wh =
     (case canonical_legs I legs of Inl e \<Rightarrow> Some (Inl e)
      | Inr canonical \<Rightarrow> evaluate_legs I limits travel_h service_h canonical tail_wh)"

section \<open>The entry points\<close>

text \<open>The full evaluation never returns a bound; the conversion keeps the summary.\<close>

definition full_summary :: "bounded_evaluation result option \<Rightarrow> route_cost_summary result option" where
  "full_summary r = map_option (\<lambda>x. rbind x (\<lambda>v. case v of Summary s \<Rightarrow> Inr s
     | Lower_Bound b \<Rightarrow> Inl (Undefined ''bound of an unbounded evaluation''))) r"

definition evaluate_label :: "inst \<Rightarrow> charging_label \<Rightarrow> route_cost_summary result option" where
  "evaluate_label I l =
     (if \<not> initialized l
      then Some (Inl (Invalid_Argument ''cannot evaluate an empty sequence label''))
      else full_summary (evaluate_data I None (label_travel_h l) (label_service_h l)
                           (station_legs l) (tail_energy_wh l)))"

text \<open>\<open>bounded_evaluation_compatible\<close> depends on the build; it is a parameter.\<close>

definition evaluate_bounded ::
  "bool \<Rightarrow> inst \<Rightarrow> charging_label \<Rightarrow> real \<Rightarrow> real \<Rightarrow> real \<Rightarrow> bool \<Rightarrow> bounded_evaluation result option" where
  "evaluate_bounded compatible I l lambda incumbent minimum all_finite =
     (if \<not> isfinite lambda \<or> lambda < 0
      then Some (Inl (Invalid_Argument ''penalty lambda must be finite and nonnegative''))
      else if lambda = 0 \<or> \<not> compatible
      then map_option (\<lambda>x. rbind x (\<lambda>s. Inr (Summary s))) (evaluate_label I l)
      else if \<not> initialized l
      then Some (Inl (Invalid_Argument ''cannot evaluate an empty sequence label''))
      else evaluate_data I (Some \<lparr>penalty_lambda = lambda, incumbent_limit = incumbent,
             minimum_limit = minimum, all_charging_rates_finite = all_finite\<rparr>)
             (label_travel_h l) (label_service_h l) (station_legs l) (tail_energy_wh l))"

text \<open>Evaluation of a span of labels without appending them; a component may be null.\<close>

fun check_components :: "int option \<Rightarrow> charging_label option list \<Rightarrow> unit result" where
  "check_components previous [] = Inr ()"
| "check_components previous (None # cs) = Inl (Invalid_Argument ''sequence contains an empty component'')"
| "check_components previous (Some c # cs) =
     (if \<not> initialized c then Inl (Invalid_Argument ''sequence contains an empty component'')
      else if previous \<noteq> None \<and> previous \<noteq> Some (origin_id c)
      then Inl (Invalid_Argument ''non-contiguous charging sequence labels'')
      else check_components (Some (target_id c)) cs)"

fun merge_components :: "charging_leg list \<times> real \<Rightarrow> charging_label \<Rightarrow> charging_leg list \<times> real" where
  "merge_components (legs, tail_wh) c =
     (case station_legs c of
        [] \<Rightarrow> (legs, tail_wh + tail_energy_wh c)
      | first # rest \<Rightarrow>
          (legs @ first\<lparr>energy_from_previous_station_wh :=
                     energy_from_previous_station_wh first + tail_wh\<rparr> # rest, tail_energy_wh c))"

definition evaluate_components :: "inst \<Rightarrow> charging_label option list \<Rightarrow> route_cost_summary result option" where
  "evaluate_components I cs =
     (if cs = [] then Some (Inl (Invalid_Argument ''cannot evaluate an empty sequence label''))
      else case check_components None cs of Inl e \<Rightarrow> Some (Inl e)
      | Inr _ \<Rightarrow>
          let components = map the cs;
              merged = foldl merge_components ([], 0) components
          in full_summary (evaluate_data I None (sum_list (map label_travel_h components))
               (sum_list (map label_service_h components)) (fst merged) (snd merged)))"

section \<open>Between two positions\<close>

text \<open>
  The invariant of the loop over the positions: the positions before \<open>pos\<close> hold a physical
  schedule, and the shortfall is what was written off on their legs.
\<close>

definition between :: "real \<Rightarrow> (nat \<Rightarrow> real) \<Rightarrow> nat \<Rightarrow> nat \<Rightarrow> eval_state \<Rightarrow> bool" where
  "between cap e n pos st \<longleftrightarrow>
     length (arrival st) = n \<and> length (departure st) = n \<and> 1 \<le> pos \<and> pos \<le> n \<and>
     departure st ! 0 = cap \<and>
     (\<forall>k \<in> {1..<pos}. 0 \<le> deficit e st k \<and> - kEnergyToleranceWh \<le> arrival st ! k \<and>
        arrival st ! k \<le> departure st ! k \<and> departure st ! k \<le> cap) \<and>
     (\<Sum>k = 1..<pos. deficit e st k) = shortfall_wh st"

lemma enter_between:
  assumes "between cap e n pos st" and "pos < n" and "0 \<le> e pos"
  shows "schedule_inv cap e pos pos [1..<pos] (enter_position (e pos) pos st)"
proof -
  let ?st = "enter_position (e pos) pos st"
  have pos: "1 \<le> pos" using assms(1) by (simp add: between_def)
  have arr: "arrival ?st ! k = (if k = pos then departure st ! (pos - 1) - e pos else arrival st ! k)"
    and dep: "departure ?st ! k = (if k = pos then departure st ! (pos - 1) - e pos else departure st ! k)"
    if "k < n" for k
    using assms(1,2) that by (auto simp: enter_position_def between_def Let_def)
  have def: "deficit e ?st k = (if k = pos then 0 else deficit e st k)" if "1 \<le> k" "k \<le> pos" for k
    using that arr [of k] dep [of "k - 1"] assms(2) by (auto simp: deficit_def)
  have "(\<Sum>k = 1..pos. deficit e ?st k) = (\<Sum>k = 1..<pos. deficit e ?st k)"
    using pos def [of pos] by (simp add: sum.last_plus)
  also have "\<dots> = (\<Sum>k = 1..<pos. deficit e st k)"
    by (rule sum.cong) (use def in auto)
  also have "\<dots> = shortfall_wh ?st"
    using assms(1) by (simp add: between_def enter_position_def Let_def)
  finally have sum: "(\<Sum>k = 1..pos. deficit e ?st k) = shortfall_wh ?st" .
  have prev: "departure st ! (pos - 1) \<le> cap"
    using assms(1) pos by (cases "pos = 1") (auto simp: between_def)
  have facts: "\<And>k. 1 \<le> k \<Longrightarrow> k < pos \<Longrightarrow> 0 \<le> deficit e st k \<and> - kEnergyToleranceWh \<le> arrival st ! k \<and>
        arrival st ! k \<le> departure st ! k \<and> departure st ! k \<le> cap" "departure st ! 0 = cap"
    using assms(1) by (auto simp: between_def)
  show ?thesis
    unfolding schedule_inv_def
  proof (intro conjI)
    show "length (departure ?st) = length (arrival ?st)" "pos < length (arrival ?st)"
      using assms(1,2) by (simp_all add: between_def enter_position_def Let_def)
    show "\<forall>k \<in> {1..pos}. 0 \<le> deficit e ?st k" using def facts(1) by auto
    show "\<forall>k < pos. departure ?st ! k \<le> cap"
    proof (intro allI impI)
      fix k assume "k < pos"
      then show "departure ?st ! k \<le> cap"
        using dep [of k] facts(1) [of k] facts(2) assms(2) by (cases "k = 0") auto
    qed
    show "\<forall>k \<in> {1..pos}. arrival ?st ! k \<le> departure ?st ! k"
      using arr dep facts(1) assms(2) by auto
    show "\<forall>k \<in> {1..pos}. k \<notin> set [1..<pos] \<longrightarrow> departure ?st ! k = arrival ?st ! k"
      using arr [of pos] dep [of pos] assms(2) by (auto simp: le_less)
    show "\<forall>k \<in> {1..<pos}. - kEnergyToleranceWh \<le> arrival ?st ! k"
      using arr facts(1) assms(2) by auto
    show "arrival ?st ! pos \<le> cap" using arr [of pos] prev assms(2,3) by simp
    show "departure ?st ! 0 = cap" using dep [of 0] pos facts(2) assms(2) by simp
  qed (use pos sum in auto)
qed

lemma leave_between:
  assumes "schedule_inv cap e pos pos [1..<pos] st" and "- kEnergyToleranceWh \<le> arrival st ! pos"
    and "n = length (arrival st)"
  shows "between cap e n (Suc pos) st"
proof -
  note I = schedule_invD [OF assms(1)]
  have pos: "departure st ! pos = arrival st ! pos" using I(11) [of pos] I(2) by simp
  have "0 \<le> deficit e st k \<and> - kEnergyToleranceWh \<le> arrival st ! k \<and>
      arrival st ! k \<le> departure st ! k \<and> departure st ! k \<le> cap" if "1 \<le> k" "k < Suc pos" for k
    using that I(7) [of k] I(10) [of k] I(12) [of k] I(13) [of k] I(14) assms(2) pos
    by (cases "k = pos") auto
  then show ?thesis
    using I(1,2,4,6,9) assms(3) by (auto simp: between_def atLeastLessThanSuc_atLeastAtMost)
qed

section \<open>The loop over the positions\<close>

lemma run_positions_inv:
  assumes n: "n = length legs + 2" and cap: "0 \<le> env_capacity env"
    and curves: "curves_usable env [1..<Suc (length legs)]"
    and cutable: "\<And>x. \<exists>r. cut_off env x = Inr r"
    and energies: "\<And>k. 1 \<le> k \<Longrightarrow> 0 \<le> energy_to legs tail_wh k"
    and start: "between (env_capacity env) (energy_to legs tail_wh) n pos st"
  shows "\<exists>r. run_positions env legs tail_wh [pos..<n] [1..<min pos (Suc (length legs))] st = Some r \<and>
    (case r of
      Done st' \<Rightarrow> between (env_capacity env) (energy_to legs tail_wh) n n st' \<and>
        shortfall_wh st \<le> shortfall_wh st'
    | Cut b \<Rightarrow> \<exists>x \<ge> shortfall_wh st. cut_off env x = Inr (Some b)
    | Threw err \<Rightarrow> False)"
  using start
proof (induction "n - pos" arbitrary: pos st)
  case 0
  then have "pos = n" by (simp add: between_def)
  with 0 show ?case by simp
next
  case (Suc d)
  let ?e = "energy_to legs tail_wh" and ?cap = "env_capacity env"
  have lt: "pos < n" and pos: "1 \<le> pos" using Suc.hyps(2) Suc.prems by (auto simp: between_def)
  then have mn: "min pos (Suc (length legs)) = pos" using n by simp
  let ?in = "enter_position (?e pos) pos st"
  have inv: "schedule_inv ?cap ?e pos pos [1..<pos] ?in"
    by (rule enter_between [OF Suc.prems lt energies [OF pos]])
  have cur: "curves_usable env [1..<pos]"
    using curves lt n by (auto simp: curves_usable_def)
  have sorted: "\<forall>s \<in> set [1..<pos]. hd [1..<pos] \<le> s" by (cases "1 < pos") auto
  obtain r where r: "charge_loop env pos pos [1..<pos] ?in = Some r"
    and post: "loop_post env ?e pos pos [1..<pos] ?in r"
    using charge_loop_inv [OF inv cap cur cutable sorted] by blast
  have same: "shortfall_wh ?in = shortfall_wh st" by (simp add: enter_position_def Let_def)
  have upt: "[pos..<n] = pos # [Suc pos..<n]" using lt by (simp add: upt_conv_Cons)
  show ?case
  proof (cases r)
    case (Done st')
    have len: "length (arrival st') = n"
      using post Done Suc.prems by (simp add: loop_post_def between_def enter_position_def Let_def)
    have b: "between ?cap ?e n (Suc pos) st'"
      using leave_between [of ?cap ?e pos st' n] post Done len by (simp add: loop_post_def)
    have prec: "(if pos \<le> length legs then [1..<pos] @ [pos] else [1..<pos]) = [1..<min (Suc pos) (Suc (length legs))]"
    proof (cases "pos \<le> length legs")
      case True
      with pos show ?thesis by (simp add: min_def)
    next
      case False
      then have "pos = Suc (length legs)" using lt n by simp
      then show ?thesis by (simp del: upt_Suc)
    qed
    have d: "d = n - Suc pos" using Suc.hyps(2) by simp
    obtain r' where "run_positions env legs tail_wh [Suc pos..<n] [1..<min (Suc pos) (Suc (length legs))] st' = Some r'"
      "case r' of Done st'' \<Rightarrow> between ?cap ?e n n st'' \<and> shortfall_wh st' \<le> shortfall_wh st''
        | Cut b \<Rightarrow> \<exists>x \<ge> shortfall_wh st'. cut_off env x = Inr (Some b) | Threw err \<Rightarrow> False"
      using Suc.hyps(1) [OF d b] by blast
    moreover have "shortfall_wh st \<le> shortfall_wh st'" using post Done same by (simp add: loop_post_def)
    ultimately show ?thesis
      unfolding upt mn run_positions.simps r Done option.case run.case prec
      by (auto split: run.splits intro: order_trans)
  qed (use r post same in \<open>simp_all add: upt mn loop_post_def\<close>)
qed

text \<open>The same loop without limits goes on from where the bounded one returned.\<close>

lemma run_positions_unbounded:
  assumes n: "n = length legs + 2" and cap: "0 \<le> env_capacity env"
    and curves: "curves_usable env [1..<Suc (length legs)]"
    and cutable: "\<And>x. \<exists>r. cut_off env x = Inr r"
    and energies: "\<And>k. 1 \<le> k \<Longrightarrow> 0 \<le> energy_to legs tail_wh k"
    and skip: "skip_justified env [1..<Suc (length legs)]"
    and start: "between (env_capacity env) (energy_to legs tail_wh) n pos st"
  shows "\<exists>r st'. run_positions env legs tail_wh [pos..<n] [1..<min pos (Suc (length legs))] st = Some r \<and>
    run_positions (unbounded env) legs tail_wh [pos..<n] [1..<min pos (Suc (length legs))] st = Some (Done st') \<and>
    (r = Done st' \<or> (\<exists>b x. r = Cut b \<and> x \<le> shortfall_wh st' \<and> cut_off env x = Inr (Some b)))"
  using start
proof (induction "n - pos" arbitrary: pos st)
  case 0
  then have "pos = n" by (simp add: between_def)
  then show ?case by simp
next
  case (Suc d)
  let ?e = "energy_to legs tail_wh" and ?cap = "env_capacity env" and ?m = "Suc (length legs)"
  have lt: "pos < n" and pos: "1 \<le> pos" using Suc.hyps(2) Suc.prems by (auto simp: between_def)
  then have mn: "min pos ?m = pos" using n by simp
  let ?in = "enter_position (?e pos) pos st"
  have inv: "schedule_inv ?cap ?e pos pos [1..<pos] ?in"
    by (rule enter_between [OF Suc.prems lt energies [OF pos]])
  have cur: "curves_usable env [1..<pos]" and sk: "skip_justified env [1..<pos]"
  proof -
    have "set [1..<pos] \<subseteq> set [1..<?m]" using lt n by auto
    then show "curves_usable env [1..<pos]" "skip_justified env [1..<pos]"
      using curves skip unfolding curves_usable_def skip_justified_def by blast+
  qed
  have sorted: "\<forall>s \<in> set [1..<pos]. hd [1..<pos] \<le> s" by (cases "1 < pos") auto
  obtain r where r: "charge_loop env pos pos [1..<pos] ?in = Some r"
    and rel: "case r of
      Done st' \<Rightarrow> charge_loop (unbounded env) pos pos [1..<pos] ?in = Some (Done st')
    | Cut b \<Rightarrow> \<exists>st'. charge_loop (unbounded env) pos pos [1..<pos] ?in = Some (Done st') \<and>
        cut_off env (shortfall_wh st') = Inr (Some b)
    | Threw err \<Rightarrow> False"
    using charge_loop_unbounded [OF inv cap cur cutable sorted sk] by blast
  obtain st' where un: "charge_loop (unbounded env) pos pos [1..<pos] ?in = Some (Done st')"
    and r': "r = Done st' \<or> (\<exists>b. r = Cut b \<and> cut_off env (shortfall_wh st') = Inr (Some b))"
    using rel by (cases r) auto
  have post: "loop_post (unbounded env) ?e pos pos [1..<pos] ?in (Done st')"
    using charge_loop_inv [of "unbounded env" ?e pos pos "[1..<pos]" ?in] inv cap cur sorted un by simp
  have len: "length (arrival st') = n"
    using post Suc.prems by (simp add: loop_post_def between_def enter_position_def Let_def)
  have b: "between ?cap ?e n (Suc pos) st'"
    using leave_between [of ?cap ?e pos st' n] post len by (simp add: loop_post_def)
  have prec: "(if pos \<le> length legs then [1..<pos] @ [pos] else [1..<pos]) = [1..<min (Suc pos) ?m]"
  proof (cases "pos \<le> length legs")
    case True
    with pos show ?thesis by (simp add: min_def)
  next
    case False
    then have "pos = ?m" using lt n by simp
    then show ?thesis by (simp del: upt_Suc)
  qed
  have d: "d = n - Suc pos" using Suc.hyps(2) by simp
  obtain q fin where q: "run_positions env legs tail_wh [Suc pos..<n] [1..<min (Suc pos) ?m] st' = Some q"
      "run_positions (unbounded env) legs tail_wh [Suc pos..<n] [1..<min (Suc pos) ?m] st' = Some (Done fin)"
      "q = Done fin \<or> (\<exists>b x. q = Cut b \<and> x \<le> shortfall_wh fin \<and> cut_off env x = Inr (Some b))"
    using Suc.hyps(1) [OF d b] by blast
  have mono: "shortfall_wh st' \<le> shortfall_wh fin"
    using run_positions_inv [OF n, of "unbounded env" tail_wh "Suc pos" st'] cap curves energies b q(2) by simp
  have upt: "[pos..<n] = pos # [Suc pos..<n]" using lt by (simp add: upt_conv_Cons)
  have full: "run_positions (unbounded env) legs tail_wh [pos..<n] [1..<min pos ?m] st = Some (Done fin)"
    unfolding upt mn run_positions.simps un option.case run.case prec by (rule q(2))
  from r' show ?case
  proof
    assume "r = Done st'"
    then have "run_positions env legs tail_wh [pos..<n] [1..<min pos ?m] st = Some q"
      unfolding upt mn run_positions.simps r option.case run.case prec
      using q(1) by (simp only: run.case)
    with full q(3) show ?thesis by blast
  next
    assume "\<exists>b. r = Cut b \<and> cut_off env (shortfall_wh st') = Inr (Some b)"
    then obtain b where b: "r = Cut b" "cut_off env (shortfall_wh st') = Inr (Some b)" by blast
    then have "run_positions env legs tail_wh [pos..<n] [1..<min pos ?m] st = Some (Cut b)"
      unfolding upt mn run_positions.simps r option.case run.case by simp
    with full b(2) mono show ?thesis by blast
  qed
qed

section \<open>Charging durations of the visits\<close>

lemma curves_usable_mono: "set ps \<subseteq> set qs \<Longrightarrow> curves_usable env qs \<Longrightarrow> curves_usable env ps"
  unfolding curves_usable_def by blast

definition curves_ok :: "inst \<Rightarrow> bool" where
  "curves_ok I \<longleftrightarrow> (\<forall>p \<in> set (charging_curves I). curve_ok (snd p) \<and> 0 \<le> capacity_wh (snd p))"

lemma station_curve_known:
  assumes "inst_ok I" and "curves_ok I" and "known_station I s"
  obtains c where "curve_for_station I s = Inr c" and "curve_ok c" and "0 \<le> capacity_wh c"
    and "battery_capacity_wh (vehicle_of I) \<le> capacity_wh c + kEnergyToleranceWh"
proof -
  have s: "s \<in> set (ids I)" "kind (the_node I s) = Station" using assms(3) by (simp_all add: known_station_def)
  obtain c where c: "map_of (charging_curves I) (station_type (the_node I s)) = Some c"
    "\<bar>capacity_wh c - battery_capacity_wh (vehicle_of I)\<bar> \<le> 1 / 10 ^ 6"
    using inst_okD(9) [OF assms(1)] node_of_known(2) [OF assms(1) s(1)] s(2)
    unfolding station_curves_ok_def by blast
  moreover have "curve_for_station I s = Inr c"
    using node_of_known(1) [OF assms(1) s(1)] s(2) c(1) by (simp add: curve_for_station_def)
  moreover have "curve_ok c" "0 \<le> capacity_wh c"
    using map_of_SomeD [OF c(1)] assms(2) by (force simp: curves_ok_def)+
  moreover have "battery_capacity_wh (vehicle_of I) \<le> capacity_wh c + kEnergyToleranceWh"
    using c(2) unfolding kEnergyToleranceWh_def by linarith
  ultimately show thesis using that by blast
qed

definition legs_ok :: "inst \<Rightarrow> charging_leg list \<Rightarrow> bool" where
  "legs_ok I legs \<longleftrightarrow>
     (\<forall>l \<in> set legs. known_station I (leg_station_id l) \<and> 0 \<le> energy_from_previous_station_wh l)"

lemma label_env_usable:
  assumes "inst_ok I" and "curves_ok I" and "legs_ok I legs"
  shows "curves_usable (label_env I limits legs t d) [1..<Suc (length legs)]"
  unfolding curves_usable_def
proof
  fix s assume "s \<in> set [1..<Suc (length legs)]"
  then have "known_station I (leg_station_id (legs ! (s - 1)))"
    using assms(3) by (auto simp: legs_ok_def)
  then obtain c where "curve_for_station I (leg_station_id (legs ! (s - 1))) = Inr c" "curve_ok c"
    "0 \<le> capacity_wh c" "battery_capacity_wh (vehicle_of I) \<le> capacity_wh c + kEnergyToleranceWh"
    by (rule station_curve_known [OF assms(1,2)])
  then show "\<exists>c. curve_at (label_env I limits legs t d) s = Inr c \<and> curve_ok c \<and> 0 \<le> capacity_wh c \<and>
      env_capacity (label_env I limits legs t d) \<le> capacity_wh c + kEnergyToleranceWh"
    by (simp add: label_env_def)
qed

lemma energy_to_nonneg: "legs_ok I legs \<Longrightarrow> 0 \<le> tail_wh \<Longrightarrow> 1 \<le> k \<Longrightarrow> 0 \<le> energy_to legs tail_wh k"
  by (auto simp: energy_to_def legs_ok_def)

text \<open>
  The duration charged at a station, from the schedule: charging from the arrival energy to
  the departure energy, both read as zero when they are below zero by less than the tolerance.
\<close>

lemma visit_duration_eq:
  assumes usable: "curves_usable env [p]" and "0 \<le> env_capacity env" and "isfinite (env_capacity env)"
    and "arrival st ! p \<le> departure st ! p" and "departure st ! p \<le> env_capacity env"
  shows "\<exists>c d. curve_at env p = Inr c \<and> visit_duration env st p = Inr d \<and> 0 \<le> d \<and>
    charge_duration c (max 0 (arrival st ! p)) (max 0 (departure st ! p)) = Inr d"
proof -
  from usable obtain c where c: "curve_at env p = Inr c" "curve_ok c" "0 \<le> capacity_wh c"
    "env_capacity env \<le> capacity_wh c + kEnergyToleranceWh" by (auto simp: curves_usable_def)
  let ?a = "max 0 (arrival st ! p)" and ?d = "max 0 (departure st ! p)"
  have clamps: "clamp (arrival st ! p) 0 (env_capacity env) = ?a"
    "clamp (departure st ! p) ?a (env_capacity env) = ?d"
    using assms by (auto simp: clamp_def)
  have "isfinite ?d"
  proof (rule isfinite_between [OF _ assms(3)])
    show "isfinite 0" by (simp add: isfinite_numeral_small)
    show "0 \<le> ?d" "?d \<le> env_capacity env" using assms(2,5) by simp_all
  qed
  moreover have "- kEnergyToleranceWh \<le> ?a" using tolerance_pos(1) by simp
  moreover have "?a \<le> ?d" using assms(4) by simp
  moreover have "?d \<le> capacity_wh c + kEnergyToleranceWh" using assms(2,5) c(4) by simp
  ultimately obtain x where "charge_duration c ?a ?d = Inr x" "0 \<le> x"
    using charge_duration_total [OF c(2) _ _ _ _ c(3)] by blast
  with c(1) clamps show ?thesis by (simp add: visit_duration_def)
qed

lemma total_charging_time_eq:
  assumes "\<And>p. p \<in> set ps \<Longrightarrow> \<exists>d. visit_duration env st p = Inr d \<and> 0 \<le> d"
  shows "\<exists>ds. total_charging_time env st ps = Inr (sum_list ds) \<and>
    list_all2 (\<lambda>p d. visit_duration env st p = Inr d \<and> 0 \<le> d) ps ds"
proof -
  have "\<exists>ds. rfold (\<lambda>total p. rbind (visit_duration env st p) (\<lambda>d. Inr (total + d))) a ps =
        Inr (a + sum_list ds) \<and> list_all2 (\<lambda>p d. visit_duration env st p = Inr d \<and> 0 \<le> d) ps ds" for a
    using assms
  proof (induction ps arbitrary: a)
    case (Cons p ps)
    then obtain d where d: "visit_duration env st p = Inr d" "0 \<le> d" by auto
    have tl: "\<exists>d. visit_duration env st p = Inr d \<and> 0 \<le> d" if "p \<in> set ps" for p
      using Cons.prems that by auto
    obtain ds where "rfold (\<lambda>total p. rbind (visit_duration env st p) (\<lambda>d. Inr (total + d))) (a + d) ps =
        Inr (a + d + sum_list ds)" "list_all2 (\<lambda>p d. visit_duration env st p = Inr d \<and> 0 \<le> d) ps ds"
      using Cons.IH [OF tl] by blast
    with d show ?case by (intro exI [of _ "d # ds"]) (simp add: add.assoc)
  qed simp
  from this [of 0] show ?thesis by (simp add: total_charging_time_def)
qed

section \<open>The quotient of adjacent visits\<close>

lemma supported_known:
  assumes "inst_ok I" and "curves_ok I" and "known_station I s"
  shows "\<exists>v. canonical_same_station_supported I s = Inr v"
proof -
  have s: "s \<in> set (ids I)" using assms(3) by (simp add: known_station_def)
  obtain c where "curve_for_station I s = Inr c" by (rule station_curve_known [OF assms])
  then show ?thesis
    using node_of_known(1) [OF assms(1) s] travel_time_known [OF assms(1) s s] energy_known [OF assms(1) s s]
    by (auto simp: canonical_same_station_supported_def)
qed

lemma mergeable_known:
  assumes "inst_ok I" and "curves_ok I" and "known_station I (leg_station_id b)"
  obtains v where "mergeable_leg I a b = Inr v" and "v \<Longrightarrow> energy_from_previous_station_wh b = 0"
    and "v \<Longrightarrow> leg_station_id a = leg_station_id b"
proof (cases "physical_same_station_predecessor b \<and> leg_station_id a = leg_station_id b \<and>
    energy_from_previous_station_wh b = 0")
  case True
  obtain v where "canonical_same_station_supported I (leg_station_id b) = Inr v"
    using supported_known [OF assms] by blast
  with True that [of v] show ?thesis by (simp add: mergeable_leg_def)
next
  case False
  with that [of False] show ?thesis by (simp add: mergeable_leg_def)
qed

definition energy_sum :: "charging_leg list \<Rightarrow> real" where
  "energy_sum legs = sum_list (map energy_from_previous_station_wh legs)"

definition unmergeable :: "inst \<Rightarrow> charging_leg list \<Rightarrow> bool" where
  "unmergeable I legs \<longleftrightarrow> successively (\<lambda>a b. mergeable_leg I a b = Inr False) legs"

lemma legs_ok_Nil [simp]: "legs_ok I []"
  by (simp add: legs_ok_def)

lemma legs_ok_Cons [simp]:
  "legs_ok I (l # ls) \<longleftrightarrow> known_station I (leg_station_id l) \<and> 0 \<le> energy_from_previous_station_wh l \<and> legs_ok I ls"
  by (auto simp: legs_ok_def)

lemma legs_ok_append [simp]: "legs_ok I (xs @ ys) \<longleftrightarrow> legs_ok I xs \<and> legs_ok I ys"
  by (auto simp: legs_ok_def)

lemma push_legs:
  assumes "inst_ok I" and "curves_ok I" and "legs_ok I ls" and "canon \<noteq> []"
    and "legs_ok I canon" and "unmergeable I canon"
  shows "\<exists>c. rfold (push_leg I) canon ls = Inr c \<and> legs_ok I c \<and> unmergeable I c \<and> c \<noteq> [] \<and>
    subseq c (canon @ ls) \<and> energy_sum c = energy_sum (canon @ ls)"
  using assms(3-)
proof (induction ls arbitrary: canon)
  case (Cons l ls)
  then have l: "known_station I (leg_station_id l)" by simp
  obtain v where v: "mergeable_leg I (last canon) l = Inr v" "v \<Longrightarrow> energy_from_previous_station_wh l = 0"
    using mergeable_known [OF assms(1,2) l, of "last canon"] by metis
  show ?case
  proof (cases v)
    case True
    obtain c where c: "rfold (push_leg I) canon ls = Inr c" "legs_ok I c" "unmergeable I c" "c \<noteq> []"
      "subseq c (canon @ ls)" "energy_sum c = energy_sum (canon @ ls)"
      using Cons.IH [of canon] Cons.prems by auto
    moreover have "subseq (canon @ ls) (canon @ l # ls)"
      by (rule list_emb_append_mono) auto
    moreover have "rfold (push_leg I) canon (l # ls) = rfold (push_leg I) canon ls"
      using v(1) True by (simp add: push_leg_def [of I canon l])
    moreover have "subseq c (canon @ l # ls)" using calculation(5,7) by (rule subseq_order.trans)
    ultimately show ?thesis using v True by (auto simp: energy_sum_def)
  next
    case False
    have "unmergeable I (canon @ [l])"
      using Cons.prems v(1) False by (auto simp: unmergeable_def successively_append_iff)
    then obtain c where "rfold (push_leg I) (canon @ [l]) ls = Inr c" "legs_ok I c" "unmergeable I c" "c \<noteq> []"
      "subseq c ((canon @ [l]) @ ls)" "energy_sum c = energy_sum ((canon @ [l]) @ ls)"
      using Cons.IH [of "canon @ [l]"] Cons.prems by auto
    with v(1) False show ?thesis by (auto simp: push_leg_def [of I canon l])
  qed
qed (auto simp: legs_ok_def)

lemma find_merge_known:
  assumes "inst_ok I" and "curves_ok I" and "legs_ok I ls"
  shows "\<exists>r. find_merge I ls = Inr r \<and> (case r of None \<Rightarrow> unmergeable I ls
    | Some i \<Rightarrow> 0 < i \<and> i < length ls \<and> unmergeable I (take i ls))"
  using assms(3)
proof (induction ls rule: induct_list012)
  case (3 a b ls)
  then have b: "known_station I (leg_station_id b)" by simp
  obtain v where v: "mergeable_leg I a b = Inr v" by (rule mergeable_known [OF assms(1,2) b])
  obtain r where r: "find_merge I (b # ls) = Inr r" "case r of None \<Rightarrow> unmergeable I (b # ls)
    | Some i \<Rightarrow> 0 < i \<and> i < length (b # ls) \<and> unmergeable I (take i (b # ls))"
    using 3 by auto
  show ?case
  proof (cases v)
    case False
    show ?thesis
    proof (cases r)
      case (Some i)
      then have "take i (b # ls) = b # take (i - 1) ls" using r by (cases i) auto
      with r v False Some show ?thesis by (auto simp: unmergeable_def)
    qed (use r v False in \<open>simp add: unmergeable_def\<close>)
  qed (use v in \<open>simp add: unmergeable_def\<close>)
qed (simp_all add: unmergeable_def)

lemma canonical_legs_ok:
  assumes "inst_ok I" and "curves_ok I" and "legs_ok I ls"
  shows "\<exists>c. canonical_legs I ls = Inr c \<and> legs_ok I c \<and> unmergeable I c \<and> subseq c ls \<and>
    energy_sum c = energy_sum ls \<and> (c = [] \<longleftrightarrow> ls = [])"
proof -
  obtain r where r: "find_merge I ls = Inr r" "case r of None \<Rightarrow> unmergeable I ls
    | Some i \<Rightarrow> 0 < i \<and> i < length ls \<and> unmergeable I (take i ls)"
    using find_merge_known [OF assms] by blast
  show ?thesis
  proof (cases r)
    case None
    with r assms(3) show ?thesis by (simp add: canonical_legs_def)
  next
    case (Some i)
    have "legs_ok I (take i ls @ drop i ls)" using assms(3) by simp
    then have parts: "legs_ok I (take i ls)" "legs_ok I (drop i ls)" unfolding legs_ok_append by simp_all
    have i: "0 < i" "i < length ls" "unmergeable I (take i ls)" using r Some by auto
    then have "take i ls \<noteq> []" by auto
    then obtain c where "rfold (push_leg I) (take i ls) (drop i ls) = Inr c" "legs_ok I c" "unmergeable I c" "c \<noteq> []"
      "subseq c (take i ls @ drop i ls)" "energy_sum c = energy_sum (take i ls @ drop i ls)"
      using push_legs [OF assms(1,2) parts(2) _ parts(1) i(3)] by blast
    with r(1) Some i show ?thesis by (auto simp: canonical_legs_def)
  qed
qed

section \<open>The specification of an evaluation\<close>

text \<open>
  A physical schedule for the legs: full at the depot, the energy balance on every leg with
  \<open>w k\<close> written off on leg k, no arrival below the tolerance, no departure above the
  capacity, and charging at stations only.
\<close>

definition physical_schedule ::
  "inst \<Rightarrow> charging_leg list \<Rightarrow> real \<Rightarrow> real list \<Rightarrow> real list \<Rightarrow> (nat \<Rightarrow> real) \<Rightarrow> bool" where
  "physical_schedule I legs tail_wh arr dep w \<longleftrightarrow>
     length arr = length legs + 2 \<and> length dep = length legs + 2 \<and>
     dep ! 0 = battery_capacity_wh (vehicle_of I) \<and>
     (\<forall>k \<in> {1..length legs + 1}.
        arr ! k = dep ! (k - 1) - energy_to legs tail_wh k + w k \<and> 0 \<le> w k \<and>
        - kEnergyToleranceWh \<le> arr ! k \<and> arr ! k \<le> dep ! k \<and>
        dep ! k \<le> battery_capacity_wh (vehicle_of I))"

definition station_durations ::
  "inst \<Rightarrow> charging_leg list \<Rightarrow> real list \<Rightarrow> real list \<Rightarrow> real list \<Rightarrow> bool" where
  "station_durations I legs arr dep ds \<longleftrightarrow>
     list_all2 (\<lambda>k d. 0 \<le> d \<and> (\<exists>c. curve_for_station I (leg_station_id (legs ! (k - 1))) = Inr c \<and>
        charge_duration c (max 0 (arr ! k)) (max 0 (dep ! k)) = Inr d)) [1..<length legs + 1] ds"

definition summary_consistent :: "inst \<Rightarrow> real \<Rightarrow> real \<Rightarrow> 'a route_cost_summary_scheme \<Rightarrow> bool" where
  "summary_consistent I travel_h service_h s \<longleftrightarrow>
     total_travel_h s = travel_h \<and> total_service_h s = service_h \<and>
     raw_cost_h s = travel_h + charging_time_h s \<and> route_duration_h s = raw_cost_h s + service_h \<and>
     duration_excess_h s = max 0 (route_duration_h s - max_route_duration_h (vehicle_of I)) \<and>
     0 \<le> charging_time_h s \<and> 0 \<le> energy_shortfall_wh s \<and>
     (feasible s \<longleftrightarrow> energy_shortfall_wh s \<le> kEnergyToleranceWh \<and> duration_excess_h s \<le> kTimeToleranceH)"

definition scheduled ::
  "inst \<Rightarrow> real \<Rightarrow> real \<Rightarrow> charging_leg list \<Rightarrow> real \<Rightarrow> route_cost_summary \<Rightarrow> bool" where
  "scheduled I travel_h service_h legs tail_wh s \<longleftrightarrow> summary_consistent I travel_h service_h s \<and>
     (\<exists>arr dep w ds. physical_schedule I legs tail_wh arr dep w \<and>
        energy_shortfall_wh s = (\<Sum>k = 1..length legs + 1. w k) \<and>
        station_durations I legs arr dep ds \<and> charging_time_h s = sum_list ds)"

lemma unbounded_label_env: "unbounded (label_env I limits legs t d) = label_env I None legs t d"
  by (simp add: unbounded_def label_env_def shortage_bound_def fun_eq_iff)

lemma initial_between:
  assumes "2 \<le> n"
  shows "between (battery_capacity_wh (vehicle_of I)) e n 1 (initial_state I n d)"
  using assms by (simp add: between_def initial_state_def)

lemma without_stations_scheduled:
  assumes "inst_ok I" and "0 \<le> tail_wh"
  shows "scheduled I t d [] tail_wh (evaluate_without_stations I t d tail_wh)"
proof -
  define B where "B = battery_capacity_wh (vehicle_of I)"
  define w where "w = (if tail_wh - B > kEnergyToleranceWh then tail_wh - B else 0)"
  let ?s = "evaluate_without_stations I t d tail_wh"
  have B: "0 < B" using vehicle_pos(3) [OF assms(1)] by (simp add: B_def)
  have s: "energy_shortfall_wh ?s = w" "charging_time_h ?s = 0" "summary_consistent I t d ?s"
    using tolerance_pos(4)
    by (auto simp: evaluate_without_stations_def Let_def summary_consistent_def w_def B_def)
  have "physical_schedule I [] tail_wh [0, B - tail_wh + w] [B, B - tail_wh + w] (\<lambda>_. w)"
    using B assms(2) tolerance_pos(4)
    by (auto simp: physical_schedule_def energy_to_def w_def B_def [symmetric])
  moreover have "energy_shortfall_wh ?s = (\<Sum>k = 1..length ([] :: charging_leg list) + 1. (\<lambda>_. w) k)"
    using s by simp
  moreover have "station_durations I [] [0, B - tail_wh + w] [B, B - tail_wh + w] []"
    by (simp add: station_durations_def)
  moreover have "charging_time_h ?s = sum_list []" using s by simp
  ultimately show ?thesis using s(3) unfolding scheduled_def by blast
qed

text \<open>What the last part of \<open>evaluate_data\<close> makes of the final arrays.\<close>

lemma finish_scheduled:
  assumes I: "inst_ok I" "curves_ok I" and legs: "legs_ok I legs" and n: "n = length legs + 2"
    and st: "between (battery_capacity_wh (vehicle_of I)) (energy_to legs tail_wh) n n st"
  shows "\<exists>x. total_charging_time (label_env I limits legs t' d') st [1..<n - 1] = Inr x \<and>
    scheduled I t d legs tail_wh (finish_summary I t d x (shortfall_wh st))"
proof -
  let ?env = "label_env I limits legs t' d'" and ?B = "battery_capacity_wh (vehicle_of I)"
  let ?w = "deficit (energy_to legs tail_wh) st"
  have env: "env_capacity ?env = ?B" by (simp add: label_env_def)
  have B: "0 \<le> ?B" "isfinite ?B" using vehicle_pos(3,5) [OF I(1)] by simp_all
  note usable = label_env_usable [OF I legs, of limits t' d']
  have vis: "\<exists>c d. curve_at ?env p = Inr c \<and> visit_duration ?env st p = Inr d \<and> 0 \<le> d \<and>
      charge_duration c (max 0 (arrival st ! p)) (max 0 (departure st ! p)) = Inr d"
    if "p \<in> set [1..<n - 1]" for p
  proof (rule visit_duration_eq)
    have "p \<in> set [1..<Suc (length legs)]" using that n by simp
    then have "set [p] \<subseteq> set [1..<Suc (length legs)]" by (simp only: list.set) blast
    then show "curves_usable ?env [p]" using usable by (rule curves_usable_mono)
    show "arrival st ! p \<le> departure st ! p" "departure st ! p \<le> env_capacity ?env"
      using st that n unfolding env between_def by auto
  qed (use B env in simp_all)
  have vd: "\<exists>d. visit_duration ?env st p = Inr d \<and> 0 \<le> d" if "p \<in> set [1..<n - 1]" for p
    using vis [OF that] by blast
  obtain ds where ds: "total_charging_time ?env st [1..<n - 1] = Inr (sum_list ds)"
    and all: "list_all2 (\<lambda>p d. visit_duration ?env st p = Inr d \<and> 0 \<le> d) [1..<n - 1] ds"
    using total_charging_time_eq [OF vd] by blast
  have "station_durations I legs (arrival st) (departure st) ds"
    unfolding station_durations_def
  proof (rule list.rel_mono_strong)
    show "list_all2 (\<lambda>p d. visit_duration ?env st p = Inr d \<and> 0 \<le> d) [1..<length legs + 1] ds"
      using all n by simp
  next
    fix p d assume p: "p \<in> set [1..<length legs + 1]" "visit_duration ?env st p = Inr d \<and> 0 \<le> d"
    then have "p \<in> set [1..<n - 1]" using n by simp
    from vis [OF this] p(2) show "0 \<le> d \<and> (\<exists>c. curve_for_station I (leg_station_id (legs ! (p - 1))) = Inr c \<and>
        charge_duration c (max 0 (arrival st ! p)) (max 0 (departure st ! p)) = Inr d)"
      by (auto simp: label_env_def)
  qed
  moreover have "physical_schedule I legs tail_wh (arrival st) (departure st) ?w"
    using st n by (auto simp: physical_schedule_def between_def deficit_def)
  moreover have sum: "shortfall_wh st = (\<Sum>k = 1..length legs + 1. ?w k)"
  proof -
    have "{1..<n} = {1..length legs + 1}" using n by auto
    with st show ?thesis by (simp add: between_def)
  qed
  moreover have "0 \<le> sum_list ds"
    using all by (intro sum_list_nonneg) (auto simp: list_all2_conv_all_nth in_set_conv_nth)
  moreover have "0 \<le> shortfall_wh st"
    unfolding sum using st n by (intro sum_nonneg) (auto simp: between_def)
  ultimately have "scheduled I t d legs tail_wh (finish_summary I t d (sum_list ds) (shortfall_wh st))"
    by (auto simp: scheduled_def summary_consistent_def finish_summary_def Let_def max_def)
  with ds show ?thesis by blast
qed

lemma evaluate_legs_scheduled:
  assumes I: "inst_ok I" "curves_ok I" and legs: "legs_ok I legs" and tail: "0 \<le> tail_wh"
  shows "\<exists>s. evaluate_legs I None t d legs tail_wh = Some (Inr (Summary s)) \<and>
    scheduled I t d legs tail_wh s"
proof (cases "legs = []")
  case True
  with without_stations_scheduled [OF I(1) tail] show ?thesis by (simp add: evaluate_legs_def)
next
  case False
  let ?n = "length legs + 2"
  let ?env = "label_env I None legs t (t + d)"
  have env: "env_capacity ?env = battery_capacity_wh (vehicle_of I)" "\<And>x. cut_off ?env x = Inr None"
    by (simp_all add: label_env_def shortage_bound_def)
  have B: "0 \<le> env_capacity ?env" using vehicle_pos(3) [OF I(1)] env by simp
  have "between (env_capacity ?env) (energy_to legs tail_wh) ?n 1 (initial_state I ?n (t + d))"
    using initial_between [of ?n I] env by simp
  then obtain r where r: "run_positions ?env legs tail_wh [1..<?n] [] (initial_state I ?n (t + d)) = Some r"
    "case r of Done st' \<Rightarrow> between (env_capacity ?env) (energy_to legs tail_wh) ?n ?n st'
       | Cut b \<Rightarrow> False | Threw err \<Rightarrow> False"
    using run_positions_inv [OF refl B label_env_usable [OF I legs] _ energy_to_nonneg [OF legs tail],
        of 1 "initial_state I ?n (t + d)"] env(2) by (fastforce split: run.splits)
  then obtain st where st: "r = Done st" "between (battery_capacity_wh (vehicle_of I)) (energy_to legs tail_wh) ?n ?n st"
    using env(1) by (cases r) auto
  from finish_scheduled [OF I legs refl st(2), of None t "t + d" t d] r(1) st(1) False show ?thesis
    by (auto simp: evaluate_legs_def Let_def)
qed

section \<open>The bounded evaluation\<close>

definition finite_rates :: "inst \<Rightarrow> bool" where
  "finite_rates I \<longleftrightarrow>
     (\<forall>p \<in> set (charging_curves I). \<forall>e. marginal_rate_at (snd p) e \<noteq> Infinite_Rate)"

lemma finite_rates_station:
  assumes "finite_rates I" and "curve_for_station I s = Inr c"
  shows "marginal_rate_at c e \<noteq> Infinite_Rate"
proof -
  obtain ty where "map_of (charging_curves I) ty = Some c"
    using assms(2) by (auto simp: curve_for_station_def rbind_eq_Inr_conv split: if_splits option.splits)
  from map_of_SomeD [OF this] assms(1) show ?thesis by (force simp: finite_rates_def)
qed

lemma visit_duration_limits:
  "visit_duration (label_env I limits legs t d) = visit_duration (label_env I None legs t d)"
  by (simp add: visit_duration_def label_env_def fun_eq_iff)

lemma total_charging_limits:
  "total_charging_time (label_env I limits legs t d) = total_charging_time (label_env I None legs t d)"
  unfolding total_charging_time_def [abs_def] by (subst visit_duration_limits) (rule refl)

text \<open>The bound is below the cost of any summary with at least that shortfall.\<close>

lemma lower_bound_below:
  assumes I: "inst_ok I" and lam: "isfinite lambda" "0 \<le> lambda"
    and s: "summary_consistent I t d s" and x: "x \<le> energy_shortfall_wh s"
  shows "\<exists>cb cs. lower_bound_cost \<lparr>lb_travel_h = t, lb_shortfall_wh = x,
      lb_excess_h = max 0 (t + d - max_route_duration_h (vehicle_of I))\<rparr> I lambda = Inr cb \<and>
    summary_cost s I lambda = Inr cs \<and> cb \<le> cs"
proof -
  let ?c = "consumption_wh_per_km (vehicle_of I)"
  have "0 < ?c" by (rule vehicle_pos(2) [OF I])
  then have "x / ?c \<le> energy_shortfall_wh s / ?c" using x by (simp add: divide_right_mono)
  moreover have "max 0 (t + d - max_route_duration_h (vehicle_of I)) \<le> duration_excess_h s"
    using s by (auto simp: summary_consistent_def)
  ultimately have "lambda * (x / ?c + max 0 (t + d - max_route_duration_h (vehicle_of I)))
      \<le> lambda * (energy_shortfall_wh s / ?c + duration_excess_h s)"
    using lam(2) by (intro mult_left_mono) auto
  moreover have "t \<le> raw_cost_h s" using s by (auto simp: summary_consistent_def)
  ultimately show ?thesis using lam by (auto simp: lower_bound_cost_def summary_cost_def)
qed

definition exact_or_bound ::
  "inst \<Rightarrow> bounded_limits \<Rightarrow> route_cost_summary \<Rightarrow> bounded_evaluation \<Rightarrow> bool" where
  "exact_or_bound I l s r \<longleftrightarrow> r = Summary s \<or>
     (\<exists>b cb cs. r = Lower_Bound b \<and> lower_bound_cost b I (penalty_lambda l) = Inr cb \<and>
        summary_cost s I (penalty_lambda l) = Inr cs \<and> cb \<le> cs \<and>
        (incumbent_limit l \<le> cb \<or> minimum_limit l < cb))"

lemma evaluate_legs_bounded:
  assumes I: "inst_ok I" "curves_ok I" and legs: "legs_ok I legs" and tail: "0 \<le> tail_wh"
    and lam: "isfinite (penalty_lambda l)" "0 \<le> penalty_lambda l"
    and fin: "all_charging_rates_finite l \<Longrightarrow> finite_rates I"
  shows "\<exists>s r. evaluate_legs I None t d legs tail_wh = Some (Inr (Summary s)) \<and>
    scheduled I t d legs tail_wh s \<and>
    evaluate_legs I (Some l) t d legs tail_wh = Some (Inr r) \<and> exact_or_bound I l s r"
proof (cases "legs = []")
  case True
  with evaluate_legs_scheduled [OF I legs tail, of t d] show ?thesis
    by (auto simp: evaluate_legs_def exact_or_bound_def)
next
  case False
  let ?n = "length legs + 2" and ?st = "initial_state I (length legs + 2) (t + d)"
  let ?env = "label_env I (Some l) legs t (t + d)"
  let ?bound = "\<lambda>x. \<lparr>lb_travel_h = t, lb_shortfall_wh = x,
      lb_excess_h = max 0 (t + d - max_route_duration_h (vehicle_of I))\<rparr>"
  have cut: "\<exists>c. lower_bound_cost (?bound x) I (penalty_lambda l) = Inr c \<and> cut_off ?env x =
      Inr (if c \<ge> incumbent_limit l \<or> c > minimum_limit l then Some (?bound x) else None)" for x
    using lam by (auto simp: label_env_def shortage_bound_def lower_bound_cost_def summary_cost_def Let_def)
  have skip: "skip_justified ?env [1..<Suc (length legs)]"
    using fin finite_rates_station by (auto simp: skip_justified_def label_env_def)
  have env: "env_capacity ?env = battery_capacity_wh (vehicle_of I)" by (simp add: label_env_def)
  have B: "0 \<le> env_capacity ?env" using vehicle_pos(3) [OF I(1)] env by simp
  have start: "between (env_capacity ?env) (energy_to legs tail_wh) ?n 1 ?st"
    using initial_between [of ?n I] env by simp
  have cutable: "\<exists>r. cut_off ?env x = Inr r" for x using cut [of x] by blast
  obtain r st where r: "run_positions ?env legs tail_wh [1..<?n] [] ?st = Some r"
    "run_positions (unbounded ?env) legs tail_wh [1..<?n] [] ?st = Some (Done st)"
    "r = Done st \<or> (\<exists>b x. r = Cut b \<and> x \<le> shortfall_wh st \<and> cut_off ?env x = Inr (Some b))"
    using run_positions_unbounded [OF refl B label_env_usable [OF I legs] cutable
        energy_to_nonneg [OF legs tail] skip start] by auto
  obtain s where s: "evaluate_legs I None t d legs tail_wh = Some (Inr (Summary s))"
    "scheduled I t d legs tail_wh s"
    using evaluate_legs_scheduled [OF I legs tail] by blast
  then obtain x where x: "total_charging_time ?env st [1..<?n - 1] = Inr x"
    "s = finish_summary I t d x (shortfall_wh st)"
    using r(2) False
    by (auto simp: evaluate_legs_def Let_def unbounded_label_env total_charging_limits [of I "Some l"]
        rbind_eq_Inr_conv)
  from r(3) show ?thesis
  proof
    assume "r = Done st"
    with r(1) x False have "evaluate_legs I (Some l) t d legs tail_wh = Some (Inr (Summary s))"
      by (simp add: evaluate_legs_def Let_def)
    with s show ?thesis by (auto simp: exact_or_bound_def)
  next
    assume "\<exists>b x. r = Cut b \<and> x \<le> shortfall_wh st \<and> cut_off ?env x = Inr (Some b)"
    then obtain b y where b: "r = Cut b" "y \<le> shortfall_wh st" "cut_off ?env y = Inr (Some b)" by blast
    then have "evaluate_legs I (Some l) t d legs tail_wh = Some (Inr (Lower_Bound b))"
      using r(1) False by (simp add: evaluate_legs_def Let_def)
    moreover have "y \<le> energy_shortfall_wh s" using b(2) x(2) by (simp add: finish_summary_def Let_def)
    moreover have "b = ?bound y" "\<exists>c. lower_bound_cost b I (penalty_lambda l) = Inr c \<and>
        (incumbent_limit l \<le> c \<or> minimum_limit l < c)"
      using cut [of y] b(3) by (auto split: if_splits)
    ultimately show ?thesis
      using s lower_bound_below [OF I(1) lam, of t d s y] unfolding exact_or_bound_def scheduled_def
      by (metis sum.inject(2))
  qed
qed

section \<open>A span of labels\<close>

lemma append_label_merge:
  assumes "initialized a" and "initialized c" and "target_id a = origin_id c"
  shows "append_label a c = Inr (a\<lparr>target_id := target_id c,
      station_legs := fst (merge_components (station_legs a, tail_energy_wh a) c),
      tail_energy_wh := snd (merge_components (station_legs a, tail_energy_wh a) c),
      label_travel_h := label_travel_h a + label_travel_h c,
      label_service_h := label_service_h a + label_service_h c\<rparr>)"
  using assms by (simp add: append_label_def Let_def split: list.split)

lemma check_append:
  assumes "initialized a" and "\<forall>c \<in> set cs. initialized c"
  shows "(case check_components (Some (target_id a)) (map Some cs) of
      Inl e \<Rightarrow> append_all a cs = Inl e
    | Inr _ \<Rightarrow> \<exists>l. append_all a cs = Inr l \<and> initialized l \<and>
        label_travel_h l = label_travel_h a + sum_list (map label_travel_h cs) \<and>
        label_service_h l = label_service_h a + sum_list (map label_service_h cs) \<and>
        (station_legs l, tail_energy_wh l) = foldl merge_components (station_legs a, tail_energy_wh a) cs)"
  using assms
proof (induction cs arbitrary: a)
  case (Cons c cs)
  show ?case
  proof (cases "target_id a = origin_id c")
    case True
    obtain b where b: "append_label a c = Inr b" "initialized b" "target_id b = target_id c"
      "label_travel_h b = label_travel_h a + label_travel_h c"
      "label_service_h b = label_service_h a + label_service_h c"
      "(station_legs b, tail_energy_wh b) = merge_components (station_legs a, tail_energy_wh a) c"
      using append_label_merge [of a c] Cons.prems True by auto
    have step: "append_all a (c # cs) = append_all b cs" using b(1) by (simp add: append_all_def)
    have check: "check_components (Some (target_id a)) (map Some (c # cs)) =
        check_components (Some (target_id b)) (map Some cs)" using True b(3) Cons.prems by simp
    have fold: "foldl merge_components (station_legs a, tail_energy_wh a) (c # cs) =
        foldl merge_components (station_legs b, tail_energy_wh b) cs" using b(6) by simp
    have sums: "label_travel_h a + sum_list (map label_travel_h (c # cs)) =
        label_travel_h b + sum_list (map label_travel_h cs)"
      "label_service_h a + sum_list (map label_service_h (c # cs)) =
        label_service_h b + sum_list (map label_service_h cs)" using b(4,5) by simp_all
    show ?thesis
      unfolding step check fold sums using Cons.IH [of b] b(2) Cons.prems by simp
  next
    case False
    with Cons.prems show ?thesis by (simp add: append_all_def append_noncontiguous)
  qed
qed (simp add: append_all_def)

section \<open>Labels of routes\<close>

lemma evaluate_components_all:
  assumes "initialized a" and "\<forall>c \<in> set cs. initialized c"
  shows "evaluate_components I (map Some (a # cs)) =
    (case append_all a cs of Inl e \<Rightarrow> Some (Inl e) | Inr l \<Rightarrow> evaluate_label I l)"
proof -
  have check: "check_components None (map Some (a # cs)) = check_components (Some (target_id a)) (map Some cs)"
    using assms(1) by simp
  have merge: "merge_components ([], 0) a = (station_legs a, tail_energy_wh a)"
    by (simp split: list.split)
  show ?thesis
  proof (cases "check_components (Some (target_id a)) (map Some cs)")
    case (Inl e)
    with check_append [OF assms] check show ?thesis by (simp add: evaluate_components_def)
  next
    case (Inr u)
    with check_append [OF assms] obtain l where l: "append_all a cs = Inr l" "initialized l"
      "label_travel_h l = label_travel_h a + sum_list (map label_travel_h cs)"
      "label_service_h l = label_service_h a + sum_list (map label_service_h cs)"
      "(station_legs l, tail_energy_wh l) = foldl merge_components (station_legs a, tail_energy_wh a) cs"
      by auto
    have "map the (map Some (a # cs)) = a # cs" by (simp add: comp_def)
    moreover have "foldl merge_components ([], 0) (a # cs) = (station_legs l, tail_energy_wh l)"
      using l(5) merge by (simp only: foldl.simps)
    ultimately have "evaluate_components I (map Some (a # cs)) = evaluate_label I l"
      using Inr check l(2,3,4) by (simp only: evaluate_components_def evaluate_label_def) simp
    with l(1) show ?thesis by simp
  qed
qed

lemma segments_ok:
  assumes "inst_ok I" and "set ns \<subseteq> set (ids I)" and "0 \<le> acc"
  shows "legs_ok I (segments I p acc ns)" and "0 \<le> tail_segment I p acc ns"
  using assms(2,3)
proof (induction ns arbitrary: p acc)
  case (Cons n ns)
  have e: "0 \<le> leg_energy I p n" for p by (rule leg_energy_nonneg [OF assms(1)])
  {
    case 1
    with e Cons show ?case by (simp add: known_station_def)
  next
    case 2
    with e Cons show ?case by simp
  }
qed simp_all

lemma path_label_ok:
  assumes "inst_ok I" and "set ns \<subseteq> set (ids I)"
  shows "legs_ok I (station_legs (path_label I p ns))" and "0 \<le> tail_energy_wh (path_label I p ns)"
  using segments_ok [OF assms] by (simp_all add: path_label_def)

lemma full_summary_Summary [simp]: "full_summary (Some (Inr (Summary s))) = Some (Inr s)"
  by (simp add: full_summary_def)

lemma evaluate_label_scheduled:
  assumes "inst_ok I" and "curves_ok I" and "initialized l"
    and "legs_ok I (station_legs l)" and "0 \<le> tail_energy_wh l"
  shows "\<exists>s c. evaluate_label I l = Some (Inr s) \<and> canonical_legs I (station_legs l) = Inr c \<and>
    legs_ok I c \<and> scheduled I (label_travel_h l) (label_service_h l) c (tail_energy_wh l) s"
proof -
  obtain c where c: "canonical_legs I (station_legs l) = Inr c" "legs_ok I c"
    using canonical_legs_ok [OF assms(1,2,4)] by blast
  obtain s where "evaluate_legs I None (label_travel_h l) (label_service_h l) c (tail_energy_wh l) =
      Some (Inr (Summary s))" "scheduled I (label_travel_h l) (label_service_h l) c (tail_energy_wh l) s"
    using evaluate_legs_scheduled [OF assms(1,2) c(2) assms(5)] by blast
  with c assms(3) show ?thesis by (simp add: evaluate_label_def evaluate_data_def)
qed

lemma evaluate_bounded_ok:
  assumes "inst_ok I" and "curves_ok I" and "initialized l"
    and "legs_ok I (station_legs l)" and "0 \<le> tail_energy_wh l"
    and "isfinite lambda" and "0 \<le> lambda" and "all_finite \<Longrightarrow> finite_rates I"
  shows "\<exists>s r. evaluate_label I l = Some (Inr s) \<and>
    evaluate_bounded compatible I l lambda incumbent minimum all_finite = Some (Inr r) \<and>
    (r = Summary s \<or> (\<exists>b cb cs. r = Lower_Bound b \<and> lower_bound_cost b I lambda = Inr cb \<and>
       summary_cost s I lambda = Inr cs \<and> cb \<le> cs \<and> (incumbent \<le> cb \<or> minimum < cb)))"
proof -
  let ?l = "\<lparr>penalty_lambda = lambda, incumbent_limit = incumbent, minimum_limit = minimum,
    all_charging_rates_finite = all_finite\<rparr>"
  obtain c where c: "canonical_legs I (station_legs l) = Inr c" "legs_ok I c"
    using canonical_legs_ok [OF assms(1,2,4)] by blast
  obtain s r where "evaluate_legs I None (label_travel_h l) (label_service_h l) c (tail_energy_wh l) =
      Some (Inr (Summary s))"
    "evaluate_legs I (Some ?l) (label_travel_h l) (label_service_h l) c (tail_energy_wh l) = Some (Inr r)"
    "exact_or_bound I ?l s r"
    using evaluate_legs_bounded [OF assms(1,2) c(2) assms(5), of ?l "label_travel_h l" "label_service_h l"]
      assms(6-8) by fastforce
  with c(1) assms(3,6,7) show ?thesis
    by (cases "lambda = 0 \<or> \<not> compatible")
      (auto simp: evaluate_label_def evaluate_bounded_def evaluate_data_def exact_or_bound_def)
qed

section \<open>Properties\<close>

lemma demo_curves_ok: "curves_ok demo_inst"
  by (simp add: curves_ok_def demo_inst_def demo_curve_ok curve_exact_ok)

lemma demo_known: "set (ids demo_inst) = {0, 1, 2, 3}" "depot_id demo_inst = 0"
  by (auto simp: ids_def demo_inst_def demo_nodes_def)

text \<open>
  C1: Evaluating the label of a route over known nodes always returns a summary (no
  divergence, no exception), and the summary describes a physical charging schedule: full
  battery at the depot, the energy balance on every leg up to the written-off energy whose
  total is the reported shortfall, no arrival below the tolerance, no departure above the
  capacity, the charging time as the sum of the curve durations of the visits, and cost,
  duration, excess and feasibility computed from them.
\<close>

theorem evaluate_route_label_schedule:
  assumes "inst_ok I" and "curves_ok I" and "set (visits r) \<subseteq> set (ids I)"
  shows "\<exists>l c s. route_label I r = Inr l \<and> canonical_legs I (station_legs l) = Inr c \<and>
    evaluate_label I l = Some (Inr s) \<and>
    summary_consistent I (path_travel I (depot_id I) (visits r @ [depot_id I])) (label_service_h l) s \<and>
    (\<exists>arr dep w ds. physical_schedule I c (tail_energy_wh l) arr dep w \<and>
      energy_shortfall_wh s = (\<Sum>k = 1..length c + 1. w k) \<and>
      station_durations I c arr dep ds \<and> charging_time_h s = sum_list ds)"
proof -
  let ?ns = "visits r @ [depot_id I]"
  have known: "set ?ns \<subseteq> set (ids I)" using assms(3) known_lookups(1) [OF assms(1)] by simp
  note ok = path_label_ok [OF assms(1) known, of "depot_id I"]
  obtain s c where "evaluate_label I (path_label I (depot_id I) ?ns) = Some (Inr s)"
    "canonical_legs I (station_legs (path_label I (depot_id I) ?ns)) = Inr c"
    "scheduled I (label_travel_h (path_label I (depot_id I) ?ns))
       (label_service_h (path_label I (depot_id I) ?ns)) c (tail_energy_wh (path_label I (depot_id I) ?ns)) s"
    using evaluate_label_scheduled [OF assms(1,2) _ ok] by auto
  moreover have "label_travel_h (path_label I (depot_id I) ?ns) = path_travel I (depot_id I) ?ns"
    by (simp add: path_label_def)
  ultimately show ?thesis
    using route_label_eq [OF assms(1,3)] unfolding scheduled_def by metis
qed

theorem evaluate_route_label_schedule_witness:
  "\<exists>l s. route_label demo_inst \<lparr>visits = [2, 1]\<rparr> = Inr l \<and> evaluate_label demo_inst l = Some (Inr s)"
  using evaluate_route_label_schedule [OF demo_inst_ok demo_curves_ok, of "\<lparr>visits = [2, 1]\<rparr>"]
  by (auto simp: demo_known)

text \<open>
  C17: The bounded evaluation returns either exactly the summary of the full evaluation or a
  lower bound whose penalised cost reaches the incumbent limit or exceeds the minimum limit
  and is at most the penalised cost of the full evaluation, so cutting never loses a better
  route; the scan may be skipped when the caller certifies finite rates truthfully.
\<close>

theorem evaluate_bounded_exact_or_bound:
  assumes "inst_ok I" and "curves_ok I" and "initialized l"
    and "legs_ok I (station_legs l)" and "0 \<le> tail_energy_wh l"
    and "isfinite lambda" and "0 \<le> lambda" and "all_finite \<Longrightarrow> finite_rates I"
  shows "\<exists>s r. evaluate_label I l = Some (Inr s) \<and>
    evaluate_bounded compatible I l lambda incumbent minimum all_finite = Some (Inr r) \<and>
    (r = Summary s \<or> (\<exists>b cb cs. r = Lower_Bound b \<and> lower_bound_cost b I lambda = Inr cb \<and>
       summary_cost s I lambda = Inr cs \<and> cb \<le> cs \<and> (incumbent \<le> cb \<or> minimum < cb)))"
  by (rule evaluate_bounded_ok [OF assms])

theorem evaluate_bounded_exact_or_bound_witness:
  "\<exists>s r. evaluate_label demo_inst (path_label demo_inst 0 [1, 0]) = Some (Inr s) \<and>
    evaluate_bounded True demo_inst (path_label demo_inst 0 [1, 0]) 2 5 5 False = Some (Inr r) \<and>
    (r = Summary s \<or> (\<exists>b cb cs. r = Lower_Bound b \<and> lower_bound_cost b demo_inst 2 = Inr cb \<and>
       summary_cost s demo_inst 2 = Inr cs \<and> cb \<le> cs \<and> (5 \<le> cb \<or> 5 < cb)))"
proof (rule evaluate_bounded_exact_or_bound [OF demo_inst_ok demo_curves_ok])
  have "set [1, 0] \<subseteq> set (ids demo_inst)" by (simp add: demo_known)
  from path_label_ok [OF demo_inst_ok this, of 0]
  show "legs_ok demo_inst (station_legs (path_label demo_inst 0 [1, 0]))"
    "0 \<le> tail_energy_wh (path_label demo_inst 0 [1, 0])" by simp_all
qed (simp_all add: isfinite_numeral_small)

text \<open>
  C31: Evaluating a span of labels without building their concatenation gives what
  appending them and evaluating the result gives, and fails exactly when appending fails,
  with the same exception.
\<close>

theorem evaluate_components_append:
  assumes "initialized a" and "\<forall>c \<in> set cs. initialized c"
  shows "evaluate_components I (map Some (a # cs)) =
    (case append_all a cs of Inl e \<Rightarrow> Some (Inl e) | Inr l \<Rightarrow> evaluate_label I l)"
  by (rule evaluate_components_all [OF assms])

theorem evaluate_components_append_witness:
  "evaluate_components demo_inst (map Some [path_label demo_inst 0 [2], path_label demo_inst 3 [0]]) =
    Some (Inl (Invalid_Argument ''non-contiguous charging sequence labels''))"
proof -
  have "initialized (path_label demo_inst 0 [2])"
    "\<forall>c \<in> set [path_label demo_inst 3 [0]]. initialized c" by simp_all
  from evaluate_components_append [OF this, of demo_inst] show ?thesis
    by (simp add: append_all_def append_noncontiguous) (simp add: path_label_def append_label_def)
qed

text \<open>
  The quotient of adjacent visits of one station always succeeds on labels of known
  stations: what is left is a subsequence of the legs with the same total energy, in which no
  leg can be merged with its predecessor any more, and it is empty only for an empty label.
\<close>

theorem canonical_legs_quotient:
  assumes "inst_ok I" and "curves_ok I" and "legs_ok I ls"
  shows "\<exists>c. canonical_legs I ls = Inr c \<and> legs_ok I c \<and> subseq c ls \<and>
    sum_list (map energy_from_previous_station_wh c) = sum_list (map energy_from_previous_station_wh ls) \<and>
    successively (\<lambda>a b. mergeable_leg I a b = Inr False) c \<and> (c = [] \<longleftrightarrow> ls = [])"
  using canonical_legs_ok [OF assms] unfolding energy_sum_def unmergeable_def by blast

theorem canonical_legs_quotient_witness:
  "\<exists>c. canonical_legs demo_inst (station_legs (path_label demo_inst 0 [2, 2, 0])) = Inr c \<and>
    subseq c (station_legs (path_label demo_inst 0 [2, 2, 0]))"
proof -
  have "set [2, 2, 0] \<subseteq> set (ids demo_inst)" by (simp add: demo_known)
  from canonical_legs_quotient [OF demo_inst_ok demo_curves_ok path_label_ok(1) [OF demo_inst_ok this]]
  show ?thesis by blast
qed

end
