(* ===== verification/Route_Evaluator.thy ===== *)
theory Route_Evaluator
  imports Lru_Cache Nonlinear_Eval
begin

text \<open>
  \<open>RouteEvaluator\<close> (src/evaluator.cpp): the evaluation of a complete route with its
  schedule (\<open>evaluate_uncached\<close>), the check of a prescribed charging schedule
  (\<open>evaluate_schedule\<close>) and the memoising \<open>evaluate\<close>.  The charging loop is the one of
  Charge_Loop, here on the arrays of the whole path, with changes carried to its end.  The
  lemmas show that \<open>evaluate_uncached\<close> returns and that its arrays are a physical schedule,
  that an accepted schedule is one without shortfall, and, through the interpretation of the
  contract of the cache, that memoisation never changes a result.
\<close>

section \<open>Validation\<close>

definition validate_visit :: "inst \<Rightarrow> int set \<Rightarrow> int \<Rightarrow> int set result" where
  "validate_visit I customers n =
     rbind (node_of I n) (\<lambda>current.
       if kind current = Depot then Inl (Invalid_Argument ''the depot is implicit in a Route'')
       else if kind current = Customer \<and> n \<in> customers
       then Inl (Invalid_Argument ''a route repeats a customer'')
       else Inr (if kind current = Customer then insert n customers else customers))"

definition validate_route :: "inst \<Rightarrow> route \<Rightarrow> unit result" where
  "validate_route I r = rbind (rfold (validate_visit I) {} (visits r)) (\<lambda>_. Inr ())"

section \<open>A prescribed schedule\<close>

record schedule_state =
  sched_arrival :: "real list"
  sched_departure :: "real list"
  sched_travel_h :: real
  sched_charging_h :: real
  sched_events :: "charging_event list"

text \<open>The charging branch of the loop, at a station visit.\<close>

definition schedule_charge ::
  "inst \<Rightarrow> int \<Rightarrow> real option \<Rightarrow> nat \<Rightarrow> schedule_state \<Rightarrow> schedule_state result" where
  "schedule_charge I target prescribed position s =
     (case prescribed of None \<Rightarrow> Inl (Undefined ''empty optional'')
      | Some planned \<Rightarrow>
     (let visit_ix = position - 1; capacity = battery_capacity_wh (vehicle_of I);
          a = sched_arrival s ! position
      in if \<not> isfinite planned \<or> planned < a - kEnergyToleranceWh \<or>
            planned > capacity + kEnergyToleranceWh
      then Inl (Invalid_Argument ''invalid station departure energy'')
      else let d = clamp planned a capacity
      in rbind (curve_for_station I target) (\<lambda>curve.
         rbind (charge_duration curve a d) (\<lambda>duration.
         let s1 = s\<lparr>sched_departure := (sched_departure s)[position := d],
                    sched_charging_h := sched_charging_h s + duration\<rparr>
         in Inr (if d > a + kEnergyToleranceWh
                 then s1\<lparr>sched_events := sched_events s1 @
                   [\<lparr>visit_index = visit_ix, event_station_id = target, event_arrival_wh = a,
                     event_departure_wh = d, duration_h = duration\<rparr>]\<rparr>
                 else s1)))))"

definition schedule_step ::
  "inst \<Rightarrow> int list \<Rightarrow> real option list \<Rightarrow> nat \<Rightarrow> schedule_state \<Rightarrow> nat \<Rightarrow> schedule_state result" where
  "schedule_step I path departures cnt s position =
     (let orig = path ! (position - 1); target = path ! position
      in rbind (travel_time_h I orig target) (\<lambda>t.
         rbind (energy_between_wh I orig target) (\<lambda>e.
         let level = sched_departure s ! (position - 1) - e
         in if level < - kEnergyToleranceWh
         then Inl (Invalid_Argument ''charging schedule contains an unreachable leg'')
         else let a = max 0 level;
                  s1 = s\<lparr>sched_travel_h := sched_travel_h s + t,
                         sched_arrival := (sched_arrival s)[position := a],
                         sched_departure := (sched_departure s)[position := a]\<rparr>
         in if position = cnt - 1 then Inr s1
         else rbind (node_of I target) (\<lambda>n.
           if kind n \<noteq> Station then Inr s1
           else schedule_charge I target (departures ! (position - 1)) position s1))))"

definition check_departures :: "inst \<Rightarrow> int list \<Rightarrow> real option list \<Rightarrow> unit result" where
  "check_departures I vs departures =
     rfold (\<lambda>u (v, d). rbind (node_of I v) (\<lambda>n.
       if (kind n = Station) \<noteq> (d \<noteq> None)
       then Inl (Invalid_Argument ''charging schedule positions differ from station visits'')
       else Inr ())) () (zip vs departures)"

definition customer_service :: "inst \<Rightarrow> int list \<Rightarrow> real result" where
  "customer_service I vs = rfold (\<lambda>total v. rbind (node_of I v) (\<lambda>n.
     Inr (if kind n = Customer then total + node_service_time_h n else total))) 0 vs"

definition evaluate_schedule :: "inst \<Rightarrow> route \<Rightarrow> real option list \<Rightarrow> route_evaluation result" where
  "evaluate_schedule I r departures =
     rbind (validate_route I r) (\<lambda>_.
     if length departures \<noteq> length (visits r)
     then Inl (Invalid_Argument ''charging schedule length differs from route'')
     else rbind (check_departures I (visits r) departures) (\<lambda>_.
     rbind (depot_of I) (\<lambda>depot.
     let path = node_id depot # visits r @ [node_id depot]; cnt = length path;
         capacity = battery_capacity_wh (vehicle_of I);
         start = \<lparr>sched_arrival = replicate cnt 0, sched_departure = (replicate cnt 0)[0 := capacity],
                  sched_travel_h = 0, sched_charging_h = 0, sched_events = []\<rparr>
     in rbind (rfold (schedule_step I path departures cnt) start [1..<cnt]) (\<lambda>s.
        rbind (customer_service I (visits r)) (\<lambda>service.
        let raw = sched_travel_h s + sched_charging_h s; duration = raw + service;
            excess = max 0 (duration - max_route_duration_h (vehicle_of I))
        in Inr \<lparr>feasible = (excess \<le> kTimeToleranceH), raw_cost_h = raw,
             total_travel_h = sched_travel_h s, charging_time_h = sched_charging_h s,
             total_service_h = service, route_duration_h = duration,
             energy_shortfall_wh = 0, duration_excess_h = excess, evaluated_route = r,
             arrival_energy_wh = sched_arrival s, departure_energy_wh = sched_departure s,
             charging_events = sched_events s\<rparr>)))))"

section \<open>The full evaluation\<close>

text \<open>The arrays without charging.\<close>

definition drive_leg ::
  "inst \<Rightarrow> int list \<Rightarrow> real list \<times> real list \<times> real \<Rightarrow> nat \<Rightarrow> (real list \<times> real list \<times> real) result" where
  "drive_leg I path s position =
     (case s of (arr, dep, travel_h) \<Rightarrow>
       rbind (travel_time_h I (path ! (position - 1)) (path ! position)) (\<lambda>t.
       rbind (energy_between_wh I (path ! (position - 1)) (path ! position)) (\<lambda>e.
       let a = dep ! (position - 1) - e
       in Inr (arr[position := a], dep[position := a], travel_h + t))))"

definition route_env :: "inst \<Rightarrow> int list \<Rightarrow> charge_env" where
  "route_env I path = \<lparr>env_capacity = battery_capacity_wh (vehicle_of I),
     curve_at = (\<lambda>position. curve_for_station I (path ! position)),
     scan_stations = (\<lambda>_. True), cut_off = (\<lambda>_. Inr None)\<rparr>"

definition station_at :: "inst \<Rightarrow> int list \<Rightarrow> nat \<Rightarrow> bool result" where
  "station_at I path position = rbind (node_of I (path ! position)) (\<lambda>n. Inr (kind n = Station))"

fun charge_route ::
  "inst \<Rightarrow> int list \<Rightarrow> nat \<Rightarrow> nat list \<Rightarrow> nat list \<Rightarrow> eval_state \<Rightarrow> eval_state result option" where
  "charge_route I path cnt [] preceding st = Some (Inr st)"
| "charge_route I path cnt (position # ps) preceding st =
     (case charge_loop (route_env I path) (cnt - 1) position preceding st of
        None \<Rightarrow> None
      | Some (Done st') \<Rightarrow>
          if position + 1 < cnt
          then (case station_at I path position of Inl e \<Rightarrow> Some (Inl e)
                | Inr station \<Rightarrow>
                    charge_route I path cnt ps (if station then preceding @ [position] else preceding) st')
          else charge_route I path cnt ps preceding st'
      | Some (Cut b) \<Rightarrow> Some (Inl (Undefined ''bound of an unbounded evaluation''))
      | Some (Threw e) \<Rightarrow> Some (Inl e))"

definition visit_event ::
  "inst \<Rightarrow> int list \<Rightarrow> eval_state \<Rightarrow> real \<times> charging_event list \<Rightarrow> nat \<Rightarrow> (real \<times> charging_event list) result" where
  "visit_event I path st s position =
     (case s of (charged_h, events) \<Rightarrow>
       rbind (station_at I path position) (\<lambda>station.
       if \<not> station then Inr s
       else let capacity = battery_capacity_wh (vehicle_of I);
                start = clamp (arrival st ! position) 0 capacity;
                finish = clamp (departure st ! position) start capacity
       in rbind (curve_for_station I (path ! position)) (\<lambda>curve.
          rbind (charge_duration curve start finish) (\<lambda>duration.
          Inr (charged_h + duration,
               if finish > start + kEnergyToleranceWh
               then events @ [\<lparr>visit_index = position - 1, event_station_id = path ! position,
                               event_arrival_wh = start, event_departure_wh = finish,
                               duration_h = duration\<rparr>]
               else events)))))"

definition evaluate_kernel :: "inst \<Rightarrow> route \<Rightarrow> route_evaluation result option" where
  "evaluate_kernel I r =
     (case depot_of I of Inl e \<Rightarrow> Some (Inl e) | Inr depot \<Rightarrow>
     (let path = node_id depot # visits r @ [node_id depot]; cnt = length path;
          limit = max_route_duration_h (vehicle_of I);
          capacity = battery_capacity_wh (vehicle_of I)
      in case rbind (rfold (drive_leg I path) (replicate cnt 0, (replicate cnt 0)[0 := capacity], 0) [1..<cnt])
                (\<lambda>d. rbind (customer_service I (visits r)) (\<lambda>service. Inr (d, service))) of
           Inl e \<Rightarrow> Some (Inl e)
         | Inr ((arr, dep, travel_h), service) \<Rightarrow>
             let no_charge = travel_h + service;
                 excess0 = max 0 (no_charge - limit);
                 st = \<lparr>arrival = arr, departure = dep, remaining_shift_h = max 0 (limit - no_charge),
                       shortfall_wh = 0\<rparr>
             in (case charge_route I path cnt [1..<cnt] [] st of
                   None \<Rightarrow> None
                 | Some (Inl e) \<Rightarrow> Some (Inl e)
                 | Some (Inr st') \<Rightarrow>
                     Some (rbind (rfold (visit_event I path st') (0, []) [1..<cnt - 1]) (\<lambda>(charging, events).
                       let raw = travel_h + charging; duration = raw + service;
                           excess = max (max excess0 (duration - limit)) 0
                       in Inr \<lparr>feasible = (shortfall_wh st' \<le> kEnergyToleranceWh \<and> excess \<le> kTimeToleranceH),
                            raw_cost_h = raw, total_travel_h = travel_h, charging_time_h = charging,
                            total_service_h = service, route_duration_h = duration,
                            energy_shortfall_wh = shortfall_wh st', duration_excess_h = excess,
                            evaluated_route = r, arrival_energy_wh = arrival st',
                            departure_energy_wh = departure st', charging_events = events\<rparr>)))))"

section \<open>Adjacent visits of one station\<close>

fun has_run :: "inst \<Rightarrow> int list \<Rightarrow> bool result" where
  "has_run I (a # b # vs) =
     (if b = a then rbind (canonical_same_station_supported I b) (\<lambda>ok.
        if ok then Inr True else has_run I (b # vs))
      else has_run I (b # vs))"
| "has_run I [a] = Inr False"
| "has_run I [] = Inr False"

record run_quotient =
  canonical_visits :: "int list"
  last_raw :: "nat list"
  raw_to_canonical :: "nat list"

definition quotient_step ::
  "inst \<Rightarrow> int list \<Rightarrow> run_quotient \<Rightarrow> nat \<Rightarrow> run_quotient result" where
  "quotient_step I vs q i =
     (let n = vs ! i
      in rbind (if i > 0 \<and> n = vs ! (i - 1) then canonical_same_station_supported I n else Inr False) (\<lambda>same.
         let q1 = (if same then q\<lparr>last_raw := (last_raw q)[length (last_raw q) - 1 := i]\<rparr>
                   else q\<lparr>canonical_visits := canonical_visits q @ [n], last_raw := last_raw q @ [i]\<rparr>)
         in Inr (q1\<lparr>raw_to_canonical := raw_to_canonical q1 @ [length (canonical_visits q1) - 1]\<rparr>)))"

definition quotient :: "inst \<Rightarrow> int list \<Rightarrow> run_quotient result" where
  "quotient I vs = rfold (quotient_step I vs)
     \<lparr>canonical_visits = [], last_raw = [], raw_to_canonical = []\<rparr> [0..<length vs]"

text \<open>The evaluation of the quotient route, lifted to the raw visits.\<close>

definition lift_evaluation :: "route \<Rightarrow> run_quotient \<Rightarrow> route_evaluation \<Rightarrow> route_evaluation" where
  "lift_evaluation r q base =
     (let raw = [0..<length (visits r)]; group = (\<lambda>i. raw_to_canonical q ! i)
      in base\<lparr>evaluated_route := r,
           arrival_energy_wh := hd (arrival_energy_wh base) #
             map (\<lambda>i. arrival_energy_wh base ! (group i + 1)) raw @ [last (arrival_energy_wh base)],
           departure_energy_wh := hd (departure_energy_wh base) #
             map (\<lambda>i. if i = last_raw q ! group i then departure_energy_wh base ! (group i + 1)
                      else arrival_energy_wh base ! (group i + 1)) raw @
             [last (departure_energy_wh base)],
           charging_events := map (\<lambda>e. e\<lparr>visit_index := last_raw q ! visit_index e\<rparr>)
             (charging_events base)\<rparr>)"

partial_function (option) evaluate_uncached :: "inst \<Rightarrow> route \<Rightarrow> route_evaluation result option" where
  "evaluate_uncached I r =
     (case has_run I (visits r) of Inl e \<Rightarrow> Some (Inl e)
      | Inr run \<Rightarrow>
          if run
          then (case quotient I (visits r) of Inl e \<Rightarrow> Some (Inl e)
                | Inr q \<Rightarrow>
                    Option.bind (evaluate_uncached I \<lparr>visits = canonical_visits q\<rparr>) (\<lambda>res.
                      Some (rbind res (\<lambda>base. Inr (lift_evaluation r q base)))))
          else evaluate_kernel I r)"

section \<open>The memoising evaluation\<close>

type_synonym route_cache = "(int list, route_evaluation) lru_cache"

definition evaluate_route ::
  "inst \<Rightarrow> route_cache \<Rightarrow> route \<Rightarrow> (route_evaluation result \<times> route_cache) option" where
  "evaluate_route I cache r =
     (case lru_get (visits r) cache of
        (Some cached, c1) \<Rightarrow> Some (Inr cached, c1)
      | (None, c1) \<Rightarrow>
          (case validate_route I r of Inl e \<Rightarrow> Some (Inl e, c1)
           | Inr _ \<Rightarrow>
               (case evaluate_uncached I r of
                  None \<Rightarrow> None
                | Some (Inl e) \<Rightarrow> Some (Inl e, c1)
                | Some (Inr v) \<Rightarrow> Some (Inr v, lru_put (visits r) v c1))))"

section \<open>The schedule of the kernel\<close>

definition leg_energies :: "inst \<Rightarrow> int list \<Rightarrow> nat \<Rightarrow> real" where
  "leg_energies I path k = leg_energy I (path ! (k - 1)) (path ! k)"

text \<open>A finished schedule on the positions of a path, with the energy written off.\<close>

definition finished :: "real \<Rightarrow> (nat \<Rightarrow> real) \<Rightarrow> nat \<Rightarrow> eval_state \<Rightarrow> bool" where
  "finished cap e cnt st \<longleftrightarrow> length (arrival st) = cnt \<and> length (departure st) = cnt \<and>
     departure st ! 0 = cap \<and>
     (\<forall>k \<in> {1..<cnt}. 0 \<le> deficit e st k \<and> - kEnergyToleranceWh \<le> arrival st ! k \<and>
        arrival st ! k \<le> departure st ! k \<and> departure st ! k \<le> cap) \<and>
     (\<Sum>k = 1..<cnt. deficit e st k) = shortfall_wh st"

lemma finished_nonneg: "finished cap e cnt st \<Longrightarrow> 0 \<le> shortfall_wh st"
  unfolding finished_def by (metis (no_types, lifting) sum_nonneg)

lemma path_nth_known: "set path \<subseteq> set (ids I) \<Longrightarrow> k < length path \<Longrightarrow> path ! k \<in> set (ids I)"
  by (meson nth_mem subsetD)

lemma drive_legs:
  assumes "inst_ok I" and "set path \<subseteq> set (ids I)" and "p \<le> length path" and "1 \<le> p"
  shows "\<exists>arr dep t. rfold (drive_leg I path)
      (replicate (length path) 0, (replicate (length path) 0)[0 := cap], 0) [1..<p] = Inr (arr, dep, t) \<and>
    length arr = length path \<and> length dep = length path \<and> dep ! 0 = cap \<and>
    (\<forall>k \<in> {1..<p}. arr ! k = dep ! (k - 1) - leg_energies I path k \<and> dep ! k = arr ! k) \<and>
    t = (\<Sum>k = 1..<p. leg_travel I (path ! (k - 1)) (path ! k))"
  using assms(3,4)
proof (induction p)
  case (Suc p)
  show ?case
  proof (cases "p = 0")
    case True
    with Suc.prems show ?thesis by (cases path) auto
  next
    case False
    with Suc obtain arr dep t where IH: "rfold (drive_leg I path)
      (replicate (length path) 0, (replicate (length path) 0)[0 := cap], 0) [1..<p] = Inr (arr, dep, t)"
      "length arr = length path" "length dep = length path" "dep ! 0 = cap"
      "\<forall>k \<in> {1..<p}. arr ! k = dep ! (k - 1) - leg_energies I path k \<and> dep ! k = arr ! k"
      "t = (\<Sum>k = 1..<p. leg_travel I (path ! (k - 1)) (path ! k))" by auto
    have known: "path ! (p - 1) \<in> set (ids I)" "path ! p \<in> set (ids I)"
      using path_nth_known [OF assms(2)] Suc.prems by auto
    let ?a = "dep ! (p - 1) - leg_energies I path p"
    have step: "drive_leg I path (arr, dep, t) p =
        Inr (arr[p := ?a], dep[p := ?a], t + leg_travel I (path ! (p - 1)) (path ! p))"
      using travel_time_known [OF assms(1) known] energy_known [OF assms(1) known]
      by (simp add: drive_leg_def leg_energies_def Let_def)
    have upt: "[1..<Suc p] = [1..<p] @ [p]" using False by simp
    have "\<forall>k \<in> {1..<Suc p}. arr[p := ?a] ! k = dep[p := ?a] ! (k - 1) - leg_energies I path k \<and>
        dep[p := ?a] ! k = arr[p := ?a] ! k"
    proof
      fix k assume "k \<in> {1..<Suc p}"
      then show "arr[p := ?a] ! k = dep[p := ?a] ! (k - 1) - leg_energies I path k \<and>
          dep[p := ?a] ! k = arr[p := ?a] ! k"
        using IH(2,3,5) Suc.prems by (cases "k = p") auto
    qed
    moreover have "(\<Sum>k = 1..<Suc p. leg_travel I (path ! (k - 1)) (path ! k)) =
        t + leg_travel I (path ! (p - 1)) (path ! p)"
      using False IH(6) by simp
    ultimately show ?thesis
      unfolding upt rfold_append IH(1) using step IH(2-4) False by simp
  qed
qed simp

lemma schedule_inv_start:
  assumes "length arr = cnt" and "length dep = cnt" and "dep ! 0 = cap" and "2 \<le> cnt"
    and "\<forall>k \<in> {1..<cnt}. arr ! k = dep ! (k - 1) - e k \<and> dep ! k = arr ! k" and "0 \<le> e 1"
  shows "schedule_inv cap e (cnt - 1) 1 []
    \<lparr>arrival = arr, departure = dep, remaining_shift_h = r, shortfall_wh = 0\<rparr>"
proof -
  have zero: "deficit e \<lparr>arrival = arr, departure = dep, remaining_shift_h = r, shortfall_wh = 0\<rparr> k = 0"
    if "k \<in> {1..<cnt}" for k
  proof -
    have "arr ! k = dep ! (k - 1) - e k" using assms(5) that by blast
    then show ?thesis by (simp add: deficit_def)
  qed
  have "{1..cnt - 1} = {1..<cnt}" using assms(4) by auto
  moreover have "arr ! 1 = cap - e 1"
  proof -
    have "1 \<in> {1..<cnt}" using assms(4) by simp
    with assms(5) have "arr ! 1 = dep ! (1 - 1) - e 1" by blast
    with assms(3) show ?thesis by simp
  qed
  moreover have "\<forall>k \<in> {1..<cnt}. dep ! k = arr ! k" using assms(5) by blast
  moreover have "\<forall>k \<in> {1<..cnt - 1}. deficit e
      \<lparr>arrival = arr, departure = dep, remaining_shift_h = r, shortfall_wh = 0\<rparr> k = 0"
    using zero by auto
  moreover have "1 \<le> cnt - 1" using assms(4) by simp
  ultimately show ?thesis
    using assms(1-4,6) zero by (simp add: schedule_inv_def)
qed

lemma schedule_inv_next:
  assumes inv: "schedule_inv cap e last_pos pos preceding st" and "- kEnergyToleranceWh \<le> arrival st ! pos"
    and "pos < last_pos" and "0 \<le> e (Suc pos)"
    and "set preceding' = set preceding \<or> set preceding' = insert pos (set preceding)"
  shows "schedule_inv cap e last_pos (Suc pos) preceding' st"
proof -
  note I = schedule_invD [OF inv]
  have "pos \<notin> set preceding" using I(5) by auto
  then have dpos: "departure st ! pos = arrival st ! pos" using I(11) [of pos] I(2,3) by simp
  have "arrival st ! Suc pos \<le> cap"
    using I(8) [of "Suc pos"] assms(3,4) dpos I(14) by (simp add: deficit_def)
  moreover have "departure st ! k \<le> cap" if "k < Suc pos" for k
    using that I(12) [of k] dpos I(14) by (cases "k = pos") auto
  moreover have "- kEnergyToleranceWh \<le> arrival st ! k" if "1 \<le> k" "k < Suc pos" for k
    using that I(13) [of k] assms(2) by (cases "k = pos") auto
  moreover have "set preceding' \<subseteq> {1..<Suc pos}" using I(2,5) assms(5) by auto
  moreover have "departure st ! k = arrival st ! k" if "1 \<le> k" "k \<le> last_pos" "k \<notin> set preceding'" for k
    using that I(11) [of k] assms(5) by auto
  ultimately show ?thesis
    unfolding schedule_inv_def using I(1,3,4,6-10) assms(3) by auto
qed

lemma schedule_inv_last:
  assumes inv: "schedule_inv cap e last_pos last_pos preceding st"
    and "- kEnergyToleranceWh \<le> arrival st ! last_pos" and "length (arrival st) = Suc last_pos"
  shows "finished cap e (Suc last_pos) st"
proof -
  note I = schedule_invD [OF inv]
  have "last_pos \<notin> set preceding" using I(5) by auto
  then have dpos: "departure st ! last_pos = arrival st ! last_pos" using I(11) [of last_pos] I(2) by simp
  have "departure st ! k \<le> cap \<and> - kEnergyToleranceWh \<le> arrival st ! k" if "1 \<le> k" "k < Suc last_pos" for k
    using that I(12) [of k] I(13) [of k] dpos I(14) assms(2) by (cases "k = last_pos") auto
  then show ?thesis
    using I(1,6,7,9,10) assms(3) by (auto simp: finished_def atLeastLessThanSuc_atLeastAtMost)
qed

lemma route_env_usable:
  assumes "inst_ok I" and "curves_ok I" and "\<forall>k \<in> set ks. known_station I (path ! k)"
  shows "curves_usable (route_env I path) ks"
  unfolding curves_usable_def
proof
  fix k assume "k \<in> set ks"
  with assms(3) have "known_station I (path ! k)" by blast
  then obtain c where "curve_for_station I (path ! k) = Inr c" "curve_ok c" "0 \<le> capacity_wh c"
    "battery_capacity_wh (vehicle_of I) \<le> capacity_wh c + kEnergyToleranceWh"
    by (rule station_curve_known [OF assms(1,2)])
  then show "\<exists>c. curve_at (route_env I path) k = Inr c \<and> curve_ok c \<and> 0 \<le> capacity_wh c \<and>
      env_capacity (route_env I path) \<le> capacity_wh c + kEnergyToleranceWh"
    by (simp add: route_env_def)
qed

lemma station_at_known:
  assumes "inst_ok I" and "path ! k \<in> set (ids I)"
  shows "station_at I path k = Inr (kind (the_node I (path ! k)) = Station)"
  using node_of_known(1) [OF assms] by (simp add: station_at_def)

lemma charge_route_finished:
  assumes I: "inst_ok I" "curves_ok I" and known: "set path \<subseteq> set (ids I)" and cnt: "cnt = length path"
    and start: "schedule_inv (battery_capacity_wh (vehicle_of I)) (leg_energies I path) (cnt - 1) pos preceding st"
    and len: "length (arrival st) = cnt" and prec: "\<forall>k \<in> set preceding. known_station I (path ! k)"
    and sorted: "sorted preceding"
  shows "\<exists>st'. charge_route I path cnt [pos..<cnt] preceding st = Some (Inr st') \<and>
    finished (battery_capacity_wh (vehicle_of I)) (leg_energies I path) cnt st'"
  using start len prec sorted
proof (induction "cnt - pos" arbitrary: pos preceding st)
  case 0
  then have "1 \<le> pos" "pos \<le> cnt - 1" "cnt - pos = 0" by (auto dest: schedule_invD)
  then show ?case by simp
next
  case (Suc d)
  let ?B = "battery_capacity_wh (vehicle_of I)" and ?e = "leg_energies I path" and ?env = "route_env I path"
  note D = schedule_invD [OF Suc.prems(1)]
  have lt: "pos < cnt" using Suc.hyps(2) by simp
  have env: "env_capacity ?env = ?B" "\<And>x. cut_off ?env x = Inr None" by (simp_all add: route_env_def)
  have B: "0 \<le> env_capacity ?env" using vehicle_pos(3) [OF I(1)] env by simp
  have hd: "\<forall>s \<in> set preceding. hd preceding \<le> s"
    using Suc.prems(4) by (cases preceding) auto
  obtain r where r: "charge_loop ?env (cnt - 1) pos preceding st = Some r"
    and post: "loop_post ?env ?e (cnt - 1) pos preceding st r"
    using charge_loop_inv [of ?env ?e "cnt - 1" pos preceding st] Suc.prems(1) env B
      route_env_usable [OF I Suc.prems(3)] hd by auto
  obtain st' where st': "r = Done st'" "schedule_inv ?B ?e (cnt - 1) pos preceding st'"
    "length (arrival st') = cnt" "- kEnergyToleranceWh \<le> arrival st' ! pos"
    using post env Suc.prems(2) by (cases r) (auto simp: loop_post_def)
  have upt: "[pos..<cnt] = pos # [Suc pos..<cnt]" using lt by (simp add: upt_conv_Cons)
  show ?case
  proof (cases "pos + 1 < cnt")
    case False
    then have last: "cnt = Suc pos" using lt by simp
    have "finished ?B ?e (Suc pos) st'"
      by (rule schedule_inv_last [of _ _ _ preceding]) (use st' last in simp_all)
    then show ?thesis
      unfolding upt charge_route.simps r st'(1) using False last by simp
  next
    case True
    have pk: "path ! pos \<in> set (ids I)" by (rule path_nth_known [OF known]) (use lt cnt in simp)
    let ?p = "if kind (the_node I (path ! pos)) = Station then preceding @ [pos] else preceding"
    have "schedule_inv ?B ?e (cnt - 1) (Suc pos) ?p st'"
      by (rule schedule_inv_next [OF st'(2,4)])
        (use True leg_energy_nonneg [OF I(1)] in \<open>auto simp: leg_energies_def\<close>)
    moreover have "\<forall>k \<in> set ?p. known_station I (path ! k)"
      using Suc.prems(3) pk by (auto simp: known_station_def)
    moreover have "sorted ?p" using Suc.prems(4) D(5) by (auto simp: sorted_append)
    moreover have "d = cnt - Suc pos" using Suc.hyps(2) by simp
    ultimately obtain fin where "charge_route I path cnt [Suc pos..<cnt] ?p st' = Some (Inr fin)"
      "finished ?B ?e cnt fin"
      using Suc.hyps(1) [of "Suc pos" ?p st'] st'(3) by blast
    then show ?thesis
      unfolding upt charge_route.simps r st'(1) using True station_at_known [OF I(1) pk] by simp
  qed
qed

lemma customer_service_eq:
  assumes "inst_ok I" and "set vs \<subseteq> set (ids I)"
  shows "customer_service I vs = Inr (path_service I vs)"
proof -
  have "rfold (\<lambda>total v. rbind (node_of I v) (\<lambda>n.
      Inr (if kind n = Customer then total + node_service_time_h n else total))) a vs = Inr (a + path_service I vs)" for a
    using assms(2)
    by (induction vs arbitrary: a) (auto simp: node_of_known(1) [OF assms(1)] path_service_def)
  then show ?thesis by (simp add: customer_service_def)
qed

text \<open>The events are the charging visits of the schedule; their durations add up.\<close>

lemma visit_events_total:
  assumes I: "inst_ok I" "curves_ok I" and known: "set path \<subseteq> set (ids I)" and cnt: "cnt = length path"
    and fin: "finished (battery_capacity_wh (vehicle_of I)) e cnt st" and ps: "set ps \<subseteq> {1..<cnt}"
  shows "\<exists>charging events. rfold (visit_event I path st) (c0, ev0) ps = Inr (charging, ev0 @ events) \<and>
    c0 \<le> charging \<and> (\<forall>ev \<in> set events. \<exists>p \<in> set ps. visit_index ev = p - 1 \<and>
      event_station_id ev = path ! p \<and> known_station I (path ! p) \<and>
      event_arrival_wh ev = max 0 (arrival st ! p) \<and> event_departure_wh ev = max 0 (departure st ! p) \<and>
      0 \<le> duration_h ev)"
  using ps
proof (induction ps arbitrary: c0 ev0)
  case (Cons p ps)
  let ?B = "battery_capacity_wh (vehicle_of I)"
  have p: "1 \<le> p" "p < cnt" using Cons.prems by auto
  have pk: "path ! p \<in> set (ids I)" by (rule path_nth_known [OF known]) (use p cnt in simp)
  have ps: "set ps \<subseteq> {1..<cnt}" using Cons.prems by simp
  note IH = Cons.IH [OF ps]
  show ?case
  proof (cases "kind (the_node I (path ! p)) = Station")
    case False
    then have "visit_event I path st (c0, ev0) p = Inr (c0, ev0)"
      using station_at_known [OF I(1) pk] by (simp add: visit_event_def)
    then show ?thesis using IH [of c0 ev0] by fastforce
  next
    case True
    then have ks: "known_station I (path ! p)" using pk by (simp add: known_station_def)
    let ?a = "max 0 (arrival st ! p)" and ?d = "max 0 (departure st ! p)"
    have le: "arrival st ! p \<le> departure st ! p" "departure st ! p \<le> ?B"
      using fin p by (auto simp: finished_def)
    have B: "0 \<le> ?B" "isfinite ?B" using vehicle_pos(3,5) [OF I(1)] by simp_all
    have clamps: "clamp (arrival st ! p) 0 ?B = ?a" "clamp (departure st ! p) ?a ?B = ?d"
      using le B by (auto simp: clamp_def)
    obtain c where c: "curve_for_station I (path ! p) = Inr c" "curve_ok c" "0 \<le> capacity_wh c"
      "?B \<le> capacity_wh c + kEnergyToleranceWh" by (rule station_curve_known [OF I ks])
    have "isfinite ?d"
      by (rule isfinite_between [OF _ B(2), of 0]) (use le B in \<open>simp_all add: isfinite_numeral_small\<close>)
    moreover have "- kEnergyToleranceWh \<le> ?a" using tolerance_pos(1) by simp
    moreover have "?a \<le> ?d" "?d \<le> capacity_wh c + kEnergyToleranceWh" using le B(1) c(4) by simp_all
    ultimately obtain x where x: "charge_duration c ?a ?d = Inr x" "0 \<le> x"
      using charge_duration_total [OF c(2) _ _ _ _ c(3)] by blast
    define new where "new = (if ?d > ?a + kEnergyToleranceWh
      then [\<lparr>visit_index = p - 1, event_station_id = path ! p, event_arrival_wh = ?a,
             event_departure_wh = ?d, duration_h = x\<rparr>] else [])"
    have step: "visit_event I path st (c0, ev0) p = Inr (c0 + x, ev0 @ new)"
      using station_at_known [OF I(1) pk] True c(1) x(1)
      by (simp add: visit_event_def clamps new_def Let_def)
    obtain charging events where rest: "rfold (visit_event I path st) (c0 + x, ev0 @ new) ps =
        Inr (charging, (ev0 @ new) @ events)" "c0 + x \<le> charging"
      "\<forall>ev \<in> set events. \<exists>p \<in> set ps. visit_index ev = p - 1 \<and>
        event_station_id ev = path ! p \<and> known_station I (path ! p) \<and>
        event_arrival_wh ev = max 0 (arrival st ! p) \<and> event_departure_wh ev = max 0 (departure st ! p) \<and>
        0 \<le> duration_h ev"
      using IH [of "c0 + x" "ev0 @ new"] by auto
    have "\<forall>ev \<in> set new. visit_index ev = p - 1 \<and> event_station_id ev = path ! p \<and>
        known_station I (path ! p) \<and> event_arrival_wh ev = ?a \<and> event_departure_wh ev = ?d \<and>
        0 \<le> duration_h ev"
      using ks x(2) by (simp add: new_def)
    with rest step x(2) show ?thesis by (intro exI [of _ charging] exI [of _ "new @ events"]) auto
  qed
qed simp

section \<open>The specification of a route evaluation\<close>

text \<open>The arrays form a physical schedule of the path with \<open>w k\<close> written off on leg k.\<close>

definition route_schedule ::
  "inst \<Rightarrow> int list \<Rightarrow> real list \<Rightarrow> real list \<Rightarrow> (nat \<Rightarrow> real) \<Rightarrow> bool" where
  "route_schedule I path arr dep w \<longleftrightarrow> length arr = length path \<and> length dep = length path \<and>
     dep ! 0 = battery_capacity_wh (vehicle_of I) \<and>
     (\<forall>k \<in> {1..<length path}. arr ! k = dep ! (k - 1) - leg_energy I (path ! (k - 1)) (path ! k) + w k \<and>
        0 \<le> w k \<and> - kEnergyToleranceWh \<le> arr ! k \<and> arr ! k \<le> dep ! k \<and>
        dep ! k \<le> battery_capacity_wh (vehicle_of I))"

definition route_evaluated :: "inst \<Rightarrow> route \<Rightarrow> route_evaluation \<Rightarrow> bool" where
  "route_evaluated I r ev \<longleftrightarrow> evaluated_route ev = r \<and>
     summary_consistent I (path_travel I (depot_id I) (visits r @ [depot_id I])) (path_service I (visits r)) ev \<and>
     (\<exists>w. route_schedule I (depot_id I # visits r @ [depot_id I]) (arrival_energy_wh ev) (departure_energy_wh ev) w \<and>
        energy_shortfall_wh ev = (\<Sum>k = 1..<length (visits r) + 2. w k)) \<and>
     (\<forall>e \<in> set (charging_events ev). visit_index e < length (visits r) \<and>
        event_station_id e = visits r ! visit_index e \<and> known_station I (event_station_id e))"

lemma path_travel_sum:
  "path_travel I p ns = (\<Sum>k = 1..<length (p # ns). leg_travel I ((p # ns) ! (k - 1)) ((p # ns) ! k))"
proof (induction ns rule: rev_induct)
  case (snoc n ns)
  have "(\<Sum>k = 1..<length (p # ns @ [n]). leg_travel I ((p # ns @ [n]) ! (k - 1)) ((p # ns @ [n]) ! k)) =
      (\<Sum>k = 1..<length (p # ns). leg_travel I ((p # ns @ [n]) ! (k - 1)) ((p # ns @ [n]) ! k)) +
      leg_travel I ((p # ns @ [n]) ! length ns) ((p # ns @ [n]) ! Suc (length ns))"
    by simp
  also have "(\<Sum>k = 1..<length (p # ns). leg_travel I ((p # ns @ [n]) ! (k - 1)) ((p # ns @ [n]) ! k)) =
      (\<Sum>k = 1..<length (p # ns). leg_travel I ((p # ns) ! (k - 1)) ((p # ns) ! k))"
    by (rule sum.cong) (auto simp: nth_append nth_Cons')
  also have "(p # ns @ [n]) ! length ns = last (p # ns)"
    by (cases ns rule: rev_cases) (simp_all add: nth_append nth_Cons')
  also have "(p # ns @ [n]) ! Suc (length ns) = n" by simp
  finally show ?case using snoc by (simp add: path_travel_append del: last.simps)
qed simp

lemma kernel_evaluated:
  assumes I: "inst_ok I" "curves_ok I" and known: "set (visits r) \<subseteq> set (ids I)"
  shows "\<exists>ev. evaluate_kernel I r = Some (Inr ev) \<and> route_evaluated I r ev"
proof -
  let ?d = "depot_id I" and ?B = "battery_capacity_wh (vehicle_of I)"
  let ?path = "?d # visits r @ [?d]"
  let ?cnt = "length ?path"
  have d: "?d \<in> set (ids I)" by (rule known_lookups(1) [OF I(1)])
  have depot: "depot_of I = Inr (the_node I ?d)" "node_id (the_node I ?d) = ?d"
    using node_of_known [OF I(1) d] by (simp_all add: depot_of_def)
  have pk: "set ?path \<subseteq> set (ids I)" using known d by simp
  obtain arr dep t where drive: "rfold (drive_leg I ?path)
      (replicate ?cnt 0, (replicate ?cnt 0)[0 := ?B], 0) [1..<?cnt] = Inr (arr, dep, t)"
    "length arr = ?cnt" "length dep = ?cnt" "dep ! 0 = ?B"
    "\<forall>k \<in> {1..<?cnt}. arr ! k = dep ! (k - 1) - leg_energies I ?path k \<and> dep ! k = arr ! k"
    and t: "t = (\<Sum>k = 1..<?cnt. leg_travel I (?path ! (k - 1)) (?path ! k))"
    using drive_legs [OF I(1) pk, of ?cnt ?B] by auto
  have t': "t = path_travel I ?d (visits r @ [?d])" using t path_travel_sum [of I ?d "visits r @ [?d]"] by simp
  define st where "st = \<lparr>arrival = arr, departure = dep,
    remaining_shift_h = max 0 (max_route_duration_h (vehicle_of I) - (t + path_service I (visits r))),
    shortfall_wh = 0\<rparr>"
  have "2 \<le> ?cnt" by simp
  moreover have "0 \<le> leg_energies I ?path 1" unfolding leg_energies_def by (rule leg_energy_nonneg [OF I(1)])
  ultimately have "schedule_inv ?B (leg_energies I ?path) (?cnt - 1) 1 [] st"
    unfolding st_def using schedule_inv_start [OF drive(2-4) _ drive(5)] by blast
  then obtain st' where st': "charge_route I ?path ?cnt [1..<?cnt] [] st = Some (Inr st')"
    "finished ?B (leg_energies I ?path) ?cnt st'"
    using charge_route_finished [OF I pk refl, of 1 "[]" st] drive(2) by (auto simp: st_def)
  obtain charging events where ev: "rfold (visit_event I ?path st') (0, []) [1..<?cnt - 1] = Inr (charging, events)"
    "0 \<le> charging" "\<forall>ev \<in> set events. \<exists>p. 1 \<le> p \<and> p < ?cnt - 1 \<and> visit_index ev = p - 1 \<and>
      event_station_id ev = ?path ! p \<and> known_station I (?path ! p)"
    using visit_events_total [OF I pk refl st'(2), of "[1..<?cnt - 1]" 0 "[]"] by fastforce
  have events: "visit_index e < length (visits r) \<and> event_station_id e = visits r ! visit_index e \<and>
      known_station I (event_station_id e)" if mem: "e \<in> set events" for e
  proof -
    obtain p where p: "1 \<le> p" "p < ?cnt - 1" "visit_index e = p - 1" "event_station_id e = ?path ! p"
      "known_station I (?path ! p)"
      using bspec [OF ev(3) mem] by (elim exE conjE)
    obtain j where j: "p = Suc j" "j < length (visits r)" 
      using p(1,2) by (cases p) simp_all
    then have "?path ! p = visits r ! j" by (simp add: nth_append)
    with p(3-5) j show ?thesis by (simp only: diff_Suc_1 simp_thms)
  qed
  define ev' where "ev' = (let raw = t + charging; duration = raw + path_service I (visits r);
      limit = max_route_duration_h (vehicle_of I);
      excess = max (max (max 0 (t + path_service I (visits r) - limit)) (duration - limit)) 0
    in \<lparr>feasible = (shortfall_wh st' \<le> kEnergyToleranceWh \<and> excess \<le> kTimeToleranceH),
        raw_cost_h = raw, total_travel_h = t, charging_time_h = charging,
        total_service_h = path_service I (visits r), route_duration_h = duration,
        energy_shortfall_wh = shortfall_wh st', duration_excess_h = excess,
        evaluated_route = r, arrival_energy_wh = arrival st',
        departure_energy_wh = departure st', charging_events = events\<rparr>)"
  have "evaluate_kernel I r = Some (Inr ev')"
    using depot drive(1) customer_service_eq [OF I(1) known] st'(1) ev(1)
    by (simp add: evaluate_kernel_def Let_def ev'_def st_def)
  moreover have "summary_consistent I t (path_service I (visits r)) ev'"
    using ev(2) finished_nonneg [OF st'(2)]
    by (auto simp: summary_consistent_def ev'_def Let_def max_def)
  moreover have "route_schedule I ?path (arrival ev'1) (departure ev'1) (deficit (leg_energies I ?path) st')"
    if "ev'1 = st'" for ev'1
    using st'(2) that unfolding finished_def route_schedule_def deficit_def leg_energies_def by auto
  moreover have "energy_shortfall_wh ev' = (\<Sum>k = 1..<length (visits r) + 2. deficit (leg_energies I ?path) st' k)"
    using st'(2) by (simp add: ev'_def Let_def finished_def)
  moreover have "arrival_energy_wh ev' = arrival st'" "departure_energy_wh ev' = departure st'"
    "charging_events ev' = events" "evaluated_route ev' = r" by (simp_all add: ev'_def Let_def)
  ultimately show ?thesis
    using events t' unfolding route_evaluated_def by metis
qed

section \<open>The quotient of adjacent visits\<close>

definition supported :: "inst \<Rightarrow> int \<Rightarrow> bool" where
  "supported I n \<longleftrightarrow> canonical_same_station_supported I n = Inr True"

lemma supported_Inr:
  assumes "inst_ok I" and "curves_ok I" and "n \<in> set (ids I)"
  shows "canonical_same_station_supported I n = Inr (supported I n)"
    and "supported I n \<Longrightarrow> kind (the_node I n) = Station"
proof -
  have "\<exists>v. canonical_same_station_supported I n = Inr v"
  proof (cases "known_station I n")
    case True
    then show ?thesis by (rule supported_known [OF assms(1,2)])
  next
    case False
    with assms(3) show ?thesis
      using node_of_known(1) [OF assms(1,3)]
      by (auto simp: canonical_same_station_supported_def known_station_def)
  qed
  then show "canonical_same_station_supported I n = Inr (supported I n)"
    by (auto simp: supported_def)
  show "kind (the_node I n) = Station" if "supported I n"
    using that node_of_known(1) [OF assms(1,3)]
    by (auto simp: supported_def canonical_same_station_supported_def split: if_splits)
qed

lemma has_run_snoc:
  assumes "inst_ok I" and "curves_ok I" and "set (vs @ [n]) \<subseteq> set (ids I)"
    and "has_run I vs = Inr False" and "vs \<noteq> [] \<Longrightarrow> last vs = n \<Longrightarrow> \<not> supported I n"
  shows "has_run I (vs @ [n]) = Inr False"
  using assms(3-)
proof (induction vs rule: induct_list012)
  case (2 a)
  then show ?case using supported_Inr(1) [OF assms(1,2), of n] by auto
next
  case (3 a b vs)
  from 3 show ?case
    using supported_Inr(1) [OF assms(1,2), of b] by (auto split: if_splits)
qed simp

lemma has_run_total:
  assumes "inst_ok I" and "curves_ok I" and "set vs \<subseteq> set (ids I)"
  shows "\<exists>b. has_run I vs = Inr b"
  using assms(3)
proof (induction vs rule: induct_list012)
  case (3 a b vs)
  then show ?case using supported_Inr(1) [OF assms(1,2), of b] by auto
qed auto

text \<open>
  What the loop over the raw visits has built after i of them: g maps a raw visit to its
  group, the groups are the canonical visits, and the last raw visit of each group is known.
\<close>

definition quotient_ok :: "inst \<Rightarrow> int list \<Rightarrow> nat \<Rightarrow> run_quotient \<Rightarrow> bool" where
  "quotient_ok I vs i q \<longleftrightarrow> (let g = (\<lambda>j. raw_to_canonical q ! j); c = canonical_visits q; l = last_raw q in
     length (raw_to_canonical q) = i \<and> length l = length c \<and> set c \<subseteq> set vs \<and>
     has_run I c = Inr False \<and>
     (\<forall>d. path_travel I d c = path_travel I d (take i vs)) \<and> path_service I c = path_service I (take i vs) \<and>
     (\<forall>x < length c. l ! x < i \<and> g (l ! x) = x) \<and>
     (\<forall>j < i. g j < length c \<and> c ! g j = vs ! j \<and> j \<le> l ! g j \<and> l ! g j < i) \<and>
     (if i = 0 then c = [] else c \<noteq> [] \<and> g 0 = 0 \<and> Suc (g (i - 1)) = length c \<and> l ! g (i - 1) = i - 1) \<and>
     (\<forall>j. Suc j < i \<longrightarrow> (g (Suc j) = g j \<and> vs ! Suc j = vs ! j \<and> kind (the_node I (vs ! j)) = Station) \<or>
        (g (Suc j) = Suc (g j) \<and> l ! g j = j)))"

lemma quotient_step_ok:
  assumes I: "inst_ok I" "curves_ok I" and known: "set vs \<subseteq> set (ids I)" and i: "i < length vs"
    and q: "quotient_ok I vs i q"
  shows "\<exists>q'. quotient_step I vs q i = Inr q' \<and> quotient_ok I vs (Suc i) q'"
proof -
  define g where "g = (\<lambda>j. raw_to_canonical q ! j)"
  define c where "c = canonical_visits q"
  define l where "l = last_raw q"
  have Q: "length (raw_to_canonical q) = i" "length l = length c" "set c \<subseteq> set vs" "has_run I c = Inr False"
    "\<And>j. j < i \<Longrightarrow> g j < length c \<and> c ! g j = vs ! j \<and> j \<le> l ! g j \<and> l ! g j < i"
    "\<And>j. Suc j < i \<Longrightarrow> (g (Suc j) = g j \<and> vs ! Suc j = vs ! j \<and> kind (the_node I (vs ! j)) = Station) \<or>
        (g (Suc j) = Suc (g j) \<and> l ! g j = j)"
    and Qt: "\<And>d. path_travel I d c = path_travel I d (take i vs)" "path_service I c = path_service I (take i vs)"
    and Ql: "\<And>x. x < length c \<Longrightarrow> l ! x < i \<and> g (l ! x) = x"
    and Q0: "i = 0 \<Longrightarrow> c = []"
    and Q1: "0 < i \<Longrightarrow> c \<noteq> [] \<and> g 0 = 0 \<and> Suc (g (i - 1)) = length c \<and> l ! g (i - 1) = i - 1"
    using q by (auto simp: quotient_ok_def Let_def g_def c_def l_def)
  let ?n = "vs ! i"
  have n: "?n \<in> set (ids I)" using known i by (meson nth_mem subsetD)
  define same where "same \<longleftrightarrow> 0 < i \<and> ?n = vs ! (i - 1) \<and> supported I ?n"
  have test: "(if i > 0 \<and> ?n = vs ! (i - 1) then canonical_same_station_supported I ?n else Inr False) = Inr same"
    unfolding supported_Inr(1) [OF I n] same_def by simp
  have last_c: "last c = vs ! (i - 1)" if "0 < i"
  proof -
    have "c \<noteq> []" "length c - 1 = g (i - 1)" using Q1 [OF that] by auto
    then have "last c = c ! g (i - 1)" using last_conv_nth [of c] by metis
    then show ?thesis using Q(5) [of "i - 1"] that by simp
  qed
  have take: "take (Suc i) vs = take i vs @ [?n]" using i by (simp add: take_Suc_conv_app_nth)
  have last_take: "last (d # take i vs) = last (d # c)" for d
  proof (cases "i = 0")
    case False
    then have ne: "take i vs \<noteq> []" "c \<noteq> []" using i Q1 by auto
    moreover have "last (take i vs) = vs ! (i - 1)"
      using last_conv_nth [OF ne(1)] False i by (simp add: min_def)
    ultimately show ?thesis using last_c False by simp
  qed (use Q0 in simp)
  show ?thesis
  proof (cases same)
    case True
    then have pos: "0 < i" and eq: "?n = vs ! (i - 1)" and sup: "supported I ?n"
      unfolding same_def by blast+
    note Q1 = Q1 [OF pos]
    define q' where "q' = q\<lparr>last_raw := l[length l - 1 := i], raw_to_canonical := raw_to_canonical q @ [length c - 1]\<rparr>"
    have step: "quotient_step I vs q i = Inr q'"
      unfolding quotient_step_def Let_def test using True by (simp add: q'_def c_def l_def)
    have top: "length c - 1 = g (i - 1)" "length l - 1 = g (i - 1)" using Q1 Q(2) by auto
    have g': "raw_to_canonical q' ! j = (if j < i then g j else g (i - 1))" if "j < Suc i" for j
      using that Q(1) top by (auto simp: q'_def g_def nth_append)
    have l': "last_raw q' ! j = (if j = g (i - 1) then i else l ! j)" if "j < length c" for j
      using that top Q(2) by (auto simp: q'_def nth_list_update)
    have gi: "g (i - 1) < length c" using Q(5) [of "i - 1"] pos by simp
    have st: "kind (the_node I ?n) = Station" by (rule supported_Inr(2) [OF I n sup])
    have "quotient_ok I vs (Suc i) q'"
      unfolding quotient_ok_def Let_def
    proof (intro conjI allI impI)
      show "length (raw_to_canonical q') = Suc i" using Q(1) by (simp add: q'_def)
      show "length (last_raw q') = length (canonical_visits q')" using Q(2) by (simp add: q'_def c_def)
      show "set (canonical_visits q') \<subseteq> set vs" "has_run I (canonical_visits q') = Inr False"
        using Q(3,4) by (simp_all add: q'_def c_def)
      have c': "canonical_visits q' = c" by (simp add: q'_def c_def)
      have "path_service I [?n] = 0" using st by (simp add: path_service_def)
      then show "path_service I (canonical_visits q') = path_service I (take (Suc i) vs)"
        using Qt(2) by (simp add: c' take path_service_append)
      have "last (d # take i vs) = ?n" for d
        using last_take [of d] last_c [OF pos] Q1 eq by simp
      then show "path_travel I d (canonical_visits q') = path_travel I d (take (Suc i) vs)" for d
        using Qt(1) [of d] by (simp add: c' take path_travel_append leg_travel_def del: last.simps)
      show "last_raw q' ! x < Suc i" if "x < length (canonical_visits q')" for x
        using that l' [of x] Ql [of x] by (simp add: c' split: if_splits)
      show "raw_to_canonical q' ! (last_raw q' ! x) = x" if "x < length (canonical_visits q')" for x
        using that l' [of x] Ql [of x] g' [of i] g' [of "l ! x"] by (simp add: c' split: if_splits)
      show "if Suc i = 0 then canonical_visits q' = []
        else canonical_visits q' \<noteq> [] \<and> raw_to_canonical q' ! 0 = 0 \<and>
          Suc (raw_to_canonical q' ! (Suc i - 1)) = length (canonical_visits q') \<and>
          last_raw q' ! (raw_to_canonical q' ! (Suc i - 1)) = Suc i - 1"
        using Q1 pos g' [of 0] g' [of i] l' [OF gi] by (simp add: c')
      fix j
      {
        assume j: "j < Suc i"
        show "raw_to_canonical q' ! j < length (canonical_visits q')"
          using g' [OF j] Q(5) [of j] gi by (simp add: c')
        show "canonical_visits q' ! (raw_to_canonical q' ! j) = vs ! j"
          using g' [OF j] Q(5) [of j] Q(5) [of "i - 1"] pos eq j by (auto simp: c' less_Suc_eq)
        show "j \<le> last_raw q' ! (raw_to_canonical q' ! j)"
          using g' [OF j] l' Q(5) [of j] gi j by (auto simp: less_Suc_eq)
        show "last_raw q' ! (raw_to_canonical q' ! j) < Suc i"
          using g' [OF j] l' Q(5) [of j] gi j by (auto simp: less_Suc_eq)
      }
      assume j: "Suc j < Suc i"
      show "raw_to_canonical q' ! Suc j = raw_to_canonical q' ! j \<and> vs ! Suc j = vs ! j \<and>
          kind (the_node I (vs ! j)) = Station \<or>
        raw_to_canonical q' ! Suc j = Suc (raw_to_canonical q' ! j) \<and> last_raw q' ! (raw_to_canonical q' ! j) = j"
      proof (cases "Suc j < i")
        case False
        then have "i = Suc j" using j by simp
        then show ?thesis using g' [of j] g' [of "Suc j"] eq st by simp
      next
        case True
        show ?thesis
          using Q(6) [OF True] g' [of j] g' [of "Suc j"] True
        proof (elim disjE conjE)
          assume a: "g (Suc j) = Suc (g j)" "l ! g j = j"
          have "g (Suc j) < length c" using Q(5) [OF True] by simp
          then have "g j \<noteq> g (i - 1)" using a(1) Q1 by simp
          then show ?thesis using a g' [of j] g' [of "Suc j"] True l' [of "g j"] \<open>g (Suc j) < length c\<close> by simp
        qed simp
      qed
    qed
    with step show ?thesis by blast
  next
    case False
    define q' where "q' = q\<lparr>canonical_visits := c @ [?n], last_raw := l @ [i],
      raw_to_canonical := raw_to_canonical q @ [length c]\<rparr>"
    have step: "quotient_step I vs q i = Inr q'"
      unfolding quotient_step_def Let_def test using False by (simp add: q'_def c_def l_def)
    have g': "raw_to_canonical q' ! j = (if j < i then g j else length c)" if "j < Suc i" for j
      using that Q(1) by (auto simp: q'_def g_def nth_append)
    have c': "canonical_visits q' = c @ [?n]" and l': "last_raw q' = l @ [i]" by (simp_all add: q'_def)
    have li: "(l @ [i]) ! length c = i" using nth_append_length [of l i "[]"] unfolding Q(2) .
    have run: "has_run I (c @ [?n]) = Inr False"
    proof (rule has_run_snoc [OF I _ Q(4)])
      show "set (c @ [?n]) \<subseteq> set (ids I)" using Q(3) known n by auto
      assume "c \<noteq> []" "last c = ?n"
      then show "\<not> supported I ?n" using False Q0 last_c by (cases "i = 0") (auto simp: same_def)
    qed
    have "quotient_ok I vs (Suc i) q'"
      unfolding quotient_ok_def Let_def c' l'
    proof (intro conjI allI impI)
      show "length (raw_to_canonical q') = Suc i" using Q(1) by (simp add: q'_def)
      show "length (l @ [i]) = length (c @ [?n])" using Q(2) by simp
      show "set (c @ [?n]) \<subseteq> set vs" using Q(3) i by auto
      show "has_run I (c @ [?n]) = Inr False" by (rule run)
      show "path_service I (c @ [?n]) = path_service I (take (Suc i) vs)"
        using Qt(2) by (simp add: take path_service_append)
      show "path_travel I d (c @ [?n]) = path_travel I d (take (Suc i) vs)" for d
        using Qt(1) [of d] last_take [of d] by (simp add: take path_travel_append del: last.simps)
      show "(l @ [i]) ! x < Suc i" if "x < length (c @ [?n])" for x
        using that li Ql [of x] Q(2) by (cases "x = length c") (auto simp: nth_append)
      show "raw_to_canonical q' ! ((l @ [i]) ! x) = x" if "x < length (c @ [?n])" for x
        using that li Ql [of x] Q(2) g' [of i] g' [of "l ! x"] by (cases "x = length c") (auto simp: nth_append)
      show "if Suc i = 0 then c @ [?n] = []
        else c @ [?n] \<noteq> [] \<and> raw_to_canonical q' ! 0 = 0 \<and>
          Suc (raw_to_canonical q' ! (Suc i - 1)) = length (c @ [?n]) \<and>
          (l @ [i]) ! (raw_to_canonical q' ! (Suc i - 1)) = Suc i - 1"
        using li Q0 Q1 g' [of 0] g' [of i] by (cases "i = 0") auto
      fix j
      {
        assume j: "j < Suc i"
        show "raw_to_canonical q' ! j < length (c @ [?n])"
          using g' [OF j] Q(5) [of j] by auto
        show "(c @ [?n]) ! (raw_to_canonical q' ! j) = vs ! j"
          using g' [OF j] Q(5) [of j] j by (auto simp: less_Suc_eq nth_append)
        show "j \<le> (l @ [i]) ! (raw_to_canonical q' ! j)"
          using g' [OF j] Q(5) [of j] Q(2) j by (auto simp: less_Suc_eq nth_append)
        show "(l @ [i]) ! (raw_to_canonical q' ! j) < Suc i"
          using g' [OF j] Q(5) [of j] Q(2) j by (auto simp: less_Suc_eq nth_append)
      }
      assume j: "Suc j < Suc i"
      show "raw_to_canonical q' ! Suc j = raw_to_canonical q' ! j \<and> vs ! Suc j = vs ! j \<and>
          kind (the_node I (vs ! j)) = Station \<or>
        raw_to_canonical q' ! Suc j = Suc (raw_to_canonical q' ! j) \<and> (l @ [i]) ! (raw_to_canonical q' ! j) = j"
      proof (cases "Suc j < i")
        case False
        then have ij: "i = Suc j" using j by simp
        have "Suc (g j) = length c" "l ! g j = j" using Q1 ij by simp_all
        then show ?thesis using g' [of j] g' [of "Suc j"] ij Q(2) by (simp add: nth_append)
      next
        case True
        have "g j < length c" using Q(5) [of j] True by simp
        then show ?thesis
          using Q(6) [OF True] g' [of j] g' [of "Suc j"] True Q(2) by (auto simp: nth_append)
      qed
    qed
    with step show ?thesis by blast
  qed
qed

lemma quotient_exists:
  assumes I: "inst_ok I" "curves_ok I" and known: "set vs \<subseteq> set (ids I)"
  shows "\<exists>q. quotient I vs = Inr q \<and> quotient_ok I vs (length vs) q"
proof -
  have "\<exists>q. rfold (quotient_step I vs) \<lparr>canonical_visits = [], last_raw = [], raw_to_canonical = []\<rparr> [0..<i] = Inr q \<and>
      quotient_ok I vs i q" if "i \<le> length vs" for i
    using that
  proof (induction i)
    case 0
    then show ?case by (simp add: quotient_ok_def)
  next
    case (Suc i)
    then obtain q where "rfold (quotient_step I vs) \<lparr>canonical_visits = [], last_raw = [], raw_to_canonical = []\<rparr> [0..<i] = Inr q"
      "quotient_ok I vs i q" by auto
    with quotient_step_ok [OF I known, of i q] Suc.prems show ?case by (auto simp: rfold_append)
  qed
  then show ?thesis by (simp add: quotient_def)
qed

section \<open>Lifting the schedule\<close>

text \<open>The energy written off on the legs of the raw path.\<close>

definition lift_written :: "nat list \<Rightarrow> nat \<Rightarrow> (nat \<Rightarrow> real) \<Rightarrow> nat \<Rightarrow> real" where
  "lift_written g m w k =
     (if k = 1 then w 1
      else if k = Suc (length g) then w (Suc m)
      else if g ! (k - 1) = g ! (k - 2) then 0 else w (Suc (g ! (k - 1))))"

lemma lift_written_sum:
  assumes ne: "g \<noteq> []" and g0: "g ! 0 = 0" and top: "Suc (g ! (length g - 1)) = m"
    and steps: "\<And>j. Suc j < length g \<Longrightarrow> g ! Suc j = g ! j \<or> g ! Suc j = Suc (g ! j)"
  shows "(\<Sum>k = 1..<length g + 2. lift_written g m w k) = (\<Sum>k = 1..<m + 2. w k)"
proof -
  have pre: "(\<Sum>k = 1..<Suc (Suc j). lift_written g m w k) = (\<Sum>k = 1..<Suc (Suc (g ! j)). w k)"
    if "j < length g" for j
    using that
  proof (induction j)
    case 0
    then show ?case by (simp add: g0 lift_written_def)
  next
    case (Suc j)
    have w: "lift_written g m w (Suc (Suc j)) = (if g ! Suc j = g ! j then 0 else w (Suc (g ! Suc j)))"
      using Suc.prems by (simp add: lift_written_def)
    have "(\<Sum>k = 1..<Suc (Suc (Suc j)). lift_written g m w k) =
        (\<Sum>k = 1..<Suc (Suc (g ! j)). w k) + lift_written g m w (Suc (Suc j))"
      using Suc by simp
    also have "\<dots> = (\<Sum>k = 1..<Suc (Suc (g ! Suc j)). w k)"
      using steps [OF Suc.prems] w by auto
    finally show ?case .
  qed
  obtain j where j: "length g = Suc j" using ne by (cases g) auto
  have "(\<Sum>k = 1..<length g + 2. lift_written g m w k) =
      (\<Sum>k = 1..<Suc (Suc j). lift_written g m w k) + lift_written g m w (Suc (Suc j))"
    by (simp add: j)
  also have "(\<Sum>k = 1..<Suc (Suc j). lift_written g m w k) = (\<Sum>k = 1..<Suc m. w k)"
  proof -
    have gj: "Suc (g ! j) = m" using top j by simp
    show ?thesis using pre [of j] j unfolding gj by (simp only: lessI)
  qed
  also have "lift_written g m w (Suc (Suc j)) = w (Suc m)" using j by (simp add: lift_written_def)
  finally show ?thesis by simp
qed

lemma lift_schedule:
  assumes I: "inst_ok I" and q: "quotient_ok I vs (length vs) q" and ne: "vs \<noteq> []"
    and base: "route_schedule I (d # canonical_visits q @ [d]) A D w"
    and arr: "arr = hd A # map (\<lambda>i. A ! (raw_to_canonical q ! i + 1)) [0..<length vs] @ [last A]"
    and dep: "dep = hd D # map (\<lambda>i. if i = last_raw q ! (raw_to_canonical q ! i)
        then D ! (raw_to_canonical q ! i + 1) else A ! (raw_to_canonical q ! i + 1)) [0..<length vs] @ [last D]"
  shows "route_schedule I (d # vs @ [d]) arr dep (lift_written (raw_to_canonical q) (length (canonical_visits q)) w)"
proof -
  let ?n = "length vs" and ?c = "canonical_visits q" and ?l = "last_raw q" and ?B = "battery_capacity_wh (vehicle_of I)"
  let ?m = "length ?c" and ?path = "d # vs @ [d]" and ?bp = "d # ?c @ [d]"
  define g where "g = (\<lambda>j. raw_to_canonical q ! j)"
  have n: "0 < ?n" using ne by simp
  have Q: "length (raw_to_canonical q) = ?n"
    "\<And>j. j < ?n \<Longrightarrow> g j < ?m \<and> ?c ! g j = vs ! j \<and> j \<le> ?l ! g j \<and> ?l ! g j < ?n"
    "\<And>j. Suc j < ?n \<Longrightarrow> (g (Suc j) = g j \<and> vs ! Suc j = vs ! j) \<or> (g (Suc j) = Suc (g j) \<and> ?l ! g j = j)"
    and Q1: "?c \<noteq> [] \<and> g 0 = 0 \<and> Suc (g (?n - 1)) = ?m \<and> ?l ! g (?n - 1) = ?n - 1"
    using q n by (auto simp: quotient_ok_def Let_def g_def)
  let ?w = "lift_written (raw_to_canonical q) ?m w"
  have len: "length A = ?m + 2" "length D = ?m + 2" using base by (simp_all add: route_schedule_def)
  have "A \<noteq> []" "D \<noteq> []" using len by auto
  then have ends: "hd A = A ! 0" "hd D = D ! 0" "last A = A ! Suc ?m" "last D = D ! Suc ?m"
    using len by (simp_all add: hd_conv_nth last_conv_nth)
  have B: "A ! k = D ! (k - 1) - leg_energy I (?bp ! (k - 1)) (?bp ! k) + w k \<and>
      0 \<le> w k \<and> - kEnergyToleranceWh \<le> A ! k \<and> A ! k \<le> D ! k \<and> D ! k \<le> ?B"
    if "1 \<le> k" "k < ?m + 2" for k
  proof -
    have "k \<in> {1..<length ?bp}" using that by simp
    with base show ?thesis unfolding route_schedule_def by blast
  qed
  have D0: "D ! 0 = ?B" using base by (simp add: route_schedule_def)
  have arr0: "arr ! 0 = A ! 0" and dep0: "dep ! 0 = D ! 0" by (simp_all add: arr dep ends)
  have arr_i: "arr ! Suc i = A ! Suc (g i)" and dep_i: "dep ! Suc i = (if i = ?l ! g i then D ! Suc (g i) else A ! Suc (g i))"
    and path_i: "?path ! Suc i = vs ! i" and bp_i: "?bp ! Suc (g i) = vs ! i" if "i < ?n" for i
    using that Q(2) [OF that] by (simp_all add: arr dep nth_append g_def)
  have arr_n: "arr ! Suc ?n = A ! Suc ?m" and dep_n: "dep ! Suc ?n = D ! Suc ?m" and path_n: "?path ! Suc ?n = d"
    and bp_m: "?bp ! Suc ?m = d" by (simp_all add: arr dep ends nth_append)
  have main: "arr ! k = dep ! (k - 1) - leg_energy I (?path ! (k - 1)) (?path ! k) + ?w k \<and>
      0 \<le> ?w k \<and> - kEnergyToleranceWh \<le> arr ! k \<and> arr ! k \<le> dep ! k \<and> dep ! k \<le> ?B"
    if k: "1 \<le> k" "k < ?n + 2" for k
  proof -
    consider "k = 1" | j where "k = Suc (Suc j)" "Suc j < ?n" | "k = Suc ?n" "k \<noteq> 1"
      using k n by (cases k; cases "k - 1") (auto simp: less_Suc_eq)
    then show ?thesis
    proof cases
      case 1
      have "g 0 = 0" using Q1 by simp
      then show ?thesis
        using 1 B [of 1] arr_i [of 0] dep_i [of 0] path_i [of 0] bp_i [of 0] n dep0 Q(2) [of 0]
        by (auto simp: lift_written_def)
    next
      case 2
      have j: "j < ?n" using 2 by simp
      have g: "g (Suc j) < ?m" using Q(2) [of "Suc j"] 2 by simp
      note facts = arr_i [OF 2(2)] dep_i [OF 2(2)] path_i [OF 2(2)] bp_i [OF 2(2)]
        dep_i [OF j] path_i [OF j] bp_i [OF j] B [of "Suc (g (Suc j))"]
      have w: "?w k = (if g (Suc j) = g j then 0 else w (Suc (g (Suc j))))"
        using 2 Q(1) by (simp add: lift_written_def g_def)
      from Q(3) [OF 2(2)] show ?thesis
      proof (elim disjE conjE)
        assume a: "g (Suc j) = g j" "vs ! Suc j = vs ! j"
        have "Suc j \<le> ?l ! g j" using Q(2) [OF 2(2)] a(1) by simp
        then have "dep ! Suc j = A ! Suc (g j)" using facts(5) by simp
        then show ?thesis using 2 a facts w g
          by (auto simp: leg_energy_def)
      next
        assume a: "g (Suc j) = Suc (g j)" "?l ! g j = j"
        then show ?thesis using 2 facts w g by auto
      qed
    next
      case 3
      obtain i where i: "?n = Suc i" using n by (cases ?n) auto
      have gi: "Suc (g i) = ?m" "?l ! g i = i" using Q1 i by simp_all
      have w: "?w k = w (Suc ?m)" using 3 Q(1) n by (simp add: lift_written_def)
      show ?thesis
        using 3 w arr_n dep_n path_n bp_m dep_i [of i] path_i [of i] bp_i [of i] gi i B [of "Suc ?m"] by auto
    qed
  qed
  have "length arr = length ?path" "length dep = length ?path" by (simp_all add: arr dep)
  moreover have "\<forall>k \<in> {1..<length ?path}. arr ! k = dep ! (k - 1) -
      leg_energy I (?path ! (k - 1)) (?path ! k) + ?w k \<and> 0 \<le> ?w k \<and> - kEnergyToleranceWh \<le> arr ! k \<and>
      arr ! k \<le> dep ! k \<and> dep ! k \<le> ?B"
  proof
    fix k assume "k \<in> {1..<length ?path}"
    then have "1 \<le> k" "k < ?n + 2" by simp_all
    then show "arr ! k = dep ! (k - 1) - leg_energy I (?path ! (k - 1)) (?path ! k) + ?w k \<and>
      0 \<le> ?w k \<and> - kEnergyToleranceWh \<le> arr ! k \<and> arr ! k \<le> dep ! k \<and> dep ! k \<le> ?B" by (rule main)
  qed
  moreover have "dep ! 0 = ?B" using dep0 D0 by simp
  ultimately show ?thesis unfolding route_schedule_def by blast
qed

section \<open>The full evaluation is a physical schedule\<close>

lemma lift_evaluated:
  assumes I: "inst_ok I" and q: "quotient_ok I (visits r) (length (visits r)) q" and ne: "visits r \<noteq> []"
    and base: "route_evaluated I \<lparr>visits = canonical_visits q\<rparr> ev"
  shows "route_evaluated I r (lift_evaluation r q ev)"
proof -
  let ?vs = "visits r" and ?c = "canonical_visits q" and ?d = "depot_id I" and ?g = "raw_to_canonical q"
  let ?ev = "lift_evaluation r q ev"
  define A where "A = arrival_energy_wh ev"
  define D where "D = departure_energy_wh ev"
  obtain w where w: "route_schedule I (?d # ?c @ [?d]) A D w"
    "energy_shortfall_wh ev = (\<Sum>k = 1..<length ?c + 2. w k)"
    using base by (auto simp: route_evaluated_def A_def D_def)
  have Q: "length ?g = length ?vs" "?c \<noteq> []" "?g ! 0 = 0" "Suc (?g ! (length ?vs - 1)) = length ?c"
    "path_travel I ?d ?c = path_travel I ?d ?vs" "path_service I ?c = path_service I ?vs"
    and Ql: "\<And>x. x < length ?c \<Longrightarrow> last_raw q ! x < length ?vs \<and> ?g ! (last_raw q ! x) = x"
    and Qg: "\<And>j. j < length ?vs \<Longrightarrow> ?c ! (?g ! j) = ?vs ! j"
    and Qs: "\<And>j. Suc j < length ?vs \<Longrightarrow> ?g ! Suc j = ?g ! j \<or> ?g ! Suc j = Suc (?g ! j)"
    using q ne by (auto simp: quotient_ok_def Let_def)
  have sched: "route_schedule I (?d # ?vs @ [?d]) (arrival_energy_wh ?ev) (departure_energy_wh ?ev)
      (lift_written ?g (length ?c) w)"
    by (rule lift_schedule [OF I q ne w(1)]) (simp_all add: lift_evaluation_def Let_def A_def D_def)
  have "(\<Sum>k = 1..<length ?g + 2. lift_written ?g (length ?c) w k) = (\<Sum>k = 1..<length ?c + 2. w k)"
  proof (rule lift_written_sum)
    show "?g \<noteq> []" using Q(1) ne by auto
  qed (use Q Qs in simp_all)
  moreover have "energy_shortfall_wh ?ev = energy_shortfall_wh ev" by (simp add: lift_evaluation_def Let_def)
  ultimately have short: "energy_shortfall_wh ?ev = (\<Sum>k = 1..<length ?vs + 2. lift_written ?g (length ?c) w k)"
    using w(2) Q(1) by simp
  have last: "last (?d # ?c) = last (?d # ?vs)"
  proof -
    have "last ?c = ?c ! (?g ! (length ?vs - 1))" using Q(2,4) last_conv_nth [OF Q(2)] by (metis diff_Suc_1)
    also have "\<dots> = ?vs ! (length ?vs - 1)" using Qg [of "length ?vs - 1"] ne by simp
    also have "\<dots> = last ?vs" using last_conv_nth [OF ne] by simp
    finally show ?thesis using Q(2) ne by simp
  qed
  have "summary_consistent I (path_travel I ?d (?vs @ [?d])) (path_service I ?vs) ?ev"
    using base Q(5,6) last
    by (simp add: route_evaluated_def summary_consistent_def lift_evaluation_def Let_def path_travel_append
        del: last.simps)
  moreover have "visit_index e < length ?vs \<and> event_station_id e = ?vs ! visit_index e \<and>
      known_station I (event_station_id e)" if e: "e \<in> set (charging_events ?ev)" for e
  proof -
    obtain b where b: "b \<in> set (charging_events ev)" "e = b\<lparr>visit_index := last_raw q ! visit_index b\<rparr>"
      using e by (auto simp: lift_evaluation_def Let_def)
    with base have "visit_index b < length ?c" "event_station_id b = ?c ! visit_index b"
      "known_station I (event_station_id b)" by (auto simp: route_evaluated_def)
    with Ql [of "visit_index b"] Qg [of "last_raw q ! visit_index b"] b(2) show ?thesis by simp
  qed
  moreover have "evaluated_route ?ev = r" by (simp add: lift_evaluation_def Let_def)
  ultimately show ?thesis
    using sched short unfolding route_evaluated_def by blast
qed

lemma uncached_evaluated:
  assumes I: "inst_ok I" "curves_ok I" and known: "set (visits r) \<subseteq> set (ids I)"
  shows "\<exists>ev. evaluate_uncached I r = Some (Inr ev) \<and> route_evaluated I r ev"
proof -
  obtain run where run: "has_run I (visits r) = Inr run" using has_run_total [OF I known] by blast
  show ?thesis
  proof (cases run)
    case False
    with kernel_evaluated [OF I known] run show ?thesis by (simp add: evaluate_uncached.simps [of I r])
  next
    case True
    then have ne: "visits r \<noteq> []" using run by auto
    obtain q where q: "quotient I (visits r) = Inr q" "quotient_ok I (visits r) (length (visits r)) q"
      using quotient_exists [OF I known] by blast
    have c: "has_run I (canonical_visits q) = Inr False" "set (canonical_visits q) \<subseteq> set (ids I)"
      using q(2) known by (auto simp: quotient_ok_def Let_def)
    obtain ev where ev: "evaluate_kernel I \<lparr>visits = canonical_visits q\<rparr> = Some (Inr ev)"
      "route_evaluated I \<lparr>visits = canonical_visits q\<rparr> ev"
      using kernel_evaluated [OF I, of "\<lparr>visits = canonical_visits q\<rparr>"] c(2) by auto
    then have "evaluate_uncached I \<lparr>visits = canonical_visits q\<rparr> = Some (Inr ev)"
      using c(1) by (simp add: evaluate_uncached.simps [of I "\<lparr>visits = canonical_visits q\<rparr>"])
    then have "evaluate_uncached I r = Some (Inr (lift_evaluation r q ev))"
      using run True q(1) by (simp add: evaluate_uncached.simps [of I r])
    with lift_evaluated [OF I(1) q(2) ne ev(2)] show ?thesis by blast
  qed
qed

lemma validate_route_Inr:
  assumes "inst_ok I"
  shows "validate_route I r = Inr u \<longleftrightarrow> (\<forall>v \<in> set (visits r). v \<in> set (ids I) \<and> kind (the_node I v) \<noteq> Depot) \<and>
    distinct (filter (\<lambda>v. kind (the_node I v) = Customer) (visits r))"
proof -
  have step: "validate_visit I s v = (if v \<notin> set (ids I) then Inl (unknown_node v)
      else if kind (the_node I v) = Depot then Inl (Invalid_Argument ''the depot is implicit in a Route'')
      else if kind (the_node I v) = Customer \<and> v \<in> s then Inl (Invalid_Argument ''a route repeats a customer'')
      else Inr (if kind (the_node I v) = Customer then insert v s else s))" for s v
    using node_of_known(1) [OF assms, of v] node_of_unknown [OF assms, of v]
    by (simp add: validate_visit_def)
  have "rfold (validate_visit I) s vs = Inr s' \<longleftrightarrow>
      (\<forall>v \<in> set vs. v \<in> set (ids I) \<and> kind (the_node I v) \<noteq> Depot) \<and>
      distinct (filter (\<lambda>v. kind (the_node I v) = Customer) vs) \<and>
      s \<inter> set (filter (\<lambda>v. kind (the_node I v) = Customer) vs) = {} \<and>
      s' = s \<union> set (filter (\<lambda>v. kind (the_node I v) = Customer) vs)" for s s' vs
    by (induction vs arbitrary: s) (auto simp: step)
  then show ?thesis by (auto simp: validate_route_def rbind_eq_Inr_conv)
qed

section \<open>An accepted schedule\<close>

definition follows_schedule ::
  "inst \<Rightarrow> int list \<Rightarrow> real option list \<Rightarrow> real list \<Rightarrow> real list \<Rightarrow> nat \<Rightarrow> bool" where
  "follows_schedule I path departures arr dep k \<longleftrightarrow>
     (let level = dep ! (k - 1) - leg_energy I (path ! (k - 1)) (path ! k)
      in - kEnergyToleranceWh \<le> level \<and> arr ! k = max 0 level \<and> arr ! k \<le> dep ! k \<and>
         dep ! k \<le> battery_capacity_wh (vehicle_of I) \<and>
         (if k < length path - 1 \<and> kind (the_node I (path ! k)) = Station
          then \<exists>x. departures ! (k - 1) = Some x \<and> \<bar>dep ! k - x\<bar> \<le> kEnergyToleranceWh
          else dep ! k = arr ! k))"

definition schedule_state_ok ::
  "inst \<Rightarrow> int list \<Rightarrow> real option list \<Rightarrow> nat \<Rightarrow> schedule_state \<Rightarrow> bool" where
  "schedule_state_ok I path departures p s \<longleftrightarrow>
     length (sched_arrival s) = length path \<and> length (sched_departure s) = length path \<and>
     sched_departure s ! 0 = battery_capacity_wh (vehicle_of I) \<and> 0 \<le> sched_charging_h s \<and>
     sched_travel_h s = (\<Sum>k = 1..<p. leg_travel I (path ! (k - 1)) (path ! k)) \<and>
     (\<forall>k \<in> {1..<p}. follows_schedule I path departures (sched_arrival s) (sched_departure s) k)"

lemma follows_schedule_cong:
  "k < n \<Longrightarrow> 1 \<le> k \<Longrightarrow> n \<le> length dep \<Longrightarrow> n \<le> length arr \<Longrightarrow>
    follows_schedule I path departures (arr[n := a]) (dep[n := d]) k =
    follows_schedule I path departures arr dep k"
  by (simp add: follows_schedule_def)

lemma charge_duration_nonneg:
  assumes "curve_ok c" and "a \<le> b" and "0 \<le> capacity_wh c" and "charge_duration c a b = Inr d"
  shows "0 \<le> d"
proof -
  have "d = time_scan (clamp b 0 (capacity_wh c)) (points c) - time_scan (clamp a 0 (capacity_wh c)) (points c)"
    using assms(4) by (auto simp: charge_duration_def time_at_energy_def rbind_eq_Inr_conv split: if_splits)
  moreover have "clamp a 0 (capacity_wh c) \<le> clamp b 0 (capacity_wh c)" by (rule clamp_mono [OF assms(3,2)])
  ultimately show ?thesis using curve_time_mono [OF assms(1)] by (simp add: curve_time_def)
qed

lemma schedule_charge_Inr:
  assumes "schedule_charge I t pr k s = Inr s'" and "sched_arrival s ! k \<le> battery_capacity_wh (vehicle_of I)"
  shows "\<exists>x d c duration. pr = Some x \<and> \<bar>d - x\<bar> \<le> kEnergyToleranceWh \<and>
    sched_arrival s ! k \<le> d \<and> d \<le> battery_capacity_wh (vehicle_of I) \<and>
    curve_for_station I t = Inr c \<and> charge_duration c (sched_arrival s ! k) d = Inr duration \<and>
    sched_departure s' = (sched_departure s)[k := d] \<and> sched_arrival s' = sched_arrival s \<and>
    sched_travel_h s' = sched_travel_h s \<and> sched_charging_h s' = sched_charging_h s + duration"
proof -
  let ?B = "battery_capacity_wh (vehicle_of I)" and ?a = "sched_arrival s ! k"
  obtain x where x: "pr = Some x" using assms(1) by (auto simp: schedule_charge_def split: option.splits)
  have ok: "?a - kEnergyToleranceWh \<le> x" "x \<le> ?B + kEnergyToleranceWh"
    using assms(1) x by (auto simp: schedule_charge_def Let_def split: if_splits)
  let ?d = "clamp x ?a ?B"
  have "\<bar>?d - x\<bar> \<le> kEnergyToleranceWh" using ok assms(2) tolerance_pos(1) by (auto simp: clamp_def)
  moreover have "?a \<le> ?d \<and> ?d \<le> ?B" by (rule clamp_bounds [OF assms(2)])
  ultimately show ?thesis
    using assms(1) x by (auto simp: schedule_charge_def Let_def rbind_eq_Inr_conv split: if_splits)
qed

lemma schedule_step_ok:
  assumes I: "inst_ok I" "curves_ok I" and known: "set path \<subseteq> set (ids I)" and p: "1 \<le> p" "p < length path"
    and ok: "schedule_state_ok I path departures p s"
    and step: "schedule_step I path departures (length path) s p = Inr s'"
  shows "schedule_state_ok I path departures (Suc p) s'"
proof -
  let ?o = "path ! (p - 1)" and ?t = "path ! p" and ?B = "battery_capacity_wh (vehicle_of I)"
  have ids: "?o \<in> set (ids I)" "?t \<in> set (ids I)" using path_nth_known [OF known] p by auto
  let ?level = "sched_departure s ! (p - 1) - leg_energy I ?o ?t"
  let ?a = "max 0 ?level"
  define s1 where "s1 = s\<lparr>sched_travel_h := sched_travel_h s + leg_travel I ?o ?t,
    sched_arrival := (sched_arrival s)[p := ?a], sched_departure := (sched_departure s)[p := ?a]\<rparr>"
  have level: "- kEnergyToleranceWh \<le> ?level" and rest: "Inr s' = (if p = length path - 1 then Inr s1
      else if kind (the_node I ?t) \<noteq> Station then Inr s1 else schedule_charge I ?t (departures ! (p - 1)) p s1)"
    using step travel_time_known [OF I(1) ids] energy_known [OF I(1) ids] node_of_known(1) [OF I(1) ids(2)]
    by (auto simp: schedule_step_def Let_def s1_def split: if_splits)
  have len: "length (sched_arrival s) = length path" "length (sched_departure s) = length path"
    using ok by (simp_all add: schedule_state_ok_def)
  have dprev: "sched_departure s ! (p - 1) \<le> ?B"
  proof (cases "p = 1")
    case False
    then have "p - 1 \<in> {1..<p}" using p by simp
    then show ?thesis using ok unfolding schedule_state_ok_def follows_schedule_def Let_def by blast
  qed (use ok in \<open>simp add: schedule_state_ok_def\<close>)
  have aB: "?a \<le> ?B"
    using dprev leg_energy_nonneg [OF I(1), of ?o ?t] vehicle_pos(3) [OF I(1)] by simp
  have travel: "sched_travel_h s1 = (\<Sum>k = 1..<Suc p. leg_travel I (path ! (k - 1)) (path ! k))"
    using ok p(1) by (simp add: s1_def schedule_state_ok_def)
  have old: "follows_schedule I path departures ((sched_arrival s)[p := a]) ((sched_departure s)[p := d]) k"
    if "k \<in> {1..<p}" for k a d
    using ok that follows_schedule_cong [of k p "sched_departure s" "sched_arrival s"] len p
    by (auto simp: schedule_state_ok_def)
  have result: "schedule_state_ok I path departures (Suc p) s2"
    if arr: "sched_arrival s2 = (sched_arrival s)[p := ?a]" and dep: "sched_departure s2 = (sched_departure s)[p := d]"
      and d: "?a \<le> d" "d \<le> ?B" and tr: "sched_travel_h s2 = sched_travel_h s1" and ch: "0 \<le> sched_charging_h s2"
      and new: "if p < length path - 1 \<and> kind (the_node I ?t) = Station
          then \<exists>x. departures ! (p - 1) = Some x \<and> \<bar>d - x\<bar> \<le> kEnergyToleranceWh else d = ?a" for s2 d
  proof -
    have "follows_schedule I path departures (sched_arrival s2) (sched_departure s2) p"
    proof (cases "p < length path - 1 \<and> kind (the_node I ?t) = Station")
      case True
      with new have "\<exists>x. departures ! (p - 1) = Some x \<and> \<bar>d - x\<bar> \<le> kEnergyToleranceWh" by simp
      with True level d p len show ?thesis by (simp add: follows_schedule_def arr dep)
    next
      case False
      with new have "d = ?a" by (simp only: if_False)
      with False level d p len show ?thesis by (auto simp: follows_schedule_def arr dep)
    qed
    then have "\<forall>k \<in> {1..<Suc p}. follows_schedule I path departures (sched_arrival s2) (sched_departure s2) k"
      using old by (auto simp: arr dep less_Suc_eq)
    then show ?thesis
      using len tr travel ch p ok by (auto simp: schedule_state_ok_def arr dep)
  qed
  have s1: "sched_arrival s1 = (sched_arrival s)[p := ?a]" "sched_departure s1 = (sched_departure s)[p := ?a]"
    "0 \<le> sched_charging_h s1" "sched_arrival s1 ! p = ?a"
    using ok p len by (simp_all add: s1_def schedule_state_ok_def)
  show ?thesis
  proof (cases "p < length path - 1 \<and> kind (the_node I ?t) = Station")
    case False
    then have "s' = s1" using rest p by (auto split: if_splits)
    then show ?thesis using result [of s1 ?a] s1 aB False by auto
  next
    case True
    then have "schedule_charge I ?t (departures ! (p - 1)) p s1 = Inr s'" using rest by simp
    from schedule_charge_Inr [OF this] s1(4) aB obtain x d c dur where c:
      "departures ! (p - 1) = Some x" "\<bar>d - x\<bar> \<le> kEnergyToleranceWh" "?a \<le> d" "d \<le> ?B"
      "curve_for_station I ?t = Inr c" "charge_duration c ?a d = Inr dur"
      "sched_departure s' = (sched_departure s1)[p := d]" "sched_arrival s' = sched_arrival s1"
      "sched_travel_h s' = sched_travel_h s1" "sched_charging_h s' = sched_charging_h s1 + dur" by auto
    have "known_station I ?t" using True ids by (simp add: known_station_def)
    then obtain c' where "curve_for_station I ?t = Inr c'" "curve_ok c'" "0 \<le> capacity_wh c'"
      by (rule station_curve_known [OF I])
    then have "0 \<le> dur" using charge_duration_nonneg [OF _ c(3) _ c(6)] c(5) by simp
    then show ?thesis using result [of s' d] c s1 True by auto
  qed
qed

lemma schedule_steps_ok:
  assumes I: "inst_ok I" "curves_ok I" and known: "set path \<subseteq> set (ids I)"
    and "p \<le> length path" and "1 \<le> p" and "schedule_state_ok I path departures 1 s"
    and "rfold (schedule_step I path departures (length path)) s [1..<p] = Inr s'"
  shows "schedule_state_ok I path departures p s'"
  using assms(4-)
proof (induction p arbitrary: s')
  case (Suc p)
  show ?case
  proof (cases "p = 0")
    case False
    then have "[1..<Suc p] = [1..<p] @ [p]" by simp
    with Suc.prems(4) obtain t where
      t: "rfold (schedule_step I path departures (length path)) s [1..<p] = Inr t"
      "schedule_step I path departures (length path) t p = Inr s'"
      by (auto simp: rfold_append rbind_eq_Inr_conv)
    have "schedule_state_ok I path departures p t"
      using Suc.IH [OF _ _ Suc.prems(3) t(1)] Suc.prems(1) False by simp
    then show ?thesis using schedule_step_ok [OF I known _ _ _ t(2)] Suc.prems(1) False by simp
  qed (use Suc.prems in simp)
qed simp

section \<open>Properties\<close>

text \<open>
  \<open>evaluate_uncached\<close> of a route over known nodes always returns; its arrival and
  departure arrays form a physical schedule of the raw path, adjacent visits of one station
  included (full battery at the depot, energy balance up to the written-off energy, arrivals
  above the tolerance, departures below the capacity), the shortfall is the energy written
  off, every charging event names a station visit, and the cost fields are consistent.
\<close>

theorem evaluate_uncached_schedule:
  assumes "inst_ok I" and "curves_ok I" and "set (visits r) \<subseteq> set (ids I)"
  shows "\<exists>ev w. evaluate_uncached I r = Some (Inr ev) \<and> evaluated_route ev = r \<and>
    route_schedule I (depot_id I # visits r @ [depot_id I]) (arrival_energy_wh ev) (departure_energy_wh ev) w \<and>
    energy_shortfall_wh ev = (\<Sum>k = 1..<length (visits r) + 2. w k) \<and>
    summary_consistent I (path_travel I (depot_id I) (visits r @ [depot_id I])) (path_service I (visits r)) ev \<and>
    (\<forall>e \<in> set (charging_events ev). visit_index e < length (visits r) \<and>
       event_station_id e = visits r ! visit_index e \<and> known_station I (event_station_id e))"
  using uncached_evaluated [OF assms] unfolding route_evaluated_def by blast

theorem evaluate_uncached_schedule_witness:
  "\<exists>ev. evaluate_uncached demo_inst \<lparr>visits = [2, 2, 1]\<rparr> = Some (Inr ev) \<and>
    length (arrival_energy_wh ev) = 5"
proof -
  have "set (visits \<lparr>visits = [2, 2, 1]\<rparr>) \<subseteq> set (ids demo_inst)" by (simp add: demo_known)
  from evaluate_uncached_schedule [OF demo_inst_ok demo_curves_ok this] show ?thesis
    by (auto simp: route_schedule_def)
qed

text \<open>The result of an evaluation without cache.\<close>

definition route_result :: "inst \<Rightarrow> int list \<Rightarrow> route_evaluation result" where
  "route_result I vs = (case validate_route I \<lparr>visits = vs\<rparr> of Inl e \<Rightarrow> Inl e
     | Inr _ \<Rightarrow> the (evaluate_uncached I \<lparr>visits = vs\<rparr>))"

text \<open>A hit returns a stored result, a miss evaluates and stores.\<close>

lemma evaluate_route_ok:
  assumes "inst_ok I" and "curves_ok I" and "lru_ok cache"
    and "memo_agrees (map_of (lru_items cache)) (route_result I)"
  shows "\<exists>cache'. evaluate_route I cache r = Some (route_result I (visits r), cache') \<and>
    lru_ok cache' \<and> memo_agrees (map_of (lru_items cache')) (route_result I)"
proof -
  obtain found c1 where get: "lru_get (visits r) cache = (found, c1)" by (cases "lru_get (visits r) cache")
  note keep = lru.get_agrees [OF assms(3,4) get]
  have r: "\<lparr>visits = visits r\<rparr> = r" by simp
  show ?thesis
  proof (cases found)
    case (Some v)
    then have "route_result I (visits r) = Inr v"
      using lru.hit_value [OF assms(3,4)] get by simp
    with Some get keep show ?thesis by (simp add: evaluate_route_def)
  next
    case None
    show ?thesis
    proof (cases "validate_route I r")
      case (Inl e)
      with None get keep show ?thesis by (simp add: evaluate_route_def route_result_def r)
    next
      case (Inr u)
      then have "set (visits r) \<subseteq> set (ids I)" using validate_route_Inr [OF assms(1), of r u] by blast
      then obtain ev where ev: "evaluate_uncached I r = Some (Inr ev)"
        using uncached_evaluated [OF assms(1,2)] by blast
      then have res: "route_result I (visits r) = Inr ev" using Inr by (simp add: route_result_def r)
      from lru.put_agrees [OF conjunct1 [OF keep] conjunct2 [OF keep] res] have
        "lru_ok (lru_put (visits r) ev c1)"
        "memo_agrees (map_of (lru_items (lru_put (visits r) ev c1))) (route_result I)" by blast+
      with None get Inr ev res show ?thesis by (simp add: evaluate_route_def)
    qed
  qed
qed

text \<open>
  C25: Memoisation is transparent: with any cache whose entries are results of earlier
  evaluations, \<open>evaluate\<close> returns exactly what validating and evaluating the route without a
  cache gives, exceptions included, and leaves such a cache; evictions lose no correctness.
\<close>

theorem evaluate_route_transparent:
  assumes "inst_ok I" and "curves_ok I" and "lru_ok cache"
    and "memo_agrees (map_of (lru_items cache)) (route_result I)"
  shows "\<exists>cache'. evaluate_route I cache r = Some (route_result I (visits r), cache') \<and>
    lru_ok cache' \<and> memo_agrees (map_of (lru_items cache')) (route_result I)"
  by (rule evaluate_route_ok [OF assms])

theorem evaluate_route_transparent_witness:
  "\<exists>cache'. evaluate_route demo_inst \<lparr>capacity = 2, order = [], index = [], fresh_node = 0, hits = 0,
      misses = 0, evictions = 0\<rparr> \<lparr>visits = [1]\<rparr> = Some (route_result demo_inst [1], cache')"
proof -
  define c :: route_cache where "c = \<lparr>capacity = 2, order = [], index = [], fresh_node = 0, hits = 0,
      misses = 0, evictions = 0\<rparr>"
  have "lru_ok c" "memo_agrees (map_of (lru_items c)) (route_result demo_inst)"
    by (simp_all add: c_def lru_ok_def lru_items_def memo_agrees_def)
  from evaluate_route_transparent [OF demo_inst_ok demo_curves_ok this, of "\<lparr>visits = [1]\<rparr>"]
  show ?thesis by (auto simp: c_def)
qed

text \<open>
  C22: A charging schedule is accepted only if the route is valid and the schedule is
  physical: every leg is reachable, every station visit leaves with the prescribed energy up
  to the tolerance and at most a full battery, nothing is charged elsewhere; the reported
  shortfall is zero and the cost fields are consistent.
\<close>

theorem evaluate_schedule_sound:
  assumes "inst_ok I" and "curves_ok I" and "evaluate_schedule I r departures = Inr ev"
  shows "validate_route I r = Inr () \<and> length departures = length (visits r) \<and>
    evaluated_route ev = r \<and> energy_shortfall_wh ev = 0 \<and>
    summary_consistent I (path_travel I (depot_id I) (visits r @ [depot_id I])) (path_service I (visits r)) ev \<and>
    departure_energy_wh ev ! 0 = battery_capacity_wh (vehicle_of I) \<and>
    (\<forall>k \<in> {1..<length (visits r) + 2}. follows_schedule I (depot_id I # visits r @ [depot_id I]) departures
       (arrival_energy_wh ev) (departure_energy_wh ev) k)"
proof -
  let ?d = "depot_id I" and ?B = "battery_capacity_wh (vehicle_of I)"
  let ?path = "?d # visits r @ [?d]"
  define s0 where "s0 = \<lparr>sched_arrival = replicate (length ?path) 0,
    sched_departure = (replicate (length ?path) 0)[0 := ?B], sched_travel_h = 0, sched_charging_h = 0,
    sched_events = []\<rparr>"
  have d: "?d \<in> set (ids I)" by (rule known_lookups(1) [OF assms(1)])
  have depot: "depot_of I = Inr (the_node I ?d)" "node_id (the_node I ?d) = ?d"
    using node_of_known [OF assms(1) d] by (simp_all add: depot_of_def)
  have valid: "validate_route I r = Inr ()" and len: "length departures = length (visits r)"
    using assms(3) by (auto simp: evaluate_schedule_def rbind_eq_Inr_conv split: if_splits)
  then have known: "set (visits r) \<subseteq> set (ids I)" using validate_route_Inr [OF assms(1), of r "()"] by blast
  then have pk: "set ?path \<subseteq> set (ids I)" using d by simp
  obtain s where s: "rfold (schedule_step I ?path departures (length ?path)) s0 [1..<length ?path] = Inr s"
    and ev: "ev = (let raw = sched_travel_h s + sched_charging_h s; duration = raw + path_service I (visits r);
        excess = max 0 (duration - max_route_duration_h (vehicle_of I))
      in \<lparr>feasible = (excess \<le> kTimeToleranceH), raw_cost_h = raw, total_travel_h = sched_travel_h s,
          charging_time_h = sched_charging_h s, total_service_h = path_service I (visits r),
          route_duration_h = duration, energy_shortfall_wh = 0, duration_excess_h = excess,
          evaluated_route = r, arrival_energy_wh = sched_arrival s, departure_energy_wh = sched_departure s,
          charging_events = sched_events s\<rparr>)"
    using assms(3) valid len depot customer_service_eq [OF assms(1) known]
    by (auto simp: evaluate_schedule_def rbind_eq_Inr_conv Let_def s0_def)
  have "schedule_state_ok I ?path departures 1 s0" by (simp add: schedule_state_ok_def s0_def)
  then have ok: "schedule_state_ok I ?path departures (length ?path) s"
    using schedule_steps_ok [OF assms(1,2) pk, of "length ?path"] s by simp
  have "sched_travel_h s = path_travel I ?d (visits r @ [?d])"
    using ok path_travel_sum [of I ?d "visits r @ [?d]"] by (simp add: schedule_state_ok_def)
  then have "summary_consistent I (path_travel I ?d (visits r @ [?d])) (path_service I (visits r)) ev"
    using ok tolerance_pos(4) by (simp add: summary_consistent_def ev Let_def schedule_state_ok_def)
  moreover have "length ?path = length (visits r) + 2" by simp
  ultimately show ?thesis
    using ok valid len by (auto simp: schedule_state_ok_def ev Let_def)
qed

theorem evaluate_schedule_sound_witness:
  "\<exists>ev. evaluate_schedule demo_inst \<lparr>visits = [3]\<rparr> [None] = Inr ev \<and> energy_shortfall_wh ev = 0"
proof -
  have "\<exists>ev. evaluate_schedule demo_inst \<lparr>visits = [3]\<rparr> [None] = Inr ev"
    by (simp add: evaluate_schedule_def validate_route_def validate_visit_def check_departures_def
        customer_service_def depot_of_def node_of_def demo_inst_def demo_nodes_def schedule_step_def Let_def
        travel_time_h_def energy_between_wh_def distance_km_def distance_table_def node_distance_def
        demo_vehicle_def kEnergyToleranceWh_def upt_conv_Cons)
  then obtain ev where "evaluate_schedule demo_inst \<lparr>visits = [3]\<rparr> [None] = Inr ev" by blast
  with evaluate_schedule_sound [OF demo_inst_ok demo_curves_ok this] show ?thesis by blast
qed

end
