(* ===== verification/Plan_Factory.thy ===== *)
theory Plan_Factory
  imports Route_Evaluator "HOL-Library.Word"
begin

text \<open>
  \<open>PlanFactory\<close> (src/evaluator.cpp): plans built from customer sequences, from physical
  visits and from inherited charging paths, the normalisation of adjacent station visits,
  the duplicate test with epoch marks on 64-bit counters, and the cache of exact plans.  The
  state of the factory is a record that the operations return updated; the route evaluator's
  cache, which the factory holds by reference, is part of it.

  The lemmas show that the epoch test is the plain test for kind and distinctness at every
  epoch, the wrap-around of the counter included, that every plan built is consistent with
  its route, that the internal \<open>logic_error\<close> branches are unreachable, and that the exact
  cache holds only feasible exact plans.
\<close>

section \<open>State\<close>

record plan_factory =
  evaluator_cache :: route_cache
  exact_cache :: "(int list, plan) lru_cache"
  allow_revisits :: bool
  validation_marks :: "64 word list"
  validation_epoch :: "64 word"

type_synonym gap_map = "((int \<times> int) \<times> int list) list"

section \<open>Duplicate test with epoch marks\<close>

text \<open>The position of a node in the node array: \<open>&node - nodes ().data ()\<close>.\<close>

definition node_ordinal :: "inst \<Rightarrow> int \<Rightarrow> nat" where
  "node_ordinal I i =
     (if nodes_indexed_by_id I \<and> i \<ge> 0 \<and> nat i < length (nodes I) then nat i
      else (case map_of (index_by_id I) i of None \<Rightarrow> 0 | Some k \<Rightarrow> k))"

fun mark_ids ::
  "inst \<Rightarrow> node_kind \<Rightarrow> string \<Rightarrow> 64 word \<Rightarrow> 64 word list \<Rightarrow> int list \<Rightarrow> unit result \<times> 64 word list" where
  "mark_ids I k err ep marks [] = (Inr (), marks)"
| "mark_ids I k err ep marks (i # is) =
     (case node_of I i of Inl e \<Rightarrow> (Inl e, marks)
      | Inr n \<Rightarrow>
          if kind n \<noteq> k then (Inl (Invalid_Argument err), marks)
          else if marks ! node_ordinal I i = ep then (Inl (Invalid_Argument err), marks)
          else mark_ids I k err ep (marks[node_ordinal I i := ep]) is)"

definition validate_node_sequence ::
  "inst \<Rightarrow> plan_factory \<Rightarrow> int list \<Rightarrow> node_kind \<Rightarrow> string \<Rightarrow> unit result \<times> plan_factory" where
  "validate_node_sequence I f is k err =
     (if is = [] then (Inr (), f)
      else let n = length (nodes I);
               marks = take n (validation_marks f @ replicate n 0);
               ep = validation_epoch f + 1;
               (marks1, ep1) = (if ep = 0 then (replicate n 0, ep + 1) else (marks, ep));
               (res, marks2) = mark_ids I k err ep1 marks1 is
           in (res, f\<lparr>validation_marks := marks2, validation_epoch := ep1\<rparr>))"

section \<open>Adjacent station visits\<close>

fun has_adjacent_station_visits :: "inst \<Rightarrow> int list \<Rightarrow> bool result" where
  "has_adjacent_station_visits I (a # b # vs) =
     (if b = a then rbind (node_of I b) (\<lambda>n.
        if kind n = Station then Inr True else has_adjacent_station_visits I (b # vs))
      else has_adjacent_station_visits I (b # vs))"
| "has_adjacent_station_visits I [a] = Inr False"
| "has_adjacent_station_visits I [] = Inr False"

definition keep_visit :: "inst \<Rightarrow> int list \<Rightarrow> int \<Rightarrow> int list result" where
  "keep_visit I kept v =
     (if kept \<noteq> [] \<and> last kept = v
      then rbind (node_of I v) (\<lambda>n.
        if kind n = Station
        then rbind (canonical_same_station_supported I v) (\<lambda>ok.
          if \<not> ok then Inl (Invalid_Argument
            ''adjacent identical stations violate the raw representation policy; unsupported normalization'')
          else Inr kept)
        else Inr (kept @ [v]))
      else Inr (kept @ [v]))"

definition normalize_adjacent_station_visits :: "inst \<Rightarrow> int list \<Rightarrow> (bool \<times> int list) result" where
  "normalize_adjacent_station_visits I vs =
     rbind (rfold (keep_visit I) [] vs) (\<lambda>kept. Inr (length kept \<noteq> length vs, kept))"

section \<open>Assembling a plan\<close>

text \<open>The loop that distributes the normalised visits to the gaps again.\<close>

definition regap_step :: "inst \<Rightarrow> int list \<Rightarrow> int list list \<times> nat \<Rightarrow> int \<Rightarrow> (int list list \<times> nat) result" where
  "regap_step I customers s v =
     (case s of (gs, gap) \<Rightarrow>
       rbind (node_of I v) (\<lambda>n.
       if kind n = Station
       then if gap < length gs then Inr (gs[gap := gs ! gap @ [v]], gap)
            else Inl (Out_Of_Range ''vector::_M_range_check'')
       else if gap \<ge> length customers \<or> customers ! gap \<noteq> v
       then Inl (Logic_Error ''normalized physical plan changed its customer order'')
       else Inr (gs, gap + 1)))"

definition regap :: "inst \<Rightarrow> int list \<Rightarrow> int list \<Rightarrow> int list list result" where
  "regap I customers vs =
     rbind (rfold (regap_step I customers) (direct_gaps (length customers), 0) vs) (\<lambda>(gs, gap).
       if gap \<noteq> length customers then Inl (Logic_Error ''normalized physical plan lost a customer'')
       else Inr gs)"

definition assemble_plan ::
  "inst \<Rightarrow> plan_factory \<Rightarrow> int list \<Rightarrow> int list list \<Rightarrow> route \<Rightarrow> (plan result \<times> plan_factory) option" where
  "assemble_plan I f customers gs r =
     (case normalize_adjacent_station_visits I (visits r) of Inl e \<Rightarrow> Some (Inl e, f)
      | Inr (changed, vs) \<Rightarrow>
          (case (if changed then regap I customers vs else Inr gs) of Inl e \<Rightarrow> Some (Inl e, f)
           | Inr gs1 \<Rightarrow>
               (case evaluate_route I (evaluator_cache f) \<lparr>visits = vs\<rparr> of None \<Rightarrow> None
                | Some (res, cache) \<Rightarrow>
                    Some (rbind res (\<lambda>ev. Inr \<lparr>plan_customers = customers, gaps = gs1,
                            plan_route = \<lparr>visits = vs\<rparr>, evaluation = Some ev, exact_charging = False\<rparr>),
                          f\<lparr>evaluator_cache := cache\<rparr>))))"

definition check_station :: "inst \<Rightarrow> unit \<Rightarrow> int \<Rightarrow> unit result" where
  "check_station I u s = rbind (node_of I s) (\<lambda>n.
     if kind n \<noteq> Station then Inl (Invalid_Argument ''a gap must contain only stations'') else Inr ())"

fun check_gaps :: "inst \<Rightarrow> plan_factory \<Rightarrow> int list list \<Rightarrow> unit result \<times> plan_factory" where
  "check_gaps I f [] = (Inr (), f)"
| "check_gaps I f (g # gs) =
     (if allow_revisits f
      then (case rfold (check_station I) () g of Inl e \<Rightarrow> (Inl e, f) | Inr _ \<Rightarrow> check_gaps I f gs)
      else (case validate_node_sequence I f g Station ''a gap must be a simple station path'' of
              (Inl e, f1) \<Rightarrow> (Inl e, f1) | (Inr _, f1) \<Rightarrow> check_gaps I f1 gs))"

definition make_plan ::
  "inst \<Rightarrow> plan_factory \<Rightarrow> int list \<Rightarrow> int list list \<Rightarrow> (plan result \<times> plan_factory) option" where
  "make_plan I f customers gs =
     (if customers = [] then Some (Inl (Invalid_Argument ''a route plan needs at least one customer''), f)
      else case validate_node_sequence I f customers Customer ''invalid customer sequence'' of
        (Inl e, f1) \<Rightarrow> Some (Inl e, f1)
      | (Inr _, f1) \<Rightarrow>
          (case check_gaps I f1 gs of (Inl e, f2) \<Rightarrow> Some (Inl e, f2)
           | (Inr _, f2) \<Rightarrow>
               (case expand_route customers gs of Inl e \<Rightarrow> Some (Inl e, f2)
                | Inr r \<Rightarrow> assemble_plan I f2 customers gs r)))"

definition split_visit :: "inst \<Rightarrow> int list \<times> int list list \<Rightarrow> int \<Rightarrow> (int list \<times> int list list) result" where
  "split_visit I s v =
     (case s of (customers, gs) \<Rightarrow>
       rbind (node_of I v) (\<lambda>n. case kind n of
           Customer \<Rightarrow> Inr (customers @ [v], gs @ [[]])
         | Station \<Rightarrow> Inr (customers, gs[length gs - 1 := last gs @ [v]])
         | Depot \<Rightarrow> Inl (Invalid_Argument ''the depot is implicit in a route plan'')))"

definition plan_visits :: "inst \<Rightarrow> plan_factory \<Rightarrow> int list \<Rightarrow> (plan result \<times> plan_factory) option" where
  "plan_visits I f vs =
     (case rfold (split_visit I) ([], [[]]) vs of Inl e \<Rightarrow> Some (Inl e, f)
      | Inr (customers, gs) \<Rightarrow>
          if customers = [] then Some (Inl (Invalid_Argument ''a route plan needs at least one customer''), f)
          else (case validate_node_sequence I f customers Customer ''invalid customer sequence'' of
                  (Inl e, f1) \<Rightarrow> Some (Inl e, f1)
                | (Inr _, f1) \<Rightarrow> assemble_plan I f1 customers gs \<lparr>visits = vs\<rparr>))"

section \<open>Inherited gaps\<close>

text \<open>\<open>try_emplace\<close> keeps the entry that is already there.\<close>

definition try_emplace :: "'k \<Rightarrow> 'v \<Rightarrow> ('k \<times> 'v) list \<Rightarrow> ('k \<times> 'v) list" where
  "try_emplace k v m = (case map_of m k of None \<Rightarrow> AList.update k v m | Some _ \<Rightarrow> m)"

definition add_plan_gaps :: "int \<Rightarrow> gap_map \<Rightarrow> plan \<Rightarrow> gap_map" where
  "add_plan_gaps depot m p =
     (let anchors = depot # plan_customers p @ [depot]
      in foldl (\<lambda>m gap. try_emplace (anchors ! gap, anchors ! (gap + 1)) (gaps p ! gap) m) m
           [0..<length (gaps p)])"

definition gap_map_of :: "inst \<Rightarrow> solution \<Rightarrow> gap_map result" where
  "gap_map_of I s = rbind (depot_of I) (\<lambda>d. Inr (foldl (add_plan_gaps (node_id d)) [] (plans s)))"

definition inherit_gap :: "int \<Rightarrow> int list \<Rightarrow> gap_map \<Rightarrow> int list list \<times> int \<Rightarrow> nat \<Rightarrow> int list list \<times> int" where
  "inherit_gap depot customers m s gap =
     (case s of (gs, orig) \<Rightarrow>
       let targ = (if gap < length customers then customers ! gap else depot)
       in (case map_of m (orig, targ) of Some path \<Rightarrow> gs[gap := path] | None \<Rightarrow> gs, targ))"

definition inherited_gaps :: "int \<Rightarrow> int list \<Rightarrow> gap_map \<Rightarrow> int list list" where
  "inherited_gaps depot customers m =
     fst (foldl (inherit_gap depot customers m) (direct_gaps (length customers), depot)
            [0..<length customers + 1])"

definition plan_sequence_with ::
  "inst \<Rightarrow> plan_factory \<Rightarrow> int list \<Rightarrow> gap_map \<Rightarrow> (plan result \<times> plan_factory) option" where
  "plan_sequence_with I f customers m =
     (case depot_of I of Inl e \<Rightarrow> Some (Inl e, f)
      | Inr d \<Rightarrow> make_plan I f customers (inherited_gaps (node_id d) customers m))"

definition plan_sequence ::
  "inst \<Rightarrow> plan_factory \<Rightarrow> int list \<Rightarrow> solution option \<Rightarrow> (plan result \<times> plan_factory) option" where
  "plan_sequence I f customers reference =
     (case reference of
        Some s \<Rightarrow> (case gap_map_of I s of Inl e \<Rightarrow> Some (Inl e, f)
                   | Inr m \<Rightarrow> plan_sequence_with I f customers m)
      | None \<Rightarrow> make_plan I f customers (direct_gaps (length customers)))"

section \<open>The cache of exact plans\<close>

definition exact_plan :: "plan_factory \<Rightarrow> int list \<Rightarrow> plan option \<times> plan_factory" where
  "exact_plan f customers =
     (case lru_get customers (exact_cache f) of (p, c) \<Rightarrow> (p, f\<lparr>exact_cache := c\<rparr>))"

definition publish_exact :: "inst \<Rightarrow> plan_factory \<Rightarrow> plan \<Rightarrow> unit result \<times> plan_factory" where
  "publish_exact I f p =
     (if \<not> exact_charging p \<or> (case evaluation p of None \<Rightarrow> True | Some ev \<Rightarrow> \<not> feasible ev)
      then (Inl (Invalid_Argument ''exact cache only accepts feasible exact plans''), f)
      else (case has_adjacent_station_visits I (visits (plan_route p)) of
              Inl e \<Rightarrow> (Inl e, f)
            | Inr True \<Rightarrow> (Inr (), f)
            | Inr False \<Rightarrow>
                (Inr (), f\<lparr>exact_cache := lru_put (plan_customers p) p (exact_cache f)\<rparr>)))"

section \<open>The epoch test is the plain test\<close>

lemma node_ordinal_known:
  assumes "inst_ok I" and "i \<in> set (ids I)"
  shows "node_ordinal I i < length (nodes I)" and "node_id (nodes I ! node_ordinal I i) = i"
proof -
  obtain k where k: "k < length (nodes I)" "i = node_id (nodes I ! k)" by (rule ids_nth [OF assms(2)])
  have look: "map_of (index_by_id I) i = Some k"
    using k inst_okD(2,3) [OF assms(1)] map_of_zip_upt [of "map node_id (nodes I)" i k] by simp
  have "node_ordinal I i = k"
  proof (cases "nodes_indexed_by_id I")
    case True
    then have "i = int k" using k inst_okD(4) [OF assms(1)] by (simp add: dense_ids_def)
    with True k(1) show ?thesis by (simp add: node_ordinal_def)
  qed (simp add: node_ordinal_def look)
  with k show "node_ordinal I i < length (nodes I)" "node_id (nodes I ! node_ordinal I i) = i" by simp_all
qed

lemma node_ordinal_inj:
  "inst_ok I \<Longrightarrow> i \<in> set (ids I) \<Longrightarrow> j \<in> set (ids I) \<Longrightarrow> node_ordinal I i = node_ordinal I j \<Longrightarrow> i = j"
  using node_ordinal_known(2) by metis

text \<open>The identifiers that a sequence of one kind may have.\<close>

definition simple_of_kind :: "inst \<Rightarrow> node_kind \<Rightarrow> int list \<Rightarrow> bool" where
  "simple_of_kind I k is \<longleftrightarrow> (\<forall>i \<in> set is. i \<in> set (ids I) \<and> kind (the_node I i) = k) \<and> distinct is"

lemma mark_ids_correct:
  assumes "inst_ok I" and "length marks = length (nodes I)" and "\<forall>m \<in> set marks. m \<le> ep"
    and "\<forall>i \<in> set (ids I). marks ! node_ordinal I i = ep \<longleftrightarrow> i \<in> seen"
  shows "(fst (mark_ids I k err ep marks is) = Inr () \<longleftrightarrow> simple_of_kind I k is \<and> seen \<inter> set is = {}) \<and>
    length (snd (mark_ids I k err ep marks is)) = length (nodes I) \<and>
    (\<forall>m \<in> set (snd (mark_ids I k err ep marks is)). m \<le> ep)"
  using assms(2-)
proof (induction "is" arbitrary: marks seen)
  case (Cons i "is")
  show ?case
  proof (cases "i \<in> set (ids I)")
    case False
    with Cons.prems show ?thesis
      using node_of_unknown [OF assms(1)] by (simp add: simple_of_kind_def)
  next
    case known: True
    note node = node_of_known(1) [OF assms(1) known]
    show ?thesis
    proof (cases "kind (the_node I i) = k \<and> i \<notin> seen")
      case False
      with Cons.prems known node show ?thesis by (auto simp: simple_of_kind_def)
    next
      case True
      let ?marks = "marks[node_ordinal I i := ep]"
      note ord = node_ordinal_known(1) [OF assms(1) known]
      have step: "mark_ids I k err ep marks (i # is) = mark_ids I k err ep ?marks is"
        using True Cons.prems known node by simp
      have "\<forall>m \<in> set ?marks. m \<le> ep"
        using Cons.prems(2) set_update_subset_insert [of marks "node_ordinal I i" ep] by auto
      moreover have "\<forall>j \<in> set (ids I). ?marks ! node_ordinal I j = ep \<longleftrightarrow> j \<in> insert i seen"
      proof
        fix j assume j: "j \<in> set (ids I)"
        show "?marks ! node_ordinal I j = ep \<longleftrightarrow> j \<in> insert i seen"
        proof (cases "j = i")
          case True
          with ord Cons.prems(1) show ?thesis by simp
        next
          case False
          then have "node_ordinal I i \<noteq> node_ordinal I j"
            using node_ordinal_inj [OF assms(1) j known] by metis
          then have "?marks ! node_ordinal I j = marks ! node_ordinal I j" by simp
          with False bspec [OF Cons.prems(3) j] show ?thesis by simp
        qed
      qed
      ultimately have "(fst (mark_ids I k err ep ?marks is) = Inr () \<longleftrightarrow> simple_of_kind I k is \<and> insert i seen \<inter> set is = {}) \<and>
        length (snd (mark_ids I k err ep ?marks is)) = length (nodes I) \<and>
        (\<forall>m \<in> set (snd (mark_ids I k err ep ?marks is)). m \<le> ep)"
        using Cons.IH [of ?marks "insert i seen"] Cons.prems(1) by simp
      then show ?thesis unfolding step using True known by (auto simp: simple_of_kind_def)
    qed
  qed
qed (auto simp: simple_of_kind_def)

text \<open>No mark is ahead of the epoch.\<close>

definition marks_ok :: "plan_factory \<Rightarrow> bool" where
  "marks_ok f \<longleftrightarrow> (\<forall>m \<in> set (validation_marks f). m \<le> validation_epoch f)"

lemma validate_node_sequence_spec:
  assumes "inst_ok I" and "marks_ok f"
  shows "(fst (validate_node_sequence I f is k err) = Inr () \<longleftrightarrow> simple_of_kind I k is) \<and>
    marks_ok (snd (validate_node_sequence I f is k err)) \<and>
    evaluator_cache (snd (validate_node_sequence I f is k err)) = evaluator_cache f \<and>
    exact_cache (snd (validate_node_sequence I f is k err)) = exact_cache f \<and>
    allow_revisits (snd (validate_node_sequence I f is k err)) = allow_revisits f"
proof (cases "is = []")
  case True
  with assms(2) show ?thesis by (simp add: validate_node_sequence_def simple_of_kind_def)
next
  case False
  let ?n = "length (nodes I)" and ?ep = "validation_epoch f + 1"
  define marks where "marks = (if ?ep = 0 then replicate ?n 0 else take ?n (validation_marks f @ replicate ?n 0))"
  define ep where "ep = (if ?ep = 0 then ?ep + 1 else ?ep)"
  have len: "length marks = ?n" by (auto simp: marks_def min_def)
  have less: "\<forall>m \<in> set marks. m < ep"
  proof
    fix m assume m: "m \<in> set marks"
    show "m < ep"
    proof (cases "?ep = 0")
      case True
      then have "m = 0" "ep = 1" using m by (simp_all add: marks_def ep_def)
      then show ?thesis by simp
    next
      case False
      then have ne: "validation_epoch f \<noteq> - 1" by auto
      have "m \<in> set (take ?n (validation_marks f @ replicate ?n 0))"
        using m False unfolding marks_def by (simp only: if_False)
      then have "m \<in> set (validation_marks f @ replicate ?n 0)" by (rule in_set_takeD)
      then have "m \<le> validation_epoch f" using assms(2) by (auto simp: marks_ok_def)
      then have "\<not> ep \<le> m" using False ne by (simp add: ep_def inc_less_eq_iff)
      then show ?thesis by simp
    qed
  qed
  have "validate_node_sequence I f is k err =
      (let r = mark_ids I k err ep marks is in (fst r, f\<lparr>validation_marks := snd r, validation_epoch := ep\<rparr>))"
    using False by (simp add: validate_node_sequence_def Let_def marks_def ep_def case_prod_unfold)
  moreover have "\<forall>i \<in> set (ids I). marks ! node_ordinal I i = ep \<longleftrightarrow> i \<in> {}"
    using less len node_ordinal_known(1) [OF assms(1)] by (auto dest!: nth_mem)
  moreover have "\<forall>m \<in> set marks. m \<le> ep" using less by (auto intro: less_imp_le)
  ultimately show ?thesis
    using mark_ids_correct [OF assms(1) len, of ep "{}" k err "is"]
    by (simp add: Let_def marks_ok_def)
qed

section \<open>Distributing visits to gaps\<close>

lemma interleave_add_station:
  "length gs = length cs \<Longrightarrow> interleave (gs @ [g @ [s]]) cs = interleave (gs @ [g]) cs @ [s]"
  by (induction gs cs rule: list_induct2) auto

lemma interleave_add_customer:
  "length gs = length cs + 1 \<Longrightarrow> interleave (gs @ [[]]) (cs @ [c]) = interleave gs cs @ [c]"
proof (induction gs cs rule: interleave.induct)
  case (2 g gs)
  then show ?case by simp
qed auto

definition is_customer :: "inst \<Rightarrow> int \<Rightarrow> bool" where
  "is_customer I v \<longleftrightarrow> kind (the_node I v) = Customer"

lemma is_customer_fun: "is_customer I = (\<lambda>v. kind (the_node I v) = Customer)"
  by (simp add: is_customer_def fun_eq_iff)

definition physical_visits :: "inst \<Rightarrow> int list \<Rightarrow> bool" where
  "physical_visits I vs \<longleftrightarrow> (\<forall>v \<in> set vs. v \<in> set (ids I) \<and> kind (the_node I v) \<noteq> Depot)"

lemma split_visits:
  assumes "inst_ok I" and "physical_visits I vs"
  shows "\<exists>gs. rfold (split_visit I) ([], [[]]) vs = Inr (filter (is_customer I) vs, gs) \<and>
    length gs = length (filter (is_customer I) vs) + 1 \<and> interleave gs (filter (is_customer I) vs) = vs"
  using assms(2)
proof (induction vs rule: rev_induct)
  case (snoc v vs)
  let ?cs = "filter (is_customer I) vs"
  obtain gs where gs: "rfold (split_visit I) ([], [[]]) vs = Inr (?cs, gs)" "length gs = length ?cs + 1"
    "interleave gs ?cs = vs" using snoc by (auto simp: physical_visits_def)
  have v: "v \<in> set (ids I)" "kind (the_node I v) \<noteq> Depot" using snoc.prems by (simp_all add: physical_visits_def)
  have ne: "gs \<noteq> []" using gs(2) by auto
  show ?case
  proof (cases "kind (the_node I v) = Customer")
    case True
    then have "split_visit I (?cs, gs) v = Inr (?cs @ [v], gs @ [[]])"
      using node_of_known(1) [OF assms(1) v(1)] by (simp add: split_visit_def)
    moreover have "is_customer I v" using True by (simp add: is_customer_def)
    ultimately show ?thesis
      using gs interleave_add_customer [OF gs(2), of v] by (simp add: rfold_append)
  next
    case False
    then have st: "kind (the_node I v) = Station" using v(2) by (cases "kind (the_node I v)") auto
    have "gs[length gs - 1 := last gs @ [v]] = butlast gs @ [last gs @ [v]]"
      using ne by (metis append_butlast_last_id length_butlast list_update_length)
    then have step: "split_visit I (?cs, gs) v = Inr (?cs, butlast gs @ [last gs @ [v]])"
      using node_of_known(1) [OF assms(1) v(1)] st by (simp add: split_visit_def)
    have "interleave (butlast gs @ [last gs @ [v]]) ?cs = interleave (butlast gs @ [last gs]) ?cs @ [v]"
      by (rule interleave_add_station) (use gs(2) in simp)
    moreover have "\<not> is_customer I v" using False by (simp add: is_customer_def)
    ultimately show ?thesis using step gs ne by (simp add: rfold_append)
  qed
qed simp

lemma regap_correct:
  assumes "inst_ok I" and "physical_visits I vs" and cs: "filter (is_customer I) vs = cs"
  shows "\<exists>gs. regap I cs vs = Inr gs \<and> length gs = length cs + 1 \<and> interleave gs cs = vs"
proof -
  have "\<exists>gs. rfold (regap_step I cs) (direct_gaps (length cs), 0) xs = Inr (gs, length (filter (is_customer I) xs)) \<and>
      length gs = length cs + 1 \<and>
      interleave (take (length (filter (is_customer I) xs) + 1) gs) (take (length (filter (is_customer I) xs)) cs) = xs \<and>
      (\<forall>j. length (filter (is_customer I) xs) < j \<and> j \<le> length cs \<longrightarrow> gs ! j = [])"
    if "vs = xs @ ys" for xs ys
    using that
  proof (induction xs arbitrary: ys rule: rev_induct)
    case Nil
    show ?case by (simp add: direct_gaps_def del: replicate.simps) (simp add: take_Suc direct_gaps_def nth_Cons')
  next
    case (snoc v xs)
    let ?k = "length (filter (is_customer I) xs)"
    obtain gs where gs: "rfold (regap_step I cs) (direct_gaps (length cs), 0) xs = Inr (gs, ?k)"
      "length gs = length cs + 1" "interleave (take (?k + 1) gs) (take ?k cs) = xs"
      "\<forall>j. ?k < j \<and> j \<le> length cs \<longrightarrow> gs ! j = []"
      using snoc.IH [of "v # ys"] snoc.prems by auto
    have all: "filter (is_customer I) xs @ filter (is_customer I) [v] @ filter (is_customer I) ys = cs"
      using cs snoc.prems by auto
    then have k: "?k \<le> length cs" by auto
    have v: "v \<in> set (ids I)" "kind (the_node I v) \<noteq> Depot"
      using assms(2) snoc.prems by (simp_all add: physical_visits_def)
    note node = node_of_known(1) [OF assms(1) v(1)]
    show ?case
    proof (cases "kind (the_node I v) = Customer")
      case True
      then have c: "is_customer I v" by (simp add: is_customer_def)
      then have kv: "?k < length cs" "cs ! ?k = v"
        using all by (auto simp: nth_append simp flip: all)
      have step: "regap_step I cs (gs, ?k) v = Inr (gs, ?k + 1)"
        using node True kv by (simp add: regap_step_def)
      have gap: "gs ! (?k + 1) = []" using gs(4) kv(1) by simp
      have "take (?k + 1 + 1) gs = take (?k + 1) gs @ [[]]"
        using gap gs(2) kv(1) by (simp add: take_Suc_conv_app_nth)
      moreover have "take (?k + 1) cs = take ?k cs @ [v]"
        using kv by (simp add: take_Suc_conv_app_nth)
      moreover have "interleave (take (?k + 1) gs @ [[]]) (take ?k cs @ [v]) = xs @ [v]"
        using interleave_add_customer [of "take (?k + 1) gs" "take ?k cs" v] gs(2,3) k by simp
      ultimately show ?thesis
        using gs step c by (simp add: rfold_append)
    next
      case False
      then have st: "kind (the_node I v) = Station" using v(2) by (cases "kind (the_node I v)") auto
      have c: "\<not> is_customer I v" using False by (simp add: is_customer_def)
      let ?gs = "gs[?k := gs ! ?k @ [v]]"
      have step: "regap_step I cs (gs, ?k) v = Inr (?gs, ?k)"
        using node st gs(2) k by (simp add: regap_step_def)
      have "take (?k + 1) ?gs = take ?k gs @ [gs ! ?k @ [v]]"
        using gs(2) k by (simp add: take_Suc_conv_app_nth)
      moreover have "take (?k + 1) gs = take ?k gs @ [gs ! ?k]"
        using gs(2) k by (simp add: take_Suc_conv_app_nth)
      moreover have "interleave (take ?k gs @ [gs ! ?k @ [v]]) (take ?k cs) =
          interleave (take ?k gs @ [gs ! ?k]) (take ?k cs) @ [v]"
        by (rule interleave_add_station) (use gs(2) k in simp)
      ultimately have "interleave (take (?k + 1) ?gs) (take ?k cs) = xs @ [v]" using gs(3) by simp
      then show ?thesis using gs step c by (simp add: rfold_append)
    qed
  qed
  from this [of vs "[]"] obtain gs where "rfold (regap_step I cs) (direct_gaps (length cs), 0) vs = Inr (gs, length cs)"
    "length gs = length cs + 1" "interleave (take (length cs + 1) gs) (take (length cs) cs) = vs" using cs by auto
  then show ?thesis by (simp add: regap_def)
qed

section \<open>Normalisation\<close>

lemma has_adjacent_snoc:
  assumes "inst_ok I" and "set (vs @ [v]) \<subseteq> set (ids I)" and "has_adjacent_station_visits I vs = Inr False"
    and "vs \<noteq> [] \<Longrightarrow> last vs = v \<Longrightarrow> kind (the_node I v) \<noteq> Station"
  shows "has_adjacent_station_visits I (vs @ [v]) = Inr False"
  using assms(2-)
proof (induction vs rule: induct_list012)
  case (2 a)
  then show ?case using node_of_known(1) [OF assms(1), of v] by auto
next
  case (3 a b vs)
  from 3 show ?case using node_of_known(1) [OF assms(1), of b] by (auto split: if_splits)
qed simp

lemma keep_visits:
  assumes I: "inst_ok I" "curves_ok I" and "set vs \<subseteq> set (ids I)" and "set kept0 \<subseteq> set (ids I)"
    and "has_adjacent_station_visits I kept0 = Inr False"
  shows "case rfold (keep_visit I) kept0 vs of
      Inl e \<Rightarrow> (\<exists>m. e = Invalid_Argument m) \<and> (\<exists>v \<in> set vs. kind (the_node I v) = Station \<and> \<not> supported I v)
    | Inr kept \<Rightarrow> filter (\<lambda>v. kind (the_node I v) \<noteq> Station) kept =
          filter (\<lambda>v. kind (the_node I v) \<noteq> Station) (kept0 @ vs) \<and> set kept \<subseteq> set (kept0 @ vs) \<and>
        has_adjacent_station_visits I kept = Inr False \<and> length kept \<le> length (kept0 @ vs) \<and>
        (length kept = length (kept0 @ vs) \<longrightarrow> kept = kept0 @ vs)"
  using assms(3-)
proof (induction vs arbitrary: kept0)
  case (Cons v vs)
  have v: "v \<in> set (ids I)" using Cons.prems by simp
  note node = node_of_known(1) [OF I(1) v] supported_Inr(1) [OF I v]
  let ?run = "kept0 \<noteq> [] \<and> last kept0 = v \<and> kind (the_node I v) = Station"
  show ?case
  proof (cases ?run)
    case run: True
    show ?thesis
    proof (cases "supported I v")
      case True
      then have step: "keep_visit I kept0 v = Inr kept0" using node run by (simp add: keep_visit_def)
      show ?thesis
        using Cons.IH [of kept0] Cons.prems step run by (auto split: sum.splits)
    next
      case False
      then show ?thesis using node run by (simp add: keep_visit_def)
    qed
  next
    case False
    then have step: "keep_visit I kept0 v = Inr (kept0 @ [v])" using node by (auto simp: keep_visit_def)
    have "has_adjacent_station_visits I (kept0 @ [v]) = Inr False"
      by (rule has_adjacent_snoc [OF I(1)]) (use Cons.prems False in auto)
    then show ?thesis
      using Cons.IH [of "kept0 @ [v]"] Cons.prems step by (auto split: sum.splits)
  qed
qed auto

lemma normalize_spec:
  assumes "inst_ok I" and "curves_ok I" and "set vs \<subseteq> set (ids I)"
  shows "case normalize_adjacent_station_visits I vs of
      Inl e \<Rightarrow> (\<exists>m. e = Invalid_Argument m) \<and> (\<exists>v \<in> set vs. kind (the_node I v) = Station \<and> \<not> supported I v)
    | Inr (changed, kept) \<Rightarrow> filter (\<lambda>v. kind (the_node I v) \<noteq> Station) kept =
          filter (\<lambda>v. kind (the_node I v) \<noteq> Station) vs \<and> set kept \<subseteq> set vs \<and>
        has_adjacent_station_visits I kept = Inr False \<and> (\<not> changed \<longrightarrow> kept = vs)"
  using keep_visits [OF assms, of "[]"]
  by (cases "rfold (keep_visit I) [] vs") (simp_all add: normalize_adjacent_station_visits_def)

section \<open>The invariant of the factory\<close>

definition exact_entry :: "inst \<Rightarrow> int list \<Rightarrow> plan \<Rightarrow> bool" where
  "exact_entry I k p \<longleftrightarrow> k = plan_customers p \<and> exact_charging p \<and>
     (\<exists>ev. evaluation p = Some ev \<and> feasible ev) \<and>
     has_adjacent_station_visits I (visits (plan_route p)) = Inr False"

definition factory_ok :: "inst \<Rightarrow> plan_factory \<Rightarrow> bool" where
  "factory_ok I f \<longleftrightarrow> marks_ok f \<and> lru_ok (evaluator_cache f) \<and>
     memo_agrees (map_of (lru_items (evaluator_cache f))) (route_result I) \<and>
     lru_ok (exact_cache f) \<and>
     (\<forall>k p. map_of (lru_items (exact_cache f)) k = Some p \<longrightarrow> exact_entry I k p)"

definition plan_built :: "inst \<Rightarrow> int list \<Rightarrow> plan \<Rightarrow> bool" where
  "plan_built I customers p \<longleftrightarrow> plan_customers p = customers \<and>
     expand_route customers (gaps p) = Inr (plan_route p) \<and>
     (\<exists>ev. evaluation p = Some ev \<and> route_result I (visits (plan_route p)) = Inr ev) \<and>
     has_adjacent_station_visits I (visits (plan_route p)) = Inr False \<and> \<not> exact_charging p"

definition all_supported :: "inst \<Rightarrow> int list \<Rightarrow> bool" where
  "all_supported I vs \<longleftrightarrow> (\<forall>v \<in> set vs. kind (the_node I v) = Station \<longrightarrow> supported I v)"

lemma validate_sequence_ok:
  "inst_ok I \<Longrightarrow> factory_ok I f \<Longrightarrow> validate_node_sequence I f is k err = (res, f') \<Longrightarrow>
    factory_ok I f' \<and> allow_revisits f' = allow_revisits f \<and> (res = Inr () \<longleftrightarrow> simple_of_kind I k is)"
  using validate_node_sequence_spec [of I f "is" k err] by (auto simp: factory_ok_def)

lemma mark_ids_error:
  "fst (mark_ids I k err ep marks is) = Inl e \<Longrightarrow>
    (\<exists>m. e = Invalid_Argument m) \<or> (\<exists>i. e = unknown_node i)"
  by (induction I k err ep marks "is" rule: mark_ids.induct)
    (auto simp: node_of_def split: sum.splits if_splits option.splits)

lemma validate_sequence_error:
  assumes "validate_node_sequence I f is k err = (Inl e, f')"
  shows "(\<exists>m. e = Invalid_Argument m) \<or> (\<exists>i. e = unknown_node i)"
proof -
  obtain ep marks where "fst (mark_ids I k err ep marks is) = Inl e"
    using assms by (auto simp: validate_node_sequence_def Let_def split: if_splits prod.splits)
      (metis fst_conv)+
  then show ?thesis by (rule mark_ids_error)
qed

lemma check_gaps_ok:
  "inst_ok I \<Longrightarrow> factory_ok I f \<Longrightarrow> check_gaps I f gs = (res, f') \<Longrightarrow>
    factory_ok I f' \<and> allow_revisits f' = allow_revisits f \<and>
    (res = Inr () \<longleftrightarrow> (\<forall>g \<in> set gs. if allow_revisits f then \<forall>s \<in> set g. known_station I s
                         else simple_of_kind I Station g))"
proof (induction gs arbitrary: f)
  case (Cons g gs)
  have stations: "rfold (check_station I) () xs = Inr () \<longleftrightarrow> (\<forall>s \<in> set xs. known_station I s)" for xs
  proof (induction xs)
    case (Cons x xs)
    have "check_station I () x = (if x \<notin> set (ids I) then Inl (unknown_node x)
        else if kind (the_node I x) \<noteq> Station then Inl (Invalid_Argument ''a gap must contain only stations'')
        else Inr ())"
      using node_of_known(1) [of I x] node_of_unknown [of I x] Cons.prems \<open>inst_ok I\<close>
      by (simp add: check_station_def)
    with Cons.IH show ?case by (auto simp: known_station_def)
  qed simp
  show ?case
  proof (cases "allow_revisits f")
    case True
    then show ?thesis
      using Cons stations [of g] by (auto split: sum.splits)
  next
    case False
    obtain r f1 where v: "validate_node_sequence I f g Station ''a gap must be a simple station path'' = (r, f1)"
      by (cases "validate_node_sequence I f g Station ''a gap must be a simple station path''")
    note ok = validate_sequence_ok [OF Cons.prems(1,2) v]
    show ?thesis
    proof (cases r)
      case (Inl e)
      with v ok False Cons.prems(3) show ?thesis by auto
    next
      case (Inr u)
      with v ok False Cons.IH [of f1] Cons.prems show ?thesis by auto
    qed
  qed
qed simp

lemma assemble_plan_ok:
  assumes I: "inst_ok I" "curves_ok I" and f: "factory_ok I f" and vs: "physical_visits I vs"
    and cs: "filter (is_customer I) vs = customers" "distinct customers"
    and gs: "length gs = length customers + 1" "interleave gs customers = vs"
  shows "\<exists>res f'. assemble_plan I f customers gs \<lparr>visits = vs\<rparr> = Some (res, f') \<and> factory_ok I f' \<and>
    (case res of Inr p \<Rightarrow> plan_built I customers p
     | Inl e \<Rightarrow> (\<exists>m. e = Invalid_Argument m) \<and> \<not> all_supported I vs)"
proof -
  have known: "set vs \<subseteq> set (ids I)" using vs by (auto simp: physical_visits_def)
  show ?thesis
  proof (cases "normalize_adjacent_station_visits I vs")
    case (Inl e)
    with normalize_spec [OF I known] f show ?thesis
      by (auto simp: assemble_plan_def all_supported_def)
  next
    case (Inr r)
    then obtain changed kept where n: "normalize_adjacent_station_visits I vs = Inr (changed, kept)" by (cases r) auto
    with normalize_spec [OF I known] have k:
      "filter (\<lambda>v. kind (the_node I v) \<noteq> Station) kept = filter (\<lambda>v. kind (the_node I v) \<noteq> Station) vs"
      "set kept \<subseteq> set vs" "has_adjacent_station_visits I kept = Inr False" "\<not> changed \<longrightarrow> kept = vs" by auto
    have pk: "physical_visits I kept" using vs k(2) by (auto simp: physical_visits_def)
    have same: "filter (is_customer I) xs = filter (\<lambda>v. kind (the_node I v) \<noteq> Station) xs" if "physical_visits I xs" for xs
      using that by (intro filter_cong) (auto simp: physical_visits_def is_customer_def, metis node_kind.exhaust)
    have ck: "filter (is_customer I) kept = customers" using same [OF pk] same [OF vs] k(1) cs(1) by simp
    obtain gs1 where gs1: "(if changed then regap I customers kept else Inr gs) = Inr gs1"
      "length gs1 = length customers + 1" "interleave gs1 customers = kept"
      using regap_correct [OF I(1) pk ck] k(4) gs by (cases changed) auto
    have "validate_route I \<lparr>visits = kept\<rparr> = Inr ()"
      using pk ck cs(2)
      by (simp add: validate_route_Inr [OF I(1)] physical_visits_def flip: is_customer_fun)
    moreover obtain ev where ev: "evaluate_uncached I \<lparr>visits = kept\<rparr> = Some (Inr ev)"
      using uncached_evaluated [OF I, of "\<lparr>visits = kept\<rparr>"] pk by (auto simp: physical_visits_def)
    ultimately have res: "route_result I kept = Inr ev" by (simp add: route_result_def)
    obtain cache' where c: "evaluate_route I (evaluator_cache f) \<lparr>visits = kept\<rparr> = Some (Inr ev, cache')"
      "lru_ok cache'" "memo_agrees (map_of (lru_items cache')) (route_result I)"
      using evaluate_route_ok [OF I, of "evaluator_cache f" "\<lparr>visits = kept\<rparr>"] f res by (auto simp: factory_ok_def)
    let ?p = "\<lparr>plan_customers = customers, gaps = gs1, plan_route = \<lparr>visits = kept\<rparr>, evaluation = Some ev,
      exact_charging = False\<rparr>"
    have "assemble_plan I f customers gs \<lparr>visits = vs\<rparr> = Some (Inr ?p, f\<lparr>evaluator_cache := cache'\<rparr>)"
      using n gs1(1) c(1) by (simp add: assemble_plan_def)
    moreover have "plan_built I customers ?p"
      using gs1 res k(3) by (simp add: plan_built_def expand_route_eq)
    moreover have "factory_ok I (f\<lparr>evaluator_cache := cache'\<rparr>)"
      using f c by (simp add: factory_ok_def marks_ok_def)
    ultimately show ?thesis by fastforce
  qed
qed

text \<open>The two ways to build a plan.\<close>

definition gaps_valid :: "inst \<Rightarrow> bool \<Rightarrow> int list list \<Rightarrow> bool" where
  "gaps_valid I revisits gs \<longleftrightarrow> (\<forall>g \<in> set gs. if revisits then \<forall>s \<in> set g. known_station I s
     else simple_of_kind I Station g)"

lemma make_plan_ok:
  assumes I: "inst_ok I" "curves_ok I" and f: "factory_ok I f"
  shows "\<exists>res f'. make_plan I f customers gs = Some (res, f') \<and> factory_ok I f' \<and>
    (case res of Inr p \<Rightarrow> plan_built I customers p | Inl e \<Rightarrow>
       \<not> (customers \<noteq> [] \<and> simple_of_kind I Customer customers \<and> gaps_valid I (allow_revisits f) gs \<and>
          length gs = length customers + 1 \<and> all_supported I (concat gs)))"
proof (cases "customers = []")
  case True
  with f show ?thesis by (simp add: make_plan_def)
next
  case ne: False
  obtain r1 f1 where v: "validate_node_sequence I f customers Customer ''invalid customer sequence'' = (r1, f1)"
    by (cases "validate_node_sequence I f customers Customer ''invalid customer sequence''")
  note v_ok = validate_sequence_ok [OF I(1) f v]
  show ?thesis
  proof (cases r1)
    case (Inl e)
    with v v_ok ne show ?thesis by (simp add: make_plan_def)
  next
    case r1: (Inr u)
    obtain r2 f2 where g: "check_gaps I f1 gs = (r2, f2)" by (cases "check_gaps I f1 gs")
    note g_ok = check_gaps_ok [OF I(1) conjunct1 [OF v_ok] g]
    show ?thesis
    proof (cases r2)
      case (Inl e)
      with v v_ok g g_ok r1 ne show ?thesis by (auto simp: make_plan_def gaps_valid_def)
    next
      case r2: (Inr u')
      show ?thesis
      proof (cases "length gs = length customers + 1")
        case False
        with v v_ok g g_ok r1 r2 ne show ?thesis by (simp add: make_plan_def expand_route_eq)
      next
        case len: True
        let ?vs = "interleave gs customers"
        have cs: "simple_of_kind I Customer customers" using v_ok r1 by simp
        have st: "\<forall>g \<in> set gs. \<forall>s \<in> set g. known_station I s"
          using g_ok r2 by (auto simp: simple_of_kind_def known_station_def split: if_splits)
        have set: "set ?vs = set customers \<union> set (concat gs)" using set_interleave [OF len] by simp
        have "physical_visits I ?vs"
          using cs st by (auto simp: physical_visits_def set simple_of_kind_def known_station_def)
        moreover have "filter (is_customer I) ?vs = customers"
          by (rule filter_interleave [OF len])
            (use cs st in \<open>auto simp: is_customer_def simple_of_kind_def known_station_def\<close>)
        moreover have "distinct customers" using cs by (simp add: simple_of_kind_def)
        ultimately obtain res f' where a: "assemble_plan I f2 customers gs \<lparr>visits = ?vs\<rparr> = Some (res, f')"
          "factory_ok I f'" "case res of Inr p \<Rightarrow> plan_built I customers p
             | Inl e \<Rightarrow> (\<exists>m. e = Invalid_Argument m) \<and> \<not> all_supported I ?vs"
          using assemble_plan_ok [OF I conjunct1 [OF g_ok]] len by blast
        have "all_supported I (concat gs) \<Longrightarrow> all_supported I ?vs"
          using cs by (auto simp: all_supported_def set simple_of_kind_def)
        with a v g r1 r2 ne len show ?thesis
          by (auto simp: make_plan_def expand_route_eq split: sum.splits)
      qed
    qed
  qed
qed

lemma split_visits_error:
  assumes "inst_ok I" and "\<not> physical_visits I vs"
  shows "\<exists>e. rfold (split_visit I) s vs = Inl e"
  using assms(2)
proof (induction vs arbitrary: s)
  case (Cons v vs)
  obtain cs gs where s: "s = (cs, gs)" by (cases s)
  show ?case
  proof (cases "v \<in> set (ids I) \<and> kind (the_node I v) \<noteq> Depot")
    case True
    then have "\<not> physical_visits I vs" using Cons.prems by (auto simp: physical_visits_def)
    then have "\<exists>e. rfold (split_visit I) t vs = Inl e" for t by (rule Cons.IH)
    then show ?thesis by (cases "split_visit I s v") auto
  next
    case False
    then show ?thesis
      using node_of_known(1) [OF assms(1), of v] node_of_unknown [OF assms(1), of v]
      by (cases "v \<in> set (ids I)") (auto simp: split_visit_def s)
  qed
qed (simp add: physical_visits_def)

lemma plan_visits_ok:
  assumes I: "inst_ok I" "curves_ok I" and f: "factory_ok I f"
  shows "\<exists>res f'. plan_visits I f vs = Some (res, f') \<and> factory_ok I f' \<and>
    (case res of Inr p \<Rightarrow> physical_visits I vs \<and> plan_built I (filter (is_customer I) vs) p
     | Inl e \<Rightarrow> \<not> (physical_visits I vs \<and> filter (is_customer I) vs \<noteq> [] \<and>
          distinct (filter (is_customer I) vs) \<and> all_supported I vs))"
proof (cases "physical_visits I vs")
  case False
  obtain e where "rfold (split_visit I) ([], [[]]) vs = Inl e" using split_visits_error [OF I(1) False] by blast
  with f False show ?thesis by (simp add: plan_visits_def)
next
  case phys: True
  let ?cs = "filter (is_customer I) vs"
  obtain gs where gs: "rfold (split_visit I) ([], [[]]) vs = Inr (?cs, gs)" "length gs = length ?cs + 1"
    "interleave gs ?cs = vs" using split_visits [OF I(1) phys] by blast
  show ?thesis
  proof (cases "?cs = []")
    case True
    with gs(1) f phys show ?thesis by (simp add: plan_visits_def)
  next
    case ne: False
    obtain r1 f1 where v: "validate_node_sequence I f ?cs Customer ''invalid customer sequence'' = (r1, f1)"
      by (cases "validate_node_sequence I f ?cs Customer ''invalid customer sequence''")
    note v_ok = validate_sequence_ok [OF I(1) f v]
    have simple: "simple_of_kind I Customer ?cs \<longleftrightarrow> distinct ?cs"
      using phys by (auto simp: simple_of_kind_def physical_visits_def is_customer_def)
    show ?thesis
    proof (cases r1)
      case (Inl e)
      with v v_ok ne gs(1) simple f show ?thesis by (auto simp: plan_visits_def)
    next
      case (Inr u)
      then have "distinct ?cs" using v_ok simple by simp
      from assemble_plan_ok [OF I conjunct1 [OF v_ok] phys refl this gs(2,3)] obtain res f' where
        "assemble_plan I f1 ?cs gs \<lparr>visits = vs\<rparr> = Some (res, f')" "factory_ok I f'"
        "case res of Inr p \<Rightarrow> plan_built I ?cs p
           | Inl e \<Rightarrow> (\<exists>m. e = Invalid_Argument m) \<and> \<not> all_supported I vs" by blast
      with v Inr ne gs(1) phys show ?thesis by (auto simp: plan_visits_def split: sum.splits)
    qed
  qed
qed

section \<open>Inherited gaps\<close>

lemma try_emplace_lookup:
  "map_of (try_emplace k v m) x = (case map_of m x of Some w \<Rightarrow> Some w | None \<Rightarrow> if x = k then Some v else None)"
  by (auto simp: try_emplace_def split: option.splits)

text \<open>The directed gaps of a plan, in order, with their anchor pairs.\<close>

definition plan_gap_list :: "int \<Rightarrow> plan \<Rightarrow> ((int \<times> int) \<times> int list) list" where
  "plan_gap_list depot p = zip (zip (depot # plan_customers p) (plan_customers p @ [depot])) (gaps p)"

lemma foldl_try_emplace:
  "map_of (foldl (\<lambda>m (k, v). try_emplace k v m) m kvs) x =
    (case map_of m x of Some w \<Rightarrow> Some w | None \<Rightarrow> map_of kvs x)"
  by (induction kvs arbitrary: m) (auto simp: try_emplace_lookup split: option.splits)

lemma add_plan_gaps_eq:
  assumes "length (gaps p) = length (plan_customers p) + 1"
  shows "add_plan_gaps depot m p = foldl (\<lambda>m (k, v). try_emplace k v m) m (plan_gap_list depot p)"
proof -
  let ?cs = "plan_customers p"
  let ?anchors = "depot # ?cs @ [depot]"
  have "plan_gap_list depot p = map (\<lambda>g. ((?anchors ! g, ?anchors ! (g + 1)), gaps p ! g)) [0..<length (gaps p)]"
  proof (rule nth_equalityI)
    fix i assume "i < length (plan_gap_list depot p)"
    then have i: "i < Suc (length ?cs)" using assms by (simp add: plan_gap_list_def)
    then have "(depot # ?cs) ! i = ?anchors ! i" by (cases i) (simp_all add: nth_append)
    with i assms show "plan_gap_list depot p ! i =
        map (\<lambda>g. ((?anchors ! g, ?anchors ! (g + 1)), gaps p ! g)) [0..<length (gaps p)] ! i"
      by (simp add: plan_gap_list_def del: upt_Suc)
  qed (use assms in \<open>simp add: plan_gap_list_def\<close>)
  then show ?thesis by (simp add: add_plan_gaps_def Let_def foldl_map)
qed

lemma gap_map_lookup:
  assumes "\<forall>p \<in> set ps. length (gaps p) = length (plan_customers p) + 1"
  shows "map_of (foldl (add_plan_gaps depot) m ps) x =
    (case map_of m x of Some w \<Rightarrow> Some w | None \<Rightarrow> map_of (concat (map (plan_gap_list depot) ps)) x)"
  using assms
proof (induction ps arbitrary: m)
  case (Cons p ps)
  then show ?case
    by (simp add: add_plan_gaps_eq foldl_try_emplace map_add_def split: option.splits)
qed (simp split: option.split)

lemma inherited_gaps_nth:
  assumes "g \<le> length customers"
  shows "inherited_gaps depot customers m ! g =
    (case map_of m ((depot # customers) ! g, (customers @ [depot]) ! g) of Some path \<Rightarrow> path | None \<Rightarrow> [])"
    and "length (inherited_gaps depot customers m) = length customers + 1"
proof -
  let ?look = "\<lambda>g. case map_of m ((depot # customers) ! g, (customers @ [depot]) ! g) of Some path \<Rightarrow> path | None \<Rightarrow> []"
  have inv: "length (fst (foldl (inherit_gap depot customers m) (direct_gaps (length customers), depot) [0..<k])) = length customers + 1 \<and>
      (\<forall>g < length customers + 1. fst (foldl (inherit_gap depot customers m) (direct_gaps (length customers), depot) [0..<k]) ! g =
         (if g < k then ?look g else [])) \<and>
      snd (foldl (inherit_gap depot customers m) (direct_gaps (length customers), depot) [0..<k]) =
        (if k \<le> length customers then (depot # customers) ! k else depot)"
    if "k \<le> length customers + 1" for k
    using that
  proof (induction k)
    case 0
    then show ?case by (simp add: direct_gaps_def del: replicate.simps)
  next
    case (Suc k)
    obtain gs o' where st: "foldl (inherit_gap depot customers m) (direct_gaps (length customers), depot) [0..<k] = (gs, o')"
      by (cases "foldl (inherit_gap depot customers m) (direct_gaps (length customers), depot) [0..<k]")
    have IH: "length gs = length customers + 1" "\<forall>g < length customers + 1. gs ! g = (if g < k then ?look g else [])"
      "o' = (depot # customers) ! k" using Suc st by auto
    let ?t = "if k < length customers then customers ! k else depot"
    have t: "?t = (customers @ [depot]) ! k" using Suc.prems by (auto simp: nth_append)
    have step: "foldl (inherit_gap depot customers m) (direct_gaps (length customers), depot) [0..<Suc k] =
        (case map_of m (o', ?t) of Some path \<Rightarrow> gs[k := path] | None \<Rightarrow> gs, ?t)"
      by (simp add: st inherit_gap_def Let_def)
    have "\<forall>g < length customers + 1. (case map_of m (o', ?t) of Some path \<Rightarrow> gs[k := path] | None \<Rightarrow> gs) ! g =
        (if g < Suc k then ?look g else [])"
    proof (intro allI impI)
      fix g assume g: "g < length customers + 1"
      show "(case map_of m (o', ?t) of Some path \<Rightarrow> gs[k := path] | None \<Rightarrow> gs) ! g = (if g < Suc k then ?look g else [])"
      proof (cases "g = k")
        case True
        have "gs ! k = []" using IH(2) Suc.prems by simp
        with True g IH(1,3) t show ?thesis by (simp split: option.split)
      next
        case False
        have "gs ! g = (if g < k then ?look g else [])" using IH(2) g by blast
        with False show ?thesis by (simp add: less_Suc_eq split: option.split)
      qed
    qed
    moreover have "length (case map_of m (o', ?t) of Some path \<Rightarrow> gs[k := path] | None \<Rightarrow> gs) = length customers + 1"
      using IH(1) by (simp split: option.split)
    ultimately show ?case unfolding step using Suc.prems by simp
  qed
  from inv [of "length customers + 1"] assms show
    "inherited_gaps depot customers m ! g = ?look g" "length (inherited_gaps depot customers m) = length customers + 1"
    by (simp_all only: inherited_gaps_def) simp_all
qed

section \<open>The exact cache\<close>

lemma publish_exact_ok:
  assumes "factory_ok I f"
  shows "factory_ok I (snd (publish_exact I f p)) \<and>
    (case fst (publish_exact I f p) of
       Inl e \<Rightarrow> snd (publish_exact I f p) = f
     | Inr _ \<Rightarrow> has_adjacent_station_visits I (visits (plan_route p)) = Inr False \<longrightarrow>
         fst (exact_plan (snd (publish_exact I f p)) (plan_customers p)) = Some p)"
proof (cases "\<not> exact_charging p \<or> (case evaluation p of None \<Rightarrow> True | Some ev \<Rightarrow> \<not> feasible ev)")
  case True
  with assms show ?thesis by (simp add: publish_exact_def)
next
  case ok: False
  show ?thesis
  proof (cases "has_adjacent_station_visits I (visits (plan_route p))")
    case (Inl e)
    with ok assms show ?thesis by (simp add: publish_exact_def)
  next
    case (Inr b)
    show ?thesis
    proof (cases b)
      case True
      with ok Inr assms show ?thesis by (simp add: publish_exact_def)
    next
      case False
      let ?c = "lru_put (plan_customers p) p (exact_cache f)"
      have pub: "publish_exact I f p = (Inr (), f\<lparr>exact_cache := ?c\<rparr>)"
        using ok Inr False by (simp add: publish_exact_def)
      have cache: "lru_ok (exact_cache f)" using assms by (simp add: factory_ok_def)
      have put: "lru_ok ?c" "map_of (lru_items ?c) (plan_customers p) = Some p"
        using cache by (auto intro: lru.put_invar lru.put_present)
      have entry: "exact_entry I (plan_customers p) p"
        using ok Inr False by (auto simp: exact_entry_def split: option.splits)
      have "exact_entry I k q" if look: "map_of (lru_items ?c) k = Some q" for k q
      proof -
        have "map_of (lru_items ?c) \<subseteq>\<^sub>m (map_of (lru_items (exact_cache f)))(plan_customers p \<mapsto> p)"
          by (rule lru.put_look [OF cache])
        then have "((map_of (lru_items (exact_cache f)))(plan_customers p \<mapsto> p)) k = Some q"
          using look unfolding map_le_def by (metis domI)
        then show ?thesis using entry assms by (auto simp: factory_ok_def split: if_splits)
      qed
      then have "factory_ok I (f\<lparr>exact_cache := ?c\<rparr>)"
        using assms put(1) by (simp add: factory_ok_def marks_ok_def)
      moreover have "fst (exact_plan (f\<lparr>exact_cache := ?c\<rparr>) (plan_customers p)) = Some p"
        using lru.get_value [OF put(1), of "plan_customers p"] put(2)
        by (simp add: exact_plan_def case_prod_unfold)
      ultimately show ?thesis by (simp add: pub)
    qed
  qed
qed

section \<open>Properties\<close>

definition demo_factory :: plan_factory where
  "demo_factory = \<lparr>evaluator_cache = \<lparr>capacity = 2, order = [], index = [], fresh_node = 0, hits = 0,
     misses = 0, evictions = 0\<rparr>, exact_cache = \<lparr>capacity = 2, order = [], index = [], fresh_node = 0,
     hits = 0, misses = 0, evictions = 0\<rparr>, allow_revisits = True,
     validation_marks = [7, 0, - 1], validation_epoch = - 1\<rparr>"

lemma demo_factory_ok: "factory_ok demo_inst demo_factory"
  by (simp add: factory_ok_def demo_factory_def marks_ok_def lru_ok_def lru_items_def memo_agrees_def)

text \<open>
  The duplicate test with epoch marks accepts a sequence exactly when all its
  identifiers are known nodes of the required kind and no two are equal, at every epoch: when
  the 64-bit counter wraps around the marks are cleared, so no stale mark is ever taken for a
  current one, and the invariant of the marks is kept.
\<close>

theorem validate_node_sequence_correct:
  assumes "inst_ok I" and "\<forall>m \<in> set (validation_marks f). m \<le> validation_epoch f"
  shows "(fst (validate_node_sequence I f is k err) = Inr () \<longleftrightarrow>
      (\<forall>i \<in> set is. \<exists>n. node_of I i = Inr n \<and> kind n = k) \<and> distinct is) \<and>
    (let f' = snd (validate_node_sequence I f is k err)
     in \<forall>m \<in> set (validation_marks f'). m \<le> validation_epoch f')"
proof -
  have node: "(\<exists>n. node_of I i = Inr n \<and> kind n = k) \<longleftrightarrow> i \<in> set (ids I) \<and> kind (the_node I i) = k" for i
    using node_of_known(1) [OF assms(1), of i] node_of_unknown [OF assms(1), of i]
    by (cases "i \<in> set (ids I)") auto
  show ?thesis
    using validate_node_sequence_spec [OF assms(1), of f "is" k err] assms(2)
    by (simp add: node simple_of_kind_def marks_ok_def Let_def)
qed

theorem validate_node_sequence_correct_witness:
  "fst (validate_node_sequence demo_inst demo_factory [3, 1] Customer ''e'') = Inr () \<and>
    fst (validate_node_sequence demo_inst demo_factory [3, 1, 3] Customer ''e'') \<noteq> Inr ()"
proof -
  have m: "\<forall>m \<in> set (validation_marks demo_factory). m \<le> validation_epoch demo_factory"
    by (simp add: demo_factory_def)
  have n: "node_of demo_inst 3 = Inr (demo_nodes ! 3)" "node_of demo_inst 1 = Inr (demo_nodes ! 1)"
    "kind (demo_nodes ! 3) = Customer" "kind (demo_nodes ! 1) = Customer"
    by (simp_all add: node_of_def demo_inst_def demo_nodes_def)
  show ?thesis
    using validate_node_sequence_correct [OF demo_inst_ok m, of "[3, 1]" Customer "''e''"]
      validate_node_sequence_correct [OF demo_inst_ok m, of "[3, 1, 3]" Customer "''e''"] n by simp
qed

text \<open>
  C24: \<open>make_plan\<close> always returns and keeps the factory's invariant.  A plan it returns has
  the given customers, a route that is the expansion of its gaps, the evaluation of exactly
  that route and no adjacent station visits; and it does return a plan for every well-formed
  input, so the internal \<open>logic_error\<close> branches of the normalisation are unreachable there.
\<close>

theorem make_plan_correct:
  assumes "inst_ok I" and "curves_ok I" and "factory_ok I f"
  shows "\<exists>res f'. make_plan I f customers gs = Some (res, f') \<and> factory_ok I f' \<and>
    (\<forall>p. res = Inr p \<longrightarrow> plan_customers p = customers \<and>
       expand_route customers (gaps p) = Inr (plan_route p) \<and>
       (\<exists>ev. evaluation p = Some ev \<and> route_result I (visits (plan_route p)) = Inr ev) \<and>
       has_adjacent_station_visits I (visits (plan_route p)) = Inr False) \<and>
    (customers \<noteq> [] \<and> simple_of_kind I Customer customers \<and> gaps_valid I (allow_revisits f) gs \<and>
       length gs = length customers + 1 \<and> all_supported I (concat gs) \<longrightarrow> (\<exists>p. res = Inr p))"
proof -
  obtain res f' where r: "make_plan I f customers gs = Some (res, f')" "factory_ok I f'"
    "case res of Inr p \<Rightarrow> plan_built I customers p | Inl e \<Rightarrow>
       \<not> (customers \<noteq> [] \<and> simple_of_kind I Customer customers \<and> gaps_valid I (allow_revisits f) gs \<and>
          length gs = length customers + 1 \<and> all_supported I (concat gs))"
    using make_plan_ok [OF assms, of customers gs] by blast
  then show ?thesis by (cases res) (auto simp: plan_built_def)
qed

theorem make_plan_correct_witness:
  "\<exists>p f'. make_plan demo_inst demo_factory [1, 3] [[], [], []] = Some (Inr p, f') \<and> plan_customers p = [1, 3]"
proof -
  have k: "kind (the_node demo_inst 1) = Customer" "kind (the_node demo_inst 3) = Customer"
    by (simp_all add: the_node_def node_of_def demo_inst_def demo_nodes_def)
  have "simple_of_kind demo_inst Customer [1, 3]" "gaps_valid demo_inst (allow_revisits demo_factory) [[], [], []]"
    "all_supported demo_inst (concat [[], [], []])"
    by (simp_all add: simple_of_kind_def gaps_valid_def all_supported_def demo_known k demo_factory_def)
  with make_plan_correct [OF demo_inst_ok demo_curves_ok demo_factory_ok, of "[1, 3]" "[[], [], []]"]
  show ?thesis by auto
qed

text \<open>
  \<open>plan_visits\<close> is inverse to the expansion of a route: a plan it returns for physical
  visits has their customers in order and gaps whose expansion is the visits, up to the
  merging of adjacent visits of one station; it accepts exactly the well-formed visits when
  their stations can be normalised.
\<close>

theorem plan_visits_correct:
  assumes "inst_ok I" and "curves_ok I" and "factory_ok I f" and "all_supported I vs"
  shows "\<exists>res f'. plan_visits I f vs = Some (res, f') \<and> factory_ok I f' \<and>
    ((\<exists>p. res = Inr p) \<longleftrightarrow> physical_visits I vs \<and> filter (is_customer I) vs \<noteq> [] \<and>
       distinct (filter (is_customer I) vs)) \<and>
    (\<forall>p. res = Inr p \<longrightarrow> plan_customers p = filter (is_customer I) vs \<and>
       expand_route (plan_customers p) (gaps p) = Inr (plan_route p) \<and>
       has_adjacent_station_visits I (visits (plan_route p)) = Inr False)"
proof -
  obtain res f' where r: "plan_visits I f vs = Some (res, f')" "factory_ok I f'"
    "case res of Inr p \<Rightarrow> physical_visits I vs \<and> plan_built I (filter (is_customer I) vs) p
     | Inl e \<Rightarrow> \<not> (physical_visits I vs \<and> filter (is_customer I) vs \<noteq> [] \<and>
          distinct (filter (is_customer I) vs) \<and> all_supported I vs)"
    using plan_visits_ok [OF assms(1-3), of vs] by blast
  have "filter (is_customer I) vs \<noteq> [] \<and> distinct (filter (is_customer I) vs)" if "res = Inr p" for p
  proof -
    have phys: "physical_visits I vs" using r(3) that by simp
    obtain gs where gs: "rfold (split_visit I) ([], [[]]) vs = Inr (filter (is_customer I) vs, gs)"
      using split_visits [OF assms(1) phys] by blast
    obtain r1 f1 where v: "validate_node_sequence I f (filter (is_customer I) vs) Customer ''invalid customer sequence'' = (r1, f1)"
      by (cases "validate_node_sequence I f (filter (is_customer I) vs) Customer ''invalid customer sequence''")
    have "filter (is_customer I) vs \<noteq> [] \<and> r1 = Inr ()"
      using r(1) gs v that by (auto simp: plan_visits_def split: if_splits sum.splits)
    with validate_sequence_ok [OF assms(1,3) v] show ?thesis by (auto simp: simple_of_kind_def)
  qed
  with r assms(4) show ?thesis by (cases res) (auto simp: plan_built_def)
qed

theorem plan_visits_correct_witness:
  "\<exists>p f'. plan_visits demo_inst demo_factory [1, 3] = Some (Inr p, f') \<and> plan_customers p = [1, 3]"
proof -
  have k: "kind (the_node demo_inst 1) = Customer" "kind (the_node demo_inst 3) = Customer"
    by (simp_all add: the_node_def node_of_def demo_inst_def demo_nodes_def)
  have "all_supported demo_inst [1, 3]" by (simp add: all_supported_def k)
  from plan_visits_correct [OF demo_inst_ok demo_curves_ok demo_factory_ok this] show ?thesis
    by (auto simp: physical_visits_def is_customer_def demo_known k)
qed

text \<open>
  The gaps inherited from a reference solution are directed: gap g of a new sequence is
  the path of the first plan of the reference that drives from the same anchor to the same
  next anchor, and empty when none does.
\<close>

theorem inherited_gaps_directed:
  assumes "depot_of I = Inr d" and "node_id d = depot"
    and "\<forall>p \<in> set (plans s). length (gaps p) = length (plan_customers p) + 1"
    and "g \<le> length customers"
  shows "\<exists>m. gap_map_of I s = Inr m \<and> length (inherited_gaps depot customers m) = length customers + 1 \<and>
    inherited_gaps depot customers m ! g =
      (case map_of (concat (map (plan_gap_list depot) (plans s)))
              ((depot # customers) ! g, (customers @ [depot]) ! g) of
         Some path \<Rightarrow> path | None \<Rightarrow> [])"
  using assms gap_map_lookup [OF assms(3), of depot "[]"] inherited_gaps_nth [OF assms(4), of depot]
  by (simp add: gap_map_of_def)

theorem inherited_gaps_directed_witness:
  "\<exists>m. gap_map_of demo_inst demo_solution = Inr m \<and> inherited_gaps 0 [3, 1] m ! 0 = [2]"
proof -
  have d: "depot_of demo_inst = Inr (demo_nodes ! 0)" "node_id (demo_nodes ! 0) = 0"
    by (simp_all add: depot_of_def node_of_def demo_inst_def demo_nodes_def)
  have "\<forall>p \<in> set (plans demo_solution). length (gaps p) = length (plan_customers p) + 1"
    by (simp add: demo_solution_def)
  from inherited_gaps_directed [OF d this, of 0 "[3, 1]"] show ?thesis
    by (auto simp: demo_solution_def plan_gap_list_def)
qed

text \<open>
  The exact cache only ever holds, under the customer sequence of the plan, plans with
  an exactness certificate and a feasible evaluation and without adjacent visits of one
  station; publishing rejects every other plan with an exception and leaves the cache
  unchanged, and a published plan is found again at once.
\<close>

theorem publish_exact_safe:
  assumes "factory_ok I f"
  shows "factory_ok I (snd (publish_exact I f p)) \<and>
    (\<forall>k q. fst (exact_plan (snd (publish_exact I f p)) k) = Some q \<longrightarrow>
       k = plan_customers q \<and> exact_charging q \<and> (\<exists>ev. evaluation q = Some ev \<and> feasible ev) \<and>
       has_adjacent_station_visits I (visits (plan_route q)) = Inr False) \<and>
    (\<forall>e. fst (publish_exact I f p) = Inl e \<longrightarrow> snd (publish_exact I f p) = f) \<and>
    (fst (publish_exact I f p) = Inr () \<and> has_adjacent_station_visits I (visits (plan_route p)) = Inr False \<longrightarrow>
       fst (exact_plan (snd (publish_exact I f p)) (plan_customers p)) = Some p)"
proof -
  let ?f = "snd (publish_exact I f p)"
  note ok = publish_exact_ok [OF assms, of p]
  have "exact_entry I k q" if found: "fst (exact_plan ?f k) = Some q" for k q
  proof -
    have f: "factory_ok I ?f" using ok by simp
    then have "map_of (lru_items (exact_cache ?f)) k = Some q"
      using lru.get_value [of "exact_cache ?f" k] found
      by (simp add: exact_plan_def case_prod_unfold factory_ok_def)
    with f show ?thesis by (simp add: factory_ok_def)
  qed
  with ok show ?thesis by (cases "fst (publish_exact I f p)") (auto simp: exact_entry_def)
qed

theorem publish_exact_safe_witness:
  "fst (publish_exact demo_inst demo_factory (hd (plans demo_costed))) \<noteq> Inr () \<and>
    snd (publish_exact demo_inst demo_factory (hd (plans demo_costed))) = demo_factory"
proof -
  have "fst (publish_exact demo_inst demo_factory (hd (plans demo_costed))) =
      Inl (Invalid_Argument ''exact cache only accepts feasible exact plans'')"
    by (simp add: publish_exact_def demo_costed_def)
  with publish_exact_safe [OF demo_factory_ok, of "hd (plans demo_costed)"] show ?thesis by simp
qed

end
