(* ===== verification/Label_Tree.thy ===== *)
theory Label_Tree
  imports Nonlinear_Eval
begin

text \<open>
  The segment trees of labels in src/evaluator.cpp: \<open>LabelTree\<close> of
  \<open>RouteSequenceScorer::Implementation\<close> and the array \<open>swap_ranges_\<close> of
  \<open>PhysicalRouteScorer\<close>, which is laid out in the same way (the leaves from index \<open>base\<close>
  on, node \<open>i\<close> the concatenation of the nodes \<open>2 * i\<close> and \<open>2 * i + 1\<close>).

  The lemmas show that the construction never throws on contiguous edge labels, and that
  the nodes the range loop picks, appended in its order, give the same label (or error) as
  appending the leaves of the range one by one.
\<close>

section \<open>Construction\<close>

text \<open>The loop \<open>while (base < edge_count) base *= 2\<close>; it is started at 1.\<close>

function grow_base :: "nat \<Rightarrow> nat \<Rightarrow> nat" where
  "grow_base base cnt = (if 0 < base \<and> base < cnt then grow_base (base * 2) cnt else base)"
  by pat_completeness auto
termination by (relation "measure (\<lambda>(base, cnt). cnt - base)") auto

declare grow_base.simps [simp del]

record label_tree =
  tree_base :: nat
  edge_count :: nat
  tree_nodes :: "charging_label list"

definition empty_tree :: label_tree where
  "empty_tree = \<lparr>tree_base = 1, edge_count = 0, tree_nodes = []\<rparr>"

definition join_children :: "charging_label list \<Rightarrow> nat \<Rightarrow> charging_label list result" where
  "join_children ns i =
     rbind (concatenate (ns ! (i * 2)) (ns ! (i * 2 + 1))) (\<lambda>l. Inr (ns[i := l]))"

definition range_nodes :: "nat \<Rightarrow> charging_label list \<Rightarrow> charging_label list result" where
  "range_nodes base leaves =
     rfold join_children
       (replicate base empty_label @ leaves @ replicate (base - length leaves) empty_label)
       (rev [1..<base])"

definition build_tree :: "charging_label list \<Rightarrow> label_tree result" where
  "build_tree leaves =
     (let base = grow_base 1 (length leaves)
      in rbind (range_nodes base leaves) (\<lambda>ns.
         Inr \<lparr>tree_base = base, edge_count = length leaves, tree_nodes = ns\<rparr>))"

section \<open>Ranges\<close>

text \<open>The loop over the two ends: the picked left nodes, and the right nodes as pushed.\<close>

function cover :: "nat \<Rightarrow> nat \<Rightarrow> nat list \<times> nat list" where
  "cover left right =
     (if left < right
      then let (lefts, left') = (if odd left then ([left], left + 1) else ([], left));
               (rights, right') = (if odd right then ([right - 1], right - 1) else ([], right));
               (ls, rs) = cover (left' div 2) (right' div 2)
           in (lefts @ ls, rights @ rs)
      else ([], []))"
  by pat_completeness auto
termination by (relation "measure snd") (auto split: if_splits)

declare cover.simps [simp del]

text \<open>The order of the visit: the left nodes, then the right nodes from the last pushed.\<close>

definition cover_nodes :: "nat \<Rightarrow> nat \<Rightarrow> nat list" where
  "cover_nodes left right = fst (cover left right) @ rev (snd (cover left right))"

definition append_range :: "label_tree \<Rightarrow> nat \<Rightarrow> nat \<Rightarrow> charging_label \<Rightarrow> charging_label result" where
  "append_range t first past lab =
     (if first > past \<or> past > edge_count t then Inl (Out_Of_Range ''sequence-label range is invalid'')
      else if first = past then Inr lab
      else append_all lab (map ((!) (tree_nodes t))
             (cover_nodes (first + tree_base t) (past + tree_base t))))"

text \<open>The components are collected into a span of bounded size.\<close>

definition push_component ::
  "nat \<Rightarrow> charging_label list \<Rightarrow> charging_label \<Rightarrow> charging_label list result" where
  "push_component limit cs c =
     (if length cs \<ge> limit then Inl (Length_Error ''route label exceeds component bound'')
      else Inr (cs @ [c]))"

definition append_range_components ::
  "label_tree \<Rightarrow> nat \<Rightarrow> nat \<Rightarrow> nat \<Rightarrow> charging_label list \<Rightarrow> charging_label list result" where
  "append_range_components t first past limit cs =
     (if first > past \<or> past > edge_count t then Inl (Out_Of_Range ''sequence-label range is invalid'')
      else if first = past then Inr cs
      else rfold (push_component limit) cs (map ((!) (tree_nodes t))
             (cover_nodes (first + tree_base t) (past + tree_base t))))"

section \<open>Powers of two\<close>

definition pow2 :: "nat \<Rightarrow> bool" where
  "pow2 n \<longleftrightarrow> (\<exists>k. n = 2 ^ k)"

lemma pow2_pos: "pow2 n \<Longrightarrow> 0 < n"
  by (auto simp: pow2_def)

lemma pow2_1: "pow2 1"
  unfolding pow2_def by (rule exI [of _ 0]) simp

lemma pow2_double: "pow2 (2 * n) \<longleftrightarrow> pow2 n"
proof
  assume "pow2 (2 * n)"
  then obtain k where k: "2 * n = 2 ^ k" by (auto simp: pow2_def)
  then show "pow2 n" by (cases k) (auto simp: pow2_def)
next
  assume "pow2 n"
  then obtain k where "n = 2 ^ k" by (auto simp: pow2_def)
  then have "2 * n = 2 ^ Suc k" by simp
  then show "pow2 (2 * n)" by (auto simp: pow2_def simp del: power_Suc)
qed

lemma pow2_odd: "1 \<le> n \<Longrightarrow> \<not> pow2 (Suc (2 * n))"
proof
  assume "1 \<le> n" and "pow2 (Suc (2 * n))"
  then obtain k where k: "Suc (2 * n) = 2 ^ k" by (auto simp: pow2_def)
  with \<open>1 \<le> n\<close> show False by (cases k) (auto, presburger)
qed

lemma grow_base_props:
  assumes "pow2 base"
  shows "pow2 (grow_base base cnt)" and "cnt \<le> grow_base base cnt"
proof -
  have "pow2 (grow_base base cnt) \<and> cnt \<le> grow_base base cnt"
    using assms
  proof (induction base cnt rule: grow_base.induct)
    case (1 base cnt)
    then show ?case
      using pow2_pos [of base] pow2_double [of base]
      by (subst (1 2) grow_base.simps) (auto simp: mult.commute [of _ 2])
  qed
  then show "pow2 (grow_base base cnt)" "cnt \<le> grow_base base cnt" by simp_all
qed

text \<open>The base is less than twice the number of the leaves, so the tree is linear in size.\<close>

lemma grow_base_bound: "base \<le> max 1 (2 * cnt) \<Longrightarrow> grow_base base cnt \<le> max 1 (2 * cnt)"
proof (induction base cnt rule: grow_base.induct)
  case (1 base cnt)
  show ?case
  proof (cases "0 < base \<and> base < cnt")
    case True
    then have "base * 2 \<le> max 1 (2 * cnt)" by simp
    with 1 True show ?thesis by (subst grow_base.simps) (simp del: max_def)
  next
    case False
    with 1 show ?thesis by (subst grow_base.simps) auto
  qed
qed

section \<open>The node invariant\<close>

definition joined :: "nat \<Rightarrow> nat \<Rightarrow> charging_label list \<Rightarrow> bool" where
  "joined base from_node ns \<longleftrightarrow> length ns = 2 * base \<and>
     (\<forall>i. from_node \<le> i \<and> 1 \<le> i \<and> i < base \<longrightarrow> append_label (ns ! (2 * i)) (ns ! (2 * i + 1)) = Inr (ns ! i))"

text \<open>Neighbours of one level meet, and only a suffix of a level is uninitialised.\<close>

definition meets :: "charging_label \<Rightarrow> charging_label \<Rightarrow> bool" where
  "meets a b \<longleftrightarrow> (initialized b \<longrightarrow> initialized a \<and> target_id a = origin_id b)"

definition linked :: "nat \<Rightarrow> nat \<Rightarrow> charging_label list \<Rightarrow> bool" where
  "linked base from_node ns \<longleftrightarrow>
     (\<forall>k. from_node \<le> k \<and> Suc k < 2 * base \<and> \<not> pow2 (Suc k) \<longrightarrow> meets (ns ! k) (ns ! Suc k))"

definition contiguous :: "charging_label list \<Rightarrow> bool" where
  "contiguous ls \<longleftrightarrow> (\<forall>l \<in> set ls. initialized l) \<and> successively (\<lambda>a b. target_id a = origin_id b) ls"

lemma meets_append:
  assumes "meets a b"
  shows "\<exists>c. append_label a b = Inr c \<and> (initialized c \<longleftrightarrow> initialized a) \<and>
    (initialized a \<longrightarrow> origin_id c = origin_id a) \<and>
    (initialized b \<longrightarrow> target_id c = target_id b)"
proof (cases "initialized b")
  case True
  with assms have "initialized a" "target_id a = origin_id b" by (simp_all add: meets_def)
  with True obtain c where "append_label a b = Inr c"
    by (cases "station_legs b") (auto simp: append_label_def Let_def)
  with True \<open>initialized a\<close> show ?thesis using append_label_Inr by blast
qed (use assms in auto)

lemma join_step:
  assumes j: "joined base (Suc i) ns" and l: "linked base (Suc i) ns" and i: "1 \<le> i" "i < base"
    and base: "pow2 base"
  shows "\<exists>ns'. join_children ns i = Inr ns' \<and> joined base i ns' \<and> linked base i ns' \<and>
    drop base ns' = drop base ns"
proof -
  have len: "length ns = 2 * base" using j by (simp add: joined_def)
  have link: "meets (ns ! k) (ns ! Suc k)" if "Suc i \<le> k" "Suc k < 2 * base" "\<not> pow2 (Suc k)" for k
    using l that by (simp add: linked_def)
  have kids: "meets (ns ! (2 * i)) (ns ! Suc (2 * i))"
    using link [of "2 * i"] i pow2_odd [OF i(1)] by simp
  then obtain c where c: "append_label (ns ! (2 * i)) (ns ! Suc (2 * i)) = Inr c"
      "initialized c \<longleftrightarrow> initialized (ns ! (2 * i))"
      "initialized (ns ! Suc (2 * i)) \<Longrightarrow> target_id c = target_id (ns ! Suc (2 * i))"
    using meets_append by blast
  let ?ns = "ns[i := c]"
  have "join_children ns i = Inr ?ns"
    using c(1) by (simp add: join_children_def concatenate_def mult.commute)
  moreover have "joined base i ?ns"
    unfolding joined_def
  proof (intro conjI allI impI)
    fix k assume k: "i \<le> k \<and> 1 \<le> k \<and> k < base"
    then show "append_label (?ns ! (2 * k)) (?ns ! (2 * k + 1)) = Inr (?ns ! k)"
      using j c(1) i len by (cases "k = i") (auto simp: joined_def)
  qed (use len in simp)
  moreover have "linked base i ?ns"
    unfolding linked_def
  proof (intro allI impI)
    fix k assume k: "i \<le> k \<and> Suc k < 2 * base \<and> \<not> pow2 (Suc k)"
    show "meets (?ns ! k) (?ns ! Suc k)"
    proof (cases "k = i")
      case True
      with k base have Suci: "Suc i < base"
        using i by (metis Suc_lessI)
      have up: "append_label (ns ! (2 * Suc i)) (ns ! (2 * Suc i + 1)) = Inr (ns ! Suc i)"
        using j Suci unfolding joined_def by (metis Suc_leI le_refl zero_less_Suc One_nat_def)
      have m1: "meets (ns ! Suc (2 * i)) (ns ! (2 * Suc i))"
        using link [of "Suc (2 * i)"] k True i Suci pow2_double [of "Suc i"] by simp
      have m2: "meets (ns ! (2 * Suc i)) (ns ! Suc (2 * Suc i))"
        using link [of "2 * Suc i"] i Suci pow2_odd [of "Suc i"] by simp
      from meets_append [OF m2] up have nx: "initialized (ns ! Suc i) \<longleftrightarrow> initialized (ns ! (2 * Suc i))"
          "initialized (ns ! (2 * Suc i)) \<Longrightarrow> origin_id (ns ! Suc i) = origin_id (ns ! (2 * Suc i))"
        by auto
      have "meets c (ns ! Suc i)"
        using nx m1 kids c(2,3) by (auto simp: meets_def)
      with True i len show ?thesis by simp
    next
      case False
      with k link [of k] show ?thesis by simp
    qed
  qed
  ultimately show ?thesis using i by (auto simp: drop_update_cancel)
qed

lemma range_nodes_ok:
  assumes base: "pow2 base" "length leaves \<le> base" and leaves: "contiguous leaves"
  shows "\<exists>ns. range_nodes base leaves = Inr ns \<and> joined base 1 ns \<and>
    (\<forall>k < length leaves. ns ! (base + k) = leaves ! k)"
proof -
  let ?start = "replicate base empty_label @ leaves @ replicate (base - length leaves) empty_label"
  have pos: "0 < base" by (rule pow2_pos [OF base(1)])
  have at: "?start ! (base + k) = (if k < length leaves then leaves ! k else empty_label)"
    if "k < base" for k
    using that base(2) by (simp add: nth_append)
  have j0: "joined base base ?start" using base(2) by (auto simp: joined_def)
  have l0: "linked base base ?start"
    unfolding linked_def
  proof (intro allI impI)
    fix k assume k: "base \<le> k \<and> Suc k < 2 * base \<and> \<not> pow2 (Suc k)"
    define d where "d = k - base"
    have d: "k = base + d" "Suc d < base" using k pos by (auto simp: d_def)
    have "target_id (leaves ! d) = origin_id (leaves ! Suc d)" if "Suc d < length leaves"
      using leaves that by (simp add: contiguous_def successively_conv_nth)
    moreover have "initialized (leaves ! d)" if "d < length leaves"
      using leaves that by (simp add: contiguous_def)
    ultimately show "meets (?start ! k) (?start ! Suc k)"
      using at [of d] at [of "Suc d"] d by (auto simp: meets_def empty_label_def simp del: append_assoc)
  qed
  have "\<exists>ns. rfold join_children ?start (rev [i..<base]) = Inr ns \<and> joined base i ns \<and> linked base i ns \<and>
      drop base ns = drop base ?start" if "1 \<le> i" "i \<le> base" for i
    using that
  proof (induction "base - i" arbitrary: i)
    case 0
    then show ?case using j0 l0 by simp
  next
    case (Suc d)
    then have i: "1 \<le> i" "i < base" by simp_all
    have "d = base - Suc i" "Suc i \<le> base" "1 \<le> Suc i" using Suc.hyps(2) by simp_all
    with Suc.hyps(1) obtain ns where ns: "rfold join_children ?start (rev [Suc i..<base]) = Inr ns"
        "joined base (Suc i) ns" "linked base (Suc i) ns" "drop base ns = drop base ?start" by blast
    obtain ns' where ns': "join_children ns i = Inr ns'" "joined base i ns'" "linked base i ns'"
        "drop base ns' = drop base ns"
      using join_step [OF ns(2,3) i base(1)] by blast
    have "[i..<base] = i # [Suc i..<base]" using i by (simp add: upt_conv_Cons)
    with ns ns' show ?case by (simp add: rfold_append del: upt_Suc)
  qed
  from this [of 1] pos obtain ns where ns: "range_nodes base leaves = Inr ns" "joined base 1 ns"
      "drop base ns = drop base ?start"
    by (auto simp: range_nodes_def)
  have "ns ! (base + k) = leaves ! k" if "k < length leaves" for k
  proof -
    have "drop base ns ! k = drop base ?start ! k" by (simp only: ns(3))
    then show ?thesis using that base(2) ns(2) by (simp add: joined_def nth_append)
  qed
  with ns show ?thesis by blast
qed

text \<open>The invariant of a tree built on \<open>leaves\<close>.\<close>

definition tree_ok :: "charging_label list \<Rightarrow> label_tree \<Rightarrow> bool" where
  "tree_ok leaves t \<longleftrightarrow> edge_count t = length leaves \<and> length leaves \<le> tree_base t \<and> 0 < tree_base t \<and>
     joined (tree_base t) 1 (tree_nodes t) \<and>
     (\<forall>k < length leaves. tree_nodes t ! (tree_base t + k) = leaves ! k)"

lemma build_tree_ok:
  assumes "contiguous leaves"
  shows "\<exists>t. build_tree leaves = Inr t \<and> tree_ok leaves t"
  using range_nodes_ok [OF grow_base_props [OF pow2_1] assms] pow2_pos [OF grow_base_props(1) [OF pow2_1]]
    grow_base_props(2) [OF pow2_1]
  by (fastforce simp: build_tree_def Let_def tree_ok_def)

section \<open>The range loop\<close>

lemma append_two:
  assumes "append_label x y = Inr z"
  shows "rfold append_label a [x, y] = rfold append_label a [z]"
proof -
  have "rbind (append_label a x) (\<lambda>b. append_label b y) = append_label a z"
    using lab.assoc [of a x y] assms by simp
  then show ?thesis by (cases "append_label a x"; cases "append_label a z") (auto simp: rbind_eq_Inr_conv)
qed

text \<open>A level and the level above it give the same label.\<close>

lemma level_up:
  assumes "joined base 1 ns" and "1 \<le> l" and "r \<le> base"
  shows "rfold append_label a (map ((!) ns) [2 * l..<2 * r]) = rfold append_label a (map ((!) ns) [l..<r])"
proof (cases "l < r")
  case True
  then show ?thesis
    using assms(3)
  proof (induction "r - l" arbitrary: r)
    case (Suc d)
    then obtain q where q: "r = Suc q" "l \<le> q" "q < base" by (cases r) auto
    have z: "append_label (ns ! (2 * q)) (ns ! Suc (2 * q)) = Inr (ns ! q)"
      using assms(1,2) q by (simp add: joined_def)
    have ih: "rfold append_label a (map ((!) ns) [2 * l..<2 * q]) = rfold append_label a (map ((!) ns) [l..<q])"
      using Suc q by (cases "l < q") auto
    have two: "[2 * l..<2 * r] = [2 * l..<2 * q] @ [2 * q, Suc (2 * q)]" using q by simp
    show ?case
      unfolding two map_append list.map rfold_append ih append_two [OF z]
      using q(2) by (simp add: q(1) rfold_append)
  qed simp
qed simp

lemma cover_fold:
  assumes "joined base 1 ns" and "1 \<le> l" and "r \<le> 2 * base"
  shows "rfold append_label a (map ((!) ns) (cover_nodes l r)) = rfold append_label a (map ((!) ns) [l..<r])"
  using assms(2,3)
proof (induction l r arbitrary: a rule: cover.induct)
  case (1 l r)
  show ?case
  proof (cases "l < r")
    case True
    define l' where "l' = (if odd l then l + 1 else l)"
    define r' where "r' = (if odd r then r - 1 else r)"
    define ls where "ls = (if odd l then [l] else [])"
    define rs where "rs = (if odd r then [r - 1] else [])"
    have halves: "2 * (l' div 2) = l'" "2 * (r' div 2) = r'" by (auto simp: l'_def r'_def)
    have l'r': "1 \<le> l' div 2" "r' div 2 \<le> base" "l' \<le> r'"
      using 1 True by (auto simp: l'_def r'_def elim!: oddE evenE) 
    have cov: "cover_nodes l r = ls @ cover_nodes (l' div 2) (r' div 2) @ rs"
      using True
      by (auto simp: cover_nodes_def cover.simps [of l r] ls_def rs_def l'_def r'_def Let_def
          split: prod.splits)
    have ih: "rfold append_label b (map ((!) ns) (cover_nodes (l' div 2) (r' div 2))) =
        rfold append_label b (map ((!) ns) [l' div 2..<r' div 2])" for b
      using 1 True l'r' unfolding l'_def r'_def by (auto split: if_splits)
    have up: "rfold append_label b (map ((!) ns) [l' div 2..<r' div 2]) =
        rfold append_label b (map ((!) ns) [l'..<r'])" for b
      using level_up [OF assms(1) l'r'(1,2), of b] by (simp add: halves)
    have "[l..<r] = ls @ [l'..<r'] @ rs"
    proof -
      have "[l..<r] = ls @ [l'..<r]" using True by (simp add: ls_def l'_def upt_conv_Cons)
      moreover have "[l'..<r] = [l'..<r'] @ rs"
        using l'r'(3) by (cases r) (auto simp: rs_def r'_def)
      ultimately show ?thesis by simp
    qed
    then show ?thesis by (simp add: cov rfold_append ih up)
  next
    case False
    then show ?thesis by (simp add: cover_nodes_def cover.simps [of l r])
  qed
qed

lemma cover_nodes_lt: "x \<in> set (cover_nodes l r) \<Longrightarrow> x < r"
proof (induction l r rule: cover.induct)
  case (1 l r)
  then show ?case
    by (fastforce simp: cover_nodes_def cover.simps [of l r] Let_def split: if_splits prod.splits)
qed

lemma leaf_range:
  assumes "tree_ok leaves t" and "i \<le> j" and "j \<le> length leaves"
  shows "map ((!) (tree_nodes t)) [i + tree_base t..<j + tree_base t] = take (j - i) (drop i leaves)"
proof (rule nth_equalityI)
  fix k assume "k < length (map ((!) (tree_nodes t)) [i + tree_base t..<j + tree_base t])"
  then have k: "k < j - i" by simp
  then have "tree_nodes t ! (tree_base t + (i + k)) = leaves ! (i + k)"
    using assms by (simp add: tree_ok_def)
  with k assms show "map ((!) (tree_nodes t)) [i + tree_base t..<j + tree_base t] ! k =
      take (j - i) (drop i leaves) ! k"
    by (simp add: ac_simps)
qed (use assms in simp)

lemma append_range_eq:
  assumes "tree_ok leaves t" and "i \<le> j" and "j \<le> length leaves"
  shows "append_range t i j a = append_all a (take (j - i) (drop i leaves))"
proof -
  have "j + tree_base t \<le> 2 * tree_base t" "1 \<le> i + tree_base t" using assms by (auto simp: tree_ok_def)
  with assms cover_fold [of "tree_base t" "tree_nodes t" "i + tree_base t" "j + tree_base t" a]
  show ?thesis
    by (simp add: append_range_def append_all_def leaf_range [OF assms])
      (simp add: tree_ok_def)
qed

lemma append_range_error:
  "i > j \<or> j > edge_count t \<Longrightarrow>
    append_range t i j a = Inl (Out_Of_Range ''sequence-label range is invalid'')"
  by (simp add: append_range_def)


lemma append_range_empty: "i \<le> edge_count t \<Longrightarrow> append_range t i i a = Inr a"
  by (simp add: append_range_def)

text \<open>The picked nodes are initialised when the leaves of the range are.\<close>

lemma cover_initialized:
  assumes "joined base 1 ns" and "1 \<le> l" and "r \<le> 2 * base" and "\<forall>k \<in> {l..<r}. initialized (ns ! k)"
  shows "\<forall>k \<in> set (cover_nodes l r). initialized (ns ! k)"
  using assms(2-4)
proof (induction l r rule: cover.induct)
  case (1 l r)
  show ?case
  proof (cases "l < r")
    case True
    define l' where "l' = (if odd l then l + 1 else l)"
    define r' where "r' = (if odd r then r - 1 else r)"
    have l'r': "1 \<le> l' div 2" "r' div 2 \<le> base" and in_range: "l \<le> l'" "r' \<le> r" "even l'" "even r'"
      using 1 True by (auto simp: l'_def r'_def elim!: oddE evenE)
    have "initialized (ns ! k)" if k: "k \<in> {l' div 2..<r' div 2}" for k
    proof -
      have "1 \<le> k" "k < base" using k l'r' by simp_all
      then have "append_label (ns ! (2 * k)) (ns ! Suc (2 * k)) = Inr (ns ! k)"
        using assms(1) by (simp add: joined_def)
      moreover have "l \<le> 2 * k" "Suc (2 * k) < r" using k in_range by auto
      then have "initialized (ns ! (2 * k))" "initialized (ns ! Suc (2 * k))"
        using 1(4) by simp_all
      ultimately show ?thesis using append_label_Inr(1) by blast
    qed
    then have ih: "\<forall>k \<in> set (cover_nodes (l' div 2) (r' div 2)). initialized (ns ! k)"
      using 1 True l'r' unfolding l'_def r'_def by (auto split: if_splits)
    have "set (cover_nodes l r) \<subseteq> {l, r - 1} \<inter> {l..<r} \<union> set (cover_nodes (l' div 2) (r' div 2))"
      using True
      by (auto simp: cover_nodes_def cover.simps [of l r] l'_def r'_def Let_def split: prod.splits if_splits)
    with ih 1(4) show ?thesis by auto
  next
    case False
    then show ?thesis by (simp add: cover_nodes_def cover.simps [of l r])
  qed
qed

text \<open>At most two nodes per level: the stacks of 128 entries never overflow.\<close>

lemma cover_size: "r \<le> 2 ^ k \<Longrightarrow> length (fst (cover l r)) \<le> Suc k \<and> length (snd (cover l r)) \<le> Suc k"
proof (induction l r arbitrary: k rule: cover.induct)
  case (1 l r)
  show ?case
  proof (cases "l < r")
    case True
    define l' where "l' = (if odd l then l + 1 else l)"
    define r' where "r' = (if odd r then r - 1 else r)"
    have le: "length (fst (cover l r)) \<le> Suc (length (fst (cover (l' div 2) (r' div 2)))) \<and>
        length (snd (cover l r)) \<le> Suc (length (snd (cover (l' div 2) (r' div 2))))"
      using True
      by (auto simp: cover.simps [of l r] l'_def r'_def Let_def split: prod.splits)
    show ?thesis
    proof (cases k)
      case 0
      with 1 True have lr: "l = 0" "r = 1" by simp_all
      then have "cover (l' div 2) (r' div 2) = ([], [])"
        by (simp add: l'_def r'_def cover.simps)
      with le show ?thesis by simp
    next
      case (Suc k')
      have "r' div 2 \<le> 2 ^ k'" using 1(2) by (auto simp: Suc r'_def)
      with 1 True have "length (fst (cover (l' div 2) (r' div 2))) \<le> Suc k' \<and>
          length (snd (cover (l' div 2) (r' div 2))) \<le> Suc k'"
        unfolding l'_def r'_def by (auto split: if_splits)
      with le Suc show ?thesis by simp
    qed
  next
    case False
    then show ?thesis by (simp add: cover.simps [of l r])
  qed
qed

lemma cover_nodes_size: "r \<le> 2 ^ k \<Longrightarrow> length (cover_nodes l r) \<le> 2 * Suc k"
  using cover_size [of r k l] by (simp add: cover_nodes_def)

lemma push_components:
  "rfold (push_component limit) cs ds =
    (if length cs + length ds \<le> limit \<or> ds = [] then Inr (cs @ ds)
     else Inl (Length_Error ''route label exceeds component bound''))"
  by (induction ds arbitrary: cs) (auto simp: push_component_def)

lemma append_range_components_eq:
  assumes "tree_ok leaves t" and "\<forall>l \<in> set leaves. initialized l"
    and "i \<le> j" and "j \<le> length leaves"
  shows "\<exists>ds. append_range_components t i j limit cs =
      (if length cs + length ds \<le> limit \<or> ds = [] then Inr (cs @ ds)
       else Inl (Length_Error ''route label exceeds component bound'')) \<and>
    (\<forall>d \<in> set ds. initialized d) \<and> length ds \<le> length (cover_nodes (i + tree_base t) (j + tree_base t)) \<and>
    (\<forall>a. append_all a ds = append_all a (take (j - i) (drop i leaves)))"
proof (cases "i = j")
  case True
  with assms show ?thesis
    by (intro exI [of _ "[]"]) (simp add: append_range_components_def tree_ok_def)
next
  case False
  let ?ds = "map ((!) (tree_nodes t)) (cover_nodes (i + tree_base t) (j + tree_base t))"
  have b: "1 \<le> i + tree_base t" "j + tree_base t \<le> 2 * tree_base t" and j: "joined (tree_base t) 1 (tree_nodes t)"
    using assms by (auto simp: tree_ok_def)
  have "initialized (tree_nodes t ! k)" if "k \<in> {i + tree_base t..<j + tree_base t}" for k
  proof -
    define d where "d = k - tree_base t"
    with that assms(4) have "k = tree_base t + d" "d < length leaves" by auto
    then show ?thesis using assms(1,2) by (simp add: tree_ok_def)
  qed
  then have "\<forall>d \<in> set ?ds. initialized d" using cover_initialized [OF j b] by auto
  moreover have "append_all a ?ds = append_all a (take (j - i) (drop i leaves))" for a
    using cover_fold [OF j b, of a] leaf_range [OF assms(1,3,4)] by (simp add: append_all_def)
  ultimately show ?thesis
    using False assms
    by (intro exI [of _ ?ds])
      (simp add: append_range_components_def tree_ok_def push_components)
qed

section \<open>Edges along a path\<close>

text \<open>The labels of the consecutive edges of a node list are contiguous.\<close>

fun path_edges :: "inst \<Rightarrow> (int \<Rightarrow> int \<Rightarrow> int list) \<Rightarrow> int list \<Rightarrow> charging_label list" where
  "path_edges I via (a # b # ns) = path_label I a (via a b @ [b]) # path_edges I via (b # ns)"
| "path_edges I via _ = []"

lemma path_edges_length [simp]: "length (path_edges I via ns) = length ns - 1"
  by (induction I via ns rule: path_edges.induct) auto

lemma path_edges_nth:
  "Suc k < length ns \<Longrightarrow>
    path_edges I via ns ! k = path_label I (ns ! k) (via (ns ! k) (ns ! Suc k) @ [ns ! Suc k])"
proof (induction I via ns arbitrary: k rule: path_edges.induct)
  case (1 I via a b ns)
  then show ?case by (cases k) auto
qed simp_all

lemma path_label_ends [simp]:
  "origin_id (path_label I p ns) = p" "target_id (path_label I p ns) = last (p # ns)"
  by (simp_all add: path_label_def)

lemma path_edges_contiguous: "contiguous (path_edges I via ns)"
  by (auto simp: contiguous_def successively_conv_nth path_edges_nth in_set_conv_nth)

text \<open>The path through the stations between consecutive nodes.\<close>

fun via_path :: "(int \<Rightarrow> int \<Rightarrow> int list) \<Rightarrow> int list \<Rightarrow> int list" where
  "via_path via (a # b # ns) = via a b @ b # via_path via (b # ns)"
| "via_path via _ = []"

lemma via_path_direct: "via_path (\<lambda>_ _. []) ns = tl ns"
  by (induction "\<lambda>(_ :: int) (_ :: int). [] :: int list" ns rule: via_path.induct) auto

lemma via_path_last: "ns \<noteq> [] \<Longrightarrow> last (hd ns # via_path via ns) = last ns"
  by (induction via ns rule: via_path.induct) auto

lemma append_path_edges:
  "ns \<noteq> [] \<Longrightarrow> append_all (path_label I p (xs @ [hd ns])) (path_edges I via ns) =
    Inr (path_label I p (xs @ hd ns # via_path via ns))"
proof (induction I via ns arbitrary: xs rule: path_edges.induct)
  case (1 I via a b ns)
  have "append_label (path_label I p (xs @ [a])) (path_label I a (via a b @ [b])) =
      Inr (path_label I p ((xs @ a # via a b) @ [b]))"
    using append_path_label [of I p "xs @ [a]" "via a b @ [b]"] by simp
  with "1.IH" [of "xs @ a # via a b"] show ?case by (simp add: append_all_def)
qed (simp_all add: append_all_def)

lemma path_edges_slice:
  "take (j - i) (drop i (path_edges I via ns)) = path_edges I via (take (Suc j - i) (drop i ns))"
  if "i < length ns"
proof (rule nth_equalityI)
  show len: "length (take (j - i) (drop i (path_edges I via ns))) =
      length (path_edges I via (take (Suc j - i) (drop i ns)))"
    by (cases "i \<le> j") (auto simp: min_def)
  fix k assume "k < length (take (j - i) (drop i (path_edges I via ns)))"
  then show "take (j - i) (drop i (path_edges I via ns)) ! k =
      path_edges I via (take (Suc j - i) (drop i ns)) ! k"
    using that by (auto simp: path_edges_nth add.commute less_diff_conv)
qed

section \<open>Properties\<close>

text \<open>
  C34: A segment tree over contiguous edge labels is built without an error, and for every
  range of its leaves, appending the nodes its range loop picks gives exactly the label, or
  the error, of appending the leaves of the range one by one, on top of any label.  The
  loop picks at most two nodes per level.
\<close>

theorem label_tree_range:
  assumes "contiguous leaves"
  shows "\<exists>t. build_tree leaves = Inr t \<and> edge_count t = length leaves \<and>
    (\<forall>i j a. append_range t i j a =
       (if i > j \<or> j > length leaves then Inl (Out_Of_Range ''sequence-label range is invalid'')
        else append_all a (take (j - i) (drop i leaves)))) \<and>
    (\<forall>i j k. j + tree_base t \<le> 2 ^ k \<longrightarrow> length (cover_nodes (i + tree_base t) (j + tree_base t)) \<le> 2 * Suc k)"
proof -
  obtain t where t: "build_tree leaves = Inr t" "tree_ok leaves t" using build_tree_ok [OF assms] by blast
  then have "edge_count t = length leaves" by (simp add: tree_ok_def)
  with t append_range_eq [OF t(2)] append_range_error cover_nodes_size show ?thesis
    by (intro exI [of _ t]) (auto simp: not_less)
qed

theorem label_tree_range_witness:
  "\<exists>t. build_tree (path_edges demo_inst (\<lambda>_ _. []) [0, 1, 2, 3]) = Inr t \<and>
    append_range t 0 3 empty_label =
      append_all empty_label (path_edges demo_inst (\<lambda>_ _. []) [0, 1, 2, 3])"
  using label_tree_range [OF path_edges_contiguous [of demo_inst "\<lambda>_ _. []" "[0, 1, 2, 3]"]]
  by force

end
