(* ===== verification/Physical_Scorer.thy ===== *)
theory Physical_Scorer
  imports Plan_Factory Label_Tree
begin

text \<open>
  \<open>PhysicalRouteScorer\<close> of src/evaluator.cpp: prefix and suffix views of a fixed physical
  route over two shared arrays of legs, the segment tree for exchanges inside the route, the
  class representatives of insertion slots, and the scores of replacing, swapping,
  relocating, inserting and removing a customer.

  A \<open>ChargingSequenceView\<close> holds a span.  The scorer stores its spans as an offset and a
  count into the array they point to (\<open>stored_view\<close>), since the suffix array is still
  written after the first views were made; \<open>view_of\<close> reads a span in the final array.  The
  bit comparisons of doubles are equality of the reals.

  Every score is shown to be the evaluation of the label of the edited route.
\<close>

section \<open>Views\<close>

record charging_view =
  view_initialized :: bool
  view_origin :: int
  view_target :: int
  view_legs :: "charging_leg list"
  view_first_wh :: real
  view_tail_wh :: real
  view_travel_h :: real
  view_service_h :: real

definition first_energy_of :: "charging_leg list \<Rightarrow> real" where
  "first_energy_of legs = (case legs of [] \<Rightarrow> 0 | l # _ \<Rightarrow> energy_from_previous_station_wh l)"

text \<open>The converting constructor from a label.\<close>

definition view_of_label :: "charging_label \<Rightarrow> charging_view" where
  "view_of_label l = \<lparr>view_initialized = initialized l, view_origin = origin_id l,
     view_target = target_id l, view_legs = station_legs l,
     view_first_wh = first_energy_of (station_legs l), view_tail_wh = tail_energy_wh l,
     view_travel_h = label_travel_h l, view_service_h = label_service_h l\<rparr>"

fun check_views :: "int option \<Rightarrow> charging_view list \<Rightarrow> unit result" where
  "check_views previous [] = Inr ()"
| "check_views previous (v # vs) =
     (if \<not> view_initialized v then Inl (Invalid_Argument ''sequence contains an empty component'')
      else if previous \<noteq> None \<and> previous \<noteq> Some (view_origin v)
      then Inl (Invalid_Argument ''non-contiguous charging sequence labels'')
      else check_views (Some (view_target v)) vs)"

fun merge_view :: "charging_leg list \<times> real \<Rightarrow> charging_view \<Rightarrow> charging_leg list \<times> real" where
  "merge_view (legs, tail_wh) v =
     (case view_legs v of
        [] \<Rightarrow> (legs, tail_wh + view_tail_wh v)
      | first # rest \<Rightarrow>
          (legs @ first\<lparr>energy_from_previous_station_wh := view_first_wh v + tail_wh\<rparr> # rest,
           view_tail_wh v))"

definition evaluate_views :: "inst \<Rightarrow> charging_view list \<Rightarrow> route_cost_summary result option" where
  "evaluate_views I vs =
     (if vs = [] then Some (Inl (Invalid_Argument ''cannot evaluate an empty sequence label''))
      else case check_views None vs of Inl e \<Rightarrow> Some (Inl e)
      | Inr _ \<Rightarrow>
          let merged = foldl merge_view ([], 0) vs
          in full_summary (evaluate_data I None (sum_list (map view_travel_h vs))
               (sum_list (map view_service_h vs)) (fst merged) (snd merged)))"

section \<open>The stored views\<close>

record stored_view =
  sv_initialized :: bool
  sv_origin :: int
  sv_target :: int
  sv_offset :: nat
  sv_count :: nat
  sv_first_wh :: real
  sv_tail_wh :: real
  sv_travel_h :: real
  sv_service_h :: real

definition no_view :: stored_view where
  "no_view = \<lparr>sv_initialized = False, sv_origin = 0, sv_target = 0, sv_offset = 0, sv_count = 0,
     sv_first_wh = 0, sv_tail_wh = 0, sv_travel_h = 0, sv_service_h = 0\<rparr>"

definition view_of :: "charging_leg list \<Rightarrow> stored_view \<Rightarrow> charging_view" where
  "view_of legs v = \<lparr>view_initialized = sv_initialized v, view_origin = sv_origin v,
     view_target = sv_target v, view_legs = take (sv_count v) (drop (sv_offset v) legs),
     view_first_wh = sv_first_wh v, view_tail_wh = sv_tail_wh v,
     view_travel_h = sv_travel_h v, view_service_h = sv_service_h v\<rparr>"

text \<open>One round of the loop over the prefixes: the array, and the view after the edge.\<close>

definition prefix_step :: "charging_leg list \<times> stored_view \<Rightarrow> charging_label \<Rightarrow> charging_leg list \<times> stored_view" where
  "prefix_step s edge =
     (case s of (arr, prior) \<Rightarrow>
       let i = sv_initialized prior;
           (arr', tail_wh) =
             (case station_legs edge of
                leg # _ \<Rightarrow>
                  (arr @ [if i then leg\<lparr>energy_from_previous_station_wh :=
                                   energy_from_previous_station_wh leg + sv_tail_wh prior\<rparr>
                          else leg], tail_energy_wh edge)
              | [] \<Rightarrow> (arr, if i then sv_tail_wh prior + tail_energy_wh edge else tail_energy_wh edge))
       in (arr', \<lparr>sv_initialized = True,
                  sv_origin = (if i then sv_origin prior else origin_id edge),
                  sv_target = target_id edge, sv_offset = 0, sv_count = length arr',
                  sv_first_wh = first_energy_of arr', sv_tail_wh = tail_wh,
                  sv_travel_h = (if i then sv_travel_h prior + label_travel_h edge else label_travel_h edge),
                  sv_service_h = (if i then sv_service_h prior + label_service_h edge
                                  else label_service_h edge)\<rparr>))"

fun prefix_views :: "charging_leg list \<times> stored_view \<Rightarrow> charging_label list \<Rightarrow> charging_leg list \<times> stored_view list" where
  "prefix_views s [] = (fst s, [snd s])"
| "prefix_views s (edge # edges) =
     (case prefix_views (prefix_step s edge) edges of (arr, vs) \<Rightarrow> (arr, snd s # vs))"

text \<open>
  One round of the loop over the suffixes, from the right: the array, the index of the first
  leg of the suffix, and the views made so far.
\<close>

definition suffix_step ::
  "charging_label \<Rightarrow> charging_leg list \<times> nat \<times> stored_view list \<Rightarrow> charging_leg list \<times> nat \<times> stored_view list" where
  "suffix_step edge s =
     (case s of (arr, first_station, vs) \<Rightarrow>
       let after = hd vs;
           i = sv_initialized after;
           (arr1, tail_wh) =
             (if sv_count after > 0
              then (arr[first_station := (arr ! first_station)\<lparr>energy_from_previous_station_wh :=
                      sv_first_wh after + tail_energy_wh edge\<rparr>], sv_tail_wh after)
              else (arr, if i then tail_energy_wh edge + sv_tail_wh after else tail_energy_wh edge));
           (arr2, first2) =
             (case station_legs edge of [] \<Rightarrow> (arr1, first_station)
              | leg # _ \<Rightarrow> (arr1[first_station - 1 := leg], first_station - 1));
           cnt = length arr2 - first2
       in (arr2, first2,
           \<lparr>sv_initialized = True, sv_origin = origin_id edge,
            sv_target = (if i then sv_target after else target_id edge),
            sv_offset = first2, sv_count = cnt,
            sv_first_wh = (if cnt > 0 then energy_from_previous_station_wh (arr2 ! first2) else 0),
            sv_tail_wh = tail_wh,
            sv_travel_h = (if i then label_travel_h edge + sv_travel_h after else label_travel_h edge),
            sv_service_h = (if i then label_service_h edge + sv_service_h after
                            else label_service_h edge)\<rparr> # vs))"

definition default_leg :: charging_leg where
  "default_leg = \<lparr>leg_station_id = 0, energy_from_previous_station_wh = 0,
                  physical_same_station_predecessor = False\<rparr>"

definition suffix_views :: "nat \<Rightarrow> charging_label list \<Rightarrow> charging_leg list \<times> stored_view list" where
  "suffix_views n edges =
     (case foldr suffix_step edges (replicate n default_leg, n, [no_view]) of (arr, _, vs) \<Rightarrow> (arr, vs))"

section \<open>Slots with the same insertion score\<close>

record physical_scorer =
  ps_nodes :: "int list"
  ps_customers :: "int set"
  ps_prefix_legs :: "charging_leg list"
  ps_suffix_legs :: "charging_leg list"
  ps_prefixes :: "stored_view list"
  ps_suffixes :: "stored_view list"
  ps_representatives :: "nat list"
  ps_swap_base :: nat
  ps_swap_ranges :: "charging_label list"

definition same_scalars :: "stored_view \<Rightarrow> stored_view \<Rightarrow> bool" where
  "same_scalars a b \<longleftrightarrow> sv_initialized a \<and> sv_initialized b \<and> sv_origin a = sv_origin b \<and>
     sv_target a = sv_target b \<and> sv_travel_h a = sv_travel_h b \<and>
     sv_service_h a = sv_service_h b \<and> sv_tail_wh a = sv_tail_wh b"

text \<open>The spans of one side point into one array: equal \<open>data()\<close> is equal offset.\<close>

definition equivalent_pair ::
  "charging_leg list \<Rightarrow> charging_leg list \<Rightarrow> stored_view list \<Rightarrow> stored_view list \<Rightarrow> nat \<Rightarrow> int \<Rightarrow> bool" where
  "equivalent_pair pre_legs suf_legs pres sufs q station \<longleftrightarrow>
     (let p = q - 1; lp = pres ! p; lq = pres ! q;
          rp = sufs ! (p + 1); rq = sufs ! (q + 1)
      in if \<not> same_scalars lp lq \<or> \<not> same_scalars rp rq \<or> sv_count lp = 0 \<or>
            sv_count lq \<noteq> sv_count lp + 1 \<or> sv_offset lq \<noteq> sv_offset lp \<or>
            sv_first_wh lp \<noteq> sv_first_wh lq \<or> sv_count rp \<noteq> sv_count rq + 1 \<or>
            sv_offset rp + 1 \<noteq> sv_offset rq
         then False
         else let added = pre_legs ! (sv_offset lq + sv_count lq - 1);
                  removed = suf_legs ! sv_offset rp
              in if leg_station_id (pre_legs ! (sv_offset lp + sv_count lp - 1)) \<noteq> station \<or>
                    leg_station_id added \<noteq> station \<or> \<not> physical_same_station_predecessor added \<or>
                    energy_from_previous_station_wh added \<noteq> 0 \<or> leg_station_id removed \<noteq> station \<or>
                    \<not> physical_same_station_predecessor removed \<or> sv_first_wh rp \<noteq> 0
                 then False
                 else sv_count rq = 0 \<or>
                      sv_first_wh rq = energy_from_previous_station_wh (suf_legs ! (sv_offset rp + 1)))"

text \<open>The end of the run of equal nodes that starts at \<open>first\<close>.\<close>

function run_end :: "int list \<Rightarrow> nat \<Rightarrow> nat \<Rightarrow> nat" where
  "run_end ns first past =
     (if past + 1 < length ns \<and> ns ! past = ns ! first then run_end ns first (past + 1) else past)"
  by pat_completeness auto
termination by (relation "measure (\<lambda>(ns, first, past). length ns - past)") auto

declare run_end.simps [simp del]

definition link_slots :: "(nat \<Rightarrow> bool) \<Rightarrow> nat \<Rightarrow> nat \<Rightarrow> nat list \<Rightarrow> nat list" where
  "link_slots equivalent first past reps =
     foldl (\<lambda>reps q. if equivalent q then reps[q := reps ! (q - 1)] else reps) reps [first + 1..<past - 1]"

lemma run_end_ge: "past \<le> run_end ns first past"
proof (induction ns first past rule: run_end.induct)
  case (1 ns first past)
  then show ?case by (subst run_end.simps) auto
qed

text \<open>The loop over the runs; \<open>equivalent station q\<close> is the certificate of a slot.\<close>

function representatives ::
  "inst \<Rightarrow> (int \<Rightarrow> nat \<Rightarrow> bool) \<Rightarrow> int list \<Rightarrow> nat \<Rightarrow> nat list \<Rightarrow> nat list result" where
  "representatives I equivalent ns first reps =
     (if first + 1 < length ns
      then let past = run_end ns first (first + 1)
           in if past - first \<ge> 3
              then rbind (canonical_same_station_supported I (ns ! first)) (\<lambda>ok.
                     representatives I equivalent ns past
                       (if ok then link_slots (equivalent (ns ! first)) first past reps else reps))
              else representatives I equivalent ns past reps
      else Inr reps)"
  by pat_completeness auto
termination
proof (relation "measure (\<lambda>(I, e, ns, first, reps). length ns - first)", goal_cases)
  case (2 I equivalent ns first reps past ok)
  then show ?case using run_end_ge [of "first + 1" ns first] by simp
next
  case (3 I equivalent ns first reps past)
  then show ?case using run_end_ge [of "first + 1" ns first] by simp
qed simp

declare representatives.simps [simp del]

section \<open>The constructor\<close>

definition add_visit :: "inst \<Rightarrow> int list \<times> int set \<Rightarrow> int \<Rightarrow> (int list \<times> int set) result" where
  "add_visit I s i =
     (case s of (ns, customers) \<Rightarrow>
       rbind (node_of I i) (\<lambda>n.
         if kind n = Depot then Inl (Invalid_Argument ''the depot is implicit in a route plan'')
         else if kind n = Customer \<and> i \<in> customers
         then Inl (Invalid_Argument ''a route repeats a customer'')
         else Inr (ns @ [i], if kind n = Customer then insert i customers else customers)))"

fun edges_of :: "inst \<Rightarrow> int list \<Rightarrow> charging_label list result" where
  "edges_of I (a # b # ns) =
     rbind (edge_label I a [] b) (\<lambda>e. rbind (edges_of I (b # ns)) (\<lambda>es. Inr (e # es)))"
| "edges_of I _ = Inr []"

definition make_scorer :: "inst \<Rightarrow> plan \<Rightarrow> bool \<Rightarrow> physical_scorer result" where
  "make_scorer I p support_swaps =
     rbind (depot_of I) (\<lambda>d.
     rbind (rfold (add_visit I) ([node_id d], {}) (visits (plan_route p))) (\<lambda>(ns, customers).
     if customers = {} then Inl (Invalid_Argument ''a scored route needs at least one customer'')
     else let ns' = ns @ [node_id d]
     in rbind (edges_of I ns') (\<lambda>edges.
        let (pre_legs, pres) = prefix_views ([], no_view) edges;
            (suf_legs, sufs) = suffix_views (length pre_legs) edges
        in rbind (representatives I
               (\<lambda>station q. equivalent_pair pre_legs suf_legs pres sufs q station)
               ns' 1 [0..<length ns' - 1]) (\<lambda>reps.
           let base = (if support_swaps then grow_base 1 (length edges) else 0)
           in rbind (if support_swaps then range_nodes base edges else Inr []) (\<lambda>ranges.
           Inr \<lparr>ps_nodes = ns', ps_customers = customers, ps_prefix_legs = pre_legs,
                ps_suffix_legs = suf_legs, ps_prefixes = pres, ps_suffixes = sufs,
                ps_representatives = reps, ps_swap_base = base, ps_swap_ranges = ranges\<rparr>)))))"

section \<open>The scores\<close>

definition prefix_at :: "physical_scorer \<Rightarrow> nat \<Rightarrow> charging_view" where
  "prefix_at s i = view_of (ps_prefix_legs s) (ps_prefixes s ! i)"

definition suffix_at :: "physical_scorer \<Rightarrow> nat \<Rightarrow> charging_view" where
  "suffix_at s i = view_of (ps_suffix_legs s) (ps_suffixes s ! i)"

definition if_initialized :: "charging_view \<Rightarrow> charging_view list" where
  "if_initialized v = (if view_initialized v then [v] else [])"

definition and_evaluate ::
  "'a result \<Rightarrow> ('a \<Rightarrow> route_cost_summary result option) \<Rightarrow> route_cost_summary result option" where
  "and_evaluate m f = (case m of Inl e \<Rightarrow> Some (Inl e) | Inr x \<Rightarrow> f x)"

definition is_kind :: "inst \<Rightarrow> node_kind \<Rightarrow> int \<Rightarrow> bool result" where
  "is_kind I k i = rbind (node_of I i) (\<lambda>n. Inr (kind n = k))"

definition evaluate_replacement ::
  "inst \<Rightarrow> physical_scorer \<Rightarrow> nat \<Rightarrow> int \<Rightarrow> route_cost_summary result option" where
  "evaluate_replacement I s position c =
     (if position \<ge> length (ps_nodes s) - 2
      then Some (Inl (Out_Of_Range ''physical replacement position is out of range''))
      else let i = position + 1; ns = ps_nodes s
      in and_evaluate
        (rbind (is_kind I Customer (ns ! i)) (\<lambda>k.
         rbind (if k then is_kind I Customer c else Inr False) (\<lambda>k'.
         if \<not> k' \<or> c \<in> ps_customers s
         then Inl (Invalid_Argument ''physical replacement requires a new customer'')
         else rbind (edge_label I (ns ! (i - 1)) [] c) (\<lambda>incoming.
              rbind (edge_label I c [] (ns ! (i + 1))) (\<lambda>outgoing. Inr (incoming, outgoing))))))
        (\<lambda>(incoming, outgoing). evaluate_views I
           (if_initialized (prefix_at s (i - 1)) @ [view_of_label incoming, view_of_label outgoing] @
            if_initialized (suffix_at s (i + 1)))))"

text \<open>\<open>add\<close> with the bound of the component array.\<close>

definition add_view :: "string \<Rightarrow> charging_view list \<Rightarrow> charging_view \<Rightarrow> charging_view list result" where
  "add_view what vs v =
     (if length vs = 256 then Inl (Length_Error what)
      else Inr (if view_initialized v then vs @ [v] else vs))"

definition range_views :: "physical_scorer \<Rightarrow> nat \<Rightarrow> nat \<Rightarrow> charging_view list" where
  "range_views s first past = map (\<lambda>i. view_of_label (ps_swap_ranges s ! i))
     (cover_nodes (first + ps_swap_base s) (past + ps_swap_base s))"

definition evaluate_swap ::
  "inst \<Rightarrow> physical_scorer \<Rightarrow> nat \<Rightarrow> nat \<Rightarrow> route_cost_summary result option" where
  "evaluate_swap I s first_position second_position =
     (if first_position \<ge> second_position \<or> second_position \<ge> length (ps_nodes s) - 2
      then Some (Inl (Out_Of_Range ''physical Swap positions are invalid''))
      else let a = first_position + 1; b = second_position + 1; ns = ps_nodes s;
               bad = Inl (Invalid_Argument ''physical Swap needs nonadjacent customers and range labels'')
      in and_evaluate
        (if b \<le> a + 1 \<or> ps_swap_ranges s = [] then bad
         else rbind (is_kind I Customer (ns ! a)) (\<lambda>ka.
              rbind (if ka then is_kind I Customer (ns ! b) else Inr False) (\<lambda>kb.
              if \<not> kb then bad
              else rbind (edge_label I (ns ! (a - 1)) [] (ns ! b)) (\<lambda>in_a.
                   rbind (edge_label I (ns ! b) [] (ns ! (a + 1))) (\<lambda>out_a.
                   rbind (edge_label I (ns ! (b - 1)) [] (ns ! a)) (\<lambda>in_b.
                   rbind (edge_label I (ns ! a) [] (ns ! (b + 1))) (\<lambda>out_b.
                   rfold (add_view ''physical Swap range bound'') []
                     ([prefix_at s (a - 1), view_of_label in_a, view_of_label out_a] @
                      range_views s (a + 1) (b - 1) @
                      [view_of_label in_b, view_of_label out_b, suffix_at s (b + 1)]))))))))
        (evaluate_views I))"

definition evaluate_relocate ::
  "inst \<Rightarrow> physical_scorer \<Rightarrow> nat \<Rightarrow> nat \<Rightarrow> route_cost_summary result option" where
  "evaluate_relocate I s position slot =
     (if position \<ge> length (ps_nodes s) - 2 \<or> slot \<ge> length (ps_nodes s) - 1
      then Some (Inl (Out_Of_Range ''physical Relocate positions are invalid''))
      else let a = position + 1; q = slot; ns = ps_nodes s;
               bad = Inl (Invalid_Argument ''physical Relocate needs a customer and range labels'')
      in and_evaluate
        (rbind (is_kind I Customer (ns ! a)) (\<lambda>k.
         if \<not> k \<or> ps_swap_ranges s = [] then bad
         else if q = a - 1 \<or> q = a then Inr [view_of (ps_prefix_legs s) (last (ps_prefixes s))]
         else rbind (edge_label I (ns ! (a - 1)) [] (ns ! (a + 1))) (\<lambda>removal.
              rbind (edge_label I (ns ! q) [] (ns ! a)) (\<lambda>incoming.
              rbind (edge_label I (ns ! a) [] (ns ! (q + 1))) (\<lambda>outgoing.
              rfold (add_view ''physical Relocate range bound'') []
                (if q < a - 1
                 then [prefix_at s q, view_of_label incoming, view_of_label outgoing] @
                      range_views s (q + 1) (a - 1) @ [view_of_label removal, suffix_at s (a + 1)]
                 else [prefix_at s (a - 1), view_of_label removal] @ range_views s (a + 1) q @
                      [view_of_label incoming, view_of_label outgoing, suffix_at s (q + 1)]))))))
        (evaluate_views I))"

text \<open>\<open>insertion_score_representative\<close>, with the range check of \<open>at\<close>.\<close>

definition insertion_score_representative :: "physical_scorer \<Rightarrow> nat \<Rightarrow> nat result" where
  "insertion_score_representative s slot =
     (if slot < length (ps_representatives s) then Inr (ps_representatives s ! slot)
      else Inl (Out_Of_Range ''vector::at''))"

definition evaluate_insertion ::
  "inst \<Rightarrow> physical_scorer \<Rightarrow> nat \<Rightarrow> int \<Rightarrow> route_cost_summary result option" where
  "evaluate_insertion I s slot c =
     (if slot \<ge> length (ps_nodes s) - 1
      then Some (Inl (Out_Of_Range ''physical insertion slot is out of range''))
      else let ns = ps_nodes s
      in and_evaluate
        (rbind (is_kind I Customer c) (\<lambda>k.
         if \<not> k \<or> c \<in> ps_customers s
         then Inl (Invalid_Argument ''physical insertion needs an unvisited customer'')
         else rbind (edge_label I (ns ! slot) [] c) (\<lambda>incoming.
              rbind (edge_label I c [] (ns ! (slot + 1))) (\<lambda>outgoing. Inr (incoming, outgoing)))))
        (\<lambda>(incoming, outgoing). evaluate_views I
           (if_initialized (prefix_at s slot) @ [view_of_label incoming, view_of_label outgoing] @
            if_initialized (suffix_at s (slot + 1)))))"

definition zero_summary :: route_cost_summary where
  "zero_summary = \<lparr>feasible = True, raw_cost_h = 0, total_travel_h = 0, charging_time_h = 0,
     total_service_h = 0, route_duration_h = 0, energy_shortfall_wh = 0, duration_excess_h = 0\<rparr>"

definition evaluate_removal ::
  "inst \<Rightarrow> physical_scorer \<Rightarrow> nat \<Rightarrow> route_cost_summary result option" where
  "evaluate_removal I s position =
     (if position \<ge> length (ps_nodes s) - 2
      then Some (Inl (Out_Of_Range ''physical removal position is out of range''))
      else let i = position + 1; ns = ps_nodes s
      in case is_kind I Customer (ns ! i) of Inl e \<Rightarrow> Some (Inl e)
         | Inr k \<Rightarrow>
             if \<not> k then Some (Inl (Invalid_Argument ''physical removal must remove a customer''))
             else if card (ps_customers s) = 1 then Some (Inr zero_summary)
             else and_evaluate (edge_label I (ns ! (i - 1)) [] (ns ! (i + 1)))
               (\<lambda>shortcut. evaluate_views I
                 (if_initialized (prefix_at s (i - 1)) @ [view_of_label shortcut] @
                  if_initialized (suffix_at s (i + 1)))))"

end
