(* ===== verification/Physical_Scores.thy ===== *)
theory Physical_Scores
  imports Physical_Scorer
begin

text \<open>
  What the scores of \<open>PhysicalRouteScorer\<close> are.  The stored prefix and suffix views read
  back as the labels of the parts of the route, although the suffix array is written while
  views into it exist; the components of each score then append to the label of the edited
  route, and a slot and its representative have the same insertion score.
\<close>

section \<open>A view reads as a label\<close>

definition override :: "real \<Rightarrow> charging_leg list \<Rightarrow> charging_leg list" where
  "override e ls = (case ls of [] \<Rightarrow> [] | l # r \<Rightarrow> l\<lparr>energy_from_previous_station_wh := e\<rparr> # r)"

definition label_of_view :: "charging_view \<Rightarrow> charging_label" where
  "label_of_view v = \<lparr>initialized = view_initialized v, origin_id = view_origin v,
     target_id = view_target v, station_legs = override (view_first_wh v) (view_legs v),
     tail_energy_wh = view_tail_wh v, label_travel_h = view_travel_h v,
     label_service_h = view_service_h v\<rparr>"

lemma override_simps [simp]:
  "override e [] = []" "override e (l # r) = l\<lparr>energy_from_previous_station_wh := e\<rparr> # r"
  by (simp_all add: override_def)

lemma override_first: "override (first_energy_of ls) ls = ls"
  by (cases ls) (simp_all add: first_energy_of_def)

lemma label_of_view_label [simp]: "label_of_view (view_of_label l) = l"
  by (simp add: label_of_view_def view_of_label_def override_first)

lemma initialized_label_of_view [simp]: "initialized (label_of_view v) = view_initialized v"
  by (simp add: label_of_view_def)

lemma view_initialized_label [simp]: "view_initialized (view_of_label l) = initialized l"
  by (simp add: view_of_label_def)

lemma check_views_eq:
  "check_views previous vs = check_components previous (map Some (map label_of_view vs))"
  by (induction previous vs rule: check_views.induct) (simp_all add: label_of_view_def)

lemma merge_view_eq: "merge_view s v = merge_components s (label_of_view v)"
  by (cases s; cases "view_legs v") (simp_all add: label_of_view_def)

lemma evaluate_views_eq: "evaluate_views I vs = evaluate_components I (map Some (map label_of_view vs))"
proof -
  have "foldl merge_view s vs = foldl merge_components s (map label_of_view vs)" for s
    by (induction vs arbitrary: s) (simp_all add: merge_view_eq del: merge_view.simps merge_components.simps)
  moreover have "map view_travel_h vs = map label_travel_h (map label_of_view vs)"
    "map view_service_h vs = map label_service_h (map label_of_view vs)"
    by (simp_all add: label_of_view_def comp_def)
  moreover have "map the (map Some ls) = ls" for ls :: "charging_label list" by (simp add: comp_def)
  moreover have "map Some (map label_of_view vs) = [] \<longleftrightarrow> vs = []" by simp
  ultimately show ?thesis
    by (simp only: evaluate_views_def evaluate_components_def check_views_eq Let_def)
qed

lemma append_all_empty: "initialized l \<Longrightarrow> append_all empty_label (l # ls) = append_all l ls"
  by (simp add: append_all_def) (simp add: empty_label_def)

text \<open>The components of a score are initialised; what they append to is evaluated.\<close>

lemma evaluate_views_append:
  assumes "vs \<noteq> []" and "\<forall>v \<in> set vs. view_initialized v"
    and "append_all empty_label (map label_of_view vs) = Inr l"
  shows "evaluate_views I vs = evaluate_label I l"
proof -
  obtain w ws where vs: "vs = w # ws" using assms(1) by (cases vs) auto
  have "evaluate_views I vs =
      (case append_all (label_of_view w) (map label_of_view ws) of Inl e \<Rightarrow> Some (Inl e)
       | Inr l \<Rightarrow> evaluate_label I l)"
    unfolding evaluate_views_eq vs list.map(2) [of label_of_view]
    by (rule evaluate_components_all) (use assms(2) vs in auto)
  moreover have "append_all (label_of_view w) (map label_of_view ws) = Inr l"
    using assms(2,3) by (simp add: vs append_all_empty)
  ultimately show ?thesis by simp
qed

section \<open>The prefixes\<close>

definition prefix_of :: "inst \<Rightarrow> int \<Rightarrow> int list \<Rightarrow> stored_view" where
  "prefix_of I p xs = (if xs = [] then no_view else
     \<lparr>sv_initialized = True, sv_origin = p, sv_target = last (p # xs), sv_offset = 0,
      sv_count = length (segments I p 0 xs), sv_first_wh = first_energy_of (segments I p 0 xs),
      sv_tail_wh = tail_segment I p 0 xs, sv_travel_h = path_travel I p xs,
      sv_service_h = path_service I xs\<rparr>)"

lemma path_service_simps: "path_service I [] = 0"
  "path_service I (n # ns) = (if kind (the_node I n) = Customer then node_service_time_h (the_node I n) else 0)
     + path_service I ns"
  by (simp_all add: path_service_def)

lemma prefix_step_eq:
  "prefix_step (segments I p 0 xs, prefix_of I p xs) (path_label I (last (p # xs)) [n]) =
    (segments I p 0 (xs @ [n]), prefix_of I p (xs @ [n]))"
proof (cases "xs = []")
  case True
  then show ?thesis
    by (simp add: prefix_step_def prefix_of_def path_label_def no_view_def)
next
  case False
  then show ?thesis
    by (simp add: prefix_step_def prefix_of_def path_label_def segments_append tail_segment_append
        path_travel_append path_service_append add.commute)
qed

abbreviation direct_edges :: "inst \<Rightarrow> int list \<Rightarrow> charging_label list" where
  "direct_edges I \<equiv> path_edges I (\<lambda>_ _. [])"

lemma prefix_views_eq:
  "prefix_views (segments I p 0 xs, prefix_of I p xs) (direct_edges I (last (p # xs) # ns)) =
    (segments I p 0 (xs @ ns), map (\<lambda>i. prefix_of I p (xs @ take i ns)) [0..<Suc (length ns)])"
proof (induction ns arbitrary: xs)
  case (Cons n ns)
  have upt: "[0..<Suc (length (n # ns))] = 0 # map Suc [0..<Suc (length ns)]"
    by (simp add: upt_conv_Cons map_Suc_upt del: upt_Suc)
  have edges: "direct_edges I (last (p # xs) # n # ns) =
      path_label I (last (p # xs)) [n] # direct_edges I (last (p # xs @ [n]) # ns)"
    by simp
  show ?case
    unfolding edges prefix_views.simps prefix_step_eq Cons.IH upt by (simp del: upt_Suc)
qed simp

lemma prefix_views_all:
  "prefix_views ([], no_view) (direct_edges I (p # ns)) =
    (segments I p 0 ns, map (\<lambda>i. prefix_of I p (take i ns)) [0..<Suc (length ns)])"
  using prefix_views_eq [of I p "[]" ns] by (simp add: prefix_of_def del: upt_Suc)

lemma prefix_label:
  assumes "0 < i" and "i \<le> length ns" and "ns \<noteq> []"
  shows "label_of_view (view_of (segments I p 0 ns) (prefix_of I p (take i ns))) = path_label I p (take i ns)"
proof -
  let ?xs = "take i ns"
  have ne: "?xs \<noteq> []" using assms by simp
  have "take (length (segments I p 0 ?xs)) (segments I p 0 (?xs @ drop i ns)) = segments I p 0 ?xs"
    by (simp only: segments_append) simp
  with ne show ?thesis
    by (simp add: label_of_view_def view_of_def prefix_of_def path_label_def override_first del: take_eq_Nil)
qed

section \<open>The suffixes\<close>

definition suffix_of :: "inst \<Rightarrow> nat \<Rightarrow> int \<Rightarrow> int list \<Rightarrow> stored_view" where
  "suffix_of I n p ns = (if ns = [] then no_view else
     \<lparr>sv_initialized = True, sv_origin = p, sv_target = last (p # ns),
      sv_offset = n - length (segments I p 0 ns), sv_count = length (segments I p 0 ns),
      sv_first_wh = first_energy_of (segments I p 0 ns),
      sv_tail_wh = tail_segment I p 0 ns, sv_travel_h = path_travel I p ns,
      sv_service_h = path_service I ns\<rparr>)"

lemma segments_length: "length (segments I p acc ns) = length (filter (\<lambda>n. kind (the_node I n) = Station) ns)"
  by (induction ns arbitrary: p acc) simp_all

lemma segments_empty_iff: "segments I p acc ns = [] \<longleftrightarrow> (\<forall>n \<in> set ns. kind (the_node I n) \<noteq> Station)"
  by (induction ns arbitrary: p acc) auto

text \<open>Equal up to the energy of the first leg, which a view overrides.\<close>

definition agree :: "charging_leg list \<Rightarrow> charging_leg list \<Rightarrow> bool" where
  "agree ls ms \<longleftrightarrow> (\<forall>e. override e ls = override e ms)"

lemma agree_refl: "agree ls ls"
  by (simp add: agree_def)

lemma agree_update_before: "i < k \<Longrightarrow> agree ls (drop k arr) \<Longrightarrow> agree ls (drop k (arr[i := x]))"
  by (simp add: agree_def)

lemma agree_update_energy:
  assumes "i \<le> k" and "agree ls (drop k arr)"
  shows "agree ls (drop k (arr[i := (arr ! i)\<lparr>energy_from_previous_station_wh := e\<rparr>]))"
proof (cases "i = k \<and> k < length arr")
  case True
  then have "drop k (arr[i := x]) = x # drop (Suc k) arr" for x
    by (simp add: Cons_nth_drop_Suc [symmetric])
  moreover have "drop k arr = arr ! k # drop (Suc k) arr" using True by (simp add: Cons_nth_drop_Suc)
  ultimately show ?thesis using assms(2) True by (simp add: agree_def)
next
  case False
  then show ?thesis
    using assms by (cases "i < k") (auto simp: agree_update_before)
qed

definition suffix_state :: "inst \<Rightarrow> nat \<Rightarrow> int \<Rightarrow> int list \<Rightarrow> charging_leg list \<times> nat \<times> stored_view list \<Rightarrow> bool" where
  "suffix_state I n p ns s \<longleftrightarrow> (case s of (arr, first, vs) \<Rightarrow>
     length arr = n \<and> first = n - length (segments I p 0 ns) \<and> drop first arr = segments I p 0 ns \<and>
     vs = map (\<lambda>i. suffix_of I n ((p # ns) ! i) (drop i ns)) [0..<Suc (length ns)] \<and>
     (\<forall>i \<le> length ns. agree (segments I ((p # ns) ! i) 0 (drop i ns))
        (drop (n - length (segments I ((p # ns) ! i) 0 (drop i ns))) arr)))"

lemma suffix_state_start: "suffix_state I n p [] (replicate n default_leg, n, [no_view])"
  by (simp add: suffix_state_def suffix_of_def agree_def)

text \<open>The rewrite of the first leg when an edge without a station is put in front.\<close>

definition head_energy :: "charging_leg list \<Rightarrow> nat \<Rightarrow> real \<Rightarrow> charging_leg list" where
  "head_energy arr i e = arr[i := (arr ! i)\<lparr>energy_from_previous_station_wh := e\<rparr>]"

lemma suffix_step_direct:
  assumes s: "suffix_state I n m ns (arr, first, vs)" and "kind (the_node I m) \<noteq> Station"
  shows "\<exists>arr'. suffix_step (path_label I p [m]) (arr, first, vs) =
      (arr', first, suffix_of I n p (m # ns) # vs) \<and> length arr' = n \<and>
      (arr' = arr \<or> (\<exists>e. arr' = head_energy arr first e)) \<and> drop first arr' = segments I p 0 (m # ns)"
proof -
  let ?L = "segments I m 0 ns" and ?e = "leg_energy I p m"
  have len: "length arr = n" and first: "first = n - length ?L" and d: "drop first arr = ?L"
    and vs: "hd vs = suffix_of I n m ns"
    using s by (auto simp: suffix_state_def upt_conv_Cons simp del: upt_Suc)
  have seg: "segments I p 0 (m # ns) = (case ?L of [] \<Rightarrow> []
     | l # ls \<Rightarrow> l\<lparr>energy_from_previous_station_wh := energy_from_previous_station_wh l + ?e\<rparr> # ls)"
    using segments_shift [of I m 0 ?e ns] assms(2) by simp
  have tail: "tail_segment I p 0 (m # ns) = (if ?L = [] then tail_segment I m 0 ns + ?e else tail_segment I m 0 ns)"
    using tail_shift [of I m 0 ?e ns] assms(2) by simp
  have lab: "station_legs (path_label I p [m]) = []" "tail_energy_wh (path_label I p [m]) = ?e"
    "label_travel_h (path_label I p [m]) = leg_travel I p m"
    "label_service_h (path_label I p [m]) = path_service I [m]"
    using assms(2) by (simp_all add: path_label_def)
  show ?thesis
  proof (cases ?L)
    case Nil
    then have "first = n" using first by simp
    with Nil len seg tail lab vs show ?thesis
      by (auto simp: suffix_step_def suffix_of_def Let_def no_view_def first_energy_of_def path_service_simps
          simp del: segments.simps(2) tail_segment.simps(2))
  next
    case (Cons l ls)
    then have ne: "ns \<noteq> []" by auto
    have lt: "first < length arr" using d Cons by (metis drop_all leI list.distinct(1))
    have at: "arr ! first = l" "drop (Suc first) arr = ls"
      using d Cons lt by (simp_all add: Cons_nth_drop_Suc [symmetric])
    let ?arr = "head_energy arr first (energy_from_previous_station_wh l + ?e)"
    have d': "drop first ?arr = segments I p 0 (m # ns)"
      using lt at seg Cons by (simp add: head_energy_def Cons_nth_drop_Suc [symmetric])
    have cnt: "n - first = length ?L" using first d len lt by (metis length_drop)
    have "suffix_step (path_label I p [m]) (arr, first, vs) = (?arr, first, suffix_of I n p (m # ns) # vs)"
      using Cons ne cnt len seg tail lab vs at lt first
      by (simp add: suffix_step_def suffix_of_def Let_def first_energy_of_def head_energy_def path_service_simps
          del: segments.simps tail_segment.simps)
    with d' len show ?thesis by (auto simp: head_energy_def)
  qed
qed


lemma suffix_step_station:
  assumes s: "suffix_state I n m ns (arr, first, vs)" and st: "kind (the_node I m) = Station"
    and room: "0 < first"
  shows "\<exists>arr1. suffix_step (path_label I p [m]) (arr, first, vs) =
      (arr1[first - 1 := hd (segments I p 0 [m])], first - 1, suffix_of I n p (m # ns) # vs) \<and>
      (arr1 = arr \<or> (\<exists>e. arr1 = head_energy arr first e)) \<and> drop first arr1 = segments I m 0 ns"
proof -
  let ?L = "segments I m 0 ns"
  define leg where "leg = \<lparr>leg_station_id = m, energy_from_previous_station_wh = leg_energy I p m,
    physical_same_station_predecessor = (p = m)\<rparr>"
  have one: "segments I p 0 [m] = [leg]" using st by (simp add: leg_def)
  have len: "length arr = n" and first: "first = n - length ?L" and d: "drop first arr = ?L"
    and vs: "hd vs = suffix_of I n m ns"
    using s by (auto simp: suffix_state_def upt_conv_Cons simp del: upt_Suc)
  have seg: "segments I p 0 (m # ns) = leg # ?L" using st by (simp add: leg_def)
  have tail: "tail_segment I p 0 (m # ns) = tail_segment I m 0 ns" using st by simp
  have lab: "station_legs (path_label I p [m]) = [leg]" "tail_energy_wh (path_label I p [m]) = 0"
    "label_travel_h (path_label I p [m]) = leg_travel I p m"
    "label_service_h (path_label I p [m]) = path_service I [m]"
    using st by (simp_all add: path_label_def leg_def)
  have le: "first \<le> n" using first by simp
  have cnt: "n - first = length ?L" using first d len by (metis length_drop)
  have cnt1: "n - (first - Suc 0) = Suc (length ?L)" using cnt room le by simp
  have off: "n - Suc (length ?L) = first - Suc 0" using cnt room le by simp
  show ?thesis
  proof (cases ?L)
    case Nil
    then have fn: "first = n" using first by simp
    have "suffix_step (path_label I p [m]) (arr, first, vs) =
        (arr[first - 1 := leg], first - 1, suffix_of I n p (m # ns) # vs)"
      using Nil fn len seg tail lab vs room
      by (cases ns) (simp_all add: suffix_step_def suffix_of_def Let_def no_view_def first_energy_of_def
          path_service_simps del: segments.simps(2))
    with d Nil one show ?thesis by (intro exI [of _ arr]) simp
  next
    case (Cons l ls)
    then have ne: "ns \<noteq> []" by auto
    have lt: "first < length arr" using d Cons by (metis drop_all leI list.distinct(1))
    have at: "arr ! first = l" "drop (Suc first) arr = ls"
      using d Cons lt by (simp_all add: Cons_nth_drop_Suc [symmetric])
    let ?arr = "head_energy arr first (energy_from_previous_station_wh l)"
    have "suffix_step (path_label I p [m]) (arr, first, vs) =
        (?arr[first - 1 := leg], first - 1, suffix_of I n p (m # ns) # vs)"
      using Cons ne cnt1 off len one seg tail lab vs at lt first room
      by (simp add: suffix_step_def suffix_of_def Let_def first_energy_of_def head_energy_def path_service_simps
          del: segments.simps tail_segment.simps)
    moreover have "drop first ?arr = ?L"
      using lt at Cons by (simp add: head_energy_def Cons_nth_drop_Suc [symmetric])
    ultimately show ?thesis using one by (intro exI [of _ ?arr]) auto
  qed
qed

text \<open>The views made before a step still agree with the array after it.\<close>

lemma agree_older:
  assumes "suffix_state I n m ns (arr, first, vs)"
    and "arr1 = arr \<or> (\<exists>e. arr1 = head_energy arr first e)" and "i \<le> length ns"
  shows "agree (segments I ((m # ns) ! i) 0 (drop i ns))
    (drop (n - length (segments I ((m # ns) ! i) 0 (drop i ns))) arr1)"
proof -
  let ?S = "segments I ((m # ns) ! i) 0 (drop i ns)"
  have "length ?S \<le> length (segments I m 0 ns)"
  proof -
    have "length (filter (\<lambda>n. kind (the_node I n) = Station) (drop i ns))
        \<le> length (filter (\<lambda>n. kind (the_node I n) = Station) (take i ns @ drop i ns))"
      by (simp only: filter_append length_append)
    then show ?thesis by (simp add: segments_length)
  qed
  then have "first \<le> n - length ?S" "agree ?S (drop (n - length ?S) arr)"
    using assms(1,3) by (auto simp: suffix_state_def)
  with assms(2) agree_update_energy show ?thesis by (auto simp: head_energy_def)
qed

lemma suffix_step_state:
  assumes s: "suffix_state I n m ns (arr, first, vs)"
    and room: "length (segments I p 0 (m # ns)) \<le> n"
  shows "suffix_state I n p (m # ns) (suffix_step (path_label I p [m]) (arr, first, vs))"
proof -
  have first: "first = n - length (segments I m 0 ns)" and len: "length arr = n"
    and vs: "vs = map (\<lambda>i. suffix_of I n ((m # ns) ! i) (drop i ns)) [0..<Suc (length ns)]"
    using s by (auto simp: suffix_state_def simp del: upt_Suc)
  have views: "suffix_of I n p (m # ns) # vs =
      map (\<lambda>i. suffix_of I n ((p # m # ns) ! i) (drop i (m # ns))) [0..<Suc (length (m # ns))]"
  proof -
    have upt: "[0..<Suc (length (m # ns))] = 0 # map Suc [0..<Suc (length ns)]"
      by (simp add: upt_conv_Cons map_Suc_upt del: upt_Suc)
    show ?thesis unfolding upt vs by (simp del: upt_Suc)
  qed
  have all: "\<forall>i \<le> length (m # ns). agree (segments I ((p # m # ns) ! i) 0 (drop i (m # ns)))
        (drop (n - length (segments I ((p # m # ns) ! i) 0 (drop i (m # ns)))) arr')"
    if now: "drop (n - length (segments I p 0 (m # ns))) arr' = segments I p 0 (m # ns)"
      and old: "\<And>i. i \<le> length ns \<Longrightarrow> agree (segments I ((m # ns) ! i) 0 (drop i ns))
        (drop (n - length (segments I ((m # ns) ! i) 0 (drop i ns))) arr')" for arr'
  proof (intro allI impI)
    fix i assume "i \<le> length (m # ns)"
    then show "agree (segments I ((p # m # ns) ! i) 0 (drop i (m # ns)))
        (drop (n - length (segments I ((p # m # ns) ! i) 0 (drop i (m # ns)))) arr')"
      using old [of "i - 1"] now by (cases i) (simp_all add: agree_refl del: segments.simps)
  qed
  show ?thesis
  proof (cases "kind (the_node I m) = Station")
    case True
    then have len2: "length (segments I p 0 (m # ns)) = Suc (length (segments I m 0 ns))" by simp
    then have pos: "0 < first" using room first by simp
    let ?leg = "hd (segments I p 0 [m])"
    obtain arr1 where step: "suffix_step (path_label I p [m]) (arr, first, vs) =
        (arr1[first - 1 := ?leg], first - 1, suffix_of I n p (m # ns) # vs)"
      and arr1: "arr1 = arr \<or> (\<exists>e. arr1 = head_energy arr first e)"
      and d: "drop first arr1 = segments I m 0 ns"
      using suffix_step_station [OF s True pos] by blast
    have len1: "length arr1 = n" using arr1 len by (auto simp: head_energy_def)
    have now: "drop (first - 1) (arr1[first - 1 := ?leg]) = segments I p 0 (m # ns)"
    proof -
      have "first - 1 < length arr1" using pos first len1 by simp
      then have "drop (first - 1) (arr1[first - 1 := ?leg]) = ?leg # drop first arr1"
        using pos by (simp add: Cons_nth_drop_Suc [symmetric])
      then show ?thesis using d True by simp
    qed
    have fst2: "first - 1 = n - length (segments I p 0 (m # ns))" using len2 first pos by simp
    have older: "agree (segments I ((m # ns) ! i) 0 (drop i ns))
        (drop (n - length (segments I ((m # ns) ! i) 0 (drop i ns))) (arr1[first - 1 := ?leg]))"
      if i: "i \<le> length ns" for i
    proof (rule agree_update_before [OF _ agree_older [OF s arr1 i]])
      have "length (filter (\<lambda>n. kind (the_node I n) = Station) (drop i ns))
          \<le> length (filter (\<lambda>n. kind (the_node I n) = Station) (take i ns @ drop i ns))"
        by (simp only: filter_append length_append)
      then have "length (segments I ((m # ns) ! i) 0 (drop i ns)) \<le> length (segments I m 0 ns)"
        by (simp add: segments_length)
      then show "first - 1 < n - length (segments I ((m # ns) ! i) 0 (drop i ns))"
        using pos first by simp
    qed
    define arr' where "arr' = arr1[first - 1 := ?leg]"
    note now' = now [folded arr'_def] and older' = older [folded arr'_def]
    have "\<forall>i \<le> length (m # ns). agree (segments I ((p # m # ns) ! i) 0 (drop i (m # ns)))
        (drop (n - length (segments I ((p # m # ns) ! i) 0 (drop i (m # ns)))) arr')"
      by (rule all [OF now' [unfolded fst2] older'])
    then show ?thesis
      unfolding suffix_state_def step views using now' len1 fst2
      by (simp only: prod.case arr'_def [symmetric]) (simp add: arr'_def)
  next
    case False
    obtain arr' where step: "suffix_step (path_label I p [m]) (arr, first, vs) =
        (arr', first, suffix_of I n p (m # ns) # vs)" and len1: "length arr' = n"
      and arr': "arr' = arr \<or> (\<exists>e. arr' = head_energy arr first e)"
      and now: "drop first arr' = segments I p 0 (m # ns)"
      using suffix_step_direct [OF s False] by blast
    have fst2: "first = n - length (segments I p 0 (m # ns))" using first False by (simp add: segments_length)
    from all [OF now [unfolded fst2] agree_older [OF s arr']] show ?thesis
      unfolding suffix_state_def step views using now len1 fst2 by (simp only: prod.case) simp
  qed
qed

lemma suffix_views_state:
  "length (segments I p 0 ns) \<le> n \<Longrightarrow>
    suffix_state I n p ns (foldr suffix_step (direct_edges I (p # ns)) (replicate n default_leg, n, [no_view]))"
proof (induction ns arbitrary: p)
  case Nil
  then show ?case by (simp add: suffix_state_start)
next
  case (Cons m ns)
  have "length (segments I m 0 ns) \<le> length (segments I p 0 (m # ns))"
    by (simp add: segments_length)
  with Cons have ih: "suffix_state I n m ns
      (foldr suffix_step (direct_edges I (m # ns)) (replicate n default_leg, n, [no_view]))" by simp
  obtain arr first vs where st:
    "foldr suffix_step (direct_edges I (m # ns)) (replicate n default_leg, n, [no_view]) = (arr, first, vs)"
    by (rule prod_cases3)
  show ?case
    using suffix_step_state [OF ih [unfolded st] Cons.prems] st by simp
qed

lemma suffix_label:
  assumes "i < length ns" and "suffix_views n (direct_edges I (p # ns)) = (arr, vs)"
    and "length (segments I p 0 ns) \<le> n"
  shows "label_of_view (view_of arr (vs ! i)) = path_label I ((p # ns) ! i) (drop i ns)"
proof -
  let ?S = "segments I ((p # ns) ! i) 0 (drop i ns)"
  obtain first where "foldr suffix_step (direct_edges I (p # ns)) (replicate n default_leg, n, [no_view]) =
      (arr, first, vs)"
    using assms(2) by (auto simp: suffix_views_def split: prod.splits)
  with suffix_views_state [OF assms(3)] have st: "suffix_state I n p ns (arr, first, vs)" by simp
  then have v: "vs ! i = suffix_of I n ((p # ns) ! i) (drop i ns)" and len: "length arr = n"
    and agr: "agree ?S (drop (n - length ?S) arr)"
    using assms(1) by (auto simp: suffix_state_def simp del: upt_Suc)
  have "length ?S \<le> n"
  proof -
    have "length (filter (\<lambda>n. kind (the_node I n) = Station) (drop i ns))
        \<le> length (filter (\<lambda>n. kind (the_node I n) = Station) (take i ns @ drop i ns))"
      by (simp only: filter_append length_append)
    then show ?thesis using assms(3) by (simp add: segments_length)
  qed
  then have "take (length ?S) (drop (n - length ?S) arr) = drop (n - length ?S) arr" using len by simp
  moreover have "override (first_energy_of ?S) (drop (n - length ?S) arr) = ?S"
    using agr override_first [of ?S] by (simp add: agree_def)
  ultimately show ?thesis
    using assms(1) by (simp add: v label_of_view_def view_of_def suffix_of_def path_label_def)
qed

lemma suffix_last:
  assumes "suffix_views n (direct_edges I (p # ns)) = (arr, vs)" and "length (segments I p 0 ns) \<le> n"
  shows "vs ! length ns = no_view" and "length vs = Suc (length ns)"
proof -
  obtain first where "foldr suffix_step (direct_edges I (p # ns)) (replicate n default_leg, n, [no_view]) =
      (arr, first, vs)"
    using assms(1) by (auto simp: suffix_views_def split: prod.splits)
  with suffix_views_state [OF assms(2)] have "suffix_state I n p ns (arr, first, vs)" by simp
  then have "vs = map (\<lambda>i. suffix_of I n ((p # ns) ! i) (drop i ns)) [0..<Suc (length ns)]"
    by (auto simp: suffix_state_def simp del: upt_Suc)
  then show "vs ! length ns = no_view" "length vs = Suc (length ns)"
    by (auto simp: suffix_of_def nth_append)
qed


section \<open>The constructed scorer\<close>

lemma edges_of_eq:
  assumes "inst_ok I" and "set ns \<subseteq> set (ids I)"
  shows "edges_of I ns = Inr (direct_edges I ns)"
  using assms
proof (induction I ns rule: edges_of.induct)
  case (1 I a b ns)
  then show ?case using edge_label_eq [of I a b "[]"] by simp
qed simp_all

lemma add_visits_eq:
  assumes "inst_ok I" and "physical_visits I vs" and "distinct (filter (is_customer I) vs)"
    and "customers \<inter> set (filter (is_customer I) vs) = {}"
  shows "rfold (add_visit I) (ns, customers) vs = Inr (ns @ vs, customers \<union> set (filter (is_customer I) vs))"
  using assms(2-4)
proof (induction vs arbitrary: ns customers)
  case (Cons v vs)
  then have v: "node_of I v = Inr (the_node I v)" "kind (the_node I v) \<noteq> Depot"
    using node_of_known(1) [OF assms(1)] by (simp_all add: physical_visits_def)
  have "physical_visits I vs" using Cons.prems(1) by (simp add: physical_visits_def)
  moreover have "add_visit I (ns, customers) v =
      Inr (ns @ [v], if is_customer I v then insert v customers else customers)"
    using v Cons.prems(3) by (auto simp: add_visit_def is_customer_def)
  ultimately show ?case using Cons by (cases "is_customer I v") auto
qed simp

text \<open>The errors of the constructor's loop.\<close>

lemma supported_total:
  assumes "inst_ok I" and "curves_ok I" and "i \<in> set (ids I)"
  shows "\<exists>v. canonical_same_station_supported I i = Inr v \<and> (v \<longrightarrow> known_station I i)"
proof (cases "kind (the_node I i) = Station")
  case True
  with assms supported_known [OF assms(1,2), of i] show ?thesis by (auto simp: known_station_def)
next
  case False
  then show ?thesis using node_of_known(1) [OF assms(1,3)]
    by (intro exI [of _ False]) (simp add: canonical_same_station_supported_def)
qed

lemma link_slots_length [simp]: "length (link_slots e first past reps) = length reps"
proof -
  have "length (foldl (\<lambda>reps q. if e q then reps[q := reps ! (q - 1)] else reps) reps qs) = length reps" for qs
    by (induction qs arbitrary: reps) auto
  then show ?thesis by (simp add: link_slots_def)
qed

text \<open>
  What the constructor returns for the visits \<open>vs\<close>: the nodes with the two depots, the
  stored views of every prefix and suffix, and the segment tree when it was asked for.
\<close>

definition scorer_of :: "inst \<Rightarrow> int list \<Rightarrow> bool \<Rightarrow> physical_scorer \<Rightarrow> bool" where
  "scorer_of I vs swaps s \<longleftrightarrow>
     (let d = depot_id I; ns = vs @ [d]; edges = direct_edges I (d # ns)
      in ps_nodes s = d # ns \<and> ps_customers s = set (filter (is_customer I) vs) \<and>
         ps_prefix_legs s = segments I d 0 ns \<and>
         ps_prefixes s = map (\<lambda>i. prefix_of I d (take i ns)) [0..<Suc (length ns)] \<and>
         suffix_views (length (segments I d 0 ns)) edges = (ps_suffix_legs s, ps_suffixes s) \<and>
         representatives I
           (\<lambda>station q. equivalent_pair (ps_prefix_legs s) (ps_suffix_legs s) (ps_prefixes s)
              (ps_suffixes s) q station) (d # ns) 1 [0..<length ns] = Inr (ps_representatives s) \<and>
         (if swaps then ps_swap_base s = grow_base 1 (length edges) \<and>
            range_nodes (ps_swap_base s) edges = Inr (ps_swap_ranges s)
          else ps_swap_ranges s = []))"

lemma representatives_ok:
  assumes I: "inst_ok I" "curves_ok I" and ns: "set ns \<subseteq> set (ids I)"
  shows "\<exists>r. representatives I e ns first reps = Inr r \<and> length r = length reps"
proof (induction "length ns - first" arbitrary: first reps rule: less_induct)
  case less
  show ?case
  proof (cases "first + 1 < length ns")
    case True
    let ?past = "run_end ns first (first + 1)"
    have "first < ?past" using run_end_ge [of "first + 1" ns first] by simp
    then have shorter: "length ns - ?past < length ns - first" using True by simp
    have "ns ! first \<in> set (ids I)" using ns True by (auto simp: nth_mem subset_iff)
    then obtain ok where ok: "canonical_same_station_supported I (ns ! first) = Inr ok"
      using supported_total [OF I] by blast
    let ?reps = "if ok then link_slots (e (ns ! first)) first ?past reps else reps"
    show ?thesis
      using less [OF shorter, of ?reps] less [OF shorter, of reps] True ok
      by (subst representatives.simps) (auto simp: Let_def)
  qed (subst representatives.simps, simp)
qed

lemma make_scorer_ok:
  assumes I: "inst_ok I" "curves_ok I" and vs: "physical_visits I (visits (plan_route p))"
    and cs: "distinct (filter (is_customer I) (visits (plan_route p)))"
      "filter (is_customer I) (visits (plan_route p)) \<noteq> []"
  shows "\<exists>s. make_scorer I p swaps = Inr s \<and> scorer_of I (visits (plan_route p)) swaps s"
proof -
  let ?d = "depot_id I" and ?vs = "visits (plan_route p)"
  let ?ns = "?vs @ [?d]"
  let ?edges = "direct_edges I (?d # ?ns)"
  have d: "?d \<in> set (ids I)" by (rule known_lookups(1) [OF I(1)])
  have depot: "depot_of I = Inr (the_node I ?d)" "node_id (the_node I ?d) = ?d"
    using node_of_known [OF I(1) d] by (simp_all add: depot_of_def)
  have known: "set (?d # ?ns) \<subseteq> set (ids I)" using vs d by (auto simp: physical_visits_def)
  have visits: "rfold (add_visit I) ([?d], {}) ?vs = Inr (?d # ?vs, set (filter (is_customer I) ?vs))"
    using add_visits_eq [OF I(1) vs cs(1), of "{}" "[?d]"] by simp
  obtain arr sufs where suf: "suffix_views (length (segments I ?d 0 ?ns)) ?edges = (arr, sufs)"
    by (cases "suffix_views (length (segments I ?d 0 ?ns)) ?edges")
  let ?pres = "map (\<lambda>i. prefix_of I ?d (take i ?ns)) [0..<Suc (length ?ns)]"
  obtain reps where reps: "representatives I (\<lambda>station q. equivalent_pair (segments I ?d 0 ?ns) arr ?pres sufs q station)
      (?d # ?ns) 1 [0..<length ?ns] = Inr reps"
    using representatives_ok [OF I known] by blast
  let ?base = "grow_base 1 (length ?edges)"
  obtain ranges where ranges: "range_nodes ?base ?edges = Inr ranges"
    using range_nodes_ok [OF grow_base_props [OF pow2_1] path_edges_contiguous, of I "\<lambda>_ _. []" "?d # ?ns"]
    by auto
  have nonempty: "set (filter (is_customer I) ?vs) \<noteq> {}" using cs(2) by (simp only: set_empty not_False_eq_True)
  note steps = prefix_views_all [of I ?d ?ns] edges_of_eq [OF I(1) known] suf reps ranges
  have "make_scorer I p swaps = Inr \<lparr>ps_nodes = ?d # ?ns, ps_customers = set (filter (is_customer I) ?vs),
      ps_prefix_legs = segments I ?d 0 ?ns, ps_suffix_legs = arr, ps_prefixes = ?pres, ps_suffixes = sufs,
      ps_representatives = reps, ps_swap_base = (if swaps then ?base else 0),
      ps_swap_ranges = (if swaps then ranges else [])\<rparr>"
    unfolding make_scorer_def depot(1) rbind_Inr depot(2) visits Let_def prod.case append_Cons
      if_not_P [OF nonempty] steps(2) steps(1)
    using suf reps ranges by (simp del: upt_Suc path_edges_length)
  then show ?thesis
    using suf reps ranges by (simp add: scorer_of_def Let_def del: upt_Suc path_edges_length)
qed

section \<open>What the components append to\<close>

lemma scorer_prefix:
  assumes "scorer_of I vs swaps s" and "i \<le> Suc (length vs)"
  shows "map label_of_view (if_initialized (prefix_at s i)) =
    (if i = 0 then [] else [path_label I (depot_id I) (take i (vs @ [depot_id I]))])"
proof -
  let ?d = "depot_id I"
  let ?ns = "vs @ [?d]"
  have "ps_prefixes s ! i = prefix_of I ?d (take i ?ns)"
    using assms by (simp add: scorer_of_def Let_def del: upt_Suc)
  moreover have "ps_prefix_legs s = segments I ?d 0 ?ns" using assms by (simp add: scorer_of_def Let_def)
  ultimately have at: "prefix_at s i = view_of (segments I ?d 0 ?ns) (prefix_of I ?d (take i ?ns))"
    by (simp add: prefix_at_def)
  show ?thesis
  proof (cases "i = 0")
    case True
    then show ?thesis unfolding at by (simp add: if_initialized_def view_of_def prefix_of_def no_view_def)
  next
    case False
    then have "label_of_view (prefix_at s i) = path_label I ?d (take i ?ns)"
      unfolding at using assms(2) by (intro prefix_label) auto
    moreover from this have "view_initialized (prefix_at s i)"
      by (metis initialized_label_of_view path_label_initialized)
    ultimately show ?thesis using False by (simp add: if_initialized_def)
  qed
qed

lemma scorer_suffix:
  assumes "scorer_of I vs swaps s" and "i \<le> Suc (length vs)"
  shows "map label_of_view (if_initialized (suffix_at s i)) =
    (if i = Suc (length vs) then []
     else [path_label I ((depot_id I # vs @ [depot_id I]) ! i) (drop i (vs @ [depot_id I]))])"
proof -
  let ?d = "depot_id I"
  let ?ns = "vs @ [?d]"
  have suf: "suffix_views (length (segments I ?d 0 ?ns)) (direct_edges I (?d # ?ns)) = (ps_suffix_legs s, ps_suffixes s)"
    using assms(1) by (simp add: scorer_of_def Let_def)
  show ?thesis
  proof (cases "i = Suc (length vs)")
    case True
    with suffix_last(1) [OF suf] show ?thesis
      by (simp add: suffix_at_def if_initialized_def view_of_def no_view_def)
  next
    case False
    with assms(2) have "label_of_view (suffix_at s i) = path_label I ((?d # ?ns) ! i) (drop i ?ns)"
      unfolding suffix_at_def by (intro suffix_label [OF _ suf]) auto
    moreover from this have "view_initialized (suffix_at s i)"
      by (metis initialized_label_of_view path_label_initialized)
    ultimately show ?thesis using False by (simp add: if_initialized_def)
  qed
qed

lemma last_take_nodes: "i \<le> length ns \<Longrightarrow> last (d # take i ns) = (d # ns) ! i"
proof (cases i)
  case (Suc k)
  assume "i \<le> length ns"
  with Suc show ?thesis by (simp add: take_Suc_conv_app_nth)
qed simp

lemma append_all_Nil: "append_all a [] = Inr a"
  by (simp add: append_all_def)

lemma append_all_append: "append_all a (xs @ ys) = rbind (append_all a xs) (\<lambda>b. append_all b ys)"
  by (simp add: append_all_def rfold_append)

lemma append_all_path:
  "append_all (path_label I p xs) (path_label I (last (p # xs)) ys # ls) = append_all (path_label I p (xs @ ys)) ls"
  using append_path_label [of I p xs ys] by (simp add: append_all_def del: last.simps)

text \<open>The prefix, then a path from where it ends.\<close>

lemma append_from_prefix:
  assumes "scorer_of I vs swaps s" and "i \<le> Suc (length vs)" and "q = (depot_id I # vs @ [depot_id I]) ! i"
  shows "append_all empty_label (map label_of_view (if_initialized (prefix_at s i)) @ path_label I q xs # ls) =
    append_all (path_label I (depot_id I) (take i (vs @ [depot_id I]) @ xs)) ls"
proof (cases "i = 0")
  case True
  with assms show ?thesis by (simp add: scorer_prefix append_all_empty)
next
  case False
  let ?d = "depot_id I" and ?pre = "take i (vs @ [depot_id I])"
  have q: "q = last (?d # ?pre)" using last_take_nodes [of i "vs @ [?d]" ?d] assms(2,3) by simp
  have "map label_of_view (if_initialized (prefix_at s i)) = [path_label I ?d ?pre]"
    using False scorer_prefix [OF assms(1,2)] by simp
  then show ?thesis
    by (simp add: append_all_empty append_all_path q del: last.simps)
qed

text \<open>A path that ends where the suffix starts, then the suffix.\<close>

lemma append_suffix:
  assumes "scorer_of I vs swaps s" and "i \<le> Suc (length vs)"
    and "last (depot_id I # ys) = (depot_id I # vs @ [depot_id I]) ! i"
  shows "append_all (path_label I (depot_id I) ys) (map label_of_view (if_initialized (suffix_at s i))) =
    Inr (path_label I (depot_id I) (ys @ drop i (vs @ [depot_id I])))"
proof (cases "i = Suc (length vs)")
  case True
  with scorer_suffix [OF assms(1,2)] show ?thesis by (simp add: append_all_def)
next
  case False
  let ?d = "depot_id I" and ?rest = "drop i (vs @ [depot_id I])"
  have "map label_of_view (if_initialized (suffix_at s i)) = [path_label I (last (?d # ys)) ?rest]"
    using False scorer_suffix [OF assms(1,2)] unfolding assms(3) by simp
  then show ?thesis by (simp only: append_all_path) (simp add: append_all_def)
qed

text \<open>A range of the segment tree extends a path by the nodes of the range.\<close>

lemma append_range_views:
  assumes s: "scorer_of I vs True s" and ij: "i \<le> j" "j \<le> Suc (length vs)"
    and last: "last (depot_id I # ys) = (depot_id I # vs @ [depot_id I]) ! i" and ys: "ys \<noteq> []"
  shows "append_all (path_label I (depot_id I) ys) (map label_of_view (range_views s i j)) =
      Inr (path_label I (depot_id I) (ys @ take (j - i) (drop i (vs @ [depot_id I]))))"
    and "\<forall>v \<in> set (range_views s i j). view_initialized v"
    and "Suc (length vs) < 2 ^ 60 \<Longrightarrow> length (range_views s i j) \<le> 126"
proof -
  let ?d = "depot_id I"
  let ?nodes = "?d # vs @ [?d]"
  let ?edges = "direct_edges I ?nodes" and ?base = "ps_swap_base s" and ?rs = "ps_swap_ranges s"
  have base: "?base = grow_base 1 (length ?edges)" and rs: "range_nodes ?base ?edges = Inr ?rs"
    using s by (auto simp: scorer_of_def Let_def simp del: path_edges_length)
  have len: "length ?edges = Suc (length vs)" by simp
  have b: "length ?edges \<le> ?base" "pow2 ?base"
    unfolding base by (rule grow_base_props [OF pow2_1])+
  obtain nodes' where nodes': "range_nodes ?base ?edges = Inr nodes'" "joined ?base 1 nodes'"
    "\<forall>k < length ?edges. nodes' ! (?base + k) = ?edges ! k"
    using range_nodes_ok [OF b(2,1) path_edges_contiguous] by blast
  then have j: "joined ?base 1 ?rs" and leaves: "\<forall>k < length ?edges. ?rs ! (?base + k) = ?edges ! k"
    using rs by simp_all
  have lr: "1 \<le> i + ?base" "j + ?base \<le> 2 * ?base" using b pow2_pos [OF b(2)] ij len by simp_all
  have ok: "tree_ok ?edges \<lparr>tree_base = ?base, edge_count = length ?edges, tree_nodes = ?rs\<rparr>"
    using b j leaves pow2_pos [OF b(2)] by (simp add: tree_ok_def del: path_edges_length)
  have labels: "map label_of_view (range_views s i j) = map ((!) ?rs) (cover_nodes (i + ?base) (j + ?base))"
    by (simp add: range_views_def comp_def)
  have slice: "map ((!) ?rs) [i + ?base..<j + ?base] = direct_edges I (take (Suc j - i) (drop i ?nodes))"
  proof -
    have "j \<le> length ?edges" using ij len by simp
    then have "map ((!) ?rs) [i + ?base..<j + ?base] = take (j - i) (drop i ?edges)"
      using leaf_range [OF ok ij(1)] by simp
    then show ?thesis using path_edges_slice [of i ?nodes j I "\<lambda>_ _. []"] ij by simp
  qed
  obtain zs where zs: "ys = zs @ [?nodes ! i]" using last ys by (metis append_butlast_last_id last_ConsR)
  let ?part = "take (Suc j - i) (drop i ?nodes)"
  have part: "?part \<noteq> []" "hd ?part = ?nodes ! i" "tl ?part = take (j - i) (drop i (vs @ [?d]))"
    using ij by (simp_all add: hd_drop_conv_nth Suc_diff_le tl_take tl_drop)
  have "append_all (path_label I ?d (zs @ [hd ?part])) (direct_edges I ?part) =
      Inr (path_label I ?d (zs @ hd ?part # tl ?part))"
    using append_path_edges [OF part(1), of I ?d zs "\<lambda>_ _. []"] by (simp only: via_path_direct)
  then have app: "append_all (path_label I ?d ys) (direct_edges I ?part) =
      Inr (path_label I ?d (ys @ take (j - i) (drop i (vs @ [?d]))))"
    by (simp only: part(2,3) zs) simp
  have "append_all (path_label I ?d ys) (map ((!) ?rs) (cover_nodes (i + ?base) (j + ?base))) =
      append_all (path_label I ?d ys) (map ((!) ?rs) [i + ?base..<j + ?base])"
    unfolding append_all_def by (rule cover_fold [OF j lr])
  then show "append_all (path_label I ?d ys) (map label_of_view (range_views s i j)) =
      Inr (path_label I ?d (ys @ take (j - i) (drop i (vs @ [?d]))))"
    by (simp only: labels slice app)
  have "initialized (?rs ! k)" if "k \<in> {i + ?base..<j + ?base}" for k
  proof -
    define m where "m = k - ?base"
    then have "k = ?base + m" "m < length ?edges" using that ij len by auto
    then show ?thesis using leaves path_edges_contiguous [of I "\<lambda>_ _. []" ?nodes]
      by (simp add: contiguous_def del: path_edges_length)
  qed
  then show "\<forall>v \<in> set (range_views s i j). view_initialized v"
    using cover_initialized [OF j lr] by (auto simp: range_views_def)
  assume "Suc (length vs) < 2 ^ 60"
  then have "?base \<le> 2 ^ 61" using grow_base_bound [of 1 "length ?edges"] len base by simp
  then have "j + ?base \<le> 2 ^ 62" using lr(2) by simp
  from cover_nodes_size [OF this] show "length (range_views s i j) \<le> 126" by (simp add: range_views_def)
qed


section \<open>The scores\<close>

text \<open>The score from scratch: the label of the whole route, evaluated.\<close>

definition route_score :: "inst \<Rightarrow> int list \<Rightarrow> route_cost_summary result option" where
  "route_score I vs = and_evaluate (route_label I \<lparr>visits = vs\<rparr>) (evaluate_label I)"

lemma route_score_eq:
  assumes "inst_ok I" and "set vs \<subseteq> set (ids I)"
  shows "route_score I vs = evaluate_label I (path_label I (depot_id I) (vs @ [depot_id I]))"
  using route_label_eq [of I "\<lparr>visits = vs\<rparr>"] assms by (simp add: route_score_def and_evaluate_def)

lemma visits_known: "physical_visits I vs \<Longrightarrow> set vs \<subseteq> set (ids I)"
  by (auto simp: physical_visits_def)

lemma is_kind_known:
  "inst_ok I \<Longrightarrow> i \<in> set (ids I) \<Longrightarrow> is_kind I k i = Inr (kind (the_node I i) = k)"
  by (simp add: is_kind_def node_of_known(1))

lemma if_initialized_ok: "\<forall>v \<in> set (if_initialized w). view_initialized v"
  by (simp add: if_initialized_def)

text \<open>Two, or three, appended edge labels between a prefix and a suffix.\<close>

lemma score_components:
  assumes s: "scorer_of I vs swaps s" and ij: "i \<le> Suc (length vs)" "j \<le> Suc (length vs)"
    and q: "q = (depot_id I # vs @ [depot_id I]) ! i" and ms: "ms \<noteq> []"
    and ends: "last ms = (depot_id I # vs @ [depot_id I]) ! j"
    and labels: "map label_of_view ws = direct_edges I (q # ms)" "\<forall>w \<in> set ws. view_initialized w"
  shows "evaluate_views I (if_initialized (prefix_at s i) @ ws @ if_initialized (suffix_at s j)) =
    evaluate_label I (path_label I (depot_id I) (take i (vs @ [depot_id I]) @ ms @ drop j (vs @ [depot_id I])))"
proof (rule evaluate_views_append)
  let ?d = "depot_id I" and ?pre = "take i (vs @ [depot_id I])"
  obtain m ms' where m: "ms = m # ms'" using ms by (cases ms) auto
  have "ws \<noteq> []" using labels(1) m by auto
  then show "if_initialized (prefix_at s i) @ ws @ if_initialized (suffix_at s j) \<noteq> []" by simp
  show "\<forall>v \<in> set (if_initialized (prefix_at s i) @ ws @ if_initialized (suffix_at s j)). view_initialized v"
    using if_initialized_ok labels(2) by auto
  have first: "append_all empty_label (map label_of_view (if_initialized (prefix_at s i)) @ direct_edges I (q # ms) @ ls) =
      append_all (path_label I ?d (?pre @ ms)) ls" for ls
  proof -
    have "append_all (path_label I ?d (?pre @ [m])) (direct_edges I ms @ ls) =
        append_all (path_label I ?d (?pre @ ms)) ls"
      using append_path_edges [of ms I ?d ?pre "\<lambda>_ _. []"]
      by (simp add: append_all_append m via_path_direct)
    then show ?thesis by (simp add: m append_from_prefix [OF s ij(1) q])
  qed
  have "last (?d # ?pre @ ms) = (?d # vs @ [?d]) ! j" using ends ms by simp
  from append_suffix [OF s ij(2) this] show
    "append_all empty_label (map label_of_view (if_initialized (prefix_at s i) @ ws @ if_initialized (suffix_at s j))) =
      Inr (path_label I ?d (?pre @ ms @ drop j (vs @ [?d])))"
    by (simp add: labels(1) first)
qed

lemma nodes_known:
  assumes "inst_ok I" and "physical_visits I vs" and "i \<le> Suc (length vs)"
  shows "(depot_id I # vs @ [depot_id I]) ! i \<in> set (ids I)"
proof -
  have "(depot_id I # vs @ [depot_id I]) ! i \<in> set (depot_id I # vs @ [depot_id I])"
    using assms(3) by (intro nth_mem) simp
  then show ?thesis using assms(2) known_lookups(1) [OF assms(1)] by (auto simp: physical_visits_def)
qed

lemma edge_direct:
  "inst_ok I \<Longrightarrow> a \<in> set (ids I) \<Longrightarrow> b \<in> set (ids I) \<Longrightarrow> edge_label I a [] b = Inr (path_label I a [b])"
  using edge_label_eq [of I a b "[]"] by simp

lemma scorer_nodes:
  assumes "scorer_of I vs swaps s"
  shows "ps_nodes s = depot_id I # vs @ [depot_id I]" and "ps_customers s = {c \<in> set vs. is_customer I c}"
  using assms by (auto simp: scorer_of_def Let_def)

lemma insertion_score:
  assumes I: "inst_ok I" and vs: "physical_visits I vs" and s: "scorer_of I vs swaps s"
    and c: "c \<in> set (ids I)" "is_customer I c" "c \<notin> set vs" and q: "q \<le> length vs"
  shows "evaluate_insertion I s q c = route_score I (take q vs @ c # drop q vs)"
proof -
  let ?d = "depot_id I" and ?nodes = "depot_id I # vs @ [depot_id I]"
  have known: "?nodes ! q \<in> set (ids I)" "?nodes ! (q + 1) \<in> set (ids I)"
    using nodes_known [OF I vs, of q] nodes_known [OF I vs, of "q + 1"] q by simp_all
  let ?n = "(vs @ [?d]) ! q"
  have n: "?nodes ! (q + 1) = ?n" by simp
  have edges: "map label_of_view [view_of_label (path_label I (?nodes ! q) [c]), view_of_label (path_label I c [?n])] =
      direct_edges I (?nodes ! q # [c, ?n])" by simp
  have "evaluate_insertion I s q c = evaluate_views I (if_initialized (prefix_at s q) @
      [view_of_label (path_label I (?nodes ! q) [c]), view_of_label (path_label I c [?n])] @
      if_initialized (suffix_at s (q + 1)))"
    using q c known scorer_nodes [OF s]
    by (simp add: evaluate_insertion_def Let_def is_kind_known [OF I] is_customer_def edge_direct [OF I] and_evaluate_def)
  also have "\<dots> = evaluate_label I (path_label I ?d (take q (vs @ [?d]) @ [c, ?n] @ drop (q + 1) (vs @ [?d])))"
    using q by (intro score_components [OF s _ _ refl _ _ edges]) simp_all
  also have "take q (vs @ [?d]) @ [c, ?n] @ drop (q + 1) (vs @ [?d]) = (take q vs @ c # drop q vs) @ [?d]"
    using q Cons_nth_drop_Suc [of q "vs @ [?d]"] by simp
  also have "evaluate_label I (path_label I ?d ((take q vs @ c # drop q vs) @ [?d])) =
      route_score I (take q vs @ c # drop q vs)"
    using visits_known [OF vs] c set_take_subset [of q vs] set_drop_subset [of q vs]
    by (intro route_score_eq [OF I, symmetric]) auto
  finally show ?thesis .
qed

lemma replacement_score:
  assumes I: "inst_ok I" and vs: "physical_visits I vs" and s: "scorer_of I vs swaps s"
    and c: "c \<in> set (ids I)" "is_customer I c" "c \<notin> set vs" and q: "q < length vs" "is_customer I (vs ! q)"
  shows "evaluate_replacement I s q c = route_score I (vs[q := c])"
proof -
  let ?d = "depot_id I" and ?nodes = "depot_id I # vs @ [depot_id I]"
  let ?n = "(vs @ [?d]) ! (q + 1)"
  have known: "?nodes ! q \<in> set (ids I)" "vs ! q \<in> set (ids I)" "?n \<in> set (ids I)"
    using nodes_known [OF I vs, of q] nodes_known [OF I vs, of "q + 1"] nodes_known [OF I vs, of "q + 2"] q
    by (simp_all add: nth_append)
  have edges: "map label_of_view [view_of_label (path_label I (?nodes ! q) [c]), view_of_label (path_label I c [?n])] =
      direct_edges I (?nodes ! q # [c, ?n])" by simp
  have at: "?nodes ! (q + 1) = vs ! q" using q by (simp add: nth_append)
  have "evaluate_replacement I s q c = evaluate_views I (if_initialized (prefix_at s q) @
      [view_of_label (path_label I (?nodes ! q) [c]), view_of_label (path_label I c [?n])] @
      if_initialized (suffix_at s (q + 2)))"
    using q c known scorer_nodes [OF s] at
    by (simp add: evaluate_replacement_def Let_def is_kind_known [OF I] is_customer_def edge_direct [OF I] and_evaluate_def)
  also have "\<dots> = evaluate_label I (path_label I ?d (take q (vs @ [?d]) @ [c, ?n] @ drop (q + 2) (vs @ [?d])))"
    using q by (intro score_components [OF s _ _ refl _ _ edges]) simp_all
  also have "take q (vs @ [?d]) @ [c, ?n] @ drop (q + 2) (vs @ [?d]) = vs[q := c] @ [?d]"
    using q Cons_nth_drop_Suc [of "q + 1" "vs @ [?d]"] upd_conv_take_nth_drop [of q vs c] by simp
  also have "evaluate_label I (path_label I ?d (vs[q := c] @ [?d])) = route_score I (vs[q := c])"
    using visits_known [OF vs] c set_update_subset_insert [of vs q c]
    by (intro route_score_eq [OF I, symmetric]) auto
  finally show ?thesis .
qed

lemma removal_score:
  assumes I: "inst_ok I" and vs: "physical_visits I vs" and s: "scorer_of I vs swaps s"
    and q: "q < length vs" "is_customer I (vs ! q)"
  shows "evaluate_removal I s q =
    (if card {c \<in> set vs. is_customer I c} = 1 then Some (Inr zero_summary)
     else route_score I (take q vs @ drop (q + 1) vs))"
proof -
  let ?d = "depot_id I" and ?nodes = "depot_id I # vs @ [depot_id I]"
  let ?n = "(vs @ [?d]) ! (q + 1)"
  have known: "?nodes ! q \<in> set (ids I)" "vs ! q \<in> set (ids I)" "?n \<in> set (ids I)"
    using nodes_known [OF I vs, of q] nodes_known [OF I vs, of "q + 1"] nodes_known [OF I vs, of "q + 2"] q
    by (simp_all add: nth_append)
  have at: "?nodes ! (q + 1) = vs ! q" using q by (simp add: nth_append)
  have edges: "map label_of_view [view_of_label (path_label I (?nodes ! q) [?n])] =
      direct_edges I (?nodes ! q # [?n])" by simp
  have "evaluate_removal I s q = (if card {c \<in> set vs. is_customer I c} = 1 then Some (Inr zero_summary) else
      evaluate_views I (if_initialized (prefix_at s q) @ [view_of_label (path_label I (?nodes ! q) [?n])] @
        if_initialized (suffix_at s (q + 2))))"
    using q known scorer_nodes [OF s] at
    by (simp add: evaluate_removal_def Let_def is_kind_known [OF I] is_customer_def edge_direct [OF I] and_evaluate_def)
  also have "evaluate_views I (if_initialized (prefix_at s q) @ [view_of_label (path_label I (?nodes ! q) [?n])] @
        if_initialized (suffix_at s (q + 2))) =
      evaluate_label I (path_label I ?d (take q (vs @ [?d]) @ [?n] @ drop (q + 2) (vs @ [?d])))"
    using q by (intro score_components [OF s _ _ refl _ _ edges]) simp_all
  also have "take q (vs @ [?d]) @ [?n] @ drop (q + 2) (vs @ [?d]) = (take q vs @ drop (q + 1) vs) @ [?d]"
    using q Cons_nth_drop_Suc [of "q + 1" "vs @ [?d]"] by simp
  also have "evaluate_label I (path_label I ?d ((take q vs @ drop (q + 1) vs) @ [?d])) =
      route_score I (take q vs @ drop (q + 1) vs)"
    using visits_known [OF vs] set_take_subset [of q vs] set_drop_subset [of "q + 1" vs]
    by (intro route_score_eq [OF I, symmetric]) auto
  finally show ?thesis .
qed

section \<open>Scores over a range\<close>

lemma range_nodes_length:
  assumes "rfold join_children ns qs = Inr ms"
  shows "length ms = length ns"
  by (rule rfold_invariant [OF assms]) (auto simp: join_children_def rbind_eq_Inr_conv)

lemma swap_tree_nonempty:
  assumes "scorer_of I vs True s"
  shows "ps_swap_ranges s \<noteq> []"
proof -
  have "range_nodes (ps_swap_base s) (direct_edges I (depot_id I # vs @ [depot_id I])) = Inr (ps_swap_ranges s)"
    using assms by (auto simp: scorer_of_def Let_def)
  from range_nodes_length [OF this [unfolded range_nodes_def]] show ?thesis by auto
qed

lemma add_views:
  "length ws + length vs \<le> 256 \<Longrightarrow>
    rfold (add_view what) ws vs = Inr (ws @ filter view_initialized vs)"
  by (induction vs arbitrary: ws) (auto simp: add_view_def)

lemma if_initialized_filter: "filter view_initialized [v] = if_initialized v"
  by (simp add: if_initialized_def)

lemma last_slice: "l < r \<Longrightarrow> r \<le> length ns \<Longrightarrow> last (take (r - l) (drop l ns)) = ns ! (r - 1)"
  by (subst last_conv_nth) (auto simp: min_def dest: le_antisym)

text \<open>Edges, a range of the tree, and edges again, between a prefix and a suffix.\<close>

lemma score_range:
  assumes s: "scorer_of I vs True s" and ij: "i \<le> Suc (length vs)" "j \<le> Suc (length vs)"
    and q: "q = (depot_id I # vs @ [depot_id I]) ! i"
    and ms: "ms \<noteq> []" "last ms = (depot_id I # vs @ [depot_id I]) ! l"
    and lr: "l \<le> r" "r \<le> Suc (length vs)"
    and ks: "ks \<noteq> []" "last ks = (depot_id I # vs @ [depot_id I]) ! j"
    and small: "Suc (length vs) < 2 ^ 60" and sizes: "length ms + length ks \<le> 10"
  shows "and_evaluate (rfold (add_view what) []
      (prefix_at s i # map view_of_label (direct_edges I (q # ms)) @ range_views s l r @
       map view_of_label (direct_edges I ((depot_id I # vs @ [depot_id I]) ! r # ks)) @ [suffix_at s j]))
      (evaluate_views I) =
    evaluate_label I (path_label I (depot_id I) (take i (vs @ [depot_id I]) @ ms @
      take (r - l) (drop l (vs @ [depot_id I])) @ ks @ drop j (vs @ [depot_id I])))"
proof -
  let ?d = "depot_id I" and ?nodes = "depot_id I # vs @ [depot_id I]"
  let ?ns = "vs @ [?d]" and ?r = "?nodes ! r"
  let ?pre = "take i ?ns" and ?mid = "take (r - l) (drop l ?ns)"
  let ?ms = "map view_of_label (direct_edges I (q # ms))" and ?ks = "map view_of_label (direct_edges I (?r # ks))"
  let ?vs = "if_initialized (prefix_at s i) @ ?ms @ range_views s l r @ ?ks @ if_initialized (suffix_at s j)"
  have ys: "last (?d # ?pre @ ms) = ?nodes ! l" "?pre @ ms \<noteq> []" using ms by simp_all
  note range = append_range_views [OF s lr ys]
  have init: "\<forall>v \<in> set (map view_of_label (direct_edges I xs)). view_initialized v" for xs
    using path_edges_contiguous [of I "\<lambda>_ _. []" xs] by (auto simp: contiguous_def)
  have all: "filter view_initialized (map view_of_label (direct_edges I xs)) = map view_of_label (direct_edges I xs)"
    "filter view_initialized (range_views s l r) = range_views s l r" for xs
    using init range(2) by (simp_all add: filter_id_conv)
  have added: "rfold (add_view what) [] (prefix_at s i # ?ms @ range_views s l r @ ?ks @ [suffix_at s j]) = Inr ?vs"
    using add_views [of "[]" "prefix_at s i # ?ms @ range_views s l r @ ?ks @ [suffix_at s j]" what]
      range(3) [OF small] sizes all if_initialized_filter
    by (simp add: if_initialized_def del: path_edges.simps)
  have labels: "map label_of_view (map view_of_label ls) = ls" for ls by (simp add: comp_def)
  obtain m ms' where m: "ms = m # ms'" using ms by (cases ms) auto
  obtain k ks' where k: "ks = k # ks'" using ks by (cases ks) auto
  have one: "append_all empty_label (map label_of_view (if_initialized (prefix_at s i)) @ direct_edges I (q # ms) @ ls) =
      append_all (path_label I ?d (?pre @ ms)) ls" for ls
  proof -
    have "append_all (path_label I ?d (?pre @ [m])) (direct_edges I ms @ ls) =
        append_all (path_label I ?d (?pre @ ms)) ls"
      using append_path_edges [of ms I ?d ?pre "\<lambda>_ _. []"]
      by (simp add: append_all_append m via_path_direct)
    then show ?thesis by (simp add: m append_from_prefix [OF s ij(1) q])
  qed
  have ends: "last (?d # ?pre @ ms @ ?mid) = ?r"
  proof (cases "l = r")
    case True
    then show ?thesis using ms by simp
  next
    case False
    then have "?mid \<noteq> []" using lr by simp
    moreover from False lr have "last ?mid = ?ns ! (r - 1)"
      by (intro last_slice) simp_all
    ultimately show ?thesis using lr False by (cases r) simp_all
  qed
  have two: "append_all (path_label I ?d (?pre @ ms @ ?mid)) (direct_edges I (?r # ks) @ ls) =
      append_all (path_label I ?d (?pre @ ms @ ?mid @ ks)) ls" for ls
  proof -
    obtain zs where zs: "?pre @ ms @ ?mid = zs @ [?r]"
      using ends ms(1) by (metis append_butlast_last_id append_is_Nil_conv last_ConsR)
    show ?thesis
      using append_path_edges [of "?r # ks" I ?d zs "\<lambda>_ _. []"]
      by (simp only: append_assoc [symmetric] zs [simplified append_assoc [symmetric]])
        (simp add: append_all_append via_path_direct)
  qed
  have three: "last (?d # ?pre @ ms @ ?mid @ ks) = ?nodes ! j" using ks by simp
  let ?range = "map label_of_view (range_views s l r)" and ?last = "map label_of_view (if_initialized (suffix_at s j))"
  have "append_all empty_label (map label_of_view ?vs) =
      append_all (path_label I ?d (?pre @ ms)) (?range @ direct_edges I (?r # ks) @ ?last)"
    by (simp only: map_append labels one append_assoc)
  also have "\<dots> = append_all (path_label I ?d (?pre @ ms @ ?mid)) (direct_edges I (?r # ks) @ ?last)"
    by (simp only: append_all_append [of _ ?range] range(1) rbind_Inr append_assoc)
  also have "\<dots> = append_all (path_label I ?d (?pre @ ms @ ?mid @ ks)) ?last" by (simp only: two)
  also have "\<dots> = Inr (path_label I ?d ((?pre @ ms @ ?mid @ ks) @ drop j ?ns))"
    by (rule append_suffix [OF s ij(2) three])
  finally have "append_all empty_label (map label_of_view ?vs) =
      Inr (path_label I ?d ((?pre @ ms @ ?mid @ ks) @ drop j ?ns))" .
  moreover have "?vs \<noteq> []" using m by simp
  moreover have "\<forall>v \<in> set ?vs. view_initialized v"
    using if_initialized_ok init range(2) by (auto simp del: path_edges.simps)
  ultimately have "evaluate_views I ?vs = evaluate_label I (path_label I ?d ((?pre @ ms @ ?mid @ ks) @ drop j ?ns))"
    by (intro evaluate_views_append)
  then show ?thesis unfolding added by (simp add: and_evaluate_def)
qed


text \<open>Remove position \<open>p\<close> and put its customer into slot \<open>q\<close> of the original route.\<close>

definition relocate_visits :: "int list \<Rightarrow> nat \<Rightarrow> nat \<Rightarrow> int list" where
  "relocate_visits vs p q =
     (if q \<le> p then take q vs @ vs ! p # take (p - q) (drop q vs) @ drop (p + 1) vs
      else take p vs @ take (q - (p + 1)) (drop (p + 1) vs) @ vs ! p # drop q vs)"

lemma relocate_mset:
  assumes "p < length vs" and "q \<le> length vs"
  shows "mset (relocate_visits vs p q) = mset vs"
proof (cases "q \<le> p")
  case True
  have "vs = take q vs @ take (p - q) (drop q vs) @ vs ! p # drop (p + 1) vs"
    using True assms(1) by (metis Cons_nth_drop_Suc Suc_eq_plus1 append_assoc append_take_drop_id
        drop_drop le_add_diff_inverse2)
  then have "mset vs = mset (take q vs @ take (p - q) (drop q vs) @ vs ! p # drop (p + 1) vs)" by simp
  with True show ?thesis by (simp add: relocate_visits_def)
next
  case False
  have "vs = take p vs @ vs ! p # take (q - (p + 1)) (drop (p + 1) vs) @ drop q vs"
    using False assms by (metis Suc_eq_plus1 Suc_leI append_take_drop_id drop_drop id_take_nth_drop
        le_add_diff_inverse2 not_le)
  then have "mset vs = mset (take p vs @ vs ! p # take (q - (p + 1)) (drop (p + 1) vs) @ drop q vs)" by simp
  with False show ?thesis by (simp add: relocate_visits_def)
qed


lemma list_split2:
  assumes "a < b" and "b < length xs"
  shows "\<exists>A M B. xs = A @ xs ! a # M @ xs ! b # B \<and> length A = a \<and> b = length A + 1 + length M"
proof -
  have "xs = take a xs @ xs ! a # drop (a + 1) xs" using assms by (simp add: id_take_nth_drop)
  moreover have "drop (a + 1) xs = take (b - (a + 1)) (drop (a + 1) xs) @ xs ! b # drop (b + 1) xs"
    using assms id_take_nth_drop [of "b - (a + 1)" "drop (a + 1) xs"] by simp
  ultimately have "xs = take a xs @ xs ! a # take (b - (a + 1)) (drop (a + 1) xs) @ xs ! b # drop (b + 1) xs"
    by simp
  moreover have "length (take a xs) = a" "b = a + 1 + length (take (b - (a + 1)) (drop (a + 1) xs))"
    using assms by auto
  ultimately show ?thesis by metis
qed

lemma Cons_drop_1: "xs \<noteq> [] \<Longrightarrow> xs ! 0 # drop (Suc 0) xs = xs"
  by (cases xs) simp_all

lemma swap_list:
  assumes "a + 1 < b" and "b < length vs"
  shows "take a (vs @ [d]) @ [vs ! b, (vs @ [d]) ! (a + 1)] @ take (b - (a + 2)) (drop (a + 2) (vs @ [d])) @
    [vs ! a, (vs @ [d]) ! (b + 1)] @ drop (b + 2) (vs @ [d]) = vs[a := vs ! b, b := vs ! a] @ [d]"
proof -
  obtain A M B where "vs = A @ vs ! a # M @ vs ! b # B" and len: "length A = a" "b = length A + 1 + length M"
    using list_split2 [of a b vs] assms by auto
  then obtain x y where vs: "vs = A @ x # M @ y # B" by blast
  have M: "M \<noteq> []" using assms len by auto
  then obtain m M' where M': "M = m # M'" by (cases M) auto
  obtain e E where E: "B @ [d] = e # E" by (cases "B @ [d]") auto
  have ns: "vs @ [d] = A @ x # m # M' @ y # e # E" using vs M' E by simp
  have at: "vs ! a = x" "vs ! b = y" using vs len M' by (simp_all add: nth_append)
  have b: "b = a + 2 + length M'" using len M' by simp
  show ?thesis
    unfolding at ns by (simp add: len(1) [symmetric] b nth_append vs M' list_update_append E numeral_eq_Suc)
qed

lemma relocate_back_list:
  assumes "q < p" and "p < length vs"
  shows "take q (vs @ [d]) @ [vs ! p, (vs @ [d]) ! q] @ take (p - (q + 1)) (drop (q + 1) (vs @ [d])) @
    [(vs @ [d]) ! (p + 1)] @ drop (p + 2) (vs @ [d]) = relocate_visits vs p q @ [d]"
proof -
  obtain A M B where "vs = A @ vs ! q # M @ vs ! p # B" and len: "length A = q" "p = length A + 1 + length M"
    using list_split2 [OF assms] by auto
  then obtain m c where vs: "vs = A @ m # M @ c # B" by blast
  obtain e E where E: "B @ [d] = e # E" by (cases "B @ [d]") auto
  have ns: "vs @ [d] = A @ m # M @ c # e # E" using vs E by simp
  have at: "vs ! p = c" using vs len by (simp add: nth_append)
  have "relocate_visits vs p q = A @ c # m # M @ B"
    using assms(1) unfolding relocate_visits_def at by (simp add: vs len(1) [symmetric] len(2))
  then show ?thesis
    unfolding at ns by (simp add: len(1) [symmetric] len(2) nth_append E numeral_eq_Suc)
qed

lemma relocate_forth_list:
  assumes "p + 1 < q" and "q \<le> length vs"
  shows "take p (vs @ [d]) @ [(vs @ [d]) ! (p + 1)] @ take (q - (p + 2)) (drop (p + 2) (vs @ [d])) @
    [vs ! p, (vs @ [d]) ! q] @ drop (q + 1) (vs @ [d]) = relocate_visits vs p q @ [d]"
proof -
  obtain A M E where "vs @ [d] = A @ (vs @ [d]) ! p # M @ (vs @ [d]) ! q # E"
    and len: "length A = p" "q = length A + 1 + length M"
    using list_split2 [of p q "vs @ [d]"] assms by auto
  then obtain c e where ns: "vs @ [d] = A @ c # M @ e # E" by blast
  obtain m M' where M: "M = m # M'" using assms len by (cases M) auto
  obtain B where B: "B @ [d] = e # E" and vs: "vs = A @ c # M @ B"
  proof (cases E rule: rev_cases)
    case Nil
    with ns have "vs = A @ c # M @ []" "e = d" by auto
    with Nil show ?thesis by (intro that [of "[]"]) simp_all
  next
    case (snoc E' x)
    with ns have "vs = A @ c # M @ e # E'" "x = d" by auto
    with snoc show ?thesis by (intro that [of "e # E'"]) simp_all
  qed
  have at: "vs ! p = c" using vs len by (simp add: nth_append)
  have q: "q = p + 2 + length M'" using len M by simp
  have "relocate_visits vs p q = A @ M @ c # B"
    using assms(1) unfolding relocate_visits_def at by (simp add: vs len(1) [symmetric] len(2))
  then show ?thesis
    unfolding at ns by (simp add: len(1) [symmetric] q nth_append M B numeral_eq_Suc)
qed

lemma swap_score:
  assumes I: "inst_ok I" and vs: "physical_visits I vs" and s: "scorer_of I vs True s"
    and ab: "a + 1 < b" "b < length vs" "is_customer I (vs ! a)" "is_customer I (vs ! b)"
    and small: "Suc (length vs) < 2 ^ 60"
  shows "evaluate_swap I s a b = route_score I (vs[a := vs ! b, b := vs ! a])"
proof -
  let ?d = "depot_id I" and ?nodes = "depot_id I # vs @ [depot_id I]"
  let ?ns = "vs @ [?d]" and ?edited = "vs[a := vs ! b, b := vs ! a]"
  have at: "?nodes ! (a + 1) = vs ! a" "?nodes ! (b + 1) = vs ! b" using ab by (simp_all add: nth_append)
  let ?ms = "[vs ! b, ?nodes ! (a + 2)]" and ?ks = "[vs ! a, ?nodes ! (b + 2)]"
  have known: "?nodes ! a \<in> set (ids I)" "vs ! a \<in> set (ids I)" "?nodes ! (a + 2) \<in> set (ids I)"
    "?nodes ! b \<in> set (ids I)" "vs ! b \<in> set (ids I)" "?nodes ! (b + 2) \<in> set (ids I)"
    using nodes_known [OF I vs, of a] nodes_known [OF I vs, of "a + 1"] nodes_known [OF I vs, of "a + 2"]
      nodes_known [OF I vs, of b] nodes_known [OF I vs, of "b + 1"] nodes_known [OF I vs, of "b + 2"] ab at
    by (simp_all del: nth_Cons_Suc)
  have tree: "ps_swap_ranges s \<noteq> []" by (rule swap_tree_nonempty [OF s])
  have "evaluate_swap I s a b = and_evaluate (rfold (add_view ''physical Swap range bound'') []
      (prefix_at s a # map view_of_label (direct_edges I (?nodes ! a # ?ms)) @ range_views s (a + 2) b @
       map view_of_label (direct_edges I (?nodes ! b # ?ks)) @ [suffix_at s (b + 2)])) (evaluate_views I)"
    using ab known scorer_nodes [OF s] at tree
    by (simp add: evaluate_swap_def Let_def is_kind_known [OF I] is_customer_def edge_direct [OF I]
        del: nth_Cons_Suc)
  also have "\<dots> = evaluate_label I (path_label I ?d (take a ?ns @ ?ms @
      take (b - (a + 2)) (drop (a + 2) ?ns) @ ?ks @ drop (b + 2) ?ns))"
    using ab small by (intro score_range [OF s]) (simp_all del: nth_Cons_Suc)
  also have "take a ?ns @ ?ms @ take (b - (a + 2)) (drop (a + 2) ?ns) @ ?ks @ drop (b + 2) ?ns = ?edited @ [?d]"
    using swap_list [OF ab(1,2), of ?d] by (simp del: take_append drop_append)
  also have "evaluate_label I (path_label I ?d (?edited @ [?d])) = route_score I ?edited"
  proof (rule route_score_eq [OF I, symmetric])
    have "set ?edited = set vs" using ab by (simp add: set_swap)
    then show "set ?edited \<subseteq> set (ids I)" using visits_known [OF vs] by simp
  qed
  finally show ?thesis .
qed

lemma relocate_score:
  assumes I: "inst_ok I" and vs: "physical_visits I vs" and s: "scorer_of I vs True s"
    and p: "p < length vs" "is_customer I (vs ! p)" and q: "q \<le> length vs"
    and small: "Suc (length vs) < 2 ^ 60"
  shows "evaluate_relocate I s p q = route_score I (relocate_visits vs p q)"
proof -
  let ?d = "depot_id I" and ?nodes = "depot_id I # vs @ [depot_id I]"
  let ?ns = "vs @ [?d]" and ?c = "vs ! p" and ?edited = "relocate_visits vs p q"
  have at: "?nodes ! (p + 1) = ?c" using p by (simp add: nth_append)
  have known: "?nodes ! i \<in> set (ids I)" if "i \<le> Suc (length vs)" for i using nodes_known [OF I vs that] .
  have c: "?c \<in> set (ids I)" using known [of "p + 1"] p at by simp
  have tree: "ps_swap_ranges s \<noteq> []" by (rule swap_tree_nonempty [OF s])
  have all: "set ?edited \<subseteq> set (ids I)"
    using visits_known [OF vs] relocate_mset [OF p(1) q] by (metis set_mset_mset)
  have score: "route_score I ?edited = evaluate_label I (path_label I ?d (?edited @ [?d]))"
    by (rule route_score_eq [OF I all])
  have n: "ps_nodes s = ?nodes" by (rule scorer_nodes [OF s])
  consider "q = p \<or> q = p + 1" | "q < p" | "p + 1 < q" by linarith
  then show ?thesis
  proof cases
    case 1
    have "last (ps_prefixes s) = ps_prefixes s ! Suc (length vs)"
      using s by (simp add: scorer_of_def Let_def last_conv_nth)
    then have v: "view_of (ps_prefix_legs s) (last (ps_prefixes s)) = prefix_at s (Suc (length vs))"
      by (simp add: prefix_at_def)
    have pre: "map label_of_view (if_initialized (prefix_at s (Suc (length vs)))) = [path_label I ?d ?ns]"
      using scorer_prefix [OF s, of "Suc (length vs)"] by simp
    then have one: "if_initialized (prefix_at s (Suc (length vs))) = [prefix_at s (Suc (length vs))]"
      by (auto simp: if_initialized_def split: if_splits)
    have "evaluate_relocate I s p q = evaluate_views I [prefix_at s (Suc (length vs))]"
      using 1 p q tree c at by (auto simp: evaluate_relocate_def Let_def is_kind_known [OF I] is_customer_def
          and_evaluate_def v n simp del: nth_Cons_Suc)
    also have "\<dots> = evaluate_label I (path_label I ?d ?ns)"
      using pre one if_initialized_ok [of "prefix_at s (Suc (length vs))"]
      by (intro evaluate_views_append) (auto simp: append_all_empty append_all_Nil)
    also have "?ns = ?edited @ [?d]"
      using 1 p(1) id_take_nth_drop [OF p(1)] by (auto simp: relocate_visits_def)
    finally show ?thesis unfolding score .
  next
    case 2
    let ?ms = "[?c, ?nodes ! (q + 1)]" and ?ks = "[?nodes ! (p + 2)]"
    have kn: "?nodes ! q \<in> set (ids I)" "?nodes ! (q + 1) \<in> set (ids I)" "?nodes ! p \<in> set (ids I)"
      "?nodes ! (p + 2) \<in> set (ids I)" using 2 p(1) known [of q] known [of "q + 1"] known [of p] known [of "p + 2"]
      by (simp_all del: nth_Cons_Suc)
    have "evaluate_relocate I s p q = and_evaluate (rfold (add_view ''physical Relocate range bound'') []
        (prefix_at s q # map view_of_label (direct_edges I (?nodes ! q # ?ms)) @ range_views s (q + 1) p @
         map view_of_label (direct_edges I (?nodes ! p # ?ks)) @ [suffix_at s (p + 2)])) (evaluate_views I)"
      using 2 p q kn c at tree
      by (simp add: evaluate_relocate_def Let_def is_kind_known [OF I] is_customer_def edge_direct [OF I] n
          del: nth_Cons_Suc)
    also have "\<dots> = evaluate_label I (path_label I ?d (take q ?ns @ ?ms @
        take (p - (q + 1)) (drop (q + 1) ?ns) @ ?ks @ drop (p + 2) ?ns))"
      using 2 p(1) small by (intro score_range [OF s]) (simp_all del: nth_Cons_Suc)
    also have "take q ?ns @ ?ms @ take (p - (q + 1)) (drop (q + 1) ?ns) @ ?ks @ drop (p + 2) ?ns = ?edited @ [?d]"
      using relocate_back_list [OF 2 p(1), of ?d] by (simp del: take_append drop_append)
    finally show ?thesis unfolding score .
  next
    case 3
    let ?ms = "[?nodes ! (p + 2)]" and ?ks = "[?c, ?nodes ! (q + 1)]"
    have kn: "?nodes ! q \<in> set (ids I)" "?nodes ! (q + 1) \<in> set (ids I)" "?nodes ! p \<in> set (ids I)"
      "?nodes ! (p + 2) \<in> set (ids I)" using 3 q p(1) known [of q] known [of "q + 1"] known [of p] known [of "p + 2"]
      by (simp_all del: nth_Cons_Suc)
    have "evaluate_relocate I s p q = and_evaluate (rfold (add_view ''physical Relocate range bound'') []
        (prefix_at s p # map view_of_label (direct_edges I (?nodes ! p # ?ms)) @ range_views s (p + 2) q @
         map view_of_label (direct_edges I (?nodes ! q # ?ks)) @ [suffix_at s (q + 1)])) (evaluate_views I)"
      using 3 p q kn c at tree
      by (simp add: evaluate_relocate_def Let_def is_kind_known [OF I] is_customer_def edge_direct [OF I] n
          del: nth_Cons_Suc)
    also have "\<dots> = evaluate_label I (path_label I ?d (take p ?ns @ ?ms @
        take (q - (p + 2)) (drop (p + 2) ?ns) @ ?ks @ drop (q + 1) ?ns))"
      using 3 p(1) q small by (intro score_range [OF s]) (simp_all del: nth_Cons_Suc)
    also have "take p ?ns @ ?ms @ take (q - (p + 2)) (drop (p + 2) ?ns) @ ?ks @ drop (q + 1) ?ns = ?edited @ [?d]"
      using relocate_forth_list [OF 3 q, of ?d] by (simp del: take_append drop_append)
    finally show ?thesis unfolding score .
  qed
qed

end
