(* ===== verification/Scorer_Properties.thy ===== *)
theory Scorer_Properties
  imports Physical_Scores
begin

text \<open>
  The properties of \<open>PhysicalRouteScorer\<close> (src/evaluator.cpp): the scores of its five edits
  against the score of the edited route from scratch, and the classes of insertion slots.
\<close>

section \<open>The quotient as one fold\<close>

lemma push_unmergeable:
  "unmergeable I (l # ls) \<Longrightarrow> rfold (push_leg I) (acc @ [l]) ls = Inr (acc @ l # ls)"
proof (induction ls arbitrary: acc l)
  case (Cons k ls)
  then have "mergeable_leg I l k = Inr False" "unmergeable I (k # ls)"
    by (simp_all add: unmergeable_def)
  with Cons.IH [of k "acc @ [l]"] show ?case by (simp add: push_leg_def [of I "acc @ [l]" k])
qed simp

lemma canonical_fold:
  assumes "inst_ok I" and "curves_ok I" and "legs_ok I (l # ls)"
  shows "canonical_legs I (l # ls) = rfold (push_leg I) [l] ls"
proof -
  obtain r where r: "find_merge I (l # ls) = Inr r" "case r of None \<Rightarrow> unmergeable I (l # ls)
    | Some i \<Rightarrow> 0 < i \<and> i < length (l # ls) \<and> unmergeable I (take i (l # ls))"
    using find_merge_known [OF assms] by blast
  show ?thesis
  proof (cases r)
    case None
    with r push_unmergeable [of I l ls "[]"] show ?thesis by (simp add: canonical_legs_def)
  next
    case (Some i)
    then obtain j where j: "i = Suc j" "unmergeable I (l # take j ls)" using r by (cases i) auto
    have "rfold (push_leg I) [l] (take j ls @ drop j ls) = rfold (push_leg I) (l # take j ls) (drop j ls)"
      using push_unmergeable [OF j(2), of "[]"] by (simp only: rfold_append append_Nil rbind_Inr)
    with r Some j show ?thesis by (simp add: canonical_legs_def)
  qed
qed

lemma push_last_station:
  assumes "inst_ok I" and "curves_ok I" and "legs_ok I ls" and "canon \<noteq> []"
    and "rfold (push_leg I) canon ls = Inr c"
  shows "c \<noteq> [] \<and> leg_station_id (last c) = leg_station_id (last (canon @ ls))"
  using assms(3-)
proof (induction ls arbitrary: canon)
  case (Cons l ls)
  then have l: "known_station I (leg_station_id l)" by simp
  obtain v where v: "mergeable_leg I (last canon) l = Inr v"
      "v \<Longrightarrow> leg_station_id (last canon) = leg_station_id l"
    using mergeable_known [OF assms(1,2) l, of "last canon"] by metis
  have step: "rfold (push_leg I) (if v then canon else canon @ [l]) ls = Inr c"
    using Cons.prems(3) v(1) by (simp add: push_leg_def [of I canon l])
  have "c \<noteq> [] \<and> leg_station_id (last c) = leg_station_id (last ((if v then canon else canon @ [l]) @ ls))"
    using Cons.IH [OF _ _ step] Cons.prems by (auto split: if_splits)
  then show ?case using v(2) Cons.prems(2) by (cases ls) (auto split: if_splits)
qed simp

text \<open>A zero leg of the station that was just visited may stand before or after the next leg of it.\<close>

lemma canonical_zero_leg:
  assumes I: "inst_ok I" "curves_ok I" and ok: "legs_ok I (S @ [L, Z] @ R)" and S: "S \<noteq> []"
    and st: "leg_station_id (last S) = st" "leg_station_id L = st" "\<not> physical_same_station_predecessor L"
    and Z: "Z = \<lparr>leg_station_id = st, energy_from_previous_station_wh = 0,
      physical_same_station_predecessor = True\<rparr>"
    and sup: "canonical_same_station_supported I st = Inr True"
  shows "canonical_legs I (S @ [L, Z] @ R) = canonical_legs I (S @ [Z, L] @ R)"
proof -
  obtain l ls where l: "S = l # ls" using S by (cases S) auto
  have ok1: "legs_ok I (l # ls @ [L, Z] @ R)" "legs_ok I (l # ls @ [Z, L] @ R)" "legs_ok I ls" "legs_ok I [l]"
    using ok l by auto
  have "unmergeable I [l]" by (simp add: unmergeable_def)
  then obtain c where c: "rfold (push_leg I) [l] ls = Inr c"
    using push_legs [OF I ok1(3) _ ok1(4)] by blast
  have last: "c \<noteq> []" "leg_station_id (last c) = st"
    using push_last_station [OF I ok1(3) _ c] st(1) l by simp_all
  have skip: "push_leg I d Z = Inr d" if "leg_station_id (last d) = st" for d
    using that sup by (simp add: push_leg_def mergeable_leg_def Z)
  have add: "push_leg I c L = Inr (c @ [L])" using st by (simp add: push_leg_def mergeable_leg_def)
  have "rfold (push_leg I) c [L, Z] = rfold (push_leg I) c [Z, L]"
    using skip [of c] skip [of "c @ [L]"] add last st by simp
  then have "rfold (push_leg I) [l] (ls @ [L, Z] @ R) = rfold (push_leg I) [l] (ls @ [Z, L] @ R)"
    by (simp only: rfold_append c rbind_Inr)
  then show ?thesis using canonical_fold [OF I ok1(1)] canonical_fold [OF I ok1(2)] l by simp
qed

lemma supported_zero:
  assumes "inst_ok I" and "st \<in> set (ids I)" and "canonical_same_station_supported I st = Inr True"
  shows "kind (the_node I st) = Station" and "leg_travel I st st = 0" and "leg_energy I st st = 0"
  using assms travel_time_known [OF assms(1,2,2)] energy_known [OF assms(1,2,2)] node_of_known(1) [OF assms(1,2)]
  by (auto simp: canonical_same_station_supported_def split: if_splits)

text \<open>The customer may be served before or after a further stay at the station.\<close>

lemma zero_stay_score:
  assumes I: "inst_ok I" "curves_ok I" and known: "set (X @ c # Y) \<subseteq> set (ids I)"
    and st: "st \<in> set (ids I)" "canonical_same_station_supported I st = Inr True"
    and X: "X \<noteq> []" "last X = st" and c: "kind (the_node I c) = Customer"
    and Y: "Y \<noteq> []" "hd Y = st"
  shows "route_score I (X @ c # st # Y) = route_score I (X @ st # c # Y)"
proof -
  let ?d = "depot_id I"
  note z = supported_zero [OF I(1) st]
  obtain Z where Y: "Y = st # Z" using Y by (cases Y) auto
  have d: "?d \<in> set (ids I)" by (rule known_lookups(1) [OF I(1)])
  have cs: "c \<noteq> st" using c z(1) by auto
  define S where "S = segments I ?d 0 X"
  define R where "R = segments I st 0 (Z @ [?d])"
  let ?L = "\<lparr>leg_station_id = st, energy_from_previous_station_wh = leg_energy I st c + leg_energy I c st,
    physical_same_station_predecessor = False\<rparr>"
  let ?Z = "\<lparr>leg_station_id = st, energy_from_previous_station_wh = 0, physical_same_station_predecessor = True\<rparr>"
  obtain X' where X': "X = X' @ [st]" using X by (metis append_butlast_last_id)
  have last: "last (?d # X) = st" and tail: "tail_segment I ?d 0 X = 0"
    and S': "S \<noteq> []" "leg_station_id (last S) = st"
    using X' z(1) by (simp_all add: tail_segment_append segments_append S_def)
  have seg1: "segments I ?d 0 (X @ c # st # Y @ [?d]) = S @ [?L, ?Z] @ R"
    using z c cs last tail by (simp add: segments_append S_def R_def Y del: last.simps)
  have seg2: "segments I ?d 0 (X @ st # c # Y @ [?d]) = S @ [?Z, ?L] @ R"
    using z c cs last tail by (simp add: segments_append S_def R_def Y del: last.simps)
  have tails: "tail_segment I ?d 0 (X @ c # st # Y @ [?d]) = tail_segment I ?d 0 (X @ st # c # Y @ [?d])"
    using z(1) by (simp add: tail_segment_append Y del: last.simps)
  have travel: "path_travel I ?d (X @ c # st # Y @ [?d]) = path_travel I ?d (X @ st # c # Y @ [?d])"
    using z last by (simp add: path_travel_append Y del: last.simps)
  have service: "path_service I (X @ c # st # Y @ [?d]) = path_service I (X @ st # c # Y @ [?d])"
    using z(1) by (simp add: path_service_append path_service_simps)
  have "set (X @ c # st # Y @ [?d]) \<subseteq> set (ids I)" using known st(1) d by auto
  from path_label_ok(1) [OF I(1) this, of ?d] have ok: "legs_ok I (S @ [?L, ?Z] @ R)"
    by (simp add: path_label_def seg1)
  have "canonical_legs I (S @ [?L, ?Z] @ R) = canonical_legs I (S @ [?Z, ?L] @ R)"
    by (rule canonical_zero_leg [OF I ok S' _ _ refl st(2)]) simp_all
  then have "evaluate_label I (path_label I ?d (X @ c # st # Y @ [?d])) =
      evaluate_label I (path_label I ?d (X @ st # c # Y @ [?d]))"
    unfolding evaluate_label_def evaluate_data_def path_label_def
    by (simp only: seg1 seg2 tails travel service charging_label.simps)
  moreover have "route_score I (X @ c # st # Y) = evaluate_label I (path_label I ?d (X @ c # st # Y @ [?d]))"
    "route_score I (X @ st # c # Y) = evaluate_label I (path_label I ?d (X @ st # c # Y @ [?d]))"
    using route_score_eq [OF I(1), of "X @ c # st # Y"] route_score_eq [OF I(1), of "X @ st # c # Y"] known st(1)
    by simp_all
  ultimately show ?thesis by simp
qed

section \<open>The classes of slots\<close>

text \<open>Every node of a run is the first one.\<close>

lemma run_end_equal:
  assumes "first < past" and "\<And>k. first \<le> k \<Longrightarrow> k < past \<Longrightarrow> ns ! k = ns ! first"
    and "first \<le> k" and "k < run_end ns first past"
  shows "ns ! k = ns ! first"
  using assms
proof (induction ns first past rule: run_end.induct)
  case (1 ns first past)
  show ?case
  proof (cases "past + 1 < length ns \<and> ns ! past = ns ! first")
    case True
    then have next_end: "run_end ns first past = run_end ns first (past + 1)" by (subst run_end.simps) simp
    show ?thesis
    proof (rule 1(1) [OF True _ _ 1(4)])
      fix j assume j: "first \<le> j" "j < past + 1"
      show "ns ! j = ns ! first"
      proof (cases "j = past")
        case False
        with j show ?thesis by (intro 1(3)) simp_all
      qed (use True in simp)
    qed (use 1(2,5) next_end in simp_all)
  next
    case False
    then have "run_end ns first past = past" by (subst run_end.simps) auto
    then show ?thesis using 1(3) [OF 1(4)] 1(5) by simp
  qed
qed

lemma run_end_less: "past < length ns \<Longrightarrow> run_end ns first past < length ns"
proof (induction ns first past rule: run_end.induct)
  case (1 ns first past)
  show ?case
  proof (cases "past + 1 < length ns \<and> ns ! past = ns ! first")
    case True
    with 1 have "run_end ns first (past + 1) < length ns" by simp
    then show ?thesis using True by (subst run_end.simps) simp
  next
    case False
    then have "run_end ns first past = past" by (subst run_end.simps) auto
    then show ?thesis using 1(2) by simp
  qed
qed

text \<open>
  A relation that holds between a slot and the one before it, wherever the certificate
  allows them to be linked, and that is an equivalence, holds between a slot and its
  representative.
\<close>

lemma link_slots_related:
  assumes R: "\<And>q. R q q" "\<And>q r t. R q r \<Longrightarrow> R r t \<Longrightarrow> R q t"
    and step: "\<And>q. q \<in> set [first + 1..<past - 1] \<Longrightarrow> e q \<Longrightarrow> R q (q - 1)"
    and start: "\<forall>q < length reps. R q (reps ! q) \<and> reps ! q \<le> q"
  shows "\<forall>q < length reps. R q (link_slots e first past reps ! q) \<and> link_slots e first past reps ! q \<le> q"
proof -
  let ?f = "\<lambda>reps q. if e q then reps[q := reps ! (q - 1)] else reps"
  have "\<forall>q < length reps. R q (foldl ?f reps qs ! q) \<and> foldl ?f reps qs ! q \<le> q"
    if "\<forall>q \<in> set qs. e q \<longrightarrow> R q (q - 1)" "\<forall>q < length reps. R q (reps ! q) \<and> reps ! q \<le> q" for qs
    using that
  proof (induction qs arbitrary: reps)
    case (Cons k qs)
    have "\<forall>q < length reps. R q (?f reps k ! q) \<and> ?f reps k ! q \<le> q"
    proof (intro allI impI)
      fix q assume q: "q < length reps"
      show "R q (?f reps k ! q) \<and> ?f reps k ! q \<le> q"
      proof (cases "e k \<and> q = k")
        case True
        then have "R k (k - 1)" using Cons.prems(1) by simp
        moreover have "R (k - 1) (reps ! (k - 1)) \<and> reps ! (k - 1) \<le> k - 1"
          using Cons.prems(2) q True by (metis diff_le_self order.strict_trans1)
        ultimately show ?thesis using R(2) q True by fastforce
      qed (use Cons.prems(2) q in auto)
    qed
    moreover have "length (?f reps k) = length reps" by simp
    ultimately show ?case using Cons.IH [of "?f reps k"] Cons.prems(1) by (simp del: length_list_update)
  qed simp
  with step start show ?thesis unfolding link_slots_def by blast
qed

lemma representatives_related:
  assumes I: "inst_ok I" "curves_ok I" and ns: "set ns \<subseteq> set (ids I)"
    and R: "\<And>q. R q q" "\<And>q r t. R q r \<Longrightarrow> R r t \<Longrightarrow> R q t"
    and step: "\<And>q. 2 \<le> q \<Longrightarrow> q + 2 < length ns \<Longrightarrow> ns ! (q - 1) = ns ! q \<Longrightarrow> ns ! (q + 1) = ns ! q \<Longrightarrow>
      canonical_same_station_supported I (ns ! q) = Inr True \<Longrightarrow> R q (q - 1)"
    and "1 \<le> first" and "representatives I e ns first reps = Inr out"
    and "\<forall>q < length reps. R q (reps ! q) \<and> reps ! q \<le> q"
  shows "\<forall>q < length reps. R q (out ! q) \<and> out ! q \<le> q"
  using assms(7-)
proof (induction "length ns - first" arbitrary: first reps rule: less_induct)
  case less
  show ?case
  proof (cases "first + 1 < length ns")
    case True
    let ?past = "run_end ns first (first + 1)"
    have ge: "first + 1 \<le> ?past" by (rule run_end_ge)
    have past: "?past < length ns" by (rule run_end_less [OF True])
    have eq: "ns ! k = ns ! first" if k: "first \<le> k" "k < ?past" for k
    proof (rule run_end_equal [OF _ _ k])
      fix j assume "first \<le> j" "j < first + 1"
      then have "j = first" by simp
      then show "ns ! j = ns ! first" by simp
    qed simp
    have shorter: "length ns - ?past < length ns - first" "1 \<le> ?past" using True ge less.prems(1) by simp_all
    have "ns ! first \<in> set (ids I)" using ns True by (auto simp: nth_mem subset_iff)
    then obtain ok where ok: "canonical_same_station_supported I (ns ! first) = Inr ok"
      using supported_total [OF I] by blast
    let ?reps = "if ?past - first \<ge> 3 \<and> ok then link_slots (e (ns ! first)) first ?past reps else reps"
    have out: "representatives I e ns ?past ?reps = Inr out"
      using less.prems(2) True ok
      by (subst (asm) representatives.simps) (auto simp: Let_def split: if_splits)
    have "\<forall>q < length reps. R q (?reps ! q) \<and> ?reps ! q \<le> q"
    proof (cases "?past - first \<ge> 3 \<and> ok")
      case True
      have "\<forall>q < length reps. R q (link_slots (e (ns ! first)) first ?past reps ! q) \<and>
          link_slots (e (ns ! first)) first ?past reps ! q \<le> q"
      proof (rule link_slots_related [OF R _ less.prems(3)])
        fix q assume q: "q \<in> set [first + 1..<?past - 1]"
        then have "ns ! (q - 1) = ns ! first" "ns ! q = ns ! first" "ns ! (q + 1) = ns ! first"
          by (auto intro!: eq)
        with q True ok past less.prems(1) show "R q (q - 1)" by (intro step) auto
      qed
      with True show ?thesis by simp
    qed (use less.prems(3) in auto)
    with less.hyps [OF shorter(1,2) out] show ?thesis by (simp split: if_splits)
  next
    case False
    with less.prems show ?thesis by (subst (asm) representatives.simps) simp
  qed
qed

lemma representative_score:
  assumes I: "inst_ok I" "curves_ok I" and vs: "physical_visits I vs" and s: "scorer_of I vs swaps s"
    and c: "c \<in> set (ids I)" "is_customer I c" "c \<notin> set vs" and q: "q \<le> length vs"
  shows "\<exists>r \<le> q. insertion_score_representative s q = Inr r \<and>
    evaluate_insertion I s q c = evaluate_insertion I s r c"
proof -
  let ?d = "depot_id I"
  let ?ns = "?d # vs @ [?d]"
  define R where "R = (\<lambda>q r. q \<le> length vs \<longrightarrow>
    r \<le> length vs \<and> route_score I (take q vs @ c # drop q vs) = route_score I (take r vs @ c # drop r vs))"
  have ns: "set ?ns \<subseteq> set (ids I)" using visits_known [OF vs] known_lookups(1) [OF I(1)] by auto
  have reps: "representatives I (\<lambda>station q. equivalent_pair (ps_prefix_legs s) (ps_suffix_legs s) (ps_prefixes s)
      (ps_suffixes s) q station) ?ns 1 [0..<Suc (length vs)] = Inr (ps_representatives s)"
    using s by (auto simp: scorer_of_def Let_def simp del: upt_Suc)
  have step: "R q (q - 1)" if q: "2 \<le> q" "q + 2 < length ?ns" and eq: "?ns ! (q - 1) = ?ns ! q" "?ns ! (q + 1) = ?ns ! q"
    and sup: "canonical_same_station_supported I (?ns ! q) = Inr True" for q
  proof -
    define st where "st = ?ns ! q"
    have at: "vs ! (q - 2) = st" "vs ! (q - 1) = st" "vs ! q = st" and len: "q < length vs"
      using q eq by (auto simp: st_def nth_append nth_Cons' numeral_2_eq_2 diff_Suc split: nat.splits)
    have st: "st \<in> set (ids I)" using len at(3) visits_known [OF vs] by (auto dest: nth_mem)
    let ?X = "take (q - 1) vs" and ?Y = "drop q vs"
    have "q - 1 = Suc (q - 2)" using q(1) by simp
    then have X: "?X \<noteq> []" "last ?X = st"
      using at(1) len q(1) by (auto simp: take_Suc_conv_app_nth)
    have Y: "?Y \<noteq> []" "hd ?Y = st" using len at(3) by (simp_all add: hd_drop_conv_nth)
    have splits: "take q vs = ?X @ [st]" "drop (q - 1) vs = st # ?Y"
      using take_Suc_conv_app_nth [of "q - 1" vs] Cons_nth_drop_Suc [of "q - 1" vs] at(2) len q(1) by simp_all
    have kn: "set (?X @ c # ?Y) \<subseteq> set (ids I)"
      using visits_known [OF vs] c(1) set_take_subset [of "q - 1" vs] set_drop_subset [of q vs] by auto
    have cc: "kind (the_node I c) = Customer" using c(2) by (simp add: is_customer_def)
    have "route_score I (?X @ c # st # ?Y) = route_score I (?X @ st # c # ?Y)"
      by (rule zero_stay_score [OF I kn st sup [folded st_def] X cc Y])
    then show ?thesis using len by (simp add: R_def splits(1) splits(2) [unfolded One_nat_def])
  qed
  have "\<forall>q < length [0..<Suc (length vs)]. R q (ps_representatives s ! q) \<and> ps_representatives s ! q \<le> q"
    proof (rule representatives_related [where R = R, OF I ns])
    show "R q q" and "R q r \<Longrightarrow> R r t \<Longrightarrow> R q t" for q r t by (auto simp: R_def)
    show "representatives I (\<lambda>station q. equivalent_pair (ps_prefix_legs s) (ps_suffix_legs s) (ps_prefixes s)
      (ps_suffixes s) q station) ?ns 1 [0..<Suc (length vs)] = Inr (ps_representatives s)" by (rule reps)
  qed (use step in \<open>auto simp: R_def simp del: upt_Suc\<close>)
  moreover have "length (ps_representatives s) = Suc (length vs)"
    using representatives_ok [OF I ns, of _ 1 "[0..<Suc (length vs)]"] reps by (metis length_upt minus_nat.diff_0 sum.inject(2))
  moreover have "q < Suc (length vs)" using q by simp
  ultimately have r: "insertion_score_representative s q = Inr (ps_representatives s ! q)"
    "R q (ps_representatives s ! q)" "ps_representatives s ! q \<le> q"
    by (simp_all add: insertion_score_representative_def del: upt_Suc)
  then show ?thesis
    using insertion_score [OF I(1) vs s c q] insertion_score [OF I(1) vs s c, of "ps_representatives s ! q"] q
    by (auto simp: R_def)
qed


section \<open>Properties\<close>

text \<open>A plan of the instance used in the examples.\<close>

definition demo_plan :: "int list \<Rightarrow> plan" where
  "demo_plan vs = \<lparr>plan_customers = [], gaps = [], plan_route = \<lparr>visits = vs\<rparr>, evaluation = None,
     exact_charging = False\<rparr>"

lemma demo_kinds: "kind (the_node demo_inst 1) = Customer" "kind (the_node demo_inst 2) = Station"
  "kind (the_node demo_inst 3) = Customer"
  by (simp_all add: the_node_def node_of_def demo_inst_def demo_nodes_def)

lemma demo_physical: "set vs \<subseteq> {1, 2, 3} \<Longrightarrow> physical_visits demo_inst vs"
  using demo_kinds by (auto simp: physical_visits_def demo_known)

text \<open>
  C18: \<open>PhysicalRouteScorer\<close> is constructed without an exception for a route over known
  customers and stations with at least one customer and none twice, and then its scores of
  inserting, replacing and removing a customer are the score from scratch of the edited
  route; only the removal of the last customer gives the empty feasible summary.
\<close>

theorem physical_scores_insert_replace_remove:
  assumes "inst_ok I" and "curves_ok I" and "physical_visits I (visits (plan_route p))"
    and "distinct (filter (is_customer I) (visits (plan_route p)))"
    and "filter (is_customer I) (visits (plan_route p)) \<noteq> []"
  shows "\<exists>s. make_scorer I p swaps = Inr s \<and>
    (\<forall>c q. c \<in> set (ids I) \<and> is_customer I c \<and> c \<notin> set (visits (plan_route p)) \<longrightarrow>
       (q \<le> length (visits (plan_route p)) \<longrightarrow> evaluate_insertion I s q c =
          route_score I (take q (visits (plan_route p)) @ c # drop q (visits (plan_route p)))) \<and>
       (q < length (visits (plan_route p)) \<and> is_customer I (visits (plan_route p) ! q) \<longrightarrow>
          evaluate_replacement I s q c = route_score I ((visits (plan_route p))[q := c]))) \<and>
    (\<forall>q. q < length (visits (plan_route p)) \<and> is_customer I (visits (plan_route p) ! q) \<longrightarrow>
       evaluate_removal I s q =
         (if card {c \<in> set (visits (plan_route p)). is_customer I c} = 1 then Some (Inr zero_summary)
          else route_score I (take q (visits (plan_route p)) @ drop (q + 1) (visits (plan_route p)))))"
proof -
  obtain s where s: "make_scorer I p swaps = Inr s" "scorer_of I (visits (plan_route p)) swaps s"
    using make_scorer_ok [OF assms] by blast
  with insertion_score [OF assms(1,3) s(2)] replacement_score [OF assms(1,3) s(2)]
    removal_score [OF assms(1,3) s(2)] show ?thesis by blast
qed

theorem physical_scores_insert_replace_remove_witness:
  "\<exists>s. make_scorer demo_inst (demo_plan [2, 3]) False = Inr s \<and>
    evaluate_insertion demo_inst s 1 1 = route_score demo_inst [2, 1, 3] \<and>
    evaluate_replacement demo_inst s 1 1 = route_score demo_inst [2, 1]"
proof -
  have vs: "visits (plan_route (demo_plan [2, 3])) = [2, 3]" by (simp add: demo_plan_def)
  have phys: "physical_visits demo_inst (visits (plan_route (demo_plan [2, 3])))"
    by (simp add: vs demo_physical)
  have cs: "filter (is_customer demo_inst) (visits (plan_route (demo_plan [2, 3]))) = [3]"
    by (simp add: vs is_customer_def demo_kinds)
  obtain s where s: "make_scorer demo_inst (demo_plan [2, 3]) False = Inr s"
    "\<And>c q. c \<in> set (ids demo_inst) \<and> is_customer demo_inst c \<and> c \<notin> set [2, 3] \<Longrightarrow>
      (q \<le> length [2, 3 :: int] \<longrightarrow> evaluate_insertion demo_inst s q c =
        route_score demo_inst (take q [2, 3] @ c # drop q [2, 3])) \<and>
      (q < length [2, 3 :: int] \<and> is_customer demo_inst ([2, 3] ! q) \<longrightarrow>
        evaluate_replacement demo_inst s q c = route_score demo_inst ([2, 3][q := c]))"
    using physical_scores_insert_replace_remove [OF demo_inst_ok demo_curves_ok phys, of False] cs
    unfolding vs by force
  from s(1) s(2) [of 1 1] show ?thesis
    by (auto simp: demo_known is_customer_def demo_kinds)
qed

text \<open>
  C32: A scorer built with range labels gives the score from scratch for exchanging two
  customers that are not neighbours and for moving a customer to any slot of the original
  route; the component array of 256 entries never overflows for routes of fewer than
  2^60 visits.
\<close>

theorem physical_scores_swap_relocate:
  assumes "inst_ok I" and "curves_ok I" and "physical_visits I (visits (plan_route p))"
    and "distinct (filter (is_customer I) (visits (plan_route p)))"
    and "filter (is_customer I) (visits (plan_route p)) \<noteq> []"
    and "Suc (length (visits (plan_route p))) < 2 ^ 60"
  shows "\<exists>s. make_scorer I p True = Inr s \<and>
    (\<forall>a b. a + 1 < b \<and> b < length (visits (plan_route p)) \<and> is_customer I (visits (plan_route p) ! a) \<and>
       is_customer I (visits (plan_route p) ! b) \<longrightarrow>
       evaluate_swap I s a b = route_score I ((visits (plan_route p))
         [a := visits (plan_route p) ! b, b := visits (plan_route p) ! a])) \<and>
    (\<forall>a q. a < length (visits (plan_route p)) \<and> is_customer I (visits (plan_route p) ! a) \<and>
       q \<le> length (visits (plan_route p)) \<longrightarrow>
       evaluate_relocate I s a q = route_score I (relocate_visits (visits (plan_route p)) a q))"
proof -
  obtain s where s: "make_scorer I p True = Inr s" "scorer_of I (visits (plan_route p)) True s"
    using make_scorer_ok [OF assms(1-5)] by blast
  with swap_score [OF assms(1,3) s(2) _ _ _ _ assms(6)] relocate_score [OF assms(1,3) s(2) _ _ _ assms(6)]
  show ?thesis by blast
qed

theorem physical_scores_swap_relocate_witness:
  "\<exists>s. make_scorer demo_inst (demo_plan [3, 2, 1]) True = Inr s \<and>
    evaluate_swap demo_inst s 0 2 = route_score demo_inst [1, 2, 3] \<and>
    evaluate_relocate demo_inst s 0 3 = route_score demo_inst [2, 1, 3]"
proof -
  have vs: "visits (plan_route (demo_plan [3, 2, 1])) = [3, 2, 1]" by (simp add: demo_plan_def)
  have phys: "physical_visits demo_inst (visits (plan_route (demo_plan [3, 2, 1])))"
    by (simp add: vs demo_physical)
  have cs: "filter (is_customer demo_inst) (visits (plan_route (demo_plan [3, 2, 1]))) = [3, 1]"
    by (simp add: vs is_customer_def demo_kinds)
  have c: "is_customer demo_inst 3" "is_customer demo_inst 1" by (simp_all add: is_customer_def demo_kinds)
  obtain s where s: "make_scorer demo_inst (demo_plan [3, 2, 1]) True = Inr s"
    "\<And>a b. a + 1 < b \<and> b < length [3, 2, 1 :: int] \<and> is_customer demo_inst ([3, 2, 1] ! a) \<and>
       is_customer demo_inst ([3, 2, 1] ! b) \<Longrightarrow>
       evaluate_swap demo_inst s a b = route_score demo_inst ([3, 2, 1][a := [3, 2, 1] ! b, b := [3, 2, 1] ! a])"
    "\<And>a q. a < length [3, 2, 1 :: int] \<and> is_customer demo_inst ([3, 2, 1] ! a) \<and> q \<le> length [3, 2, 1 :: int] \<Longrightarrow>
       evaluate_relocate demo_inst s a q = route_score demo_inst (relocate_visits [3, 2, 1] a q)"
    using physical_scores_swap_relocate [OF demo_inst_ok demo_curves_ok phys] cs
    unfolding vs by force
  from s(1) s(2) [of 0 2] s(3) [of 0 3] c show ?thesis
    by (auto simp: relocate_visits_def numeral_2_eq_2)
qed

text \<open>
  The representative of an insertion slot is an earlier slot, or the slot itself, at
  which inserting any unvisited customer has the same score, so scoring one slot per class
  loses no candidate cost.
\<close>

theorem insertion_representative_same_score:
  assumes "inst_ok I" and "curves_ok I" and "physical_visits I (visits (plan_route p))"
    and "make_scorer I p swaps = Inr s"
    and "distinct (filter (is_customer I) (visits (plan_route p)))"
    and "filter (is_customer I) (visits (plan_route p)) \<noteq> []"
    and "c \<in> set (ids I)" and "is_customer I c" and "c \<notin> set (visits (plan_route p))"
    and "q \<le> length (visits (plan_route p))"
  shows "\<exists>r \<le> q. insertion_score_representative s q = Inr r \<and>
    evaluate_insertion I s q c = evaluate_insertion I s r c"
proof -
  obtain t where "make_scorer I p swaps = Inr t" "scorer_of I (visits (plan_route p)) swaps t"
    using make_scorer_ok [OF assms(1-3,5,6)] by blast
  with assms(4) have s: "scorer_of I (visits (plan_route p)) swaps s" by simp
  show ?thesis by (rule representative_score [OF assms(1-3) s assms(7-10)])
qed

theorem insertion_representative_same_score_witness:
  "\<exists>s r. make_scorer demo_inst (demo_plan [2, 2, 2, 3]) False = Inr s \<and>
    insertion_score_representative s 2 = Inr r \<and>
    evaluate_insertion demo_inst s 2 1 = evaluate_insertion demo_inst s r 1"
proof -
  have vs: "visits (plan_route (demo_plan [2, 2, 2, 3])) = [2, 2, 2, 3]" by (simp add: demo_plan_def)
  have phys: "physical_visits demo_inst (visits (plan_route (demo_plan [2, 2, 2, 3])))"
    by (simp add: vs demo_physical)
  have cs: "filter (is_customer demo_inst) (visits (plan_route (demo_plan [2, 2, 2, 3]))) = [3]"
    by (simp add: vs is_customer_def demo_kinds)
  have d: "distinct (filter (is_customer demo_inst) (visits (plan_route (demo_plan [2, 2, 2, 3]))))"
    "filter (is_customer demo_inst) (visits (plan_route (demo_plan [2, 2, 2, 3]))) \<noteq> []"
    by (simp_all add: cs)
  obtain s where s: "make_scorer demo_inst (demo_plan [2, 2, 2, 3]) False = Inr s"
    using make_scorer_ok [OF demo_inst_ok demo_curves_ok phys d] by blast
  have c: "1 \<in> set (ids demo_inst)" "is_customer demo_inst 1"
    "1 \<notin> set (visits (plan_route (demo_plan [2, 2, 2, 3])))" "2 \<le> length (visits (plan_route (demo_plan [2, 2, 2, 3])))"
    by (simp_all add: demo_known is_customer_def demo_kinds vs)
  from insertion_representative_same_score [OF demo_inst_ok demo_curves_ok phys s d c] s show ?thesis by blast
qed

end
