(* ===== verification/Sequence_Scorer.thy ===== *)
theory Sequence_Scorer
  imports Physical_Scores
begin

text \<open>
  \<open>RouteSequenceScorer\<close> of src/evaluator.cpp: the profile of each incumbent route (the
  segment trees of its customer edges, forward with the charging paths of the plan, backward
  direct), the dense table of edges between anchors with the overrides of a reference gap
  map, \<open>reset\<close> with the reuse of unchanged profiles, and the labels of a customer sequence,
  of an insertion and of a list of incumbent slices.

  The sentinel \<open>numeric_limits<size_t>::max ()\<close> of the index tables is \<open>None\<close>.  A scorer whose
  \<open>reset\<close> threw is not modelled (it is a moved-from object).
\<close>

section \<open>Profiles\<close>

record route_profile =
  prof_visits :: "int list"
  prof_customers :: "int list"
  prof_forward :: label_tree
  prof_reverse :: label_tree

definition forward_edge :: "inst \<Rightarrow> plan \<Rightarrow> nat \<Rightarrow> charging_label result" where
  "forward_edge I p i =
     (if i + 1 < length (gaps p)
      then edge_label I (plan_customers p ! i) (gaps p ! (i + 1)) (plan_customers p ! (i + 1))
      else Inl (Undefined ''gap of a profile''))"

definition reverse_edge :: "inst \<Rightarrow> plan \<Rightarrow> nat \<Rightarrow> charging_label result" where
  "reverse_edge I p i = edge_label I (plan_customers p ! (i - 1)) [] (plan_customers p ! (i - 2))"

definition make_profile :: "inst \<Rightarrow> plan \<Rightarrow> route_profile result" where
  "make_profile I p =
     (let n = length (plan_customers p)
      in rbind (rmap (forward_edge I p) [0..<n - 1]) (\<lambda>forward_edges.
         rbind (rmap (reverse_edge I p) (rev [2..<n + 1])) (\<lambda>reverse_edges.
         rbind (build_tree forward_edges) (\<lambda>fwd.
         rbind (build_tree reverse_edges) (\<lambda>bwd.
         Inr \<lparr>prof_visits = visits (plan_route p), prof_customers = plan_customers p,
              prof_forward = fwd, prof_reverse = bwd\<rparr>)))))"

definition append_slice ::
  "route_profile \<Rightarrow> nat \<Rightarrow> nat \<Rightarrow> bool \<Rightarrow> charging_label \<Rightarrow> charging_label result" where
  "append_slice prof first past reversed lab =
     (let n = length (prof_customers prof)
      in if first \<ge> past \<or> past > n then Inl (Out_Of_Range ''customer subsequence is invalid'')
         else if past = first + 1 then Inr lab
         else if \<not> reversed then append_range (prof_forward prof) first (past - 1) lab
         else append_range (prof_reverse prof) (n - past) (n - first - 1) lab)"

definition append_slice_components ::
  "route_profile \<Rightarrow> nat \<Rightarrow> nat \<Rightarrow> bool \<Rightarrow> nat \<Rightarrow> charging_label list \<Rightarrow> charging_label list result" where
  "append_slice_components prof first past reversed limit cs =
     (let n = length (prof_customers prof)
      in if first \<ge> past \<or> past > n then Inl (Out_Of_Range ''customer subsequence is invalid'')
         else if past = first + 1 then Inr cs
         else if \<not> reversed then append_range_components (prof_forward prof) first (past - 1) limit cs
         else append_range_components (prof_reverse prof) (n - past) (n - first - 1) limit cs)"

section \<open>The scorer\<close>

record customer_location =
  loc_route :: nat
  loc_position :: nat

record sequence_scorer =
  profiles :: "route_profile list"
  locations :: "(int \<times> customer_location) list"
  anchor_index_by_id :: "nat option list"
  anchor_count :: nat
  direct_edge_labels :: "charging_label list"
  reference_edge_index :: "nat option list"
  active_reference_edges :: "nat list"
  reference_edges :: "charging_label list"

definition anchor_index :: "sequence_scorer \<Rightarrow> int \<Rightarrow> nat result" where
  "anchor_index sc i =
     (if i < 0 \<or> nat i \<ge> length (anchor_index_by_id sc)
      then Inl (Out_Of_Range ''route scorer edge has a non-anchor endpoint'')
      else case anchor_index_by_id sc ! nat i of
        None \<Rightarrow> Inl (Out_Of_Range ''route scorer edge has a non-anchor endpoint'')
      | Some k \<Rightarrow> Inr k)"

definition dense_edge_index :: "sequence_scorer \<Rightarrow> int \<Rightarrow> int \<Rightarrow> nat result" where
  "dense_edge_index sc orig targ =
     rbind (anchor_index sc orig) (\<lambda>a. rbind (anchor_index sc targ) (\<lambda>b. Inr (a * anchor_count sc + b)))"

text \<open>The first profile that is not taken yet and has the visits and customers of the plan.\<close>

fun find_profile :: "plan \<Rightarrow> (route_profile \<times> bool) list \<Rightarrow> nat option" where
  "find_profile p [] = None"
| "find_profile p ((prof, reused) # ps) =
     (if \<not> reused \<and> prof_visits prof = visits (plan_route p) \<and> prof_customers prof = plan_customers p
      then Some 0 else map_option Suc (find_profile p ps))"

definition update_profile ::
  "inst \<Rightarrow> (route_profile \<times> bool) list \<times> route_profile list \<Rightarrow> plan \<Rightarrow>
   ((route_profile \<times> bool) list \<times> route_profile list) result" where
  "update_profile I s p =
     (case s of (old, updated) \<Rightarrow>
       (case find_profile p old of
          Some i \<Rightarrow> Inr (old[i := (fst (old ! i), True)], updated @ [fst (old ! i)])
        | None \<Rightarrow> rbind (make_profile I p) (\<lambda>prof. Inr (old, updated @ [prof]))))"

definition override_edge :: "inst \<Rightarrow> sequence_scorer \<Rightarrow> (int \<times> int) \<times> int list \<Rightarrow> sequence_scorer result" where
  "override_edge I sc g =
     (case g of ((orig, targ), path) \<Rightarrow>
       if path = [] then Inr sc
       else rbind (dense_edge_index sc orig targ) (\<lambda>k.
            rbind (edge_label I orig path targ) (\<lambda>l.
            Inr (sc\<lparr>reference_edge_index := (reference_edge_index sc)[k := Some (length (reference_edges sc))],
                    active_reference_edges := active_reference_edges sc @ [k],
                    reference_edges := reference_edges sc @ [l]\<rparr>))))"

text \<open>\<open>emplace\<close> keeps the first location of a customer.\<close>

definition locate_plans :: "plan list \<Rightarrow> (int \<times> customer_location) list" where
  "locate_plans ps =
     foldl (\<lambda>m (r, k). try_emplace (plan_customers (ps ! r) ! k) \<lparr>loc_route = r, loc_position = k\<rparr> m) []
       (concat (map (\<lambda>r. map (Pair r) [0..<length (plan_customers (ps ! r))]) [0..<length ps]))"

definition reset_scorer :: "inst \<Rightarrow> sequence_scorer \<Rightarrow> solution \<Rightarrow> gap_map \<Rightarrow> sequence_scorer result" where
  "reset_scorer I sc reference m =
     rbind (rfold (update_profile I) (map (\<lambda>p. (p, False)) (profiles sc), []) (plans reference)) (\<lambda>(_, updated).
     let cleared = foldl (\<lambda>tab k. tab[k := None]) (reference_edge_index sc) (active_reference_edges sc);
         sc1 = sc\<lparr>profiles := updated, reference_edge_index := cleared, active_reference_edges := [],
                  reference_edges := []\<rparr>
     in rbind (rfold (override_edge I) sc1 m) (\<lambda>sc2.
        Inr (sc2\<lparr>locations := locate_plans (plans reference)\<rparr>)))"

definition make_sequence_scorer :: "inst \<Rightarrow> solution \<Rightarrow> gap_map \<Rightarrow> sequence_scorer result" where
  "make_sequence_scorer I reference m =
     rbind (depot_of I) (\<lambda>d.
     let anchors = node_id d # customer_ids I
     in if \<exists>i \<in> set anchors. i < 0
        then Inl (Invalid_Argument ''Montoya anchor ids must be nonnegative for dense scoring'')
        else let maximum = Max (set anchors);
                 indices = foldl (\<lambda>tab k. tab[nat (anchors ! k) := Some k])
                             (replicate (nat maximum + 1) None) [0..<length anchors]
        in rbind (rmap (\<lambda>(orig, targ). edge_label I orig [] targ) (List.product anchors anchors)) (\<lambda>direct.
           reset_scorer I
             \<lparr>profiles = [], locations = [], anchor_index_by_id = indices, anchor_count = length anchors,
              direct_edge_labels = direct, reference_edge_index = replicate (length direct) None,
              active_reference_edges = [], reference_edges = []\<rparr> reference m))"

definition edge_of :: "sequence_scorer \<Rightarrow> int \<Rightarrow> int \<Rightarrow> charging_label result" where
  "edge_of sc orig targ =
     rbind (dense_edge_index sc orig targ) (\<lambda>k.
       case reference_edge_index sc ! k of
         None \<Rightarrow> Inr (direct_edge_labels sc ! k)
       | Some r \<Rightarrow> Inr (reference_edges sc ! r))"

definition append_edge_of :: "sequence_scorer \<Rightarrow> charging_label \<Rightarrow> int \<Rightarrow> int \<Rightarrow> charging_label result" where
  "append_edge_of sc lab orig targ = rbind (edge_of sc orig targ) (append_label lab)"

section \<open>The label of a customer sequence\<close>

definition location_of :: "sequence_scorer \<Rightarrow> int \<Rightarrow> customer_location option" where
  "location_of sc c = map_of (locations sc) c"

text \<open>The direction of the run that starts with \<open>first\<close> at the location \<open>loc\<close>.\<close>

definition run_direction :: "sequence_scorer \<Rightarrow> customer_location \<Rightarrow> int list \<Rightarrow> int" where
  "run_direction sc loc rest =
     (case rest of [] \<Rightarrow> 0
      | c # _ \<Rightarrow>
          (case location_of sc c of None \<Rightarrow> 0
           | Some l \<Rightarrow>
               if loc_route l = loc_route loc
               then if loc_position l = loc_position loc + 1 then 1
                    else if loc_position loc = loc_position l + 1 then - 1 else 0
               else 0))"

text \<open>
  The inner loop: \<open>k\<close> is \<open>end_position - sequence_position\<close>; the result is its value at the
  end and the last original position.
\<close>

fun extend_run :: "sequence_scorer \<Rightarrow> customer_location \<Rightarrow> int \<Rightarrow> nat \<Rightarrow> nat \<Rightarrow> int list \<Rightarrow> nat \<times> nat" where
  "extend_run sc loc direction k last_position [] = (k, last_position)"
| "extend_run sc loc direction k last_position (c # cs) =
     (case location_of sc c of None \<Rightarrow> (k, last_position)
      | Some l \<Rightarrow>
          if loc_route l \<noteq> loc_route loc then (k, last_position)
          else let expected = int (loc_position loc) + direction * int k
          in if expected < 0 \<or> loc_position l \<noteq> nat expected then (k, last_position)
             else extend_run sc loc direction (k + 1) (loc_position l) cs)"

text \<open>The outer loop, on what is left of the sequence.\<close>

function label_runs :: "sequence_scorer \<Rightarrow> int list \<Rightarrow> charging_label \<Rightarrow> int \<Rightarrow> (charging_label \<times> int) result" where
  "label_runs sc [] lab previous = Inr (lab, previous)"
| "label_runs sc (first # rest) lab previous =
     (case location_of sc first of
        None \<Rightarrow> rbind (append_edge_of sc lab previous first) (\<lambda>lab1. label_runs sc rest lab1 first)
      | Some loc \<Rightarrow>
          (let direction = run_direction sc loc rest;
               (run, last_position) =
                 (if direction \<noteq> 0 then extend_run sc loc direction 1 (loc_position loc) rest
                  else (1, loc_position loc))
           in rbind (append_edge_of sc lab previous first) (\<lambda>lab1.
              rbind (if direction \<ge> 0
                     then append_slice (profiles sc ! loc_route loc) (loc_position loc) (last_position + 1) False lab1
                     else append_slice (profiles sc ! loc_route loc) last_position (loc_position loc + 1) True lab1)
                (\<lambda>lab2. label_runs sc (drop (run - 1) rest) lab2 ((first # rest) ! (run - 1))))))"
  by pat_completeness auto
termination by (relation "measure (\<lambda>(sc, cs, lab, previous). length cs)") auto

declare label_runs.simps(2) [simp del]

definition sequence_label :: "inst \<Rightarrow> sequence_scorer \<Rightarrow> int list \<Rightarrow> charging_label result" where
  "sequence_label I sc cs =
     (if cs = [] then Inl (Invalid_Argument ''a scored route needs at least one customer'')
      else rbind (depot_of I) (\<lambda>d.
           rbind (label_runs sc cs empty_label (node_id d)) (\<lambda>(lab, previous).
           append_edge_of sc lab previous (node_id d))))"

section \<open>The label of an insertion\<close>

definition insertion_label :: "inst \<Rightarrow> sequence_scorer \<Rightarrow> nat \<Rightarrow> nat \<Rightarrow> int \<Rightarrow> charging_label result" where
  "insertion_label I sc r position c =
     (if r \<ge> length (profiles sc) then Inl (Out_Of_Range ''insertion scorer has invalid route'')
      else if location_of sc c \<noteq> None
      then Inl (Invalid_Argument ''insertion scorer customer is already in the incumbent'')
      else let prof = profiles sc ! r; cs = prof_customers prof
      in if position > length cs then Inl (Out_Of_Range ''insertion scorer has invalid position'')
      else rbind (depot_of I) (\<lambda>d.
           rbind (if position > 0
                  then rbind (append_edge_of sc empty_label (node_id d) (hd cs)) (\<lambda>lab.
                       rbind (append_slice prof 0 position False lab) (\<lambda>lab.
                       Inr (lab, cs ! (position - 1))))
                  else Inr (empty_label, node_id d)) (\<lambda>(lab, previous).
           rbind (append_edge_of sc lab previous c) (\<lambda>lab.
           rbind (if position < length cs
                  then rbind (append_edge_of sc lab c (cs ! position)) (\<lambda>lab.
                       rbind (append_slice prof position (length cs) False lab) (\<lambda>lab.
                       Inr (lab, last cs)))
                  else Inr (lab, c)) (\<lambda>(lab, previous).
           append_edge_of sc lab previous (node_id d))))))"

section \<open>Slices of incumbent routes\<close>

record route_slice =
  slice_route :: nat
  slice_begin :: nat
  slice_end :: nat
  slice_reversed :: bool

text \<open>The checks on a slice, and its first and last customer in driving order.\<close>

definition check_slice :: "sequence_scorer \<Rightarrow> route_slice \<Rightarrow> (route_profile \<times> int \<times> int) result" where
  "check_slice sc sl =
     (if slice_route sl \<ge> length (profiles sc)
      then Inl (Out_Of_Range ''incumbent route slice has invalid route'')
      else let prof = profiles sc ! slice_route sl; cs = prof_customers prof
      in if slice_begin sl \<ge> slice_end sl \<or> slice_end sl > length cs
         then Inl (Out_Of_Range ''incumbent route slice has invalid bounds'')
         else Inr (prof, if slice_reversed sl then cs ! (slice_end sl - 1) else cs ! slice_begin sl,
                   if slice_reversed sl then cs ! slice_begin sl else cs ! (slice_end sl - 1)))"

definition label_slice :: "sequence_scorer \<Rightarrow> charging_label \<times> int \<Rightarrow> route_slice \<Rightarrow> (charging_label \<times> int) result" where
  "label_slice sc s sl =
     (case s of (lab, previous) \<Rightarrow>
       rbind (check_slice sc sl) (\<lambda>(prof, first, final).
       rbind (append_edge_of sc lab previous first) (\<lambda>lab1.
       rbind (append_slice prof (slice_begin sl) (slice_end sl) (slice_reversed sl) lab1) (\<lambda>lab2.
       Inr (lab2, final)))))"

definition slices_label :: "inst \<Rightarrow> sequence_scorer \<Rightarrow> route_slice list \<Rightarrow> charging_label result" where
  "slices_label I sc slices =
     (if slices = [] then Inl (Invalid_Argument ''a scored route needs at least one slice'')
      else rbind (depot_of I) (\<lambda>d.
           rbind (rfold (label_slice sc) (empty_label, node_id d) slices) (\<lambda>(lab, previous).
           append_edge_of sc lab previous (node_id d))))"

definition kMaximumLabelComponents :: nat where
  "kMaximumLabelComponents = 512"

definition collect_slice ::
  "sequence_scorer \<Rightarrow> charging_label list \<times> int \<Rightarrow> route_slice \<Rightarrow> (charging_label list \<times> int) result" where
  "collect_slice sc s sl =
     (case s of (cs, previous) \<Rightarrow>
       rbind (check_slice sc sl) (\<lambda>(prof, first, final).
       rbind (edge_of sc previous first) (\<lambda>e.
       rbind (push_component kMaximumLabelComponents cs e) (\<lambda>cs1.
       rbind (append_slice_components prof (slice_begin sl) (slice_end sl) (slice_reversed sl)
                kMaximumLabelComponents cs1) (\<lambda>cs2.
       Inr (cs2, final))))))"

definition collect_components :: "inst \<Rightarrow> sequence_scorer \<Rightarrow> route_slice list \<Rightarrow> charging_label list result" where
  "collect_components I sc slices =
     (if slices = [] then Inl (Invalid_Argument ''a scored route needs at least one slice'')
      else rbind (depot_of I) (\<lambda>d.
           rbind (rfold (collect_slice sc) ([], node_id d) slices) (\<lambda>(cs, previous).
           rbind (edge_of sc previous (node_id d)) (\<lambda>e. push_component kMaximumLabelComponents cs e))))"

section \<open>The scores\<close>

definition score_sequence :: "inst \<Rightarrow> sequence_scorer \<Rightarrow> int list \<Rightarrow> route_cost_summary result option" where
  "score_sequence I sc cs = and_evaluate (sequence_label I sc cs) (evaluate_label I)"

definition score_insertion ::
  "inst \<Rightarrow> sequence_scorer \<Rightarrow> nat \<Rightarrow> nat \<Rightarrow> int \<Rightarrow> route_cost_summary result option" where
  "score_insertion I sc r position c = and_evaluate (insertion_label I sc r position c) (evaluate_label I)"

definition score_slices :: "inst \<Rightarrow> sequence_scorer \<Rightarrow> route_slice list \<Rightarrow> route_cost_summary result option" where
  "score_slices I sc slices =
     and_evaluate (collect_components I sc slices) (\<lambda>cs. evaluate_components I (map Some cs))"

definition cost_of_score :: "inst \<Rightarrow> route_cost_summary result option \<Rightarrow> real \<Rightarrow> real result option" where
  "cost_of_score I r penalty = map_option (\<lambda>x. rbind x (\<lambda>s. summary_cost s I penalty)) r"

definition sequence_cost :: "inst \<Rightarrow> sequence_scorer \<Rightarrow> int list \<Rightarrow> real \<Rightarrow> real result option" where
  "sequence_cost I sc cs penalty = cost_of_score I (score_sequence I sc cs) penalty"

definition slices_cost :: "inst \<Rightarrow> sequence_scorer \<Rightarrow> route_slice list \<Rightarrow> real \<Rightarrow> real result option" where
  "slices_cost I sc slices penalty = cost_of_score I (score_slices I sc slices) penalty"

end
