(* ===== verification/Sequence_Scores.thy ===== *)
theory Sequence_Scores
  imports Sequence_Scorer
begin

text \<open>
  What the labels of \<open>RouteSequenceScorer\<close> are.  Under the invariant \<open>scorer_inv\<close> (every edge
  of the table is the label of the path the reference gap map gives, every profile tree has
  the labels of its customer edges as leaves, every location points at its customer), the
  label of a sequence, however its runs are cut out of the incumbent trees, is the label of
  the whole path with the inherited gaps.
\<close>

section \<open>Paths through gaps\<close>

lemma via_path_append: "via_path via (xs @ a # ys) = via_path via (xs @ [a]) @ via_path via (a # ys)"
proof (induction xs)
  case (Cons x xs)
  then show ?case by (cases xs) simp_all
qed simp

lemma via_path_snoc: "via_path via (xs @ [a, b]) = via_path via (xs @ [a]) @ via a b @ [b]"
  using via_path_append [of via xs a "[b]"] by simp

text \<open>The label after the customers \<open>cs\<close> were driven from the depot \<open>d\<close>.\<close>

definition so_far :: "inst \<Rightarrow> (int \<Rightarrow> int \<Rightarrow> int list) \<Rightarrow> int \<Rightarrow> int list \<Rightarrow> charging_label" where
  "so_far I via d cs = (if cs = [] then empty_label else path_label I d (via_path via (d # cs)))"

lemma so_far_edge:
  "append_label (so_far I via d cs) (path_label I (last (d # cs)) (via (last (d # cs)) c @ [c])) =
    Inr (so_far I via d (cs @ [c]))"
proof (cases "cs = []")
  case True
  then show ?thesis by (simp add: so_far_def) (simp add: empty_label_def)
next
  case False
  let ?q = "last (d # cs)"
  have "last (d # via_path via (d # cs)) = ?q" using via_path_last [of "d # cs" via] by simp
  then have "append_label (path_label I d (via_path via (d # cs))) (path_label I ?q (via ?q c @ [c])) =
      Inr (path_label I d (via_path via (d # cs) @ via ?q c @ [c]))"
    using append_path_label [of I d "via_path via (d # cs)" "via ?q c @ [c]"] by simp
  moreover have "via_path via (d # cs @ [c]) = via_path via (d # cs) @ via ?q c @ [c]"
  proof -
    obtain qs q where cs: "d # cs = qs @ [q]" by (metis append_butlast_last_id list.distinct(1))
    then have all: "d # cs @ [c] = qs @ [q, c]" by (metis append_Cons append_Nil append_assoc)
    have "last (d # cs) = q" using cs by simp
    then show ?thesis unfolding all via_path_snoc using cs by simp
  qed
  ultimately show ?thesis using False by (simp add: so_far_def)
qed

lemma so_far_slice:
  assumes "sl \<noteq> []"
  shows "append_all (so_far I via d (cs @ [hd sl])) (path_edges I via sl) = Inr (so_far I via d (cs @ sl))"
proof -
  obtain c sl' where sl: "sl = c # sl'" using assms by (cases sl) auto
  obtain qs q where cs: "d # cs = qs @ [q]" by (metis append_butlast_last_id list.distinct(1))
  have all: "d # cs @ [c] = qs @ [q, c]" using cs by (metis append_Cons append_Nil append_assoc)
  have "via_path via (d # cs @ [c]) = (via_path via (d # cs) @ via q c) @ [c]"
    unfolding all via_path_snoc cs by simp
  moreover have "via_path via (d # cs @ sl) = (via_path via (d # cs) @ via q c) @ c # via_path via sl"
    using via_path_append [of via "d # cs" c sl'] calculation sl by simp
  ultimately show ?thesis
    using append_path_edges [OF assms, of I d "via_path via (d # cs) @ via q c" via]
    by (simp add: so_far_def sl)
qed

section \<open>Slices of a profile\<close>

definition profile_ok :: "inst \<Rightarrow> (int \<Rightarrow> int \<Rightarrow> int list) \<Rightarrow> route_profile \<Rightarrow> bool" where
  "profile_ok I via prof \<longleftrightarrow>
     tree_ok (path_edges I via (prof_customers prof)) (prof_forward prof) \<and>
     tree_ok (path_edges I via (rev (prof_customers prof))) (prof_reverse prof)"

definition slice_of :: "'a list \<Rightarrow> nat \<Rightarrow> nat \<Rightarrow> bool \<Rightarrow> 'a list" where
  "slice_of cs first past reversed =
     (let sl = take (past - first) (drop first cs) in if reversed then rev sl else sl)"

lemma rev_slice:
  "first \<le> past \<Longrightarrow> past \<le> length cs \<Longrightarrow>
    take (past - first) (drop (length cs - past) (rev cs)) = rev (take (past - first) (drop first cs))"
  by (simp add: drop_rev take_rev drop_take)

lemma slice_length: "first \<le> past \<Longrightarrow> past \<le> length cs \<Longrightarrow> length (slice_of cs first past rv) = past - first"
  by (simp add: slice_of_def Let_def)

lemma one_slice: "first < length cs \<Longrightarrow> slice_of cs first (Suc first) rv = [cs ! first]"
  by (simp add: slice_of_def Let_def take_Suc hd_drop_conv_nth)

lemma append_slice_eq:
  assumes ok: "profile_ok I via prof" and lt: "first < past" "past \<le> length (prof_customers prof)"
  shows "append_slice prof first past rv lab =
    append_all lab (path_edges I via (slice_of (prof_customers prof) first past rv))"
proof -
  let ?cs = "prof_customers prof" and ?n = "length (prof_customers prof)"
  consider "past = first + 1" | "past \<noteq> first + 1" "\<not> rv" | "past \<noteq> first + 1" "rv" by blast
  then show ?thesis
  proof cases
    case 1
    with lt show ?thesis by (simp add: append_slice_def Let_def one_slice append_all_def)
  next
    case 2
    have t: "tree_ok (path_edges I via ?cs) (prof_forward prof)" using ok by (simp add: profile_ok_def)
    have "append_range (prof_forward prof) first (past - 1) lab =
        append_all lab (take (past - 1 - first) (drop first (path_edges I via ?cs)))"
      using lt by (intro append_range_eq [OF t]) simp_all
    also have "take (past - 1 - first) (drop first (path_edges I via ?cs)) =
        path_edges I via (take (past - first) (drop first ?cs))"
      using path_edges_slice [of first ?cs "past - 1" I via] lt by simp
    finally show ?thesis using 2 lt by (simp add: append_slice_def Let_def slice_of_def)
  next
    case 3
    have t: "tree_ok (path_edges I via (rev ?cs)) (prof_reverse prof)" using ok by (simp add: profile_ok_def)
    have "append_range (prof_reverse prof) (?n - past) (?n - first - 1) lab =
        append_all lab (take (?n - first - 1 - (?n - past)) (drop (?n - past) (path_edges I via (rev ?cs))))"
      using lt by (intro append_range_eq [OF t]) simp_all
    also have "take (?n - first - 1 - (?n - past)) (drop (?n - past) (path_edges I via (rev ?cs))) =
        path_edges I via (take (past - first) (drop (?n - past) (rev ?cs)))"
      using path_edges_slice [of "?n - past" "rev ?cs" "?n - first - 1" I via] lt by simp
    also have "take (past - first) (drop (?n - past) (rev ?cs)) = rev (take (past - first) (drop first ?cs))"
      using lt by (intro rev_slice) simp_all
    finally show ?thesis using 3 lt by (simp add: append_slice_def Let_def slice_of_def)
  qed
qed

section \<open>The invariant of the scorer\<close>

definition anchor :: "inst \<Rightarrow> int \<Rightarrow> bool" where
  "anchor I a \<longleftrightarrow> a = depot_id I \<or> a \<in> set (customer_ids I)"

definition scorer_inv :: "inst \<Rightarrow> (int \<Rightarrow> int \<Rightarrow> int list) \<Rightarrow> sequence_scorer \<Rightarrow> bool" where
  "scorer_inv I via sc \<longleftrightarrow>
     (\<forall>a b. anchor I a \<and> anchor I b \<longrightarrow> edge_of sc a b = Inr (path_label I a (via a b @ [b]))) \<and>
     (\<forall>prof \<in> set (profiles sc). profile_ok I via prof) \<and>
     (\<forall>c l. location_of sc c = Some l \<longrightarrow> loc_route l < length (profiles sc) \<and>
        loc_position l < length (prof_customers (profiles sc ! loc_route l)) \<and>
        prof_customers (profiles sc ! loc_route l) ! loc_position l = c)"

lemma append_edge_so_far:
  assumes "scorer_inv I via sc" and "anchor I (last (d # cs))" and "anchor I c"
  shows "append_edge_of sc (so_far I via d cs) (last (d # cs)) c = Inr (so_far I via d (cs @ [c]))"
proof -
  have "edge_of sc (last (d # cs)) c = Inr (path_label I (last (d # cs)) (via (last (d # cs)) c @ [c]))"
    using assms by (simp only: scorer_inv_def)
  then show ?thesis unfolding append_edge_of_def by (simp only: rbind_Inr so_far_edge)
qed

text \<open>An edge to the first customer of a slice, then the slice.\<close>

lemma append_slice_so_far:
  assumes "profile_ok I via prof" and "first < past" "past \<le> length (prof_customers prof)"
    and "hd (slice_of (prof_customers prof) first past rv) = c"
  shows "append_slice prof first past rv (so_far I via d (cs @ [c])) =
    Inr (so_far I via d (cs @ slice_of (prof_customers prof) first past rv))"
proof -
  have "slice_of (prof_customers prof) first past rv \<noteq> []"
    using slice_length [of first past "prof_customers prof" rv] assms(2,3) by auto
  from so_far_slice [OF this, of I via d cs] show ?thesis
    by (simp only: append_slice_eq [OF assms(1-3)] assms(4))
qed

section \<open>Runs\<close>

text \<open>The loop accepts customers at consecutive positions of the route, in one direction.\<close>

lemma extend_run_spec:
  assumes locs: "\<And>c l. location_of sc c = Some l \<Longrightarrow> loc_route l = loc_route loc \<Longrightarrow>
      loc_position l < length pcs \<and> pcs ! loc_position l = c"
    and "extend_run sc loc d k p cs = (k', p')" and "int p = int (loc_position loc) + d * (int k - 1)" "1 \<le> k"
  shows "k \<le> k' \<and> k' \<le> k + length cs \<and> int p' = int (loc_position loc) + d * (int k' - 1) \<and>
    (\<forall>j. k \<le> j \<and> j < k' \<longrightarrow> 0 \<le> int (loc_position loc) + d * int j \<and>
       nat (int (loc_position loc) + d * int j) < length pcs \<and>
       pcs ! nat (int (loc_position loc) + d * int j) = cs ! (j - k))"
  using assms(2-)
proof (induction cs arbitrary: k p)
  case (Cons c cs)
  let ?e = "int (loc_position loc) + d * int k"
  show ?case
  proof (cases "\<exists>l. location_of sc c = Some l \<and> loc_route l = loc_route loc \<and> 0 \<le> ?e \<and> loc_position l = nat ?e")
    case False
    then have "k' = k" "p' = p"
      using Cons.prems(1) by (auto simp: Let_def not_less split: option.splits if_splits)
    then show ?thesis using Cons.prems(2) by auto
  next
    case True
    then obtain l where l: "location_of sc c = Some l" "loc_route l = loc_route loc" "0 \<le> ?e" "loc_position l = nat ?e"
      by blast
    then have at: "nat ?e < length pcs" "pcs ! nat ?e = c" using locs [OF l(1,2)] by simp_all
    have "extend_run sc loc d (k + 1) (nat ?e) cs = (k', p')"
      using Cons.prems(1) l by (simp add: Let_def)
    moreover have "int (nat ?e) = int (loc_position loc) + d * (int (k + 1) - 1)" using l(3) by simp
    ultimately have ih: "k + 1 \<le> k' \<and> k' \<le> k + 1 + length cs \<and> int p' = int (loc_position loc) + d * (int k' - 1) \<and>
      (\<forall>j. k + 1 \<le> j \<and> j < k' \<longrightarrow> 0 \<le> int (loc_position loc) + d * int j \<and>
         nat (int (loc_position loc) + d * int j) < length pcs \<and>
         pcs ! nat (int (loc_position loc) + d * int j) = cs ! (j - (k + 1)))"
      by (rule Cons.IH) simp
    have "0 \<le> int (loc_position loc) + d * int j \<and> nat (int (loc_position loc) + d * int j) < length pcs \<and>
       pcs ! nat (int (loc_position loc) + d * int j) = (c # cs) ! (j - k)" if "k \<le> j" "j < k'" for j
    proof (cases "j = k")
      case True
      then show ?thesis using l(3) at by simp
    next
      case False
      then have "k + 1 \<le> j" "j - k = Suc (j - (k + 1))" using that by simp_all
      with ih that show ?thesis by simp
    qed
    then show ?thesis using ih by simp
  qed
qed auto

text \<open>The run is a slice of the route, in the direction found.\<close>

lemma run_slice:
  assumes locs: "\<And>c l. location_of sc c = Some l \<Longrightarrow> loc_route l = loc_route loc \<Longrightarrow>
      loc_position l < length pcs \<and> pcs ! loc_position l = c"
    and loc: "location_of sc first = Some loc"
    and run: "(if direction \<noteq> 0 then extend_run sc loc direction 1 (loc_position loc) rest
      else (1, loc_position loc)) = (run, last_position)"
    and dir: "direction \<in> {- 1, 0, 1}"
  shows "1 \<le> run \<and> run \<le> Suc (length rest) \<and>
    (if direction \<ge> 0
     then loc_position loc < last_position + 1 \<and> last_position + 1 \<le> length pcs \<and>
       slice_of pcs (loc_position loc) (last_position + 1) False = take run (first # rest)
     else last_position < loc_position loc + 1 \<and> loc_position loc + 1 \<le> length pcs \<and>
       slice_of pcs last_position (loc_position loc + 1) True = take run (first # rest))"
proof -
  let ?p = "loc_position loc"
  have at: "?p < length pcs" "pcs ! ?p = first" using locs [OF loc refl] by simp_all
  show ?thesis
  proof (cases "direction = 0")
    case True
    with run at show ?thesis by (auto simp: one_slice)
  next
    case False
    have spec: "1 \<le> run \<and> run \<le> 1 + length rest \<and> int last_position = int ?p + direction * (int run - 1) \<and>
      (\<forall>j. 1 \<le> j \<and> j < run \<longrightarrow> 0 \<le> int ?p + direction * int j \<and> nat (int ?p + direction * int j) < length pcs \<and>
         pcs ! nat (int ?p + direction * int j) = rest ! (j - 1))"
      using extend_run_spec [of sc loc pcs direction 1 ?p rest run last_position, OF locs] run False by simp
    have nth: "0 \<le> int ?p + direction * int j \<and> nat (int ?p + direction * int j) < length pcs \<and>
         pcs ! nat (int ?p + direction * int j) = (first # rest) ! j" if "j < run" for j
    proof (cases j)
      case (Suc i)
      with spec that show ?thesis by auto
    qed (use at in simp)
    have bounds: "1 \<le> run" "run \<le> Suc (length rest)" using spec by simp_all
    consider "direction = 1" | "direction = - 1" using False dir by auto
    then show ?thesis
    proof cases
      case 1
      then have lp: "last_position = ?p + (run - 1)" using spec by auto
      have "nat (int ?p + direction * int (run - 1)) < length pcs" using nth [of "run - 1"] bounds by simp
      then have "?p + (run - 1) < length pcs" using 1 by (simp add: nat_add_distrib del: of_nat_diff)
      then have len: "last_position + 1 \<le> length pcs" using lp by simp
      have "slice_of pcs ?p (last_position + 1) False = take run (first # rest)"
      proof (rule nth_equalityI)
        show "length (slice_of pcs ?p (last_position + 1) False) = length (take run (first # rest))"
          using lp len bounds by (simp add: slice_length)
        fix j assume "j < length (slice_of pcs ?p (last_position + 1) False)"
        then have j: "j < run" using lp len bounds by (simp add: slice_length)
        from nth [OF this] 1 have "pcs ! (?p + j) = (first # rest) ! j" by (simp add: nat_add_distrib)
        with j lp len bounds show "slice_of pcs ?p (last_position + 1) False ! j = take run (first # rest) ! j"
          by (simp add: slice_of_def)
      qed
      with 1 bounds lp len show ?thesis by simp
    next
      case 2
      have nn: "run - 1 \<le> ?p" using nth [of "run - 1"] bounds 2 by auto
      then have lp: "last_position = ?p - (run - 1)" using spec 2 bounds by auto
      have "slice_of pcs last_position (?p + 1) True = take run (first # rest)"
      proof (rule nth_equalityI)
        show len: "length (slice_of pcs last_position (?p + 1) True) = length (take run (first # rest))"
          using lp nn at(1) bounds by (subst slice_length) auto
        fix j assume "j < length (slice_of pcs last_position (?p + 1) True)"
        then have j: "j < run" using len bounds by simp
        then have "nat (int ?p + - 1 * int j) = ?p - j" using nn by simp
        with nth [OF j] 2 have eq: "pcs ! (?p - j) = (first # rest) ! j" by simp
        have "length (take (?p + 1 - last_position) (drop last_position pcs)) = run"
          using lp nn at(1) bounds by auto
        then have "slice_of pcs last_position (?p + 1) True ! j = pcs ! (last_position + (run - Suc j))"
          using j lp nn at(1) bounds by (simp add: slice_of_def rev_nth)
        also have "last_position + (run - Suc j) = ?p - j" using lp nn j bounds by simp
        finally show "slice_of pcs last_position (?p + 1) True ! j = take run (first # rest) ! j"
          using eq j by simp
      qed
      with 2 bounds lp nn at(1) show ?thesis by simp
    qed
  qed
qed

lemma run_direction_range: "run_direction sc loc rest \<in> {- 1, 0, 1}"
  by (simp add: run_direction_def split: list.split option.split)

lemma label_runs_eq:
  assumes inv: "scorer_inv I via sc"
  shows "\<forall>c \<in> set cs. anchor I c \<Longrightarrow> anchor I (last (d # ds)) \<Longrightarrow>
    label_runs sc cs (so_far I via d ds) (last (d # ds)) = Inr (so_far I via d (ds @ cs), last (d # ds @ cs))"
proof (induction "length cs" arbitrary: cs ds rule: less_induct)
  case less
  show ?case
  proof (cases cs)
    case (Cons first rest)
    then have first: "anchor I first" and rest: "\<forall>c \<in> set rest. anchor I c" using less.prems(1) by simp_all
    have edge: "append_edge_of sc (so_far I via d ds) (last (d # ds)) first = Inr (so_far I via d (ds @ [first]))"
      by (rule append_edge_so_far [OF inv less.prems(2) first])
    show ?thesis
    proof (cases "location_of sc first")
      case None
      have "label_runs sc rest (so_far I via d (ds @ [first])) (last (d # ds @ [first])) =
          Inr (so_far I via d ((ds @ [first]) @ rest), last (d # (ds @ [first]) @ rest))"
        by (rule less.hyps) (use Cons first rest in simp_all)
      then show ?thesis using None edge by (simp add: Cons label_runs.simps(2) del: last.simps) (simp add: last_append)
    next
      case (Some loc)
      let ?prof = "profiles sc ! loc_route loc" and ?dir = "run_direction sc loc rest"
      let ?pcs = "prof_customers ?prof"
      obtain run lastp where run: "(if ?dir \<noteq> 0 then extend_run sc loc ?dir 1 (loc_position loc) rest
          else (1, loc_position loc)) = (run, lastp)" by fastforce
      have prof: "profile_ok I via ?prof"
        using inv Some by (auto simp: scorer_inv_def)
      have locs: "loc_position l < length ?pcs \<and> ?pcs ! loc_position l = c"
        if "location_of sc c = Some l" "loc_route l = loc_route loc" for c l
        using inv that by (fastforce simp: scorer_inv_def)
      note sl = run_slice [OF locs Some run run_direction_range]
      have len: "1 \<le> run" "run \<le> Suc (length rest)" using sl by simp_all
      have hd: "hd (take run (first # rest)) = first" using len by (cases run) simp_all
      have slice: "(if ?dir \<ge> 0
           then append_slice ?prof (loc_position loc) (lastp + 1) False (so_far I via d (ds @ [first]))
           else append_slice ?prof lastp (loc_position loc + 1) True (so_far I via d (ds @ [first]))) =
          Inr (so_far I via d (ds @ take run (first # rest)))"
        using sl hd append_slice_so_far [OF prof, of "loc_position loc" "lastp + 1" False first d ds]
          append_slice_so_far [OF prof, of lastp "loc_position loc + 1" True first d ds]
        by (cases "?dir \<ge> 0") simp_all
      have split: "take run (first # rest) @ drop (run - 1) rest = first # rest"
        using len by (cases run) simp_all
      have final: "last (d # ds @ take run (first # rest)) = (first # rest) ! (run - 1)"
      proof -
        have "take run (first # rest) \<noteq> []" using len by auto
        then have "last (d # ds @ take run (first # rest)) = last (take run (first # rest))" by simp
        also have "\<dots> = (first # rest) ! (run - 1)"
          using len by (subst last_conv_nth) (auto simp: min_def)
        finally show ?thesis .
      qed
      have "(first # rest) ! (run - 1) \<in> set cs" using len Cons by (simp only: Cons) (intro nth_mem, simp)
      then have known: "anchor I (last (d # ds @ take run (first # rest)))"
        using less.prems(1) unfolding final by blast
      have "label_runs sc (drop (run - 1) rest) (so_far I via d (ds @ take run (first # rest)))
          (last (d # ds @ take run (first # rest))) =
        Inr (so_far I via d ((ds @ take run (first # rest)) @ drop (run - 1) rest),
             last (d # (ds @ take run (first # rest)) @ drop (run - 1) rest))"
        by (rule less.hyps [OF _ _ known]) (use Cons rest in \<open>auto dest: in_set_dropD\<close>)
      then have next_runs: "label_runs sc (drop (run - 1) rest) (so_far I via d (ds @ take run (first # rest)))
          ((first # rest) ! (run - 1)) =
        Inr (so_far I via d (ds @ first # rest), last (d # ds @ first # rest))"
        by (simp only: append_assoc split final)
      show ?thesis
        unfolding Cons label_runs.simps(2) Some option.case Let_def run prod.case edge rbind_Inr slice next_runs ..
    qed
  qed simp
qed


section \<open>The labels\<close>

text \<open>The path of a customer sequence from depot to depot.\<close>

lemma via_path_interleave:
  "via_path via (a # cs @ [d]) =
    interleave (map (\<lambda>(p, q). via p q) (zip (a # cs) (cs @ [d]))) cs @ [d]"
  by (induction cs arbitrary: a) simp_all

lemma anchors_last: "\<forall>c \<in> set cs. anchor I c \<Longrightarrow> anchor I (last (depot_id I # cs))"
  by (cases cs rule: rev_cases) (auto simp: anchor_def)

lemma depot_known: "inst_ok I \<Longrightarrow> depot_of I = Inr (the_node I (depot_id I)) \<and> node_id (the_node I (depot_id I)) = depot_id I"
  using node_of_known [of I "depot_id I"] known_lookups(1) by (simp add: depot_of_def)

lemma anchor_depot [simp]: "anchor I (depot_id I)"
  by (simp add: anchor_def)

lemma sequence_label_eq:
  assumes I: "inst_ok I" and inv: "scorer_inv I via sc" and cs: "cs \<noteq> []" "\<forall>c \<in> set cs. anchor I c"
  shows "sequence_label I sc cs = Inr (path_label I (depot_id I) (via_path via (depot_id I # cs @ [depot_id I])))"
proof -
  let ?d = "depot_id I"
  have "label_runs sc cs (so_far I via ?d []) (last [?d]) = Inr (so_far I via ?d ([] @ cs), last (?d # [] @ cs))"
    by (rule label_runs_eq [OF inv cs(2)]) simp
  then have "label_runs sc cs empty_label ?d = Inr (so_far I via ?d cs, last (?d # cs))"
    by (simp add: so_far_def)
  moreover have "append_edge_of sc (so_far I via ?d cs) (last (?d # cs)) ?d = Inr (so_far I via ?d (cs @ [?d]))"
    by (rule append_edge_so_far [OF inv anchors_last [OF cs(2)]]) simp
  moreover have "so_far I via ?d (cs @ [?d]) = path_label I ?d (via_path via (?d # cs @ [?d]))"
    by (simp add: so_far_def)
  ultimately show ?thesis using cs(1) depot_known [OF I] by (simp add: sequence_label_def del: last.simps)
qed

lemma insertion_label_eq:
  assumes I: "inst_ok I" and inv: "scorer_inv I via sc" and r: "r < length (profiles sc)"
    and new: "location_of sc c = None" "anchor I c"
    and cs: "cs = prof_customers (profiles sc ! r)" "\<forall>c \<in> set cs. anchor I c" and pos: "position \<le> length cs"
  shows "insertion_label I sc r position c =
    Inr (path_label I (depot_id I) (via_path via (depot_id I # (take position cs @ c # drop position cs) @ [depot_id I])))"
proof -
  let ?d = "depot_id I" and ?prof = "profiles sc ! r"
  let ?pre = "take position cs" and ?post = "drop position cs"
  have prof: "profile_ok I via ?prof" using inv r by (simp add: scorer_inv_def)
  have first: "(if position > 0
      then rbind (append_edge_of sc empty_label ?d (hd cs)) (\<lambda>lab.
           rbind (append_slice ?prof 0 position False lab) (\<lambda>lab. Inr (lab, cs ! (position - 1))))
      else Inr (empty_label, ?d)) = Inr (so_far I via ?d ?pre, last (?d # ?pre))"
  proof (cases "position > 0")
    case True
    then have ne: "cs \<noteq> []" "?pre \<noteq> []" using pos by auto
    have "append_edge_of sc (so_far I via ?d []) (last [?d]) (hd cs) = Inr (so_far I via ?d ([] @ [hd cs]))"
      by (rule append_edge_so_far [OF inv]) (use ne cs(2) in auto)
    moreover have sl: "slice_of cs 0 position False = ?pre" by (simp add: slice_of_def)
    have "append_slice ?prof 0 position False (so_far I via ?d ([] @ [hd cs])) = Inr (so_far I via ?d ([] @ ?pre))"
      using append_slice_so_far [OF prof, of 0 position False "hd cs" ?d "[]"] True pos sl cs(1) by simp
    moreover have "last (?d # ?pre) = cs ! (position - 1)"
      using last_take_nodes [OF pos, of ?d] True by (simp add: nth_Cons')
    ultimately show ?thesis using True by (simp add: so_far_def)
  qed (simp add: so_far_def)
  have pre_anchor: "anchor I (last (?d # ?pre))"
    using cs(2) by (intro anchors_last) (auto dest: in_set_takeD)
  have second: "append_edge_of sc (so_far I via ?d ?pre) (last (?d # ?pre)) c = Inr (so_far I via ?d (?pre @ [c]))"
    by (rule append_edge_so_far [OF inv pre_anchor new(2)])
  have third: "(if position < length cs
      then rbind (append_edge_of sc (so_far I via ?d (?pre @ [c])) c (cs ! position)) (\<lambda>lab.
           rbind (append_slice ?prof position (length cs) False lab) (\<lambda>lab. Inr (lab, last cs)))
      else Inr (so_far I via ?d (?pre @ [c]), c)) =
    Inr (so_far I via ?d (?pre @ c # ?post), last (?d # ?pre @ c # ?post))"
  proof (cases "position < length cs")
    case True
    let ?n = "cs ! position"
    have post: "?post \<noteq> []" "hd ?post = ?n" using True by (simp_all add: hd_drop_conv_nth)
    have "append_edge_of sc (so_far I via ?d (?pre @ [c])) (last (?d # ?pre @ [c])) ?n =
        Inr (so_far I via ?d ((?pre @ [c]) @ [?n]))"
      by (rule append_edge_so_far [OF inv]) (use new(2) cs(2) True in auto)
    moreover have sl: "slice_of cs position (length cs) False = ?post" by (simp add: slice_of_def)
    have "append_slice ?prof position (length cs) False (so_far I via ?d ((?pre @ [c]) @ [?n])) =
        Inr (so_far I via ?d ((?pre @ [c]) @ ?post))"
      using append_slice_so_far [OF prof, of position "length cs" False ?n ?d "?pre @ [c]"] True sl post(2) cs(1) by simp
    moreover have "last (?d # ?pre @ c # ?post) = last cs" using post(1) True by simp
    ultimately show ?thesis using True by (simp del: last.simps) simp
  next
    case False
    with pos show ?thesis by simp
  qed
  have all: "\<forall>x \<in> set (?pre @ c # ?post). anchor I x"
    using cs(2) new(2) by (auto dest: in_set_takeD in_set_dropD)
  have fourth: "append_edge_of sc (so_far I via ?d (?pre @ c # ?post)) (last (?d # ?pre @ c # ?post)) ?d =
      Inr (so_far I via ?d ((?pre @ c # ?post) @ [?d]))"
    by (rule append_edge_so_far [OF inv anchors_last [OF all]]) simp
  have guards: "\<not> r \<ge> length (profiles sc)" "\<not> position > length (prof_customers ?prof)" using r pos cs(1) by simp_all
  have d: "node_id (the_node I ?d) = ?d" "depot_of I = Inr (the_node I ?d)" using depot_known [OF I] by simp_all
  have "insertion_label I sc r position c = Inr (so_far I via ?d ((?pre @ c # ?post) @ [?d]))"
    unfolding insertion_label_def Let_def if_not_P [OF guards(1)] if_not_P [OF guards(2)] new(1) d rbind_Inr
      cs(1) [symmetric]
    using pos by (simp only: not_True_eq_False not_False_eq_True if_False if_True simp_thms first second third
      fourth rbind_Inr prod.case not_less [symmetric])
  then show ?thesis by (simp add: so_far_def)
qed

text \<open>The customers of a list of slices, in driving order.\<close>

definition slices_customers :: "sequence_scorer \<Rightarrow> route_slice list \<Rightarrow> int list" where
  "slices_customers sc slices = concat (map (\<lambda>sl. slice_of (prof_customers (profiles sc ! slice_route sl))
     (slice_begin sl) (slice_end sl) (slice_reversed sl)) slices)"

definition slice_valid :: "sequence_scorer \<Rightarrow> route_slice \<Rightarrow> bool" where
  "slice_valid sc sl \<longleftrightarrow> slice_route sl < length (profiles sc) \<and> slice_begin sl < slice_end sl \<and>
     slice_end sl \<le> length (prof_customers (profiles sc ! slice_route sl))"

lemma check_slice_valid:
  assumes "slice_valid sc sl"
  shows "check_slice sc sl = Inr (profiles sc ! slice_route sl,
    hd (slice_of (prof_customers (profiles sc ! slice_route sl)) (slice_begin sl) (slice_end sl) (slice_reversed sl)),
    last (slice_of (prof_customers (profiles sc ! slice_route sl)) (slice_begin sl) (slice_end sl) (slice_reversed sl)))"
proof -
  let ?cs = "prof_customers (profiles sc ! slice_route sl)" and ?b = "slice_begin sl" and ?e = "slice_end sl"
  let ?t = "take (?e - ?b) (drop ?b ?cs)"
  have lt: "?b < ?e" "?e \<le> length ?cs" using assms by (simp_all add: slice_valid_def)
  then have "?t \<noteq> []" by simp
  moreover have "hd ?t = ?cs ! ?b" using lt by (simp add: hd_drop_conv_nth)
  moreover have "last ?t = ?cs ! (?e - 1)" using lt by (intro last_slice)
  ultimately show ?thesis
    using assms by (simp add: check_slice_def slice_valid_def slice_of_def Let_def hd_rev last_rev)
qed

lemma check_slice_error: "\<not> slice_valid sc sl \<Longrightarrow> \<exists>m. check_slice sc sl = Inl (Out_Of_Range m)"
  by (auto simp: check_slice_def slice_valid_def Let_def)

lemma slice_anchors:
  assumes "slice_valid sc sl" and "\<forall>prof \<in> set (profiles sc). \<forall>c \<in> set (prof_customers prof). anchor I c"
  shows "\<forall>c \<in> set (slice_of (prof_customers (profiles sc ! slice_route sl)) (slice_begin sl) (slice_end sl) rv). anchor I c"
proof -
  have "profiles sc ! slice_route sl \<in> set (profiles sc)" using assms(1) by (simp add: slice_valid_def)
  with assms(2) show ?thesis by (auto simp: slice_of_def Let_def dest!: in_set_takeD in_set_dropD)
qed

lemma label_slices_eq:
  assumes inv: "scorer_inv I via sc"
    and customers: "\<forall>prof \<in> set (profiles sc). \<forall>c \<in> set (prof_customers prof). anchor I c"
    and valid: "\<forall>sl \<in> set slices. slice_valid sc sl" and d: "anchor I (last (d # ds))"
  shows "rfold (label_slice sc) (so_far I via d ds, last (d # ds)) slices =
    Inr (so_far I via d (ds @ slices_customers sc slices), last (d # ds @ slices_customers sc slices))"
  using valid d
proof (induction slices arbitrary: ds)
  case Nil
  then show ?case by (simp add: slices_customers_def)
next
  case (Cons sl slices)
  let ?prof = "profiles sc ! slice_route sl"
  let ?s = "slice_of (prof_customers ?prof) (slice_begin sl) (slice_end sl) (slice_reversed sl)"
  have v: "slice_valid sc sl" using Cons.prems(1) by simp
  then have lt: "slice_begin sl < slice_end sl" "slice_end sl \<le> length (prof_customers ?prof)"
    and prof: "profile_ok I via ?prof" using inv by (simp_all add: slice_valid_def scorer_inv_def)
  have ne: "?s \<noteq> []" using slice_length [of "slice_begin sl" "slice_end sl" "prof_customers ?prof" "slice_reversed sl"] lt by auto
  have anchors: "\<forall>c \<in> set ?s. anchor I c" by (rule slice_anchors [OF v customers])
  have "append_edge_of sc (so_far I via d ds) (last (d # ds)) (hd ?s) = Inr (so_far I via d (ds @ [hd ?s]))"
    by (rule append_edge_so_far [OF inv Cons.prems(2)]) (use ne anchors in auto)
  moreover have "append_slice ?prof (slice_begin sl) (slice_end sl) (slice_reversed sl) (so_far I via d (ds @ [hd ?s])) =
      Inr (so_far I via d (ds @ ?s))"
    by (rule append_slice_so_far [OF prof lt refl])
  ultimately have step: "label_slice sc (so_far I via d ds, last (d # ds)) sl = Inr (so_far I via d (ds @ ?s), last ?s)"
    by (simp add: label_slice_def check_slice_valid [OF v])
  have last: "last (d # ds @ ?s) = last ?s" using ne by simp
  have "anchor I (last (d # ds @ ?s))" using anchors ne unfolding last by simp
  from Cons.IH [OF _ this] Cons.prems(1) step last show ?case
    by (simp add: slices_customers_def)
qed


lemma slices_label_eq:
  assumes I: "inst_ok I" and inv: "scorer_inv I via sc"
    and customers: "\<forall>prof \<in> set (profiles sc). \<forall>c \<in> set (prof_customers prof). anchor I c"
    and slices: "slices \<noteq> []" "\<forall>sl \<in> set slices. slice_valid sc sl"
  shows "slices_label I sc slices =
    Inr (path_label I (depot_id I) (via_path via (depot_id I # slices_customers sc slices @ [depot_id I])))"
proof -
  let ?d = "depot_id I" and ?cs = "slices_customers sc slices"
  have run: "rfold (label_slice sc) (empty_label, ?d) slices = Inr (so_far I via ?d ?cs, last (?d # ?cs))"
    using label_slices_eq [OF inv customers slices(2), of ?d "[]"] by (simp add: so_far_def)
  have "\<forall>c \<in> set ?cs. anchor I c"
    using slice_anchors [OF _ customers] slices(2) by (auto simp: slices_customers_def)
  from append_edge_so_far [OF inv anchors_last [OF this], of "?d"]
  have "append_edge_of sc (so_far I via ?d ?cs) (last (?d # ?cs)) ?d = Inr (so_far I via ?d (?cs @ [?d]))" by simp
  with run slices(1) depot_known [OF I] show ?thesis
    by (simp add: slices_label_def del: last.simps) (simp add: so_far_def)
qed

section \<open>Collected components\<close>

text \<open>The components append to the label, as long as their number is within the limit.\<close>

lemma slice_components:
  assumes ok: "profile_ok I via prof" and lt: "first < past" "past \<le> length (prof_customers prof)"
  shows "\<exists>ds. append_slice_components prof first past rv limit cs =
      (if length cs + length ds \<le> limit \<or> ds = [] then Inr (cs @ ds)
       else Inl (Length_Error ''route label exceeds component bound'')) \<and>
    (\<forall>d \<in> set ds. initialized d) \<and> (\<forall>a. append_all a ds = append_slice prof first past rv a)"
proof -
  let ?cs = "prof_customers prof" and ?n = "length (prof_customers prof)"
  have trees: "tree_ok (path_edges I via ?cs) (prof_forward prof)" "tree_ok (path_edges I via (rev ?cs)) (prof_reverse prof)"
    using ok by (simp_all add: profile_ok_def)
  have init: "\<forall>l \<in> set (path_edges I via xs). initialized l" for xs
    using path_edges_contiguous [of I via xs] by (simp add: contiguous_def)
  have range: "\<exists>ds. append_range_components t i j limit cs =
      (if length cs + length ds \<le> limit \<or> ds = [] then Inr (cs @ ds)
       else Inl (Length_Error ''route label exceeds component bound'')) \<and>
      (\<forall>d \<in> set ds. initialized d) \<and> (\<forall>a. append_all a ds = append_range t i j a)"
    if "tree_ok (path_edges I via xs) t" "i \<le> j" "j \<le> length (path_edges I via xs)" for t xs i j
    using append_range_components_eq [OF that(1) init that(2,3), of limit cs] append_range_eq [OF that] by metis
  show ?thesis
  proof (cases "past = first + 1")
    case True
    with lt show ?thesis
      by (intro exI [of _ "[]"]) (simp add: append_slice_components_def append_slice_def Let_def append_all_def)
  next
    case False
    then show ?thesis
      using range [OF trees(1), of first "past - 1"] range [OF trees(2), of "?n - past" "?n - first - 1"] lt
      by (cases rv) (simp_all add: append_slice_components_def append_slice_def Let_def)
  qed
qed

text \<open>
  The collection either hits the limit of the component array, or returns components that
  append to what \<open>slices_label\<close> would build.
\<close>

lemma collect_slices:
  assumes inv: "scorer_inv I via sc"
    and customers: "\<forall>prof \<in> set (profiles sc). \<forall>c \<in> set (prof_customers prof). anchor I c"
    and valid: "\<forall>sl \<in> set slices. slice_valid sc sl" and q: "anchor I q"
    and cs: "\<forall>c \<in> set cs. initialized c"
  shows "rfold (collect_slice sc) (cs, q) slices = Inl (Length_Error ''route label exceeds component bound'') \<or>
    (\<exists>ds q'. rfold (collect_slice sc) (cs, q) slices = Inr (cs @ ds, q') \<and> (\<forall>d \<in> set ds. initialized d) \<and>
      (slices \<noteq> [] \<longrightarrow> ds \<noteq> []) \<and> anchor I q' \<and>
      (\<forall>lab lab'. append_all lab cs = Inr lab' \<longrightarrow>
         rfold (label_slice sc) (lab', q) slices = rbind (append_all lab (cs @ ds)) (\<lambda>l. Inr (l, q'))))"
  using valid q cs
proof (induction slices arbitrary: cs q)
  case Nil
  then show ?case by (intro disjI2 exI [of _ "[]"] exI [of _ q]) simp
next
  case (Cons sl slices)
  let ?prof = "profiles sc ! slice_route sl"
  let ?s = "slice_of (prof_customers ?prof) (slice_begin sl) (slice_end sl) (slice_reversed sl)"
  have v: "slice_valid sc sl" using Cons.prems(1) by simp
  then have lt: "slice_begin sl < slice_end sl" "slice_end sl \<le> length (prof_customers ?prof)"
    and prof: "profile_ok I via ?prof" using inv by (simp_all add: slice_valid_def scorer_inv_def)
  have ne: "?s \<noteq> []" using slice_length [of "slice_begin sl" "slice_end sl" "prof_customers ?prof" "slice_reversed sl"] lt by auto
  have anchors: "\<forall>c \<in> set ?s. anchor I c" by (rule slice_anchors [OF v customers])
  then have hd: "anchor I (hd ?s)" "anchor I (last ?s)" using ne by simp_all
  let ?e = "path_label I q (via q (hd ?s) @ [hd ?s])"
  have edge: "edge_of sc q (hd ?s) = Inr ?e" using inv Cons.prems(2) hd(1) by (simp add: scorer_inv_def)
  obtain ds where ds: "append_slice_components ?prof (slice_begin sl) (slice_end sl) (slice_reversed sl)
        kMaximumLabelComponents (cs @ [?e]) =
      (if length (cs @ [?e]) + length ds \<le> kMaximumLabelComponents \<or> ds = [] then Inr ((cs @ [?e]) @ ds)
       else Inl (Length_Error ''route label exceeds component bound''))" "\<forall>d \<in> set ds. initialized d"
      "\<And>a. append_all a ds = append_slice ?prof (slice_begin sl) (slice_end sl) (slice_reversed sl) a"
    using slice_components [OF prof lt] by metis
  let ?bound = "Length_Error ''route label exceeds component bound''"
  let ?cs = "(cs @ [?e]) @ ds"
  have step: "collect_slice sc (cs, q) sl = Inl ?bound \<or> collect_slice sc (cs, q) sl = Inr (?cs, last ?s)"
    using ds(1) by (auto simp: collect_slice_def check_slice_valid [OF v] edge push_component_def)
  show ?case
  proof (cases "collect_slice sc (cs, q) sl = Inl ?bound")
    case False
    with step have ok: "collect_slice sc (cs, q) sl = Inr (?cs, last ?s)" by blast
    have init: "\<forall>c \<in> set ?cs. initialized c" using Cons.prems(3) ds(2) by auto
    from Cons.IH [OF _ hd(2) init] Cons.prems(1)
    consider (bound) "rfold (collect_slice sc) (?cs, last ?s) slices = Inl ?bound"
      | (collected) ds' q' where "rfold (collect_slice sc) (?cs, last ?s) slices = Inr (?cs @ ds', q')"
        "\<forall>d \<in> set ds'. initialized d" "anchor I q'"
        "\<forall>lab lab'. append_all lab ?cs = Inr lab' \<longrightarrow>
         rfold (label_slice sc) (lab', last ?s) slices = rbind (append_all lab (?cs @ ds')) (\<lambda>l. Inr (l, q'))"
      by (auto simp del: append_assoc)
    then show ?thesis
    proof cases
      case bound
      with ok show ?thesis by simp
    next
      case collected
      have "rfold (label_slice sc) (lab', q) (sl # slices) =
          rbind (append_all lab (cs @ ?e # ds @ ds')) (\<lambda>l. Inr (l, q'))"
        if lab: "append_all lab cs = Inr lab'" for lab lab'
      proof -
        have all: "append_all lab ?cs = rbind (append_label lab' ?e) (\<lambda>l. append_all l ds)"
          using lab by (simp add: append_all_append) (simp add: append_all_def)
        have one: "label_slice sc (lab', q) sl = rbind (append_all lab ?cs) (\<lambda>l. Inr (l, last ?s))"
          unfolding all label_slice_def prod.case check_slice_valid [OF v] rbind_Inr append_edge_of_def edge ds(3)
          by (simp add: rbind_assoc)
        show ?thesis
        proof (cases "append_all lab ?cs")
          case (Inl e)
          then have "append_all lab (?cs @ ds') = Inl e" by (simp only: append_all_append rbind_Inl)
          with Inl one show ?thesis by simp
        next
          case (Inr l)
          with collected(4) one show ?thesis by simp
        qed
      qed
      with ok collected ds(2) show ?thesis
        by (intro disjI2 exI [of _ "?e # ds @ ds'"] exI [of _ q']) auto
    qed
  qed simp
qed

lemma score_slices_eq:
  assumes I: "inst_ok I" and inv: "scorer_inv I via sc"
    and customers: "\<forall>prof \<in> set (profiles sc). \<forall>c \<in> set (prof_customers prof). anchor I c"
    and slices: "slices \<noteq> []" "\<forall>sl \<in> set slices. slice_valid sc sl"
  shows "score_slices I sc slices = Some (Inl (Length_Error ''route label exceeds component bound'')) \<or>
    score_slices I sc slices = and_evaluate (slices_label I sc slices) (evaluate_label I)"
proof -
  let ?d = "depot_id I" and ?bound = "Length_Error ''route label exceeds component bound''"
  have d: "depot_of I = Inr (the_node I ?d)" "node_id (the_node I ?d) = ?d" using depot_known [OF I] by simp_all
  note coll = collect_slices [OF inv customers slices(2) anchor_depot, of "[]"]
  show ?thesis
  proof (cases "rfold (collect_slice sc) ([], ?d) slices")
    case (Inl e)
    with coll have "e = ?bound" by auto
    with Inl d slices(1) show ?thesis by (simp add: score_slices_def collect_components_def and_evaluate_def)
  next
    case (Inr r)
    with coll slices(1) obtain ds q' where ds: "r = (ds, q')" "\<forall>d \<in> set ds. initialized d" "ds \<noteq> []" "anchor I q'"
      and lab: "rfold (label_slice sc) (empty_label, ?d) slices = rbind (append_all empty_label ds) (\<lambda>l. Inr (l, q'))"
      by (fastforce simp: append_all_def)
    let ?e = "path_label I q' (via q' ?d @ [?d])"
    have edge: "edge_of sc q' ?d = Inr ?e" using inv ds(4) by (simp add: scorer_inv_def)
    have coll: "collect_components I sc slices =
        (if length ds \<ge> kMaximumLabelComponents then Inl ?bound else Inr (ds @ [?e]))"
      using slices(1) d Inr ds(1) edge by (simp add: collect_components_def push_component_def)
    have lbl: "slices_label I sc slices = append_all empty_label (ds @ [?e])"
    proof (cases "append_all empty_label ds")
      case (Inl e)
      then show ?thesis using slices(1) d lab by (simp add: slices_label_def append_all_append)
    next
      case (Inr l)
      have "append_all l [?e] = append_label l ?e"
        by (cases "append_label l ?e") (simp_all add: append_all_def)
      with Inr show ?thesis
        using slices(1) d lab edge by (simp add: slices_label_def append_all_append append_edge_of_def)
    qed
    obtain f fs where f: "ds @ [?e] = f # fs" by (cases "ds @ [?e]") auto
    have "\<forall>c \<in> set (ds @ [?e]). initialized c" using ds(2) by simp
    then have "initialized f" "\<forall>c \<in> set fs. initialized c" unfolding f by simp_all
    from evaluate_components_all [OF this, of I] append_all_empty [OF this(1), of fs]
    have "evaluate_components I (map Some (ds @ [?e])) = and_evaluate (append_all empty_label (ds @ [?e])) (evaluate_label I)"
      by (simp only: f) (simp add: and_evaluate_def)
    then show ?thesis using coll lbl by (simp add: score_slices_def and_evaluate_def)
  qed
qed

end
