(* ===== verification/Sequence_Properties.thy ===== *)
theory Sequence_Properties
  imports Sequence_Scores
begin

text \<open>
  The construction and the rebinding of \<open>RouteSequenceScorer\<close> (src/evaluator.cpp) establish
  the invariant of Sequence_Scores for the reference gap map, also when profiles of
  unchanged routes are kept; hence the scores of sequences, insertions and slices are those
  of the routes the plan factory would build with the inherited gaps.
\<close>

section \<open>Built profiles\<close>

text \<open>A plan whose gaps hold stations, whose customers are the instance's, and whose route is their expansion.\<close>

definition plan_ok :: "inst \<Rightarrow> plan \<Rightarrow> bool" where
  "plan_ok I p \<longleftrightarrow> length (gaps p) = length (plan_customers p) + 1 \<and>
     visits (plan_route p) = interleave (gaps p) (plan_customers p) \<and>
     (\<forall>g \<in> set (gaps p). \<forall>st \<in> set g. known_station I st) \<and>
     set (plan_customers p) \<subseteq> set (customer_ids I)"

definition gap_edges :: "inst \<Rightarrow> int list \<Rightarrow> int list list \<Rightarrow> charging_label list" where
  "gap_edges I cs gs = map (\<lambda>i. path_label I (cs ! i) (gs ! (i + 1) @ [cs ! (i + 1)])) [0..<length cs - 1]"

definition built_profile :: "inst \<Rightarrow> route_profile \<Rightarrow> bool" where
  "built_profile I prof \<longleftrightarrow> (\<exists>p. plan_ok I p \<and> prof_visits prof = visits (plan_route p) \<and>
     prof_customers prof = plan_customers p \<and>
     tree_ok (gap_edges I (plan_customers p) (gaps p)) (prof_forward prof) \<and>
     tree_ok (direct_edges I (rev (plan_customers p))) (prof_reverse prof))"

lemma customer_known:
  assumes "inst_ok I" and "c \<in> set (customer_ids I)"
  shows "c \<in> set (ids I)" and "kind (the_node I c) = Customer"
proof -
  show c: "c \<in> set (ids I)" using known_lookups(2) [OF assms(1)] assms(2) by blast
  show "kind (the_node I c) = Customer"
    using kind_of_known [OF assms(1) c, of Customer] assms(2) by (simp add: inst_okD(7) [OF assms(1)])
qed

lemma anchor_known: "inst_ok I \<Longrightarrow> anchor I a \<Longrightarrow> a \<in> set (ids I)"
  using customer_known(1) known_lookups(1) by (auto simp: anchor_def)

text \<open>The gaps of a route are determined by its visits and its customers.\<close>

lemma interleave_gaps_unique:
  "length gs = length cs + 1 \<Longrightarrow> length gs' = length cs + 1 \<Longrightarrow> interleave gs cs = interleave gs' cs \<Longrightarrow>
    \<forall>g \<in> set gs \<union> set gs'. \<forall>x \<in> set g. \<not> P x \<Longrightarrow> \<forall>c \<in> set cs. P c \<Longrightarrow> gs = gs'"
proof (induction gs cs arbitrary: gs' rule: interleave.induct)
  case (1 g gs c cs)
  obtain g' hs where gs': "gs' = g' # hs" using 1(3) by (cases gs') auto
  have eq: "g @ c # interleave gs cs = g' @ c # interleave hs cs" using 1(4) gs' by simp
  have "takeWhile (\<lambda>x. \<not> P x) (g @ c # interleave gs cs) = g"
    using 1(5,6) by (auto simp: takeWhile_append)
  moreover have "takeWhile (\<lambda>x. \<not> P x) (g' @ c # interleave hs cs) = g'"
    using 1(5,6) gs' by (auto simp: takeWhile_append)
  ultimately have "g = g'" using eq by simp
  moreover from this eq have "interleave gs cs = interleave hs cs" by simp
  then have "gs = hs" using 1 gs' by (intro 1(1)) simp_all
  ultimately show ?case using gs' by simp
next
  case (2 g gs)
  then show ?case by (cases gs') auto
qed simp

lemma plan_gaps_unique:
  assumes I: "inst_ok I" and p: "plan_ok I p" and q: "plan_ok I q"
    and "visits (plan_route p) = visits (plan_route q)" and cs: "plan_customers p = plan_customers q"
  shows "gaps p = gaps q"
proof (rule interleave_gaps_unique [where P = "\<lambda>c. kind (the_node I c) = Customer"])
  show "length (gaps p) = length (plan_customers p) + 1" "length (gaps q) = length (plan_customers p) + 1"
    using p q cs by (simp_all add: plan_ok_def)
  show "interleave (gaps p) (plan_customers p) = interleave (gaps q) (plan_customers p)"
    using assms by (simp add: plan_ok_def)
  show "\<forall>g \<in> set (gaps p) \<union> set (gaps q). \<forall>x \<in> set g. kind (the_node I x) \<noteq> Customer"
    using p q by (auto simp: plan_ok_def known_station_def)
  show "\<forall>c \<in> set (plan_customers p). kind (the_node I c) = Customer"
    using p customer_known [OF I] by (auto simp: plan_ok_def)
qed

lemma gap_edges_contiguous: "contiguous (gap_edges I cs gs)"
  by (auto simp: contiguous_def gap_edges_def successively_conv_nth)

lemma make_profile_ok:
  assumes I: "inst_ok I" and p: "plan_ok I p"
  shows "\<exists>prof. make_profile I p = Inr prof \<and> built_profile I prof \<and>
    prof_visits prof = visits (plan_route p) \<and> prof_customers prof = plan_customers p"
proof -
  let ?cs = "plan_customers p" and ?n = "length (plan_customers p)"
  have known: "?cs ! i \<in> set (ids I)" if "i < ?n" for i
  proof -
    have "?cs ! i \<in> set (customer_ids I)" using that p nth_mem by (auto simp: plan_ok_def)
    then show ?thesis by (rule customer_known(1) [OF I])
  qed
  have fwd: "rmap (forward_edge I p) [0..<?n - 1] = Inr (gap_edges I ?cs (gaps p))"
    unfolding gap_edges_def
  proof (rule rmap_Inr)
    fix i assume i: "i \<in> set [0..<?n - 1]"
    then have "\<forall>st \<in> set (gaps p ! (i + 1)). known_station I st"
      using p by (auto simp: plan_ok_def)
    with i p edge_label_eq [OF I known known, of i "i + 1" "gaps p ! (i + 1)"]
    show "forward_edge I p i = Inr (path_label I (?cs ! i) (gaps p ! (i + 1) @ [?cs ! (i + 1)]))"
      by (simp add: forward_edge_def plan_ok_def)
  qed
  have "rmap (reverse_edge I p) (rev [2..<?n + 1]) =
      Inr (map (\<lambda>i. path_label I (?cs ! (i - 1)) [?cs ! (i - 2)]) (rev [2..<?n + 1]))"
  proof (rule rmap_Inr)
    fix i assume "i \<in> set (rev [2..<?n + 1])"
    then have i: "i - 1 < ?n" "i - 2 < ?n" by auto
    show "reverse_edge I p i = Inr (path_label I (?cs ! (i - 1)) [?cs ! (i - 2)])"
      using edge_label_eq [OF I known [OF i(1)] known [OF i(2)], of "[]"] by (simp add: reverse_edge_def)
  qed
  moreover have "map (\<lambda>i. path_label I (?cs ! (i - 1)) [?cs ! (i - 2)]) (rev [2..<?n + 1]) = direct_edges I (rev ?cs)"
  proof (rule nth_equalityI)
    fix k assume k: "k < length (map (\<lambda>i. path_label I (?cs ! (i - 1)) [?cs ! (i - 2)]) (rev [2..<?n + 1]))"
    then have k: "Suc k < ?n" by (simp del: upt_Suc)
    have "rev [2..<?n + 1] ! k = ?n - k"
      using k by (subst rev_nth) (simp_all del: upt_Suc)
    with k show "map (\<lambda>i. path_label I (?cs ! (i - 1)) [?cs ! (i - 2)]) (rev [2..<?n + 1]) ! k = direct_edges I (rev ?cs) ! k"
      by (simp add: path_edges_nth rev_nth del: upt_Suc)
  qed (simp del: upt_Suc)
  ultimately have bwd: "rmap (reverse_edge I p) (rev [2..<?n + 1]) = Inr (direct_edges I (rev ?cs))" by simp
  obtain f b where f: "build_tree (gap_edges I ?cs (gaps p)) = Inr f" "tree_ok (gap_edges I ?cs (gaps p)) f"
    and b: "build_tree (direct_edges I (rev ?cs)) = Inr b" "tree_ok (direct_edges I (rev ?cs)) b"
    using build_tree_ok [OF gap_edges_contiguous] build_tree_ok [OF path_edges_contiguous] by metis
  show ?thesis
    unfolding make_profile_def Let_def fwd bwd rbind_Inr f(1) b(1)
    using p f(2) b(2) by (auto simp: built_profile_def)
qed

section \<open>The gap map\<close>

definition gap_of :: "gap_map \<Rightarrow> int \<Rightarrow> int \<Rightarrow> int list" where
  "gap_of m a b = (case map_of m (a, b) of Some path \<Rightarrow> path | None \<Rightarrow> [])"

definition map_ok :: "inst \<Rightarrow> gap_map \<Rightarrow> bool" where
  "map_ok I m \<longleftrightarrow> distinct (map fst m) \<and>
     (\<forall>((a, b), path) \<in> set m. path \<noteq> [] \<longrightarrow> anchor I a \<and> anchor I b \<and> (\<forall>st \<in> set path. known_station I st))"

text \<open>The gaps of a plan are those of the map, and the map has none against the driving direction.\<close>

definition plan_matches :: "gap_map \<Rightarrow> plan \<Rightarrow> bool" where
  "plan_matches m p \<longleftrightarrow> (\<forall>i. i + 1 < length (plan_customers p) \<longrightarrow>
     gap_of m (plan_customers p ! i) (plan_customers p ! (i + 1)) = gaps p ! (i + 1) \<and>
     gap_of m (plan_customers p ! (i + 1)) (plan_customers p ! i) = [])"

lemma built_profile_ok:
  assumes I: "inst_ok I" and prof: "built_profile I prof" and p: "plan_ok I p" "plan_matches m p"
    and same: "prof_visits prof = visits (plan_route p)" "prof_customers prof = plan_customers p"
  shows "profile_ok I (gap_of m) prof"
proof -
  let ?cs = "plan_customers p"
  obtain q where q: "plan_ok I q" "prof_visits prof = visits (plan_route q)" "prof_customers prof = plan_customers q"
    "tree_ok (gap_edges I (plan_customers q) (gaps q)) (prof_forward prof)"
    "tree_ok (direct_edges I (rev (plan_customers q))) (prof_reverse prof)"
    using prof by (auto simp: built_profile_def)
  have cs: "plan_customers q = ?cs" using q(3) same(2) by simp
  have gs: "gaps q = gaps p"
    using plan_gaps_unique [OF I q(1) p(1)] q(2) same(1) cs by simp
  have "gap_edges I ?cs (gaps p) = path_edges I (gap_of m) ?cs"
    by (rule nth_equalityI) (use p(2) in \<open>auto simp: gap_edges_def path_edges_nth plan_matches_def\<close>)
  moreover have "direct_edges I (rev ?cs) = path_edges I (gap_of m) (rev ?cs)"
  proof (rule nth_equalityI)
    fix k assume "k < length (direct_edges I (rev ?cs))"
    then have k: "Suc k < length ?cs" by simp
    define i where "i = length ?cs - Suc (Suc k)"
    have i: "i + 1 < length ?cs" "rev ?cs ! k = ?cs ! (i + 1)" "rev ?cs ! Suc k = ?cs ! i"
      using k by (simp_all add: i_def rev_nth Suc_diff_Suc)
    then have "gap_of m (rev ?cs ! k) (rev ?cs ! Suc k) = []" using p(2) by (simp add: plan_matches_def)
    with k show "direct_edges I (rev ?cs) ! k = path_edges I (gap_of m) (rev ?cs) ! k"
      by (simp add: path_edges_nth)
  qed simp
  ultimately show ?thesis
    using q(4,5) cs gs same(2) by (simp add: profile_ok_def)
qed

section \<open>The tables\<close>

definition anchors :: "inst \<Rightarrow> int list" where
  "anchors I = depot_id I # customer_ids I"

lemma anchor_iff: "anchor I a \<longleftrightarrow> a \<in> set (anchors I)"
  by (auto simp: anchor_def anchors_def)

lemma anchors_distinct:
  assumes "inst_ok I"
  shows "distinct (anchors I)"
proof -
  have "distinct (ids I)" using inst_okD(2) [OF assms] by (simp add: ids_def)
  then have "distinct (ids_of_kind Customer (nodes I))"
    by (simp add: ids_of_kind_def ids_def distinct_map_filter)
  moreover have "depot_id I \<notin> set (customer_ids I)"
  proof
    assume "depot_id I \<in> set (customer_ids I)"
    then have "kind (the_node I (depot_id I)) = Customer" by (rule customer_known(2) [OF assms])
    moreover have "kind (the_node I (depot_id I)) = Depot"
      using kind_of_known [OF assms known_lookups(1) [OF assms], of Depot] inst_okD(6) [OF assms] by simp
    ultimately show False by simp
  qed
  ultimately show ?thesis by (simp add: anchors_def inst_okD(7) [OF assms])
qed

definition table_ok :: "inst \<Rightarrow> sequence_scorer \<Rightarrow> bool" where
  "table_ok I sc \<longleftrightarrow> anchor_count sc = length (anchors I) \<and>
     (\<forall>k < length (anchors I). anchor_index sc (anchors I ! k) = Inr k) \<and>
     length (direct_edge_labels sc) = length (anchors I) * length (anchors I) \<and>
     length (reference_edge_index sc) = length (anchors I) * length (anchors I) \<and>
     (\<forall>a < length (anchors I). \<forall>b < length (anchors I).
        direct_edge_labels sc ! (a * length (anchors I) + b) = path_label I (anchors I ! a) [anchors I ! b]) \<and>
     (\<forall>k < length (reference_edge_index sc). reference_edge_index sc ! k \<noteq> None \<longrightarrow> k \<in> set (active_reference_edges sc)) \<and>
     (\<forall>prof \<in> set (profiles sc). built_profile I prof)"

lemma dense_index_lt: "a < n \<Longrightarrow> b < n \<Longrightarrow> a * n + b < n * (n :: nat)"
  by (metis add_less_cancel_left less_le_trans mult_Suc mult_le_mono1 Suc_leI add.commute)

lemma dense_index_inj: "b < n \<Longrightarrow> b' < n \<Longrightarrow> a * n + b = a' * n + b' \<Longrightarrow> a = a' \<and> b = (b' :: nat)"
  by (metis add.commute div_mult_self1 div_less add_0 mod_less mod_mult_self1 less_nat_zero_code not_gr_zero)

lemma table_dense:
  assumes "table_ok I sc" and "a < length (anchors I)" and "b < length (anchors I)"
  shows "dense_edge_index sc (anchors I ! a) (anchors I ! b) = Inr (a * length (anchors I) + b)"
  using assms by (simp add: table_ok_def dense_edge_index_def)

text \<open>The overrides written for the part of the map that was seen.\<close>

definition overrides_ok :: "inst \<Rightarrow> gap_map \<Rightarrow> sequence_scorer \<Rightarrow> bool" where
  "overrides_ok I m sc \<longleftrightarrow> (\<forall>a < length (anchors I). \<forall>b < length (anchors I).
     case reference_edge_index sc ! (a * length (anchors I) + b) of
       None \<Rightarrow> gap_of m (anchors I ! a) (anchors I ! b) = []
     | Some r \<Rightarrow> r < length (reference_edges sc) \<and> reference_edges sc ! r =
         path_label I (anchors I ! a) (gap_of m (anchors I ! a) (anchors I ! b) @ [anchors I ! b]))"

lemma gap_of_snoc:
  assumes "(o1, t1) \<notin> fst ` set m"
  shows "gap_of (m @ [((o1, t1), path)]) a b = (if (a, b) = (o1, t1) then path else gap_of m a b)"
    and "gap_of m o1 t1 = []"
proof -
  have "map_of m (o1, t1) = None" using assms by (simp add: map_of_eq_None_iff)
  then show "gap_of (m @ [((o1, t1), path)]) a b = (if (a, b) = (o1, t1) then path else gap_of m a b)"
    "gap_of m o1 t1 = []"
    by (auto simp: gap_of_def map_add_def split: option.split)
qed

lemma override_edge_ok:
  assumes I: "inst_ok I" and t: "table_ok I sc" and ov: "overrides_ok I m sc" and new: "(o1, t1) \<notin> fst ` set m"
    and path: "path \<noteq> [] \<Longrightarrow> anchor I o1 \<and> anchor I t1 \<and> (\<forall>st \<in> set path. known_station I st)"
  shows "\<exists>sc'. override_edge I sc ((o1, t1), path) = Inr sc' \<and> table_ok I sc' \<and>
    overrides_ok I (m @ [((o1, t1), path)]) sc' \<and> profiles sc' = profiles sc"
proof (cases "path = []")
  case True
  have "gap_of (m @ [((o1, t1), [])]) = gap_of m"
    using gap_of_snoc(1) [OF new, of "[]"] gap_of_snoc(2) [OF new] by (intro ext) auto
  then have "overrides_ok I (m @ [((o1, t1), path)]) sc"
    using ov True by (simp only: overrides_ok_def)
  with True t show ?thesis by (simp add: override_edge_def)
next
  case False
  let ?A = "anchors I" and ?n = "length (anchors I)"
  have an: "anchor I o1" "anchor I t1" "\<forall>st \<in> set path. known_station I st" using path False by blast+
  then obtain a1 b1 where a1: "a1 < ?n" "o1 = ?A ! a1" and b1: "b1 < ?n" "t1 = ?A ! b1"
    by (metis anchor_iff in_set_conv_nth)
  let ?k = "a1 * ?n + b1"
  have k: "dense_edge_index sc o1 t1 = Inr ?k" using table_dense [OF t a1(1) b1(1)] a1(2) b1(2) by simp
  have lab: "edge_label I o1 path t1 = Inr (path_label I o1 (path @ [t1]))"
    using an anchor_known [OF I] by (intro edge_label_eq [OF I]) auto
  let ?sc = "sc\<lparr>reference_edge_index := (reference_edge_index sc)[?k := Some (length (reference_edges sc))],
      active_reference_edges := active_reference_edges sc @ [?k],
      reference_edges := reference_edges sc @ [path_label I o1 (path @ [t1])]\<rparr>"
  have "override_edge I sc ((o1, t1), path) = Inr ?sc"
    using False k lab by (simp add: override_edge_def)
  moreover have "table_ok I ?sc"
  proof -
    have idx: "anchor_index ?sc = anchor_index sc" by (intro ext) (simp add: anchor_index_def)
    have "i \<in> set (active_reference_edges ?sc)"
      if "i < length (reference_edge_index sc)" "reference_edge_index ?sc ! i \<noteq> None" for i
      using t that by (cases "i = ?k") (simp_all add: table_ok_def)
    with t idx show ?thesis by (simp add: table_ok_def)
  qed
  moreover have "overrides_ok I (m @ [((o1, t1), path)]) ?sc"
    unfolding overrides_ok_def
  proof (intro allI impI)
    fix a b assume ab: "a < ?n" "b < ?n"
    have len: "a * ?n + b < length (reference_edge_index sc)"
      using dense_index_lt [OF ab] t by (simp add: table_ok_def)
    show "case reference_edge_index ?sc ! (a * ?n + b) of
        None \<Rightarrow> gap_of (m @ [((o1, t1), path)]) (?A ! a) (?A ! b) = []
      | Some r \<Rightarrow> r < length (reference_edges ?sc) \<and> reference_edges ?sc ! r =
          path_label I (?A ! a) (gap_of (m @ [((o1, t1), path)]) (?A ! a) (?A ! b) @ [?A ! b])"
    proof (cases "a = a1 \<and> b = b1")
      case True
      with len show ?thesis using a1(2) b1(2) gap_of_snoc(1) [OF new, of path] by simp
    next
      case False
      then have ne: "a * ?n + b \<noteq> ?k" using dense_index_inj [OF ab(2) b1(1)] by blast
      have "(?A ! a, ?A ! b) \<noteq> (o1, t1)"
        using False anchors_distinct [OF I] ab a1 b1 by (auto simp: nth_eq_iff_index_eq)
      then have "gap_of (m @ [((o1, t1), path)]) (?A ! a) (?A ! b) = gap_of m (?A ! a) (?A ! b)"
        using gap_of_snoc(1) [OF new, of path] by auto
      moreover have "case reference_edge_index sc ! (a * ?n + b) of
           None \<Rightarrow> gap_of m (?A ! a) (?A ! b) = []
         | Some r \<Rightarrow> r < length (reference_edges sc) \<and> reference_edges sc ! r =
             path_label I (?A ! a) (gap_of m (?A ! a) (?A ! b) @ [?A ! b])"
        using ov ab unfolding overrides_ok_def by blast
      ultimately show ?thesis
        using ne by (cases "reference_edge_index sc ! (a * ?n + b)") (simp_all add: nth_append)
    qed
  qed
  ultimately show ?thesis by simp
qed

lemma override_edges_ok:
  assumes I: "inst_ok I"
  shows "table_ok I sc \<Longrightarrow> overrides_ok I m0 sc \<Longrightarrow> map_ok I (m0 @ m) \<Longrightarrow>
    \<exists>sc'. rfold (override_edge I) sc m = Inr sc' \<and> table_ok I sc' \<and> overrides_ok I (m0 @ m) sc' \<and>
      profiles sc' = profiles sc"
proof (induction m arbitrary: m0 sc)
  case (Cons g m)
  obtain o1 t1 path where g: "g = ((o1, t1), path)" by (metis prod.collapse)
  have "(o1, t1) \<notin> fst ` set m0" using Cons.prems(3) by (auto simp: map_ok_def g)
  moreover have "path \<noteq> [] \<Longrightarrow> anchor I o1 \<and> anchor I t1 \<and> (\<forall>st \<in> set path. known_station I st)"
    using Cons.prems(3) by (auto simp: map_ok_def g)
  ultimately obtain sc1 where sc1: "override_edge I sc g = Inr sc1" "table_ok I sc1" "overrides_ok I (m0 @ [g]) sc1"
    "profiles sc1 = profiles sc"
    using override_edge_ok [OF I Cons.prems(1,2)] unfolding g by blast
  from Cons.IH [OF sc1(2,3)] Cons.prems(3) sc1(1,4) show ?case by simp
qed simp

lemma edges_correct:
  assumes I: "inst_ok I" and t: "table_ok I sc" and ov: "overrides_ok I m sc" and ab: "anchor I a" "anchor I b"
  shows "edge_of sc a b = Inr (path_label I a (gap_of m a b @ [b]))"
proof -
  let ?A = "anchors I" and ?n = "length (anchors I)"
  obtain i j where i: "i < ?n" "a = ?A ! i" and j: "j < ?n" "b = ?A ! j"
    using ab by (metis anchor_iff in_set_conv_nth)
  have "case reference_edge_index sc ! (i * ?n + j) of
       None \<Rightarrow> gap_of m a b = []
     | Some r \<Rightarrow> r < length (reference_edges sc) \<and> reference_edges sc ! r = path_label I a (gap_of m a b @ [b])"
    using ov i(1) j(1) unfolding i(2) j(2) overrides_ok_def by blast
  moreover have "direct_edge_labels sc ! (i * ?n + j) = path_label I a [b]"
    using t i j by (simp add: table_ok_def)
  ultimately show ?thesis
    using table_dense [OF t i(1) j(1)] i(2) j(2) by (auto simp: edge_of_def split: option.splits)
qed

section \<open>Reset and construction\<close>

lemma find_profile_Some:
  "find_profile p old = Some i \<Longrightarrow> i < length old \<and> prof_visits (fst (old ! i)) = visits (plan_route p) \<and>
    prof_customers (fst (old ! i)) = plan_customers p"
  by (induction p old arbitrary: i rule: find_profile.induct) (auto split: if_splits)

definition matches_plan :: "inst \<Rightarrow> route_profile \<Rightarrow> plan \<Rightarrow> bool" where
  "matches_plan I prof p \<longleftrightarrow> built_profile I prof \<and> prof_visits prof = visits (plan_route p) \<and>
     prof_customers prof = plan_customers p"

lemma update_profiles_ok:
  assumes I: "inst_ok I" and "\<forall>p \<in> set ps. plan_ok I p" and "\<forall>(prof, r) \<in> set old. built_profile I prof"
  shows "\<exists>old' new. rfold (update_profile I) (old, updated) ps = Inr (old', updated @ new) \<and>
    list_all2 (matches_plan I) new ps"
  using assms(2,3)
proof (induction ps arbitrary: old updated)
  case (Cons p ps)
  have "\<exists>old1 prof. update_profile I (old, updated) p = Inr (old1, updated @ [prof]) \<and> matches_plan I prof p \<and>
      (\<forall>(prof, r) \<in> set old1. built_profile I prof)"
  proof (cases "find_profile p old")
    case None
    then show ?thesis
      using make_profile_ok [OF I, of p] Cons.prems by (auto simp: update_profile_def matches_plan_def)
  next
    case (Some i)
    note f = find_profile_Some [OF Some]
    then have "old ! i \<in> set old" by simp
    then have b: "built_profile I (fst (old ! i))" using Cons.prems(2) by (auto simp: case_prod_unfold)
    then have "\<forall>(prof, r) \<in> set (old[i := (fst (old ! i), True)]). built_profile I prof"
      using Cons.prems(2) set_update_subset_insert [of old i "(fst (old ! i), True)"] by fastforce
    with Some f b show ?thesis by (auto simp: update_profile_def matches_plan_def)
  qed
  then obtain old1 prof where s: "update_profile I (old, updated) p = Inr (old1, updated @ [prof])"
    "matches_plan I prof p" "\<forall>(prof, r) \<in> set old1. built_profile I prof" by blast
  from Cons.IH [OF _ s(3), of "updated @ [prof]"] Cons.prems(1) s(1,2) show ?case by auto
qed auto

lemma clear_index:
  "k < length tab \<Longrightarrow> foldl (\<lambda>tab k. tab[k := None]) tab ks ! k = (if k \<in> set ks then None else tab ! k)"
  by (induction ks arbitrary: tab) (auto simp: nth_list_update)

lemma clear_length [simp]: "length (foldl (\<lambda>tab k. tab[k := None]) tab ks) = length tab"
  by (induction ks arbitrary: tab) auto

lemma locate_fold:
  assumes "\<And>c l. map_of m c = Some l \<Longrightarrow> Q c l" and "\<And>r k. (r, k) \<in> set xs \<Longrightarrow> Q (f r k) (g r k)"
  shows "map_of (foldl (\<lambda>m (r, k). try_emplace (f r k) (g r k) m) m xs) c = Some l \<Longrightarrow> Q c l"
  using assms
proof (induction xs arbitrary: m)
  case (Cons x xs)
  obtain r k where x: "x = (r, k)" by (cases x)
  have "Q c l" if "map_of (try_emplace (f r k) (g r k) m) c = Some l" for c l
    using that Cons.prems(2,3) by (auto simp: try_emplace_lookup x split: option.splits if_splits)
  moreover have "map_of (foldl (\<lambda>m (r, k). try_emplace (f r k) (g r k) m) (try_emplace (f r k) (g r k) m) xs) c = Some l"
    using Cons.prems(1) by (simp add: x)
  ultimately show ?case using Cons.IH [of "try_emplace (f r k) (g r k) m"] Cons.prems(3) by auto
qed simp

lemma locate_plans_ok:
  "map_of (locate_plans ps) c = Some l \<Longrightarrow> loc_route l < length ps \<and>
    loc_position l < length (plan_customers (ps ! loc_route l)) \<and> plan_customers (ps ! loc_route l) ! loc_position l = c"
  unfolding locate_plans_def
  by (rule locate_fold [where Q = "\<lambda>c l. loc_route l < length ps \<and>
    loc_position l < length (plan_customers (ps ! loc_route l)) \<and> plan_customers (ps ! loc_route l) ! loc_position l = c"])
    auto

definition reference_ok :: "inst \<Rightarrow> solution \<Rightarrow> gap_map \<Rightarrow> bool" where
  "reference_ok I s m \<longleftrightarrow> map_ok I m \<and> (\<forall>p \<in> set (plans s). plan_ok I p \<and> plan_matches m p)"

lemma reset_scorer_ok:
  assumes I: "inst_ok I" and t: "table_ok I sc" and ref: "reference_ok I s m"
  shows "\<exists>sc'. reset_scorer I sc s m = Inr sc' \<and> table_ok I sc' \<and> scorer_inv I (gap_of m) sc' \<and>
    map prof_customers (profiles sc') = map plan_customers (plans s)"
proof -
  let ?old = "map (\<lambda>p. (p, False)) (profiles sc)"
  have plans: "\<forall>p \<in> set (plans s). plan_ok I p" "\<forall>p \<in> set (plans s). plan_matches m p" and m: "map_ok I m"
    using ref by (simp_all add: reference_ok_def)
  have "\<forall>(prof, r) \<in> set ?old. built_profile I prof" using t by (auto simp: table_ok_def)
  from update_profiles_ok [OF I plans(1) this, of "[]"]
  obtain old' new where new: "rfold (update_profile I) (?old, []) (plans s) = Inr (old', new)"
    "list_all2 (matches_plan I) new (plans s)" by auto
  let ?cleared = "foldl (\<lambda>tab k. tab[k := None]) (reference_edge_index sc) (active_reference_edges sc)"
  let ?sc1 = "sc\<lparr>profiles := new, reference_edge_index := ?cleared, active_reference_edges := [], reference_edges := []\<rparr>"
  have none: "?cleared ! k = None" if "k < length (reference_edge_index sc)" for k
    using that t clear_index [OF that] unfolding table_ok_def by metis
  have built: "\<forall>prof \<in> set new. built_profile I prof"
    using new(2) by (auto simp: list_all2_conv_all_nth in_set_conv_nth matches_plan_def)
  have "anchor_index ?sc1 = anchor_index sc" by (intro ext) (simp add: anchor_index_def)
  then have t1: "table_ok I ?sc1" using t none built by (simp add: table_ok_def)
  have "overrides_ok I [] ?sc1"
    using none dense_index_lt t by (auto simp: overrides_ok_def table_ok_def gap_of_def)
  with override_edges_ok [OF I t1, of "[]" m] m obtain sc2 where sc2: "rfold (override_edge I) ?sc1 m = Inr sc2"
    "table_ok I sc2" "overrides_ok I m sc2" "profiles sc2 = new" by auto
  let ?sc = "sc2\<lparr>locations := locate_plans (plans s)\<rparr>"
  have "reset_scorer I sc s m = Inr ?sc"
    using new(1) sc2(1) by (simp add: reset_scorer_def Let_def)
  moreover have idx: "anchor_index ?sc = anchor_index sc2" by (intro ext) (simp add: anchor_index_def)
  have "table_ok I ?sc" using sc2(2) idx by (simp add: table_ok_def)
  moreover have "scorer_inv I (gap_of m) ?sc"
    unfolding scorer_inv_def
  proof (intro conjI)
    have "edge_of ?sc a b = edge_of sc2 a b" for a b
      by (simp add: edge_of_def dense_edge_index_def idx cong: option.case_cong)
    with edges_correct [OF I sc2(2,3)]
    show "\<forall>a b. anchor I a \<and> anchor I b \<longrightarrow> edge_of ?sc a b = Inr (path_label I a (gap_of m a b @ [b]))" by simp
    show "\<forall>prof \<in> set (profiles ?sc). profile_ok I (gap_of m) prof"
    proof
      fix prof assume "prof \<in> set (profiles ?sc)"
      then obtain i where i: "i < length new" "prof = new ! i" using sc2(4) by (auto simp: in_set_conv_nth)
      then have "matches_plan I prof (plans s ! i)" "plans s ! i \<in> set (plans s)"
        using new(2) by (simp_all add: list_all2_conv_all_nth)
      then show "profile_ok I (gap_of m) prof"
        using plans i(2) by (intro built_profile_ok [OF I, of prof "plans s ! i"]) (auto simp: matches_plan_def)
    qed
    have len: "length new = length (plans s)" using new(2) by (rule list_all2_lengthD)
    have same: "prof_customers (new ! r) = plan_customers (plans s ! r)" if "r < length (plans s)" for r
      using new(2) that by (simp add: list_all2_conv_all_nth matches_plan_def)
    show "\<forall>c l. location_of ?sc c = Some l \<longrightarrow> loc_route l < length (profiles ?sc) \<and>
        loc_position l < length (prof_customers (profiles ?sc ! loc_route l)) \<and>
        prof_customers (profiles ?sc ! loc_route l) ! loc_position l = c"
      using locate_plans_ok [of "plans s"] same len by (auto simp: location_of_def sc2(4))
  qed
  moreover have "map prof_customers (profiles ?sc) = map plan_customers (plans s)"
    using new(2) sc2(4) by (auto simp: list_all2_conv_all_nth matches_plan_def intro: nth_equalityI)
  ultimately show ?thesis by blast
qed

lemma index_table:
  assumes "distinct xs" and "\<forall>x \<in> set xs. 0 \<le> x \<and> nat x < n"
  shows "k < length xs \<Longrightarrow>
    foldl (\<lambda>tab k. tab[nat (xs ! k) := Some k]) (replicate n None) [0..<length xs] ! nat (xs ! k) = Some k"
proof -
  have "\<forall>k < j. foldl (\<lambda>tab k. tab[nat (xs ! k) := Some k]) (replicate n None) [0..<j] ! nat (xs ! k) = Some k \<and>
      length (foldl (\<lambda>tab k. tab[nat (xs ! k) := Some k]) (replicate n None) [0..<j]) = n" if "j \<le> length xs" for j
    using that
  proof (induction j)
    case (Suc j)
    let ?tab = "foldl (\<lambda>tab k. tab[nat (xs ! k) := Some k]) (replicate n None) [0..<j]"
    have len: "length ?tab = n"
    proof -
      have "length (foldl (\<lambda>tab k. tab[nat (xs ! k) := Some k]) tab ks) = length tab" for tab :: "nat option list" and ks
        by (induction ks arbitrary: tab) auto
      then show ?thesis by simp
    qed
    have "nat (xs ! j) \<noteq> nat (xs ! k)" if "k < j" for k
      using that Suc.prems assms by (metis Suc_leD Suc_le_lessD less_trans nat_eq_iff2 nth_eq_iff_index_eq nth_mem order_less_irrefl eq_nat_nat_iff)
    moreover have "nat (xs ! j) < n" using assms(2) Suc.prems by simp
    ultimately show ?case using Suc len by (auto simp: less_Suc_eq nth_list_update)
  qed simp
  then show "k < length xs \<Longrightarrow>
    foldl (\<lambda>tab k. tab[nat (xs ! k) := Some k]) (replicate n None) [0..<length xs] ! nat (xs ! k) = Some k" by blast
qed

lemma product_nth':
  "a < length xs \<Longrightarrow> b < length ys \<Longrightarrow> List.product xs ys ! (a * length ys + b) = (xs ! a, ys ! b)"
proof -
  assume ab: "a < length xs" "b < length ys"
  have "a * length ys + b < Suc a * length ys" using ab(2) by simp
  also have "\<dots> \<le> length xs * length ys" using ab(1) by (intro mult_le_mono1) simp
  finally have "a * length ys + b < length xs * length ys" .
  moreover have "(a * length ys + b) div length ys = a" "(a * length ys + b) mod length ys = b"
    using ab(2) by (cases "length ys = 0", simp_all)+
  ultimately show ?thesis by (simp add: product_nth)
qed

lemma make_sequence_scorer_ok:
  assumes I: "inst_ok I" and nonneg: "\<forall>a \<in> set (anchors I). 0 \<le> a" and ref: "reference_ok I s m"
  shows "\<exists>sc. make_sequence_scorer I s m = Inr sc \<and> table_ok I sc \<and> scorer_inv I (gap_of m) sc \<and>
    map prof_customers (profiles sc) = map plan_customers (plans s)"
proof -
  let ?A = "anchors I" and ?n = "length (anchors I)"
  let ?max = "Max (set ?A)"
  let ?indices = "foldl (\<lambda>tab k. tab[nat (?A ! k) := Some k]) (replicate (nat ?max + 1) None) [0..<?n]"
  let ?direct = "map (\<lambda>(a, b). path_label I a [b]) (List.product ?A ?A)"
  have direct: "rmap (\<lambda>(orig, targ). edge_label I orig [] targ) (List.product ?A ?A) = Inr ?direct"
    using edge_direct [OF I] anchor_known [OF I] by (intro rmap_Inr) (auto simp: anchor_iff)
  let ?sc0 = "\<lparr>profiles = [], locations = [], anchor_index_by_id = ?indices, anchor_count = ?n,
    direct_edge_labels = ?direct, reference_edge_index = replicate (length ?direct) None,
    active_reference_edges = [], reference_edges = []\<rparr>"
  have small: "\<forall>x \<in> set ?A. 0 \<le> x \<and> nat x < nat ?max + 1"
    using nonneg by (auto simp: less_Suc_eq_le intro!: nat_mono)
  have len: "length ?indices = nat ?max + 1"
  proof -
    have "length (foldl (\<lambda>tab k. tab[nat (?A ! k) := Some k]) tab ks) = length tab" for tab :: "nat option list" and ks
      by (induction ks arbitrary: tab) auto
    then show ?thesis by simp
  qed
  have idx: "anchor_index ?sc0 (?A ! k) = Inr k" if "k < ?n" for k
    using that index_table [OF anchors_distinct [OF I] small that] small len
    by (auto simp: anchor_index_def not_le not_less)
  have "?direct ! (a * ?n + b) = path_label I (?A ! a) [?A ! b]" if "a < ?n" "b < ?n" for a b
    using that product_nth' [of a ?A b ?A] dense_index_lt [OF that] by simp
  then have t: "table_ok I ?sc0" using idx by (simp add: table_ok_def)
  have d: "depot_of I = Inr (the_node I (depot_id I))" "node_id (the_node I (depot_id I)) = depot_id I"
    using depot_known [OF I] by simp_all
  have guard: "\<not> (\<exists>i \<in> set (anchors I). i < 0)" using nonneg by (auto simp: not_less)
  have "make_sequence_scorer I s m = reset_scorer I ?sc0 s m"
    unfolding make_sequence_scorer_def d rbind_Inr Let_def anchors_def [symmetric] if_not_P [OF guard] direct ..
  with reset_scorer_ok [OF I t ref] show ?thesis by simp
qed


section \<open>The gap map of the reference itself\<close>

text \<open>Plans that share no customer match the gap map that is collected from them.\<close>

lemma plan_gap_entry:
  assumes "((a, b), path) \<in> set (plan_gap_list d p)"
  shows "\<exists>g. g < length (gaps p) \<and> g \<le> length (plan_customers p) \<and>
    a = (d # plan_customers p) ! g \<and> b = (plan_customers p @ [d]) ! g \<and> path = gaps p ! g"
  using assms by (auto simp: plan_gap_list_def set_zip)

lemma concat_owner:
  "distinct (concat (map f ps)) \<Longrightarrow> q \<in> set ps \<Longrightarrow> p \<in> set ps \<Longrightarrow> x \<in> set (f q) \<Longrightarrow> x \<in> set (f p) \<Longrightarrow> q = p"
  by (induction ps) auto

lemma disjoint_plans_match:
  assumes s: "distinct (concat (map plan_customers ps))" and d: "d \<notin> set (concat (map plan_customers ps))"
    and len: "\<forall>p \<in> set ps. length (gaps p) = length (plan_customers p) + 1" and p: "p \<in> set ps"
    and m: "m = foldl (add_plan_gaps d) [] ps"
  shows "plan_matches m p"
  unfolding plan_matches_def
proof (intro allI impI)
  fix i assume i: "i + 1 < length (plan_customers p)"
  let ?cs = "plan_customers p"
  let ?all = "concat (map (plan_gap_list d) ps)"
  have look: "map_of m x = map_of ?all x" for x
    using gap_map_lookup [OF len, of d "[]"] by (simp add: m)
  have pos: "q = p \<and> j = k" if "q \<in> set ps" "j < length (plan_customers q)" "k < length ?cs" "plan_customers q ! j = ?cs ! k"
    for q j k
  proof -
    have "q = p" using that by (intro concat_owner [OF s that(1) p, of "?cs ! k"]) (metis nth_mem)+
    moreover have "distinct ?cs" using s p by (auto simp: distinct_concat_iff)
    ultimately show ?thesis using that by (metis nth_eq_iff_index_eq)
  qed
  have not_d: "?cs ! k \<noteq> d" if "k < length ?cs" for k using d p that by (auto dest!: nth_mem)
  have only: "path = gaps p ! (i + 1)" if "((?cs ! i, ?cs ! (i + 1)), path) \<in> set ?all" for path
  proof -
    from that have "\<exists>q \<in> set ps. ((?cs ! i, ?cs ! (i + 1)), path) \<in> set (plan_gap_list d q)" by simp
    then obtain q where q: "q \<in> set ps" "((?cs ! i, ?cs ! (i + 1)), path) \<in> set (plan_gap_list d q)" by blast
    obtain g where g: "?cs ! i = (d # plan_customers q) ! g" "g \<le> length (plan_customers q)" "path = gaps q ! g"
      using plan_gap_entry [OF q(2)] by auto
    then obtain j where j: "g = Suc j" using not_d [of i] i by (cases g) auto
    with g pos [OF q(1), of j i] i have "q = p \<and> j = i" by simp
    with g j show ?thesis by simp
  qed
  have "((?cs ! i, ?cs ! (i + 1)), gaps p ! (i + 1)) \<in> set (plan_gap_list d p)"
    using i len p by (auto simp: plan_gap_list_def set_zip intro!: exI [of _ "i + 1"] simp: nth_append)
  then have "((?cs ! i, ?cs ! (i + 1)), gaps p ! (i + 1)) \<in> set ?all" using p by auto
  then obtain path where "map_of ?all (?cs ! i, ?cs ! (i + 1)) = Some path"
    using weak_map_of_SomeI by metis
  with only map_of_SomeD [OF this] have "gap_of m (?cs ! i) (?cs ! (i + 1)) = gaps p ! (i + 1)"
    by (simp add: gap_of_def look)
  moreover have "gap_of m (?cs ! (i + 1)) (?cs ! i) = []"
  proof (cases "map_of ?all (?cs ! (i + 1), ?cs ! i)")
    case (Some path)
    then have "((?cs ! (i + 1), ?cs ! i), path) \<in> set ?all" by (rule map_of_SomeD)
    then have "\<exists>q \<in> set ps. ((?cs ! (i + 1), ?cs ! i), path) \<in> set (plan_gap_list d q)" by simp
    then obtain q where q: "q \<in> set ps" "((?cs ! (i + 1), ?cs ! i), path) \<in> set (plan_gap_list d q)" by blast
    obtain g where g: "?cs ! (i + 1) = (d # plan_customers q) ! g" "g \<le> length (plan_customers q)"
        "?cs ! i = (plan_customers q @ [d]) ! g"
      using plan_gap_entry [OF q(2)] by auto
    then obtain j where j: "g = Suc j" using not_d [of "i + 1"] i by (cases g) auto
    with g pos [OF q(1), of j "i + 1"] i have qj: "q = p" "j = i + 1" by simp_all
    have "?cs ! i = (?cs @ [d]) ! (i + 2)" using g(3) j qj by simp
    moreover have "i + 2 \<le> length ?cs" using i by simp
    ultimately have False
      using not_d [of i] pos [OF p, of "i + 2" i] i by (cases "i + 2 < length ?cs") (auto simp: nth_append)
    then show ?thesis ..
  qed (simp add: gap_of_def look)
  ultimately show "gap_of m (?cs ! i) (?cs ! (i + 1)) = gaps p ! (i + 1) \<and>
      gap_of m (?cs ! (i + 1)) (?cs ! i) = []" by blast
qed


lemma try_emplace_distinct: "distinct (map fst m) \<Longrightarrow> distinct (map fst (try_emplace k v m))"
  by (auto simp: try_emplace_def distinct_update split: option.split)

lemma try_emplace_set: "x \<in> set (try_emplace k v m) \<Longrightarrow> distinct (map fst m) \<Longrightarrow> x \<in> set m \<or> x = (k, v)"
proof (cases "map_of m k")
  case None
  then have "k \<notin> fst ` set m" by (simp add: map_of_eq_None_iff)
  moreover assume "x \<in> set (try_emplace k v m)"
  ultimately show ?thesis using None by (auto simp: try_emplace_def update_new)
qed (simp add: try_emplace_def)

lemma foldl_emplace_entries:
  "distinct (map fst m) \<Longrightarrow> distinct (map fst (foldl (\<lambda>m (k, v). try_emplace k v m) m kvs)) \<and>
    set (foldl (\<lambda>m (k, v). try_emplace k v m) m kvs) \<subseteq> set m \<union> set kvs"
proof (induction kvs arbitrary: m)
  case (Cons kv kvs)
  obtain k v where kv: "kv = (k, v)" by (cases kv)
  let ?m = "try_emplace k v m" and ?f = "foldl (\<lambda>m (k, v). try_emplace k v m)"
  have ih: "distinct (map fst (?f ?m kvs))" "set (?f ?m kvs) \<subseteq> set ?m \<union> set kvs"
    using Cons.IH [OF try_emplace_distinct [OF Cons.prems, of k v]] by blast+
  have "set (?f ?m kvs) \<subseteq> set m \<union> set (kv # kvs)"
  proof
    fix x assume "x \<in> set (?f ?m kvs)"
    then have "x \<in> set ?m \<or> x \<in> set kvs" using ih(2) by blast
    then show "x \<in> set m \<union> set (kv # kvs)" using try_emplace_set [OF _ Cons.prems, of x k v] by (auto simp: kv)
  qed
  with ih(1) show ?case unfolding kv foldl.simps prod.case by blast
qed simp

lemma gap_map_entries:
  assumes "\<forall>p \<in> set ps. length (gaps p) = length (plan_customers p) + 1" and "distinct (map fst m)"
  shows "distinct (map fst (foldl (add_plan_gaps d) m ps)) \<and>
    set (foldl (add_plan_gaps d) m ps) \<subseteq> set m \<union> (\<Union>p \<in> set ps. set (plan_gap_list d p))"
  using assms
proof (induction ps arbitrary: m)
  case (Cons p ps)
  have "add_plan_gaps d m p = foldl (\<lambda>m (k, v). try_emplace k v m) m (plan_gap_list d p)"
    using Cons.prems(1) by (intro add_plan_gaps_eq) simp
  with foldl_emplace_entries [OF Cons.prems(2), of "plan_gap_list d p"]
  have "distinct (map fst (add_plan_gaps d m p))" "set (add_plan_gaps d m p) \<subseteq> set m \<union> set (plan_gap_list d p)"
    by simp_all
  with Cons.IH [of "add_plan_gaps d m p"] Cons.prems(1) show ?case by auto
qed simp

lemma gap_map_reference_ok:
  assumes I: "inst_ok I" and plans: "\<forall>p \<in> set (plans s). plan_ok I p"
    and dist: "distinct (concat (map plan_customers (plans s)))" and m: "gap_map_of I s = Inr m"
  shows "reference_ok I s m"
proof -
  let ?d = "depot_id I"
  have m: "m = foldl (add_plan_gaps ?d) [] (plans s)" using m depot_known [OF I] by (simp add: gap_map_of_def)
  have len: "\<forall>p \<in> set (plans s). length (gaps p) = length (plan_customers p) + 1"
    using plans by (simp add: plan_ok_def)
  have "?d \<notin> set (customer_ids I)" using anchors_distinct [OF I] by (simp add: anchors_def)
  then have d: "?d \<notin> set (concat (map plan_customers (plans s)))" using plans by (auto simp: plan_ok_def)
  have "map_ok I m"
    unfolding map_ok_def
  proof (intro conjI)
    note entries = gap_map_entries [OF len, of "[]" ?d, folded m]
    show "distinct (map fst m)" using entries by simp
    show "\<forall>((a, b), path) \<in> set m. path \<noteq> [] \<longrightarrow> anchor I a \<and> anchor I b \<and> (\<forall>st \<in> set path. known_station I st)"
    proof (clarify)
      fix a b path assume "((a, b), path) \<in> set m"
      then obtain p where p: "p \<in> set (plans s)" "((a, b), path) \<in> set (plan_gap_list ?d p)" using entries by auto
      obtain g where g: "g < length (gaps p)" "g \<le> length (plan_customers p)" "a = (?d # plan_customers p) ! g"
        "b = (plan_customers p @ [?d]) ! g" "path = gaps p ! g"
        using plan_gap_entry [OF p(2)] by blast
      have "a \<in> set (?d # plan_customers p)" using g(2,3) by (simp only: g(3)) (intro nth_mem, simp)
      moreover have "b \<in> set (plan_customers p @ [?d])" using g(2,4) by (simp only: g(4)) (intro nth_mem, simp)
      moreover have "path \<in> set (gaps p)" using g(1,5) by simp
      ultimately show "anchor I a \<and> anchor I b \<and> (\<forall>st \<in> set path. known_station I st)"
        using plans p(1) by (auto simp: plan_ok_def anchor_def)
    qed
  qed
  moreover have "plan_matches m p" if "p \<in> set (plans s)" for p
    by (rule disjoint_plans_match [OF dist d len that m])
  ultimately show ?thesis using plans by (simp add: reference_ok_def)
qed

section \<open>Scores of inherited routes\<close>

lemma inherited_gaps_map:
  "inherited_gaps d cs m = map (\<lambda>(a, b). gap_of m a b) (zip (d # cs) (cs @ [d]))"
proof (rule nth_equalityI)
  show "length (inherited_gaps d cs m) = length (map (\<lambda>(a, b). gap_of m a b) (zip (d # cs) (cs @ [d])))"
    using inherited_gaps_nth(2) [of 0 cs d m] by simp
  fix g assume "g < length (inherited_gaps d cs m)"
  then have "g \<le> length cs" using inherited_gaps_nth(2) [of 0 cs d m] by simp
  then show "inherited_gaps d cs m ! g = map (\<lambda>(a, b). gap_of m a b) (zip (d # cs) (cs @ [d])) ! g"
    using inherited_gaps_nth(1) [of g cs d m] by (simp add: gap_of_def)
qed

definition inherited_visits :: "inst \<Rightarrow> gap_map \<Rightarrow> int list \<Rightarrow> int list" where
  "inherited_visits I m cs = interleave (inherited_gaps (depot_id I) cs m) cs"

lemma inherited_visits_known:
  assumes I: "inst_ok I" and m: "map_ok I m" and cs: "set cs \<subseteq> set (customer_ids I)"
  shows "set (inherited_visits I m cs) \<subseteq> set (ids I)"
proof -
  have "set (gap_of m a b) \<subseteq> set (ids I)" for a b
  proof (cases "map_of m (a, b)")
    case (Some path)
    then have "((a, b), path) \<in> set m" by (rule map_of_SomeD)
    with m Some show ?thesis by (cases "path = []") (auto simp: map_ok_def gap_of_def known_station_def)
  qed (simp add: gap_of_def)
  moreover have "length (inherited_gaps (depot_id I) cs m) = length cs + 1"
    by (simp add: inherited_gaps_map)
  ultimately show ?thesis
    using cs customer_known(1) [OF I]
    by (simp add: inherited_visits_def set_interleave) (auto simp: inherited_gaps_map)
qed

lemma inherited_label:
  assumes I: "inst_ok I" and m: "map_ok I m" and cs: "set cs \<subseteq> set (customer_ids I)"
  shows "and_evaluate (Inr (path_label I (depot_id I) (via_path (gap_of m) (depot_id I # cs @ [depot_id I]))))
      (evaluate_label I) = route_score I (inherited_visits I m cs)"
  using route_score_eq [OF I inherited_visits_known [OF assms]]
  by (simp add: via_path_interleave inherited_visits_def inherited_gaps_map and_evaluate_def)

lemma score_sequence_eq:
  assumes I: "inst_ok I" and m: "map_ok I m" and inv: "scorer_inv I (gap_of m) sc"
    and cs: "cs \<noteq> []" "set cs \<subseteq> set (customer_ids I)"
  shows "score_sequence I sc cs = route_score I (inherited_visits I m cs)"
proof -
  have "\<forall>c \<in> set cs. anchor I c" using cs(2) by (auto simp: anchor_def)
  from sequence_label_eq [OF I inv cs(1) this] inherited_label [OF I m cs(2)] show ?thesis
    by (simp add: score_sequence_def)
qed

section \<open>Properties\<close>

lemma demo_anchors: "\<forall>a \<in> set (anchors demo_inst). 0 \<le> a"
  by (simp add: anchors_def demo_inst_def)

lemma demo_reference:
  "\<forall>p \<in> set (plans demo_solution). plan_ok demo_inst p"
  "distinct (concat (map plan_customers (plans demo_solution)))"
  by (auto simp: demo_solution_def plan_ok_def known_station_def demo_known the_node_def node_of_def
      demo_inst_def demo_nodes_def ids_def)

text \<open>
  C19: The scorer built for a reference solution with consistent plans and disjoint
  customers, from the gap map of that solution, is built without an exception and scores
  every sequence of customers as the route that the plan factory expands it to with the
  inherited gaps, wherever the sequence follows the reference forward or backward.
\<close>

theorem sequence_scorer_scores_inherited_route:
  assumes "inst_ok I" and "\<forall>a \<in> set (anchors I). 0 \<le> a"
    and "\<forall>p \<in> set (plans s). plan_ok I p" and "distinct (concat (map plan_customers (plans s)))"
    and "cs \<noteq> []" and "set cs \<subseteq> set (customer_ids I)"
  shows "\<exists>m sc. gap_map_of I s = Inr m \<and> make_sequence_scorer I s m = Inr sc \<and>
    score_sequence I sc cs = route_score I (interleave (inherited_gaps (depot_id I) cs m) cs)"
proof -
  obtain m where m: "gap_map_of I s = Inr m" using depot_known [OF assms(1)] by (simp add: gap_map_of_def)
  have ref: "reference_ok I s m" by (rule gap_map_reference_ok [OF assms(1,3,4) m])
  obtain sc where sc: "make_sequence_scorer I s m = Inr sc" "scorer_inv I (gap_of m) sc"
    using make_sequence_scorer_ok [OF assms(1,2) ref] by blast
  have "map_ok I m" using ref by (simp add: reference_ok_def)
  from score_sequence_eq [OF assms(1) this sc(2) assms(5,6)] m sc(1) show ?thesis
    by (auto simp: inherited_visits_def)
qed

theorem sequence_scorer_scores_inherited_route_witness:
  "\<exists>m sc. gap_map_of demo_inst demo_solution = Inr m \<and> make_sequence_scorer demo_inst demo_solution m = Inr sc \<and>
    score_sequence demo_inst sc [3, 1] = route_score demo_inst (interleave (inherited_gaps (depot_id demo_inst) [3, 1] m) [3, 1])"
proof -
  have "set [3, 1] \<subseteq> set (customer_ids demo_inst)" "[3, 1 :: int] \<noteq> []" by (simp_all add: demo_inst_def)
  then show ?thesis
    using sequence_scorer_scores_inherited_route [OF demo_inst_ok demo_anchors demo_reference, of "[3, 1]"] by blast
qed

text \<open>
  C33: Rebinding a scorer to another reference, with the profiles of unchanged routes kept,
  gives the scores of a scorer built anew for it; and scoring an insertion position or a
  list of slices of the reference gives the score of the customer sequence it stands for,
  or, for slices, the exception of the component bound.
\<close>

theorem sequence_scorer_reset_like_new:
  assumes "inst_ok I" and "\<forall>a \<in> set (anchors I). 0 \<le> a"
    and "\<forall>p \<in> set (plans s) \<union> set (plans t). plan_ok I p"
    and "distinct (concat (map plan_customers (plans s)))" and "distinct (concat (map plan_customers (plans t)))"
    and "gap_map_of I s = Inr m" and "gap_map_of I t = Inr m'" and "make_sequence_scorer I s m = Inr sc"
  shows "\<exists>sc' new. reset_scorer I sc t m' = Inr sc' \<and> make_sequence_scorer I t m' = Inr new \<and>
    (\<forall>cs. cs \<noteq> [] \<and> set cs \<subseteq> set (customer_ids I) \<longrightarrow> score_sequence I sc' cs = score_sequence I new cs) \<and>
    (\<forall>r c pos. r < length (plans t) \<and> c \<in> set (customer_ids I) \<and> location_of sc' c = None \<and>
       pos \<le> length (plan_customers (plans t ! r)) \<longrightarrow>
       score_insertion I sc' r pos c =
         score_sequence I sc' (take pos (plan_customers (plans t ! r)) @ c # drop pos (plan_customers (plans t ! r)))) \<and>
    (\<forall>slices. slices \<noteq> [] \<and> list_all (slice_valid sc') slices \<longrightarrow>
       score_slices I sc' slices = Some (Inl (Length_Error ''route label exceeds component bound'')) \<or>
       score_slices I sc' slices = score_sequence I sc' (slices_customers sc' slices))"
proof -
  have ref: "reference_ok I s m" "reference_ok I t m'"
    using gap_map_reference_ok [OF assms(1) _ assms(4,6)] gap_map_reference_ok [OF assms(1) _ assms(5,7)] assms(3)
    by blast+
  then have map: "map_ok I m'" by (simp add: reference_ok_def)
  have "table_ok I sc" using make_sequence_scorer_ok [OF assms(1,2) ref(1)] assms(8) by auto
  from reset_scorer_ok [OF assms(1) this ref(2)] obtain sc' where sc': "reset_scorer I sc t m' = Inr sc'"
    "table_ok I sc'" "scorer_inv I (gap_of m') sc'" "map prof_customers (profiles sc') = map plan_customers (plans t)" by blast
  obtain new where new: "make_sequence_scorer I t m' = Inr new" "scorer_inv I (gap_of m') new"
    using make_sequence_scorer_ok [OF assms(1,2) ref(2)] by blast
  have len: "length (profiles sc') = length (plans t)" using sc'(4) by (metis length_map)
  have cs: "prof_customers (profiles sc' ! r) = plan_customers (plans t ! r)" if "r < length (plans t)" for r
    using sc'(4) that len by (metis nth_map)
  have customers: "set (prof_customers prof) \<subseteq> set (customer_ids I)" if "prof \<in> set (profiles sc')" for prof
  proof -
    have "built_profile I prof" using sc'(2) that by (simp add: table_ok_def)
    then show ?thesis by (auto simp: built_profile_def plan_ok_def)
  qed
  then have anchors: "\<forall>prof \<in> set (profiles sc'). \<forall>c \<in> set (prof_customers prof). anchor I c"
    by (auto simp: anchor_def)
  have ins: "score_insertion I sc' r pos c =
      score_sequence I sc' (take pos (plan_customers (plans t ! r)) @ c # drop pos (plan_customers (plans t ! r)))"
    if r: "r < length (plans t)" and c: "c \<in> set (customer_ids I)" "location_of sc' c = None"
      and pos: "pos \<le> length (plan_customers (plans t ! r))" for r c pos
  proof -
    let ?cs = "plan_customers (plans t ! r)"
    have "profiles sc' ! r \<in> set (profiles sc')" using r len by simp
    with customers cs [OF r] have sub: "set ?cs \<subseteq> set (customer_ids I)" by force
    then have a: "\<forall>c \<in> set ?cs. anchor I c" "anchor I c" using c(1) by (auto simp: anchor_def)
    have full: "\<forall>x \<in> set (take pos ?cs @ c # drop pos ?cs). anchor I x" using a by (auto dest: in_set_takeD in_set_dropD)
    show ?thesis
      using insertion_label_eq [OF assms(1) sc'(3) _ c(2) a(2) cs [OF r, symmetric] a(1) pos] r len
        sequence_label_eq [OF assms(1) sc'(3) _ full]
      by (simp add: score_insertion_def score_sequence_def)
  qed
  have sl: "score_slices I sc' slices = Some (Inl (Length_Error ''route label exceeds component bound'')) \<or>
      score_slices I sc' slices = score_sequence I sc' (slices_customers sc' slices)"
    if slices: "slices \<noteq> []" "list_all (slice_valid sc') slices" for slices
  proof -
    have v: "\<forall>sl \<in> set slices. slice_valid sc' sl" using slices(2) by (simp add: list_all_iff)
    have "\<forall>c \<in> set (slices_customers sc' slices). anchor I c"
      using slice_anchors [OF _ anchors] v by (auto simp: slices_customers_def)
    moreover have "slices_customers sc' slices \<noteq> []"
    proof -
      obtain sl rest where s: "slices = sl # rest" using slices(1) by (cases slices) auto
      then have "slice_valid sc' sl" using v by simp
      then have "slice_of (prof_customers (profiles sc' ! slice_route sl)) (slice_begin sl) (slice_end sl) (slice_reversed sl) \<noteq> []"
        using slice_length [of "slice_begin sl" "slice_end sl" "prof_customers (profiles sc' ! slice_route sl)" "slice_reversed sl"]
        by (auto simp: slice_valid_def)
      with s show ?thesis by (simp add: slices_customers_def)
    qed
    ultimately have "sequence_label I sc' (slices_customers sc' slices) = slices_label I sc' slices"
      using sequence_label_eq [OF assms(1) sc'(3)] slices_label_eq [OF assms(1) sc'(3) anchors slices(1) v] by simp
    then show ?thesis
      using score_slices_eq [OF assms(1) sc'(3) anchors slices(1) v] by (simp add: score_sequence_def)
  qed
  show ?thesis
    using sc'(1) new(1) score_sequence_eq [OF assms(1) map sc'(3)] score_sequence_eq [OF assms(1) map new(2)] ins sl
    by (intro exI [of _ sc'] exI [of _ new]) auto
qed

theorem sequence_scorer_reset_like_new_witness:
  "\<exists>m sc sc' new. make_sequence_scorer demo_inst demo_solution m = Inr sc \<and>
    reset_scorer demo_inst sc demo_solution m = Inr sc' \<and> make_sequence_scorer demo_inst demo_solution m = Inr new \<and>
    score_sequence demo_inst sc' [1, 3] = score_sequence demo_inst new [1, 3]"
proof -
  obtain m where m: "gap_map_of demo_inst demo_solution = Inr m"
    using depot_known [OF demo_inst_ok] by (simp add: gap_map_of_def)
  have ref: "reference_ok demo_inst demo_solution m"
    by (rule gap_map_reference_ok [OF demo_inst_ok demo_reference m])
  obtain sc where sc: "make_sequence_scorer demo_inst demo_solution m = Inr sc"
    using make_sequence_scorer_ok [OF demo_inst_ok demo_anchors ref] by blast
  have u: "\<forall>p \<in> set (plans demo_solution) \<union> set (plans demo_solution). plan_ok demo_inst p"
    using demo_reference(1) by simp
  have "[1, 3 :: int] \<noteq> [] \<and> set [1, 3] \<subseteq> set (customer_ids demo_inst)" by (simp add: demo_inst_def)
  with sequence_scorer_reset_like_new [OF demo_inst_ok demo_anchors u demo_reference(2) demo_reference(2) m m sc] sc
  show ?thesis by blast
qed

end
