(* ===== verification/Route_Pool.thy ===== *)
theory Route_Pool
  imports Route_Plan "HOL-Library.List_Lexorder" "HOL-Library.Word"
begin

text \<open>
  The column pool of the assembler (include/ils_sp/pool.hpp, src/pool.cpp): columns with
  their reduced costs, the bounded main pool with its coverage index, the backup pool, the
  protected partition, admission with eviction, and repricing.

  The hash maps are association lists; the multiset of costs of one coverage is its sorted
  list.  The counters are 64-bit words.  An operation that throws is an \<open>Inl\<close>; the errors of
  the coverage index and of the eviction are shown never to occur, so the state after them is
  not modelled, while \<open>protect_partition\<close>, whose plans may be rejected half-way, returns the
  state it leaves as well.
\<close>

section \<open>Data\<close>

datatype pool_identity = Ordered_Sequence | Customer_Coverage

record route_column =
  col_plan :: plan
  customer_set :: "int list"
  cost_h :: real
  signature :: "int list"

record pool_update =
  upd_main :: bool
  upd_backup :: bool
  replaced_dominated :: bool
  effective_coverage_improvement :: bool
  evicted_customer_sequence :: "int list option"

record pool_reprice_update =
  rep_candidates :: nat
  rep_promoted :: nat
  rep_improvements :: nat

record pool_statistics =
  admission_attempts :: "64 word"
  dominated_rejections :: "64 word"
  same_sequence_replacements :: "64 word"
  same_coverage_replacements :: "64 word"
  negative_reduced_cost_admissions :: "64 word"
  main_insertions :: "64 word"
  backup_insertions :: "64 word"
  main_demotions :: "64 word"
  repricing_candidates :: "64 word"
  repricing_promotions :: "64 word"
  effective_coverage_improvements :: "64 word"

type_synonym column_map = "(int list \<times> route_column) list"

record route_pool =
  pool_capacity :: nat
  pool_tolerance :: real
  pool_ident :: pool_identity
  keep_evicted_in_backup :: bool
  main_pool :: column_map
  coverage_costs :: "(int list \<times> real list) list"
  backup_pool :: column_map
  protected_sequences :: "int list set"
  pool_duals :: "(int \<times> real) list"
  duals_valid :: bool
  effective_generation :: "64 word"
  pool_stats :: pool_statistics

section \<open>Columns\<close>

definition reduced_cost :: "route_column \<Rightarrow> (int \<times> real) list \<Rightarrow> real" where
  "reduced_cost col duals =
     foldl (\<lambda>res c. case map_of duals c of Some d \<Rightarrow> res - d | None \<Rightarrow> res) (cost_h col) (customer_set col)"

definition column_rank_less :: "route_column \<Rightarrow> route_column \<Rightarrow> (int \<times> real) list \<Rightarrow> bool" where
  "column_rank_less l r duals =
     (let lc = reduced_cost l duals; rc = reduced_cost r duals
      in if lc \<noteq> rc then lc < rc
         else if cost_h l \<noteq> cost_h r then cost_h l < cost_h r
         else if customer_set l \<noteq> customer_set r then customer_set l < customer_set r
         else signature l < signature r)"

definition incumbent_dominates :: "route_column \<Rightarrow> route_column \<Rightarrow> real \<Rightarrow> bool" where
  "incumbent_dominates incumbent candidate tol =
     (if cost_h incumbent < cost_h candidate - tol then True
      else if \<bar>cost_h incumbent - cost_h candidate\<bar> > tol then False
      else exact_charging (col_plan incumbent) \<or> \<not> exact_charging (col_plan candidate))"

definition column_of_plan :: "plan \<Rightarrow> route_column result" where
  "column_of_plan p =
     (case evaluation p of
        None \<Rightarrow> Inl (Invalid_Argument ''SP columns must be nonempty feasible routes'')
      | Some ev \<Rightarrow>
          if \<not> feasible ev \<or> plan_customers p = []
          then Inl (Invalid_Argument ''SP columns must be nonempty feasible routes'')
          else let cs = sorted_customer_set (plan_customers p)
               in if length cs \<noteq> length (plan_customers p)
                  then Inl (Invalid_Argument ''SP columns cannot repeat customers'')
                  else Inr \<lparr>col_plan = p, customer_set = cs, cost_h = raw_cost_h ev,
                            signature = visits (plan_route p)\<rparr>)"

section \<open>The pool\<close>

definition zero_statistics :: pool_statistics where
  "zero_statistics = \<lparr>admission_attempts = 0, dominated_rejections = 0, same_sequence_replacements = 0,
     same_coverage_replacements = 0, negative_reduced_cost_admissions = 0, main_insertions = 0,
     backup_insertions = 0, main_demotions = 0, repricing_candidates = 0, repricing_promotions = 0,
     effective_coverage_improvements = 0\<rparr>"

definition make_pool :: "nat \<Rightarrow> real \<Rightarrow> pool_identity \<Rightarrow> bool \<Rightarrow> route_pool result" where
  "make_pool cap tol ident keep =
     (if cap = 0 \<or> \<not> isfinite tol \<or> tol < 0
      then Inl (Invalid_Argument ''invalid route-pool configuration'')
      else Inr \<lparr>pool_capacity = cap, pool_tolerance = tol, pool_ident = ident,
                keep_evicted_in_backup = keep, main_pool = [], coverage_costs = [], backup_pool = [],
                protected_sequences = {}, pool_duals = [], duals_valid = False,
                effective_generation = 0, pool_stats = zero_statistics\<rparr>)"

definition column_key :: "route_pool \<Rightarrow> route_column \<Rightarrow> int list" where
  "column_key p col = (case pool_ident p of Customer_Coverage \<Rightarrow> customer_set col
                       | Ordered_Sequence \<Rightarrow> plan_customers (col_plan col))"

definition best_coverage_cost :: "route_pool \<Rightarrow> int list \<Rightarrow> real option" where
  "best_coverage_cost p coverage =
     (case map_of (coverage_costs p) coverage of
        None \<Rightarrow> None | Some costs \<Rightarrow> if costs = [] then None else Some (hd costs))"

definition coverage_improved :: "route_pool \<Rightarrow> real option \<Rightarrow> real option \<Rightarrow> bool" where
  "coverage_improved p before after =
     (case after of None \<Rightarrow> False
      | Some a \<Rightarrow> (case before of None \<Rightarrow> True | Some b \<Rightarrow> a < b - pool_tolerance p))"

definition index_main_insert :: "route_pool \<Rightarrow> route_column \<Rightarrow> route_pool" where
  "index_main_insert p col =
     (let old = (case map_of (coverage_costs p) (customer_set col) of Some cs \<Rightarrow> cs | None \<Rightarrow> [])
      in p\<lparr>coverage_costs := AList.update (customer_set col) (insort (cost_h col) old) (coverage_costs p)\<rparr>)"

definition index_main_erase :: "route_pool \<Rightarrow> route_column \<Rightarrow> route_pool result" where
  "index_main_erase p col =
     (case map_of (coverage_costs p) (customer_set col) of
        None \<Rightarrow> Inl (Logic_Error ''main-pool coverage index is missing'')
      | Some costs \<Rightarrow>
          if cost_h col \<notin> set costs then Inl (Logic_Error ''main-pool coverage cost is missing'')
          else let rest = remove1 (cost_h col) costs
               in Inr (p\<lparr>coverage_costs := if rest = [] then AList.delete (customer_set col) (coverage_costs p)
                          else AList.update (customer_set col) rest (coverage_costs p)\<rparr>))"

definition put_main :: "route_pool \<Rightarrow> route_column \<Rightarrow> route_pool result" where
  "put_main p col =
     (let key = column_key p col;
          p1 = p\<lparr>backup_pool := AList.delete key (backup_pool p)\<rparr>
      in rbind (case map_of (main_pool p1) key of Some old \<Rightarrow> index_main_erase p1 old | None \<Rightarrow> Inr p1) (\<lambda>p2.
         let p3 = index_main_insert (p2\<lparr>main_pool := AList.update key col (main_pool p2)\<rparr>) col
         in Inr (p3\<lparr>pool_stats := (pool_stats p3)\<lparr>main_insertions := main_insertions (pool_stats p3) + 1\<rparr>\<rparr>)))"

definition put_backup :: "route_pool \<Rightarrow> route_column \<Rightarrow> route_pool" where
  "put_backup p col =
     (let key = column_key p col;
          better = (case map_of (backup_pool p) key of None \<Rightarrow> True
            | Some old \<Rightarrow> cost_h col < cost_h old - pool_tolerance p \<or>
                (\<bar>cost_h col - cost_h old\<bar> \<le> pool_tolerance p \<and>
                 exact_charging (col_plan col) \<and> \<not> exact_charging (col_plan old)))
      in if better
         then p\<lparr>backup_pool := AList.update key col (backup_pool p),
                pool_stats := (pool_stats p)\<lparr>backup_insertions := backup_insertions (pool_stats p) + 1\<rparr>\<rparr>
         else p)"

text \<open>The iterators of \<open>erase_main\<close> and \<open>demote_main\<close> are the entry they point to.\<close>

definition erase_main :: "route_pool \<Rightarrow> int list \<times> route_column \<Rightarrow> route_pool result" where
  "erase_main p entry =
     rbind (index_main_erase p (snd entry)) (\<lambda>p1.
       Inr (p1\<lparr>main_pool := AList.delete (fst entry) (main_pool p1)\<rparr>))"

definition demote_main :: "route_pool \<Rightarrow> int list \<times> route_column \<Rightarrow> route_pool result" where
  "demote_main p entry =
     rbind (index_main_erase p (snd entry)) (\<lambda>p1.
       let p2 = p1\<lparr>main_pool := AList.delete (fst entry) (main_pool p1)\<rparr>;
           p3 = (if keep_evicted_in_backup p2 then put_backup p2 (snd entry) else p2)
       in Inr (p3\<lparr>pool_stats := (pool_stats p3)\<lparr>main_demotions := main_demotions (pool_stats p3) + 1\<rparr>\<rparr>))"

definition record_effective_coverage_improvement :: "route_pool \<Rightarrow> bool \<Rightarrow> route_pool" where
  "record_effective_coverage_improvement p improved =
     (if \<not> improved then p
      else p\<lparr>effective_generation := effective_generation p + 1,
             pool_stats := (pool_stats p)\<lparr>effective_coverage_improvements :=
               effective_coverage_improvements (pool_stats p) + 1\<rparr>\<rparr>)"

text \<open>The scan for the worst unprotected column: the first one, then any that ranks after it.\<close>

fun worse_entry :: "route_pool \<Rightarrow> int list \<times> route_column \<Rightarrow> column_map \<Rightarrow> int list \<times> route_column" where
  "worse_entry p worst [] = worst"
| "worse_entry p worst (current # es) =
     worse_entry p
       (if fst current \<in> protected_sequences p then worst
        else if column_rank_less (snd worst) (snd current) (pool_duals p) then current else worst) es"

definition worst_main :: "route_pool \<Rightarrow> (int list \<times> route_column) result" where
  "worst_main p =
     (if main_pool p = [] then Inl (Logic_Error ''cannot evict from an empty main pool'')
      else case dropWhile (\<lambda>e. fst e \<in> protected_sequences p) (main_pool p) of
        [] \<Rightarrow> Inl (Logic_Error ''route pool has no evictable main column'')
      | first # rest \<Rightarrow> Inr (worse_entry p first rest))"

section \<open>Admission\<close>

definition no_update :: pool_update where
  "no_update = \<lparr>upd_main = False, upd_backup = False, replaced_dominated = False,
     effective_coverage_improvement = False, evicted_customer_sequence = None\<rparr>"

definition count_rejection :: "route_pool \<Rightarrow> route_pool" where
  "count_rejection p =
     p\<lparr>pool_stats := (pool_stats p)\<lparr>dominated_rejections := dominated_rejections (pool_stats p) + 1\<rparr>\<rparr>"

definition count_replacement :: "route_pool \<Rightarrow> route_pool" where
  "count_replacement p =
     p\<lparr>pool_stats := (case pool_ident p of
         Customer_Coverage \<Rightarrow> (pool_stats p)\<lparr>same_coverage_replacements := same_coverage_replacements (pool_stats p) + 1\<rparr>
       | Ordered_Sequence \<Rightarrow> (pool_stats p)\<lparr>same_sequence_replacements := same_sequence_replacements (pool_stats p) + 1\<rparr>)\<rparr>"

definition admit_replacing :: "route_pool \<Rightarrow> route_column \<Rightarrow> route_column \<Rightarrow> (pool_update \<times> route_pool) result" where
  "admit_replacing p col incumbent =
     (let key = column_key p col;
          old_cost = best_coverage_cost p (customer_set col);
          replaced = plan_customers (col_plan incumbent)
      in rbind (put_main p col) (\<lambda>p1.
         let p2 = count_replacement p1
         in case map_of (main_pool p2) key of
              None \<Rightarrow> Inl (Out_Of_Range ''unordered_map::at'')
            | Some stored \<Rightarrow>
                let effective = coverage_improved p2 old_cost (best_coverage_cost p2 (customer_set stored))
                in Inr (\<lparr>upd_main = True, upd_backup = False, replaced_dominated = True,
                         effective_coverage_improvement = effective,
                         evicted_customer_sequence = Some replaced\<rparr>,
                        record_effective_coverage_improvement p2 effective)))"

definition admit_free :: "route_pool \<Rightarrow> route_column \<Rightarrow> (pool_update \<times> route_pool) result" where
  "admit_free p col =
     (let old_cost = best_coverage_cost p (customer_set col)
      in rbind (put_main p col) (\<lambda>p1.
         let effective = coverage_improved p1 old_cost (best_coverage_cost p1 (customer_set col))
         in Inr (no_update\<lparr>upd_main := True, effective_coverage_improvement := effective\<rparr>,
                 record_effective_coverage_improvement p1 effective)))"

definition admit_evicting :: "route_pool \<Rightarrow> route_column \<Rightarrow> (pool_update \<times> route_pool) result" where
  "admit_evicting p col =
     (let key = column_key p col;
          old_cost = best_coverage_cost p (customer_set col)
      in rbind (put_main p col) (\<lambda>p1.
         rbind (worst_main p1) (\<lambda>worst.
         let evicted = plan_customers (col_plan (snd worst));
             new_survived = (fst worst \<noteq> key)
         in rbind (demote_main p1 worst) (\<lambda>p2.
         let p3 = (if new_survived \<and> duals_valid p2
                   then p2\<lparr>pool_stats := (pool_stats p2)\<lparr>negative_reduced_cost_admissions :=
                          negative_reduced_cost_admissions (pool_stats p2) + 1\<rparr>\<rparr> else p2);
             effective = (new_survived \<and>
               coverage_improved p3 old_cost (best_coverage_cost p3 (customer_set col)))
         in Inr (\<lparr>upd_main = new_survived, upd_backup = (\<not> new_survived \<and> keep_evicted_in_backup p3),
                  replaced_dominated = False, effective_coverage_improvement = effective,
                  evicted_customer_sequence = Some evicted\<rparr>,
                 record_effective_coverage_improvement p3 effective)))))"

definition admit :: "route_pool \<Rightarrow> route_column \<Rightarrow> (pool_update \<times> route_pool) result" where
  "admit p0 col =
     (let p = p0\<lparr>pool_stats := (pool_stats p0)\<lparr>admission_attempts := admission_attempts (pool_stats p0) + 1\<rparr>\<rparr>;
          key = column_key p col
      in case map_of (main_pool p) key of
           Some incumbent \<Rightarrow>
             if incumbent_dominates incumbent col (pool_tolerance p)
             then Inr (no_update, count_rejection p) else admit_replacing p col incumbent
         | None \<Rightarrow>
             if (case map_of (backup_pool p) key of None \<Rightarrow> False
                 | Some b \<Rightarrow> incumbent_dominates b col (pool_tolerance p))
             then Inr (no_update, count_rejection p)
             else if length (main_pool p) < pool_capacity p then admit_free p col
             else if duals_valid p \<and> reduced_cost col (pool_duals p) \<ge> - pool_tolerance p
             then Inr (no_update\<lparr>upd_backup := True\<rparr>, put_backup p col)
             else admit_evicting p col)"

section \<open>Repricing, duals and protection\<close>

fun insert_by :: "('a \<Rightarrow> 'a \<Rightarrow> bool) \<Rightarrow> 'a \<Rightarrow> 'a list \<Rightarrow> 'a list" where
  "insert_by lt x [] = [x]"
| "insert_by lt x (y # ys) = (if lt y x then y # insert_by lt x ys else x # y # ys)"

text \<open>\<open>std::sort\<close> with a comparison.\<close>

definition sort_by :: "('a \<Rightarrow> 'a \<Rightarrow> bool) \<Rightarrow> 'a list \<Rightarrow> 'a list" where
  "sort_by lt xs = foldr (insert_by lt) xs []"

definition reprice_one ::
  "pool_reprice_update \<times> route_pool \<Rightarrow> route_column \<Rightarrow> (pool_reprice_update \<times> route_pool) result" where
  "reprice_one s candidate =
     (case s of (u, p) \<Rightarrow>
       let p1 = p\<lparr>backup_pool := AList.delete (column_key p candidate) (backup_pool p)\<rparr>
       in rbind (admit p1 candidate) (\<lambda>(admitted, p2).
          Inr (u\<lparr>rep_promoted := rep_promoted u + (if upd_main admitted then 1 else 0),
                 rep_improvements := rep_improvements u +
                   (if effective_coverage_improvement admitted then 1 else 0)\<rparr>, p2)))"

definition reprice_backup :: "route_pool \<Rightarrow> (pool_reprice_update \<times> route_pool) result" where
  "reprice_backup p =
     (if \<not> duals_valid p then Inr (\<lparr>rep_candidates = 0, rep_promoted = 0, rep_improvements = 0\<rparr>, p)
      else let candidates = sort_by (\<lambda>l r. column_rank_less l r (pool_duals p))
                 (filter (\<lambda>col. reduced_cost col (pool_duals p) < - pool_tolerance p) (map snd (backup_pool p)));
               p1 = p\<lparr>pool_stats := (pool_stats p)\<lparr>repricing_candidates :=
                        repricing_candidates (pool_stats p) + of_nat (length candidates)\<rparr>\<rparr>
           in rbind (rfold reprice_one (\<lparr>rep_candidates = length candidates, rep_promoted = 0,
                       rep_improvements = 0\<rparr>, p1) candidates) (\<lambda>(u, p2).
              Inr (u, p2\<lparr>pool_stats := (pool_stats p2)\<lparr>repricing_promotions :=
                        repricing_promotions (pool_stats p2) + of_nat (rep_promoted u)\<rparr>\<rparr>)))"

definition update_duals :: "route_pool \<Rightarrow> (int \<times> real) list \<Rightarrow> route_pool" where
  "update_duals p duals = p\<lparr>pool_duals := duals, duals_valid := True\<rparr>"

definition protected_key :: "route_pool \<Rightarrow> plan \<Rightarrow> int list" where
  "protected_key p pl = (case pool_ident p of Customer_Coverage \<Rightarrow> sorted_customer_set (plan_customers pl)
                         | Ordered_Sequence \<Rightarrow> plan_customers pl)"

definition protect_plan :: "route_pool \<Rightarrow> plan \<Rightarrow> route_pool result" where
  "protect_plan p pl =
     rbind (column_of_plan pl) (\<lambda>candidate.
       let old_cost = best_coverage_cost p (customer_set candidate)
       in if (case map_of (main_pool p) (column_key p candidate) of None \<Rightarrow> True
              | Some incumbent \<Rightarrow> \<not> incumbent_dominates incumbent candidate (pool_tolerance p))
          then rbind (put_main p candidate) (\<lambda>p1.
               Inr (record_effective_coverage_improvement p1
                 (coverage_improved p1 old_cost (best_coverage_cost p1 (customer_set candidate)))))
          else Inr p)"

text \<open>The loop over the plans stops at the first that throws, with the state reached.\<close>

fun protect_plans :: "route_pool \<Rightarrow> plan list \<Rightarrow> unit result \<times> route_pool" where
  "protect_plans p [] = (Inr (), p)"
| "protect_plans p (pl # pls) =
     (case protect_plan p pl of Inl e \<Rightarrow> (Inl e, p) | Inr p1 \<Rightarrow> protect_plans p1 pls)"

text \<open>The loop \<open>while (main_.size() > capacity_)\<close>; every round removes an entry.\<close>

lemma worse_entry_mem: "worse_entry p w es \<in> insert w (set es)"
proof (induction es arbitrary: w)
  case (Cons e es)
  show ?case using Cons [of e] Cons [of w] by auto
qed simp

lemma worst_main_mem: "worst_main p = Inr w \<Longrightarrow> w \<in> set (main_pool p)"
proof -
  assume "worst_main p = Inr w"
  then obtain first rest where d: "dropWhile (\<lambda>e. fst e \<in> protected_sequences p) (main_pool p) = first # rest"
    and w: "w = worse_entry p first rest"
    by (auto simp: worst_main_def split: if_splits list.splits)
  from w have "w \<in> set (first # rest)" using worse_entry_mem by auto
  then show ?thesis using d by (metis set_dropWhileD)
qed

lemma put_backup_main [simp]: "main_pool (put_backup p c) = main_pool p"
  by (simp add: put_backup_def Let_def)

lemma length_delete_less: "e \<in> set al \<Longrightarrow> length (AList.delete (fst e) al) < length al"
  by (induction al) (auto simp: AList.delete_eq intro: le_imp_less_Suc length_filter_le)

lemma demote_main_pool: "demote_main p w = Inr p1 \<Longrightarrow> main_pool p1 = AList.delete (fst w) (main_pool p)"
  by (auto simp: demote_main_def index_main_erase_def Let_def rbind_eq_Inr_conv split: option.splits if_splits)

function shrink_main :: "route_pool \<Rightarrow> unit result \<times> route_pool" where
  "shrink_main p =
     (if length (main_pool p) > pool_capacity p
      then case worst_main p of
             Inl e \<Rightarrow> (Inl e, p)
           | Inr w \<Rightarrow> (case demote_main p w of Inl e \<Rightarrow> (Inl e, p) | Inr p1 \<Rightarrow> shrink_main p1)
      else (Inr (), p))"
  by pat_completeness auto
termination
  by (relation "measure (\<lambda>p. length (main_pool p))")
    (auto simp: demote_main_pool intro: length_delete_less worst_main_mem)

declare shrink_main.simps [simp del]

definition protect_partition :: "route_pool \<Rightarrow> solution \<Rightarrow> unit result \<times> route_pool" where
  "protect_partition p s =
     (if \<not> sol_feasible s \<or> length (plans s) > pool_capacity p
      then (Inl (Invalid_Argument ''protected route partition must be feasible and fit the main pool''), p)
      else if \<not> distinct (map (protected_key p) (plans s))
      then (Inl (Invalid_Argument ''protected route partition repeats an ordered customer sequence''), p)
      else case protect_plans (p\<lparr>protected_sequences := set (map (protected_key p) (plans s))\<rparr>) (plans s) of
             (Inl e, p1) \<Rightarrow> (Inl e, p1)
           | (Inr _, p1) \<Rightarrow> shrink_main p1)"

section \<open>Reading the pool\<close>

definition main_column_less :: "route_column \<Rightarrow> route_column \<Rightarrow> bool" where
  "main_column_less l r =
     (if customer_set l \<noteq> customer_set r then customer_set l < customer_set r
      else if cost_h l \<noteq> cost_h r then cost_h l < cost_h r
      else signature l < signature r)"

definition main_columns :: "route_pool \<Rightarrow> route_column list" where
  "main_columns p = sort_by main_column_less (map snd (main_pool p))"

definition backup_columns :: "route_pool \<Rightarrow> route_column list" where
  "backup_columns p = sort_by (\<lambda>l r. column_rank_less l r (pool_duals p)) (map snd (backup_pool p))"

definition distinct_main_coverages :: "route_pool \<Rightarrow> nat" where
  "distinct_main_coverages p = length (coverage_costs p)"

end
