(* ===== verification/Pool_Invariant.thy ===== *)
theory Pool_Invariant
  imports Route_Pool
begin

text \<open>
  The invariant of the column pool and its preservation: the keys of both maps are the
  identities of their columns, no identity is in both, and the coverage index holds for every
  customer set the sorted costs of the main columns that cover it.  From the invariant no
  operation can reach the logic errors of the code.
\<close>

section \<open>The coverage index\<close>

definition coverage_mset :: "route_column multiset \<Rightarrow> int list \<Rightarrow> real multiset" where
  "coverage_mset M S = image_mset cost_h (filter_mset (\<lambda>c. customer_set c = S) M)"

definition index_for :: "(int list \<times> real list) list \<Rightarrow> route_column multiset \<Rightarrow> bool" where
  "index_for cc M \<longleftrightarrow> distinct (map fst cc) \<and>
     (\<forall>S. map_of cc S = (if coverage_mset M S = {#} then None
                        else Some (sorted_list_of_multiset (coverage_mset M S))))"

lemma coverage_mset_simps [simp]:
  "coverage_mset {#} S = {#}"
  "coverage_mset (add_mset c M) S =
     (if customer_set c = S then add_mset (cost_h c) (coverage_mset M S) else coverage_mset M S)"
  by (simp_all add: coverage_mset_def)

lemma coverage_mset_empty_iff:
  "coverage_mset M S = {#} \<longleftrightarrow> (\<forall>c \<in># M. customer_set c \<noteq> S)"
  by (auto simp: coverage_mset_def filter_mset_eq_conv)

lemma remove1_sorted_list_of_multiset:
  "remove1 x (sorted_list_of_multiset (add_mset x M)) = sorted_list_of_multiset M"
  by (simp add: remove1_insort_key)

lemma index_for_insert:
  assumes "index_for (coverage_costs p) M"
  shows "index_for (coverage_costs (index_main_insert p c)) (add_mset c M)"
  using assms by (auto simp: index_for_def index_main_insert_def Let_def distinct_update)

lemma index_for_erase:
  assumes "index_for (coverage_costs p) (add_mset c M)"
  shows "\<exists>cc. index_main_erase p c = Inr (p\<lparr>coverage_costs := cc\<rparr>) \<and> index_for cc M"
proof -
  let ?old = "sorted_list_of_multiset (add_mset (cost_h c) (coverage_mset M (customer_set c)))"
  let ?rest = "sorted_list_of_multiset (coverage_mset M (customer_set c))"
  have old: "map_of (coverage_costs p) (customer_set c) = Some ?old"
    using assms by (simp add: index_for_def)
  have rest: "remove1 (cost_h c) ?old = ?rest" by (rule remove1_sorted_list_of_multiset)
  have mem: "cost_h c \<in> set ?old" by (simp add: set_insort_key)
  have "?rest = [] \<longleftrightarrow> coverage_mset M (customer_set c) = {#}"
    by (metis mset_sorted_list_of_multiset mset_zero_iff_right)
  then show ?thesis
    using assms old rest mem
    by (auto simp: index_main_erase_def Let_def index_for_def distinct_update distinct_delete
        simp del: sorted_list_of_multiset_insert)
qed

lemma hd_sorted_Min: "sorted xs \<Longrightarrow> xs \<noteq> [] \<Longrightarrow> hd xs = Min (set xs)"
  by (cases xs) (auto intro: Min_eqI [symmetric])

lemma best_coverage_cost_index:
  assumes "index_for (coverage_costs p) M"
  shows "best_coverage_cost p S =
     (if coverage_mset M S = {#} then None else Some (Min_mset (coverage_mset M S)))"
proof (cases "coverage_mset M S = {#}")
  case False
  let ?l = "sorted_list_of_multiset (coverage_mset M S)"
  have ne: "?l \<noteq> []" using False by (metis mset.simps(1) mset_sorted_list_of_multiset)
  then have "hd ?l = Min (set ?l)"
    by (simp add: hd_sorted_Min)
  then show ?thesis using False assms ne by (simp add: best_coverage_cost_def index_for_def)
qed (use assms in \<open>simp add: best_coverage_cost_def index_for_def\<close>)

section \<open>The invariant\<close>

definition keyed :: "route_pool \<Rightarrow> column_map \<Rightarrow> bool" where
  "keyed p m \<longleftrightarrow> distinct (map fst m) \<and> (\<forall>k c. map_of m k = Some c \<longrightarrow> k = column_key p c)"

definition pool_wf :: "route_pool \<Rightarrow> bool" where
  "pool_wf p \<longleftrightarrow> 0 < pool_capacity p \<and> 0 \<le> pool_tolerance p \<and>
     keyed p (main_pool p) \<and> keyed p (backup_pool p) \<and>
     fst ` set (main_pool p) \<inter> fst ` set (backup_pool p) = {} \<and>
     index_for (coverage_costs p) (image_mset snd (mset (main_pool p))) \<and>
     finite (protected_sequences p) \<and> card (protected_sequences p) \<le> pool_capacity p"

definition pool_inv :: "route_pool \<Rightarrow> bool" where
  "pool_inv p \<longleftrightarrow> pool_wf p \<and> length (main_pool p) \<le> pool_capacity p"

text \<open>The part of the state that admission and eviction never write.\<close>

definition same_config :: "route_pool \<Rightarrow> route_pool \<Rightarrow> bool" where
  "same_config p q \<longleftrightarrow> pool_capacity q = pool_capacity p \<and> pool_tolerance q = pool_tolerance p \<and>
     pool_ident q = pool_ident p \<and> keep_evicted_in_backup q = keep_evicted_in_backup p \<and>
     protected_sequences q = protected_sequences p \<and> pool_duals q = pool_duals p \<and>
     duals_valid q = duals_valid p"

lemma same_config_refl [simp]: "same_config p p"
  by (simp add: same_config_def)

lemma same_config_trans [trans]: "same_config p q \<Longrightarrow> same_config q r \<Longrightarrow> same_config p r"
  by (simp add: same_config_def)

lemma column_key_cong: "pool_ident q = pool_ident p \<Longrightarrow> column_key q c = column_key p c"
  by (simp add: column_key_def)

lemma same_config_key: "same_config p q \<Longrightarrow> column_key q c = column_key p c"
  by (simp add: same_config_def column_key_def)

lemma keyed_cong: "pool_ident q = pool_ident p \<Longrightarrow> keyed q m = keyed p m"
  by (simp add: keyed_def column_key_def)

lemma column_key_updates [simp]:
  "column_key (p\<lparr>main_pool := m\<rparr>) = column_key p"
  "column_key (p\<lparr>coverage_costs := cc\<rparr>) = column_key p"
  "column_key (p\<lparr>backup_pool := m\<rparr>) = column_key p"
  "column_key (p\<lparr>protected_sequences := ps\<rparr>) = column_key p"
  "column_key (p\<lparr>pool_duals := d\<rparr>) = column_key p"
  "column_key (p\<lparr>duals_valid := v\<rparr>) = column_key p"
  "column_key (p\<lparr>effective_generation := g\<rparr>) = column_key p"
  "column_key (p\<lparr>pool_stats := st\<rparr>) = column_key p"
  by (auto simp: fun_eq_iff column_key_def)

lemma keyed_updates [simp]:
  "keyed (p\<lparr>main_pool := m\<rparr>) = keyed p"
  "keyed (p\<lparr>coverage_costs := cc\<rparr>) = keyed p"
  "keyed (p\<lparr>backup_pool := m\<rparr>) = keyed p"
  "keyed (p\<lparr>protected_sequences := ps\<rparr>) = keyed p"
  "keyed (p\<lparr>pool_duals := d\<rparr>) = keyed p"
  "keyed (p\<lparr>duals_valid := v\<rparr>) = keyed p"
  "keyed (p\<lparr>effective_generation := g\<rparr>) = keyed p"
  "keyed (p\<lparr>pool_stats := st\<rparr>) = keyed p"
  by (auto simp: fun_eq_iff keyed_def)

lemma pool_wf_counters [simp]:
  "pool_wf (p\<lparr>effective_generation := g\<rparr>) = pool_wf p"
  "pool_wf (p\<lparr>pool_stats := st\<rparr>) = pool_wf p"
  "pool_wf (p\<lparr>pool_duals := d\<rparr>) = pool_wf p"
  "pool_wf (p\<lparr>duals_valid := v\<rparr>) = pool_wf p"
  by (simp_all add: pool_wf_def)

lemma keyed_lookup: "keyed p m \<Longrightarrow> map_of m k = Some c \<Longrightarrow> k = column_key p c"
  by (simp add: keyed_def)

lemma keyed_update: "keyed p m \<Longrightarrow> keyed p (AList.update (column_key p c) c m)"
  by (simp add: keyed_def distinct_update)

lemma keyed_delete: "keyed p m \<Longrightarrow> keyed p (AList.delete k m)"
  by (simp add: keyed_def distinct_delete)

section \<open>The elementary operations\<close>

lemma mset_update_new:
  "map_of m k = None \<Longrightarrow> image_mset snd (mset (AList.update k c m)) = add_mset c (image_mset snd (mset m))"
  by (simp add: update_new map_of_eq_None_keys)

lemma mset_update_old:
  "map_of m k = Some old \<Longrightarrow>
     \<exists>R. image_mset snd (mset m) = add_mset old R \<and> image_mset snd (mset (AList.update k c m)) = add_mset c R"
proof (induction m)
  case (Cons e m)
  show ?case
  proof (cases "fst e = k")
    case True
    then show ?thesis using Cons.prems by (cases e) auto
  next
    case False
    then obtain R where "image_mset snd (mset m) = add_mset old R"
      and "image_mset snd (mset (AList.update k c m)) = add_mset c R"
      using Cons by auto
    then show ?thesis using False
      by (cases e) (auto intro!: exI [of _ "add_mset (snd e) R"])
  qed
qed simp

lemma mset_delete_old:
  "distinct (map fst m) \<Longrightarrow> map_of m k = Some v \<Longrightarrow>
     image_mset snd (mset m) = add_mset v (image_mset snd (mset (AList.delete k m)))"
proof (induction m)
  case (Cons e m)
  show ?case
  proof (cases "fst e = k")
    case True
    then have "AList.delete k m = m" using Cons.prems by (auto intro: delete_id)
    then show ?thesis using True Cons.prems by (cases e) auto
  next
    case False
    then show ?thesis using Cons by (cases e) (auto simp: add_mset_commute)
  qed
qed simp

lemma put_main_ok:
  assumes wf: "pool_wf p"
  shows "\<exists>cc st. put_main p c = Inr (p\<lparr>backup_pool := AList.delete (column_key p c) (backup_pool p),
            main_pool := AList.update (column_key p c) c (main_pool p),
            coverage_costs := cc, pool_stats := st\<rparr>) \<and>
          index_for cc (image_mset snd (mset (AList.update (column_key p c) c (main_pool p))))"
proof (cases "map_of (main_pool p) (column_key p c)")
  case None
  let ?p1 = "p\<lparr>backup_pool := AList.delete (column_key p c) (backup_pool p),
               main_pool := AList.update (column_key p c) c (main_pool p)\<rparr>"
  have "index_for (coverage_costs ?p1) (image_mset snd (mset (main_pool p)))"
    using wf by (simp add: pool_wf_def)
  from index_for_insert [OF this, of c] show ?thesis
    using None by (auto simp: put_main_def Let_def index_main_insert_def mset_update_new
        split: option.split)
next
  case (Some old)
  obtain R where R: "image_mset snd (mset (main_pool p)) = add_mset old R"
    and R': "image_mset snd (mset (AList.update (column_key p c) c (main_pool p))) = add_mset c R"
    using mset_update_old [OF Some] by blast
  let ?p1 = "p\<lparr>backup_pool := AList.delete (column_key p c) (backup_pool p)\<rparr>"
  have "index_for (coverage_costs ?p1) (add_mset old R)"
    using wf R by (simp add: pool_wf_def)
  then obtain cc where er: "index_main_erase ?p1 old = Inr (?p1\<lparr>coverage_costs := cc\<rparr>)"
    and cc: "index_for cc R"
    using index_for_erase by blast
  let ?p2 = "?p1\<lparr>coverage_costs := cc, main_pool := AList.update (column_key p c) c (main_pool p)\<rparr>"
  have "index_for (coverage_costs ?p2) R" using cc by simp
  from index_for_insert [OF this, of c] show ?thesis
    using Some er R' by (auto simp: put_main_def Let_def index_main_insert_def split: option.split)
qed

lemma dom_update: "fst ` set (AList.update k v m) = insert k (fst ` set m)"
  by (metis dom_map_of_conv_image_fst dom_fun_upd map_of_update option.distinct(1))

lemma dom_delete: "fst ` set (AList.delete k m) = fst ` set m - {k}"
  by (metis dom_map_of_conv_image_fst dom_fun_upd map_of_delete)

lemma put_main_wf:
  assumes wf: "pool_wf p"
  obtains p' where "put_main p c = Inr p'" and "pool_wf p'" and "same_config p p'"
    and "main_pool p' = AList.update (column_key p c) c (main_pool p)"
    and "backup_pool p' = AList.delete (column_key p c) (backup_pool p)"
    and "effective_generation p' = effective_generation p"
proof -
  obtain cc st where pm: "put_main p c = Inr (p\<lparr>backup_pool := AList.delete (column_key p c) (backup_pool p),
            main_pool := AList.update (column_key p c) c (main_pool p),
            coverage_costs := cc, pool_stats := st\<rparr>)" (is "_ = Inr ?q")
    and cc: "index_for cc (image_mset snd (mset (AList.update (column_key p c) c (main_pool p))))"
    using put_main_ok [OF wf] by blast
  have "pool_wf ?q"
    using wf cc by (auto simp: pool_wf_def keyed_update keyed_delete
        dom_update dom_delete)
  with pm show thesis by (intro that [of ?q]) (simp_all add: same_config_def)
qed

lemma put_backup_wf:
  assumes wf: "pool_wf p" and new: "map_of (main_pool p) (column_key p c) = None"
  shows "pool_wf (put_backup p c)" and "same_config p (put_backup p c)"
    and "effective_generation (put_backup p c) = effective_generation p"
    and "coverage_costs (put_backup p c) = coverage_costs p"
proof -
  show "same_config p (put_backup p c)" "effective_generation (put_backup p c) = effective_generation p"
    "coverage_costs (put_backup p c) = coverage_costs p"
    by (simp_all add: put_backup_def Let_def same_config_def)
  show "pool_wf (put_backup p c)"
    using wf new keyed_update [of p "backup_pool p" c]
    by (auto simp: put_backup_def Let_def pool_wf_def dom_update map_of_eq_None_keys)
qed

lemma demote_main_ok:
  assumes wf: "pool_wf p" and w: "w \<in> set (main_pool p)"
  obtains p' where "demote_main p w = Inr p'" and "pool_wf p'" and "same_config p p'"
    and "main_pool p' = AList.delete (fst w) (main_pool p)"
    and "effective_generation p' = effective_generation p"
    and "keep_evicted_in_backup p \<Longrightarrow> map_of (backup_pool p') (fst w) = Some (snd w)"
proof -
  have dist: "distinct (map fst (main_pool p))" using wf by (simp add: pool_wf_def keyed_def)
  have lk: "map_of (main_pool p) (fst w) = Some (snd w)"
    using w dist by (simp add: map_of_is_SomeI)
  have key: "column_key p (snd w) = fst w"
    using wf keyed_lookup [OF _ lk, of p] by (simp add: pool_wf_def)
  have "index_for (coverage_costs p) (add_mset (snd w) (image_mset snd (mset (AList.delete (fst w) (main_pool p)))))"
    using wf mset_delete_old [OF dist lk] by (simp add: pool_wf_def)
  then obtain cc where er: "index_main_erase p (snd w) = Inr (p\<lparr>coverage_costs := cc\<rparr>)"
    and cc: "index_for cc (image_mset snd (mset (AList.delete (fst w) (main_pool p))))"
    using index_for_erase by blast
  let ?p2 = "p\<lparr>coverage_costs := cc, main_pool := AList.delete (fst w) (main_pool p)\<rparr>"
  let ?p3 = "if keep_evicted_in_backup ?p2 then put_backup ?p2 (snd w) else ?p2"
  have wf2: "pool_wf ?p2"
    using wf cc by (auto simp: pool_wf_def keyed_delete dom_delete)
  have key2: "column_key ?p2 (snd w) = fst w" using key by simp
  have new: "map_of (main_pool ?p2) (column_key ?p2 (snd w)) = None" using key2 by simp
  have wf3: "pool_wf ?p3" using wf2 put_backup_wf(1) [OF wf2 new] by simp
  have c3: "same_config p ?p3"
    using put_backup_wf(2) [OF wf2 new] by (auto simp: same_config_def)
  have g3: "effective_generation ?p3 = effective_generation p"
    using put_backup_wf(3) [OF wf2 new] by simp
  have "fst w \<notin> fst ` set (backup_pool p)" using wf w by (auto simp: pool_wf_def)
  then have b3: "keep_evicted_in_backup p \<Longrightarrow> map_of (backup_pool ?p3) (fst w) = Some (snd w)"
    using key2 by (simp add: put_backup_def Let_def map_of_eq_None_keys [symmetric])
  let ?q = "?p3\<lparr>pool_stats := (pool_stats ?p3)\<lparr>main_demotions := main_demotions (pool_stats ?p3) + 1\<rparr>\<rparr>"
  have "demote_main p w = Inr ?q" using er by (simp add: demote_main_def Let_def)
  moreover have "pool_wf ?q" using wf3 by simp
  ultimately show thesis using c3 g3 b3
    by (intro that [of ?q]) (simp_all add: same_config_def)
qed

lemma worst_main_ok:
  assumes wf: "pool_wf p" and over: "pool_capacity p < length (main_pool p)"
  obtains w where "worst_main p = Inr w"
proof -
  have "card (fst ` set (main_pool p)) = length (main_pool p)"
    using wf by (metis distinct_card length_map list.set_map pool_wf_def keyed_def)
  then have "card (protected_sequences p) < card (fst ` set (main_pool p))"
    using wf over by (simp add: pool_wf_def)
  then have "\<not> fst ` set (main_pool p) \<subseteq> protected_sequences p"
    using wf by (auto simp: pool_wf_def dest: card_mono)
  then obtain e where "e \<in> set (main_pool p)" "fst e \<notin> protected_sequences p" by auto
  then have "dropWhile (\<lambda>e. fst e \<in> protected_sequences p) (main_pool p) \<noteq> []"
    by (auto simp: dropWhile_eq_Nil_conv)
  then obtain f r where "dropWhile (\<lambda>e. fst e \<in> protected_sequences p) (main_pool p) = f # r"
    by (cases "dropWhile (\<lambda>e. fst e \<in> protected_sequences p) (main_pool p)") auto
  moreover have "main_pool p \<noteq> []" using over by auto
  ultimately show thesis by (intro that) (simp add: worst_main_def)
qed

end
