(* ===== verification/Pool_Admission.thy ===== *)
theory Pool_Admission
  imports Pool_Invariant "HOL-Library.Product_Lexorder"
begin

text \<open>
  Ranking, sorting and admission.  The comparisons given to \<open>std::sort\<close> and to the eviction
  scan are strict weak orders, so that the sorted vectors are sorted permutations and the
  scan finds a worst column; an admission then succeeds on every well-formed pool and does
  what its report says.
\<close>

section \<open>Strict weak orders\<close>

locale ranking =
  fixes lt :: "'a \<Rightarrow> 'a \<Rightarrow> bool"
  assumes asym: "lt x y \<Longrightarrow> \<not> lt y x"
    and neg_trans: "\<not> lt x y \<Longrightarrow> \<not> lt y z \<Longrightarrow> \<not> lt x z"
begin

lemma mset_insert_by: "mset (insert_by lt x ys) = add_mset x (mset ys)"
  by (induction ys) auto

lemma mset_sort_by: "mset (sort_by lt xs) = mset xs"
  by (induction xs) (simp_all add: sort_by_def mset_insert_by)

lemma sorted_insert_by:
  "sorted_wrt (\<lambda>x y. \<not> lt y x) ys \<Longrightarrow> sorted_wrt (\<lambda>x y. \<not> lt y x) (insert_by lt x ys)"
proof (induction ys)
  case (Cons y ys)
  have set_ins: "set (insert_by lt x ys) = insert x (set ys)"
    using mset_insert_by [of x ys] by (metis set_mset_add_mset_insert set_mset_mset)
  show ?case
  proof (cases "lt y x")
    case True
    then show ?thesis using Cons set_ins asym by auto
  next
    case False
    have "\<not> lt z x" if "z \<in> set ys" for z
      using neg_trans [of z y x] that Cons.prems False by auto
    then show ?thesis using Cons.prems False by simp
  qed
qed simp

lemma sorted_sort_by: "sorted_wrt (\<lambda>x y. \<not> lt y x) (sort_by lt xs)"
  by (induction xs) (simp_all add: sort_by_def sorted_insert_by)

lemma set_sort_by: "set (sort_by lt xs) = set xs"
  using mset_sort_by [of xs] by (metis set_mset_mset)

lemma length_sort_by: "length (sort_by lt xs) = length xs"
  using mset_sort_by [of xs] by (metis size_mset)

text \<open>Keeping the later of two elements keeps a last one.\<close>

lemma scan_last:
  assumes "\<forall>x \<in> set xs. \<not> lt m x" and "lt m y"
  shows "\<forall>x \<in> insert y (set xs). \<not> lt y x"
  using assms asym neg_trans by blast

end

definition rank_of :: "(int \<times> real) list \<Rightarrow> route_column \<Rightarrow> real \<times> real \<times> int list \<times> int list" where
  "rank_of duals c = (reduced_cost c duals, cost_h c, customer_set c, signature c)"

definition stored_rank :: "route_column \<Rightarrow> int list \<times> real \<times> int list" where
  "stored_rank c = (customer_set c, cost_h c, signature c)"

lemma column_rank_less_eq: "column_rank_less l r duals \<longleftrightarrow> rank_of duals l < rank_of duals r"
  by (auto simp: column_rank_less_def rank_of_def Let_def less_prod_simp less_le_not_le)

interpretation rank: ranking "\<lambda>l r. column_rank_less l r duals" for duals
  by unfold_locales (auto simp: column_rank_less_eq)

lemma main_column_less_eq: "main_column_less l r \<longleftrightarrow> stored_rank l < stored_rank r"
  by (auto simp: main_column_less_def stored_rank_def less_prod_simp less_le_not_le)

interpretation stored: ranking main_column_less
  by unfold_locales (auto simp: main_column_less_eq)

section \<open>The eviction scan\<close>

lemma worse_entry_worst:
  assumes "fst w \<notin> protected_sequences p"
  shows "fst (worse_entry p w es) \<notin> protected_sequences p \<and>
    (\<forall>e \<in> insert w (set es). fst e \<notin> protected_sequences p \<longrightarrow>
       \<not> column_rank_less (snd (worse_entry p w es)) (snd e) (pool_duals p))"
  using assms
proof (induction es arbitrary: w)
  case Nil
  then show ?case using rank.asym by (simp, blast)
next
  case (Cons e es)
  let ?w = "if fst e \<in> protected_sequences p then w
        else if column_rank_less (snd w) (snd e) (pool_duals p) then e else w"
  have "fst ?w \<notin> protected_sequences p" using Cons.prems by simp
  note IH = Cons.IH [OF this]
  let ?r = "worse_entry p ?w es"
  have le: "\<not> column_rank_less (snd ?r) (snd ?w) (pool_duals p)"
    using IH \<open>fst ?w \<notin> protected_sequences p\<close> by blast
  have "\<not> column_rank_less (snd ?w) (snd w) (pool_duals p)"
    using rank.asym by auto
  moreover have "fst e \<notin> protected_sequences p \<Longrightarrow> \<not> column_rank_less (snd ?w) (snd e) (pool_duals p)"
    using rank.asym by auto
  ultimately have "\<not> column_rank_less (snd ?r) (snd w) (pool_duals p)"
    and "fst e \<notin> protected_sequences p \<Longrightarrow> \<not> column_rank_less (snd ?r) (snd e) (pool_duals p)"
    using rank.neg_trans [OF le] by auto
  then show ?case using IH by simp
qed

lemma worst_main_worst:
  assumes "worst_main p = Inr w"
  shows "w \<in> set (main_pool p)" and "fst w \<notin> protected_sequences p"
    and "\<And>e. e \<in> set (main_pool p) \<Longrightarrow> fst e \<notin> protected_sequences p \<Longrightarrow>
           \<not> column_rank_less (snd w) (snd e) (pool_duals p)"
proof -
  obtain f r where d: "dropWhile (\<lambda>e. fst e \<in> protected_sequences p) (main_pool p) = f # r"
    and w: "w = worse_entry p f r"
    using assms by (auto simp: worst_main_def split: if_splits list.splits)
  have f: "fst f \<notin> protected_sequences p"
    using d by (metis hd_dropWhile list.distinct(1) list.sel(1))
  show "w \<in> set (main_pool p)" using assms by (rule worst_main_mem)
  show "fst w \<notin> protected_sequences p" using worse_entry_worst [OF f] w by blast
  fix e assume e: "e \<in> set (main_pool p)" "fst e \<notin> protected_sequences p"
  have "main_pool p = takeWhile (\<lambda>e. fst e \<in> protected_sequences p) (main_pool p) @ f # r"
    using d by (metis takeWhile_dropWhile_id)
  then have "e \<in> insert f (set r)"
    using e by (metis Un_iff list.simps(15) set_append set_takeWhileD)
  then show "\<not> column_rank_less (snd w) (snd e) (pool_duals p)"
    using worse_entry_worst [OF f, of r] e w by blast
qed

section \<open>Admission\<close>

text \<open>
  The column \<open>old\<close> of key \<open>j\<close> may leave the main pool when \<open>c\<close> is admitted: it is not
  protected, the pool is full, \<open>c\<close> does not price out, no unprotected column that stays
  ranks after \<open>old\<close>, and \<open>old\<close> is kept in the backup when that is configured.
\<close>

definition evictable :: "route_pool \<Rightarrow> route_column \<Rightarrow> route_pool \<Rightarrow> int list \<Rightarrow> route_column \<Rightarrow> bool" where
  "evictable p c q j old \<longleftrightarrow> j \<notin> protected_sequences p \<and>
     pool_capacity p \<le> length (main_pool p) \<and>
     (duals_valid p \<longrightarrow> reduced_cost c (pool_duals p) < - pool_tolerance p) \<and>
     (keep_evicted_in_backup p \<longrightarrow> map_of (backup_pool q) j = Some old) \<and>
     (\<forall>i x. map_of (main_pool q) i = Some x \<longrightarrow> i \<notin> protected_sequences p \<longrightarrow>
        \<not> column_rank_less old x (pool_duals p))"

text \<open>What an admission of \<open>c\<close> that reports \<open>u\<close> has done to \<open>p\<close>.\<close>

definition admitted :: "route_pool \<Rightarrow> route_column \<Rightarrow> pool_update \<Rightarrow> route_pool \<Rightarrow> bool" where
  "admitted p c u q \<longleftrightarrow> pool_wf q \<and> same_config p q \<and>
     length (main_pool q) \<le> max (length (main_pool p)) (pool_capacity p) \<and>
     (\<forall>k \<in> protected_sequences p. map_of (main_pool p) k \<noteq> None \<longrightarrow> map_of (main_pool q) k \<noteq> None) \<and>
     (\<forall>j old new. map_of (main_pool p) j = Some old \<longrightarrow> map_of (main_pool q) j = Some new \<longrightarrow>
        new \<noteq> old \<longrightarrow> new = c \<and> j = column_key p c \<and> \<not> incumbent_dominates old c (pool_tolerance p)) \<and>
     (\<forall>j old. map_of (main_pool p) j = Some old \<longrightarrow> map_of (main_pool q) j = None \<longrightarrow>
        evictable p c q j old) \<and>
     (if upd_main u then map_of (main_pool q) (column_key p c) = Some c
      else map_of (main_pool q) = map_of (main_pool p)) \<and>
     effective_generation q = effective_generation p + (if effective_coverage_improvement u then 1 else 0) \<and>
     (effective_coverage_improvement u \<longleftrightarrow>
        coverage_improved p (best_coverage_cost p (customer_set c)) (best_coverage_cost q (customer_set c)))"

lemma best_coverage_cost_cong:
  "coverage_costs q = coverage_costs p \<Longrightarrow> best_coverage_cost q S = best_coverage_cost p S"
  by (simp add: best_coverage_cost_def)

lemma coverage_improved_cong:
  "pool_tolerance q = pool_tolerance p \<Longrightarrow> coverage_improved q a b = coverage_improved p a b"
  by (simp only: coverage_improved_def)

lemma coverage_improved_same: "pool_wf p \<Longrightarrow> \<not> coverage_improved p a a"
  by (cases a) (auto simp: coverage_improved_def pool_wf_def)

lemma record_improvement:
  "pool_wf (record_effective_coverage_improvement p b) = pool_wf p"
  "same_config q (record_effective_coverage_improvement p b) = same_config q p"
  "main_pool (record_effective_coverage_improvement p b) = main_pool p"
  "backup_pool (record_effective_coverage_improvement p b) = backup_pool p"
  "coverage_costs (record_effective_coverage_improvement p b) = coverage_costs p"
  "effective_generation (record_effective_coverage_improvement p b) =
     effective_generation p + (if b then 1 else 0)"
  by (simp_all add: record_effective_coverage_improvement_def same_config_def)

lemma best_cost_of_map:
  assumes "pool_wf p" "pool_wf q" "map_of (main_pool q) = map_of (main_pool p)"
  shows "best_coverage_cost q S = best_coverage_cost p S"
proof -
  have "distinct (map fst (main_pool p))" "distinct (map fst (main_pool q))"
    using assms by (auto simp: pool_wf_def keyed_def)
  note dist = this
  have "x \<in> set (main_pool q) \<longleftrightarrow> x \<in> set (main_pool p)" for x
    using assms(3) map_of_eq_Some_iff [OF dist(1)] map_of_eq_Some_iff [OF dist(2)]
    by (cases x) metis
  then have "set (main_pool q) = set (main_pool p)" by blast
  with dist have "mset (main_pool q) = mset (main_pool p)"
    by (meson distinct_map set_eq_iff_mset_eq_distinct)
  then show ?thesis
    using assms best_coverage_cost_index [of p "image_mset snd (mset (main_pool p))"]
      best_coverage_cost_index [of q "image_mset snd (mset (main_pool q))"]
    by (simp add: pool_wf_def)
qed

lemma admitted_unchanged:
  assumes "pool_wf p" "pool_wf q" "same_config p q" "main_pool q = main_pool p"
    "effective_generation q = effective_generation p"
  shows "admitted p c (no_update\<lparr>upd_backup := b\<rparr>) q"
  using assms best_cost_of_map [of p q "customer_set c"] coverage_improved_same [of p]
  by (auto simp: admitted_def no_update_def)

lemma admit_replacing_ok:
  assumes wf: "pool_wf p" and inc: "map_of (main_pool p) (column_key p c) = Some incumbent"
    and better: "\<not> incumbent_dominates incumbent c (pool_tolerance p)"
  shows "\<exists>u q. admit_replacing p c incumbent = Inr (u, q) \<and> admitted p c u q"
proof -
  obtain p1 where p1: "put_main p c = Inr p1" "pool_wf p1" "same_config p p1"
    "main_pool p1 = AList.update (column_key p c) c (main_pool p)"
    "effective_generation p1 = effective_generation p"
    using put_main_wf [OF wf] by metis
  let ?p2 = "count_replacement p1"
  have p2: "pool_wf ?p2" "same_config p ?p2" "main_pool ?p2 = main_pool p1"
    "coverage_costs ?p2 = coverage_costs p1" "effective_generation ?p2 = effective_generation p1"
    using p1 by (simp_all add: count_replacement_def same_config_def)
  have tol: "pool_tolerance ?p2 = pool_tolerance p" using p2 by (simp add: same_config_def)
  have key: "column_key p c \<in> fst ` set (main_pool p)" using inc by (metis map_of_eq_None_keys option.distinct(1))
  show ?thesis
    unfolding admit_replacing_def using p1 p2 tol key inc better
    by (auto simp: Let_def admitted_def record_improvement length_update_keys
        coverage_improved_cong [OF tol] best_coverage_cost_cong [OF record_improvement(5)])
qed

lemma admit_free_ok:
  assumes wf: "pool_wf p" and new: "map_of (main_pool p) (column_key p c) = None"
    and room: "length (main_pool p) < pool_capacity p"
  shows "\<exists>u q. admit_free p c = Inr (u, q) \<and> admitted p c u q"
proof -
  obtain p1 where p1: "put_main p c = Inr p1" "pool_wf p1" "same_config p p1"
    "main_pool p1 = AList.update (column_key p c) c (main_pool p)"
    "effective_generation p1 = effective_generation p"
    using put_main_wf [OF wf] by metis
  have tol: "pool_tolerance p1 = pool_tolerance p" using p1 by (simp add: same_config_def)
  have "length (main_pool p1) = Suc (length (main_pool p))"
    using p1(4) new by (simp add: length_update_keys map_of_eq_None_keys)
  then show ?thesis
    unfolding admit_free_def using p1 tol new room
    by (auto simp: Let_def admitted_def record_improvement dom_update no_update_def coverage_improved_cong [OF tol] best_coverage_cost_cong [OF record_improvement(5)])
qed

lemma admit_evicting_ok:
  assumes wf: "pool_wf p" and new: "map_of (main_pool p) (column_key p c) = None"
    and full: "pool_capacity p \<le> length (main_pool p)"
    and price: "duals_valid p \<Longrightarrow> reduced_cost c (pool_duals p) < - pool_tolerance p"
  shows "\<exists>u q. admit_evicting p c = Inr (u, q) \<and> admitted p c u q"
proof -
  let ?k = "column_key p c"
  obtain p1 where p1: "put_main p c = Inr p1" "pool_wf p1" "same_config p p1"
    "main_pool p1 = AList.update ?k c (main_pool p)"
    "effective_generation p1 = effective_generation p"
    using put_main_wf [OF wf] by metis
  have len: "length (main_pool p1) = Suc (length (main_pool p))"
    using p1(4) new by (simp add: length_update_keys map_of_eq_None_keys)
  then obtain w where w: "worst_main p1 = Inr w"
    using worst_main_ok [OF p1(2)] p1(3) full by (auto simp: same_config_def)
  note worst = worst_main_worst [OF w]
  obtain p2 where p2: "demote_main p1 w = Inr p2" "pool_wf p2" "same_config p1 p2"
    "main_pool p2 = AList.delete (fst w) (main_pool p1)"
    "effective_generation p2 = effective_generation p1"
    "keep_evicted_in_backup p1 \<Longrightarrow> map_of (backup_pool p2) (fst w) = Some (snd w)"
    using demote_main_ok [OF p1(2) worst(1)] by metis
  have cfg: "same_config p p2" using p1(3) p2(3) by (rule same_config_trans)
  define surv where "surv = (fst w \<noteq> ?k)"
  define p3 where "p3 = (if surv \<and> duals_valid p2
                   then p2\<lparr>pool_stats := (pool_stats p2)\<lparr>negative_reduced_cost_admissions :=
                          negative_reduced_cost_admissions (pool_stats p2) + 1\<rparr>\<rparr> else p2)"
  have p3: "pool_wf p3" "same_config p p3" "main_pool p3 = main_pool p2" "backup_pool p3 = backup_pool p2"
    "coverage_costs p3 = coverage_costs p2" "effective_generation p3 = effective_generation p2"
    using p2 cfg by (auto simp: p3_def same_config_def)
  have tol: "pool_tolerance p3 = pool_tolerance p" using p3 by (simp add: same_config_def)
  let ?old = "best_coverage_cost p (customer_set c)"
  define eff where "eff = (surv \<and> coverage_improved p3 ?old (best_coverage_cost p3 (customer_set c)))"
  define u where "u = \<lparr>upd_main = surv, upd_backup = (\<not> surv \<and> keep_evicted_in_backup p3),
                  replaced_dominated = False, effective_coverage_improvement = eff,
                  evicted_customer_sequence = Some (plan_customers (col_plan (snd w)))\<rparr>"
  define q where "q = record_effective_coverage_improvement p3 eff"
  have run: "admit_evicting p c = Inr (u, q)"
    using p1(1) w p2(1)
    by (simp add: admit_evicting_def Let_def surv_def p3_def eff_def u_def q_def)
  have q: "pool_wf q" "same_config p q" "main_pool q = main_pool p2" "backup_pool q = backup_pool p2"
    "coverage_costs q = coverage_costs p2"
    "effective_generation q = effective_generation p + (if eff then 1 else 0)"
    using p3 p2(5) p1(5) by (simp_all add: q_def record_improvement)
  have best: "best_coverage_cost p3 S = best_coverage_cost q S" for S
    using p3(5) q(5) by (simp add: best_coverage_cost_def)
  have map_q: "map_of (main_pool q) = (map_of (main_pool p))(?k \<mapsto> c, fst w := None)"
    using q(3) p2(4) p1(4) by simp
  have "length (main_pool q) = length (main_pool p)"
    using q(3) p2(2,4) p1(2) worst(1) len
    by (auto simp: length_delete_distinct pool_wf_def keyed_def)
  moreover have "map_of (main_pool q) j \<noteq> None"
    if "j \<in> protected_sequences p" "map_of (main_pool p) j \<noteq> None" for j
  proof -
    have "fst w \<noteq> j" using worst(2) that(1) p1(3) by (auto simp: same_config_def)
    then show ?thesis using that(2) by (simp add: map_q)
  qed
  moreover have "evictable p c q j old"
    if "map_of (main_pool p) j = Some old" "map_of (main_pool q) j = None" for j old
  proof -
    have j: "j = fst w" "j \<noteq> ?k" using that map_q new by (auto split: if_splits)
    have "map_of (main_pool p1) j = Some old" using j that(1) p1(4) by simp
    moreover have "map_of (main_pool p1) (fst w) = Some (snd w)"
      using worst(1) p1(2) by (simp add: pool_wf_def keyed_def)
    ultimately have old: "old = snd w" using j(1) by simp
    have "\<not> column_rank_less old x (pool_duals p)"
      if "map_of (main_pool q) i = Some x" "i \<notin> protected_sequences p" for i x
    proof -
      have "(i, x) \<in> set (main_pool p1)"
        using that(1) q(3) p2(4) by (auto dest: map_of_SomeD split: if_splits)
      then show ?thesis
        using worst(3) [of "(i, x)"] that(2) old p1(3) by (simp add: same_config_def)
    qed
    then show ?thesis
      using full price worst(2) p1(3) p2(6) q(4) j(1) old
      by (auto simp: evictable_def same_config_def)
  qed
  moreover have "new = old"
    if "map_of (main_pool p) j = Some old" "map_of (main_pool q) j = Some new" for j old new
    using that map_q new by (auto split: if_splits)
  moreover have restored: "map_of (main_pool q) = map_of (main_pool p)" if "\<not> surv"
    using that map_q new by (auto simp: surv_def)
  moreover have "map_of (main_pool q) ?k = Some c" if surv
    using that map_q by (auto simp: surv_def)
  moreover have "eff \<longleftrightarrow> coverage_improved p ?old (best_coverage_cost q (customer_set c))"
  proof (cases surv)
    case True
    then show ?thesis by (simp add: eff_def best coverage_improved_cong [OF tol])
  next
    case False
    then have "best_coverage_cost q (customer_set c) = ?old"
      using best_cost_of_map [OF wf q(1)] restored by simp
    with False show ?thesis using coverage_improved_same [OF wf] by (simp add: eff_def)
  qed
  ultimately have "admitted p c u q"
    using q unfolding admitted_def u_def by simp
  with run show ?thesis by blast
qed

lemma admit_ok:
  assumes wf: "pool_wf p0"
  shows "\<exists>u q. admit p0 c = Inr (u, q) \<and> admitted p0 c u q"
proof -
  define p where "p = p0\<lparr>pool_stats := (pool_stats p0)\<lparr>admission_attempts := admission_attempts (pool_stats p0) + 1\<rparr>\<rparr>"
  have wfp: "pool_wf p" using wf by (simp add: p_def)
  have "coverage_improved p = coverage_improved p0" "best_coverage_cost p = best_coverage_cost p0"
    by (intro ext coverage_improved_cong best_coverage_cost_cong; simp add: p_def)+
  then have eq: "admitted p = admitted p0"
    by (simp add: fun_eq_iff admitted_def evictable_def same_config_def) (simp add: p_def)
  have rej: "admitted p c no_update (count_rejection p)"
    using admitted_unchanged [OF wfp, of "count_rejection p" c False] wfp
    by (simp add: count_rejection_def same_config_def no_update_def)
  show ?thesis
  proof (cases "map_of (main_pool p) (column_key p c)")
    case (Some incumbent)
    then show ?thesis
      using admit_replacing_ok [OF wfp Some] rej
      by (auto simp: admit_def Let_def p_def [symmetric] eq)
  next
    case None
    have restored: "admitted p c (no_update\<lparr>upd_backup := True\<rparr>) (put_backup p c)"
      using put_backup_wf [OF wfp None] by (intro admitted_unchanged [OF wfp]) simp_all
    show ?thesis
      using None rej restored admit_free_ok [OF wfp None] admit_evicting_ok [OF wfp None]
      by (auto simp: admit_def Let_def p_def [symmetric] eq not_less)
  qed
qed

lemma admit_inv:
  assumes "pool_inv p" and "admit p c = Inr (u, q)"
  shows "admitted p c u q" and "pool_inv q"
proof -
  show a: "admitted p c u q" using admit_ok [of p c] assms by (auto simp: pool_inv_def)
  then show "pool_inv q" using assms(1) by (auto simp: pool_inv_def admitted_def same_config_def)
qed

end
