(* ===== verification/Pool_Properties.thy ===== *)
theory Pool_Properties
  imports Pool_Admission
begin

text \<open>
  Repricing and the protected partition, the reachable states of the pool, and the
  properties of the component.
\<close>

section \<open>Repricing\<close>

lemma rfold_total:
  assumes "P s" and "\<And>s x. P s \<Longrightarrow> \<exists>s'. f s x = Inr s' \<and> P s'"
  shows "\<exists>s'. rfold f s xs = Inr s' \<and> P s'"
  using assms(1)
proof (induction xs arbitrary: s)
  case (Cons x xs)
  then obtain s' where "f s x = Inr s'" "P s'" using assms(2) by blast
  then show ?case using Cons.IH by simp
qed simp

text \<open>
  A protected customer sequence is held when the main pool has a column for it that costs at
  most \<open>B\<close> up to one tolerance, or two when its charging has become exact.
\<close>

definition held :: "real \<Rightarrow> int list \<Rightarrow> route_pool \<Rightarrow> bool" where
  "held B k p \<longleftrightarrow> k \<in> protected_sequences p \<and>
     (\<exists>c. map_of (main_pool p) k = Some c \<and>
        cost_h c \<le> B + (if exact_charging (col_plan c) then 2 else 1) * pool_tolerance p)"

lemma admit_held:
  assumes inv: "pool_inv p" and run: "admit p c = Inr (u, q)" and h: "held B k p"
  shows "held B k q"
proof -
  have a: "admitted p c u q" using admit_inv(1) [OF inv run] .
  then have cfg: "same_config p q" by (simp add: admitted_def)
  obtain old where old: "map_of (main_pool p) k = Some old" and k: "k \<in> protected_sequences p"
    and cost: "cost_h old \<le> B + (if exact_charging (col_plan old) then 2 else 1) * pool_tolerance p"
    using h by (auto simp: held_def)
  have "map_of (main_pool q) k \<noteq> None" using a old k unfolding admitted_def by blast
  then obtain new where new: "map_of (main_pool q) k = Some new" by blast
  have tol: "0 \<le> pool_tolerance p" using inv by (simp add: pool_inv_def pool_wf_def)
  have "cost_h new \<le> B + (if exact_charging (col_plan new) then 2 else 1) * pool_tolerance p"
  proof (cases "new = old")
    case False
    then have "\<not> incumbent_dominates old new (pool_tolerance p)"
      using a old new unfolding admitted_def by metis
    then show ?thesis using cost tol by (auto simp: incumbent_dominates_def split: if_splits)
  qed (use cost in simp)
  then show ?thesis using new k cfg by (simp add: held_def same_config_def)
qed

definition pool_keeps :: "(int list \<times> real) set \<Rightarrow> route_pool \<Rightarrow> bool" where
  "pool_keeps K p \<longleftrightarrow> pool_inv p \<and> (\<forall>(k, B) \<in> K. held B k p)"

lemma pool_keeps_admit: "pool_keeps K p \<Longrightarrow> admit p c = Inr (u, q) \<Longrightarrow> pool_keeps K q"
  using admit_held admit_inv(2) unfolding pool_keeps_def by blast

lemma pool_keeps_reprice_one:
  assumes "pool_keeps K (snd s)"
  shows "\<exists>s'. reprice_one s c = Inr s' \<and> pool_keeps K (snd s')"
proof -
  obtain r p where s: "s = (r, p)" by (cases s)
  let ?p1 = "p\<lparr>backup_pool := AList.delete (column_key p c) (backup_pool p)\<rparr>"
  have k1: "pool_keeps K ?p1"
    using assms s by (auto simp: pool_keeps_def pool_inv_def pool_wf_def keyed_delete dom_delete held_def)
  then obtain u q where run: "admit ?p1 c = Inr (u, q)"
    using admit_ok [of ?p1 c] by (auto simp: pool_keeps_def pool_inv_def)
  then have "pool_keeps K q" using k1 by (rule pool_keeps_admit [rotated])
  then show ?thesis using run by (simp add: s reprice_one_def Let_def)
qed

lemma pool_keeps_counters [simp]: "pool_keeps K (p\<lparr>pool_stats := st\<rparr>) = pool_keeps K p"
  by (simp add: pool_keeps_def pool_inv_def held_def)

lemma pool_keeps_reprice:
  assumes "pool_keeps K p"
  shows "\<exists>u q. reprice_backup p = Inr (u, q) \<and> pool_keeps K q"
proof (cases "duals_valid p")
  case True
  let ?cs = "sort_by (\<lambda>l r. column_rank_less l r (pool_duals p))
                 (filter (\<lambda>col. reduced_cost col (pool_duals p) < - pool_tolerance p) (map snd (backup_pool p)))"
  let ?s = "(\<lparr>rep_candidates = length ?cs, rep_promoted = 0, rep_improvements = 0\<rparr>,
      p\<lparr>pool_stats := (pool_stats p)\<lparr>repricing_candidates :=
                        repricing_candidates (pool_stats p) + of_nat (length ?cs)\<rparr>\<rparr>)"
  have "pool_keeps K (snd ?s)" using assms by simp
  then have "\<exists>s'. rfold reprice_one ?s ?cs = Inr s' \<and> pool_keeps K (snd s')"
    by (rule rfold_total [where P = "\<lambda>s. pool_keeps K (snd s)"]) (rule pool_keeps_reprice_one)
  then obtain u q where "rfold reprice_one ?s ?cs = Inr (u, q)" "pool_keeps K q" by auto
  then show ?thesis using True by (simp add: reprice_backup_def Let_def)
qed (use assms in \<open>simp add: reprice_backup_def\<close>)

section \<open>The protected partition\<close>

lemma length_sorted_customer_set: "length (sorted_customer_set cs) = card (set cs)"
  using sorted_customer_set_correct [of cs] by (metis distinct_card strict_sorted_iff)

text \<open>A plan is a column when it is feasible, nonempty and repeats no customer.\<close>

definition column_plan :: "plan \<Rightarrow> bool" where
  "column_plan pl \<longleftrightarrow> (\<exists>ev. evaluation pl = Some ev \<and> feasible ev) \<and>
     plan_customers pl \<noteq> [] \<and> distinct (plan_customers pl)"

lemma column_of_plan_ok:
  "column_plan pl \<Longrightarrow> \<exists>c. column_of_plan pl = Inr c \<and> column_key p c = protected_key p pl \<and>
     (\<exists>ev. evaluation pl = Some ev \<and> cost_h c = raw_cost_h ev)"
  by (auto simp: column_plan_def column_of_plan_def Let_def length_sorted_customer_set distinct_card
      column_key_def protected_key_def split: pool_identity.splits)

lemma column_of_plan_error:
  "\<not> column_plan pl \<Longrightarrow> \<exists>m. column_of_plan pl = Inl (Invalid_Argument m)"
  by (auto simp: column_plan_def column_of_plan_def Let_def length_sorted_customer_set
      split: option.splits dest: card_distinct)

lemma protect_plan_ok:
  assumes wf: "pool_wf p" and col: "column_of_plan pl = Inr c"
  shows "\<exists>q x. protect_plan p pl = Inr q \<and> pool_wf q \<and> same_config p q \<and>
     map_of (main_pool q) = (map_of (main_pool p))(column_key p c \<mapsto> x) \<and>
     cost_h x \<le> cost_h c + pool_tolerance p"
proof (cases "case map_of (main_pool p) (column_key p c) of None \<Rightarrow> True
              | Some incumbent \<Rightarrow> \<not> incumbent_dominates incumbent c (pool_tolerance p)")
  case True
  obtain p1 where p1: "put_main p c = Inr p1" "pool_wf p1" "same_config p p1"
    "main_pool p1 = AList.update (column_key p c) c (main_pool p)"
    using put_main_wf [OF wf] by metis
  have tol: "0 \<le> pool_tolerance p" using wf by (simp add: pool_wf_def)
  show ?thesis
    using True p1 tol by (auto simp: protect_plan_def col Let_def record_improvement)
next
  case False
  then obtain x where x: "map_of (main_pool p) (column_key p c) = Some x"
    and dom: "incumbent_dominates x c (pool_tolerance p)"
    by (auto split: option.splits)
  have "cost_h x \<le> cost_h c + pool_tolerance p"
    using dom wf by (auto simp: incumbent_dominates_def pool_wf_def split: if_splits)
  moreover have "map_of (main_pool p) = (map_of (main_pool p))(column_key p c \<mapsto> x)"
    using x by (metis fun_upd_triv)
  ultimately show ?thesis
    using False x wf by (auto simp: protect_plan_def col Let_def)
qed

lemma protect_plans_ok:
  assumes "pool_wf p" and "\<forall>pl \<in> set pls. column_plan pl" and "distinct (map (protected_key p) pls)"
  shows "\<exists>q. protect_plans p pls = (Inr (), q) \<and> pool_wf q \<and> same_config p q \<and>
     (\<forall>k. k \<notin> protected_key p ` set pls \<longrightarrow> map_of (main_pool q) k = map_of (main_pool p) k) \<and>
     (\<forall>pl \<in> set pls. \<exists>x ev. map_of (main_pool q) (protected_key p pl) = Some x \<and>
        evaluation pl = Some ev \<and> cost_h x \<le> raw_cost_h ev + pool_tolerance p)"
  using assms
proof (induction pls arbitrary: p)
  case (Cons pl pls)
  obtain c ev where c: "column_of_plan pl = Inr c" "column_key p c = protected_key p pl"
    "evaluation pl = Some ev" "cost_h c = raw_cost_h ev"
    using column_of_plan_ok [of pl p] Cons.prems by auto
  obtain p1 x where p1: "protect_plan p pl = Inr p1" "pool_wf p1" "same_config p p1"
     "map_of (main_pool p1) = (map_of (main_pool p))(protected_key p pl \<mapsto> x)"
     "cost_h x \<le> raw_cost_h ev + pool_tolerance p"
    using protect_plan_ok [OF Cons.prems(1) c(1)] c by auto
  have key: "protected_key p1 = protected_key p"
    using p1(3) by (simp add: fun_eq_iff protected_key_def same_config_def)
  obtain q where q: "protect_plans p1 pls = (Inr (), q)" "pool_wf q" "same_config p1 q"
    "\<forall>k. k \<notin> protected_key p ` set pls \<longrightarrow> map_of (main_pool q) k = map_of (main_pool p1) k"
    "\<forall>pl \<in> set pls. \<exists>x ev. map_of (main_pool q) (protected_key p pl) = Some x \<and>
        evaluation pl = Some ev \<and> cost_h x \<le> raw_cost_h ev + pool_tolerance p1"
    using Cons.IH [of p1] p1 Cons.prems key by auto
  have "pool_tolerance p1 = pool_tolerance p" using p1(3) by (simp add: same_config_def)
  moreover have "map_of (main_pool q) (protected_key p pl) = Some x"
    using q(4) p1(4) Cons.prems(3) by auto
  ultimately show ?case
    using p1 q c same_config_trans [OF p1(3) q(3)] by auto
qed simp

lemma protect_plans_error:
  assumes "pool_wf p" and "\<exists>pl \<in> set pls. \<not> column_plan pl"
  shows "\<exists>m q. protect_plans p pls = (Inl (Invalid_Argument m), q)"
  using assms
proof (induction pls arbitrary: p)
  case (Cons pl pls)
  show ?case
  proof (cases "column_plan pl")
    case True
    then obtain c where "column_of_plan pl = Inr c" using column_of_plan_ok by blast
    then obtain p1 where "protect_plan p pl = Inr p1" "pool_wf p1"
      using protect_plan_ok Cons.prems(1) by blast
    then show ?thesis using Cons True by auto
  next
    case False
    then obtain m where "column_of_plan pl = Inl (Invalid_Argument m)"
      using column_of_plan_error by blast
    then show ?thesis by (simp add: protect_plan_def)
  qed
qed simp

lemma shrink_main_ok:
  assumes "pool_wf p"
  shows "\<exists>q. shrink_main p = (Inr (), q) \<and> pool_inv q \<and> same_config p q \<and>
     (\<forall>k \<in> protected_sequences p. map_of (main_pool q) k = map_of (main_pool p) k)"
  using assms
proof (induction p rule: shrink_main.induct)
  case (1 p)
  show ?case
  proof (cases "pool_capacity p < length (main_pool p)")
    case True
    then obtain w where w: "worst_main p = Inr w" using worst_main_ok 1(2) by blast
    obtain p1 where p1: "demote_main p w = Inr p1" "pool_wf p1" "same_config p p1"
      "main_pool p1 = AList.delete (fst w) (main_pool p)"
      using demote_main_ok [OF 1(2) worst_main_mem [OF w]] by metis
    obtain q where q: "shrink_main p1 = (Inr (), q)" "pool_inv q" "same_config p1 q"
      "\<forall>k \<in> protected_sequences p1. map_of (main_pool q) k = map_of (main_pool p1) k"
      using 1(1) [OF True w p1(1) p1(2)] by blast
    have "map_of (main_pool q) k = map_of (main_pool p) k" if "k \<in> protected_sequences p" for k
      using q(4) p1(3,4) that worst_main_worst(2) [OF w] by (auto simp: same_config_def)
    then show ?thesis
      using True w p1 q same_config_trans [OF p1(3) q(3)] by (simp add: shrink_main.simps [of p])
  next
    case False
    then show ?thesis using 1 by (simp add: shrink_main.simps [of p] pool_inv_def)
  qed
qed

text \<open>The partitions that are accepted.\<close>

definition protectable :: "route_pool \<Rightarrow> solution \<Rightarrow> bool" where
  "protectable p s \<longleftrightarrow> length (plans s) \<le> pool_capacity p \<and>
     distinct (map (protected_key p) (plans s)) \<and> (\<forall>pl \<in> set (plans s). column_plan pl)"

lemma protect_partition_ok:
  assumes inv: "pool_inv p" and s: "protectable p s"
  shows "\<exists>q. protect_partition p s = (Inr (), q) \<and>
     pool_keeps {(protected_key p pl, raw_cost_h ev) | pl ev. pl \<in> set (plans s) \<and> evaluation pl = Some ev} q"
proof -
  let ?ks = "set (map (protected_key p) (plans s))"
  let ?p0 = "p\<lparr>protected_sequences := ?ks\<rparr>"
  have "card ?ks \<le> pool_capacity p"
    using s by (metis protectable_def card_length le_trans length_map)
  then have wf0: "pool_wf ?p0" using inv by (simp add: pool_inv_def pool_wf_def)
  have key: "protected_key ?p0 = protected_key p" by (simp add: fun_eq_iff protected_key_def)
  obtain p1 where p1: "protect_plans ?p0 (plans s) = (Inr (), p1)" "pool_wf p1" "same_config ?p0 p1"
    "\<forall>pl \<in> set (plans s). \<exists>x ev. map_of (main_pool p1) (protected_key p pl) = Some x \<and>
        evaluation pl = Some ev \<and> cost_h x \<le> raw_cost_h ev + pool_tolerance p"
    using protect_plans_ok [OF wf0, of "plans s"] s key by (auto simp: protectable_def)
  obtain q where q: "shrink_main p1 = (Inr (), q)" "pool_inv q" "same_config p1 q"
     "\<forall>k \<in> protected_sequences p1. map_of (main_pool q) k = map_of (main_pool p1) k"
    using shrink_main_ok [OF p1(2)] by blast
  have cfg: "same_config ?p0 q" using same_config_trans [OF p1(3) q(3)] .
  have feas: "sol_feasible s"
    using s by (auto simp: sol_feasible_def protectable_def column_plan_def list_all_iff)
  have run: "protect_partition p s = (Inr (), q)"
    using feas s p1(1) q(1) by (simp add: protect_partition_def protectable_def)
  have tol: "0 \<le> pool_tolerance p" using inv by (simp add: pool_inv_def pool_wf_def)
  have "held (raw_cost_h ev) (protected_key p pl) q"
    if pl: "pl \<in> set (plans s)" and ev: "evaluation pl = Some ev" for pl ev
  proof -
    obtain x where x: "map_of (main_pool p1) (protected_key p pl) = Some x"
      "cost_h x \<le> raw_cost_h ev + pool_tolerance p"
      using p1(4) pl ev by fastforce
    have "protected_key p pl \<in> protected_sequences p1" "protected_key p pl \<in> protected_sequences q"
      using p1(3) cfg pl by (auto simp: same_config_def)
    then show ?thesis using x q(4) cfg tol by (auto simp: held_def same_config_def)
  qed
  then show ?thesis using run q(2) by (auto simp: pool_keeps_def)
qed

lemma protect_partition_error:
  assumes inv: "pool_inv p" and s: "\<not> protectable p s"
  shows "\<exists>m q. protect_partition p s = (Inl (Invalid_Argument m), q)"
proof (cases "sol_feasible s \<and> length (plans s) \<le> pool_capacity p \<and>
    distinct (map (protected_key p) (plans s))")
  case True
  let ?ks = "set (map (protected_key p) (plans s))"
  let ?p0 = "p\<lparr>protected_sequences := ?ks\<rparr>"
  have "card ?ks \<le> pool_capacity p" using True by (metis card_length le_trans length_map)
  then have "pool_wf ?p0" using inv by (simp add: pool_inv_def pool_wf_def)
  moreover have "\<exists>pl \<in> set (plans s). \<not> column_plan pl" using True s by (auto simp: protectable_def)
  ultimately obtain m q where "protect_plans ?p0 (plans s) = (Inl (Invalid_Argument m), q)"
    using protect_plans_error by blast
  then show ?thesis using True by (simp add: protect_partition_def)
qed (auto simp: protect_partition_def)

section \<open>Reachable pools\<close>

text \<open>What the search does between two choices of the protected partition.\<close>

inductive pool_step :: "route_pool \<Rightarrow> route_pool \<Rightarrow> bool" where
  step_admit: "admit p c = Inr (u, q) \<Longrightarrow> pool_step p q"
| step_reprice: "reprice_backup p = Inr (r, q) \<Longrightarrow> pool_step p q"
| step_duals: "pool_step p (update_duals p duals)"

inductive_cases pool_stepE: "pool_step p q"

inductive pool_reachable :: "route_pool \<Rightarrow> bool" where
  reach_make: "make_pool cap tol ident keep = Inr p \<Longrightarrow> pool_reachable p"
| reach_step: "pool_reachable p \<Longrightarrow> pool_step p q \<Longrightarrow> pool_reachable q"
| reach_protect: "pool_reachable p \<Longrightarrow> protect_partition p s = (Inr (), q) \<Longrightarrow> pool_reachable q"

lemma pool_keeps_step: "pool_step p q \<Longrightarrow> pool_keeps K p \<Longrightarrow> pool_keeps K q"
proof (erule pool_stepE)
  fix c u assume "pool_keeps K p" "admit p c = Inr (u, q)"
  then show "pool_keeps K q" by (rule pool_keeps_admit)
next
  fix r assume "pool_keeps K p" "reprice_backup p = Inr (r, q)"
  then show "pool_keeps K q" using pool_keeps_reprice by fastforce
next
  fix duals assume "pool_keeps K p" "q = update_duals p duals"
  then show "pool_keeps K q"
    by (simp add: update_duals_def pool_keeps_def pool_inv_def held_def)
qed

lemma pool_keeps_steps: "pool_step\<^sup>*\<^sup>* p q \<Longrightarrow> pool_keeps K p \<Longrightarrow> pool_keeps K q"
  by (induction rule: rtranclp_induct) (auto intro: pool_keeps_step)

lemma pool_reachable_inv: "pool_reachable p \<Longrightarrow> pool_inv p"
proof (induction rule: pool_reachable.induct)
  case (reach_make cap tol ident keep p)
  then show ?case
    by (auto simp: make_pool_def pool_inv_def pool_wf_def keyed_def index_for_def split: if_splits)
next
  case (reach_step p q)
  then show ?case using pool_keeps_step [of p q "{}"] by (simp add: pool_keeps_def)
next
  case (reach_protect p s q)
  then show ?case
    using protect_partition_ok [of p s] protect_partition_error [of p s]
    by (cases "protectable p s") (auto simp: pool_keeps_def)
qed

lemma distinct_main_coverages_card:
  assumes "pool_wf p"
  shows "distinct_main_coverages p = card ((customer_set \<circ> snd) ` set (main_pool p))"
proof -
  have ix: "index_for (coverage_costs p) (image_mset snd (mset (main_pool p)))"
    using assms by (simp add: pool_wf_def)
  then have "fst ` set (coverage_costs p) = (customer_set \<circ> snd) ` set (main_pool p)"
    unfolding dom_map_of_conv_image_fst [symmetric]
    by (auto simp: index_for_def dom_def coverage_mset_empty_iff split: if_splits)
  moreover have "distinct (map fst (coverage_costs p))" using ix by (simp add: index_for_def)
  ultimately show ?thesis
    by (metis distinct_card distinct_main_coverages_def length_map list.set_map)
qed

lemma best_coverage_cost_Min:
  assumes "pool_wf p"
  shows "best_coverage_cost p S =
    (if \<exists>(k, c) \<in> set (main_pool p). customer_set c = S
     then Some (Min {cost_h c | k c. (k, c) \<in> set (main_pool p) \<and> customer_set c = S}) else None)"
proof -
  let ?M = "image_mset snd (mset (main_pool p))"
  have ix: "index_for (coverage_costs p) ?M" using assms by (simp add: pool_wf_def)
  have "set_mset (coverage_mset ?M S) = {cost_h c | k c. (k, c) \<in> set (main_pool p) \<and> customer_set c = S}"
    by (force simp: coverage_mset_def)
  moreover have "coverage_mset ?M S = {#} \<longleftrightarrow> \<not> (\<exists>(k, c) \<in> set (main_pool p). customer_set c = S)"
    by (auto simp: coverage_mset_empty_iff)
  ultimately show ?thesis using best_coverage_cost_index [OF ix, of S] by simp
qed

section \<open>A sample pool\<close>

definition sample_plan :: "int \<Rightarrow> real \<Rightarrow> plan" where
  "sample_plan n cost = \<lparr>plan_customers = [n], gaps = [[], []], plan_route = \<lparr>visits = [n]\<rparr>,
     evaluation = Some \<lparr>feasible = True, raw_cost_h = cost, total_travel_h = cost, charging_time_h = 0,
       total_service_h = 0, route_duration_h = cost, energy_shortfall_wh = 0, duration_excess_h = 0,
       evaluated_route = \<lparr>visits = [n]\<rparr>, arrival_energy_wh = [], departure_energy_wh = [],
       charging_events = []\<rparr>, exact_charging = True\<rparr>"

definition sample_column :: "int \<Rightarrow> real \<Rightarrow> route_column" where
  "sample_column n cost = \<lparr>col_plan = sample_plan n cost, customer_set = [n], cost_h = cost, signature = [n]\<rparr>"

text \<open>A pool of one column, for customer 1, with duals under which customer 2 prices out.\<close>

definition sample_pool :: route_pool where
  "sample_pool = \<lparr>pool_capacity = 1, pool_tolerance = 1, pool_ident = Ordered_Sequence,
     keep_evicted_in_backup = True, main_pool = [([1], sample_column 1 5)],
     coverage_costs = [([1], [5])], backup_pool = [], protected_sequences = {},
     pool_duals = [(2, 10)], duals_valid = True, effective_generation = 1,
     pool_stats = zero_statistics\<lparr>admission_attempts := 1, main_insertions := 1,
       effective_coverage_improvements := 1\<rparr>\<rparr>"

lemmas sample_defs = sample_pool_def sample_column_def sample_plan_def zero_statistics_def

lemma sample_pool_reachable: "pool_reachable sample_pool"
proof -
  let ?p0 = "\<lparr>pool_capacity = 1, pool_tolerance = 1, pool_ident = Ordered_Sequence,
     keep_evicted_in_backup = True, main_pool = [], coverage_costs = [], backup_pool = [],
     protected_sequences = {}, pool_duals = [], duals_valid = False, effective_generation = 0,
     pool_stats = zero_statistics\<rparr>"
  have "make_pool 1 1 Ordered_Sequence True = Inr ?p0"
    by (simp add: make_pool_def isfinite_numeral_small)
  then have r0: "pool_reachable ?p0" by (rule reach_make)
  have "\<exists>u. admit ?p0 (sample_column 1 5) = Inr (u, sample_pool\<lparr>pool_duals := [], duals_valid := False\<rparr>)"
    by (simp add: admit_def admit_free_def put_main_def index_main_insert_def column_key_def
        best_coverage_cost_def coverage_improved_def record_effective_coverage_improvement_def
        Let_def sample_defs)
  then have "pool_step ?p0 (sample_pool\<lparr>pool_duals := [], duals_valid := False\<rparr>)"
    using step_admit by blast
  then have "pool_reachable (sample_pool\<lparr>pool_duals := [], duals_valid := False\<rparr>)"
    by (rule reach_step [OF r0])
  from reach_step [OF this step_duals [of _ "[(2, 10)]"]] show ?thesis
    by (simp add: update_duals_def sample_pool_def)
qed

definition sample_next :: route_pool where
  "sample_next = \<lparr>pool_capacity = 1, pool_tolerance = 1, pool_ident = Ordered_Sequence,
     keep_evicted_in_backup = True, main_pool = [([2], sample_column 2 3)],
     coverage_costs = [([2], [3])], backup_pool = [([1], sample_column 1 5)], protected_sequences = {},
     pool_duals = [(2, 10)], duals_valid = True, effective_generation = 2,
     pool_stats = \<lparr>admission_attempts = 2, dominated_rejections = 0, same_sequence_replacements = 0,
       same_coverage_replacements = 0, negative_reduced_cost_admissions = 1, main_insertions = 2,
       backup_insertions = 1, main_demotions = 1, repricing_candidates = 0, repricing_promotions = 0,
       effective_coverage_improvements = 2\<rparr>\<rparr>"

lemma sample_admit:
  "admit sample_pool (sample_column 2 3) =
     Inr (\<lparr>upd_main = True, upd_backup = False, replaced_dominated = False,
            effective_coverage_improvement = True, evicted_customer_sequence = Some [1]\<rparr>, sample_next)"
  by (simp add: admit_def admit_evicting_def put_main_def index_main_insert_def column_key_def
      best_coverage_cost_def coverage_improved_def record_effective_coverage_improvement_def
      worst_main_def column_rank_less_def reduced_cost_def demote_main_def index_main_erase_def
      put_backup_def Let_def sample_defs sample_next_def)

section \<open>Properties\<close>

text \<open>
  C23: in every reachable state of the pool the main pool fits its capacity, both maps are
  keyed by the identities of their columns, no identity is in both, and the coverage index
  answers with the cheapest main cost of a customer set and counts the customer sets.
\<close>

theorem pool_reachable_invariant:
  assumes "pool_reachable p"
  shows "length (main_pool p) \<le> pool_capacity p \<and>
    distinct (map fst (main_pool p @ backup_pool p)) \<and>
    (\<forall>k c. map_of (main_pool p) k = Some c \<or> map_of (backup_pool p) k = Some c \<longrightarrow> k = column_key p c) \<and>
    best_coverage_cost p S =
      (if \<exists>(k, c) \<in> set (main_pool p). customer_set c = S
       then Some (Min {cost_h c | k c. (k, c) \<in> set (main_pool p) \<and> customer_set c = S}) else None) \<and>
    distinct_main_coverages p = card ((customer_set \<circ> snd) ` set (main_pool p))"
proof -
  have inv: "pool_inv p" using assms by (rule pool_reachable_inv)
  then have wf: "pool_wf p" by (simp add: pool_inv_def)
  have "distinct (map fst (main_pool p @ backup_pool p))"
    using wf by (auto simp: pool_wf_def keyed_def)
  moreover have "k = column_key p c"
    if "map_of (main_pool p) k = Some c \<or> map_of (backup_pool p) k = Some c" for k c
    using that wf keyed_lookup by (auto simp: pool_wf_def)
  ultimately show ?thesis
    using inv best_coverage_cost_Min [OF wf, of S] distinct_main_coverages_card [OF wf]
    by (simp add: pool_inv_def)
qed

theorem pool_reachable_invariant_witness:
  "length (main_pool sample_next) \<le> 1 \<and> best_coverage_cost sample_next [2] = Some 3 \<and>
   distinct_main_coverages sample_next = 1"
proof -
  have "pool_reachable sample_next"
    using sample_pool_reachable step_admit [OF sample_admit] by (rule reach_step)
  from pool_reachable_invariant [OF this, of "[2]"] show ?thesis
    by (simp add: sample_next_def sample_column_def distinct_main_coverages_def best_coverage_cost_def)
qed

text \<open>
  Admission never throws on a reachable pool, and its report is true: \<open>main\<close> says that
  the column is now stored under its identity and otherwise the main pool is unchanged; the
  effective improvement says that the cheapest cost of its customer set was created or fell
  by more than the tolerance, and the generation counts exactly these.
\<close>

theorem pool_admit_report:
  assumes "pool_reachable p"
  shows "\<exists>u q. admit p c = Inr (u, q) \<and>
    (if upd_main u then map_of (main_pool q) (column_key p c) = Some c
     else map_of (main_pool q) = map_of (main_pool p)) \<and>
    (effective_coverage_improvement u \<longleftrightarrow>
       coverage_improved p (best_coverage_cost p (customer_set c)) (best_coverage_cost q (customer_set c))) \<and>
    effective_generation q = effective_generation p + (if effective_coverage_improvement u then 1 else 0)"
  using admit_ok [of p c] pool_reachable_inv [OF assms] by (fastforce simp: pool_inv_def admitted_def)

theorem pool_admit_report_witness:
  "\<exists>u q. admit sample_pool (sample_column 2 3) = Inr (u, q) \<and>
     effective_generation q = 1 + (if effective_coverage_improvement u then 1 else 0)"
  using pool_admit_report [OF sample_pool_reachable, of "sample_column 2 3"]
  by (auto simp: sample_pool_def)

text \<open>
  C40: a column that leaves the main pool at an admission was not protected, the pool was full,
  the new column has negative reduced cost when duals are known, no unprotected column that
  stays ranks after the one that left, and that one is in the backup when evicted columns are
  kept.
\<close>

theorem pool_admit_evicts_worst:
  assumes "pool_reachable p" and "admit p c = Inr (u, q)"
    and "map_of (main_pool p) j = Some old" and "map_of (main_pool q) j = None"
  shows "j \<notin> protected_sequences p \<and> length (main_pool p) = pool_capacity p \<and>
     (duals_valid p \<longrightarrow> reduced_cost c (pool_duals p) < - pool_tolerance p) \<and>
     (keep_evicted_in_backup p \<longrightarrow> map_of (backup_pool q) j = Some old) \<and>
     (\<forall>i x. map_of (main_pool q) i = Some x \<longrightarrow> i \<notin> protected_sequences p \<longrightarrow>
        \<not> column_rank_less old x (pool_duals p))"
proof -
  have inv: "pool_inv p" using assms(1) by (rule pool_reachable_inv)
  then have "admitted p c u q" using assms(2) by (rule admit_inv)
  then have "evictable p c q j old" using assms(3,4) unfolding admitted_def by blast
  then show ?thesis using inv by (simp add: evictable_def pool_inv_def)
qed

theorem pool_admit_evicts_worst_witness:
  "map_of (backup_pool sample_next) [1] = Some (sample_column 1 5) \<and>
   reduced_cost (sample_column 2 3) [(2, 10)] < - 1"
proof -
  have "map_of (main_pool sample_pool) [1] = Some (sample_column 1 5)"
    "map_of (main_pool sample_next) [1] = None"
    by (simp_all add: sample_pool_def sample_next_def)
  from pool_admit_evicts_worst [OF sample_pool_reachable sample_admit this] show ?thesis
    by (simp add: sample_pool_def)
qed

text \<open>
  C4: after a partition has been protected, every later admission, repricing and change of
  duals keeps a column for each of its routes in the main pool, at a cost that exceeds the
  cost of the route by at most two tolerances.
\<close>

theorem pool_keeps_protected_partition:
  assumes "pool_reachable p" and "protect_partition p s = (Inr (), q)" and "pool_step\<^sup>*\<^sup>* q r"
    and "pl \<in> set (plans s)"
  shows "\<exists>c ev. map_of (main_pool r) (protected_key p pl) = Some c \<and> evaluation pl = Some ev \<and>
     cost_h c \<le> raw_cost_h ev + 2 * pool_tolerance r"
proof -
  have inv: "pool_inv p" using assms(1) by (rule pool_reachable_inv)
  have ok: "protectable p s" using protect_partition_error [OF inv] assms(2) by force
  then obtain ev where ev: "evaluation pl = Some ev"
    using assms(4) by (auto simp: protectable_def column_plan_def)
  have "pool_keeps {(protected_key p pl, raw_cost_h ev)} q"
    using protect_partition_ok [OF inv ok] assms(2,4) ev by (auto simp: pool_keeps_def)
  then have k: "pool_keeps {(protected_key p pl, raw_cost_h ev)} r"
    by (rule pool_keeps_steps [OF assms(3)])
  then have "0 \<le> pool_tolerance r" by (simp add: pool_keeps_def pool_inv_def pool_wf_def)
  with k ev show ?thesis by (auto simp: pool_keeps_def held_def split: if_splits)
qed

theorem pool_keeps_protected_partition_witness:
  "\<exists>q r c. protect_partition sample_pool \<lparr>plans = [sample_plan 1 5]\<rparr> = (Inr (), q) \<and>
     admit q (sample_column 2 3) = r \<and> (\<exists>u p. r = Inr (u, p) \<and>
     map_of (main_pool p) [1] = Some c \<and> cost_h c \<le> 5 + 2 * pool_tolerance p)"
proof -
  let ?s = "\<lparr>plans = [sample_plan 1 5]\<rparr>"
  have inv: "pool_inv sample_pool" using sample_pool_reachable by (rule pool_reachable_inv)
  have "protectable sample_pool ?s"
    by (simp add: protectable_def column_plan_def sample_plan_def sample_pool_def)
  then obtain q where q: "protect_partition sample_pool ?s = (Inr (), q)" "pool_inv q"
    using protect_partition_ok [OF inv, of ?s] by (auto simp: pool_keeps_def)
  then obtain u r where r: "admit q (sample_column 2 3) = Inr (u, r)"
    using admit_ok by (fastforce simp: pool_inv_def)
  then have "pool_step\<^sup>*\<^sup>* q r" by (intro r_into_rtranclp step_admit)
  from pool_keeps_protected_partition [OF sample_pool_reachable q(1) this, of "sample_plan 1 5"]
  show ?thesis using q r by (auto simp: sample_plan_def sample_pool_def protected_key_def)
qed

text \<open>
  On a reachable pool admission and repricing always return, and \<open>protect_partition\<close>
  throws exactly when a plan is no column (infeasible, empty or with a repeated customer),
  two plans have the same identity, or they do not fit; all it throws is an invalid argument,
  never one of the logic errors of the index or of the eviction.
\<close>

theorem pool_errors:
  assumes "pool_reachable p"
  shows "(\<exists>u q. admit p c = Inr (u, q)) \<and> (\<exists>r q. reprice_backup p = Inr (r, q)) \<and>
    (fst (protect_partition p s) = Inr () \<longleftrightarrow>
       length (plans s) \<le> pool_capacity p \<and> distinct (map (protected_key p) (plans s)) \<and>
       (\<forall>pl \<in> set (plans s). column_plan pl)) \<and>
    (\<forall>e. fst (protect_partition p s) = Inl e \<longrightarrow> (\<exists>m. e = Invalid_Argument m))"
proof -
  have inv: "pool_inv p" using assms by (rule pool_reachable_inv)
  then have "\<exists>u q. admit p c = Inr (u, q)" using admit_ok [of p c] by (auto simp: pool_inv_def)
  moreover have "\<exists>r q. reprice_backup p = Inr (r, q)"
    using pool_keeps_reprice [of "{}" p] inv by (auto simp: pool_keeps_def)
  ultimately show ?thesis
    using protect_partition_ok [OF inv, of s] protect_partition_error [OF inv, of s]
    by (cases "protectable p s") (auto simp: protectable_def)
qed

theorem pool_errors_witness:
  "fst (protect_partition sample_pool \<lparr>plans = [sample_plan 1 5]\<rparr>) = Inr () \<and>
   fst (protect_partition sample_pool \<lparr>plans = [sample_plan 1 5, sample_plan 1 5]\<rparr>) \<noteq> Inr ()"
  using pool_errors [OF sample_pool_reachable, where s = "\<lparr>plans = [sample_plan 1 5]\<rparr>"]
    pool_errors [OF sample_pool_reachable, where s = "\<lparr>plans = [sample_plan 1 5, sample_plan 1 5]\<rparr>"]
  by (simp add: sample_pool_def column_plan_def) (simp add: sample_plan_def)

end
