(* ===== verification/Sp_Certificate.thy ===== *)
theory Sp_Certificate
  imports Prelude
begin

text \<open>
  The dual certificate of a warm start of the set-partitioning model
  (include/ils_sp/detail/sp_dual_certificate.hpp).  Here the rounding of the arithmetic is
  the point, so that it is explicit: \<open>fp_round\<close> rounds an exact result to a double,
  \<open>fp_down\<close> and \<open>fp_up\<close> are \<open>std::nextafter\<close> towards the infinities, and \<open>fp_supported\<close> is
  the answer of the test of the control words of the processor.  A loop that leaves the
  function with the empty certificate returns \<open>None\<close>; the flag \<open>finite\<close> of the code is passed
  through the roundings.
\<close>

section \<open>Directed rounding\<close>

record fp_env =
  fp_round :: "real \<Rightarrow> real"
  fp_down :: "real \<Rightarrow> real"
  fp_up :: "real \<Rightarrow> real"
  fp_supported :: bool

definition round_down :: "fp_env \<Rightarrow> bool \<Rightarrow> real \<Rightarrow> real \<times> bool" where
  "round_down fp fin x =
     (let rounded = fp_round fp x
      in if \<not> isfinite rounded then (0, False)
         else (fp_down fp rounded, fin \<and> isfinite (fp_down fp rounded)))"

definition round_up :: "fp_env \<Rightarrow> bool \<Rightarrow> real \<Rightarrow> real \<times> bool" where
  "round_up fp fin x =
     (let rounded = fp_round fp x
      in if \<not> isfinite rounded then (0, False)
         else (fp_up fp rounded, fin \<and> isfinite (fp_up fp rounded)))"

section \<open>The certificate\<close>

record sp_dual_certificate =
  cert_valid :: bool
  certified :: bool
  relative_gap_certified :: bool
  upper_h :: real
  lower_h :: real
  gap_upper_h :: real
  relative_gap_upper :: real
  acceptance_gap_h :: real
  fixing_valid :: bool
  fixing_columns_considered :: nat
  fixing_threshold_h :: real
  fixed_zero_columns :: "nat list"

definition no_certificate :: sp_dual_certificate where
  "no_certificate = \<lparr>cert_valid = False, certified = False, relative_gap_certified = False,
     upper_h = 0, lower_h = 0, gap_upper_h = 0, relative_gap_upper = 0, acceptance_gap_h = 0,
     fixing_valid = False, fixing_columns_considered = 0, fixing_threshold_h = 0,
     fixed_zero_columns = []\<rparr>"

fun mark_start :: "nat list \<Rightarrow> bool list \<Rightarrow> bool list option" where
  "mark_start [] selected = Some selected"
| "mark_start (i # is) selected =
     (if i \<ge> length selected \<or> selected ! i then None else mark_start is (selected[i := True]))"

fun sum_upper :: "fp_env \<Rightarrow> (real \<times> bool) list \<Rightarrow> real \<times> bool \<Rightarrow> (real \<times> bool) option" where
  "sum_upper fp [] (upper, fin) = Some (upper, fin)"
| "sum_upper fp ((c, s) # cs) (upper, fin) =
     (if \<not> isfinite c then None
      else sum_upper fp cs (if s then round_up fp fin (upper + c) else (upper, fin)))"

fun cover_row ::
  "fp_env \<Rightarrow> bool list \<Rightarrow> nat \<Rightarrow> real \<Rightarrow> nat list \<Rightarrow> nat list \<times> nat \<times> real list \<times> bool \<Rightarrow>
     (nat list \<times> nat \<times> real list \<times> bool) option" where
  "cover_row fp selected i dual [] st = Some st"
| "cover_row fp selected i dual (j # js) (seen, covered, ay, fin) =
     (if j \<ge> length selected \<or> seen ! j = i then None
      else case round_up fp fin (ay ! j + dual) of (a, fin1) \<Rightarrow>
        cover_row fp selected i dual js
          (seen[j := i], covered + (if selected ! j then 1 else 0), ay[j := a], fin1))"

fun cover_rows ::
  "fp_env \<Rightarrow> bool list \<Rightarrow> nat \<Rightarrow> (nat list \<times> real) list \<Rightarrow> real \<times> nat list \<times> real list \<times> bool \<Rightarrow>
     (real \<times> nat list \<times> real list \<times> bool) option" where
  "cover_rows fp selected i [] st = Some st"
| "cover_rows fp selected i ((row, dual) # rows) (base, seen, ay, fin) =
     (if \<not> isfinite dual \<or> row = [] then None
      else case round_down fp fin (base + dual) of (b, fin1) \<Rightarrow>
        (case cover_row fp selected i dual row (seen, 0, ay, fin1) of
           None \<Rightarrow> None
         | Some (seen1, covered, ay1, fin2) \<Rightarrow>
             if covered \<noteq> 1 then None
             else cover_rows fp selected (i + 1) rows (b, seen1, ay1, fin2)))"

fun residual_loop ::
  "fp_env \<Rightarrow> bool \<Rightarrow> (real \<times> real) list \<Rightarrow> real \<times> real list \<times> bool \<Rightarrow> real \<times> real list \<times> bool" where
  "residual_loop fp allow [] st = st"
| "residual_loop fp allow ((c, a) # cas) (lower, residuals, fin) =
     (case round_down fp fin (c - a) of (r, fin1) \<Rightarrow>
       (case round_down fp fin1 (lower + min 0 r) of (l, fin2) \<Rightarrow>
         residual_loop fp allow cas (l, if allow then residuals @ [r] else residuals, fin2)))"

text \<open>The scan for columns at zero, from column \<open>j\<close> on; \<open>None\<close> gives up the certificate.\<close>

fun fixing_loop ::
  "fp_env \<Rightarrow> real \<Rightarrow> real \<Rightarrow> nat \<Rightarrow> (real \<times> bool) list \<Rightarrow> nat list \<Rightarrow> nat list option" where
  "fixing_loop fp lower threshold j [] fixed = Some fixed"
| "fixing_loop fp lower threshold j ((r, s) # rs) fixed =
     (case round_down fp True (lower + max 0 r) of (conditional_lower, fin) \<Rightarrow>
       if \<not> fin then None
       else if conditional_lower > threshold
       then (if s then None else fixing_loop fp lower threshold (j + 1) rs (fixed @ [j]))
       else fixing_loop fp lower threshold (j + 1) rs fixed)"

definition fix_columns ::
  "fp_env \<Rightarrow> nat \<Rightarrow> bool list \<Rightarrow> real list \<Rightarrow> sp_dual_certificate \<Rightarrow> sp_dual_certificate" where
  "fix_columns fp n selected residuals cert =
     (case round_up fp True (upper_h cert + kCostTolerance) of (threshold, fin) \<Rightarrow>
       if \<not> fin then no_certificate
       else case fixing_loop fp (lower_h cert) threshold 0 (zip residuals selected) [] of
         None \<Rightarrow> no_certificate
       | Some fixed \<Rightarrow> cert\<lparr>fixing_valid := True, fixing_columns_considered := n,
           fixing_threshold_h := threshold, fixed_zero_columns := fixed\<rparr>)"

text \<open>From the two bounds to the certificate.\<close>

definition relative_bound :: "fp_env \<Rightarrow> bool \<Rightarrow> bool \<Rightarrow> real \<Rightarrow> real \<Rightarrow> real \<times> bool" where
  "relative_bound fp ratio fin gap upper = (if ratio then round_up fp fin (gap / upper) else (0, fin))"

definition bounds_certificate :: "real \<Rightarrow> real \<Rightarrow> real \<Rightarrow> real \<Rightarrow> bool \<Rightarrow> real \<Rightarrow> sp_dual_certificate" where
  "bounds_certificate upper lower gap relative relative_ok abs_gap =
     (let acceptance = min abs_gap kCostTolerance
      in no_certificate\<lparr>cert_valid := True, upper_h := upper, lower_h := lower,
           gap_upper_h := gap, relative_gap_upper := relative, relative_gap_certified := relative_ok,
           acceptance_gap_h := acceptance, certified := (gap \<le> acceptance)\<rparr>)"

definition conclude ::
  "fp_env \<Rightarrow> real list \<Rightarrow> bool list \<Rightarrow> real list \<Rightarrow> real \<Rightarrow> real \<Rightarrow> bool \<Rightarrow> real \<Rightarrow> real \<Rightarrow> bool \<Rightarrow> sp_dual_certificate" where
  "conclude fp costs selected residuals abs_gap rel_gap allow upper lower fin0 =
     (if \<not> fin0 \<or> lower > upper then no_certificate
      else case round_up fp fin0 (upper - lower) of (gap, fin1) \<Rightarrow>
        if \<not> fin1 \<or> gap < 0 then no_certificate
        else let ratio = (lower \<ge> 0 \<and> upper > 0)
             in case relative_bound fp ratio fin1 gap upper of (relative, fin2) \<Rightarrow>
               if \<not> fin2 then no_certificate
               else let cert = bounds_certificate upper lower gap relative (ratio \<and> relative \<le> rel_gap) abs_gap
                    in if allow \<and> \<not> certified cert
                       then fix_columns fp (length costs) selected residuals cert else cert)"

definition certify_sp_start ::
  "fp_env \<Rightarrow> real list \<Rightarrow> nat list list \<Rightarrow> nat list \<Rightarrow> real list \<Rightarrow> real \<Rightarrow> real \<Rightarrow> bool \<Rightarrow> sp_dual_certificate" where
  "certify_sp_start fp costs incidence start duals abs_gap rel_gap allow =
     (if \<not> fp_supported fp \<or> costs = [] \<or> incidence = [] \<or> start = [] \<or>
         length duals \<noteq> length incidence \<or> \<not> isfinite abs_gap \<or> abs_gap < 0 \<or>
         \<not> isfinite rel_gap \<or> rel_gap < 0
      then no_certificate
      else case mark_start start (replicate (length costs) False) of
        None \<Rightarrow> no_certificate
      | Some selected \<Rightarrow> (case sum_upper fp (zip costs selected) (0, True) of
          None \<Rightarrow> no_certificate
        | Some (upper, fin1) \<Rightarrow>
            (case cover_rows fp selected 0 (zip incidence duals)
                    (0, replicate (length costs) (length incidence), replicate (length costs) 0, fin1) of
               None \<Rightarrow> no_certificate
             | Some (base, seen, ay, fin2) \<Rightarrow>
                 (case residual_loop fp allow (zip costs ay) (base, [], fin2) of
                    (lower, residuals, fin3) \<Rightarrow>
                      conclude fp costs selected residuals abs_gap rel_gap allow upper lower fin3))))"

end
