(* ===== verification/Certificate_Bounds.thy ===== *)
theory Certificate_Bounds
  imports Sp_Certificate
begin

text \<open>
  What the loops of the certificate bound, for every arithmetic whose \<open>nextafter\<close> steps past
  the rounding error, and weak duality of the set-partitioning model.
\<close>

section \<open>The contract of the rounding\<close>

text \<open>The value of column \<open>j\<close> in the dual constraint: the duals of the rows that contain it.\<close>

definition dual_value :: "(nat list \<times> real) list \<Rightarrow> nat \<Rightarrow> real" where
  "dual_value rows j = (\<Sum>(row, d) \<leftarrow> rows. if j \<in> set row then d else 0)"

locale directed_rounding =
  fixes fp :: fp_env
  assumes down_le: "isfinite (fp_round fp x) \<Longrightarrow> fp_down fp (fp_round fp x) \<le> x"
    and up_ge: "isfinite (fp_round fp x) \<Longrightarrow> x \<le> fp_up fp (fp_round fp x)"
begin

lemma round_down_le: "round_down fp fin x = (y, True) \<Longrightarrow> fin \<and> y \<le> x"
  using down_le [of x] by (auto simp: round_down_def Let_def split: if_splits)

lemma round_up_ge: "round_up fp fin x = (y, True) \<Longrightarrow> fin \<and> x \<le> y"
  using up_ge [of x] by (auto simp: round_up_def Let_def split: if_splits)

lemma sum_upper_ge:
  "sum_upper fp cs (u, fin) = Some (v, True) \<Longrightarrow>
     fin \<and> u + (\<Sum>(c, s) \<leftarrow> cs. if s then c else 0) \<le> v"
proof (induction cs arbitrary: u fin)
  case (Cons cs' cs)
  obtain c s where cs': "cs' = (c, s)" by (cases cs')
  obtain u1 fin1 where st: "(if s then round_up fp fin (u + c) else (u, fin)) = (u1, fin1)"
    by (metis surj_pair)
  then have IH: "fin1 \<and> u1 + (\<Sum>(c, s) \<leftarrow> cs. if s then c else 0) \<le> v"
    using Cons cs' by (auto split: if_splits)
  have "fin \<and> u + (if s then c else 0) \<le> u1"
    using st IH round_up_ge [of fin "u + c" u1] by (auto split: if_splits)
  then show ?case using IH cs' by auto
qed simp

lemma cover_row_length:
  "cover_row fp selected i d js (seen, covered, ay, fin) = Some (seen', covered', ay', fin') \<Longrightarrow>
     length seen' = length seen \<and> length ay' = length ay"
  by (induction js arbitrary: seen covered ay fin) (force split: if_splits prod.splits)+

lemma cover_row_bound:
  assumes "cover_row fp selected i d js (seen, covered, ay, fin) = Some (seen', covered', ay', True)"
    and "length seen = length selected" and "length ay = length selected"
  shows "fin \<and> length seen' = length selected \<and> length ay' = length selected \<and>
    (\<forall>j \<in> set js. j < length selected \<and> seen ! j \<noteq> i) \<and> distinct js \<and>
    covered' = covered + length (filter (\<lambda>j. selected ! j) js) \<and>
    (\<forall>j < length selected. ay ! j + (if j \<in> set js then d else 0) \<le> ay' ! j)"
  using assms
proof (induction js arbitrary: seen covered ay fin)
  case (Cons j js)
  obtain a fin1 where r: "round_up fp fin (ay ! j + d) = (a, fin1)" by (metis surj_pair)
  from Cons.prems have j: "j < length selected" "seen ! j \<noteq> i"
    by (auto split: if_splits)
  from Cons.prems j r have rest:
    "cover_row fp selected i d js (seen[j := i], covered + (if selected ! j then 1 else 0), ay[j := a], fin1)
      = Some (seen', covered', ay', True)"
    by simp
  note IH = Cons.IH [OF rest]
  have IH: "fin1 \<and> length seen' = length selected \<and> length ay' = length selected \<and>
    (\<forall>k \<in> set js. k < length selected \<and> seen[j := i] ! k \<noteq> i) \<and> distinct js \<and>
    covered' = covered + (if selected ! j then 1 else 0) + length (filter (\<lambda>j. selected ! j) js) \<and>
    (\<forall>k < length selected. ay[j := a] ! k + (if k \<in> set js then d else 0) \<le> ay' ! k)"
    using IH Cons.prems(2,3) by simp
  have fin: "fin" and a: "ay ! j + d \<le> a" using r IH round_up_ge [of fin] by auto
  have notin: "j \<notin> set js" using IH j Cons.prems(2) by auto
  moreover have "seen ! k \<noteq> i" if "k \<in> set js" for k
    using IH that notin by (metis nth_list_update_neq)
  moreover have "ay ! k + (if k \<in> set (j # js) then d else 0) \<le> ay' ! k" if "k < length selected" for k
  proof (cases "k = j")
    case True
    have "ay[j := a] ! j \<le> ay' ! j" using IH j(1) notin by force
    then show ?thesis using True a j(1) Cons.prems(3) by simp
  next
    case False
    then show ?thesis using IH that by force
  qed
  ultimately show ?case using IH fin j by auto
qed simp

lemma cover_rows_bound:
  assumes "cover_rows fp selected i rows (base, seen, ay, fin) = Some (base', seen', ay', True)"
    and "length seen = length selected" and "length ay = length selected"
  shows "fin \<and> length ay' = length selected \<and> base' \<le> base + (\<Sum>(row, d) \<leftarrow> rows. d) \<and>
    (\<forall>(row, d) \<in> set rows. distinct row \<and> set row \<subseteq> {..<length selected} \<and>
        length (filter (\<lambda>j. selected ! j) row) = 1) \<and>
    (\<forall>j < length selected. ay ! j + dual_value rows j \<le> ay' ! j)"
  using assms
proof (induction rows arbitrary: i base seen ay fin)
  case (Cons rd rows)
  obtain row d where rd: "rd = (row, d)" by (cases rd)
  obtain b fin1 where b: "round_down fp fin (base + d) = (b, fin1)" by (metis surj_pair)
  obtain seen1 covered ay1 fin2 where
    r: "cover_row fp selected i d row (seen, 0, ay, fin1) = Some (seen1, covered, ay1, fin2)"
    and cov: "covered = 1"
    and rest: "cover_rows fp selected (i + 1) rows (b, seen1, ay1, fin2) = Some (base', seen', ay', True)"
    using Cons.prems(1) b by (auto simp: rd split: if_splits option.splits)
  have "fin2" using Cons.IH [OF rest] cover_row_length [OF r] Cons.prems(2,3) by simp
  with r have "cover_row fp selected i d row (seen, 0, ay, fin1) = Some (seen1, covered, ay1, True)"
    by simp
  note row = cover_row_bound [OF this Cons.prems(2,3)]
  have b': "fin" "b \<le> base + d" using row b round_down_le by auto
  have IH: "length ay' = length selected" "base' \<le> b + (\<Sum>(row, d) \<leftarrow> rows. d)"
    "\<forall>(row, d) \<in> set rows. distinct row \<and> set row \<subseteq> {..<length selected} \<and>
      length (filter (\<lambda>j. selected ! j) row) = 1"
    "\<forall>j < length selected. ay1 ! j + dual_value rows j \<le> ay' ! j"
    using Cons.IH [OF rest] row by simp_all
  have "ay ! j + dual_value (rd # rows) j \<le> ay' ! j" if "j < length selected" for j
  proof -
    have "ay ! j + (if j \<in> set row then d else 0) \<le> ay1 ! j" using row that by blast
    moreover have "ay1 ! j + dual_value rows j \<le> ay' ! j" using IH(4) that by blast
    ultimately show ?thesis by (simp add: dual_value_def rd)
  qed
  then show ?case using IH row b' cov rd by auto
qed (simp add: dual_value_def)

lemma residual_loop_bound:
  assumes "residual_loop fp allow cas (lower, residuals, fin) = (lower', residuals', True)"
  shows "fin \<and> (\<exists>rs. list_all2 (\<lambda>r (c, a). r \<le> c - a) rs cas \<and>
    lower' \<le> lower + (\<Sum>r \<leftarrow> rs. min 0 r) \<and> (allow \<longrightarrow> residuals' = residuals @ rs))"
  using assms
proof (induction cas arbitrary: lower residuals fin)
  case (Cons ca cas)
  obtain c a where ca: "ca = (c, a)" by (cases ca)
  obtain r fin1 where r: "round_down fp fin (c - a) = (r, fin1)" by (metis surj_pair)
  obtain l fin2 where l: "round_down fp fin1 (lower + min 0 r) = (l, fin2)" by (metis surj_pair)
  from Cons.prems r l have
    "residual_loop fp allow cas (l, if allow then residuals @ [r] else residuals, fin2) = (lower', residuals', True)"
    by (simp add: ca)
  note IH = Cons.IH [OF this]
  then obtain rs where rs: "fin2" "list_all2 (\<lambda>r (c, a). r \<le> c - a) rs cas"
    "lower' \<le> l + (\<Sum>r \<leftarrow> rs. min 0 r)"
    "allow \<longrightarrow> residuals' = (if allow then residuals @ [r] else residuals) @ rs"
    by blast
  have "fin1" "l \<le> lower + min 0 r" using l rs(1) round_down_le by auto
  moreover from this have "fin" "r \<le> c - a" using r round_down_le by auto
  ultimately show ?case using rs ca by (intro conjI exI [of _ "r # rs"]) auto
qed simp

lemma fixing_loop_bound:
  assumes "fixing_loop fp lower threshold i rs fixed = Some fixed'" and "k \<in> set fixed'" and "k \<notin> set fixed"
  shows "i \<le> k \<and> k < i + length rs \<and> \<not> snd (rs ! (k - i)) \<and> threshold < lower + max 0 (fst (rs ! (k - i)))"
  using assms
proof (induction rs arbitrary: i fixed)
  case (Cons x rs)
  obtain r s where x: "x = (r, s)" by (cases x)
  obtain cl fin where cl: "round_down fp True (lower + max 0 r) = (cl, fin)" by (metis surj_pair)
  have fin: "fin" using Cons.prems cl x by (auto split: if_splits)
  have le: "cl \<le> lower + max 0 r" using cl fin round_down_le by auto
  show ?case
  proof (cases "cl > threshold \<and> k = i")
    case True
    then show ?thesis using Cons.prems cl x fin le by (auto split: if_splits)
  next
    case False
    define fixed1 where "fixed1 = (if cl > threshold then fixed @ [i] else fixed)"
    have "fixing_loop fp lower threshold (i + 1) rs fixed1 = Some fixed'"
      using Cons.prems(1) cl fin x by (auto simp: fixed1_def split: if_splits)
    moreover have "k \<notin> set fixed1" using Cons.prems(3) False by (auto simp: fixed1_def)
    ultimately have "i + 1 \<le> k \<and> k < i + 1 + length rs \<and> \<not> snd (rs ! (k - (i + 1))) \<and>
        threshold < lower + max 0 (fst (rs ! (k - (i + 1))))"
      using Cons.IH Cons.prems(2) by blast
    moreover from this have "(x # rs) ! (k - i) = rs ! (k - (i + 1))"
      by (metis Suc_diff_le Suc_eq_plus1 diff_Suc_Suc nth_Cons_Suc)
    ultimately show ?thesis by auto
  qed
qed simp

end

section \<open>The warm start\<close>

lemma mark_start_correct:
  assumes "mark_start is sel = Some sel'"
  shows "length sel' = length sel \<and> distinct is \<and>
    (\<forall>i \<in> set is. i < length sel \<and> \<not> sel ! i) \<and>
    (\<forall>j < length sel. sel' ! j \<longleftrightarrow> sel ! j \<or> j \<in> set is)"
  using assms
proof (induction "is" arbitrary: sel)
  case (Cons i "is")
  have i: "i < length sel" "\<not> sel ! i" and rest: "mark_start is (sel[i := True]) = Some sel'"
    using Cons.prems by (auto split: if_splits)
  note IH = Cons.IH [OF rest]
  then have "i \<notin> set is" using i by auto
  then show ?case using IH i by (auto simp: nth_list_update split: if_splits)
qed simp

lemma mark_start_start:
  assumes "mark_start start (replicate n False) = Some selected"
  shows "length selected = n" and "distinct start" and "set start \<subseteq> {..<n}"
    and "\<And>j. j < n \<Longrightarrow> selected ! j \<longleftrightarrow> j \<in> set start"
  using mark_start_correct [OF assms] by auto

lemma selected_cost:
  fixes costs :: "real list"
  assumes "length selected = length costs" and "distinct start" and "set start \<subseteq> {..<length costs}"
    and "\<And>j. j < length costs \<Longrightarrow> selected ! j \<longleftrightarrow> j \<in> set start"
  shows "(\<Sum>(c, s) \<leftarrow> zip costs selected. if s then c else 0) = (\<Sum>j \<leftarrow> start. costs ! j)"
proof -
  have "(\<Sum>(c, s) \<leftarrow> zip costs selected. if s then c else 0) =
      (\<Sum>j < length costs. if selected ! j then costs ! j else 0)"
    using assms(1)
    by (auto simp: sum_list_sum_nth case_prod_unfold lessThan_atLeast0 intro!: sum.cong)
  also have "\<dots> = (\<Sum>j < length costs. if j \<in> set start then costs ! j else 0)"
    using assms(4) by (intro sum.cong) auto
  also have "\<dots> = (\<Sum>j \<in> set start. costs ! j)"
    using assms(3) by (simp add: sum.If_cases Int_absorb1)
  finally show ?thesis using assms(2) by (simp add: sum_list_distinct_conv_sum_set)
qed

section \<open>Weak duality\<close>

text \<open>The relaxed model: fractions of columns that cover every row exactly once.\<close>

definition covers_rows :: "nat list list \<Rightarrow> (nat \<Rightarrow> real) \<Rightarrow> bool" where
  "covers_rows incidence x \<longleftrightarrow> (\<forall>j. 0 \<le> x j \<and> x j \<le> 1) \<and> (\<forall>row \<in> set incidence. (\<Sum>j \<leftarrow> row. x j) = 1)"

definition model_cost :: "real list \<Rightarrow> (nat \<Rightarrow> real) \<Rightarrow> real" where
  "model_cost costs x = (\<Sum>j < length costs. costs ! j * x j)"

lemma dual_value_sum:
  fixes x :: "nat \<Rightarrow> real"
  assumes "\<forall>(row, d) \<in> set rows. distinct row \<and> set row \<subseteq> {..<n} \<and> (\<Sum>j \<leftarrow> row. x j) = 1"
  shows "(\<Sum>j < n. dual_value rows j * x j) = (\<Sum>(row, d) \<leftarrow> rows. d)"
  using assms
proof (induction rows)
  case (Cons rd rows)
  obtain row d where rd: "rd = (row, d)" by (cases rd)
  then have row: "distinct row" "set row \<subseteq> {..<n}" "(\<Sum>j \<leftarrow> row. x j) = 1" using Cons.prems by auto
  have "(\<Sum>j < n. (if j \<in> set row then d else 0) * x j) = (\<Sum>j < n. if j \<in> set row then d * x j else 0)"
    by (intro sum.cong) auto
  also have "\<dots> = (\<Sum>j \<in> set row. d * x j)" using row(2) by (simp add: sum.If_cases Int_absorb1)
  also have "\<dots> = d" using row by (simp add: sum_list_distinct_conv_sum_set sum_distrib_left [symmetric])
  finally show ?case using Cons
    by (simp add: dual_value_def rd distrib_right sum.distrib)
qed (simp add: dual_value_def)

lemma min_zero_mult: "r \<le> q \<Longrightarrow> 0 \<le> x \<Longrightarrow> x \<le> 1 \<Longrightarrow> min 0 r \<le> q * x" for r q x :: "real"
proof (cases "0 \<le> r")
  case False
  assume a: "r \<le> q" "0 \<le> x" "x \<le> 1"
  have "r * 1 \<le> r * x" using False a by (intro mult_left_mono_neg) auto
  moreover have "r * x \<le> q * x" using a by (intro mult_right_mono)
  ultimately have "r \<le> q * x" by linarith
  then show ?thesis by simp
qed simp

lemma residual_duality:
  assumes len: "length rs = length costs" and x: "\<forall>j. 0 \<le> x j \<and> x j \<le> (1::real)"
    and rs: "\<And>j. j < length costs \<Longrightarrow> rs ! j \<le> costs ! j - ay j"
    and sum: "(\<Sum>j < length costs. ay j * x j) = tot"
  shows "tot + (\<Sum>r \<leftarrow> rs. min 0 r) \<le> model_cost costs x"
    and "k < length costs \<Longrightarrow> x k = 1 \<Longrightarrow>
      tot + (\<Sum>r \<leftarrow> rs. min 0 r) + max 0 (rs ! k) \<le> model_cost costs x"
proof -
  let ?n = "length costs"
  have cost: "model_cost costs x = tot + (\<Sum>j < ?n. (costs ! j - ay j) * x j)"
    by (simp add: model_cost_def left_diff_distrib sum_subtractf sum)
  have mins: "(\<Sum>r \<leftarrow> rs. min 0 r) = (\<Sum>j < ?n. min 0 (rs ! j))"
    by (simp add: sum_list_sum_nth len lessThan_atLeast0)
  have le: "min 0 (rs ! j) \<le> (costs ! j - ay j) * x j" if "j < ?n" for j
    using min_zero_mult [OF rs [OF that]] x by blast
  show "tot + (\<Sum>r \<leftarrow> rs. min 0 r) \<le> model_cost costs x"
    unfolding cost mins using le by (intro add_left_mono sum_mono) auto
  assume k: "k < ?n" "x k = 1"
  have "(\<Sum>j < ?n. min 0 (rs ! j)) + max 0 (rs ! k) = (\<Sum>j \<in> {..<?n} - {k}. min 0 (rs ! j)) + rs ! k"
    using k(1) by (subst sum.remove [of _ k]) auto
  also have "\<dots> \<le> (\<Sum>j \<in> {..<?n} - {k}. (costs ! j - ay j) * x j) + (costs ! k - ay k) * x k"
    using le rs k by (intro add_mono sum_mono) auto
  also have "\<dots> = (\<Sum>j < ?n. (costs ! j - ay j) * x j)"
    using k(1) by (subst (2) sum.remove [of _ k]) auto
  finally show "tot + (\<Sum>r \<leftarrow> rs. min 0 r) + max 0 (rs ! k) \<le> model_cost costs x"
    unfolding cost mins by simp
qed

end
