(* ===== verification/Certificate_Properties.thy ===== *)
theory Certificate_Properties
  imports Certificate_Bounds
begin

text \<open>
  Soundness of the dual certificate of a warm start for every arithmetic with directed
  rounding, and binary64 as such an arithmetic.
\<close>

section \<open>From the loops to the bounds\<close>

text \<open>The warm start as a point of the relaxed model.\<close>

definition start_point :: "nat list \<Rightarrow> nat \<Rightarrow> real" where
  "start_point start j = (if j \<in> set start then 1 else 0)"

definition start_cost :: "real list \<Rightarrow> nat list \<Rightarrow> real" where
  "start_cost costs start = (\<Sum>j \<leftarrow> start. costs ! j)"

lemma no_certificate_simps [simp]:
  "cert_valid no_certificate = False" "fixing_valid no_certificate = False"
  "fixed_zero_columns no_certificate = []" "certified no_certificate = False"
  "relative_gap_certified no_certificate = False"
  by (simp_all add: no_certificate_def)

lemma sum_zip_snd: "length rows = length ds \<Longrightarrow> (\<Sum>(row, d) \<leftarrow> zip rows ds. d) = sum_list ds"
  by (induction rows ds rule: list_induct2) auto

context directed_rounding begin

lemma fix_columns_valid:
  assumes "cert_valid (fix_columns fp n selected residuals cert)"
  shows "\<exists>threshold fixed. upper_h cert + kCostTolerance \<le> threshold \<and>
    fixing_loop fp (lower_h cert) threshold 0 (zip residuals selected) [] = Some fixed \<and>
    fix_columns fp n selected residuals cert = cert\<lparr>fixing_valid := True, fixing_columns_considered := n,
           fixing_threshold_h := threshold, fixed_zero_columns := fixed\<rparr>"
proof -
  obtain t fin where t: "round_up fp True (upper_h cert + kCostTolerance) = (t, fin)" by (metis surj_pair)
  with assms have fin: fin by (auto simp: fix_columns_def split: if_splits)
  then obtain fixed where "fixing_loop fp (lower_h cert) t 0 (zip residuals selected) [] = Some fixed"
    using assms t by (auto simp: fix_columns_def split: option.splits)
  moreover have "upper_h cert + kCostTolerance \<le> t" using t fin round_up_ge by auto
  ultimately show ?thesis using t fin by (auto simp: fix_columns_def)
qed

lemma conclude_valid:
  fixes result :: sp_dual_certificate
  assumes result: "result = conclude fp costs selected residuals abs_gap rel_gap allow upper lower fin"
    and valid: "cert_valid result"
  shows "fin \<and> lower_h result = lower \<and> upper_h result = upper \<and> lower \<le> upper \<and>
    upper - lower \<le> gap_upper_h result \<and>
    (certified result \<longrightarrow> gap_upper_h result \<le> abs_gap) \<and>
    (relative_gap_certified result \<longrightarrow> 0 \<le> lower \<and> 0 < upper \<and> upper - lower \<le> rel_gap * upper) \<and>
    (\<forall>k \<in> set (fixed_zero_columns result). allow \<and> (\<exists>threshold fixed. upper + kCostTolerance \<le> threshold \<and>
       fixing_loop fp lower threshold 0 (zip residuals selected) [] = Some fixed \<and> k \<in> set fixed))"
proof -
  have fin: "fin" "lower \<le> upper"
    using valid[unfolded result] by (auto simp: conclude_def split: if_splits)
  obtain gap fin1 where gap: "round_up fp fin (upper - lower) = (gap, fin1)" by (metis surj_pair)
  have fin1: "fin1" "0 \<le> gap"
    using valid[unfolded result] fin gap by (auto simp: conclude_def split: if_splits)
  have gap_le: "upper - lower \<le> gap" using gap fin1 round_up_ge by auto
  define ratio where "ratio \<longleftrightarrow> lower \<ge> 0 \<and> upper > 0"
  obtain rel fin2 where rel: "relative_bound fp ratio fin1 gap upper = (rel, fin2)"
    by (metis surj_pair)
  have fin2: fin2
    using valid[unfolded result] fin gap fin1 rel
    by (auto simp: conclude_def Let_def ratio_def [symmetric] split: if_splits)
  define cert where "cert = bounds_certificate upper lower gap rel (ratio \<and> rel \<le> rel_gap) abs_gap"
  have eq: "result = (if allow \<and> \<not> certified cert then fix_columns fp (length costs) selected residuals cert else cert)"
    using fin gap fin1 rel fin2
    by (simp add: result conclude_def Let_def ratio_def [symmetric] cert_def)
  have relative: "upper - lower \<le> rel_gap * upper" if "ratio" "rel \<le> rel_gap"
  proof -
    have "gap / upper \<le> rel" using rel fin2 that(1) round_up_ge by (auto simp: relative_bound_def)
    then have "gap \<le> rel_gap * upper" using that by (simp add: ratio_def field_simps) (smt (verit) mult_right_mono)
    then show ?thesis using gap_le by simp
  qed
  show ?thesis
  proof (cases "allow \<and> \<not> certified cert")
    case True
    then have c: "result = fix_columns fp (length costs) selected residuals cert" using eq by simp
    from valid c obtain t fixed where t: "upper_h cert + kCostTolerance \<le> t"
      "fixing_loop fp (lower_h cert) t 0 (zip residuals selected) [] = Some fixed"
      "result = cert\<lparr>fixing_valid := True, fixing_columns_considered := length costs,
           fixing_threshold_h := t, fixed_zero_columns := fixed\<rparr>"
      using fix_columns_valid by metis
    then show ?thesis using True fin gap_le relative by (auto simp: cert_def bounds_certificate_def Let_def ratio_def)
  next
    case False
    then have c: "result = cert" using eq by auto
    show ?thesis unfolding c using fin gap_le relative by (auto simp: cert_def bounds_certificate_def Let_def ratio_def)
  qed
qed

lemma certify_valid:
  fixes result :: sp_dual_certificate
  assumes result: "result = certify_sp_start fp costs incidence start duals abs_gap rel_gap allow"
    and valid: "cert_valid result"
  obtains selected upper lower residuals rs where
    "length selected = length costs" "distinct start" "set start \<subseteq> {..<length costs}"
    "\<And>j. j < length costs \<Longrightarrow> selected ! j \<longleftrightarrow> j \<in> set start"
    "start_cost costs start \<le> upper" "length duals = length incidence"
    "\<forall>row \<in> set incidence. distinct row \<and> set row \<subseteq> {..<length costs} \<and>
        length (filter (\<lambda>j. selected ! j) row) = 1"
    "length rs = length costs"
    "\<And>j. j < length costs \<Longrightarrow> rs ! j \<le> costs ! j - dual_value (zip incidence duals) j"
    "lower \<le> sum_list duals + (\<Sum>r \<leftarrow> rs. min 0 r)" "allow \<longrightarrow> residuals = rs"
    "result = conclude fp costs selected residuals abs_gap rel_gap allow upper lower True"
proof -
  let ?n = "length costs"
  obtain selected where sel: "mark_start start (replicate ?n False) = Some selected"
    and lens: "length duals = length incidence"
    using valid[unfolded result] by (auto simp: certify_sp_start_def split: if_splits option.splits)
  obtain upper fin1 where up: "sum_upper fp (zip costs selected) (0, True) = Some (upper, fin1)"
    using valid[unfolded result] sel by (auto simp: certify_sp_start_def split: if_splits option.splits)
  obtain base seen ay fin2 where
    rows: "cover_rows fp selected 0 (zip incidence duals) (0, replicate ?n (length incidence), replicate ?n 0, fin1)
      = Some (base, seen, ay, fin2)"
    using valid[unfolded result] sel up by (auto simp: certify_sp_start_def split: if_splits option.splits)
  obtain lower residuals fin3 where
    res: "residual_loop fp allow (zip costs ay) (base, [], fin2) = (lower, residuals, fin3)"
    by (metis prod_cases3)
  have cert: "result = conclude fp costs selected residuals abs_gap rel_gap allow upper lower fin3"
    using sel up rows res valid by (auto simp: result certify_sp_start_def split: if_splits)
  then have fin3: fin3 using conclude_valid valid by blast
  from residual_loop_bound [OF res [unfolded eqTrueI [OF fin3]]]
  obtain rs where rs: "fin2" "list_all2 (\<lambda>r (c, a). r \<le> c - a) rs (zip costs ay)"
    "lower \<le> base + (\<Sum>r \<leftarrow> rs. min 0 r)" "allow \<longrightarrow> residuals = rs"
    by auto
  note mark = mark_start_start [OF sel]
  have rows': "fin1" "length ay = ?n" "base \<le> (\<Sum>(row, d) \<leftarrow> zip incidence duals. d)"
    "\<forall>(row, d) \<in> set (zip incidence duals). distinct row \<and> set row \<subseteq> {..<?n} \<and>
        length (filter (\<lambda>j. selected ! j) row) = 1"
    "\<forall>j < ?n. dual_value (zip incidence duals) j \<le> ay ! j"
    using cover_rows_bound [OF rows [unfolded eqTrueI [OF rs(1)]]] mark(1) by simp_all
  have sum_duals: "(\<Sum>(row, d) \<leftarrow> zip incidence duals. d) = sum_list duals"
    using lens by (intro sum_zip_snd) simp
  have each: "distinct row \<and> set row \<subseteq> {..<?n} \<and> length (filter (\<lambda>j. selected ! j) row) = 1"
    if "row \<in> set incidence" for row
    using rows'(4) that lens by (metis (mono_tags, lifting) case_prodD in_set_impl_in_set_zip1)
  have "start_cost costs start \<le> upper"
    using sum_upper_ge [OF up [unfolded eqTrueI [OF rows'(1)]]] selected_cost [OF mark]
    by (simp add: start_cost_def)
  moreover have "length rs = ?n"
    using rs(2) rows'(2) by (auto dest: list_all2_lengthD)
  moreover have "rs ! j \<le> costs ! j - dual_value (zip incidence duals) j" if "j < ?n" for j
    using rs(2) rows'(2,5) that by (fastforce simp: list_all2_conv_all_nth)
  ultimately show thesis
    using that [of selected upper rs lower residuals] mark rs(3,4) rows'(3) sum_duals each cert fin3 lens
    by (simp add: eqTrueI)
qed

end

lemma start_point_covers:
  assumes "\<forall>row \<in> set incidence. set row \<subseteq> {..<n} \<and> length (filter (\<lambda>j. selected ! j) row) = 1"
    and "\<And>j. j < n \<Longrightarrow> selected ! j \<longleftrightarrow> j \<in> set start"
  shows "covers_rows incidence (start_point start)"
proof -
  have count_row: "(\<Sum>j \<leftarrow> row. start_point start j) = real (length (filter (\<lambda>j. j \<in> set start) row))" for row
    by (induction row) (auto simp: start_point_def)
  have "(\<Sum>j \<leftarrow> row. start_point start j) = 1" if "row \<in> set incidence" for row
  proof -
    have "filter (\<lambda>j. j \<in> set start) row = filter (\<lambda>j. selected ! j) row"
      using assms that by (intro filter_cong) auto
    then show ?thesis using assms(1) that count_row [of row] by simp
  qed
  then show ?thesis by (simp add: covers_rows_def start_point_def)
qed

lemma start_point_cost:
  assumes "distinct start" and "set start \<subseteq> {..<length costs}"
  shows "model_cost costs (start_point start) = start_cost costs start"
proof -
  have "model_cost costs (start_point start) = (\<Sum>j < length costs. if j \<in> set start then costs ! j else 0)"
    unfolding model_cost_def by (intro sum.cong) (auto simp: start_point_def)
  also have "\<dots> = (\<Sum>j \<in> set start. costs ! j)"
    using assms(2) by (simp add: sum.If_cases Int_absorb1)
  finally show ?thesis using assms(1) by (simp add: start_cost_def sum_list_distinct_conv_sum_set)
qed

lemma covers_dual_value:
  assumes "length duals = length incidence" and "covers_rows incidence x"
    and "\<forall>row \<in> set incidence. distinct row \<and> set row \<subseteq> {..<n}"
  shows "(\<Sum>j < n. dual_value (zip incidence duals) j * x j) = sum_list duals"
proof -
  have "(\<Sum>j < n. dual_value (zip incidence duals) j * x j) = (\<Sum>(row, d) \<leftarrow> zip incidence duals. d)"
    using assms(2,3) by (intro dual_value_sum) (auto simp: covers_rows_def dest: set_zip_leftD)
  then show ?thesis using assms(1) by (simp add: sum_zip_snd)
qed

context directed_rounding begin

lemma certificate_bounds:
  fixes cert :: sp_dual_certificate
  assumes cert: "cert = certify_sp_start fp costs incidence start duals abs_gap rel_gap allow"
    and valid: "cert_valid cert" and x: "covers_rows incidence x"
  shows "lower_h cert \<le> model_cost costs x" and "start_cost costs start \<le> upper_h cert"
    and "upper_h cert - lower_h cert \<le> gap_upper_h cert"
    and "certified cert \<Longrightarrow> gap_upper_h cert \<le> abs_gap"
    and "relative_gap_certified cert \<Longrightarrow> 0 \<le> lower_h cert \<and> upper_h cert - lower_h cert \<le> rel_gap * upper_h cert"
    and "covers_rows incidence (start_point start)"
    and "model_cost costs (start_point start) = start_cost costs start"
    and "k \<in> set (fixed_zero_columns cert) \<Longrightarrow> k < length costs \<and> k \<notin> set start \<and>
      (x k = 1 \<longrightarrow> start_cost costs start + kCostTolerance < model_cost costs x)"
proof -
  obtain selected upper lower residuals rs where c:
    "length selected = length costs" "distinct start" "set start \<subseteq> {..<length costs}"
    "\<And>j. j < length costs \<Longrightarrow> selected ! j \<longleftrightarrow> j \<in> set start"
    "start_cost costs start \<le> upper" "length duals = length incidence"
    "\<forall>row \<in> set incidence. distinct row \<and> set row \<subseteq> {..<length costs} \<and>
        length (filter (\<lambda>j. selected ! j) row) = 1"
    "length rs = length costs"
    "\<And>j. j < length costs \<Longrightarrow> rs ! j \<le> costs ! j - dual_value (zip incidence duals) j"
    "lower \<le> sum_list duals + (\<Sum>r \<leftarrow> rs. min 0 r)" "allow \<longrightarrow> residuals = rs"
    "cert = conclude fp costs selected residuals abs_gap rel_gap allow upper lower True"
    by (rule certify_valid [OF cert valid]) blast
  note con = conclude_valid [OF c(12) valid]
  have dv: "(\<Sum>j < length costs. dual_value (zip incidence duals) j * x j) = sum_list duals"
    using c(6,7) x by (intro covers_dual_value) auto
  have x01: "\<forall>j. 0 \<le> x j \<and> x j \<le> 1" using x by (simp add: covers_rows_def)
  note dual = residual_duality [OF c(8) x01 c(9) dv]
  show "lower_h cert \<le> model_cost costs x" using dual(1) c(10) con by simp
  show "start_cost costs start \<le> upper_h cert" using c(5) con by simp
  show "upper_h cert - lower_h cert \<le> gap_upper_h cert"
    "certified cert \<Longrightarrow> gap_upper_h cert \<le> abs_gap"
    "relative_gap_certified cert \<Longrightarrow> 0 \<le> lower_h cert \<and> upper_h cert - lower_h cert \<le> rel_gap * upper_h cert"
    using con by auto
  show "covers_rows incidence (start_point start)"
    using c(4,7) by (intro start_point_covers) auto
  show "model_cost costs (start_point start) = start_cost costs start"
    using c(2,3) by (rule start_point_cost)
  assume k: "k \<in> set (fixed_zero_columns cert)"
  with con obtain t fixed where t: "upper + kCostTolerance \<le> t"
    "fixing_loop fp lower t 0 (zip residuals selected) [] = Some fixed" "k \<in> set fixed" and allow
    by blast
  then have res: "residuals = rs" using c(11) by simp
  from fixing_loop_bound [OF t(2,3)]
  have zero: "k < length costs" "\<not> selected ! k" "t < lower + max 0 (rs ! k)"
    using res c(1,8) by auto
  moreover have "start_cost costs start + kCostTolerance < model_cost costs x" if "x k = 1"
  proof -
    have "sum_list duals + (\<Sum>r \<leftarrow> rs. min 0 r) + max 0 (rs ! k) \<le> model_cost costs x"
      by (rule residual_duality(2) [OF c(8) x01 _ dv zero(1) that]) (rule c(9))
    then show ?thesis using c(5,10) t(1) zero(3) by linarith
  qed
  ultimately show "k < length costs \<and> k \<notin> set start \<and>
      (x k = 1 \<longrightarrow> start_cost costs start + kCostTolerance < model_cost costs x)"
    using c(4) by blast
qed

end

section \<open>Binary64\<close>

text \<open>
  The arithmetic of the machine: round to nearest, ties to even, on the grid of the binade of
  the exact result (subnormals included), and the neighbours of a double.
\<close>

definition exponent64 :: "real \<Rightarrow> int" where
  "exponent64 x = (if x = 0 then - 1074 else max (\<lfloor>log 2 \<bar>x\<bar>\<rfloor> - 52) (- 1074))"

definition ulp64 :: "real \<Rightarrow> real" where
  "ulp64 x = 2 powr of_int (exponent64 x)"

definition round_even :: "real \<Rightarrow> int" where
  "round_even y = (let f = \<lfloor>y\<rfloor>; r = y - of_int f
     in if r < 1 / 2 then f else if r > 1 / 2 then f + 1 else if even f then f else f + 1)"

definition round64 :: "real \<Rightarrow> real" where
  "round64 x = of_int (round_even (x / ulp64 x)) * ulp64 x"

definition next_up64 :: "real \<Rightarrow> real" where
  "next_up64 y =
     (if y \<ge> 0 then y + ulp64 y
      else if - y = 2 powr of_int \<lfloor>log 2 (- y)\<rfloor> \<and> exponent64 y > - 1074 then y + ulp64 y / 2
      else y + ulp64 y)"

definition binary64 :: "bool \<Rightarrow> fp_env" where
  "binary64 supported = \<lparr>fp_round = round64, fp_down = (\<lambda>y. - next_up64 (- y)), fp_up = next_up64,
     fp_supported = supported\<rparr>"

lemma ulp64_pos: "0 < ulp64 x"
  by (simp add: ulp64_def)

lemma ulp64_minus [simp]: "ulp64 (- x) = ulp64 x"
  by (simp add: ulp64_def exponent64_def)

lemma next_up64_ge: "y + ulp64 y / 2 \<le> next_up64 y"
  using ulp64_pos [of y] by (simp add: next_up64_def)

lemma round_even_near: "\<bar>of_int (round_even y) - y\<bar> \<le> 1 / 2"
  by (auto simp: round_even_def Let_def abs_le_iff)

lemma round_even_ge: "of_int m \<le> y \<Longrightarrow> m \<le> round_even y"
  by (auto simp: round_even_def Let_def) linarith+

lemma round_even_le: "y \<le> of_int m \<Longrightarrow> round_even y \<le> m"
  by (auto simp: round_even_def Let_def) linarith+

lemma exponent64_round: "exponent64 x \<le> exponent64 (round64 x)"
proof (cases "exponent64 x = - 1074")
  case True
  then show ?thesis by (simp add: exponent64_def)
next
  case False
  define k where "k = \<lfloor>log 2 \<bar>x\<bar>\<rfloor>"
  have x: "x \<noteq> 0" "exponent64 x = k - 52"
    using False by (auto simp: exponent64_def k_def split: if_splits)
  have "real_of_int k \<le> log 2 \<bar>x\<bar>" by (simp add: k_def)
  then have "2 powr real_of_int k \<le> \<bar>x\<bar>" using x(1) by (simp add: le_log_iff)
  moreover have "2 powr real_of_int k = 2 ^ 52 * ulp64 x"
    by (simp add: ulp64_def x powr_diff flip: powr_realpow)
  ultimately have big: "2 ^ 52 \<le> \<bar>x / ulp64 x\<bar>"
    using ulp64_pos [of x] by (simp add: field_simps)
  define y where "y = x / ulp64 x"
  have big': "2 ^ 52 \<le> \<bar>y\<bar>" using big unfolding y_def .
  have "2 ^ 52 \<le> \<bar>round_even y\<bar>"
  proof (cases "0 \<le> y")
    case True
    then have "of_int (2 ^ 52) \<le> y" using big' by simp
    from round_even_ge [OF this] show ?thesis by linarith
  next
    case False
    then have "y \<le> of_int (- (2 ^ 52))" using big' by simp
    from round_even_le [OF this] show ?thesis by linarith
  qed
  then have r: "2 ^ 52 * ulp64 x \<le> \<bar>round64 x\<bar>"
    using ulp64_pos [of x] by (simp add: round64_def abs_mult y_def)
  then have "2 powr real_of_int k \<le> \<bar>round64 x\<bar>" and "round64 x \<noteq> 0"
    using \<open>2 powr real_of_int k = 2 ^ 52 * ulp64 x\<close> ulp64_pos [of x] by auto
  then have "real_of_int k \<le> log 2 \<bar>round64 x\<bar>" by (simp add: le_log_iff)
  then have "k \<le> \<lfloor>log 2 \<bar>round64 x\<bar>\<rfloor>" by (simp add: le_floor_iff)
  then show ?thesis using x \<open>round64 x \<noteq> 0\<close> by (simp add: exponent64_def)
qed

lemma round64_near: "\<bar>round64 x - x\<bar> \<le> ulp64 (round64 x) / 2"
proof -
  have "\<bar>of_int (round_even (x / ulp64 x)) - x / ulp64 x\<bar> * ulp64 x \<le> 1 / 2 * ulp64 x"
    using round_even_near ulp64_pos [of x] by (intro mult_right_mono) auto
  then have "\<bar>(of_int (round_even (x / ulp64 x)) - x / ulp64 x) * ulp64 x\<bar> \<le> ulp64 x / 2"
    using ulp64_pos [of x] by (simp add: abs_mult)
  moreover have "(of_int (round_even (x / ulp64 x)) - x / ulp64 x) * ulp64 x = round64 x - x"
    using ulp64_pos [of x] by (simp add: round64_def left_diff_distrib)
  ultimately have "\<bar>round64 x - x\<bar> \<le> ulp64 x / 2" by (simp only:)
  moreover have "ulp64 x \<le> ulp64 (round64 x)"
    using exponent64_round by (simp add: ulp64_def)
  ultimately show ?thesis by simp
qed

lemma round64_bounds: "round64 x - ulp64 (round64 x) / 2 \<le> x \<and> x \<le> round64 x + ulp64 (round64 x) / 2"
  using round64_near [of x] unfolding abs_le_iff by linarith

interpretation hw: directed_rounding "binary64 supported" for supported
proof
  fix x
  have "fp_down (binary64 supported) (fp_round (binary64 supported) x) \<le> round64 x - ulp64 (round64 x) / 2"
    using next_up64_ge [of "- round64 x"] by (simp add: binary64_def)
  then show "fp_down (binary64 supported) (fp_round (binary64 supported) x) \<le> x"
    using round64_bounds [of x] by linarith
  have "round64 x + ulp64 (round64 x) / 2 \<le> fp_up (binary64 supported) (fp_round (binary64 supported) x)"
    using next_up64_ge [of "round64 x"] by (simp add: binary64_def)
  then show "x \<le> fp_up (binary64 supported) (fp_round (binary64 supported) x)"
    using round64_bounds [of x] by linarith
qed

section \<open>Properties\<close>

text \<open>Exact arithmetic on the grid of \<open>2 ^ -60\<close>, for concrete certificates.\<close>

definition grid_fp :: fp_env where
  "grid_fp = \<lparr>fp_round = (\<lambda>x. x), fp_down = (\<lambda>x. x - 1 / 2 ^ 60), fp_up = (\<lambda>x. x + 1 / 2 ^ 60),
     fp_supported = True\<rparr>"

lemma grid_directed: "directed_rounding grid_fp"
  by unfold_locales (simp_all add: grid_fp_def)

lemma binary64_directed: "directed_rounding (binary64 supported)"
  by (rule hw.directed_rounding_axioms)

text \<open>
  C6: a valid certificate bounds the restricted model.  The start covers every row exactly
  once; its cost is at most \<open>upper_h\<close>; every fractional cover costs at least \<open>lower_h\<close>; when
  certified, the start is within the absolute gap of every cover, and a certified relative
  gap bounds the loss of the start relative to its own cost.  This holds for every rounding
  whose neighbours enclose the exact result, hence for binary64.
\<close>

theorem sp_certificate_bounds:
  fixes cert :: sp_dual_certificate
  assumes "directed_rounding fp"
    and "cert = certify_sp_start fp costs incidence start duals abs_gap rel_gap allow"
    and "cert_valid cert" and "covers_rows incidence x"
  shows "covers_rows incidence (start_point start) \<and>
    model_cost costs (start_point start) \<le> upper_h cert \<and> lower_h cert \<le> model_cost costs x \<and>
    upper_h cert - lower_h cert \<le> gap_upper_h cert \<and>
    (certified cert \<longrightarrow> model_cost costs (start_point start) \<le> model_cost costs x + abs_gap) \<and>
    (relative_gap_certified cert \<longrightarrow> model_cost costs (start_point start) - model_cost costs x
       \<le> rel_gap * model_cost costs (start_point start))"
proof -
  note b = directed_rounding.certificate_bounds [OF assms]
  let ?s = "model_cost costs (start_point start)"
  have s: "?s \<le> upper_h cert" "lower_h cert \<le> ?s"
    using b(2,7) directed_rounding.certificate_bounds(1) [OF assms(1-3) b(6)] by simp_all
  have "?s - model_cost costs x \<le> rel_gap * ?s" if "relative_gap_certified cert"
  proof -
    have r: "0 \<le> lower_h cert" "(1 - rel_gap) * upper_h cert \<le> lower_h cert"
      using b(5) [OF that] by (simp_all add: left_diff_distrib)
    have "(1 - rel_gap) * ?s \<le> lower_h cert"
    proof (cases "rel_gap \<le> 1")
      case True
      then have "(1 - rel_gap) * ?s \<le> (1 - rel_gap) * upper_h cert"
        using s(1) by (intro mult_left_mono) auto
      then show ?thesis using r(2) by simp
    next
      case False
      then have "(1 - rel_gap) * ?s \<le> 0" using s(2) r(1) by (intro mult_nonpos_nonneg) auto
      then show ?thesis using r(1) by simp
    qed
    then show ?thesis using b(1) by (simp add: left_diff_distrib)
  qed
  then show ?thesis using b s by auto
qed

lemmas certify_eval = certify_sp_start_def round_up_def round_down_def Let_def conclude_def
  relative_bound_def bounds_certificate_def grid_fp_def kCostTolerance_def isfinite_numeral_small
  fix_columns_def no_certificate_def

theorem sp_certificate_bounds_witness:
  "certified (certify_sp_start grid_fp [2, 3] [[0, 1]] [0] [2] 1 1 False) \<and>
   model_cost [2, 3] (start_point [0]) \<le> model_cost [2, 3] (start_point [1]) + 1"
proof -
  let ?c = "certify_sp_start grid_fp [2, 3] [[0, 1]] [0] [2] 1 1 False"
  have v: "cert_valid ?c" "certified ?c" by (simp_all add: certify_eval)
  have x: "covers_rows [[0, 1]] (start_point [1])" by (simp add: covers_rows_def start_point_def)
  show ?thesis
    using sp_certificate_bounds [OF grid_directed refl v(1) x] v(2) by blast
qed

text \<open>
  C26: fixing a column at zero is safe: no column of the start is fixed, and every cover that
  uses a fixed column in full costs more than the start by more than the cost tolerance, so
  that no cover as good as the start is lost.
\<close>

theorem sp_fixing_safe:
  fixes cert :: sp_dual_certificate
  assumes "directed_rounding fp"
    and "cert = certify_sp_start fp costs incidence start duals abs_gap rel_gap allow"
    and "cert_valid cert" and "covers_rows incidence x" and "k \<in> set (fixed_zero_columns cert)"
  shows "k \<notin> set start \<and> k < length costs \<and>
    (x k = 1 \<longrightarrow> model_cost costs (start_point start) + kCostTolerance < model_cost costs x)"
  using directed_rounding.certificate_bounds(7,8) [OF assms(1-4)] assms(5) by auto

theorem sp_fixing_safe_witness:
  "fixed_zero_columns (certify_sp_start grid_fp [2, 9, 3] [[0, 1, 2]] [2] [2] 0 1 True) = [1] \<and>
   model_cost [2, 9, 3] (start_point [2]) + kCostTolerance < model_cost [2, 9, 3] (start_point [1])"
proof -
  let ?c = "certify_sp_start grid_fp [2, 9, 3] [[0, 1, 2]] [2] [2] 0 1 True"
  have v: "cert_valid ?c" "fixed_zero_columns ?c = [1]" by (simp_all add: certify_eval)
  have x: "covers_rows [[0, 1, 2]] (start_point [1])" by (simp add: covers_rows_def start_point_def)
  have "1 \<in> set (fixed_zero_columns ?c)" unfolding v(2) by simp
  from sp_fixing_safe [OF grid_directed refl v(1) x this] v(2) show ?thesis
    by (simp add: start_point_def)
qed

end
