(* ===== verification/Xml_Parser.thy ===== *)
theory Xml_Parser
  imports Instance_Model
begin

text \<open>
  The XML reader of src/xml.cpp: entities, the recursive-descent parser and the loader that
  builds an instance from a document.

  A parser state is what is left of the source; the byte position of a message is the length
  of the source minus the length of what is left.  The characters are bytes and the character
  classes are those of the C locale.  The recursion of \<open>parse_element\<close> is bounded by a fuel;
  \<open>None\<close> stands for a recursion that has not returned, and is shown never to be the answer of
  \<open>parse_document\<close>.  The map of attributes is an association list.
\<close>

section \<open>Characters and strings\<close>

definition is_space :: "char \<Rightarrow> bool" where
  "is_space c = (c = CHR '' '' \<or> c \<in> {CHR 0x09, CHR 0x0A, CHR 0x0B, CHR 0x0C, CHR 0x0D})"

definition is_digit :: "char \<Rightarrow> bool" where
  "is_digit c = (48 \<le> (of_char c :: nat) \<and> (of_char c :: nat) \<le> 57)"

definition is_alnum :: "char \<Rightarrow> bool" where
  "is_alnum c = (is_digit c \<or> (65 \<le> (of_char c :: nat) \<and> (of_char c :: nat) \<le> 90) \<or>
     (97 \<le> (of_char c :: nat) \<and> (of_char c :: nat) \<le> 122))"

definition name_char :: "char \<Rightarrow> bool" where
  "name_char c = (is_alnum c \<or> c = CHR ''_'' \<or> c = CHR ''-'' \<or> c = CHR '':'' \<or> c = CHR ''.'')"

definition starts_with :: "string \<Rightarrow> string \<Rightarrow> bool" where
  "starts_with token s = (take (length token) s = token)"

lemma starts_with_drop:
  "token \<noteq> [] \<Longrightarrow> starts_with token s \<Longrightarrow> length (drop (length token) s) < length s"
  by (cases token; cases s) (auto simp: starts_with_def)

definition trim :: "string \<Rightarrow> string" where
  "trim s = rev (dropWhile is_space (rev (dropWhile is_space s)))"

text \<open>The loop of \<open>find\<close> and \<open>replace\<close>: the search goes on behind the replacement.\<close>

function replace_all :: "string \<Rightarrow> string \<Rightarrow> string \<Rightarrow> string" where
  "replace_all encoded decoded s =
     (if encoded \<noteq> [] \<and> starts_with encoded s
      then decoded @ replace_all encoded decoded (drop (length encoded) s)
      else case s of [] \<Rightarrow> [] | c # cs \<Rightarrow> c # replace_all encoded decoded cs)"
  by pat_completeness auto
termination
  by (relation "measure (\<lambda>(_, _, s). length s)") (auto dest: starts_with_drop)

declare replace_all.simps [simp del]

definition entities :: "(string \<times> string) list" where
  "entities = [(''&amp;'', ''&''), (''&lt;'', ''<''), (''&gt;'', ''>''),
     (''&quot;'', [CHR 0x22]), (''&apos;'', [CHR 0x27])]"

definition decode_entities :: "string \<Rightarrow> string" where
  "decode_entities value = foldl (\<lambda>v (encoded, decoded). replace_all encoded decoded v) value entities"

section \<open>Documents\<close>

datatype xml_node =
  Xml_Node (xml_name: string) (xml_attributes: "(string \<times> string) list") (xml_text: string)
    (xml_children: "xml_node list")

definition xml_child :: "xml_node \<Rightarrow> string \<Rightarrow> xml_node option" where
  "xml_child parent child_name = find (\<lambda>c. xml_name c = child_name) (xml_children parent)"

definition children_named :: "xml_node \<Rightarrow> string \<Rightarrow> xml_node list" where
  "children_named parent child_name = filter (\<lambda>c. xml_name c = child_name) (xml_children parent)"

section \<open>The parser\<close>

text \<open>\<open>n\<close> is the size of the source.\<close>

definition xml_fail :: "nat \<Rightarrow> string \<Rightarrow> string \<Rightarrow> 'a result" where
  "xml_fail n rest message =
     Inl (Invalid_Argument (''XML parse error at byte '' @ string_of_nat (n - length rest) @ '': '' @ message))"

definition skip_space :: "string \<Rightarrow> string" where
  "skip_space rest = dropWhile is_space rest"

text \<open>What follows the first occurrence of a token.\<close>

fun find_after :: "string \<Rightarrow> string \<Rightarrow> string option" where
  "find_after token [] = (if token = [] then Some [] else None)"
| "find_after token (c # cs) =
     (if starts_with token (c # cs) then Some (drop (length token) (c # cs)) else find_after token cs)"

definition skip_until :: "nat \<Rightarrow> string \<Rightarrow> string \<Rightarrow> string result" where
  "skip_until n terminator rest =
     (case find_after terminator rest of
        None \<Rightarrow> xml_fail n rest ''unterminated XML declaration or comment''
      | Some r \<Rightarrow> Inr r)"

lemma find_after_length: "find_after token s = Some r \<Longrightarrow> token \<noteq> [] \<Longrightarrow> length r < length s"
  by (induction token s rule: find_after.induct) (auto split: if_splits dest: starts_with_drop)

lemma skip_until_length: "skip_until n token s = Inr r \<Longrightarrow> token \<noteq> [] \<Longrightarrow> length r < length s"
  by (auto simp: skip_until_def xml_fail_def dest: find_after_length split: option.splits)

lemma skip_space_length: "length (skip_space s) \<le> length s"
  by (simp add: skip_space_def length_dropWhile_le)

function skip_misc :: "nat \<Rightarrow> string \<Rightarrow> string result" where
  "skip_misc n rest =
     (let s = skip_space rest
      in if starts_with ''<?'' s then
           (case skip_until n ''?>'' s of Inl e \<Rightarrow> Inl e | Inr r \<Rightarrow> skip_misc n r)
         else if starts_with ''<!--'' s then
           (case skip_until n ''-->'' s of Inl e \<Rightarrow> Inl e | Inr r \<Rightarrow> skip_misc n r)
         else Inr s)"
  by pat_completeness auto
termination
  by (relation "measure (\<lambda>(_, s). length s)")
    (auto dest!: skip_until_length intro: less_le_trans [OF _ skip_space_length])

declare skip_misc.simps [simp del]

definition parse_name :: "nat \<Rightarrow> string \<Rightarrow> (string \<times> string) result" where
  "parse_name n rest =
     (if takeWhile name_char rest = [] then xml_fail n rest ''expected XML name''
      else Inr (takeWhile name_char rest, dropWhile name_char rest))"

definition parse_quoted :: "nat \<Rightarrow> string \<Rightarrow> (string \<times> string) result" where
  "parse_quoted n rest =
     (case rest of
        [] \<Rightarrow> xml_fail n rest ''expected quoted attribute value''
      | quote # body \<Rightarrow>
          if quote \<noteq> CHR 0x27 \<and> quote \<noteq> CHR 0x22 then xml_fail n rest ''expected quoted attribute value''
          else if quote \<notin> set body then xml_fail n body ''unterminated attribute value''
          else Inr (decode_entities (takeWhile (\<lambda>c. c \<noteq> quote) body),
                    tl (dropWhile (\<lambda>c. c \<noteq> quote) body)))"

definition emplace :: "string \<Rightarrow> string \<Rightarrow> (string \<times> string) list \<Rightarrow> (string \<times> string) list" where
  "emplace k v al = (if map_of al k = None then al @ [(k, v)] else al)"

definition parse_attribute :: "nat \<Rightarrow> string \<Rightarrow> ((string \<times> string) \<times> string) result" where
  "parse_attribute n rest =
     rbind (parse_name n rest) (\<lambda>(key, r1).
       let r2 = skip_space r1
       in if r2 = [] \<or> hd r2 \<noteq> CHR ''='' then xml_fail n r2 (''expected '' @ [CHR 0x27, CHR ''='', CHR 0x27] @ '' after attribute name'')
          else rbind (parse_quoted n (skip_space (tl r2))) (\<lambda>(value, r3). Inr ((key, value), r3)))"

lemma parse_name_length: "parse_name n s = Inr (nm, r) \<Longrightarrow> length r < length s"
  by (cases s) (auto simp: parse_name_def xml_fail_def length_dropWhile_le le_imp_less_Suc split: if_splits)

lemma tl_dropWhile_length: "length (tl (dropWhile P xs)) \<le> length xs"
  by (metis diff_le_self le_trans length_dropWhile_le length_tl)

lemma parse_quoted_length: "parse_quoted n s = Inr (v, r) \<Longrightarrow> length r < length s"
  by (cases s) (auto simp: parse_quoted_def xml_fail_def le_imp_less_Suc tl_dropWhile_length
      simp del: length_tl split: if_splits)

lemma parse_attribute_length: "parse_attribute n s = Inr (kv, r) \<Longrightarrow> length r < length s"
proof -
  assume "parse_attribute n s = Inr (kv, r)"
  then obtain key r1 v where n1: "parse_name n s = Inr (key, r1)"
    and q: "parse_quoted n (skip_space (tl (skip_space r1))) = Inr (v, r)"
    by (auto simp: parse_attribute_def rbind_eq_Inr_conv xml_fail_def Let_def split: if_splits)
  have "length (skip_space (tl (skip_space r1))) \<le> length r1"
    by (metis diff_le_self le_trans length_tl skip_space_length)
  then show ?thesis using parse_name_length [OF n1] parse_quoted_length [OF q] by linarith
qed

function parse_attributes ::
  "nat \<Rightarrow> (string \<times> string) list \<Rightarrow> string \<Rightarrow> ((string \<times> string) list \<times> bool \<times> string) result" where
  "parse_attributes n al rest =
     (let s = skip_space rest
      in if starts_with ''/>'' s then Inr (al, True, drop 2 s)
         else if starts_with ''>'' s then Inr (al, False, tl s)
         else case parse_attribute n s of
           Inl e \<Rightarrow> Inl e
         | Inr ((key, value), r) \<Rightarrow> parse_attributes n (emplace key value al) r)"
  by pat_completeness auto
termination
  by (relation "measure (\<lambda>(_, _, s). length s)")
    (auto dest!: parse_attribute_length intro: less_le_trans [OF _ skip_space_length])

declare parse_attributes.simps [simp del]

text \<open>
  The two loops of \<open>parse_element\<close>: the attributes up to the end of the opening tag, then
  the contents with the text and the children so far.
\<close>

fun parse_element :: "nat \<Rightarrow> nat \<Rightarrow> string \<Rightarrow> (xml_node \<times> string) result option"
  and parse_content :: "nat \<Rightarrow> nat \<Rightarrow> string \<Rightarrow> (string \<times> string) list \<Rightarrow> string \<Rightarrow> xml_node list \<Rightarrow>
     string \<Rightarrow> (xml_node \<times> string) result option" where
  "parse_element 0 n s = None"
| "parse_element (Suc fuel) n s =
     (if s = [] \<or> hd s \<noteq> CHR ''<'' \<or> starts_with ''</'' s
      then Some (xml_fail n s ''expected opening element'')
      else case parse_name n (tl s) of
        Inl e \<Rightarrow> Some (Inl e)
      | Inr (nm, r) \<Rightarrow>
          (case parse_attributes n [] r of
             Inl e \<Rightarrow> Some (Inl e)
           | Inr (al, empty_tag, r1) \<Rightarrow>
               if empty_tag then Some (Inr (Xml_Node nm al [] [], r1))
               else parse_content fuel n nm al [] [] r1))"
| "parse_content 0 n nm al content kids s = None"
| "parse_content (Suc fuel) n nm al content kids s =
     (if s = [] then Some (xml_fail n s ''unterminated element'')
      else if starts_with ''<!--'' s then
        (case skip_until n ''-->'' s of
           Inl e \<Rightarrow> Some (Inl e) | Inr r \<Rightarrow> parse_content fuel n nm al content kids r)
      else if starts_with ''</'' s then
        Some (rbind (parse_name n (drop 2 s)) (\<lambda>(closing, r).
          if closing \<noteq> nm then xml_fail n r ''mismatched closing element''
          else let r1 = skip_space r
               in if r1 = [] \<or> hd r1 \<noteq> CHR ''>''
                  then xml_fail n r1 (''expected closing '' @ [CHR 0x27, CHR ''>'', CHR 0x27])
                  else Inr (Xml_Node nm al (trim (decode_entities content)) kids, tl r1)))
      else if hd s = CHR ''<'' then
        (case parse_element fuel n s of
           None \<Rightarrow> None
         | Some (Inl e) \<Rightarrow> Some (Inl e)
         | Some (Inr (child, r)) \<Rightarrow> parse_content fuel n nm al content (kids @ [child]) r)
      else if CHR ''<'' \<notin> set s then Some (xml_fail n s ''unterminated text element'')
      else parse_content fuel n nm al (content @ takeWhile (\<lambda>c. c \<noteq> CHR ''<'') s) kids
             (dropWhile (\<lambda>c. c \<noteq> CHR ''<'') s))"

definition parse_document :: "string \<Rightarrow> xml_node result option" where
  "parse_document source =
     (let n = length source
      in case skip_misc n source of
           Inl e \<Rightarrow> Some (Inl e)
         | Inr s \<Rightarrow> map_option (\<lambda>parsed. rbind parsed (\<lambda>(node, r). rbind (skip_misc n r) (\<lambda>r1.
             if r1 \<noteq> [] then xml_fail n r1 ''trailing content after root element'' else Inr node)))
             (parse_element (2 * length s + 1) n s))"

section \<open>Termination of the recursion\<close>

lemma parse_attributes_length: "parse_attributes n al s = Inr (al', empty_tag, r) \<Longrightarrow> length r \<le> length s"
proof (induction n al s rule: parse_attributes.induct)
  case (1 n al rest)
  note le = skip_space_length [of rest]
  show ?case
  proof (cases "starts_with ''/>'' (skip_space rest) \<or> starts_with ''>'' (skip_space rest)")
    case True
    then show ?thesis using 1(2) le
      by (auto simp: parse_attributes.simps [of n al rest] Let_def split: if_splits)
  next
    case False
    then obtain k v r1 where a: "parse_attribute n (skip_space rest) = Inr ((k, v), r1)"
      and rec: "parse_attributes n (emplace k v al) r1 = Inr (al', empty_tag, r)"
      using 1(2) by (auto simp: parse_attributes.simps [of n al rest] Let_def split: sum.splits prod.splits)
    have "length r \<le> length r1" using 1(1) [OF refl _ _ a refl refl rec] False by auto
    then show ?thesis using parse_attribute_length [OF a] le by simp
  qed
qed

text \<open>The recursion returns with a shorter rest, and the fuel is enough.\<close>

lemma parse_fuel:
  "(2 * length s + 1 \<le> fuel \<longrightarrow> parse_element fuel n s \<noteq> None) \<and>
   (\<forall>node r. parse_element fuel n s = Some (Inr (node, r)) \<longrightarrow> length r < length s)"
  "(2 * length t + 2 \<le> fuel \<longrightarrow> parse_content fuel n nm al content kids t \<noteq> None) \<and>
   (\<forall>node r. parse_content fuel n nm al content kids t = Some (Inr (node, r)) \<longrightarrow> length r \<le> length t)"
proof (induction fuel n s and fuel n nm al content kids t rule: parse_element_parse_content.induct)
  case (2 fuel n s)
  show ?case
  proof (cases "s = [] \<or> hd s \<noteq> CHR ''<'' \<or> starts_with ''</'' s")
    case True
    then show ?thesis by (auto simp: xml_fail_def)
  next
    case False
    show ?thesis
    proof (cases "parse_name n (tl s)")
      case (Inl e)
      then show ?thesis using False by auto
    next
      case (Inr nr)
      then obtain nm r where pn: "parse_name n (tl s) = Inr (nm, r)" by (cases nr) auto
      have len: "length r + 1 < length s"
        using parse_name_length [OF pn] False by (cases s) auto
      show ?thesis
      proof (cases "parse_attributes n [] r")
        case (Inl e)
        then show ?thesis using False pn by auto
      next
        case (Inr ar)
        then obtain al empty_tag r1 where pa: "parse_attributes n [] r = Inr (al, empty_tag, r1)"
          by (cases ar) auto
        have len1: "length r1 + 1 < length s"
          using parse_attributes_length [OF pa] len by simp
        note IH = 2(1) [OF False pn refl pa refl refl]
        show ?thesis using False pn pa len1 IH
          by (cases empty_tag) auto
      qed
    qed
  qed
next
  case (4 fuel n nm al content kids s)
  note prems = 4
  have text_rest: "length (dropWhile (\<lambda>c. c \<noteq> CHR ''<'') s) < length s"
    if "s \<noteq> []" "hd s \<noteq> CHR ''<''"
    using that by (cases s) (auto simp: length_dropWhile_le le_imp_less_Suc)
  consider (empty) "s = []"
    | (comment) "s \<noteq> []" "starts_with ''<!--'' s"
    | (closing) "s \<noteq> []" "\<not> starts_with ''<!--'' s" "starts_with ''</'' s"
    | (element) "s \<noteq> []" "\<not> starts_with ''<!--'' s" "\<not> starts_with ''</'' s" "hd s = CHR ''<''"
    | (chars) "s \<noteq> []" "\<not> starts_with ''<!--'' s" "\<not> starts_with ''</'' s" "hd s \<noteq> CHR ''<''"
    by blast
  then show ?case
  proof cases
    case empty
    then show ?thesis by (simp add: xml_fail_def)
  next
    case comment
    show ?thesis
    proof (cases "skip_until n ''-->'' s")
      case (Inr r)
      have "length r < length s" using skip_until_length [OF Inr] by simp
      then show ?thesis using prems(1) [OF comment Inr] comment Inr by auto
    qed (use comment in simp)
  next
    case closing
    have "length (tl (skip_space r)) \<le> length s" if "parse_name n (drop 2 s) = Inr (c, r)" for c r
      using parse_name_length [OF that] skip_space_length [of r] by simp
    then show ?thesis using closing
      by (auto simp: rbind_eq_Inr_conv xml_fail_def Let_def split: if_splits)
  next
    case element
    note e = prems(2) [OF element]
    show ?thesis
    proof (cases "parse_element fuel n s")
      case (Some res)
      show ?thesis
      proof (cases res)
        case (Inr cr)
        then obtain child r where cr: "parse_element fuel n s = Some (Inr (child, r))"
          using Some by (cases cr) auto
        have "length r < length s" using e cr by auto
        then show ?thesis using prems(3) [OF element cr refl refl] element cr by auto
      qed (use element Some in simp)
    qed (use element e in auto)
  next
    case chars
    show ?thesis
    proof (cases "CHR ''<'' \<in> set s")
      case True
      then show ?thesis using prems(4) [OF chars] chars text_rest [OF chars(1,4)] by auto
    qed (use chars in \<open>simp add: xml_fail_def\<close>)
  qed
qed auto

end
