(* ===== verification/Xml_Loader.thy ===== *)
theory Xml_Loader
  imports Xml_Parser
begin

text \<open>
  The second half of src/xml.cpp: required children, texts, numbers and attributes, and
  \<open>load_montoya_instance\<close>.  \<open>std::stod\<close> and \<open>std::stoi\<close> are read as the C library specifies
  them: leading white space, a sign, then the longest number.  A double is its exact value,
  \<open>None\<close> when it is an infinity or not a number; what overflows or underflows throws.
\<close>

section \<open>Numbers of the standard library\<close>

definition hex_digit :: "char \<Rightarrow> nat option" where
  "hex_digit c = (let n = of_char c :: nat
     in if 48 \<le> n \<and> n \<le> 57 then Some (n - 48)
        else if 65 \<le> n \<and> n \<le> 70 then Some (n - 55)
        else if 97 \<le> n \<and> n \<le> 102 then Some (n - 87) else None)"

definition is_digit_of :: "nat \<Rightarrow> char \<Rightarrow> bool" where
  "is_digit_of base c = (case hex_digit c of None \<Rightarrow> False | Some d \<Rightarrow> d < base)"

definition digits_value :: "nat \<Rightarrow> string \<Rightarrow> nat" where
  "digits_value base ds = foldl (\<lambda>v d. base * v + the (hex_digit d)) 0 ds"

definition take_sign :: "string \<Rightarrow> bool \<times> string" where
  "take_sign s = (case s of [] \<Rightarrow> (False, s)
     | c # cs \<Rightarrow> if c = CHR ''-'' then (True, cs) else if c = CHR ''+'' then (False, cs) else (False, s))"

text \<open>An exponent is read only when it has digits.\<close>

definition take_exponent :: "char set \<Rightarrow> string \<Rightarrow> int \<times> string" where
  "take_exponent marks s =
     (case s of [] \<Rightarrow> (0, s)
      | c # cs \<Rightarrow>
          (case take_sign cs of (neg, ds) \<Rightarrow>
             let digits = takeWhile (is_digit_of 10) ds
             in if c \<in> marks \<and> digits \<noteq> []
                then ((if neg then - int (digits_value 10 digits) else int (digits_value 10 digits)),
                      dropWhile (is_digit_of 10) ds)
                else (0, s)))"

definition take_number :: "nat \<Rightarrow> real \<Rightarrow> char set \<Rightarrow> string \<Rightarrow> (real \<times> string) option" where
  "take_number base exp_base marks s =
     (let whole = takeWhile (is_digit_of base) s;
          r1 = dropWhile (is_digit_of base) s;
          dot = (r1 \<noteq> [] \<and> hd r1 = CHR ''.'');
          fraction = (if dot then takeWhile (is_digit_of base) (tl r1) else []);
          r2 = (if dot then dropWhile (is_digit_of base) (tl r1) else r1)
      in if whole @ fraction = [] then None
         else case take_exponent marks r2 of (e, r3) \<Rightarrow>
           Some (real (digits_value base (whole @ fraction)) / real base ^ length fraction * exp_base powi e, r3))"

definition lower :: "char \<Rightarrow> char" where
  "lower c = (let n = of_char c :: nat in if 65 \<le> n \<and> n \<le> 90 then char_of (n + 32) else c)"

definition starts_with_word :: "string \<Rightarrow> string \<Rightarrow> bool" where
  "starts_with_word word s = (map lower (take (length word) s) = word)"

text \<open>The length of \<open>nan\<close>, with its optional parenthesis.\<close>

definition nan_length :: "string \<Rightarrow> nat" where
  "nan_length s =
     (let rest = drop 3 s; word = takeWhile (\<lambda>c. is_alnum c \<or> c = CHR ''_'') (tl rest)
      in if rest \<noteq> [] \<and> hd rest = CHR ''('' \<and> drop (length word) (tl rest) \<noteq> [] \<and>
            hd (drop (length word) (tl rest)) = CHR '')'' then 5 + length word else 3)"

text \<open>\<open>strtod\<close>: the value and what is left, or \<open>None\<close> without a number.\<close>

definition strtod :: "string \<Rightarrow> (real option \<times> string) option" where
  "strtod s =
     (case take_sign (skip_space s) of (neg, body) \<Rightarrow>
        if starts_with_word ''infinity'' body then Some (None, drop 8 body)
        else if starts_with_word ''inf'' body then Some (None, drop 3 body)
        else if starts_with_word ''nan'' body then Some (None, drop (nan_length body) body)
        else map_option (\<lambda>(v, r). (Some (if neg then - v else v), r))
          (case (if starts_with_word ''0x'' body
                 then take_number 16 2 {CHR ''p'', CHR ''P''} (drop 2 body) else None) of
             Some hex \<Rightarrow> Some hex
           | None \<Rightarrow> take_number 10 10 {CHR ''e'', CHR ''E''} body))"

definition stod :: "string \<Rightarrow> (real option \<times> string) result" where
  "stod s =
     (case strtod s of
        None \<Rightarrow> Inl (Invalid_Argument ''stod'')
      | Some (None, r) \<Rightarrow> Inr (None, r)
      | Some (Some v, r) \<Rightarrow>
          if \<not> isfinite v \<or> (v \<noteq> 0 \<and> \<bar>v\<bar> < 1 / 2 ^ 1022) then Inl (Out_Of_Range ''stod'')
          else Inr (Some v, r))"

definition stoi :: "string \<Rightarrow> (int \<times> string) result" where
  "stoi s =
     (case take_sign (skip_space s) of (neg, body) \<Rightarrow>
        let digits = takeWhile (is_digit_of 10) body;
            v = (if neg then - int (digits_value 10 digits) else int (digits_value 10 digits))
        in if digits = [] then Inl (Invalid_Argument ''stoi'')
           else if v < - (2 ^ 31) \<or> 2 ^ 31 \<le> v then Inl (Out_Of_Range ''stoi'')
           else Inr (v, dropWhile (is_digit_of 10) body))"

section \<open>Required parts of a node\<close>

definition required_child :: "xml_node \<Rightarrow> string \<Rightarrow> string \<Rightarrow> xml_node result" where
  "required_child parent child_name context_name =
     (case xml_child parent child_name of
        None \<Rightarrow> Inl (Invalid_Argument (''missing '' @ context_name @ ''/'' @ child_name))
      | Some c \<Rightarrow> Inr c)"

definition required_text :: "xml_node \<Rightarrow> string \<Rightarrow> string \<Rightarrow> string result" where
  "required_text parent child_name context_name =
     rbind (required_child parent child_name context_name) (\<lambda>c.
       if xml_text c = [] then Inl (Invalid_Argument (''empty '' @ context_name @ ''/'' @ child_name))
       else Inr (xml_text c))"

definition required_double :: "xml_node \<Rightarrow> string \<Rightarrow> string \<Rightarrow> real result" where
  "required_double parent child_name context_name =
     rbind (required_text parent child_name context_name) (\<lambda>value.
     rbind (stod value) (\<lambda>(v, r).
       case v of
         Some x \<Rightarrow> if r \<noteq> [] then Inl (Invalid_Argument (''invalid number at '' @ context_name)) else Inr x
       | None \<Rightarrow> Inl (Invalid_Argument (''invalid number at '' @ context_name))))"

definition required_int_attribute :: "xml_node \<Rightarrow> string \<Rightarrow> string \<Rightarrow> int result" where
  "required_int_attribute nd key context_name =
     (case map_of (xml_attributes nd) key of
        None \<Rightarrow> Inl (Invalid_Argument (''missing attribute '' @ key @ '' at '' @ context_name))
      | Some value \<Rightarrow> rbind (stoi value) (\<lambda>(v, r).
          if r \<noteq> [] then Inl (Invalid_Argument (''invalid integer attribute at '' @ context_name)) else Inr v))"

definition required_attribute :: "xml_node \<Rightarrow> string \<Rightarrow> string \<Rightarrow> string result" where
  "required_attribute nd key context_name =
     (case map_of (xml_attributes nd) key of
        None \<Rightarrow> Inl (Invalid_Argument (''missing attribute '' @ key @ '' at '' @ context_name))
      | Some value \<Rightarrow>
          if value = [] then Inl (Invalid_Argument (''missing attribute '' @ key @ '' at '' @ context_name))
          else Inr value)"

section \<open>The loader\<close>

definition read_vehicle :: "xml_node \<Rightarrow> xml_node \<Rightarrow> vehicle result" where
  "read_vehicle profile custom =
     rbind (required_double profile ''speed_factor'' ''vehicle_profile'') (\<lambda>speed.
     rbind (required_double custom ''consumption_rate'' ''vehicle/custom'') (\<lambda>rate.
     rbind (required_double custom ''battery_capacity'' ''vehicle/custom'') (\<lambda>battery.
     rbind (required_double profile ''max_travel_time'' ''vehicle_profile'') (\<lambda>limit.
       Inr \<lparr>speed_kmph = speed, consumption_wh_per_km = rate, battery_capacity_wh = battery,
            max_route_duration_h = limit\<rparr>))))"

definition read_point :: "xml_node \<Rightarrow> charging_point result" where
  "read_point breakpoint =
     rbind (required_double breakpoint ''charging_time'' ''breakpoint'') (\<lambda>t.
     rbind (required_double breakpoint ''battery_level'' ''breakpoint'') (\<lambda>e.
       Inr \<lparr>time_h = t, energy_wh = e\<rparr>))"

definition read_curve ::
  "(string \<times> charging_curve) list \<Rightarrow> xml_node \<Rightarrow> (string \<times> charging_curve) list result" where
  "read_curve curves fn =
     rbind (required_attribute fn ''cs_type'' ''charging function'') (\<lambda>ty.
     rbind (rmap read_point (children_named fn ''breakpoint'')) (\<lambda>ps.
     rbind (mk_curve ty ps) (\<lambda>curve.
       if map_of curves ty \<noteq> None
       then Inl (Invalid_Argument (''duplicate charging function '' @ ty))
       else Inr (curves @ [(ty, curve)]))))"

definition read_request :: "(int \<times> real) list \<Rightarrow> xml_node \<Rightarrow> (int \<times> real) list result" where
  "read_request services request =
     rbind (required_int_attribute request ''node'' ''request'') (\<lambda>customer.
     rbind (required_double request ''service_time'' ''request'') (\<lambda>service.
       if map_of services customer \<noteq> None then Inl (Invalid_Argument ''duplicate customer request'')
       else Inr (services @ [(customer, service)])))"

text \<open>The type, the service time and the customers after a node of a kind.\<close>

definition node_payload ::
  "(int \<times> real) list \<Rightarrow> xml_node \<Rightarrow> int \<Rightarrow> node_kind \<Rightarrow> int set \<Rightarrow> (string \<times> real \<times> int set) result" where
  "node_payload services xml i k customers =
     (case k of
        Station \<Rightarrow> rbind (required_child xml ''custom'' ''station node'') (\<lambda>custom.
          rbind (required_text custom ''cs_type'' ''station/custom'') (\<lambda>ty. Inr (ty, 0, customers)))
      | Customer \<Rightarrow> (case map_of services i of
          None \<Rightarrow> Inl (Invalid_Argument ''customer has no request'')
        | Some service \<Rightarrow> Inr ([], service, insert i customers))
      | Depot \<Rightarrow> Inr ([], 0, customers))"

definition kind_of_type :: "int \<Rightarrow> node_kind result" where
  "kind_of_type raw_type =
     (if raw_type < 0 \<or> raw_type > 2 then Inl (Invalid_Argument ''unknown node type'')
      else Inr (if raw_type = 0 then Depot else if raw_type = 1 then Customer else Station))"

text \<open>The nodes so far, with the set of the customers seen.\<close>

definition read_node ::
  "(int \<times> real) list \<Rightarrow> node list \<times> int set \<Rightarrow> xml_node \<Rightarrow> (node list \<times> int set) result" where
  "read_node services st xml =
     (case st of (ns, customers) \<Rightarrow>
       rbind (required_int_attribute xml ''id'' ''node'') (\<lambda>i.
       rbind (required_int_attribute xml ''type'' ''node'') (\<lambda>raw_type.
       rbind (kind_of_type raw_type) (\<lambda>k.
       rbind (node_payload services xml i k customers) (\<lambda>(ty, service, customers').
       rbind (required_double xml ''cx'' ''node'') (\<lambda>x.
       rbind (required_double xml ''cy'' ''node'') (\<lambda>y.
         Inr (ns @ [\<lparr>node_id = i, kind = k, x_km = x, y_km = y, node_service_time_h = service,
                     station_type = ty\<rparr>], customers'))))))))"

definition build_instance :: "string \<Rightarrow> xml_node \<Rightarrow> inst result" where
  "build_instance stem doc =
     (if xml_name doc \<noteq> ''instance''
      then Inl (Invalid_Argument (''unexpected XML root '' @ xml_name doc))
      else
     rbind (required_child doc ''info'' ''instance'') (\<lambda>info.
     rbind (required_text info ''dataset'' ''info'') (\<lambda>ds.
     rbind (required_text info ''name'' ''info'') (\<lambda>nm.
     if nm \<noteq> stem then Inl (Invalid_Argument ''instance name differs from filename'')
     else
     rbind (required_child doc ''fleet'' ''instance'') (\<lambda>fleet.
     rbind (required_child fleet ''vehicle_profile'' ''fleet'') (\<lambda>profile.
     rbind (required_child profile ''custom'' ''vehicle_profile'') (\<lambda>custom.
     rbind (read_vehicle profile custom) (\<lambda>v.
     rbind (required_child custom ''charging_functions'' ''vehicle/custom'') (\<lambda>functions.
     rbind (rfold read_curve [] (children_named functions ''function'')) (\<lambda>curves.
     rbind (required_child doc ''requests'' ''instance'') (\<lambda>requests.
     rbind (rfold read_request [] (children_named requests ''request'')) (\<lambda>services.
     rbind (required_child doc ''network'' ''instance'') (\<lambda>network.
     rbind (required_child network ''nodes'' ''network'') (\<lambda>xml_nodes.
     rbind (rfold (read_node services) ([], {}) (children_named xml_nodes ''node'')) (\<lambda>(ns, customers).
       if card customers \<noteq> length services
       then Inl (Invalid_Argument ''requests do not match customer nodes'')
       else mk_instance nm ds (sort_key node_id ns) v curves)))))))))))))))"

text \<open>The contents of the file are \<open>None\<close> when it cannot be opened.\<close>

definition load_montoya_instance :: "string \<Rightarrow> string \<Rightarrow> string option \<Rightarrow> inst result option" where
  "load_montoya_instance path stem contents =
     (case contents of
        None \<Rightarrow> Some (Inl (Invalid_Argument (''cannot open instance '' @ path)))
      | Some source \<Rightarrow> map_option (\<lambda>r. rbind r (build_instance stem)) (parse_document source))"

end
