(* ===== verification/Xml_Properties.thy ===== *)
theory Xml_Properties
  imports Xml_Loader
begin

text \<open>
  Properties of the XML reader: it always answers, its errors are parse errors at a byte of
  the source, printed documents are read back, and what the loader returns is an instance
  whose customers are the requests of the document.
\<close>

section \<open>Entities\<close>

definition entity_of :: "char \<Rightarrow> string" where
  "entity_of c = (if c = CHR ''<'' then ''&lt;'' else if c = CHR ''>'' then ''&gt;''
     else if c = CHR 0x22 then ''&quot;'' else ''&apos;'')"

text \<open>A string whose characters of \<open>P\<close> are written as entities.\<close>

definition encode :: "char set \<Rightarrow> string \<Rightarrow> string" where
  "encode P v = concat (map (\<lambda>c. if c \<in> P then entity_of c else [c]) v)"

lemma encode_simps [simp]:
  "encode P [] = []"
  "encode P (c # v) = (if c \<in> P then entity_of c else [c]) @ encode P v"
  by (simp_all add: encode_def)

lemma encode_none: "encode {} v = v"
  by (induction v) auto

lemma replace_all_Nil [simp]: "encoded \<noteq> [] \<Longrightarrow> replace_all encoded decoded [] = []"
  by (simp add: replace_all.simps starts_with_def)

lemma replace_all_hit:
  "encoded \<noteq> [] \<Longrightarrow> replace_all encoded decoded (encoded @ s) = decoded @ replace_all encoded decoded s"
  by (subst replace_all.simps) (simp add: starts_with_def)

lemma replace_all_miss:
  "\<not> starts_with encoded (c # s) \<Longrightarrow> replace_all encoded decoded (c # s) = c # replace_all encoded decoded s"
  by (subst replace_all.simps) simp

lemma replace_all_other: "c \<noteq> CHR ''&'' \<Longrightarrow>
    replace_all (CHR ''&'' # e) decoded (c # s) = c # replace_all (CHR ''&'' # e) decoded s"
  by (rule replace_all_miss) (simp add: starts_with_def)

lemma replace_all_no_amp: "CHR ''&'' \<notin> set s \<Longrightarrow> replace_all (CHR ''&'' # e) decoded s = s"
  by (induction s) (auto simp: replace_all_other)

lemmas entity_chars = entity_of_def starts_with_def

lemma replace_entity:
  assumes "a \<in> P" and "P \<subseteq> {CHR ''<'', CHR ''>'', CHR 0x22, CHR 0x27}" and "CHR ''&'' \<notin> set v"
  shows "replace_all (entity_of a) [a] (encode P v) = encode (P - {a}) v"
  using assms(3)
proof (induction v)
  case Nil
  then show ?case by (simp add: entity_of_def)
next
  case (Cons c v)
  have a: "a \<in> {CHR ''<'', CHR ''>'', CHR 0x22, CHR 0x27}" using assms by blast
  show ?case
  proof (cases "c = a")
    case True
    have "entity_of a \<noteq> []" by (simp add: entity_of_def)
    then show ?thesis using True Cons assms(1) by (simp add: replace_all_hit)
  next
    case False
    show ?thesis
    proof (cases "c \<in> P")
      case True
      then have "c \<in> {CHR ''<'', CHR ''>'', CHR 0x22, CHR 0x27}" using assms by blast
      then have "replace_all (entity_of a) [a] (entity_of c @ s) = entity_of c @ replace_all (entity_of a) [a] s" for s
        using a False by (auto simp: entity_chars replace_all_other replace_all_miss)
      then show ?thesis using False True Cons by simp
    next
      case False
      then have "replace_all (entity_of a) [a] (c # s) = c # replace_all (entity_of a) [a] s" for s
        using a Cons.prems by (auto simp: entity_of_def replace_all_other)
      then show ?thesis using \<open>c \<noteq> a\<close> False Cons by simp
    qed
  qed
qed

lemma replace_amp:
  assumes "P \<subseteq> {CHR ''<'', CHR ''>'', CHR 0x22, CHR 0x27}" and "CHR ''&'' \<notin> set v"
  shows "replace_all ''&amp;'' ''&'' (encode P v) = encode P v"
  using assms(2)
proof (induction v)
  case (Cons c v)
  have "replace_all ''&amp;'' ''&'' ((if c \<in> P then entity_of c else [c]) @ s) =
      (if c \<in> P then entity_of c else [c]) @ replace_all ''&amp;'' ''&'' s" for s
    using Cons.prems by (auto simp: entity_chars replace_all_other replace_all_miss)
  then show ?case using Cons by simp
qed simp

lemma decode_encode:
  assumes "CHR ''&'' \<notin> set v"
  shows "decode_entities (encode {CHR ''<'', CHR ''>'', CHR 0x22, CHR 0x27} v) = v"
proof -
  have ent: "''&lt;'' = entity_of (CHR ''<'')" "''&gt;'' = entity_of (CHR ''>'')"
    "''&quot;'' = entity_of (CHR 0x22)" "''&apos;'' = entity_of (CHR 0x27)"
    by (simp_all add: entity_of_def)
  have d: "{CHR ''<'', CHR ''>'', CHR 0x22, CHR 0x27} - {CHR ''<''} = {CHR ''>'', CHR 0x22, CHR 0x27}"
    "{CHR ''>'', CHR 0x22, CHR 0x27} - {CHR ''>''} = {CHR 0x22, CHR 0x27}"
    "{CHR 0x22, CHR 0x27} - {CHR 0x22} = {CHR 0x27}" "{CHR 0x27} - {CHR 0x27} = {}"
    by auto
  show ?thesis
    unfolding decode_entities_def entities_def ent
    by (simp add: replace_amp assms replace_entity d encode_none)
qed

section \<open>Printing\<close>

abbreviation markup :: "char set" where
  "markup \<equiv> {CHR ''<'', CHR ''>'', CHR 0x22, CHR 0x27}"

definition print_attribute :: "string \<times> string \<Rightarrow> string" where
  "print_attribute kv = CHR '' '' # fst kv @ [CHR ''='', CHR 0x22] @ encode markup (snd kv) @ [CHR 0x22]"

fun print_node :: "xml_node \<Rightarrow> string" where
  "print_node (Xml_Node nm al txt kids) =
     CHR ''<'' # nm @ concat (map print_attribute al) @ CHR ''>'' # encode markup txt @
       concat (map print_node kids) @ ''</'' @ nm @ ''>''"

definition valid_name :: "string \<Rightarrow> bool" where
  "valid_name nm \<longleftrightarrow> nm \<noteq> [] \<and> list_all name_char nm"

text \<open>
  The nodes that can be printed: names are names, attributes are unique, the text has no
  white space at its ends, and no ampersand occurs (the reader decodes entities twice).
\<close>

fun printable :: "xml_node \<Rightarrow> bool" where
  "printable (Xml_Node nm al txt kids) \<longleftrightarrow> valid_name nm \<and>
     list_all (\<lambda>(k, v). valid_name k \<and> CHR ''&'' \<notin> set v) al \<and> distinct (map fst al) \<and>
     CHR ''&'' \<notin> set txt \<and> trim txt = txt \<and> list_all printable kids"

lemma encode_set: "c \<in> P \<Longrightarrow> P \<subseteq> markup \<Longrightarrow> c \<notin> set (encode P v)"
  by (induction v) (auto simp: entity_of_def)

lemma name_char_facts [simp]:
  "\<not> name_char (CHR '' '')" "\<not> name_char (CHR ''>'')" "\<not> name_char (CHR ''='')"
  "\<not> name_char (CHR ''<'')" "\<not> name_char (CHR ''/'')" "\<not> name_char (CHR ''!'')" "\<not> name_char (CHR ''?'')"
  by (simp_all add: name_char_def is_alnum_def is_digit_def)

lemma name_char_not_space: "name_char c \<Longrightarrow> \<not> is_space c"
  by (auto simp: name_char_def is_alnum_def is_digit_def is_space_def)

lemma takeWhile_list_all: "list_all P xs \<Longrightarrow> takeWhile P (xs @ ys) = xs @ takeWhile P ys"
  by (induction xs) auto

lemma dropWhile_list_all: "list_all P xs \<Longrightarrow> dropWhile P (xs @ ys) = dropWhile P ys"
  by (induction xs) auto

lemma parse_name_valid:
  "valid_name nm \<Longrightarrow> \<not> name_char c \<Longrightarrow> parse_name n (nm @ c # rest) = Inr (nm, c # rest)"
  by (simp add: parse_name_def valid_name_def takeWhile_list_all dropWhile_list_all)

lemma skip_space_name: "valid_name nm \<Longrightarrow> skip_space (nm @ s) = nm @ s"
  by (cases nm) (auto simp: skip_space_def valid_name_def name_char_not_space)

lemma skip_space_other [simp]:
  "skip_space (CHR ''='' # s) = CHR ''='' # s" "skip_space (CHR 0x22 # s) = CHR 0x22 # s"
  "skip_space (CHR ''>'' # s) = CHR ''>'' # s" "skip_space (CHR ''<'' # s) = CHR ''<'' # s"
  "skip_space (CHR '' '' # s) = skip_space s" "skip_space [] = []"
  by (simp_all add: skip_space_def is_space_def)

lemma takeWhile_until: "q \<notin> set v \<Longrightarrow> takeWhile (\<lambda>c. c \<noteq> q) (v @ q # r) = v"
  by (induction v) auto

lemma dropWhile_until: "q \<notin> set v \<Longrightarrow> dropWhile (\<lambda>c. c \<noteq> q) (v @ q # r) = q # r"
  by (induction v) auto

lemma parse_quoted_print:
  assumes "CHR ''&'' \<notin> set v"
  shows "parse_quoted n (CHR 0x22 # encode markup v @ CHR 0x22 # rest) = Inr (v, rest)"
  using encode_set [of "CHR 0x22" markup v] decode_encode [OF assms]
  by (simp add: parse_quoted_def takeWhile_until dropWhile_until)

lemma parse_attribute_print:
  assumes "valid_name k" and "CHR ''&'' \<notin> set v"
  shows "parse_attribute n (k @ CHR ''='' # CHR 0x22 # encode markup v @ CHR 0x22 # rest) = Inr ((k, v), rest)"
  using assms by (simp add: parse_attribute_def parse_name_valid parse_quoted_print Let_def)

lemma parse_attributes_print:
  assumes "list_all (\<lambda>(k, v). valid_name k \<and> CHR ''&'' \<notin> set v) as" and "distinct (map fst (al @ as))"
  shows "parse_attributes n al (concat (map print_attribute as) @ CHR ''>'' # rest) = Inr (al @ as, False, rest)"
  using assms
proof (induction "as" arbitrary: al)
  case Nil
  then show ?case by (simp add: parse_attributes.simps starts_with_def)
next
  case (Cons kv "as")
  obtain k v where kv: "kv = (k, v)" by (cases kv)
  have k: "valid_name k" "CHR ''&'' \<notin> set v" using Cons.prems kv by auto
  let ?rest = "concat (map print_attribute as) @ CHR ''>'' # rest"
  let ?s = "k @ CHR ''='' # CHR 0x22 # encode markup v @ CHR 0x22 # ?rest"
  have no: "\<not> starts_with ''/>'' ?s" "\<not> starts_with ''>'' ?s"
    using k(1) by (cases k; auto simp: starts_with_def valid_name_def)+
  have new: "emplace k v al = al @ [(k, v)]"
    using Cons.prems(2) kv by (auto simp: emplace_def map_of_eq_None_keys)
  have "parse_attributes n al (CHR '' '' # ?s) = parse_attributes n (al @ [(k, v)]) ?rest"
    using no k new
    by (subst parse_attributes.simps) (simp add: skip_space_name parse_attribute_print Let_def)
  also have "\<dots> = Inr ((al @ [(k, v)]) @ as, False, rest)"
    using Cons.prems kv by (intro Cons.IH) auto
  finally show ?case by (simp add: kv print_attribute_def [of "(k, v)"])
qed

lemma starts_with_lt:
  "valid_name nm \<Longrightarrow> \<not> starts_with ''<!--'' (CHR ''<'' # nm @ s) \<and> \<not> starts_with ''</'' (CHR ''<'' # nm @ s)
     \<and> \<not> starts_with ''<?'' (CHR ''<'' # nm @ s)"
  by (cases nm) (auto simp: starts_with_def valid_name_def)

lemma print_node_head: "printable x \<Longrightarrow> \<exists>nm s. valid_name nm \<and> print_node x = CHR ''<'' # nm @ s"
  by (cases x) auto

text \<open>The end of the contents, then the children, then the text in front of them.\<close>

lemma parse_content_end:
  assumes "valid_name nm" and "CHR ''&'' \<notin> set txt" and "trim txt = txt"
  shows "parse_content (Suc fuel) n nm al (encode markup txt) kids (''</'' @ nm @ CHR ''>'' # rest)
    = Some (Inr (Xml_Node nm al txt kids, rest))"
  using assms by (simp add: starts_with_def parse_name_valid decode_encode Let_def)

lemma parse_content_child:
  assumes "printable x" and "parse_element fuel n (print_node x @ s) = Some (Inr (x, s))"
  shows "parse_content (Suc fuel) n nm al content kids (print_node x @ s) =
    parse_content fuel n nm al content (kids @ [x]) s"
proof -
  obtain m t where "valid_name m" and x: "print_node x = CHR ''<'' # m @ t"
    using print_node_head [OF assms(1)] by blast
  then show ?thesis using assms(2) starts_with_lt [of m "t @ s"] by simp
qed

lemma parse_content_text:
  assumes "encode markup txt \<noteq> []"
  shows "parse_content (Suc fuel) n nm al [] kids (encode markup txt @ CHR ''<'' # s) =
    parse_content fuel n nm al (encode markup txt) kids (CHR ''<'' # s)"
proof -
  have lt: "CHR ''<'' \<notin> set (encode markup txt)" by (rule encode_set) auto
  then obtain c v where v: "encode markup txt = c # v" "c \<noteq> CHR ''<''" "CHR ''<'' \<notin> set v"
    using assms by (cases "encode markup txt") auto
  then show ?thesis
    by (simp add: starts_with_def takeWhile_until dropWhile_until)
qed

lemma parse_kids:
  assumes "\<And>x m s. x \<in> set xs \<Longrightarrow> 2 * length (print_node x @ s) + 1 \<le> m \<Longrightarrow>
      parse_element m n (print_node x @ s) = Some (Inr (x, s))"
    and "list_all printable xs" and "valid_name nm" and "CHR ''&'' \<notin> set txt" and "trim txt = txt"
    and "2 * length (concat (map print_node xs) @ ''</'' @ nm @ CHR ''>'' # rest) + 2 \<le> fuel"
  shows "parse_content fuel n nm al (encode markup txt) kids
      (concat (map print_node xs) @ ''</'' @ nm @ CHR ''>'' # rest) =
    Some (Inr (Xml_Node nm al txt (kids @ xs), rest))"
  using assms(1,2,6)
proof (induction xs arbitrary: fuel kids)
  case Nil
  then obtain f where "fuel = Suc f" by (cases fuel) auto
  then show ?case using parse_content_end [OF assms(3-5), of f n al kids rest] by simp
next
  case (Cons x xs)
  let ?s = "concat (map print_node xs) @ ''</'' @ nm @ CHR ''>'' # rest"
  from Cons.prems obtain f where f: "fuel = Suc f" by (cases fuel) auto
  have x: "printable x" "0 < length (print_node x)"
    using Cons.prems(2) by (cases x; auto)+
  have el: "parse_element f n (print_node x @ ?s) = Some (Inr (x, ?s))"
    using Cons.prems(1) [of x ?s f] Cons.prems(3) f by auto
  have "parse_content f n nm al (encode markup txt) (kids @ [x]) ?s =
      Some (Inr (Xml_Node nm al txt ((kids @ [x]) @ xs), rest))"
  proof (rule Cons.IH)
    show "2 * length ?s + 2 \<le> f" using Cons.prems(3) f x(2) by (simp del: length_greater_0_conv)
  qed (use Cons.prems in auto)
  then show ?case using parse_content_child [OF x(1) el] f by simp
qed

lemma parse_element_print:
  "printable x \<Longrightarrow> 2 * length (print_node x @ s) + 1 \<le> fuel \<Longrightarrow>
     parse_element fuel n (print_node x @ s) = Some (Inr (x, s))"
proof (induction x arbitrary: s fuel rule: print_node.induct)
  case (1 nm al body_text kids)
  let ?tail = "concat (map print_node kids) @ ''</'' @ nm @ CHR ''>'' # s"
  let ?body = "encode markup body_text @ ?tail"
  from 1(3) obtain f where f: "fuel = Suc f" by (cases fuel) auto
  have v: "valid_name nm" "CHR ''&'' \<notin> set body_text" "trim body_text = body_text" "list_all printable kids"
    using 1(2) by auto
  have pa: "parse_attributes n [] (concat (map print_attribute al) @ CHR ''>'' # ?body) = Inr (al, False, ?body)"
    using parse_attributes_print [of al "[]"] 1(2) by simp
  have pn: "parse_name n (nm @ concat (map print_attribute al) @ CHR ''>'' # ?body) =
      Inr (nm, concat (map print_attribute al) @ CHR ''>'' # ?body)"
    using parse_name_valid [OF v(1)] by (cases al) (auto simp: print_attribute_def)
  have "parse_element fuel n (print_node (Xml_Node nm al body_text kids) @ s) = parse_content f n nm al [] [] ?body"
    using f pa pn starts_with_lt [OF v(1)] by simp
  also have "\<dots> = Some (Inr (Xml_Node nm al body_text ([] @ kids), s))"
  proof (cases "encode markup body_text = []")
    case True
    have "parse_content f n nm al (encode markup body_text) [] ?tail = Some (Inr (Xml_Node nm al body_text ([] @ kids), s))"
    proof (rule parse_kids [OF _ v(4,1,2,3)])
      show "2 * length ?tail + 2 \<le> f" using 1(3) f by simp
    next
      fix x m t assume "x \<in> set kids" "2 * length (print_node x @ t) + 1 \<le> m"
      then show "parse_element m n (print_node x @ t) = Some (Inr (x, t))"
        using 1(1) v(4) by (simp add: list_all_iff)
    qed
    then show ?thesis using True by simp
  next
    case False
    then have ne: "0 < length (encode markup body_text)" by simp
    obtain g where g: "f = Suc g" using 1(3) f by (cases f) auto
    have "\<exists>t. ?tail = CHR ''<'' # t"
    proof (cases kids)
      case (Cons x xs)
      then show ?thesis using v(4) print_node_head [of x] by auto
    qed simp
    then have "parse_content f n nm al [] [] ?body = parse_content g n nm al (encode markup body_text) [] ?tail"
      using parse_content_text [OF False] g by metis
    also have "\<dots> = Some (Inr (Xml_Node nm al body_text ([] @ kids), s))"
    proof (rule parse_kids [OF _ v(4,1,2,3)])
      show "2 * length ?tail + 2 \<le> g" using 1(3) f g ne by (simp del: length_greater_0_conv)
    next
      fix x m t assume "x \<in> set kids" "2 * length (print_node x @ t) + 1 \<le> m"
      then show "parse_element m n (print_node x @ t) = Some (Inr (x, t))"
        using 1(1) v(4) by (simp add: list_all_iff)
    qed
    finally show ?thesis .
  qed
  finally show ?case by simp
qed

section \<open>Errors of the parser\<close>

definition xml_error :: "nat \<Rightarrow> error \<Rightarrow> bool" where
  "xml_error n e \<longleftrightarrow> (\<exists>k m. k \<le> n \<and>
     e = Invalid_Argument (''XML parse error at byte '' @ string_of_nat k @ '': '' @ m))"

lemma xml_fail_error: "xml_fail n s m = Inl e \<Longrightarrow> xml_error n e"
  by (auto simp: xml_fail_def xml_error_def intro!: exI [of _ "n - length s"])

lemma xml_fail_not_Inr [simp]: "xml_fail n s m \<noteq> Inr x"
  by (simp add: xml_fail_def)

lemma skip_until_error: "skip_until n t s = Inl e \<Longrightarrow> xml_error n e"
  by (auto simp: skip_until_def dest: xml_fail_error split: option.splits)

lemma skip_misc_error: "skip_misc n s = Inl e \<Longrightarrow> xml_error n e"
proof (induction n s rule: skip_misc.induct)
  case (1 n s)
  from 1(3) show ?case
    by (subst (asm) skip_misc.simps)
      (auto simp: Let_def dest: skip_until_error 1(1) [OF refl] 1(2) [OF refl] split: if_splits sum.splits)
qed

lemma parse_name_error: "parse_name n s = Inl e \<Longrightarrow> xml_error n e"
  by (auto simp: parse_name_def dest: xml_fail_error split: if_splits)

lemma parse_attribute_error: "parse_attribute n s = Inl e \<Longrightarrow> xml_error n e"
  by (auto simp: parse_attribute_def parse_quoted_def rbind_eq_Inl_conv Let_def
      dest: xml_fail_error parse_name_error split: if_splits list.splits)

lemma parse_attributes_error: "parse_attributes n al s = Inl e \<Longrightarrow> xml_error n e"
proof (induction n al s rule: parse_attributes.induct)
  case (1 n al s)
  from 1(2) show ?case
    by (subst (asm) parse_attributes.simps)
      (auto simp: Let_def dest: parse_attribute_error 1(1) [OF refl] split: if_splits sum.splits prod.splits)
qed

lemma parse_element_error:
  "parse_element fuel n s = Some (Inl e) \<Longrightarrow> xml_error n e"
  "parse_content fuel n nm al content kids t = Some (Inl e) \<Longrightarrow> xml_error n e"
proof (induction fuel n s and fuel n nm al content kids t rule: parse_element_parse_content.induct)
  case (2 fuel n s)
  show ?case
  proof (cases "s = [] \<or> hd s \<noteq> CHR ''<'' \<or> starts_with ''</'' s")
    case True
    then show ?thesis using 2(2) by (auto dest: xml_fail_error)
  next
    case False
    show ?thesis
    proof (cases "parse_name n (tl s)")
      case (Inr nr)
      then obtain nm r where pn: "parse_name n (tl s) = Inr (nm, r)" by (cases nr) auto
      show ?thesis
      proof (cases "parse_attributes n [] r")
        case (Inr ar)
        then obtain al empty_tag r1 where pa: "parse_attributes n [] r = Inr (al, empty_tag, r1)"
          by (cases ar) auto
        show ?thesis using 2(1) [OF False pn refl pa refl refl] 2(2) False pn pa
          by (cases empty_tag) auto
      qed (use 2(2) False pn parse_attributes_error in auto)
    qed (use 2(2) False parse_name_error in auto)
  qed
next
  case (4 fuel n nm al content kids s)
  from 4(5) show ?case
    by (auto simp: rbind_eq_Inl_conv Let_def
        dest: xml_fail_error parse_name_error skip_until_error 4(1) 4(2) 4(3) 4(4)
        split: if_splits sum.splits prod.splits option.splits)
qed auto

lemma parse_document_answers:
  "\<exists>r. parse_document source = Some r \<and> (\<forall>e. r = Inl e \<longrightarrow> xml_error (length source) e)"
proof (cases "skip_misc (length source) source")
  case (Inl e)
  then show ?thesis using skip_misc_error by (auto simp: parse_document_def Let_def)
next
  case (Inr s)
  obtain parsed where p: "parse_element (2 * length s + 1) (length source) s = Some parsed"
    using parse_fuel(1) [of s "2 * length s + 1" "length source"] by auto
  have "xml_error (length source) e" if "parsed = Inl e" for e
    by (rule parse_element_error(1) [OF p [unfolded that]])
  then show ?thesis using Inr p
    by (auto simp: parse_document_def Let_def rbind_eq_Inl_conv
        dest: xml_fail_error skip_misc_error split: if_splits)
qed

lemma parse_document_print:
  assumes "printable x"
  shows "parse_document (print_node x) = Some (Inr x)"
proof -
  obtain nm s where x: "valid_name nm" "print_node x = CHR ''<'' # nm @ s"
    using print_node_head [OF assms] by blast
  let ?n = "length (print_node x)"
  have "skip_misc ?n (print_node x) = Inr (print_node x)"
    using starts_with_lt [OF x(1), of s] x(2) by (subst skip_misc.simps) (simp add: Let_def)
  moreover have "skip_misc ?n [] = Inr []"
    by (subst skip_misc.simps) (simp add: Let_def starts_with_def)
  moreover have "parse_element (2 * ?n + 1) ?n (print_node x) = Some (Inr (x, []))"
    using parse_element_print [OF assms, of "[]" "2 * ?n + 1" ?n] by simp
  ultimately show ?thesis by (simp add: parse_document_def Let_def)
qed

section \<open>The loaded instance\<close>

definition requests_of :: "xml_node \<Rightarrow> xml_node list" where
  "requests_of doc = (case xml_child doc ''requests'' of None \<Rightarrow> []
     | Some requests \<Rightarrow> children_named requests ''request'')"

lemma read_request_distinct:
  "rfold read_request services xs = Inr services' \<Longrightarrow> distinct (map fst services) \<Longrightarrow>
     distinct (map fst services')"
  by (erule rfold_invariant [where P = "\<lambda>s. distinct (map fst s)"])
    (auto simp: read_request_def rbind_eq_Inr_conv map_of_eq_None_keys split: if_splits)

definition nodes_read :: "(int \<times> real) list \<Rightarrow> node list \<times> int set \<Rightarrow> bool" where
  "nodes_read services st \<longleftrightarrow>
     snd st = set (ids_of_kind Customer (fst st)) \<and>
     (\<forall>n \<in> set (fst st). (kind n = Customer \<longrightarrow> map_of services (node_id n) = Some (node_service_time_h n)) \<and>
        (kind n \<noteq> Customer \<longrightarrow> node_service_time_h n = 0))"

lemma read_node_step:
  assumes "nodes_read services st" and "read_node services st x = Inr st'"
  shows "nodes_read services st'"
proof -
  obtain ns customers where st: "st = (ns, customers)" by (cases st)
  obtain i k ty service customers' px py where r:
    "node_payload services x i k customers = Inr (ty, service, customers')"
    "st' = (ns @ [\<lparr>node_id = i, kind = k, x_km = px, y_km = py, node_service_time_h = service,
                        station_type = ty\<rparr>], customers')"
    using assms(2) unfolding st read_node_def by (auto simp: rbind_eq_Inr_conv)
  then show ?thesis using assms(1)
    by (cases k) (auto simp: nodes_read_def st node_payload_def rbind_eq_Inr_conv ids_of_kind_append
        ids_of_kind_single split: option.splits)
qed

lemma read_nodes_inv:
  "rfold (read_node services) ([], {}) xs = Inr st \<Longrightarrow> nodes_read services st"
  by (erule rfold_invariant [where P = "nodes_read services"])
    (simp add: nodes_read_def ids_of_kind_def, rule read_node_step)

lemma mk_instance_name: "mk_instance nm ds ns v curves = Inr I \<Longrightarrow> name I = nm"
  by (auto simp: mk_instance_def rbind_eq_Inr_conv split: if_splits)

lemma build_instance_sound:
  assumes "build_instance stem doc = Inr I"
  shows "\<exists>services. rfold read_request [] (requests_of doc) = Inr services \<and>
    inst_ok I \<and> name I = stem \<and> sorted_wrt (<) (ids I) \<and>
    set (customer_ids I) = fst ` set services \<and>
    (\<forall>n \<in> set (nodes I). (kind n = Customer \<longrightarrow> map_of services (node_id n) = Some (node_service_time_h n)) \<and>
        (kind n \<noteq> Customer \<longrightarrow> node_service_time_h n = 0))"
proof -
  obtain requests services ns customers ds v curves xs where
    req: "required_child doc ''requests'' ''instance'' = Inr requests"
    and ser: "rfold read_request [] (children_named requests ''request'') = Inr services"
    and ns: "rfold (read_node services) ([], {}) xs = Inr (ns, customers)"
    and card: "card customers = length services"
    and mk: "mk_instance stem ds (sort_key node_id ns) v curves = Inr I"
    using assms by (auto simp: build_instance_def rbind_eq_Inr_conv split: if_splits)
  have xr: "requests_of doc = children_named requests ''request''"
    using req by (auto simp: required_child_def requests_of_def split: option.splits)
  note inv = read_nodes_inv [OF ns]
  note ok = mk_instance_ok [OF mk]
  have dist: "distinct (map fst services)" using read_request_distinct [OF ser] by simp
  have sub: "customers \<subseteq> fst ` set services"
    using inv by (force simp: nodes_read_def ids_of_kind_def dest: map_of_SomeD)
  have "card (fst ` set services) = length services"
    using dist by (metis distinct_card length_map list.set_map)
  then have eq: "customers = fst ` set services"
    using card sub by (intro card_subset_eq) auto
  have "set (customer_ids I) = customers"
    using inst_okD(7) [OF ok(1)] inv ok(2) by (auto simp: ids_of_kind_def nodes_read_def)
  moreover have "sorted_wrt (<) (ids I)"
    using inst_okD(2) [OF ok(1)] ok(2) by (simp add: ids_def strict_sorted_iff)
  ultimately show ?thesis
    using ser xr ok inv eq mk_instance_name [OF mk] by (auto simp: nodes_read_def)
qed

section \<open>Properties\<close>

text \<open>
  C37: the parser answers on every input: the recursion always returns, either with a document
  or with a parse error that names a byte position within the source.
\<close>

theorem xml_parser_answers:
  "\<exists>r. parse_document source = Some r \<and>
     (\<forall>e. r = Inl e \<longrightarrow> (\<exists>k m. k \<le> length source \<and>
        e = Invalid_Argument (''XML parse error at byte '' @ string_of_nat k @ '': '' @ m)))"
  using parse_document_answers [of source] by (simp add: xml_error_def)

theorem xml_parser_answers_witness:
  "\<exists>e. parse_document ''<a><b></a>'' = Some (Inl e) \<and>
     (\<exists>k m. k \<le> length ''<a><b></a>'' \<and> e = Invalid_Argument (''XML parse error at byte '' @ string_of_nat k @ '': '' @ m))"
proof -
  have "\<exists>e. parse_document ''<a><b></a>'' = Some (Inl e)"
    by (simp add: parse_document_def skip_misc.simps skip_space_def is_space_def starts_with_def Let_def
        numeral_eq_Suc parse_name_def name_char_def is_alnum_def is_digit_def parse_attributes.simps xml_fail_def)
  then obtain e where e: "parse_document ''<a><b></a>'' = Some (Inl e)" by blast
  then have "\<exists>k m. k \<le> length ''<a><b></a>'' \<and>
      e = Invalid_Argument (''XML parse error at byte '' @ string_of_nat k @ '': '' @ m)"
    using xml_parser_answers [of "''<a><b></a>''"] by (metis option.inject)
  then show ?thesis using e by blast
qed

text \<open>
  C36: a printed document is read back.  The node is any tree with proper names, unique
  attributes and trimmed texts; markup characters in texts and values are written as
  entities; ampersands are excluded (\<open>decode_twice\<close> below says why).
\<close>

theorem xml_round_trip:
  assumes "printable x"
  shows "parse_document (print_node x) = Some (Inr x)"
  using parse_document_print [OF assms] .

text \<open>
  The entities are replaced one kind after the other, \<open>&amp;\<close> first, so that a written
  ampersand can complete another entity: the text \<open>&lt;\<close> cannot be written.
\<close>

lemma decode_twice: "decode_entities ''&amp;lt;'' = ''<''"
  by (simp add: decode_entities_def entities_def replace_all.simps starts_with_def)

definition leaf :: "string \<Rightarrow> string \<Rightarrow> xml_node" where
  "leaf nm txt = Xml_Node nm [] txt []"

theorem xml_round_trip_witness:
  "parse_document (print_node (Xml_Node ''a'' [(''k'', ''x < y'')] ''t'' [leaf ''b'' ''1 > 0''])) =
     Some (Inr (Xml_Node ''a'' [(''k'', ''x < y'')] ''t'' [leaf ''b'' ''1 > 0'']))"
  by (rule xml_round_trip)
    (simp add: leaf_def valid_name_def name_char_def is_alnum_def is_digit_def trim_def is_space_def)

text \<open>
  C35: what the loader returns is a valid instance with the name of the file, its nodes in the
  order of their identifiers, whose customers are exactly the requested ones, each with the
  service time of its request, while no other node has a service time.
\<close>

theorem xml_loader_sound:
  assumes "load_montoya_instance path stem (Some source) = Some (Inr I)"
  shows "\<exists>doc services. parse_document source = Some (Inr doc) \<and>
    rfold read_request [] (requests_of doc) = Inr services \<and>
    inst_ok I \<and> name I = stem \<and> sorted_wrt (<) (ids I) \<and>
    set (customer_ids I) = fst ` set services \<and>
    (\<forall>n \<in> set (nodes I). (kind n = Customer \<longrightarrow> map_of services (node_id n) = Some (node_service_time_h n)) \<and>
        (kind n \<noteq> Customer \<longrightarrow> node_service_time_h n = 0))"
proof -
  obtain doc where "parse_document source = Some (Inr doc)" and b: "build_instance stem doc = Inr I"
    using assms by (auto simp: load_montoya_instance_def rbind_eq_Inr_conv)
  then show ?thesis using build_instance_sound [OF b] by blast
qed

text \<open>A depot and a customer.\<close>

definition sample_node :: "string \<Rightarrow> string \<Rightarrow> string \<Rightarrow> xml_node" where
  "sample_node i ty x = Xml_Node ''node'' [(''id'', i), (''type'', ty)] [] [leaf ''cx'' x, leaf ''cy'' ''0'']"

definition sample_doc :: xml_node where
  "sample_doc = Xml_Node ''instance'' [] []
     [Xml_Node ''info'' [] [] [leaf ''dataset'' ''d'', leaf ''name'' ''t''],
      Xml_Node ''network'' [] [] [Xml_Node ''nodes'' [] []
        [sample_node ''1'' ''1'' ''3.5'', sample_node ''0'' ''0'' ''1e1'']],
      Xml_Node ''fleet'' [] [] [Xml_Node ''vehicle_profile'' [] []
        [leaf ''speed_factor'' ''40'', leaf ''max_travel_time'' ''10'',
         Xml_Node ''custom'' [] [] [leaf ''consumption_rate'' ''125'', leaf ''battery_capacity'' ''16000'',
           Xml_Node ''charging_functions'' [] [] []]]],
      Xml_Node ''requests'' [] [] [Xml_Node ''request'' [(''node'', ''1'')] [] [leaf ''service_time'' ''0.5'']]]"

lemmas char_classes = name_char_def is_alnum_def is_digit_def is_space_def

lemmas number_eval = stod_def strtod_def stoi_def take_sign_def skip_space_def is_space_def
  starts_with_word_def lower_def take_number_def is_digit_of_def hex_digit_def digits_value_def
  take_exponent_def Let_def isfinite_numeral_small

lemma sample_numbers:
  "stoi ''0'' = Inr (0, [])" "stoi ''1'' = Inr (1, [])"
  "stod ''0'' = Inr (Some 0, [])" "stod ''3.5'' = Inr (Some (7 / 2), [])"
  "stod ''1e1'' = Inr (Some 10, [])" "stod ''0.5'' = Inr (Some (1 / 2), [])"
  "stod ''40'' = Inr (Some 40, [])" "stod ''10'' = Inr (Some 10, [])"
  "stod ''125'' = Inr (Some 125, [])" "stod ''16000'' = Inr (Some 16000, [])"
  by (simp_all add: number_eval)

lemma sample_doc_printable: "printable sample_doc"
  by (simp add: sample_doc_def sample_node_def leaf_def valid_name_def char_classes trim_def)

lemma sample_doc_built: "\<exists>I. build_instance ''t'' sample_doc = Inr I"
  by (simp add: build_instance_def sample_doc_def sample_node_def leaf_def required_child_def xml_child_def
      required_text_def required_double_def required_int_attribute_def children_named_def read_vehicle_def
      read_request_def read_node_def kind_of_type_def node_payload_def sample_numbers
      mk_instance_def vehicle_valid_def isfinite_numeral_small scan_node_def empty_scan_def
      enumerate_eq_zip Let_def)

theorem xml_loader_sound_witness:
  "\<exists>I. load_montoya_instance ''t.xml'' ''t'' (Some (print_node sample_doc)) = Some (Inr I) \<and>
     inst_ok I \<and> name I = ''t''"
proof -
  obtain I where "build_instance ''t'' sample_doc = Inr I" using sample_doc_built by blast
  then have "load_montoya_instance ''t.xml'' ''t'' (Some (print_node sample_doc)) = Some (Inr I)"
    using parse_document_print [OF sample_doc_printable] by (simp add: load_montoya_instance_def)
  with xml_loader_sound [OF this] show ?thesis by blast
qed

end
