(* ===== verification/Path_Codec.thy ===== *)
theory Path_Codec
  imports Prelude "HOL-Library.Word" "HOL-Library.List_Lexorder"
begin

text \<open>
  The station paths of a path catalogue (\<open>PathCatalog\<close> in include/ils_sp/search.hpp and
  src/search.cpp): a descriptor stores a path in 64 bits, either packed as four-bit station
  codes from the most significant nibble on, or as an offset and a size into a flat array.
\<close>

unbundle bit_operations_syntax

section \<open>Descriptors\<close>

record path_descriptor =
  station_storage :: "64 word"
  total_distance_km :: real

record path_catalog =
  cat_paths :: "path_descriptor list"
  flat_station_ids :: "int list"
  packed_station_ids :: "int list"
  packed_station_count :: nat
  packed :: bool

text \<open>\<open>std::array<int, 15>::size\<close>.\<close>

definition packed_slots :: nat where
  "packed_slots = 15"

definition known_stations :: "path_catalog \<Rightarrow> int list" where
  "known_stations cat = take (packed_station_count cat) (packed_station_ids cat)"

text \<open>\<open>std::lower_bound\<close> on the sorted known stations.\<close>

definition lower_bound :: "int list \<Rightarrow> int \<Rightarrow> nat" where
  "lower_bound known s = length (takeWhile (\<lambda>k. k < s) known)"

fun encode_packed :: "int list \<Rightarrow> nat \<Rightarrow> int list \<Rightarrow> 64 word \<Rightarrow> 64 word result" where
  "encode_packed known index [] encoded = Inr encoded"
| "encode_packed known index (s # ss) encoded =
     (let found = lower_bound known s
      in if found = length known \<or> known ! found \<noteq> s
         then Inl (Invalid_Argument ''packed path contains an unknown station'')
         else encode_packed known (index + 1) ss
                (encoded OR push_bit (60 - 4 * index) (of_nat (found + 1))))"

definition encode_path :: "path_catalog \<Rightarrow> int list \<Rightarrow> 32 word \<Rightarrow> 64 word result" where
  "encode_path cat stations flat_offset =
     (if \<not> packed cat then Inr (ucast flat_offset OR push_bit 32 (of_nat (length stations)))
      else if length stations > packed_slots then Inl (Length_Error ''packed station path is too long'')
      else encode_packed (known_stations cat) 0 stations 0)"

text \<open>\<open>std::countr_zero\<close>, 64 for zero.\<close>

definition countr_zero :: "64 word \<Rightarrow> nat" where
  "countr_zero w = length (takeWhile (\<lambda>i. \<not> bit w i) [0..<64])"

definition path_size :: "path_catalog \<Rightarrow> path_descriptor \<Rightarrow> nat" where
  "path_size cat path =
     (if \<not> packed cat then unat (ucast (drop_bit 32 (station_storage path)) :: 32 word)
      else 16 - countr_zero (station_storage path) div 4)"

definition decode_code :: "path_catalog \<Rightarrow> 64 word \<Rightarrow> nat \<Rightarrow> int result" where
  "decode_code cat storage index =
     (let code = unat (drop_bit (60 - 4 * index) storage AND 15)
      in if code = 0 \<or> code > length (packed_station_ids cat)
         then Inl (Undefined ''packed_station_ids[code - 1]'')
         else Inr (packed_station_ids cat ! (code - 1)))"

definition path_stations :: "path_catalog \<Rightarrow> path_descriptor \<Rightarrow> int list result" where
  "path_stations cat path =
     (let n = path_size cat path
      in if packed cat then rmap (decode_code cat (station_storage path)) [0..<n]
         else let offset = unat (ucast (station_storage path) :: 32 word)
              in if offset + n > length (flat_station_ids cat) then Inl (Undefined ''span::subspan'')
                 else Inr (take n (drop offset (flat_station_ids cat))))"

definition lexically_less :: "path_catalog \<Rightarrow> path_descriptor \<Rightarrow> path_descriptor \<Rightarrow> bool result" where
  "lexically_less cat left right =
     (if packed cat then Inr (station_storage left < station_storage right)
      else rbind (path_stations cat left) (\<lambda>l. rbind (path_stations cat right) (\<lambda>r. Inr (l < r))))"

section \<open>Nibbles as digits\<close>

text \<open>The number with the digits \<open>cs\<close> in base 16, the first at weight \<open>16 ^ k\<close>.\<close>

fun digits_at :: "nat \<Rightarrow> nat list \<Rightarrow> nat" where
  "digits_at k [] = 0"
| "digits_at k (c # cs) = c * 16 ^ k + digits_at (k - 1) cs"

definition nibbles :: "nat list \<Rightarrow> bool" where
  "nibbles cs \<longleftrightarrow> (\<forall>c \<in> set cs. 0 < c \<and> c < 16)"

lemma digits_at_less: "nibbles cs \<Longrightarrow> length cs \<le> k \<Longrightarrow> digits_at k cs < 16 ^ Suc k"
proof (induction cs arbitrary: k)
  case (Cons c cs)
  then obtain j where k: "k = Suc j" by (cases k) auto
  have "digits_at j cs < 16 ^ k" using Cons k by (simp add: nibbles_def)
  moreover have "c * 16 ^ k \<le> 15 * 16 ^ k" using Cons.prems by (intro mult_right_mono) (auto simp: nibbles_def)
  ultimately have "c * 16 ^ k + digits_at j cs < 15 * 16 ^ k + 16 ^ k" by (rule add_le_less_mono [rotated])
  then show ?case using k by simp
qed simp

lemma digit_at:
  "nibbles cs \<Longrightarrow> length cs \<le> k \<Longrightarrow> i < length cs \<Longrightarrow> digits_at k cs div 16 ^ (k - i) mod 16 = cs ! i"
proof (induction cs arbitrary: k i)
  case (Cons c cs)
  then obtain j where k: "k = Suc j" by (cases k) auto
  have cs: "nibbles cs" "length cs \<le> j" "c < 16" using Cons.prems k by (auto simp: nibbles_def)
  have small: "digits_at j cs < 16 ^ k" using digits_at_less [OF cs(1,2)] k by simp
  show ?case
  proof (cases i)
    case 0
    have "(c * 16 ^ k + digits_at j cs) div 16 ^ k = c" using small by simp
    then show ?thesis using 0 k cs(3) by simp
  next
    case (Suc m)
    then have m: "m < length cs" "k - i = j - m" "m \<le> j" using Cons.prems k cs(2) by auto
    have "(16::nat) ^ k = 16 ^ (j - m) * (16 * 16 ^ m)"
      using m(3) k by (simp flip: power_add)
    then have "c * 16 ^ k = (c * 16 ^ m * 16) * 16 ^ (j - m)" by simp
    then have "(c * 16 ^ k + digits_at j cs) div 16 ^ (j - m) = (c * 16 ^ m * 16) + digits_at j cs div 16 ^ (j - m)"
      by (simp only: div_mult_self3 power_not_zero zero_neq_numeral [symmetric] not_False_eq_True)
    then have "(c * 16 ^ k + digits_at j cs) div 16 ^ (j - m) mod 16 = digits_at j cs div 16 ^ (j - m) mod 16"
      by (simp only: mod_mult_self3)
    then show ?thesis using Cons.IH [OF cs(1,2) m(1)] Suc m k by simp
  qed
qed simp

lemma digits_at_dvd: "length cs \<le> k \<Longrightarrow> 16 ^ (Suc k - length cs) dvd digits_at k cs"
proof (induction cs arbitrary: k)
  case (Cons c cs)
  then obtain j where k: "k = Suc j" by (cases k) auto
  have "(16::nat) ^ (Suc j - length cs) dvd digits_at j cs" using Cons k by auto
  moreover have "(16::nat) ^ (Suc j - length cs) dvd 16 ^ k" using k by (intro le_imp_power_dvd) auto
  ultimately show ?case using k by simp
qed simp

lemma digits_at_less_iff:
  "nibbles cs \<Longrightarrow> nibbles ds \<Longrightarrow> length cs \<le> k \<Longrightarrow> length ds \<le> k \<Longrightarrow> digits_at k cs < digits_at k ds \<longleftrightarrow> cs < ds"
proof (induction cs arbitrary: ds k)
  case Nil
  then show ?case by (cases ds) (auto simp: nibbles_def)
next
  case (Cons c cs)
  show ?case
  proof (cases ds)
    case Nil
    then show ?thesis by simp
  next
    case d: (Cons d ds')
    from Cons.prems d obtain j where k: "k = Suc j" by (cases k) auto
    have n: "nibbles cs" "nibbles ds'" "length cs \<le> j" "length ds' \<le> j"
      using Cons.prems d k by (auto simp: nibbles_def)
    have small: "digits_at j cs < 16 ^ k" "digits_at j ds' < 16 ^ k"
      using digits_at_less n k by force+
    have step: "a * 16 ^ k + x < b * 16 ^ k + y" if "a < b" "x < 16 ^ k" for a b x y :: nat
    proof -
      have "Suc a * 16 ^ k \<le> b * 16 ^ k" using that(1) by (intro mult_right_mono) auto
      then show ?thesis using that(2) by simp
    qed
    consider "c < d" | "c = d" | "d < c" by linarith
    then show ?thesis
    proof cases
      case 1
      then show ?thesis using d k step [OF 1 small(1), of "digits_at j ds'"] by simp
    next
      case 2
      then show ?thesis using d k Cons.IH [OF n] by simp
    next
      case 3
      then show ?thesis using d k step [OF 3 small(2), of "digits_at j cs"] by simp
    qed
  qed
qed

end
