(* ===== verification/Path_Properties.thy ===== *)
theory Path_Properties
  imports Path_Codec
begin

text \<open>Stored paths are read back, and packed paths compare like the lists of their stations.\<close>

unbundle bit_operations_syntax

section \<open>Words as numbers\<close>

lemma and_zero_nat: "2 ^ m dvd (a::nat) \<Longrightarrow> b < 2 ^ m \<Longrightarrow> a AND b = 0"
proof (rule bit_eqI)
  fix n assume "2 ^ m dvd a" "b < 2 ^ m"
  then obtain q where "a = push_bit m q" and "take_bit m b = b"
    by (metis dvdE mult.commute push_bit_eq_mult take_bit_nat_eq_self_iff)
  then show "bit (a AND b) n = bit 0 n"
    by (metis bit_0_eq bit_and_iff bit_push_bit_iff bit_take_bit_iff bot_apply bot_bool_def leD)
qed

lemma or_is_sum:
  fixes a b :: "64 word"
  assumes "2 ^ m dvd unat a" and "unat b < 2 ^ m"
  shows "unat (a OR b) = unat a + unat b"
  using and_zero_nat [OF assms] by (simp add: unsigned_or_eq disjunctive_add_eq_or)

lemma or_is_sum_high:
  fixes a b :: "64 word"
  assumes "2 ^ m dvd unat b" and "unat a < 2 ^ m"
  shows "unat (a OR b) = unat a + unat b"
  using or_is_sum [OF assms] by (simp add: or.commute add.commute)

lemma unat_push: "c * 2 ^ s < 2 ^ 64 \<Longrightarrow> unat (push_bit s (of_nat c :: 64 word)) = c * 2 ^ s"
proof -
  assume a: "c * 2 ^ s < 2 ^ 64"
  have "c \<le> c * 2 ^ s" by simp
  with a have "c < 2 ^ 64" by linarith
  then have "unat (of_nat c :: 64 word) = c" by (simp add: unat_of_nat)
  moreover have "unat (push_bit s (of_nat c :: 64 word)) = take_bit 64 (push_bit s (unat (of_nat c :: 64 word)))"
    by (subst unsigned_push_bit_eq) simp
  ultimately show ?thesis using a
    by (simp only: push_bit_eq_mult take_bit_nat_eq_self)
qed

lemma unat_nibble: "unat (drop_bit s w AND 15 :: 64 word) = unat w div 2 ^ s mod 16"
proof -
  have "unat (drop_bit s w AND 15) = unat (drop_bit s w) AND unat (15 :: 64 word)"
    by (rule unsigned_and_eq)
  also have "\<dots> = unat (drop_bit s w) AND mask 4" by (simp add: mask_eq_exp_minus_1)
  also have "unat (drop_bit s w) = unat w div 2 ^ s"
  proof -
    have "take_bit 64 (unat w) = unat w"
      using unsigned_less [of w, where ?'a = nat] by (simp add: take_bit_nat_eq_self)
    then show ?thesis by (subst unsigned_drop_bit_eq) (simp add: drop_bit_eq_div)
  qed
  also have "unat w div 2 ^ s AND mask 4 = unat w div 2 ^ s mod 16"
    by (simp only: take_bit_eq_mask [symmetric] take_bit_eq_mod) simp
  finally show ?thesis .
qed

section \<open>Trailing zeros\<close>

lemma countr_zero_between:
  assumes "\<And>i. i < a \<Longrightarrow> \<not> bit w i" and "bit w b" and "b < 64"
  shows "a \<le> countr_zero w" and "countr_zero w \<le> b"
proof -
  let ?t = "takeWhile (\<lambda>i. \<not> bit w i) [0..<64]"
  show "countr_zero w \<le> b"
  proof (rule ccontr)
    assume "\<not> ?thesis"
    then have b: "b < length ?t" by (simp add: countr_zero_def)
    then have "?t ! b = b" using assms(3) by (simp add: takeWhile_nth)
    moreover have "?t ! b \<in> set ?t" using b by (rule nth_mem)
    ultimately show False using assms(2) by (metis (mono_tags, lifting) set_takeWhileD)
  qed
  then have lt: "length ?t < length [0..<64]" using assms(3) by (simp add: countr_zero_def)
  have "bit w ([0..<64] ! length ?t)" using nth_length_takeWhile [OF lt] by simp
  then have "bit w (length ?t)" using lt by simp
  then show "a \<le> countr_zero w" using assms(1) by (metis countr_zero_def not_le)
qed

lemma bit_unat: "bit w i \<longleftrightarrow> i < 64 \<and> odd (unat w div 2 ^ i)" for w :: "64 word"
proof -
  have "bit w i \<longleftrightarrow> i < 64 \<and> bit (unat w) i" by (auto simp: bit_unsigned_iff dest: bit_imp_le_length)
  then show ?thesis by (simp add: bit_iff_odd)
qed

lemma countr_zero_nibble:
  assumes "16 ^ j dvd unat w" and "unat w div 16 ^ j mod 16 \<noteq> 0" and "j < 16"
  shows "countr_zero w div 4 = j"
proof -
  have p: "(16::nat) ^ j = 2 ^ (4 * j)" by (simp add: power_mult)
  obtain q where q: "unat w = 2 ^ (4 * j) * q" using assms(1) p by (metis dvdE)
  have "\<exists>r < 4. odd (q div 2 ^ r)"
  proof (rule ccontr)
    assume none: "\<not> ?thesis"
    have ev: "even (q div 2 ^ r)" if "r < 4" for r using none that by blast
    have "even q" "even (q div 2)" "even (q div 4)" "even (q div 8)"
      using ev [of 0] ev [of 1] ev [of 2] ev [of 3] by simp_all
    then have "q mod 16 = 0" by presburger
    then show False using assms(2) q p by simp
  qed
  then obtain r where r: "r < 4" "odd (q div 2 ^ r)" by blast
  have "unat w div 2 ^ (4 * j + r) = q div 2 ^ r"
    using q by (simp add: power_add div_mult2_eq)
  then have b: "bit w (4 * j + r)" "4 * j + r < 64" using r assms(3) by (auto simp: bit_unat)
  have none: "\<not> bit w i" if "i < 4 * j" for i
  proof -
    have "(2::nat) ^ (4 * j) = 2 ^ i * (2 * 2 ^ (4 * j - Suc i))"
      using that by (simp flip: power_add power_Suc)
    then have "unat w div 2 ^ i = 2 * (2 ^ (4 * j - Suc i) * q)" using q by simp
    then show ?thesis by (simp add: bit_unat)
  qed
  have "4 * j \<le> countr_zero w" "countr_zero w \<le> 4 * j + r"
    using none b by (auto intro: countr_zero_between)
  then show ?thesis using r(1) by simp
qed

section \<open>Station codes\<close>

definition station_code :: "int list \<Rightarrow> int \<Rightarrow> nat" where
  "station_code known s = lower_bound known s + 1"

lemma lower_bound_member:
  assumes "sorted_wrt (<) known" and "s \<in> set known"
  shows "lower_bound known s < length known" and "known ! lower_bound known s = s"
proof -
  show lt: "lower_bound known s < length known"
  proof (rule ccontr)
    assume "\<not> ?thesis"
    then have "takeWhile (\<lambda>k. k < s) known = known"
      by (metis le_neq_implies_less length_takeWhile_le lower_bound_def takeWhile_eq_take take_all)
    then show False using assms(2) by (metis less_irrefl set_takeWhileD)
  qed
  have ge: "s \<le> known ! lower_bound known s"
    using nth_length_takeWhile [of "\<lambda>k. k < s" known] lt by (simp add: lower_bound_def)
  obtain i where i: "i < length known" "known ! i = s" using assms(2) by (auto simp: in_set_conv_nth)
  have "lower_bound known s \<le> i"
  proof (rule ccontr)
    assume "\<not> ?thesis"
    then have "i < length (takeWhile (\<lambda>k. k < s) known)" by (simp add: lower_bound_def)
    then have "known ! i < s" by (metis nth_mem set_takeWhileD takeWhile_nth)
    then show False using i by simp
  qed
  then show "known ! lower_bound known s = s"
    using ge i assms(1) by (metis le_neq_implies_less order.antisym order.order_iff_strict sorted_wrt_nth_less)
qed

lemma station_code_less:
  assumes "sorted_wrt (<) known" and "s \<in> set known" and "t \<in> set known"
  shows "station_code known s < station_code known t \<longleftrightarrow> s < t"
proof -
  have "lower_bound known s < lower_bound known t \<longleftrightarrow> s < t"
    using lower_bound_member [OF assms(1,2)] lower_bound_member [OF assms(1,3)] assms(1)
    by (metis linorder_neqE_nat order.asym order.irrefl sorted_wrt_nth_less)
  then show ?thesis by (simp add: station_code_def)
qed

lemma codes_less_iff:
  assumes "sorted_wrt (<) known"
  shows "set xs \<subseteq> set known \<Longrightarrow> set ys \<subseteq> set known \<Longrightarrow>
    map (station_code known) xs < map (station_code known) ys \<longleftrightarrow> xs < ys"
proof (induction xs arbitrary: ys)
  case Nil
  then show ?case by (cases ys) auto
next
  case (Cons x xs)
  show ?case
  proof (cases ys)
    case (Cons y ys')
    have "station_code known x = station_code known y \<longleftrightarrow> x = y"
      using station_code_less [OF assms, of x y] station_code_less [OF assms, of y x] Cons.prems Cons
      by (auto simp: not_less_iff_gr_or_eq)
    then show ?thesis
      using Cons Cons.IH [of ys'] Cons.prems station_code_less [OF assms, of x y] by auto
  qed simp
qed

lemma codes_nibbles:
  assumes "sorted_wrt (<) known" and "length known \<le> 15" and "set ss \<subseteq> set known"
  shows "nibbles (map (station_code known) ss)"
  using assms lower_bound_member(1) [OF assms(1)] by (fastforce simp: nibbles_def station_code_def)

section \<open>Packed paths\<close>

lemma encode_packed_value:
  assumes known: "sorted_wrt (<) known" "length known \<le> 15"
  shows "set ss \<subseteq> set known \<Longrightarrow> index + length ss \<le> 15 \<Longrightarrow> 2 ^ (64 - 4 * index) dvd unat enc \<Longrightarrow>
    \<exists>w. encode_packed known index ss enc = Inr w \<and>
      unat w = unat enc + digits_at (15 - index) (map (station_code known) ss)"
proof (induction ss arbitrary: index enc)
  case (Cons s ss)
  let ?c = "station_code known s" and ?p = "60 - 4 * index"
  have i: "index \<le> 14" using Cons.prems by simp
  have s: "lower_bound known s < length known" "known ! lower_bound known s = s"
    using lower_bound_member [OF known(1)] Cons.prems by auto
  have c: "?c < 16" using s known(2) by (simp add: station_code_def)
  have "?c * 2 ^ ?p < 16 * 2 ^ ?p" using c by simp
  also have "\<dots> = 2 ^ (4 + ?p)" by (simp add: power_add)
  also have "4 + ?p = 64 - 4 * index" using i by simp
  finally have small: "?c * 2 ^ ?p < 2 ^ (64 - 4 * index)" .
  also have "(2::nat) ^ (64 - 4 * index) \<le> 2 ^ 64" by (intro power_increasing) auto
  finally have push: "unat (push_bit ?p (of_nat ?c :: 64 word)) = ?c * 2 ^ ?p" by (rule unat_push)
  let ?enc = "enc OR push_bit ?p (of_nat ?c)"
  have sum: "unat ?enc = unat enc + ?c * 2 ^ ?p"
    using or_is_sum [OF Cons.prems(3), of "push_bit ?p (of_nat ?c)"] small push by simp
  have "(2::nat) ^ ?p dvd 2 ^ (64 - 4 * index)" by (intro le_imp_power_dvd) auto
  then have "2 ^ ?p dvd unat enc" using Cons.prems(3) by (rule dvd_trans)
  then have "2 ^ ?p dvd unat ?enc" unfolding sum by (rule dvd_add) (rule dvd_triv_right)
  moreover have "64 - 4 * (index + 1) = ?p" by simp
  ultimately have dvd: "2 ^ (64 - 4 * (index + 1)) dvd unat ?enc" by simp
  have rest: "set ss \<subseteq> set known" "index + 1 + length ss \<le> 15" using Cons.prems(1,2) by auto
  obtain w where w: "encode_packed known (index + 1) ss ?enc = Inr w"
    "unat w = unat ?enc + digits_at (15 - (index + 1)) (map (station_code known) ss)"
    using Cons.IH [OF rest dvd] by blast
  have "(2::nat) ^ ?p = 16 ^ (15 - index)"
  proof -
    have "?p = 4 * (15 - index)" by simp
    then show ?thesis by (simp only: power_mult) simp
  qed
  then have "unat w = unat enc + digits_at (15 - index) (map (station_code known) (s # ss))"
    using w(2) sum by simp
  moreover have "encode_packed known index (s # ss) enc = Inr w"
    using w(1) s by (simp add: Let_def station_code_def)
  ultimately show ?case by blast
qed simp

lemma encode_path_value:
  assumes "packed cat" and "sorted_wrt (<) (known_stations cat)" and "length (packed_station_ids cat) = 15"
    and "set ss \<subseteq> set (known_stations cat)" and "length ss \<le> 15"
  shows "\<exists>w. encode_path cat ss offset = Inr w \<and>
    unat w = digits_at 15 (map (station_code (known_stations cat)) ss)"
  using encode_packed_value [OF assms(2) _ assms(4), of 0 0] assms(1,3,5)
  by (auto simp: encode_path_def packed_slots_def known_stations_def)

lemma packed_path_size:
  assumes "packed cat" and "nibbles cs" and "length cs \<le> 15"
    and "unat (station_storage path) = digits_at 15 cs"
  shows "path_size cat path = length cs"
proof (cases "cs = []")
  case True
  then have "station_storage path = 0" using assms(4) by (simp add: unat_eq_0)
  moreover have "length (takeWhile (\<lambda>i. True) [0..<64 :: nat]) = 64"
    by (subst takeWhile_eq_all_conv [THEN iffD2]) auto
  ultimately have "countr_zero (station_storage path) = 64" by (simp add: countr_zero_def)
  then show ?thesis using True assms(1) by (simp add: path_size_def)
next
  case False
  let ?n = "length cs" and ?w = "station_storage path"
  have n: "0 < ?n" "?n - 1 < ?n" "15 - (?n - 1) = 16 - ?n" using False assms(3) by (auto simp: neq_Nil_conv)
  have "16 ^ (16 - ?n) dvd unat ?w"
    using digits_at_dvd [OF assms(3)] assms(4) by simp
  moreover have "unat ?w div 16 ^ (16 - ?n) mod 16 \<noteq> 0"
    using digit_at [OF assms(2,3) n(2)] n assms(2,4) by (simp add: nibbles_def)
  ultimately have "countr_zero ?w div 4 = 16 - ?n" using n(1) by (intro countr_zero_nibble) auto
  then show ?thesis using assms(1,3) by (simp add: path_size_def)
qed

lemma packed_path_stations:
  assumes "packed cat" and "sorted_wrt (<) (known_stations cat)" and "length (packed_station_ids cat) = 15"
    and "set ss \<subseteq> set (known_stations cat)" and "length ss \<le> 15"
    and "unat (station_storage path) = digits_at 15 (map (station_code (known_stations cat)) ss)"
  shows "path_stations cat path = Inr ss"
proof -
  let ?k = "known_stations cat" and ?cs = "map (station_code (known_stations cat)) ss"
  have len: "length ?k \<le> 15" using assms(3) by (simp add: known_stations_def)
  have nib: "nibbles ?cs" by (rule codes_nibbles [OF assms(2) len assms(4)])
  have size: "path_size cat path = length ss"
    using packed_path_size [OF assms(1) nib _ assms(6)] assms(5) by simp
  have dec: "decode_code cat (station_storage path) i = Inr (ss ! i)" if i: "i < length ss" for i
  proof -
    have "unat (drop_bit (60 - 4 * i) (station_storage path) AND 15) =
        digits_at 15 ?cs div 2 ^ (60 - 4 * i) mod 16"
      using unat_nibble [of "60 - 4 * i"] assms(6) by simp
    also have "(2::nat) ^ (60 - 4 * i) = 16 ^ (15 - i)"
    proof -
      have "60 - 4 * i = 4 * (15 - i)" by simp
      then show ?thesis by (simp only: power_mult) simp
    qed
    also have "digits_at 15 ?cs div 16 ^ (15 - i) mod 16 = ?cs ! i"
      using digit_at [OF nib, of 15 i] assms(5) i by simp
    finally have code: "unat (drop_bit (60 - 4 * i) (station_storage path) AND 15) = station_code ?k (ss ! i)"
      using i by simp
    have "ss ! i \<in> set ?k" using assms(4) i by auto
    from lower_bound_member [OF assms(2) this] show ?thesis
      using code assms(3) len
      by (auto simp: decode_code_def Let_def station_code_def known_stations_def)
  qed
  have "rmap (decode_code cat (station_storage path)) [0..<length ss] = Inr (map ((!) ss) [0..<length ss])"
    using dec by (intro rmap_Inr) auto
  then show ?thesis using assms(1) size by (simp add: path_stations_def Let_def map_nth)
qed

section \<open>Stored paths\<close>

text \<open>
  What the catalogue construction establishes: the known stations are sorted and fit the fifteen
  slots; and what the caller of \<open>encode_path\<close> has done before a flat path is stored: its
  stations are in the flat array from the offset on.
\<close>

definition catalog_ok :: "path_catalog \<Rightarrow> bool" where
  "catalog_ok cat \<longleftrightarrow> length (packed_station_ids cat) = packed_slots \<and> sorted_wrt (<) (known_stations cat)"

definition encodable :: "path_catalog \<Rightarrow> int list \<Rightarrow> 32 word \<Rightarrow> bool" where
  "encodable cat ss offset \<longleftrightarrow>
     (if packed cat then length ss \<le> packed_slots \<and> set ss \<subseteq> set (known_stations cat)
      else unat offset + length ss \<le> length (flat_station_ids cat) \<and> length ss < 2 ^ 32 \<and>
        take (length ss) (drop (unat offset) (flat_station_ids cat)) = ss)"

lemma flat_storage:
  assumes "length ss < 2 ^ 32"
  shows "unat (ucast (drop_bit 32 (ucast (offset :: 32 word) OR push_bit 32 (of_nat (length ss)) :: 64 word)) :: 32 word)
      = length ss"
    and "ucast (ucast (offset :: 32 word) OR push_bit 32 (of_nat (length ss)) :: 64 word) = offset"
proof -
  let ?n = "of_nat (length ss) :: 64 word" and ?w = "ucast offset OR push_bit 32 (of_nat (length ss)) :: 64 word"
  have n: "unat ?n = length ss" using assms by (simp add: unat_of_nat)
  have "ucast (drop_bit 32 ?w) = (ucast ?n :: 32 word)"
  proof (rule bit_word_eqI)
    fix i assume "i < LENGTH(32)"
    then show "bit (ucast (drop_bit 32 ?w) :: 32 word) i = bit (ucast ?n :: 32 word) i"
      by (auto simp: bit_ucast_iff bit_drop_bit_eq bit_or_iff bit_push_bit_iff dest: bit_imp_le_length)
  qed
  moreover have "unat (ucast ?n :: 32 word) = length ss"
    using assms n by (simp add: unsigned_ucast_eq take_bit_nat_eq_self)
  ultimately show "unat (ucast (drop_bit 32 ?w) :: 32 word) = length ss" by simp
  show "ucast ?w = offset"
  proof (rule bit_word_eqI)
    fix i assume "i < LENGTH(32)"
    then show "bit (ucast ?w :: 32 word) i = bit offset i"
      by (auto simp: bit_ucast_iff bit_or_iff bit_push_bit_iff)
  qed
qed

lemma encode_stored:
  assumes "catalog_ok cat" and "encodable cat ss offset"
  obtains w where "encode_path cat ss offset = Inr w"
    and "path_size cat \<lparr>station_storage = w, total_distance_km = d\<rparr> = length ss"
    and "path_stations cat \<lparr>station_storage = w, total_distance_km = d\<rparr> = Inr ss"
    and "packed cat \<Longrightarrow> unat w = digits_at 15 (map (station_code (known_stations cat)) ss)"
proof (cases "packed cat")
  case True
  from assms True have ok: "sorted_wrt (<) (known_stations cat)" "length (packed_station_ids cat) = 15"
    "set ss \<subseteq> set (known_stations cat)" "length ss \<le> 15"
    by (auto simp: catalog_ok_def encodable_def packed_slots_def)
  obtain w where w: "encode_path cat ss offset = Inr w"
    "unat w = digits_at 15 (map (station_code (known_stations cat)) ss)"
    using encode_path_value [OF True ok] by blast
  have "length (known_stations cat) \<le> 15" using ok(2) by (simp add: known_stations_def)
  then have "nibbles (map (station_code (known_stations cat)) ss)"
    using codes_nibbles ok by blast
  then show thesis
    using that [OF w(1)] w(2) packed_path_stations [OF True ok] packed_path_size [OF True] ok(4) by simp
next
  case False
  let ?w = "ucast offset OR push_bit 32 (of_nat (length ss)) :: 64 word"
  have e: "unat offset + length ss \<le> length (flat_station_ids cat)" "length ss < 2 ^ 32"
    "take (length ss) (drop (unat offset) (flat_station_ids cat)) = ss"
    using assms(2) False by (auto simp: encodable_def)
  show thesis
    using that [of ?w] False e flat_storage [OF e(2), of offset]
    by (simp add: encode_path_def path_size_def path_stations_def Let_def)
qed

text \<open>
  C27: A path is read back as it was stored. In a catalogue whose known stations are sorted, a list
  of at most fifteen known stations (packed mode), or a list present at its offset of the flat
  array (flat mode), is encoded without an error into 64 bits; \<open>path_size\<close> of the descriptor is
  the length of the list - computed in packed mode from the trailing zero bits alone, the empty
  path and the full fifteen included - and \<open>stations\<close> decodes exactly the list.
\<close>

theorem stored_path_is_read_back:
  assumes "catalog_ok cat" and "encodable cat ss offset"
  shows "\<exists>w. encode_path cat ss offset = Inr w \<and>
    path_size cat \<lparr>station_storage = w, total_distance_km = d\<rparr> = length ss \<and>
    path_stations cat \<lparr>station_storage = w, total_distance_km = d\<rparr> = Inr ss"
  using encode_stored [OF assms, where d = d] by metis

definition witness_catalog :: path_catalog where
  "witness_catalog = \<lparr>cat_paths = [], flat_station_ids = [],
     packed_station_ids = [12, 20, 31, 0, 0, 0, 0, 0, 0, 0, 0, 0, 0, 0, 0],
     packed_station_count = 3, packed = True\<rparr>"

lemma witness_catalog_ok: "catalog_ok witness_catalog"
  by (simp add: catalog_ok_def witness_catalog_def packed_slots_def known_stations_def)

lemma witness_encodable: "set ss \<subseteq> {12, 20, 31} \<Longrightarrow> length ss \<le> 15 \<Longrightarrow> encodable witness_catalog ss 0"
  by (simp add: encodable_def witness_catalog_def packed_slots_def known_stations_def eval_nat_numeral)

lemma stored_path_is_read_back_witness:
  "\<exists>w. encode_path witness_catalog [31, 12, 20] 0 = Inr w \<and>
    path_size witness_catalog \<lparr>station_storage = w, total_distance_km = 8\<rparr> = length [31, 12, 20 :: int] \<and>
    path_stations witness_catalog \<lparr>station_storage = w, total_distance_km = 8\<rparr> = Inr [31, 12, 20]"
  by (rule stored_path_is_read_back [OF witness_catalog_ok witness_encodable]) simp_all

text \<open>
  C28: The comparison of packed descriptors - one unsigned comparison of the two 64-bit words - is
  the lexicographic comparison of the station lists they store, a shorter list with the same
  beginning first, exactly like the comparison of flat descriptors that decodes both lists.
\<close>

theorem lexically_less_compares_station_lists:
  assumes "catalog_ok cat" and "encodable cat xs off1" and "encodable cat ys off2"
    and "encode_path cat xs off1 = Inr v" and "encode_path cat ys off2 = Inr w"
  shows "lexically_less cat \<lparr>station_storage = v, total_distance_km = d\<rparr>
      \<lparr>station_storage = w, total_distance_km = e\<rparr> = Inr (xs < ys)"
proof -
  obtain v' where v': "encode_path cat xs off1 = Inr v'"
    "path_stations cat \<lparr>station_storage = v', total_distance_km = d\<rparr> = Inr xs"
    "packed cat \<Longrightarrow> unat v' = digits_at 15 (map (station_code (known_stations cat)) xs)"
    using encode_stored [OF assms(1,2), where d = d] by metis
  obtain w' where w': "encode_path cat ys off2 = Inr w'"
    "path_stations cat \<lparr>station_storage = w', total_distance_km = e\<rparr> = Inr ys"
    "packed cat \<Longrightarrow> unat w' = digits_at 15 (map (station_code (known_stations cat)) ys)"
    using encode_stored [OF assms(1,3), where d = e] by metis
  have eq: "v' = v" "w' = w" using v'(1) w'(1) assms(4,5) by auto
  show ?thesis
  proof (cases "packed cat")
    case False
    then show ?thesis using v'(2) w'(2) eq by (simp add: lexically_less_def)
  next
    case True
    with assms(1-3) have ok: "sorted_wrt (<) (known_stations cat)" "length (packed_station_ids cat) = 15"
      "set xs \<subseteq> set (known_stations cat)" "length xs \<le> 15"
      "set ys \<subseteq> set (known_stations cat)" "length ys \<le> 15"
      by (auto simp: catalog_ok_def encodable_def packed_slots_def)
    have "length (known_stations cat) \<le> 15" using ok(2) by (simp add: known_stations_def)
    then have nib: "nibbles (map (station_code (known_stations cat)) xs)"
      "nibbles (map (station_code (known_stations cat)) ys)"
      using codes_nibbles ok(1,3,5) by auto
    have "v < w \<longleftrightarrow> map (station_code (known_stations cat)) xs < map (station_code (known_stations cat)) ys"
      using digits_at_less_iff [OF nib, of 15] ok(4,6) v'(3) w'(3) True eq by (simp add: word_less_nat_alt)
    also have "\<dots> \<longleftrightarrow> xs < ys" by (rule codes_less_iff [OF ok(1,3,5)])
    finally show ?thesis using True by (simp add: lexically_less_def)
  qed
qed

lemma witness_codes:
  "encode_path witness_catalog [12, 31] 0 = Inr 0x1300000000000000"
  "encode_path witness_catalog [20] 0 = Inr 0x2000000000000000"
  by code_simp+

lemma lexically_less_compares_station_lists_witness:
  "lexically_less witness_catalog \<lparr>station_storage = 0x1300000000000000, total_distance_km = 5\<rparr>
     \<lparr>station_storage = 0x2000000000000000, total_distance_km = 4\<rparr> = Inr ([12, 31] < [20 :: int])"
  by (rule lexically_less_compares_station_lists
      [OF witness_catalog_ok witness_encodable witness_encodable witness_codes]) simp_all

lemma encode_packed_unknown:
  "sorted_wrt (<) known \<Longrightarrow> \<not> set ss \<subseteq> set known \<Longrightarrow>
    encode_packed known index ss enc = Inl (Invalid_Argument ''packed path contains an unknown station'')"
proof (induction ss arbitrary: index enc)
  case (Cons s ss)
  show ?case
  proof (cases "s \<in> set known")
    case True
    then show ?thesis using Cons lower_bound_member [OF Cons.prems(1) True] by (simp add: Let_def)
  next
    case False
    have "lower_bound known s \<le> length known" by (simp add: lower_bound_def length_takeWhile_le)
    then have "lower_bound known s = length known \<or> known ! lower_bound known s \<noteq> s"
      using False by (metis le_neq_implies_less nth_mem)
    then show ?thesis by (simp add: Let_def)
  qed
qed simp

text \<open>
  A packed catalogue refuses what its 64 bits cannot hold: more than fifteen stations are a
  length error before any code is looked up, and a list with a station outside the known ones is
  an invalid argument - never a word that decodes to something else.
\<close>

theorem encode_path_rejects:
  assumes "packed cat" and "catalog_ok cat" and "length ss > 15 \<or> \<not> set ss \<subseteq> set (known_stations cat)"
  shows "encode_path cat ss offset = Inl
    (if length ss > 15 then Length_Error ''packed station path is too long''
     else Invalid_Argument ''packed path contains an unknown station'')"
proof (cases "length ss > 15")
  case True
  then show ?thesis using assms(1) by (simp add: encode_path_def packed_slots_def)
next
  case False
  moreover have "sorted_wrt (<) (known_stations cat)" using assms(2) by (simp add: catalog_ok_def)
  ultimately show ?thesis using encode_packed_unknown assms(1,3) by (simp add: encode_path_def packed_slots_def)
qed

lemma encode_path_rejects_witness:
  "encode_path witness_catalog [12, 77] 0 = Inl
    (if length [12, 77 :: int] > 15 then Length_Error ''packed station path is too long''
     else Invalid_Argument ''packed path contains an unknown station'')"
  by (rule encode_path_rejects [OF _ witness_catalog_ok]) (simp_all add: witness_catalog_def known_stations_def)

end
