(* ===== verification/Granular_Neighborhood.thy ===== *)
theory Granular_Neighborhood
  imports Instance_Model "HOL-Library.Word" "HOL-Library.Product_Lexorder"
begin

text \<open>
  \<open>GranularNeighborhood\<close> (include/ils_sp/search.hpp, src/search.cpp): for every customer the
  gamma nearest other customers, kept as lists, as a matrix indexed by customer rank and as a
  set of 64-bit edge keys, and the queries with which repair and the local search restrict
  themselves to promising arcs.
\<close>

unbundle bit_operations_syntax

section \<open>The object\<close>

record granular =
  gamma_size :: nat
  customer_rank_by_id :: "(int \<times> nat) list"
  consecutive_customer_ids :: bool
  promising_matrix :: "bool list"
  directed_neighbors :: "(int \<times> int list) list"
  promising_neighbors :: "(int \<times> int list) list"
  promising_pairs :: "(int \<times> int) list"
  promising_edges :: "64 word set"

text \<open>\<open>emplace\<close> and \<open>map_try_emplace\<close> keep the first value of a key.\<close>

definition map_try_emplace :: "'k \<Rightarrow> 'v \<Rightarrow> ('k \<times> 'v) list \<Rightarrow> ('k \<times> 'v) list" where
  "map_try_emplace k v m = (case map_of m k of Some _ \<Rightarrow> m | None \<Rightarrow> m @ [(k, v)])"

definition map_at :: "('k \<times> 'v) list \<Rightarrow> 'k \<Rightarrow> 'v result" where
  "map_at m k = (case map_of m k of Some v \<Rightarrow> Inr v | None \<Rightarrow> Inl (Out_Of_Range ''_Map_base::at''))"

definition edge_key :: "int \<Rightarrow> int \<Rightarrow> 64 word" where
  "edge_key left_id right_id =
     push_bit 32 (ucast (word_of_int left_id :: 32 word)) OR ucast (word_of_int right_id :: 32 word)"

section \<open>Queries\<close>

definition neighbors_of :: "granular \<Rightarrow> int \<Rightarrow> int list result" where
  "neighbors_of g customer = map_at (directed_neighbors g) customer"

definition promising_neighbors_of :: "granular \<Rightarrow> int \<Rightarrow> int list result" where
  "promising_neighbors_of g customer = map_at (promising_neighbors g) customer"

definition customer_rank :: "granular \<Rightarrow> int \<Rightarrow> nat result" where
  "customer_rank g customer =
     (if consecutive_customer_ids g \<and> customer > 0 \<and> nat customer \<le> length (customer_rank_by_id g)
      then Inr (nat (customer - 1))
      else map_at (customer_rank_by_id g) customer)"

definition promising_by_rank :: "granular \<Rightarrow> nat \<Rightarrow> nat \<Rightarrow> bool result" where
  "promising_by_rank g left_rank right_rank =
     (let n = length (customer_rank_by_id g)
      in if left_rank \<ge> n \<or> right_rank \<ge> n
         then Inl (Out_Of_Range ''promising arc customer rank is out of range'')
         else Inr (promising_matrix g ! (left_rank * n + right_rank)))"

definition promising :: "granular \<Rightarrow> int \<Rightarrow> int \<Rightarrow> bool result" where
  "promising g left_id right_id =
     (if consecutive_customer_ids g then
        (let n = length (customer_rank_by_id g)
         in if left_id \<le> 0 \<or> right_id \<le> 0 \<or> nat left_id > n \<or> nat right_id > n then Inr False
            else Inr (promising_matrix g ! ((nat left_id - 1) * n + nat right_id - 1)))
      else case (map_of (customer_rank_by_id g) left_id, map_of (customer_rank_by_id g) right_id) of
          (Some l, Some r) \<Rightarrow> promising_by_rank g l r
        | _ \<Rightarrow> Inr False)"

definition allows_insertion :: "granular \<Rightarrow> int list \<Rightarrow> nat \<Rightarrow> int \<Rightarrow> bool result" where
  "allows_insertion g route position customer =
     rbind (require (position \<le> length route) (Out_Of_Range ''granular insertion position is out of range'')) (\<lambda>_.
     rbind (if position > 0 then promising g (route ! (position - 1)) customer else Inr False) (\<lambda>before.
     if before then Inr True
     else if position < length route then promising g customer (route ! position) else Inr False))"

definition sequence_edges :: "int list \<Rightarrow> 64 word list" where
  "sequence_edges s = map (\<lambda>i. edge_key (s ! (i - 1)) (s ! i)) [1..<length s]"

definition edge_set :: "int list list \<Rightarrow> 64 word set" where
  "edge_set sequences = set (concat (map sequence_edges sequences))"

definition allows_edges :: "granular \<Rightarrow> 64 word set \<Rightarrow> int list list \<Rightarrow> bool" where
  "allows_edges g current_edges candidate =
     (if promising_edges g = {} then True
      else \<exists>edge \<in> set (concat (map sequence_edges candidate)).
             edge \<notin> current_edges \<and> edge \<in> promising_edges g)"

definition allows :: "granular \<Rightarrow> int list list \<Rightarrow> int list list \<Rightarrow> bool" where
  "allows g current candidate = allows_edges g (edge_set current) candidate"

section \<open>The constructor\<close>

definition add_rank :: "(int \<times> nat) list \<times> bool \<Rightarrow> nat \<times> int \<Rightarrow> (int \<times> nat) list \<times> bool" where
  "add_rank st x = (case (st, x) of ((ranks, consecutive), (rank, customer)) \<Rightarrow>
     (map_try_emplace customer rank ranks,
      consecutive \<and> \<not> (customer \<le> 0 \<or> nat customer \<noteq> rank + 1)))"

text \<open>The sort compares the pairs of distance and identifier.\<close>

definition nearest_of :: "inst \<Rightarrow> nat \<Rightarrow> int \<Rightarrow> int list result" where
  "nearest_of I gamma customer =
     (let others = filter (\<lambda>other. other \<noteq> customer) (customer_ids I)
      in rbind (rmap (distance_km I customer) others) (\<lambda>ds.
         let nearest = map snd (sort (zip ds others))
         in Inr (take gamma nearest @ replicate (gamma - length nearest) 0)))"

definition mark_arc :: "nat \<Rightarrow> int \<Rightarrow> granular \<Rightarrow> int \<Rightarrow> granular result" where
  "mark_arc n customer g neighbor =
     (let g = g\<lparr>promising_edges := insert (edge_key customer neighbor) (promising_edges g)\<rparr>
      in rbind (customer_rank g customer) (\<lambda>r. rbind (customer_rank g neighbor) (\<lambda>s.
         Inr (g\<lparr>promising_matrix := (promising_matrix g)[r * n + s := True]\<rparr>))))"

definition mark_customer :: "inst \<Rightarrow> nat \<Rightarrow> granular \<Rightarrow> int \<Rightarrow> granular result" where
  "mark_customer I n g customer =
     rbind (nearest_of I (gamma_size g) customer) (\<lambda>nearest.
     rbind (rfold (mark_arc n customer) g nearest) (\<lambda>g.
     Inr (g\<lparr>directed_neighbors := map_try_emplace customer nearest (directed_neighbors g)\<rparr>)))"

definition push_neighbor :: "int \<Rightarrow> int \<Rightarrow> (int \<times> int list) list \<Rightarrow> (int \<times> int list) list result" where
  "push_neighbor k v m = rbind (map_at m k) (\<lambda>old. Inr (AList.update k (old @ [v]) m))"

definition mirror_arc :: "int \<Rightarrow> (int \<times> int list) list \<Rightarrow> int \<Rightarrow> (int \<times> int list) list result" where
  "mirror_arc customer m neighbor = rbind (push_neighbor customer neighbor m) (push_neighbor neighbor customer)"

definition pairs_of :: "(int \<times> int list) list \<Rightarrow> (int \<times> int) list" where
  "pairs_of m = sort (concat (map (\<lambda>(customer, neighbors).
     map (Pair customer) (filter (\<lambda>neighbor. customer < neighbor) neighbors)) m))"

definition mk_granular :: "inst \<Rightarrow> nat \<Rightarrow> granular result" where
  "mk_granular I maximum_neighbors =
     rbind (require (maximum_neighbors \<noteq> 0) (Invalid_Argument ''promising arc count must be positive'')) (\<lambda>_.
     let customers = customer_ids I;
         n = length customers;
         (ranks, consecutive) = foldl add_rank ([], True) (enumerate 0 customers);
         g = \<lparr>gamma_size = 0, customer_rank_by_id = ranks, consecutive_customer_ids = consecutive,
              promising_matrix = replicate (n * n) False, directed_neighbors = [],
              promising_neighbors = [], promising_pairs = [], promising_edges = {}\<rparr>
     in if n \<le> 1 then
          let empty = foldl (\<lambda>m c. map_try_emplace c [] m) [] customers
          in Inr (g\<lparr>directed_neighbors := empty, promising_neighbors := empty\<rparr>)
        else
          rbind (rfold (mark_customer I n) (g\<lparr>gamma_size := min (n - 1) maximum_neighbors\<rparr>) customers) (\<lambda>g.
          rbind (rfold (\<lambda>m (customer, neighbors). rfold (mirror_arc customer) m neighbors)
                   (foldl (\<lambda>m c. map_try_emplace c [] m) [] customers) (directed_neighbors g)) (\<lambda>m.
          let sorted_m = map (\<lambda>(customer, neighbors). (customer, remdups_adj (sort neighbors))) m
          in Inr (g\<lparr>promising_neighbors := sorted_m, promising_pairs := pairs_of sorted_m\<rparr>))))"

section \<open>Ranks\<close>

definition ranked :: "int list \<Rightarrow> granular \<Rightarrow> bool" where
  "ranked cs g \<longleftrightarrow> customer_rank_by_id g = zip cs [0..<length cs] \<and>
     consecutive_customer_ids g = (\<forall>i < length cs. cs ! i = int i + 1)"

lemma ranks_of_customers:
  "distinct cs \<Longrightarrow> foldl add_rank ([], True) (enumerate 0 cs) =
     (zip cs [0..<length cs], \<forall>i < length cs. cs ! i = int i + 1)"
proof (induction cs rule: rev_induct)
  case (snoc c cs)
  have "map_of (zip cs [0..<length cs]) c = None"
    using snoc.prems by (auto simp: map_of_eq_None_keys dest: set_zip_leftD)
  then have "map_try_emplace c (length cs) (zip cs [0..<length cs]) = zip cs [0..<length cs] @ [(c, length cs)]"
    by (simp only: map_try_emplace_def option.case)
  moreover have "(c \<le> 0 \<or> nat c \<noteq> length cs + 1) \<longleftrightarrow> c \<noteq> int (length cs) + 1" by auto
  ultimately show ?case
    using snoc by (auto simp: enumerate_append_eq add_rank_def nth_append less_Suc_eq)
qed simp

lemma customer_rank_nth:
  assumes "ranked cs g" and "distinct cs" and "i < length cs"
  shows "customer_rank g (cs ! i) = Inr i"
proof -
  have "map_at (customer_rank_by_id g) (cs ! i) = Inr i"
    using assms map_of_zip_upt [of cs "cs ! i" i] by (simp add: ranked_def map_at_def)
  then show ?thesis using assms by (auto simp: customer_rank_def ranked_def)
qed

lemma promising_lookup:
  assumes "ranked cs g" and "distinct cs"
  shows "promising g a b = Inr (\<exists>i j. i < length cs \<and> j < length cs \<and> a = cs ! i \<and> b = cs ! j \<and>
    promising_matrix g ! (i * length cs + j))"
proof (cases "consecutive_customer_ids g")
  case True
  then have nth: "i < length cs \<Longrightarrow> cs ! i = int i + 1" for i using assms(1) by (auto simp: ranked_def)
  have n: "length (customer_rank_by_id g) = length cs" using assms(1) by (simp add: ranked_def)
  show ?thesis
  proof (cases "a \<le> 0 \<or> b \<le> 0 \<or> nat a > length cs \<or> nat b > length cs")
    case True
    then have "\<not> (\<exists>i j. i < length cs \<and> j < length cs \<and> a = cs ! i \<and> b = cs ! j)" by (auto simp: nth)
    then show ?thesis using True \<open>consecutive_customer_ids g\<close> n by (auto simp: promising_def)
  next
    case False
    let ?i = "nat a - 1" and ?j = "nat b - 1"
    have ij: "?i < length cs" "?j < length cs" "a = cs ! ?i" "b = cs ! ?j" using False by (auto simp: nth)
    have "i = ?i \<and> j = ?j" if "i < length cs" "j < length cs" "a = cs ! i" "b = cs ! j" for i j
      using that ij assms(2) by (simp add: nth_eq_iff_index_eq)
    then have "(\<exists>i j. i < length cs \<and> j < length cs \<and> a = cs ! i \<and> b = cs ! j \<and>
        promising_matrix g ! (i * length cs + j)) \<longleftrightarrow> promising_matrix g ! (?i * length cs + ?j)"
      using ij by metis
    moreover have "?i * length cs + nat b - 1 = ?i * length cs + ?j"
    proof -
      have "1 \<le> nat b" using False by linarith
      then show ?thesis by (metis Nat.add_diff_assoc)
    qed
    ultimately show ?thesis using False \<open>consecutive_customer_ids g\<close> n by (simp add: promising_def)
  qed
next
  case False
  have r: "map_of (customer_rank_by_id g) c = Some k \<longleftrightarrow> k < length cs \<and> cs ! k = c" for c k
    using assms map_of_zip_upt [of cs c k] by (simp add: ranked_def)
  have n: "length (customer_rank_by_id g) = length cs" using assms(1) by (simp add: ranked_def)
  show ?thesis
  proof (cases "(map_of (customer_rank_by_id g) a, map_of (customer_rank_by_id g) b)")
    case (Pair l m)
    consider i j where "l = Some i" "m = Some j" | "l = None" | "m = None" by (cases l; cases m) auto
    then show ?thesis
    proof cases
      case (1 i j)
      with Pair r have ij: "i < length cs" "cs ! i = a" "j < length cs" "cs ! j = b" by auto
      then have "i' = i \<and> j' = j" if "i' < length cs" "j' < length cs" "a = cs ! i'" "b = cs ! j'" for i' j'
        using that assms(2) by (simp add: nth_eq_iff_index_eq)
      then have "(\<exists>i j. i < length cs \<and> j < length cs \<and> a = cs ! i \<and> b = cs ! j \<and>
        promising_matrix g ! (i * length cs + j)) \<longleftrightarrow> promising_matrix g ! (i * length cs + j)"
        using ij by metis
      then show ?thesis using False 1 Pair ij n by (simp add: promising_def promising_by_rank_def)
    next
      case 2
      then have "\<not> (\<exists>i < length cs. a = cs ! i)" using r Pair by (metis option.distinct(1) prod.inject)
      then show ?thesis using False 2 Pair by (auto simp: promising_def)
    next
      case 3
      then have "\<not> (\<exists>i < length cs. b = cs ! i)" using r Pair by (metis option.distinct(1) prod.inject)
      then show ?thesis using False 3 Pair by (auto simp: promising_def split: option.splits)
    qed
  qed
qed

section \<open>The nearest customers\<close>

text \<open>
  The specification: \<open>b\<close> is among the gamma nearest of \<open>c\<close> when fewer than gamma other customers
  come before it in the order of distance and then identifier.
\<close>

definition nearer :: "inst \<Rightarrow> int \<Rightarrow> int \<Rightarrow> int \<Rightarrow> bool" where
  "nearer I c a b \<longleftrightarrow> dist_km I c a < dist_km I c b \<or> dist_km I c a = dist_km I c b \<and> a < b"

definition gamma_nearest :: "inst \<Rightarrow> nat \<Rightarrow> int \<Rightarrow> int set" where
  "gamma_nearest I gamma c =
     {b \<in> set (customer_ids I) - {c}. card {a \<in> set (customer_ids I) - {c}. nearer I c a b} < gamma}"

lemma sorted_take_rank:
  fixes xs :: "'a :: linorder list"
  assumes "sorted xs" and "distinct xs"
  shows "set (take k xs) = {x \<in> set xs. card {y \<in> set xs. y < x} < k}"
proof -
  have strict: "sorted_wrt (<) xs" using assms by (simp add: strict_sorted_iff)
  have below: "card {y \<in> set xs. y < xs ! i} = i" if i: "i < length xs" for i
  proof -
    have "{y \<in> set xs. y < xs ! i} = set (take i xs)"
    proof
      show "set (take i xs) \<subseteq> {y \<in> set xs. y < xs ! i}"
        using i sorted_wrt_nth_less [OF strict] by (auto simp: in_set_conv_nth dest: in_set_takeD)
      show "{y \<in> set xs. y < xs ! i} \<subseteq> set (take i xs)"
      proof
        fix y assume "y \<in> {y \<in> set xs. y < xs ! i}"
        then obtain j where j: "j < length xs" "y = xs ! j" "xs ! j < xs ! i" by (auto simp: in_set_conv_nth)
        then have "j < i" using sorted_wrt_nth_less [OF strict, of i j] i by (cases i j rule: linorder_cases) auto
        then show "y \<in> set (take i xs)" using j i by (auto simp: in_set_conv_nth)
      qed
    qed
    then show ?thesis using i assms(2) by (simp add: distinct_card)
  qed
  show ?thesis
  proof (intro set_eqI iffI)
    fix x assume "x \<in> set (take k xs)"
    then obtain i where "i < k" "i < length xs" "x = xs ! i" by (auto simp: in_set_conv_nth)
    then show "x \<in> {x \<in> set xs. card {y \<in> set xs. y < x} < k}" using below by auto
  next
    fix x assume x: "x \<in> {x \<in> set xs. card {y \<in> set xs. y < x} < k}"
    then obtain i where i: "i < length xs" "x = xs ! i" by (auto simp: in_set_conv_nth)
    then have "i < k" using x below by auto
    then show "x \<in> set (take k xs)" using i by (auto simp: in_set_conv_nth)
  qed
qed

definition near_keys :: "inst \<Rightarrow> int \<Rightarrow> (real \<times> int) list" where
  "near_keys I c = sort (map (\<lambda>x. (dist_km I c x, x)) (filter (\<lambda>x. x \<noteq> c) (customer_ids I)))"

definition near :: "inst \<Rightarrow> nat \<Rightarrow> int \<Rightarrow> int list" where
  "near I gamma c = take gamma (map snd (near_keys I c))"

lemma customers_distinct: "inst_ok I \<Longrightarrow> distinct (customer_ids I)"
proof -
  assume "inst_ok I"
  then have "distinct (ids_of_kind Customer (nodes I))"
    using inst_okD(2) by (auto simp: ids_of_kind_def intro: distinct_map_filter)
  then show ?thesis using inst_okD(7) [OF \<open>inst_ok I\<close>] by simp
qed

lemma set_near:
  assumes "inst_ok I"
  shows "set (near I gamma c) = gamma_nearest I gamma c" and "distinct (near I gamma c)"
proof -
  let ?xs = "near_keys I c" and ?key = "\<lambda>x. (dist_km I c x, x)"
  have inj: "inj ?key" by (auto intro: injI)
  have d: "distinct ?xs"
    using customers_distinct [OF assms] by (simp add: near_keys_def distinct_map inj_on_def)
  have set_xs: "set ?xs = ?key ` (set (customer_ids I) - {c})" by (auto simp: near_keys_def)
  have "set (take gamma ?xs) = {x \<in> set ?xs. card {y \<in> set ?xs. y < x} < gamma}"
    by (rule sorted_take_rank) (simp_all add: d, simp add: near_keys_def)
  moreover have "card {y \<in> set ?xs. y < ?key b} = card {a \<in> set (customer_ids I) - {c}. nearer I c a b}" for b
  proof -
    have "{y \<in> set ?xs. y < ?key b} = ?key ` {a \<in> set (customer_ids I) - {c}. nearer I c a b}"
      by (auto simp: set_xs nearer_def less_prod_def)
    then show ?thesis using inj by (simp add: card_image inj_on_subset)
  qed
  ultimately have "set (take gamma ?xs) = ?key ` gamma_nearest I gamma c"
    by (auto simp: set_xs gamma_nearest_def)
  then have "snd ` set (take gamma ?xs) = gamma_nearest I gamma c" by (simp add: image_image)
  then show "set (near I gamma c) = gamma_nearest I gamma c" by (simp add: near_def take_map)
  have "inj_on snd (set ?xs)" by (auto simp: set_xs intro: inj_onI)
  then show "distinct (near I gamma c)" using d by (simp add: near_def distinct_map)
qed

lemma nearest_of_customer:
  assumes "inst_ok I" and "c \<in> set (customer_ids I)" and "gamma \<le> length (customer_ids I) - 1"
  shows "nearest_of I gamma c = Inr (near I gamma c)"
proof -
  let ?others = "filter (\<lambda>x. x \<noteq> c) (customer_ids I)"
  have known: "c \<in> set (ids I)" "\<And>x. x \<in> set ?others \<Longrightarrow> x \<in> set (ids I)"
    using known_lookups(2) [OF assms(1)] assms(2) by auto
  have ds: "rmap (distance_km I c) ?others = Inr (map (dist_km I c) ?others)"
    using distance_km_known [OF assms(1) known(1)] known(2) by (intro rmap_Inr) auto
  have "zip (map f xs) xs = map (\<lambda>x. (f x, x)) xs" for f :: "int \<Rightarrow> real" and xs by (induction xs) auto
  then have keys: "sort (zip (map (dist_km I c) ?others) ?others) = near_keys I c" by (simp add: near_keys_def)
  have "length ?others = length (customer_ids I) - 1"
    using distinct_remove1_removeAll [OF customers_distinct [OF assms(1)], of c] assms(2)
    by (metis (mono_tags, lifting) filter_cong length_remove1 removeAll_filter_not_eq)
  then show ?thesis using ds assms(3) by (simp add: nearest_of_def Let_def keys near_def)
qed

section \<open>The loops of the constructor\<close>

text \<open>The state of the marking loop: \<open>S\<close> is the set of the arcs marked so far.\<close>

definition marked :: "int list \<Rightarrow> nat \<Rightarrow> (int \<times> int) set \<Rightarrow> granular \<Rightarrow> bool" where
  "marked cs gamma S g \<longleftrightarrow> ranked cs g \<and> gamma_size g = gamma \<and> S \<subseteq> set cs \<times> set cs \<and>
     length (promising_matrix g) = length cs * length cs \<and>
     (\<forall>i < length cs. \<forall>j < length cs. promising_matrix g ! (i * length cs + j) \<longleftrightarrow> (cs ! i, cs ! j) \<in> S) \<and>
     promising_edges g = (\<lambda>(a, b). edge_key a b) ` S"

lemma matrix_index_less: "i < n \<Longrightarrow> j < n \<Longrightarrow> i * n + j < n * (n :: nat)"
proof -
  assume "i < n" "j < n"
  then have "i * n + j < Suc i * n" by simp
  also have "Suc i * n \<le> n * n" using \<open>i < n\<close> by (intro mult_le_mono1) simp
  finally show ?thesis .
qed

lemma matrix_index_inj:
  assumes "j < n" and "j' < (n :: nat)"
  shows "i * n + j = i' * n + j' \<longleftrightarrow> i = i' \<and> j = j'"
proof
  assume eq: "i * n + j = i' * n + j'"
  have "(i * n + j) div n = i" "(i' * n + j') div n = i'" using assms by auto
  with eq have "i = i'" by metis
  with eq show "i = i' \<and> j = j'" by simp
qed simp

lemma mark_arc_marked:
  assumes "marked cs gamma S g" and "distinct cs" and "c \<in> set cs" and "d \<in> set cs"
  shows "\<exists>g'. mark_arc (length cs) c g d = Inr g' \<and> marked cs gamma (insert (c, d) S) g' \<and>
    directed_neighbors g' = directed_neighbors g"
proof -
  let ?e = "g\<lparr>promising_edges := insert (edge_key c d) (promising_edges g)\<rparr>"
  obtain i j where ij: "i < length cs" "c = cs ! i" "j < length cs" "d = cs ! j"
    using assms(3,4) by (auto simp: in_set_conv_nth)
  have "ranked cs ?e" using assms(1) by (simp add: marked_def ranked_def)
  then have "customer_rank ?e c = Inr i" "customer_rank ?e d = Inr j"
    using customer_rank_nth assms(2) ij by auto
  then have m: "mark_arc (length cs) c g d = Inr (?e\<lparr>promising_matrix := (promising_matrix g)[i * length cs + j := True]\<rparr>)"
    by (simp add: mark_arc_def Let_def)
  have "(cs ! k, cs ! l) = (c, d) \<longleftrightarrow> k = i \<and> l = j" if "k < length cs" "l < length cs" for k l
    using that ij assms(2) by (simp add: nth_eq_iff_index_eq)
  moreover have "(promising_matrix g)[i * length cs + j := True] ! (k * length cs + l) \<longleftrightarrow>
      k = i \<and> l = j \<or> (cs ! k, cs ! l) \<in> S" if "k < length cs" "l < length cs" for k l
    using that ij(3) assms(1) matrix_index_less [of k _ l] matrix_index_inj [OF ij(3) that(2), of i k]
    by (auto simp: marked_def nth_list_update)
  ultimately have "marked cs gamma (insert (c, d) S) (?e\<lparr>promising_matrix := (promising_matrix g)[i * length cs + j := True]\<rparr>)"
    using assms(1,3,4) by (auto simp: marked_def ranked_def)
  with m show ?thesis by auto
qed

lemma mark_arcs_marked:
  assumes "distinct cs" and "c \<in> set cs"
  shows "marked cs gamma S g \<Longrightarrow> set ds \<subseteq> set cs \<Longrightarrow>
    \<exists>g'. rfold (mark_arc (length cs) c) g ds = Inr g' \<and> marked cs gamma (S \<union> {c} \<times> set ds) g' \<and>
      directed_neighbors g' = directed_neighbors g"
proof (induction ds arbitrary: S g)
  case (Cons d ds)
  then obtain g1 where g1: "mark_arc (length cs) c g d = Inr g1" "marked cs gamma (insert (c, d) S) g1"
    "directed_neighbors g1 = directed_neighbors g"
    using mark_arc_marked [OF Cons.prems(1) assms, of d] by auto
  have "insert (c, d) S \<union> {c} \<times> set ds = S \<union> {c} \<times> set (d # ds)" by auto
  with Cons.IH [OF g1(2)] Cons.prems(2) g1 show ?case by auto
qed simp

lemma mark_customers_marked:
  assumes ok: "inst_ok I" and gamma: "gamma \<le> length (customer_ids I) - 1"
  shows "marked (customer_ids I) gamma S g \<Longrightarrow> set cs \<subseteq> set (customer_ids I) \<Longrightarrow> distinct cs \<Longrightarrow>
    fst ` set (directed_neighbors g) \<inter> set cs = {} \<Longrightarrow>
    \<exists>g'. rfold (mark_customer I (length (customer_ids I))) g cs = Inr g' \<and>
      marked (customer_ids I) gamma (S \<union> (SIGMA c:set cs. gamma_nearest I gamma c)) g' \<and>
      directed_neighbors g' = directed_neighbors g @ map (\<lambda>c. (c, near I gamma c)) cs"
proof (induction cs arbitrary: S g)
  case (Cons c cs)
  have c: "c \<in> set (customer_ids I)" using Cons.prems by simp
  have g: "gamma_size g = gamma" using Cons.prems(1) by (simp add: marked_def)
  have sub: "set (near I gamma c) \<subseteq> set (customer_ids I)" using set_near(1) [OF ok] by (auto simp: gamma_nearest_def)
  obtain g1 where g1: "rfold (mark_arc (length (customer_ids I)) c) g (near I gamma c) = Inr g1"
    "marked (customer_ids I) gamma (S \<union> {c} \<times> gamma_nearest I gamma c) g1"
    "directed_neighbors g1 = directed_neighbors g"
    using mark_arcs_marked [OF customers_distinct [OF ok] c Cons.prems(1) sub] set_near(1) [OF ok] by auto
  let ?g2 = "g1\<lparr>directed_neighbors := directed_neighbors g @ [(c, near I gamma c)]\<rparr>"
  have new: "map_of (directed_neighbors g) c = None" using Cons.prems(4) by (auto simp: map_of_eq_None_keys)
  have step: "mark_customer I (length (customer_ids I)) g c = Inr ?g2"
    using g g1(1,3) nearest_of_customer [OF ok c gamma]
    by (simp only: mark_customer_def rbind_Inr map_try_emplace_def new option.case)
  have "marked (customer_ids I) gamma (S \<union> {c} \<times> gamma_nearest I gamma c) ?g2"
    using g1(2) by (simp add: marked_def ranked_def)
  then have m: "marked (customer_ids I) gamma (S \<union> {c} \<times> gamma_nearest I gamma c) ?g2" .
  have disjoint: "fst ` set (directed_neighbors ?g2) \<inter> set cs = {}" using Cons.prems by auto
  have eq: "S \<union> {c} \<times> gamma_nearest I gamma c \<union> (SIGMA c:set cs. gamma_nearest I gamma c) =
      S \<union> (SIGMA c:set (c # cs). gamma_nearest I gamma c)" by auto
  have rest: "set cs \<subseteq> set (customer_ids I)" "distinct cs" using Cons.prems(2,3) by auto
  obtain g' where "rfold (mark_customer I (length (customer_ids I))) ?g2 cs = Inr g'"
    "marked (customer_ids I) gamma (S \<union> (SIGMA c:set (c # cs). gamma_nearest I gamma c)) g'"
    "directed_neighbors g' = directed_neighbors ?g2 @ map (\<lambda>c. (c, near I gamma c)) cs"
    using Cons.IH [OF m rest disjoint] unfolding eq by blast
  then show ?case using step by auto
qed simp

section \<open>The undirected neighbours\<close>

text \<open>The state of the mirroring loop: the values are the ends of the arcs in \<open>S\<close>, in both directions.\<close>

definition mirrored :: "int list \<Rightarrow> (int \<times> int) set \<Rightarrow> (int \<times> int list) list \<Rightarrow> bool" where
  "mirrored cs S m \<longleftrightarrow> map fst m = cs \<and>
     (\<forall>c \<in> set cs. \<exists>l. map_of m c = Some l \<and> set l = {d. (c, d) \<in> S \<or> (d, c) \<in> S})"

lemma push_neighbor_Inr:
  "map_of m k = Some old \<Longrightarrow> push_neighbor k v m = Inr (AList.update k (old @ [v]) m)"
  by (simp add: push_neighbor_def map_at_def)

lemma update_same_keys: "k \<in> fst ` set m \<Longrightarrow> map fst (AList.update k v m) = map fst m"
  by (simp add: update_keys)

lemma mirror_arc_mirrored:
  assumes "mirrored cs S m" and "c \<in> set cs" and "d \<in> set cs"
  shows "\<exists>m'. mirror_arc c m d = Inr m' \<and> mirrored cs (insert (c, d) S) m'"
proof -
  obtain l where l: "map_of m c = Some l" "set l = {d. (c, d) \<in> S \<or> (d, c) \<in> S}"
    using assms(1,2) by (auto simp: mirrored_def)
  let ?m = "AList.update c (l @ [d]) m"
  have keys: "fst ` set m = set cs" using assms(1) by (auto simp: mirrored_def simp flip: set_map)
  obtain k where k: "map_of ?m d = Some k" "insert c (set k) = {e. (d, e) \<in> insert (c, d) S \<or> (e, d) \<in> insert (c, d) S}"
  proof (cases "d = c")
    case True
    then show ?thesis using that [of "l @ [d]"] l by auto
  next
    case False
    obtain k where "map_of m d = Some k" "set k = {e. (d, e) \<in> S \<or> (e, d) \<in> S}"
      using assms(1,3) by (auto simp: mirrored_def)
    then show ?thesis using that [of k] False by auto
  qed
  let ?m' = "AList.update d (k @ [c]) ?m"
  have "mirror_arc c m d = Inr ?m'"
    using push_neighbor_Inr [OF l(1), of d] push_neighbor_Inr [OF k(1), of c] by (simp add: mirror_arc_def)
  moreover have "map fst ?m' = cs"
    using assms keys update_same_keys [of c m] update_same_keys [of d ?m]
    by (simp add: mirrored_def flip: set_map)
  moreover have "\<exists>l. map_of ?m' e = Some l \<and> set l = {f. (e, f) \<in> insert (c, d) S \<or> (f, e) \<in> insert (c, d) S}"
    if e: "e \<in> set cs" for e
  proof -
    consider "e = d" | "e \<noteq> d" "e = c" | "e \<noteq> d" "e \<noteq> c" by blast
    then show ?thesis
    proof cases
      case 1
      then show ?thesis using k by auto
    next
      case 2
      then show ?thesis using l by auto
    next
      case 3
      then show ?thesis using assms(1) e by (auto simp: mirrored_def)
    qed
  qed
  ultimately show ?thesis by (auto simp: mirrored_def)
qed

lemma mirror_arcs_mirrored:
  assumes "c \<in> set cs"
  shows "mirrored cs S m \<Longrightarrow> set ds \<subseteq> set cs \<Longrightarrow>
    \<exists>m'. rfold (mirror_arc c) m ds = Inr m' \<and> mirrored cs (S \<union> {c} \<times> set ds) m'"
proof (induction ds arbitrary: S m)
  case (Cons d ds)
  then obtain m1 where m1: "mirror_arc c m d = Inr m1" "mirrored cs (insert (c, d) S) m1"
    using mirror_arc_mirrored [OF Cons.prems(1) assms, of d] by auto
  have "insert (c, d) S \<union> {c} \<times> set ds = S \<union> {c} \<times> set (d # ds)" by auto
  with Cons.IH [OF m1(2)] Cons.prems(2) m1 show ?case by auto
qed simp

lemma mirror_all_mirrored:
  "mirrored cs S m \<Longrightarrow> \<forall>(c, ds) \<in> set dn. c \<in> set cs \<and> set ds \<subseteq> set cs \<Longrightarrow>
    \<exists>m'. rfold (\<lambda>m (c, ds). rfold (mirror_arc c) m ds) m dn = Inr m' \<and>
      mirrored cs (S \<union> {(c, d). \<exists>ds. (c, ds) \<in> set dn \<and> d \<in> set ds}) m'"
proof (induction dn arbitrary: S m)
  case (Cons x dn)
  obtain c ds where x: "x = (c, ds)" by (cases x)
  then obtain m1 where m1: "rfold (mirror_arc c) m ds = Inr m1" "mirrored cs (S \<union> {c} \<times> set ds) m1"
    using mirror_arcs_mirrored [of c cs S m ds] Cons.prems by auto
  have "S \<union> {c} \<times> set ds \<union> {(c, d). \<exists>ds. (c, ds) \<in> set dn \<and> d \<in> set ds} =
      S \<union> {(c, d). \<exists>ds. (c, ds) \<in> set (x # dn) \<and> d \<in> set ds}" using x by auto
  with Cons.IH [OF m1(2)] Cons.prems(2) m1 x show ?case by auto
qed simp

lemma emplace_empty:
  "distinct cs \<Longrightarrow> fst ` set m \<inter> set cs = {} \<Longrightarrow>
    foldl (\<lambda>m c. map_try_emplace c [] m) m cs = m @ map (\<lambda>c. (c, [])) cs"
proof (induction cs arbitrary: m)
  case (Cons c cs)
  then have "map_of m c = None" by (auto simp: map_of_eq_None_keys)
  then have "map_try_emplace c [] m = m @ [(c, [])]" by (simp only: map_try_emplace_def option.case)
  then show ?case using Cons.prems Cons.IH [of "m @ [(c, [])]"] by auto
qed simp

section \<open>The constructed object\<close>

text \<open>The directed arcs of the neighbourhood.\<close>

definition gamma_arcs :: "inst \<Rightarrow> nat \<Rightarrow> (int \<times> int) set" where
  "gamma_arcs I gamma = (SIGMA c:set (customer_ids I). gamma_nearest I gamma c)"

definition gamma_bound :: "inst \<Rightarrow> nat \<Rightarrow> nat" where
  "gamma_bound I maximum = (if length (customer_ids I) \<le> 1 then 0 else min (length (customer_ids I) - 1) maximum)"

lemma gamma_nearest_zero [simp]: "gamma_nearest I 0 c = {}"
  by (simp add: gamma_nearest_def)

lemma gamma_arcs_zero [simp]: "gamma_arcs I 0 = {}"
  by (simp add: gamma_arcs_def)

lemma gamma_arcs_customers: "gamma_arcs I gamma \<subseteq> set (customer_ids I) \<times> set (customer_ids I)"
  by (auto simp: gamma_arcs_def gamma_nearest_def)

lemma mirrored_sorted:
  assumes "mirrored cs S m"
  shows "map_of (map (\<lambda>(c, ds). (c, remdups_adj (sort ds))) m) c = map_option (\<lambda>ds. remdups_adj (sort ds)) (map_of m c)"
  by (induction m) auto

lemma distinct_remdups_adj_sorted: "sorted xs \<Longrightarrow> distinct (remdups_adj xs)" for xs :: "int list"
  by (induction xs rule: remdups_adj.induct) auto

lemma sorted_unique: "sorted (remdups_adj (sort xs)) \<and> distinct (remdups_adj (sort xs))" for xs :: "int list"
  using distinct_remdups_adj_sorted [OF sorted_sort, of xs] by simp

lemma set_pairs_of: "set (pairs_of m) = {(a, b). a < b \<and> (\<exists>ds. (a, ds) \<in> set m \<and> b \<in> set ds)}"
  by (auto simp: pairs_of_def split: prod.splits)

lemma sorted_pairs_of: "sorted (pairs_of m)"
  by (simp add: pairs_of_def)

lemma mk_granular_built:
  assumes ok: "inst_ok I" and "maximum \<noteq> 0"
  obtains g where "mk_granular I maximum = Inr g"
    and "marked (customer_ids I) (gamma_bound I maximum) (gamma_arcs I (gamma_bound I maximum)) g"
    and "directed_neighbors g = map (\<lambda>c. (c, near I (gamma_bound I maximum) c)) (customer_ids I)"
    and "\<And>c. c \<in> set (customer_ids I) \<Longrightarrow> \<exists>ds. map_of (promising_neighbors g) c = Some ds \<and> sorted ds \<and> distinct ds \<and>
        set ds = {d. (c, d) \<in> gamma_arcs I (gamma_bound I maximum) \<or> (d, c) \<in> gamma_arcs I (gamma_bound I maximum)}"
    and "sorted (promising_pairs g)"
    and "set (promising_pairs g) = {(a, b). a < b \<and>
        ((a, b) \<in> gamma_arcs I (gamma_bound I maximum) \<or> (b, a) \<in> gamma_arcs I (gamma_bound I maximum))}"
proof -
  let ?cs = "customer_ids I" and ?gamma = "gamma_bound I maximum"
  let ?n = "length ?cs"
  note d = customers_distinct [OF ok]
  let ?g = "\<lparr>gamma_size = 0, customer_rank_by_id = zip ?cs [0..<?n],
    consecutive_customer_ids = (\<forall>i < ?n. ?cs ! i = int i + 1),
    promising_matrix = replicate (?n * ?n) False, directed_neighbors = [],
    promising_neighbors = [], promising_pairs = [], promising_edges = {}\<rparr>"
  have empty: "foldl (\<lambda>m c. map_try_emplace c [] m) [] ?cs = map (\<lambda>c. (c, [])) ?cs"
    using emplace_empty [OF d, of "[]"] by simp
  show thesis
  proof (cases "?n \<le> 1")
    case True
    let ?g' = "?g\<lparr>directed_neighbors := map (\<lambda>c. (c, [])) ?cs, promising_neighbors := map (\<lambda>c. (c, [])) ?cs\<rparr>"
    have "mk_granular I maximum = Inr ?g'"
      using True assms(2) by (simp add: mk_granular_def Let_def ranks_of_customers [OF d] empty)
    moreover have "marked ?cs 0 {} ?g'"
      using matrix_index_less by (auto simp: marked_def ranked_def)
    moreover have "map_of (map (\<lambda>c. (c, [])) ?cs) c = Some []" if "c \<in> set ?cs" for c
      using that by (simp add: map_of_map_restrict)
    moreover have "gamma_bound I maximum = 0" using True by (simp add: gamma_bound_def)
    ultimately show thesis by (intro that [of ?g']) (simp_all add: near_def)
  next
    case False
    then have gamma: "?gamma = min (?n - 1) maximum" "?gamma \<le> ?n - 1" by (auto simp: gamma_bound_def)
    have "marked ?cs ?gamma {} (?g\<lparr>gamma_size := ?gamma\<rparr>)"
      using matrix_index_less by (auto simp: marked_def ranked_def)
    from mark_customers_marked [OF ok gamma(2) this order_refl d]
    obtain g1 where g1: "rfold (mark_customer I ?n) (?g\<lparr>gamma_size := ?gamma\<rparr>) ?cs = Inr g1"
      "marked ?cs ?gamma (gamma_arcs I ?gamma) g1"
      "directed_neighbors g1 = map (\<lambda>c. (c, near I ?gamma c)) ?cs"
      by (auto simp: gamma_arcs_def)
    have start: "mirrored ?cs {} (map (\<lambda>c. (c, [])) ?cs)"
      by (auto simp: mirrored_def map_of_map_restrict comp_def)
    have inside: "\<forall>(c, ds) \<in> set (directed_neighbors g1). c \<in> set ?cs \<and> set ds \<subseteq> set ?cs"
      using set_near(1) [OF ok] by (auto simp: g1(3) gamma_nearest_def)
    obtain m where m: "rfold (\<lambda>m (c, ds). rfold (mirror_arc c) m ds) (map (\<lambda>c. (c, [])) ?cs)
        (directed_neighbors g1) = Inr m"
      "mirrored ?cs {(c, d). \<exists>ds. (c, ds) \<in> set (directed_neighbors g1) \<and> d \<in> set ds} m"
      using mirror_all_mirrored [OF start inside] unfolding Un_empty_left by blast
    have arcs: "{(c, d). \<exists>ds. (c, ds) \<in> set (directed_neighbors g1) \<and> d \<in> set ds} = gamma_arcs I ?gamma"
      using set_near(1) [OF ok] by (auto simp: g1(3) gamma_arcs_def)
    let ?m = "map (\<lambda>(customer, neighbors). (customer, remdups_adj (sort neighbors))) m"
    let ?g' = "g1\<lparr>promising_neighbors := ?m, promising_pairs := pairs_of ?m\<rparr>"
    have built: "mk_granular I maximum = Inr ?g'"
      using False assms(2) g1(1) m(1) gamma(1)
      by (simp add: mk_granular_def Let_def ranks_of_customers [OF d] empty)
    have marked: "marked ?cs ?gamma (gamma_arcs I ?gamma) ?g'" using g1(2) by (simp add: marked_def ranked_def)
    have undirected: "\<exists>ds. map_of ?m c = Some ds \<and> sorted ds \<and> distinct ds \<and>
        set ds = {d. (c, d) \<in> gamma_arcs I ?gamma \<or> (d, c) \<in> gamma_arcs I ?gamma}" if "c \<in> set ?cs" for c
    proof -
      have "\<forall>c \<in> set ?cs. \<exists>l. map_of m c = Some l \<and>
          set l = {d. (c, d) \<in> gamma_arcs I ?gamma \<or> (d, c) \<in> gamma_arcs I ?gamma}"
        using m(2) unfolding mirrored_def arcs by (rule conjunct2)
      from bspec [OF this that] obtain l where "map_of m c = Some l" "set l = {d. (c, d) \<in> gamma_arcs I ?gamma \<or> (d, c) \<in> gamma_arcs I ?gamma}"
        by (elim exE conjE)
      then show ?thesis using mirrored_sorted [OF m(2)] sorted_unique [of l] by auto
    qed
    have keys: "map fst ?m = ?cs"
      using m(2) by (auto simp: mirrored_def comp_def case_prod_beta)
    have "(a, ds) \<in> set ?m \<longleftrightarrow> a \<in> set ?cs \<and> map_of ?m a = Some ds" for a ds
      using keys d by (metis (mono_tags, lifting) image_eqI fst_conv list.set_map map_of_eq_Some_iff)
    then have member: "(\<exists>ds. (a, ds) \<in> set ?m \<and> b \<in> set ds) \<longleftrightarrow>
        (a, b) \<in> gamma_arcs I ?gamma \<or> (b, a) \<in> gamma_arcs I ?gamma" for a b
    proof (cases "a \<in> set ?cs")
      case True
      from undirected [OF this] obtain ds where ds: "map_of ?m a = Some ds"
        "set ds = {d. (a, d) \<in> gamma_arcs I ?gamma \<or> (d, a) \<in> gamma_arcs I ?gamma}"
        by (elim exE conjE)
      have "(\<exists>ds. (a, ds) \<in> set ?m \<and> b \<in> set ds) \<longleftrightarrow> b \<in> set ds"
        by (simp only: \<open>\<And>a ds. (a, ds) \<in> set ?m \<longleftrightarrow> a \<in> set ?cs \<and> map_of ?m a = Some ds\<close> True ds(1)
            option.inject simp_thms ex_simps)
      then show ?thesis by (simp only: ds(2) mem_Collect_eq)
    next
      case False
      then show ?thesis
        using gamma_arcs_customers [of I ?gamma] \<open>\<And>a ds. (a, ds) \<in> set ?m \<longleftrightarrow> a \<in> set ?cs \<and> map_of ?m a = Some ds\<close>
        by blast
    qed
    have pairs: "set (pairs_of ?m) = {(a, b). a < b \<and>
        ((a, b) \<in> gamma_arcs I ?gamma \<or> (b, a) \<in> gamma_arcs I ?gamma)}"
      by (simp only: set_pairs_of member)
    have sel: "directed_neighbors ?g' = directed_neighbors g1" "promising_neighbors ?g' = ?m"
      "promising_pairs ?g' = pairs_of ?m" by simp_all
    show thesis
    proof (rule that [OF built marked], unfold sel)
      show "directed_neighbors g1 = map (\<lambda>c. (c, near I ?gamma c)) ?cs" by (rule g1(3))
    qed (fact undirected sorted_pairs_of pairs)+
  qed
qed

section \<open>Edge keys\<close>

definition int32 :: "int \<Rightarrow> bool" where
  "int32 i \<longleftrightarrow> - (2 ^ 31) \<le> i \<and> i < 2 ^ 31"

lemma word_of_int_int32: "int32 a \<Longrightarrow> int32 b \<Longrightarrow> (word_of_int a :: 32 word) = word_of_int b \<longleftrightarrow> a = b"
proof
  assume range: "int32 a" "int32 b" and "(word_of_int a :: 32 word) = word_of_int b"
  then have "a mod 2 ^ 32 = b mod 2 ^ 32" by (simp add: word_of_int_eq_iff take_bit_eq_mod)
  then have "(a - b) mod 2 ^ 32 = 0" by (simp only: mod_eq_dvd_iff dvd_eq_mod_eq_0)
  then obtain k where "a - b = 2 ^ 32 * k" by (auto simp: mod_0_imp_dvd elim: dvdE)
  moreover have "\<bar>a - b\<bar> < 2 ^ 32" using range by (auto simp: int32_def)
  ultimately have "\<bar>4294967296 * k\<bar> < 4294967296" by simp
  then have "k = 0" by arith
  with \<open>a - b = 2 ^ 32 * k\<close> show "a = b" by simp
qed simp

lemma edge_key_inj:
  assumes "int32 a" "int32 b" "int32 c" "int32 d"
  shows "edge_key a b = edge_key c d \<longleftrightarrow> a = c \<and> b = d"
proof
  assume eq: "edge_key a b = edge_key c d"
  have bits: "bit (edge_key x y) i \<longleftrightarrow>
      i < 64 \<and> (if i < 32 then bit (word_of_int y :: 32 word) i else bit (word_of_int x :: 32 word) (i - 32))" for x y i
    by (auto simp: edge_key_def bit_or_iff bit_push_bit_iff bit_ucast_iff dest: bit_imp_le_length)
  have "(word_of_int b :: 32 word) = word_of_int d"
  proof (rule bit_word_eqI)
    fix i assume "i < LENGTH(32)"
    then show "bit (word_of_int b :: 32 word) i = bit (word_of_int d :: 32 word) i"
      using bits [of a b i] bits [of c d i] eq by simp
  qed
  moreover have "(word_of_int a :: 32 word) = word_of_int c"
  proof (rule bit_word_eqI)
    fix i assume "i < LENGTH(32)"
    then show "bit (word_of_int a :: 32 word) i = bit (word_of_int c :: 32 word) i"
      using bits [of a b "i + 32"] bits [of c d "i + 32"] eq by simp
  qed
  ultimately show "a = c \<and> b = d" using assms word_of_int_int32 by auto
qed simp

text \<open>The arcs between consecutive customers of the sequences.\<close>

definition sequence_arcs :: "int list list \<Rightarrow> (int \<times> int) set" where
  "sequence_arcs sequences = (\<Union>s \<in> set sequences. set (zip s (tl s)))"

lemma sequence_edges_keys: "set (sequence_edges s) = (\<lambda>(a, b). edge_key a b) ` set (zip s (tl s))"
proof -
  have "(\<lambda>(a, b). edge_key a b) ` set (zip s (tl s)) = {edge_key (s ! i) (s ! Suc i) | i. Suc i < length s}"
    by (force simp: set_zip nth_tl)
  moreover have "set (sequence_edges s) = {edge_key (s ! i) (s ! Suc i) | i. Suc i < length s}"
  proof -
    have "{1..<length s} = Suc ` {i. Suc i < length s}" by (auto simp: image_iff Suc_le_eq gr0_conv_Suc)
    then show ?thesis by (simp only: sequence_edges_def set_map set_upt image_image) auto
  qed
  ultimately show ?thesis by simp
qed

lemma edges_keys: "set (concat (map sequence_edges ss)) = (\<lambda>(a, b). edge_key a b) ` sequence_arcs ss"
  by (auto simp: sequence_edges_keys sequence_arcs_def)

lemma edge_key_inj_on: "(\<forall>(a, b) \<in> A. int32 a \<and> int32 b) \<Longrightarrow> inj_on (\<lambda>(a, b). edge_key a b) A"
proof (rule inj_onI)
  fix x y assume A: "\<forall>(a, b) \<in> A. int32 a \<and> int32 b" "x \<in> A" "y \<in> A"
    and eq: "(\<lambda>(a, b). edge_key a b) x = (\<lambda>(a, b). edge_key a b) y"
  obtain a b c d where "x = (a, b)" "y = (c, d)" by (cases x; cases y)
  with A eq edge_key_inj [of a b c d] show "x = y" by auto
qed

lemma in_set_tl: "x \<in> set (tl xs) \<Longrightarrow> x \<in> set xs"
  by (cases xs) auto

lemma arcs_int32:
  assumes "\<forall>s \<in> set ss. \<forall>c \<in> set s. int32 c"
  shows "\<forall>(a, b) \<in> sequence_arcs ss. int32 a \<and> int32 b"
  using assms by (fastforce simp: sequence_arcs_def dest: set_zip_leftD set_zip_rightD in_set_tl)

lemma allows_edges_arcs:
  assumes "marked cs gamma S g" and "\<forall>c \<in> set cs. int32 c"
    and "\<forall>s \<in> set current. \<forall>c \<in> set s. int32 c" and "\<forall>s \<in> set candidate. \<forall>c \<in> set s. int32 c"
  shows "allows g current candidate \<longleftrightarrow>
    S = {} \<or> (\<exists>arc \<in> sequence_arcs candidate. arc \<notin> sequence_arcs current \<and> arc \<in> S)"
proof -
  let ?k = "\<lambda>(a, b). edge_key a b"
  have edges: "promising_edges g = ?k ` S" and S: "\<forall>(a, b) \<in> S. int32 a \<and> int32 b"
    using assms(1,2) by (auto simp: marked_def)
  have inj: "inj_on ?k (S \<union> (sequence_arcs current \<union> sequence_arcs candidate))"
    using S arcs_int32 [OF assms(3)] arcs_int32 [OF assms(4)] by (intro edge_key_inj_on) blast
  have mem: "?k arc \<in> ?k ` B \<longleftrightarrow> arc \<in> B" if "arc \<in> sequence_arcs candidate"
    "B \<subseteq> S \<union> (sequence_arcs current \<union> sequence_arcs candidate)" for arc B
    using that by (intro inj_on_image_mem_iff [OF inj]) auto
  have "allows g current candidate \<longleftrightarrow>
      S = {} \<or> (\<exists>arc \<in> sequence_arcs candidate. ?k arc \<notin> ?k ` sequence_arcs current \<and> ?k arc \<in> ?k ` S)"
    by (simp only: allows_def allows_edges_def edge_set_def edges_keys edges image_is_empty bex_simps if_splits) auto
  also have "\<dots> \<longleftrightarrow> S = {} \<or> (\<exists>arc \<in> sequence_arcs candidate. arc \<notin> sequence_arcs current \<and> arc \<in> S)"
    by (simp only: mem sup_ge1 sup_ge2 le_supI1 le_supI2 cong: bex_cong)
  finally show ?thesis .
qed

lemma marked_lookup:
  assumes "marked cs gamma S g" and "distinct cs"
  shows "promising g a b = Inr ((a, b) \<in> S)"
proof -
  have entry: "promising_matrix g ! (i * length cs + j) \<longleftrightarrow> (cs ! i, cs ! j) \<in> S" if "i < length cs" "j < length cs" for i j
    using assms(1) that by (simp add: marked_def)
  have "(\<exists>i j. i < length cs \<and> j < length cs \<and> a = cs ! i \<and> b = cs ! j \<and>
      promising_matrix g ! (i * length cs + j)) \<longleftrightarrow> (a, b) \<in> S"
  proof
    assume "(a, b) \<in> S"
    moreover from this have "a \<in> set cs" "b \<in> set cs" using assms(1) by (auto simp: marked_def)
    then obtain i j where "i < length cs" "a = cs ! i" "j < length cs" "b = cs ! j"
      by (metis in_set_conv_nth)
    ultimately show "\<exists>i j. i < length cs \<and> j < length cs \<and> a = cs ! i \<and> b = cs ! j \<and>
      promising_matrix g ! (i * length cs + j)" using entry by blast
  qed (use entry in blast)
  moreover have "ranked cs g" using assms(1) by (simp add: marked_def)
  ultimately show ?thesis using promising_lookup [OF _ assms(2)] by simp
qed

section \<open>Properties\<close>

text \<open>
  C21: The constructor computes the directed gamma-neighbourhood. On every instance and for every
  positive limit it succeeds; gamma is the limit, at most the number of other customers;
  \<open>promising(a, b)\<close> answers without an error on every pair of identifiers, on the dense fast path and
  on the search path alike, and is true exactly when \<open>a\<close> and \<open>b\<close> are customers and fewer than gamma
  customers are nearer to \<open>a\<close> than \<open>b\<close> (ties by identifier); \<open>neighbors_of\<close> lists exactly those
  customers once, \<open>promising_neighbors_of\<close> is sorted and lists the customers joined to \<open>a\<close> by an arc of
  either direction, and \<open>promising_pairs\<close> is sorted and lists those unordered pairs.
\<close>

theorem granular_marks_nearest:
  assumes "inst_ok I" and "maximum \<noteq> 0"
  shows "\<exists>g. mk_granular I maximum = Inr g \<and> gamma_size g = gamma_bound I maximum \<and>
    (\<forall>a b. promising g a b = Inr (a \<in> set (customer_ids I) \<and> b \<in> gamma_nearest I (gamma_size g) a)) \<and>
    (\<forall>a \<in> set (customer_ids I).
       (\<exists>ns. neighbors_of g a = Inr ns \<and> distinct ns \<and> set ns = gamma_nearest I (gamma_size g) a) \<and>
       (\<exists>ns. promising_neighbors_of g a = Inr ns \<and> sorted ns \<and> distinct ns \<and>
          set ns = {b. promising g a b = Inr True \<or> promising g b a = Inr True})) \<and>
    sorted (promising_pairs g) \<and>
    set (promising_pairs g) = {(a, b). a < b \<and> (promising g a b = Inr True \<or> promising g b a = Inr True)}"
proof -
  let ?cs = "customer_ids I" and ?gamma = "gamma_bound I maximum"
  obtain g where g: "mk_granular I maximum = Inr g" "marked ?cs ?gamma (gamma_arcs I ?gamma) g"
    "directed_neighbors g = map (\<lambda>c. (c, near I ?gamma c)) ?cs"
    and undirected: "\<And>c. c \<in> set ?cs \<Longrightarrow> \<exists>ds. map_of (promising_neighbors g) c = Some ds \<and> sorted ds \<and> distinct ds \<and>
        set ds = {d. (c, d) \<in> gamma_arcs I ?gamma \<or> (d, c) \<in> gamma_arcs I ?gamma}"
    and pairs: "sorted (promising_pairs g)" "set (promising_pairs g) = {(a, b). a < b \<and>
        ((a, b) \<in> gamma_arcs I ?gamma \<or> (b, a) \<in> gamma_arcs I ?gamma)}"
    using mk_granular_built [OF assms] by blast
  have size: "gamma_size g = ?gamma" using g(2) by (simp add: marked_def)
  have look: "promising g a b = Inr ((a, b) \<in> gamma_arcs I ?gamma)" for a b
    by (rule marked_lookup [OF g(2) customers_distinct [OF assms(1)]])
  have arcs: "(a, b) \<in> gamma_arcs I ?gamma \<longleftrightarrow> a \<in> set ?cs \<and> b \<in> gamma_nearest I ?gamma a" for a b
    by (auto simp: gamma_arcs_def)
  have directed: "\<exists>ns. neighbors_of g a = Inr ns \<and> distinct ns \<and> set ns = gamma_nearest I ?gamma a" if "a \<in> set ?cs" for a
    using that set_near [OF assms(1)] by (simp add: neighbors_of_def map_at_def g(3) map_of_map_restrict)
  have both: "\<exists>ns. promising_neighbors_of g a = Inr ns \<and> sorted ns \<and> distinct ns \<and>
      set ns = {b. promising g a b = Inr True \<or> promising g b a = Inr True}" if "a \<in> set ?cs" for a
    using undirected [OF that] by (auto simp: promising_neighbors_of_def map_at_def look)
  show ?thesis
    using g(1) size look arcs directed both pairs by (intro exI [of _ g]) simp
qed

lemma granular_marks_nearest_witness:
  "\<exists>g. mk_granular demo_inst 40 = Inr g \<and> gamma_size g = gamma_bound demo_inst 40 \<and>
    (\<forall>a b. promising g a b = Inr (a \<in> set (customer_ids demo_inst) \<and> b \<in> gamma_nearest demo_inst (gamma_size g) a)) \<and>
    (\<forall>a \<in> set (customer_ids demo_inst).
       (\<exists>ns. neighbors_of g a = Inr ns \<and> distinct ns \<and> set ns = gamma_nearest demo_inst (gamma_size g) a) \<and>
       (\<exists>ns. promising_neighbors_of g a = Inr ns \<and> sorted ns \<and> distinct ns \<and>
          set ns = {b. promising g a b = Inr True \<or> promising g b a = Inr True})) \<and>
    sorted (promising_pairs g) \<and>
    set (promising_pairs g) = {(a, b). a < b \<and> (promising g a b = Inr True \<or> promising g b a = Inr True)}"
  by (rule granular_marks_nearest [OF demo_inst_ok]) simp

text \<open>
  C38: The move filter \<open>allows\<close>, which compares 64-bit edge keys, is exact on 32-bit identifiers: a
  candidate passes when the neighbourhood is empty or when it has an arc between consecutive customers
  that the current sequences do not have and that is promising - no two arcs share a key, so no
  new promising arc is hidden and no other arc counts as promising.
\<close>

theorem granular_filter_exact:
  assumes "inst_ok I" and "maximum \<noteq> 0" and "mk_granular I maximum = Inr g"
    and "\<forall>c \<in> set (customer_ids I). int32 c"
    and "\<forall>s \<in> set current. \<forall>c \<in> set s. int32 c" and "\<forall>s \<in> set candidate. \<forall>c \<in> set s. int32 c"
  shows "allows g current candidate \<longleftrightarrow> gamma_arcs I (gamma_bound I maximum) = {} \<or>
    (\<exists>(a, b) \<in> sequence_arcs candidate. (a, b) \<notin> sequence_arcs current \<and>
       a \<in> set (customer_ids I) \<and> b \<in> gamma_nearest I (gamma_bound I maximum) a)"
proof -
  have "marked (customer_ids I) (gamma_bound I maximum) (gamma_arcs I (gamma_bound I maximum)) g"
    using mk_granular_built [OF assms(1,2)] assms(3) by (metis sum.inject(2))
  from allows_edges_arcs [OF this assms(4-6)] show ?thesis by (auto simp: gamma_arcs_def)
qed

lemma granular_filter_exact_witness:
  "\<exists>g. mk_granular demo_inst 1 = Inr g \<and>
    (allows g [[1], [3]] [[1, 3]] \<longleftrightarrow> gamma_arcs demo_inst (gamma_bound demo_inst 1) = {} \<or>
      (\<exists>(a, b) \<in> sequence_arcs [[1, 3]]. (a, b) \<notin> sequence_arcs [[1], [3]] \<and>
         a \<in> set (customer_ids demo_inst) \<and> b \<in> gamma_nearest demo_inst (gamma_bound demo_inst 1) a))"
proof -
  obtain g where g: "mk_granular demo_inst 1 = Inr g" using mk_granular_built [OF demo_inst_ok, of 1] by (metis one_neq_zero)
  show ?thesis
    using granular_filter_exact [OF demo_inst_ok _ g, of "[[1], [3]]" "[[1, 3]]"] g
    by (simp add: int32_def demo_inst_def)
qed

end
