(* ===== verification/Solver_Control.thy ===== *)
theory Solver_Control
  imports Route_Pool
begin

text \<open>
  The control decisions of the solver (src/solver.cpp, include/ils_sp/solver.hpp): its
  configuration and the checks of the constructor, deadlines and rounded targets
  (include/ils_sp/detail/input_contract.hpp), the wall budget of the route optimiser
  (include/ils_sp/detail/frvcp_active_budget.hpp), the penalty feedback, the record test, the
  exploration epochs, and the choice of a warm start for the set-partitioning model.
\<close>

section \<open>Deadlines and rounding\<close>

text \<open>
  A point of the steady clock is its count of nanoseconds, a signed 64-bit integer; seconds are
  converted to ticks exactly.
\<close>

definition clock_max :: int where
  "clock_max = 2 ^ 63 - 1"

definition ticks_of :: "real \<Rightarrow> real" where
  "ticks_of seconds = seconds * 10 ^ 9"

definition checked_deadline_after :: "int \<Rightarrow> real \<Rightarrow> int result" where
  "checked_deadline_after start seconds =
     (if \<not> isfinite seconds \<or> seconds \<le> 0
      then Inl (Invalid_Argument ''time limit must be finite and positive'')
      else if \<not> isfinite (ticks_of seconds) \<or> ticks_of seconds > clock_max \<or>
              ticks_of seconds > clock_max - start
      then Inl (Invalid_Argument ''time limit exceeds the clock representation'')
      else Inr (start + \<lfloor>ticks_of seconds\<rfloor>))"

text \<open>\<open>std::llround\<close>: to the nearest integer, halves away from zero.\<close>

definition llround :: "real \<Rightarrow> int" where
  "llround x = (if x \<ge> 0 then \<lfloor>x + 1 / 2\<rfloor> else \<lceil>x - 1 / 2\<rceil>)"

definition roundable_objective :: "real \<Rightarrow> bool" where
  "roundable_objective v \<longleftrightarrow> isfinite v \<and> v \<ge> 0 \<and> isfinite (v * 100) \<and> v * 100 < 2 ^ 63"

definition validate_rounded_target :: "real \<Rightarrow> unit result" where
  "validate_rounded_target v =
     require (roundable_objective v) (Invalid_Argument ''rounded target is outside the finite rounding range'')"

section \<open>Configuration\<close>

datatype search_profile = Paper | Linked_Winner | Linked_Insertion_Candidates | Granular_Adaptive

datatype continuation_policy = Operational | Record_Policy

record paper_parameters =
  penalty_window :: nat
  penalty_factor :: real
  lambda_initial :: real
  lambda_min :: real
  lambda_max :: real
  sp_frequency :: nat
  backup_frequency :: nat
  paper_pool_capacity :: nat
  max_iterations :: nat

record solver_config =
  paper :: paper_parameters
  profile :: search_profile
  continuation :: continuation_policy
  implicit_replace_path :: bool
  complete_insertion_paths :: "bool option"
  complete_initialization_paths :: "bool option"
  rebuild_initialization_paths :: bool
  preserve_initialization_station_visits :: bool
  preserve_station_visits :: bool
  project_opening_station_visits :: bool
  global_time_limit_s :: "real option"
  frvcp_wall_budget_s :: "real option"
  rounded_target_objective_h :: "real option"
  sp_incumbent_stall_limit_s :: "real option"
  sp_maximum_time_s :: "real option"
  config_identity :: pool_identity
  protect_best_partition :: bool
  config_keep_evicted :: bool
  reprice_after_lp :: bool
  adaptive_sp_stall_iterations :: "nat option"
  adaptive_sp_minimum_interval :: nat
  progress_interval :: nat

definition opt_positive :: "real option \<Rightarrow> bool" where
  "opt_positive limit = (case limit of None \<Rightarrow> True | Some x \<Rightarrow> isfinite x \<and> \<not> x \<le> 0)"

definition parameters_invalid :: "solver_config \<Rightarrow> bool" where
  "parameters_invalid cfg =
     (let p = paper cfg
      in penalty_window p = 0 \<or> \<not> isfinite (penalty_factor p) \<or>
         \<not> isfinite (lambda_min p) \<or> \<not> isfinite (lambda_initial p) \<or>
         \<not> isfinite (lambda_max p) \<or> penalty_factor p \<le> 1 \<or>
         lambda_min p < 0 \<or> lambda_min p > lambda_initial p \<or>
         lambda_initial p > lambda_max p \<or> sp_frequency p = 0 \<or>
         backup_frequency p = 0 \<or> paper_pool_capacity p = 0 \<or>
         max_iterations p = 0 \<or> progress_interval cfg = 0 \<or>
         \<not> opt_positive (global_time_limit_s cfg) \<or>
         (case rounded_target_objective_h cfg of None \<Rightarrow> False | Some x \<Rightarrow> \<not> isfinite x \<or> x < 0) \<or>
         \<not> opt_positive (sp_incumbent_stall_limit_s cfg) \<or>
         \<not> opt_positive (sp_maximum_time_s cfg) \<or>
         (case adaptive_sp_stall_iterations cfg of None \<Rightarrow> False
          | Some n \<Rightarrow> n = 0 \<or> adaptive_sp_minimum_interval cfg = 0))"

text \<open>The body of the constructor, at the clock reading \<open>now\<close>.\<close>

definition check_limit :: "int \<Rightarrow> real option \<Rightarrow> unit result" where
  "check_limit now limit =
     (case limit of None \<Rightarrow> Inr () | Some s \<Rightarrow> rbind (checked_deadline_after now s) (\<lambda>_. Inr ()))"

definition check_config :: "int \<Rightarrow> solver_config \<Rightarrow> unit result" where
  "check_config now cfg =
     rbind (check_limit now (global_time_limit_s cfg)) (\<lambda>_.
     rbind (check_limit now (sp_maximum_time_s cfg)) (\<lambda>_.
     rbind (case rounded_target_objective_h cfg of None \<Rightarrow> Inr () | Some v \<Rightarrow> validate_rounded_target v) (\<lambda>_.
     if (rebuild_initialization_paths cfg \<or> preserve_initialization_station_visits cfg) \<and>
        (profile cfg \<noteq> Paper \<or> complete_initialization_paths cfg \<noteq> Some True)
     then Inl (Invalid_Argument ''station initialization requires completed paper initialization'')
     else if complete_initialization_paths cfg \<noteq> None \<and> profile cfg \<noteq> Paper
     then Inl (Invalid_Argument ''--initialization-paths requires the paper profile'')
     else if (complete_insertion_paths cfg \<noteq> None \<or> preserve_station_visits cfg) \<and> profile cfg \<noteq> Paper
     then Inl (Invalid_Argument ''--insertion-paths requires the paper profile'')
     else if preserve_station_visits cfg \<and> complete_insertion_paths cfg = Some True
     then Inl (Invalid_Argument ''preserve-cs cannot use completed insertion'')
     else if profile cfg = Paper \<and> preserve_station_visits cfg \<and> \<not> implicit_replace_path cfg \<and>
             \<not> project_opening_station_visits cfg
     then Inl (Invalid_Argument ''cooperative preserve-cs requires projected route opening'')
     else require (\<not> parameters_invalid cfg) (Invalid_Argument ''invalid ILS-SP solver configuration''))))"

section \<open>The wall budget of the route optimiser\<close>

record frvcp_budget =
  budget_limit_s :: "real option"
  spent_s :: real
  skipped_routes :: nat

definition kBudgetGuardS :: real where
  "kBudgetGuardS = 1 / 100"

definition make_budget :: "real option \<Rightarrow> frvcp_budget result" where
  "make_budget limit =
     (if \<not> opt_positive limit then Inl (Invalid_Argument ''FRVCP wall budget must be finite and positive'')
      else Inr \<lparr>budget_limit_s = limit, spent_s = 0, skipped_routes = 0\<rparr>)"

definition budget_enabled :: "frvcp_budget \<Rightarrow> bool" where
  "budget_enabled b \<longleftrightarrow> budget_limit_s b \<noteq> None"

definition budget_exhausted :: "frvcp_budget \<Rightarrow> bool" where
  "budget_exhausted b = (case budget_limit_s b of None \<Rightarrow> False | Some l \<Rightarrow> l - spent_s b \<le> kBudgetGuardS)"

text \<open>The conversion to an integral duration truncates towards zero.\<close>

definition truncate_ticks :: "real \<Rightarrow> int" where
  "truncate_ticks x = (if x \<ge> 0 then \<lfloor>x\<rfloor> else \<lceil>x\<rceil>)"

definition budget_deadline :: "frvcp_budget \<Rightarrow> int \<Rightarrow> int option \<Rightarrow> int option" where
  "budget_deadline b now global =
     (case budget_limit_s b of None \<Rightarrow> global
      | Some l \<Rightarrow>
          let target = of_int now + ticks_of (max 0 (l - spent_s b));
              here = (if target \<ge> of_int clock_max then clock_max else truncate_ticks target)
          in case global of None \<Rightarrow> Some here | Some g \<Rightarrow> if here < g then Some here else global)"

definition budget_charge :: "frvcp_budget \<Rightarrow> int \<Rightarrow> int \<Rightarrow> frvcp_budget" where
  "budget_charge b start_tick end_tick =
     (if budget_limit_s b = None then b else b\<lparr>spent_s := spent_s b + of_int (end_tick - start_tick) / 10 ^ 9\<rparr>)"

section \<open>Penalty feedback and records\<close>

record penalty_state =
  penalty_lambda :: real
  consecutive_feasible :: nat
  consecutive_infeasible :: nat

definition observe_penalty :: "paper_parameters \<Rightarrow> bool \<Rightarrow> penalty_state \<Rightarrow> penalty_state" where
  "observe_penalty p feas s0 =
     (let s = (if feas then s0\<lparr>consecutive_feasible := consecutive_feasible s0 + 1, consecutive_infeasible := 0\<rparr>
               else s0\<lparr>consecutive_infeasible := consecutive_infeasible s0 + 1, consecutive_feasible := 0\<rparr>)
      in if consecutive_infeasible s \<ge> penalty_window p
         then s\<lparr>penalty_lambda := min (lambda_max p) (penalty_lambda s * penalty_factor p),
                consecutive_infeasible := 0\<rparr>
         else if consecutive_feasible s \<ge> penalty_window p
         then s\<lparr>penalty_lambda := max (lambda_min p) (penalty_lambda s / penalty_factor p),
                consecutive_feasible := 0\<rparr>
         else s)"

definition update_best :: "solution \<Rightarrow> solution option \<Rightarrow> (bool \<times> solution option) result" where
  "update_best candidate best =
     (if \<not> sol_feasible candidate then Inr (False, best)
      else case best of
          None \<Rightarrow> Inr (True, Some candidate)
        | Some b \<Rightarrow>
            rbind (sol_raw_cost_h candidate) (\<lambda>c. rbind (sol_raw_cost_h b) (\<lambda>old.
              if c < old - kCostTolerance then Inr (True, Some candidate) else Inr (False, best))))"

definition rounded_target_reached :: "solver_config \<Rightarrow> solution \<Rightarrow> bool result" where
  "rounded_target_reached cfg candidate =
     (case rounded_target_objective_h cfg of
        None \<Rightarrow> Inr False
      | Some target \<Rightarrow>
          if \<not> sol_feasible candidate then Inr False
          else rbind (sol_raw_cost_h candidate) (\<lambda>c.
                 Inr (roundable_objective c \<and> llround (c * 100) \<le> llround (target * 100))))"

section \<open>Working states\<close>

text \<open>
  Doubles are compared by their bits; a real number stands for one value.  Evaluations are
  shared pointers: the same pointer (two null ones included) is equal, one null pointer is not.
\<close>

definition same_event :: "charging_event \<Rightarrow> charging_event \<Rightarrow> bool" where
  "same_event p q \<longleftrightarrow> \<not> (visit_index p \<noteq> visit_index q \<or> event_station_id p \<noteq> event_station_id q \<or>
     \<not> event_arrival_wh p = event_arrival_wh q \<or> \<not> event_departure_wh p = event_departure_wh q \<or>
     \<not> duration_h p = duration_h q)"

definition same_evaluation :: "route_evaluation \<Rightarrow> route_evaluation \<Rightarrow> bool" where
  "same_evaluation x y \<longleftrightarrow>
     \<not> (evaluated_route x \<noteq> evaluated_route y \<or> feasible x \<noteq> feasible y \<or>
        \<not> raw_cost_h x = raw_cost_h y \<or> \<not> total_travel_h x = total_travel_h y \<or>
        \<not> charging_time_h x = charging_time_h y \<or> \<not> total_service_h x = total_service_h y \<or>
        \<not> route_duration_h x = route_duration_h y \<or> \<not> energy_shortfall_wh x = energy_shortfall_wh y \<or>
        \<not> duration_excess_h x = duration_excess_h y \<or>
        \<not> list_all2 (=) (arrival_energy_wh x) (arrival_energy_wh y) \<or>
        \<not> list_all2 (=) (departure_energy_wh x) (departure_energy_wh y) \<or>
        length (charging_events x) \<noteq> length (charging_events y)) \<and>
     list_all2 same_event (charging_events x) (charging_events y)"

definition same_plan :: "plan \<Rightarrow> plan \<Rightarrow> bool" where
  "same_plan a b \<longleftrightarrow>
     \<not> (plan_route a \<noteq> plan_route b \<or> plan_customers a \<noteq> plan_customers b \<or>
        gaps a \<noteq> gaps b \<or> exact_charging a \<noteq> exact_charging b) \<and>
     (case (evaluation a, evaluation b) of
        (None, None) \<Rightarrow> True
      | (Some x, Some y) \<Rightarrow> same_evaluation x y
      | _ \<Rightarrow> False)"

definition same_complete_workstate :: "solution \<Rightarrow> solution \<Rightarrow> bool" where
  "same_complete_workstate left right \<longleftrightarrow>
     length (plans left) = length (plans right) \<and> list_all2 same_plan (plans left) (plans right)"

section \<open>Exploration epochs\<close>

record epoch_state =
  epoch_anchor :: "solution option"
  epoch_productive :: bool
  exploring :: bool
  epoch_generation :: "64 word"
  exploit_epoch_age :: nat
  exploration_entries :: nat
  exploration_record_exits :: nat
  exploration_epoch_exits :: nat

definition maximum_exploit_epoch_age :: nat where
  "maximum_exploit_epoch_age = 6"

definition improve_epoch_anchor :: "solution \<Rightarrow> solution option \<Rightarrow> (bool \<times> solution option) result" where
  "improve_epoch_anchor candidate anchor =
     (if \<not> sol_feasible candidate then Inr (False, anchor)
      else case anchor of
          None \<Rightarrow> Inr (True, Some candidate)
        | Some a \<Rightarrow>
            rbind (sol_raw_cost_h candidate) (\<lambda>c. rbind (sol_raw_cost_h a) (\<lambda>old.
              if c \<ge> old - kCostTolerance then Inr (False, anchor) else Inr (True, Some candidate))))"

definition accept_epoch_record :: "solution \<Rightarrow> epoch_state \<Rightarrow> epoch_state result" where
  "accept_epoch_record candidate s =
     rbind (improve_epoch_anchor candidate (epoch_anchor s)) (\<lambda>(_, anchor).
       let t = s\<lparr>epoch_productive := True, exploit_epoch_age := 0, epoch_anchor := anchor\<rparr>
       in Inr (if exploring t
               then t\<lparr>exploring := False, exploration_record_exits := exploration_record_exits t + 1\<rparr>
               else t))"

definition finish_assembler_epoch ::
  "bool \<Rightarrow> bool \<Rightarrow> 64 word \<Rightarrow> solution \<times> epoch_state \<Rightarrow> solution \<times> epoch_state" where
  "finish_assembler_epoch finished scheduled_boundary pool_generation x =
     (case x of (current, s) \<Rightarrow>
       if \<not> finished \<or> \<not> scheduled_boundary then (current, s)
       else
         let (current, s) =
               (if epoch_productive s then (current, s\<lparr>exploit_epoch_age := 0\<rparr>)
                else if exploring s then
                  (case epoch_anchor s of Some a \<Rightarrow> a | None \<Rightarrow> current,
                   s\<lparr>exploring := False, exploit_epoch_age := 0,
                     exploration_epoch_exits := exploration_epoch_exits s + 1\<rparr>)
                else
                  let t = (if exploit_epoch_age s < maximum_exploit_epoch_age
                           then s\<lparr>exploit_epoch_age := exploit_epoch_age s + 1\<rparr> else s)
                  in (current,
                      if pool_generation = epoch_generation t \<or> exploit_epoch_age t \<ge> maximum_exploit_epoch_age
                      then t\<lparr>exploring := True, exploration_entries := exploration_entries t + 1\<rparr>
                      else t))
         in (current, s\<lparr>epoch_generation := pool_generation, epoch_productive := False\<rparr>))"

section \<open>Warm starts\<close>

record mip_start_choice =
  start_columns :: "nat list"
  start_source :: string
  start_objective_h :: "real option"

definition no_start :: mip_start_choice where
  "no_start = \<lparr>start_columns = [], start_source = ''none'', start_objective_h = None\<rparr>"

text \<open>\<open>std::lower_bound\<close> by customer set.\<close>

definition first_column :: "route_column list \<Rightarrow> int list \<Rightarrow> nat" where
  "first_column columns key = length (takeWhile (\<lambda>c. customer_set c < key) columns)"

fun cover_all :: "int set \<Rightarrow> int list \<Rightarrow> int set option" where
  "cover_all covered [] = Some covered"
| "cover_all covered (c # cs) = (if c \<in> covered then None else cover_all (insert c covered) cs)"

fun start_loop :: "route_column list \<Rightarrow> nat list \<Rightarrow> real \<Rightarrow> int set \<Rightarrow> int list list \<Rightarrow>
    (nat list \<times> real \<times> int set) option" where
  "start_loop columns chosen objective_h covered [] = Some (chosen, objective_h, covered)"
| "start_loop columns chosen objective_h covered (S # Ss) =
     (let i = first_column columns S
      in if i = length columns \<or> customer_set (columns ! i) \<noteq> S then None
         else case cover_all covered S of None \<Rightarrow> None
              | Some covered' \<Rightarrow>
                  start_loop columns (chosen @ [i]) (objective_h + cost_h (columns ! i)) covered' Ss)"

definition make_sp_mip_start ::
  "inst \<Rightarrow> route_column list \<Rightarrow> int list list \<Rightarrow> string \<Rightarrow> mip_start_choice option" where
  "make_sp_mip_start I columns requested_customer_sets src =
     (if requested_customer_sets = [] then None
      else case start_loop columns [] 0 {} requested_customer_sets of None \<Rightarrow> None
      | Some (chosen, objective_h, covered) \<Rightarrow>
          if card covered \<noteq> length (customer_ids I) \<or> \<not> list_all (\<lambda>c. c \<in> covered) (customer_ids I) then None
          else Some \<lparr>start_columns = chosen, start_source = src, start_objective_h = Some objective_h\<rparr>)"

definition solution_customer_sets :: "solution \<Rightarrow> int list list" where
  "solution_customer_sets s = map (\<lambda>p. sorted_customer_set (plan_customers p)) (plans s)"

definition consider_mip_start :: "mip_start_choice \<Rightarrow> mip_start_choice option \<Rightarrow> mip_start_choice" where
  "consider_mip_start start choice =
     (case choice of None \<Rightarrow> start
      | Some c \<Rightarrow>
          if start_columns start = [] \<or>
             (case start_objective_h c of None \<Rightarrow> False
              | Some co \<Rightarrow> (case start_objective_h start of None \<Rightarrow> True
                            | Some so \<Rightarrow> co < so - kCostTolerance))
          then c else start)"

definition pool_covers_all_customers :: "inst \<Rightarrow> route_column list \<Rightarrow> bool" where
  "pool_covers_all_customers I columns =
     list_all (\<lambda>c. c \<in> (\<Union>col \<in> set columns. set (customer_set col))) (customer_ids I)"

end
