(* ===== verification/Solver_Loop.thy ===== *)
theory Solver_Loop
  imports Solver_Control
begin

text \<open>
  The assembler phase and the main loop of the solver (src/solver.cpp: \<open>assemble_routes\<close> and
  \<open>solve\<close>).

  The parts of the search that the loop calls - initial construction, perturbation, descent,
  the clock, the set-partitioning and relaxation models and the route optimiser - are the
  fields of a record of operations over an environment \<open>'e\<close> that holds their state (the
  random generator, the caches, the models); they may throw.  Progress observers receive
  copies and are not modelled, except the record observer, whose calls are the list
  \<open>record_log\<close>.  Times that are only reported are not modelled.
\<close>

section \<open>The operations the solver calls\<close>

record lp_result =
  lp_optimal :: bool
  lp_duals :: "(int \<times> real) list"

record sp_result =
  selected_columns :: "route_column list"
  lp_prepass_attempted :: bool
  lp_prepass_exception :: bool
  lp_certified_start :: bool
  fixed_zero_count :: nat
  fixing_considered_count :: nat
  reused_relaxation :: "lp_result option"

record 'e operations =
  op_build :: "'e \<Rightarrow> real \<Rightarrow> (solution \<times> 'e) result"
  op_perturb :: "'e \<Rightarrow> solution \<Rightarrow> real \<Rightarrow> (solution \<times> 'e) result"
  op_improve :: "'e \<Rightarrow> solution \<Rightarrow> real \<Rightarrow> int option \<Rightarrow> bool \<Rightarrow> (solution \<times> 'e) result"
  op_now :: "'e \<Rightarrow> int \<times> 'e"
  op_partition :: "'e \<Rightarrow> route_column list \<Rightarrow> nat list \<Rightarrow> int option \<Rightarrow> (sp_result \<times> 'e) result"
  op_relax :: "'e \<Rightarrow> route_column list \<Rightarrow> int option \<Rightarrow> (lp_result \<times> 'e) result"
  op_frvcp :: "'e \<Rightarrow> plan \<Rightarrow> int option \<Rightarrow> (plan option \<times> 'e) result"

section \<open>The state of the solver\<close>

record 'e solver =
  env :: 'e
  pool :: route_pool
  previous_sp_customer_sets :: "int list list"
  penalty :: penalty_state
  sp_calls :: nat
  sp_skipped_incomplete_pool :: nat
  adaptive_sp_calls :: nat
  last_sp_iteration :: nat
  generation_at_last_sp :: "64 word"
  last_best_improvement_iteration :: nat
  last_coverage_improvement_iteration :: nat
  lp_calls :: nat
  sp_lp_prepass_calls :: nat
  sp_lp_certified_calls :: nat
  sp_lp_fallback_calls :: nat
  sp_lp_exception_calls :: nat
  sp_rc_fixing_calls :: nat
  sp_rc_fixed_columns :: nat
  sp_rc_considered_columns :: nat
  frvcp_calls :: nat

definition make_solver :: "'e \<Rightarrow> int \<Rightarrow> solver_config \<Rightarrow> 'e solver result" where
  "make_solver e now cfg =
     rbind (make_pool (paper_pool_capacity (paper cfg)) kCostTolerance (config_identity cfg)
              (config_keep_evicted cfg)) (\<lambda>p.
     rbind (check_config now cfg) (\<lambda>_.
     Inr \<lparr>env = e, pool = p, previous_sp_customer_sets = [],
          penalty = \<lparr>penalty_lambda = lambda_initial (paper cfg), consecutive_feasible = 0,
                     consecutive_infeasible = 0\<rparr>,
          sp_calls = 0, sp_skipped_incomplete_pool = 0, adaptive_sp_calls = 0, last_sp_iteration = 0,
          generation_at_last_sp = 0, last_best_improvement_iteration = 0,
          last_coverage_improvement_iteration = 0, lp_calls = 0, sp_lp_prepass_calls = 0,
          sp_lp_certified_calls = 0, sp_lp_fallback_calls = 0, sp_lp_exception_calls = 0,
          sp_rc_fixing_calls = 0, sp_rc_fixed_columns = 0, sp_rc_considered_columns = 0,
          frvcp_calls = 0\<rparr>))"

text \<open>The clock is read only when there is a deadline.\<close>

definition deadline_expired :: "'e operations \<Rightarrow> int option \<Rightarrow> 'e solver \<Rightarrow> bool \<times> 'e solver" where
  "deadline_expired ops deadline s =
     (case deadline of None \<Rightarrow> (False, s)
      | Some d \<Rightarrow> (case op_now ops (env s) of (t, e) \<Rightarrow> (t \<ge> d, s\<lparr>env := e\<rparr>)))"

section \<open>The assembler\<close>

definition eval_feasible :: "plan \<Rightarrow> bool result" where
  "eval_feasible pl = rbind (deref (evaluation pl)) (\<lambda>ev. Inr (feasible ev))"

definition eval_raw_cost :: "plan \<Rightarrow> real result" where
  "eval_raw_cost pl = rbind (deref (evaluation pl)) (\<lambda>ev. Inr (raw_cost_h ev))"

definition admit_plan :: "nat \<Rightarrow> 'e solver \<Rightarrow> plan \<Rightarrow> 'e solver result" where
  "admit_plan iteration s pl =
     rbind (column_of_plan pl) (\<lambda>c. rbind (admit (pool s) c) (\<lambda>(u, p).
       let s1 = s\<lparr>pool := p\<rparr>
       in Inr (if effective_coverage_improvement u
               then s1\<lparr>last_coverage_improvement_iteration := iteration\<rparr> else s1)))"

definition admit_local_plan :: "nat \<Rightarrow> 'e solver \<Rightarrow> plan \<Rightarrow> 'e solver result" where
  "admit_local_plan iteration s pl =
     rbind (eval_feasible pl) (\<lambda>feas. if feas then admit_plan iteration s pl else Inr s)"

definition reprice :: "nat \<Rightarrow> 'e solver \<Rightarrow> 'e solver result" where
  "reprice iteration s =
     rbind (reprice_backup (pool s)) (\<lambda>(u, p).
       let s1 = s\<lparr>pool := p\<rparr>
       in Inr (if rep_improvements u \<noteq> 0
               then s1\<lparr>last_coverage_improvement_iteration := iteration\<rparr> else s1))"

definition periodic_sp :: "solver_config \<Rightarrow> nat \<Rightarrow> bool" where
  "periodic_sp cfg iteration \<longleftrightarrow> iteration mod sp_frequency (paper cfg) = 0"

definition iterations_until_periodic :: "solver_config \<Rightarrow> nat \<Rightarrow> nat" where
  "iterations_until_periodic cfg iteration =
     (let periodic_remainder = iteration mod sp_frequency (paper cfg)
      in if periodic_remainder = 0 then 0 else sp_frequency (paper cfg) - periodic_remainder)"

definition adaptive_sp :: "solver_config \<Rightarrow> nat \<Rightarrow> solution option \<Rightarrow> 'e solver \<Rightarrow> bool" where
  "adaptive_sp cfg iteration best_sol s =
     (case adaptive_sp_stall_iterations cfg of
        None \<Rightarrow> False
      | Some stall \<Rightarrow>
          \<not> periodic_sp cfg iteration \<and> best_sol \<noteq> None \<and>
          length (main_pool (pool s)) = pool_capacity (pool s) \<and>
          effective_generation (pool s) > generation_at_last_sp s \<and>
          iteration - last_sp_iteration s \<ge> adaptive_sp_minimum_interval cfg \<and>
          iterations_until_periodic cfg iteration \<ge> adaptive_sp_minimum_interval cfg \<and>
          iteration - last_best_improvement_iteration s \<ge> stall \<and>
          iteration - last_coverage_improvement_iteration s \<ge> stall)"

definition choose_start ::
  "inst \<Rightarrow> route_column list \<Rightarrow> int list list \<Rightarrow> solution option \<Rightarrow> solution \<Rightarrow> mip_start_choice" where
  "choose_start I columns previous best_sol here =
     (let s1 = consider_mip_start no_start (make_sp_mip_start I columns previous ''previous_sp'');
          s2 = (case best_sol of None \<Rightarrow> s1
                | Some b \<Rightarrow> consider_mip_start s1
                    (make_sp_mip_start I columns (solution_customer_sets b) ''best_feasible''))
      in if sol_feasible here
         then consider_mip_start s2 (make_sp_mip_start I columns (solution_customer_sets here) ''local_feasible'')
         else s2)"

definition of_flag :: "bool \<Rightarrow> nat" where
  "of_flag b = (if b then 1 else 0)"

text \<open>The set-partitioning call with its counters.\<close>

definition call_partition ::
  "'e operations \<Rightarrow> bool \<Rightarrow> nat \<Rightarrow> int option \<Rightarrow> route_column list \<Rightarrow> mip_start_choice \<Rightarrow>
     'e solver \<Rightarrow> (sp_result \<times> 'e solver) result" where
  "call_partition ops adaptive iteration deadline columns start s0 =
     (let s = s0\<lparr>sp_calls := sp_calls s0 + 1, last_sp_iteration := iteration,
                 generation_at_last_sp := effective_generation (pool s0),
                 adaptive_sp_calls := adaptive_sp_calls s0 + of_flag adaptive\<rparr>
      in rbind (op_partition ops (env s) columns (start_columns start) deadline) (\<lambda>(r, e).
         Inr (r, s\<lparr>env := e,
           sp_lp_prepass_calls := sp_lp_prepass_calls s + of_flag (lp_prepass_attempted r),
           sp_lp_certified_calls := sp_lp_certified_calls s + of_flag (lp_certified_start r),
           sp_lp_fallback_calls := sp_lp_fallback_calls s +
             of_flag (lp_prepass_attempted r \<and> \<not> lp_certified_start r),
           sp_lp_exception_calls := sp_lp_exception_calls s + of_flag (lp_prepass_exception r),
           lp_calls := lp_calls s + of_flag (lp_prepass_exception r),
           sp_rc_fixing_calls := sp_rc_fixing_calls s + of_flag (fixed_zero_count r \<noteq> 0),
           sp_rc_fixed_columns := sp_rc_fixed_columns s + fixed_zero_count r,
           sp_rc_considered_columns := sp_rc_considered_columns s + fixing_considered_count r,
           previous_sp_customer_sets :=
             (if selected_columns r \<noteq> [] then map customer_set (selected_columns r)
              else previous_sp_customer_sets s)\<rparr>)))"

definition call_relaxation ::
  "'e operations \<Rightarrow> solver_config \<Rightarrow> nat \<Rightarrow> int option \<Rightarrow> route_column list \<Rightarrow> sp_result \<Rightarrow>
     'e solver \<Rightarrow> 'e solver result" where
  "call_relaxation ops cfg iteration deadline columns r s0 =
     (let s = s0\<lparr>lp_calls := lp_calls s0 + 1\<rparr>
      in rbind (case reused_relaxation r of Some lp \<Rightarrow> Inr (lp, env s)
                | None \<Rightarrow> op_relax ops (env s) columns deadline) (\<lambda>(lp, e).
         let s1 = s\<lparr>env := e\<rparr>
         in if lp_optimal lp
            then let s2 = s1\<lparr>pool := update_duals (pool s1) (lp_duals lp)\<rparr>
                 in if reprice_after_lp cfg then reprice iteration s2 else Inr s2
            else Inr s1))"

text \<open>One optimised route: it replaces the route of the selection when it is cheaper, or as cheap and exact.\<close>

definition replaces :: "plan \<Rightarrow> plan \<Rightarrow> bool result" where
  "replaces incumbent candidate =
     rbind (eval_raw_cost incumbent) (\<lambda>incumbent_cost. rbind (eval_raw_cost candidate) (\<lambda>candidate_cost.
       Inr (candidate_cost < incumbent_cost - kCostTolerance \<or>
            exact_charging candidate \<and> \<not> exact_charging incumbent \<and>
              candidate_cost \<le> incumbent_cost + kCostTolerance)))"

definition install_route :: "nat \<Rightarrow> nat \<Rightarrow> solution \<times> 'e solver \<Rightarrow> plan \<Rightarrow> (solution \<times> 'e solver) result" where
  "install_route iteration ix x pl =
     (case x of (assembled, s) \<Rightarrow>
       rbind (eval_feasible pl) (\<lambda>feas.
       if \<not> feas then Inr x
       else rbind (replaces (plans assembled ! ix) pl) (\<lambda>better.
         if \<not> better then Inr x
         else rbind (admit_plan iteration s pl) (\<lambda>s2. Inr (\<lparr>plans = (plans assembled)[ix := pl]\<rparr>, s2)))))"

definition optimize_route ::
  "'e operations \<Rightarrow> nat \<Rightarrow> int option \<Rightarrow> nat \<Rightarrow> route_column \<Rightarrow> solution \<times> frvcp_budget \<times> 'e solver \<Rightarrow>
     (solution \<times> frvcp_budget \<times> 'e solver) result" where
  "optimize_route ops iteration deadline ix selected x =
     (case x of (assembled, b, s0) \<Rightarrow>
       case (if budget_enabled b then op_now ops (env s0) else (0, env s0)) of (started, e0) \<Rightarrow>
       let s = s0\<lparr>env := e0, frvcp_calls := frvcp_calls s0 + 1\<rparr>
       in rbind (op_frvcp ops e0 (col_plan selected) (budget_deadline b started deadline)) (\<lambda>(optimized, e1).
          case (if budget_enabled b then op_now ops e1 else (0, e1)) of (finished, e2) \<Rightarrow>
          let b1 = budget_charge b started finished; s1 = s\<lparr>env := e2\<rparr>
          in rbind (case optimized of None \<Rightarrow> Inr (assembled, s1)
                    | Some pl \<Rightarrow> install_route iteration ix (assembled, s1) pl) (\<lambda>(a, s2). Inr (a, b1, s2))))"

fun optimize_routes ::
  "'e operations \<Rightarrow> solver_config \<Rightarrow> nat \<Rightarrow> int option \<Rightarrow> nat \<Rightarrow> route_column list \<Rightarrow>
     solution \<times> frvcp_budget \<times> 'e solver \<Rightarrow> (solution \<times> frvcp_budget \<times> 'e solver) result" where
  "optimize_routes ops cfg iteration deadline ix [] x = Inr x"
| "optimize_routes ops cfg iteration deadline ix (c # cs) x =
     (case x of (assembled, b, s) \<Rightarrow>
       case deadline_expired ops deadline s of (expired, s1) \<Rightarrow>
       if expired then Inr (assembled, b, s1)
       else rbind (rounded_target_reached cfg assembled) (\<lambda>reached.
         if reached then Inr (assembled, b, s1)
         else if budget_exhausted b
         then Inr (assembled, b\<lparr>skipped_routes := skipped_routes b + length (c # cs)\<rparr>, s1)
         else rbind (optimize_route ops iteration deadline ix c (assembled, b, s1)) (\<lambda>y.
           rbind (rounded_target_reached cfg (fst y)) (\<lambda>reached.
           if reached then Inr y
           else optimize_routes ops cfg iteration deadline (ix + 1) cs y))))"

text \<open>The solution made of the plans of the selected columns.\<close>

definition chosen_solution :: "sp_result \<Rightarrow> solution" where
  "chosen_solution r = \<lparr>plans = map col_plan (selected_columns r)\<rparr>"

definition check_selection :: "solver_config \<Rightarrow> inst \<Rightarrow> sp_result \<Rightarrow> bool result" where
  "check_selection cfg I r =
     (if selected_columns r = [] then Inr False
      else rbind (validate_partition I (chosen_solution r)) (\<lambda>_. rounded_target_reached cfg (chosen_solution r)))"

definition assembled_selection :: "sp_result \<Rightarrow> solution option" where
  "assembled_selection r = (if selected_columns r = [] then None else Some (chosen_solution r))"

definition optimize_selection ::
  "'e operations \<Rightarrow> solver_config \<Rightarrow> inst \<Rightarrow> nat \<Rightarrow> int option \<Rightarrow> sp_result \<Rightarrow> frvcp_budget \<times> 'e solver \<Rightarrow>
     (solution option \<times> frvcp_budget \<times> 'e solver) result" where
  "optimize_selection ops cfg I iteration deadline r x =
     (case x of (b, s) \<Rightarrow>
       if selected_columns r = [] then Inr (None, b, s)
       else case deadline_expired ops deadline s of (expired, s) \<Rightarrow>
         if expired then Inr (assembled_selection r, b, s)
         else rbind (optimize_routes ops cfg iteration deadline 0 (selected_columns r) (chosen_solution r, b, s)) (\<lambda>(a, b, s).
           rbind (validate_partition I a) (\<lambda>_. Inr (Some a, b, s))))"

definition relax_and_optimize ::
  "'e operations \<Rightarrow> solver_config \<Rightarrow> inst \<Rightarrow> nat \<Rightarrow> int option \<Rightarrow> route_column list \<Rightarrow> sp_result \<Rightarrow>
     frvcp_budget \<times> 'e solver \<Rightarrow> (solution option \<times> frvcp_budget \<times> 'e solver) result" where
  "relax_and_optimize ops cfg I iteration deadline columns r x =
     (case x of (b, s) \<Rightarrow>
       case deadline_expired ops deadline s of (expired, s) \<Rightarrow>
       if expired then Inr (assembled_selection r, b, s)
       else rbind (call_relaxation ops cfg iteration deadline columns r s) (\<lambda>s.
         optimize_selection ops cfg I iteration deadline r (b, s)))"

definition run_models ::
  "'e operations \<Rightarrow> solver_config \<Rightarrow> inst \<Rightarrow> solution \<Rightarrow> solution option \<Rightarrow> nat \<Rightarrow> int option \<Rightarrow> bool \<Rightarrow>
     route_column list \<Rightarrow> frvcp_budget \<times> 'e solver \<Rightarrow> (solution option \<times> frvcp_budget \<times> 'e solver) result" where
  "run_models ops cfg I here best_sol iteration deadline adaptive columns x =
     (case x of (b, s) \<Rightarrow>
       let start = choose_start I columns (previous_sp_customer_sets s) best_sol here
       in rbind (call_partition ops adaptive iteration deadline columns start s) (\<lambda>(r, s).
          rbind (check_selection cfg I r) (\<lambda>reached.
          if reached then Inr (Some (chosen_solution r), b, s)
          else relax_and_optimize ops cfg I iteration deadline columns r (b, s))))"

definition run_sp_phase ::
  "'e operations \<Rightarrow> solver_config \<Rightarrow> inst \<Rightarrow> solution \<Rightarrow> solution option \<Rightarrow> nat \<Rightarrow> int option \<Rightarrow> bool \<Rightarrow>
     frvcp_budget \<times> 'e solver \<Rightarrow> (solution option \<times> frvcp_budget \<times> 'e solver) result" where
  "run_sp_phase ops cfg I here best_sol iteration deadline adaptive x =
     (case x of (b, s) \<Rightarrow>
       case deadline_expired ops deadline s of (expired, s) \<Rightarrow>
       if expired then Inr (None, b, s)
       else let columns = main_columns (pool s)
            in case deadline_expired ops deadline s of (expired, s) \<Rightarrow>
               if expired then Inr (None, b, s)
               else if \<not> pool_covers_all_customers I columns
               then Inr (None, b, s\<lparr>sp_skipped_incomplete_pool := sp_skipped_incomplete_pool s + 1\<rparr>)
               else run_models ops cfg I here best_sol iteration deadline adaptive columns (b, s))"

definition assemble_routes ::
  "'e operations \<Rightarrow> solver_config \<Rightarrow> inst \<Rightarrow> solution \<Rightarrow> solution option \<Rightarrow> nat \<Rightarrow> int option \<Rightarrow>
     frvcp_budget \<times> 'e solver \<Rightarrow> (solution option \<times> frvcp_budget \<times> 'e solver) result" where
  "assemble_routes ops cfg I here best_sol iteration deadline x =
     (case x of (b, s0) \<Rightarrow>
       rbind (rfold (admit_local_plan iteration) s0 (plans here)) (\<lambda>s.
       let adaptive = adaptive_sp cfg iteration best_sol s;
           run_sp = (periodic_sp cfg iteration \<or> adaptive)
       in rbind (if iteration mod backup_frequency (paper cfg) = 0 \<or> run_sp then reprice iteration s else Inr s) (\<lambda>s.
          if \<not> run_sp then Inr (if continuation cfg = Record_Policy then Some here else None, b, s)
          else run_sp_phase ops cfg I here best_sol iteration deadline adaptive (b, s))))"

section \<open>The main loop\<close>

datatype stop_reason = Max_Iterations | Time_Limit | Rounded_Target

record 'e run =
  solver :: "'e solver"
  budget :: frvcp_budget
  current :: solution
  best :: "solution option"
  return_anchor :: "solution option"
  return_anchor_lambda :: real
  p_carry_decisions :: nat
  cumulative_p_steps :: nat
  max_cumulative_p_steps :: nat
  different_l_resets :: nat
  lambda_resets :: nat
  record_resets :: nat
  iterations :: nat
  record_log :: "(nat \<times> real) list"

definition cooperative_mode :: "solver_config \<Rightarrow> bool" where
  "cooperative_mode cfg \<longleftrightarrow> profile cfg = Paper \<and> preserve_station_visits cfg \<and> \<not> implicit_replace_path cfg"

definition fixed_anchor_mode :: "solver_config \<Rightarrow> bool" where
  "fixed_anchor_mode cfg \<longleftrightarrow> continuation cfg = Record_Policy \<and> cooperative_mode cfg"

text \<open>The lambda \<open>record_candidate\<close>, and the protection of the new record in the pool.\<close>

definition protect_record :: "solver_config \<Rightarrow> nat \<Rightarrow> solution \<Rightarrow> 'e solver \<Rightarrow> 'e solver result" where
  "protect_record cfg iteration candidate s0 =
     (let s = s0\<lparr>last_best_improvement_iteration := iteration\<rparr>;
          generation_before = effective_generation (pool s)
      in case (if protect_best_partition cfg then protect_partition (pool s) candidate else (Inr (), pool s)) of
           (Inl e, p) \<Rightarrow> Inl e
         | (Inr _, p) \<Rightarrow>
             let s1 = s\<lparr>pool := p\<rparr>
             in Inr (if effective_generation p \<noteq> generation_before
                     then s1\<lparr>last_coverage_improvement_iteration := iteration\<rparr> else s1))"

definition record_candidate :: "solver_config \<Rightarrow> nat \<Rightarrow> solution \<Rightarrow> 'e run \<Rightarrow> (bool \<times> 'e run) result" where
  "record_candidate cfg iteration candidate r =
     rbind (update_best candidate (best r)) (\<lambda>(improved, best').
       if \<not> improved then Inr (False, r)
       else rbind (sol_raw_cost_h candidate) (\<lambda>objective.
         rbind (protect_record cfg iteration candidate (solver r)) (\<lambda>s.
         Inr (True, r\<lparr>best := best', record_log := record_log r @ [(iteration, objective)], solver := s\<rparr>))))"

definition with_expired :: "'e operations \<Rightarrow> int option \<Rightarrow> 'e run \<Rightarrow> bool \<times> 'e run" where
  "with_expired ops deadline r =
     (case deadline_expired ops deadline (solver r) of (expired, s) \<Rightarrow> (expired, r\<lparr>solver := s\<rparr>))"

definition reset_anchor :: "'e run \<Rightarrow> 'e run" where
  "reset_anchor r = r\<lparr>return_anchor := None, cumulative_p_steps := 0\<rparr>"

text \<open>The continuation in fixed-anchor mode after a descent; the flag is \<open>pending_p_carry\<close>.\<close>

definition anchor_step ::
  "'e operations \<Rightarrow> int option \<Rightarrow> real \<Rightarrow> solution \<Rightarrow> solution \<Rightarrow> 'e run \<Rightarrow> bool \<times> 'e run" where
  "anchor_step ops deadline iteration_lambda perturbed here r0 =
     (case with_expired ops deadline r0 of (expired, r) \<Rightarrow>
       if expired then (False, reset_anchor (r\<lparr>current := here\<rparr>))
       else if (case return_anchor r of None \<Rightarrow> False
                | Some a \<Rightarrow> return_anchor_lambda r = iteration_lambda \<and> same_complete_workstate a here)
       then (True, r\<lparr>current := perturbed\<rparr>)
       else (False, r\<lparr>different_l_resets := different_l_resets r + of_flag (return_anchor r \<noteq> None),
                      current := here, return_anchor := Some here,
                      return_anchor_lambda := iteration_lambda, cumulative_p_steps := 0\<rparr>))"

definition penalty_step :: "solver_config \<Rightarrow> real \<Rightarrow> solution \<Rightarrow> bool \<times> 'e run \<Rightarrow> bool \<times> 'e run" where
  "penalty_step cfg iteration_lambda here x =
     (case x of (pending, r0) \<Rightarrow>
       let r = r0\<lparr>solver := (solver r0)\<lparr>penalty :=
                   observe_penalty (paper cfg) (sol_feasible here) (penalty (solver r0))\<rparr>\<rparr>
       in if fixed_anchor_mode cfg \<and> penalty_lambda (penalty (solver r)) \<noteq> iteration_lambda
          then (False, reset_anchor (r\<lparr>lambda_resets := lambda_resets r + of_flag (return_anchor r \<noteq> None),
                                       current := here\<rparr>))
          else (pending, r))"

text \<open>What happens to the result of the assembler.\<close>

definition accept_assembled ::
  "solver_config \<Rightarrow> nat \<Rightarrow> solution \<Rightarrow> solution option \<Rightarrow> bool \<times> 'e run \<Rightarrow> (bool \<times> 'e run) result" where
  "accept_assembled cfg iteration here assembled x =
     (case x of (pending, r) \<Rightarrow>
       case assembled of
         Some a \<Rightarrow>
           if continuation cfg = Record_Policy
           then rbind (record_candidate cfg iteration a r) (\<lambda>(recorded, r).
             if \<not> recorded then Inr (pending, r)
             else let r = r\<lparr>current := a\<rparr>
                  in if fixed_anchor_mode cfg
                     then Inr (False, reset_anchor (r\<lparr>record_resets := record_resets r + of_flag (return_anchor r \<noteq> None)\<rparr>))
                     else Inr (pending, r))
           else rbind (record_candidate cfg iteration a (r\<lparr>current := a\<rparr>)) (\<lambda>(_, r). Inr (pending, r))
       | None \<Rightarrow> Inr (pending, if continuation cfg = Record_Policy then r else r\<lparr>current := here\<rparr>))"

definition best_reached :: "solver_config \<Rightarrow> 'e run \<Rightarrow> bool result" where
  "best_reached cfg r = (case best r of None \<Rightarrow> Inr False | Some b \<Rightarrow> rounded_target_reached cfg b)"

definition assemble_step ::
  "'e operations \<Rightarrow> solver_config \<Rightarrow> inst \<Rightarrow> int option \<Rightarrow> nat \<Rightarrow> solution \<Rightarrow> bool \<times> 'e run \<Rightarrow>
     (bool \<times> 'e run) result" where
  "assemble_step ops cfg I deadline iteration here x =
     (case x of (pending, r) \<Rightarrow>
       rbind (best_reached cfg r) (\<lambda>target_before.
       case with_expired ops deadline r of (expired, r) \<Rightarrow>
       if \<not> expired \<and> \<not> target_before
       then rbind (assemble_routes ops cfg I here (best r) iteration deadline (budget r, solver r)) (\<lambda>(a, b, s).
            rbind (accept_assembled cfg iteration here a (pending, r\<lparr>budget := b, solver := s\<rparr>)) (\<lambda>(pending, r).
            Inr (pending, r\<lparr>iterations := iteration\<rparr>)))
       else let r1 = (if continuation cfg = Record_Policy then r else r\<lparr>current := here\<rparr>)
            in Inr (pending, if target_before then r1\<lparr>iterations := iteration\<rparr> else r1)))"

definition carry_step :: "bool \<times> 'e run \<Rightarrow> 'e run" where
  "carry_step x =
     (case x of (pending, r) \<Rightarrow>
       if pending then r\<lparr>p_carry_decisions := p_carry_decisions r + 1,
                         cumulative_p_steps := cumulative_p_steps r + 1,
                         max_cumulative_p_steps := max (max_cumulative_p_steps r) (cumulative_p_steps r + 1)\<rparr>
       else r)"

text \<open>Perturbation and descent: the perturbed solution, the local one, and the run.\<close>

definition generate ::
  "'e operations \<Rightarrow> solver_config \<Rightarrow> int option \<Rightarrow> 'e run \<Rightarrow> (solution \<times> solution \<times> 'e run) result" where
  "generate ops cfg deadline r =
     (let iteration_lambda = penalty_lambda (penalty (solver r))
      in rbind (op_perturb ops (env (solver r)) (current r) iteration_lambda) (\<lambda>(perturbed, e).
         let r = r\<lparr>solver := (solver r)\<lparr>env := e\<rparr>\<rparr>;
             r = (if continuation cfg = Record_Policy \<and> \<not> cooperative_mode cfg then r\<lparr>current := perturbed\<rparr> else r)
         in rbind (op_improve ops e perturbed iteration_lambda deadline (cooperative_mode cfg)) (\<lambda>(here, e).
            Inr (perturbed, here, r\<lparr>solver := (solver r)\<lparr>env := e\<rparr>\<rparr>))))"

text \<open>The continuation state and the penalty feedback.\<close>

definition continue_from ::
  "'e operations \<Rightarrow> solver_config \<Rightarrow> int option \<Rightarrow> real \<Rightarrow> solution \<Rightarrow> solution \<Rightarrow> 'e run \<Rightarrow> bool \<times> 'e run" where
  "continue_from ops cfg deadline iteration_lambda perturbed here r =
     penalty_step cfg iteration_lambda here
       (if fixed_anchor_mode cfg then anchor_step ops deadline iteration_lambda perturbed here r
        else if cooperative_mode cfg then (False, r\<lparr>current := here\<rparr>) else (False, r))"

text \<open>The body of the loop after the deadline test at its head.\<close>

definition iterate ::
  "'e operations \<Rightarrow> solver_config \<Rightarrow> inst \<Rightarrow> int option \<Rightarrow> nat \<Rightarrow> 'e run \<Rightarrow> (stop_reason option \<times> 'e run) result" where
  "iterate ops cfg I deadline iteration r0 =
     rbind (generate ops cfg deadline r0) (\<lambda>(perturbed, here, r).
     let y = continue_from ops cfg deadline (penalty_lambda (penalty (solver r0))) perturbed here r
     in rbind (if continuation cfg = Record_Policy then Inr y
               else rbind (record_candidate cfg iteration here (snd y)) (\<lambda>(_, r). Inr (fst y, r))) (\<lambda>y.
        rbind (assemble_step ops cfg I deadline iteration here y) (\<lambda>z.
        case with_expired ops deadline (carry_step z) of (deadline_reached, r) \<Rightarrow>
        rbind (best_reached cfg r) (\<lambda>target_reached.
        Inr (if target_reached then Some Rounded_Target
             else if deadline_reached then Some Time_Limit else None, r)))))"

text \<open>The \<open>for\<close> loop with \<open>k\<close> iterations left.\<close>

fun solve_loop ::
  "'e operations \<Rightarrow> solver_config \<Rightarrow> inst \<Rightarrow> int option \<Rightarrow> nat \<Rightarrow> nat \<Rightarrow> 'e run \<Rightarrow> (stop_reason \<times> 'e run) result" where
  "solve_loop ops cfg I deadline iteration 0 r = Inr (Max_Iterations, r)"
| "solve_loop ops cfg I deadline iteration (Suc k) r =
     (case with_expired ops deadline r of (expired, r) \<Rightarrow>
       if expired then Inr (Time_Limit, r)
       else rbind (iterate ops cfg I deadline iteration r) (\<lambda>(stop, r).
         case stop of Some reason \<Rightarrow> Inr (reason, r)
         | None \<Rightarrow> solve_loop ops cfg I deadline (iteration + 1) k r))"

record solver_result =
  best_solution :: "solution option"
  initialization_fallback :: "solution option"
  final_solution :: solution
  pool_uncovered_customers :: "int list"
  result_iterations :: nat
  final_penalty_lambda :: real
  result_stop_reason :: stop_reason

text \<open>The selection of the output after the loop.\<close>

definition finish_run :: "inst \<Rightarrow> solution option \<Rightarrow> stop_reason \<times> 'e run \<Rightarrow> solver_result result" where
  "finish_run I fallback x =
     (case x of (reason, r) \<Rightarrow>
       let covered = (\<Union>col \<in> set (main_columns (pool (solver r))). set (customer_set col))
       in rbind (case (best r, fallback) of
                   (Some b, Some f) \<Rightarrow>
                     rbind (sol_raw_cost_h f) (\<lambda>fc. rbind (sol_raw_cost_h b) (\<lambda>bc.
                       Inr (if fc < bc - kCostTolerance then Some f else None)))
                 | _ \<Rightarrow> Inr fallback) (\<lambda>fallback.
          Inr \<lparr>best_solution = best r, initialization_fallback = fallback, final_solution = current r,
               pool_uncovered_customers = filter (\<lambda>c. c \<notin> covered) (customer_ids I),
               result_iterations = iterations r,
               final_penalty_lambda = penalty_lambda (penalty (solver r)),
               result_stop_reason = reason\<rparr>))"

definition initial_run :: "'e solver \<Rightarrow> frvcp_budget \<Rightarrow> solution \<Rightarrow> 'e run" where
  "initial_run s b initial =
     \<lparr>solver = s, budget = b, current = initial, best = None, return_anchor = None,
      return_anchor_lambda = 0, p_carry_decisions = 0, cumulative_p_steps = 0, max_cumulative_p_steps = 0,
      different_l_resets = 0, lambda_resets = 0, record_resets = 0, iterations = 0, record_log = []\<rparr>"

text \<open>\<open>solve\<close>; besides the result, the last state of the run is returned.\<close>

definition solve ::
  "'e operations \<Rightarrow> solver_config \<Rightarrow> inst \<Rightarrow> 'e solver \<Rightarrow> (solver_result \<times> 'e run) result" where
  "solve ops cfg I s0 =
     (case op_now ops (env s0) of (started, e) \<Rightarrow>
       let s = s0\<lparr>env := e\<rparr>
       in rbind (make_budget (frvcp_wall_budget_s cfg)) (\<lambda>b.
          rbind (case global_time_limit_s cfg of None \<Rightarrow> Inr None
                 | Some l \<Rightarrow> rbind (checked_deadline_after started l) (\<lambda>d. Inr (Some d))) (\<lambda>deadline.
          rbind (op_build ops (env s) (penalty_lambda (penalty s))) (\<lambda>(initial, e).
          let fallback = (if sol_feasible initial then Some initial else None)
          in rbind (solve_loop ops cfg I deadline 1 (max_iterations (paper cfg))
                      (initial_run (s\<lparr>env := e\<rparr>) b initial)) (\<lambda>x.
             rbind (finish_run I fallback x) (\<lambda>res. Inr (res, snd x)))))))"

end
