(* ===== verification/Pool_Columns.thy ===== *)
theory Pool_Columns
  imports Pool_Properties
begin

text \<open>
  Every column of the pool was offered to it: a predicate on columns that holds of the pool and
  of an offered column holds of the pool after each operation.  The configuration of the pool
  survives every operation.
\<close>

section \<open>The columns of the pool\<close>

definition pool_all :: "(route_column \<Rightarrow> bool) \<Rightarrow> route_pool \<Rightarrow> bool" where
  "pool_all P p \<longleftrightarrow> (\<forall>(k, c) \<in> set (main_pool p) \<union> set (backup_pool p). P c)"

lemma set_update_subset: "set (AList.update k v al) \<subseteq> insert (k, v) (set al)"
  by (induction al) auto

lemma update_all: "(\<forall>(k, c) \<in> set m. P c) \<Longrightarrow> P v \<Longrightarrow> (\<forall>(k, c) \<in> set (AList.update k' v m). P c)"
  using set_update_subset [of k' v m] by blast

lemma delete_all: "(\<forall>(k, c) \<in> set m. P c) \<Longrightarrow> (\<forall>(k, c) \<in> set (AList.delete k' m). P c)"
  by (auto simp: AList.delete_eq)

lemma pool_all_counters [simp]:
  "pool_all P (p\<lparr>pool_stats := st\<rparr>) = pool_all P p"
  "pool_all P (p\<lparr>coverage_costs := cc\<rparr>) = pool_all P p"
  "pool_all P (p\<lparr>protected_sequences := ps\<rparr>) = pool_all P p"
  "pool_all P (p\<lparr>effective_generation := g\<rparr>) = pool_all P p"
  "pool_all P (update_duals p ds) = pool_all P p"
  "pool_all P (record_effective_coverage_improvement p b) = pool_all P p"
  by (simp_all add: pool_all_def update_duals_def record_effective_coverage_improvement_def)

lemma pool_all_update_main: "pool_all P p \<Longrightarrow> P c \<Longrightarrow> pool_all P (p\<lparr>main_pool := AList.update k c (main_pool p)\<rparr>)"
  using update_all [of "main_pool p" P c k] by (auto simp: pool_all_def)

lemma pool_all_update_backup: "pool_all P p \<Longrightarrow> P c \<Longrightarrow> pool_all P (p\<lparr>backup_pool := AList.update k c (backup_pool p)\<rparr>)"
  using update_all [of "backup_pool p" P c k] by (auto simp: pool_all_def)

lemma pool_all_delete:
  assumes "pool_all P p"
  shows "pool_all P (p\<lparr>main_pool := AList.delete k (main_pool p)\<rparr>)"
    and "pool_all P (p\<lparr>backup_pool := AList.delete k (backup_pool p)\<rparr>)"
  using assms by (auto simp: pool_all_def AList.delete_eq)

lemma index_main_erase_all: "index_main_erase p c = Inr q \<Longrightarrow> pool_all P q = pool_all P p"
  by (auto simp: index_main_erase_def Let_def pool_all_def split: option.splits if_splits)

lemma index_main_insert_all [simp]: "pool_all P (index_main_insert p c) = pool_all P p"
  by (simp add: index_main_insert_def Let_def)

lemma put_main_all:
  assumes "pool_all P p" and "P c" and "put_main p c = Inr q"
  shows "pool_all P q"
proof -
  let ?p1 = "p\<lparr>backup_pool := AList.delete (column_key p c) (backup_pool p)\<rparr>"
  from assms(3) obtain p2 where
    e: "(case map_of (main_pool ?p1) (column_key p c) of Some old \<Rightarrow> index_main_erase ?p1 old | None \<Rightarrow> Inr ?p1) = Inr p2"
    and q: "q = (let p3 = index_main_insert (p2\<lparr>main_pool := AList.update (column_key p c) c (main_pool p2)\<rparr>) c
         in p3\<lparr>pool_stats := (pool_stats p3)\<lparr>main_insertions := main_insertions (pool_stats p3) + 1\<rparr>\<rparr>)"
    unfolding put_main_def Let_def rbind_eq_Inr_conv by blast
  have "pool_all P p2 = pool_all P ?p1"
    using e index_main_erase_all [of ?p1 _ p2 P] by (auto split: option.splits)
  then have "pool_all P (p2\<lparr>main_pool := AList.update (column_key p c) c (main_pool p2)\<rparr>)"
    using pool_all_delete(2) [OF assms(1)] assms(2) by (intro pool_all_update_main) auto
  then show ?thesis using q by (simp add: Let_def)
qed

lemma put_backup_all: "pool_all P p \<Longrightarrow> P c \<Longrightarrow> pool_all P (put_backup p c)"
  using pool_all_update_backup [of P p c] by (simp add: put_backup_def Let_def)

lemma demote_main_all:
  assumes "pool_all P p" and "P (snd w)" and "demote_main p w = Inr q"
  shows "pool_all P q"
proof -
  from assms(3) obtain p1 where p1: "index_main_erase p (snd w) = Inr p1"
    and q: "q = (let p2 = p1\<lparr>main_pool := AList.delete (fst w) (main_pool p1)\<rparr>;
           p3 = (if keep_evicted_in_backup p2 then put_backup p2 (snd w) else p2)
       in p3\<lparr>pool_stats := (pool_stats p3)\<lparr>main_demotions := main_demotions (pool_stats p3) + 1\<rparr>\<rparr>)"
    by (auto simp: demote_main_def Let_def rbind_eq_Inr_conv)
  have "pool_all P (p1\<lparr>main_pool := AList.delete (fst w) (main_pool p1)\<rparr>)"
    using index_main_erase_all [OF p1] assms(1) by (simp add: pool_all_delete)
  then show ?thesis using q put_backup_all assms(2) by (simp add: Let_def)
qed

lemma worst_main_all: "pool_all P p \<Longrightarrow> worst_main p = Inr w \<Longrightarrow> P (snd w)"
  using worst_main_mem [of p w] unfolding pool_all_def by (metis (mono_tags, lifting) UnI1 case_prod_beta')

lemma admit_all:
  assumes "pool_all P p" and "P c" and "admit p c = Inr (u, q)"
  shows "pool_all P q"
proof -
  let ?p = "p\<lparr>pool_stats := (pool_stats p)\<lparr>admission_attempts := admission_attempts (pool_stats p) + 1\<rparr>\<rparr>"
  have p: "pool_all P ?p" using assms(1) by simp
  have replacing: "pool_all P q" if "admit_replacing ?p c inc = Inr (u, q)" for inc
    using that put_main_all [OF p assms(2)]
    by (auto simp: admit_replacing_def Let_def rbind_eq_Inr_conv count_replacement_def split: option.splits)
  have free: "pool_all P q" if "admit_free ?p c = Inr (u, q)"
    using that put_main_all [OF p assms(2)] by (auto simp: admit_free_def Let_def rbind_eq_Inr_conv)
  have evicting: "pool_all P q" if "admit_evicting ?p c = Inr (u, q)"
  proof -
    from that obtain p1 w p2 where 1: "put_main ?p c = Inr p1" "worst_main p1 = Inr w" "demote_main p1 w = Inr p2"
      and q: "\<exists>b. q = record_effective_coverage_improvement
          (if fst w \<noteq> column_key ?p c \<and> duals_valid p2
           then p2\<lparr>pool_stats := (pool_stats p2)\<lparr>negative_reduced_cost_admissions :=
                          negative_reduced_cost_admissions (pool_stats p2) + 1\<rparr>\<rparr> else p2) b"
      unfolding admit_evicting_def Let_def rbind_eq_Inr_conv by blast
    have q: "pool_all P q = pool_all P p2" using q by (auto split: if_splits)
    have p1: "pool_all P p1" using put_main_all [OF p assms(2) 1(1)] .
    show ?thesis using demote_main_all [OF p1 worst_main_all [OF p1 1(2)] 1(3)] q by simp
  qed
  have rejected: "pool_all P (count_rejection ?p)" using p by (simp add: count_rejection_def)
  have backed: "pool_all P (put_backup ?p c)" using put_backup_all [OF p assms(2)] .
  show ?thesis
    using assms(3) unfolding admit_def Let_def
    by (auto split: option.splits if_splits intro: rejected backed replacing free evicting)
qed

lemma reprice_all:
  assumes "pool_all P p" and "reprice_backup p = Inr (u, q)"
  shows "pool_all P q"
proof (cases "duals_valid p")
  case True
  let ?cs = "sort_by (\<lambda>l r. column_rank_less l r (pool_duals p))
                 (filter (\<lambda>col. reduced_cost col (pool_duals p) < - pool_tolerance p) (map snd (backup_pool p)))"
  let ?s = "(\<lparr>rep_candidates = length ?cs, rep_promoted = 0, rep_improvements = 0\<rparr>,
      p\<lparr>pool_stats := (pool_stats p)\<lparr>repricing_candidates :=
                        repricing_candidates (pool_stats p) + of_nat (length ?cs)\<rparr>\<rparr>)"
  have good: "P c" if "c \<in> set ?cs" for c using that assms(1) by (auto simp: rank.set_sort_by pool_all_def)
  obtain u' q' where run: "rfold reprice_one ?s ?cs = Inr (u', q')" and q: "pool_all P q = pool_all P q'"
    using assms(2) True by (auto simp: reprice_backup_def Let_def rbind_eq_Inr_conv)
  have "pool_all P (snd (u', q'))"
  proof (rule rfold_invariant [OF run, where P = "\<lambda>s. pool_all P (snd s)"])
    show "pool_all P (snd ?s)" using assms(1) by simp
  next
    fix s c s' assume c: "c \<in> set ?cs" and s: "pool_all P (snd s)" and step: "reprice_one s c = Inr s'"
    obtain u p where sp: "s = (u, p)" by (cases s)
    then have p: "pool_all P p" using s by simp
    obtain v p' where "admit (p\<lparr>backup_pool := AList.delete (column_key p c) (backup_pool p)\<rparr>) c = Inr (v, p')"
      and "snd s' = p'"
      using step sp by (auto simp: reprice_one_def Let_def rbind_eq_Inr_conv)
    then show "pool_all P (snd s')"
      using admit_all [OF pool_all_delete(2) [OF p] good [OF c]] by blast
  qed
  then show ?thesis using q by simp
next
  case False
  then show ?thesis using assms by (simp add: reprice_backup_def)
qed

lemma protect_plans_all:
  "protect_plans p pls = (r, q) \<Longrightarrow> pool_all P p \<Longrightarrow>
    (\<And>pl c. pl \<in> set pls \<Longrightarrow> column_of_plan pl = Inr c \<Longrightarrow> P c) \<Longrightarrow> pool_all P q"
proof (induction p pls rule: protect_plans.induct)
  case (2 p pl pls)
  show ?case
  proof (cases "protect_plan p pl")
    case (Inr p1)
    have "pool_all P p1"
      using Inr 2(3) 2(4) [of pl] put_main_all [OF 2(3)]
      by (auto simp: protect_plan_def Let_def rbind_eq_Inr_conv split: if_splits)
    moreover have "protect_plans p1 pls = (r, q)" using 2(2) Inr by simp
    ultimately show ?thesis using 2(1) [OF Inr] 2(4) by (metis list.set_intros(2))
  qed (use 2 in simp)
qed simp

lemma shrink_main_all: "shrink_main p = (r, q) \<Longrightarrow> pool_all P p \<Longrightarrow> pool_all P q"
proof (induction p rule: shrink_main.induct)
  case (1 p)
  show ?case
  proof (cases "length (main_pool p) > pool_capacity p")
    case True
    show ?thesis
    proof (cases "worst_main p")
      case (Inl e)
      then show ?thesis using 1(2,3) True by (simp add: shrink_main.simps [of p])
    next
      case w: (Inr w)
      show ?thesis
      proof (cases "demote_main p w")
        case (Inl e)
        then show ?thesis using 1(2,3) True w by (simp add: shrink_main.simps [of p])
      next
        case (Inr p1)
        then have "pool_all P p1" using demote_main_all [OF 1(3) worst_main_all [OF 1(3) w]] by blast
        moreover have "shrink_main p1 = (r, q)" using 1(2) True w Inr by (simp add: shrink_main.simps [of p])
        ultimately show ?thesis using 1(1) [OF True w Inr] by blast
      qed
    qed
  next
    case False
    then show ?thesis using 1(2,3) by (simp add: shrink_main.simps [of p])
  qed
qed

lemma protect_partition_all:
  assumes "protect_partition p s = (r, q)" and "pool_all P p"
    and "\<And>pl c. pl \<in> set (plans s) \<Longrightarrow> column_of_plan pl = Inr c \<Longrightarrow> P c"
  shows "pool_all P q"
  using assms protect_plans_all [OF _ _ assms(3), of "p\<lparr>protected_sequences := set (map (protected_key p) (plans s))\<rparr>"]
  by (auto simp: protect_partition_def split: if_splits prod.splits sum.splits intro: shrink_main_all)

lemma main_columns_all: "pool_all P p \<Longrightarrow> c \<in> set (main_columns p) \<Longrightarrow> P c"
  by (auto simp: main_columns_def stored.set_sort_by pool_all_def)

section \<open>The configuration of the pool\<close>

definition pool_conf :: "route_pool \<Rightarrow> nat \<times> real \<times> pool_identity" where
  "pool_conf p = (pool_capacity p, pool_tolerance p, pool_ident p)"

lemma pool_conf_updates [simp]:
  "pool_conf (p\<lparr>pool_stats := st\<rparr>) = pool_conf p"
  "pool_conf (p\<lparr>main_pool := m\<rparr>) = pool_conf p"
  "pool_conf (p\<lparr>backup_pool := m\<rparr>) = pool_conf p"
  "pool_conf (update_duals p ds) = pool_conf p"
  "pool_conf (p\<lparr>protected_sequences := ks\<rparr>) = pool_conf p"
  by (simp_all add: pool_conf_def update_duals_def)

lemma same_config_conf: "same_config p q \<Longrightarrow> pool_conf q = pool_conf p"
  by (simp add: same_config_def pool_conf_def)

lemma admit_conf: "pool_inv p \<Longrightarrow> admit p c = Inr (u, q) \<Longrightarrow> pool_inv q \<and> pool_conf q = pool_conf p"
  using admit_inv [of p c u q] by (auto simp: admitted_def dest: same_config_conf)

lemma reprice_total:
  assumes "pool_inv p"
  shows "\<exists>u q. reprice_backup p = Inr (u, q) \<and> pool_inv q \<and> pool_conf q = pool_conf p"
proof -
  obtain u q where run: "reprice_backup p = Inr (u, q)" and inv: "pool_inv q"
    using pool_keeps_reprice [of "{}" p] assms by (auto simp: pool_keeps_def)
  have "pool_conf q = pool_conf p"
  proof (cases "duals_valid p")
    case True
    let ?ok = "\<lambda>s. pool_inv (snd s) \<and> pool_conf (snd s) = pool_conf p"
    let ?cs = "sort_by (\<lambda>l r. column_rank_less l r (pool_duals p))
                 (filter (\<lambda>col. reduced_cost col (pool_duals p) < - pool_tolerance p) (map snd (backup_pool p)))"
    let ?s = "(\<lparr>rep_candidates = length ?cs, rep_promoted = 0, rep_improvements = 0\<rparr>,
        p\<lparr>pool_stats := (pool_stats p)\<lparr>repricing_candidates :=
                          repricing_candidates (pool_stats p) + of_nat (length ?cs)\<rparr>\<rparr>)"
    obtain u' q' where fold: "rfold reprice_one ?s ?cs = Inr (u', q')" and q: "pool_conf q = pool_conf q'"
      using run True by (auto simp: reprice_backup_def Let_def rbind_eq_Inr_conv)
    have "?ok (u', q')"
    proof (rule rfold_invariant [OF fold, where P = ?ok])
      show "?ok ?s" using assms by (simp add: pool_inv_def)
    next
      fix s c s' assume s: "?ok s" and step: "reprice_one s c = Inr s'"
      obtain v r where sp: "s = (v, r)" by (cases s)
      let ?r = "r\<lparr>backup_pool := AList.delete (column_key r c) (backup_pool r)\<rparr>"
      have "pool_inv ?r" using s sp by (auto simp: pool_inv_def pool_wf_def keyed_delete dom_delete)
      moreover obtain w where "admit ?r c = Inr (w, snd s')"
        using step sp by (auto simp: reprice_one_def Let_def rbind_eq_Inr_conv)
      ultimately show "?ok s'" using admit_conf s sp by fastforce
    qed
    then show ?thesis using q by simp
  qed (use run in \<open>simp add: reprice_backup_def\<close>)
  with run inv show ?thesis by blast
qed

lemma protect_total:
  assumes inv: "pool_inv p" and s: "protectable p s"
  shows "\<exists>q. protect_partition p s = (Inr (), q) \<and> pool_inv q \<and> pool_conf q = pool_conf p"
proof -
  let ?p0 = "p\<lparr>protected_sequences := set (map (protected_key p) (plans s))\<rparr>"
  obtain q where q: "protect_partition p s = (Inr (), q)" "pool_inv q"
    using protect_partition_ok [OF inv s] by (auto simp: pool_keeps_def)
  have "card (set (map (protected_key p) (plans s))) \<le> pool_capacity p"
    using s by (metis protectable_def card_length le_trans length_map)
  then have wf0: "pool_wf ?p0" using inv by (simp add: pool_inv_def pool_wf_def)
  have key: "protected_key ?p0 = protected_key p" by (simp add: fun_eq_iff protected_key_def)
  obtain p1 where p1: "protect_plans ?p0 (plans s) = (Inr (), p1)" "pool_wf p1" "same_config ?p0 p1"
    using protect_plans_ok [OF wf0, of "plans s"] s key by (auto simp: protectable_def)
  obtain q' where q': "shrink_main p1 = (Inr (), q')" "same_config p1 q'"
    using shrink_main_ok [OF p1(2)] by blast
  have "sol_feasible s"
    using s by (auto simp: sol_feasible_def protectable_def column_plan_def list_all_iff)
  then have "q = q'" using q(1) q'(1) p1(1) s by (simp add: protect_partition_def protectable_def)
  then have "pool_conf q = pool_conf p"
    using same_config_conf [OF p1(3)] same_config_conf [OF q'(2)] by simp
  with q show ?thesis by blast
qed

end
