(* ===== verification/Solver_Invariant.thy ===== *)
theory Solver_Invariant
  imports Solver_Loop Pool_Columns
begin

text \<open>
  The invariant of a run of the solver and its preservation by the assembler and the loop: the
  pool holds only feasible columns, the penalty stays in its range, every working solution is a
  partition, and the records improve strictly.
\<close>

section \<open>Outcomes\<close>

text \<open>
  A result satisfies \<open>P\<close>, or is an error where errors are allowed: with \<open>err\<close> this is partial
  correctness, without it the computation returns.
\<close>

definition outcome :: "bool \<Rightarrow> ('a \<Rightarrow> bool) \<Rightarrow> 'a result \<Rightarrow> bool" where
  "outcome err P m = (case m of Inl _ \<Rightarrow> err | Inr x \<Rightarrow> P x)"

lemma outcome_simps [simp]: "outcome err P (Inl e) = err" "outcome err P (Inr x) = P x"
  by (simp_all add: outcome_def)

lemma outcome_bind: "outcome err Q m \<Longrightarrow> (\<And>x. Q x \<Longrightarrow> outcome err P (f x)) \<Longrightarrow> outcome err P (rbind m f)"
  by (cases m) auto

lemma outcome_mono: "outcome err Q m \<Longrightarrow> (\<And>x. Q x \<Longrightarrow> P x) \<Longrightarrow> outcome err P m"
  by (cases m) auto

lemma outcome_Inr: "outcome err P m \<Longrightarrow> m = Inr x \<Longrightarrow> P x"
  by simp

lemma outcome_total: "outcome False P m \<Longrightarrow> \<exists>x. m = Inr x \<and> P x"
  by (cases m) auto

lemma outcome_rfold:
  assumes "P s" and "\<And>s x. x \<in> set xs \<Longrightarrow> P s \<Longrightarrow> outcome err P (f s x)"
  shows "outcome err P (rfold f s xs)"
  using assms
proof (induction xs arbitrary: s)
  case (Cons x xs)
  show ?case
    by (simp, rule outcome_bind [where Q = P]) (use Cons in auto)
qed simp

section \<open>The invariant of the solver\<close>

definition params_ok :: "paper_parameters \<Rightarrow> bool" where
  "params_ok p \<longleftrightarrow> 0 < penalty_window p \<and> 1 < penalty_factor p \<and> 0 \<le> lambda_min p \<and>
     lambda_min p \<le> lambda_initial p \<and> lambda_initial p \<le> lambda_max p \<and>
     0 < paper_pool_capacity p \<and> 0 < max_iterations p"

definition penalty_ok :: "paper_parameters \<Rightarrow> penalty_state \<Rightarrow> bool" where
  "penalty_ok p s \<longleftrightarrow> lambda_min p \<le> penalty_lambda s \<and> penalty_lambda s \<le> lambda_max p \<and>
     consecutive_feasible s < penalty_window p \<and> consecutive_infeasible s < penalty_window p \<and>
     (consecutive_feasible s = 0 \<or> consecutive_infeasible s = 0)"

lemma check_config_params:
  assumes "check_config now cfg = Inr u"
  shows "params_ok (paper cfg)" and "opt_positive (global_time_limit_s cfg)"
proof -
  have "\<not> parameters_invalid cfg"
    using assms by (auto simp: check_config_def rbind_eq_Inr_conv split: if_splits)
  then show "params_ok (paper cfg)" "opt_positive (global_time_limit_s cfg)"
    by (auto simp: parameters_invalid_def params_ok_def Let_def not_le not_less)
qed

lemma observe_penalty_ok:
  assumes "params_ok p" and "penalty_ok p s"
  shows "penalty_ok p (observe_penalty p feas s)"
proof -
  have l: "lambda_min p \<le> penalty_lambda s" "penalty_lambda s \<le> lambda_max p" "0 \<le> lambda_min p" "1 < penalty_factor p"
    using assms by (auto simp: params_ok_def penalty_ok_def)
  have "penalty_lambda s \<le> penalty_lambda s * penalty_factor p"
    using l by (intro mult_right_le_imp_le [of 1 _ "penalty_lambda s", THEN mult_left_mono] | simp add: mult_le_cancel_left1)+
  moreover have "penalty_lambda s / penalty_factor p \<le> penalty_lambda s"
    using l by (simp add: divide_le_eq mult_le_cancel_left1)
  ultimately show ?thesis
    using assms l by (auto simp: observe_penalty_def Let_def penalty_ok_def params_ok_def)
qed

text \<open>The pool holds columns of feasible plans that represent their routes.\<close>

definition column_good :: "route_column \<Rightarrow> bool" where
  "column_good c \<longleftrightarrow> column_of_plan (col_plan c) = Inr c \<and> plan_consistent (col_plan c)"

definition pool_ok :: "solver_config \<Rightarrow> route_pool \<Rightarrow> bool" where
  "pool_ok cfg p \<longleftrightarrow> pool_inv p \<and> pool_all column_good p \<and>
     pool_conf p = (paper_pool_capacity (paper cfg), kCostTolerance, config_identity cfg)"

definition solver_ok :: "solver_config \<Rightarrow> 'e solver \<Rightarrow> bool" where
  "solver_ok cfg s \<longleftrightarrow> pool_ok cfg (pool s) \<and> penalty_ok (paper cfg) (penalty s)"

lemma solver_ok_updates [simp]:
  "solver_ok cfg (s\<lparr>env := e\<rparr>) = solver_ok cfg s"
  "solver_ok cfg (s\<lparr>last_coverage_improvement_iteration := n\<rparr>) = solver_ok cfg s"
  "solver_ok cfg (s\<lparr>last_best_improvement_iteration := n\<rparr>) = solver_ok cfg s"
  "solver_ok cfg (s\<lparr>sp_skipped_incomplete_pool := n\<rparr>) = solver_ok cfg s"
  "solver_ok cfg (s\<lparr>lp_calls := n\<rparr>) = solver_ok cfg s"
  "solver_ok cfg (s\<lparr>frvcp_calls := n\<rparr>) = solver_ok cfg s"
  "solver_ok cfg (s\<lparr>previous_sp_customer_sets := n'\<rparr>) = solver_ok cfg s"
  "solver_ok cfg (s\<lparr>sp_calls := n\<rparr>) = solver_ok cfg s"
  "solver_ok cfg (s\<lparr>adaptive_sp_calls := n\<rparr>) = solver_ok cfg s"
  "solver_ok cfg (s\<lparr>last_sp_iteration := n\<rparr>) = solver_ok cfg s"
  "solver_ok cfg (s\<lparr>generation_at_last_sp := g\<rparr>) = solver_ok cfg s"
  "solver_ok cfg (s\<lparr>sp_lp_prepass_calls := n\<rparr>) = solver_ok cfg s"
  "solver_ok cfg (s\<lparr>sp_lp_certified_calls := n\<rparr>) = solver_ok cfg s"
  "solver_ok cfg (s\<lparr>sp_lp_fallback_calls := n\<rparr>) = solver_ok cfg s"
  "solver_ok cfg (s\<lparr>sp_lp_exception_calls := n\<rparr>) = solver_ok cfg s"
  "solver_ok cfg (s\<lparr>sp_rc_fixing_calls := n\<rparr>) = solver_ok cfg s"
  "solver_ok cfg (s\<lparr>sp_rc_fixed_columns := n\<rparr>) = solver_ok cfg s"
  "solver_ok cfg (s\<lparr>sp_rc_considered_columns := n\<rparr>) = solver_ok cfg s"
  "solver_ok cfg (s\<lparr>pool := p\<rparr>) \<longleftrightarrow> pool_ok cfg p \<and> penalty_ok (paper cfg) (penalty s)"
  "solver_ok cfg (s\<lparr>penalty := q\<rparr>) \<longleftrightarrow> pool_ok cfg (pool s) \<and> penalty_ok (paper cfg) q"
  by (simp_all add: solver_ok_def)

lemma solver_ok_penalty: "solver_ok cfg s \<Longrightarrow> penalty_ok (paper cfg) (penalty s)"
  by (simp add: solver_ok_def)

lemma make_solver_ok:
  assumes "make_solver e now cfg = Inr s"
  shows "params_ok (paper cfg)" and "solver_ok cfg s" and "env s = e" and "opt_positive (global_time_limit_s cfg)"
    and "penalty_lambda (penalty s) = lambda_initial (paper cfg)"
proof -
  obtain p where p: "make_pool (paper_pool_capacity (paper cfg)) kCostTolerance (config_identity cfg)
      (config_keep_evicted cfg) = Inr p" and c: "check_config now cfg = Inr ()"
    and s: "pool s = p" "penalty s = \<lparr>penalty_lambda = lambda_initial (paper cfg), consecutive_feasible = 0,
                     consecutive_infeasible = 0\<rparr>" "env s = e"
    using assms by (auto simp: make_solver_def rbind_eq_Inr_conv)
  show par: "params_ok (paper cfg)" and "opt_positive (global_time_limit_s cfg)" using check_config_params [OF c] by auto
  have "pool_inv p" using reach_make [OF p] by (rule pool_reachable_inv)
  moreover have "pool_all column_good p" "pool_conf p = (paper_pool_capacity (paper cfg), kCostTolerance, config_identity cfg)"
    using p by (auto simp: make_pool_def pool_all_def pool_conf_def split: if_splits)
  ultimately show "solver_ok cfg s" using s par by (simp add: solver_ok_def pool_ok_def penalty_ok_def params_ok_def)
  show "env s = e" "penalty_lambda (penalty s) = lambda_initial (paper cfg)" using s by simp_all
qed

section \<open>Working solutions\<close>

text \<open>
  A working solution is a partition of the customers; where errors are excluded its plans are
  evaluated, too.
\<close>

definition evaluated :: "solution \<Rightarrow> bool" where
  "evaluated s \<longleftrightarrow> (\<forall>p \<in> set (plans s). evaluation p \<noteq> None)"

definition work_ok :: "bool \<Rightarrow> inst \<Rightarrow> solution \<Rightarrow> bool" where
  "work_ok err I s \<longleftrightarrow> validate_partition I s = Inr () \<and> (err \<or> evaluated s)"

lemma rfold_sum_outcome:
  assumes "\<And>p. p \<in> set ps \<Longrightarrow> err \<or> evaluation p \<noteq> None"
  shows "outcome err (\<lambda>_. True) (rfold (\<lambda>tot p. rbind (deref (evaluation p)) (\<lambda>e. Inr (tot + raw_cost_h e))) a ps)"
proof (rule outcome_rfold [where P = "\<lambda>_. True"])
  show True by (rule TrueI)
next
  fix s :: real and p assume "p \<in> set ps"
  then show "outcome err (\<lambda>_. True) (rbind (deref (evaluation p)) (\<lambda>e. Inr (s + raw_cost_h e)))"
    using assms [of p] by (cases "evaluation p") (auto simp: deref_def)
qed

lemma raw_cost_outcome: "err \<or> evaluated s \<Longrightarrow> outcome err (\<lambda>c. sol_raw_cost_h s = Inr c) (sol_raw_cost_h s)"
  using rfold_sum_outcome [of "plans s" err 0] by (auto simp: sol_raw_cost_h_def evaluated_def outcome_def split: sum.splits)

lemma feasible_evaluated: "sol_feasible s \<Longrightarrow> evaluated s"
  by (auto simp: sol_feasible_def evaluated_def list_all_iff split: option.splits)

lemma target_outcome: "outcome err (\<lambda>_. True) (rounded_target_reached cfg s)"
proof -
  have "outcome err (\<lambda>_. True) (rbind (sol_raw_cost_h s) (\<lambda>c. Inr (f c)))" if "sol_feasible s" for f :: "real \<Rightarrow> bool"
    using raw_cost_outcome [of err s] feasible_evaluated [OF that] by (auto intro: outcome_bind)
  then show ?thesis by (auto simp: rounded_target_reached_def split: option.splits)
qed

lemma eval_feasible_outcome: "err \<or> evaluation pl \<noteq> None \<Longrightarrow>
    outcome err (\<lambda>b. b \<longleftrightarrow> (\<exists>ev. evaluation pl = Some ev \<and> feasible ev)) (eval_feasible pl)"
  by (auto simp: eval_feasible_def deref_def split: option.splits)

lemma eval_raw_cost_outcome: "err \<or> evaluation pl \<noteq> None \<Longrightarrow>
    outcome err (\<lambda>c. \<exists>ev. evaluation pl = Some ev \<and> c = raw_cost_h ev) (eval_raw_cost pl)"
  by (auto simp: eval_raw_cost_def deref_def split: option.splits)

section \<open>Admission of plans\<close>

lemma column_good_plan: "column_of_plan pl = Inr c \<Longrightarrow> plan_consistent pl \<Longrightarrow> column_good c"
  by (auto simp: column_good_def column_of_plan_def Let_def split: option.splits if_splits)

lemma admit_plan_outcome:
  assumes "solver_ok cfg s" and "plan_consistent pl" and "err \<or> column_plan pl"
  shows "outcome err (solver_ok cfg) (admit_plan iteration s pl)"
proof (cases "column_of_plan pl")
  case (Inl e)
  then show ?thesis using assms(3) column_of_plan_ok [of pl] by (auto simp: admit_plan_def)
next
  case (Inr c)
  have inv: "pool_inv (pool s)" using assms(1) by (simp add: solver_ok_def pool_ok_def)
  obtain u q where run: "admit (pool s) c = Inr (u, q)" using admit_ok [of "pool s" c] inv by (auto simp: pool_inv_def)
  have "pool_ok cfg q"
    using admit_conf [OF inv run] admit_all [where P = column_good, OF _ column_good_plan [OF Inr assms(2)] run] assms(1)
    by (simp add: solver_ok_def pool_ok_def)
  then show ?thesis using Inr run assms(1) by (simp add: admit_plan_def solver_ok_def Let_def)
qed

lemma work_plan:
  assumes "inst_ok I" and "work_ok err I s" and "pl \<in> set (plans s)"
  shows "plan_consistent pl" and "err \<or> evaluation pl \<noteq> None" and "plan_customers pl \<noteq> []" and "distinct (plan_customers pl)"
proof -
  have v: "\<forall>p \<in> set (plans s). plan_consistent p" "distinct (concat (customer_sequences s))"
    using assms(2) validate_partition_Inr [OF assms(1)] by (auto simp: work_ok_def)
  show "plan_consistent pl" using v assms(3) by simp
  then show "plan_customers pl \<noteq> []" by (simp add: plan_consistent_def)
  show "err \<or> evaluation pl \<noteq> None" using assms(2,3) by (auto simp: work_ok_def evaluated_def)
  show "distinct (plan_customers pl)" using v(2) assms(3) by (auto simp: customer_sequences_def distinct_concat_iff)
qed

lemma admit_local_outcome:
  assumes "inst_ok I" and "work_ok err I here" and "solver_ok cfg s"
  shows "outcome err (solver_ok cfg) (rfold (admit_local_plan iteration) s (plans here))"
proof (rule outcome_rfold)
  show "solver_ok cfg s" by (rule assms(3))
next
  fix t pl assume pl: "pl \<in> set (plans here)" and t: "solver_ok cfg t"
  note w = work_plan [OF assms(1,2) pl]
  show "outcome err (solver_ok cfg) (admit_local_plan iteration t pl)"
    unfolding admit_local_plan_def
  proof (rule outcome_bind [OF eval_feasible_outcome [OF w(2)]])
    fix b assume "b \<longleftrightarrow> (\<exists>ev. evaluation pl = Some ev \<and> feasible ev)"
    then show "outcome err (solver_ok cfg) (if b then admit_plan iteration t pl else Inr t)"
      using t w admit_plan_outcome [OF t w(1), of err iteration] by (auto simp: column_plan_def)
  qed
qed

lemma reprice_outcome: "solver_ok cfg s \<Longrightarrow> outcome err (solver_ok cfg) (reprice iteration s)"
proof -
  assume s: "solver_ok cfg s"
  then have inv: "pool_inv (pool s)" by (simp add: solver_ok_def pool_ok_def)
  obtain u q where run: "reprice_backup (pool s) = Inr (u, q)" "pool_inv q" "pool_conf q = pool_conf (pool s)"
    using reprice_total [OF inv] by blast
  then have "pool_ok cfg q" using s reprice_all [where P = column_good, OF _ run(1)] by (simp add: solver_ok_def pool_ok_def)
  then show ?thesis using s run(1) by (simp add: reprice_def Let_def solver_ok_def)
qed

lemma expired_ok: "deadline_expired ops deadline s = (b, s') \<Longrightarrow> solver_ok cfg s' = solver_ok cfg s"
  by (auto simp: deadline_expired_def split: option.splits prod.splits)

section \<open>Contracts of the called parts\<close>

text \<open>
  Construction, perturbation and descent return partitions (of a partition); where errors are
  excluded they return, with evaluated plans.
\<close>

definition generator_contract :: "bool \<Rightarrow> inst \<Rightarrow> 'e operations \<Rightarrow> bool" where
  "generator_contract err I ops \<longleftrightarrow>
     (\<forall>e l. outcome err (\<lambda>(s, e'). work_ok err I s) (op_build ops e l)) \<and>
     (\<forall>e s l. work_ok err I s \<longrightarrow> outcome err (\<lambda>(s', e'). work_ok err I s') (op_perturb ops e s l)) \<and>
     (\<forall>e s l d c. work_ok err I s \<longrightarrow> outcome err (\<lambda>(s', e'). work_ok err I s') (op_improve ops e s l d c))"

text \<open>The route optimiser keeps the customer sequence of a route and returns an evaluated plan that represents its route.\<close>

definition frvcp_contract :: "bool \<Rightarrow> 'e operations \<Rightarrow> bool" where
  "frvcp_contract err ops \<longleftrightarrow>
     (\<forall>e pl d. plan_consistent pl \<longrightarrow>
        outcome err (\<lambda>(found, e'). \<forall>q. found = Some q \<longrightarrow> plan_consistent q \<and>
           plan_customers q = plan_customers pl \<and> evaluation q \<noteq> None) (op_frvcp ops e pl d))"

text \<open>
  The set-partitioning model returns, with no selection or with columns it was given that visit
  every customer once; the relaxation returns.  Needed only where errors are excluded.
\<close>

definition model_contract :: "inst \<Rightarrow> 'e operations \<Rightarrow> bool" where
  "model_contract I ops \<longleftrightarrow>
     (\<forall>e columns start d. outcome False (\<lambda>(r, e'). selected_columns r = [] \<or>
        set (selected_columns r) \<subseteq> set columns \<and>
        mset (concat (map (\<lambda>c. plan_customers (col_plan c)) (selected_columns r))) = mset (customer_ids I))
        (op_partition ops e columns start d)) \<and>
     (\<forall>e columns d. outcome False (\<lambda>_. True) (op_relax ops e columns d))"

section \<open>The optimised selection\<close>

definition route_upgrade :: "plan \<Rightarrow> plan \<Rightarrow> bool" where
  "route_upgrade p q \<longleftrightarrow> q = p \<or>
     plan_customers q = plan_customers p \<and>
     (\<exists>x y. evaluation p = Some x \<and> evaluation q = Some y \<and> feasible y \<and>
        (raw_cost_h y < raw_cost_h x - kCostTolerance \<or>
         exact_charging q \<and> \<not> exact_charging p \<and> raw_cost_h y \<le> raw_cost_h x + kCostTolerance))"

definition selection_inv :: "bool \<Rightarrow> nat \<Rightarrow> plan list \<Rightarrow> plan list \<Rightarrow> bool" where
  "selection_inv err ix ps qs \<longleftrightarrow> length qs = length ps \<and>
     (\<forall>i < length ps. plan_consistent (qs ! i) \<and> (err \<or> evaluation (qs ! i) \<noteq> None) \<and>
        (if i < ix then route_upgrade (ps ! i) (qs ! i) else qs ! i = ps ! i))"

lemma selection_inv_customers: "selection_inv err ix ps qs \<Longrightarrow> map plan_customers qs = map plan_customers ps"
  by (rule nth_equalityI) (auto simp: selection_inv_def route_upgrade_def split: if_splits)

lemma selection_inv_upgrades: "selection_inv err ix ps qs \<Longrightarrow> list_all2 route_upgrade ps qs"
  by (auto simp: selection_inv_def list_all2_conv_all_nth route_upgrade_def split: if_splits)

lemma selection_inv_skip: "selection_inv err ix ps qs \<Longrightarrow> selection_inv err (ix + 1) ps qs"
  by (auto simp: selection_inv_def route_upgrade_def less_Suc_eq)

lemma selection_inv_replace:
  assumes "selection_inv err ix ps qs" and "ix < length ps" and "plan_consistent q" and "evaluation q \<noteq> None"
    and "route_upgrade (ps ! ix) q"
  shows "selection_inv err (ix + 1) ps (qs[ix := q])"
  using assms by (auto simp: selection_inv_def nth_list_update less_Suc_eq)

lemma selection_work:
  assumes "inst_ok I" and "work_ok err I \<lparr>plans = ps\<rparr>" and "selection_inv err ix ps qs"
  shows "work_ok err I \<lparr>plans = qs\<rparr>"
  using assms selection_inv_customers [OF assms(3)]
  by (auto simp: work_ok_def validate_partition_Inr [OF assms(1)] customer_sequences_def evaluated_def
      selection_inv_def in_set_conv_nth)

lemma replaces_outcome:
  assumes "err \<or> evaluation p \<noteq> None" and "evaluation q = Some y" and "feasible y" and "plan_customers q = plan_customers p"
  shows "outcome err (\<lambda>b. b \<longrightarrow> route_upgrade p q) (replaces p q)"
proof -
  have e: "err \<or> evaluation q \<noteq> None" using assms(2) by simp
  show ?thesis
    unfolding replaces_def
    by (rule outcome_bind [OF eval_raw_cost_outcome [OF assms(1)]],
        rule outcome_bind [OF eval_raw_cost_outcome [OF e]]) (use assms in \<open>auto simp: route_upgrade_def\<close>)
qed

definition assembly_inv :: "bool \<Rightarrow> solver_config \<Rightarrow> nat \<Rightarrow> plan list \<Rightarrow> solution \<times> frvcp_budget \<times> 'e solver \<Rightarrow> bool" where
  "assembly_inv err cfg ix ps x \<longleftrightarrow> selection_inv err ix ps (plans (fst x)) \<and> solver_ok cfg (snd (snd x))"

lemma install_route_outcome:
  assumes sinv: "selection_inv err ix ps (plans a)" and ok: "solver_ok cfg s" and ix: "ix < length ps"
    and q: "plan_consistent q" "plan_customers q = plan_customers (ps ! ix)" "evaluation q \<noteq> None"
    and customers: "distinct (plan_customers (ps ! ix))"
  shows "outcome err (\<lambda>(a', s'). selection_inv err (ix + 1) ps (plans a') \<and> solver_ok cfg s')
    (install_route iteration ix (a, s) q)"
proof -
  let ?P = "\<lambda>(a', s' :: 'a solver). selection_inv err (ix + 1) ps (plans a') \<and> solver_ok cfg s'"
  have here: "plans a ! ix = ps ! ix" "err \<or> evaluation (ps ! ix) \<noteq> None"
    using sinv ix by (auto simp: selection_inv_def)
  have keep: "?P (a, s)" using selection_inv_skip [OF sinv] ok by simp
  have install: "outcome err ?P (rbind (admit_plan iteration s q) (\<lambda>s2. Inr (\<lparr>plans = (plans a)[ix := q]\<rparr>, s2)))"
    if "evaluation q = Some ev" "feasible ev" "route_upgrade (ps ! ix) q" for ev
  proof (rule outcome_bind [OF admit_plan_outcome [OF ok q(1)]])
    show "err \<or> column_plan q" using that customers q by (auto simp: column_plan_def plan_consistent_def)
  qed (use selection_inv_replace [OF sinv ix q(1,3) that(3)] in simp)
  have replace: "outcome err ?P (rbind (replaces (plans a ! ix) q) (\<lambda>better.
       if \<not> better then Inr (a, s)
       else rbind (admit_plan iteration s q) (\<lambda>s2. Inr (\<lparr>plans = (plans a)[ix := q]\<rparr>, s2))))"
    if "evaluation q = Some ev" "feasible ev" for ev
    unfolding here(1)
    by (rule outcome_bind [OF replaces_outcome [OF here(2) that q(2)]]) (use keep install [OF that] in auto)
  show ?thesis
    unfolding install_route_def prod.case
    by (rule outcome_bind [OF eval_feasible_outcome]) (use q(3) keep replace in auto)
qed

lemma optimize_route_outcome:
  fixes ops :: "'e operations"
  assumes frvcp: "frvcp_contract err ops" and ix: "ix < length ps" and sel: "col_plan selected = ps ! ix"
    and customers: "distinct (plan_customers (ps ! ix))" and inv: "assembly_inv err cfg ix ps x"
  shows "outcome err (assembly_inv err cfg (ix + 1) ps) (optimize_route ops iteration deadline ix selected x)"
proof -
  obtain a b s where x: "x = (a, b, s)" by (cases x)
  have sinv: "selection_inv err ix ps (plans a)" and ok: "solver_ok cfg s" using inv x by (auto simp: assembly_inv_def)
  have good: "plan_consistent (ps ! ix)" using sinv ix by (auto simp: selection_inv_def)
  obtain st e0 where st: "(if budget_enabled b then op_now ops (env s) else (0, env s)) = (st, e0)"
    by (meson surj_pair)
  let ?Q = "\<lambda>(found, e' :: 'e). \<forall>q. found = Some q \<longrightarrow> plan_consistent q \<and>
           plan_customers q = plan_customers (ps ! ix) \<and> evaluation q \<noteq> None"
  have call: "outcome err ?Q (op_frvcp ops e0 (col_plan selected) (budget_deadline b st deadline))"
    using frvcp good sel by (simp add: frvcp_contract_def)
  show ?thesis
    unfolding optimize_route_def x prod.case st Let_def
  proof (rule outcome_bind [OF call])
    fix y assume y: "?Q y"
    obtain found e1 where ye: "y = (found, e1)" by (cases y)
    obtain fin e2 where fin: "(if budget_enabled b then op_now ops e1 else (0, e1)) = (fin, e2)"
      by (meson surj_pair)
    let ?s1 = "s\<lparr>env := e0, frvcp_calls := frvcp_calls s + 1, env := e2\<rparr>"
    have ok1: "solver_ok cfg ?s1" using ok by simp
    have "outcome err (\<lambda>(a', s'). selection_inv err (ix + 1) ps (plans a') \<and> solver_ok cfg s')
      (case found of None \<Rightarrow> Inr (a, ?s1) | Some pl \<Rightarrow> install_route iteration ix (a, ?s1) pl)"
    proof (cases found)
      case None
      then show ?thesis using selection_inv_skip [OF sinv] ok1 by simp
    next
      case (Some q)
      then show ?thesis
        using install_route_outcome [OF sinv ok1 ix _ _ _ customers] y ye by simp
    qed
    then show "outcome err (assembly_inv err cfg (ix + 1) ps)
       (case y of (optimized, e1) \<Rightarrow>
          case if budget_enabled b then op_now ops e1 else (0, e1) of (finished, e2) \<Rightarrow>
          rbind (case optimized of None \<Rightarrow> Inr (a, s\<lparr>env := e0, frvcp_calls := frvcp_calls s + 1, env := e2\<rparr>)
            | Some pl \<Rightarrow> install_route iteration ix (a, s\<lparr>env := e0, frvcp_calls := frvcp_calls s + 1, env := e2\<rparr>) pl)
            (\<lambda>(a, s2). Inr (a, budget_charge b st finished, s2)))"
      unfolding ye prod.case fin by (rule outcome_bind) (auto simp: assembly_inv_def)
  qed
qed

lemma selection_inv_final: "selection_inv err ix ps qs \<Longrightarrow> selection_inv err (length ps) ps qs"
  by (auto simp: selection_inv_def route_upgrade_def split: if_splits)

lemma optimize_routes_outcome:
  fixes ops :: "'e operations"
  assumes frvcp: "frvcp_contract err ops" and customers: "\<forall>p \<in> set ps. distinct (plan_customers p)"
  shows "assembly_inv err cfg ix ps x \<Longrightarrow> map col_plan cs = drop ix ps \<Longrightarrow>
    outcome err (assembly_inv err cfg (length ps) ps) (optimize_routes ops cfg iteration deadline ix cs x)"
proof (induction cs arbitrary: ix x)
  case Nil
  then show ?case using selection_inv_final [of err ix ps] by (auto simp: assembly_inv_def)
next
  case (Cons c cs)
  have ix: "ix < length ps" using Cons.prems(2) by (metis drop_all linorder_not_le list.distinct(1) list.map(2))
  then have c: "col_plan c = ps ! ix" "map col_plan cs = drop (ix + 1) ps"
    using Cons.prems(2) by (simp_all add: Cons_nth_drop_Suc [symmetric])
  obtain a b s where x: "x = (a, b, s)" by (cases x)
  obtain expired s1 where ex: "deadline_expired ops deadline s = (expired, s1)" by fastforce
  have inv1: "assembly_inv err cfg ix ps (a, b', s1)" for b'
    using Cons.prems(1) x expired_ok [OF ex] by (simp add: assembly_inv_def)
  then have done_here: "assembly_inv err cfg (length ps) ps (a, b', s1)" for b'
    using selection_inv_final [of err ix ps] by (simp add: assembly_inv_def)
  have step: "outcome err (assembly_inv err cfg (ix + 1) ps) (optimize_route ops iteration deadline ix c (a, b, s1))"
    using optimize_route_outcome [OF frvcp ix c(1) _ inv1] customers ix by simp
  have rest: "outcome err (assembly_inv err cfg (length ps) ps)
      (rbind (optimize_route ops iteration deadline ix c (a, b, s1)) (\<lambda>y.
           rbind (rounded_target_reached cfg (fst y)) (\<lambda>reached.
           if reached then Inr y else optimize_routes ops cfg iteration deadline (ix + 1) cs y)))"
  proof (rule outcome_bind [OF step])
    fix y :: "solution \<times> frvcp_budget \<times> 'e solver"
    assume y: "assembly_inv err cfg (ix + 1) ps y"
    then have "assembly_inv err cfg (length ps) ps y"
      using selection_inv_final [of err "ix + 1" ps] by (simp add: assembly_inv_def)
    then show "outcome err (assembly_inv err cfg (length ps) ps)
        (rbind (rounded_target_reached cfg (fst y)) (\<lambda>reached.
           if reached then Inr y else optimize_routes ops cfg iteration deadline (ix + 1) cs y))"
      using Cons.IH [OF y c(2)] by (intro outcome_bind [OF target_outcome]) simp
  qed
  have "outcome err (assembly_inv err cfg (length ps) ps)
     (rbind (rounded_target_reached cfg a) (\<lambda>reached.
         if reached then Inr (a, b, s1)
         else if budget_exhausted b
         then Inr (a, b\<lparr>skipped_routes := skipped_routes b + length (c # cs)\<rparr>, s1)
         else rbind (optimize_route ops iteration deadline ix c (a, b, s1)) (\<lambda>y.
           rbind (rounded_target_reached cfg (fst y)) (\<lambda>reached.
           if reached then Inr y else optimize_routes ops cfg iteration deadline (ix + 1) cs y))))"
    using rest done_here by (intro outcome_bind [OF target_outcome]) simp
  then show ?case using done_here x ex by simp
qed

section \<open>The models\<close>

definition selection_good :: "bool \<Rightarrow> inst \<Rightarrow> route_column list \<Rightarrow> sp_result \<Rightarrow> bool" where
  "selection_good err I columns r \<longleftrightarrow> err \<or> selected_columns r = [] \<or>
     set (selected_columns r) \<subseteq> set columns \<and>
     mset (concat (map (\<lambda>c. plan_customers (col_plan c)) (selected_columns r))) = mset (customer_ids I)"

text \<open>A selection that can be worked with, and what is made of it: nothing from nothing, else a partition.\<close>

definition usable :: "bool \<Rightarrow> inst \<Rightarrow> sp_result \<Rightarrow> bool" where
  "usable err I r \<longleftrightarrow> (selected_columns r \<noteq> [] \<longrightarrow> work_ok err I (chosen_solution r))"

definition models_post :: "bool \<Rightarrow> solver_config \<Rightarrow> inst \<Rightarrow> sp_result \<Rightarrow> solution option \<times> frvcp_budget \<times> 'e solver \<Rightarrow> bool" where
  "models_post err cfg I r x \<longleftrightarrow> solver_ok cfg (snd (snd x)) \<and>
     (case fst x of None \<Rightarrow> selected_columns r = []
      | Some a \<Rightarrow> selected_columns r \<noteq> [] \<and> work_ok err I a \<and>
          list_all2 route_upgrade (map col_plan (selected_columns r)) (plans a))"

lemma call_partition_outcome:
  assumes "err \<or> model_contract I ops" and ok: "solver_ok cfg s"
  shows "outcome err (\<lambda>(r, s'). solver_ok cfg s' \<and> selection_good err I columns r \<and>
      (\<exists>e. op_partition ops (env s) columns (start_columns start) deadline = Inr (r, e)))
    (call_partition ops adaptive iteration deadline columns start s)"
proof -
  have "outcome err (\<lambda>(r, e'). selection_good err I columns r \<and> op_partition ops e columns start d = Inr (r, e'))
      (op_partition ops e columns start d)" for e start d
    using assms(1) by (cases "op_partition ops e columns start d")
      (fastforce simp: model_contract_def selection_good_def outcome_def split: sum.splits)+
  then show ?thesis
    unfolding call_partition_def Let_def
    by (rule outcome_bind) (use ok in \<open>auto split: prod.splits\<close>)
qed

lemma call_relaxation_outcome:
  assumes "err \<or> model_contract I ops" and ok: "solver_ok cfg s"
  shows "outcome err (solver_ok cfg) (call_relaxation ops cfg iteration deadline columns r s)"
proof -
  have lp: "outcome err (\<lambda>_. True) (case reused_relaxation r of Some lp \<Rightarrow> Inr (lp, env (s\<lparr>lp_calls := lp_calls s + 1\<rparr>))
      | None \<Rightarrow> op_relax ops (env (s\<lparr>lp_calls := lp_calls s + 1\<rparr>)) columns deadline)"
    using assms(1) by (cases err) (auto simp: model_contract_def outcome_def split: option.splits sum.splits)
  have "pool_ok cfg (update_duals (pool s) ds)" for ds
    using ok by (simp add: solver_ok_def pool_ok_def) (simp add: update_duals_def pool_inv_def)
  then show ?thesis
    unfolding call_relaxation_def Let_def
    by (intro outcome_bind [OF lp])
      (use ok in \<open>auto intro!: reprice_outcome split: prod.splits dest: solver_ok_penalty\<close>)
qed

lemma selection_validates:
  assumes I: "inst_ok I" and good: "selection_good False I columns r" and cols: "\<forall>c \<in> set columns. column_good c"
    and ne: "selected_columns r \<noteq> []"
  shows "work_ok False I (chosen_solution r)"
proof -
  have sub: "set (selected_columns r) \<subseteq> set columns"
    and ms: "mset (concat (map (\<lambda>c. plan_customers (col_plan c)) (selected_columns r))) = mset (customer_ids I)"
    using good ne by (auto simp: selection_good_def)
  have "distinct (concat (map (\<lambda>c. plan_customers (col_plan c)) (selected_columns r)))"
    using customer_ids_distinct [OF I] ms by (metis mset_eq_imp_distinct_iff)
  moreover have "set (concat (map (\<lambda>c. plan_customers (col_plan c)) (selected_columns r))) = set (customer_ids I)"
    using ms by (metis set_mset_mset)
  moreover have "evaluation (col_plan c) \<noteq> None" "plan_consistent (col_plan c)" if "column_good c" for c
    using that by (auto simp: column_good_def column_of_plan_def split: option.splits)
  ultimately show ?thesis
    using sub cols
    by (auto simp: chosen_solution_def work_ok_def evaluated_def validate_partition_Inr [OF I] customer_sequences_def comp_def)
qed

lemma check_selection_outcome:
  assumes I: "inst_ok I" and good: "selection_good err I columns r" and cols: "\<forall>c \<in> set columns. column_good c"
  shows "outcome err (\<lambda>reached. if selected_columns r = [] then \<not> reached else work_ok err I (chosen_solution r))
    (check_selection cfg I r)"
proof (cases "selected_columns r = []")
  case False
  have "outcome err (\<lambda>_. work_ok err I (chosen_solution r)) (validate_partition I (chosen_solution r))"
  proof (cases err)
    case True
    then show ?thesis by (auto simp: outcome_def work_ok_def split: sum.splits)
  next
    case total: False
    then have "work_ok False I (chosen_solution r)" using selection_validates [OF I _ cols False] good by simp
    then show ?thesis using total by (simp add: work_ok_def)
  qed
  then have "outcome err (\<lambda>reached. work_ok err I (chosen_solution r))
      (rbind (validate_partition I (chosen_solution r)) (\<lambda>_. rounded_target_reached cfg (chosen_solution r)))"
    by (rule outcome_bind) (auto intro: outcome_mono [OF target_outcome])
  then show ?thesis using False by (simp add: check_selection_def)
qed (simp add: check_selection_def)

lemma route_upgrade_self: "list_all2 route_upgrade ps ps"
  by (simp add: list_all2_conv_all_nth route_upgrade_def)

lemma models_post_chosen:
  assumes "usable err I r" and "solver_ok cfg s"
  shows "models_post err cfg I r (assembled_selection r, b, s)"
  using assms route_upgrade_self [of "map col_plan (selected_columns r)"]
  by (auto simp: models_post_def usable_def assembled_selection_def chosen_solution_def)

lemma optimize_selection_outcome:
  fixes ops :: "'e operations"
  assumes I: "inst_ok I" and frvcp: "frvcp_contract err ops" and call: "usable err I r"
    and ok: "solver_ok cfg s"
  shows "outcome err (models_post err cfg I r) (optimize_selection ops cfg I iteration deadline r (b, s))"
proof (cases "selected_columns r = []")
  case True
  then show ?thesis using ok by (simp add: optimize_selection_def models_post_def)
next
  case False
  let ?ps = "map col_plan (selected_columns r)"
  obtain expired s1 where ex: "deadline_expired ops deadline s = (expired, s1)" by fastforce
  have ok1: "solver_ok cfg s1" using ok expired_ok [OF ex] by simp
  have w: "work_ok err I \<lparr>plans = ?ps\<rparr>" using call False by (simp add: usable_def chosen_solution_def)
  have plan: "plan_consistent p" "err \<or> evaluation p \<noteq> None" "distinct (plan_customers p)" if "p \<in> set ?ps" for p
    using work_plan [OF I w, of p] that by auto
  then have inv: "assembly_inv err cfg 0 ?ps (chosen_solution r, b, s1)"
    using ok1 by (simp add: assembly_inv_def selection_inv_def chosen_solution_def)
  have "outcome err (assembly_inv err cfg (length ?ps) ?ps)
      (optimize_routes ops cfg iteration deadline 0 (selected_columns r) (chosen_solution r, b, s1))"
    using plan by (intro optimize_routes_outcome [OF frvcp _ inv]) auto
  then have run: "outcome err (models_post err cfg I r)
      (rbind (optimize_routes ops cfg iteration deadline 0 (selected_columns r) (chosen_solution r, b, s1)) (\<lambda>(a, b, s).
           rbind (validate_partition I a) (\<lambda>_. Inr (Some a, b, s))))"
  proof (rule outcome_bind)
    fix x :: "solution \<times> frvcp_budget \<times> 'e solver"
    assume x: "assembly_inv err cfg (length ?ps) ?ps x"
    obtain a b' s' where xe: "x = (a, b', s')" by (cases x)
    have "work_ok err I \<lparr>plans = plans a\<rparr>" using x xe by (intro selection_work [OF I w, of "length ?ps"]) (simp add: assembly_inv_def)
    then have wa: "work_ok err I a" by (cases a) simp
    moreover have "list_all2 route_upgrade ?ps (plans a)"
      using x xe by (intro selection_inv_upgrades [of err "length ?ps"]) (simp add: assembly_inv_def)
    ultimately have "models_post err cfg I r (Some a, b', s')"
      using x xe call False by (auto simp: models_post_def usable_def assembly_inv_def)
    then show "outcome err (models_post err cfg I r)
      (case x of (a, b, s) \<Rightarrow> rbind (validate_partition I a) (\<lambda>_. Inr (Some a, b, s)))"
      using wa xe by (simp add: work_ok_def)
  qed
  show ?thesis
    using run False ex models_post_chosen [OF call ok1] by (simp add: optimize_selection_def)
qed

lemma relax_and_optimize_outcome:
  fixes ops :: "'e operations"
  assumes I: "inst_ok I" and frvcp: "frvcp_contract err ops" and models: "err \<or> model_contract I ops"
    and call: "usable err I r" and ok: "solver_ok cfg s"
  shows "outcome err (models_post err cfg I r) (relax_and_optimize ops cfg I iteration deadline columns r (b, s))"
proof -
  obtain expired s1 where ex: "deadline_expired ops deadline s = (expired, s1)" by fastforce
  have ok1: "solver_ok cfg s1" using ok expired_ok [OF ex] by simp
  have "outcome err (models_post err cfg I r)
      (rbind (call_relaxation ops cfg iteration deadline columns r s1) (\<lambda>s.
         optimize_selection ops cfg I iteration deadline r (b, s)))"
    using call_relaxation_outcome [OF models ok1] by (rule outcome_bind) (rule optimize_selection_outcome [OF I frvcp call])
  then show ?thesis using ex models_post_chosen [OF call ok1] by (simp add: relax_and_optimize_def)
qed

text \<open>The result of the call of the model that the assembler makes.\<close>

definition model_run ::
  "'e operations \<Rightarrow> inst \<Rightarrow> solution \<Rightarrow> solution option \<Rightarrow> int option \<Rightarrow> route_column list \<Rightarrow> 'e solver \<Rightarrow> sp_result \<Rightarrow> bool" where
  "model_run ops I here best_sol deadline columns s r \<longleftrightarrow>
     (\<exists>e. op_partition ops (env s) columns
        (start_columns (choose_start I columns (previous_sp_customer_sets s) best_sol here)) deadline = Inr (r, e))"

lemma run_models_outcome:
  fixes ops :: "'e operations"
  assumes I: "inst_ok I" and frvcp: "frvcp_contract err ops" and models: "err \<or> model_contract I ops"
    and cols: "\<forall>c \<in> set columns. column_good c" and ok: "solver_ok cfg s"
  shows "outcome err (\<lambda>x. \<exists>r. model_run ops I here best_sol deadline columns s r \<and> selection_good err I columns r \<and>
      models_post err cfg I r x)
    (run_models ops cfg I here best_sol iteration deadline adaptive columns (b, s))"
  unfolding run_models_def prod.case Let_def
proof (rule outcome_bind [OF call_partition_outcome [OF models ok]])
  let ?start = "choose_start I columns (previous_sp_customer_sets s) best_sol here"
  fix x :: "sp_result \<times> 'e solver"
  assume x: "case x of (r, s') \<Rightarrow> solver_ok cfg s' \<and> selection_good err I columns r \<and>
      (\<exists>e. op_partition ops (env s) columns (start_columns ?start) deadline = Inr (r, e))"
  obtain r s1 where xe: "x = (r, s1)" by (cases x)
  have s1: "solver_ok cfg s1" and good: "selection_good err I columns r"
    and origin: "model_run ops I here best_sol deadline columns s r"
    using x xe by (auto simp: model_run_def)
  have "outcome err (models_post err cfg I r)
      (rbind (check_selection cfg I r) (\<lambda>reached.
          if reached then Inr (Some (chosen_solution r), b, s1)
          else relax_and_optimize ops cfg I iteration deadline columns r (b, s1)))"
  proof (rule outcome_bind [OF check_selection_outcome [OF I good cols]])
    fix reached assume c: "if selected_columns r = [] then \<not> reached else work_ok err I (chosen_solution r)"
    then have call: "usable err I r" by (auto simp: usable_def)
    have "reached \<Longrightarrow> assembled_selection r = Some (chosen_solution r)"
      using c by (auto simp: assembled_selection_def split: if_splits)
    then show "outcome err (models_post err cfg I r)
      (if reached then Inr (Some (chosen_solution r), b, s1)
          else relax_and_optimize ops cfg I iteration deadline columns r (b, s1))"
      using models_post_chosen [OF call s1, of b] relax_and_optimize_outcome [OF I frvcp models call s1] by auto
  qed
  then show "outcome err (\<lambda>x. \<exists>r. model_run ops I here best_sol deadline columns s r \<and> selection_good err I columns r \<and>
        models_post err cfg I r x)
      (case x of (r, s) \<Rightarrow> rbind (check_selection cfg I r) (\<lambda>reached.
          if reached then Inr (Some (chosen_solution r), b, s)
          else relax_and_optimize ops cfg I iteration deadline columns r (b, s)))"
    unfolding xe prod.case by (rule outcome_mono) (use origin good in blast)
qed

section \<open>The assembler\<close>

text \<open>
  The solver when the models may run: the feasible local routes are in the pool and the backup is
  repriced where it is due; with it, whether the models are due.
\<close>

definition assembler_ready ::
  "solver_config \<Rightarrow> nat \<Rightarrow> solution \<Rightarrow> solution option \<Rightarrow> 'e solver \<Rightarrow> ('e solver \<times> bool) result" where
  "assembler_ready cfg iteration here best_sol s0 =
     rbind (rfold (admit_local_plan iteration) s0 (plans here)) (\<lambda>s.
     let due = (periodic_sp cfg iteration \<or> adaptive_sp cfg iteration best_sol s)
     in rbind (if iteration mod backup_frequency (paper cfg) = 0 \<or> due then reprice iteration s else Inr s) (\<lambda>s.
        Inr (s, due)))"

text \<open>The two looks at the deadline before the model is called.\<close>

definition two_readings :: "'e operations \<Rightarrow> int option \<Rightarrow> 'e solver \<Rightarrow> bool \<times> 'e solver" where
  "two_readings ops deadline s =
     (case deadline_expired ops deadline s of (late, s1) \<Rightarrow>
      case deadline_expired ops deadline s1 of (later, s2) \<Rightarrow> (late \<or> later, s2))"

definition sp_phase_post ::
  "bool \<Rightarrow> 'e operations \<Rightarrow> solver_config \<Rightarrow> inst \<Rightarrow> solution \<Rightarrow> solution option \<Rightarrow> int option \<Rightarrow> 'e solver \<Rightarrow>
     solution option \<times> frvcp_budget \<times> 'e solver \<Rightarrow> bool" where
  "sp_phase_post err ops cfg I here best_sol deadline s x \<longleftrightarrow> solver_ok cfg (snd (snd x)) \<and>
     (case two_readings ops deadline s of (late, s2) \<Rightarrow>
        if late \<or> \<not> pool_covers_all_customers I (main_columns (pool s)) then fst x = None
        else \<exists>r. model_run ops I here best_sol deadline (main_columns (pool s)) s2 r \<and>
          selection_good err I (main_columns (pool s)) r \<and> models_post err cfg I r x)"

definition assemble_post ::
  "bool \<Rightarrow> 'e operations \<Rightarrow> solver_config \<Rightarrow> inst \<Rightarrow> solution \<Rightarrow> solution option \<Rightarrow> nat \<Rightarrow> int option \<Rightarrow> 'e solver \<Rightarrow>
     solution option \<times> frvcp_budget \<times> 'e solver \<Rightarrow> bool" where
  "assemble_post err ops cfg I here best_sol iteration deadline s0 x \<longleftrightarrow> solver_ok cfg (snd (snd x)) \<and>
     (\<forall>a. fst x = Some a \<longrightarrow> work_ok err I a) \<and>
     (\<exists>s due. assembler_ready cfg iteration here best_sol s0 = Inr (s, due) \<and> solver_ok cfg s \<and>
        (if due then sp_phase_post err ops cfg I here best_sol deadline s x
         else fst x = (if continuation cfg = Record_Policy then Some here else None)))"

lemma sp_phase_work: "sp_phase_post err ops cfg I here best_sol deadline s x \<Longrightarrow> fst x = Some a \<Longrightarrow> work_ok err I a"
  by (auto simp: sp_phase_post_def models_post_def split: prod.splits if_splits)

lemma expired_keeps: "deadline_expired ops deadline s = (b, s') \<Longrightarrow> pool s' = pool s \<and> solver_ok cfg s' = solver_ok cfg s"
  by (auto simp: deadline_expired_def split: option.splits prod.splits)

lemma run_sp_phase_outcome:
  fixes ops :: "'e operations"
  assumes I: "inst_ok I" and frvcp: "frvcp_contract err ops" and models: "err \<or> model_contract I ops"
    and ok: "solver_ok cfg s"
  shows "outcome err (sp_phase_post err ops cfg I here best_sol deadline s)
    (run_sp_phase ops cfg I here best_sol iteration deadline adaptive (b, s))"
proof -
  obtain x1 s1 where e1: "deadline_expired ops deadline s = (x1, s1)" by fastforce
  obtain x2 s2 where e2: "deadline_expired ops deadline s1 = (x2, s2)" by fastforce
  have ok1: "solver_ok cfg s1" "solver_ok cfg s2" "pool s1 = pool s"
    using ok expired_keeps [OF e1, of cfg] expired_keeps [OF e2, of cfg] by simp_all
  have two: "two_readings ops deadline s = (x1 \<or> x2, s2)" by (simp add: two_readings_def e1 e2)
  have cols: "\<forall>c \<in> set (main_columns (pool s)). column_good c"
    using ok main_columns_all [of column_good] by (auto simp: solver_ok_def pool_ok_def)
  have "outcome err (sp_phase_post err ops cfg I here best_sol deadline s)
      (run_models ops cfg I here best_sol iteration deadline adaptive (main_columns (pool s)) (b, s2))"
    if "\<not> (x1 \<or> x2)" "pool_covers_all_customers I (main_columns (pool s))"
    by (rule outcome_mono [OF run_models_outcome [OF I frvcp models cols ok1(2)]])
      (use that two in \<open>auto simp: sp_phase_post_def models_post_def\<close>)
  then show ?thesis using ok1 two by (auto simp: run_sp_phase_def Let_def e1 e2 sp_phase_post_def)
qed

lemma assemble_routes_outcome:
  fixes ops :: "'e operations"
  assumes I: "inst_ok I" and frvcp: "frvcp_contract err ops" and models: "err \<or> model_contract I ops"
    and w: "work_ok err I here" and ok: "solver_ok cfg s0"
  shows "outcome err (assemble_post err ops cfg I here best_sol iteration deadline s0)
    (assemble_routes ops cfg I here best_sol iteration deadline (b, s0))"
proof (cases "rfold (admit_local_plan iteration) s0 (plans here)")
  case (Inl e)
  then show ?thesis using admit_local_outcome [OF I w ok, of iteration] by (simp add: assemble_routes_def)
next
  case (Inr s)
  have s: "solver_ok cfg s" using admit_local_outcome [OF I w ok, of iteration] Inr by simp
  let ?due = "periodic_sp cfg iteration \<or> adaptive_sp cfg iteration best_sol s"
  let ?priced = "if iteration mod backup_frequency (paper cfg) = 0 \<or> ?due then reprice iteration s else Inr s"
  have priced: "outcome err (solver_ok cfg) ?priced" using s reprice_outcome [OF s] by simp
  show ?thesis
  proof (cases ?priced)
    case (Inl e)
    then show ?thesis using priced \<open>rfold (admit_local_plan iteration) s0 (plans here) = Inr s\<close>
      by (simp add: assemble_routes_def Let_def del: if_split)
  next
    case p: (Inr s1)
    have s1: "solver_ok cfg s1" using priced p by simp
    have ready: "assembler_ready cfg iteration here best_sol s0 = Inr (s1, ?due)"
      unfolding assembler_ready_def Inr rbind_Inr Let_def p ..
    have run: "assemble_routes ops cfg I here best_sol iteration deadline (b, s0) =
        (if \<not> ?due then Inr (if continuation cfg = Record_Policy then Some here else None, b, s1)
         else run_sp_phase ops cfg I here best_sol iteration deadline (adaptive_sp cfg iteration best_sol s) (b, s1))"
      unfolding assemble_routes_def prod.case Inr rbind_Inr Let_def p ..
    show ?thesis
    proof (cases ?due)
      case True
      have "outcome err (assemble_post err ops cfg I here best_sol iteration deadline s0)
          (run_sp_phase ops cfg I here best_sol iteration deadline (adaptive_sp cfg iteration best_sol s) (b, s1))"
      proof (rule outcome_mono [OF run_sp_phase_outcome [OF I frvcp models s1]])
        fix x :: "solution option \<times> frvcp_budget \<times> 'e solver"
        assume x: "sp_phase_post err ops cfg I here best_sol deadline s1 x"
        then have "solver_ok cfg (snd (snd x))" by (simp add: sp_phase_post_def)
        then show "assemble_post err ops cfg I here best_sol iteration deadline s0 x"
          using x True ready s1 sp_phase_work [OF x] unfolding assemble_post_def by auto
      qed
      then show ?thesis using True unfolding run by simp
    next
      case False
      then show ?thesis using ready s1 w unfolding run by (auto simp: assemble_post_def)
    qed
  qed
qed

end
