(* ===== verification/Solver_Properties.thy ===== *)
theory Solver_Properties
  imports Solver_Invariant
begin

text \<open>The invariant of the main loop, and what a run of the solver guarantees.\<close>

section \<open>Records\<close>

definition log_ok :: "nat \<Rightarrow> solution option \<Rightarrow> (nat \<times> real) list \<Rightarrow> bool" where
  "log_ok n b recs \<longleftrightarrow>
     sorted_wrt (\<lambda>x y. snd y < snd x - kCostTolerance \<and> fst x \<le> fst y) recs \<and>
     (\<forall>x \<in> set recs. 1 \<le> fst x \<and> fst x \<le> n) \<and>
     (case b of None \<Rightarrow> recs = [] | Some s \<Rightarrow> recs \<noteq> [] \<and> sol_raw_cost_h s = Inr (snd (last recs)))"

definition run_inv :: "bool \<Rightarrow> solver_config \<Rightarrow> inst \<Rightarrow> nat \<Rightarrow> 'e run \<Rightarrow> bool" where
  "run_inv err cfg I n r \<longleftrightarrow> solver_ok cfg (solver r) \<and> work_ok err I (current r) \<and>
     (\<forall>b. best r = Some b \<longrightarrow> work_ok err I b \<and> sol_feasible b) \<and>
     (\<forall>a. return_anchor r = Some a \<longrightarrow> work_ok err I a) \<and>
     log_ok n (best r) (record_log r) \<and> iterations r \<le> n"

text \<open>Where errors are excluded, a protected best partition must fit the pool.\<close>

definition protection_fits :: "solver_config \<Rightarrow> inst \<Rightarrow> bool" where
  "protection_fits cfg I \<longleftrightarrow>
     (protect_best_partition cfg \<longrightarrow> length (customer_ids I) \<le> paper_pool_capacity (paper cfg))"

lemma plans_le_customers:
  assumes "inst_ok I" and "work_ok err I s"
  shows "length (plans s) \<le> length (customer_ids I)"
proof -
  let ?cs = "concat (map plan_customers (plans s))"
  have v: "distinct ?cs" "set ?cs = set (customer_ids I)"
    using assms(2) by (auto simp: work_ok_def validate_partition_Inr [OF assms(1)] customer_sequences_def)
  have "length ps \<le> length (concat (map plan_customers ps))" if "\<forall>p \<in> set ps. plan_customers p \<noteq> []" for ps
    using that
  proof (induction ps)
    case (Cons p ps)
    then show ?case by (cases "plan_customers p") auto
  qed simp
  then have "length (plans s) \<le> length ?cs" using work_plan(3) [OF assms] by blast
  also have "length ?cs = length (customer_ids I)"
    using v customer_ids_distinct [OF assms(1)] by (metis distinct_card)
  finally show ?thesis .
qed

lemma protectable_work:
  assumes I: "inst_ok I" and w: "work_ok err I s" and feas: "sol_feasible s"
    and ok: "pool_ok cfg p" and fits: "length (customer_ids I) \<le> paper_pool_capacity (paper cfg)"
  shows "protectable p s"
proof -
  have v: "distinct (concat (map plan_customers (plans s)))"
    using w by (auto simp: work_ok_def validate_partition_Inr [OF I] customer_sequences_def)
  have "length (plans s) \<le> pool_capacity p"
    using plans_le_customers [OF I w] ok fits by (simp add: pool_ok_def pool_conf_def)
  moreover have "column_plan pl" if "pl \<in> set (plans s)" for pl
    using that feas work_plan(3,4) [OF I w that]
    by (auto simp: column_plan_def sol_feasible_def list_all_iff split: option.splits)
  moreover have "distinct (map (protected_key p) (plans s))"
  proof -
    have key: "set (protected_key p pl) = set (plan_customers pl)" for pl
      using sorted_customer_set_correct [of "plan_customers pl"]
      by (simp add: protected_key_def split: pool_identity.split)
    have "distinct (map (protected_key p) ps)"
      if "distinct (concat (map plan_customers ps))" "\<forall>pl \<in> set ps. plan_customers pl \<noteq> []" for ps
      using that
    proof (induction ps)
      case (Cons pl ps)
      have "protected_key p pl \<noteq> protected_key p q" if q: "q \<in> set ps" for q
      proof
        assume "protected_key p pl = protected_key p q"
        then have "set (plan_customers pl) = set (plan_customers q)" by (metis key)
        moreover have "set (plan_customers pl) \<inter> set (plan_customers q) = {}" using Cons.prems(1) q by auto
        ultimately show False using Cons.prems(2) by auto
      qed
      then show ?case using Cons by auto
    qed simp
    then show ?thesis using v work_plan(3) [OF I w] by blast
  qed
  ultimately show ?thesis by (simp add: protectable_def)
qed

definition record_rule :: "solution option \<Rightarrow> solution \<Rightarrow> bool \<times> solution option \<Rightarrow> bool" where
  "record_rule best_sol candidate x \<longleftrightarrow>
     (if fst x
      then sol_feasible candidate \<and> snd x = Some candidate \<and>
        (\<forall>b c old. best_sol = Some b \<longrightarrow> sol_raw_cost_h candidate = Inr c \<longrightarrow> sol_raw_cost_h b = Inr old \<longrightarrow>
           c < old - kCostTolerance)
      else snd x = best_sol)"

lemma update_best_outcome:
  assumes "\<forall>b. best_sol = Some b \<longrightarrow> sol_feasible b"
  shows "outcome err (record_rule best_sol candidate) (update_best candidate best_sol)"
proof (cases "sol_feasible candidate")
  case True
  show ?thesis
  proof (cases best_sol)
    case None
    then show ?thesis using True by (simp add: update_best_def record_rule_def)
  next
    case (Some b)
    have e: "err \<or> evaluated candidate" "err \<or> evaluated b"
      using assms Some feasible_evaluated True by auto
    have "outcome err (record_rule best_sol candidate)
      (rbind (sol_raw_cost_h candidate) (\<lambda>c. rbind (sol_raw_cost_h b) (\<lambda>old.
              if c < old - kCostTolerance then Inr (True, Some candidate) else Inr (False, Some b))))"
      by (rule outcome_bind [OF raw_cost_outcome [OF e(1)]], rule outcome_bind [OF raw_cost_outcome [OF e(2)]])
        (use True Some in \<open>auto simp: record_rule_def\<close>)
    then show ?thesis using True Some by (simp add: update_best_def)
  qed
qed (simp add: update_best_def record_rule_def)

lemma log_ok_append:
  assumes "log_ok n b recs" and "sol_raw_cost_h s = Inr c" and "1 \<le> n"
    and "\<And>b' old. b = Some b' \<Longrightarrow> sol_raw_cost_h b' = Inr old \<Longrightarrow> c < old - kCostTolerance"
  shows "log_ok n (Some s) (recs @ [(n, c)])"
proof (cases b)
  case None
  then show ?thesis using assms by (simp add: log_ok_def)
next
  case (Some b')
  then have recs: "recs \<noteq> []" "sol_raw_cost_h b' = Inr (snd (last recs))"
    "sorted_wrt (\<lambda>x y. snd y < snd x - kCostTolerance \<and> fst x \<le> fst y) recs"
    using assms(1) by (auto simp: log_ok_def)
  have last: "c < snd (last recs) - kCostTolerance" using assms(4) [OF Some recs(2)] .
  obtain xs x where xs: "recs = xs @ [x]" using recs(1) by (cases recs rule: rev_cases) auto
  have "c < snd y - kCostTolerance" if "y \<in> set recs" for y
  proof -
    have "y = x \<or> snd x < snd y - kCostTolerance" using that recs(3) xs by (auto simp: sorted_wrt_append)
    then show ?thesis using last xs tolerance_pos by auto
  qed
  then show ?thesis using assms recs by (auto simp: log_ok_def sorted_wrt_append)
qed

lemma protect_record_outcome:
  assumes I: "inst_ok I" and ok: "solver_ok cfg s" and w: "work_ok err I candidate" and feas: "sol_feasible candidate"
    and fits: "err \<or> protection_fits cfg I"
  shows "outcome err (solver_ok cfg) (protect_record cfg n candidate s)"
proof -
  have pok: "pool_ok cfg (pool s)" and inv: "pool_inv (pool s)" using ok by (auto simp: solver_ok_def pool_ok_def)
  obtain v q where res: "(if protect_best_partition cfg then protect_partition (pool s) candidate else (Inr (), pool s)) = (v, q)"
    by fastforce
  have "(case v of Inl _ \<Rightarrow> err | Inr _ \<Rightarrow> pool_ok cfg q)"
  proof (cases "protect_best_partition cfg")
    case True
    then have run: "protect_partition (pool s) candidate = (v, q)" using res by simp
    show ?thesis
    proof (cases "protectable (pool s) candidate")
      case protect: True
      then have q: "v = Inr () \<and> pool_inv q \<and> pool_conf q = pool_conf (pool s)" using protect_total [OF inv protect] run by auto
      have "pool_all column_good q"
        using protect_partition_all [of "pool s" candidate v q column_good] run pok
          column_good_plan work_plan(1) [OF I w] by (auto simp: pool_ok_def)
      then show ?thesis using q pok by (simp add: pool_ok_def)
    next
      case False
      then have err using protectable_work [OF I w feas pok] fits True by (auto simp: protection_fits_def)
      then show ?thesis using protect_partition_error [OF inv False] run by auto
    qed
  qed (use res pok in auto)
  then show ?thesis
    using solver_ok_penalty [OF ok] ok res
    by (cases v) (auto simp: protect_record_def Let_def)
qed

lemma record_candidate_outcome:
  fixes r :: "'e run"
  assumes I: "inst_ok I" and inv: "run_inv err cfg I n r" and n: "1 \<le> n" and w: "work_ok err I candidate"
    and fits: "err \<or> protection_fits cfg I"
  shows "outcome err (\<lambda>(b, r'). run_inv err cfg I n r' \<and> current r' = current r) (record_candidate cfg n candidate r)"
  unfolding record_candidate_def
proof (rule outcome_bind [OF update_best_outcome])
  show "\<forall>b. best r = Some b \<longrightarrow> sol_feasible b" using inv by (simp add: run_inv_def)
next
  fix x :: "bool \<times> solution option"
  assume x: "record_rule (best r) candidate x"
  obtain improved best' where xe: "x = (improved, best')" by (cases x)
  let ?P = "\<lambda>(b, r' :: 'e run). run_inv err cfg I n r' \<and> current r' = current r"
  have ok: "solver_ok cfg (solver r)" using inv by (simp add: run_inv_def)
  have "outcome err ?P (rbind (sol_raw_cost_h candidate) (\<lambda>objective.
         rbind (protect_record cfg n candidate (solver r)) (\<lambda>s.
         Inr (True, r\<lparr>best := best', record_log := record_log r @ [(n, objective)], solver := s\<rparr>))))" if improved
  proof (rule outcome_bind [OF raw_cost_outcome])
    have feas: "sol_feasible candidate" and b': "best' = Some candidate"
      and better: "\<And>b c old. best r = Some b \<Longrightarrow> sol_raw_cost_h candidate = Inr c \<Longrightarrow> sol_raw_cost_h b = Inr old \<Longrightarrow>
           c < old - kCostTolerance"
      using x xe that by (auto simp: record_rule_def)
    show "err \<or> evaluated candidate" using feasible_evaluated [OF feas] by simp
    fix objective assume cost: "sol_raw_cost_h candidate = Inr objective"
    have recs: "log_ok n best' (record_log r @ [(n, objective)])"
      unfolding b' using inv better [OF _ cost] by (intro log_ok_append [OF _ cost n, of "best r"]) (auto simp: run_inv_def)
    show "outcome err ?P (rbind (protect_record cfg n candidate (solver r)) (\<lambda>s.
         Inr (True, r\<lparr>best := best', record_log := record_log r @ [(n, objective)], solver := s\<rparr>)))"
      by (rule outcome_bind [OF protect_record_outcome [OF I ok w feas fits]])
        (use inv recs w feas b' in \<open>simp add: run_inv_def\<close>)
  qed
  then show "outcome err ?P (case x of (improved, best') \<Rightarrow>
       if \<not> improved then Inr (False, r)
       else rbind (sol_raw_cost_h candidate) (\<lambda>objective.
         rbind (protect_record cfg n candidate (solver r)) (\<lambda>s.
         Inr (True, r\<lparr>best := best', record_log := record_log r @ [(n, objective)], solver := s\<rparr>))))"
    using inv xe by simp
qed

section \<open>The steps of an iteration\<close>

lemma log_ok_mono: "log_ok m b recs \<Longrightarrow> m \<le> n \<Longrightarrow> log_ok n b recs"
  by (fastforce simp: log_ok_def)

lemma run_inv_mono: "run_inv err cfg I m r \<Longrightarrow> m \<le> n \<Longrightarrow> run_inv err cfg I n r"
  using log_ok_mono [of m "best r" "record_log r" n] by (simp add: run_inv_def)

lemma run_inv_updates:
  assumes "run_inv err cfg I n r"
  shows "solver_ok cfg s \<Longrightarrow> run_inv err cfg I n (r\<lparr>solver := s\<rparr>)"
    and "work_ok err I c \<Longrightarrow> run_inv err cfg I n (r\<lparr>current := c\<rparr>)"
    and "run_inv err cfg I n (r\<lparr>iterations := n\<rparr>)"
    and "run_inv err cfg I n (r\<lparr>budget := b\<rparr>)"
    and "run_inv err cfg I n (r\<lparr>return_anchor := None\<rparr>)"
    and "work_ok err I c \<Longrightarrow> run_inv err cfg I n (r\<lparr>return_anchor := Some c\<rparr>)"
    and "run_inv err cfg I n (r\<lparr>return_anchor_lambda := l\<rparr>)"
    and "run_inv err cfg I n (r\<lparr>cumulative_p_steps := k\<rparr>)"
    and "run_inv err cfg I n (r\<lparr>different_l_resets := k\<rparr>)"
    and "run_inv err cfg I n (r\<lparr>lambda_resets := k\<rparr>)"
    and "run_inv err cfg I n (r\<lparr>record_resets := k\<rparr>)"
    and "run_inv err cfg I n (r\<lparr>p_carry_decisions := k\<rparr>)"
    and "run_inv err cfg I n (r\<lparr>max_cumulative_p_steps := k\<rparr>)"
  using assms by (simp_all add: run_inv_def)

lemmas run_steps = run_inv_updates

lemma with_expired_inv: "with_expired ops deadline r = (x, r') \<Longrightarrow> run_inv err cfg I n r \<Longrightarrow> run_inv err cfg I n r'"
  by (auto simp: with_expired_def run_inv_def dest: expired_ok split: prod.splits)

lemma reset_anchor_inv: "run_inv err cfg I n r \<Longrightarrow> run_inv err cfg I n (reset_anchor r)"
  by (simp add: reset_anchor_def run_steps)

lemma anchor_step_inv:
  assumes "run_inv err cfg I n r" and "work_ok err I here" and "work_ok err I perturbed"
  shows "run_inv err cfg I n (snd (anchor_step ops deadline l perturbed here r))"
proof -
  obtain x r1 where e: "with_expired ops deadline r = (x, r1)" by fastforce
  have r1: "run_inv err cfg I n r1" using with_expired_inv [OF e assms(1)] .
  show ?thesis
    using assms(2,3) r1 e by (auto simp: anchor_step_def intro!: reset_anchor_inv run_steps split: option.splits)
qed

lemma penalty_step_inv:
  assumes par: "params_ok (paper cfg)" and inv: "run_inv err cfg I n (snd x)" and w: "work_ok err I here"
  shows "run_inv err cfg I n (snd (penalty_step cfg l here x))"
proof -
  obtain pending r where x: "x = (pending, r)" by (cases x)
  let ?s = "(solver r)\<lparr>penalty := observe_penalty (paper cfg) (sol_feasible here) (penalty (solver r))\<rparr>"
  have "solver_ok cfg ?s"
    using inv x observe_penalty_ok [OF par] by (simp add: run_inv_def solver_ok_def)
  then have "run_inv err cfg I n (r\<lparr>solver := ?s\<rparr>)" using inv x by (simp add: run_steps)
  then show ?thesis
    using w x by (auto simp: penalty_step_def Let_def intro!: reset_anchor_inv run_steps)
qed

lemma carry_step_inv: "run_inv err cfg I n (snd x) \<Longrightarrow> run_inv err cfg I n (carry_step x)"
  by (cases x) (simp add: carry_step_def run_steps)

lemma accept_assembled_outcome:
  fixes r :: "'e run"
  assumes I: "inst_ok I" and inv: "run_inv err cfg I n r" and n: "1 \<le> n" and w: "work_ok err I here"
    and a: "\<And>s. a = Some s \<Longrightarrow> work_ok err I s" and fits: "err \<or> protection_fits cfg I"
  shows "outcome err (\<lambda>z. run_inv err cfg I n (snd z)) (accept_assembled cfg n here a (pending, r))"
proof (cases a)
  case None
  then show ?thesis using inv w by (simp add: accept_assembled_def run_steps)
next
  case (Some s)
  have ws: "work_ok err I s" using a Some by simp
  show ?thesis
  proof (cases "continuation cfg = Record_Policy")
    case True
    have "outcome err (\<lambda>z. run_inv err cfg I n (snd z)) (rbind (record_candidate cfg n s r) (\<lambda>(recorded, r).
             if \<not> recorded then Inr (pending, r)
             else let r = r\<lparr>current := s\<rparr>
                  in if fixed_anchor_mode cfg
                     then Inr (False, reset_anchor (r\<lparr>record_resets := record_resets r + of_flag (return_anchor r \<noteq> None)\<rparr>))
                     else Inr (pending, r)))"
      by (rule outcome_bind [OF record_candidate_outcome [OF I inv n ws fits]])
        (use ws in \<open>auto simp: Let_def intro!: reset_anchor_inv run_steps\<close>)
    then show ?thesis using True Some by (simp add: accept_assembled_def)
  next
    case False
    have "run_inv err cfg I n (r\<lparr>current := s\<rparr>)" using inv ws by (simp add: run_steps)
    from record_candidate_outcome [OF I this n ws fits]
    have "outcome err (\<lambda>z. run_inv err cfg I n (snd z))
        (rbind (record_candidate cfg n s (r\<lparr>current := s\<rparr>)) (\<lambda>(_, r). Inr (pending, r)))"
      by (rule outcome_bind) auto
    then show ?thesis using False Some by (simp add: accept_assembled_def)
  qed
qed

lemma best_reached_outcome: "outcome err (\<lambda>_. True) (best_reached cfg r)"
  using target_outcome by (simp add: best_reached_def split: option.split)

lemma assemble_step_outcome:
  fixes ops :: "'e operations"
  assumes I: "inst_ok I" and inv: "run_inv err cfg I n (snd x)" and n: "1 \<le> n" and w: "work_ok err I here"
    and frvcp: "frvcp_contract err ops" and models: "err \<or> model_contract I ops" and fits: "err \<or> protection_fits cfg I"
  shows "outcome err (\<lambda>z. run_inv err cfg I n (snd z)) (assemble_step ops cfg I deadline n here x)"
proof -
  obtain pending r where x: "x = (pending, r)" by (cases x)
  obtain expired r1 where ex: "with_expired ops deadline r = (expired, r1)" by fastforce
  have r1: "run_inv err cfg I n r1" using with_expired_inv [OF ex] inv x by simp
  have ok: "solver_ok cfg (solver r1)" using r1 by (simp add: run_inv_def)
  have phase: "outcome err (\<lambda>z. run_inv err cfg I n (snd z))
     (rbind (assemble_routes ops cfg I here (best r1) n deadline (budget r1, solver r1)) (\<lambda>(a, b, s).
            rbind (accept_assembled cfg n here a (pending, r1\<lparr>budget := b, solver := s\<rparr>)) (\<lambda>(pending, r).
            Inr (pending, r\<lparr>iterations := n\<rparr>))))"
  proof (rule outcome_bind [OF assemble_routes_outcome [OF I frvcp models w ok]])
    fix y :: "solution option \<times> frvcp_budget \<times> 'e solver"
    assume y: "assemble_post err ops cfg I here (best r1) n deadline (solver r1) y"
    obtain a b s where ye: "y = (a, b, s)" by (cases y)
    have "run_inv err cfg I n (r1\<lparr>budget := b, solver := s\<rparr>)"
      using y ye by (intro run_steps r1) (simp add: assemble_post_def)
    moreover have "\<And>s. a = Some s \<Longrightarrow> work_ok err I s" using y ye by (simp add: assemble_post_def)
    ultimately have "outcome err (\<lambda>z. run_inv err cfg I n (snd z))
        (accept_assembled cfg n here a (pending, r1\<lparr>budget := b, solver := s\<rparr>))"
      by (intro accept_assembled_outcome [OF I _ n w _ fits])
    then show "outcome err (\<lambda>z. run_inv err cfg I n (snd z)) (case y of (a, b, s) \<Rightarrow>
            rbind (accept_assembled cfg n here a (pending, r1\<lparr>budget := b, solver := s\<rparr>)) (\<lambda>(pending, r).
            Inr (pending, r\<lparr>iterations := n\<rparr>)))"
      unfolding ye prod.case by (rule outcome_bind) (auto simp: run_steps)
  qed
  show ?thesis
    unfolding assemble_step_def x prod.case
    by (rule outcome_bind [OF best_reached_outcome]) (use phase r1 w ex in \<open>auto simp: Let_def run_steps\<close>)
qed

definition contracts :: "bool \<Rightarrow> solver_config \<Rightarrow> inst \<Rightarrow> 'e operations \<Rightarrow> bool" where
  "contracts err cfg I ops \<longleftrightarrow> generator_contract err I ops \<and> frvcp_contract err ops \<and>
     (err \<or> model_contract I ops) \<and> (err \<or> protection_fits cfg I)"

lemma generate_outcome:
  fixes r :: "'e run"
  assumes gen: "generator_contract err I ops" and inv: "run_inv err cfg I n r"
  shows "outcome err (\<lambda>(p, h, r'). run_inv err cfg I n r' \<and> work_ok err I p \<and> work_ok err I h)
    (generate ops cfg deadline r)"
  unfolding generate_def Let_def
proof (rule outcome_bind)
  show "outcome err (\<lambda>(s', e'). work_ok err I s')
      (op_perturb ops (env (solver r)) (current r) (penalty_lambda (penalty (solver r))))"
    using gen inv by (simp add: generator_contract_def run_inv_def)
next
  fix x :: "solution \<times> 'e" assume x: "case x of (s', e') \<Rightarrow> work_ok err I s'"
  obtain p e where xe: "x = (p, e)" by (cases x)
  have p: "work_ok err I p" using x xe by simp
  have ok: "solver_ok cfg (solver r)" using inv by (simp add: run_inv_def)
  let ?r = "if continuation cfg = Record_Policy \<and> \<not> cooperative_mode cfg
    then r\<lparr>solver := (solver r)\<lparr>env := e\<rparr>, current := p\<rparr> else r\<lparr>solver := (solver r)\<lparr>env := e\<rparr>\<rparr>"
  have r1: "run_inv err cfg I n ?r" using inv ok p by (simp add: run_steps)
  then have ok1: "solver_ok cfg (solver ?r)" by (simp only: run_inv_def)
  have "outcome err (\<lambda>(p, h, r'). run_inv err cfg I n r' \<and> work_ok err I p \<and> work_ok err I h)
      (rbind (op_improve ops e p (penalty_lambda (penalty (solver r))) deadline (cooperative_mode cfg)) (\<lambda>(here, e).
            Inr (p, here, ?r\<lparr>solver := (solver ?r)\<lparr>env := e\<rparr>\<rparr>)))"
  proof (rule outcome_bind)
    show "outcome err (\<lambda>(s', e'). work_ok err I s')
        (op_improve ops e p (penalty_lambda (penalty (solver r))) deadline (cooperative_mode cfg))"
      using gen p by (simp add: generator_contract_def)
  next
    fix y :: "solution \<times> 'e" assume y: "case y of (s', e') \<Rightarrow> work_ok err I s'"
    obtain h e' where ye: "y = (h, e')" by (cases y)
    have "run_inv err cfg I n (?r\<lparr>solver := (solver ?r)\<lparr>env := e'\<rparr>\<rparr>)"
      by (rule run_steps(1) [OF r1]) (use ok1 in \<open>simp only: solver_ok_updates\<close>)
    then show "outcome err (\<lambda>(p, h, r'). run_inv err cfg I n r' \<and> work_ok err I p \<and> work_ok err I h)
        (case y of (here, e) \<Rightarrow> Inr (p, here, ?r\<lparr>solver := (solver ?r)\<lparr>env := e\<rparr>\<rparr>))"
      using p y by (simp only: ye prod.case outcome_simps)
  qed
  then show "outcome err (\<lambda>(p, h, r'). run_inv err cfg I n r' \<and> work_ok err I p \<and> work_ok err I h)
     (case x of (perturbed, e) \<Rightarrow>
         rbind (op_improve ops e perturbed (penalty_lambda (penalty (solver r))) deadline (cooperative_mode cfg)) (\<lambda>(here, ea).
            Inr (perturbed, here, (if continuation cfg = Record_Policy \<and> \<not> cooperative_mode cfg
               then r\<lparr>solver := (solver r)\<lparr>env := e\<rparr>\<rparr>\<lparr>current := perturbed\<rparr> else r\<lparr>solver := (solver r)\<lparr>env := e\<rparr>\<rparr>)
              \<lparr>solver := (solver (if continuation cfg = Record_Policy \<and> \<not> cooperative_mode cfg
               then r\<lparr>solver := (solver r)\<lparr>env := e\<rparr>\<rparr>\<lparr>current := perturbed\<rparr> else r\<lparr>solver := (solver r)\<lparr>env := e\<rparr>\<rparr>))\<lparr>env := ea\<rparr>\<rparr>)))"
    by (simp only: xe prod.case)
qed

lemma continue_from_inv:
  assumes "params_ok (paper cfg)" and "run_inv err cfg I n r" and "work_ok err I here" and "work_ok err I perturbed"
  shows "run_inv err cfg I n (snd (continue_from ops cfg deadline l perturbed here r))"
  unfolding continue_from_def
  by (rule penalty_step_inv [OF assms(1) _ assms(3)]) (use assms anchor_step_inv [OF assms(2-4)] in \<open>auto simp: run_steps\<close>)

definition stop_sound :: "solver_config \<Rightarrow> stop_reason \<Rightarrow> 'e run \<Rightarrow> bool" where
  "stop_sound cfg reason r \<longleftrightarrow> (reason = Rounded_Target \<longrightarrow> best_reached cfg r = Inr True)"

lemma iterate_outcome:
  fixes r0 :: "'e run"
  assumes I: "inst_ok I" and par: "params_ok (paper cfg)" and c: "contracts err cfg I ops"
    and inv: "run_inv err cfg I n r0" and n: "1 \<le> n"
  shows "outcome err (\<lambda>(stop, r). run_inv err cfg I n r \<and> stop \<noteq> Some Max_Iterations \<and>
      (\<forall>reason. stop = Some reason \<longrightarrow> stop_sound cfg reason r) \<and> (stop = Some Time_Limit \<longrightarrow> deadline \<noteq> None))
    (iterate ops cfg I deadline n r0)"
proof -
  have gen: "generator_contract err I ops" and frvcp: "frvcp_contract err ops" and models: "err \<or> model_contract I ops"
    and fits: "err \<or> protection_fits cfg I"
    using c by (auto simp: contracts_def)
  let ?P = "\<lambda>(stop, r :: 'e run). run_inv err cfg I n r \<and> stop \<noteq> Some Max_Iterations \<and>
      (\<forall>reason. stop = Some reason \<longrightarrow> stop_sound cfg reason r) \<and> (stop = Some Time_Limit \<longrightarrow> deadline \<noteq> None)"
  show ?thesis
    unfolding iterate_def
  proof (rule outcome_bind [OF generate_outcome [OF gen inv]])
    fix x :: "solution \<times> solution \<times> 'e run"
    assume x: "case x of (p, h, r') \<Rightarrow> run_inv err cfg I n r' \<and> work_ok err I p \<and> work_ok err I h"
    obtain p h r where xe: "x = (p, h, r)" by (cases x)
    let ?y = "continue_from ops cfg deadline (penalty_lambda (penalty (solver r0))) p h r"
    have h: "work_ok err I h" using x xe by simp
    have y: "run_inv err cfg I n (snd ?y)" using x xe by (intro continue_from_inv [OF par]) auto
    have "outcome err (\<lambda>y. run_inv err cfg I n (snd y)) (if continuation cfg = Record_Policy then Inr ?y
               else rbind (record_candidate cfg n h (snd ?y)) (\<lambda>(_, r). Inr (fst ?y, r)))"
    proof (cases "continuation cfg = Record_Policy")
      case False
      have "outcome err (\<lambda>y. run_inv err cfg I n (snd y))
          (rbind (record_candidate cfg n h (snd ?y)) (\<lambda>(_, r). Inr (fst ?y, r)))"
        by (rule outcome_bind [OF record_candidate_outcome [OF I y n h fits]]) auto
      then show ?thesis using False by simp
    qed (use y in simp)
    then have "outcome err ?P (rbind (if continuation cfg = Record_Policy then Inr ?y
               else rbind (record_candidate cfg n h (snd ?y)) (\<lambda>(_, r). Inr (fst ?y, r))) (\<lambda>y.
        rbind (assemble_step ops cfg I deadline n h y) (\<lambda>z.
        case with_expired ops deadline (carry_step z) of (deadline_reached, r) \<Rightarrow>
        rbind (best_reached cfg r) (\<lambda>target_reached.
        Inr (if target_reached then Some Rounded_Target
             else if deadline_reached then Some Time_Limit else None, r)))))"
    proof (rule outcome_bind)
      fix y :: "bool \<times> 'e run" assume y: "run_inv err cfg I n (snd y)"
      show "outcome err ?P (rbind (assemble_step ops cfg I deadline n h y) (\<lambda>z.
        case with_expired ops deadline (carry_step z) of (deadline_reached, r) \<Rightarrow>
        rbind (best_reached cfg r) (\<lambda>target_reached.
        Inr (if target_reached then Some Rounded_Target
             else if deadline_reached then Some Time_Limit else None, r))))"
      proof (rule outcome_bind [OF assemble_step_outcome [OF I y n h frvcp models fits]])
        fix z :: "bool \<times> 'e run" assume z: "run_inv err cfg I n (snd z)"
        obtain b r2 where ex: "with_expired ops deadline (carry_step z) = (b, r2)" by fastforce
        have r2: "run_inv err cfg I n r2" using with_expired_inv [OF ex carry_step_inv [OF z]] .
        have b: "b \<longrightarrow> deadline \<noteq> None" using ex by (auto simp: with_expired_def deadline_expired_def split: option.splits)
        have "outcome err (\<lambda>t. best_reached cfg r2 = Inr t) (best_reached cfg r2)"
          using best_reached_outcome [of err cfg r2] by (cases "best_reached cfg r2") auto
        then show "outcome err ?P (case with_expired ops deadline (carry_step z) of (deadline_reached, r) \<Rightarrow>
          rbind (best_reached cfg r) (\<lambda>target_reached.
          Inr (if target_reached then Some Rounded_Target
               else if deadline_reached then Some Time_Limit else None, r)))"
          unfolding ex prod.case by (rule outcome_bind) (use r2 b in \<open>auto simp: stop_sound_def\<close>)
      qed
    qed
    then show "outcome err ?P (case x of (perturbed, here, r) \<Rightarrow>
      let y = continue_from ops cfg deadline (penalty_lambda (penalty (solver r0))) perturbed here r
      in rbind (if continuation cfg = Record_Policy then Inr y
               else rbind (record_candidate cfg n here (snd y)) (\<lambda>(_, r). Inr (fst y, r))) (\<lambda>y.
        rbind (assemble_step ops cfg I deadline n here y) (\<lambda>z.
        case with_expired ops deadline (carry_step z) of (deadline_reached, r) \<Rightarrow>
        rbind (best_reached cfg r) (\<lambda>target_reached.
        Inr (if target_reached then Some Rounded_Target
             else if deadline_reached then Some Time_Limit else None, r)))))"
      by (simp only: xe prod.case Let_def)
  qed
qed

section \<open>The loop\<close>

lemma solve_loop_outcome:
  fixes r :: "'e run"
  assumes I: "inst_ok I" and par: "params_ok (paper cfg)" and c: "contracts err cfg I ops"
  shows "run_inv err cfg I (i - 1) r \<Longrightarrow> 1 \<le> i \<Longrightarrow>
    outcome err (\<lambda>(reason, r'). run_inv err cfg I (i + k - 1) r' \<and> stop_sound cfg reason r' \<and>
        (reason = Time_Limit \<longrightarrow> deadline \<noteq> None))
      (solve_loop ops cfg I deadline i k r)"
proof (induction k arbitrary: i r)
  case 0
  then show ?case by (simp add: stop_sound_def)
next
  case (Suc k)
  let ?P = "\<lambda>(reason, r' :: 'e run). run_inv err cfg I (i + Suc k - 1) r' \<and> stop_sound cfg reason r' \<and>
        (reason = Time_Limit \<longrightarrow> deadline \<noteq> None)"
  obtain x r1 where ex: "with_expired ops deadline r = (x, r1)" by fastforce
  have r1: "run_inv err cfg I (i - 1) r1" using with_expired_inv [OF ex Suc.prems(1)] .
  have xd: "x \<longrightarrow> deadline \<noteq> None" using ex by (auto simp: with_expired_def deadline_expired_def split: option.splits)
  have now: "run_inv err cfg I i r1" using run_inv_mono [OF r1, of i] by simp
  have "outcome err ?P (rbind (iterate ops cfg I deadline i r1) (\<lambda>(stop, r).
         case stop of Some reason \<Rightarrow> Inr (reason, r)
         | None \<Rightarrow> solve_loop ops cfg I deadline (i + 1) k r))"
  proof (rule outcome_bind [OF iterate_outcome [OF I par c now Suc.prems(2)]])
    fix y :: "stop_reason option \<times> 'e run"
    assume y: "case y of (stop, r) \<Rightarrow> run_inv err cfg I i r \<and> stop \<noteq> Some Max_Iterations \<and>
      (\<forall>reason. stop = Some reason \<longrightarrow> stop_sound cfg reason r) \<and> (stop = Some Time_Limit \<longrightarrow> deadline \<noteq> None)"
    obtain stop r2 where ye: "y = (stop, r2)" by (cases y)
    show "outcome err ?P (case y of (stop, r) \<Rightarrow>
         case stop of Some reason \<Rightarrow> Inr (reason, r)
         | None \<Rightarrow> solve_loop ops cfg I deadline (i + 1) k r)"
    proof (cases stop)
      case None
      then show ?thesis using Suc.IH [of "i + 1" r2] y ye by simp
    next
      case (Some reason)
      then show ?thesis using y ye run_inv_mono [of err cfg I i r2 "i + k"] by simp
    qed
  qed
  then show ?case using ex r1 xd run_inv_mono [OF r1, of "i + k"] by (auto simp: stop_sound_def)
qed


section \<open>The run\<close>

text \<open>The clock leaves room for the time limit.\<close>

definition deadline_fits :: "solver_config \<Rightarrow> int \<Rightarrow> bool" where
  "deadline_fits cfg started \<longleftrightarrow>
     (case global_time_limit_s cfg of None \<Rightarrow> True
      | Some l \<Rightarrow> \<exists>d. checked_deadline_after started l = Inr d)"

definition initial_solution :: "'e operations \<Rightarrow> 'e solver \<Rightarrow> (solution \<times> 'e) result" where
  "initial_solution ops s0 = op_build ops (snd (op_now ops (env s0))) (penalty_lambda (penalty s0))"

definition output_ok :: "bool \<Rightarrow> solver_config \<Rightarrow> inst \<Rightarrow> solution option \<Rightarrow> solver_result \<times> 'e run \<Rightarrow> bool" where
  "output_ok err cfg I start x \<longleftrightarrow>
     (let res = fst x; r = snd x
      in run_inv err cfg I (max_iterations (paper cfg)) r \<and> stop_sound cfg (result_stop_reason res) r \<and>
         (result_stop_reason res = Time_Limit \<longrightarrow> global_time_limit_s cfg \<noteq> None) \<and>
         best_solution res = best r \<and> final_solution res = current r \<and>
         result_iterations res = iterations r \<and>
         final_penalty_lambda res = penalty_lambda (penalty (solver r)) \<and>
         (case start of None \<Rightarrow> initialization_fallback res = None
          | Some f \<Rightarrow> initialization_fallback res = Some f \<or>
              initialization_fallback res = None \<and>
              (\<exists>b fc bc. best_solution res = Some b \<and> sol_raw_cost_h f = Inr fc \<and>
                 sol_raw_cost_h b = Inr bc \<and> bc \<le> fc + kCostTolerance)))"

lemma finish_run_outcome:
  fixes r :: "'e run"
  assumes inv: "run_inv err cfg I (max_iterations (paper cfg)) r" and stop: "stop_sound cfg reason r"
    and lim: "reason = Time_Limit \<longrightarrow> global_time_limit_s cfg \<noteq> None"
    and f: "\<And>f. start = Some f \<Longrightarrow> sol_feasible f"
  shows "outcome err (\<lambda>res. output_ok err cfg I start (res, r)) (finish_run I start (reason, r))"
proof (cases "\<exists>b f. best r = Some b \<and> start = Some f")
  case True
  then obtain b s where b: "best r = Some b" and s: "start = Some s" by blast
  have e: "err \<or> evaluated s" "err \<or> evaluated b"
    using inv b f [OF s] feasible_evaluated by (auto simp: run_inv_def)
  have "outcome err (\<lambda>x. x = Some s \<or> x = None \<and> (\<exists>fc bc. sol_raw_cost_h s = Inr fc \<and>
        sol_raw_cost_h b = Inr bc \<and> bc \<le> fc + kCostTolerance))
      (rbind (sol_raw_cost_h s) (\<lambda>fc. rbind (sol_raw_cost_h b) (\<lambda>bc.
         Inr (if fc < bc - kCostTolerance then Some s else None))))"
    by (rule outcome_bind [OF raw_cost_outcome [OF e(1)]], rule outcome_bind [OF raw_cost_outcome [OF e(2)]]) auto
  then show ?thesis
    unfolding finish_run_def prod.case Let_def b s option.case
    by (rule outcome_bind) (use inv stop lim b in \<open>auto simp: output_ok_def\<close>)
next
  case False
  then show ?thesis
    using inv stop lim by (auto simp: finish_run_def output_ok_def Let_def split: option.splits)
qed

lemma initial_run_inv:
  assumes "solver_ok cfg s" and "work_ok err I initial"
  shows "run_inv err cfg I 0 (initial_run s b initial)"
  using assms by (simp add: run_inv_def initial_run_def log_ok_def)

lemma solve_outcome:
  fixes s0 :: "'e solver"
  assumes I: "inst_ok I" and make: "make_solver e now cfg = Inr s0" and c: "contracts err cfg I ops"
    and fits: "err \<or> opt_positive (frvcp_wall_budget_s cfg) \<and> deadline_fits cfg (fst (op_now ops (env s0)))"
  shows "outcome err (\<lambda>x. \<exists>initial e'. initial_solution ops s0 = Inr (initial, e') \<and>
       work_ok err I initial \<and>
       output_ok err cfg I (if sol_feasible initial then Some initial else None) x)
     (solve ops cfg I s0)"
proof -
  obtain started e1 where now: "op_now ops (env s0) = (started, e1)" by fastforce
  let ?s = "s0\<lparr>env := e1\<rparr>"
  have ok: "params_ok (paper cfg)" "solver_ok cfg ?s" using make_solver_ok [OF make] by auto
  have build: "outcome err (\<lambda>(s, e'). work_ok err I s) (op_build ops e1 (penalty_lambda (penalty s0)))"
    using c by (simp add: contracts_def generator_contract_def)
  have bud: "outcome err (\<lambda>_. True) (make_budget (frvcp_wall_budget_s cfg))"
    using fits by (auto simp: make_budget_def outcome_def)
  have dead: "outcome err (\<lambda>d. d \<noteq> None \<longrightarrow> global_time_limit_s cfg \<noteq> None)
      (case global_time_limit_s cfg of None \<Rightarrow> Inr None
       | Some l \<Rightarrow> rbind (checked_deadline_after started l) (\<lambda>d. Inr (Some d)))"
    using fits now by (auto simp: deadline_fits_def outcome_def rbind_eq_Inr_conv split: option.splits sum.splits)
  show ?thesis
    unfolding solve_def now prod.case Let_def
  proof (rule outcome_bind [OF bud], rule outcome_bind [OF dead])
    fix b d assume d: "d \<noteq> (None :: int option) \<longrightarrow> global_time_limit_s cfg \<noteq> None"
    let ?k = "max_iterations (paper cfg)"
    have "outcome err (\<lambda>x. \<exists>initial e'. op_build ops e1 (penalty_lambda (penalty s0)) = Inr (initial, e') \<and>
         work_ok err I initial \<and> output_ok err cfg I (if sol_feasible initial then Some initial else None) x)
       (rbind (solve_loop ops cfg I d 1 ?k (initial_run (?s\<lparr>env := e2\<rparr>) b initial)) (\<lambda>x.
             rbind (finish_run I (if sol_feasible initial then Some initial else None) x) (\<lambda>res. Inr (res, snd x))))"
      if build: "op_build ops e1 (penalty_lambda (penalty s0)) = Inr (initial, e2)" and w: "work_ok err I initial"
      for initial e2
    proof (rule outcome_bind [OF solve_loop_outcome [OF I ok(1) c]])
      show "run_inv err cfg I (1 - 1) (initial_run (?s\<lparr>env := e2\<rparr>) b initial)"
        unfolding diff_self_eq_0 by (rule initial_run_inv [OF _ w]) (use ok(2) in simp)
    next
      fix x :: "stop_reason \<times> 'e run"
      assume x: "case x of (reason, r') \<Rightarrow> run_inv err cfg I (1 + ?k - 1) r' \<and> stop_sound cfg reason r' \<and>
        (reason = Time_Limit \<longrightarrow> d \<noteq> None)"
      obtain reason r where xe: "x = (reason, r)" by (cases x)
      show "outcome err (\<lambda>x. \<exists>initial e'. op_build ops e1 (penalty_lambda (penalty s0)) = Inr (initial, e') \<and>
           work_ok err I initial \<and> output_ok err cfg I (if sol_feasible initial then Some initial else None) x)
         (rbind (finish_run I (if sol_feasible initial then Some initial else None) x) (\<lambda>res. Inr (res, snd x)))"
        unfolding xe
        by (rule outcome_bind [OF finish_run_outcome [where err = err and cfg = cfg]])
          (use x xe d build w in \<open>auto split: if_splits\<close>)
    qed simp
    note step = this
    show "outcome err (\<lambda>x. \<exists>initial e'. initial_solution ops s0 = Inr (initial, e') \<and> work_ok err I initial \<and>
         output_ok err cfg I (if sol_feasible initial then Some initial else None) x)
       (rbind (op_build ops (env ?s) (penalty_lambda (penalty ?s))) (\<lambda>(initial, e).
          rbind (solve_loop ops cfg I d 1 ?k (initial_run (?s\<lparr>env := e\<rparr>) b initial)) (\<lambda>x.
             rbind (finish_run I (if sol_feasible initial then Some initial else None) x) (\<lambda>res. Inr (res, snd x)))))"
    proof (cases "op_build ops e1 (penalty_lambda (penalty s0))")
      case (Inl er)
      then show ?thesis using build by simp
    next
      case (Inr y)
      obtain initial e2 where ye: "y = (initial, e2)" by (cases y)
      show ?thesis using step [of initial e2] build Inr ye by (simp add: initial_solution_def now)
    qed
  qed
qed

end
