(* ===== verification/Solver_Stops.thy ===== *)
theory Solver_Stops
  imports Solver_Properties
begin

text \<open>
  Why a run of the solver stops: the reason it reports is the state of the record, of the clock
  and of the iteration counter when it stopped.
\<close>

section \<open>Clock readings\<close>

text \<open>
  The clock was the last operation that was called, and showed \<open>t\<close>: the environment is the one that
  reading left.  The environment is arbitrary; one that keeps the history of the calls determines
  the reading.
\<close>

definition last_reading :: "'e operations \<Rightarrow> 'e run \<Rightarrow> int \<Rightarrow> bool" where
  "last_reading ops r t \<longleftrightarrow> (\<exists>e. op_now ops e = (t, env (solver r)))"

text \<open>Of two readings in a row the second is not earlier.\<close>

definition steady_clock :: "'e operations \<Rightarrow> bool" where
  "steady_clock ops \<longleftrightarrow> (\<forall>e. fst (op_now ops e) \<le> fst (op_now ops (snd (op_now ops e))))"

text \<open>The deadline of a run: the time limit, counted from the first reading.\<close>

definition run_deadline :: "'e operations \<Rightarrow> solver_config \<Rightarrow> 'e solver \<Rightarrow> int option" where
  "run_deadline ops cfg s0 =
     (case global_time_limit_s cfg of None \<Rightarrow> None
      | Some l \<Rightarrow> (case checked_deadline_after (fst (op_now ops (env s0))) l of Inl _ \<Rightarrow> None | Inr d \<Rightarrow> Some d))"

definition in_time :: "'e operations \<Rightarrow> int option \<Rightarrow> 'e run \<Rightarrow> bool" where
  "in_time ops deadline r \<longleftrightarrow> (\<forall>d. deadline = Some d \<longrightarrow> (\<exists>t. last_reading ops r t \<and> t < d))"

definition out_of_time :: "'e operations \<Rightarrow> int option \<Rightarrow> 'e run \<Rightarrow> bool" where
  "out_of_time ops deadline r \<longleftrightarrow> (\<exists>d t. deadline = Some d \<and> last_reading ops r t \<and> d \<le> t)"

definition counts_reliably :: "'e operations \<Rightarrow> int option \<Rightarrow> bool" where
  "counts_reliably ops deadline \<longleftrightarrow> deadline = None \<or> steady_clock ops"

lemma with_expired_read:
  assumes "with_expired ops deadline r = (b, r')"
  shows "b \<Longrightarrow> out_of_time ops deadline r'" and "\<not> b \<Longrightarrow> in_time ops deadline r'"
    and "best r' = best r" and "iterations r' = iterations r"
proof -
  show "best r' = best r" "iterations r' = iterations r" using assms by (auto simp: with_expired_def split: prod.splits)
  have "(b \<longrightarrow> out_of_time ops deadline r') \<and> (\<not> b \<longrightarrow> in_time ops deadline r')"
  proof (cases deadline)
    case (Some d)
    obtain t e where "op_now ops (env (solver r)) = (t, e)" by fastforce
    then have "b \<longleftrightarrow> d \<le> t" "last_reading ops r' t"
      using assms Some by (auto simp: with_expired_def deadline_expired_def last_reading_def)
    then show ?thesis using Some by (auto simp: out_of_time_def in_time_def)
  qed (use assms in \<open>auto simp: with_expired_def deadline_expired_def in_time_def\<close>)
  then show "b \<Longrightarrow> out_of_time ops deadline r'" "\<not> b \<Longrightarrow> in_time ops deadline r'" by simp_all
qed

lemma expired_again:
  assumes "steady_clock ops" and "with_expired ops deadline r = (True, r1)" and "solver r2 = solver r1"
    and "with_expired ops deadline r2 = (b, r3)"
  shows b
proof -
  obtain d where d: "deadline = Some d" using assms(2) by (cases deadline) (auto simp: with_expired_def deadline_expired_def)
  have "d \<le> fst (op_now ops (env (solver r)))" "env (solver r1) = snd (op_now ops (env (solver r)))"
    using assms(2) d by (auto simp: with_expired_def deadline_expired_def split: prod.splits)
  then have "d \<le> fst (op_now ops (env (solver r2)))"
    using assms(1,3) unfolding steady_clock_def by (metis order_trans)
  then show b using assms(4) d by (auto simp: with_expired_def deadline_expired_def split: prod.splits)
qed

section \<open>An iteration\<close>

lemma carry_step_keeps:
  "solver (carry_step x) = solver (snd x)" "best (carry_step x) = best (snd x)" "iterations (carry_step x) = iterations (snd x)"
  by (cases x, simp add: carry_step_def)+

text \<open>The counter is set unless the deadline had passed before the assembler.\<close>

lemma assemble_step_count:
  assumes run: "assemble_step ops cfg I deadline i here x = Inr z"
  shows "iterations (snd z) = i \<or>
    (\<exists>r1. with_expired ops deadline (snd x) = (True, r1) \<and> solver (snd z) = solver r1)"
proof -
  obtain pending r where x: "x = (pending, r)" by (cases x)
  obtain target where t: "best_reached cfg r = Inr target"
    using run x by (auto simp: assemble_step_def rbind_eq_Inr_conv)
  obtain expired r1 where ex: "with_expired ops deadline r = (expired, r1)" by fastforce
  show ?thesis
  proof (cases "\<not> expired \<and> \<not> target")
    case True
    then show ?thesis using run x t ex by (auto simp: assemble_step_def rbind_eq_Inr_conv split: prod.splits)
  next
    case False
    have "assemble_step ops cfg I deadline i here x =
        (let r2 = (if continuation cfg = Record_Policy then r1 else r1\<lparr>current := here\<rparr>)
         in Inr (pending, if target then r2\<lparr>iterations := i\<rparr> else r2))"
      unfolding assemble_step_def x prod.case t rbind_Inr ex if_not_P [OF False] ..
    then have "z = (pending, let r2 = (if continuation cfg = Record_Policy then r1 else r1\<lparr>current := here\<rparr>)
        in if target then r2\<lparr>iterations := i\<rparr> else r2)"
      using run by (simp add: Let_def)
    then show ?thesis using False ex x by (cases target) (auto simp: Let_def)
  qed
qed

definition after_iteration :: "'e operations \<Rightarrow> solver_config \<Rightarrow> int option \<Rightarrow> nat \<Rightarrow> 'e run \<Rightarrow> bool" where
  "after_iteration ops cfg deadline i r \<longleftrightarrow> best_reached cfg r = Inr False \<and> in_time ops deadline r \<and>
     (counts_reliably ops deadline \<longrightarrow> iterations r = i)"

definition stopped_for :: "'e operations \<Rightarrow> solver_config \<Rightarrow> int option \<Rightarrow> nat \<Rightarrow> stop_reason \<Rightarrow> 'e run \<Rightarrow> bool" where
  "stopped_for ops cfg deadline n reason r \<longleftrightarrow>
     (case reason of
        Rounded_Target \<Rightarrow> best_reached cfg r = Inr True
      | Time_Limit \<Rightarrow> best_reached cfg r = Inr False \<and> out_of_time ops deadline r
      | Max_Iterations \<Rightarrow> after_iteration ops cfg deadline n r)"

lemma iterate_stops:
  assumes "iterate ops cfg I deadline i r0 = Inr (stop, r)"
  shows "case stop of None \<Rightarrow> after_iteration ops cfg deadline i r
    | Some reason \<Rightarrow> reason \<noteq> Max_Iterations \<and> stopped_for ops cfg deadline n reason r"
proof -
  obtain h w z b target where z: "assemble_step ops cfg I deadline i h w = Inr z"
    and ex: "with_expired ops deadline (carry_step z) = (b, r)" and target: "best_reached cfg r = Inr target"
    and stop: "stop = (if target then Some Rounded_Target else if b then Some Time_Limit else None)"
  proof -
    obtain p h r1 where "generate ops cfg deadline r0 = Inr (p, h, r1)"
      using assms by (cases "generate ops cfg deadline r0") (auto simp: iterate_def)
    from assms [unfolded iterate_def this rbind_Inr prod.case Let_def]
    obtain w where tail: "rbind (assemble_step ops cfg I deadline i h w) (\<lambda>z.
        case with_expired ops deadline (carry_step z) of (deadline_reached, r) \<Rightarrow>
        rbind (best_reached cfg r) (\<lambda>target_reached.
        Inr (if target_reached then Some Rounded_Target
             else if deadline_reached then Some Time_Limit else None, r))) = Inr (stop, r)"
      by (rule iffD1 [OF rbind_eq_Inr_conv, THEN exE]) (erule conjE, erule that)
    then obtain z where z: "assemble_step ops cfg I deadline i h w = Inr z" by (cases "assemble_step ops cfg I deadline i h w") auto
    obtain b r2 where ex: "with_expired ops deadline (carry_step z) = (b, r2)" by fastforce
    from tail z ex obtain target where "best_reached cfg r2 = Inr target"
      "(stop, r) = (if target then Some Rounded_Target else if b then Some Time_Limit else None, r2)"
      by (auto simp: rbind_eq_Inr_conv)
    with z ex show thesis using that [of h w z b target] by simp
  qed
  note read = with_expired_read [OF ex]
  have "iterations r = i" if "\<not> b" "counts_reliably ops deadline"
    using assemble_step_count [OF z]
  proof
    assume "iterations (snd z) = i"
    then show ?thesis using read(4) by (simp add: carry_step_keeps)
  next
    assume "\<exists>r1. with_expired ops deadline (snd w) = (True, r1) \<and> solver (snd z) = solver r1"
    then obtain r1 where r1: "with_expired ops deadline (snd w) = (True, r1)" "solver (carry_step z) = solver r1"
      by (auto simp: carry_step_keeps)
    then have "deadline \<noteq> None" by (cases deadline) (auto simp: with_expired_def deadline_expired_def)
    then show ?thesis using expired_again [OF _ r1 ex] that by (auto simp: counts_reliably_def)
  qed
  then show ?thesis using read(1,2) target stop by (auto simp: stopped_for_def after_iteration_def)
qed

section \<open>The loop and the run\<close>

lemma solve_loop_stops:
  "solve_loop ops cfg I deadline i k r = Inr (reason, r') \<Longrightarrow> 1 \<le> i \<Longrightarrow> best_reached cfg r = Inr False \<Longrightarrow>
    (k = 0 \<longrightarrow> after_iteration ops cfg deadline (i - 1) r) \<Longrightarrow> stopped_for ops cfg deadline (i + k - 1) reason r'"
proof (induction k arbitrary: i r)
  case 0
  then show ?case by (simp add: stopped_for_def)
next
  case (Suc k)
  obtain b r1 where ex: "with_expired ops deadline r = (b, r1)" by fastforce
  note read = with_expired_read [OF ex]
  show ?case
  proof (cases b)
    case True
    then show ?thesis using Suc.prems ex read by (simp add: stopped_for_def best_reached_def)
  next
    case False
    then obtain stop r2 where it: "iterate ops cfg I deadline i r1 = Inr (stop, r2)"
      and rest: "(case stop of Some reason \<Rightarrow> Inr (reason, r2) | None \<Rightarrow> solve_loop ops cfg I deadline (i + 1) k r2) = Inr (reason, r')"
      using Suc.prems(1) ex by (auto simp: rbind_eq_Inr_conv)
    note after = iterate_stops [OF it, of "i + k"]
    show ?thesis
    proof (cases stop)
      case None
      then have "after_iteration ops cfg deadline i r2" using after by simp
      then show ?thesis using Suc.IH [of "i + 1" r2] rest None by (simp add: after_iteration_def)
    qed (use after rest in simp)
  qed
qed

lemma solve_stops:
  assumes "params_ok (paper cfg)" and run: "solve ops cfg I s0 = Inr (res, r)"
  shows "stopped_for ops cfg (run_deadline ops cfg s0) (max_iterations (paper cfg)) (result_stop_reason res) r \<and>
    best_solution res = best r \<and> result_iterations res = iterations r \<and>
    (global_time_limit_s cfg = None \<longleftrightarrow> run_deadline ops cfg s0 = None)"
proof -
  obtain started e where now: "op_now ops (env s0) = (started, e)" by fastforce
  obtain deadline b initial e' x where d: "(case global_time_limit_s cfg of None \<Rightarrow> Inr None
                 | Some l \<Rightarrow> rbind (checked_deadline_after started l) (\<lambda>d. Inr (Some d))) = Inr deadline"
    and loop: "solve_loop ops cfg I deadline 1 (max_iterations (paper cfg))
        (initial_run (s0\<lparr>env := e, env := e'\<rparr>) b initial) = Inr x"
    and out: "finish_run I (if sol_feasible initial then Some initial else None) x = Inr res" "r = snd x"
    using run by (auto simp: solve_def now Let_def rbind_eq_Inr_conv)
  have deadline: "deadline = run_deadline ops cfg s0" "global_time_limit_s cfg = None \<longleftrightarrow> deadline = None"
    using d now by (auto simp: run_deadline_def rbind_eq_Inr_conv split: option.splits sum.splits)
  obtain reason where x: "x = (reason, r)" using out(2) by (cases x) simp
  have fin: "result_stop_reason res = reason" "best_solution res = best r" "result_iterations res = iterations r"
    using out(1) unfolding x by (auto simp: finish_run_def Let_def rbind_eq_Inr_conv)
  have "0 < max_iterations (paper cfg)" using assms(1) by (simp add: params_ok_def)
  then have "stopped_for ops cfg deadline (1 + max_iterations (paper cfg) - 1) reason r"
    using solve_loop_stops [OF loop [unfolded x]] by (simp add: best_reached_def initial_run_def)
  then show ?thesis using deadline fin by simp
qed

end
