(* ===== verification/Solver_Claims.thy ===== *)
theory Solver_Claims
  imports Solver_Stops Pool_Properties
begin

text \<open>
  What the solver guarantees: soundness and quality of its output, that it returns, what the
  assembler hands back, and the exactness of warm starts, deadlines and penalty feedback.
\<close>

section \<open>A run on a concrete instance\<close>

text \<open>
  Operations over the trivial environment: construction and descent return a fixed solution,
  the models select nothing, the optimiser finds nothing.
\<close>

definition demo_plan :: "int \<Rightarrow> real \<Rightarrow> plan" where
  "demo_plan n cost = \<lparr>plan_customers = [n], gaps = [[], []], plan_route = \<lparr>visits = [n]\<rparr>,
     evaluation = Some \<lparr>feasible = True, raw_cost_h = cost, total_travel_h = cost, charging_time_h = 0,
       total_service_h = 0, route_duration_h = cost, energy_shortfall_wh = 0, duration_excess_h = 0,
       evaluated_route = \<lparr>visits = [n]\<rparr>, arrival_energy_wh = [], departure_energy_wh = [],
       charging_events = []\<rparr>, exact_charging = True\<rparr>"

definition demo_start :: solution where
  "demo_start = \<lparr>plans = [demo_plan 1 5, demo_plan 3 7]\<rparr>"

definition demo_better :: solution where
  "demo_better = \<lparr>plans = [demo_plan 1 4, demo_plan 3 6]\<rparr>"

definition demo_ops :: "unit operations" where
  "demo_ops = \<lparr>op_build = \<lambda>e l. Inr (demo_start, e), op_perturb = \<lambda>e s l. Inr (s, e),
     op_improve = \<lambda>e s l d c. Inr (demo_better, e), op_now = \<lambda>e. (0, e),
     op_partition = \<lambda>e columns start d. Inr (\<lparr>selected_columns = [], lp_prepass_attempted = False,
       lp_prepass_exception = False, lp_certified_start = False, fixed_zero_count = 0,
       fixing_considered_count = 0, reused_relaxation = None\<rparr>, e),
     op_relax = \<lambda>e columns d. Inr (\<lparr>lp_optimal = False, lp_duals = []\<rparr>, e),
     op_frvcp = \<lambda>e pl d. Inr (None, e)\<rparr>"

definition demo_config :: solver_config where
  "demo_config = \<lparr>paper = \<lparr>penalty_window = 3, penalty_factor = 2, lambda_initial = 4, lambda_min = 1,
       lambda_max = 16, sp_frequency = 2, backup_frequency = 3, paper_pool_capacity = 10, max_iterations = 4\<rparr>,
     profile = Paper, continuation = Operational, implicit_replace_path = False,
     complete_insertion_paths = None, complete_initialization_paths = None,
     rebuild_initialization_paths = False, preserve_initialization_station_visits = False,
     preserve_station_visits = False, project_opening_station_visits = False,
     global_time_limit_s = None, frvcp_wall_budget_s = None, rounded_target_objective_h = None,
     sp_incumbent_stall_limit_s = None, sp_maximum_time_s = None, config_identity = Ordered_Sequence,
     protect_best_partition = True, config_keep_evicted = True, reprice_after_lp = True,
     adaptive_sp_stall_iterations = None, adaptive_sp_minimum_interval = 1, progress_interval = 1\<rparr>"

lemma demo_working: "work_ok err demo_inst demo_start" "work_ok err demo_inst demo_better"
proof -
  have "validate_partition demo_inst demo_start = Inr ()" "validate_partition demo_inst demo_better = Inr ()"
    unfolding validate_partition_Inr [OF demo_inst_ok]
    by (auto simp: demo_start_def demo_better_def demo_plan_def demo_inst_def customer_sequences_def
        expand_route_def plan_consistent_def)
  then show "work_ok err demo_inst demo_start" "work_ok err demo_inst demo_better"
    by (simp_all add: work_ok_def evaluated_def demo_start_def demo_better_def demo_plan_def)
qed

lemma demo_contracts: "contracts err demo_config demo_inst demo_ops"
proof -
  have "protection_fits demo_config demo_inst"
    by (simp add: protection_fits_def demo_config_def demo_inst_def)
  then show ?thesis
    using demo_working
    by (auto simp: contracts_def generator_contract_def frvcp_contract_def model_contract_def demo_ops_def)
qed

lemma demo_solver: "\<exists>s0. make_solver () 0 demo_config = Inr s0"
  by (auto simp: make_solver_def make_pool_def check_config_def check_limit_def parameters_invalid_def
      opt_positive_def require_def demo_config_def kCostTolerance_def intro!: isfinite_numeral_small)


section \<open>The run\<close>

text \<open>
  C2: whatever the search operations return, as long as they return partitions, a run of the
  solver that ends keeps its promises: the best solution is a feasible partition of the
  customers and its cost is the last record; records fall by more than the tolerance each and
  carry iterations within the limit; the final working solution is a partition; the penalty
  stays in its range; the pool is well formed and holds only columns of feasible routes; the
  iteration count respects the limit.  The reason for stopping is the true one: the run reports
  the rounded target exactly when its best solution reaches it, the time limit only if its last
  act was to read a clock at or past the deadline, and the maximum of iterations only if the
  last reading was before the deadline and every iteration was counted - the count is exact
  without a time limit, and with one on a clock that never runs back.
\<close>

theorem solver_run_sound:
  fixes ops :: "'e operations"
  assumes "inst_ok I" and "make_solver e now cfg = Inr s0" and "contracts True cfg I ops"
    and "solve ops cfg I s0 = Inr (res, r)"
  shows "(case best_solution res of None \<Rightarrow> record_log r = []
      | Some b \<Rightarrow> validate_partition I b = Inr () \<and> sol_feasible b \<and> record_log r \<noteq> [] \<and>
          sol_raw_cost_h b = Inr (snd (last (record_log r)))) \<and>
    sorted_wrt (\<lambda>x y. snd y < snd x - kCostTolerance \<and> fst x \<le> fst y) (record_log r) \<and>
    (\<forall>x \<in> set (record_log r). 1 \<le> fst x \<and> fst x \<le> max_iterations (paper cfg)) \<and>
    validate_partition I (final_solution res) = Inr () \<and>
    lambda_min (paper cfg) \<le> final_penalty_lambda res \<and> final_penalty_lambda res \<le> lambda_max (paper cfg) \<and>
    pool_inv (pool (solver r)) \<and>
    (\<forall>c \<in> set (main_columns (pool (solver r))).
       column_of_plan (col_plan c) = Inr c \<and> plan_consistent (col_plan c)) \<and>
    result_iterations res \<le> max_iterations (paper cfg) \<and>
    (result_stop_reason res = Rounded_Target \<longleftrightarrow>
       (\<exists>b. best_solution res = Some b \<and> rounded_target_reached cfg b = Inr True)) \<and>
    (result_stop_reason res = Time_Limit \<longrightarrow> out_of_time ops (run_deadline ops cfg s0) r) \<and>
    (result_stop_reason res = Max_Iterations \<longrightarrow> in_time ops (run_deadline ops cfg s0) r \<and>
       (global_time_limit_s cfg = None \<or> steady_clock ops \<longrightarrow> result_iterations res = max_iterations (paper cfg)))"
proof -
  have "outcome True (\<lambda>x. \<exists>initial e'. initial_solution ops s0 = Inr (initial, e') \<and>
       work_ok True I initial \<and>
       output_ok True cfg I (if sol_feasible initial then Some initial else None) x) (solve ops cfg I s0)"
    using solve_outcome [OF assms(1-3)] by simp
  then obtain start where out: "output_ok True cfg I start (res, r)" using assms(4) by auto
  then have inv: "run_inv True cfg I (max_iterations (paper cfg)) r" by (simp add: output_ok_def Let_def)
  then have pool: "pool_inv (pool (solver r))" "pool_all column_good (pool (solver r))"
      "penalty_ok (paper cfg) (penalty (solver r))"
    by (auto simp: run_inv_def solver_ok_def pool_ok_def)
  have cols: "column_of_plan (col_plan c) = Inr c \<and> plan_consistent (col_plan c)"
    if "c \<in> set (main_columns (pool (solver r)))" for c
    using main_columns_all [OF pool(2) that] by (simp add: column_good_def)
  have stop: "stopped_for ops cfg (run_deadline ops cfg s0) (max_iterations (paper cfg)) (result_stop_reason res) r"
    and fields: "best_solution res = best r" "result_iterations res = iterations r"
    and limit: "global_time_limit_s cfg = None \<longleftrightarrow> run_deadline ops cfg s0 = None"
    using solve_stops [OF make_solver_ok(1) [OF assms(2)] assms(4)] by blast+
  have "best_reached cfg r = Inr True \<longleftrightarrow> (\<exists>b. best_solution res = Some b \<and> rounded_target_reached cfg b = Inr True)"
    unfolding fields by (auto simp: best_reached_def split: option.split)
  then have reason: "(result_stop_reason res = Rounded_Target \<longleftrightarrow>
       (\<exists>b. best_solution res = Some b \<and> rounded_target_reached cfg b = Inr True)) \<and>
    (result_stop_reason res = Time_Limit \<longrightarrow> out_of_time ops (run_deadline ops cfg s0) r) \<and>
    (result_stop_reason res = Max_Iterations \<longrightarrow> in_time ops (run_deadline ops cfg s0) r \<and>
       (global_time_limit_s cfg = None \<or> steady_clock ops \<longrightarrow> result_iterations res = max_iterations (paper cfg)))"
    using stop fields limit
    by (cases "result_stop_reason res") (auto simp: stopped_for_def after_iteration_def counts_reliably_def)
  show ?thesis
    using inv out pool(1,3) cols
    by (intro conjI reason [THEN conjunct1] reason [THEN conjunct2, THEN conjunct1] reason [THEN conjunct2, THEN conjunct2])
      (auto simp: output_ok_def Let_def run_inv_def log_ok_def work_ok_def penalty_ok_def split: option.splits)
qed

theorem solver_run_sound_witness:
  "\<exists>s0 res r. make_solver () 0 demo_config = Inr s0 \<and> solve demo_ops demo_config demo_inst s0 = Inr (res, r) \<and>
     validate_partition demo_inst (final_solution res) = Inr () \<and> final_penalty_lambda res \<le> 16 \<and>
     result_stop_reason res = Max_Iterations \<and> result_iterations res = 4 \<and> pool_inv (pool (solver r))"
proof -
  obtain s0 where s0: "make_solver () 0 demo_config = Inr s0" using demo_solver by blast
  have "\<exists>x. solve demo_ops demo_config demo_inst s0 = Inr x"
    using outcome_total [OF solve_outcome [OF demo_inst_ok s0 demo_contracts]]
    by (auto simp: demo_config_def opt_positive_def deadline_fits_def)
  then obtain res r where run: "solve demo_ops demo_config demo_inst s0 = Inr (res, r)" by auto
  note sound = solver_run_sound [OF demo_inst_ok s0 demo_contracts run]
  have cfg: "rounded_target_reached demo_config b = Inr False" "global_time_limit_s demo_config = None"
    "run_deadline demo_ops demo_config s0 = None" "max_iterations (paper demo_config) = 4" "lambda_max (paper demo_config) = 16" for b
    by (simp_all add: rounded_target_reached_def run_deadline_def demo_config_def)
  have "result_stop_reason res \<noteq> Rounded_Target" "result_stop_reason res \<noteq> Time_Limit"
    using sound cfg by (auto simp: out_of_time_def)
  then have "result_stop_reason res = Max_Iterations" by (cases "result_stop_reason res") simp_all
  then show ?thesis using sound cfg s0 run by auto
qed

text \<open>
  C20: the output is never worse than a feasible initial solution: then the result offers a
  feasible partition, its best solution or the initial fallback, whose cost exceeds the
  initial cost by at most the tolerance; without a feasible initial solution there is no
  fallback.
\<close>

theorem solver_output_quality:
  fixes ops :: "'e operations"
  assumes "inst_ok I" and "make_solver e now cfg = Inr s0" and "contracts True cfg I ops"
    and "solve ops cfg I s0 = Inr (res, r)" and "initial_solution ops s0 = Inr (initial, e')"
  shows "if sol_feasible initial
    then \<exists>s sc c. (best_solution res = Some s \<or> initialization_fallback res = Some s) \<and>
      sol_feasible s \<and> validate_partition I s = Inr () \<and>
      sol_raw_cost_h s = Inr sc \<and> sol_raw_cost_h initial = Inr c \<and> sc \<le> c + kCostTolerance
    else initialization_fallback res = None"
proof -
  have "outcome True (\<lambda>x. \<exists>initial e'. initial_solution ops s0 = Inr (initial, e') \<and>
       work_ok True I initial \<and>
       output_ok True cfg I (if sol_feasible initial then Some initial else None) x) (solve ops cfg I s0)"
    using solve_outcome [OF assms(1-3)] by simp
  then have out: "output_ok True cfg I (if sol_feasible initial then Some initial else None) (res, r)"
    and w: "work_ok True I initial"
    using assms(4,5) by auto
  show ?thesis
  proof (cases "sol_feasible initial")
    case True
    obtain c where c: "sol_raw_cost_h initial = Inr c"
      using raw_cost_outcome [of False initial] feasible_evaluated [OF True] outcome_total by fastforce
    consider "initialization_fallback res = Some initial"
      | b fc bc where "best_solution res = Some b" "sol_raw_cost_h initial = Inr fc" "sol_raw_cost_h b = Inr bc"
          "bc \<le> fc + kCostTolerance"
      using out unfolding output_ok_def Let_def if_P [OF True] option.case fst_conv snd_conv by blast
    then show ?thesis
    proof cases
      case 1
      then have "(best_solution res = Some initial \<or> initialization_fallback res = Some initial) \<and>
        sol_feasible initial \<and> validate_partition I initial = Inr () \<and>
        sol_raw_cost_h initial = Inr c \<and> sol_raw_cost_h initial = Inr c \<and> c \<le> c + kCostTolerance"
        using True w c tolerance_pos by (auto simp: work_ok_def)
      then show ?thesis unfolding if_P [OF True] by blast
    next
      case (2 b fc bc)
      then have "sol_feasible b \<and> validate_partition I b = Inr ()"
        using out by (auto simp: output_ok_def Let_def run_inv_def work_ok_def)
      then show ?thesis unfolding if_P [OF True] using 2 by blast
    qed
  qed (use out in \<open>simp add: output_ok_def Let_def\<close>)
qed

theorem solver_output_quality_witness:
  "\<exists>s0 res r s sc. make_solver () 0 demo_config = Inr s0 \<and>
     solve demo_ops demo_config demo_inst s0 = Inr (res, r) \<and>
     (best_solution res = Some s \<or> initialization_fallback res = Some s) \<and>
     sol_raw_cost_h s = Inr sc \<and> sc \<le> 12 + kCostTolerance"
proof -
  obtain s0 where s0: "make_solver () 0 demo_config = Inr s0" using demo_solver by blast
  have "\<exists>x. solve demo_ops demo_config demo_inst s0 = Inr x"
    using outcome_total [OF solve_outcome [OF demo_inst_ok s0 demo_contracts]]
    by (auto simp: demo_config_def opt_positive_def deadline_fits_def)
  then obtain res r where run: "solve demo_ops demo_config demo_inst s0 = Inr (res, r)" by auto
  have start: "initial_solution demo_ops s0 = Inr (demo_start, snd (op_now demo_ops (env s0)))"
    by (simp add: initial_solution_def demo_ops_def)
  have "sol_feasible demo_start" "sol_raw_cost_h demo_start = Inr 12"
    by (simp_all add: sol_feasible_def demo_start_def demo_plan_def sol_raw_cost_h_def deref_def)
  with solver_output_quality [OF demo_inst_ok s0 demo_contracts run start] s0 run show ?thesis
    by fastforce
qed

text \<open>
  C7: the solver returns.  When the search operations return evaluated partitions, the
  optimiser keeps customer sequences and the models return selections of their columns that
  cover every customer once, then - with a well-formed wall budget, room on the clock for the
  time limit, and a pool large enough for a protected partition - \<open>solve\<close> raises no error
  and yields a result.
\<close>

theorem solve_returns:
  fixes ops :: "'e operations"
  assumes "inst_ok I" and "make_solver e now cfg = Inr s0" and "contracts False cfg I ops"
    and "opt_positive (frvcp_wall_budget_s cfg)" and "deadline_fits cfg (fst (op_now ops (env s0)))"
  shows "\<exists>res r initial e'. solve ops cfg I s0 = Inr (res, r) \<and>
    initial_solution ops s0 = Inr (initial, e') \<and> evaluated (final_solution res) \<and>
    (result_stop_reason res = Max_Iterations \<or>
     result_stop_reason res = Time_Limit \<and> global_time_limit_s cfg \<noteq> None \<or>
     result_stop_reason res = Rounded_Target \<and> best_reached cfg r = Inr True)"
proof -
  obtain x initial e' where x: "solve ops cfg I s0 = Inr x" "initial_solution ops s0 = Inr (initial, e')"
    "output_ok False cfg I (if sol_feasible initial then Some initial else None) x"
    using outcome_total [OF solve_outcome [OF assms(1-3)]] assms(4,5) by auto
  obtain res r where xe: "x = (res, r)" by (cases x)
  have "evaluated (final_solution res)" using x xe by (auto simp: output_ok_def Let_def run_inv_def work_ok_def)
  moreover have "result_stop_reason res = Max_Iterations \<or>
     result_stop_reason res = Time_Limit \<and> global_time_limit_s cfg \<noteq> None \<or>
     result_stop_reason res = Rounded_Target \<and> best_reached cfg r = Inr True"
    using x xe by (cases "result_stop_reason res") (auto simp: output_ok_def Let_def stop_sound_def)
  ultimately show ?thesis using x xe by blast
qed

theorem solve_returns_witness:
  "\<exists>s0 res r. make_solver () 0 demo_config = Inr s0 \<and> solve demo_ops demo_config demo_inst s0 = Inr (res, r) \<and>
     result_stop_reason res = Max_Iterations"
proof -
  obtain s0 where s0: "make_solver () 0 demo_config = Inr s0" using demo_solver by blast
  have reached: "best_reached demo_config r \<noteq> Inr True" for r :: "unit run"
    by (simp add: best_reached_def rounded_target_reached_def demo_config_def split: option.split)
  have "opt_positive (frvcp_wall_budget_s demo_config)"
    "deadline_fits demo_config (fst (op_now demo_ops (env s0)))" "global_time_limit_s demo_config = None"
    by (simp_all add: demo_config_def opt_positive_def deadline_fits_def)
  with solve_returns [OF demo_inst_ok s0 demo_contracts] s0 reached show ?thesis by metis
qed

section \<open>The assembler\<close>

lemma upgrade_feasible:
  assumes "route_upgrade p q" and "\<exists>ev. evaluation p = Some ev \<and> feasible ev"
  shows "\<exists>x y. evaluation p = Some x \<and> evaluation q = Some y \<and> feasible y \<and>
    raw_cost_h y \<le> raw_cost_h x + kCostTolerance"
  using assms tolerance_pos by (force simp: route_upgrade_def)

lemma cost_of_plans:
  "(\<And>p. p \<in> set ps \<Longrightarrow> evaluation p \<noteq> None) \<Longrightarrow>
    rfold (\<lambda>tot p. rbind (deref (evaluation p)) (\<lambda>e. Inr (tot + raw_cost_h e))) a ps =
      Inr (a + sum_list (map (\<lambda>p. raw_cost_h (the (evaluation p))) ps))"
proof (induction ps arbitrary: a)
  case (Cons p ps)
  then obtain e where "evaluation p = Some e" by fastforce
  then show ?case using Cons by (simp add: deref_def add.assoc)
qed simp

lemma column_good_evaluation: "column_good c \<Longrightarrow> \<exists>ev. evaluation (col_plan c) = Some ev \<and> feasible ev \<and> raw_cost_h ev = cost_h c"
proof -
  assume "column_good c"
  then obtain ev where "evaluation (col_plan c) = Some ev" "feasible ev" "column_of_plan (col_plan c) = Inr c"
    by (auto simp: column_good_def column_of_plan_def split: option.splits if_splits)
  moreover from this have "cost_h c = raw_cost_h ev"
    by (cases c) (auto simp: column_of_plan_def Let_def split: if_splits)
  ultimately show ?thesis by simp
qed

lemma assembled_cost:
  assumes "list_all2 route_upgrade (map col_plan cs) qs" and "\<And>c. c \<in> set cs \<Longrightarrow> column_good c"
  shows "(\<forall>q \<in> set qs. \<exists>y. evaluation q = Some y \<and> feasible y) \<and>
    sum_list (map (\<lambda>p. raw_cost_h (the (evaluation p))) qs) \<le> sum_list (map cost_h cs) + length cs * kCostTolerance"
  using assms
proof (induction cs arbitrary: qs)
  case (Cons c cs)
  obtain q qs' where qs: "qs = q # qs'" "route_upgrade (col_plan c) q" "list_all2 route_upgrade (map col_plan cs) qs'"
    using Cons.prems(1) by (auto simp: list_all2_Cons1)
  obtain x y where "evaluation (col_plan c) = Some x" "evaluation q = Some y" "feasible y"
      "raw_cost_h y \<le> cost_h c + kCostTolerance"
    using upgrade_feasible [OF qs(2)] column_good_evaluation [of c] Cons.prems(2) by fastforce
  then show ?case using Cons.IH [OF qs(3)] Cons.prems(2) qs(1) by (auto simp: algebra_simps)
qed simp

text \<open>A solution made of a selection of columns, route by route.\<close>

definition refined_selection :: "inst \<Rightarrow> route_column list \<Rightarrow> sp_result \<Rightarrow> solution \<Rightarrow> bool" where
  "refined_selection I columns r sol \<longleftrightarrow>
     set (selected_columns r) \<subseteq> set columns \<and> validate_partition I sol = Inr () \<and> sol_feasible sol \<and>
     list_all2 route_upgrade (map col_plan (selected_columns r)) (plans sol) \<and>
     (\<exists>c. sol_raw_cost_h sol = Inr c \<and>
        c \<le> sum_list (map cost_h (selected_columns r)) + length (selected_columns r) * kCostTolerance)"

lemma models_post_refined:
  assumes "models_post False cfg I r (a, b, s)" and "selection_good False I columns r"
    and cols: "\<forall>c \<in> set columns. column_good c"
  shows "if selected_columns r = [] then a = None else \<exists>sol. a = Some sol \<and> refined_selection I columns r sol"
proof (cases a)
  case None
  then show ?thesis using assms(1) by (simp add: models_post_def)
next
  case (Some sol)
  have ne: "selected_columns r \<noteq> []" and w: "work_ok False I sol"
    and up: "list_all2 route_upgrade (map col_plan (selected_columns r)) (plans sol)"
    using assms(1) Some by (auto simp: models_post_def)
  have sub: "set (selected_columns r) \<subseteq> set columns" using assms(2) ne by (simp add: selection_good_def)
  then have good: "\<And>c. c \<in> set (selected_columns r) \<Longrightarrow> column_good c" using cols by blast
  note cost = assembled_cost [OF up good]
  have "sol_feasible sol" using cost by (auto simp: sol_feasible_def list_all_iff split: option.splits)
  moreover have "sol_raw_cost_h sol = Inr (sum_list (map (\<lambda>p. raw_cost_h (the (evaluation p))) (plans sol)))"
    using cost_of_plans [of "plans sol" 0] cost by (fastforce simp: sol_raw_cost_h_def)
  ultimately have "refined_selection I columns r sol"
    using sub up cost w by (simp add: refined_selection_def work_ok_def)
  then show ?thesis using ne Some by simp
qed

text \<open>
  A run that assembles: the model selects the first columns of the two single customers, the
  optimiser improves the first route and leaves the second.
\<close>

definition demo_column :: "int \<Rightarrow> real \<Rightarrow> route_column" where
  "demo_column n cost = \<lparr>col_plan = demo_plan n cost, customer_set = [n], cost_h = cost, signature = [n]\<rparr>"

definition demo_select :: "route_column list \<Rightarrow> route_column list" where
  "demo_select columns =
     (case (find (\<lambda>c. plan_customers (col_plan c) = [1]) columns, find (\<lambda>c. plan_customers (col_plan c) = [3]) columns) of
        (Some c, Some d) \<Rightarrow> [c, d] | _ \<Rightarrow> [])"

definition demo_sp_ops :: "unit operations" where
  "demo_sp_ops = demo_ops\<lparr>
     op_partition := \<lambda>e columns start d. Inr (\<lparr>selected_columns = demo_select columns, lp_prepass_attempted = False,
       lp_prepass_exception = False, lp_certified_start = False, fixed_zero_count = 0,
       fixing_considered_count = 0, reused_relaxation = None\<rparr>, e),
     op_frvcp := \<lambda>e pl d. Inr (if pl = demo_plan 1 5 then Some (demo_plan 1 4) else None, e)\<rparr>"

lemma find_mem: "find P xs = Some x \<Longrightarrow> x \<in> set xs \<and> P x"
  by (auto simp: find_Some_iff)

lemma demo_sp_contracts: "contracts False demo_config demo_inst demo_sp_ops"
proof -
  have "demo_select columns = [] \<or> set (demo_select columns) \<subseteq> set columns \<and>
      mset (concat (map (\<lambda>c. plan_customers (col_plan c)) (demo_select columns))) = mset (customer_ids demo_inst)" for columns
    by (auto simp: demo_select_def demo_inst_def split: option.split dest!: sym [of "Some _"] find_mem)
  moreover have "plan_consistent (demo_plan n c)" "evaluation (demo_plan n c) \<noteq> None" "plan_customers (demo_plan n c) = [n]" for n c
    by (simp_all add: demo_plan_def plan_consistent_def expand_route_def)
  ultimately show ?thesis
    using demo_contracts [of False]
    by (auto simp: contracts_def generator_contract_def frvcp_contract_def model_contract_def demo_sp_ops_def demo_ops_def)
qed

lemma demo_column_of: "column_of_plan (demo_plan n c) = Inr (demo_column n c)"
  by (simp add: column_of_plan_def demo_plan_def demo_column_def Let_def sorted_customer_set_def)

definition demo_pool :: "column_map \<Rightarrow> route_pool \<Rightarrow> bool" where
  "demo_pool m p \<longleftrightarrow> main_pool p = m \<and> backup_pool p = [] \<and> pool_capacity p = 10 \<and> \<not> duals_valid p \<and>
     pool_ident p = Ordered_Sequence"

lemma demo_admit:
  assumes "demo_pool m p" and "map_of m [n] = None" and "length m < 10"
  shows "\<exists>u q. admit p (demo_column n c) = Inr (u, q) \<and> demo_pool (m @ [([n], demo_column n c)]) q"
proof -
  have up: "AList.update k v al = al @ [(k, v)]" if "map_of al k = None" for k :: "int list" and v :: route_column and al
    using that by (induction al) (auto split: if_splits)
  have "map_of (main_pool p) [n] = None" using assms by (simp add: demo_pool_def)
  then show ?thesis using assms
  by (simp add: demo_pool_def admit_def admit_free_def put_main_def index_main_insert_def column_key_def
        record_effective_coverage_improvement_def Let_def demo_column_def demo_plan_def up)
qed

lemma demo_admit_local:
  assumes "demo_pool m (pool s)" and "map_of m [n] = None" and "length m < 10"
  shows "\<exists>t. admit_local_plan k s (demo_plan n c) = Inr t \<and> demo_pool (m @ [([n], demo_column n c)]) (pool t)"
proof -
  obtain u q where "admit (pool s) (demo_column n c) = Inr (u, q)" "demo_pool (m @ [([n], demo_column n c)]) q"
    using demo_admit [OF assms] by blast
  then show ?thesis
    by (auto simp: admit_local_plan_def eval_feasible_def deref_def demo_plan_def admit_plan_def
        demo_column_of [unfolded demo_plan_def] Let_def)
qed

lemma demo_columns:
  "demo_pool [([1], demo_column 1 5), ([3], demo_column 3 7)] p \<Longrightarrow> main_columns p = [demo_column 1 5, demo_column 3 7]"
  by (simp add: demo_pool_def main_columns_def sort_by_def main_column_less_def demo_column_def)

lemma demo_ready:
  assumes "demo_pool [] (pool s)" and "solver_ok demo_config s"
  shows "\<exists>t. assembler_ready demo_config 2 demo_start None s = Inr (t, True) \<and> solver_ok demo_config t \<and>
    main_columns (pool t) = [demo_column 1 5, demo_column 3 7] \<and>
    assemble_routes ops demo_config I demo_start None 2 d (b, s) =
      run_sp_phase ops demo_config I demo_start None 2 d False (b, t)"
proof -
  obtain t1 where t1: "admit_local_plan 2 s (demo_plan 1 5) = Inr t1" "demo_pool [([1], demo_column 1 5)] (pool t1)"
    using demo_admit_local [OF assms(1), of 1 2 5] by auto
  obtain t2 where t2: "admit_local_plan 2 t1 (demo_plan 3 7) = Inr t2"
      "demo_pool [([1], demo_column 1 5), ([3], demo_column 3 7)] (pool t2)"
    using demo_admit_local [OF t1(2), of 3 2 7] by auto
  have admitted: "rfold (admit_local_plan 2) s (plans demo_start) = Inr t2"
    using t1(1) t2(1) by (simp add: demo_start_def)
  have "solver_ok demo_config t2"
    using admit_local_outcome [OF demo_inst_ok demo_working(1) assms(2), of True 2] admitted by simp
  moreover have "periodic_sp demo_config 2" "\<not> adaptive_sp demo_config 2 None t2"
    by (simp_all add: periodic_sp_def adaptive_sp_def demo_config_def)
  moreover have "reprice 2 t2 = Inr t2"
    using t2(2) by (simp add: reprice_def reprice_backup_def demo_pool_def)
  ultimately show ?thesis
    using admitted demo_columns [OF t2(2)] by (simp add: assembler_ready_def assemble_routes_def)
qed

definition demo_unlimited :: frvcp_budget where
  "demo_unlimited = \<lparr>budget_limit_s = None, spent_s = 0, skipped_routes = 0\<rparr>"

lemma demo_install:
  assumes "solver_ok demo_config s"
  shows "\<exists>t. install_route 2 0 (\<lparr>plans = [demo_plan 1 5, demo_plan 3 7]\<rparr>, s) (demo_plan 1 4) =
    Inr (\<lparr>plans = [demo_plan 1 4, demo_plan 3 7]\<rparr>, t)"
proof -
  have "plan_consistent (demo_plan 1 4)" "column_plan (demo_plan 1 4)"
    by (simp_all add: demo_plan_def plan_consistent_def expand_route_def column_plan_def)
  then obtain t where "admit_plan 2 s (demo_plan 1 4) = Inr t"
    using outcome_total [OF admit_plan_outcome [OF assms, of _ False]] by blast
  moreover have "eval_feasible (demo_plan n c) = Inr True" "eval_raw_cost (demo_plan n c) = Inr c" for n c
    by (simp_all add: eval_feasible_def eval_raw_cost_def deref_def demo_plan_def)
  ultimately show ?thesis
    by (simp add: install_route_def replaces_def kCostTolerance_def)
qed

lemma demo_no_target: "rounded_target_reached demo_config x = Inr False"
  by (simp add: rounded_target_reached_def demo_config_def)

lemma demo_no_deadline: "deadline_expired ops None s = (False, s)"
  by (simp add: deadline_expired_def)

lemma demo_optimize:
  assumes "solver_ok demo_config s"
  shows "\<exists>t. optimize_routes demo_sp_ops demo_config 2 None 0 [demo_column 1 5, demo_column 3 7]
      (demo_start, demo_unlimited, s) = Inr (\<lparr>plans = [demo_plan 1 4, demo_plan 3 7]\<rparr>, demo_unlimited, t)"
proof -
  have ops: "op_frvcp demo_sp_ops e pl d = Inr (if pl = demo_plan 1 5 then Some (demo_plan 1 4) else None, e)" for e pl d
    by (simp add: demo_sp_ops_def)
  have other: "demo_plan 3 7 \<noteq> demo_plan 1 5" by (simp add: demo_plan_def)
  have cols: "col_plan (demo_column n c) = demo_plan n c" for n c by (simp add: demo_column_def)
  let ?s = "s\<lparr>env := env s, frvcp_calls := frvcp_calls s + 1, env := env s\<rparr>"
  obtain t where "install_route 2 0 (demo_start, ?s) (demo_plan 1 4) =
      Inr (\<lparr>plans = [demo_plan 1 4, demo_plan 3 7]\<rparr>, t)"
    using demo_install [of ?s] assms unfolding demo_start_def by auto
  then show ?thesis
    by (simp add: optimize_route_def ops other cols demo_no_target demo_no_deadline demo_unlimited_def
        budget_enabled_def budget_exhausted_def budget_charge_def Let_def)
qed

lemma demo_phase:
  assumes "main_columns (pool s) = [demo_column 1 5, demo_column 3 7]" and "solver_ok demo_config s"
  shows "\<exists>s'. run_sp_phase demo_sp_ops demo_config demo_inst demo_start None 2 None a (demo_unlimited, s) =
    Inr (Some \<lparr>plans = [demo_plan 1 4, demo_plan 3 7]\<rparr>, demo_unlimited, s')"
proof -
  let ?cols = "[demo_column 1 5, demo_column 3 7]"
  obtain r e where r: "op_partition demo_sp_ops e' ?cols st None = Inr (r, e')"
      "op_relax demo_sp_ops e' ?cols None = Inr (\<lparr>lp_optimal = False, lp_duals = []\<rparr>, e')"
      "selected_columns r = ?cols" "reused_relaxation r = None" for e' st
    by (auto simp: demo_sp_ops_def demo_ops_def demo_select_def demo_column_def demo_plan_def)
  have "pool_covers_all_customers demo_inst ?cols"
    by (simp add: pool_covers_all_customers_def demo_inst_def demo_column_def)
  moreover have "validate_partition demo_inst demo_start = Inr ()"
    "validate_partition demo_inst \<lparr>plans = [demo_plan 1 4, demo_plan 3 7]\<rparr> = Inr ()"
    using demo_working [of False] unfolding work_ok_def validate_partition_Inr [OF demo_inst_ok]
    by (auto simp: demo_start_def demo_better_def demo_plan_def demo_inst_def customer_sequences_def
        expand_route_def plan_consistent_def)
  moreover have "chosen_solution r = demo_start"
    by (simp add: chosen_solution_def r demo_start_def demo_column_def)
  moreover obtain t where "call_partition demo_sp_ops a 2 None ?cols st s = Inr (r, t)" "solver_ok demo_config t" for st
    using assms(2) by (auto simp: call_partition_def Let_def r)
  moreover obtain t' where "call_relaxation demo_sp_ops demo_config 2 None ?cols r t = Inr t'" "solver_ok demo_config t'"
    using calculation by (auto simp: call_relaxation_def Let_def r)
  moreover obtain t'' where "optimize_routes demo_sp_ops demo_config 2 None 0 ?cols (demo_start, demo_unlimited, t') =
      Inr (\<lparr>plans = [demo_plan 1 4, demo_plan 3 7]\<rparr>, demo_unlimited, t'')"
    using demo_optimize calculation by blast
  ultimately show ?thesis using assms(1)
    by (simp add: run_sp_phase_def run_models_def check_selection_def relax_and_optimize_def optimize_selection_def
        demo_no_deadline demo_no_target Let_def r)
qed

text \<open>
  C16: the assembler returns, keeps the invariant of the solver, and what it hands back is
  determined, on the pool the feasible local routes were offered to: when the models are not due,
  the local solution as it is under the record policy, else nothing; when they are due, nothing
  only if the deadline has passed, if the columns of the pool miss a customer, or if the model,
  called on these columns, selects none; and otherwise a feasible partition of the customers that
  refines the selection of this call route by route - each route is the selected one, or one with
  the same customers that is cheaper, or as cheap and exact - and costs at most the selection
  plus one tolerance per route.
\<close>

theorem assembler_output:
  fixes ops :: "'e operations"
  assumes "inst_ok I" and "contracts False cfg I ops" and "work_ok False I here" and "solver_ok cfg s"
  shows "\<exists>s1 due a b' s'. assembler_ready cfg iteration here best_sol s = Inr (s1, due) \<and>
    assemble_routes ops cfg I here best_sol iteration deadline (b, s) = Inr (a, b', s') \<and> solver_ok cfg s' \<and>
    (if \<not> due then a = (if continuation cfg = Record_Policy then Some here else None)
     else case two_readings ops deadline s1 of (late, s2) \<Rightarrow>
       if late \<or> \<not> pool_covers_all_customers I (main_columns (pool s1)) then a = None
       else \<exists>r. model_run ops I here best_sol deadline (main_columns (pool s1)) s2 r \<and>
         (if selected_columns r = [] then a = None
          else \<exists>sol. a = Some sol \<and> refined_selection I (main_columns (pool s1)) r sol))"
proof -
  have frvcp: "frvcp_contract False ops" and models: "model_contract I ops" using assms(2) by (auto simp: contracts_def)
  obtain x where x: "assemble_routes ops cfg I here best_sol iteration deadline (b, s) = Inr x"
      "assemble_post False ops cfg I here best_sol iteration deadline s x"
    using outcome_total [OF assemble_routes_outcome [OF assms(1) frvcp _ assms(3,4)]] models by blast
  obtain a b' s' where xe: "x = (a, b', s')" by (cases x)
  obtain s1 due where s1: "assembler_ready cfg iteration here best_sol s = Inr (s1, due)" "solver_ok cfg s1"
    and post: "if due then sp_phase_post False ops cfg I here best_sol deadline s1 x
         else fst x = (if continuation cfg = Record_Policy then Some here else None)"
    using x(2) by (auto simp: assemble_post_def)
  have cols: "\<forall>c \<in> set (main_columns (pool s1)). column_good c"
    using s1(2) main_columns_all [of column_good] by (auto simp: solver_ok_def pool_ok_def)
  obtain late s2 where two: "two_readings ops deadline s1 = (late, s2)" by fastforce
  have "if late \<or> \<not> pool_covers_all_customers I (main_columns (pool s1)) then a = None
       else \<exists>r. model_run ops I here best_sol deadline (main_columns (pool s1)) s2 r \<and>
         (if selected_columns r = [] then a = None
          else \<exists>sol. a = Some sol \<and> refined_selection I (main_columns (pool s1)) r sol)" if d: due
  proof (cases "late \<or> \<not> pool_covers_all_customers I (main_columns (pool s1))")
    case True
    then show ?thesis using post two unfolding xe sp_phase_post_def if_P [OF d] if_P [OF True] by simp
  next
    case False
    have "\<exists>r. model_run ops I here best_sol deadline (main_columns (pool s1)) s2 r \<and>
        selection_good False I (main_columns (pool s1)) r \<and> models_post False cfg I r (a, b', s')"
      using post unfolding xe sp_phase_post_def two prod.case if_P [OF d] if_not_P [OF False] by blast
    then show ?thesis using models_post_refined [OF _ _ cols] unfolding if_not_P [OF False] by blast
  qed
  moreover have "a = (if continuation cfg = Record_Policy then Some here else None)" if "\<not> due"
    using post xe that by simp
  moreover have "solver_ok cfg s'" using x(2) xe by (simp add: assemble_post_def)
  ultimately show ?thesis using s1(1) x(1) two unfolding xe
    by (intro exI [of _ s1] exI [of _ due] exI [of _ a] exI [of _ b'] exI [of _ s']) simp
qed

theorem assembler_output_witness:
  "\<exists>s0 s1 s2 r sol b' s'. make_solver () 0 demo_config = Inr s0 \<and>
     assembler_ready demo_config 2 demo_start None s0 = Inr (s1, True) \<and>
     assemble_routes demo_sp_ops demo_config demo_inst demo_start None 2 None (demo_unlimited, s0) = Inr (Some sol, b', s') \<and>
     model_run demo_sp_ops demo_inst demo_start None None (main_columns (pool s1)) s2 r \<and>
     refined_selection demo_inst (main_columns (pool s1)) r sol \<and>
     map col_plan (selected_columns r) = [demo_plan 1 5, demo_plan 3 7] \<and> plans sol = [demo_plan 1 4, demo_plan 3 7]"
proof -
  obtain s0 where s0: "make_solver () 0 demo_config = Inr s0" using demo_solver by blast
  have ok: "solver_ok demo_config s0" using make_solver_ok(2) [OF s0] .
  have "demo_pool [] (pool s0)"
    using s0 by (auto simp: make_solver_def make_pool_def rbind_eq_Inr_conv demo_pool_def demo_config_def split: if_splits)
  then obtain t where t: "assembler_ready demo_config 2 demo_start None s0 = Inr (t, True)" "solver_ok demo_config t"
      "main_columns (pool t) = [demo_column 1 5, demo_column 3 7]"
      "assemble_routes demo_sp_ops demo_config demo_inst demo_start None 2 None (demo_unlimited, s0) =
        run_sp_phase demo_sp_ops demo_config demo_inst demo_start None 2 None False (demo_unlimited, t)"
    using demo_ready [OF _ ok] by blast
  obtain s' where run: "run_sp_phase demo_sp_ops demo_config demo_inst demo_start None 2 None False (demo_unlimited, t) =
      Inr (Some \<lparr>plans = [demo_plan 1 4, demo_plan 3 7]\<rparr>, demo_unlimited, s')"
    using demo_phase [OF t(3,2)] by blast
  have "two_readings demo_sp_ops None t = (False, t)"
    by (simp add: two_readings_def deadline_expired_def)
  moreover have "pool_covers_all_customers demo_inst (main_columns (pool t))"
    by (simp add: t pool_covers_all_customers_def demo_inst_def demo_column_def)
  ultimately obtain r where r: "model_run demo_sp_ops demo_inst demo_start None None (main_columns (pool t)) t r"
      "refined_selection demo_inst (main_columns (pool t)) r \<lparr>plans = [demo_plan 1 4, demo_plan 3 7]\<rparr>"
    using assembler_output [OF demo_inst_ok demo_sp_contracts demo_working(1) ok,
        of 2 None None demo_unlimited] t(1,4) run by (auto split: if_splits)
  have "map col_plan (selected_columns r) = [demo_plan 1 5, demo_plan 3 7]"
    using r(1) t(3) by (auto simp: model_run_def demo_sp_ops_def demo_select_def demo_column_def demo_plan_def)
  then show ?thesis using s0 t(1,4) run r
    by - (rule exI [of _ s0], rule exI [of _ t], rule exI [of _ t], rule exI [of _ r],
      rule exI [of _ "\<lparr>plans = [demo_plan 1 4, demo_plan 3 7]\<rparr>"], rule exI [of _ demo_unlimited],
      rule exI [of _ s'], simp)
qed

section \<open>Warm starts\<close>

lemma cover_all_iff:
  "cover_all covered cs = (if distinct cs \<and> set cs \<inter> covered = {} then Some (covered \<union> set cs) else None)"
  by (induction cs arbitrary: covered) auto

definition column_for :: "route_column list \<Rightarrow> int list \<Rightarrow> bool" where
  "column_for columns S \<longleftrightarrow> (\<exists>c \<in> set columns. customer_set c = S)"

lemma first_column_spec:
  assumes sorted: "sorted_wrt (\<lambda>x y. \<not> main_column_less y x) columns"
    and c: "c \<in> set columns" "customer_set c = S"
  shows "first_column columns S < length columns" and "customer_set (columns ! first_column columns S) = S"
    and "cost_h (columns ! first_column columns S) \<le> cost_h c"
proof -
  let ?i = "first_column columns S"
  obtain j where j: "j < length columns" "columns ! j = c" using c(1) by (metis in_set_conv_nth)
  have le: "?i \<le> j"
  proof (rule ccontr)
    assume "\<not> ?i \<le> j"
    then have "j < length (takeWhile (\<lambda>c. customer_set c < S) columns)" by (simp add: first_column_def)
    then have "customer_set (columns ! j) < S"
      by (metis nth_mem set_takeWhileD takeWhile_nth)
    then show False using j c by simp
  qed
  then show i: "?i < length columns" using j by simp
  have "\<not> customer_set (columns ! ?i) < S"
    using nth_length_takeWhile [of "\<lambda>c. customer_set c < S" columns] i by (simp add: first_column_def)
  moreover have "\<not> main_column_less c (columns ! ?i)"
  proof (cases "?i = j")
    case True
    then show ?thesis using j stored.asym by blast
  next
    case False
    then have "?i < j" using le by simp
    then show ?thesis using sorted_wrt_nth_less [OF sorted _ j(1)] j(2) by blast
  qed
  ultimately show "customer_set (columns ! ?i) = S" "cost_h (columns ! ?i) \<le> cost_h c"
    using c(2) by (auto simp: main_column_less_def split: if_splits)
qed

lemma column_for_first:
  assumes "sorted_wrt (\<lambda>x y. \<not> main_column_less y x) columns"
  shows "column_for columns S \<longleftrightarrow>
    \<not> (first_column columns S = length columns \<or> customer_set (columns ! first_column columns S) \<noteq> S)"
proof -
  have "first_column columns S \<le> length columns" by (simp add: first_column_def length_takeWhile_le)
  then show ?thesis using first_column_spec [OF assms] by (fastforce simp: column_for_def)
qed

lemma start_loop_correct:
  assumes "sorted_wrt (\<lambda>x y. \<not> main_column_less y x) columns"
  shows "start_loop columns chosen obj covered Ss =
    (if (\<forall>S \<in> set Ss. column_for columns S) \<and> distinct (concat Ss) \<and> set (concat Ss) \<inter> covered = {}
     then Some (chosen @ map (first_column columns) Ss,
       obj + sum_list (map (\<lambda>S. cost_h (columns ! first_column columns S)) Ss), covered \<union> set (concat Ss))
     else None)"
  using column_for_first [OF assms]
  by (induction Ss arbitrary: chosen obj covered) (auto simp: Let_def cover_all_iff add.assoc simp del: not_less)

lemma main_columns_sorted: "sorted_wrt (\<lambda>x y. \<not> main_column_less y x) (main_columns p)"
  unfolding main_columns_def by (rule stored.sorted_sort_by)

lemma cheapest_first:
  assumes "column_for (main_columns p) S"
  shows "cost_h (main_columns p ! first_column (main_columns p) S) =
    Min {cost_h c | c. c \<in> set (main_columns p) \<and> customer_set c = S}"
proof (rule Min_eqI [symmetric])
  let ?i = "first_column (main_columns p) S"
  note spec = first_column_spec [OF main_columns_sorted]
  show "finite {cost_h c | c. c \<in> set (main_columns p) \<and> customer_set c = S}" by simp
  show "cost_h (main_columns p ! ?i) \<le> y" if "y \<in> {cost_h c | c. c \<in> set (main_columns p) \<and> customer_set c = S}" for y
    using that spec(3) by blast
  obtain c where "c \<in> set (main_columns p)" "customer_set c = S" using assms by (auto simp: column_for_def)
  then show "cost_h (main_columns p ! ?i) \<in> {cost_h c | c. c \<in> set (main_columns p) \<and> customer_set c = S}"
    using spec(1,2) [of c p S] nth_mem by blast
qed

text \<open>
  C29: a warm start of the set-partitioning model exists exactly when the requested customer
  sets are the sets of columns of the main pool and partition the customers; it then names one
  column per requested set, in order, the cheapest of that set, and its objective is the sum
  of these cheapest costs.
\<close>

theorem mip_start_exact:
  assumes "inst_ok I"
  shows "make_sp_mip_start I (main_columns p) requested src =
    (if requested \<noteq> [] \<and> (\<forall>S \<in> set requested. column_for (main_columns p) S) \<and>
        distinct (concat requested) \<and> set (concat requested) = set (customer_ids I)
     then Some \<lparr>start_columns = map (first_column (main_columns p)) requested, start_source = src,
       start_objective_h = Some (sum_list (map (\<lambda>S.
         Min {cost_h c | c. c \<in> set (main_columns p) \<and> customer_set c = S}) requested))\<rparr>
     else None) \<and>
    (\<forall>S. column_for (main_columns p) S \<longrightarrow> first_column (main_columns p) S < length (main_columns p) \<and>
       customer_set (main_columns p ! first_column (main_columns p) S) = S)"
proof -
  let ?cols = "main_columns p"
  let ?found = "\<forall>S \<in> set requested. column_for ?cols S"
  have all: "card X = length (customer_ids I) \<and> list_all (\<lambda>c. c \<in> X) (customer_ids I) \<longleftrightarrow> X = set (customer_ids I)"
    if "finite X" for X
    using that distinct_card [OF customer_ids_distinct [OF assms]] card_subset_eq [of X "set (customer_ids I)"]
    by (auto simp: list_all_iff subset_iff)
  have loop: "start_loop ?cols [] 0 {} requested =
      (if ?found \<and> distinct (concat requested)
       then Some (map (first_column ?cols) requested,
         sum_list (map (\<lambda>S. cost_h (?cols ! first_column ?cols S)) requested), set (concat requested)) else None)"
    by (simp add: start_loop_correct [OF main_columns_sorted])
  have cost: "sum_list (map (\<lambda>S. cost_h (?cols ! first_column ?cols S)) requested) =
      sum_list (map (\<lambda>S. Min {cost_h c | c. c \<in> set ?cols \<and> customer_set c = S}) requested)" if ?found
    by (rule arg_cong [where f = sum_list], rule map_cong [OF refl]) (use that cheapest_first in blast)
  have "make_sp_mip_start I ?cols requested src =
    (if requested \<noteq> [] \<and> ?found \<and> distinct (concat requested) \<and> set (concat requested) = set (customer_ids I)
     then Some \<lparr>start_columns = map (first_column ?cols) requested, start_source = src,
       start_objective_h = Some (sum_list (map (\<lambda>S. Min {cost_h c | c. c \<in> set ?cols \<and> customer_set c = S}) requested))\<rparr>
     else None)"
    unfolding make_sp_mip_start_def loop using all [of "set (concat requested)"] cost
    by (auto simp del: set_concat)
  moreover have "first_column ?cols S < length ?cols \<and> customer_set (?cols ! first_column ?cols S) = S"
    if "column_for ?cols S" for S
    using that first_column_spec [OF main_columns_sorted] by (auto simp: column_for_def)
  ultimately show ?thesis by blast
qed

definition start_pool :: route_pool where
  "start_pool = sample_pool\<lparr>pool_capacity := 3, main_pool :=
     [([1], sample_column 1 5), ([3], sample_column 3 2), ([1, 1], sample_column 1 4)]\<rparr>"

theorem mip_start_exact_witness:
  "make_sp_mip_start demo_inst (main_columns start_pool) [[3], [1]] ''local_feasible'' =
     Some \<lparr>start_columns = [2, 0], start_source = ''local_feasible'', start_objective_h = Some 6\<rparr>"
proof -
  have cols: "main_columns start_pool = [sample_column 1 4, sample_column 1 5, sample_column 3 2]"
    by (simp add: main_columns_def start_pool_def sort_by_def main_column_less_def sample_column_def)
  have sets: "{cost_h c | c. c \<in> set (main_columns start_pool) \<and> customer_set c = [3]} = {2}"
    "{cost_h c | c. c \<in> set (main_columns start_pool) \<and> customer_set c = [1]} = {4, 5}"
    unfolding cols by (safe, simp_all add: sample_column_def) (auto intro: exI [of _ "sample_column 3 2"]
      exI [of _ "sample_column 1 4"] exI [of _ "sample_column 1 5"] simp: sample_column_def)
  have "first_column (main_columns start_pool) [3] = 2" "first_column (main_columns start_pool) [1] = 0"
    "column_for (main_columns start_pool) [3]" "column_for (main_columns start_pool) [1]"
    unfolding cols by (simp_all add: first_column_def column_for_def sample_column_def)
  moreover have "set (customer_ids demo_inst) = {1, 3}" by (simp add: demo_inst_def)
  ultimately show ?thesis
    using conjunct1 [OF mip_start_exact [OF demo_inst_ok, of start_pool "[[3], [1]]" "''local_feasible''"]]
    by (auto simp: sets)
qed


section \<open>Penalty feedback\<close>

lemma scale_up:
  assumes "0 \<le> (l::real)" and "1 < f" and "l \<le> m"
  shows "min m (min m (l * f ^ n) * f) = min m (l * f ^ Suc n)"
proof (cases "l * f ^ n \<le> m")
  case False
  have "m \<le> m * f" using assms by (simp add: mult_le_cancel_left1)
  moreover have "m * f \<le> l * f ^ n * f" using False assms(2) by (intro mult_right_mono) auto
  ultimately show ?thesis using False by (simp add: mult.assoc power_commutes)
qed (simp add: mult.assoc mult.commute mult.left_commute)

lemma scale_down:
  assumes "0 \<le> (m::real)" and "1 < f" and "m \<le> l"
  shows "max m (max m (l / f ^ n) / f) = max m (l / f ^ Suc n)"
proof (cases "m \<le> l / f ^ n")
  case False
  have "m / f \<le> m" using assms by (simp add: divide_le_eq mult_le_cancel_left1)
  moreover have "l / f ^ n / f \<le> m / f" using False assms(2) by (intro divide_right_mono) auto
  ultimately show ?thesis using False by (simp add: divide_divide_eq_left mult.commute)
qed (simp add: divide_divide_eq_left mult.commute)

lemma window_step:
  assumes "0 < (w::nat)"
  shows "Suc n div w = (if Suc (n mod w) \<ge> w then Suc (n div w) else n div w)"
    and "Suc n mod w = (if Suc (n mod w) \<ge> w then 0 else Suc (n mod w))"
  using mod_less_divisor [OF assms, of n] div_Suc [of n w] mod_Suc [of n w] by auto

lemma observe_infeasible:
  "0 < penalty_window p \<Longrightarrow>
   observe_penalty p False \<lparr>penalty_lambda = l, consecutive_feasible = 0, consecutive_infeasible = c\<rparr> =
     (if Suc c \<ge> penalty_window p
      then \<lparr>penalty_lambda = min (lambda_max p) (l * penalty_factor p), consecutive_feasible = 0, consecutive_infeasible = 0\<rparr>
      else \<lparr>penalty_lambda = l, consecutive_feasible = 0, consecutive_infeasible = Suc c\<rparr>)"
  by (simp add: observe_penalty_def Let_def)

lemma observe_feasible:
  "0 < penalty_window p \<Longrightarrow>
   observe_penalty p True \<lparr>penalty_lambda = l, consecutive_feasible = c, consecutive_infeasible = 0\<rparr> =
     (if Suc c \<ge> penalty_window p
      then \<lparr>penalty_lambda = max (lambda_min p) (l / penalty_factor p), consecutive_feasible = 0, consecutive_infeasible = 0\<rparr>
      else \<lparr>penalty_lambda = l, consecutive_feasible = Suc c, consecutive_infeasible = 0\<rparr>)"
  by (simp add: observe_penalty_def Let_def)

text \<open>
  C39: the penalty feedback in closed form: after \<open>n\<close> infeasible solutions in a row the
  penalty has been multiplied by the factor once per full window, capped at the maximum, and
  the counter holds the rest of the window; after \<open>n\<close> feasible ones it has been divided
  likewise, down to the minimum.
\<close>

theorem penalty_feedback_closed_form:
  assumes "params_ok p" and "penalty_ok p s" and "consecutive_infeasible s = 0" and "consecutive_feasible s = 0"
  shows "fold (observe_penalty p) (replicate n False) s =
      \<lparr>penalty_lambda = min (lambda_max p) (penalty_lambda s * penalty_factor p ^ (n div penalty_window p)),
       consecutive_feasible = 0, consecutive_infeasible = n mod penalty_window p\<rparr> \<and>
    fold (observe_penalty p) (replicate n True) s =
      \<lparr>penalty_lambda = max (lambda_min p) (penalty_lambda s / penalty_factor p ^ (n div penalty_window p)),
       consecutive_feasible = n mod penalty_window p, consecutive_infeasible = 0\<rparr>"
proof -
  have w: "0 < penalty_window p" and f: "1 < penalty_factor p" "0 \<le> lambda_min p"
    and l: "lambda_min p \<le> penalty_lambda s" "penalty_lambda s \<le> lambda_max p"
    using assms(1,2) by (auto simp: params_ok_def penalty_ok_def)
  then have l0: "0 \<le> penalty_lambda s" by simp
  have split: "replicate (Suc n) b = replicate n b @ [b]" for n and b :: bool
    by (simp add: replicate_append_same)
  show ?thesis
  proof (induction n)
    case 0
    then show ?case using assms(3,4) l by (cases s) auto
  next
    case (Suc n)
    let ?k = "n div penalty_window p"
    show ?case
    proof (cases "Suc (n mod penalty_window p) \<ge> penalty_window p")
      case True
      then show ?thesis
        using scale_up [OF l0 f(1) l(2), of ?k] scale_down [OF f(2,1) l(1), of ?k]
        by (simp only: split fold_append comp_apply fold_simps Suc observe_infeasible [OF w] observe_feasible [OF w]
            window_step [OF w] if_True)
    next
      case False
      then show ?thesis
        by (simp only: split fold_append comp_apply fold_simps Suc observe_infeasible [OF w] observe_feasible [OF w]
            window_step [OF w] if_False)
    qed
  qed
qed

theorem penalty_feedback_closed_form_witness:
  "fold (observe_penalty (paper demo_config)) (replicate 7 False)
     \<lparr>penalty_lambda = 4, consecutive_feasible = 0, consecutive_infeasible = 0\<rparr> =
   \<lparr>penalty_lambda = 16, consecutive_feasible = 0, consecutive_infeasible = 1\<rparr>"
proof -
  let ?s = "\<lparr>penalty_lambda = 4, consecutive_feasible = 0, consecutive_infeasible = 0\<rparr>"
  have "params_ok (paper demo_config)" "penalty_ok (paper demo_config) ?s"
    by (simp_all add: params_ok_def penalty_ok_def demo_config_def)
  from penalty_feedback_closed_form [OF this, of 7] show ?thesis by (simp add: demo_config_def)
qed

section \<open>Deadlines\<close>

text \<open>
  A deadline is either refused - because the limit is not a finite positive number or the
  clock would overflow - or it is the last tick not after the requested moment, inside the
  range of the clock.
\<close>

theorem checked_deadline_exact:
  assumes "0 \<le> start" and "start \<le> clock_max"
  shows "(case checked_deadline_after start seconds of
      Inl e \<Rightarrow> \<not> isfinite seconds \<or> seconds \<le> 0 \<or> of_int start + ticks_of seconds > of_int clock_max
    | Inr d \<Rightarrow> start \<le> d \<and> d \<le> clock_max \<and> 0 < seconds \<and>
        of_int d \<le> of_int start + ticks_of seconds \<and> of_int start + ticks_of seconds < of_int d + 1)"
proof -
  let ?t = "ticks_of seconds"
  have "isfinite (of_int clock_max)" by (rule isfinite_numeral_small) (simp add: clock_max_def)
  then have clock: "of_int clock_max \<le> dbl_max" by (simp add: isfinite_def)
  have big: "of_int start + ?t > of_int clock_max" if "\<not> isfinite ?t" "0 < ?t"
    using that clock assms by (simp add: isfinite_def)
  have pos: "0 < seconds \<Longrightarrow> 0 < ?t" by (simp add: ticks_of_def)
  have fl: "0 \<le> \<lfloor>?t\<rfloor> \<and> start + \<lfloor>?t\<rfloor> \<le> clock_max" if "0 < seconds" "?t \<le> of_int (clock_max - start)"
  proof -
    have "\<lfloor>?t\<rfloor> \<le> clock_max - start" using floor_mono [OF that(2)] by (simp only: floor_of_int)
    moreover have "0 \<le> \<lfloor>?t\<rfloor>" using pos [OF that(1)] by simp
    ultimately show ?thesis by simp
  qed
  show ?thesis
  proof (cases "checked_deadline_after start seconds")
    case (Inl e)
    then show ?thesis using big pos assms(1) by (auto simp: checked_deadline_after_def split: if_splits)
  next
    case (Inr d)
    then have d: "0 < seconds" "?t \<le> of_int (clock_max - start)" "d = start + \<lfloor>?t\<rfloor>"
      by (auto simp: checked_deadline_after_def split: if_splits)
    have sum: "of_int d = of_int start + (of_int \<lfloor>?t\<rfloor> :: real)" using d(3) by simp
    have "of_int \<lfloor>?t\<rfloor> \<le> ?t" "?t < of_int \<lfloor>?t\<rfloor> + 1" using floor_correct [of ?t] by auto
    then have "of_int d \<le> of_int start + ?t" "of_int start + ?t < of_int d + 1" unfolding sum by linarith+
    moreover have "start \<le> d" "d \<le> clock_max" using fl [OF d(1,2)] d(3) by auto
    ultimately show ?thesis using d(1) Inr by simp
  qed
qed

theorem checked_deadline_exact_witness:
  "checked_deadline_after 7 (3 / 2) = Inr 1500000007 \<and>
   (\<exists>d. checked_deadline_after 7 (3 / 2) = Inr d \<and> 7 \<le> d \<and> d \<le> clock_max)"
proof -
  have "isfinite (3 / 2)" "isfinite (1500000000)" by (auto intro!: isfinite_numeral_small)
  then have run: "checked_deadline_after 7 (3 / 2) = Inr 1500000007"
    by (simp add: checked_deadline_after_def ticks_of_def clock_max_def)
  have "7 \<le> clock_max" by (simp add: clock_max_def)
  with checked_deadline_exact [of 7 "3 / 2"] run show ?thesis by simp
qed

end
