(* ===== verification/Effects.thy ===== *)
theory Effects
  imports Prelude
begin

text \<open>
  Computations that may throw and whose evaluator loops are run with fuel: \<open>None\<close> is a loop that
  does not return, \<open>Some (Inl e)\<close> an exception.  The rules of \<open>yields\<close> take a computation apart
  along its binds, folds and branches.
\<close>

type_synonym 'a eff = "'a result option"

definition ret :: "'a \<Rightarrow> 'a eff" where
  "ret x = Some (Inr x)"

definition throw :: "error \<Rightarrow> 'a eff" where
  "throw e = Some (Inl e)"

definition ebind :: "'a eff \<Rightarrow> ('a \<Rightarrow> 'b eff) \<Rightarrow> 'b eff" where
  "ebind m f = (case m of None \<Rightarrow> None | Some (Inl e) \<Rightarrow> Some (Inl e) | Some (Inr x) \<Rightarrow> f x)"

text \<open>A computation that cannot loop.\<close>

definition lifted :: "'a result \<Rightarrow> 'a eff" where
  "lifted r = Some r"

lemma ebind_simps [simp]:
  "ebind None f = None" "ebind (throw e) f = throw e" "ebind (ret x) f = f x"
  by (simp_all add: ebind_def throw_def ret_def)

lemma lifted_simps [simp]: "lifted (Inr x) = ret x" "lifted (Inl e) = throw e"
  by (simp_all add: lifted_def ret_def throw_def)

lemma ret_eq [simp]: "ret x = ret y \<longleftrightarrow> x = y" "throw e \<noteq> ret x" "ret x \<noteq> throw e"
  by (auto simp: ret_def throw_def)

lemma ebind_cong [fundef_cong]:
  "m = m' \<Longrightarrow> (\<And>x. m' = ret x \<Longrightarrow> f x = f' x) \<Longrightarrow> ebind m f = ebind m' f'"
  by (auto simp: ebind_def ret_def split: option.split sum.split)

lemma ebind_ret_conv: "ebind m f = ret y \<longleftrightarrow> (\<exists>x. m = ret x \<and> f x = ret y)"
  by (auto simp: ebind_def ret_def split: option.splits sum.splits)

lemma ebind_assoc: "ebind (ebind m f) g = ebind m (\<lambda>x. ebind (f x) g)"
  by (auto simp: ebind_def split: option.split sum.split)

fun efold :: "('s \<Rightarrow> 'a \<Rightarrow> 's eff) \<Rightarrow> 's \<Rightarrow> 'a list \<Rightarrow> 's eff" where
  "efold f s [] = ret s"
| "efold f s (x # xs) = ebind (f s x) (\<lambda>s'. efold f s' xs)"

lemma efold_append: "efold f s (xs @ ys) = ebind (efold f s xs) (\<lambda>s'. efold f s' ys)"
  by (induction xs arbitrary: s) (simp_all add: ebind_assoc)

section \<open>What a computation yields\<close>

text \<open>
  It returns a value with \<open>P\<close>, or throws where \<open>err\<close> allows it; it never loops.
\<close>

definition yields :: "bool \<Rightarrow> ('a \<Rightarrow> bool) \<Rightarrow> 'a eff \<Rightarrow> bool" where
  "yields err P m = (case m of None \<Rightarrow> False | Some (Inl e) \<Rightarrow> err | Some (Inr x) \<Rightarrow> P x)"

lemma yields_simps [simp]:
  "yields err P (ret x) = P x" "yields err P (throw e) = err" "\<not> yields err P None"
  by (simp_all add: yields_def ret_def throw_def)

lemma eff_cases:
  obtains "m = None" | e where "m = throw e" | x where "m = ret x"
proof (cases m)
  case (Some r)
  then show thesis using that by (cases r) (auto simp: throw_def ret_def)
qed

lemma yields_bind: "yields err Q m \<Longrightarrow> (\<And>x. Q x \<Longrightarrow> m = ret x \<Longrightarrow> yields err P (f x)) \<Longrightarrow> yields err P (ebind m f)"
  by (cases m rule: eff_cases) auto

lemma yields_mono: "yields err Q m \<Longrightarrow> (\<And>x. Q x \<Longrightarrow> P x) \<Longrightarrow> yields err P m"
  by (auto simp: yields_def split: option.splits sum.splits)

lemma yields_ret: "yields err P m \<Longrightarrow> m = ret x \<Longrightarrow> P x"
  by simp

lemma yields_total: "yields False P m \<Longrightarrow> \<exists>x. m = ret x \<and> P x"
  by (auto simp: yields_def ret_def split: option.splits sum.splits)

lemma yields_lifted: "yields err P (lifted r) \<longleftrightarrow> (case r of Inl e \<Rightarrow> err | Inr x \<Rightarrow> P x)"
  by (cases r) simp_all

lemma yields_allowed: "m \<noteq> None \<Longrightarrow> (\<And>x. m = ret x \<Longrightarrow> P x) \<Longrightarrow> yields True P m"
  by (cases m) (auto simp: yields_def ret_def split: sum.split)

lemma yields_efold:
  assumes "P s" and "\<And>s x. x \<in> set xs \<Longrightarrow> P s \<Longrightarrow> yields err P (f s x)"
  shows "yields err P (efold f s xs)"
  using assms
proof (induction xs arbitrary: s)
  case (Cons x xs)
  show ?case by (simp, rule yields_bind [where Q = P]) (use Cons in auto)
qed simp

end
