(* ===== verification/Insertion_Moves.thy ===== *)
theory Insertion_Moves
  imports Effects Sequence_Scorer Granular_Neighborhood Sp_Certificate "HOL-Library.Option_ord" "HOL-Library.Product_Lexorder"
begin

text \<open>
  Candidate insertions of the construction and repair heuristics (src/search.cpp): the moves of
  a customer with their direct costs and lower bounds, their orders, and the completion of a
  move by station paths, memoised per physical route.

  The lower bound of a move may be minus infinity, the value \<open>None\<close> (the least value of the
  order on options).  Counters that are only reported are not modelled.  The parameter
  \<open>rank_by_linked_lower_bound\<close> of \<open>insertion_moves\<close> and \<open>repair_affected_paths\<close> of
  \<open>evaluate_linked_insertion\<close> are false at every call and left out.
\<close>

definition kLinkedBoundSafety :: real where
  "kLinkedBoundSafety = 100 * kCostTolerance"

section \<open>Moves\<close>

record insertion_completion =
  completed_plan :: plan
  absolute_cost :: real
  completion_changed :: bool
  completion_repairs :: bool

record virtual_completion =
  virtual_summary :: route_cost_summary
  virtual_cost_h :: real
  virtual_gaps :: "(int \<times> int) list"
  virtual_paths :: "int list list"
  virtual_changed :: bool
  virtual_repairs :: bool

record insertion_move =
  move_customer :: int
  move_route :: nat
  move_position :: nat
  incumbent_route_cost :: real
  direct_delta :: real
  bound_delta :: "real option"
  move_delta :: real
  move_evaluated :: bool
  move_completion :: "insertion_completion option"
  move_virtual :: "virtual_completion option"
  infeasible_to_feasible :: bool

definition move_slot :: "insertion_move \<Rightarrow> int \<times> nat \<times> nat" where
  "move_slot m = (move_customer m, move_route m, move_position m)"

definition insertion_better :: "insertion_move \<Rightarrow> insertion_move \<Rightarrow> bool" where
  "insertion_better l r \<longleftrightarrow> (move_delta l, move_slot l) < (move_delta r, move_slot r)"

definition direct_insertion_better :: "insertion_move \<Rightarrow> insertion_move \<Rightarrow> bool" where
  "direct_insertion_better l r \<longleftrightarrow> (direct_delta l, move_slot l) < (direct_delta r, move_slot r)"

record rejected_insertion =
  rejected_customer :: int
  rejected_route :: nat
  rejected_position :: nat

text \<open>
  What the enumeration reads: the instance, the penalty, the rounding to the next double, the
  bound of the path sampler (a null sampler gives minus infinity, as does a disabled bound), and the granular
  neighbourhood when the profile has one.
\<close>

record insertion_context =
  ctx_inst :: inst
  ctx_lambda :: real
  ctx_fp :: fp_env
  ctx_bound :: "(route_cost_summary \<Rightarrow> real \<Rightarrow> nat \<Rightarrow> nat \<Rightarrow> real option) option"
  ctx_granular :: "granular option"

definition linked_route_lower_bound ::
  "insertion_context \<Rightarrow> route_cost_summary \<Rightarrow> nat \<Rightarrow> nat \<Rightarrow> real option" where
  "linked_route_lower_bound ctx summary source_visits source_customers =
     (case ctx_bound ctx of None \<Rightarrow> None | Some b \<Rightarrow> b summary (ctx_lambda ctx) source_visits source_customers)"

definition insertion_sequence :: "solution \<Rightarrow> insertion_move \<Rightarrow> int list" where
  "insertion_sequence current m =
     (if move_route m = length (plans current) then [move_customer m]
      else let cs = plan_customers (plans current ! move_route m)
           in take (move_position m) cs @ move_customer m # drop (move_position m) cs)"

definition fresh_move :: "int \<Rightarrow> nat \<Rightarrow> nat \<Rightarrow> real \<Rightarrow> real \<Rightarrow> real option \<Rightarrow> insertion_move" where
  "fresh_move c r k old_cost delta bound =
     \<lparr>move_customer = c, move_route = r, move_position = k, incumbent_route_cost = old_cost,
      direct_delta = delta, bound_delta = bound, move_delta = delta, move_evaluated = False,
      move_completion = None, move_virtual = None, infeasible_to_feasible = False\<rparr>"

definition incumbent_cost :: "insertion_context \<Rightarrow> plan \<Rightarrow> real result" where
  "incumbent_cost ctx p =
     rbind (deref (evaluation p)) (\<lambda>ev. generalized_cost ev (ctx_inst ctx) (ctx_lambda ctx))"

text \<open>The lower bound on the change of the cost, rounded down.\<close>

definition linked_delta :: "insertion_context \<Rightarrow> plan \<Rightarrow> real \<Rightarrow> route_cost_summary \<Rightarrow> real option" where
  "linked_delta ctx old_plan old_cost summary =
     map_option (\<lambda>b. fp_down (ctx_fp ctx) (b - old_cost))
       (linked_route_lower_bound ctx summary (length (visits (plan_route old_plan)))
          (length (plan_customers old_plan)))"

definition position_move ::
  "insertion_context \<Rightarrow> sequence_scorer \<Rightarrow> bool \<Rightarrow> int \<Rightarrow> nat \<Rightarrow> plan \<Rightarrow> real \<Rightarrow> nat \<Rightarrow> insertion_move eff" where
  "position_move ctx sc calculate c r old_plan old_cost k =
     ebind (score_insertion (ctx_inst ctx) sc r k c) (\<lambda>summary.
     ebind (lifted (summary_cost summary (ctx_inst ctx) (ctx_lambda ctx))) (\<lambda>cost.
     let delta = cost - old_cost
     in ret (fresh_move c r k old_cost delta
          (if calculate then linked_delta ctx old_plan old_cost summary else Some delta))))"

definition granular_allows :: "insertion_context \<Rightarrow> plan \<Rightarrow> nat \<Rightarrow> int \<Rightarrow> bool result" where
  "granular_allows ctx old_plan k c =
     (case ctx_granular ctx of None \<Rightarrow> Inr True
      | Some g \<Rightarrow> allows_insertion g (plan_customers old_plan) k c)"

definition consider_position ::
  "insertion_context \<Rightarrow> sequence_scorer \<Rightarrow> bool \<Rightarrow> int \<Rightarrow> nat \<Rightarrow> plan \<Rightarrow> real \<Rightarrow>
     insertion_move list \<times> rejected_insertion list \<Rightarrow> nat \<Rightarrow> (insertion_move list \<times> rejected_insertion list) eff" where
  "consider_position ctx sc calculate c r old_plan old_cost x k =
     (case x of (moves, rejected) \<Rightarrow>
       ebind (lifted (granular_allows ctx old_plan k c)) (\<lambda>allowed.
       if \<not> allowed
       then ret (moves, rejected @ [\<lparr>rejected_customer = c, rejected_route = r, rejected_position = k\<rparr>])
       else ebind (position_move ctx sc calculate c r old_plan old_cost k) (\<lambda>m. ret (moves @ [m], rejected))))"

definition consider_route ::
  "insertion_context \<Rightarrow> sequence_scorer \<Rightarrow> bool \<Rightarrow> int \<Rightarrow>
     insertion_move list \<times> rejected_insertion list \<Rightarrow> nat \<times> plan \<Rightarrow> (insertion_move list \<times> rejected_insertion list) eff" where
  "consider_route ctx sc calculate c x rp =
     (case rp of (r, old_plan) \<Rightarrow>
       ebind (lifted (incumbent_cost ctx old_plan)) (\<lambda>old_cost.
       efold (consider_position ctx sc calculate c r old_plan old_cost) x
         [0..<length (plan_customers old_plan) + 1]))"

definition singleton_move ::
  "insertion_context \<Rightarrow> sequence_scorer \<Rightarrow> bool \<Rightarrow> solution \<Rightarrow> int \<Rightarrow> insertion_move eff" where
  "singleton_move ctx sc calculate current c =
     ebind (score_sequence (ctx_inst ctx) sc [c]) (\<lambda>summary.
     ebind (lifted (summary_cost summary (ctx_inst ctx) (ctx_lambda ctx))) (\<lambda>cost.
     ret (fresh_move c (length (plans current)) 0 0 cost
       (if calculate then linked_route_lower_bound ctx summary 0 0 else Some cost))))"

definition insertion_moves ::
  "insertion_context \<Rightarrow> sequence_scorer \<Rightarrow> bool \<Rightarrow> solution \<Rightarrow> int \<Rightarrow>
     (insertion_move list \<times> rejected_insertion list) eff" where
  "insertion_moves ctx sc calculate current c =
     ebind (efold (consider_route ctx sc calculate c) ([], []) (List.enumerate 0 (plans current))) (\<lambda>(moves, rejected).
     ebind (singleton_move ctx sc calculate current c) (\<lambda>m. ret (moves @ [m], rejected)))"

text \<open>The moves of several customers, in their order.\<close>

definition all_insertion_moves ::
  "insertion_context \<Rightarrow> sequence_scorer \<Rightarrow> bool \<Rightarrow> solution \<Rightarrow> int list \<Rightarrow>
     (insertion_move list \<times> rejected_insertion list) eff" where
  "all_insertion_moves ctx sc calculate current unassigned =
     efold (\<lambda>(ms, rs) c. ebind (insertion_moves ctx sc calculate current c) (\<lambda>(ms', rs').
       ret (ms @ ms', rs @ rs'))) ([], []) unassigned"

definition rejected_insertion_move ::
  "insertion_context \<Rightarrow> sequence_scorer \<Rightarrow> solution \<Rightarrow> rejected_insertion \<Rightarrow> insertion_move eff" where
  "rejected_insertion_move ctx sc current d =
     (if rejected_route d \<ge> length (plans current) then throw (Out_Of_Range ''granular escape has invalid route'')
      else let old_plan = plans current ! rejected_route d
           in ebind (lifted (incumbent_cost ctx old_plan)) (\<lambda>old_cost.
              position_move ctx sc True (rejected_customer d) (rejected_route d) old_plan old_cost (rejected_position d)))"

section \<open>Best moves\<close>

text \<open>\<open>std::min_element\<close>: the first of the least elements.\<close>

fun min_from :: "('a \<Rightarrow> 'a \<Rightarrow> bool) \<Rightarrow> 'a list \<Rightarrow> nat \<Rightarrow> nat list \<Rightarrow> nat" where
  "min_from better xs b [] = b"
| "min_from better xs b (i # is) = min_from better xs (if better (xs ! i) (xs ! b) then i else b) is"

definition min_index :: "('a \<Rightarrow> 'a \<Rightarrow> bool) \<Rightarrow> 'a list \<Rightarrow> nat" where
  "min_index better xs = min_from better xs 0 [1..<length xs]"

text \<open>
  The bound queue pops the indices in the order of their bounds, then of customer, route,
  position and index: a strict order, so that the heap pops the sorted list.
\<close>

definition bound_key :: "insertion_move list \<Rightarrow> nat \<Rightarrow> real option \<times> (int \<times> nat \<times> nat) \<times> nat" where
  "bound_key moves i = (bound_delta (moves ! i), move_slot (moves ! i), i)"

definition bound_queue :: "insertion_move list \<Rightarrow> nat list" where
  "bound_queue moves = sort_key (bound_key moves) [0..<length moves]"

record best_two =
  first_index :: "nat option"
  second_index :: "nat option"

definition consider_best_two :: "(nat \<Rightarrow> nat \<Rightarrow> bool) \<Rightarrow> nat \<Rightarrow> best_two \<Rightarrow> best_two" where
  "consider_best_two better i b =
     (if (case first_index b of None \<Rightarrow> True | Some f \<Rightarrow> better i f)
      then b\<lparr>second_index := first_index b, first_index := Some i\<rparr>
      else if (case second_index b of None \<Rightarrow> True | Some s \<Rightarrow> better i s) then b\<lparr>second_index := Some i\<rparr>
      else b)"

definition no_best :: best_two where
  "no_best = \<lparr>first_index = None, second_index = None\<rparr>"

text \<open>A regret is infinite (\<open>None\<close>) when there is no second move.\<close>

record direct_ranking =
  dr_indices :: best_two
  dr_best :: insertion_move
  dr_regret :: "real option"

definition direct_customer_ranking :: "insertion_move list \<Rightarrow> direct_ranking result" where
  "direct_customer_ranking moves =
     (if moves = [] then Inl (Logic_Error ''customer has no insertion'')
      else let b = fold (consider_best_two (\<lambda>i j. direct_insertion_better (moves ! i) (moves ! j)))
                     [0..<length moves] no_best
           in case first_index b of
                None \<Rightarrow> Inl (Undefined ''empty optional'')
              | Some i \<Rightarrow> Inr \<lparr>dr_indices = b, dr_best = moves ! i,
                  dr_regret = map_option (\<lambda>j. direct_delta (moves ! j) - direct_delta (moves ! i)) (second_index b)\<rparr>)"

definition regret_better :: "real option \<Rightarrow> insertion_move \<Rightarrow> real option \<Rightarrow> insertion_move \<Rightarrow> bool" where
  "regret_better candidate_regret candidate incumbent_regret incumbent =
     (case (candidate_regret, incumbent_regret) of
        (None, None) \<Rightarrow> insertion_better candidate incumbent
      | (None, Some _) \<Rightarrow> True
      | (Some _, None) \<Rightarrow> False
      | (Some c, Some i) \<Rightarrow> c > i + kCostTolerance \<or>
          (c = i \<or> \<bar>c - i\<bar> \<le> kCostTolerance) \<and> insertion_better candidate incumbent)"

end
