(* ===== verification/Insertion_Choice.thy ===== *)
theory Insertion_Choice
  imports Insertion_Moves
begin

text \<open>
  The choice of the next insertion (src/search.cpp: \<open>choose_linked_greedy\<close>,
  \<open>rank_linked_customer\<close>, \<open>choose_linked_two_regret\<close> and their lazy variants, which differ
  only in how a move is completed).  A move is completed by \<open>eval\<close>, which replaces its direct cost by the cost
  of the completed route; \<open>release\<close> drops the completion of a move that lost.  Only the moves
  whose lower bound can still matter are completed.
\<close>

section \<open>Greedy insertion\<close>

type_synonym 's completer = "insertion_move \<Rightarrow> 's \<Rightarrow> (insertion_move \<times> 's) eff"

definition beyond :: "real option \<Rightarrow> real \<Rightarrow> bool" where
  "beyond bound limit = (case bound of None \<Rightarrow> False | Some b \<Rightarrow> b > limit + kLinkedBoundSafety)"

fun scan_bounds ::
  "'s completer \<Rightarrow> (insertion_move \<Rightarrow> insertion_move) \<Rightarrow> nat list \<Rightarrow> insertion_move list \<times> nat \<times> 's \<Rightarrow>
     (insertion_move list \<times> nat \<times> 's) eff" where
  "scan_bounds eval release [] x = ret x"
| "scan_bounds eval release (i # q) x =
     (case x of (moves, b, s) \<Rightarrow>
       if move_evaluated (moves ! i) then scan_bounds eval release q x
       else if beyond (bound_delta (moves ! i)) (move_delta (moves ! b)) then ret x
       else ebind (eval (moves ! i) s) (\<lambda>(m, s').
         if insertion_better m (moves ! b)
         then scan_bounds eval release q ((moves[i := m])[b := release (moves ! b)], i, s')
         else scan_bounds eval release q (moves[i := release m], b, s')))"

definition choose_greedy ::
  "'s completer \<Rightarrow> (insertion_move \<Rightarrow> insertion_move) \<Rightarrow> insertion_move list \<Rightarrow> 's \<Rightarrow> (insertion_move \<times> 's) eff" where
  "choose_greedy eval release moves s =
     (if moves = [] then throw (Logic_Error ''no insertion candidate exists'')
      else let d = min_index direct_insertion_better moves
           in ebind (eval (moves ! d) s) (\<lambda>(m, s').
              ebind (scan_bounds eval release (bound_queue moves) (moves[d := m], d, s')) (\<lambda>(moves', b, s'').
              ret (moves' ! b, s''))))"

section \<open>The two best moves of a customer\<close>

record customer_ranking =
  rank_best :: insertion_move
  rank_regret :: "real option"

definition evaluate_and_rank ::
  "'s completer \<Rightarrow> (insertion_move \<Rightarrow> insertion_move) \<Rightarrow> nat \<Rightarrow> insertion_move list \<times> best_two \<times> 's \<Rightarrow>
     (insertion_move list \<times> best_two \<times> 's) eff" where
  "evaluate_and_rank eval release i x =
     (case x of (moves, bt, s) \<Rightarrow>
       ebind (eval (moves ! i) s) (\<lambda>(m, s').
       let moves1 = moves[i := m];
           bt' = consider_best_two (\<lambda>l r. insertion_better (moves1 ! l) (moves1 ! r)) i bt
       in ret (if first_index bt' \<noteq> first_index bt
               then (case first_index bt of None \<Rightarrow> moves1 | Some p \<Rightarrow> moves1[p := release (moves1 ! p)])
               else moves1[i := release (moves1 ! i)], bt', s')))"

text \<open>
  The regret of the customer is at most \<open>up (max 0 (second - min best (down bound - safety)))\<close>;
  below the regret of the incumbent by more than the tolerance the customer cannot win.
\<close>

definition pruned_by_regret :: "fp_env \<Rightarrow> real option option \<Rightarrow> real \<Rightarrow> real \<Rightarrow> real option \<Rightarrow> bool" where
  "pruned_by_regret fp incumbent exact_best exact_second next_bound =
     (case (incumbent, next_bound) of
        (Some (Some r), Some b) \<Rightarrow>
          isfinite r \<and> isfinite exact_best \<and> isfinite exact_second \<and> isfinite b \<and>
          (let upper = max 0 (exact_second - min exact_best (fp_down fp b - kLinkedBoundSafety))
           in upper \<le> dbl_max \<and> r > fp_up fp upper \<and> r - fp_up fp upper > kCostTolerance)
      | _ \<Rightarrow> False)"

text \<open>The loop over the bound queue; \<open>None\<close> is the early return of a customer that cannot win.\<close>

fun rank_scan ::
  "'s completer \<Rightarrow> (insertion_move \<Rightarrow> insertion_move) \<Rightarrow> fp_env \<Rightarrow> real option option \<Rightarrow> bool \<Rightarrow> nat list \<Rightarrow>
     insertion_move list \<times> best_two \<times> 's \<Rightarrow> ((insertion_move list \<times> best_two) option \<times> 's) eff" where
  "rank_scan eval release fp incumbent thorough [] x = (case x of (moves, bt, s) \<Rightarrow> ret (Some (moves, bt), s))"
| "rank_scan eval release fp incumbent thorough (i # q) x =
     (case x of (moves, bt, s) \<Rightarrow>
       if move_evaluated (moves ! i) then rank_scan eval release fp incumbent thorough q x
       else if (case second_index bt of None \<Rightarrow> False
                | Some j \<Rightarrow> beyond (bound_delta (moves ! i)) (move_delta (moves ! j)))
       then ret (Some (moves, bt), s)
       else if \<not> thorough \<and> (case (first_index bt, second_index bt) of
                 (Some f, Some j) \<Rightarrow> pruned_by_regret fp incumbent (move_delta (moves ! f)) (move_delta (moves ! j))
                                       (bound_delta (moves ! i))
               | _ \<Rightarrow> False)
       then ret (None, s)
       else ebind (evaluate_and_rank eval release i x) (rank_scan eval release fp incumbent thorough q))"

definition rank_result :: "(insertion_move list \<times> best_two) option \<times> 's \<Rightarrow> (customer_ranking option \<times> 's) eff" where
  "rank_result x =
     (case x of
        (None, s) \<Rightarrow> ret (None, s)
      | (Some (moves, bt), s) \<Rightarrow>
          (case first_index bt of
             None \<Rightarrow> throw (Undefined ''empty optional'')
           | Some f \<Rightarrow> ret (Some \<lparr>rank_best = moves ! f,
               rank_regret = map_option (\<lambda>j. move_delta (moves ! j) - move_delta (moves ! f)) (second_index bt)\<rparr>, s)))"

definition rank_customer ::
  "'s completer \<Rightarrow> (insertion_move \<Rightarrow> insertion_move) \<Rightarrow> fp_env \<Rightarrow> real option option \<Rightarrow> bool \<Rightarrow>
     insertion_move list \<Rightarrow> direct_ranking \<Rightarrow> 's \<Rightarrow> (customer_ranking option \<times> 's) eff" where
  "rank_customer eval release fp incumbent thorough moves direct s =
     (case first_index (dr_indices direct) of
        None \<Rightarrow> throw (Undefined ''empty optional'')
      | Some d \<Rightarrow>
          ebind (evaluate_and_rank eval release d (moves, no_best, s)) (\<lambda>x.
          ebind (case second_index (dr_indices direct) of None \<Rightarrow> ret x
                 | Some d2 \<Rightarrow> evaluate_and_rank eval release d2 x) (\<lambda>x.
          ebind (rank_scan eval release fp incumbent thorough (bound_queue (fst x)) x) rank_result)))"

section \<open>Two-regret insertion\<close>

text \<open>The customer of the largest regret of the direct costs, which is always ranked completely.\<close>

definition direct_winner :: "direct_ranking list \<Rightarrow> nat" where
  "direct_winner rs =
     foldl (\<lambda>w i. if regret_better (dr_regret (rs ! i)) (dr_best (rs ! i)) (dr_regret (rs ! w)) (dr_best (rs ! w))
                  then i else w) 0 [1..<length rs]"

definition consider_ranking :: "customer_ranking option \<Rightarrow> customer_ranking option \<Rightarrow> customer_ranking option" where
  "consider_ranking winner ranking_opt =
     (case ranking_opt of None \<Rightarrow> winner
      | Some r \<Rightarrow> (case winner of None \<Rightarrow> Some r
          | Some w \<Rightarrow> if regret_better (rank_regret r) (rank_best r) (rank_regret w) (rank_best w) then Some r else winner))"

definition rank_step ::
  "'s completer \<Rightarrow> (insertion_move \<Rightarrow> insertion_move) \<Rightarrow> fp_env \<Rightarrow> nat \<Rightarrow>
     customer_ranking option \<times> 's \<Rightarrow> nat \<times> insertion_move list \<times> direct_ranking \<Rightarrow> (customer_ranking option \<times> 's) eff" where
  "rank_step eval release fp dw x p =
     (case (x, p) of ((winner, s), (i, moves, direct)) \<Rightarrow>
       ebind (rank_customer eval release fp (map_option rank_regret winner) (i = dw) moves direct s) (\<lambda>(ranking_opt, s).
       if i = dw \<and> ranking_opt = None then throw (Logic_Error ''direct 2-Regret winner was incompletely ranked'')
       else ret (consider_ranking winner ranking_opt, s)))"

definition choose_two_regret ::
  "'s completer \<Rightarrow> (insertion_move \<Rightarrow> insertion_move) \<Rightarrow> fp_env \<Rightarrow> insertion_move list list \<Rightarrow> 's \<Rightarrow>
     (insertion_move \<times> 's) eff" where
  "choose_two_regret eval release fp groups s =
     ebind (lifted (rmap direct_customer_ranking groups)) (\<lambda>direct.
     if direct = [] then throw (Undefined ''no customer to insert'')
     else ebind (efold (rank_step eval release fp (direct_winner direct)) (None, s)
            (List.enumerate 0 (zip groups direct))) (\<lambda>(winner, s).
          case winner of None \<Rightarrow> throw (Logic_Error ''2-Regret insertion did not select a customer'')
          | Some w \<Rightarrow> ret (rank_best w, s)))"

text \<open>The lazy variant receives the moves of all customers and groups them.\<close>

definition customer_index :: "int list \<Rightarrow> int \<Rightarrow> nat option" where
  "customer_index unassigned c =
     (if c \<in> set unassigned then Some (length (takeWhile (\<lambda>d. d \<noteq> c) unassigned)) else None)"

definition group_moves :: "insertion_move list \<Rightarrow> int list \<Rightarrow> insertion_move list list result" where
  "group_moves moves unassigned =
     (if moves = [] then Inl (Logic_Error ''no insertion candidate exists'')
      else if \<not> list_all (\<lambda>m. customer_index unassigned (move_customer m) \<noteq> None) moves
      then Inl (Out_Of_Range ''unordered_map::at'')
      else Inr (map (\<lambda>i. filter (\<lambda>m. customer_index unassigned (move_customer m) = Some i) moves)
                  [0..<length unassigned]))"

end
