(* ===== verification/Travel_Bounds.thy ===== *)
theory Travel_Bounds
  imports Sp_Certificate Route_Evaluator Physical_Scores
begin

text \<open>
  Lower bounds on the penalised cost of a route from its travel and service times
  (src/search.cpp: \<open>nonlinear_travel_bound\<close>, \<open>zero_shift_energy_cost_bound\<close>,
  \<open>catalog_travel_lower_bound\<close>, \<open>linked_triangle_slack\<close>, \<open>linked_insertion_lower_bound\<close>, and
  the certificate of the instance data they ask for), and that they are below the cost of
  every evaluation.

  The rounding of a double to its neighbour is the parameter \<open>fp_down\<close> / \<open>fp_up\<close> of the
  floating-point environment.
\<close>

section \<open>The bounds\<close>

definition fp_epsilon :: real where
  "fp_epsilon = 1 / 2 ^ 52"

definition fp_denorm_min :: real where
  "fp_denorm_min = 1 / 2 ^ 1074"

definition nonlinear_travel_bound ::
  "fp_env \<Rightarrow> real \<Rightarrow> real \<Rightarrow> nat \<Rightarrow> vehicle \<Rightarrow> real \<Rightarrow> real option" where
  "nonlinear_travel_bound fp travel service station_cnt v lambda =
     (if station_cnt > 62 \<or>
         \<not> isfinite travel \<or> travel < 0 \<or> travel > 10 ^ 12 \<or>
         \<not> isfinite service \<or> service < 0 \<or> service > 10 ^ 12 \<or>
         \<not> isfinite lambda \<or> (lambda \<noteq> 0 \<and> (lambda < 1 / 10 ^ 6 \<or> lambda > 10 ^ 4))
      then None
      else let no_charge_duration = travel + service;
               excess = max 0 (no_charge_duration - max_route_duration_h v)
           in if lambda = 0 \<or> excess = 0 then Some travel
              else let pen = max 0 (fp_down fp (lambda * excess))
                   in if pen = 0 then Some travel
                      else Some (max 0 (fp_down fp (travel + pen))))"

definition zero_shift_energy_cost_bound ::
  "fp_env \<Rightarrow> real \<Rightarrow> real \<Rightarrow> vehicle \<Rightarrow> real \<Rightarrow> real option" where
  "zero_shift_energy_cost_bound fp travel service v lambda =
     (if speed_kmph v > 10 ^ 6 \<or> consumption_wh_per_km v > 10 ^ 6 \<or>
         nonlinear_travel_bound fp travel service 62 v lambda = None
      then None
      else let no_charge_duration = travel + service
           in if no_charge_duration < max_route_duration_h v then None
              else let energy = travel * speed_kmph v * consumption_wh_per_km v
                   in if \<not> isfinite energy \<or> energy > 4 * 10 ^ 8 then None
                      else let deficit_wh = fp_down fp (fp_down fp (energy - battery_capacity_wh v) - 1 / 10 ^ 3);
                               energy_penalty = max 0 deficit_wh / consumption_wh_per_km v
                           in Some (travel + lambda * (energy_penalty +
                                max 0 (no_charge_duration - max_route_duration_h v))))"

definition catalog_travel_lower_bound :: "fp_env \<Rightarrow> real \<Rightarrow> real \<Rightarrow> real" where
  "catalog_travel_lower_bound fp distance speed =
     (let factor = 1 - 512 * fp_epsilon;
          scaled = fp_down fp (distance / speed * factor)
      in max 0 (fp_down fp (scaled - 512 * fp_denorm_min)))"

text \<open>The largest detour that a station between two nodes saves, rounded up.\<close>

definition slack_step :: "inst \<Rightarrow> fp_env \<Rightarrow> int \<Rightarrow> int \<Rightarrow> real \<Rightarrow> int \<Rightarrow> real result" where
  "slack_step I fp a b slack station =
     rbind (travel_time_h I a b) (\<lambda>direct.
     rbind (travel_time_h I a station) (\<lambda>there.
     rbind (travel_time_h I station b) (\<lambda>onward.
       Inr (max slack (fp_up fp (direct - fp_down fp (there + onward)))))))"

definition linked_triangle_slack :: "inst \<Rightarrow> fp_env \<Rightarrow> bool \<Rightarrow> real option result" where
  "linked_triangle_slack I fp data_certified =
     (if \<not> data_certified \<or> length (station_ids I) > 31 then Inr None
      else rbind (rfold (\<lambda>slack (a, b). rfold (slack_step I fp a b) slack (station_ids I)) 0
              [(node_id a, node_id b). a \<leftarrow> nodes I, b \<leftarrow> nodes I]) (\<lambda>slack. Inr (Some slack)))"

text \<open>The lambda \<open>lower_sum\<close>.\<close>

definition lower_sum :: "fp_env \<Rightarrow> nat \<Rightarrow> real \<Rightarrow> real \<Rightarrow> real" where
  "lower_sum fp legs value removed_slack =
     (let factor = fp_down fp (1 - 4 * real legs * fp_epsilon);
          underflow = fp_up fp (4 * real legs * fp_denorm_min)
      in max 0 (fp_down fp (fp_down fp (fp_down fp (value * factor) - removed_slack) - underflow)))"

definition linked_insertion_lower_bound ::
  "inst \<Rightarrow> fp_env \<Rightarrow> bool \<Rightarrow> bool \<Rightarrow> real option \<Rightarrow>
     'a route_cost_summary_scheme \<Rightarrow> real \<Rightarrow> nat \<Rightarrow> nat \<Rightarrow> real option" where
  "linked_insertion_lower_bound I fp complete_paths implicit_replacement slack summary lambda
     source_visits source_customers =
     (let stations = length (station_ids I)
      in case slack of None \<Rightarrow> None
         | Some triangle_slack \<Rightarrow>
             if \<not> complete_paths \<or> implicit_replacement \<or> \<not> fp_supported fp \<or>
                source_customers > source_visits \<or> source_visits > 317 \<or> stations > 31
             then None
             else let inserted_stations = 2 * stations;
                      legs = source_visits + 2 + inserted_stations;
                      total_stations = source_visits - source_customers + inserted_stations
                  in if legs > 319 \<or> total_stations > 62 \<or>
                        nonlinear_travel_bound fp (total_travel_h summary) (total_service_h summary)
                          total_stations (vehicle_of I) lambda = None
                     then None
                     else let detour_slack = fp_up fp (real inserted_stations * triangle_slack);
                              travel = lower_sum fp legs (total_travel_h summary) detour_slack;
                              service = lower_sum fp legs (total_service_h summary) 0
                          in nonlinear_travel_bound fp travel service total_stations (vehicle_of I) lambda)"

section \<open>The certificate of the data\<close>

text \<open>The test of the nodes and of the legs between them.\<close>

definition certified_leg :: "inst \<Rightarrow> node \<Rightarrow> node \<Rightarrow> bool result" where
  "certified_leg I a b =
     rbind (energy_between_wh I (node_id a) (node_id b)) (\<lambda>energy.
       if \<not> isfinite energy \<or> energy < 0 \<or> energy > 10 ^ 6 then Inr False
       else rbind (travel_time_h I (node_id a) (node_id b)) (\<lambda>travel.
         Inr (\<not> (\<not> isfinite travel \<or> travel < 0 \<or> travel > 10 ^ 9))))"

text \<open>\<open>if (!test) return false\<close> in a loop.\<close>

fun rall :: "('a \<Rightarrow> bool result) \<Rightarrow> 'a list \<Rightarrow> bool result" where
  "rall f [] = Inr True"
| "rall f (x # xs) = rbind (f x) (\<lambda>b. if b then rall f xs else Inr False)"

definition certified_node :: "inst \<Rightarrow> node \<Rightarrow> bool result" where
  "certified_node I a =
     (if node_service_time_h a > 10 ^ 6 then Inr False else rall (certified_leg I a) (nodes I))"

definition certified_point :: "fp_env \<Rightarrow> real \<Rightarrow> charging_curve \<Rightarrow> nat \<Rightarrow> bool result" where
  "certified_point fp cap c i =
     (let p = points c ! i
      in if time_h p > 10 ^ 6 then Inr False
         else rbind (time_at_energy c (energy_wh p)) (\<lambda>t.
           if \<not> isfinite t then Inr False
           else let energy_width = energy_wh p - energy_wh (points c ! (i - 1));
                    time_width = time_h p - time_h (points c ! (i - 1))
                in if i \<noteq> 0 \<and> (energy_width > 0 \<and> energy_width < 1 / 10 ^ 6 \<or>
                                time_width > 0 \<and> time_width < 1 / 10 ^ 12)
                   then Inr False
                   else if energy_wh p > 0 \<and> energy_wh p < cap
                   then rbind (time_at_energy c (fp_up fp (energy_wh p))) (\<lambda>t'. Inr (\<not> t > t'))
                   else Inr True))"

definition certified_station :: "inst \<Rightarrow> fp_env \<Rightarrow> real \<Rightarrow> int \<Rightarrow> bool result" where
  "certified_station I fp cap station =
     rbind (curve_for_station I station) (\<lambda>c.
       if capacity_wh c \<noteq> cap \<or> time_h (hd (points c)) \<noteq> 0 \<or> energy_wh (hd (points c)) \<noteq> 0
       then Inr False
       else rall (certified_point fp cap c) [0..<length (points c)])"

definition certifies_nonlinear_travel_bound :: "inst \<Rightarrow> fp_env \<Rightarrow> bool result" where
  "certifies_nonlinear_travel_bound I fp =
     (if \<not> fp_supported fp then Inr False
      else let v = vehicle_of I; cap = battery_capacity_wh v
           in if cap < 1 / 10 ^ 6 \<or> cap > 10 ^ 6 \<or> speed_kmph v < 1 / 10 ^ 6 \<or>
                 consumption_wh_per_km v < 1 / 10 ^ 6 \<or> max_route_duration_h v < 1 / 10 ^ 6 \<or>
                 max_route_duration_h v > 10 ^ 6
              then Inr False
              else rbind (rall (certified_node I) (nodes I)) (\<lambda>b.
                if \<not> b then Inr False else rall (certified_station I fp cap) (station_ids I)))"

section \<open>The largest charging rate\<close>

text \<open>\<open>maximum_charging_rate\<close>; an infinite rate is \<open>Infinite_Rate\<close>.\<close>

fun curve_rate :: "fp_env \<Rightarrow> rate \<Rightarrow> charging_point list \<Rightarrow> rate" where
  "curve_rate fp r (left # right # ps) =
     (case r of Infinite_Rate \<Rightarrow> Infinite_Rate
      | Finite_Rate x \<Rightarrow>
          let energy = energy_wh right - energy_wh left; time = time_h right - time_h left
          in if energy \<le> 0 then curve_rate fp r (right # ps)
             else if time \<le> 1 / 10 ^ 15 then Infinite_Rate
             else curve_rate fp (Finite_Rate (max x (fp_up fp (fp_round fp (energy / time))))) (right # ps))"
| "curve_rate fp r [p] = r"
| "curve_rate fp r [] = r"

definition maximum_charging_rate :: "inst \<Rightarrow> fp_env \<Rightarrow> rate" where
  "maximum_charging_rate I fp = foldl (\<lambda>r c. curve_rate fp r (points (snd c))) (Finite_Rate 0) (charging_curves I)"

definition finite_rate :: "rate \<Rightarrow> bool" where
  "finite_rate r = (case r of Infinite_Rate \<Rightarrow> False | Finite_Rate x \<Rightarrow> isfinite x)"

section \<open>The travel bound\<close>

text \<open>Rounding to a neighbour: down and up.\<close>

definition rounds :: "fp_env \<Rightarrow> bool" where
  "rounds fp \<longleftrightarrow> (\<forall>x. fp_down fp x \<le> x \<and> x \<le> fp_up fp x)"

lemma roundsD: "rounds fp \<Longrightarrow> fp_down fp x \<le> x" "rounds fp \<Longrightarrow> x \<le> fp_up fp x"
  by (auto simp: rounds_def)

definition travel_bound_domain :: "real \<Rightarrow> real \<Rightarrow> nat \<Rightarrow> real \<Rightarrow> bool" where
  "travel_bound_domain travel service station_cnt lambda \<longleftrightarrow>
     station_cnt \<le> 62 \<and> isfinite travel \<and> 0 \<le> travel \<and> travel \<le> 10 ^ 12 \<and>
     isfinite service \<and> 0 \<le> service \<and> service \<le> 10 ^ 12 \<and>
     isfinite lambda \<and> (lambda = 0 \<or> 1 / 10 ^ 6 \<le> lambda \<and> lambda \<le> 10 ^ 4)"

lemma nonlinear_travel_bound_None:
  "nonlinear_travel_bound fp t s n v l = None \<longleftrightarrow> \<not> travel_bound_domain t s n l"
  by (auto simp: nonlinear_travel_bound_def travel_bound_domain_def Let_def not_less split: if_splits)

lemma nonlinear_travel_bound_le:
  assumes fp: "rounds fp" and b: "nonlinear_travel_bound fp t s n v l = Some b"
  shows "b \<le> t + l * max 0 (t + s - max_route_duration_h v)" and "0 \<le> l" and "0 \<le> b"
proof -
  let ?e = "max 0 (t + s - max_route_duration_h v)"
  have d: "0 \<le> t" "0 \<le> l" using b by (auto simp: nonlinear_travel_bound_def Let_def split: if_splits)
  then have le: "0 \<le> l * ?e" by simp
  have down: "fp_down fp x \<le> x" for x using roundsD(1) [OF fp] .
  consider "b = t" | p where "p = max 0 (fp_down fp (l * ?e))" "b = max 0 (fp_down fp (t + p))"
    using b by (auto simp: nonlinear_travel_bound_def Let_def split: if_splits)
  then have "b \<le> t + l * ?e \<and> 0 \<le> b"
  proof cases
    case 2
    have "p \<le> l * ?e" using 2(1) down [of "l * ?e"] le by simp
    then show ?thesis using 2(2) down [of "t + p"] d le by auto
  qed (use d le in auto)
  then show "b \<le> t + l * ?e" "0 \<le> b" by auto
  show "0 \<le> l" by (rule d)
qed

section \<open>The cost of an evaluation\<close>

lemma generalized_cost_summary: "generalized_cost e I l = summary_cost e I l"
  by (simp add: generalized_cost_def summary_cost_def Let_def)

lemma summary_cost_ge:
  assumes I: "inst_ok I" and l: "isfinite l" "0 \<le> l"
    and c: "summary_consistent I t s S" and le: "t' \<le> t" "s' \<le> s" "x \<le> energy_shortfall_wh S"
  shows "\<exists>cost. summary_cost S I l = Inr cost \<and>
    t' + l * (x / consumption_wh_per_km (vehicle_of I) + max 0 (t' + s' - max_route_duration_h (vehicle_of I))) \<le> cost"
proof -
  let ?c = "consumption_wh_per_km (vehicle_of I)" and ?T = "max_route_duration_h (vehicle_of I)"
  have "0 < ?c" by (rule vehicle_pos(2) [OF I])
  then have "x / ?c \<le> energy_shortfall_wh S / ?c" using le(3) by (simp add: divide_right_mono)
  moreover have "max 0 (t' + s' - ?T) \<le> duration_excess_h S" using c le by (auto simp: summary_consistent_def)
  ultimately have "l * (x / ?c + max 0 (t' + s' - ?T)) \<le> l * (energy_shortfall_wh S / ?c + duration_excess_h S)"
    using l(2) by (intro mult_left_mono) auto
  moreover have "t' \<le> raw_cost_h S" using c le by (auto simp: summary_consistent_def)
  ultimately show ?thesis using l by (auto simp: summary_cost_def)
qed

text \<open>The travel bound of shorter times is below the cost.\<close>

lemma travel_bound_below:
  assumes I: "inst_ok I" and fp: "rounds fp" and c: "summary_consistent I t s S"
    and b: "nonlinear_travel_bound fp t' s' n (vehicle_of I) l = Some b" and le: "t' \<le> t" "s' \<le> s"
  shows "\<exists>cost. summary_cost S I l = Inr cost \<and> b \<le> cost"
proof -
  have l: "isfinite l" "0 \<le> l"
    using b nonlinear_travel_bound_le(2) [OF fp b] nonlinear_travel_bound_None [of fp t' s' n "vehicle_of I" l]
    by (auto simp: travel_bound_domain_def)
  have "0 \<le> energy_shortfall_wh S" using c by (simp add: summary_consistent_def)
  from summary_cost_ge [OF I l c le this] obtain cost where "summary_cost S I l = Inr cost"
    "t' + l * (0 / consumption_wh_per_km (vehicle_of I) + max 0 (t' + s' - max_route_duration_h (vehicle_of I))) \<le> cost"
    by blast
  then show ?thesis using nonlinear_travel_bound_le(1) [OF fp b] by auto
qed

section \<open>Travel times of longer paths\<close>

lemma leg_travel_triangle: "inst_ok I \<Longrightarrow> leg_travel I a c \<le> leg_travel I a b + leg_travel I b c"
proof -
  assume I: "inst_ok I"
  have "dist_km I a c \<le> dist_km I a b + dist_km I b c" by (rule dist_km_triangle)
  then have "dist_km I a c / speed_kmph (vehicle_of I) \<le> (dist_km I a b + dist_km I b c) / speed_kmph (vehicle_of I)"
    using vehicle_pos(1) [OF I] by (intro divide_right_mono) auto
  then show ?thesis by (simp add: leg_travel_def add_divide_distrib)
qed

lemma path_travel_skip: "inst_ok I \<Longrightarrow> ns \<noteq> [] \<Longrightarrow> path_travel I p ns \<le> leg_travel I p q + path_travel I q ns"
  using leg_travel_triangle by (cases ns) (auto simp: algebra_simps)

lemma path_travel_nonneg: "inst_ok I \<Longrightarrow> 0 \<le> path_travel I p ns"
  by (induction ns arbitrary: p) (auto simp: leg_travel_nonneg intro: add_nonneg_nonneg)

lemma path_travel_subseq:
  assumes "inst_ok I" and "subseq ms ns"
  shows "path_travel I p (ms @ [d]) \<le> path_travel I p (ns @ [d])"
  using assms(2)
proof (induction ms ns arbitrary: p rule: list_emb.induct)
  case (list_emb_Nil ns)
  show ?case
  proof (induction ns arbitrary: p)
    case (Cons q ns)
    have "path_travel I p [d] \<le> leg_travel I p q + path_travel I q [d]"
      by (rule path_travel_skip [OF assms(1)]) simp
    then show ?case using Cons [of q] by simp
  qed simp
next
  case (list_emb_Cons ms ns q)
  have "path_travel I p (ms @ [d]) \<le> leg_travel I p q + path_travel I q (ms @ [d])"
    by (rule path_travel_skip [OF assms(1)]) simp
  also have "\<dots> \<le> leg_travel I p q + path_travel I q (ns @ [d])" using list_emb_Cons.IH by simp
  finally show ?case by simp
next
  case (list_emb_Cons2 a b ms ns)
  then show ?case by simp
qed

lemma path_service_filter: "path_service I ns =
  sum_list (map (\<lambda>n. node_service_time_h (the_node I n)) (filter (\<lambda>n. kind (the_node I n) = Customer) ns))"
  by (simp add: path_service_def sum_list_map_filter')

lemma path_service_customers:
  "filter (\<lambda>n. kind (the_node I n) = Customer) ms = filter (\<lambda>n. kind (the_node I n) = Customer) ns \<Longrightarrow>
    path_service I ms = path_service I ns"
  by (simp add: path_service_filter)

section \<open>The bound of an insertion\<close>

lemma lower_sum_le: 
  assumes "rounds fp" and "0 \<le> x" and "0 \<le> slack"
  shows "lower_sum fp legs x slack \<le> x" and "0 \<le> lower_sum fp legs x slack"
proof -
  note d = roundsD(1) [OF assms(1)] and u = roundsD(2) [OF assms(1)]
  let ?f = "fp_down fp (1 - 4 * real legs * fp_epsilon)"
  have "?f \<le> 1 - 4 * real legs * fp_epsilon" by (rule d)
  then have "?f \<le> 1" by (simp add: fp_epsilon_def)
  then have "x * ?f \<le> x" using assms(2) mult_left_le [of ?f x] by simp
  moreover have "0 \<le> fp_up fp (4 * real legs * fp_denorm_min)"
    using u [of "4 * real legs * fp_denorm_min"] by (rule order_trans [rotated]) (simp add: fp_denorm_min_def)
  ultimately have "fp_down fp (fp_down fp (fp_down fp (x * ?f) - slack) - fp_up fp (4 * real legs * fp_denorm_min)) \<le> x"
    using d [of "x * ?f"] d [of "fp_down fp (x * ?f) - slack"]
      d [of "fp_down fp (fp_down fp (x * ?f) - slack) - fp_up fp (4 * real legs * fp_denorm_min)"] assms(3) by linarith
  then show "lower_sum fp legs x slack \<le> x" "0 \<le> lower_sum fp legs x slack"
    using assms(2) by (simp_all add: lower_sum_def Let_def)
qed

lemma slack_nonneg:
  assumes "linked_triangle_slack I fp certified_data = Inr (Some slack)"
  shows "0 \<le> slack"
proof -
  have inner: "0 \<le> x'" if "0 \<le> x" "rfold (slack_step I fp a b) x ss = Inr x'" for a b x x' ss
    using that by (induction ss arbitrary: x) (auto simp: rbind_eq_Inr_conv slack_step_def, metis le_max_iff_disj)
  have "0 \<le> x'" if "0 \<le> x" "rfold (\<lambda>slack (a, b). rfold (slack_step I fp a b) slack (station_ids I)) x ps = Inr x'" for x x' ps
    using that by (induction ps arbitrary: x) (auto simp: rbind_eq_Inr_conv, metis inner)
  then show ?thesis using assms
    by (auto simp: linked_triangle_slack_def rbind_eq_Inr_conv split: if_splits)
qed

text \<open>The bound is below the cost of every route that takes at least the travel and the service time.\<close>

lemma linked_insertion_bound_below:
  assumes I: "inst_ok I" and fp: "rounds fp" and slack: "slack = None \<or> 0 \<le> the slack"
    and b: "linked_insertion_lower_bound I fp paths implicit slack s l vs cs = Some b"
    and S: "summary_consistent I t d S" and le: "total_travel_h s \<le> t" "total_service_h s \<le> d"
  shows "\<exists>cost. summary_cost S I l = Inr cost \<and> b \<le> cost"
proof -
  obtain sl n where sl: "slack = Some sl" and nn: "nonlinear_travel_bound fp (total_travel_h s) (total_service_h s) n (vehicle_of I) l \<noteq> None"
    and bb: "nonlinear_travel_bound fp
        (lower_sum fp (vs + 2 + 2 * length (station_ids I)) (total_travel_h s) (fp_up fp (real (2 * length (station_ids I)) * sl)))
        (lower_sum fp (vs + 2 + 2 * length (station_ids I)) (total_service_h s) 0) n (vehicle_of I) l = Some b"
    using b by (auto simp: linked_insertion_lower_bound_def Let_def split: option.splits if_splits)
  have nonneg: "0 \<le> total_travel_h s" "0 \<le> total_service_h s"
    using nn nonlinear_travel_bound_None [of fp] by (auto simp: travel_bound_domain_def)
  have "0 \<le> real (2 * length (station_ids I)) * sl" using slack sl by simp
  then have up: "0 \<le> fp_up fp (real (2 * length (station_ids I)) * sl)" using roundsD(2) [OF fp] by (rule order_trans)
  show ?thesis
    by (rule travel_bound_below [OF I fp S bb])
      (use lower_sum_le(1) [OF fp nonneg(1) up] lower_sum_le(1) [OF fp nonneg(2) order_refl] le in \<open>blast intro: order_trans\<close>)+
qed

lemma catalog_bound_below:
  assumes "rounds fp" and "0 \<le> x" and "0 < speed"
  shows "catalog_travel_lower_bound fp x speed \<le> x / speed"
proof -
  note d = roundsD(1) [OF assms(1)]
  let ?y = "x / speed * (1 - 512 * fp_epsilon)"
  have y: "0 \<le> x / speed" using assms by simp
  then have "?y \<le> x / speed" by (simp add: mult_left_le fp_epsilon_def)
  moreover have "0 \<le> 512 * fp_denorm_min" by (simp add: fp_denorm_min_def)
  ultimately have "fp_down fp (fp_down fp ?y - 512 * fp_denorm_min) \<le> x / speed"
    using d [of ?y] d [of "fp_down fp ?y - 512 * fp_denorm_min"] by linarith
  then show ?thesis using y by (simp add: catalog_travel_lower_bound_def Let_def)
qed

section \<open>No charging on an exhausted shift\<close>

text \<open>
  Once the route takes its full duration without charging, and all rates are finite, no station
  charges more than the tolerance and the whole energy deficit is written off.
\<close>

definition idle :: "charge_env \<Rightarrow> nat list \<Rightarrow> bool" where
  "idle env ps \<longleftrightarrow> (\<forall>x. cut_off env x = Inr None) \<and>
     (\<forall>p \<in> set ps. \<exists>c. curve_at env p = Inr c \<and> (\<forall>e. marginal_rate_at c e \<noteq> Infinite_Rate))"

lemma idle_station:
  assumes "remaining_shift_h st = 0" and "curve_at env p = Inr c" and "\<forall>e. marginal_rate_at c e \<noteq> Infinite_Rate"
  shows "consider_station env e pos st b p = Inr b"
proof -
  obtain r where "marginal_rate_at c (departure st ! p) = Finite_Rate r"
    using assms(3) by (cases "marginal_rate_at c (departure st ! p)") auto
  then show ?thesis using assms(1,2) by (simp add: consider_station_def Let_def kEnergyToleranceWh_def)
qed

lemma idle_best: "idle env ps \<Longrightarrow> remaining_shift_h st = 0 \<Longrightarrow> find_best env pos ps st = Inr no_choice"
proof -
  assume i: "idle env ps" and r: "remaining_shift_h st = 0"
  have "rfold (consider_station env e pos st) no_choice qs = Inr no_choice" if "set qs \<subseteq> set ps" for e qs
    using that
  proof (induction qs)
    case (Cons q qs)
    then obtain c where "curve_at env q = Inr c" "\<forall>e. marginal_rate_at c e \<noteq> Infinite_Rate" using i by (auto simp: idle_def)
    then show ?case using idle_station [OF r] Cons by simp
  qed simp
  then show ?thesis by (simp add: find_best_def)
qed

lemma idle_loop:
  assumes "idle env ps" and "remaining_shift_h st = 0" and "pos < length (arrival st)" and "pos < length (departure st)"
    and "arrival st ! pos = departure st ! pos"
  shows "\<exists>st'. charge_loop env pos pos ps st = Some (Done st') \<and> remaining_shift_h st' = 0 \<and>
    length (arrival st') = length (arrival st) \<and> length (departure st') = length (departure st) \<and>
    - kEnergyToleranceWh \<le> departure st' ! pos \<and>
    departure st' ! pos - shortfall_wh st' = departure st ! pos - shortfall_wh st"
proof (cases "arrival st ! pos < - kEnergyToleranceWh")
  case False
  then show ?thesis using assms by (simp add: charge_loop.simps)
next
  case True
  let ?x = "- (arrival st ! pos)"
  let ?st = "st\<lparr>shortfall_wh := shortfall_wh st + ?x, arrival := add_range pos pos ?x (arrival st),
    departure := add_range pos pos ?x (departure st)\<rparr>"
  have "charge_iteration env pos pos ps st = Done (?st, True)"
    using idle_best [OF assms(1,2), of pos] assms(1)
    by (simp add: charge_iteration_def add_shortfall_def Let_def idle_def no_choice_def)
  then have "charge_loop env pos pos ps st = Some (Done ?st)" using True by (simp add: charge_loop.simps)
  moreover have "departure ?st ! pos = departure st ! pos + ?x"
    using assms(4) by (simp add: add_range_def nth_enumerate_eq)
  ultimately show ?thesis
    using assms(2,5) by (auto simp: add_range_def kEnergyToleranceWh_def)
qed

lemma idle_run:
  assumes n: "n = length legs + 2" and i: "idle env [1..<Suc (length legs)]"
    and st: "1 \<le> pos" "pos \<le> n" "remaining_shift_h st = 0" "length (arrival st) = n" "length (departure st) = n"
      "- kEnergyToleranceWh \<le> departure st ! (pos - 1)"
  shows "\<exists>st'. run_positions env legs tail_wh [pos..<n] [1..<min pos (Suc (length legs))] st = Some (Done st') \<and>
    - kEnergyToleranceWh \<le> departure st' ! (n - 1) \<and>
    departure st' ! (n - 1) - shortfall_wh st' =
      departure st ! (pos - 1) - shortfall_wh st - (\<Sum>k = pos..<n. energy_to legs tail_wh k)"
  using st
proof (induction "n - pos" arbitrary: pos st)
  case 0
  then show ?case by simp
next
  case (Suc d)
  then have lt: "pos < n" by simp
  let ?e = "energy_to legs tail_wh" and ?m = "Suc (length legs)"
  let ?in = "enter_position (?e pos) pos st"
  have mn: "min pos ?m = pos" using lt n by simp
  have "set [1..<pos] \<subseteq> set [1..<?m]" using lt n by auto
  then have sub: "idle env [1..<pos]" using i unfolding idle_def by blast
  obtain st' where st': "charge_loop env pos pos [1..<pos] ?in = Some (Done st')" "remaining_shift_h st' = 0"
    "length (arrival st') = n" "length (departure st') = n" "- kEnergyToleranceWh \<le> departure st' ! pos"
    "departure st' ! pos - shortfall_wh st' = departure st ! (pos - 1) - ?e pos - shortfall_wh st"
  proof -
    have "remaining_shift_h ?in = 0" "length (arrival ?in) = n" "length (departure ?in) = n" "shortfall_wh ?in = shortfall_wh st"
      "arrival ?in ! pos = departure ?in ! pos" "departure ?in ! pos = departure st ! (pos - 1) - ?e pos"
      using Suc.prems lt by (simp_all add: enter_position_def Let_def)
    then show thesis using idle_loop [OF sub, of ?in pos] lt that by auto
  qed
  have upt: "[pos..<n] = pos # [Suc pos..<n]" using lt by (simp add: upt_conv_Cons)
  have prec: "(if pos \<le> length legs then [1..<pos] @ [pos] else [1..<pos]) = [1..<min (Suc pos) ?m]"
  proof (cases "pos \<le> length legs")
    case True
    with Suc.prems(1) show ?thesis by (simp add: min_def)
  next
    case False
    then have "pos = ?m" using lt n by simp
    then show ?thesis by (simp del: upt_Suc)
  qed
  have d: "d = n - Suc pos" using Suc.hyps(2) by simp
  obtain fin where "run_positions env legs tail_wh [Suc pos..<n] [1..<min (Suc pos) ?m] st' = Some (Done fin)"
    "- kEnergyToleranceWh \<le> departure fin ! (n - 1)"
    "departure fin ! (n - 1) - shortfall_wh fin = departure st' ! pos - shortfall_wh st' - (\<Sum>k = Suc pos..<n. ?e k)"
    using Suc.hyps(1) [OF d, of st'] st' lt by auto
  moreover have "(\<Sum>k = pos..<n. ?e k) = ?e pos + (\<Sum>k = Suc pos..<n. ?e k)"
    using lt by (simp add: sum.atLeast_Suc_lessThan)
  ultimately show ?case
    using st'(6) unfolding upt mn run_positions.simps st'(1) option.case run.case prec by auto
qed

lemma energy_to_sum: "(\<Sum>k = 1..<length legs + 2. energy_to legs tail_wh k) = energy_sum legs + tail_wh"
proof -
  have "(\<Sum>k = 1..<length legs + 2. energy_to legs tail_wh k) =
      (\<Sum>k = 1..<Suc (length legs). energy_to legs tail_wh k) + tail_wh"
    by (simp add: energy_to_def)
  also have "(\<Sum>k = 1..<Suc (length legs). energy_to legs tail_wh k) =
      (\<Sum>k = 0..<length legs. energy_from_previous_station_wh (legs ! k))"
    unfolding sum.shift_bounds_Suc_ivl One_nat_def by (rule sum.cong) (auto simp: energy_to_def)
  also have "\<dots> = energy_sum legs" by (simp add: energy_sum_def sum_list_sum_nth)
  finally show ?thesis .
qed

lemma idle_shortfall:
  assumes I: "inst_ok I" "curves_ok I" and legs: "legs_ok I legs" and rates: "finite_rates I"
    and late: "max_route_duration_h (vehicle_of I) \<le> t + d"
    and ev: "evaluate_legs I None t d legs tail_wh = Some (Inr (Summary s))"
  shows "energy_sum legs + tail_wh - battery_capacity_wh (vehicle_of I) - kEnergyToleranceWh \<le> energy_shortfall_wh s"
proof (cases "legs = []")
  case True
  then show ?thesis using ev
    by (auto simp: evaluate_legs_def evaluate_without_stations_def Let_def energy_sum_def kEnergyToleranceWh_def)
next
  case False
  let ?env = "label_env I None legs t (t + d)" and ?n = "length legs + 2"
  let ?st = "initial_state I ?n (t + d)" and ?B = "battery_capacity_wh (vehicle_of I)"
  have "idle ?env [1..<Suc (length legs)]"
    unfolding idle_def
  proof (intro conjI ballI allI)
    fix p assume "p \<in> set [1..<Suc (length legs)]"
    then obtain c where "curve_at ?env p = Inr c"
      using label_env_usable [OF I legs, of None t "t + d"] unfolding curves_usable_def by blast
    then show "\<exists>c. curve_at ?env p = Inr c \<and> (\<forall>e. marginal_rate_at c e \<noteq> Infinite_Rate)"
      using finite_rates_station [OF rates] by (auto simp: label_env_def)
  qed (simp add: label_env_def shortage_bound_def)
  moreover have "0 < ?B" by (rule vehicle_pos(3) [OF I(1)])
  ultimately obtain st' where run: "run_positions ?env legs tail_wh [1..<?n] [1..<min 1 (Suc (length legs))] ?st = Some (Done st')"
    "- kEnergyToleranceWh \<le> departure st' ! (?n - 1)"
    "departure st' ! (?n - 1) - shortfall_wh st' = departure ?st ! (1 - 1) - shortfall_wh ?st -
       (\<Sum>k = 1..<?n. energy_to legs tail_wh k)"
    using idle_run [of ?n legs ?env 1 ?st tail_wh] late by (auto simp: initial_state_def kEnergyToleranceWh_def)
  then have "energy_sum legs + tail_wh - ?B - kEnergyToleranceWh \<le> shortfall_wh st'"
    unfolding energy_to_sum by (simp add: initial_state_def)
  moreover have "energy_shortfall_wh s = shortfall_wh st'"
    using ev False run(1) by (auto simp: evaluate_legs_def Let_def rbind_eq_Inr_conv finish_summary_def simp del: upt_Suc)
  ultimately show ?thesis by simp
qed

text \<open>The energy of a path in terms of its travel time.\<close>

lemma segments_energy: "energy_sum (segments I p acc ns) + tail_segment I p acc ns =
    acc + path_travel I p ns * speed_kmph (vehicle_of I) * consumption_wh_per_km (vehicle_of I)"
  if "inst_ok I"
proof (induction ns arbitrary: p acc)
  case (Cons n ns)
  have "leg_energy I p n = leg_travel I p n * speed_kmph (vehicle_of I) * consumption_wh_per_km (vehicle_of I)"
    using vehicle_pos(1) [OF that] by (simp add: leg_energy_def leg_travel_def)
  then show ?case using Cons [of n 0] Cons [of n "acc + leg_energy I p n"]
    by (auto simp: energy_sum_def algebra_simps)
qed (simp add: energy_sum_def)

lemma summary_of_legs: "full_summary r = Some (Inr S) \<Longrightarrow> r = Some (Inr (Summary S))"
proof -
  assume f: "full_summary r = Some (Inr S)"
  then obtain v where "r = Some (Inr v)" by (auto simp: full_summary_def rbind_eq_Inr_conv)
  then show ?thesis using f by (cases v) (auto simp: full_summary_def)
qed

lemma zero_shift_bound_below:
  assumes I: "inst_ok I" "curves_ok I" and fp: "rounds fp" and rates: "finite_rates I"
    and known: "set ns \<subseteq> set (ids I)"
    and b: "zero_shift_energy_cost_bound fp t s (vehicle_of I) l = Some b"
    and le: "t \<le> path_travel I p ns" "s \<le> path_service I ns"
  shows "\<exists>S cost. evaluate_label I (path_label I p ns) = Some (Inr S) \<and> summary_cost S I l = Inr cost \<and> b \<le> cost"
proof -
  let ?l = "path_label I p ns" and ?v = "vehicle_of I" and ?T = "max_route_duration_h (vehicle_of I)"
  let ?B = "battery_capacity_wh ?v" and ?c = "consumption_wh_per_km ?v"
  define energy where "energy = t * speed_kmph ?v * ?c"
  define x where "x = max 0 (fp_down fp (fp_down fp (energy - ?B) - 1 / 10 ^ 3))"
  have dom: "travel_bound_domain t s 62 l" and late: "?T \<le> t + s"
    and bb: "b = t + l * (x / ?c + max 0 (t + s - ?T))"
    using b nonlinear_travel_bound_None [of fp t s 62 ?v l]
    by (auto simp: zero_shift_energy_cost_bound_def Let_def x_def energy_def split: if_splits)
  have l: "isfinite l" "0 \<le> l" using dom by (auto simp: travel_bound_domain_def)
  note ok = path_label_ok [OF I(1) known, of p]
  obtain S c where S: "evaluate_label I ?l = Some (Inr S)" "canonical_legs I (station_legs ?l) = Inr c" "legs_ok I c"
      "scheduled I (label_travel_h ?l) (label_service_h ?l) c (tail_energy_wh ?l) S"
    using evaluate_label_scheduled [OF I _ ok] by auto
  have cons: "summary_consistent I (path_travel I p ns) (path_service I ns) S"
    using S(4) by (simp add: scheduled_def path_label_def)
  have "evaluate_legs I None (path_travel I p ns) (path_service I ns) c (tail_energy_wh ?l) = Some (Inr (Summary S))"
    using summary_of_legs S(1,2) by (auto simp: evaluate_label_def evaluate_data_def path_label_def)
  from idle_shortfall [OF I S(3) rates _ this]
  have "energy_sum c + tail_energy_wh ?l - ?B - kEnergyToleranceWh \<le> energy_shortfall_wh S" using late le by simp
  moreover have "energy_sum c = energy_sum (station_legs ?l)"
    using canonical_legs_ok [OF I ok(1)] S(2) by auto
  moreover have "energy_sum (station_legs ?l) + tail_energy_wh ?l = path_travel I p ns * speed_kmph ?v * ?c"
    using segments_energy [OF I(1), of p 0 ns] by (simp add: path_label_def)
  moreover have "energy \<le> path_travel I p ns * speed_kmph ?v * ?c"
    unfolding energy_def using vehicle_pos(1,2) [OF I(1)] le(1) by (intro mult_right_mono) auto
  moreover have "fp_down fp (fp_down fp (energy - ?B) - 1 / 10 ^ 3) \<le> energy - ?B - 1 / 10 ^ 3"
    using roundsD(1) [OF fp, of "energy - ?B"] roundsD(1) [OF fp, of "fp_down fp (energy - ?B) - 1 / 10 ^ 3"] by linarith
  moreover have "0 \<le> energy_shortfall_wh S" using cons by (simp add: summary_consistent_def)
  ultimately have "x \<le> energy_shortfall_wh S" by (simp add: x_def kEnergyToleranceWh_def)
  from summary_cost_ge [OF I(1) l cons le this] S(1) bb show ?thesis by auto
qed

section \<open>Finite rates\<close>

lemma curve_rate_Infinite [simp]: "curve_rate fp Infinite_Rate ps = Infinite_Rate"
  by (cases ps rule: remdups_adj.cases) simp_all

lemma curve_rate_scan:
  "curve_rate fp r ps \<noteq> Infinite_Rate \<Longrightarrow> ps \<noteq> [] \<Longrightarrow> energy_wh (hd ps) - 1 / 10 ^ 8 \<le> e \<Longrightarrow> rate_scan e ps \<noteq> Infinite_Rate"
proof (induction e ps arbitrary: r rule: rate_scan.induct)
  case (1 e left right ps)
  obtain x where r: "r = Finite_Rate x" using 1(2) by (cases r) auto
  show ?case
  proof (cases "e < energy_wh right - 1 / 10 ^ 8")
    case True
    then have "0 < energy_wh right - energy_wh left" using 1(4) by simp
    then show ?thesis using 1(2) r True by (auto simp: Let_def split: if_splits)
  next
    case False
    have "\<exists>r'. curve_rate fp r' (right # ps) \<noteq> Infinite_Rate"
      using 1(2) r by (auto simp: Let_def split: if_splits)
    then show ?thesis using 1(1) False by auto
  qed
qed simp_all

lemma maximum_charging_rate_finite:
  assumes "curves_ok I" and "finite_rate (maximum_charging_rate I fp)"
  shows "finite_rates I"
proof -
  have inf: "foldl (\<lambda>r c. curve_rate fp r (points (snd c))) Infinite_Rate cs = Infinite_Rate" for cs :: "(string \<times> charging_curve) list"
    by (induction cs) simp_all
  have "\<exists>r. curve_rate fp r (points (snd c)) \<noteq> Infinite_Rate"
    if "c \<in> set cs" "foldl (\<lambda>r c. curve_rate fp r (points (snd c))) r0 cs \<noteq> Infinite_Rate" for c and cs :: "(string \<times> charging_curve) list" and r0
    using that
  proof (induction cs arbitrary: r0)
    case (Cons d cs)
    have "curve_rate fp r0 (points (snd d)) \<noteq> Infinite_Rate" using Cons.prems(2) inf [of cs] by auto
    then show ?case using Cons.IH [of "curve_rate fp r0 (points (snd d))"] Cons.prems by (cases "c = d") auto
  qed simp
  moreover have "maximum_charging_rate I fp \<noteq> Infinite_Rate" using assms(2) by (auto simp: finite_rate_def)
  ultimately have c: "\<exists>r. curve_rate fp r (points (snd c)) \<noteq> Infinite_Rate" if "c \<in> set (charging_curves I)" for c
    using that unfolding maximum_charging_rate_def by blast
  show ?thesis
    unfolding finite_rates_def
  proof (intro ballI allI)
    fix c e assume m: "c \<in> set (charging_curves I)"
    then have "points (snd c) \<noteq> []" "energy_wh (hd (points (snd c))) - 1 / 10 ^ 8 \<le> max 0 e"
      using assms(1) by (auto simp: curves_ok_def curve_ok_def)
    then show "marginal_rate_at (snd c) e \<noteq> Infinite_Rate"
      using c [OF m] curve_rate_scan by (auto simp: marginal_rate_at_def)
  qed
qed

end
