(* ===== verification/Path_Completion.thy ===== *)
theory Path_Completion
  imports Effects Travel_Bounds Plan_Factory "HOL-Library.List_Lexorder"
begin

text \<open>
  The completion of a route by station paths (src/search.cpp: \<open>best_replacement_in_gaps\<close>,
  \<open>best_replacement\<close>, \<open>improve_path_subset\<close>, \<open>repair_new_gaps\<close>, \<open>repair_affected_paths\<close> of
  \<open>PathSampler\<close>), for calls without deadline and profiling, as construction and repair make
  them: the options of a gap are scanned in the order of the catalogue, those whose certified
  lower bound cannot win are skipped, and the best one replaces the gap.

  The catalogue of the nondominated paths between two anchors is a parameter, as are the flags
  of the sampler.  The permanent fallback flag \<open>fp_fallback\<close> is set from values that do not
  change during a run, and so is read through \<open>certified_now\<close>.
\<close>

section \<open>The sampler\<close>

record catalog_path =
  option_stations :: "int list"
  option_distance_km :: real

record path_sampler =
  ps_inst :: inst
  ps_catalog :: "int \<Rightarrow> int \<Rightarrow> catalog_path list result"
  ps_fp :: fp_env
  ps_fallback :: bool
  ps_certified :: bool
  ps_complete_paths :: bool
  ps_summary_budget :: nat
  ps_bulk_bound :: bool
  ps_shortfall_bound :: bool
  ps_zero_shift_bound :: bool
  ps_compatible :: bool
  ps_maximum_rate :: rate

definition certified_now :: "path_sampler \<Rightarrow> bool" where
  "certified_now ps \<longleftrightarrow> \<not> (ps_fallback ps \<or> ps_certified ps \<and> \<not> fp_supported (ps_fp ps))"

section \<open>The canonical plan\<close>

text \<open>\<open>matches\<close>: the next visit of the route, which advances also when it differs.\<close>

definition matches :: "int list \<Rightarrow> nat \<Rightarrow> int \<Rightarrow> nat \<times> bool" where
  "matches vs visit i = (if visit < length vs then (visit + 1, vs ! visit = i) else (visit, False))"

definition check_gap_station :: "inst \<Rightarrow> int list \<Rightarrow> nat \<times> bool \<Rightarrow> int \<Rightarrow> (nat \<times> bool) result" where
  "check_gap_station I vs st station =
     (case st of (visit, cacheable) \<Rightarrow>
       rbind (node_of I station) (\<lambda>n.
       if kind n \<noteq> Station then Inr (visit, False)
       else case matches vs visit station of (visit', ok) \<Rightarrow> Inr (visit', cacheable \<and> ok)))"

definition check_gap_customer :: "inst \<Rightarrow> int list \<Rightarrow> int list \<Rightarrow> nat \<times> bool \<Rightarrow> nat \<Rightarrow> (nat \<times> bool) result" where
  "check_gap_customer I vs customers st gap =
     (case st of (visit, cacheable) \<Rightarrow>
       if gap \<ge> length customers then Inr (visit, cacheable)
       else let customer = customers ! gap
            in rbind (node_of I customer) (\<lambda>n.
               if kind n \<noteq> Customer then Inr (visit, False)
               else case matches vs visit customer of (visit', ok) \<Rightarrow>
                 Inr (visit', cacheable \<and> ok \<and> customer \<notin> set (take gap customers))))"

definition canonical_plan :: "inst \<Rightarrow> plan \<Rightarrow> bool result" where
  "canonical_plan I p =
     rbind (rfold (\<lambda>st gap. rbind (rfold (check_gap_station I (visits (plan_route p))) st (gaps p ! gap))
                              (\<lambda>st. check_gap_customer I (visits (plan_route p)) (plan_customers p) st gap))
              (0, True) [0..<length (gaps p)])
       (\<lambda>(visit, cacheable). Inr (cacheable \<and> visit = length (visits (plan_route p))))"

definition cacheable_plan :: "path_sampler \<Rightarrow> plan \<Rightarrow> bool result" where
  "cacheable_plan ps p =
     (if certified_now ps \<and> ps_summary_budget ps \<noteq> 0 \<and> length (visits (plan_route p)) \<le> 256 \<and>
         length (gaps p) = length (plan_customers p) + 1
      then canonical_plan (ps_inst ps) p else Inr False)"

section \<open>The labels of a plan\<close>

definition plan_anchors :: "inst \<Rightarrow> int list \<Rightarrow> int list result" where
  "plan_anchors I customers = rbind (depot_of I) (\<lambda>d. Inr (node_id d # customers @ [node_id d]))"

text \<open>\<open>edges\<close>, \<open>prefixes\<close> and \<open>suffixes\<close>: the labels before and after every gap.\<close>

definition gap_edge :: "inst \<Rightarrow> int list \<Rightarrow> int list list \<Rightarrow> nat \<Rightarrow> charging_label result" where
  "gap_edge I anchors gs gap =
     (if gap + 1 < length anchors then edge_label I (anchors ! gap) (gs ! gap) (anchors ! (gap + 1))
      else Inl (Undefined ''anchor of a gap''))"

fun prefix_labels :: "charging_label \<Rightarrow> charging_label list \<Rightarrow> charging_label list result" where
  "prefix_labels lab [] = Inr [lab]"
| "prefix_labels lab (e # es) =
     rbind (concatenate lab e) (\<lambda>lab'. rbind (prefix_labels lab' es) (\<lambda>rest. Inr (lab # rest)))"

fun suffix_labels :: "charging_label list \<Rightarrow> charging_label list result" where
  "suffix_labels [] = Inr [empty_label]"
| "suffix_labels (e # es) =
     rbind (suffix_labels es) (\<lambda>rest. rbind (concatenate e (hd rest)) (\<lambda>lab. Inr (lab # rest)))"

definition prepare_labels ::
  "inst \<Rightarrow> int list \<Rightarrow> int list list \<Rightarrow> nat list \<Rightarrow> (charging_label list \<times> charging_label list) result" where
  "prepare_labels I anchors gs eligible =
     rbind (rmap (gap_edge I anchors gs) [0..<length gs]) (\<lambda>edges.
     if \<not> list_all (\<lambda>gap. gap < length gs) eligible
     then Inl (Out_Of_Range ''eligible path-repair gap is invalid'')
     else rbind (prefix_labels empty_label edges) (\<lambda>prefixes.
          rbind (suffix_labels edges) (\<lambda>suffixes. Inr (prefixes, suffixes))))"

section \<open>The scan of the options\<close>

record replacement =
  rep_cost :: real
  rep_gap :: nat
  rep_stations :: "int list"

type_synonym band = "real option \<times> replacement list"

definition add_times :: "charging_label \<Rightarrow> real \<Rightarrow> charging_label \<Rightarrow> real" where
  "add_times pre t suf =
     (let travel = (if initialized pre then label_travel_h pre + t else t)
      in if initialized suf then travel + label_travel_h suf else travel)"

definition add_services :: "charging_label \<Rightarrow> real \<Rightarrow> charging_label \<Rightarrow> real" where
  "add_services pre t suf =
     (let service = (if initialized pre then label_service_h pre + t else t)
      in if initialized suf then service + label_service_h suf else service)"

text \<open>\<open>*lower >= incumbent_cost - kCostTolerance || *lower > minimum_cost + kCostTolerance\<close>; \<open>None\<close> is the infinite minimum.\<close>

definition cannot_win :: "real \<Rightarrow> real option \<Rightarrow> real \<Rightarrow> bool" where
  "cannot_win incumbent least lower \<longleftrightarrow>
     lower \<ge> incumbent - kCostTolerance \<or>
     (case least of None \<Rightarrow> False | Some m \<Rightarrow> lower > m + kCostTolerance)"

text \<open>The data of one gap.\<close>

record gap_context =
  gc_sampler :: path_sampler
  gc_lambda :: real
  gc_incumbent :: real
  gc_gap :: nat
  gc_from :: int
  gc_to :: int
  gc_current :: "int list"
  gc_prefix :: charging_label
  gc_suffix :: charging_label
  gc_bound :: bool
  gc_shortfall :: bool
  gc_bulk :: bool
  gc_service :: real

definition gc_inst :: "gap_context \<Rightarrow> inst" where
  "gc_inst g = ps_inst (gc_sampler g)"

definition rates_finite :: "gap_context \<Rightarrow> bool" where
  "rates_finite g = finite_rate (ps_maximum_rate (gc_sampler g))"

definition tail_lower :: "gap_context \<Rightarrow> catalog_path \<Rightarrow> real option" where
  "tail_lower g opt =
     (let ps = gc_sampler g; v = vehicle_of (gc_inst g);
          upper = length (station_legs (gc_prefix g)) + length (station_ids (gc_inst g)) +
                  length (station_legs (gc_suffix g));
          travel = add_times (gc_prefix g)
                     (catalog_travel_lower_bound (ps_fp ps) (option_distance_km opt) (speed_kmph v)) (gc_suffix g);
          service = add_services (gc_prefix g) (gc_service g) (gc_suffix g)
      in if \<not> gc_bulk g \<or> upper > 62 then None
         else case nonlinear_travel_bound (ps_fp ps) travel service upper v (gc_lambda g) of
           None \<Rightarrow> None
         | Some lower \<Rightarrow>
             if ps_complete_paths ps \<and> gc_shortfall g \<and> rates_finite g \<and> ps_zero_shift_bound ps
             then (case zero_shift_energy_cost_bound (ps_fp ps) travel service v (gc_lambda g) of
                     None \<Rightarrow> Some lower | Some energy_lower \<Rightarrow> Some (max lower energy_lower))
             else Some lower)"

fun option_travel :: "inst \<Rightarrow> int \<Rightarrow> int list \<Rightarrow> int \<Rightarrow> real \<Rightarrow> real result" where
  "option_travel I previous [] targ acc = rbind (travel_time_h I previous targ) (\<lambda>t. Inr (acc + t))"
| "option_travel I previous (s # ss) targ acc =
     rbind (travel_time_h I previous s) (\<lambda>t. option_travel I s ss targ (acc + t))"

definition option_lower :: "gap_context \<Rightarrow> int list \<Rightarrow> real option result" where
  "option_lower g stations =
     (let station_cnt = length (station_legs (gc_prefix g)) + length stations + length (station_legs (gc_suffix g))
      in if \<not> gc_bound g \<or> station_cnt = 0 \<or> station_cnt > 62 then Inr None
         else rbind (option_travel (gc_inst g) (gc_from g) stations (gc_to g) 0) (\<lambda>t.
           Inr (nonlinear_travel_bound (ps_fp (gc_sampler g)) (add_times (gc_prefix g) t (gc_suffix g))
                  (add_services (gc_prefix g) (gc_service g) (gc_suffix g)) station_cnt
                  (vehicle_of (gc_inst g)) (gc_lambda g))))"

text \<open>
  The score of an option, or \<open>None\<close> when its evaluation was cut.  An infinite minimum never cuts
  below the incumbent limit, and is passed as the incumbent limit.
\<close>

definition score_option :: "gap_context \<Rightarrow> bool \<Rightarrow> real option \<Rightarrow> int list \<Rightarrow> route_cost_summary option eff" where
  "score_option g bounded least stations =
     ebind (lifted (rbind (edge_label (gc_inst g) (gc_from g) stations (gc_to g)) (\<lambda>e.
            rbind (append_label (gc_prefix g) e) (\<lambda>l. append_label l (gc_suffix g))))) (\<lambda>candidate.
     if bounded
     then ebind (evaluate_bounded (ps_compatible (gc_sampler g)) (gc_inst g) candidate (gc_lambda g)
                   (gc_incumbent g - kCostTolerance)
                   (case least of None \<Rightarrow> gc_incumbent g - kCostTolerance | Some m \<Rightarrow> m + kCostTolerance)
                   (rates_finite g)) (\<lambda>r.
          case r of Lower_Bound b \<Rightarrow> ret None | Summary s \<Rightarrow> ret (Some s))
     else ebind (evaluate_label (gc_inst g) candidate) (\<lambda>s. ret (Some s)))"

text \<open>The update of the minimum and the tolerance band by a scored option.\<close>

definition admit_replacement :: "replacement \<Rightarrow> band \<Rightarrow> band" where
  "admit_replacement r b =
     (let lowered = (case fst b of None \<Rightarrow> True | Some m \<Rightarrow> rep_cost r < m);
          least = (if lowered then rep_cost r else the (fst b));
          items = (if lowered then filter (\<lambda>x. \<not> rep_cost x > least + kCostTolerance) (snd b) else snd b)
      in (Some least, if rep_cost r \<le> least + kCostTolerance then items @ [r] else items))"

definition scan_option :: "gap_context \<Rightarrow> (nat \<times> int list) list \<Rightarrow> band \<Rightarrow> int list \<Rightarrow> band eff" where
  "scan_option g excluded b stations =
     (if stations = gc_current g \<or> (gc_gap g, stations) \<in> set excluded then ret b
      else ebind (lifted (option_lower g stations)) (\<lambda>lower.
           if (case lower of None \<Rightarrow> False | Some l \<Rightarrow> cannot_win (gc_incumbent g) (fst b) l) then ret b
           else ebind (score_option g (lower \<noteq> None \<and> gc_shortfall g) (fst b) stations) (\<lambda>s.
             case s of None \<Rightarrow> ret b
             | Some summary \<Rightarrow>
                 ebind (lifted (summary_cost summary (gc_inst g) (gc_lambda g))) (\<lambda>c.
                 if c \<ge> gc_incumbent g - kCostTolerance then ret b
                 else ret (admit_replacement \<lparr>rep_cost = c, rep_gap = gc_gap g, rep_stations = stations\<rparr> b)))))"

fun scan_options :: "gap_context \<Rightarrow> (nat \<times> int list) list \<Rightarrow> catalog_path list \<Rightarrow> band \<Rightarrow> band eff" where
  "scan_options g excluded [] b = ret b"
| "scan_options g excluded (opt # opts) b =
     (if (case tail_lower g opt of None \<Rightarrow> False | Some l \<Rightarrow> cannot_win (gc_incumbent g) (fst b) l) then ret b
      else ebind (scan_option g excluded b (option_stations opt)) (scan_options g excluded opts))"

definition scan_gap ::
  "path_sampler \<Rightarrow> real \<Rightarrow> real \<Rightarrow> plan \<Rightarrow> int list \<Rightarrow> charging_label list \<times> charging_label list \<Rightarrow> bool \<Rightarrow>
     (nat \<times> int list) list \<Rightarrow> band \<Rightarrow> nat \<Rightarrow> band eff" where
  "scan_gap ps lambda incumbent p anchors labels cacheable excluded b gap =
     (let I = ps_inst ps; fro = anchors ! gap; to = anchors ! (gap + 1);
          bound = cacheable \<and> ps_certified ps \<and> fp_supported (ps_fp ps);
          shortfall = bound \<and> ps_shortfall_bound ps \<and> ps_compatible ps \<and>
            nonlinear_travel_bound (ps_fp ps) 0 0 0 (vehicle_of I) lambda \<noteq> None
      in ebind (lifted (ps_catalog ps fro to)) (\<lambda>opts.
         ebind (lifted (if bound then rbind (node_of I to) (\<lambda>n. Inr (if kind n = Customer then node_service_time_h n else 0))
                        else Inr 0)) (\<lambda>service.
         scan_options \<lparr>gc_sampler = ps, gc_lambda = lambda, gc_incumbent = incumbent, gc_gap = gap,
             gc_from = fro, gc_to = to, gc_current = gaps p ! gap, gc_prefix = fst labels ! gap,
             gc_suffix = snd labels ! (gap + 1), gc_bound = bound, gc_shortfall = shortfall,
             gc_bulk = bound \<and> ps_bulk_bound ps, gc_service = service\<rparr> excluded opts b)))"

section \<open>The best replacement\<close>

definition plan_cost :: "inst \<Rightarrow> real \<Rightarrow> plan \<Rightarrow> real result" where
  "plan_cost I lambda p = rbind (deref (evaluation p)) (\<lambda>ev. generalized_cost ev I lambda)"

text \<open>The first replacement in the band whose route has the least visits.\<close>

definition smaller_route :: "plan \<Rightarrow> (replacement \<times> int list) option \<Rightarrow> replacement \<Rightarrow> (replacement \<times> int list) option result" where
  "smaller_route p best_opt r =
     rbind (expand_route (plan_customers p) ((gaps p)[rep_gap r := rep_stations r])) (\<lambda>route.
       Inr (case best_opt of None \<Rightarrow> Some (r, visits route)
            | Some (b, bv) \<Rightarrow> if visits route < bv then Some (r, visits route) else best_opt))"

type_synonym 'a with_factory = "plan_factory \<Rightarrow> ('a \<times> plan_factory) eff"

text \<open>A call of the plan factory; an exception ends the search.\<close>

definition built :: "(plan result \<times> plan_factory) option \<Rightarrow> (plan \<times> plan_factory) eff" where
  "built r = (case r of None \<Rightarrow> None | Some (Inl e, f) \<Rightarrow> throw e | Some (Inr p, f) \<Rightarrow> ret (p, f))"

definition best_replacement_in_gaps ::
  "path_sampler \<Rightarrow> plan \<Rightarrow> real \<Rightarrow> nat list \<Rightarrow> (nat \<times> int list) list \<Rightarrow> plan option with_factory" where
  "best_replacement_in_gaps ps p lambda eligible excluded f =
     (if exact_charging p then ret (None, f)
      else ebind (lifted (plan_anchors (ps_inst ps) (plan_customers p))) (\<lambda>anchors.
           ebind (lifted (cacheable_plan ps p)) (\<lambda>cacheable.
           ebind (lifted (prepare_labels (ps_inst ps) anchors (gaps p) eligible)) (\<lambda>labels.
           ebind (lifted (plan_cost (ps_inst ps) lambda p)) (\<lambda>incumbent.
           ebind (efold (scan_gap ps lambda incumbent p anchors labels cacheable excluded) (None, []) eligible) (\<lambda>(least, items).
           ebind (lifted (rfold (smaller_route p) None items)) (\<lambda>best_opt.
           case best_opt of None \<Rightarrow> ret (None, f)
           | Some (r, _) \<Rightarrow>
               ebind (built (make_plan (ps_inst ps) f (plan_customers p) ((gaps p)[rep_gap r := rep_stations r])))
                 (\<lambda>(q, f'). ret (Some q, f')))))))))"

definition best_replacement :: "path_sampler \<Rightarrow> plan \<Rightarrow> real \<Rightarrow> plan option with_factory" where
  "best_replacement ps p lambda = best_replacement_in_gaps ps p lambda [0..<length (gaps p)] []"

section \<open>The improvement loop\<close>

text \<open>The gaps that differ; the loop gives up when more than one does.\<close>

definition changed_gaps :: "plan \<Rightarrow> plan \<Rightarrow> nat list" where
  "changed_gaps p q = filter (\<lambda>gap. gaps p ! gap \<noteq> gaps q ! gap) [0..<length (gaps p)]"

partial_function (option) improve_subset ::
  "path_sampler \<Rightarrow> real \<Rightarrow> nat list \<Rightarrow> (nat \<times> int list) list \<Rightarrow> plan \<Rightarrow> plan_factory \<Rightarrow> (plan \<times> plan_factory) eff" where
  "improve_subset ps lambda eligible excluded p f =
     (case best_replacement_in_gaps ps p lambda eligible excluded f of
        None \<Rightarrow> None
      | Some (Inl e) \<Rightarrow> Some (Inl e)
      | Some (Inr (None, f')) \<Rightarrow> Some (Inr (p, f'))
      | Some (Inr (Some q, f')) \<Rightarrow>
          (case plan_cost (ps_inst ps) lambda p of
             Inl e \<Rightarrow> Some (Inl e)
           | Inr incumbent \<Rightarrow>
               (case plan_cost (ps_inst ps) lambda q of
                  Inl e \<Rightarrow> Some (Inl e)
                | Inr improved \<Rightarrow>
                    if improved < incumbent - kCostTolerance then improve_subset ps lambda eligible [] q f'
                    else (case changed_gaps p q of
                            [gap] \<Rightarrow> improve_subset ps lambda eligible (excluded @ [(gap, gaps q ! gap)]) p f'
                          | _ \<Rightarrow> Some (Inr (p, f'))))))"

definition improve_path_subset :: "path_sampler \<Rightarrow> plan \<Rightarrow> real \<Rightarrow> nat list \<Rightarrow> plan with_factory" where
  "improve_path_subset ps p lambda eligible f =
     (if eligible = [] then ret (p, f) else improve_subset ps lambda eligible [] p f)"

section \<open>Repair\<close>

definition introduced_gap :: "gap_map \<Rightarrow> int list \<Rightarrow> nat \<Rightarrow> bool" where
  "introduced_gap inherited anchors gap = (map_of inherited (anchors ! gap, anchors ! (gap + 1)) = None)"

definition repair_new_gaps ::
  "path_sampler \<Rightarrow> plan \<Rightarrow> gap_map \<Rightarrow> real \<Rightarrow> bool \<Rightarrow> plan with_factory" where
  "repair_new_gaps ps p inherited lambda single_step f =
     (if exact_charging p then ret (p, f)
      else ebind (lifted (plan_anchors (ps_inst ps) (plan_customers p))) (\<lambda>anchors.
           let introduced = filter (introduced_gap inherited anchors) [0..<length (gaps p)]
           in if single_step
              then (if introduced = [] then ret (p, f)
                    else ebind (best_replacement_in_gaps ps p lambda introduced [] f) (\<lambda>(proposed, f').
                         case proposed of None \<Rightarrow> ret (p, f')
                         | Some q \<Rightarrow>
                             ebind (lifted (plan_cost (ps_inst ps) lambda q)) (\<lambda>cq.
                             ebind (lifted (plan_cost (ps_inst ps) lambda p)) (\<lambda>cp.
                             ret (if cq < cp - kCostTolerance then q else p, f')))))
              else improve_path_subset ps p lambda introduced f))"

definition repair_affected_paths ::
  "path_sampler \<Rightarrow> plan \<Rightarrow> gap_map \<Rightarrow> real \<Rightarrow> plan with_factory" where
  "repair_affected_paths ps p inherited lambda f =
     (if exact_charging p then ret (p, f)
      else ebind (lifted (plan_anchors (ps_inst ps) (plan_customers p))) (\<lambda>anchors.
           let n = length (gaps p);
               introduced = introduced_gap inherited anchors;
               selected = (\<lambda>gap. introduced gap \<or> gaps p ! gap \<noteq> [] \<or> gap + 1 < n \<and> introduced (gap + 1) \<or>
                             gap > 0 \<and> introduced (gap - 1))
           in improve_path_subset ps p lambda (filter selected [0..<n]) f))"

end
