(* ===== verification/Plan_Fit.thy ===== *)
theory Plan_Fit
  imports Plan_Factory Sequence_Properties
begin

text \<open>
  Plans as the search keeps them: nonempty simple customer sequence, gaps of stations without
  immediate repetition, the route that is their expansion, and its evaluation.  The plan factory
  builds exactly the requested plan from such parts, and never throws on them.
\<close>

definition gap_ok :: "inst \<Rightarrow> bool \<Rightarrow> int list \<Rightarrow> bool" where
  "gap_ok I revisits g \<longleftrightarrow> (\<forall>s \<in> set g. known_station I s) \<and> successively (\<noteq>) g \<and> (revisits \<or> distinct g)"

definition customers_ok :: "inst \<Rightarrow> int list \<Rightarrow> bool" where
  "customers_ok I cs \<longleftrightarrow> cs \<noteq> [] \<and> distinct cs \<and> set cs \<subseteq> set (customer_ids I)"

definition evaluated :: "inst \<Rightarrow> int list \<Rightarrow> route_evaluation \<Rightarrow> bool" where
  "evaluated I vs ev \<longleftrightarrow>
     summary_consistent I (path_travel I (depot_id I) (vs @ [depot_id I])) (path_service I vs) ev"

definition plan_fit :: "inst \<Rightarrow> bool \<Rightarrow> plan \<Rightarrow> bool" where
  "plan_fit I revisits p \<longleftrightarrow> customers_ok I (plan_customers p) \<and>
     length (gaps p) = length (plan_customers p) + 1 \<and> (\<forall>g \<in> set (gaps p). gap_ok I revisits g) \<and>
     plan_route p = \<lparr>visits = interleave (gaps p) (plan_customers p)\<rparr> \<and>
     (\<exists>ev. evaluation p = Some ev \<and> evaluated I (visits (plan_route p)) ev)"

lemma plan_fitD:
  assumes "plan_fit I revisits p"
  shows "customers_ok I (plan_customers p)" "length (gaps p) = length (plan_customers p) + 1"
    "\<And>g. g \<in> set (gaps p) \<Longrightarrow> gap_ok I revisits g"
    "visits (plan_route p) = interleave (gaps p) (plan_customers p)"
    "\<exists>ev. evaluation p = Some ev \<and> evaluated I (visits (plan_route p)) ev"
    "plan_customers p \<noteq> []"
  using assms by (auto simp: plan_fit_def customers_ok_def)

lemma plan_fit_ok: "plan_fit I revisits p \<Longrightarrow> plan_ok I p"
  by (auto simp: plan_fit_def plan_ok_def gap_ok_def customers_ok_def)

lemma plan_fit_consistent: "plan_fit I revisits p \<Longrightarrow> plan_consistent p"
  by (auto simp: plan_fit_def plan_consistent_def expand_route_eq customers_ok_def)

section \<open>Routes without adjacent repetition\<close>

lemma successively_interleave:
  "length gs = length cs + 1 \<Longrightarrow> (\<forall>g \<in> set gs. successively (\<noteq>) g \<and> set g \<inter> set cs = {}) \<Longrightarrow> distinct cs \<Longrightarrow>
    successively (\<noteq>) (interleave gs cs)"
proof (induction gs cs rule: interleave.induct)
  case (1 g gs c cs)
  have rest: "successively (\<noteq>) (interleave gs cs)" using 1 by auto
  have "set (interleave gs cs) = set cs \<union> \<Union> (set ` set gs)" using 1(2) by (intro set_interleave) simp
  then have "c \<notin> set (interleave gs cs)" using 1(3,4) by auto
  then have "interleave gs cs = [] \<or> c \<noteq> hd (interleave gs cs)" by (metis hd_in_set)
  moreover have "g = [] \<or> last g \<noteq> c" using 1(3) by (auto dest: last_in_set)
  ultimately show ?case
    using 1(3) rest by (auto simp: successively_append_iff successively_Cons)
qed auto

lemma has_adjacent_successively: "successively (\<noteq>) vs \<Longrightarrow> has_adjacent_station_visits I vs = Inr False"
  by (induction I vs rule: has_adjacent_station_visits.induct) auto

lemma normalize_successively:
  assumes "successively (\<noteq>) vs"
  shows "normalize_adjacent_station_visits I vs = Inr (False, vs)"
proof -
  have "rfold (keep_visit I) us vs = Inr (us @ vs)" if "successively (\<noteq>) (us @ vs)" for us
    using that
  proof (induction vs arbitrary: us)
    case (Cons v vs)
    then have "us = [] \<or> last us \<noteq> v" by (auto simp: successively_append_iff)
    then have "keep_visit I us v = Inr (us @ [v])" by (auto simp: keep_visit_def)
    then show ?case using Cons.IH [of "us @ [v]"] Cons.prems by simp
  qed simp
  from this [of "[]"] assms show ?thesis by (simp add: normalize_adjacent_station_visits_def)
qed

section \<open>Building a plan\<close>

lemma customer_not_station: "inst_ok I \<Longrightarrow> c \<in> set (customer_ids I) \<Longrightarrow> \<not> known_station I c"
  using customer_known(2) by (auto simp: known_station_def)

lemma customers_simple: "inst_ok I \<Longrightarrow> customers_ok I cs \<Longrightarrow> simple_of_kind I Customer cs"
  using customer_known by (auto simp: customers_ok_def simple_of_kind_def)

lemma fit_gaps_valid: "(\<forall>g \<in> set gs. gap_ok I revisits g) \<Longrightarrow> gaps_valid I revisits gs"
  by (auto simp: gaps_valid_def gap_ok_def simple_of_kind_def known_station_def)

lemma fit_physical:
  assumes I: "inst_ok I" and cs: "customers_ok I cs" and gs: "length gs = length cs + 1" "\<forall>g \<in> set gs. gap_ok I revisits g"
  shows "physical_visits I (interleave gs cs)" and "filter (is_customer I) (interleave gs cs) = cs"
    and "successively (\<noteq>) (interleave gs cs)" and "set (interleave gs cs) \<subseteq> set (ids I)"
proof -
  have c: "\<forall>c \<in> set cs. c \<in> set (ids I) \<and> kind (the_node I c) = Customer"
    using customer_known [OF I] cs by (auto simp: customers_ok_def)
  have s: "\<forall>g \<in> set gs. \<forall>x \<in> set g. x \<in> set (ids I) \<and> kind (the_node I x) = Station"
    using gs(2) by (auto simp: gap_ok_def known_station_def)
  show "physical_visits I (interleave gs cs)"
    using c s set_interleave [OF gs(1)] by (auto simp: physical_visits_def)
  then show "set (interleave gs cs) \<subseteq> set (ids I)" by (rule visits_known)
  show "filter (is_customer I) (interleave gs cs) = cs"
    by (rule filter_interleave [OF gs(1)]) (use c s in \<open>auto simp: is_customer_def\<close>)
  show "successively (\<noteq>) (interleave gs cs)"
  proof (rule successively_interleave [OF gs(1)])
    show "\<forall>g \<in> set gs. successively (\<noteq>) g \<and> set g \<inter> set cs = {}" using gs(2) c s by (fastforce simp: gap_ok_def)
  qed (use cs in \<open>simp add: customers_ok_def\<close>)
qed

lemma assemble_plan_exact:
  assumes I: "inst_ok I" "curves_ok I" and f: "factory_ok I f" and cs: "customers_ok I cs"
    and gs: "length gs = length cs + 1" "\<forall>g \<in> set gs. gap_ok I revisits g"
  shows "\<exists>ev f'. assemble_plan I f cs gs \<lparr>visits = interleave gs cs\<rparr> = Some (Inr \<lparr>plan_customers = cs, gaps = gs,
      plan_route = \<lparr>visits = interleave gs cs\<rparr>, evaluation = Some ev, exact_charging = False\<rparr>, f') \<and>
    factory_ok I f' \<and> allow_revisits f' = allow_revisits f \<and> evaluated I (interleave gs cs) ev \<and>
    route_result I (interleave gs cs) = Inr ev"
proof -
  let ?vs = "interleave gs cs"
  note p = fit_physical [OF I(1) cs gs]
  have "validate_route I \<lparr>visits = ?vs\<rparr> = Inr ()"
    using p(1,2) cs by (simp add: validate_route_Inr [OF I(1)] physical_visits_def customers_ok_def flip: is_customer_fun)
  moreover obtain ev where ev: "evaluate_uncached I \<lparr>visits = ?vs\<rparr> = Some (Inr ev)" "route_evaluated I \<lparr>visits = ?vs\<rparr> ev"
    using uncached_evaluated [OF I, of "\<lparr>visits = ?vs\<rparr>"] p(4) by auto
  ultimately have res: "route_result I ?vs = Inr ev" by (simp add: route_result_def)
  obtain cache' where c: "evaluate_route I (evaluator_cache f) \<lparr>visits = ?vs\<rparr> = Some (Inr ev, cache')"
    "lru_ok cache'" "memo_agrees (map_of (lru_items cache')) (route_result I)"
    using evaluate_route_ok [OF I, of "evaluator_cache f" "\<lparr>visits = ?vs\<rparr>"] f res by (auto simp: factory_ok_def)
  have "assemble_plan I f cs gs \<lparr>visits = ?vs\<rparr> = Some (Inr \<lparr>plan_customers = cs, gaps = gs,
      plan_route = \<lparr>visits = ?vs\<rparr>, evaluation = Some ev, exact_charging = False\<rparr>, f\<lparr>evaluator_cache := cache'\<rparr>)"
    using normalize_successively [OF p(3)] c(1) by (simp add: assemble_plan_def)
  moreover have "factory_ok I (f\<lparr>evaluator_cache := cache'\<rparr>)" using f c by (simp add: factory_ok_def marks_ok_def)
  ultimately show ?thesis using ev(2) res by (auto simp: route_evaluated_def evaluated_def)
qed

lemma make_plan_exact:
  assumes I: "inst_ok I" "curves_ok I" and f: "factory_ok I f" and cs: "customers_ok I cs"
    and gs: "length gs = length cs + 1" "\<forall>g \<in> set gs. gap_ok I (allow_revisits f) g"
  shows "\<exists>ev f'. make_plan I f cs gs = Some (Inr \<lparr>plan_customers = cs, gaps = gs,
      plan_route = \<lparr>visits = interleave gs cs\<rparr>, evaluation = Some ev, exact_charging = False\<rparr>, f') \<and>
    factory_ok I f' \<and> allow_revisits f' = allow_revisits f \<and> evaluated I (interleave gs cs) ev \<and>
    route_result I (interleave gs cs) = Inr ev"
proof -
  obtain r1 f1 where v: "validate_node_sequence I f cs Customer ''invalid customer sequence'' = (r1, f1)"
    by (cases "validate_node_sequence I f cs Customer ''invalid customer sequence''")
  have v_ok: "factory_ok I f1" "allow_revisits f1 = allow_revisits f" "r1 = Inr ()"
    using validate_sequence_ok [OF I(1) f v] customers_simple [OF I(1) cs] by auto
  obtain r2 f2 where g: "check_gaps I f1 gs = (r2, f2)" by (cases "check_gaps I f1 gs")
  have g_ok: "factory_ok I f2" "allow_revisits f2 = allow_revisits f" "r2 = Inr ()"
    using check_gaps_ok [OF I(1) v_ok(1) g] fit_gaps_valid [OF gs(2)] v_ok(2) by (auto simp: gaps_valid_def)
  from assemble_plan_exact [OF I g_ok(1) cs gs] show ?thesis
    using v g v_ok(3) g_ok(2,3) cs gs(1) by (auto simp: make_plan_def expand_route_eq customers_ok_def)
qed

lemma make_plan_fit:
  assumes I: "inst_ok I" "curves_ok I" and f: "factory_ok I f" and cs: "customers_ok I cs"
    and gs: "length gs = length cs + 1" "\<forall>g \<in> set gs. gap_ok I (allow_revisits f) g"
  shows "\<exists>p f'. make_plan I f cs gs = Some (Inr p, f') \<and> factory_ok I f' \<and> allow_revisits f' = allow_revisits f \<and>
    plan_fit I (allow_revisits f) p \<and> plan_customers p = cs \<and> gaps p = gs \<and> \<not> exact_charging p"
  using make_plan_exact [OF assms] assms(4-6) by (auto simp: plan_fit_def)

section \<open>Costs\<close>

lemma fit_cost:
  assumes "plan_fit I revisits p" and "isfinite lambda" and "0 \<le> lambda"
  obtains ev c where "evaluation p = Some ev" and "generalized_cost ev I lambda = Inr c"
    and "evaluated I (visits (plan_route p)) ev"
  using plan_fitD(5) [OF assms(1)] assms(2,3) that by (auto simp: generalized_cost_def Let_def)

end
