(* ===== verification/Plan_Builds.thy ===== *)
theory Plan_Builds
  imports Path_Completion Plan_Fit
begin

text \<open>
  Computations that build plans through the factory.  The caches of the factory never change what
  is built: \<open>builds I R m x\<close> says that \<open>m\<close> returns \<open>x\<close> from every well-formed factory.
\<close>

definition builds :: "inst \<Rightarrow> bool \<Rightarrow> 'a with_factory \<Rightarrow> 'a \<Rightarrow> bool" where
  "builds I R m x \<longleftrightarrow>
     (\<forall>f. factory_ok I f \<and> allow_revisits f = R \<longrightarrow>
        (\<exists>f'. m f = ret (x, f') \<and> factory_ok I f' \<and> allow_revisits f' = R))"

named_theorems builds_intros

lemma buildsI:
  "(\<And>f. factory_ok I f \<Longrightarrow> allow_revisits f = R \<Longrightarrow>
    \<exists>f'. m f = ret (x, f') \<and> factory_ok I f' \<and> allow_revisits f' = R) \<Longrightarrow> builds I R m x"
  by (simp add: builds_def)

lemma buildsE:
  assumes "builds I R m x" and "factory_ok I f" and "allow_revisits f = R"
  obtains f' where "m f = ret (x, f')" and "factory_ok I f'" and "allow_revisits f' = R"
  using assms by (auto simp: builds_def)

lemma builds_cong: "(\<And>f. factory_ok I f \<Longrightarrow> allow_revisits f = R \<Longrightarrow> m f = m' f) \<Longrightarrow> builds I R m' x \<Longrightarrow> builds I R m x"
  by (simp add: builds_def)

lemma builds_ret [builds_intros]: "builds I R (\<lambda>f. ret (x, f)) x"
  by (simp add: builds_def)

lemma builds_bind:
  "builds I R m x \<Longrightarrow> builds I R (k x) y \<Longrightarrow> builds I R (\<lambda>f. ebind (m f) (\<lambda>(x, f'). k x f')) y"
  by (fastforce simp: builds_def)

lemma builds_lifted: "r = Inr x \<Longrightarrow> builds I R (k x) y \<Longrightarrow> builds I R (\<lambda>f. ebind (lifted r) (\<lambda>x. k x f)) y"
  by simp

lemma builds_yields:
  "builds I R m x \<Longrightarrow> factory_ok I f \<Longrightarrow> allow_revisits f = R \<Longrightarrow>
    yields False (\<lambda>(y, f'). y = x \<and> factory_ok I f' \<and> allow_revisits f' = R) (m f)"
  by (auto elim!: buildsE)

text \<open>What a computation builds, read off one run of it.\<close>

definition built_by :: "'a with_factory \<Rightarrow> plan_factory \<Rightarrow> 'a" where
  "built_by m f = fst (projr (the (m f)))"

lemma built_by_eq: "builds I R m x \<Longrightarrow> factory_ok I f \<Longrightarrow> allow_revisits f = R \<Longrightarrow> built_by m f = x"
  by (auto simp: built_by_def ret_def elim!: buildsE)

section \<open>The plan of given parts\<close>

definition fit_plan :: "inst \<Rightarrow> int list \<Rightarrow> int list list \<Rightarrow> plan" where
  "fit_plan I cs gs =
     \<lparr>plan_customers = cs, gaps = gs, plan_route = \<lparr>visits = interleave gs cs\<rparr>,
      evaluation = Some (projr (route_result I (interleave gs cs))), exact_charging = False\<rparr>"

lemma fit_plan_simps [simp]:
  "plan_customers (fit_plan I cs gs) = cs" "gaps (fit_plan I cs gs) = gs"
  "visits (plan_route (fit_plan I cs gs)) = interleave gs cs" "exact_charging (fit_plan I cs gs) = False"
  by (simp_all add: fit_plan_def)

lemma make_plan_builds:
  assumes I: "inst_ok I" "curves_ok I" and cs: "customers_ok I cs"
    and gs: "length gs = length cs + 1" "\<forall>g \<in> set gs. gap_ok I R g"
  shows "builds I R (\<lambda>f. built (make_plan I f cs gs)) (fit_plan I cs gs)"
proof (rule buildsI)
  fix f assume f: "factory_ok I f" "allow_revisits f = R"
  show "\<exists>f'. built (make_plan I f cs gs) = ret (fit_plan I cs gs, f') \<and> factory_ok I f' \<and> allow_revisits f' = R"
    using make_plan_exact [OF I f(1) cs gs(1)] gs(2) f(2) by (auto simp: built_def fit_plan_def)
qed

lemma fit_plan_fit:
  assumes I: "inst_ok I" "curves_ok I" and f: "factory_ok I f" and cs: "customers_ok I cs"
    and gs: "length gs = length cs + 1" "\<forall>g \<in> set gs. gap_ok I (allow_revisits f) g"
  shows "plan_fit I (allow_revisits f) (fit_plan I cs gs)"
    and "route_result I (interleave gs cs) = Inr (projr (route_result I (interleave gs cs)))"
  using make_plan_exact [OF assms] cs gs by (auto simp: plan_fit_def fit_plan_def)

lemma plan_sequence_builds:
  assumes I: "inst_ok I" "curves_ok I" and cs: "customers_ok I cs"
    and gs: "\<forall>g \<in> set (inherited_gaps (depot_id I) cs m). gap_ok I R g"
  shows "builds I R (\<lambda>f. built (plan_sequence_with I f cs m)) (fit_plan I cs (inherited_gaps (depot_id I) cs m))"
proof -
  have len: "length (inherited_gaps (depot_id I) cs m) = length cs + 1"
    using inherited_gaps_nth(2) [of 0 cs "depot_id I" m] cs by (auto simp: customers_ok_def)
  from make_plan_builds [OF I cs len gs] show ?thesis
    using depot_known [OF I(1)] by (simp add: plan_sequence_with_def)
qed

end
