(* ===== verification/Insertion_Eval.thy ===== *)
theory Insertion_Eval
  imports Insertion_Choice Plan_Builds
begin

text \<open>
  The completion of an insertion by station paths (src/search.cpp: \<open>evaluate_linked_insertion\<close>):
  the new route inherits the paths of the reference, the gaps next to the new customer start
  direct and are repaired by the path sampler, and the outcome is memoised under the physical
  route, the customer and the position.
\<close>

definition kInsertionCompletionMemoCapacity :: nat where
  "kInsertionCompletionMemoCapacity = 8192"

text \<open>\<open>InsertionCompletionKey\<close>: physical visits of the source route, customer, position, opens a route.\<close>

type_synonym insertion_key = "int list \<times> int \<times> nat \<times> bool"

type_synonym completion_memo = "(insertion_key, insertion_completion) lru_cache"

record completer_state =
  cs_factory :: plan_factory
  cs_memo :: completion_memo

definition completion_key :: "solution \<Rightarrow> insertion_move \<Rightarrow> insertion_key" where
  "completion_key current m =
     (if move_route m = length (plans current) then [] else visits (plan_route (plans current ! move_route m)),
      move_customer m, move_position m, move_route m = length (plans current))"

text \<open>A feasible route without charging time is not repaired.\<close>

definition complete_sequence ::
  "path_sampler \<Rightarrow> gap_map \<Rightarrow> real \<Rightarrow> bool \<Rightarrow> int list \<Rightarrow> insertion_completion with_factory" where
  "complete_sequence ps inherited lambda single_step customers f =
     ebind (built (plan_sequence_with (ps_inst ps) f customers inherited)) (\<lambda>(direct, f).
     ebind (lifted (deref (evaluation direct))) (\<lambda>ev.
     ebind (if feasible ev \<and> charging_time_h ev \<le> kTimeToleranceH then ret (direct, f)
            else repair_new_gaps ps direct inherited lambda single_step f) (\<lambda>(completed, f).
     ebind (lifted (deref (evaluation completed))) (\<lambda>completed_ev.
     ebind (lifted (generalized_cost completed_ev (ps_inst ps) lambda)) (\<lambda>cost.
     ret (\<lparr>completed_plan = completed, absolute_cost = cost,
           completion_changed = (gaps completed \<noteq> gaps direct),
           completion_repairs = (\<not> feasible ev \<and> feasible completed_ev)\<rparr>, f))))))"

text \<open>
  The check that the bound of the move is not above its completed cost; the move takes the cost
  of the completion.
\<close>

definition adopt_completion :: "insertion_move \<Rightarrow> insertion_completion \<Rightarrow> insertion_move result" where
  "adopt_completion m out =
     (let delta = absolute_cost out - incumbent_route_cost m
      in if beyond (bound_delta m) delta then Inl (Logic_Error ''linked insertion lower bound exceeded its cost'')
         else Inr (m\<lparr>move_delta := delta, infeasible_to_feasible := completion_repairs out,
                     move_evaluated := True, move_completion := Some out\<rparr>))"

definition evaluate_linked ::
  "path_sampler \<Rightarrow> gap_map \<Rightarrow> real \<Rightarrow> bool \<Rightarrow> solution \<Rightarrow> completer_state completer" where
  "evaluate_linked ps inherited lambda single_step current m s =
     (if move_evaluated m then ret (m, s)
      else case lru_get (completion_key current m) (cs_memo s) of
        (Some out, memo) \<Rightarrow>
          ebind (lifted (adopt_completion m out)) (\<lambda>m'. ret (m', s\<lparr>cs_memo := memo\<rparr>))
      | (None, memo) \<Rightarrow>
          ebind (complete_sequence ps inherited lambda single_step (insertion_sequence current m) (cs_factory s)) (\<lambda>(out, f).
          ebind (lifted (adopt_completion m out)) (\<lambda>m'.
          ret (m', \<lparr>cs_factory = f, cs_memo = lru_put (completion_key current m) out memo\<rparr>))))"

text \<open>\<open>completion.reset()\<close>\<close>

definition release_completion :: "insertion_move \<Rightarrow> insertion_move" where
  "release_completion m = m\<lparr>move_completion := None\<rparr>"

section \<open>The moves of a customer group\<close>

text \<open>
  \<open>choose_linked_greedy\<close> and \<open>choose_linked_two_regret\<close> on the moves of the unassigned customers.
\<close>

definition linked_greedy ::
  "path_sampler \<Rightarrow> gap_map \<Rightarrow> real \<Rightarrow> bool \<Rightarrow> solution \<Rightarrow> insertion_move list \<Rightarrow> completer_state \<Rightarrow>
     (insertion_move \<times> completer_state) eff" where
  "linked_greedy ps inherited lambda single_step current =
     choose_greedy (evaluate_linked ps inherited lambda single_step current) release_completion"

definition linked_two_regret ::
  "path_sampler \<Rightarrow> gap_map \<Rightarrow> real \<Rightarrow> bool \<Rightarrow> solution \<Rightarrow> insertion_context \<Rightarrow> sequence_scorer \<Rightarrow> int list \<Rightarrow>
     completer_state \<Rightarrow> (insertion_move \<times> completer_state) eff" where
  "linked_two_regret ps inherited lambda single_step current ctx sc unassigned s =
     ebind (efold (\<lambda>groups c. ebind (insertion_moves ctx sc True current c) (\<lambda>(moves, _). ret (groups @ [moves])))
              [] unassigned) (\<lambda>groups.
     choose_two_regret (evaluate_linked ps inherited lambda single_step current) release_completion
       (ctx_fp ctx) groups s)"

end
