(* ===== verification/Insertion_Exact.thy ===== *)
theory Insertion_Exact
  imports Insertion_Choice
begin

text \<open>
  The lazy choices are exact: as long as the lower bounds hold up to the safety margin, completing
  only the moves whose bound can still matter selects the insertion that completing every move
  would select.
\<close>

section \<open>Completion\<close>

text \<open>A move and its completion stand at the same slot under the same bound.\<close>

definition same_place :: "insertion_move \<Rightarrow> insertion_move \<Rightarrow> bool" where
  "same_place m m' \<longleftrightarrow> move_slot m' = move_slot m \<and> bound_delta m' = bound_delta m"

definition bound_holds :: "(int \<times> nat \<times> nat \<Rightarrow> real) \<Rightarrow> insertion_move \<Rightarrow> bool" where
  "bound_holds ccost m \<longleftrightarrow>
     (case bound_delta m of None \<Rightarrow> True | Some b \<Rightarrow> b \<le> ccost (move_slot m) + kLinkedBoundSafety)"

text \<open>The order of the completed moves: cost, then customer, route and position.\<close>

definition completed_key :: "(int \<times> nat \<times> nat \<Rightarrow> real) \<Rightarrow> insertion_move \<Rightarrow> real \<times> int \<times> nat \<times> nat" where
  "completed_key ccost m = (ccost (move_slot m), move_slot m)"

lemma beyond_later:
  assumes "beyond (bound_delta m) limit" and "bound_delta m \<le> bound_delta m'" and "bound_holds ccost m'"
  shows "limit < ccost (move_slot m')"
proof -
  obtain b where b: "bound_delta m = Some b" "limit + kLinkedBoundSafety < b"
    using assms(1) by (auto simp: beyond_def split: option.splits)
  then obtain b' where "bound_delta m' = Some b'" "b \<le> b'"
    using assms(2) by (cases "bound_delta m'") auto
  then show ?thesis using assms(3) b by (auto simp: bound_holds_def)
qed

section \<open>The bound queue\<close>

lemma bound_queue_set [simp]: "set (bound_queue moves) = {..<length moves}"
  by (auto simp: bound_queue_def)

lemma bound_queue_sorted:
  "sorted_wrt (\<lambda>i j. bound_delta (moves ! i) \<le> bound_delta (moves ! j)) (bound_queue moves)"
proof -
  have "sorted (map (bound_key moves) (bound_queue moves))" by (simp add: bound_queue_def)
  then have "sorted_wrt (\<lambda>i j. bound_key moves i \<le> bound_key moves j) (bound_queue moves)"
    by (simp add: sorted_wrt_map)
  then show ?thesis by (rule sorted_wrt_mono_rel [rotated]) (auto simp: bound_key_def less_eq_prod_def less_imp_le)
qed

section \<open>The least direct cost\<close>

lemma min_from_lt: "b < n \<Longrightarrow> set is \<subseteq> {..<n} \<Longrightarrow> min_from better xs b is < n"
  by (induction "is" arbitrary: b) auto

lemma min_index_lt: "xs \<noteq> [] \<Longrightarrow> min_index better xs < length xs"
  unfolding min_index_def by (rule min_from_lt) auto

section \<open>Completed moves\<close>

text \<open>
  What the loops know of the moves: slots and bounds are those of the candidates, and a move
  marked as evaluated carries its completed cost.
\<close>

definition track :: "(int \<times> nat \<times> nat \<Rightarrow> real) \<Rightarrow> insertion_move list \<Rightarrow> insertion_move list \<Rightarrow> bool" where
  "track ccost moves0 moves \<longleftrightarrow> length moves = length moves0 \<and>
     (\<forall>i < length moves0. same_place (moves0 ! i) (moves ! i) \<and>
        (move_evaluated (moves ! i) \<longrightarrow> move_delta (moves ! i) = ccost (move_slot (moves0 ! i))))"

lemma trackD:
  assumes "track ccost moves0 moves" and "i < length moves0"
  shows "length moves = length moves0" "move_slot (moves ! i) = move_slot (moves0 ! i)"
    "bound_delta (moves ! i) = bound_delta (moves0 ! i)"
    "move_evaluated (moves ! i) \<Longrightarrow> move_delta (moves ! i) = ccost (move_slot (moves0 ! i))"
  using assms by (auto simp: track_def same_place_def)

definition dropped :: "insertion_move \<Rightarrow> insertion_move \<Rightarrow> bool" where
  "dropped m m' \<longleftrightarrow> same_place m m' \<and> move_delta m' = move_delta m \<and> move_evaluated m' = move_evaluated m"

lemma track_update:
  assumes "track ccost moves0 moves" and "i < length moves0" and "same_place (moves0 ! i) m"
    and "move_evaluated m \<Longrightarrow> move_delta m = ccost (move_slot (moves0 ! i))"
  shows "track ccost moves0 (moves[i := m])"
  using assms by (auto simp: track_def nth_list_update)

lemma track_drop:
  assumes "track ccost moves0 moves" and "i < length moves0" and "dropped (moves ! i) m"
  shows "track ccost moves0 (moves[i := m])"
  using assms trackD [OF assms(1,2)] by (intro track_update) (auto simp: dropped_def same_place_def)

lemma track_refl: "(\<And>m. m \<in> set moves \<Longrightarrow> \<not> move_evaluated m) \<Longrightarrow> track ccost moves moves"
  by (auto simp: track_def same_place_def)

lemma better_key:
  assumes "move_delta l = ccost (move_slot l)" and "move_delta r = ccost (move_slot r)"
  shows "insertion_better l r \<longleftrightarrow> completed_key ccost l < completed_key ccost r"
  using assms by (simp add: insertion_better_def completed_key_def)

section \<open>Exact rankings\<close>

text \<open>The least completed key of a customer, and the distance to the second.\<close>

definition exact_ranking ::
  "(int \<times> nat \<times> nat \<Rightarrow> real) \<Rightarrow> insertion_move list \<Rightarrow> (real \<times> int \<times> nat \<times> nat) \<times> real option" where
  "exact_ranking ccost moves =
     (let ks = sort (map (completed_key ccost) moves)
      in (ks ! 0, if length ks < 2 then None else Some (fst (ks ! 1) - fst (ks ! 0))))"

lemma sort_first:
  fixes xs :: "'a :: linorder list"
  assumes "y \<in> set xs" and "\<And>z. z \<in> set xs \<Longrightarrow> y \<le> z"
  shows "sort xs = y # sort (remove1 y xs)"
  by (rule properties_for_sort) (use assms set_remove1_subset [of y xs] in auto)

lemma sort_first_two:
  fixes xs :: "'a :: linorder list"
  assumes f: "f < length xs" "\<And>i. i < length xs \<Longrightarrow> xs ! f \<le> xs ! i"
    and j: "j < length xs" "j \<noteq> f" "\<And>i. i < length xs \<Longrightarrow> i \<noteq> f \<Longrightarrow> xs ! j \<le> xs ! i"
  shows "\<exists>rest. sort xs = xs ! f # xs ! j # rest"
proof -
  let ?ys = "take f xs @ drop (Suc f) xs"
  have ms: "mset xs = add_mset (xs ! f) (mset ?ys)"
    using id_take_nth_drop [OF f(1)] by (metis mset_append mset.simps(2) union_mset_add_mset_right)
  have elem: "z \<in> set ?ys \<longleftrightarrow> (\<exists>i < length xs. i \<noteq> f \<and> z = xs ! i)" for z
  proof
    assume "z \<in> set ?ys"
    then consider i where "i < f" "z = xs ! i" | k where "k < length xs - Suc f" "z = xs ! (Suc f + k)"
      using f(1) by (auto simp: in_set_conv_nth)
    then show "\<exists>i < length xs. i \<noteq> f \<and> z = xs ! i"
    proof cases
      case (1 i)
      then show ?thesis using f(1) by (intro exI [of _ i]) simp
    next
      case (2 k)
      then show ?thesis by (intro exI [of _ "Suc f + k"]) auto
    qed
  next
    assume "\<exists>i < length xs. i \<noteq> f \<and> z = xs ! i"
    then obtain i where i: "i < length xs" "i \<noteq> f" "z = xs ! i" by blast
    show "z \<in> set ?ys"
    proof (cases "i < f")
      case True
      then have "take f xs ! i \<in> set (take f xs)" using f(1) by (intro nth_mem) simp
      then show ?thesis using True i by simp
    next
      case False
      then have "drop (Suc f) xs ! (i - Suc f) \<in> set (drop (Suc f) xs)" using i by (intro nth_mem) simp
      then show ?thesis using False i by simp
    qed
  qed
  have "sort xs = xs ! f # sort ?ys"
  proof (rule properties_for_sort)
    show "mset (xs ! f # sort ?ys) = mset xs" using ms by simp
    have "xs ! f \<le> z" if "z \<in> set ?ys" for z using f(2) elem [of z] that by blast
    then show "sorted (xs ! f # sort ?ys)" by simp
  qed
  moreover have "sort ?ys = xs ! j # sort (remove1 (xs ! j) ?ys)"
    by (rule sort_first) (use j elem in auto)
  ultimately have "sort xs = xs ! f # xs ! j # sort (remove1 (xs ! j) ?ys)" by (simp only:)
  then show ?thesis by (rule exI)
qed

lemma least_index:
  fixes K :: "nat \<Rightarrow> 'a :: linorder"
  assumes "finite A" and "A \<noteq> {}"
  obtains p where "p \<in> A" and "\<And>i. i \<in> A \<Longrightarrow> K p \<le> K i"
proof -
  have "Min (K ` A) \<in> K ` A" using assms by (intro Min_in) auto
  then obtain p where "p \<in> A" "K p = Min (K ` A)" by auto
  then show thesis using that [of p] assms(1) by simp
qed

lemma exact_ranking_single:
  "length moves = 1 \<Longrightarrow> exact_ranking ccost moves = (completed_key ccost (moves ! 0), None)"
  by (cases moves) (auto simp: exact_ranking_def)

lemma exact_ranking_two:
  assumes "f < length moves" and "j < length moves" and "j \<noteq> f"
    and "\<And>i. i < length moves \<Longrightarrow> completed_key ccost (moves ! f) \<le> completed_key ccost (moves ! i)"
    and "\<And>i. i < length moves \<Longrightarrow> i \<noteq> f \<Longrightarrow> completed_key ccost (moves ! j) \<le> completed_key ccost (moves ! i)"
  shows "exact_ranking ccost moves = (completed_key ccost (moves ! f),
    Some (ccost (move_slot (moves ! j)) - ccost (move_slot (moves ! f))))"
proof -
  let ?ks = "map (completed_key ccost) moves"
  obtain rest where sorted: "sort ?ks = ?ks ! f # ?ks ! j # rest"
    using sort_first_two [of f ?ks j] assms by auto
  then have "ccost (move_slot (moves ! j)) - ccost (move_slot (moves ! f)) = fst (sort ?ks ! 1) - fst (sort ?ks ! 0)"
    using assms(1,2) by (simp add: completed_key_def)
  moreover have "length (sort ?ks) \<ge> 2" unfolding sorted by simp
  ultimately show ?thesis using sorted assms(1) by (simp add: exact_ranking_def Let_def)
qed

locale completion =
  fixes eval :: "'s completer" and release :: "insertion_move \<Rightarrow> insertion_move"
    and ccost :: "int \<times> nat \<times> nat \<Rightarrow> real" and inv :: "'s \<Rightarrow> bool" and good :: "insertion_move \<Rightarrow> bool" and err :: bool
    and cand :: "insertion_move \<Rightarrow> bool"
  assumes eval_yields: "inv s \<Longrightarrow> cand m \<Longrightarrow> \<not> move_evaluated m \<Longrightarrow>
      yields err (\<lambda>(m', s'). inv s' \<and> same_place m m' \<and> move_evaluated m' \<and>
        move_delta m' = ccost (move_slot m) \<and> good m') (eval m s)"
    and release_dropped: "dropped m (release m)"
begin

text \<open>The candidates of a choice, and a state of the moves in which the open ones are unchanged.\<close>

definition opens :: "insertion_move list \<Rightarrow> insertion_move list \<Rightarrow> bool" where
  "opens moves0 moves \<longleftrightarrow> track ccost moves0 moves \<and>
     (\<forall>i < length moves0. \<not> move_evaluated (moves ! i) \<longrightarrow> moves ! i = moves0 ! i)"

lemma opens_complete:
  assumes "opens moves0 moves" and "i < length moves0" and "same_place (moves ! i) m" and "move_evaluated m"
    and "move_delta m = ccost (move_slot (moves ! i))"
  shows "opens moves0 (moves[i := m])"
proof -
  have "track ccost moves0 (moves[i := m])"
    using assms trackD [of ccost moves0 moves i] by (intro track_update) (auto simp: opens_def same_place_def)
  then show ?thesis using assms trackD(1) [of ccost moves0 moves i]
    by (auto simp: opens_def nth_list_update)
qed

lemma opens_release:
  assumes "opens moves0 moves" and "i < length moves0" and "move_evaluated (moves ! i)"
  shows "opens moves0 (moves[i := release (moves ! i)])"
proof -
  have r: "dropped (moves ! i) (release (moves ! i))" by (rule release_dropped)
  then have "track ccost moves0 (moves[i := release (moves ! i)])"
    using assms by (intro track_drop) (auto simp: opens_def)
  then show ?thesis using assms r trackD(1) [of ccost moves0 moves i]
    by (auto simp: opens_def nth_list_update dropped_def)
qed

lemma opens_same: "opens moves0 moves \<Longrightarrow> i < length moves0 \<Longrightarrow> completed_key ccost (moves ! i) = completed_key ccost (moves0 ! i)"
  using trackD(2) [of ccost moves0 moves i] by (simp add: opens_def completed_key_def)

section \<open>Greedy insertion\<close>

definition leads :: "insertion_move list \<Rightarrow> insertion_move list \<times> nat \<times> 's \<Rightarrow> bool" where
  "leads moves0 x \<longleftrightarrow>
     (case x of (moves, b, s) \<Rightarrow> inv s \<and> opens moves0 moves \<and> b < length moves0 \<and> move_evaluated (moves ! b) \<and>
       good (moves ! b) \<and>
       (\<forall>i < length moves0. move_evaluated (moves ! i) \<longrightarrow>
          completed_key ccost (moves0 ! b) \<le> completed_key ccost (moves0 ! i)))"

definition wins :: "insertion_move list \<Rightarrow> insertion_move list \<times> nat \<times> 's \<Rightarrow> bool" where
  "wins moves0 x \<longleftrightarrow>
     (case x of (moves, b, s) \<Rightarrow> leads moves0 x \<and>
       (\<forall>i < length moves0. completed_key ccost (moves0 ! b) \<le> completed_key ccost (moves0 ! i)))"

lemma leads_step:
  assumes l: "leads moves0 (moves, b, s)" and i: "i < length moves0" "\<not> move_evaluated (moves ! i)"
    and m: "inv s'" "same_place (moves ! i) m" "move_evaluated m" "move_delta m = ccost (move_slot (moves ! i))" "good m"
  shows "if insertion_better m (moves ! b) then leads moves0 ((moves[i := m])[b := release (moves ! b)], i, s')
    else leads moves0 (moves[i := release m], b, s')"
proof -
  have o: "opens moves0 moves" and b: "b < length moves0" "move_evaluated (moves ! b)" "good (moves ! b)" "b \<noteq> i"
    and best: "\<And>j. j < length moves0 \<Longrightarrow> move_evaluated (moves ! j) \<Longrightarrow>
       completed_key ccost (moves0 ! b) \<le> completed_key ccost (moves0 ! j)"
    using l i by (auto simp: leads_def)
  have len: "length moves = length moves0" using o i(1) trackD(1) by (auto simp: opens_def)
  have db: "move_delta (moves ! b) = ccost (move_slot (moves ! b))"
    using o b trackD(2,4) [of ccost moves0 moves b] by (simp add: opens_def)
  have key: "insertion_better m (moves ! b) \<longleftrightarrow> completed_key ccost (moves0 ! i) < completed_key ccost (moves0 ! b)"
    using better_key [of m ccost "moves ! b"] m(2,4) db opens_same [OF o i(1)] opens_same [OF o b(1)]
    by (simp add: same_place_def completed_key_def)
  have o1: "opens moves0 (moves[i := m])" using opens_complete [OF o i(1) m(2,3,4)] .
  show ?thesis
  proof (cases "insertion_better m (moves ! b)")
    case True
    then have lt: "completed_key ccost (moves0 ! i) < completed_key ccost (moves0 ! b)" using key by simp
    have "opens moves0 ((moves[i := m])[b := release ((moves[i := m]) ! b)])"
      using opens_release [OF o1 b(1)] b by simp
    then have o2: "opens moves0 ((moves[i := m])[b := release (moves ! b)])" using b by simp
    have "completed_key ccost (moves0 ! i) \<le> completed_key ccost (moves0 ! j)"
      if "j < length moves0" "move_evaluated (((moves[i := m])[b := release (moves ! b)]) ! j)" for j
      using that lt best [of j] release_dropped [of "moves ! b"] b len
      by (cases "j = i"; cases "j = b") (auto simp: nth_list_update dropped_def)
    then show ?thesis using True o2 m i b len by (simp add: leads_def)
  next
    case False
    then have ge: "completed_key ccost (moves0 ! b) \<le> completed_key ccost (moves0 ! i)" using key by simp
    have "opens moves0 ((moves[i := m])[i := release ((moves[i := m]) ! i)])"
      using opens_release [OF o1 i(1)] m(3) i len by simp
    then have o2: "opens moves0 (moves[i := release m])" using i len by simp
    have "completed_key ccost (moves0 ! b) \<le> completed_key ccost (moves0 ! j)"
      if "j < length moves0" "move_evaluated ((moves[i := release m]) ! j)" for j
      using that ge best [of j] len by (cases "j = i") (auto simp: nth_list_update)
    then show ?thesis using False o2 m b len i by (simp add: leads_def)
  qed
qed

lemma leads_wins:
  assumes l: "leads moves0 (moves, b, s)" and law: "\<And>m. m \<in> set moves0 \<Longrightarrow> bound_holds ccost m"
    and cover: "\<And>j. j < length moves0 \<Longrightarrow> move_evaluated (moves ! j) \<or>
       beyond (bound_delta (moves0 ! i)) (move_delta (moves ! b)) \<and> bound_delta (moves0 ! i) \<le> bound_delta (moves0 ! j)"
  shows "wins moves0 (moves, b, s)"
proof -
  have b: "b < length moves0" "move_delta (moves ! b) = ccost (move_slot (moves0 ! b))"
    using l trackD(4) [of ccost moves0 moves b] by (auto simp: leads_def opens_def)
  have "completed_key ccost (moves0 ! b) \<le> completed_key ccost (moves0 ! j)" if j: "j < length moves0" for j
  proof (cases "move_evaluated (moves ! j)")
    case True
    then show ?thesis using l j by (auto simp: leads_def)
  next
    case False
    then have "move_delta (moves ! b) < ccost (move_slot (moves0 ! j))"
      using cover [OF j] beyond_later law [of "moves0 ! j"] j by (metis nth_mem)
    then show ?thesis using b by (simp add: completed_key_def less_eq_prod_def)
  qed
  then show ?thesis using l by (simp add: wins_def)
qed

lemma scan_bounds_wins:
  assumes law: "\<And>m. m \<in> set moves0 \<Longrightarrow> bound_holds ccost m" and cand: "\<And>m. m \<in> set moves0 \<Longrightarrow> cand m"
  shows "leads moves0 x \<Longrightarrow> set q \<subseteq> {..<length moves0} \<Longrightarrow>
    sorted_wrt (\<lambda>i j. bound_delta (moves0 ! i) \<le> bound_delta (moves0 ! j)) q \<Longrightarrow>
    (\<And>j. j < length moves0 \<Longrightarrow> move_evaluated (fst x ! j) \<or> j \<in> set q) \<Longrightarrow>
    yields err (wins moves0) (scan_bounds eval release q x)"
proof (induction q arbitrary: x)
  case Nil
  obtain moves b s where x: "x = (moves, b, s)" by (cases x)
  show ?case using leads_wins [of moves0 moves b s, OF _ law] Nil x by simp
next
  case (Cons i q)
  obtain moves b s where x: "x = (moves, b, s)" by (cases x)
  have i: "i < length moves0" and q: "set q \<subseteq> {..<length moves0}" using Cons.prems(2) by auto
  have l: "leads moves0 (moves, b, s)" and len: "length moves = length moves0"
    using Cons.prems(1) x trackD(1) [OF _ i] by (auto simp: leads_def opens_def)
  have sq: "sorted_wrt (\<lambda>i j. bound_delta (moves0 ! i) \<le> bound_delta (moves0 ! j)) q"
    and le: "\<And>j. j \<in> set q \<Longrightarrow> bound_delta (moves0 ! i) \<le> bound_delta (moves0 ! j)" using Cons.prems(3) by auto
  have cover: "\<And>j. j < length moves0 \<Longrightarrow> move_evaluated (moves ! j) \<or> j = i \<or> j \<in> set q"
    using Cons.prems(4) x by auto
  note IH = Cons.IH [OF _ q sq]
  show ?case
  proof (cases "move_evaluated (moves ! i)")
    case True
    then show ?thesis using IH [OF Cons.prems(1)] cover x by auto
  next
    case open_move: False
    have place: "moves ! i = moves0 ! i" using l i open_move by (auto simp: leads_def opens_def)
    show ?thesis
    proof (cases "beyond (bound_delta (moves ! i)) (move_delta (moves ! b))")
      case True
      have "wins moves0 (moves, b, s)"
        by (rule leads_wins [OF l law, of i]) (use cover le True place in auto)
      then show ?thesis using True open_move x by simp
    next
      case False
      have ev: "yields err (\<lambda>(m', s'). inv s' \<and> same_place (moves ! i) m' \<and> move_evaluated m' \<and>
          move_delta m' = ccost (move_slot (moves ! i)) \<and> good m') (eval (moves ! i) s)"
        by (rule eval_yields) (use l open_move place cand i in \<open>auto simp: leads_def\<close>)
      have "yields err (wins moves0) (ebind (eval (moves ! i) s) (\<lambda>(m, s').
         if insertion_better m (moves ! b)
         then scan_bounds eval release q ((moves[i := m])[b := release (moves ! b)], i, s')
         else scan_bounds eval release q (moves[i := release m], b, s')))"
      proof (rule yields_bind [OF ev])
        fix y assume y: "case y of (m', s') \<Rightarrow> inv s' \<and> same_place (moves ! i) m' \<and> move_evaluated m' \<and>
          move_delta m' = ccost (move_slot (moves ! i)) \<and> good m'"
        obtain m s' where ye: "y = (m, s')" by (cases y)
        have m: "inv s'" "same_place (moves ! i) m" "move_evaluated m" "move_delta m = ccost (move_slot (moves ! i))" "good m"
          using y ye by auto
        note step = leads_step [OF l i open_move m]
        have bi: "b < length moves0" "move_evaluated (moves ! b)" "b \<noteq> i" using l open_move by (auto simp: leads_def)
        then have "move_evaluated (release (moves ! b))" "move_evaluated (release m)"
          using release_dropped [of "moves ! b"] release_dropped [of m] m by (auto simp: dropped_def)
        note ev2 = this
        have cov: "move_evaluated (((moves[i := m])[b := release (moves ! b)]) ! j) \<or> j \<in> set q"
            "move_evaluated ((moves[i := release m]) ! j) \<or> j \<in> set q" if "j < length moves0" for j
          using cover [OF that] that m(3) ev2 len bi i by (simp_all add: nth_list_update) auto
        show "yields err (wins moves0) (case y of (m, s') \<Rightarrow> if insertion_better m (moves ! b)
         then scan_bounds eval release q ((moves[i := m])[b := release (moves ! b)], i, s')
         else scan_bounds eval release q (moves[i := release m], b, s'))"
          unfolding ye prod.case
        proof (cases "insertion_better m (moves ! b)")
          case True
          then show "yields err (wins moves0) (if insertion_better m (moves ! b)
             then scan_bounds eval release q ((moves[i := m])[b := release (moves ! b)], i, s')
             else scan_bounds eval release q (moves[i := release m], b, s'))"
            unfolding if_P [OF True] by (intro IH) (use step cov(1) in \<open>simp_all only: if_True fst_conv\<close>)
        next
          case False
          then show "yields err (wins moves0) (if insertion_better m (moves ! b)
             then scan_bounds eval release q ((moves[i := m])[b := release (moves ! b)], i, s')
             else scan_bounds eval release q (moves[i := release m], b, s'))"
            unfolding if_not_P [OF False] by (intro IH) (use step cov(2) in \<open>simp_all only: if_False fst_conv\<close>)
        qed
      qed
      then show ?thesis using False open_move x by simp
    qed
  qed
qed

lemma choose_greedy_least:
  assumes ne: "moves \<noteq> []" and s: "inv s" and open_moves: "\<And>m. m \<in> set moves \<Longrightarrow> \<not> move_evaluated m"
    and law: "\<And>m. m \<in> set moves \<Longrightarrow> bound_holds ccost m" and cand: "\<And>m. m \<in> set moves \<Longrightarrow> cand m"
  shows "yields err (\<lambda>(w, s'). inv s' \<and> good w \<and> move_delta w = ccost (move_slot w) \<and>
      (\<exists>m \<in> set moves. move_slot w = move_slot m) \<and>
      (\<forall>m \<in> set moves. completed_key ccost w \<le> completed_key ccost m)) (choose_greedy eval release moves s)"
proof -
  let ?d = "min_index direct_insertion_better moves"
  let ?P = "\<lambda>(w, s'). inv s' \<and> good w \<and> move_delta w = ccost (move_slot w) \<and>
      (\<exists>m \<in> set moves. move_slot w = move_slot m) \<and> (\<forall>m \<in> set moves. completed_key ccost w \<le> completed_key ccost m)"
  have d: "?d < length moves" using min_index_lt ne by blast
  have op: "opens moves moves" using track_refl [of moves ccost] open_moves by (auto simp: opens_def)
  have first: "yields err (\<lambda>(m', s'). inv s' \<and> same_place (moves ! ?d) m' \<and> move_evaluated m' \<and>
      move_delta m' = ccost (move_slot (moves ! ?d)) \<and> good m') (eval (moves ! ?d) s)"
    by (rule eval_yields) (use s d open_moves cand nth_mem in auto)
  have "yields err ?P (ebind (eval (moves ! ?d) s) (\<lambda>(m, s').
              ebind (scan_bounds eval release (bound_queue moves) (moves[?d := m], ?d, s')) (\<lambda>(moves', b, s'').
              ret (moves' ! b, s''))))"
  proof (rule yields_bind [OF first])
    fix y assume y: "case y of (m', s') \<Rightarrow> inv s' \<and> same_place (moves ! ?d) m' \<and> move_evaluated m' \<and>
      move_delta m' = ccost (move_slot (moves ! ?d)) \<and> good m'"
    obtain m s' where ye: "y = (m, s')" by (cases y)
    have m: "inv s'" "same_place (moves ! ?d) m" "move_evaluated m" "move_delta m = ccost (move_slot (moves ! ?d))" "good m"
      using y ye by auto
    have "\<And>i. i < length moves \<Longrightarrow> move_evaluated ((moves[?d := m]) ! i) \<Longrightarrow> i = ?d"
      using open_moves nth_mem by (metis nth_list_update_neq)
    then have "leads moves (moves[?d := m], ?d, s')"
      using m d opens_complete [OF op d m(2,3,4)] by (auto simp: leads_def)
    then have scan: "yields err (wins moves) (scan_bounds eval release (bound_queue moves) (moves[?d := m], ?d, s'))"
      by (intro scan_bounds_wins law cand) (auto simp: bound_queue_sorted)
    have post: "?P (moves' ! b, s'')" if "wins moves (moves', b, s'')" for moves' b s''
    proof -
      have b: "b < length moves" "inv s''" "good (moves' ! b)" "track ccost moves moves'" "move_evaluated (moves' ! b)"
        and best: "\<And>i. i < length moves \<Longrightarrow> completed_key ccost (moves ! b) \<le> completed_key ccost (moves ! i)"
        using that by (auto simp: wins_def leads_def opens_def)
      have slot: "move_slot (moves' ! b) = move_slot (moves ! b)" "move_delta (moves' ! b) = ccost (move_slot (moves ! b))"
        using trackD(2,4) [OF b(4,1)] b(5) by auto
      then have "completed_key ccost (moves' ! b) = completed_key ccost (moves ! b)" by (simp add: completed_key_def)
      then have "\<forall>m \<in> set moves. completed_key ccost (moves' ! b) \<le> completed_key ccost m"
        using best by (metis in_set_conv_nth)
      then show ?thesis using b slot nth_mem by auto
    qed
    show "yields err ?P (case y of (m, s') \<Rightarrow>
              ebind (scan_bounds eval release (bound_queue moves) (moves[?d := m], ?d, s')) (\<lambda>(moves', b, s'').
              ret (moves' ! b, s'')))"
      unfolding ye prod.case by (rule yields_bind [OF scan]) (use post in \<open>auto split: prod.splits\<close>)
  qed
  then show ?thesis using ne by (simp add: choose_greedy_def Let_def)
qed


section \<open>Ranking a customer\<close>

text \<open>The two best of the moves completed so far.\<close>

definition ranks :: "insertion_move list \<Rightarrow> insertion_move list \<times> best_two \<times> 's \<Rightarrow> bool" where
  "ranks moves0 x \<longleftrightarrow>
     (case x of (moves, bt, s) \<Rightarrow> inv s \<and> opens moves0 moves \<and>
       (case first_index bt of
          None \<Rightarrow> second_index bt = None \<and> (\<forall>i < length moves0. \<not> move_evaluated (moves ! i))
        | Some f \<Rightarrow> f < length moves0 \<and> move_evaluated (moves ! f) \<and> good (moves ! f) \<and>
            (\<forall>i < length moves0. move_evaluated (moves ! i) \<longrightarrow>
               completed_key ccost (moves0 ! f) \<le> completed_key ccost (moves0 ! i)) \<and>
            (case second_index bt of
               None \<Rightarrow> (\<forall>i < length moves0. move_evaluated (moves ! i) \<longrightarrow> i = f)
             | Some j \<Rightarrow> j < length moves0 \<and> j \<noteq> f \<and> move_evaluated (moves ! j) \<and>
                 (\<forall>i < length moves0. move_evaluated (moves ! i) \<longrightarrow> i \<noteq> f \<longrightarrow>
                    completed_key ccost (moves0 ! j) \<le> completed_key ccost (moves0 ! i)))))"

lemma opens_delta:
  assumes "opens moves0 moves" and "i < length moves0" and "move_evaluated (moves ! i)"
  shows "move_delta (moves ! i) = ccost (move_slot (moves ! i))"
    and "move_delta (moves ! i) = ccost (move_slot (moves0 ! i))"
  using assms trackD(2,4) [of ccost moves0 moves i] by (auto simp: opens_def)

lemma evaluate_and_rank_ranks:
  assumes r: "ranks moves0 (moves, bt, s)" and i: "i < length moves0" "\<not> move_evaluated (moves ! i)"
    and cand: "\<And>m. m \<in> set moves0 \<Longrightarrow> cand m"
  shows "yields err (\<lambda>x. ranks moves0 x \<and>
      (\<forall>j < length moves0. move_evaluated (fst x ! j) \<longleftrightarrow> move_evaluated (moves ! j) \<or> j = i))
    (evaluate_and_rank eval release i (moves, bt, s))"
proof -
  have o: "opens moves0 moves" and s: "inv s" using r by (auto simp: ranks_def)
  have len: "length moves = length moves0" using o trackD(1) [OF _ i(1)] by (auto simp: opens_def)
  have place: "moves ! i = moves0 ! i" using o i by (auto simp: opens_def)
  have ev: "yields err (\<lambda>(m', s'). inv s' \<and> same_place (moves ! i) m' \<and> move_evaluated m' \<and>
      move_delta m' = ccost (move_slot (moves ! i)) \<and> good m') (eval (moves ! i) s)"
    by (rule eval_yields) (use s i place cand in auto)
  show ?thesis
    unfolding evaluate_and_rank_def prod.case
  proof (rule yields_bind [OF ev])
    fix y assume y: "case y of (m', s') \<Rightarrow> inv s' \<and> same_place (moves ! i) m' \<and> move_evaluated m' \<and>
      move_delta m' = ccost (move_slot (moves ! i)) \<and> good m'"
    obtain m s' where ye: "y = (m, s')" by (cases y)
    have m: "inv s'" "same_place (moves ! i) m" "move_evaluated m" "move_delta m = ccost (move_slot (moves ! i))" "good m"
      using y ye by auto
    let ?m1 = "moves[i := m]"
    let ?bt = "consider_best_two (\<lambda>l r. insertion_better (?m1 ! l) (?m1 ! r)) i bt"
    have o1: "opens moves0 ?m1" using opens_complete [OF o i(1) m(2,3,4)] .
    have k: "insertion_better (?m1 ! i) (?m1 ! j) \<longleftrightarrow> completed_key ccost (moves0 ! i) < completed_key ccost (moves0 ! j)"
      if "j < length moves0" "move_evaluated (moves ! j)" for j
    proof -
      have "move_evaluated (?m1 ! i)" "move_evaluated (?m1 ! j)" using that m i len by (auto simp: nth_list_update)
      then show ?thesis
        using better_key [OF opens_delta(1) [OF o1 i(1)] opens_delta(1) [OF o1 that(1)]]
          opens_same [OF o1 i(1)] opens_same [OF o1 that(1)] by simp
    qed
    have done1: "move_evaluated (?m1 ! j) \<longleftrightarrow> move_evaluated (moves ! j) \<or> j = i" if "j < length moves0" for j
      using that m(3) len by (cases "j = i") auto
    have rel: "opens moves0 (?m1[p := release (?m1 ! p)])" "move_evaluated ((?m1[p := release (?m1 ! p)]) ! j) \<longleftrightarrow> move_evaluated (?m1 ! j)"
      if "p < length moves0" "move_evaluated (?m1 ! p)" "j < length moves0" for p j
      using opens_release [OF o1 that(1,2)] release_dropped [of "?m1 ! p"] that len
      by (auto simp: nth_list_update dropped_def)
    show "yields err (\<lambda>x. ranks moves0 x \<and>
        (\<forall>j < length moves0. move_evaluated (fst x ! j) \<longleftrightarrow> move_evaluated (moves ! j) \<or> j = i))
      (case y of (m, s') \<Rightarrow> let moves1 = moves[i := m];
           bt' = consider_best_two (\<lambda>l r. insertion_better (moves1 ! l) (moves1 ! r)) i bt
       in ret (if first_index bt' \<noteq> first_index bt
               then (case first_index bt of None \<Rightarrow> moves1 | Some p \<Rightarrow> moves1[p := release (moves1 ! p)])
               else moves1[i := release (moves1 ! i)], bt', s'))"
    proof (cases "first_index bt")
      case None
      then have "?bt = \<lparr>first_index = Some i, second_index = None\<rparr>"
        using r by (cases bt) (auto simp: ranks_def consider_best_two_def)
      then show ?thesis
        using None r o1 m i done1 len by (auto simp: ye Let_def ranks_def)
    next
      case (Some f)
      have f: "f < length moves0" "move_evaluated (moves ! f)" "good (moves ! f)" "f \<noteq> i"
        and fbest: "\<And>j. j < length moves0 \<Longrightarrow> move_evaluated (moves ! j) \<Longrightarrow>
           completed_key ccost (moves0 ! f) \<le> completed_key ccost (moves0 ! j)"
        using r Some i by (auto simp: ranks_def)
      have f1: "move_evaluated (?m1 ! f)" "?m1 ! f = moves ! f" using f len by auto
      show ?thesis
      proof (cases "completed_key ccost (moves0 ! i) < completed_key ccost (moves0 ! f)")
        case True
        then have bt: "?bt = \<lparr>first_index = Some i, second_index = Some f\<rparr>"
          using k [OF f(1,2)] Some by (cases bt) (simp add: consider_best_two_def)
        let ?m2 = "?m1[f := release (?m1 ! f)]"
        note rl = rel [OF f(1) f1(1)]
        have "good (?m2 ! i)" "move_evaluated (?m2 ! i)" "move_evaluated (?m2 ! f)"
          using m f i len rl(2) [OF i(1)] rl(2) [OF f(1)] done1 by auto
        moreover have "completed_key ccost (moves0 ! i) \<le> completed_key ccost (moves0 ! j)"
          if "j < length moves0" "move_evaluated (?m2 ! j)" for j
          using that fbest [of j] True rl(2) [OF that(1)] done1 [OF that(1)] by (cases "j = i") auto
        moreover have "completed_key ccost (moves0 ! f) \<le> completed_key ccost (moves0 ! j)"
          if "j < length moves0" "move_evaluated (?m2 ! j)" "j \<noteq> i" for j
          using that fbest [of j] rl(2) [OF that(1)] done1 [OF that(1)] by auto
        ultimately have "ranks moves0 (?m2, ?bt, s')"
          using rl(1) [OF f(1)] m(1) i f bt by (simp add: ranks_def)
        then show ?thesis using Some bt f(4) rl(2) done1 by (simp add: ye Let_def)
      next
        case False
        let ?m2 = "?m1[i := release (?m1 ! i)]"
        have "move_evaluated (?m1 ! i)" using m i len by simp
        note rl = rel [OF i(1) this]
        have keep: "good (?m2 ! f)" "move_evaluated (?m2 ! f)" using f f1 rl(2) [OF f(1)] by auto
        have least: "completed_key ccost (moves0 ! f) \<le> completed_key ccost (moves0 ! j)"
          if "j < length moves0" "move_evaluated (?m2 ! j)" for j
          using that fbest [of j] False rl(2) [OF that(1)] done1 [OF that(1)] by (cases "j = i") auto
        have i2: "move_evaluated (?m2 ! i)" using rl(2) [OF i(1)] m i len by simp
        have "ranks moves0 (?m2, ?bt, s') \<and> first_index ?bt = Some f"
        proof (cases "second_index bt")
          case None
          then have only: "\<And>j. j < length moves0 \<Longrightarrow> move_evaluated (moves ! j) \<Longrightarrow> j = f"
            using r Some by (auto simp: ranks_def)
          have bt: "?bt = \<lparr>first_index = Some f, second_index = Some i\<rparr>"
            using False k [OF f(1,2)] Some None by (cases bt) (simp add: consider_best_two_def)
          have "completed_key ccost (moves0 ! i) \<le> completed_key ccost (moves0 ! j)"
            if "j < length moves0" "move_evaluated (?m2 ! j)" "j \<noteq> f" for j
            using that only [of j] rl(2) [OF that(1)] done1 [OF that(1)] by auto
          then show ?thesis using rl(1) [OF f(1)] m(1) i f keep least i2 bt by (simp add: ranks_def)
        next
          case second: (Some j)
          have j: "j < length moves0" "j \<noteq> f" "move_evaluated (moves ! j)" "j \<noteq> i"
            and jbest: "\<And>h. h < length moves0 \<Longrightarrow> move_evaluated (moves ! h) \<Longrightarrow> h \<noteq> f \<Longrightarrow>
              completed_key ccost (moves0 ! j) \<le> completed_key ccost (moves0 ! h)"
            using r Some second i by (auto simp: ranks_def)
          have j2: "move_evaluated (?m2 ! j)" using rl(2) [OF j(1)] done1 [OF j(1)] j by simp
          show ?thesis
          proof (cases "completed_key ccost (moves0 ! i) < completed_key ccost (moves0 ! j)")
            case True
            have bt: "?bt = \<lparr>first_index = Some f, second_index = Some i\<rparr>"
              using False True k [OF f(1,2)] k [OF j(1,3)] Some second by (cases bt) (simp add: consider_best_two_def)
            have "completed_key ccost (moves0 ! i) \<le> completed_key ccost (moves0 ! h)"
              if "h < length moves0" "move_evaluated (?m2 ! h)" "h \<noteq> f" for h
              using that True jbest [of h] rl(2) [OF that(1)] done1 [OF that(1)] by (cases "h = i") auto
            then show ?thesis using rl(1) [OF f(1)] m(1) i f keep least i2 bt by (simp add: ranks_def)
          next
            case ge: False
            have bt: "?bt = \<lparr>first_index = Some f, second_index = Some j\<rparr>"
              using False ge k [OF f(1,2)] k [OF j(1,3)] Some second by (cases bt) (simp add: consider_best_two_def)
            have "completed_key ccost (moves0 ! j) \<le> completed_key ccost (moves0 ! h)"
              if "h < length moves0" "move_evaluated (?m2 ! h)" "h \<noteq> f" for h
              using that ge jbest [of h] rl(2) [OF that(1)] done1 [OF that(1)] by (cases "h = i") auto
            then show ?thesis using rl(1) [OF f(1)] m(1) j f keep least j2 bt by (simp add: ranks_def)
          qed
        qed
        then show ?thesis using Some rl(2) done1 by (simp add: ye Let_def)
      qed
    qed
  qed
qed


text \<open>What a complete ranking and an early return say of all moves of the customer.\<close>

definition rank_exact :: "insertion_move list \<Rightarrow> customer_ranking \<Rightarrow> bool" where
  "rank_exact moves0 rk \<longleftrightarrow> good (rank_best rk) \<and>
     (\<exists>m \<in> set moves0. move_slot (rank_best rk) = move_slot m) \<and>
     move_delta (rank_best rk) = ccost (move_slot (rank_best rk)) \<and>
     exact_ranking ccost moves0 = (completed_key ccost (rank_best rk), rank_regret rk)"

definition regret_below :: "insertion_move list \<Rightarrow> real option option \<Rightarrow> bool" where
  "regret_below moves0 incumbent \<longleftrightarrow>
     (\<exists>r R. incumbent = Some (Some r) \<and> snd (exact_ranking ccost moves0) = Some R \<and> R + kCostTolerance < r)"

definition rank_post ::
  "insertion_move list \<Rightarrow> real option option \<Rightarrow> bool \<Rightarrow> customer_ranking option \<times> 's \<Rightarrow> bool" where
  "rank_post moves0 incumbent thorough x \<longleftrightarrow>
     (case x of (r, s) \<Rightarrow> inv s \<and>
       (case r of None \<Rightarrow> \<not> thorough \<and> regret_below moves0 incumbent | Some rk \<Rightarrow> rank_exact moves0 rk))"

lemma settled_exact:
  assumes r: "ranks moves0 (moves, bt, s)" and f: "first_index bt = Some f"
    and rest: "\<And>h. h < length moves0 \<Longrightarrow> \<not> move_evaluated (moves ! h) \<Longrightarrow>
      (\<exists>j. second_index bt = Some j \<and> completed_key ccost (moves0 ! j) \<le> completed_key ccost (moves0 ! h))"
  shows "yields err (rank_post moves0 incumbent thorough) (rank_result (Some (moves, bt), s))"
proof -
  have o: "opens moves0 moves" and s: "inv s" using r by (auto simp: ranks_def)
  have fl: "f < length moves0" "move_evaluated (moves ! f)" "good (moves ! f)"
    and fbest: "\<And>i. i < length moves0 \<Longrightarrow> move_evaluated (moves ! i) \<Longrightarrow>
      completed_key ccost (moves0 ! f) \<le> completed_key ccost (moves0 ! i)"
    using r f by (auto simp: ranks_def)
  have place: "move_slot (moves ! f) = move_slot (moves0 ! f)" using opens_same [OF o fl(1)] by (simp add: completed_key_def)
  let ?rk = "\<lparr>rank_best = moves ! f,
      rank_regret = map_option (\<lambda>j. move_delta (moves ! j) - move_delta (moves ! f)) (second_index bt)\<rparr>"
  have "exact_ranking ccost moves0 = (completed_key ccost (rank_best ?rk), rank_regret ?rk)"
  proof (cases "second_index bt")
    case None
    then have "i = f" if "i < length moves0" for i using r f rest [OF that] that by (auto simp: ranks_def)
    then have "length moves0 = 1" "f = 0" using fl(1)
      by (metis One_nat_def Suc_lessI less_Suc0 less_nat_zero_code linorder_neqE_nat zero_less_Suc not_less_less_Suc_eq)+
    then show ?thesis using exact_ranking_single [of moves0 ccost] None opens_same [OF o fl(1)] by simp
  next
    case (Some j)
    then have j: "j < length moves0" "j \<noteq> f" "move_evaluated (moves ! j)"
      and jbest: "\<And>i. i < length moves0 \<Longrightarrow> move_evaluated (moves ! i) \<Longrightarrow> i \<noteq> f \<Longrightarrow>
        completed_key ccost (moves0 ! j) \<le> completed_key ccost (moves0 ! i)"
      using r f by (auto simp: ranks_def)
    have fj: "completed_key ccost (moves0 ! f) \<le> completed_key ccost (moves0 ! j)" using fbest j by blast
    have "completed_key ccost (moves0 ! j) \<le> completed_key ccost (moves0 ! i)" if "i < length moves0" "i \<noteq> f" for i
      using that jbest rest [OF that(1)] Some by (cases "move_evaluated (moves ! i)") auto
    moreover from this have "completed_key ccost (moves0 ! f) \<le> completed_key ccost (moves0 ! i)" if "i < length moves0" for i
      using that fj by (cases "i = f") (auto intro: order_trans)
    ultimately have "exact_ranking ccost moves0 = (completed_key ccost (moves0 ! f),
        Some (ccost (move_slot (moves0 ! j)) - ccost (move_slot (moves0 ! f))))"
      using fl(1) j(1,2) by (intro exact_ranking_two) auto
    then show ?thesis
      using Some opens_same [OF o fl(1)] opens_delta(2) [OF o fl(1,2)] opens_delta(2) [OF o j(1,3)] by simp
  qed
  then have "rank_exact moves0 ?rk"
    using fl place opens_delta(1) [OF o fl(1,2)] nth_mem [OF fl(1)] by (auto simp: rank_exact_def)
  then show ?thesis using f s by (simp add: rank_result_def rank_post_def)
qed

lemma pruned_below:
  assumes fp: "\<And>x. fp_down fp x \<le> x \<and> x \<le> fp_up fp x"
    and law: "\<And>m. m \<in> set moves0 \<Longrightarrow> bound_holds ccost m"
    and r: "ranks moves0 (moves, bt, s)" and two: "first_index bt = Some f" "second_index bt = Some j"
    and later: "\<And>h. h < length moves0 \<Longrightarrow> \<not> move_evaluated (moves ! h) \<Longrightarrow> bound_delta (moves0 ! i) \<le> bound_delta (moves0 ! h)"
    and pruned: "pruned_by_regret fp incumbent (move_delta (moves ! f)) (move_delta (moves ! j)) (bound_delta (moves0 ! i))"
  shows "regret_below moves0 incumbent"
proof -
  have o: "opens moves0 moves" using r by (auto simp: ranks_def)
  have fl: "f < length moves0" "move_evaluated (moves ! f)" and jl: "j < length moves0" "j \<noteq> f" "move_evaluated (moves ! j)"
    and fbest: "\<And>i. i < length moves0 \<Longrightarrow> move_evaluated (moves ! i) \<Longrightarrow>
      completed_key ccost (moves0 ! f) \<le> completed_key ccost (moves0 ! i)"
    using r two by (auto simp: ranks_def)
  let ?c = "\<lambda>i. ccost (move_slot (moves0 ! i))" and ?K = "\<lambda>i. completed_key ccost (moves0 ! i)"
  have d: "move_delta (moves ! f) = ?c f" "move_delta (moves ! j) = ?c j"
    using opens_delta(2) [OF o] fl jl by auto
  have cost_le: "?c a \<le> ?c b" if "?K a \<le> ?K b" for a b
    using that by (auto simp: completed_key_def less_eq_prod_def)
  obtain p where p: "p < length moves0" "\<And>i. i < length moves0 \<Longrightarrow> ?K p \<le> ?K i"
    using least_index [of "{..<length moves0}" ?K] fl(1) by (metis empty_iff finite_lessThan lessThan_iff)
  have "{..<length moves0} - {p} \<noteq> {}" using fl(1) jl(1,2) by auto
  then obtain q where q: "q < length moves0" "q \<noteq> p" "\<And>i. i < length moves0 \<Longrightarrow> i \<noteq> p \<Longrightarrow> ?K q \<le> ?K i"
    using least_index [of "{..<length moves0} - {p}" ?K] by (metis DiffE DiffI finite_Diff finite_lessThan insertI1 lessThan_iff singletonD)
  have ex: "exact_ranking ccost moves0 = (?K p, Some (?c q - ?c p))"
    using exact_ranking_two [OF p(1) q(1,2) p(2) q(3)] by blast
  have "?K q \<le> ?K j"
  proof (cases "p = j")
    case True
    then have "?K q \<le> ?K f" using q(3) [OF fl(1)] jl(2) by auto
    also have "?K f \<le> ?K j" using fbest jl by blast
    finally show ?thesis .
  qed (use q(3) [OF jl(1)] in auto)
  then have qj: "?c q \<le> ?c j" by (rule cost_le)
  obtain r b where rb: "incumbent = Some (Some r)" "bound_delta (moves0 ! i) = Some b"
    "r - fp_up fp (max 0 (?c j - min (?c f) (fp_down fp b - kLinkedBoundSafety))) > kCostTolerance"
    using pruned d by (auto simp: pruned_by_regret_def Let_def split: option.splits)
  have "min (?c f) (fp_down fp b - kLinkedBoundSafety) \<le> ?c p"
  proof (cases "move_evaluated (moves ! p)")
    case True
    then show ?thesis using cost_le [OF fbest [OF p(1)]] by (simp add: min_le_iff_disj)
  next
    case False
    then obtain b' where "bound_delta (moves0 ! p) = Some b'" "b \<le> b'"
      using later [OF p(1)] rb(2) by (cases "bound_delta (moves0 ! p)") auto
    moreover have "bound_holds ccost (moves0 ! p)" using law nth_mem [OF p(1)] by blast
    ultimately show ?thesis using fp [of b] by (auto simp: bound_holds_def min_le_iff_disj)
  qed
  then have "?c q - ?c p \<le> max 0 (?c j - min (?c f) (fp_down fp b - kLinkedBoundSafety))" using qj by linarith
  also have "\<dots> \<le> fp_up fp \<dots>" using fp by blast
  finally have "?c q - ?c p + kCostTolerance < r" using rb(3) by linarith
  then show ?thesis using rb(1) ex by (simp add: regret_below_def)
qed

lemma rank_scan_exact:
  assumes fp: "\<And>x. fp_down fp x \<le> x \<and> x \<le> fp_up fp x"
    and law: "\<And>m. m \<in> set moves0 \<Longrightarrow> bound_holds ccost m" and cand: "\<And>m. m \<in> set moves0 \<Longrightarrow> cand m"
  shows "ranks moves0 x \<Longrightarrow> first_index (fst (snd x)) \<noteq> None \<Longrightarrow> set q \<subseteq> {..<length moves0} \<Longrightarrow>
    sorted_wrt (\<lambda>i j. bound_delta (moves0 ! i) \<le> bound_delta (moves0 ! j)) q \<Longrightarrow>
    (\<And>j. j < length moves0 \<Longrightarrow> move_evaluated (fst x ! j) \<or> j \<in> set q) \<Longrightarrow>
    yields err (rank_post moves0 incumbent thorough)
      (ebind (rank_scan eval release fp incumbent thorough q x) rank_result)"
proof (induction q arbitrary: x)
  case Nil
  obtain moves bt s where x: "x = (moves, bt, s)" by (cases x)
  obtain f where "first_index bt = Some f" using Nil.prems(2) x by auto
  then show ?case using settled_exact [of moves0 moves bt s f] Nil.prems x by auto
next
  case (Cons i q)
  obtain moves bt s where x: "x = (moves, bt, s)" by (cases x)
  have r: "ranks moves0 (moves, bt, s)" using Cons.prems(1) x by simp
  obtain f where f: "first_index bt = Some f" using Cons.prems(2) x by auto
  have i: "i < length moves0" and q: "set q \<subseteq> {..<length moves0}" using Cons.prems(3) by auto
  have o: "opens moves0 moves" using r by (auto simp: ranks_def)
  have bi: "bound_delta (moves ! i) = bound_delta (moves0 ! i)" using o trackD(3) [OF _ i] by (auto simp: opens_def)
  have sq: "sorted_wrt (\<lambda>i j. bound_delta (moves0 ! i) \<le> bound_delta (moves0 ! j)) q"
    and le: "\<And>j. j \<in> set q \<Longrightarrow> bound_delta (moves0 ! i) \<le> bound_delta (moves0 ! j)" using Cons.prems(4) by auto
  have cover: "\<And>j. j < length moves0 \<Longrightarrow> move_evaluated (moves ! j) \<or> j = i \<or> j \<in> set q"
    using Cons.prems(5) x by auto
  then have later: "\<And>h. h < length moves0 \<Longrightarrow> \<not> move_evaluated (moves ! h) \<Longrightarrow> bound_delta (moves0 ! i) \<le> bound_delta (moves0 ! h)"
    using le by blast
  note IH = Cons.IH [OF _ _ q sq]
  show ?case
  proof (cases "move_evaluated (moves ! i)")
    case True
    then have "\<And>j. j < length moves0 \<Longrightarrow> move_evaluated (fst x ! j) \<or> j \<in> set q" using cover x by auto
    then show ?thesis using IH [OF Cons.prems(1,2)] True x by simp
  next
    case open_move: False
    show ?thesis
    proof (cases "case second_index bt of None \<Rightarrow> False
                | Some j \<Rightarrow> beyond (bound_delta (moves ! i)) (move_delta (moves ! j))")
      case True
      then obtain j where j: "second_index bt = Some j" "beyond (bound_delta (moves0 ! i)) (move_delta (moves ! j))"
        using bi by (auto split: option.splits)
      then have jd: "j < length moves0" "move_evaluated (moves ! j)" using r f by (auto simp: ranks_def)
      have "completed_key ccost (moves0 ! j) \<le> completed_key ccost (moves0 ! h)"
        if h: "h < length moves0" "\<not> move_evaluated (moves ! h)" for h
        using beyond_later [OF j(2) later [OF h]] law [of "moves0 ! h"] nth_mem [OF h(1)] opens_delta(2) [OF o jd]
        by (simp add: completed_key_def less_eq_prod_def)
      then show ?thesis using settled_exact [OF r f] j(1) True open_move x by simp
    next
      case near: False
      show ?thesis
      proof (cases "\<not> thorough \<and> (case (first_index bt, second_index bt) of
                 (Some f, Some j) \<Rightarrow> pruned_by_regret fp incumbent (move_delta (moves ! f)) (move_delta (moves ! j))
                                       (bound_delta (moves ! i))
               | _ \<Rightarrow> False)")
        case True
        then obtain j where "second_index bt = Some j" "\<not> thorough"
            "pruned_by_regret fp incumbent (move_delta (moves ! f)) (move_delta (moves ! j)) (bound_delta (moves0 ! i))"
          using f bi by (auto split: option.splits)
        then have "regret_below moves0 incumbent" using pruned_below [OF fp law r f _ later] by blast
        then have "rank_post moves0 incumbent thorough (None, s)"
          using r \<open>\<not> thorough\<close> by (simp add: rank_post_def ranks_def)
        then show ?thesis using True near open_move x by (simp add: rank_result_def)
      next
        case False
        have "yields err (rank_post moves0 incumbent thorough)
          (ebind (evaluate_and_rank eval release i (moves, bt, s)) (\<lambda>y.
             ebind (rank_scan eval release fp incumbent thorough q y) rank_result))"
        proof (rule yields_bind [OF evaluate_and_rank_ranks [OF r i open_move cand]])
          fix y assume y: "ranks moves0 y \<and>
            (\<forall>j < length moves0. move_evaluated (fst y ! j) \<longleftrightarrow> move_evaluated (moves ! j) \<or> j = i)"
          then have "first_index (fst (snd y)) \<noteq> None"
            using i by (auto simp: ranks_def split: prod.splits option.splits)
          then show "yields err (rank_post moves0 incumbent thorough)
            (ebind (rank_scan eval release fp incumbent thorough q y) rank_result)"
            using y cover by (intro IH) auto
        qed
        then show ?thesis
          by (simp only: x rank_scan.simps prod.case if_not_P [OF open_move] if_not_P [OF near] if_not_P [OF False [unfolded prod.case]] ebind_assoc)
      qed
    qed
  qed
qed

end

end
