(* ===== verification/Insertion_Regret.thy ===== *)
theory Insertion_Regret
  imports Insertion_Exact
begin

text \<open>
  Two-regret insertion is exact: the customer and the position chosen with the early exits are
  those of the completed costs of all moves of all customers.
\<close>

section \<open>The ranking of the direct costs\<close>

definition best_indices :: "nat \<Rightarrow> best_two \<Rightarrow> bool" where
  "best_indices n b \<longleftrightarrow>
     (case first_index b of None \<Rightarrow> n = 0 \<and> second_index b = None
      | Some f \<Rightarrow> f < n \<and> (case second_index b of None \<Rightarrow> True | Some j \<Rightarrow> j < n \<and> j \<noteq> f))"

lemma best_indices_step: "best_indices n b \<Longrightarrow> best_indices (Suc n) (consider_best_two better n b)"
  by (auto simp: best_indices_def consider_best_two_def less_Suc_eq split: option.splits)

lemma best_indices_fold: "best_indices n (fold (consider_best_two better) [0..<n] no_best)"
proof (induction n)
  case 0
  show ?case by (simp add: best_indices_def no_best_def)
next
  case (Suc n)
  then show ?case using best_indices_step by simp
qed

lemma direct_customer_ranking_indices:
  assumes "direct_customer_ranking moves = Inr direct"
  obtains d where "first_index (dr_indices direct) = Some d" and "d < length moves"
    and "\<And>j. second_index (dr_indices direct) = Some j \<Longrightarrow> j < length moves \<and> j \<noteq> d"
proof -
  let ?b = "fold (consider_best_two (\<lambda>i j. direct_insertion_better (moves ! i) (moves ! j))) [0..<length moves] no_best"
  obtain i where "first_index ?b = Some i" and d: "dr_indices direct = ?b"
    using assms by (auto simp: direct_customer_ranking_def Let_def split: if_splits option.splits)
  then show thesis
    using that [of i] best_indices_fold [of "length moves" "\<lambda>i j. direct_insertion_better (moves ! i) (moves ! j)"]
    by (auto simp: best_indices_def split: option.splits)
qed

lemma direct_customer_ranking_total:
  "moves \<noteq> [] \<Longrightarrow> \<exists>direct. direct_customer_ranking moves = Inr direct"
  using best_indices_fold [of "length moves" "\<lambda>i j. direct_insertion_better (moves ! i) (moves ! j)"]
  by (auto simp: direct_customer_ranking_def Let_def best_indices_def split: option.splits)

section \<open>The selection without early exits\<close>

text \<open>\<open>regret_better\<close> on the completed key and the regret of a customer.\<close>

definition outranks ::
  "(real \<times> int \<times> nat \<times> nat) \<times> real option \<Rightarrow> (real \<times> int \<times> nat \<times> nat) \<times> real option \<Rightarrow> bool" where
  "outranks c i =
     (case (snd c, snd i) of
        (None, None) \<Rightarrow> fst c < fst i
      | (None, Some _) \<Rightarrow> True
      | (Some _, None) \<Rightarrow> False
      | (Some x, Some y) \<Rightarrow> x > y + kCostTolerance \<or> \<bar>x - y\<bar> \<le> kCostTolerance \<and> fst c < fst i)"

text \<open>Every customer ranked over all of its completed moves, the customers compared in their order.\<close>

fun exact_two_regret ::
  "(int \<times> nat \<times> nat \<Rightarrow> real) \<Rightarrow> ((real \<times> int \<times> nat \<times> nat) \<times> real option) option \<Rightarrow> insertion_move list list \<Rightarrow>
     ((real \<times> int \<times> nat \<times> nat) \<times> real option) option" where
  "exact_two_regret ccost w [] = w"
| "exact_two_regret ccost w (g # gs) =
     exact_two_regret ccost
       (case w of None \<Rightarrow> Some (exact_ranking ccost g)
        | Some v \<Rightarrow> if outranks (exact_ranking ccost g) v then Some (exact_ranking ccost g) else w) gs"

lemma exact_two_regret_append:
  "exact_two_regret ccost w (gs @ hs) = exact_two_regret ccost (exact_two_regret ccost w gs) hs"
  by (induction gs arbitrary: w) simp_all

declare tolerance_pos(3,6) [simp]

context completion
begin

section \<open>A customer\<close>

lemma rank_customer_exact:
  assumes fp: "\<And>x. fp_down fp x \<le> x \<and> x \<le> fp_up fp x"
    and law: "\<And>m. m \<in> set moves0 \<Longrightarrow> bound_holds ccost m" and cand: "\<And>m. m \<in> set moves0 \<Longrightarrow> cand m"
    and open_moves: "\<And>m. m \<in> set moves0 \<Longrightarrow> \<not> move_evaluated m"
    and direct: "direct_customer_ranking moves0 = Inr direct" and s: "inv s"
  shows "yields err (rank_post moves0 incumbent thorough)
    (rank_customer eval release fp incumbent thorough moves0 direct s)"
proof -
  obtain d where d: "first_index (dr_indices direct) = Some d" "d < length moves0"
    and second: "\<And>j. second_index (dr_indices direct) = Some j \<Longrightarrow> j < length moves0 \<and> j \<noteq> d"
    using direct_customer_ranking_indices [OF direct] by blast
  have start: "ranks moves0 (moves0, no_best, s)"
    using s open_moves track_refl [of moves0 ccost] by (auto simp: ranks_def opens_def no_best_def)
  let ?Q = "\<lambda>x. ranks moves0 x \<and> first_index (fst (snd x)) \<noteq> None"
  have scan: "yields err (rank_post moves0 incumbent thorough)
      (ebind (rank_scan eval release fp incumbent thorough (bound_queue (fst x)) x) rank_result)" if x: "?Q x" for x
  proof (rule rank_scan_exact [OF fp law cand])
    obtain moves bt s' where xe: "x = (moves, bt, s')" by (cases x)
    then have o: "opens moves0 moves" using x by (auto simp: ranks_def)
    then have len: "length moves = length moves0" using trackD(1) [OF _ d(2)] by (auto simp: opens_def)
    have same: "i < length moves0 \<Longrightarrow> bound_delta (moves ! i) = bound_delta (moves0 ! i)" for i
      using o trackD(3) by (auto simp: opens_def)
    show "set (bound_queue (fst x)) \<subseteq> {..<length moves0}" using len xe by simp
    show "sorted_wrt (\<lambda>i j. bound_delta (moves0 ! i) \<le> bound_delta (moves0 ! j)) (bound_queue (fst x))"
      using bound_queue_sorted [of moves] len xe by (auto intro: sorted_wrt_mono_rel [rotated] simp: same)
    show "j < length moves0 \<Longrightarrow> move_evaluated (fst x ! j) \<or> j \<in> set (bound_queue (fst x))" for j
      using len xe by simp
  qed (use x in auto)
  have step: "yields err (\<lambda>y. ?Q y \<and> (\<forall>j < length moves0. move_evaluated (fst y ! j) \<longleftrightarrow> move_evaluated (fst x ! j) \<or> j = i))
      (evaluate_and_rank eval release i x)"
    if x: "ranks moves0 x" and i: "i < length moves0" "\<not> move_evaluated (fst x ! i)" for x i
  proof -
    obtain moves bt s' where xe: "x = (moves, bt, s')" by (cases x)
    show ?thesis unfolding xe
      by (rule yields_mono [OF evaluate_and_rank_ranks [of moves0 moves bt s' i, OF _ _ _ cand]])
        (use x i xe in \<open>auto simp: ranks_def split: prod.splits option.splits\<close>)
  qed
  have "yields err (\<lambda>y. ?Q y \<and> (\<forall>j < length moves0. move_evaluated (fst y ! j) \<longleftrightarrow> move_evaluated (fst (moves0, no_best, s) ! j) \<or> j = d))
      (evaluate_and_rank eval release d (moves0, no_best, s))"
    by (rule step [OF start d(2)]) (use open_moves d(2) in auto)
  then show ?thesis
    unfolding rank_customer_def d(1) option.case
  proof (rule yields_bind)
    fix x assume x: "?Q x \<and> (\<forall>j < length moves0. move_evaluated (fst x ! j) \<longleftrightarrow> move_evaluated (fst (moves0, no_best, s) ! j) \<or> j = d)"
    have "yields err ?Q (case second_index (dr_indices direct) of None \<Rightarrow> ret x
                 | Some d2 \<Rightarrow> evaluate_and_rank eval release d2 x)"
    proof (cases "second_index (dr_indices direct)")
      case (Some j)
      have "\<not> move_evaluated (fst x ! j)" using x second [OF Some] open_moves by auto
      then show ?thesis using yields_mono [OF step [of x j]] x second [OF Some] Some by auto
    qed (use x in auto)
    then show "yields err (rank_post moves0 incumbent thorough)
        (ebind (case second_index (dr_indices direct) of None \<Rightarrow> ret x | Some d2 \<Rightarrow> evaluate_and_rank eval release d2 x)
          (\<lambda>x. ebind (rank_scan eval release fp incumbent thorough (bound_queue (fst x)) x) rank_result))"
      by (rule yields_bind) (rule scan)
  qed
qed

section \<open>All customers\<close>

definition winner_exact ::
  "insertion_move list list \<Rightarrow> ((real \<times> int \<times> nat \<times> nat) \<times> real option) option \<Rightarrow> customer_ranking option \<Rightarrow> bool" where
  "winner_exact groups w winner \<longleftrightarrow>
     (case winner of None \<Rightarrow> w = None
      | Some rk \<Rightarrow> w = Some (completed_key ccost (rank_best rk), rank_regret rk) \<and>
          good (rank_best rk) \<and> move_delta (rank_best rk) = ccost (move_slot (rank_best rk)) \<and>
          (\<exists>g \<in> set groups. \<exists>m \<in> set g. move_slot (rank_best rk) = move_slot m))"

lemma regret_better_outranks:
  assumes "move_delta c = ccost (move_slot c)" and "move_delta i = ccost (move_slot i)"
  shows "regret_better rc c ri i \<longleftrightarrow> outranks (completed_key ccost c, rc) (completed_key ccost i, ri)"
  using better_key [OF assms] by (auto simp: regret_better_def outranks_def split: option.splits)

lemma below_not_outranks:
  assumes "regret_below g (Some r)"
  shows "\<not> outranks (exact_ranking ccost g) (k, r)"
  using assms by (auto simp: regret_below_def outranks_def kCostTolerance_def split: option.splits)

lemma rank_step_exact:
  assumes fp: "\<And>x. fp_down fp x \<le> x \<and> x \<le> fp_up fp x"
    and g: "g \<in> set groups" and law: "\<And>m. m \<in> set g \<Longrightarrow> bound_holds ccost m \<and> cand m \<and> \<not> move_evaluated m"
    and direct: "direct_customer_ranking g = Inr direct"
    and x: "inv s" "winner_exact groups w winner"
  shows "yields err (\<lambda>(winner', s'). inv s' \<and> winner_exact groups (exact_two_regret ccost w [g]) winner' \<and> winner' \<noteq> None)
    (rank_step eval release fp dw (winner, s) (i, g, direct))"
proof -
  have rk: "yields err (rank_post g (map_option rank_regret winner) (i = dw))
      (rank_customer eval release fp (map_option rank_regret winner) (i = dw) g direct s)"
    by (rule rank_customer_exact [OF fp _ _ _ direct x(1)]) (use law in auto)
  show ?thesis
    unfolding rank_step_def prod.case
  proof (rule yields_bind [OF rk])
    fix y assume y: "rank_post g (map_option rank_regret winner) (i = dw) y"
    obtain r s' where ye: "y = (r, s')" by (cases y)
    show "yields err (\<lambda>(winner', s'). inv s' \<and> winner_exact groups (exact_two_regret ccost w [g]) winner' \<and> winner' \<noteq> None)
      (case y of (ranking_opt, s) \<Rightarrow> if i = dw \<and> ranking_opt = None
         then throw (Logic_Error ''direct 2-Regret winner was incompletely ranked'')
         else ret (consider_ranking winner ranking_opt, s))"
    proof (cases r)
      case None
      then have below: "inv s'" "i \<noteq> dw" "regret_below g (map_option rank_regret winner)"
        using y ye by (auto simp: rank_post_def)
      then obtain v where v: "winner = Some v" by (cases winner) (auto simp: regret_below_def)
      then have "\<not> outranks (exact_ranking ccost g) (completed_key ccost (rank_best v), rank_regret v)"
        using below_not_outranks below(3) by simp
      then show ?thesis using None below v x(2) ye by (simp add: consider_ranking_def winner_exact_def)
    next
      case (Some rk)
      then have e: "inv s'" "rank_exact g rk" using y ye by (auto simp: rank_post_def)
      then have full: "winner_exact groups (Some (exact_ranking ccost g)) (Some rk)"
        using g by (auto simp: winner_exact_def rank_exact_def)
      show ?thesis
      proof (cases winner)
        case None
        then show ?thesis using full x(2) e(1) Some ye by (simp add: consider_ranking_def winner_exact_def)
      next
        case v: (Some v)
        then have dv: "move_delta (rank_best v) = ccost (move_slot (rank_best v))"
          and wv: "w = Some (completed_key ccost (rank_best v), rank_regret v)" using x(2) by (auto simp: winner_exact_def)
        have "regret_better (rank_regret rk) (rank_best rk) (rank_regret v) (rank_best v) \<longleftrightarrow>
            outranks (exact_ranking ccost g) (completed_key ccost (rank_best v), rank_regret v)"
          using regret_better_outranks [OF _ dv] e(2) by (simp add: rank_exact_def)
        then show ?thesis using full x(2) e(1) Some v wv ye by (simp add: consider_ranking_def)
      qed
    qed
  qed
qed

lemma rank_steps_exact:
  assumes fp: "\<And>x. fp_down fp x \<le> x \<and> x \<le> fp_up fp x"
    and law: "\<And>g m. g \<in> set groups \<Longrightarrow> m \<in> set g \<Longrightarrow> bound_holds ccost m \<and> cand m \<and> \<not> move_evaluated m"
  shows "\<forall>(g, direct) \<in> set gd. g \<in> set groups \<and> direct_customer_ranking g = Inr direct \<Longrightarrow>
    inv s \<Longrightarrow> winner_exact groups w winner \<Longrightarrow>
    yields err (\<lambda>(winner', s'). inv s' \<and> winner_exact groups (exact_two_regret ccost w (map fst gd)) winner' \<and>
        (gd \<noteq> [] \<or> winner \<noteq> None \<longrightarrow> winner' \<noteq> None))
      (efold (rank_step eval release fp dw) (winner, s) (List.enumerate k gd))"
proof (induction gd arbitrary: w winner s k)
  case (Cons p gd)
  obtain g direct where p: "p = (g, direct)" by (cases p)
  then have g: "g \<in> set groups" "direct_customer_ranking g = Inr direct" using Cons.prems(1) by auto
  let ?w = "exact_two_regret ccost w [g]"
  have "yields err (\<lambda>(winner', s'). inv s' \<and> winner_exact groups ?w winner' \<and> winner' \<noteq> None)
    (rank_step eval release fp dw (winner, s) (k, g, direct))"
    by (rule rank_step_exact [OF fp g(1) law [OF g(1)] g(2) Cons.prems(2,3)])
  then have "yields err (\<lambda>(winner', s'). inv s' \<and> winner_exact groups (exact_two_regret ccost ?w (map fst gd)) winner' \<and> winner' \<noteq> None)
      (ebind (rank_step eval release fp dw (winner, s) (k, g, direct))
        (\<lambda>x. efold (rank_step eval release fp dw) x (List.enumerate (Suc k) gd)))"
  proof (rule yields_bind)
    fix y assume y: "case y of (winner', s') \<Rightarrow> inv s' \<and> winner_exact groups ?w winner' \<and> winner' \<noteq> None"
    obtain winner' s' where ye: "y = (winner', s')" by (cases y)
    have "yields err (\<lambda>(winner'', s'). inv s' \<and> winner_exact groups (exact_two_regret ccost ?w (map fst gd)) winner'' \<and>
        (gd \<noteq> [] \<or> winner' \<noteq> None \<longrightarrow> winner'' \<noteq> None))
      (efold (rank_step eval release fp dw) (winner', s') (List.enumerate (Suc k) gd))"
      by (rule Cons.IH) (use Cons.prems(1) y ye in auto)
    then show "yields err (\<lambda>(winner', s'). inv s' \<and> winner_exact groups (exact_two_regret ccost ?w (map fst gd)) winner' \<and> winner' \<noteq> None)
      (efold (rank_step eval release fp dw) y (List.enumerate (Suc k) gd))"
      unfolding ye by (rule yields_mono) (use y ye in auto)
  qed
  moreover have "exact_two_regret ccost ?w (map fst gd) = exact_two_regret ccost w (map fst (p # gd))"
    by (simp add: p)
  ultimately show ?case by (auto simp: p elim!: yields_mono)
qed simp

lemma choose_two_regret_exact:
  assumes fp: "\<And>x. fp_down fp x \<le> x \<and> x \<le> fp_up fp x"
    and law: "\<And>g m. g \<in> set groups \<Longrightarrow> m \<in> set g \<Longrightarrow> bound_holds ccost m \<and> cand m \<and> \<not> move_evaluated m"
    and ne: "groups \<noteq> []" "[] \<notin> set groups" and s: "inv s"
  shows "yields err (\<lambda>(w, s'). inv s' \<and> good w \<and> move_delta w = ccost (move_slot w) \<and>
      (\<exists>g \<in> set groups. \<exists>m \<in> set g. move_slot w = move_slot m) \<and>
      map_option fst (exact_two_regret ccost None groups) = Some (completed_key ccost w))
    (choose_two_regret eval release fp groups s)"
proof -
  let ?ds = "map (\<lambda>g. projr (direct_customer_ranking g)) groups"
  have total: "direct_customer_ranking g = Inr (projr (direct_customer_ranking g))" if "g \<in> set groups" for g
    using direct_customer_ranking_total [of g] ne(2) that by (metis sum.sel(2))
  then have ds: "rmap direct_customer_ranking groups = Inr ?ds" by (rule rmap_Inr)
  let ?P = "\<lambda>(w, s'). inv s' \<and> good w \<and> move_delta w = ccost (move_slot w) \<and>
      (\<exists>g \<in> set groups. \<exists>m \<in> set g. move_slot w = move_slot m) \<and>
      map_option fst (exact_two_regret ccost None groups) = Some (completed_key ccost w)"
  have "yields err (\<lambda>(winner', s'). inv s' \<and>
        winner_exact groups (exact_two_regret ccost None (map fst (zip groups ?ds))) winner' \<and>
        (zip groups ?ds \<noteq> [] \<or> (None :: customer_ranking option) \<noteq> None \<longrightarrow> winner' \<noteq> None))
      (efold (rank_step eval release fp (direct_winner ?ds)) (None, s) (List.enumerate 0 (zip groups ?ds)))"
    by (rule rank_steps_exact [OF fp law])
      (use total s in \<open>auto simp: winner_exact_def set_zip\<close>)
  then have "yields err ?P (ebind (efold (rank_step eval release fp (direct_winner ?ds)) (None, s)
            (List.enumerate 0 (zip groups ?ds))) (\<lambda>(winner, s).
          case winner of None \<Rightarrow> throw (Logic_Error ''2-Regret insertion did not select a customer'')
          | Some w \<Rightarrow> ret (rank_best w, s)))"
    by (rule yields_bind) (use ne(1) in \<open>auto simp: winner_exact_def simp del: split_paired_Ex\<close>)
  then show ?thesis using ds ne(1) by (auto simp: choose_two_regret_def)
qed

end

end
