(* ===== verification/Path_Band.thy ===== *)
theory Path_Band
  imports Path_Completion Plan_Fit
begin

text \<open>
  The scan of the options of a gap is exact: with all certified bounds it yields the tolerance band
  that scoring every option of the catalogue would yield.
\<close>

section \<open>The band of a list of replacements\<close>

definition best_band :: "replacement list \<Rightarrow> band" where
  "best_band rs =
     (if rs = [] then (None, [])
      else let m = Min (rep_cost ` set rs) in (Some m, filter (\<lambda>r. rep_cost r \<le> m + kCostTolerance) rs))"

declare tolerance_pos(3,6) [simp]

lemma best_band_Nil [simp]: "best_band [] = (None, [])"
  by (simp add: best_band_def)

lemma best_band_least:
  "rs \<noteq> [] \<Longrightarrow> m = Min (rep_cost ` set rs) \<Longrightarrow> best_band rs = (Some m, filter (\<lambda>r. rep_cost r \<le> m + kCostTolerance) rs)"
  by (simp add: best_band_def Let_def)

lemma best_band_snoc:
  assumes "rs \<noteq> []" and "m = Min (rep_cost ` set rs)"
  shows "best_band (rs @ [r]) = (Some (min (rep_cost r) m), filter (\<lambda>x. rep_cost x \<le> min (rep_cost r) m + kCostTolerance) (rs @ [r]))"
  using assms by (intro best_band_least) (simp_all add: Min_insert)

lemma admit_band: "admit_replacement r (best_band rs) = best_band (rs @ [r])"
proof (cases "rs = []")
  case True
  then show ?thesis by (simp add: admit_replacement_def Let_def best_band_def)
next
  case False
  define m where "m = Min (rep_cost ` set rs)"
  note b = best_band_least [OF False m_def] best_band_snoc [OF False m_def]
  show ?thesis
  proof (cases "rep_cost r < m")
    case True
    have "filter (\<lambda>x. \<not> rep_cost x > rep_cost r + kCostTolerance) (filter (\<lambda>x. rep_cost x \<le> m + kCostTolerance) rs) =
        filter (\<lambda>x. rep_cost x \<le> rep_cost r + kCostTolerance) rs"
      unfolding filter_filter using True by (intro filter_cong) auto
    then show ?thesis using True unfolding b by (simp add: admit_replacement_def Let_def)
  next
    case ge: False
    then show ?thesis unfolding b by (simp add: admit_replacement_def Let_def min_def)
  qed
qed

text \<open>Replacements that cannot win leave the band as it is.\<close>

lemma skip_band:
  assumes "fst (best_band rs) = Some m" and "m + kCostTolerance < rep_cost r"
  shows "best_band (rs @ [r]) = best_band rs"
proof -
  have ne: "rs \<noteq> []" and m: "m = Min (rep_cost ` set rs)" using assms(1) by (auto simp: best_band_def Let_def split: if_splits)
  have "min (rep_cost r) m = m" using assms(2) by (simp add: min_def kCostTolerance_def)
  then show ?thesis using assms(2) unfolding best_band_snoc [OF ne m] best_band_least [OF ne m] by simp
qed

lemma skip_all:
  assumes "\<forall>r \<in> set qs. \<exists>m. fst (best_band rs) = Some m \<and> m + kCostTolerance < rep_cost r"
  shows "best_band (rs @ qs) = best_band rs"
  using assms
proof (induction qs arbitrary: rs)
  case (Cons q qs)
  then obtain m where m: "fst (best_band rs) = Some m" "m + kCostTolerance < rep_cost q" by auto
  note same = skip_band [OF m]
  then have "best_band ((rs @ [q]) @ qs) = best_band (rs @ [q])" using Cons.prems by (intro Cons.IH) auto
  then show ?case using same by simp
qed simp

section \<open>The catalogue\<close>

fun path_km :: "inst \<Rightarrow> int \<Rightarrow> int list \<Rightarrow> real" where
  "path_km I p [] = 0"
| "path_km I p (n # ns) = dist_km I p n + path_km I n ns"

lemma path_travel_km: "path_travel I p ns = path_km I p ns / speed_kmph (vehicle_of I)"
  by (induction ns arbitrary: p) (simp_all add: leg_travel_def add_divide_distrib)

lemma path_km_nonneg: "0 \<le> path_km I p ns"
  by (induction ns arbitrary: p) simp_all

text \<open>
  What the scan relies on: the paths between two anc in the order of their distances, each a
  simple path of stations with its distance.
\<close>

definition catalog_paths :: "inst \<Rightarrow> int \<Rightarrow> int \<Rightarrow> catalog_path list \<Rightarrow> bool" where
  "catalog_paths I a b opts \<longleftrightarrow> sorted (map option_distance_km opts) \<and>
     (\<forall>opt \<in> set opts. distinct (option_stations opt) \<and> (\<forall>s \<in> set (option_stations opt). known_station I s) \<and>
        option_distance_km opt = path_km I a (option_stations opt @ [b]))"

definition sampler_ok :: "path_sampler \<Rightarrow> bool" where
  "sampler_ok ps \<longleftrightarrow> inst_ok (ps_inst ps) \<and> curves_ok (ps_inst ps) \<and> rounds (ps_fp ps) \<and>
     (\<forall>a b. anchor (ps_inst ps) a \<longrightarrow> anchor (ps_inst ps) b \<longrightarrow>
        (\<exists>opts. ps_catalog ps a b = Inr opts \<and> catalog_paths (ps_inst ps) a b opts)) \<and>
     ps_maximum_rate ps = maximum_charging_rate (ps_inst ps) (ps_fp ps)"

lemma sampler_okD:
  assumes "sampler_ok ps"
  shows "inst_ok (ps_inst ps)" "curves_ok (ps_inst ps)" "rounds (ps_fp ps)"
    "finite_rate (ps_maximum_rate ps) \<Longrightarrow> finite_rates (ps_inst ps)"
  using assms maximum_charging_rate_finite by (auto simp: sampler_ok_def)

lemma sampler_catalog:
  assumes "sampler_ok ps" and "anchor (ps_inst ps) a" and "anchor (ps_inst ps) b"
  obtains opts where "ps_catalog ps a b = Inr opts" and "catalog_paths (ps_inst ps) a b opts"
  using assms by (auto simp: sampler_ok_def)

section \<open>Routes by gaps\<close>

text \<open>The cost of a route by the evaluator of labels.\<close>

definition route_cost :: "inst \<Rightarrow> real \<Rightarrow> int list \<Rightarrow> real" where
  "route_cost I lambda vs = projr (summary_cost (projr (the (route_score I vs))) I lambda)"

lemma route_cost_scored:
  assumes I: "inst_ok I" "curves_ok I" and vs: "set vs \<subseteq> set (ids I)" and l: "isfinite lambda" "0 \<le> lambda"
  obtains S where "route_score I vs = Some (Inr S)" and "summary_cost S I lambda = Inr (route_cost I lambda vs)"
    and "summary_consistent I (path_travel I (depot_id I) (vs @ [depot_id I])) (path_service I (vs @ [depot_id I])) S"
proof -
  let ?ns = "vs @ [depot_id I]"
  have known: "set ?ns \<subseteq> set (ids I)" using vs known_lookups(1) [OF I(1)] by simp
  obtain S where S: "evaluate_label I (path_label I (depot_id I) ?ns) = Some (Inr S)"
    "summary_consistent I (path_travel I (depot_id I) ?ns) (path_service I ?ns) S"
    using evaluate_label_scheduled [OF I _ path_label_ok [OF I(1) known, of "depot_id I"]]
    by (auto simp: scheduled_def path_label_def)
  have r: "route_score I vs = Some (Inr S)" using route_score_eq [OF I(1) vs] S(1) by simp
  have "\<exists>c. summary_cost S I lambda = Inr c" using l by (simp add: summary_cost_def)
  then show thesis using that [OF r _ S(2)] r by (auto simp: route_cost_def)
qed

text \<open>The nodes driven from anchor \<open>i\<close> to anchor \<open>j\<close>.\<close>

definition drive :: "int list \<Rightarrow> int list list \<Rightarrow> nat \<Rightarrow> nat \<Rightarrow> int list" where
  "drive anc gs i j = concat (map (\<lambda>k. gs ! k @ [anc ! (k + 1)]) [i..<j])"

lemma drive_step: "i < j \<Longrightarrow> drive anc gs i j = gs ! i @ anc ! (i + 1) # drive anc gs (i + 1) j"
  by (simp add: drive_def upt_conv_Cons)

lemma drive_snoc: "i \<le> j \<Longrightarrow> drive anc gs i (Suc j) = drive anc gs i j @ gs ! j @ [anc ! (j + 1)]"
  by (simp add: drive_def)

lemma drive_empty [simp]: "drive anc gs i i = []"
  by (simp add: drive_def)

lemma drive_split: "i \<le> k \<Longrightarrow> k \<le> j \<Longrightarrow> drive anc gs i j = drive anc gs i k @ drive anc gs k j"
  using upt_add_eq_append [of i k "j - k"] by (simp add: drive_def)

lemma drive_update: "g < i \<or> j \<le> g \<Longrightarrow> drive anc (gs[g := st]) i j = drive anc gs i j"
  by (auto simp: drive_def intro!: arg_cong [where f = concat] map_cong)

lemma drive_last: "i < j \<Longrightarrow> last (x # drive anc gs i j) = anc ! j"
  by (cases j) (simp_all add: drive_snoc)

lemma interleave_drive:
  "length gs = length cs + 1 \<Longrightarrow> interleave gs cs @ [d] = drive (d0 # cs @ [d]) gs 0 (length gs)"
proof (induction gs cs arbitrary: d0 rule: interleave.induct)
  case (1 g gs c cs)
  have "drive (d0 # (c # cs) @ [d]) (g # gs) 1 (length (g # gs)) = drive (c # cs @ [d]) gs 0 (length gs)"
  proof -
    have "[1..<length (g # gs)] = map Suc [0..<length gs]" by (simp add: map_Suc_upt)
    then show ?thesis by (simp add: drive_def comp_def)
  qed
  then show ?case using 1 by (simp add: drive_step)
qed (auto simp: drive_step)

end
