(* ===== verification/Path_Scan.thy ===== *)
theory Path_Scan
  imports Path_Band
begin

text \<open>
  The scan of one gap: the labels around it are those of the driven nodes, every certified bound is
  below the cost of the route it is computed for, and so the scan yields the band of all
  replacements that improve on the incumbent.
\<close>

section \<open>The labels around a gap\<close>

definition label_before :: "inst \<Rightarrow> int list \<Rightarrow> charging_label" where
  "label_before I ns = (if ns = [] then empty_label else path_label I (depot_id I) ns)"

definition label_after :: "inst \<Rightarrow> int \<Rightarrow> int list \<Rightarrow> charging_label" where
  "label_after I a ns = (if ns = [] then empty_label else path_label I a ns)"

lemma empty_not_initialized [simp]: "\<not> initialized empty_label"
  by (simp add: empty_label_def)

lemma append_before:
  assumes "a = last (depot_id I # before)"
  shows "append_label (label_before I before) (path_label I a ns) = Inr (path_label I (depot_id I) (before @ ns))"
proof (cases "before = []")
  case True
  then show ?thesis using assms by (simp add: label_before_def)
next
  case False
  then show ?thesis using append_path_label [of I "depot_id I" before ns] assms by (simp add: label_before_def)
qed

lemma append_after:
  "append_label (path_label I p ns) (label_after I (last (p # ns)) after) = Inr (path_label I p (ns @ after))"
proof (cases "after = []")
  case False
  then show ?thesis using append_path_label [of I p ns after] unfolding label_after_def by (simp del: last.simps)
qed (simp add: label_after_def)

section \<open>The labels of a plan\<close>

definition anchors_of :: "inst \<Rightarrow> int list \<Rightarrow> int list" where
  "anchors_of I cs = depot_id I # cs @ [depot_id I]"

lemma plan_anchors_eq: "inst_ok I \<Longrightarrow> plan_anchors I cs = Inr (anchors_of I cs)"
  using depot_known [of I] by (simp add: plan_anchors_def anchors_of_def)

lemma anchors_known:
  assumes "inst_ok I" and "set cs \<subseteq> set (customer_ids I)" and "k < length cs + 2"
  shows "anchor I (anchors_of I cs ! k)"
proof -
  have "anchors_of I cs ! k \<in> set (anchors_of I cs)" using assms(3) by (intro nth_mem) (simp add: anchors_of_def)
  then show ?thesis using assms(2) by (auto simp: anchors_of_def anchor_def)
qed

lemma last_drive: "last (depot_id I # drive (anchors_of I cs) gs 0 k) = anchors_of I cs ! k"
  by (cases k) (simp_all add: drive_snoc anchors_of_def)

lemma gap_edges_eq:
  assumes I: "inst_ok I" and cs: "set cs \<subseteq> set (customer_ids I)" and gs: "length gs = length cs + 1"
    and st: "\<forall>g \<in> set gs. \<forall>s \<in> set g. known_station I s"
  shows "rmap (gap_edge I (anchors_of I cs) gs) [0..<length gs] =
    Inr (map (\<lambda>k. path_label I (anchors_of I cs ! k) (gs ! k @ [anchors_of I cs ! (k + 1)])) [0..<length gs])"
proof (rule rmap_Inr)
  fix k assume "k \<in> set [0..<length gs]"
  then have k: "k < length gs" "k + 1 < length (anchors_of I cs)" using gs by (auto simp: anchors_of_def)
  have "anchors_of I cs ! k \<in> set (ids I)" "anchors_of I cs ! (k + 1) \<in> set (ids I)"
    using anchors_known [OF I cs] anchor_known [OF I] k gs by auto
  moreover have "\<forall>s \<in> set (gs ! k). known_station I s" using st nth_mem [OF k(1)] by blast
  ultimately show "gap_edge I (anchors_of I cs) gs k = Inr (path_label I (anchors_of I cs ! k) (gs ! k @ [anchors_of I cs ! (k + 1)]))"
    using edge_label_eq [OF I] k by (simp add: gap_edge_def)
qed

lemma prefix_labels_eq:
  assumes "i \<le> n"
  shows "prefix_labels (label_before I (drive (anchors_of I cs) gs 0 i))
      (map (\<lambda>k. path_label I (anchors_of I cs ! k) (gs ! k @ [anchors_of I cs ! (k + 1)])) [i..<n]) =
    Inr (map (\<lambda>k. label_before I (drive (anchors_of I cs) gs 0 k)) [i..<Suc n])"
  using assms
proof (induction "n - i" arbitrary: i)
  case 0
  then show ?case by simp
next
  case (Suc d)
  then have lt: "i < n" by simp
  let ?b = "drive (anchors_of I cs) gs 0"
  have "?b (Suc i) \<noteq> []" by (simp add: drive_snoc)
  then have "concatenate (label_before I (?b i)) (path_label I (anchors_of I cs ! i) (gs ! i @ [anchors_of I cs ! (i + 1)])) =
      Inr (label_before I (?b (Suc i)))"
    using append_before [of "anchors_of I cs ! i" I "?b i" "gs ! i @ [anchors_of I cs ! (i + 1)]", OF last_drive [symmetric]]
    by (simp add: concatenate_def label_before_def drive_snoc)
  moreover have "[i..<n] = i # [Suc i..<n]" "[i..<Suc n] = i # [Suc i..<Suc n]" using lt by (simp_all add: upt_conv_Cons del: upt_Suc)
  ultimately show ?case using Suc.hyps(1) [of "Suc i"] Suc.hyps(2) lt by (simp del: upt_Suc)
qed

lemma suffix_labels_eq:
  assumes "i \<le> n"
  shows "suffix_labels (map (\<lambda>k. path_label I (anchors_of I cs ! k) (gs ! k @ [anchors_of I cs ! (k + 1)])) [i..<n]) =
    Inr (map (\<lambda>k. label_after I (anchors_of I cs ! k) (drive (anchors_of I cs) gs k n)) [i..<Suc n])"
  using assms
proof (induction "n - i" arbitrary: i)
  case 0
  then show ?case by (simp add: label_after_def)
next
  case (Suc d)
  then have lt: "i < n" by simp
  let ?e = "gs ! i @ [anchors_of I cs ! (i + 1)]" and ?a = "anchors_of I cs"
  have "drive ?a gs i n \<noteq> []" using lt by (simp add: drive_step)
  then have "concatenate (path_label I (?a ! i) ?e) (label_after I (?a ! Suc i) (drive ?a gs (Suc i) n)) =
      Inr (label_after I (?a ! i) (drive ?a gs i n))"
    using append_after [of I "?a ! i" ?e "drive ?a gs (Suc i) n"] lt
    by (simp add: concatenate_def label_after_def drive_step)
  moreover have "[i..<n] = i # [Suc i..<n]" "[i..<Suc n] = i # Suc i # [Suc (Suc i)..<Suc n]" "[Suc i..<Suc n] = Suc i # [Suc (Suc i)..<Suc n]"
    using lt by (simp_all add: upt_conv_Cons del: upt_Suc)
  ultimately show ?case using Suc.hyps(1) [of "Suc i"] Suc.hyps(2) lt by (simp del: upt_Suc)
qed

lemma prepare_labels_eq:
  assumes I: "inst_ok I" and cs: "set cs \<subseteq> set (customer_ids I)" and gs: "length gs = length cs + 1"
    and st: "\<forall>g \<in> set gs. \<forall>s \<in> set g. known_station I s" and el: "\<forall>k \<in> set eligible. k < length gs"
  shows "prepare_labels I (anchors_of I cs) gs eligible =
    Inr (map (\<lambda>k. label_before I (drive (anchors_of I cs) gs 0 k)) [0..<Suc (length gs)],
         map (\<lambda>k. label_after I (anchors_of I cs ! k) (drive (anchors_of I cs) gs k (length gs))) [0..<Suc (length gs)])"
proof -
  have "prefix_labels empty_label (map (\<lambda>k. path_label I (anchors_of I cs ! k) (gs ! k @ [anchors_of I cs ! (k + 1)])) [0..<length gs]) =
      Inr (map (\<lambda>k. label_before I (drive (anchors_of I cs) gs 0 k)) [0..<Suc (length gs)])"
    using prefix_labels_eq [of 0 "length gs" I cs gs] by (simp add: label_before_def)
  then show ?thesis
    using gap_edges_eq [OF I cs gs st] suffix_labels_eq [of 0 "length gs" I cs gs] el
    by (simp add: prepare_labels_def list_all_iff del: upt_Suc)
qed

section \<open>The routes through a gap\<close>

text \<open>The context of a gap between the nodes driven before it and those after it.\<close>

definition whole :: "gap_context \<Rightarrow> int list \<Rightarrow> int list \<Rightarrow> int list \<Rightarrow> int list" where
  "whole g before after st = before @ st @ gc_to g # after"

definition stations_known :: "gap_context \<Rightarrow> int list \<Rightarrow> bool" where
  "stations_known g st \<longleftrightarrow> (\<forall>s \<in> set st. known_station (gc_inst g) s)"

definition option_cost :: "gap_context \<Rightarrow> int list \<Rightarrow> int list \<Rightarrow> int list \<Rightarrow> real" where
  "option_cost g before after st =
     projr (summary_cost (projr (the (evaluate_label (gc_inst g)
       (path_label (gc_inst g) (depot_id (gc_inst g)) (whole g before after st))))) (gc_inst g) (gc_lambda g))"

definition gap_scan :: "gap_context \<Rightarrow> int list \<Rightarrow> int list \<Rightarrow> bool" where
  "gap_scan g before after \<longleftrightarrow> sampler_ok (gc_sampler g) \<and> isfinite (gc_lambda g) \<and> 0 \<le> gc_lambda g \<and>
     gc_prefix g = label_before (gc_inst g) before \<and> gc_from g = last (depot_id (gc_inst g) # before) \<and>
     gc_suffix g = label_after (gc_inst g) (gc_to g) after \<and>
     set before \<subseteq> set (ids (gc_inst g)) \<and> set after \<subseteq> set (ids (gc_inst g)) \<and> gc_to g \<in> set (ids (gc_inst g)) \<and>
     (gc_bound g \<longrightarrow> gc_service g = path_service (gc_inst g) [gc_to g]) \<and> (gc_bulk g \<longrightarrow> gc_bound g)"

lemma gap_scanD:
  assumes "gap_scan g before after"
  shows "sampler_ok (gc_sampler g)" "isfinite (gc_lambda g)" "0 \<le> gc_lambda g"
    "gc_prefix g = label_before (gc_inst g) before" "gc_from g = last (depot_id (gc_inst g) # before)"
    "gc_suffix g = label_after (gc_inst g) (gc_to g) after"
    "set before \<subseteq> set (ids (gc_inst g))" "set after \<subseteq> set (ids (gc_inst g))" "gc_to g \<in> set (ids (gc_inst g))"
    "gc_bound g \<Longrightarrow> gc_service g = path_service (gc_inst g) [gc_to g]" "gc_bulk g \<Longrightarrow> gc_bound g"
    "inst_ok (gc_inst g)" "curves_ok (gc_inst g)" "rounds (ps_fp (gc_sampler g))"
    "rates_finite g \<Longrightarrow> finite_rates (gc_inst g)"
  using assms sampler_okD [of "gc_sampler g"] by (auto simp: gap_scan_def gc_inst_def rates_finite_def)

lemma whole_known: "gap_scan g before after \<Longrightarrow> stations_known g st \<Longrightarrow> set (whole g before after st) \<subseteq> set (ids (gc_inst g))"
  using gap_scanD(7-9) by (fastforce simp: whole_def stations_known_def known_station_def)

lemma from_known: "gap_scan g before after \<Longrightarrow> gc_from g \<in> set (ids (gc_inst g))"
  using gap_scanD(5,7) [of g before after] known_lookups(1) [OF gap_scanD(12)] last_in_set [of before]
  by (cases "before = []") auto

lemma candidate_label:
  assumes G: "gap_scan g before after" and st: "stations_known g st"
  shows "rbind (edge_label (gc_inst g) (gc_from g) st (gc_to g)) (\<lambda>e. rbind (append_label (gc_prefix g) e)
      (\<lambda>l. append_label l (gc_suffix g))) =
    Inr (path_label (gc_inst g) (depot_id (gc_inst g)) (whole g before after st))"
  using edge_label_eq [OF gap_scanD(12) [OF G] from_known [OF G] gap_scanD(9) [OF G]] st
    append_before [OF gap_scanD(5) [OF G], of "st @ [gc_to g]"]
    append_after [of "gc_inst g" "depot_id (gc_inst g)" "before @ st @ [gc_to g]" after]
  by (simp add: gap_scanD(4,6) [OF G] whole_def stations_known_def)

lemma option_scored:
  assumes G: "gap_scan g before after" and st: "stations_known g st"
  obtains S where "evaluate_label (gc_inst g) (path_label (gc_inst g) (depot_id (gc_inst g)) (whole g before after st)) = Some (Inr S)"
    and "summary_consistent (gc_inst g) (path_travel (gc_inst g) (depot_id (gc_inst g)) (whole g before after st))
      (path_service (gc_inst g) (whole g before after st)) S"
    and "summary_cost S (gc_inst g) (gc_lambda g) = Inr (option_cost g before after st)"
proof -
  obtain S where S: "evaluate_label (gc_inst g) (path_label (gc_inst g) (depot_id (gc_inst g)) (whole g before after st)) = Some (Inr S)"
    "summary_consistent (gc_inst g) (path_travel (gc_inst g) (depot_id (gc_inst g)) (whole g before after st))
      (path_service (gc_inst g) (whole g before after st)) S"
    using evaluate_label_scheduled [OF gap_scanD(12,13) [OF G] _
        path_label_ok [OF gap_scanD(12) [OF G] whole_known [OF G st], of "depot_id (gc_inst g)"]]
    by (auto simp: scheduled_def path_label_def)
  moreover have "\<exists>c. summary_cost S (gc_inst g) (gc_lambda g) = Inr c"
    using gap_scanD(2,3) [OF G] by (simp add: summary_cost_def)
  ultimately show thesis using that by (auto simp: option_cost_def)
qed

section \<open>The bounds\<close>

lemma gap_times:
  assumes "gap_scan g before after"
  shows "add_times (gc_prefix g) t (gc_suffix g) =
      path_travel (gc_inst g) (depot_id (gc_inst g)) before + t + path_travel (gc_inst g) (gc_to g) after"
    and "add_services (gc_prefix g) t (gc_suffix g) = path_service (gc_inst g) before + t + path_service (gc_inst g) after"
  by (simp_all add: add_times_def add_services_def Let_def gap_scanD(4,6) [OF assms] label_before_def label_after_def
      path_label_def path_service_def)

lemma whole_times:
  assumes G: "gap_scan g before after"
  shows "path_travel (gc_inst g) (depot_id (gc_inst g)) (whole g before after st) =
      path_travel (gc_inst g) (depot_id (gc_inst g)) before + path_travel (gc_inst g) (gc_from g) (st @ [gc_to g]) +
      path_travel (gc_inst g) (gc_to g) after"
    and "stations_known g st \<Longrightarrow> path_service (gc_inst g) (whole g before after st) =
      path_service (gc_inst g) before + path_service (gc_inst g) [gc_to g] + path_service (gc_inst g) after"
proof -
  let ?I = "gc_inst g" and ?f = "last (depot_id (gc_inst g) # before)"
  have "whole g before after st = before @ (st @ [gc_to g]) @ after" by (simp add: whole_def)
  then have "path_travel ?I (depot_id ?I) (whole g before after st) = path_travel ?I (depot_id ?I) before +
      (path_travel ?I ?f (st @ [gc_to g]) + path_travel ?I (last (?f # st @ [gc_to g])) after)"
    by (simp only: path_travel_append)
  moreover have "last (?f # st @ [gc_to g]) = gc_to g" by simp
  ultimately show "path_travel ?I (depot_id ?I) (whole g before after st) =
      path_travel ?I (depot_id ?I) before + path_travel ?I (gc_from g) (st @ [gc_to g]) + path_travel ?I (gc_to g) after"
    by (simp only: gap_scanD(5) [OF G] add.assoc)
  assume "stations_known g st"
  then have "path_service ?I st = 0" by (induction st) (simp_all add: path_service_def known_station_def stations_known_def)
  then show "path_service ?I (whole g before after st) = path_service ?I before + path_service ?I [gc_to g] + path_service ?I after"
    by (simp add: path_service_def whole_def)
qed

lemma option_travel_eq:
  assumes I: "inst_ok I" and "p \<in> set (ids I)" and "targ \<in> set (ids I)" and "\<forall>s \<in> set st. s \<in> set (ids I)"
  shows "option_travel I p st targ acc = Inr (acc + path_travel I p (st @ [targ]))"
  using assms(2-) by (induction st arbitrary: p acc) (simp_all add: travel_time_known [OF I] add.assoc)

text \<open>The bound of an option is below its cost, and never throws.\<close>

lemma option_lower_below:
  assumes G: "gap_scan g before after" and st: "stations_known g st"
  shows "\<exists>lower. option_lower g st = Inr lower \<and> (\<forall>l. lower = Some l \<longrightarrow> gc_bound g \<and> l \<le> option_cost g before after st)"
proof (cases "option_lower g st = Inr None")
  case False
  let ?I = "gc_inst g" and ?n = "length (station_legs (gc_prefix g)) + length st + length (station_legs (gc_suffix g))"
  have t: "option_travel ?I (gc_from g) st (gc_to g) 0 = Inr (path_travel ?I (gc_from g) (st @ [gc_to g]))"
    using option_travel_eq [OF gap_scanD(12) [OF G] from_known [OF G] gap_scanD(9) [OF G], of st 0] st
    by (simp add: stations_known_def known_station_def)
  then have lower: "option_lower g st = Inr (nonlinear_travel_bound (ps_fp (gc_sampler g))
      (path_travel ?I (depot_id ?I) (whole g before after st)) (path_service ?I (whole g before after st)) ?n
      (vehicle_of ?I) (gc_lambda g))" and b: "gc_bound g"
    using False gap_times [OF G] whole_times [OF G, of st] st gap_scanD(10) [OF G]
    by (auto simp: option_lower_def Let_def split: if_splits)
  obtain S where "evaluate_label ?I (path_label ?I (depot_id ?I) (whole g before after st)) = Some (Inr S)"
    and S: "summary_consistent ?I (path_travel ?I (depot_id ?I) (whole g before after st))
      (path_service ?I (whole g before after st)) S"
    "summary_cost S ?I (gc_lambda g) = Inr (option_cost g before after st)" by (rule option_scored [OF G st])
  have "l \<le> option_cost g before after st" if "option_lower g st = Inr (Some l)" for l
  proof -
    have "nonlinear_travel_bound (ps_fp (gc_sampler g)) (path_travel ?I (depot_id ?I) (whole g before after st))
        (path_service ?I (whole g before after st)) ?n (vehicle_of ?I) (gc_lambda g) = Some l" using lower that by simp
    from travel_bound_below [OF gap_scanD(12,14) [OF G] S(1) this order_refl order_refl] S(2) show ?thesis by simp
  qed
  then show ?thesis using lower b by (intro exI conjI) auto
qed simp

text \<open>The bound of a descriptor is below the cost of it and of every later one.\<close>

lemma tail_lower_below:
  assumes G: "gap_scan g before after" and st: "stations_known g st"
    and km: "0 \<le> option_distance_km opt" "option_distance_km opt \<le> path_km (gc_inst g) (gc_from g) (st @ [gc_to g])"
    and l: "tail_lower g opt = Some l"
  shows "l \<le> option_cost g before after st"
proof -
  let ?I = "gc_inst g" and ?v = "vehicle_of (gc_inst g)" and ?fp = "ps_fp (gc_sampler g)" and ?d = "depot_id (gc_inst g)"
  let ?t = "add_times (gc_prefix g) (catalog_travel_lower_bound ?fp (option_distance_km opt) (speed_kmph ?v)) (gc_suffix g)"
  let ?s = "add_services (gc_prefix g) (gc_service g) (gc_suffix g)" and ?w = "whole g before after st"
  obtain n lower where nb: "gc_bulk g" "nonlinear_travel_bound ?fp ?t ?s n ?v (gc_lambda g) = Some lower"
    and cases: "l = lower \<or> rates_finite g \<and> (\<exists>e. zero_shift_energy_cost_bound ?fp ?t ?s ?v (gc_lambda g) = Some e \<and> l = max lower e)"
    using l by (auto simp: tail_lower_def Let_def split: if_splits option.splits)
  have speed: "0 < speed_kmph ?v" by (rule vehicle_pos(1) [OF gap_scanD(12) [OF G]])
  have "catalog_travel_lower_bound ?fp (option_distance_km opt) (speed_kmph ?v) \<le> option_distance_km opt / speed_kmph ?v"
    by (rule catalog_bound_below [OF gap_scanD(14) [OF G] km(1) speed])
  also have "\<dots> \<le> path_travel ?I (gc_from g) (st @ [gc_to g])"
    unfolding path_travel_km using km(2) speed by (intro divide_right_mono) auto
  finally have t: "?t \<le> path_travel ?I ?d ?w" using gap_times(1) [OF G] whole_times(1) [OF G, of st] by simp
  have s: "?s \<le> path_service ?I ?w"
    using gap_times(2) [OF G] whole_times(2) [OF G st] gap_scanD(10,11) [OF G] nb(1) by simp
  obtain S where S: "evaluate_label ?I (path_label ?I ?d ?w) = Some (Inr S)"
    "summary_consistent ?I (path_travel ?I ?d ?w) (path_service ?I ?w) S"
    "summary_cost S ?I (gc_lambda g) = Inr (option_cost g before after st)" by (rule option_scored [OF G st])
  have "lower \<le> option_cost g before after st"
    using travel_bound_below [OF gap_scanD(12,14) [OF G] S(2) nb(2) t s] S(3) by auto
  moreover have "e \<le> option_cost g before after st"
    if "rates_finite g" "zero_shift_energy_cost_bound ?fp ?t ?s ?v (gc_lambda g) = Some e" for e
    using zero_shift_bound_below [OF gap_scanD(12,13,14,15) [OF G] whole_known [OF G st] that(2) t s] that(1) S(1,3) by auto
  ultimately show ?thesis using cases by auto
qed

section \<open>The scores\<close>

text \<open>The bounded score is exact, or cut where the option cannot win.\<close>

lemma score_option_exact:
  assumes G: "gap_scan g before after" and st: "stations_known g st"
  shows "\<exists>r. score_option g bounded least st = ret r \<and>
    (case r of Some S \<Rightarrow> summary_cost S (gc_inst g) (gc_lambda g) = Inr (option_cost g before after st)
     | None \<Rightarrow> cannot_win (gc_incumbent g) least (option_cost g before after st))"
proof -
  let ?I = "gc_inst g" and ?l = "path_label (gc_inst g) (depot_id (gc_inst g)) (whole g before after st)"
  let ?least = "case least of None \<Rightarrow> gc_incumbent g - kCostTolerance | Some m \<Rightarrow> m + kCostTolerance"
  obtain S where S: "evaluate_label ?I ?l = Some (Inr S)"
    "summary_consistent ?I (path_travel ?I (depot_id ?I) (whole g before after st)) (path_service ?I (whole g before after st)) S"
    "summary_cost S ?I (gc_lambda g) = Inr (option_cost g before after st)"
    by (rule option_scored [OF G st])
  note cand = candidate_label [OF G st]
  show ?thesis
  proof (cases bounded)
    case False
    then show ?thesis using cand S(1,3) by (simp add: score_option_def ret_def [symmetric])
  next
    case True
    note known = whole_known [OF G st]
    obtain r where "evaluate_bounded (ps_compatible (gc_sampler g)) ?I ?l (gc_lambda g) (gc_incumbent g - kCostTolerance)
        ?least (rates_finite g) = Some (Inr r)"
      "r = Summary S \<or> (\<exists>b cb. r = Lower_Bound b \<and> cb \<le> option_cost g before after st \<and>
         (gc_incumbent g - kCostTolerance \<le> cb \<or> ?least < cb))"
      using evaluate_bounded_ok [OF gap_scanD(12,13) [OF G] path_label_initialized
          path_label_ok [OF gap_scanD(12) [OF G] known, of "depot_id ?I"] gap_scanD(2,3) [OF G], of "rates_finite g"
          "ps_compatible (gc_sampler g)" "gc_incumbent g - kCostTolerance" ?least] gap_scanD(15) [OF G] S(1,3) by fastforce
    then show ?thesis
      using True cand S(3) by (auto simp: score_option_def ret_def [symmetric] cannot_win_def split: option.splits)
  qed
qed

end
