(* ===== verification/Path_Exact.thy ===== *)
theory Path_Exact
  imports Path_Scan
begin

text \<open>
  The best replacement is exact: of all paths of the catalogue that improve the route by more than the
  tolerance it is, within the tolerance of the cheapest, the one with the least visits.  The
  improvement loop ends, keeps the customers and never makes a plan worse.
\<close>

section \<open>The scan of a gap\<close>

definition wins :: "gap_context \<Rightarrow> int list \<Rightarrow> int list \<Rightarrow> (nat \<times> int list) list \<Rightarrow> int list \<Rightarrow> bool" where
  "wins g before after excluded st \<longleftrightarrow> st \<noteq> gc_current g \<and> (gc_gap g, st) \<notin> set excluded \<and>
     option_cost g before after st < gc_incumbent g - kCostTolerance"

definition as_replacement :: "gap_context \<Rightarrow> int list \<Rightarrow> int list \<Rightarrow> int list \<Rightarrow> replacement" where
  "as_replacement g before after st = \<lparr>rep_cost = option_cost g before after st, rep_gap = gc_gap g, rep_stations = st\<rparr>"

definition gap_wins ::
  "gap_context \<Rightarrow> int list \<Rightarrow> int list \<Rightarrow> (nat \<times> int list) list \<Rightarrow> catalog_path list \<Rightarrow> replacement list" where
  "gap_wins g before after excluded opts =
     map (as_replacement g before after) (filter (wins g before after excluded) (map option_stations opts))"

lemma cannot_win_mono: "cannot_win inc least l \<Longrightarrow> l \<le> c \<Longrightarrow> cannot_win inc least c"
  by (auto simp: cannot_win_def split: option.splits)

lemma losers_dropped:
  assumes "\<forall>opt \<in> set opts. cannot_win (gc_incumbent g) (fst (best_band rs)) (option_cost g before after (option_stations opt))"
  shows "best_band (rs @ gap_wins g before after excluded opts) = best_band rs"
  by (rule skip_all)
    (use assms in \<open>fastforce simp: gap_wins_def as_replacement_def wins_def cannot_win_def split: option.splits\<close>)

lemma scan_option_exact:
  assumes G: "gap_scan g before after" and st: "stations_known g st"
  shows "scan_option g excluded (best_band rs) st =
    ret (best_band (rs @ gap_wins g before after excluded [\<lparr>option_stations = st, option_distance_km = d\<rparr>]))"
proof (cases "st = gc_current g \<or> (gc_gap g, st) \<in> set excluded")
  case True
  then show ?thesis by (auto simp: scan_option_def gap_wins_def wins_def)
next
  case False
  let ?c = "option_cost g before after st" and ?opts = "[\<lparr>option_stations = st, option_distance_km = d\<rparr>]"
  have dropped: "best_band (rs @ gap_wins g before after excluded ?opts) = best_band rs"
    if "cannot_win (gc_incumbent g) (fst (best_band rs)) ?c"
    by (rule losers_dropped) (use that in simp)
  obtain lower where lower: "option_lower g st = Inr lower" "\<forall>l. lower = Some l \<longrightarrow> l \<le> ?c"
    using option_lower_below [OF G st] by blast
  show ?thesis
  proof (cases "case lower of None \<Rightarrow> False | Some l \<Rightarrow> cannot_win (gc_incumbent g) (fst (best_band rs)) l")
    case True
    then obtain l where "lower = Some l" "cannot_win (gc_incumbent g) (fst (best_band rs)) l" by (auto split: option.splits)
    then show ?thesis using dropped cannot_win_mono lower False by (auto simp: scan_option_def)
  next
    case False': False
    obtain r where r: "score_option g (lower \<noteq> None \<and> gc_shortfall g) (fst (best_band rs)) st = ret r"
      "case r of Some S \<Rightarrow> summary_cost S (gc_inst g) (gc_lambda g) = Inr ?c
        | None \<Rightarrow> cannot_win (gc_incumbent g) (fst (best_band rs)) ?c"
      using score_option_exact [OF G st] by blast
    show ?thesis
    proof (cases r)
      case None
      then show ?thesis using r dropped lower(1) False False' by (auto simp: scan_option_def)
    next
      case (Some S)
      have "gap_wins g before after excluded ?opts =
          (if ?c < gc_incumbent g - kCostTolerance then [as_replacement g before after st] else [])"
        using False by (simp add: gap_wins_def wins_def)
      then show ?thesis
        using r Some lower(1) False False' admit_band [of "as_replacement g before after st" rs]
        by (auto simp: scan_option_def as_replacement_def)
    qed
  qed
qed

lemma gap_wins_Cons: "gap_wins g before after excluded (opt # opts) =
  gap_wins g before after excluded [\<lparr>option_stations = option_stations opt, option_distance_km = d\<rparr>] @
  gap_wins g before after excluded opts"
  by (simp add: gap_wins_def)

lemma scan_options_exact:
  assumes G: "gap_scan g before after"
  shows "catalog_paths (gc_inst g) (gc_from g) (gc_to g) opts \<Longrightarrow>
    scan_options g excluded opts (best_band rs) = ret (best_band (rs @ gap_wins g before after excluded opts))"
proof (induction opts arbitrary: rs)
  case Nil
  show ?case by (simp add: gap_wins_def)
next
  case (Cons opt opts)
  have rest: "catalog_paths (gc_inst g) (gc_from g) (gc_to g) opts" using Cons.prems by (auto simp: catalog_paths_def)
  have st: "stations_known g (option_stations o')" if "o' \<in> set (opt # opts)" for o'
    using Cons.prems that by (auto simp: catalog_paths_def stations_known_def)
  show ?case
  proof (cases "case tail_lower g opt of None \<Rightarrow> False | Some l \<Rightarrow> cannot_win (gc_incumbent g) (fst (best_band rs)) l")
    case True
    then obtain l where l: "tail_lower g opt = Some l" "cannot_win (gc_incumbent g) (fst (best_band rs)) l"
      by (auto split: option.splits)
    have "cannot_win (gc_incumbent g) (fst (best_band rs)) (option_cost g before after (option_stations o'))"
      if o': "o' \<in> set (opt # opts)" for o'
    proof -
      have "option_distance_km opt \<le> option_distance_km o'" using Cons.prems o' by (auto simp: catalog_paths_def)
      moreover have "option_distance_km opt = path_km (gc_inst g) (gc_from g) (option_stations opt @ [gc_to g])"
        "option_distance_km o' = path_km (gc_inst g) (gc_from g) (option_stations o' @ [gc_to g])"
        using Cons.prems o' by (auto simp: catalog_paths_def)
      ultimately have "l \<le> option_cost g before after (option_stations o')"
        using tail_lower_below [OF G st [OF o'] _ _ l(1)] path_km_nonneg by metis
      then show ?thesis using cannot_win_mono [OF l(2)] by blast
    qed
    then have "best_band (rs @ gap_wins g before after excluded (opt # opts)) = best_band rs"
      by (intro losers_dropped) blast
    then show ?thesis using True by simp
  next
    case False
    then show ?thesis
      using scan_option_exact [OF G st [of opt], of excluded rs 0] Cons.IH [OF rest]
      by (simp add: gap_wins_Cons [of g before after excluded opt opts 0])
  qed
qed

section \<open>The scan of a plan\<close>

definition replaced :: "plan \<Rightarrow> nat \<Rightarrow> int list \<Rightarrow> int list" where
  "replaced p gap st = interleave ((gaps p)[gap := st]) (plan_customers p)"

text \<open>The catalogue of a gap of the plan, and every improving replacement, in the order of the scan.\<close>

definition gap_options :: "path_sampler \<Rightarrow> plan \<Rightarrow> nat \<Rightarrow> int list list" where
  "gap_options ps p gap =
     (let anc = anchors_of (ps_inst ps) (plan_customers p)
      in case ps_catalog ps (anc ! gap) (anc ! (gap + 1)) of Inl e \<Rightarrow> [] | Inr opts \<Rightarrow> map option_stations opts)"

definition improving ::
  "path_sampler \<Rightarrow> real \<Rightarrow> real \<Rightarrow> plan \<Rightarrow> (nat \<times> int list) list \<Rightarrow> nat \<Rightarrow> replacement list" where
  "improving ps lambda incumbent p excluded gap =
     map (\<lambda>st. \<lparr>rep_cost = route_cost (ps_inst ps) lambda (replaced p gap st), rep_gap = gap, rep_stations = st\<rparr>)
       (filter (\<lambda>st. st \<noteq> gaps p ! gap \<and> (gap, st) \<notin> set excluded \<and>
                  route_cost (ps_inst ps) lambda (replaced p gap st) < incumbent - kCostTolerance) (gap_options ps p gap))"

definition all_improving ::
  "path_sampler \<Rightarrow> real \<Rightarrow> real \<Rightarrow> plan \<Rightarrow> nat list \<Rightarrow> (nat \<times> int list) list \<Rightarrow> replacement list" where
  "all_improving ps lambda incumbent p eligible excluded =
     concat (map (improving ps lambda incumbent p excluded) eligible)"

lemma whole_replaced:
  assumes gs: "length (gaps p) = length (plan_customers p) + 1" and gap: "gap < length (gaps p)"
    and anc: "anc = anchors_of I (plan_customers p)" and to: "gc_to g = anc ! (gap + 1)"
  shows "whole g (drive anc (gaps p) 0 gap) (drive anc (gaps p) (gap + 1) (length (gaps p))) st =
    replaced p gap st @ [depot_id I]"
proof -
  let ?gs = "(gaps p)[gap := st]" and ?n = "length (gaps p)"
  have "replaced p gap st @ [depot_id I] = drive anc ?gs 0 ?n"
    using interleave_drive [of ?gs "plan_customers p" "depot_id I" "depot_id I"] gs
    by (simp add: replaced_def anc anchors_of_def)
  also have "\<dots> = drive anc ?gs 0 gap @ drive anc ?gs gap ?n" using gap by (intro drive_split) auto
  also have "drive anc ?gs gap ?n = st @ anc ! (gap + 1) # drive anc ?gs (gap + 1) ?n" using gap by (simp add: drive_step)
  also have "drive anc ?gs 0 gap = drive anc (gaps p) 0 gap" by (rule drive_update) simp
  also have "drive anc ?gs (gap + 1) ?n = drive anc (gaps p) (gap + 1) ?n" by (rule drive_update) simp
  finally show ?thesis by (simp add: whole_def to)
qed

lemma scan_gap_exact:
  assumes ps: "sampler_ok ps" and p: "plan_fit (ps_inst ps) revisits p" and l: "isfinite lambda" "0 \<le> lambda"
    and gap: "gap < length (gaps p)" and anc: "anc = anchors_of (ps_inst ps) (plan_customers p)"
    and labels: "fst labels ! gap = label_before (ps_inst ps) (drive anc (gaps p) 0 gap)"
      "snd labels ! (gap + 1) = label_after (ps_inst ps) (anc ! (gap + 1)) (drive anc (gaps p) (gap + 1) (length (gaps p)))"
  shows "scan_gap ps lambda incumbent p anc labels cacheable excluded (best_band rs) gap =
    ret (best_band (rs @ improving ps lambda incumbent p excluded gap))"
proof -
  let ?I = "ps_inst ps" and ?cs = "plan_customers p" and ?gs = "gaps p"
  note I = sampler_okD(1,2) [OF ps]
  have cs: "set ?cs \<subseteq> set (customer_ids ?I)" and len: "length ?gs = length ?cs + 1"
    using plan_fitD(1,2) [OF p] by (auto simp: customers_ok_def)
  have "anchor ?I (anc ! gap)" "anchor ?I (anc ! (gap + 1))" using anchors_known [OF I(1) cs] gap len anc by auto
  then obtain opts where opts: "ps_catalog ps (anc ! gap) (anc ! (gap + 1)) = Inr opts"
    "catalog_paths ?I (anc ! gap) (anc ! (gap + 1)) opts" and to: "anc ! (gap + 1) \<in> set (ids ?I)"
    using sampler_catalog [OF ps] anchor_known [OF I(1)] by metis
  let ?before = "drive anc ?gs 0 gap" and ?after = "drive anc ?gs (gap + 1) (length ?gs)"
  define bound where "bound = (cacheable \<and> ps_certified ps \<and> fp_supported (ps_fp ps))"
  define shortfall where "shortfall = (bound \<and> ps_shortfall_bound ps \<and> ps_compatible ps \<and>
    nonlinear_travel_bound (ps_fp ps) 0 0 0 (vehicle_of ?I) lambda \<noteq> None)"
  define service where "service = (if bound then path_service ?I [anc ! (gap + 1)] else 0)"
  define g where "g = \<lparr>gc_sampler = ps, gc_lambda = lambda, gc_incumbent = incumbent, gc_gap = gap,
    gc_from = anc ! gap, gc_to = anc ! (gap + 1), gc_current = ?gs ! gap, gc_prefix = fst labels ! gap,
    gc_suffix = snd labels ! (gap + 1), gc_bound = bound, gc_shortfall = shortfall,
    gc_bulk = (bound \<and> ps_bulk_bound ps), gc_service = service\<rparr>"
  have serv: "rbind (node_of ?I (anc ! (gap + 1))) (\<lambda>n. Inr (if kind n = Customer then node_service_time_h n else 0)) =
      Inr (path_service ?I [anc ! (gap + 1)])"
    using node_of_known(1) [OF I(1) to] by (simp add: path_service_def)
  have scan: "scan_gap ps lambda incumbent p anc labels cacheable excluded b gap = scan_options g excluded opts b" for b
    using opts(1) serv
    unfolding scan_gap_def Let_def g_def shortfall_def bound_def [symmetric] service_def by (cases bound) simp_all
  have st: "\<forall>gp \<in> set ?gs. \<forall>s \<in> set gp. s \<in> set (ids ?I)"
    using plan_fitD(3) [OF p] by (auto simp: gap_ok_def known_station_def)
  have nodes: "set (drive anc ?gs i j) \<subseteq> set (ids ?I)" if "j \<le> length ?gs" for i j
  proof
    fix x assume "x \<in> set (drive anc ?gs i j)"
    then obtain k where k: "k < j" "x \<in> set (?gs ! k) \<or> x = anc ! (k + 1)" by (auto simp: drive_def)
    then have "?gs ! k \<in> set ?gs" "anc ! (k + 1) \<in> set (ids ?I)"
      using that len anchors_known [OF I(1) cs, of "k + 1"] anchor_known [OF I(1)] anc by auto
    then show "x \<in> set (ids ?I)" using k(2) st by blast
  qed
  have G: "gap_scan g ?before ?after"
    using ps l labels nodes gap to last_drive [of ?I ?cs ?gs gap]
    by (auto simp: gap_scan_def g_def gc_inst_def service_def anc bound_def)
  have known: "\<forall>s \<in> set st. known_station ?I s" if "st \<in> set (map option_stations opts)" for st
    using opts(2) that by (auto simp: catalog_paths_def)
  have cost: "option_cost g ?before ?after st = route_cost ?I lambda (replaced p gap st)" if st': "st \<in> set (map option_stations opts)" for st
  proof -
    have w: "whole g ?before ?after st = replaced p gap st @ [depot_id ?I]"
      by (rule whole_replaced [OF len gap anc]) (simp add: g_def)
    have "stations_known g st" using known [OF st'] by (simp add: stations_known_def g_def gc_inst_def)
    then have "set (replaced p gap st) \<subseteq> set (ids ?I)"
      using whole_known [OF G, of st] w by (simp add: g_def gc_inst_def)
    then show ?thesis
      using route_score_eq [OF I(1)] w by (simp add: option_cost_def route_cost_def g_def gc_inst_def)
  qed
  have "gap_wins g ?before ?after excluded opts = improving ps lambda incumbent p excluded gap"
  proof -
    have "filter (wins g ?before ?after excluded) (map option_stations opts) =
        filter (\<lambda>st. st \<noteq> ?gs ! gap \<and> (gap, st) \<notin> set excluded \<and>
          route_cost ?I lambda (replaced p gap st) < incumbent - kCostTolerance) (map option_stations opts)"
      by (rule filter_cong [OF refl]) (simp only: wins_def cost, simp add: g_def)
    moreover have "gap_options ps p gap = map option_stations opts" using opts(1) by (simp add: gap_options_def Let_def anc)
    moreover have "map (as_replacement g ?before ?after) (filter Q (map option_stations opts)) =
        map (\<lambda>st. \<lparr>rep_cost = route_cost ?I lambda (replaced p gap st), rep_gap = gap, rep_stations = st\<rparr>)
          (filter Q (map option_stations opts))" for Q
      by (rule map_cong [OF refl]) (use cost in \<open>auto simp: as_replacement_def g_def\<close>)
    ultimately show ?thesis unfolding gap_wins_def improving_def by (simp only:)
  qed
  then show ?thesis
    unfolding scan using scan_options_exact [OF G, of opts excluded rs] opts(2) by (simp add: g_def gc_inst_def)
qed

end
