(* ===== verification/Path_Improve.thy ===== *)
theory Path_Improve
  imports Path_Exact Plan_Builds
begin

text \<open>
  The best replacement of a plan is exact, and the improvement loop and the repair of new gaps end with
  a plan of the same customers that is never worse.
\<close>

section \<open>Total computations\<close>

lemma some_false [simp]: "Ex Not"
  by (rule exI [of _ False]) simp

lemma fold_returns: "(\<And>s x. x \<in> set xs \<Longrightarrow> \<exists>y. f s x = Inr y) \<Longrightarrow> \<exists>y. rfold f s xs = Inr y"
proof (induction xs arbitrary: s)
  case (Cons x xs)
  obtain y where "f s x = Inr y" using Cons.prems [of x s] by auto
  then show ?case using Cons.IH [of y] Cons.prems by auto
qed simp

lemma cacheable_total:
  assumes I: "inst_ok (ps_inst ps)" and p: "plan_fit (ps_inst ps) revisits p"
  shows "\<exists>b. cacheable_plan ps p = Inr b"
proof -
  let ?I = "ps_inst ps"
  have known: "\<exists>n. node_of ?I s = Inr n" if "s \<in> set (ids ?I)" for s using node_of_known(1) [OF I that] by blast
  have c: "\<exists>n. node_of ?I (plan_customers p ! k) = Inr n" if "k < length (plan_customers p)" for k
    using known customer_known(1) [OF I] plan_fitD(1) [OF p] nth_mem [OF that] by (auto simp: customers_ok_def)
  have g: "\<exists>y. rfold (check_gap_station ?I vs) st (gaps p ! k) = Inr y" if "k < length (gaps p)" for vs st k
  proof (rule fold_returns)
    fix st' s assume "s \<in> set (gaps p ! k)"
    then have "s \<in> set (ids ?I)" using plan_fitD(3) [OF p nth_mem [OF that]] by (auto simp: gap_ok_def known_station_def)
    then obtain n where "node_of ?I s = Inr n" using known by blast
    then show "\<exists>y. check_gap_station ?I vs st' s = Inr y"
      by (cases st'; cases "matches vs (fst st') s") (auto simp: check_gap_station_def)
  qed
  have "\<exists>y. canonical_plan ?I p = Inr y"
  proof -
    have "\<exists>y. rfold (\<lambda>st gap. rbind (rfold (check_gap_station ?I (visits (plan_route p))) st (gaps p ! gap))
        (\<lambda>st. check_gap_customer ?I (visits (plan_route p)) (plan_customers p) st gap)) (0, True) [0..<length (gaps p)] = Inr y"
    proof (rule fold_returns)
      fix st and k assume "k \<in> set [0..<length (gaps p)]"
      then obtain y where "rfold (check_gap_station ?I (visits (plan_route p))) st (gaps p ! k) = Inr y" using g [of k] by fastforce
      moreover have "\<exists>z. check_gap_customer ?I (visits (plan_route p)) (plan_customers p) y k = Inr z"
        using c [of k] by (auto simp: check_gap_customer_def Let_def split: prod.split)
      ultimately show "\<exists>y. rbind (rfold (check_gap_station ?I (visits (plan_route p))) st (gaps p ! k))
        (\<lambda>st. check_gap_customer ?I (visits (plan_route p)) (plan_customers p) st k) = Inr y" by simp
    qed
    then show ?thesis by (auto simp: canonical_plan_def split: prod.split)
  qed
  then show ?thesis by (simp add: cacheable_plan_def)
qed

section \<open>The least route of the band\<close>

definition replaced_by :: "plan \<Rightarrow> replacement \<Rightarrow> int list" where
  "replaced_by p r = replaced p (rep_gap r) (rep_stations r)"

lemma smaller_route_eq:
  "length (gaps p) = length (plan_customers p) + 1 \<Longrightarrow> smaller_route p b r =
    Inr (case b of None \<Rightarrow> Some (r, replaced_by p r)
         | Some (c, cv) \<Rightarrow> if replaced_by p r < cv then Some (r, replaced_by p r) else b)"
  by (cases b) (simp_all add: smaller_route_def expand_route_eq replaced_by_def replaced_def split: prod.split)

lemma smaller_routes_from:
  assumes "length (gaps p) = length (plan_customers p) + 1"
  shows "\<exists>r \<in> insert c (set items). rfold (smaller_route p) (Some (c, replaced_by p c)) items = Inr (Some (r, replaced_by p r)) \<and>
    (\<forall>x \<in> insert c (set items). replaced_by p r \<le> replaced_by p x)"
proof (induction items arbitrary: c)
  case (Cons i items)
  have step: "rfold (smaller_route p) (Some (c, replaced_by p c)) (i # items) =
      rfold (smaller_route p) (if replaced_by p i < replaced_by p c then Some (i, replaced_by p i) else Some (c, replaced_by p c)) items" for c
    by (simp add: smaller_route_eq [OF assms])
  show ?case
  proof (cases "replaced_by p i < replaced_by p c")
    case True
    obtain r where r: "r \<in> insert i (set items)" "rfold (smaller_route p) (Some (i, replaced_by p i)) items = Inr (Some (r, replaced_by p r))"
      "\<forall>x \<in> insert i (set items). replaced_by p r \<le> replaced_by p x" using Cons.IH [of i] by blast
    then have "replaced_by p r \<le> replaced_by p c" using True by (metis insertI1 less_imp_le order_trans)
    then show ?thesis using r True by (intro bexI [of _ r]) (auto simp: step simp del: rfold.simps)
  next
    case False
    obtain r where r: "r \<in> insert c (set items)" "rfold (smaller_route p) (Some (c, replaced_by p c)) items = Inr (Some (r, replaced_by p r))"
      "\<forall>x \<in> insert c (set items). replaced_by p r \<le> replaced_by p x" using Cons.IH [of c] by blast
    then have "replaced_by p r \<le> replaced_by p i" using False by (metis insertI1 linorder_not_less order_trans)
    then show ?thesis using r False by (intro bexI [of _ r]) (auto simp: step simp del: rfold.simps)
  qed
qed simp

lemma smaller_routes:
  assumes "length (gaps p) = length (plan_customers p) + 1" and "items \<noteq> []"
  obtains r where "r \<in> set items" and "rfold (smaller_route p) None items = Inr (Some (r, replaced_by p r))"
    and "\<And>x. x \<in> set items \<Longrightarrow> replaced_by p r \<le> replaced_by p x"
proof -
  obtain c rest where "items = c # rest" using assms(2) by (cases items) auto
  then show thesis using that smaller_routes_from [OF assms(1), of c rest] smaller_route_eq [OF assms(1)] by auto
qed

section \<open>The best replacement\<close>

text \<open>The replacement is, within the tolerance of the cheapest, the one with the least visits.\<close>

definition within_band :: "replacement list \<Rightarrow> replacement \<Rightarrow> bool" where
  "within_band rs r \<longleftrightarrow> r \<in> set rs \<and> (\<forall>x \<in> set rs. rep_cost r \<le> rep_cost x + kCostTolerance)"

definition preferred :: "plan \<Rightarrow> replacement list \<Rightarrow> replacement \<Rightarrow> bool" where
  "preferred p rs r \<longleftrightarrow> within_band rs r \<and> (\<forall>x. within_band rs x \<longrightarrow> replaced_by p r \<le> replaced_by p x)"

lemma preferred_mem: "preferred p rs r \<Longrightarrow> r \<in> set rs"
  by (simp add: preferred_def within_band_def)

lemma band_within: "rs \<noteq> [] \<Longrightarrow> set (snd (best_band rs)) = {r. within_band rs r}"
proof -
  assume ne: "rs \<noteq> []"
  define m where "m = Min (rep_cost ` set rs)"
  have m: "m \<in> rep_cost ` set rs" "\<And>x. x \<in> set rs \<Longrightarrow> m \<le> rep_cost x" using ne by (simp_all add: m_def)
  have "rep_cost r \<le> m + kCostTolerance \<longleftrightarrow> (\<forall>x \<in> set rs. rep_cost r \<le> rep_cost x + kCostTolerance)" for r
    using m by force
  then show ?thesis unfolding best_band_least [OF ne m_def] by (auto simp: within_band_def)
qed

lemma band_nonempty: "rs \<noteq> [] \<Longrightarrow> snd (best_band rs) \<noteq> []"
proof -
  assume ne: "rs \<noteq> []"
  have "Min (rep_cost ` set rs) \<in> rep_cost ` set rs" using ne by (intro Min_in) auto
  then obtain r where "r \<in> set rs" "rep_cost r = Min (rep_cost ` set rs)" by (metis imageE)
  then have "within_band rs r" using ne by (auto simp: within_band_def intro: add_increasing2)
  then show ?thesis using band_within [OF ne] by auto
qed

text \<open>The cost of a route by the evaluator of routes.\<close>

definition full_cost :: "inst \<Rightarrow> real \<Rightarrow> int list \<Rightarrow> real" where
  "full_cost I lambda vs = projr (generalized_cost (projr (route_result I vs)) I lambda)"

definition replaced_plan :: "inst \<Rightarrow> plan \<Rightarrow> replacement \<Rightarrow> plan" where
  "replaced_plan I p r = fit_plan I (plan_customers p) ((gaps p)[rep_gap r := rep_stations r])"

lemma scans_exact:
  assumes ps: "sampler_ok ps" and p: "plan_fit (ps_inst ps) revisits p" and l: "isfinite lambda" "0 \<le> lambda"
    and anc: "anc = anchors_of (ps_inst ps) (plan_customers p)"
    and labels: "fst labels = map (\<lambda>k. label_before (ps_inst ps) (drive anc (gaps p) 0 k)) [0..<Suc (length (gaps p))]"
      "snd labels = map (\<lambda>k. label_after (ps_inst ps) (anc ! k) (drive anc (gaps p) k (length (gaps p)))) [0..<Suc (length (gaps p))]"
    and el: "\<forall>k \<in> set eligible. k < length (gaps p)"
  shows "efold (scan_gap ps lambda incumbent p anc labels cacheable excluded) (best_band rs) eligible =
    ret (best_band (rs @ all_improving ps lambda incumbent p eligible excluded))"
  using el
proof (induction eligible arbitrary: rs)
  case (Cons k ks)
  have "scan_gap ps lambda incumbent p anc labels cacheable excluded (best_band rs) k =
      ret (best_band (rs @ improving ps lambda incumbent p excluded k))"
    by (rule scan_gap_exact [OF ps p l _ anc]) (use Cons.prems labels in \<open>simp_all del: upt_Suc\<close>)
  then show ?case using Cons by (simp add: all_improving_def)
qed (simp add: all_improving_def)

lemma improving_gap: "r \<in> set (all_improving ps lambda incumbent p eligible excluded) \<Longrightarrow>
  rep_gap r \<in> set eligible \<and> rep_stations r \<in> set (gap_options ps p (rep_gap r)) \<and> rep_stations r \<noteq> gaps p ! rep_gap r \<and>
    (rep_gap r, rep_stations r) \<notin> set excluded"
  by (auto simp: all_improving_def improving_def)

lemma distinct_successively: "distinct xs \<Longrightarrow> successively (\<noteq>) xs"
  by (induction xs rule: induct_list012) auto

lemma gap_options_ok:
  assumes ps: "sampler_ok ps" and cs: "set (plan_customers p) \<subseteq> set (customer_ids (ps_inst ps))"
    and k: "k < length (plan_customers p) + 1" and st: "st \<in> set (gap_options ps p k)"
  shows "gap_ok (ps_inst ps) revisits st"
proof -
  let ?anc = "anchors_of (ps_inst ps) (plan_customers p)"
  have "anchor (ps_inst ps) (?anc ! k)" "anchor (ps_inst ps) (?anc ! (k + 1))"
    using anchors_known [OF sampler_okD(1) [OF ps] cs] k by auto
  then obtain opts where "ps_catalog ps (?anc ! k) (?anc ! (k + 1)) = Inr opts"
    "catalog_paths (ps_inst ps) (?anc ! k) (?anc ! (k + 1)) opts" by (rule sampler_catalog [OF ps])
  then show ?thesis using st
    by (auto dest: distinct_successively simp: gap_options_def Let_def catalog_paths_def gap_ok_def)
qed

lemma replaced_gaps_ok:
  assumes ps: "sampler_ok ps" and p: "plan_fit (ps_inst ps) revisits p" and el: "\<forall>k \<in> set eligible. k < length (gaps p)"
    and r: "r \<in> set (all_improving ps lambda incumbent p eligible excluded)"
  shows "\<forall>g \<in> set ((gaps p)[rep_gap r := rep_stations r]). gap_ok (ps_inst ps) revisits g"
proof -
  have "set (plan_customers p) \<subseteq> set (customer_ids (ps_inst ps))" "length (gaps p) = length (plan_customers p) + 1"
    using plan_fitD(1,2) [OF p] by (auto simp: customers_ok_def)
  then have "gap_ok (ps_inst ps) revisits (rep_stations r)"
    using gap_options_ok [OF ps] improving_gap [OF r] el by auto
  then show ?thesis using plan_fitD(3) [OF p] set_update_subset_insert by fastforce
qed

lemma replaced_plan_fit:
  assumes ps: "sampler_ok ps" and f: "factory_ok (ps_inst ps) f" and p: "plan_fit (ps_inst ps) (allow_revisits f) p"
    and l: "isfinite lambda" "0 \<le> lambda" and el: "\<forall>k \<in> set eligible. k < length (gaps p)"
    and r: "r \<in> set (all_improving ps lambda incumbent p eligible excluded)"
  shows "plan_fit (ps_inst ps) (allow_revisits f) (replaced_plan (ps_inst ps) p r)"
    and "plan_cost (ps_inst ps) lambda (replaced_plan (ps_inst ps) p r) =
      Inr (full_cost (ps_inst ps) lambda (replaced_by p r))"
proof -
  let ?I = "ps_inst ps" and ?gs = "(gaps p)[rep_gap r := rep_stations r]"
  note fit = fit_plan_fit [OF sampler_okD(1,2) [OF ps] f plan_fitD(1) [OF p] _ replaced_gaps_ok [OF ps p el r]]
  show "plan_fit ?I (allow_revisits f) (replaced_plan ?I p r)"
    using fit(1) plan_fitD(2) [OF p] by (simp add: replaced_plan_def)
  show "plan_cost ?I lambda (replaced_plan ?I p r) = Inr (full_cost ?I lambda (replaced_by p r))"
    using l by (simp add: plan_cost_def replaced_plan_def fit_plan_def deref_def full_cost_def replaced_by_def replaced_def
        generalized_cost_def Let_def)
qed

lemma best_replacement_ok:
  assumes ps: "sampler_ok ps" and p: "plan_fit (ps_inst ps) R p"
    and l: "isfinite lambda" "0 \<le> lambda" and el: "\<forall>k \<in> set eligible. k < length (gaps p)"
    and inc: "plan_cost (ps_inst ps) lambda p = Inr incumbent" and ex: "\<not> exact_charging p"
  shows "\<exists>res. builds (ps_inst ps) R (best_replacement_in_gaps ps p lambda eligible excluded) res \<and>
    (case res of None \<Rightarrow> all_improving ps lambda incumbent p eligible excluded = []
     | Some q \<Rightarrow> \<exists>r. preferred p (all_improving ps lambda incumbent p eligible excluded) r \<and>
         q = replaced_plan (ps_inst ps) p r)"
proof -
  let ?I = "ps_inst ps" and ?cs = "plan_customers p" and ?anc = "anchors_of (ps_inst ps) (plan_customers p)"
  let ?rs = "all_improving ps lambda incumbent p eligible excluded"
  note I = sampler_okD(1,2) [OF ps]
  have cs: "set ?cs \<subseteq> set (customer_ids ?I)" and len: "length (gaps p) = length ?cs + 1"
    using plan_fitD(1,2) [OF p] by (auto simp: customers_ok_def)
  have st: "\<forall>g \<in> set (gaps p). \<forall>s \<in> set g. known_station ?I s" using plan_fitD(3) [OF p] by (auto simp: gap_ok_def)
  obtain cacheable where c: "cacheable_plan ps p = Inr cacheable" using cacheable_total [OF I(1) p] by blast
  obtain pre suf where labels: "prepare_labels ?I ?anc (gaps p) eligible = Inr (pre, suf)"
    "pre = map (\<lambda>k. label_before ?I (drive ?anc (gaps p) 0 k)) [0..<Suc (length (gaps p))]"
    "suf = map (\<lambda>k. label_after ?I (?anc ! k) (drive ?anc (gaps p) k (length (gaps p)))) [0..<Suc (length (gaps p))]"
    using prepare_labels_eq [OF I(1) cs len st el] by blast
  have scan: "efold (scan_gap ps lambda incumbent p ?anc (pre, suf) cacheable excluded) (None, []) eligible = ret (best_band ?rs)"
    using scans_exact [OF ps p l refl _ _ el, of "(pre, suf)" incumbent cacheable excluded "[]"] labels by simp
  have head: "best_replacement_in_gaps ps p lambda eligible excluded f =
      ebind (lifted (rfold (smaller_route p) None (snd (best_band ?rs)))) (\<lambda>best_opt.
           case best_opt of None \<Rightarrow> ret (None, f)
           | Some (r, _) \<Rightarrow>
               ebind (built (make_plan ?I f ?cs ((gaps p)[rep_gap r := rep_stations r]))) (\<lambda>(q, f'). ret (Some q, f')))" for f
    using ex plan_anchors_eq [OF I(1), of ?cs] c labels(1) inc scan
    by (simp add: best_replacement_in_gaps_def plan_cost_def split: prod.split)
  show ?thesis
  proof (cases "?rs = []")
    case True
    then show ?thesis using head builds_ret [of ?I R None] by (auto simp: builds_def)
  next
    case False
    obtain r where r: "r \<in> set (snd (best_band ?rs))" "rfold (smaller_route p) None (snd (best_band ?rs)) = Inr (Some (r, replaced_by p r))"
      "\<And>x. x \<in> set (snd (best_band ?rs)) \<Longrightarrow> replaced_by p r \<le> replaced_by p x"
      using smaller_routes [OF len band_nonempty [OF False]] by blast
    then have pref: "preferred p ?rs r" using band_within [OF False] by (simp add: preferred_def)
    let ?gs = "(gaps p)[rep_gap r := rep_stations r]"
    have "builds ?I R (\<lambda>f. built (make_plan ?I f ?cs ?gs)) (replaced_plan ?I p r)"
      unfolding replaced_plan_def
      using len by (intro make_plan_builds [OF I plan_fitD(1) [OF p]] replaced_gaps_ok [OF ps p el preferred_mem [OF pref]]) simp
    then have "builds ?I R (\<lambda>f. ebind (built (make_plan ?I f ?cs ?gs)) (\<lambda>(q, f'). ret (Some q, f'))) (Some (replaced_plan ?I p r))"
      by (rule builds_bind) (rule builds_ret)
    then have "builds ?I R (best_replacement_in_gaps ps p lambda eligible excluded) (Some (replaced_plan ?I p r))"
      by (rule builds_cong [rotated]) (use head r(2) in simp)
    then show ?thesis using pref by (intro exI [of _ "Some (replaced_plan ?I p r)"]) auto
  qed
qed

end
