(* ===== verification/Path_Repair.thy ===== *)
theory Path_Repair
  imports Path_Improve
begin

text \<open>
  The improvement loop (\<open>PathSampler::improve_path_subset\<close>) and the repair of the gaps that an
  insertion introduces always return, keep the customers and the other gaps, never make a plan dearer, and
  end in a local optimum over the catalogue.
\<close>

section \<open>Costs of plans\<close>

definition cost_of :: "inst \<Rightarrow> real \<Rightarrow> plan \<Rightarrow> real" where
  "cost_of I lambda p = projr (plan_cost I lambda p)"

lemma plan_cost_fit:
  assumes I: "inst_ok I" and p: "plan_fit I revisits p" and l: "isfinite lambda" "0 \<le> lambda"
  shows "plan_cost I lambda p = Inr (cost_of I lambda p)" and "0 \<le> cost_of I lambda p"
proof -
  obtain ev c where ev: "evaluation p = Some ev" "generalized_cost ev I lambda = Inr c" "evaluated I (visits (plan_route p)) ev"
    by (rule fit_cost [OF p l])
  then have "plan_cost I lambda p = Inr c" by (simp add: plan_cost_def deref_def)
  moreover have "0 \<le> c"
    using ev(2,3) l(2) vehicle_pos(2) [OF I] path_travel_nonneg [OF I]
    by (auto simp: generalized_cost_def evaluated_def summary_consistent_def Let_def split: if_splits)
  ultimately show "plan_cost I lambda p = Inr (cost_of I lambda p)" "0 \<le> cost_of I lambda p" by (simp_all add: cost_of_def)
qed

lemma filter_single: "filter (\<lambda>j. j = k) [0..<n] = (if k < n then [k] else [])"
  by (induction n) auto

lemma changed_gaps_replaced:
  assumes "gaps q = (gaps p)[k := st]" and "k < length (gaps p)" and "st \<noteq> gaps p ! k"
  shows "changed_gaps p q = [k]"
proof -
  have "changed_gaps p q = filter (\<lambda>j. j = k) [0..<length (gaps p)]"
    unfolding changed_gaps_def using assms by (intro filter_cong refl) (auto simp: nth_list_update)
  then show ?thesis using assms(2) by (simp add: filter_single)
qed

section \<open>The improvement loop\<close>

text \<open>
  No replacement of an eligible gap by a path of the catalogue improves the plan by more than the
  tolerance, by the evaluator of labels or by the one of routes.
\<close>

definition locally_optimal :: "path_sampler \<Rightarrow> real \<Rightarrow> nat list \<Rightarrow> plan \<Rightarrow> bool" where
  "locally_optimal ps lambda eligible p \<longleftrightarrow>
     (\<forall>k \<in> set eligible. \<forall>st \<in> set (gap_options ps p k). st \<noteq> gaps p ! k \<longrightarrow>
        cost_of (ps_inst ps) lambda p - kCostTolerance \<le>
          max (route_cost (ps_inst ps) lambda (replaced p k st)) (full_cost (ps_inst ps) lambda (replaced p k st)))"

definition improved_plan :: "inst \<Rightarrow> bool \<Rightarrow> real \<Rightarrow> nat list \<Rightarrow> plan \<Rightarrow> plan \<Rightarrow> bool" where
  "improved_plan I revisits lambda eligible p q \<longleftrightarrow> plan_fit I revisits q \<and> \<not> exact_charging q \<and>
     plan_customers q = plan_customers p \<and> (\<forall>k < length (gaps p). k \<notin> set eligible \<longrightarrow> gaps q ! k = gaps p ! k) \<and>
     (q = p \<or> cost_of I lambda q < cost_of I lambda p - kCostTolerance)"

lemma improved_plan_trans:
  assumes "improved_plan I revisits lambda eligible p q" and "improved_plan I revisits lambda eligible q r"
    and "length (gaps p) = length (gaps q)"
  shows "improved_plan I revisits lambda eligible p r"
proof -
  have "cost_of I lambda r < cost_of I lambda p - kCostTolerance"
    if "cost_of I lambda r < cost_of I lambda q - kCostTolerance" "cost_of I lambda q < cost_of I lambda p - kCostTolerance"
    using that tolerance_pos(3) by linarith
  then show ?thesis using assms by (auto simp: improved_plan_def)
qed

text \<open>The replacements that can still be tried.\<close>

definition choices :: "path_sampler \<Rightarrow> nat list \<Rightarrow> plan \<Rightarrow> (nat \<times> int list) set" where
  "choices ps eligible p = (SIGMA k : set eligible. set (gap_options ps p k))"

lemma choices_finite [simp]: "finite (choices ps eligible p)"
  by (simp add: choices_def)

definition loop_measure :: "path_sampler \<Rightarrow> real \<Rightarrow> nat list \<Rightarrow> ((plan \<times> (nat \<times> int list) list) \<times> (plan \<times> (nat \<times> int list) list)) set" where
  "loop_measure ps lambda eligible =
     measures [\<lambda>(p, ex). nat \<lfloor>cost_of (ps_inst ps) lambda p / kCostTolerance\<rfloor>, \<lambda>(p, ex). card (choices ps eligible p - set ex)]"

lemma loop_measure_wf: "wf (loop_measure ps lambda eligible)"
  by (simp add: loop_measure_def)

lemma cost_drops:
  assumes "b < a - kCostTolerance" and "0 \<le> b"
  shows "nat \<lfloor>b / kCostTolerance\<rfloor> < nat \<lfloor>a / kCostTolerance\<rfloor>"
proof -
  have "b / kCostTolerance + 1 \<le> a / kCostTolerance"
    using assms(1) tolerance_pos(3) by (simp add: pos_le_divide_eq distrib_right del: tolerance_pos(3,6))
  then have "\<lfloor>b / kCostTolerance\<rfloor> + 1 \<le> \<lfloor>a / kCostTolerance\<rfloor>" by (metis floor_mono floor_add_int of_int_1)
  moreover have "0 \<le> \<lfloor>b / kCostTolerance\<rfloor>" using assms(2) tolerance_pos(3) by simp
  ultimately show ?thesis by linarith
qed

lemma improve_subset_ok:
  assumes ps: "sampler_ok ps" and l: "isfinite lambda" "0 \<le> lambda" and f: "factory_ok (ps_inst ps) f0" "allow_revisits f0 = R"
    and "plan_fit (ps_inst ps) R p" and "\<not> exact_charging p"
    and "\<forall>k \<in> set eligible. k < length (gaps p)"
    and "\<forall>(k, st) \<in> set excluded. cost_of (ps_inst ps) lambda p - kCostTolerance \<le> full_cost (ps_inst ps) lambda (replaced p k st)"
  shows "\<exists>q. builds (ps_inst ps) R (improve_subset ps lambda eligible excluded p) q \<and>
    improved_plan (ps_inst ps) R lambda eligible p q \<and> locally_optimal ps lambda eligible q"
  using assms(6-)
proof (induction "(p, excluded)" arbitrary: p excluded rule: wf_induct_rule [OF loop_measure_wf [of ps lambda eligible]])
  case (1 p excluded)
  let ?I = "ps_inst ps" and ?c = "cost_of (ps_inst ps) lambda p"
  note I = sampler_okD(1) [OF ps] and IH = 1(1) and p = 1(2) and ex = 1(3) and el = 1(4) and tried = 1(5)
  note cost = plan_cost_fit [OF I p l]
  obtain res where b: "builds ?I R (best_replacement_in_gaps ps p lambda eligible excluded) res"
      "case res of None \<Rightarrow> all_improving ps lambda ?c p eligible excluded = []
       | Some q \<Rightarrow> \<exists>r. preferred p (all_improving ps lambda ?c p eligible excluded) r \<and> q = replaced_plan ?I p r"
    using best_replacement_ok [OF ps p l el cost(1) ex, of excluded] by blast
  show ?case
  proof (cases res)
    case None
    then have "builds ?I R (improve_subset ps lambda eligible excluded p) p"
      using b(1) by (intro buildsI) (auto simp: improve_subset.simps ret_def builds_def)
    moreover have "locally_optimal ps lambda eligible p"
      unfolding locally_optimal_def
    proof (intro ballI impI)
      fix k st assume k: "k \<in> set eligible" "st \<in> set (gap_options ps p k)" "st \<noteq> gaps p ! k"
      have "improving ps lambda ?c p excluded k = []" using b(2) None k(1) by (simp add: all_improving_def)
      then have "\<not> (st \<noteq> gaps p ! k \<and> (k, st) \<notin> set excluded \<and> route_cost ?I lambda (replaced p k st) < ?c - kCostTolerance)"
        using k(2) by (simp add: improving_def filter_empty_conv)
      then show "?c - kCostTolerance \<le> max (route_cost ?I lambda (replaced p k st)) (full_cost ?I lambda (replaced p k st))"
        using k(3) tried by (auto simp: le_max_iff_disj)
    qed
    ultimately show ?thesis using p ex by (auto simp: improved_plan_def)
  next
    case (Some q)
    then obtain r where r: "preferred p (all_improving ps lambda ?c p eligible excluded) r" and qr: "q = replaced_plan ?I p r"
      using b(2) by auto
    have q: "plan_fit ?I R q" "plan_cost ?I lambda q = Inr (full_cost ?I lambda (replaced_by p r))"
      using replaced_plan_fit [OF ps f(1) _ l el preferred_mem [OF r]] p f(2) qr by auto
    have shape: "\<not> exact_charging q" "plan_customers q = plan_customers p" "gaps q = (gaps p)[rep_gap r := rep_stations r]"
      using qr by (simp_all add: replaced_plan_def)
    note rg = improving_gap [OF preferred_mem [OF r]]
    have k: "rep_gap r < length (gaps p)" using rg el by auto
    have cq: "cost_of ?I lambda q = full_cost ?I lambda (replaced_by p r)" using q(2) by (simp add: cost_of_def)
    have head: "builds ?I R (improve_subset ps lambda eligible excluded p) x"
      if m: "builds ?I R (if cost_of ?I lambda q < ?c - kCostTolerance then improve_subset ps lambda eligible [] q
         else improve_subset ps lambda eligible (excluded @ [(rep_gap r, rep_stations r)]) p) x" for x
    proof (rule buildsI)
      fix f assume f: "factory_ok ?I f" "allow_revisits f = R"
      obtain f1 where f1: "best_replacement_in_gaps ps p lambda eligible excluded f = ret (Some q, f1)"
        "factory_ok ?I f1" "allow_revisits f1 = R" using buildsE [OF b(1) f] Some by auto
      have "improve_subset ps lambda eligible excluded p f =
        (if cost_of ?I lambda q < ?c - kCostTolerance then improve_subset ps lambda eligible [] q f1
         else improve_subset ps lambda eligible (excluded @ [(rep_gap r, rep_stations r)]) p f1)"
        using f1(1) cost(1) q(2) cq changed_gaps_replaced [OF shape(3) k] rg shape(3) k
        by (subst improve_subset.simps) (simp add: ret_def)
      moreover obtain f' where "(if cost_of ?I lambda q < ?c - kCostTolerance then improve_subset ps lambda eligible [] q
         else improve_subset ps lambda eligible (excluded @ [(rep_gap r, rep_stations r)]) p) f1 = ret (x, f')"
        "factory_ok ?I f'" "allow_revisits f' = R" by (rule buildsE [OF m f1(2,3)])
      ultimately show "\<exists>f'. improve_subset ps lambda eligible excluded p f = ret (x, f') \<and> factory_ok ?I f' \<and> allow_revisits f' = R"
        by (intro exI [of _ f']) (simp split: if_splits)
    qed
    show ?thesis
    proof (cases "cost_of ?I lambda q < ?c - kCostTolerance")
      case True
      have "((q, []), (p, excluded)) \<in> loop_measure ps lambda eligible"
        using cost_drops [OF True] plan_cost_fit(2) [OF I q(1) l] by (simp add: loop_measure_def)
      then obtain s where s: "builds ?I R (improve_subset ps lambda eligible [] q) s"
          "improved_plan ?I R lambda eligible q s" "locally_optimal ps lambda eligible s"
        using IH [of q "[]"] q(1) shape el by auto
      have "improved_plan ?I R lambda eligible p q"
        using q(1) shape True rg by (auto simp: improved_plan_def intro!: nth_list_update_neq)
      then show ?thesis using improved_plan_trans [OF _ s(2)] s shape(3) head True by auto
    next
      case False
      let ?ex = "excluded @ [(rep_gap r, rep_stations r)]"
      have "(rep_gap r, rep_stations r) \<in> choices ps eligible p - set excluded" using rg by (auto simp: choices_def)
      then have "choices ps eligible p - set ?ex \<subset> choices ps eligible p - set excluded" by auto
      then have "card (choices ps eligible p - set ?ex) < card (choices ps eligible p - set excluded)"
        by (intro psubset_card_mono) auto
      then have "((p, ?ex), (p, excluded)) \<in> loop_measure ps lambda eligible" by (simp add: loop_measure_def)
      then show ?thesis
        using IH [of p ?ex] p ex el tried False cq head by (auto simp: replaced_by_def)
    qed
  qed
qed

section \<open>Repair\<close>

lemma improve_path_subset_ok:
  assumes ps: "sampler_ok ps" and l: "isfinite lambda" "0 \<le> lambda" and f: "factory_ok (ps_inst ps) f0" "allow_revisits f0 = R"
    and p: "plan_fit (ps_inst ps) R p" "\<not> exact_charging p" and el: "\<forall>k \<in> set eligible. k < length (gaps p)"
  shows "\<exists>q. builds (ps_inst ps) R (improve_path_subset ps p lambda eligible) q \<and>
    improved_plan (ps_inst ps) R lambda eligible p q \<and> locally_optimal ps lambda eligible q"
proof (cases "eligible = []")
  case True
  then show ?thesis using p builds_ret [of "ps_inst ps" R p]
    by (intro exI [of _ p]) (simp add: improve_path_subset_def improved_plan_def locally_optimal_def builds_def)
next
  case False
  then have "improve_path_subset ps p lambda eligible = improve_subset ps lambda eligible [] p"
    by (simp add: improve_path_subset_def fun_eq_iff)
  then show ?thesis using improve_subset_ok [OF ps l f p el, of "[]"] by simp
qed

definition introduced_gaps :: "inst \<Rightarrow> plan \<Rightarrow> gap_map \<Rightarrow> nat list" where
  "introduced_gaps I p inherited =
     filter (introduced_gap inherited (anchors_of I (plan_customers p))) [0..<length (gaps p)]"

lemma introduced_gaps_lt: "\<forall>k \<in> set (introduced_gaps I p inherited). k < length (gaps p)"
  by (simp add: introduced_gaps_def)

lemma repair_new_gaps_ok:
  assumes ps: "sampler_ok ps" and l: "isfinite lambda" "0 \<le> lambda" and f: "factory_ok (ps_inst ps) f0" "allow_revisits f0 = R"
    and p: "plan_fit (ps_inst ps) R p" "\<not> exact_charging p"
  shows "\<exists>q. builds (ps_inst ps) R (repair_new_gaps ps p inherited lambda single_step) q \<and>
    improved_plan (ps_inst ps) R lambda (introduced_gaps (ps_inst ps) p inherited) p q \<and>
    (\<not> single_step \<longrightarrow> locally_optimal ps lambda (introduced_gaps (ps_inst ps) p inherited) q)"
proof -
  let ?I = "ps_inst ps" and ?new = "introduced_gaps (ps_inst ps) p inherited"
  note I = sampler_okD(1) [OF ps]
  have cs: "set (plan_customers p) \<subseteq> set (customer_ids ?I)" using plan_fitD(1) [OF p(1)] by (simp add: customers_ok_def)
  note anchors = plan_anchors_eq [OF I, of "plan_customers p"]
  have refl: "improved_plan ?I R lambda ?new p p" using p by (simp add: improved_plan_def)
  show ?thesis
  proof (cases "single_step \<and> ?new \<noteq> []")
    case False
    have "builds ?I R (repair_new_gaps ps p inherited lambda single_step) p" if "single_step" "?new = []"
      using that p(2) anchors by (auto simp: builds_def repair_new_gaps_def introduced_gaps_def Let_def)
    moreover have "repair_new_gaps ps p inherited lambda single_step = improve_path_subset ps p lambda ?new" if "\<not> single_step"
      using that p(2) anchors by (simp add: repair_new_gaps_def introduced_gaps_def Let_def fun_eq_iff)
    ultimately show ?thesis
      using improve_path_subset_ok [OF ps l f p introduced_gaps_lt [of ?I p inherited]] refl False by (cases single_step) auto
  next
    case True
    note cost = plan_cost_fit [OF I p(1) l]
    obtain res where b: "builds ?I R (best_replacement_in_gaps ps p lambda ?new []) res"
      "case res of None \<Rightarrow> all_improving ps lambda (cost_of ?I lambda p) p ?new [] = []
       | Some q \<Rightarrow> \<exists>r. preferred p (all_improving ps lambda (cost_of ?I lambda p) p ?new []) r \<and> q = replaced_plan ?I p r"
      using best_replacement_ok [OF ps p(1) l introduced_gaps_lt [of ?I p inherited] cost(1) p(2), of "[]"] by blast
    define q where "q = (case res of None \<Rightarrow> p | Some q \<Rightarrow> if cost_of ?I lambda q < cost_of ?I lambda p - kCostTolerance then q else p)"
    have fit: "plan_cost ?I lambda r = Inr (cost_of ?I lambda r)" "improved_plan ?I R lambda ?new p q" if res: "res = Some r" for r
    proof -
      obtain x where x: "preferred p (all_improving ps lambda (cost_of ?I lambda p) p ?new []) x" "r = replaced_plan ?I p x"
        using b(2) res by auto
      note fit = replaced_plan_fit [OF ps f(1) _ l introduced_gaps_lt [of ?I p inherited] preferred_mem [OF x(1)]]
      show "plan_cost ?I lambda r = Inr (cost_of ?I lambda r)" using fit p(1) f(2) x(2) by (simp add: cost_of_def)
      have "rep_gap x \<in> set ?new" using improving_gap [OF preferred_mem [OF x(1)]] by simp
      then show "improved_plan ?I R lambda ?new p q"
        using fit(1) p f(2) x(2) res refl
        by (auto simp: q_def improved_plan_def replaced_plan_def intro!: nth_list_update_neq)
    qed
    have step: "repair_new_gaps ps p inherited lambda single_step f =
        ebind (best_replacement_in_gaps ps p lambda ?new [] f) (\<lambda>(proposed, f').
                         case proposed of None \<Rightarrow> ret (p, f')
                         | Some q \<Rightarrow>
                             ebind (lifted (plan_cost (ps_inst ps) lambda q)) (\<lambda>cq.
                             ebind (lifted (plan_cost (ps_inst ps) lambda p)) (\<lambda>cp.
                             ret (if cq < cp - kCostTolerance then q else p, f'))))" for f
      using True p(2) anchors by (simp add: repair_new_gaps_def introduced_gaps_def Let_def)
    have "builds ?I R (repair_new_gaps ps p inherited lambda single_step) q"
      unfolding step by (rule builds_bind [OF b(1)]) (use fit(1) cost(1) in \<open>auto simp: q_def builds_def split: option.split\<close>)
    then show ?thesis using fit(2) refl True by (cases res) (auto simp: q_def)
  qed
qed

definition affected_gaps :: "inst \<Rightarrow> plan \<Rightarrow> gap_map \<Rightarrow> nat list" where
  "affected_gaps I p inherited =
     (let introduced = introduced_gap inherited (anchors_of I (plan_customers p))
      in filter (\<lambda>k. introduced k \<or> gaps p ! k \<noteq> [] \<or> k + 1 < length (gaps p) \<and> introduced (k + 1) \<or>
           k > 0 \<and> introduced (k - 1)) [0..<length (gaps p)])"

lemma repair_affected_paths_ok:
  assumes ps: "sampler_ok ps" and l: "isfinite lambda" "0 \<le> lambda" and f: "factory_ok (ps_inst ps) f0" "allow_revisits f0 = R"
    and p: "plan_fit (ps_inst ps) R p" "\<not> exact_charging p"
  shows "\<exists>q. builds (ps_inst ps) R (repair_affected_paths ps p inherited lambda) q \<and>
    improved_plan (ps_inst ps) R lambda (affected_gaps (ps_inst ps) p inherited) p q \<and>
    locally_optimal ps lambda (affected_gaps (ps_inst ps) p inherited) q"
proof -
  have "repair_affected_paths ps p inherited lambda = improve_path_subset ps p lambda (affected_gaps (ps_inst ps) p inherited)"
    using p(2) plan_anchors_eq [OF sampler_okD(1) [OF ps], of "plan_customers p"]
    by (simp add: repair_affected_paths_def affected_gaps_def Let_def fun_eq_iff)
  moreover have "\<forall>k \<in> set (affected_gaps (ps_inst ps) p inherited). k < length (gaps p)"
    by (simp add: affected_gaps_def Let_def)
  ultimately show ?thesis using improve_path_subset_ok [OF ps l f p] by simp
qed

end
