(* ===== verification/Insertion_Sound.thy ===== *)
theory Insertion_Sound
  imports Insertion_Eval Insertion_Regret Path_Repair
begin

text \<open>
  The completion of an insertion always returns, its cost is that of a plan of the extended
  customer sequence, and the lower bound of the move is below it.
\<close>

section \<open>Routes with more stations\<close>

lemma interleave_subseq:
  "length gs = length cs + 1 \<Longrightarrow> list_all2 subseq gs hs \<Longrightarrow> subseq (interleave gs cs) (interleave hs cs)"
proof (induction gs cs arbitrary: hs rule: interleave.induct)
  case (1 g gs c cs)
  then obtain h hs' where "hs = h # hs'" "subseq g h" "list_all2 subseq gs hs'" by (auto simp: list_all2_Cons1)
  then show ?case using 1 by (auto intro!: list_emb_append_mono)
qed (auto simp: list_all2_Cons1)

text \<open>The completion of a plan by paths in gaps that were empty.\<close>

lemma filled_subseq:
  assumes "length gs = length cs + 1" and "length hs = length gs"
    and "\<And>k. k < length gs \<Longrightarrow> gs ! k = [] \<or> hs ! k = gs ! k"
  shows "subseq (interleave gs cs) (interleave hs cs)"
proof (rule interleave_subseq [OF assms(1)], unfold list_all2_conv_all_nth, intro conjI allI impI)
  show "subseq (gs ! k) (hs ! k)" if "k < length gs" for k using assms(3) [OF that] by auto
qed (use assms(2) in simp)

lemma inherited_gaps_ok:
  assumes "\<forall>(k, path) \<in> set m. gap_ok I R path" and "cs \<noteq> []"
  shows "\<forall>g \<in> set (inherited_gaps d cs m). gap_ok I R g"
proof
  fix g assume "g \<in> set (inherited_gaps d cs m)"
  then obtain k where k: "k \<le> length cs" "g = inherited_gaps d cs m ! k"
    using inherited_gaps_nth(2) [of 0 cs d m] by (auto simp: in_set_conv_nth less_Suc_eq_le)
  show "gap_ok I R g"
  proof (cases "map_of m ((d # cs) ! k, (cs @ [d]) ! k)")
    case None
    then show ?thesis using k inherited_gaps_nth(1) [OF k(1), of d m] by (simp add: gap_ok_def)
  next
    case (Some path)
    then show ?thesis using k inherited_gaps_nth(1) [OF k(1), of d m] assms(1) map_of_SomeD [OF Some] by auto
  qed
qed

lemma anchors_of_nth:
  assumes "k \<le> length cs"
  shows "anchors_of I cs ! k = (depot_id I # cs) ! k" and "anchors_of I cs ! (k + 1) = (cs @ [depot_id I]) ! k"
  using assms by (auto simp: anchors_of_def nth_append nth_Cons' less_Suc_eq_le)

text \<open>An introduced gap starts direct.\<close>

lemma introduced_gap_empty:
  assumes "k \<le> length cs" and "introduced_gap m (anchors_of I cs) k"
  shows "inherited_gaps (depot_id I) cs m ! k = []"
  using assms inherited_gaps_nth(1) [OF assms(1), of "depot_id I" m] anchors_of_nth [OF assms(1), of I]
  by (simp add: introduced_gap_def)

section \<open>The completion of a customer sequence\<close>

definition completed_from :: "path_sampler \<Rightarrow> gap_map \<Rightarrow> real \<Rightarrow> bool \<Rightarrow> int list \<Rightarrow> insertion_completion \<Rightarrow> bool" where
  "completed_from ps inherited lambda R cs out \<longleftrightarrow>
     plan_fit (ps_inst ps) R (completed_plan out) \<and> \<not> exact_charging (completed_plan out) \<and>
     plan_customers (completed_plan out) = cs \<and>
     absolute_cost out = cost_of (ps_inst ps) lambda (completed_plan out) \<and>
     absolute_cost out \<le> full_cost (ps_inst ps) lambda (inherited_visits (ps_inst ps) inherited cs) \<and>
     subseq (inherited_visits (ps_inst ps) inherited cs) (visits (plan_route (completed_plan out)))"

lemma complete_sequence_ok:
  assumes ps: "sampler_ok ps" and l: "isfinite lambda" "0 \<le> lambda" and f: "factory_ok (ps_inst ps) f0" "allow_revisits f0 = R"
    and cs: "customers_ok (ps_inst ps) cs" and m: "\<forall>(k, path) \<in> set inherited. gap_ok (ps_inst ps) R path"
  shows "\<exists>out. builds (ps_inst ps) R (complete_sequence ps inherited lambda single_step cs) out \<and>
    completed_from ps inherited lambda R cs out"
proof -
  let ?I = "ps_inst ps" and ?gs = "inherited_gaps (depot_id (ps_inst ps)) cs inherited"
  let ?p = "fit_plan ?I cs ?gs"
  note I = sampler_okD(1,2) [OF ps]
  have ne: "cs \<noteq> []" using cs by (simp add: customers_ok_def)
  have len: "length ?gs = length cs + 1" using inherited_gaps_nth(2) [of 0 cs "depot_id ?I" inherited] by simp
  have gs: "\<forall>g \<in> set ?gs. gap_ok ?I R g" by (rule inherited_gaps_ok [OF m ne])
  have p: "plan_fit ?I R ?p" using fit_plan_fit(1) [OF I f(1) cs len] gs f(2) by simp
  have direct: "builds ?I R (\<lambda>f. built (plan_sequence_with ?I f cs inherited)) ?p"
    by (rule plan_sequence_builds [OF I cs gs])
  let ?ev = "projr (route_result ?I (interleave ?gs cs))"
  have ev: "evaluation ?p = Some ?ev" by (simp add: fit_plan_def)
  let ?easy = "feasible ?ev \<and> charging_time_h ?ev \<le> kTimeToleranceH"
  obtain q0 where q0: "builds ?I R (repair_new_gaps ps ?p inherited lambda single_step) q0"
    "improved_plan ?I R lambda (introduced_gaps ?I ?p inherited) ?p q0"
    using repair_new_gaps_ok [OF ps l f p] by auto
  define q where "q = (if ?easy then ?p else q0)"
  have mid: "builds ?I R (if ?easy then (\<lambda>f. ret (?p, f)) else repair_new_gaps ps ?p inherited lambda single_step) q"
    using q0(1) builds_ret [of ?I R ?p] by (simp add: q_def)
  have q: "improved_plan ?I R lambda (introduced_gaps ?I ?p inherited) ?p q"
    using q0(2) p by (auto simp: q_def improved_plan_def)
  then have qf: "plan_fit ?I R q" "\<not> exact_charging q" "plan_customers q = cs"
    "\<And>k. k < length ?gs \<Longrightarrow> k \<notin> set (introduced_gaps ?I ?p inherited) \<Longrightarrow> gaps q ! k = ?gs ! k"
    "q = ?p \<or> cost_of ?I lambda q < cost_of ?I lambda ?p - kCostTolerance" by (auto simp: improved_plan_def)
  obtain qev c where qev: "evaluation q = Some qev" "generalized_cost qev ?I lambda = Inr c"
    by (rule fit_cost [OF qf(1) l])
  let ?out = "\<lparr>completed_plan = q, absolute_cost = c, completion_changed = (gaps q \<noteq> ?gs),
           completion_repairs = (\<not> feasible ?ev \<and> feasible qev)\<rparr>"
  have cost: "cost_of ?I lambda q = c" using qev by (simp add: cost_of_def plan_cost_def deref_def)
  have pcost: "cost_of ?I lambda ?p = full_cost ?I lambda (inherited_visits ?I inherited cs)"
    using ev by (simp add: cost_of_def plan_cost_def full_cost_def deref_def inherited_visits_def)
  have "builds ?I R (\<lambda>f. ebind (built (plan_sequence_with ?I f cs inherited)) (\<lambda>(direct, f).
     ebind (lifted (deref (evaluation direct))) (\<lambda>ev.
     ebind (if feasible ev \<and> charging_time_h ev \<le> kTimeToleranceH then ret (direct, f)
            else repair_new_gaps ps direct inherited lambda single_step f) (\<lambda>(completed, f).
     ebind (lifted (deref (evaluation completed))) (\<lambda>completed_ev.
     ebind (lifted (generalized_cost completed_ev ?I lambda)) (\<lambda>cost.
     ret (\<lparr>completed_plan = completed, absolute_cost = cost,
           completion_changed = (gaps completed \<noteq> gaps direct),
           completion_repairs = (\<not> feasible ev \<and> feasible completed_ev)\<rparr>, f)))))) ) ?out"
  proof (rule builds_bind [OF direct])
    have "builds ?I R (\<lambda>f. ebind ((if ?easy then (\<lambda>f. ret (?p, f)) else repair_new_gaps ps ?p inherited lambda single_step) f)
       (\<lambda>(completed, f). ebind (lifted (deref (evaluation completed))) (\<lambda>completed_ev.
        ebind (lifted (generalized_cost completed_ev ?I lambda)) (\<lambda>cost.
        ret (\<lparr>completed_plan = completed, absolute_cost = cost,
           completion_changed = (gaps completed \<noteq> gaps ?p),
           completion_repairs = (\<not> feasible ?ev \<and> feasible completed_ev)\<rparr>, f))))) ?out"
      by (rule builds_bind [OF mid]) (use qev in \<open>simp add: deref_def builds_def\<close>)
    then show "builds ?I R (\<lambda>f'. ebind (lifted (deref (evaluation ?p))) (\<lambda>ev.
     ebind (if feasible ev \<and> charging_time_h ev \<le> kTimeToleranceH then ret (?p, f')
            else repair_new_gaps ps ?p inherited lambda single_step f') (\<lambda>(completed, f).
     ebind (lifted (deref (evaluation completed))) (\<lambda>completed_ev.
     ebind (lifted (generalized_cost completed_ev ?I lambda)) (\<lambda>cost.
     ret (\<lparr>completed_plan = completed, absolute_cost = cost,
           completion_changed = (gaps completed \<noteq> gaps ?p),
           completion_repairs = (\<not> feasible ev \<and> feasible completed_ev)\<rparr>, f)))))) ?out"
      by (rule builds_cong [rotated]) (simp add: ev deref_def)
  qed
  then have b: "builds ?I R (complete_sequence ps inherited lambda single_step cs) ?out"
    by (simp add: complete_sequence_def [abs_def])
  have "subseq (interleave ?gs cs) (interleave (gaps q) cs)"
  proof (rule filled_subseq [OF len])
    show "length (gaps q) = length ?gs" using plan_fitD(2) [OF qf(1)] qf(3) len by simp
    fix k assume k: "k < length ?gs"
    then show "?gs ! k = [] \<or> gaps q ! k = ?gs ! k"
      using qf(4) [OF k] introduced_gap_empty [of k cs inherited ?I] len by (auto simp: introduced_gaps_def simp del: upt_Suc)
  qed
  moreover have "visits (plan_route q) = interleave (gaps q) cs" using plan_fitD(4) [OF qf(1)] qf(3) by simp
  moreover have "cost_of ?I lambda q \<le> cost_of ?I lambda ?p" using qf(5) tolerance_pos(6) by (elim disjE) (simp, linarith)
  ultimately show ?thesis
    using b qf cost pcost by (intro exI [of _ ?out]) (auto simp: completed_from_def inherited_visits_def)
qed

end
