(* ===== verification/Insertion_Memo.thy ===== *)
theory Insertion_Memo
  imports Insertion_Sound
begin

text \<open>
  The memo of completed insertions is keyed by the physical route, the customer and the
  position, and is kept while the solution grows.  The completion depends on nothing else: the
  gaps next to an unassigned customer are always introduced, all others are the ones of the route.
\<close>

section \<open>Routes determine their gaps\<close>

fun split_gaps :: "inst \<Rightarrow> int list \<Rightarrow> int list \<Rightarrow> int list list" where
  "split_gaps I g [] = [g]"
| "split_gaps I g (v # vs) = (if is_customer I v then g # split_gaps I [] vs else split_gaps I (g @ [v]) vs)"

lemma split_gaps_stations:
  "\<forall>s \<in> set g. \<not> is_customer I s \<Longrightarrow> split_gaps I h (g @ vs) = split_gaps I (h @ g) vs"
  by (induction g arbitrary: h) simp_all

lemma split_interleave:
  "length gs = length cs + 1 \<Longrightarrow> \<forall>g \<in> set gs. \<forall>s \<in> set g. \<not> is_customer I s \<Longrightarrow> \<forall>c \<in> set cs. is_customer I c \<Longrightarrow>
    split_gaps I [] (interleave gs cs) = gs"
proof (induction gs cs rule: interleave.induct)
  case (2 g cs)
  then show ?case using split_gaps_stations [of g I "[]" "[]"] by simp
qed (simp_all add: split_gaps_stations)

lemma fit_parts:
  assumes I: "inst_ok I" and p: "plan_fit I R p"
  shows "filter (is_customer I) (visits (plan_route p)) = plan_customers p"
    and "split_gaps I [] (visits (plan_route p)) = gaps p"
proof -
  note gs = plan_fitD(2,3) [OF p]
  show cs: "filter (is_customer I) (visits (plan_route p)) = plan_customers p"
    using fit_physical(2) [OF I plan_fitD(1) [OF p] gs(1), of R] gs(2) plan_fitD(4) [OF p] by simp
  have "\<forall>c \<in> set (plan_customers p). is_customer I c"
    using arg_cong [OF cs, of set] by auto
  moreover have "\<forall>g \<in> set (gaps p). \<forall>s \<in> set g. \<not> is_customer I s"
    using gs(2) by (auto simp: gap_ok_def known_station_def is_customer_def)
  ultimately show "split_gaps I [] (visits (plan_route p)) = gaps p"
    using split_interleave [OF gs(1)] plan_fitD(4) [OF p] by simp
qed

section \<open>The gap map of a solution\<close>

definition solution_fit :: "inst \<Rightarrow> bool \<Rightarrow> solution \<Rightarrow> bool" where
  "solution_fit I R s \<longleftrightarrow> (\<forall>p \<in> set (plans s). plan_fit I R p) \<and> distinct (concat (map plan_customers (plans s)))"

lemma solution_fitD:
  assumes "solution_fit I R s" and "p \<in> set (plans s)"
  shows "plan_fit I R p" "distinct (concat (map plan_customers (plans s)))" "customers_ok I (plan_customers p)"
    "length (gaps p) = length (plan_customers p) + 1"
  using assms plan_fitD(1,2) by (auto simp: solution_fit_def)

text \<open>The pair of nodes a plan drives between at its gap \<open>g\<close>.\<close>

definition gap_pair :: "inst \<Rightarrow> int list \<Rightarrow> nat \<Rightarrow> int \<times> int" where
  "gap_pair I cs g = ((depot_id I # cs) ! g, (cs @ [depot_id I]) ! g)"

lemma depot_no_customer: "inst_ok I \<Longrightarrow> depot_id I \<notin> set (customer_ids I)"
  using anchors_distinct [of I] by (simp add: anchors_def)

lemma gap_pair_inj:
  assumes I: "inst_ok I" and s: "solution_fit I R s" and p: "p \<in> set (plans s)" "g \<le> length (plan_customers p)"
    and q: "q \<in> set (plans s)" "h \<le> length (plan_customers q)"
    and eq: "gap_pair I (plan_customers p) g = gap_pair I (plan_customers q) h"
  shows "p = q \<and> g = h"
proof -
  note fp = solution_fitD [OF s p(1)] and fq = solution_fitD [OF s q(1)]
  have nd: "depot_id I \<notin> set (plan_customers p)" "depot_id I \<notin> set (plan_customers q)"
    using depot_no_customer [OF I] fp(3) fq(3) by (auto simp: customers_ok_def)
  have dist: "distinct (plan_customers p)" using fp(3) by (simp add: customers_ok_def)
  have same: "p = q \<and> i = j" if "i < length (plan_customers p)" "j < length (plan_customers q)"
    "plan_customers p ! i = plan_customers q ! j" for i j
  proof -
    have "p = q" using that by (intro concat_owner [OF fp(2) p(1) q(1), of "plan_customers p ! i"]) (metis nth_mem)+
    then show ?thesis using that dist by (simp add: nth_eq_iff_index_eq)
  qed
  have depot: "plan_customers p ! i \<noteq> depot_id I" if "i < length (plan_customers p)" for i using nd(1) that nth_mem by metis
  have depot': "plan_customers q ! i \<noteq> depot_id I" if "i < length (plan_customers q)" for i using nd(2) that nth_mem by metis
  have ne: "plan_customers p \<noteq> []" "plan_customers q \<noteq> []" using fp(3) fq(3) by (auto simp: customers_ok_def)
  show ?thesis
  proof (cases g)
    case 0
    then have "h = 0" using eq depot' [of "h - 1"] q(2) by (cases h) (auto simp: gap_pair_def)
    then show ?thesis using 0 eq same [of 0 0] ne by (auto simp: gap_pair_def nth_append)
  next
    case (Suc i)
    then obtain j where "h = Suc j" using eq depot [of i] p(2) by (cases h) (auto simp: gap_pair_def)
    then show ?thesis using Suc eq same [of i j] p(2) q(2) by (auto simp: gap_pair_def)
  qed
qed

lemma gap_map_iff:
  assumes I: "inst_ok I" and s: "solution_fit I R s" and m: "gap_map_of I s = Inr m"
  shows "map_of m x = Some path \<longleftrightarrow>
    (\<exists>p \<in> set (plans s). \<exists>g \<le> length (plan_customers p). x = gap_pair I (plan_customers p) g \<and> path = gaps p ! g)"
proof -
  let ?d = "depot_id I" and ?all = "concat (map (plan_gap_list (depot_id I)) (plans s))"
  have len: "\<forall>p \<in> set (plans s). length (gaps p) = length (plan_customers p) + 1" using solution_fitD(4) [OF s] by blast
  have m: "map_of m x = map_of ?all x"
    using m depot_known [OF I] gap_map_lookup [OF len, of ?d "[]" x] by (simp add: gap_map_of_def)
  have entry: "(x, path) \<in> set ?all \<longleftrightarrow>
    (\<exists>p \<in> set (plans s). \<exists>g \<le> length (plan_customers p). x = gap_pair I (plan_customers p) g \<and> path = gaps p ! g)" for path
  proof
    assume "(x, path) \<in> set ?all"
    then obtain p where "p \<in> set (plans s)" "((fst x, snd x), path) \<in> set (plan_gap_list ?d p)" by auto
    then show "\<exists>p \<in> set (plans s). \<exists>g \<le> length (plan_customers p). x = gap_pair I (plan_customers p) g \<and> path = gaps p ! g"
      using plan_gap_entry [of "fst x" "snd x" path ?d p] by (auto simp: gap_pair_def prod_eq_iff)
  next
    assume "\<exists>p \<in> set (plans s). \<exists>g \<le> length (plan_customers p). x = gap_pair I (plan_customers p) g \<and> path = gaps p ! g"
    then obtain p g where p: "p \<in> set (plans s)" "g \<le> length (plan_customers p)" "x = gap_pair I (plan_customers p) g" "path = gaps p ! g"
      by blast
    then have "(x, path) \<in> set (plan_gap_list ?d p)"
      using len by (auto simp: plan_gap_list_def gap_pair_def set_zip intro!: exI [of _ g])
    then show "(x, path) \<in> set ?all" using p(1) by auto
  qed
  have unique: "path = path'" if "(x, path) \<in> set ?all" "(x, path') \<in> set ?all" for path path'
    using that gap_pair_inj [OF I s] unfolding entry by metis
  show ?thesis
  proof
    assume "map_of m x = Some path"
    then have "(x, path) \<in> set ?all" using m map_of_SomeD by metis
    then show "\<exists>p \<in> set (plans s). \<exists>g \<le> length (plan_customers p). x = gap_pair I (plan_customers p) g \<and> path = gaps p ! g"
      using entry by blast
  next
    assume "\<exists>p \<in> set (plans s). \<exists>g \<le> length (plan_customers p). x = gap_pair I (plan_customers p) g \<and> path = gaps p ! g"
    then have mem: "(x, path) \<in> set ?all" using entry by blast
    then obtain path' where "map_of ?all x = Some path'" using weak_map_of_SomeI by metis
    then show "map_of m x = Some path" using m unique [OF mem] map_of_SomeD by metis
  qed
qed

lemma gap_map_exists: "inst_ok I \<Longrightarrow> \<exists>m. gap_map_of I s = Inr m"
  using depot_known by (auto simp: gap_map_of_def)

lemma gap_map_paths_ok:
  assumes I: "inst_ok I" and s: "solution_fit I R s" and m: "gap_map_of I s = Inr m"
  shows "\<forall>(k, path) \<in> set m. gap_ok I R path"
proof (clarify)
  fix a b path assume e: "((a, b), path) \<in> set m"
  have "distinct (map fst m)" "set m \<subseteq> (\<Union>p \<in> set (plans s). set (plan_gap_list (depot_id I) p))"
    using gap_map_entries [of "plans s" "[]" "depot_id I"] solution_fitD(4) [OF s] m depot_known [OF I]
    by (auto simp: gap_map_of_def)
  then obtain p where p: "p \<in> set (plans s)" "((a, b), path) \<in> set (plan_gap_list (depot_id I) p)" using e by blast
  then have "path \<in> set (gaps p)" using plan_gap_entry [OF p(2)] by auto
  then show "gap_ok I R path" using plan_fitD(3) [OF solution_fitD(1) [OF s p(1)]] by simp
qed

section \<open>What a completion depends on\<close>

definition same_pairs :: "inst \<Rightarrow> int list \<Rightarrow> gap_map \<Rightarrow> gap_map \<Rightarrow> bool" where
  "same_pairs I cs m m' \<longleftrightarrow> (\<forall>g \<le> length cs. map_of m (gap_pair I cs g) = map_of m' (gap_pair I cs g))"

lemma same_inherited:
  assumes "same_pairs I cs m m'"
  shows "inherited_gaps (depot_id I) cs m = inherited_gaps (depot_id I) cs m'"
    and "k \<le> length cs \<Longrightarrow> introduced_gap m (anchors_of I cs) k = introduced_gap m' (anchors_of I cs) k"
proof -
  show "inherited_gaps (depot_id I) cs m = inherited_gaps (depot_id I) cs m'"
  proof (rule nth_equalityI)
    show "length (inherited_gaps (depot_id I) cs m) = length (inherited_gaps (depot_id I) cs m')"
      using inherited_gaps_nth(2) [of 0 cs] by simp
    fix k assume "k < length (inherited_gaps (depot_id I) cs m)"
    then have k: "k \<le> length cs" using inherited_gaps_nth(2) [of 0 cs] by (simp add: less_Suc_eq_le)
    then show "inherited_gaps (depot_id I) cs m ! k = inherited_gaps (depot_id I) cs m' ! k"
      using inherited_gaps_nth(1) [OF k, of "depot_id I"] assms by (simp add: same_pairs_def gap_pair_def)
  qed
  show "introduced_gap m (anchors_of I cs) k = introduced_gap m' (anchors_of I cs) k" if k: "k \<le> length cs"
    using assms k anchors_of_nth [OF k, of I] by (simp add: introduced_gap_def same_pairs_def gap_pair_def)
qed

lemma complete_sequence_same:
  assumes ps: "sampler_ok ps" and cs: "customers_ok (ps_inst ps) cs" and m: "\<forall>(k, path) \<in> set m. gap_ok (ps_inst ps) R path"
    and same: "same_pairs (ps_inst ps) cs m m'"
    and b: "builds (ps_inst ps) R (complete_sequence ps m lambda single_step cs) out"
  shows "builds (ps_inst ps) R (complete_sequence ps m' lambda single_step cs) out"
proof (rule builds_cong [OF _ b])
  let ?I = "ps_inst ps" and ?gs = "inherited_gaps (depot_id (ps_inst ps)) cs m"
  fix f assume f: "factory_ok ?I f" "allow_revisits f = R"
  note I = sampler_okD(1,2) [OF ps]
  have ne: "cs \<noteq> []" using cs by (simp add: customers_ok_def)
  have gs: "\<forall>g \<in> set ?gs. gap_ok ?I R g" by (rule inherited_gaps_ok [OF m ne])
  obtain f' where direct: "built (plan_sequence_with ?I f cs m) = ret (fit_plan ?I cs ?gs, f')"
    by (rule buildsE [OF plan_sequence_builds [OF I cs gs] f])
  have eq: "plan_sequence_with ?I f cs m' = plan_sequence_with ?I f cs m"
    using same_inherited(1) [OF same] depot_known [OF I(1)] by (simp add: plan_sequence_with_def)
  have len: "length ?gs = length cs + 1" using inherited_gaps_nth(2) [of 0 cs "depot_id ?I" m] by simp
  have fl: "filter (introduced_gap m (anchors_of ?I cs)) [0..<length ?gs] = filter (introduced_gap m' (anchors_of ?I cs)) [0..<length ?gs]"
  proof (intro filter_cong refl)
    fix k assume "k \<in> set [0..<length ?gs]"
    then show "introduced_gap m (anchors_of ?I cs) k = introduced_gap m' (anchors_of ?I cs) k"
      using len by (intro same_inherited(2) [OF same]) auto
  qed
  have repair: "repair_new_gaps ps (fit_plan ?I cs ?gs) m' lambda single_step = repair_new_gaps ps (fit_plan ?I cs ?gs) m lambda single_step"
    using plan_anchors_eq [OF I(1), of cs] fl by (simp add: repair_new_gaps_def fun_eq_iff Let_def)
  show "complete_sequence ps m' lambda single_step cs f = complete_sequence ps m lambda single_step cs f"
    unfolding complete_sequence_def eq direct ebind_simps prod.case repair by (rule refl)
qed

section \<open>Slots\<close>

text \<open>The new customer sequence of a slot, and the cost of the route it replaces.\<close>

definition slot_sequence :: "solution \<Rightarrow> int \<times> nat \<times> nat \<Rightarrow> int list" where
  "slot_sequence current sl =
     (case sl of (c, r, k) \<Rightarrow>
       if r = length (plans current) then [c]
       else take k (plan_customers (plans current ! r)) @ c # drop k (plan_customers (plans current ! r)))"

lemma insertion_sequence_slot: "insertion_sequence current m = slot_sequence current (move_slot m)"
  by (simp add: insertion_sequence_def slot_sequence_def move_slot_def Let_def)

definition route_before :: "inst \<Rightarrow> real \<Rightarrow> solution \<Rightarrow> nat \<Rightarrow> real" where
  "route_before I lambda current r = (if r = length (plans current) then 0 else cost_of I lambda (plans current ! r))"

definition slot_ok :: "inst \<Rightarrow> solution \<Rightarrow> int \<times> nat \<times> nat \<Rightarrow> bool" where
  "slot_ok I current sl \<longleftrightarrow>
     (case sl of (c, r, k) \<Rightarrow> c \<in> set (customer_ids I) \<and> c \<notin> set (concat (map plan_customers (plans current))) \<and>
       r \<le> length (plans current) \<and>
       (if r = length (plans current) then k = 0 else k \<le> length (plan_customers (plans current ! r))))"

lemma slot_sequence_ok:
  assumes s: "solution_fit I R current" and sl: "slot_ok I current sl"
  shows "customers_ok I (slot_sequence current sl)"
    and "set (slot_sequence current sl) =
      insert (fst sl) (if fst (snd sl) = length (plans current) then {} else set (plan_customers (plans current ! fst (snd sl))))"
proof -
  obtain c r k where sl': "sl = (c, r, k)" by (cases sl)
  have cs: "customers_ok I (plan_customers (plans current ! r))" "c \<notin> set (plan_customers (plans current ! r))" if "r \<noteq> length (plans current)"
  proof -
    have "plans current ! r \<in> set (plans current)" using sl sl' that by (auto simp: slot_ok_def)
    then show "customers_ok I (plan_customers (plans current ! r))" "c \<notin> set (plan_customers (plans current ! r))"
      using solution_fitD(3) [OF s] sl sl' by (auto simp: slot_ok_def)
  qed
  have e: "set (take k xs) \<union> set (drop k xs) = set xs" for xs :: "int list"
    by (metis append_take_drop_id set_append)
  show "set (slot_sequence current sl) =
      insert (fst sl) (if fst (snd sl) = length (plans current) then {} else set (plan_customers (plans current ! fst (snd sl))))"
    by (simp add: slot_sequence_def sl' e)
  have d: "distinct (take k xs @ c # drop k xs)" if "distinct xs" "c \<notin> set xs" for xs
    using that set_take_disj_set_drop_if_distinct [of xs k k] by (auto dest: in_set_takeD in_set_dropD)
  show "customers_ok I (slot_sequence current sl)"
    using cs d [of "plan_customers (plans current ! r)"] sl
    by (auto simp: customers_ok_def slot_sequence_def sl' slot_ok_def dest: in_set_takeD in_set_dropD)
qed

end
