(* ===== verification/Insertion_Linked.thy ===== *)
theory Insertion_Linked
  imports Insertion_Memo
begin

text \<open>
  The lazy choice over linked completions is exact: what the memo holds is what a fresh
  completion would return, the lower bounds hold, and so the interpretation of the choice
  contract yields the insertion of the least completed cost.
\<close>

section \<open>The setting of a choice\<close>

text \<open>
  The reference gaps are those of the current solution, or none when the initial solution is
  built with rebuilt station paths.
\<close>

definition linked_to :: "inst \<Rightarrow> bool \<Rightarrow> solution \<Rightarrow> gap_map \<Rightarrow> bool" where
  "linked_to I rebuild current inherited \<longleftrightarrow>
     (if rebuild then inherited = [] else gap_map_of I current = Inr inherited)"

definition linked_setting :: "path_sampler \<Rightarrow> bool \<Rightarrow> real \<Rightarrow> solution \<Rightarrow> gap_map \<Rightarrow> plan_factory \<Rightarrow> bool" where
  "linked_setting ps rebuild lambda current inherited f0 \<longleftrightarrow>
     sampler_ok ps \<and> isfinite lambda \<and> 0 \<le> lambda \<and> factory_ok (ps_inst ps) f0 \<and>
     solution_fit (ps_inst ps) (allow_revisits f0) current \<and> linked_to (ps_inst ps) rebuild current inherited"

lemma linked_settingD:
  assumes "linked_setting ps rebuild lambda current inherited f0"
  shows "sampler_ok ps" "isfinite lambda" "0 \<le> lambda" "factory_ok (ps_inst ps) f0"
    "solution_fit (ps_inst ps) (allow_revisits f0) current" "linked_to (ps_inst ps) rebuild current inherited"
    "\<forall>(k, path) \<in> set inherited. gap_ok (ps_inst ps) (allow_revisits f0) path" "inst_ok (ps_inst ps)" "curves_ok (ps_inst ps)"
  using assms gap_map_paths_ok [of "ps_inst ps" "allow_revisits f0" current inherited] sampler_okD(1,2) [of ps]
  by (auto simp: linked_setting_def linked_to_def split: if_splits)

text \<open>The completed cost of a slot, by a completion from the factory at the start of the choice.\<close>

definition completed_cost ::
  "path_sampler \<Rightarrow> gap_map \<Rightarrow> real \<Rightarrow> bool \<Rightarrow> solution \<Rightarrow> plan_factory \<Rightarrow> int \<times> nat \<times> nat \<Rightarrow> real" where
  "completed_cost ps inherited lambda single_step current f0 sl =
     absolute_cost (built_by (complete_sequence ps inherited lambda single_step (slot_sequence current sl)) f0) -
       route_before (ps_inst ps) lambda current (fst (snd sl))"

section \<open>The memo\<close>

definition key_sequence :: "inst \<Rightarrow> insertion_key \<Rightarrow> int list" where
  "key_sequence I key =
     (case key of (vs, c, k, opened) \<Rightarrow>
       let cs = filter (is_customer I) vs in take k cs @ c # drop k cs)"

definition key_gaps :: "inst \<Rightarrow> bool \<Rightarrow> insertion_key \<Rightarrow> gap_map" where
  "key_gaps I rebuild key =
     (case key of (vs, c, k, opened) \<Rightarrow>
       if rebuild \<or> opened then []
       else add_plan_gaps (depot_id I) [] (fit_plan I (filter (is_customer I) vs) (split_gaps I [] vs)))"

definition memo_value ::
  "path_sampler \<Rightarrow> bool \<Rightarrow> real \<Rightarrow> bool \<Rightarrow> plan_factory \<Rightarrow> insertion_key \<Rightarrow> insertion_completion result" where
  "memo_value ps rebuild lambda single_step f0 key =
     Inr (built_by (complete_sequence ps (key_gaps (ps_inst ps) rebuild key) lambda single_step
            (key_sequence (ps_inst ps) key)) f0)"

definition completer_ok ::
  "path_sampler \<Rightarrow> bool \<Rightarrow> real \<Rightarrow> bool \<Rightarrow> plan_factory \<Rightarrow> completer_state \<Rightarrow> bool" where
  "completer_ok ps rebuild lambda single_step f0 s \<longleftrightarrow>
     factory_ok (ps_inst ps) (cs_factory s) \<and> allow_revisits (cs_factory s) = allow_revisits f0 \<and>
     lru_ok (cs_memo s) \<and>
     memo_agrees (map_of (lru_items (cs_memo s))) (memo_value ps rebuild lambda single_step f0)"

lemma depot_pair: "g \<le> length cs \<Longrightarrow> a = fst (gap_pair I cs g) \<or> a = snd (gap_pair I cs g) \<Longrightarrow> a \<in> insert (depot_id I) (set cs)"
proof -
  assume g: "g \<le> length cs" and a: "a = fst (gap_pair I cs g) \<or> a = snd (gap_pair I cs g)"
  have "fst (gap_pair I cs g) \<in> set (depot_id I # cs)" unfolding gap_pair_def fst_conv using g by (intro nth_mem) simp
  moreover have "snd (gap_pair I cs g) \<in> set (cs @ [depot_id I])" unfolding gap_pair_def snd_conv using g by (intro nth_mem) simp
  ultimately show ?thesis using a by auto
qed

lemma pair_customer:
  assumes "cs \<noteq> []" and "g \<le> length cs"
  obtains c where "c \<in> set cs" and "c = fst (gap_pair I cs g) \<or> c = snd (gap_pair I cs g)"
proof (cases g)
  case 0
  then show thesis using that [of "cs ! 0"] assms(1) by (auto simp: gap_pair_def nth_append)
next
  case (Suc i)
  then show thesis using that [of "cs ! i"] assms(2) by (auto simp: gap_pair_def)
qed

text \<open>A key and the slot it stands for.\<close>

lemma completion_key_slot:
  assumes I: "inst_ok I" and s: "solution_fit I R current" and sl: "slot_ok I current (move_slot m)"
    and link: "linked_to I rebuild current inherited"
  shows "key_sequence I (completion_key current m) = slot_sequence current (move_slot m)"
    and "same_pairs I (slot_sequence current (move_slot m)) inherited (key_gaps I rebuild (completion_key current m))"
proof -
  let ?r = "move_route m" and ?n = "length (plans current)" and ?c = "move_customer m" and ?d = "depot_id I"
  let ?key = "completion_key current m" and ?cs = "slot_sequence current (move_slot m)"
  let ?p = "plans current ! move_route m"
  have fit: "?p \<in> set (plans current)" "plan_fit I R ?p" if "?r \<noteq> ?n"
    using sl that solution_fitD(1) [OF s, of ?p] by (auto simp: slot_ok_def move_slot_def)
  show "key_sequence I ?key = ?cs"
    using fit fit_parts(1) [OF I, of R ?p] by (auto simp: key_sequence_def completion_key_def slot_sequence_def move_slot_def Let_def)
  show "same_pairs I ?cs inherited (key_gaps I rebuild ?key)"
  proof (cases rebuild)
    case True
    then show ?thesis using link by (simp add: linked_to_def key_gaps_def same_pairs_def completion_key_def)
  next
    case False
    then have m: "gap_map_of I current = Inr inherited" using link by (simp add: linked_to_def)
    have free: "?c \<notin> set (concat (map plan_customers (plans current)))" and known: "?c \<in> set (customer_ids I)"
      using sl by (auto simp: slot_ok_def move_slot_def)
    have cs: "set ?cs = insert ?c (if ?r = ?n then {} else set (plan_customers ?p))"
      using slot_sequence_ok(2) [OF s sl] by (simp add: move_slot_def)
    have owner: "?r \<noteq> ?n \<and> q = ?p"
      if q: "q \<in> set (plans current)" "h \<le> length (plan_customers q)"
        and g: "g \<le> length ?cs" "gap_pair I ?cs g = gap_pair I (plan_customers q) h" for q g h
    proof -
      have "plan_customers q \<noteq> []" using solution_fitD(3) [OF s q(1)] by (simp add: customers_ok_def)
      then obtain x where x: "x \<in> set (plan_customers q)" "x = fst (gap_pair I (plan_customers q) h) \<or> x = snd (gap_pair I (plan_customers q) h)"
        by (rule pair_customer [OF _ q(2)])
      have "x \<in> insert ?d (set ?cs)" using depot_pair [OF g(1), of x I] x(2) g(2) by simp
      moreover have "x \<noteq> ?d" using x(1) solution_fitD(3) [OF s q(1)] depot_no_customer [OF I] by (auto simp: customers_ok_def)
      moreover have "x \<noteq> ?c" using x(1) q(1) free by auto
      ultimately have "?r \<noteq> ?n" "x \<in> set (plan_customers ?p)" using cs by (auto split: if_splits)
      then show ?thesis
        using concat_owner [OF solution_fitD(2) [OF s q(1)] q(1) fit(1) x(1)] by simp
    qed
    show ?thesis
      unfolding same_pairs_def
    proof (intro allI impI)
      fix g assume g: "g \<le> length ?cs"
      show "map_of inherited (gap_pair I ?cs g) = map_of (key_gaps I rebuild ?key) (gap_pair I ?cs g)"
      proof (cases "?r = ?n")
        case True
        then have "map_of inherited (gap_pair I ?cs g) \<noteq> Some path" for path
          using gap_map_iff [OF I s m] owner [OF _ _ g] by blast
        then have "map_of inherited (gap_pair I ?cs g) = None" by (cases "map_of inherited (gap_pair I ?cs g)") auto
        then show ?thesis using True by (simp add: key_gaps_def completion_key_def)
      next
        case route: False
        note p = fit [OF route]
        have one: "solution_fit I R \<lparr>plans = [?p]\<rparr>" using p(2) plan_fitD(1) [OF p(2)] by (simp add: solution_fit_def customers_ok_def)
        have "key_gaps I rebuild ?key = add_plan_gaps ?d [] (fit_plan I (plan_customers ?p) (gaps ?p))"
          using False route fit_parts [OF I p(2)] by (simp add: key_gaps_def completion_key_def)
        also have "\<dots> = add_plan_gaps ?d [] ?p" by (simp add: add_plan_gaps_def Let_def)
        finally have k: "gap_map_of I \<lparr>plans = [?p]\<rparr> = Inr (key_gaps I rebuild ?key)"
          using depot_known [OF I] by (simp add: gap_map_of_def)
        have "map_of inherited (gap_pair I ?cs g) = Some path \<longleftrightarrow> map_of (key_gaps I rebuild ?key) (gap_pair I ?cs g) = Some path" for path
          unfolding gap_map_iff [OF I s m] gap_map_iff [OF I one k] using owner [OF _ _ g] p(1) by auto
        then show ?thesis by (metis option.exhaust)
      qed
    qed
  qed
qed

lemma memo_value_slot:
  assumes set: "linked_setting ps rebuild lambda current inherited f0" and sl: "slot_ok (ps_inst ps) current (move_slot m)"
    and b: "builds (ps_inst ps) (allow_revisits f0)
      (complete_sequence ps inherited lambda single_step (slot_sequence current (move_slot m))) out"
  shows "memo_value ps rebuild lambda single_step f0 (completion_key current m) = Inr out"
proof -
  note S = linked_settingD [OF set]
  note key = completion_key_slot [OF S(8) S(5) sl S(6)]
  have "builds (ps_inst ps) (allow_revisits f0) (complete_sequence ps (key_gaps (ps_inst ps) rebuild (completion_key current m)) lambda
      single_step (slot_sequence current (move_slot m))) out"
    by (rule complete_sequence_same [OF S(1) slot_sequence_ok(1) [OF S(5) sl] S(7) key(2) b])
  then show ?thesis using key(1) S(4) by (simp add: memo_value_def built_by_eq)
qed

section \<open>Completing a move\<close>

definition linked_cand ::
  "path_sampler \<Rightarrow> bool \<Rightarrow> gap_map \<Rightarrow> real \<Rightarrow> bool \<Rightarrow> solution \<Rightarrow> plan_factory \<Rightarrow> insertion_move \<Rightarrow> bool" where
  "linked_cand ps rebuild inherited lambda single_step current f0 m \<longleftrightarrow>
     linked_setting ps rebuild lambda current inherited f0 \<and> slot_ok (ps_inst ps) current (move_slot m) \<and>
     incumbent_route_cost m = route_before (ps_inst ps) lambda current (move_route m) \<and>
     bound_holds (completed_cost ps inherited lambda single_step current f0) m"

text \<open>A completed move holds the plan of its route.\<close>

definition linked_good ::
  "path_sampler \<Rightarrow> gap_map \<Rightarrow> real \<Rightarrow> solution \<Rightarrow> plan_factory \<Rightarrow> insertion_move \<Rightarrow> bool" where
  "linked_good ps inherited lambda current f0 m \<longleftrightarrow>
     (\<exists>out. move_completion m = Some out \<and>
        completed_from ps inherited lambda (allow_revisits f0) (slot_sequence current (move_slot m)) out)"

lemma linked_completion:
  assumes set: "linked_setting ps rebuild lambda current inherited f0" and sl: "slot_ok (ps_inst ps) current sl"
  obtains out where
    "builds (ps_inst ps) (allow_revisits f0) (complete_sequence ps inherited lambda single_step (slot_sequence current sl)) out"
    and "completed_from ps inherited lambda (allow_revisits f0) (slot_sequence current sl) out"
    and "completed_cost ps inherited lambda single_step current f0 sl =
      absolute_cost out - route_before (ps_inst ps) lambda current (fst (snd sl))"
proof -
  note S = linked_settingD [OF set]
  obtain out where out: "builds (ps_inst ps) (allow_revisits f0) (complete_sequence ps inherited lambda single_step (slot_sequence current sl)) out"
    "completed_from ps inherited lambda (allow_revisits f0) (slot_sequence current sl) out"
    using complete_sequence_ok [OF S(1-4) refl slot_sequence_ok(1) [OF S(5) sl] S(7)] by blast
  then show thesis using that S(4) by (simp add: completed_cost_def built_by_eq)
qed

lemma evaluate_linked_yields:
  assumes s: "completer_ok ps rebuild lambda single_step f0 s"
    and m: "linked_cand ps rebuild inherited lambda single_step current f0 m" and e: "\<not> move_evaluated m"
  shows "yields False (\<lambda>(m', s'). completer_ok ps rebuild lambda single_step f0 s' \<and> same_place m m' \<and> move_evaluated m' \<and>
      move_delta m' = completed_cost ps inherited lambda single_step current f0 (move_slot m) \<and>
      linked_good ps inherited lambda current f0 m') (evaluate_linked ps inherited lambda single_step current m s)"
proof -
  let ?I = "ps_inst ps" and ?R = "allow_revisits f0" and ?key = "completion_key current m"
  let ?cc = "completed_cost ps inherited lambda single_step current f0 (move_slot m)"
  have set: "linked_setting ps rebuild lambda current inherited f0" and sl: "slot_ok ?I current (move_slot m)"
    and inc: "incumbent_route_cost m = route_before ?I lambda current (move_route m)"
    and bound: "bound_holds (completed_cost ps inherited lambda single_step current f0) m"
    using m by (simp_all add: linked_cand_def)
  have inv: "factory_ok ?I (cs_factory s)" "allow_revisits (cs_factory s) = ?R" "lru_ok (cs_memo s)"
    "memo_agrees (map_of (lru_items (cs_memo s))) (memo_value ps rebuild lambda single_step f0)"
    using s by (simp_all add: completer_ok_def)
  obtain out where out: "builds ?I ?R (complete_sequence ps inherited lambda single_step (slot_sequence current (move_slot m))) out"
    "completed_from ps inherited lambda ?R (slot_sequence current (move_slot m)) out"
    "?cc = absolute_cost out - route_before ?I lambda current (fst (snd (move_slot m)))"
    by (rule linked_completion [OF set sl])
  have cc: "?cc = absolute_cost out - incumbent_route_cost m" using out(3) inc by (simp add: move_slot_def)
  note value_eq = memo_value_slot [OF set sl out(1)]
  let ?m' = "m\<lparr>move_delta := ?cc, infeasible_to_feasible := completion_repairs out, move_evaluated := True, move_completion := Some out\<rparr>"
  have "\<not> beyond (bound_delta m) ?cc"
    using bound by (auto simp: bound_holds_def beyond_def split: option.splits)
  then have adopt: "adopt_completion m out = Inr ?m'" by (simp add: adopt_completion_def Let_def cc)
  have good: "same_place m ?m' \<and> move_evaluated ?m' \<and> move_delta ?m' = ?cc \<and> linked_good ps inherited lambda current f0 ?m'"
    using out(2) by (simp add: same_place_def linked_good_def move_slot_def)
  obtain hit memo where g: "lru_get ?key (cs_memo s) = (hit, memo)" by (cases "lru_get ?key (cs_memo s)")
  have memo: "lru_ok memo" "memo_agrees (map_of (lru_items memo)) (memo_value ps rebuild lambda single_step f0)"
    using lru.get_agrees [OF inv(3,4) g] by simp_all
  show ?thesis
  proof (cases hit)
    case (Some v)
    then have "v = out" using lru.hit_value [OF inv(3,4)] g value_eq by fastforce
    then show ?thesis using Some g e adopt good inv memo by (simp add: evaluate_linked_def completer_ok_def)
  next
    case None
    obtain f where f: "complete_sequence ps inherited lambda single_step (slot_sequence current (move_slot m)) (cs_factory s) = ret (out, f)"
      "factory_ok ?I f" "allow_revisits f = ?R" by (rule buildsE [OF out(1) inv(1,2)])
    have "lru_ok (lru_put ?key out memo) \<and>
      memo_agrees (map_of (lru_items (lru_put ?key out memo))) (memo_value ps rebuild lambda single_step f0)"
      by (rule lru.put_agrees [OF memo value_eq])
    then show ?thesis using None g e adopt good f by (simp add: evaluate_linked_def completer_ok_def insertion_sequence_slot)
  qed
qed

lemma release_completion_dropped: "dropped m (release_completion m)"
  by (simp add: dropped_def same_place_def release_completion_def move_slot_def)

interpretation linked: completion "evaluate_linked ps inherited lambda single_step current" release_completion
    "completed_cost ps inherited lambda single_step current f0" "completer_ok ps rebuild lambda single_step f0"
    "linked_good ps inherited lambda current f0" False "linked_cand ps rebuild inherited lambda single_step current f0"
  for ps inherited lambda single_step current f0 rebuild
  by unfold_locales (rule evaluate_linked_yields release_completion_dropped; assumption)+

end
