(* ===== verification/Insertion_Candidates.thy ===== *)
theory Insertion_Candidates
  imports Insertion_Linked
begin

text \<open>
  The candidate insertions of a customer: one per position of every route and the new route, each
  with its direct cost and a lower bound that holds for its completion.
\<close>

section \<open>The scorer and the bound\<close>

definition scorer_fits :: "inst \<Rightarrow> gap_map \<Rightarrow> solution \<Rightarrow> sequence_scorer \<Rightarrow> bool" where
  "scorer_fits I inherited current sc \<longleftrightarrow> map_ok I inherited \<and> scorer_inv I (gap_of inherited) sc \<and>
     map prof_customers (profiles sc) = map plan_customers (plans current)"

definition context_fits :: "path_sampler \<Rightarrow> real \<Rightarrow> insertion_context \<Rightarrow> bool" where
  "context_fits ps lambda ctx \<longleftrightarrow> ctx_inst ctx = ps_inst ps \<and> ctx_lambda ctx = lambda \<and> ctx_fp ctx = ps_fp ps \<and>
     ctx_granular ctx = None \<and>
     (case ctx_bound ctx of None \<Rightarrow> True
      | Some b \<Rightarrow> \<exists>paths implicit slack. (slack = None \<or> 0 \<le> the slack) \<and>
          b = linked_insertion_lower_bound (ps_inst ps) (ps_fp ps) paths implicit slack)"

text \<open>All slots of a customer, in the order of the enumeration.\<close>

definition route_slots :: "solution \<Rightarrow> int \<Rightarrow> nat \<Rightarrow> (int \<times> nat \<times> nat) list" where
  "route_slots current c r = map (\<lambda>k. (c, r, k)) [0..<length (plan_customers (plans current ! r)) + 1]"

definition all_slots :: "solution \<Rightarrow> int \<Rightarrow> (int \<times> nat \<times> nat) list" where
  "all_slots current c = concat (map (route_slots current c) [0..<length (plans current)]) @ [(c, length (plans current), 0)]"

lemma all_slots_ok:
  "c \<in> set (customer_ids I) \<Longrightarrow> c \<notin> set (concat (map plan_customers (plans current))) \<Longrightarrow> sl \<in> set (all_slots current c) \<Longrightarrow>
    slot_ok I current sl"
  by (auto simp: all_slots_def route_slots_def slot_ok_def)

lemma scorer_no_location:
  assumes "scorer_fits I inherited current sc" and "c \<notin> set (concat (map plan_customers (plans current)))"
  shows "location_of sc c = None"
proof (rule ccontr)
  assume "location_of sc c \<noteq> None"
  then obtain l where "location_of sc c = Some l" by blast
  then have l: "loc_route l < length (profiles sc)" "loc_position l < length (prof_customers (profiles sc ! loc_route l))"
    "prof_customers (profiles sc ! loc_route l) ! loc_position l = c"
    using assms(1) by (auto simp: scorer_fits_def scorer_inv_def)
  have "c \<in> set (prof_customers (profiles sc ! loc_route l))" using l(2,3) by auto
  moreover have "prof_customers (profiles sc ! loc_route l) \<in> set (map prof_customers (profiles sc))" using l(1) by simp
  ultimately have "c \<in> set (concat (map plan_customers (plans current)))"
    using assms(1) by (auto simp: scorer_fits_def simp del: set_map)
  then show False using assms(2) by simp
qed

lemma score_slot:
  assumes I: "inst_ok I" and fits: "scorer_fits I inherited current sc" and s: "solution_fit I R current"
    and sl: "slot_ok I current (c, r, k)"
  shows "r < length (plans current) \<Longrightarrow>
      score_insertion I sc r k c = route_score I (inherited_visits I inherited (slot_sequence current (c, r, k)))"
    and "score_sequence I sc [c] = route_score I (inherited_visits I inherited [c])"
proof -
  have m: "map_ok I inherited" and inv: "scorer_inv I (gap_of inherited) sc"
    and prof: "map prof_customers (profiles sc) = map plan_customers (plans current)"
    using fits by (simp_all add: scorer_fits_def)
  have c: "c \<in> set (customer_ids I)" "c \<notin> set (concat (map plan_customers (plans current)))"
    using sl by (auto simp: slot_ok_def)
  show "score_sequence I sc [c] = route_score I (inherited_visits I inherited [c])"
    by (rule score_sequence_eq [OF I m inv]) (use c in auto)
  assume r: "r < length (plans current)"
  let ?cs = "plan_customers (plans current ! r)"
  have p: "plans current ! r \<in> set (plans current)" using r by simp
  have cs: "customers_ok I ?cs" by (rule solution_fitD(3) [OF s p])
  have len: "length (profiles sc) = length (plans current)" using prof by (metis length_map)
  then have same: "?cs = prof_customers (profiles sc ! r)" using prof r by (metis nth_map)
  have seq: "slot_sequence current (c, r, k) = take k ?cs @ c # drop k ?cs" using r by (simp add: slot_sequence_def)
  have "insertion_label I sc r k c =
    Inr (path_label I (depot_id I) (via_path (gap_of inherited) (depot_id I # (take k ?cs @ c # drop k ?cs) @ [depot_id I])))"
    by (rule insertion_label_eq [OF I inv _ scorer_no_location [OF fits c(2)] _ same])
      (use r len c cs sl in \<open>auto simp: anchor_def customers_ok_def slot_ok_def\<close>)
  moreover have "set (take k ?cs @ c # drop k ?cs) \<subseteq> set (customer_ids I)"
    using c cs by (auto simp: customers_ok_def dest: in_set_takeD in_set_dropD)
  ultimately show "score_insertion I sc r k c = route_score I (inherited_visits I inherited (slot_sequence current (c, r, k)))"
    using inherited_label [OF I m, of "take k ?cs @ c # drop k ?cs"] seq by (simp add: score_insertion_def)
qed

text \<open>The bound on the summary of the direct route holds for every completion of it.\<close>

lemma completion_bound:
  assumes ps: "sampler_ok ps" and l: "isfinite lambda" "0 \<le> lambda" and slack: "slack = None \<or> 0 \<le> the slack"
    and out: "completed_from ps inherited lambda R cs out" and m: "map_ok (ps_inst ps) inherited"
    and S: "route_score (ps_inst ps) (inherited_visits (ps_inst ps) inherited cs) = Some (Inr S)"
    and b: "linked_insertion_lower_bound (ps_inst ps) (ps_fp ps) paths implicit slack S lambda vs n = Some b"
  shows "b \<le> absolute_cost out"
proof -
  let ?I = "ps_inst ps" and ?q = "completed_plan out" and ?d = "depot_id (ps_inst ps)"
  let ?direct = "inherited_visits ?I inherited cs"
  note I = sampler_okD(1,2) [OF ps]
  have q: "plan_fit ?I R ?q" "plan_customers ?q = cs" "absolute_cost out = cost_of ?I lambda ?q"
    "subseq ?direct (visits (plan_route ?q))" using out by (auto simp: completed_from_def)
  have cs: "set cs \<subseteq> set (customer_ids ?I)" using plan_fitD(1) [OF q(1)] q(2) by (simp add: customers_ok_def)
  have known: "set ?direct \<subseteq> set (ids ?I)" by (rule inherited_visits_known [OF I(1) m cs])
  obtain S' where S': "route_score ?I ?direct = Some (Inr S')"
    "summary_consistent ?I (path_travel ?I ?d (?direct @ [?d])) (path_service ?I (?direct @ [?d])) S'"
    by (rule route_cost_scored [OF I known l])
  then have sums: "total_travel_h S = path_travel ?I ?d (?direct @ [?d])" "total_service_h S = path_service ?I (?direct @ [?d])"
    using S by (auto simp: summary_consistent_def)
  obtain ev where ev: "evaluation ?q = Some ev" "evaluated ?I (visits (plan_route ?q)) ev" using plan_fitD(5) [OF q(1)] by blast
  have "path_travel ?I ?d (?direct @ [?d]) \<le> path_travel ?I ?d (visits (plan_route ?q) @ [?d])"
    by (rule path_travel_subseq [OF I(1) q(4)])
  moreover have "path_service ?I (?direct @ [?d]) = path_service ?I (visits (plan_route ?q))"
  proof (rule path_service_customers)
    have stations: "\<forall>g \<in> set (inherited_gaps ?d cs inherited). \<forall>s \<in> set g. \<not> is_customer ?I s"
    proof (intro ballI)
      fix g s assume gs: "g \<in> set (inherited_gaps ?d cs inherited)" "s \<in> set g"
      then obtain a b where "g = gap_of inherited a b" by (auto simp: inherited_gaps_map)
      then have "((a, b), g) \<in> set inherited"
        using gs(2) by (cases "map_of inherited (a, b)") (auto simp: gap_of_def dest: map_of_SomeD)
      then have "known_station ?I s" using m gs(2) by (fastforce simp: map_ok_def)
      then show "\<not> is_customer ?I s" by (simp add: known_station_def is_customer_def)
    qed
    have customers: "\<forall>c \<in> set cs. is_customer ?I c" using cs customer_known(2) [OF I(1)] by (auto simp: is_customer_def)
    have "filter (is_customer ?I) ?direct = cs"
      unfolding inherited_visits_def
      by (rule filter_interleave) (use stations customers inherited_gaps_nth(2) [of 0 cs ?d inherited] in \<open>auto simp: is_customer_def\<close>)
    moreover have "filter (is_customer ?I) (visits (plan_route ?q)) = cs" using fit_parts(1) [OF I(1) q(1)] q(2) by simp
    moreover have "\<not> is_customer ?I ?d"
      using kind_of_known [OF I(1) known_lookups(1) [OF I(1)], of Customer] depot_no_customer [OF I(1)]
      by (simp add: is_customer_def inst_okD(7) [OF I(1)])
    ultimately show "filter (\<lambda>n. kind (the_node ?I n) = Customer) (?direct @ [?d]) =
        filter (\<lambda>n. kind (the_node ?I n) = Customer) (visits (plan_route ?q))"
      by (simp flip: is_customer_fun)
  qed
  ultimately obtain c where "summary_cost ev ?I lambda = Inr c" "b \<le> c"
    using linked_insertion_bound_below [OF I(1) sampler_okD(3) [OF ps] slack b _ _ _, of _ _ ev] ev(2) sums
    by (auto simp: evaluated_def)
  then show ?thesis using q(3) ev(1) by (simp add: cost_of_def plan_cost_def deref_def generalized_cost_summary)
qed

section \<open>The enumeration\<close>

definition fresh_cand ::
  "path_sampler \<Rightarrow> bool \<Rightarrow> gap_map \<Rightarrow> real \<Rightarrow> bool \<Rightarrow> solution \<Rightarrow> plan_factory \<Rightarrow> insertion_move \<Rightarrow> bool" where
  "fresh_cand ps rebuild inherited lambda single_step current f0 m \<longleftrightarrow>
     linked_cand ps rebuild inherited lambda single_step current f0 m \<and> \<not> move_evaluated m"

lemma efold_moves:
  assumes "\<And>x acc. x \<in> set xs \<Longrightarrow> \<exists>ms. f (acc, rej) x = ret (acc @ ms, rej) \<and> (\<forall>m \<in> set ms. Q m) \<and> map move_slot ms = sl x"
  shows "\<exists>ms. efold f (acc, rej) xs = ret (acc @ ms, rej) \<and> (\<forall>m \<in> set ms. Q m) \<and> map move_slot ms = concat (map sl xs)"
  using assms
proof (induction xs arbitrary: acc)
  case (Cons x xs)
  obtain ms where ms: "f (acc, rej) x = ret (acc @ ms, rej)" "\<forall>m \<in> set ms. Q m" "map move_slot ms = sl x"
    using Cons.prems [of x acc] by auto
  obtain ns where "efold f (acc @ ms, rej) xs = ret ((acc @ ms) @ ns, rej)" "\<forall>m \<in> set ns. Q m" "map move_slot ns = concat (map sl xs)"
    using Cons.IH [of "acc @ ms"] Cons.prems by auto
  then show ?case using ms by (intro exI [of _ "ms @ ns"]) auto
qed simp

lemma slot_bound_holds:
  assumes set: "linked_setting ps rebuild lambda current inherited f0" and fits: "scorer_fits (ps_inst ps) inherited current sc"
    and ctx: "context_fits ps lambda ctx" and sl: "slot_ok (ps_inst ps) current sl"
    and S: "route_score (ps_inst ps) (inherited_visits (ps_inst ps) inherited (slot_sequence current sl)) = Some (Inr S)"
  shows "case linked_route_lower_bound ctx S vs n of None \<Rightarrow> True
    | Some b \<Rightarrow> b \<le> completed_cost ps inherited lambda single_step current f0 sl +
        route_before (ps_inst ps) lambda current (fst (snd sl))"
proof (cases "linked_route_lower_bound ctx S vs n")
  case (Some b)
  note st = linked_settingD [OF set]
  obtain out where out: "completed_from ps inherited lambda (allow_revisits f0) (slot_sequence current sl) out"
    "completed_cost ps inherited lambda single_step current f0 sl =
      absolute_cost out - route_before (ps_inst ps) lambda current (fst (snd sl))"
    by (rule linked_completion [OF set sl])
  obtain paths implicit slack where b: "slack = None \<or> 0 \<le> the slack"
    "linked_insertion_lower_bound (ps_inst ps) (ps_fp ps) paths implicit slack S lambda vs n = Some b"
    using Some ctx by (auto simp: linked_route_lower_bound_def context_fits_def split: option.splits)
  have "map_ok (ps_inst ps) inherited" using fits by (simp add: scorer_fits_def)
  from completion_bound [OF st(1-3) b(1) out(1) this S b(2)] have "b \<le> absolute_cost out" .
  then show ?thesis using Some out(2) by simp
qed simp

lemma incumbent_cost_route:
  assumes set: "linked_setting ps rebuild lambda current inherited f0" and ctx: "context_fits ps lambda ctx"
    and r: "r < length (plans current)"
  shows "incumbent_cost ctx (plans current ! r) = Inr (route_before (ps_inst ps) lambda current r)"
proof -
  note st = linked_settingD [OF set]
  have "plan_fit (ps_inst ps) (allow_revisits f0) (plans current ! r)" using r by (intro solution_fitD(1) [OF st(5)]) simp
  from plan_cost_fit(1) [OF st(8) this st(2,3)] show ?thesis
    using ctx r by (simp add: incumbent_cost_def context_fits_def plan_cost_def route_before_def)
qed

lemma scored_slot:
  assumes set: "linked_setting ps rebuild lambda current inherited f0" and fits: "scorer_fits (ps_inst ps) inherited current sc"
    and ctx: "context_fits ps lambda ctx" and sl: "slot_ok (ps_inst ps) current sl"
  obtains S where "route_score (ps_inst ps) (inherited_visits (ps_inst ps) inherited (slot_sequence current sl)) = Some (Inr S)"
    and "summary_cost S (ctx_inst ctx) (ctx_lambda ctx) =
      Inr (route_cost (ps_inst ps) lambda (inherited_visits (ps_inst ps) inherited (slot_sequence current sl)))"
proof -
  note st = linked_settingD [OF set]
  have "set (inherited_visits (ps_inst ps) inherited (slot_sequence current sl)) \<subseteq> set (ids (ps_inst ps))"
    using fits slot_sequence_ok(1) [OF st(5) sl]
    by (intro inherited_visits_known [OF st(8)]) (auto simp: scorer_fits_def customers_ok_def)
  then obtain S where "route_score (ps_inst ps) (inherited_visits (ps_inst ps) inherited (slot_sequence current sl)) = Some (Inr S)"
    "summary_cost S (ps_inst ps) lambda = Inr (route_cost (ps_inst ps) lambda (inherited_visits (ps_inst ps) inherited (slot_sequence current sl)))"
    by (rule route_cost_scored [OF st(8,9) _ st(2,3)])
  then show thesis using that ctx by (simp add: context_fits_def)
qed

lemma position_move_cand:
  assumes set: "linked_setting ps rebuild lambda current inherited f0" and fits: "scorer_fits (ps_inst ps) inherited current sc"
    and ctx: "context_fits ps lambda ctx" and sl: "slot_ok (ps_inst ps) current (c, r, k)" and r: "r < length (plans current)"
  shows "\<exists>m. position_move ctx sc True c r (plans current ! r) (route_before (ps_inst ps) lambda current r) k = ret m \<and>
    fresh_cand ps rebuild inherited lambda single_step current f0 m \<and> move_slot m = (c, r, k) \<and>
    direct_delta m = route_cost (ps_inst ps) lambda (inherited_visits (ps_inst ps) inherited (slot_sequence current (c, r, k))) -
      route_before (ps_inst ps) lambda current r"
proof -
  note st = linked_settingD [OF set]
  obtain S where S: "route_score (ps_inst ps) (inherited_visits (ps_inst ps) inherited (slot_sequence current (c, r, k))) = Some (Inr S)"
    "summary_cost S (ctx_inst ctx) (ctx_lambda ctx) =
      Inr (route_cost (ps_inst ps) lambda (inherited_visits (ps_inst ps) inherited (slot_sequence current (c, r, k))))"
    by (rule scored_slot [OF set fits ctx sl])
  have score: "score_insertion (ctx_inst ctx) sc r k c = ret S"
    using score_slot(1) [OF st(8) fits st(5) sl r] S(1) ctx by (simp add: context_fits_def ret_def)
  let ?old = "route_before (ps_inst ps) lambda current r"
  let ?m = "fresh_move c r k ?old (route_cost (ps_inst ps) lambda (inherited_visits (ps_inst ps) inherited (slot_sequence current (c, r, k))) - ?old)
    (linked_delta ctx (plans current ! r) ?old S)"
  have "bound_holds (completed_cost ps inherited lambda single_step current f0) ?m"
  proof (cases "linked_route_lower_bound ctx S (length (visits (plan_route (plans current ! r)))) (length (plan_customers (plans current ! r)))")
    case (Some b)
    have "b - ?old \<le> completed_cost ps inherited lambda single_step current f0 (c, r, k)"
      using slot_bound_holds [OF set fits ctx sl S(1), of single_step "length (visits (plan_route (plans current ! r)))"
          "length (plan_customers (plans current ! r))"] Some by simp
    moreover have "fp_down (ctx_fp ctx) (b - ?old) \<le> b - ?old"
      using roundsD(1) [OF sampler_okD(3) [OF st(1)]] ctx by (simp add: context_fits_def)
    moreover have "0 \<le> kLinkedBoundSafety" by (simp add: kLinkedBoundSafety_def)
    ultimately show ?thesis using Some by (simp add: bound_holds_def fresh_move_def linked_delta_def move_slot_def)
  qed (simp add: bound_holds_def fresh_move_def linked_delta_def)
  then have "fresh_cand ps rebuild inherited lambda single_step current f0 ?m"
    using set sl by (simp add: fresh_cand_def linked_cand_def fresh_move_def move_slot_def)
  then show ?thesis using score S(2) by (intro exI [of _ ?m]) (simp add: position_move_def Let_def fresh_move_def move_slot_def)
qed

lemma singleton_move_cand:
  assumes set: "linked_setting ps rebuild lambda current inherited f0" and fits: "scorer_fits (ps_inst ps) inherited current sc"
    and ctx: "context_fits ps lambda ctx" and sl: "slot_ok (ps_inst ps) current (c, length (plans current), 0)"
  shows "\<exists>m. singleton_move ctx sc True current c = ret m \<and>
    fresh_cand ps rebuild inherited lambda single_step current f0 m \<and> move_slot m = (c, length (plans current), 0)"
proof -
  note st = linked_settingD [OF set]
  obtain S where S: "route_score (ps_inst ps) (inherited_visits (ps_inst ps) inherited (slot_sequence current (c, length (plans current), 0))) = Some (Inr S)"
    "summary_cost S (ctx_inst ctx) (ctx_lambda ctx) =
      Inr (route_cost (ps_inst ps) lambda (inherited_visits (ps_inst ps) inherited (slot_sequence current (c, length (plans current), 0))))"
    by (rule scored_slot [OF set fits ctx sl])
  have seq: "slot_sequence current (c, length (plans current), 0) = [c]" by (simp add: slot_sequence_def)
  have score: "score_sequence (ctx_inst ctx) sc [c] = ret S"
    using score_slot(2) [OF st(8) fits st(5) sl] S(1) ctx seq by (simp add: context_fits_def ret_def)
  let ?m = "fresh_move c (length (plans current)) 0 0 (route_cost (ps_inst ps) lambda (inherited_visits (ps_inst ps) inherited [c]))
    (linked_route_lower_bound ctx S 0 0)"
  have "bound_holds (completed_cost ps inherited lambda single_step current f0) ?m"
    using slot_bound_holds [OF set fits ctx sl S(1), of single_step 0 0]
    by (auto simp: bound_holds_def fresh_move_def move_slot_def route_before_def kLinkedBoundSafety_def kCostTolerance_def split: option.splits)
  then have "fresh_cand ps rebuild inherited lambda single_step current f0 ?m"
    using set sl by (simp add: fresh_cand_def linked_cand_def fresh_move_def move_slot_def route_before_def)
  then show ?thesis using score S(2) seq by (intro exI [of _ ?m]) (simp add: singleton_move_def Let_def fresh_move_def move_slot_def)
qed

lemma insertion_moves_by:
  assumes set: "linked_setting ps rebuild lambda current inherited f0" and ctx: "context_fits ps lambda ctx"
    and pos: "\<And>r k. r < length (plans current) \<Longrightarrow> (c, r, k) \<in> set (all_slots current c) \<Longrightarrow>
      \<exists>m. position_move ctx sc calc c r (plans current ! r) (route_before (ps_inst ps) lambda current r) k = ret m \<and> Q m \<and> move_slot m = (c, r, k)"
    and single: "\<exists>m. singleton_move ctx sc calc current c = ret m \<and> Q m \<and> move_slot m = (c, length (plans current), 0)"
  shows "\<exists>ms. insertion_moves ctx sc calc current c = ret (ms, []) \<and> (\<forall>m \<in> set ms. Q m) \<and> map move_slot ms = all_slots current c"
proof -
  have allowed: "granular_allows ctx p k c = Inr True" for p k using ctx by (simp add: granular_allows_def context_fits_def)
  have route: "\<exists>ms. consider_route ctx sc calc c (acc, []) rp = ret (acc @ ms, []) \<and> (\<forall>m \<in> set ms. Q m) \<and>
      map move_slot ms = route_slots current c (fst rp)"
    if rp: "rp \<in> set (List.enumerate 0 (plans current))" for rp acc
  proof -
    obtain r where r: "r < length (plans current)" "rp = (r, plans current ! r)"
      using rp by (auto simp: in_set_enumerate_eq)
    have "\<exists>ms. efold (consider_position ctx sc calc c r (plans current ! r) (route_before (ps_inst ps) lambda current r)) (acc, [])
        [0..<length (plan_customers (plans current ! r)) + 1] = ret (acc @ ms, []) \<and> (\<forall>m \<in> set ms. Q m) \<and>
        map move_slot ms = concat (map (\<lambda>k. [(c, r, k)]) [0..<length (plan_customers (plans current ! r)) + 1])"
    proof (rule efold_moves)
      fix k acc assume k: "k \<in> set [0..<length (plan_customers (plans current ! r)) + 1]"
      then have "(c, r, k) \<in> set (all_slots current c)" using r(1)
        by (auto simp: all_slots_def route_slots_def simp del: upt_Suc intro!: bexI [of _ r])
      then obtain m where "position_move ctx sc calc c r (plans current ! r) (route_before (ps_inst ps) lambda current r) k = ret m"
        "Q m" "move_slot m = (c, r, k)" using pos [OF r(1)] by blast
      then show "\<exists>ms. consider_position ctx sc calc c r (plans current ! r) (route_before (ps_inst ps) lambda current r) (acc, []) k =
          ret (acc @ ms, []) \<and> (\<forall>m \<in> set ms. Q m) \<and> map move_slot ms = [(c, r, k)]"
        by (intro exI [of _ "[m]"]) (simp add: consider_position_def allowed)
    qed
    moreover have "concat (map (\<lambda>k. [(c, r, k)]) xs) = map (\<lambda>k. (c, r, k)) xs" for xs by (induction xs) simp_all
    ultimately show ?thesis
      using r incumbent_cost_route [OF set ctx r(1)] by (simp add: consider_route_def route_slots_def del: upt_Suc)
  qed
  obtain ms where ms: "efold (consider_route ctx sc calc c) ([], []) (List.enumerate 0 (plans current)) = ret (ms, [])"
    "\<forall>m \<in> set ms. Q m" "map move_slot ms = concat (map (\<lambda>rp. route_slots current c (fst rp)) (List.enumerate 0 (plans current)))"
    using efold_moves [of "List.enumerate 0 (plans current)" "consider_route ctx sc calc c" "[]" Q "\<lambda>rp. route_slots current c (fst rp)" "[]"]
      route by auto
  obtain m where m: "singleton_move ctx sc calc current c = ret m" "Q m" "move_slot m = (c, length (plans current), 0)"
    using single by blast
  have "map (\<lambda>rp. route_slots current c (fst rp)) (List.enumerate 0 (plans current)) =
      map (route_slots current c) (map fst (List.enumerate 0 (plans current)))" by (simp only: map_map comp_def)
  also have "map fst (List.enumerate 0 (plans current)) = [0..<length (plans current)]" by (simp add: map_fst_enumerate)
  finally have "map (\<lambda>rp. route_slots current c (fst rp)) (List.enumerate 0 (plans current)) =
      map (route_slots current c) [0..<length (plans current)]" .
  then show ?thesis using ms m by (intro exI [of _ "ms @ [m]"]) (auto simp: insertion_moves_def all_slots_def)
qed

lemma insertion_moves_cand:
  assumes set: "linked_setting ps rebuild lambda current inherited f0" and fits: "scorer_fits (ps_inst ps) inherited current sc"
    and ctx: "context_fits ps lambda ctx"
    and c: "c \<in> set (customer_ids (ps_inst ps))" "c \<notin> set (concat (map plan_customers (plans current)))"
  shows "\<exists>ms. insertion_moves ctx sc True current c = ret (ms, []) \<and>
    (\<forall>m \<in> set ms. fresh_cand ps rebuild inherited lambda single_step current f0 m) \<and> map move_slot ms = all_slots current c"
proof (rule insertion_moves_by [OF set ctx])
  have ok: "slot_ok (ps_inst ps) current sl" if "sl \<in> set (all_slots current c)" for sl by (rule all_slots_ok [OF c that])
  show "\<exists>m. position_move ctx sc True c r (plans current ! r) (route_before (ps_inst ps) lambda current r) k = ret m \<and>
      fresh_cand ps rebuild inherited lambda single_step current f0 m \<and> move_slot m = (c, r, k)"
    if "r < length (plans current)" "(c, r, k) \<in> set (all_slots current c)" for r k
    using position_move_cand [OF set fits ctx ok [OF that(2)] that(1)] by blast
  show "\<exists>m. singleton_move ctx sc True current c = ret m \<and> fresh_cand ps rebuild inherited lambda single_step current f0 m \<and>
      move_slot m = (c, length (plans current), 0)"
    by (rule singleton_move_cand [OF set fits ctx ok]) (simp add: all_slots_def)
qed

text \<open>Without completion the moves carry their direct costs.\<close>

lemma insertion_moves_direct:
  assumes set: "linked_setting ps rebuild lambda current inherited f0" and fits: "scorer_fits (ps_inst ps) inherited current sc"
    and ctx: "context_fits ps lambda ctx"
    and c: "c \<in> set (customer_ids (ps_inst ps))" "c \<notin> set (concat (map plan_customers (plans current)))"
  shows "\<exists>ms. insertion_moves ctx sc False current c = ret (ms, []) \<and>
    (\<forall>m \<in> set ms. move_completion m = None \<and> move_virtual m = None) \<and> map move_slot ms = all_slots current c"
proof (rule insertion_moves_by [OF set ctx])
  note st = linked_settingD [OF set]
  have ok: "slot_ok (ps_inst ps) current sl" if "sl \<in> set (all_slots current c)" for sl by (rule all_slots_ok [OF c that])
  show "\<exists>m. position_move ctx sc False c r (plans current ! r) (route_before (ps_inst ps) lambda current r) k = ret m \<and>
      (move_completion m = None \<and> move_virtual m = None) \<and> move_slot m = (c, r, k)"
    if rk: "r < length (plans current)" "(c, r, k) \<in> set (all_slots current c)" for r k
  proof -
    obtain S where S: "route_score (ps_inst ps) (inherited_visits (ps_inst ps) inherited (slot_sequence current (c, r, k))) = Some (Inr S)"
      "summary_cost S (ctx_inst ctx) (ctx_lambda ctx) =
        Inr (route_cost (ps_inst ps) lambda (inherited_visits (ps_inst ps) inherited (slot_sequence current (c, r, k))))"
      by (rule scored_slot [OF set fits ctx ok [OF rk(2)]])
    have "score_insertion (ctx_inst ctx) sc r k c = ret S"
      using score_slot(1) [OF st(8) fits st(5) ok [OF rk(2)] rk(1)] S(1) ctx by (simp add: context_fits_def ret_def)
    then show ?thesis using S(2) by (simp add: position_move_def Let_def fresh_move_def move_slot_def)
  qed
  have sl: "(c, length (plans current), 0) \<in> set (all_slots current c)" by (simp add: all_slots_def)
  obtain S where S: "route_score (ps_inst ps) (inherited_visits (ps_inst ps) inherited (slot_sequence current (c, length (plans current), 0))) = Some (Inr S)"
    "summary_cost S (ctx_inst ctx) (ctx_lambda ctx) =
      Inr (route_cost (ps_inst ps) lambda (inherited_visits (ps_inst ps) inherited (slot_sequence current (c, length (plans current), 0))))"
    by (rule scored_slot [OF set fits ctx ok [OF sl]])
  have "score_sequence (ctx_inst ctx) sc [c] = ret S"
    using score_slot(2) [OF st(8) fits st(5) ok [OF sl]] S(1) ctx by (simp add: context_fits_def ret_def slot_sequence_def)
  then show "\<exists>m. singleton_move ctx sc False current c = ret m \<and> (move_completion m = None \<and> move_virtual m = None) \<and>
      move_slot m = (c, length (plans current), 0)"
    using S(2) by (simp add: singleton_move_def Let_def fresh_move_def move_slot_def)
qed

end
