(* ===== verification/Completion_Properties.thy ===== *)
theory Completion_Properties
  imports Path_Repair
begin

text \<open>
  What the completion of routes by station paths promises, with a sampler over the
  demonstration instance.
\<close>

section \<open>A sampler\<close>

definition demo_fp :: fp_env where
  "demo_fp = \<lparr>fp_round = (\<lambda>x. x), fp_down = (\<lambda>x. x), fp_up = (\<lambda>x. x), fp_supported = True\<rparr>"

definition demo_sampler :: path_sampler where
  "demo_sampler =
     \<lparr>ps_inst = demo_inst,
      ps_catalog = (\<lambda>a b. Inr (sort_key option_distance_km
        (map (\<lambda>st. \<lparr>option_stations = st, option_distance_km = path_km demo_inst a (st @ [b])\<rparr>) [[], [2]]))),
      ps_fp = demo_fp, ps_fallback = False, ps_certified = True, ps_complete_paths = True, ps_summary_budget = 1,
      ps_bulk_bound = True, ps_shortfall_bound = True, ps_zero_shift_bound = True, ps_compatible = True,
      ps_maximum_rate = maximum_charging_rate demo_inst demo_fp\<rparr>"

lemma demo_station: "known_station demo_inst 2"
proof -
  have "2 \<in> set (ids_of_kind Station (nodes demo_inst))"
    using inst_okD(8) [OF demo_inst_ok] by (simp add: demo_inst_def) (metis list.set_intros(1) set_sort)
  then show ?thesis
    using kind_of_known [OF demo_inst_ok, of 2 Station] by (simp add: known_station_def demo_inst_def demo_nodes_def ids_def)
qed

lemma demo_sampler_ok: "sampler_ok demo_sampler"
proof -
  have "catalog_paths demo_inst a b (sort_key option_distance_km
        (map (\<lambda>st. \<lparr>option_stations = st, option_distance_km = path_km demo_inst a (st @ [b])\<rparr>) [[], [2]]))" for a b
    using demo_station by (auto simp: catalog_paths_def)
  then show ?thesis
    using demo_inst_ok demo_curves_ok by (auto simp: sampler_ok_def demo_sampler_def rounds_def demo_fp_def)
qed

lemma demo_sampler_inst [simp]: "ps_inst demo_sampler = demo_inst"
  by (simp add: demo_sampler_def)

definition demo_route_plan :: plan where
  "demo_route_plan = fit_plan demo_inst [1, 3] [[], [], []]"

lemma demo_route_fit: "plan_fit demo_inst (allow_revisits demo_factory) demo_route_plan" "\<not> exact_charging demo_route_plan"
proof -
  have "customers_ok demo_inst [1, 3]" by (simp add: customers_ok_def demo_inst_def)
  from fit_plan_fit(1) [OF demo_inst_ok demo_curves_ok demo_factory_ok this, of "[[], [], []]"]
  show "plan_fit demo_inst (allow_revisits demo_factory) demo_route_plan" by (simp add: demo_route_plan_def gap_ok_def)
qed (simp add: demo_route_plan_def)

lemma one_finite: "isfinite 1"
  by (simp add: isfinite_def dbl_max_def)

lemma demo_route_gaps: "length (gaps demo_route_plan) = 3"
  by (simp add: demo_route_plan_def)

lemma demo_route_customers: "plan_customers demo_route_plan = [1, 3]"
  by (simp add: demo_route_plan_def)

section \<open>Properties\<close>

text \<open>
  C5: The search for the best replacement of a gap, with its certified lower bounds, cut-off
  evaluations and tolerance band, is exact: among all paths of the catalogue for the eligible gaps
  that improve the plan by more than the tolerance it takes one within the tolerance of the cheapest whose route is the
  least in the order of visit lists, and it returns no plan only if there is none.  The caches
  of the factory do not matter.
\<close>

theorem best_replacement_exact:
  assumes "sampler_ok ps" and "plan_fit (ps_inst ps) R p" and "\<not> exact_charging p"
    and "isfinite lambda" and "0 \<le> lambda" and "\<forall>k \<in> set eligible. k < length (gaps p)"
  shows "\<exists>res. builds (ps_inst ps) R (best_replacement_in_gaps ps p lambda eligible excluded) res \<and>
    (let rs = all_improving ps lambda (cost_of (ps_inst ps) lambda p) p eligible excluded
     in case res of None \<Rightarrow> rs = []
        | Some q \<Rightarrow> \<exists>r. preferred p rs r \<and> q = fit_plan (ps_inst ps) (plan_customers p) ((gaps p)[rep_gap r := rep_stations r]))"
  using best_replacement_ok [OF assms(1,2,4,5,6) plan_cost_fit(1) [OF sampler_okD(1) [OF assms(1)] assms(2,4,5)] assms(3), of excluded]
  unfolding replaced_plan_def Let_def .

theorem best_replacement_exact_witness:
  "\<exists>res. builds demo_inst (allow_revisits demo_factory) (best_replacement_in_gaps demo_sampler demo_route_plan 1 [0, 1, 2] []) res"
  using best_replacement_exact [OF demo_sampler_ok, of "allow_revisits demo_factory" demo_route_plan 1 "[0, 1, 2]" "[]"]
    demo_route_fit demo_route_gaps one_finite
  by (auto simp: Let_def)

text \<open>
  C9: The improvement of a plan gap by gap always returns, and so do the repairs built on it.  The result has the
  same customers, the gaps that were not eligible and a cost that is the same plan's or lower by more than the
  tolerance, and no path of the catalogue for an eligible gap improves it further in both
  evaluations.
\<close>

theorem improve_reaches_local_optimum:
  assumes "sampler_ok ps" and "factory_ok (ps_inst ps) f" and "plan_fit (ps_inst ps) (allow_revisits f) p" and "\<not> exact_charging p"
    and "isfinite lambda" and "0 \<le> lambda" and "\<forall>k \<in> set eligible. k < length (gaps p)"
  shows "\<exists>q f'. improve_path_subset ps p lambda eligible f = ret (q, f') \<and> factory_ok (ps_inst ps) f' \<and>
    plan_customers q = plan_customers p \<and> plan_fit (ps_inst ps) (allow_revisits f) q \<and>
    (\<forall>k < length (gaps p). k \<notin> set eligible \<longrightarrow> gaps q ! k = gaps p ! k) \<and>
    (q = p \<or> cost_of (ps_inst ps) lambda q < cost_of (ps_inst ps) lambda p - kCostTolerance) \<and>
    locally_optimal ps lambda eligible q"
proof -
  obtain q where q: "builds (ps_inst ps) (allow_revisits f) (improve_path_subset ps p lambda eligible) q"
    "improved_plan (ps_inst ps) (allow_revisits f) lambda eligible p q" "locally_optimal ps lambda eligible q"
    using improve_path_subset_ok [OF assms(1,5,6,2) refl assms(3,4,7)] by blast
  obtain f' where "improve_path_subset ps p lambda eligible f = ret (q, f')" "factory_ok (ps_inst ps) f'"
    by (rule buildsE [OF q(1) assms(2) refl])
  then show ?thesis using q(2,3) by (intro exI [of _ q] exI [of _ f']) (auto simp: improved_plan_def)
qed

theorem improve_reaches_local_optimum_witness:
  "\<exists>q f'. improve_path_subset demo_sampler demo_route_plan 1 [0, 1, 2] demo_factory = ret (q, f') \<and> plan_customers q = [1, 3]"
  using improve_reaches_local_optimum [OF demo_sampler_ok, of demo_factory demo_route_plan 1 "[0, 1, 2]"] demo_route_fit demo_route_gaps one_finite demo_factory_ok
  by (auto simp: demo_route_customers)

end
