(* ===== verification/Insertion_Properties.thy ===== *)
theory Insertion_Properties
  imports Insertion_Candidates Completion_Properties
begin

text \<open>
  The insertion chosen by the heuristics, for all unassigned customers of a partial solution.
\<close>

section \<open>All candidates\<close>

lemma all_insertion_moves_cand:
  assumes set: "linked_setting ps rebuild lambda current inherited f0" and fits: "scorer_fits (ps_inst ps) inherited current sc"
    and ctx: "context_fits ps lambda ctx"
    and cs: "set cs \<subseteq> set (customer_ids (ps_inst ps)) - set (concat (map plan_customers (plans current)))"
  shows "\<exists>ms. all_insertion_moves ctx sc True current cs = ret (ms, []) \<and>
    (\<forall>m \<in> set ms. fresh_cand ps rebuild inherited lambda single_step current f0 m) \<and>
    map move_slot ms = concat (map (all_slots current) cs)"
proof -
  have "\<exists>ms. efold (\<lambda>(ms, rs) c. ebind (insertion_moves ctx sc True current c) (\<lambda>(ms', rs'). ret (ms @ ms', rs @ rs'))) ([], []) cs =
      ret ([] @ ms, []) \<and> (\<forall>m \<in> set ms. fresh_cand ps rebuild inherited lambda single_step current f0 m) \<and>
      map move_slot ms = concat (map (all_slots current) cs)"
  proof (rule efold_moves)
    fix c acc assume "c \<in> set cs"
    then obtain ms where "insertion_moves ctx sc True current c = ret (ms, [])"
      "\<forall>m \<in> set ms. fresh_cand ps rebuild inherited lambda single_step current f0 m" "map move_slot ms = all_slots current c"
      using insertion_moves_cand [OF set fits ctx, of c single_step] cs by blast
    then show "\<exists>ms. (case (acc, []) of (ms, rs) \<Rightarrow> \<lambda>c. ebind (insertion_moves ctx sc True current c) (\<lambda>(ms', rs'). ret (ms @ ms', rs @ rs'))) c =
        ret (acc @ ms, []) \<and> (\<forall>m \<in> set ms. fresh_cand ps rebuild inherited lambda single_step current f0 m) \<and> map move_slot ms = all_slots current c"
      by auto
  qed
  then show ?thesis by (simp add: all_insertion_moves_def)
qed

lemma grouped_moves_cand:
  assumes set: "linked_setting ps rebuild lambda current inherited f0" and fits: "scorer_fits (ps_inst ps) inherited current sc"
    and ctx: "context_fits ps lambda ctx"
    and cs: "set cs \<subseteq> set (customer_ids (ps_inst ps)) - set (concat (map plan_customers (plans current)))"
  shows "\<exists>gs. efold (\<lambda>groups c. ebind (insertion_moves ctx sc True current c) (\<lambda>(moves, _). ret (groups @ [moves]))) acc cs =
      ret (acc @ gs) \<and> (\<forall>g \<in> set gs. \<forall>m \<in> set g. fresh_cand ps rebuild inherited lambda single_step current f0 m) \<and>
    map (map move_slot) gs = map (all_slots current) cs"
  using cs
proof (induction cs arbitrary: acc)
  case (Cons c cs)
  obtain ms where ms: "insertion_moves ctx sc True current c = ret (ms, [])"
    "\<forall>m \<in> set ms. fresh_cand ps rebuild inherited lambda single_step current f0 m" "map move_slot ms = all_slots current c"
    using insertion_moves_cand [OF set fits ctx, of c single_step] Cons.prems by auto
  obtain gs where "efold (\<lambda>groups c. ebind (insertion_moves ctx sc True current c) (\<lambda>(moves, _). ret (groups @ [moves]))) (acc @ [ms]) cs =
      ret ((acc @ [ms]) @ gs)" "\<forall>g \<in> set gs. \<forall>m \<in> set g. fresh_cand ps rebuild inherited lambda single_step current f0 m"
    "map (map move_slot) gs = map (all_slots current) cs"
    using Cons.IH [of "acc @ [ms]"] Cons.prems by auto
  then show ?case using ms by (intro exI [of _ "ms # gs"]) auto
qed simp

lemma all_slots_ne: "all_slots current c \<noteq> []"
  by (simp add: all_slots_def)

text \<open>The greedy choice.\<close>

lemma linked_greedy_least:
  assumes set: "linked_setting ps rebuild lambda current inherited f0" and s: "completer_ok ps rebuild lambda single_step f0 s"
    and ms: "ms \<noteq> []" "\<forall>m \<in> set ms. fresh_cand ps rebuild inherited lambda single_step current f0 m"
  shows "\<exists>w s'. linked_greedy ps inherited lambda single_step current ms s = ret (w, s') \<and>
    completer_ok ps rebuild lambda single_step f0 s' \<and> linked_good ps inherited lambda current f0 w \<and>
    move_delta w = completed_cost ps inherited lambda single_step current f0 (move_slot w) \<and>
    move_slot w \<in> move_slot ` set ms \<and>
    (\<forall>m \<in> set ms. (move_delta w, move_slot w) \<le>
       (completed_cost ps inherited lambda single_step current f0 (move_slot m), move_slot m))"
proof -
  have "yields False (\<lambda>(w, s'). completer_ok ps rebuild lambda single_step f0 s' \<and> linked_good ps inherited lambda current f0 w \<and>
      move_delta w = completed_cost ps inherited lambda single_step current f0 (move_slot w) \<and>
      (\<exists>m \<in> set ms. move_slot w = move_slot m) \<and>
      (\<forall>m \<in> set ms. completed_key (completed_cost ps inherited lambda single_step current f0) w \<le>
         completed_key (completed_cost ps inherited lambda single_step current f0) m))
    (choose_greedy (evaluate_linked ps inherited lambda single_step current) release_completion ms s)"
    by (rule linked.choose_greedy_least [where rebuild = rebuild, OF ms(1) s])
      (use ms(2) in \<open>auto simp: fresh_cand_def linked_cand_def\<close>)
  from yields_total [OF this] show ?thesis
    by (auto simp: linked_greedy_def completed_key_def simp del: split_paired_Ex)
qed

text \<open>The two-regret choice.\<close>

lemma linked_two_regret_chosen:
  assumes set: "linked_setting ps rebuild lambda current inherited f0" and fits: "scorer_fits (ps_inst ps) inherited current sc"
    and ctx: "context_fits ps lambda ctx" and s: "completer_ok ps rebuild lambda single_step f0 s"
    and cs: "cs \<noteq> []" "set cs \<subseteq> set (customer_ids (ps_inst ps)) - set (concat (map plan_customers (plans current)))"
  shows "\<exists>w s' groups. linked_two_regret ps inherited lambda single_step current ctx sc cs s = ret (w, s') \<and>
    completer_ok ps rebuild lambda single_step f0 s' \<and> linked_good ps inherited lambda current f0 w \<and>
    move_delta w = completed_cost ps inherited lambda single_step current f0 (move_slot w) \<and>
    (\<exists>c \<in> set cs. move_slot w \<in> set (all_slots current c)) \<and>
    map (map move_slot) groups = map (all_slots current) cs \<and>
    map_option fst (exact_two_regret (completed_cost ps inherited lambda single_step current f0) None groups) =
      Some (move_delta w, move_slot w)"
proof -
  let ?cc = "completed_cost ps inherited lambda single_step current f0"
  obtain gs where gs: "efold (\<lambda>groups c. ebind (insertion_moves ctx sc True current c) (\<lambda>(moves, _). ret (groups @ [moves]))) [] cs = ret gs"
    "\<forall>g \<in> set gs. \<forall>m \<in> set g. fresh_cand ps rebuild inherited lambda single_step current f0 m" "map (map move_slot) gs = map (all_slots current) cs"
    using grouped_moves_cand [OF set fits ctx cs(2), of "[]" single_step] by auto
  have slots: "g \<in> set gs \<Longrightarrow> \<exists>c \<in> set cs. map move_slot g = all_slots current c" for g
    using gs(3) by (metis (mono_tags, lifting) imageE image_eqI list.set_map)
  have ne: "gs \<noteq> []" "[] \<notin> set gs"
  proof -
    show "gs \<noteq> []" using gs(3) cs(1) by auto
    show "[] \<notin> set gs"
    proof
      assume "[] \<in> set gs"
      from slots [OF this] show False using all_slots_ne [of current] by (metis list.simps(8))
    qed
  qed
  have fp: "fp_down (ctx_fp ctx) x \<le> x \<and> x \<le> fp_up (ctx_fp ctx) x" for x
    using sampler_okD(3) [OF linked_settingD(1) [OF set]] ctx by (simp add: context_fits_def rounds_def)
  have "yields False (\<lambda>(w, s'). completer_ok ps rebuild lambda single_step f0 s' \<and> linked_good ps inherited lambda current f0 w \<and>
      move_delta w = ?cc (move_slot w) \<and> (\<exists>g \<in> set gs. \<exists>m \<in> set g. move_slot w = move_slot m) \<and>
      map_option fst (exact_two_regret ?cc None gs) = Some (completed_key ?cc w))
    (choose_two_regret (evaluate_linked ps inherited lambda single_step current) release_completion (ctx_fp ctx) gs s)"
    by (rule linked.choose_two_regret_exact [where rebuild = rebuild, OF fp _ ne s])
      (use gs(2) in \<open>auto simp: fresh_cand_def linked_cand_def\<close>)
  from yields_total [OF this] obtain w s' where w: "choose_two_regret (evaluate_linked ps inherited lambda single_step current)
      release_completion (ctx_fp ctx) gs s = ret (w, s')" "completer_ok ps rebuild lambda single_step f0 s'"
      "linked_good ps inherited lambda current f0 w" "move_delta w = ?cc (move_slot w)"
      "\<exists>g \<in> set gs. \<exists>m \<in> set g. move_slot w = move_slot m"
      "map_option fst (exact_two_regret ?cc None gs) = Some (completed_key ?cc w)"
    unfolding split_paired_Ex prod.case by blast
  obtain g m where "g \<in> set gs" "m \<in> set g" "move_slot w = move_slot m" using w(5) by blast
  then have "\<exists>c \<in> set cs. move_slot w \<in> set (all_slots current c)" using slots [of g] by (metis image_eqI list.set_map)
  then show ?thesis
    using w gs by (intro exI [of _ w] exI [of _ s'] exI [of _ gs]) (simp add: linked_two_regret_def completed_key_def)
qed

section \<open>A partial solution\<close>

definition demo_partial :: solution where
  "demo_partial = \<lparr>plans = [fit_plan demo_inst [1] [[], []]]\<rparr>"

definition demo_context :: insertion_context where
  "demo_context = \<lparr>ctx_inst = demo_inst, ctx_lambda = 1, ctx_fp = demo_fp,
     ctx_bound = Some (linked_insertion_lower_bound demo_inst demo_fp True False (Some 0)), ctx_granular = None\<rparr>"

definition demo_completer :: completer_state where
  "demo_completer = \<lparr>cs_factory = demo_factory,
     cs_memo = \<lparr>capacity = 8, order = [], index = [], fresh_node = 0, hits = 0, misses = 0, evictions = 0\<rparr>\<rparr>"

lemma demo_partial_fit: "solution_fit demo_inst (allow_revisits demo_factory) demo_partial"
proof -
  have "customers_ok demo_inst [1]" by (simp add: customers_ok_def demo_inst_def)
  from fit_plan_fit(1) [OF demo_inst_ok demo_curves_ok demo_factory_ok this, of "[[], []]"]
  show ?thesis by (simp add: solution_fit_def demo_partial_def gap_ok_def)
qed

lemma demo_choice:
  obtains inherited sc where "linked_setting demo_sampler False 1 demo_partial inherited demo_factory"
    and "scorer_fits demo_inst inherited demo_partial sc" and "context_fits demo_sampler 1 demo_context"
    and "completer_ok demo_sampler False 1 True demo_factory demo_completer"
    and "set [3] \<subseteq> set (customer_ids demo_inst) - set (concat (map plan_customers (plans demo_partial)))"
proof -
  obtain m where m: "gap_map_of demo_inst demo_partial = Inr m" using gap_map_exists [OF demo_inst_ok] by blast
  have plans: "\<forall>p \<in> set (plans demo_partial). plan_ok demo_inst p"
    using solution_fitD(1) [OF demo_partial_fit] plan_fit_ok by blast
  have ref: "reference_ok demo_inst demo_partial m"
    by (rule gap_map_reference_ok [OF demo_inst_ok plans _ m]) (simp add: demo_partial_def)
  obtain sc where "make_sequence_scorer demo_inst demo_partial m = Inr sc" "scorer_inv demo_inst (gap_of m) sc"
    "map prof_customers (profiles sc) = map plan_customers (plans demo_partial)"
    using make_sequence_scorer_ok [OF demo_inst_ok demo_anchors ref] by blast
  moreover have "linked_setting demo_sampler False 1 demo_partial m demo_factory"
    using demo_sampler_ok demo_factory_ok demo_partial_fit m one_finite by (simp add: linked_setting_def linked_to_def)
  moreover have "context_fits demo_sampler 1 demo_context"
    unfolding context_fits_def demo_context_def
    by (simp add: demo_sampler_def) (intro exI [of _ True] exI [of _ False] exI [of _ "Some 0"], simp)
  moreover have "completer_ok demo_sampler False 1 True demo_factory demo_completer"
    using demo_factory_ok by (simp add: completer_ok_def demo_completer_def lru_ok_def lru_items_def memo_agrees_def)
  moreover have "set [3] \<subseteq> set (customer_ids demo_inst) - set (concat (map plan_customers (plans demo_partial)))"
    by (simp add: demo_partial_def demo_inst_def)
  ultimately show thesis using that ref by (simp add: scorer_fits_def reference_ok_def)
qed

section \<open>Properties\<close>

text \<open>
  C3: The lazy greedy insertion is exact.  Over every position of every route and the new route
  of all unassigned customers it returns the move of the least completed cost, ties by customer, route
  and position, as if every move had been completed, although it completes only those whose lower
  bound can matter and reads completions from the memo.  It never throws, so the check that no
  bound exceeds its completed cost never fires.
\<close>

theorem linked_greedy_exact:
  assumes "linked_setting ps rebuild lambda current inherited f0" and "scorer_fits (ps_inst ps) inherited current sc"
    and "context_fits ps lambda ctx" and "completer_ok ps rebuild lambda single_step f0 s"
    and "cs \<noteq> []" and "set cs \<subseteq> set (customer_ids (ps_inst ps)) - set (concat (map plan_customers (plans current)))"
  shows "\<exists>moves w s'. all_insertion_moves ctx sc True current cs = ret (moves, []) \<and>
    linked_greedy ps inherited lambda single_step current moves s = ret (w, s') \<and>
    (\<exists>c \<in> set cs. move_slot w \<in> set (all_slots current c)) \<and>
    move_delta w = completed_cost ps inherited lambda single_step current f0 (move_slot w) \<and>
    (\<forall>c \<in> set cs. \<forall>sl \<in> set (all_slots current c).
       (move_delta w, move_slot w) \<le> (completed_cost ps inherited lambda single_step current f0 sl, sl))"
proof -
  obtain ms where ms: "all_insertion_moves ctx sc True current cs = ret (ms, [])"
    "\<forall>m \<in> set ms. fresh_cand ps rebuild inherited lambda single_step current f0 m"
    "map move_slot ms = concat (map (all_slots current) cs)"
    using all_insertion_moves_cand [OF assms(1,2,3,6)] by blast
  have slots: "move_slot ` set ms = (\<Union>c \<in> set cs. set (all_slots current c))"
    using arg_cong [OF ms(3), of set] by simp
  have "ms \<noteq> []" using ms(3) assms(5) all_slots_ne [of current "hd cs"] by (cases cs) auto
  from linked_greedy_least [OF assms(1,4) this ms(2)] obtain w s' where w: "linked_greedy ps inherited lambda single_step current ms s = ret (w, s')"
    "move_delta w = completed_cost ps inherited lambda single_step current f0 (move_slot w)" "move_slot w \<in> move_slot ` set ms"
    "\<forall>m \<in> set ms. (move_delta w, move_slot w) \<le> (completed_cost ps inherited lambda single_step current f0 (move_slot m), move_slot m)"
    by blast
  have "(move_delta w, move_slot w) \<le> (completed_cost ps inherited lambda single_step current f0 sl, sl)"
    if "c \<in> set cs" "sl \<in> set (all_slots current c)" for c sl
  proof -
    have "sl \<in> move_slot ` set ms" using that slots by blast
    then show ?thesis using w(4) by blast
  qed
  then show ?thesis using ms(1) w(1-3) slots by (intro exI [of _ ms] exI [of _ w] exI [of _ s']) auto
qed

theorem linked_greedy_exact_witness:
  "\<exists>inherited sc moves w s'. all_insertion_moves demo_context sc True demo_partial [3] = ret (moves, []) \<and>
    linked_greedy demo_sampler inherited 1 True demo_partial moves demo_completer = ret (w, s') \<and>
    move_slot w \<in> {(3, 0, 0), (3, 0, 1), (3, 1, 0)}"
proof -
  obtain inherited sc where set: "linked_setting demo_sampler False 1 demo_partial inherited demo_factory"
      and d: "scorer_fits demo_inst inherited demo_partial sc" "context_fits demo_sampler 1 demo_context"
      "completer_ok demo_sampler False 1 True demo_factory demo_completer"
      "set [3] \<subseteq> set (customer_ids demo_inst) - set (concat (map plan_customers (plans demo_partial)))"
    by (rule demo_choice)
  have slots: "all_slots demo_partial 3 = [(3, 0, 0), (3, 0, 1), (3, 1, 0)]"
    by (simp add: all_slots_def route_slots_def demo_partial_def)
  from linked_greedy_exact [OF set _ d(2,3), of sc "[3]"] d(1,4)
  obtain moves w s' where "all_insertion_moves demo_context sc True demo_partial [3] = ret (moves, [])"
    "linked_greedy demo_sampler inherited 1 True demo_partial moves demo_completer = ret (w, s')"
    "\<exists>c \<in> set [3]. move_slot w \<in> set (all_slots demo_partial c)" by auto
  then show ?thesis
    using slots by (intro exI [of _ inherited] exI [of _ sc] exI [of _ moves] exI [of _ w] exI [of _ s']) simp
qed

text \<open>
  C30: The lazy two-regret insertion is exact.  It selects the customer and the move that ranking every
  customer over all of its completed insertions would select, comparing the customers in their order
  by regret with a tolerance, although a customer that cannot win is abandoned and moves whose bound cannot
  matter are not completed; it never throws.
\<close>

theorem linked_two_regret_exact:
  assumes "linked_setting ps rebuild lambda current inherited f0" and "scorer_fits (ps_inst ps) inherited current sc"
    and "context_fits ps lambda ctx" and "completer_ok ps rebuild lambda single_step f0 s"
    and "cs \<noteq> []" and "set cs \<subseteq> set (customer_ids (ps_inst ps)) - set (concat (map plan_customers (plans current)))"
  shows "\<exists>w s' groups. linked_two_regret ps inherited lambda single_step current ctx sc cs s = ret (w, s') \<and>
    completer_ok ps rebuild lambda single_step f0 s' \<and>
    move_delta w = completed_cost ps inherited lambda single_step current f0 (move_slot w) \<and>
    map (map move_slot) groups = map (all_slots current) cs \<and>
    map_option fst (exact_two_regret (completed_cost ps inherited lambda single_step current f0) None groups) =
      Some (move_delta w, move_slot w)"
  using linked_two_regret_chosen [OF assms] by blast

theorem linked_two_regret_exact_witness:
  "\<exists>inherited sc w s'. linked_two_regret demo_sampler inherited 1 True demo_partial demo_context sc [3] demo_completer = ret (w, s') \<and>
     completer_ok demo_sampler False 1 True demo_factory s'"
proof -
  obtain inherited sc where set: "linked_setting demo_sampler False 1 demo_partial inherited demo_factory"
      and d: "scorer_fits demo_inst inherited demo_partial sc" "context_fits demo_sampler 1 demo_context"
      "completer_ok demo_sampler False 1 True demo_factory demo_completer"
      "set [3] \<subseteq> set (customer_ids demo_inst) - set (concat (map plan_customers (plans demo_partial)))"
    by (rule demo_choice)
  from linked_two_regret_exact [OF set _ d(2,3), of sc "[3]"] d(1,4) show ?thesis by auto
qed

end
