(* ===== verification/Virtual_Completion.thy ===== *)
theory Virtual_Completion
  imports Insertion_Eval
begin

text \<open>
  The completion of an insertion without building a plan (src/search.cpp:
  \<open>PathSampler::virtual_complete_insertion\<close>, \<open>evaluate_virtual_insertion\<close>): only the two gaps next
  to the new customer take station paths, chosen pass by pass while the cost of the route falls,
  and the labels of the other gaps are kept.

  The option lists and the outcomes are functions of their keys; the cache of options, which
  only saves time, is left out, and the cache of outcomes is kept.  A lower bound that is not
  finite certifies nothing.  The least lower bound of the remaining options reaches a limit when every
  one of them does.
\<close>

section \<open>Options\<close>

record path_option =
  po_stations :: "int list"
  po_distance_km :: real
  po_label :: charging_label

definition path_options :: "path_sampler \<Rightarrow> int \<Rightarrow> int \<Rightarrow> path_option list result" where
  "path_options ps a b =
     rbind (ps_catalog ps a b) (rmap (\<lambda>opt.
       rbind (edge_label (ps_inst ps) a (option_stations opt) b) (\<lambda>l.
       Inr \<lparr>po_stations = option_stations opt, po_distance_km = option_distance_km opt, po_label = l\<rparr>)))"

record option_candidate =
  oc_cost :: real
  oc_side :: nat
  oc_index :: nat

type_synonym candidate_band = "real option \<times> option_candidate list"

text \<open>What a pass over the options of one side reads.\<close>

record side_context =
  sd_inst :: inst
  sd_lambda :: real
  sd_side :: nat
  sd_prefix :: charging_label
  sd_suffix :: charging_label
  sd_selected :: "int list"
  sd_incumbent :: real

definition option_lower_bound :: "side_context \<Rightarrow> path_option \<Rightarrow> real" where
  "option_lower_bound d opt =
     (let travel = label_travel_h (sd_prefix d) + label_travel_h (po_label opt) + label_travel_h (sd_suffix d);
          service = label_service_h (sd_prefix d) + label_service_h (po_label opt) + label_service_h (sd_suffix d)
      in travel + sd_lambda d * max 0 (travel + service - max_route_duration_h (vehicle_of (sd_inst d))))"

text \<open>\<open>suffix_minimum_lower_bound\<close> of these options is at least the limit.\<close>

definition none_improves :: "side_context \<Rightarrow> path_option list \<Rightarrow> bool" where
  "none_improves d opts =
     list_all (\<lambda>opt. po_stations opt = sd_selected d \<or>
       isfinite (option_lower_bound d opt) \<and> option_lower_bound d opt \<ge> sd_incumbent d - kCostTolerance) opts"

definition label_cost :: "inst \<Rightarrow> real \<Rightarrow> charging_label \<Rightarrow> real eff" where
  "label_cost I lambda l = ebind (evaluate_label I l) (\<lambda>s. lifted (summary_cost s I lambda))"

definition admit_candidate :: "option_candidate \<Rightarrow> candidate_band \<Rightarrow> candidate_band" where
  "admit_candidate r b =
     (let lowered = (case fst b of None \<Rightarrow> True | Some m \<Rightarrow> oc_cost r < m);
          least = (if lowered then oc_cost r else the (fst b));
          items = (if lowered then filter (\<lambda>x. \<not> oc_cost x > least + kCostTolerance) (snd b) else snd b)
      in (Some least, if oc_cost r \<le> least + kCostTolerance then items @ [r] else items))"

fun scan_side :: "side_context \<Rightarrow> nat \<Rightarrow> path_option list \<Rightarrow> candidate_band \<Rightarrow> candidate_band eff" where
  "scan_side d i [] b = ret b"
| "scan_side d i (opt # opts) b =
     (if po_stations opt = sd_selected d then scan_side d (i + 1) opts b
      else if none_improves d (opt # opts) then ret b
      else if option_lower_bound d opt \<ge> sd_incumbent d - kCostTolerance then scan_side d (i + 1) opts b
      else ebind (lifted (rbind (append_label (sd_prefix d) (po_label opt)) (\<lambda>l. append_label l (sd_suffix d)))) (\<lambda>candidate.
           ebind (label_cost (sd_inst d) (sd_lambda d) candidate) (\<lambda>c.
           scan_side d (i + 1) opts
             (if c \<ge> sd_incumbent d - kCostTolerance then b
              else admit_candidate \<lparr>oc_cost = c, oc_side = sd_side d, oc_index = i\<rparr> b))))"

section \<open>The passes\<close>

text \<open>What does not change: customers, position of the new one, outer labels, options of both sides.\<close>

record virtual_route =
  vr_inst :: inst
  vr_lambda :: real
  vr_customers :: "int list"
  vr_position :: nat
  vr_outer_prefix :: charging_label
  vr_outer_suffix :: charging_label
  vr_options :: "path_option list \<times> path_option list"

record virtual_state =
  vs_gaps :: "int list list"
  vs_edges :: "charging_label list"
  vs_selected :: "int list \<times> int list"
  vs_summary :: route_cost_summary
  vs_cost :: real

definition evaluate_edges :: "inst \<Rightarrow> charging_label list \<Rightarrow> route_cost_summary eff" where
  "evaluate_edges I edges = ebind (lifted (rfold append_label empty_label edges)) (evaluate_label I)"

definition scan_options_of_sides :: "virtual_route \<Rightarrow> virtual_state \<Rightarrow> candidate_band eff" where
  "scan_options_of_sides R v =
     ebind (lifted (concatenate (vr_outer_prefix R) (vs_edges v ! vr_position R))) (\<lambda>right_prefix.
     ebind (lifted (concatenate (vs_edges v ! (vr_position R + 1)) (vr_outer_suffix R))) (\<lambda>left_suffix.
     ebind (scan_side \<lparr>sd_inst = vr_inst R, sd_lambda = vr_lambda R, sd_side = 0, sd_prefix = vr_outer_prefix R,
              sd_suffix = left_suffix, sd_selected = fst (vs_selected v), sd_incumbent = vs_cost v\<rparr>
              0 (fst (vr_options R)) (None, []))
           (scan_side \<lparr>sd_inst = vr_inst R, sd_lambda = vr_lambda R, sd_side = 1, sd_prefix = right_prefix,
              sd_suffix = vr_outer_suffix R, sd_selected = snd (vs_selected v), sd_incumbent = vs_cost v\<rparr>
              0 (snd (vr_options R)))))"

definition candidate_option :: "virtual_route \<Rightarrow> option_candidate \<Rightarrow> path_option" where
  "candidate_option R c = (if oc_side c = 0 then fst (vr_options R) else snd (vr_options R)) ! oc_index c"

definition smaller_candidate ::
  "virtual_route \<Rightarrow> int list list \<Rightarrow> (option_candidate \<times> int list) option \<Rightarrow> option_candidate \<Rightarrow>
     (option_candidate \<times> int list) option result" where
  "smaller_candidate R gs best_opt c =
     rbind (expand_route (vr_customers R) (gs[vr_position R + oc_side c := po_stations (candidate_option R c)])) (\<lambda>route.
       Inr (case best_opt of None \<Rightarrow> Some (c, visits route)
            | Some (b, bv) \<Rightarrow> if visits route < bv then Some (c, visits route) else best_opt))"

definition take_option :: "virtual_route \<Rightarrow> option_candidate \<Rightarrow> virtual_state \<Rightarrow> virtual_state eff" where
  "take_option R c v =
     (let opt = candidate_option R c; gap = vr_position R + oc_side c;
          edges = (vs_edges v)[gap := po_label opt]
      in ebind (evaluate_edges (vr_inst R) edges) (\<lambda>s.
         ebind (lifted (summary_cost s (vr_inst R) (vr_lambda R))) (\<lambda>cost.
         ret \<lparr>vs_gaps = (vs_gaps v)[gap := po_stations opt], vs_edges = edges,
              vs_selected = (if oc_side c = 0 then (po_stations opt, snd (vs_selected v)) else (fst (vs_selected v), po_stations opt)),
              vs_summary = s, vs_cost = cost\<rparr>)))"

text \<open>One pass: \<open>None\<close> when no option improves.\<close>

definition virtual_pass :: "virtual_route \<Rightarrow> virtual_state \<Rightarrow> virtual_state option eff" where
  "virtual_pass R v =
     ebind (scan_options_of_sides R v) (\<lambda>(least, items).
     ebind (lifted (rfold (smaller_candidate R (vs_gaps v)) None items)) (\<lambda>best_opt.
     case best_opt of None \<Rightarrow> ret None
     | Some (c, _) \<Rightarrow> ebind (take_option R c v) (\<lambda>v'. ret (Some v'))))"

partial_function (option) virtual_passes :: "virtual_route \<Rightarrow> virtual_state \<Rightarrow> virtual_state eff" where
  "virtual_passes R v =
     (case virtual_pass R v of
        None \<Rightarrow> None
      | Some (Inl e) \<Rightarrow> Some (Inl e)
      | Some (Inr None) \<Rightarrow> Some (Inr v)
      | Some (Inr (Some v')) \<Rightarrow> virtual_passes R v')"

section \<open>The completion\<close>

definition source_gaps :: "plan option \<Rightarrow> nat \<Rightarrow> int list list result" where
  "source_gaps source position =
     (case source of None \<Rightarrow> Inr [[], []]
      | Some p \<Rightarrow>
          if length (gaps p) \<noteq> length (plan_customers p) + 1 then Inl (Logic_Error ''source plan has invalid gap count'')
          else Inr (map (\<lambda>gap. if gap = position \<or> gap = position + 1 then []
                       else gaps p ! (if gap < position then gap else gap - 1)) [0..<length (plan_customers p) + 2]))"

definition source_customers :: "plan option \<Rightarrow> int list" where
  "source_customers source = (case source of None \<Rightarrow> [] | Some p \<Rightarrow> plan_customers p)"

definition virtual_outcome :: "int list \<Rightarrow> nat \<Rightarrow> route_cost_summary \<Rightarrow> virtual_state \<Rightarrow> virtual_completion" where
  "virtual_outcome anc position direct v =
     \<lparr>virtual_summary = vs_summary v, virtual_cost_h = vs_cost v,
      virtual_gaps = [(anc ! position, anc ! (position + 1)), (anc ! (position + 1), anc ! (position + 2))],
      virtual_paths = [fst (vs_selected v), snd (vs_selected v)],
      virtual_changed = (vs_gaps v ! position \<noteq> [] \<or> vs_gaps v ! (position + 1) \<noteq> []),
      virtual_repairs = (\<not> feasible direct \<and> feasible (vs_summary v))\<rparr>"

definition virtual_complete :: "path_sampler \<Rightarrow> plan option \<Rightarrow> nat \<Rightarrow> int \<Rightarrow> real \<Rightarrow> virtual_completion eff" where
  "virtual_complete ps source position c lambda =
     (let I = ps_inst ps; cs = take position (source_customers source) @ c # drop position (source_customers source)
      in ebind (lifted (plan_anchors I cs)) (\<lambda>anc.
         ebind (lifted (source_gaps source position)) (\<lambda>gs.
         ebind (lifted (rmap (\<lambda>gap. edge_label I (anc ! gap) (gs ! gap) (anc ! (gap + 1))) [0..<length gs])) (\<lambda>edges.
         ebind (evaluate_edges I edges) (\<lambda>direct.
         ebind (lifted (summary_cost direct I lambda)) (\<lambda>cost.
         ebind (lifted (path_options ps (anc ! position) (anc ! (position + 1)))) (\<lambda>left_options.
         ebind (lifted (path_options ps (anc ! (position + 1)) (anc ! (position + 2)))) (\<lambda>right_options.
         ebind (lifted (rfold concatenate empty_label (take position edges))) (\<lambda>outer_prefix.
         ebind (lifted (rfold (\<lambda>suffix e. concatenate e suffix) empty_label (rev (drop (position + 2) edges)))) (\<lambda>outer_suffix.
         ebind (virtual_passes \<lparr>vr_inst = I, vr_lambda = lambda, vr_customers = cs, vr_position = position,
                  vr_outer_prefix = outer_prefix, vr_outer_suffix = outer_suffix, vr_options = (left_options, right_options)\<rparr>
                  \<lparr>vs_gaps = gs, vs_edges = edges, vs_selected = ([], []), vs_summary = direct, vs_cost = cost\<rparr>) (\<lambda>v.
         ret (virtual_outcome anc position direct v))))))))))))"

text \<open>The cache of the sampler over all calls; its keys hold the penalty.\<close>

type_synonym virtual_key = "int list \<times> int \<times> nat \<times> real \<times> bool"

definition virtual_complete_insertion ::
  "path_sampler \<Rightarrow> plan option \<Rightarrow> nat \<Rightarrow> int \<Rightarrow> real \<Rightarrow> (virtual_key, virtual_completion) lru_cache \<Rightarrow>
     (virtual_completion \<times> (virtual_key, virtual_completion) lru_cache) eff" where
  "virtual_complete_insertion ps source position c lambda cache =
     (if position > length (source_customers source) then throw (Out_Of_Range ''virtual insertion has invalid position'')
      else let key = (case source of None \<Rightarrow> [] | Some p \<Rightarrow> visits (plan_route p), c, position, lambda, source = None)
           in case lru_get key cache of
                (Some out, cache') \<Rightarrow> ret (out, cache')
              | (None, cache') \<Rightarrow>
                  ebind (virtual_complete ps source position c lambda) (\<lambda>out. ret (out, lru_put key out cache')))"

section \<open>The completion of a move\<close>

record virtual_completer =
  vc_cache :: "(virtual_key, virtual_completion) lru_cache"
  vc_memo :: "(insertion_key, virtual_completion) lru_cache"

definition kVirtualInsertionCompletionMemoCapacity :: nat where
  "kVirtualInsertionCompletionMemoCapacity = 8192"

definition adopt_virtual :: "insertion_move \<Rightarrow> virtual_completion \<Rightarrow> insertion_move result" where
  "adopt_virtual m out =
     (let delta = virtual_cost_h out - incumbent_route_cost m
      in if beyond (bound_delta m) delta then Inl (Logic_Error ''virtual insertion lower bound exceeded its completed cost'')
         else Inr (m\<lparr>move_delta := delta, infeasible_to_feasible := virtual_repairs out,
                     move_virtual := Some out, move_evaluated := True\<rparr>))"

definition evaluate_virtual :: "path_sampler \<Rightarrow> real \<Rightarrow> solution \<Rightarrow> virtual_completer completer" where
  "evaluate_virtual ps lambda current m s =
     (if move_virtual m \<noteq> None then ret (m, s)
      else case lru_get (completion_key current m) (vc_memo s) of
        (Some out, memo) \<Rightarrow> ebind (lifted (adopt_virtual m out)) (\<lambda>m'. ret (m', s\<lparr>vc_memo := memo\<rparr>))
      | (None, memo) \<Rightarrow>
          ebind (virtual_complete_insertion ps
                   (if move_route m = length (plans current) then None else Some (plans current ! move_route m))
                   (move_position m) (move_customer m) lambda (vc_cache s)) (\<lambda>(out, cache).
          ebind (lifted (adopt_virtual m out)) (\<lambda>m'.
          ret (m', \<lparr>vc_cache = cache, vc_memo = lru_put (completion_key current m) out memo\<rparr>))))"

definition release_virtual :: "insertion_move \<Rightarrow> insertion_move" where
  "release_virtual m = m\<lparr>move_virtual := None\<rparr>"

definition lazy_greedy ::
  "path_sampler \<Rightarrow> real \<Rightarrow> solution \<Rightarrow> insertion_move list \<Rightarrow> virtual_completer \<Rightarrow> (insertion_move \<times> virtual_completer) eff" where
  "lazy_greedy ps lambda current = choose_greedy (evaluate_virtual ps lambda current) release_virtual"

definition lazy_two_regret ::
  "path_sampler \<Rightarrow> real \<Rightarrow> solution \<Rightarrow> insertion_move list \<Rightarrow> int list \<Rightarrow> virtual_completer \<Rightarrow>
     (insertion_move \<times> virtual_completer) eff" where
  "lazy_two_regret ps lambda current moves unassigned s =
     ebind (lifted (group_moves moves unassigned)) (\<lambda>groups.
     choose_two_regret (evaluate_virtual ps lambda current) release_virtual (ps_fp ps) groups s)"

end
