(* ===== verification/Construction.thy ===== *)
theory Construction
  imports Virtual_Completion Solver_Control
begin

text \<open>
  The insertion of customers one by one (src/search.cpp: \<open>InitialSolutionBuilder::build\<close> and
  \<open>Perturbation::repair\<close>): inherited paths of the partial solution, a rebound scorer, the choice of
  the profile, the new plan.  The variants that keep station visits are not modelled.

  The Mersenne Twister is a parameter: \<open>draw lo hi\<close> stands for
  \<open>std::uniform_int_distribution\<close> and \<open>shuffle_order n\<close> for the positions that \<open>std::shuffle\<close>
  brings a range of \<open>n\<close> elements into.
\<close>

section \<open>The random stream\<close>

record 'r random_source =
  draw :: "nat \<Rightarrow> nat \<Rightarrow> 'r \<Rightarrow> nat \<times> 'r"
  shuffle_order :: "nat \<Rightarrow> 'r \<Rightarrow> nat list \<times> 'r"

definition random_index :: "'r random_source \<Rightarrow> 'a list \<Rightarrow> 'r \<Rightarrow> (nat \<times> 'r) result" where
  "random_index rng values r =
     (if values = [] then Inl (Invalid_Argument ''cannot select from an empty collection'')
      else Inr (draw rng 0 (length values - 1) r))"

definition shuffled :: "'r random_source \<Rightarrow> 'a list \<Rightarrow> 'r \<Rightarrow> 'a list \<times> 'r" where
  "shuffled rng xs r = (case shuffle_order rng (length xs) r of (perm, r') \<Rightarrow> (map (\<lambda>i. xs ! i) perm, r'))"

section \<open>The members of the builder\<close>

text \<open>
  The sampler with the members its lower bound reads, the profile, \<open>rebuild_station_paths_\<close>
  and the granular neighbourhood (none for the other profiles and for small instances).  The
  perturbation completes in single steps and collects hints, the construction does not.
\<close>

type_synonym path_hint = "(int \<times> int) \<times> int list"

record heuristic =
  h_sampler :: path_sampler
  h_implicit :: bool
  h_slack :: "real option"
  h_profile :: search_profile
  h_rebuild :: bool
  h_single_step :: bool
  h_granular :: "granular option"
  h_hints :: bool

definition h_inst :: "heuristic \<Rightarrow> inst" where
  "h_inst h = ps_inst (h_sampler h)"

text \<open>The checks of the constructor.\<close>

definition builder_check :: "search_profile \<Rightarrow> bool \<Rightarrow> bool \<Rightarrow> unit result" where
  "builder_check pf rebuild preserve =
     (if (rebuild \<or> preserve) \<and> pf \<noteq> Linked_Insertion_Candidates
      then Inl (Invalid_Argument ''station initialization requires candidate completion'')
      else if rebuild \<and> preserve
      then Inl (Invalid_Argument ''rebuilt and physical initialization are exclusive'')
      else Inr ())"

definition completes_construction_winner :: "search_profile \<Rightarrow> bool" where
  "completes_construction_winner p \<longleftrightarrow> p = Linked_Winner \<or> p = Linked_Insertion_Candidates"

definition completes_insertion_candidates :: "search_profile \<Rightarrow> bool" where
  "completes_insertion_candidates p \<longleftrightarrow> p = Linked_Insertion_Candidates"

definition uses_granular_topology :: "search_profile \<Rightarrow> bool" where
  "uses_granular_topology p \<longleftrightarrow> p = Granular_Adaptive"

text \<open>What changes: the caches of the factory and the sampler, the memos of one call, the stream, the scorer.\<close>

record 'r search_state =
  ss_factory :: plan_factory
  ss_cache :: "(virtual_key, virtual_completion) lru_cache"
  ss_memo :: completion_memo
  ss_virtual_memo :: "(insertion_key, virtual_completion) lru_cache"
  ss_scorer :: "sequence_scorer option"
  ss_random :: 'r
  ss_hints :: "path_hint list"

definition insertion_context_of :: "heuristic \<Rightarrow> real \<Rightarrow> insertion_context" where
  "insertion_context_of h lambda =
     \<lparr>ctx_inst = h_inst h, ctx_lambda = lambda, ctx_fp = ps_fp (h_sampler h),
      ctx_bound = (if h_rebuild h then None
        else Some (linked_insertion_lower_bound (h_inst h) (ps_fp (h_sampler h)) (ps_complete_paths (h_sampler h))
               (h_implicit h) (h_slack h))),
      ctx_granular = h_granular h\<rparr>"

section \<open>The reference of a decision\<close>

text \<open>The plans without station paths, for the scores of rebuilt candidates.\<close>

definition direct_source :: "inst \<Rightarrow> solution \<Rightarrow> solution with_factory" where
  "direct_source I current f =
     efold (\<lambda>(s, f) p. ebind (built (plan_sequence I f (plan_customers p) None)) (\<lambda>(q, f').
              ret (\<lparr>plans = plans s @ [q]\<rparr>, f')))
       (\<lparr>plans = []\<rparr>, f) (plans current)"

definition reference_gaps :: "heuristic \<Rightarrow> solution \<Rightarrow> gap_map result" where
  "reference_gaps h current = (if h_rebuild h then Inr [] else gap_map_of (h_inst h) current)"

definition rebound_scorer ::
  "heuristic \<Rightarrow> solution \<Rightarrow> gap_map \<Rightarrow> 'r search_state \<Rightarrow> (sequence_scorer \<times> 'r search_state) eff" where
  "rebound_scorer h current inherited st =
     ebind (if h_rebuild h then direct_source (h_inst h) current (ss_factory st) else ret (current, ss_factory st)) (\<lambda>(source, f).
     ebind (lifted (case ss_scorer st of None \<Rightarrow> make_sequence_scorer (h_inst h) source inherited
                    | Some sc \<Rightarrow> reset_scorer (h_inst h) sc source inherited)) (\<lambda>sc.
     ret (sc, st\<lparr>ss_factory := f, ss_scorer := Some sc\<rparr>)))"

section \<open>The choice\<close>

text \<open>The profiles that do not complete candidates compare the direct costs.\<close>

definition keep_better :: "insertion_move option \<Rightarrow> insertion_move \<Rightarrow> insertion_move option" where
  "keep_better best_opt m =
     (case best_opt of None \<Rightarrow> Some m | Some b \<Rightarrow> if insertion_better m b then Some m else best_opt)"

definition direct_greedy ::
  "insertion_context \<Rightarrow> sequence_scorer \<Rightarrow> solution \<Rightarrow> int list \<Rightarrow> insertion_move option eff" where
  "direct_greedy ctx sc current unassigned =
     efold (\<lambda>b c. ebind (insertion_moves ctx sc False current c) (\<lambda>(ms, _). ret (foldl keep_better b ms))) None unassigned"

text \<open>\<open>insertion_better\<close> is a strict order on the moves of a customer, so that they sort uniquely.\<close>

definition sorted_moves :: "insertion_move list \<Rightarrow> insertion_move list" where
  "sorted_moves = sort_key (\<lambda>m. (move_delta m, move_slot m))"

definition keep_regret ::
  "(real option \<times> insertion_move) option \<Rightarrow> insertion_move list \<Rightarrow> (real option \<times> insertion_move) option result" where
  "keep_regret chosen ms =
     (case sorted_moves ms of
        [] \<Rightarrow> Inl (Undefined ''first of no moves'')
      | m # rest \<Rightarrow>
          let regret = (case rest of [] \<Rightarrow> None | m' # _ \<Rightarrow> Some (move_delta m' - move_delta m))
          in Inr (case chosen of None \<Rightarrow> Some (regret, m)
                  | Some (r, b) \<Rightarrow> if regret_better regret m r b then Some (regret, m) else chosen))"

definition direct_two_regret ::
  "insertion_context \<Rightarrow> sequence_scorer \<Rightarrow> solution \<Rightarrow> int list \<Rightarrow> insertion_move option eff" where
  "direct_two_regret ctx sc current unassigned =
     ebind (efold (\<lambda>chosen c. ebind (insertion_moves ctx sc False current c) (\<lambda>(ms, _). lifted (keep_regret chosen ms)))
              None unassigned) (\<lambda>chosen. ret (map_option snd chosen))"

text \<open>One of the insertions that the granular neighbourhood rejected is a candidate after all.\<close>

definition append_granular_escape ::
  "'r random_source \<Rightarrow> insertion_context \<Rightarrow> sequence_scorer \<Rightarrow> solution \<Rightarrow> insertion_move list \<Rightarrow>
     rejected_insertion list \<Rightarrow> 'r \<Rightarrow> (insertion_move list \<times> 'r) eff" where
  "append_granular_escape rng ctx sc current candidates rejected r =
     (if rejected = [] then ret (candidates, r)
      else ebind (lifted (random_index rng rejected r)) (\<lambda>(i, r').
           ebind (rejected_insertion_move ctx sc current (rejected ! i)) (\<lambda>m. ret (candidates @ [m], r'))))"

datatype repair_operator = Greedy_Insertion | Two_Regret_Insertion

definition choose_lazy ::
  "'r random_source \<Rightarrow> heuristic \<Rightarrow> real \<Rightarrow> repair_operator \<Rightarrow> solution \<Rightarrow> int list \<Rightarrow> sequence_scorer \<Rightarrow>
     'r search_state \<Rightarrow> (insertion_move \<times> 'r search_state) eff" where
  "choose_lazy rng h lambda operation current unassigned sc st =
     (let ctx = insertion_context_of h lambda
      in ebind (all_insertion_moves ctx sc True current unassigned) (\<lambda>(candidates, rejected).
         ebind (if h_granular h = None then ret (candidates, ss_random st)
                else append_granular_escape rng ctx sc current candidates rejected (ss_random st)) (\<lambda>(candidates, r).
         ebind ((case operation of
                  Greedy_Insertion \<Rightarrow> lazy_greedy (h_sampler h) lambda current candidates
                | Two_Regret_Insertion \<Rightarrow> lazy_two_regret (h_sampler h) lambda current candidates unassigned)
               \<lparr>vc_cache = ss_cache st, vc_memo = ss_virtual_memo st\<rparr>) (\<lambda>(w, s).
         ret (w, st\<lparr>ss_cache := vc_cache s, ss_virtual_memo := vc_memo s, ss_random := r\<rparr>)))))"

definition choose_linked ::
  "heuristic \<Rightarrow> real \<Rightarrow> repair_operator \<Rightarrow> solution \<Rightarrow> int list \<Rightarrow> gap_map \<Rightarrow> sequence_scorer \<Rightarrow>
     'r search_state \<Rightarrow> (insertion_move \<times> 'r search_state) eff" where
  "choose_linked h lambda operation current unassigned inherited sc st =
     (let ctx = insertion_context_of h lambda; s = \<lparr>cs_factory = ss_factory st, cs_memo = ss_memo st\<rparr>
      in ebind (case operation of
                  Greedy_Insertion \<Rightarrow>
                    ebind (all_insertion_moves ctx sc True current unassigned) (\<lambda>(moves, _).
                    linked_greedy (h_sampler h) inherited lambda (h_single_step h) current moves s)
                | Two_Regret_Insertion \<Rightarrow>
                    linked_two_regret (h_sampler h) inherited lambda (h_single_step h) current ctx sc unassigned s) (\<lambda>(w, s').
         ret (w, st\<lparr>ss_factory := cs_factory s', ss_memo := cs_memo s'\<rparr>)))"

definition choose_direct ::
  "heuristic \<Rightarrow> real \<Rightarrow> repair_operator \<Rightarrow> solution \<Rightarrow> int list \<Rightarrow> sequence_scorer \<Rightarrow> insertion_move eff" where
  "choose_direct h lambda operation current unassigned sc =
     (let ctx = insertion_context_of h lambda
      in ebind (case operation of
                  Greedy_Insertion \<Rightarrow> direct_greedy ctx sc current unassigned
                | Two_Regret_Insertion \<Rightarrow> direct_two_regret ctx sc current unassigned) (\<lambda>chosen.
         case chosen of None \<Rightarrow> throw (Undefined ''empty optional'') | Some m \<Rightarrow> ret m))"

definition choose_insertion ::
  "'r random_source \<Rightarrow> heuristic \<Rightarrow> real \<Rightarrow> repair_operator \<Rightarrow> solution \<Rightarrow> int list \<Rightarrow> gap_map \<Rightarrow> sequence_scorer \<Rightarrow>
     'r search_state \<Rightarrow> (insertion_move \<times> 'r search_state) eff" where
  "choose_insertion rng h lambda operation current unassigned inherited sc st =
     (if uses_granular_topology (h_profile h) then choose_lazy rng h lambda operation current unassigned sc st
      else if completes_insertion_candidates (h_profile h) then choose_linked h lambda operation current unassigned inherited sc st
      else ebind (choose_direct h lambda operation current unassigned sc) (\<lambda>m. ret (m, st)))"

section \<open>The new plan\<close>

text \<open>The hints of a virtual completion replace those of the gap it splits and of its two gaps.\<close>

definition update_insertion_hints :: "inst \<Rightarrow> solution \<Rightarrow> insertion_move \<Rightarrow> path_hint list \<Rightarrow> path_hint list result" where
  "update_insertion_hints I current m hints =
     rbind (if move_route m < length (plans current)
            then rbind (plan_anchors I (plan_customers (plans current ! move_route m))) (\<lambda>anc.
                 Inr (filter (\<lambda>hint. fst hint \<noteq> (anc ! move_position m, anc ! (move_position m + 1))) hints))
            else Inr hints) (\<lambda>hints.
     Inr (case move_virtual m of None \<Rightarrow> hints
          | Some out \<Rightarrow>
              foldl (\<lambda>hs side. let kept = filter (\<lambda>hint. fst hint \<noteq> virtual_gaps out ! side) hs
                  in if virtual_paths out ! side \<noteq> [] then kept @ [(virtual_gaps out ! side, virtual_paths out ! side)] else kept)
                hints [0, 1]))"

definition apply_insertion :: "solution \<Rightarrow> nat \<Rightarrow> plan \<Rightarrow> solution" where
  "apply_insertion current r p =
     \<lparr>plans = (if r = length (plans current) then plans current @ [p] else (plans current)[r := p])\<rparr>"

definition materialized ::
  "heuristic \<Rightarrow> real \<Rightarrow> solution \<Rightarrow> gap_map \<Rightarrow> insertion_move \<Rightarrow> plan with_factory" where
  "materialized h lambda current inherited m f =
     ebind (case move_completion m of
              Some out \<Rightarrow> if uses_granular_topology (h_profile h)
                then built (plan_sequence_with (h_inst h) f (insertion_sequence current m) inherited)
                else ret (completed_plan out, f)
            | None \<Rightarrow> built (plan_sequence_with (h_inst h) f (insertion_sequence current m) inherited)) (\<lambda>(p, f').
     if h_profile h = Linked_Winner then repair_new_gaps (h_sampler h) p inherited lambda False f' else ret (p, f'))"

section \<open>The loop\<close>

definition insertion_step ::
  "'r random_source \<Rightarrow> heuristic \<Rightarrow> real \<Rightarrow> repair_operator \<Rightarrow> solution \<Rightarrow> int list \<Rightarrow> 'r search_state \<Rightarrow>
     (solution \<times> int list \<times> 'r search_state) eff" where
  "insertion_step rng h lambda operation current unassigned st =
     ebind (lifted (reference_gaps h current)) (\<lambda>inherited.
     ebind (rebound_scorer h current inherited st) (\<lambda>(sc, st).
     ebind (choose_insertion rng h lambda operation current unassigned inherited sc st) (\<lambda>(m, st).
     ebind (lifted (if h_hints h \<and> uses_granular_topology (h_profile h)
                    then update_insertion_hints (h_inst h) current m (ss_hints st) else Inr (ss_hints st))) (\<lambda>hints.
     ebind (materialized h lambda current inherited m (ss_factory st)) (\<lambda>(p, f).
     ret (apply_insertion current (move_route m) p, filter (\<lambda>c. c \<noteq> move_customer m) unassigned,
          st\<lparr>ss_factory := f, ss_hints := hints\<rparr>))))))"

partial_function (option) insert_all ::
  "'r random_source \<Rightarrow> heuristic \<Rightarrow> real \<Rightarrow> repair_operator \<Rightarrow> solution \<Rightarrow> int list \<Rightarrow> 'r search_state \<Rightarrow>
     (solution \<times> 'r search_state) eff" where
  "insert_all rng h lambda operation current unassigned st =
     (if unassigned = [] then Some (Inr (current, st))
      else case insertion_step rng h lambda operation current unassigned st of
             None \<Rightarrow> None
           | Some (Inl e) \<Rightarrow> Some (Inl e)
           | Some (Inr (current', unassigned', st')) \<Rightarrow> insert_all rng h lambda operation current' unassigned' st')"

text \<open>The memos of one construction or repair start empty.\<close>

definition fresh_memos :: "'r search_state \<Rightarrow> 'r search_state result" where
  "fresh_memos st =
     rbind (lru_new kInsertionCompletionMemoCapacity) (\<lambda>memo.
     rbind (lru_new kVirtualInsertionCompletionMemoCapacity) (\<lambda>virtual_memo.
     Inr (st\<lparr>ss_memo := memo, ss_virtual_memo := virtual_memo, ss_hints := []\<rparr>)))"

section \<open>Construction\<close>

text \<open>The route of a random customer.\<close>

definition first_route ::
  "'r random_source \<Rightarrow> heuristic \<Rightarrow> real \<Rightarrow> 'r search_state \<Rightarrow> (plan \<times> int list \<times> 'r search_state) eff" where
  "first_route rng h lambda st =
     ebind (lifted (random_index rng (customer_ids (h_inst h)) (ss_random st))) (\<lambda>(i, r).
     let first = customer_ids (h_inst h) ! i;
         unassigned = take i (customer_ids (h_inst h)) @ drop (i + 1) (customer_ids (h_inst h))
     in ebind (built (plan_sequence (h_inst h) (ss_factory st) [first] None)) (\<lambda>(p, f).
        ebind (if completes_construction_winner (h_profile h) then repair_new_gaps (h_sampler h) p [] lambda False f
               else ret (p, f)) (\<lambda>(p, f).
        ret (p, unassigned, st\<lparr>ss_factory := f, ss_random := r\<rparr>))))"

text \<open>The scorer of a construction is its own.\<close>

definition build ::
  "'r random_source \<Rightarrow> heuristic \<Rightarrow> real \<Rightarrow> 'r search_state \<Rightarrow> (solution \<times> 'r search_state) eff" where
  "build rng h lambda st =
     ebind (first_route rng h lambda st) (\<lambda>(p, unassigned, st').
     ebind (lifted (fresh_memos (st'\<lparr>ss_scorer := None\<rparr>))) (\<lambda>st'.
     ebind (insert_all rng h lambda Greedy_Insertion \<lparr>plans = [p]\<rparr> unassigned st') (\<lambda>(current, st').
     ebind (lifted (validate_partition (h_inst h) current)) (\<lambda>_.
     ret (current, st'\<lparr>ss_scorer := ss_scorer st\<rparr>)))))"

definition repair ::
  "'r random_source \<Rightarrow> heuristic \<Rightarrow> real \<Rightarrow> repair_operator \<Rightarrow> solution \<Rightarrow> int list \<Rightarrow> 'r search_state \<Rightarrow>
     (solution \<times> 'r search_state) eff" where
  "repair rng h lambda operation remaining removed st =
     ebind (lifted (fresh_memos st)) (\<lambda>st.
     ebind (insert_all rng h lambda operation remaining removed st) (\<lambda>(current, st).
     ebind (lifted (validate_partition (h_inst h) current)) (\<lambda>_. ret (current, st))))"

end
