(* ===== verification/Path_Moves.thy ===== *)
theory Path_Moves
  imports Construction
begin

text \<open>
  Replacements of single gap paths (src/search.cpp: \<open>PathSampler::improving_atomic_replacement\<close>,
  \<open>apply_insertion_hints\<close>, \<open>limited_random_replacement\<close>, \<open>quasi_exhaustive_replacement\<close>), as they run
  without a deadline.  A proposed path is scored by labels first; the plan is built
  only when the labels promise an improvement, and kept when its evaluation confirms it.
\<close>

section \<open>One replacement\<close>

definition gap_edges :: "inst \<Rightarrow> int list \<Rightarrow> int list list \<Rightarrow> charging_label list result" where
  "gap_edges I anc gs = rmap (\<lambda>gap. edge_label I (anc ! gap) (gs ! gap) (anc ! (gap + 1))) [0..<length gs]"

definition replaced_label :: "inst \<Rightarrow> int list \<Rightarrow> int list list \<Rightarrow> nat \<Rightarrow> int list \<Rightarrow> charging_label result" where
  "replaced_label I anc gs gap stations =
     rbind (gap_edges I anc gs) (\<lambda>edges.
     rbind (rfold append_label empty_label (take gap edges)) (\<lambda>pre.
     rbind (rfold (\<lambda>suf e. concatenate e suf) empty_label (rev (drop (gap + 1) edges))) (\<lambda>suf.
     rbind (edge_label I (anc ! gap) stations (anc ! (gap + 1))) (\<lambda>e.
     rbind (append_label pre e) (\<lambda>l. append_label l suf)))))"

definition improving_atomic_replacement ::
  "path_sampler \<Rightarrow> plan \<Rightarrow> nat \<Rightarrow> int list \<Rightarrow> real \<Rightarrow> plan option with_factory" where
  "improving_atomic_replacement ps p gap stations lambda f =
     (if exact_charging p \<or> gap \<ge> length (gaps p) \<or> stations = gaps p ! gap then ret (None, f)
      else let I = ps_inst ps
        in ebind (lifted (plan_anchors I (plan_customers p))) (\<lambda>anc.
           ebind (lifted (replaced_label I anc (gaps p) gap stations)) (\<lambda>candidate.
           ebind (lifted (route_label I (plan_route p))) (\<lambda>incumbent.
           ebind (label_cost I lambda incumbent) (\<lambda>incumbent_cost.
           ebind (label_cost I lambda candidate) (\<lambda>candidate_cost.
           if candidate_cost \<ge> incumbent_cost - kCostTolerance then ret (None, f)
           else ebind (built (make_plan I f (plan_customers p) ((gaps p)[gap := stations]))) (\<lambda>(q, f').
                ebind (lifted (plan_cost I lambda q)) (\<lambda>cq.
                ebind (lifted (plan_cost I lambda p)) (\<lambda>cp.
                ret (if cq \<ge> cp - kCostTolerance then None else Some q, f'))))))))))"

section \<open>Hints\<close>

text \<open>The first plan, and in it the first gap, between the two nodes of a hint.\<close>

definition hinted_gap :: "inst \<Rightarrow> path_hint \<Rightarrow> plan \<Rightarrow> nat option result" where
  "hinted_gap I hint p =
     (if exact_charging p then Inr None
      else rbind (plan_anchors I (plan_customers p)) (\<lambda>anc.
           Inr (List.find (\<lambda>gap. (anc ! gap, anc ! (gap + 1)) = fst hint) [0..<length (gaps p)])))"

fun locate_hint :: "inst \<Rightarrow> path_hint \<Rightarrow> (nat \<times> plan) list \<Rightarrow> (nat \<times> plan \<times> nat) option result" where
  "locate_hint I hint [] = Inr None"
| "locate_hint I hint ((r, p) # ps) =
     rbind (hinted_gap I hint p) (\<lambda>g. case g of None \<Rightarrow> locate_hint I hint ps | Some gap \<Rightarrow> Inr (Some (r, p, gap)))"

definition apply_hint ::
  "path_sampler \<Rightarrow> real \<Rightarrow> solution \<times> plan_factory \<Rightarrow> path_hint \<Rightarrow> (solution \<times> plan_factory) eff" where
  "apply_hint ps lambda x hint =
     (case x of (s, f) \<Rightarrow>
       ebind (lifted (locate_hint (ps_inst ps) hint (List.enumerate 0 (plans s)))) (\<lambda>located.
       case located of None \<Rightarrow> ret (s, f)
       | Some (r, p, gap) \<Rightarrow>
           if gaps p ! gap = snd hint then ret (s, f)
           else ebind (improving_atomic_replacement ps p gap (snd hint) lambda f) (\<lambda>(improved, f').
                ret (case improved of None \<Rightarrow> s | Some q \<Rightarrow> \<lparr>plans = (plans s)[r := q]\<rparr>, f'))))"

definition apply_insertion_hints :: "path_sampler \<Rightarrow> solution \<Rightarrow> path_hint list \<Rightarrow> real \<Rightarrow> solution with_factory" where
  "apply_insertion_hints ps s hints lambda f = efold (apply_hint ps lambda) (s, f) hints"

section \<open>Gaps between eligible nodes\<close>

definition has_alternative :: "path_option list \<Rightarrow> int list \<Rightarrow> bool" where
  "has_alternative opts current_path \<longleftrightarrow> list_ex (\<lambda>opt. po_stations opt \<noteq> current_path) opts"

definition eligible_of_plan ::
  "path_sampler \<Rightarrow> (int \<times> int) list \<Rightarrow> (nat \<times> nat \<times> path_option list) list \<Rightarrow> nat \<times> plan \<Rightarrow>
     (nat \<times> nat \<times> path_option list) list result" where
  "eligible_of_plan ps pairs acc rp =
     (case rp of (r, p) \<Rightarrow>
       if exact_charging p then Inr acc
       else rbind (plan_anchors (ps_inst ps) (plan_customers p)) (\<lambda>anc.
            rfold (\<lambda>acc gap.
              if (anc ! gap, anc ! (gap + 1)) \<notin> set pairs then Inr acc
              else rbind (path_options ps (anc ! gap) (anc ! (gap + 1))) (\<lambda>opts.
                   Inr (if has_alternative opts (gaps p ! gap) then acc @ [(r, gap, opts)] else acc)))
              acc [0..<length (gaps p)]))"

definition eligible_gaps ::
  "path_sampler \<Rightarrow> (int \<times> int) list \<Rightarrow> solution \<Rightarrow> (nat \<times> nat \<times> path_option list) list result" where
  "eligible_gaps ps pairs s = rfold (eligible_of_plan ps pairs) [] (List.enumerate 0 (plans s))"

section \<open>Limited random replacement\<close>

record random_paths =
  rp_solution :: solution
  rp_attempted :: "(nat \<times> int list) list list"
  rp_failures :: nat
  rp_attempts :: nat
  rp_accepted :: nat
  rp_failed :: nat

definition failure_limit :: "nat \<Rightarrow> nat" where
  "failure_limit n = min n (max 4 (min 16 (nat \<lceil>sqrt (real n)\<rceil>)))"

definition untried :: "random_paths \<Rightarrow> nat \<times> nat \<times> path_option list \<Rightarrow> path_option list" where
  "untried x g =
     (case g of (r, gap, opts) \<Rightarrow>
       filter (\<lambda>opt. po_stations opt \<noteq> gaps (plans (rp_solution x) ! r) ! gap \<and>
                (gap, po_stations opt) \<notin> set (rp_attempted x ! r)) opts)"

text \<open>The attempt of one untried option; an accepted one clears the attempts of its route.\<close>

definition attempt_option ::
  "path_sampler \<Rightarrow> real \<Rightarrow> random_paths \<Rightarrow> nat \<Rightarrow> nat \<Rightarrow> path_option \<Rightarrow> random_paths with_factory" where
  "attempt_option ps lambda x r gap opt f =
     ebind (improving_atomic_replacement ps (plans (rp_solution x) ! r) gap (po_stations opt) lambda f) (\<lambda>(improved, f').
     ret (case improved of
            Some q \<Rightarrow> x\<lparr>rp_solution := \<lparr>plans = (plans (rp_solution x))[r := q]\<rparr>, rp_attempted := (rp_attempted x)[r := []],
                       rp_attempts := rp_attempts x + 1, rp_accepted := rp_accepted x + 1, rp_failures := 0\<rparr>
          | None \<Rightarrow> x\<lparr>rp_attempted := (rp_attempted x)[r := rp_attempted x ! r @ [(gap, po_stations opt)]],
                     rp_attempts := rp_attempts x + 1, rp_failed := rp_failed x + 1, rp_failures := rp_failures x + 1\<rparr>, f'))"

definition random_path_step ::
  "'r random_source \<Rightarrow> path_sampler \<Rightarrow> real \<Rightarrow> (nat \<times> nat \<times> path_option list) list \<Rightarrow> random_paths \<Rightarrow> 'r \<Rightarrow> plan_factory \<Rightarrow>
     (random_paths option \<times> 'r \<times> plan_factory) eff" where
  "random_path_step rng ps lambda gs x r f =
     (let selectable = filter (\<lambda>k. untried x (gs ! k) \<noteq> []) [0..<length gs]
      in if selectable = [] then ret (None, r, f)
         else ebind (lifted (random_index rng selectable r)) (\<lambda>(i, r).
              let g = gs ! (selectable ! i)
              in ebind (lifted (random_index rng (untried x g) r)) (\<lambda>(j, r).
                 ebind (attempt_option ps lambda x (fst g) (fst (snd g)) (untried x g ! j) f) (\<lambda>(x', f').
                 ret (Some x', r, f')))))"

partial_function (option) random_path_loop ::
  "'r random_source \<Rightarrow> path_sampler \<Rightarrow> real \<Rightarrow> (nat \<times> nat \<times> path_option list) list \<Rightarrow> nat \<Rightarrow> random_paths \<Rightarrow> 'r \<Rightarrow> plan_factory \<Rightarrow>
     (random_paths \<times> 'r \<times> plan_factory) eff" where
  "random_path_loop rng ps lambda gs limit x r f =
     (if rp_failures x \<ge> limit then Some (Inr (x, r, f))
      else case random_path_step rng ps lambda gs x r f of
             None \<Rightarrow> None
           | Some (Inl e) \<Rightarrow> Some (Inl e)
           | Some (Inr (None, r', f')) \<Rightarrow> Some (Inr (x, r', f'))
           | Some (Inr (Some x', r', f')) \<Rightarrow> random_path_loop rng ps lambda gs limit x' r' f')"

definition limited_random_replacement ::
  "'r random_source \<Rightarrow> path_sampler \<Rightarrow> solution \<Rightarrow> real \<Rightarrow> (int \<times> int) list \<Rightarrow> 'r \<Rightarrow> plan_factory \<Rightarrow>
     (random_paths \<times> 'r \<times> plan_factory) eff" where
  "limited_random_replacement rng ps s lambda pairs r f =
     (let x = \<lparr>rp_solution = s, rp_attempted = replicate (length (plans s)) [], rp_failures = 0,
               rp_attempts = 0, rp_accepted = 0, rp_failed = 0\<rparr>
      in if pairs = [] then ret (x, r, f)
         else ebind (lifted (eligible_gaps ps pairs s)) (\<lambda>gs.
              if gs = [] then ret (x, r, f)
              else random_path_loop rng ps lambda gs (failure_limit (length gs)) x r f))"

section \<open>Quasi-exhaustive replacement\<close>

text \<open>The gaps in random order, each with its best path.\<close>

definition exhaust_gap ::
  "path_sampler \<Rightarrow> real \<Rightarrow> solution \<times> plan_factory \<Rightarrow> nat \<times> nat \<times> path_option list \<Rightarrow> (solution \<times> plan_factory) eff" where
  "exhaust_gap ps lambda x g =
     (case (x, g) of ((s, f), (r, gap, _)) \<Rightarrow>
       ebind (best_replacement_in_gaps ps (plans s ! r) lambda [gap] [] f) (\<lambda>(improved, f').
       case improved of None \<Rightarrow> ret (s, f')
       | Some q \<Rightarrow>
           ebind (lifted (plan_cost (ps_inst ps) lambda (plans s ! r))) (\<lambda>incumbent_cost.
           ebind (lifted (plan_cost (ps_inst ps) lambda q)) (\<lambda>improved_cost.
           ret (if improved_cost \<ge> incumbent_cost - kCostTolerance then s else \<lparr>plans = (plans s)[r := q]\<rparr>, f')))))"

definition quasi_exhaustive_replacement ::
  "'r random_source \<Rightarrow> path_sampler \<Rightarrow> solution \<Rightarrow> real \<Rightarrow> (int \<times> int) list \<Rightarrow> 'r \<Rightarrow> plan_factory \<Rightarrow>
     (solution \<times> 'r \<times> plan_factory) eff" where
  "quasi_exhaustive_replacement rng ps s lambda pairs r f =
     (if pairs = [] then ret (s, r, f)
      else ebind (lifted (eligible_gaps ps pairs s)) (\<lambda>gs.
           case shuffled rng gs r of (gs', r') \<Rightarrow>
             ebind (efold (exhaust_gap ps lambda) (s, f) gs') (\<lambda>(s', f'). ret (s', r', f'))))"

end
