(* ===== verification/Perturbation.thy ===== *)
theory Perturbation
  imports Path_Moves
begin

text \<open>
  Destroy and repair (src/search.cpp: \<open>Perturbation\<close> without the variant that keeps station
  visits): one of four operators selects customers to remove, the remaining routes inherit their
  paths, and the removed customers are inserted again.
\<close>

section \<open>Partial solutions\<close>

definition all_customers :: "solution \<Rightarrow> int list" where
  "all_customers s = concat (map plan_customers (plans s))"

definition remove_customers :: "solution \<Rightarrow> int list \<Rightarrow> int list list" where
  "remove_customers s removed =
     filter (\<lambda>cs. cs \<noteq> []) (map (\<lambda>p. filter (\<lambda>c. c \<notin> set removed) (plan_customers p)) (plans s))"

text \<open>An unchanged customer sequence keeps its plan; the others inherit gap paths.\<close>

definition sequence_plan :: "inst \<Rightarrow> plan list \<Rightarrow> gap_map option \<Rightarrow> int list \<Rightarrow> plan with_factory" where
  "sequence_plan I unchanged inherited cs f =
     (case List.find (\<lambda>p. plan_customers p = cs) unchanged of
        Some p \<Rightarrow> ret (p, f)
      | None \<Rightarrow> (case inherited of None \<Rightarrow> built (plan_sequence I f cs None)
                 | Some m \<Rightarrow> built (plan_sequence_with I f cs m)))"

definition build_solution_from_sequences ::
  "inst \<Rightarrow> int list list \<Rightarrow> solution option \<Rightarrow> solution with_factory" where
  "build_solution_from_sequences I sequences reference f =
     ebind (lifted (case reference of None \<Rightarrow> Inr None | Some s \<Rightarrow> rbind (gap_map_of I s) (\<lambda>m. Inr (Some m)))) (\<lambda>inherited.
     efold (\<lambda>(s, f) cs.
       if cs = [] then ret (s, f)
       else ebind (sequence_plan I (case reference of None \<Rightarrow> [] | Some s \<Rightarrow> plans s) inherited cs f) (\<lambda>(p, f').
            ret (\<lparr>plans = plans s @ [p]\<rparr>, f')))
       (\<lparr>plans = []\<rparr>, f) sequences)"

section \<open>Quotas\<close>

text \<open>The partial Fisher-Yates shuffle: \<open>swap\<close> of two positions.\<close>

definition swapped :: "nat list \<Rightarrow> nat \<Rightarrow> nat \<Rightarrow> nat list" where
  "swapped xs i j = xs[i := xs ! j, j := xs ! i]"

definition fisher_yates :: "'r random_source \<Rightarrow> nat \<Rightarrow> nat \<Rightarrow> 'r \<Rightarrow> nat list \<times> 'r" where
  "fisher_yates rng n quota r =
     foldl (\<lambda>(positions, r) k. case draw rng k (n - 1) r of (j, r') \<Rightarrow> (swapped positions k j, r'))
       ([0..<n], r) [0..<quota]"

datatype partial_route_subset = Prefix_Subset | Random_Subset

definition append_up_to_quota ::
  "'r random_source \<Rightarrow> partial_route_subset \<Rightarrow> nat \<Rightarrow> bool \<Rightarrow> int list \<times> 'r \<Rightarrow> int list \<Rightarrow> int list \<times> 'r" where
  "append_up_to_quota rng policy removal_count route_oriented x customers =
     (case x of (removed, r) \<Rightarrow>
       let quota = min (length customers) (removal_count - length removed)
       in if quota = 0 then (removed, r)
          else if route_oriented \<and> quota < length customers \<and> policy = Random_Subset
          then case fisher_yates rng (length customers) quota r of (positions, r') \<Rightarrow>
                 (removed @ map (\<lambda>i. customers ! i) (sort (take quota positions)), r')
          else (removed @ take quota customers, r))"

fun fill_quota ::
  "'r random_source \<Rightarrow> partial_route_subset \<Rightarrow> nat \<Rightarrow> int list \<times> 'r \<Rightarrow> int list list \<Rightarrow> int list \<times> 'r" where
  "fill_quota rng policy removal_count x [] = x"
| "fill_quota rng policy removal_count x (cs # css) =
     (if length (fst x) \<ge> removal_count then x
      else fill_quota rng policy removal_count (append_up_to_quota rng policy removal_count True x cs) css)"

section \<open>The operators\<close>

datatype destroy_operator = Random_Removal | Random_Route | Target_Removal | Closest_Removal

definition random_removal :: "'r random_source \<Rightarrow> nat \<Rightarrow> int list \<Rightarrow> 'r \<Rightarrow> int list \<times> 'r" where
  "random_removal rng removal_count customers r =
     (case shuffled rng customers r of (cs, r') \<Rightarrow> (take removal_count cs, r'))"

definition random_route ::
  "'r random_source \<Rightarrow> partial_route_subset \<Rightarrow> nat \<Rightarrow> solution \<Rightarrow> 'r \<Rightarrow> int list \<times> 'r" where
  "random_route rng policy removal_count s r =
     (case shuffled rng [0..<length (plans s)] r of (route_order, r') \<Rightarrow>
        fill_quota rng policy removal_count ([], r') (map (\<lambda>k. plan_customers (plans s ! k)) route_order))"

definition closest_removal ::
  "'r random_source \<Rightarrow> partial_route_subset \<Rightarrow> inst \<Rightarrow> nat \<Rightarrow> int list \<Rightarrow> 'r \<Rightarrow> (int list \<times> 'r) result" where
  "closest_removal rng policy I removal_count customers r =
     rbind (random_index rng customers r) (\<lambda>(i, r').
     let seed = customers ! i
     in rbind (rmap (\<lambda>c. rbind (distance_km I seed c) (\<lambda>d. Inr (d, c))) (filter (\<lambda>c. c \<noteq> seed) customers)) (\<lambda>ranked.
        Inr (append_up_to_quota rng policy removal_count False ([seed], r') (map snd (sort ranked)))))"

text \<open>What the route of a customer would save without it.\<close>

record target_contribution =
  tc_value :: real
  tc_customer :: int
  tc_route :: nat

definition contribution_of ::
  "inst \<Rightarrow> sequence_scorer \<Rightarrow> real \<Rightarrow> plan \<Rightarrow> real \<Rightarrow> nat \<Rightarrow> target_contribution list \<Rightarrow> int \<Rightarrow> target_contribution list eff" where
  "contribution_of I sc lambda p current_cost r acc c =
     ebind (if length (plan_customers p) > 1
            then ebind (score_sequence I sc (filter (\<lambda>d. d \<noteq> c) (plan_customers p))) (\<lambda>s. lifted (summary_cost s I lambda))
            else ret 0) (\<lambda>reduced_cost.
     ret (acc @ [\<lparr>tc_value = current_cost - reduced_cost, tc_customer = c, tc_route = r\<rparr>]))"

definition contributions ::
  "inst \<Rightarrow> sequence_scorer \<Rightarrow> real \<Rightarrow> solution \<Rightarrow> target_contribution list eff" where
  "contributions I sc lambda s =
     efold (\<lambda>acc (r, p). ebind (lifted (plan_cost I lambda p)) (\<lambda>current_cost.
              efold (contribution_of I sc lambda p current_cost r) acc (plan_customers p)))
       [] (List.enumerate 0 (plans s))"

definition target_of :: "target_contribution list \<Rightarrow> target_contribution" where
  "target_of cs =
     (let m = foldl (\<lambda>m c. if tc_value m < tc_value c then c else m) (hd cs) (tl cs)
      in foldl (\<lambda>s c. if tc_value m - tc_value c \<le> kCostTolerance \<and>
                        (tc_customer c, tc_route c) < (tc_customer s, tc_route s) then c else s) m cs)"

text \<open>The distance of a route is infinite when it has no customer.\<close>

definition route_distance :: "inst \<Rightarrow> int \<Rightarrow> plan \<Rightarrow> real option result" where
  "route_distance I target p =
     rfold (\<lambda>d c. rbind (distance_km I target c) (\<lambda>x. Inr (Some (case d of None \<Rightarrow> x | Some y \<Rightarrow> min y x))))
       None (plan_customers p)"

definition route_rank :: "real option \<Rightarrow> nat \<Rightarrow> nat \<times> real \<times> nat" where
  "route_rank d r = (case d of None \<Rightarrow> (1, 0, r) | Some x \<Rightarrow> (0, x, r))"

definition target_removal ::
  "'r random_source \<Rightarrow> partial_route_subset \<Rightarrow> inst \<Rightarrow> sequence_scorer \<Rightarrow> real \<Rightarrow> nat \<Rightarrow> solution \<Rightarrow> 'r \<Rightarrow> (int list \<times> 'r) eff" where
  "target_removal rng policy I sc lambda removal_count s r =
     ebind (contributions I sc lambda s) (\<lambda>cs.
     if cs = [] then throw (Undefined ''end of contributions'')
     else let t = target_of cs in
       ebind (lifted (rmap (\<lambda>k. rbind (route_distance I (tc_customer t) (plans s ! k)) (\<lambda>d. Inr (route_rank d k)))
                (filter (\<lambda>k. k \<noteq> tc_route t) [0..<length (plans s)]))) (\<lambda>ranked.
       let x = fill_quota rng policy removal_count ([tc_customer t], r)
                 (map (\<lambda>k. plan_customers (plans s ! snd (snd k))) (sort ranked))
       in ret (if length (fst x) < removal_count
               then append_up_to_quota rng policy removal_count True x
                      (filter (\<lambda>c. c \<noteq> tc_customer t) (plan_customers (plans s ! tc_route t)))
               else x)))"

section \<open>Destroy\<close>

definition select_removed ::
  "'r random_source \<Rightarrow> partial_route_subset \<Rightarrow> heuristic \<Rightarrow> real \<Rightarrow> destroy_operator \<Rightarrow> nat \<Rightarrow> solution \<Rightarrow>
     'r search_state \<Rightarrow> (int list \<times> 'r search_state) eff" where
  "select_removed rng policy h lambda operation removal_count s st =
     (let I = h_inst h; customers = all_customers s; r = ss_random st
      in case operation of
           Random_Removal \<Rightarrow> (case random_removal rng removal_count customers r of (removed, r') \<Rightarrow> ret (removed, st\<lparr>ss_random := r'\<rparr>))
         | Random_Route \<Rightarrow> (case random_route rng policy removal_count s r of (removed, r') \<Rightarrow> ret (removed, st\<lparr>ss_random := r'\<rparr>))
         | Closest_Removal \<Rightarrow>
             ebind (lifted (closest_removal rng policy I removal_count customers r)) (\<lambda>(removed, r'). ret (removed, st\<lparr>ss_random := r'\<rparr>))
         | Target_Removal \<Rightarrow>
             ebind (lifted (gap_map_of I s)) (\<lambda>inherited.
             ebind (lifted (case ss_scorer st of None \<Rightarrow> make_sequence_scorer I s inherited
                            | Some sc \<Rightarrow> reset_scorer I sc s inherited)) (\<lambda>sc.
             ebind (target_removal rng policy I sc lambda removal_count s r) (\<lambda>(removed, r').
             ret (removed, st\<lparr>ss_scorer := Some sc, ss_random := r'\<rparr>)))))"

definition destroy ::
  "'r random_source \<Rightarrow> partial_route_subset \<Rightarrow> heuristic \<Rightarrow> real \<Rightarrow> destroy_operator \<Rightarrow> nat \<Rightarrow> solution \<Rightarrow>
     'r search_state \<Rightarrow> (solution \<times> int list \<times> 'r search_state) eff" where
  "destroy rng policy h lambda operation requested s st =
     (let removal_count = min requested (length (all_customers s))
      in if removal_count = 0 then ret (s, [], st)
         else ebind (select_removed rng policy h lambda operation removal_count s st) (\<lambda>(removed, st').
              ebind (build_solution_from_sequences (h_inst h) (remove_customers s removed) (Some s) (ss_factory st')) (\<lambda>(remaining, f).
              ret (remaining, removed, st'\<lparr>ss_factory := f\<rparr>))))"

section \<open>A perturbation\<close>

definition removal_range :: "inst \<Rightarrow> nat \<times> nat" where
  "removal_range I =
     (let n = length (customer_ids I); lower = min n 3 in (lower, max lower (nat \<lfloor>sqrt (real n)\<rfloor>)))"

definition destroy_operator_of :: "nat \<Rightarrow> destroy_operator" where
  "destroy_operator_of n = [Random_Removal, Random_Route, Target_Removal, Closest_Removal] ! n"

definition repair_operator_of :: "nat \<Rightarrow> repair_operator" where
  "repair_operator_of n = [Greedy_Insertion, Two_Regret_Insertion] ! n"

text \<open>The result and the number of removed customers, \<open>last_removal_count_\<close>.\<close>

definition perturb ::
  "'r random_source \<Rightarrow> partial_route_subset \<Rightarrow> heuristic \<Rightarrow> real \<Rightarrow> solution \<Rightarrow> 'r search_state \<Rightarrow>
     (solution \<times> nat \<times> 'r search_state) eff" where
  "perturb rng policy h lambda s st =
     (case draw rng (fst (removal_range (h_inst h))) (snd (removal_range (h_inst h))) (ss_random st) of (quota, r) \<Rightarrow>
      case draw rng 0 3 r of (d, r) \<Rightarrow>
      case draw rng 0 1 r of (o', r) \<Rightarrow>
        ebind (destroy rng policy h lambda (destroy_operator_of d) quota s (st\<lparr>ss_random := r\<rparr>)) (\<lambda>(remaining, removed, st).
        ebind (repair rng h lambda (repair_operator_of o') remaining removed st) (\<lambda>(repaired, st).
        if \<not> uses_granular_topology (h_profile h) \<or> ss_hints st = [] then ret (repaired, length removed, st)
        else ebind (apply_insertion_hints (h_sampler h) repaired (ss_hints st) lambda (ss_factory st)) (\<lambda>(s', f).
             ret (s', length removed, st\<lparr>ss_factory := f\<rparr>)))))"

end
