(* ===== verification/Construction_Sound.thy ===== *)
theory Construction_Sound
  imports Construction Insertion_Properties
begin

text \<open>
  The insertion of customers never throws and always ends: every decision inserts one customer
  into a partial solution whose plans stay well formed.  For the profiles that do not use the
  granular neighbourhood.
\<close>

section \<open>The setting\<close>

definition random_ok :: "'r random_source \<Rightarrow> bool" where
  "random_ok rng \<longleftrightarrow> (\<forall>lo hi r. lo \<le> hi \<longrightarrow> lo \<le> fst (draw rng lo hi r) \<and> fst (draw rng lo hi r) \<le> hi) \<and>
     (\<forall>n r. mset (fst (shuffle_order rng n r)) = mset [0..<n])"

definition heuristic_ok :: "heuristic \<Rightarrow> real \<Rightarrow> bool" where
  "heuristic_ok h lambda \<longleftrightarrow> sampler_ok (h_sampler h) \<and> isfinite lambda \<and> 0 \<le> lambda \<and>
     h_profile h \<noteq> Granular_Adaptive \<and> h_granular h = None \<and>
     (h_slack h = None \<or> 0 \<le> the (h_slack h)) \<and> (\<forall>a \<in> set (anchors (h_inst h)). 0 \<le> a)"

lemma heuristic_okD:
  assumes "heuristic_ok h lambda"
  shows "sampler_ok (h_sampler h)" "isfinite lambda" "0 \<le> lambda" "inst_ok (h_inst h)" "curves_ok (h_inst h)"
    "\<forall>a \<in> set (anchors (h_inst h)). 0 \<le> a" "\<not> uses_granular_topology (h_profile h)"
    "context_fits (h_sampler h) lambda (insertion_context_of h lambda)"
  using assms sampler_okD(1,2) [of "h_sampler h"]
  by (auto simp: heuristic_ok_def h_inst_def context_fits_def insertion_context_of_def uses_granular_topology_def)

definition scorer_table :: "inst \<Rightarrow> sequence_scorer option \<Rightarrow> bool" where
  "scorer_table I sc \<longleftrightarrow> (case sc of None \<Rightarrow> True | Some s \<Rightarrow> table_ok I s)"

definition search_ok :: "inst \<Rightarrow> bool \<Rightarrow> 'r search_state \<Rightarrow> bool" where
  "search_ok I R st \<longleftrightarrow> factory_ok I (ss_factory st) \<and> allow_revisits (ss_factory st) = R \<and> scorer_table I (ss_scorer st)"

definition completer_of :: "'r search_state \<Rightarrow> completer_state" where
  "completer_of st = \<lparr>cs_factory = ss_factory st, cs_memo = ss_memo st\<rparr>"

definition loop_ok :: "heuristic \<Rightarrow> real \<Rightarrow> plan_factory \<Rightarrow> 'r search_state \<Rightarrow> bool" where
  "loop_ok h lambda f0 st \<longleftrightarrow> scorer_table (h_inst h) (ss_scorer st) \<and>
     completer_ok (h_sampler h) (h_rebuild h) lambda (h_single_step h) f0 (completer_of st)"

lemma loop_ok_search: "loop_ok h lambda f0 st \<Longrightarrow> search_ok (h_inst h) (allow_revisits f0) st"
  by (simp add: loop_ok_def search_ok_def completer_ok_def completer_of_def h_inst_def)

section \<open>The scorer of a decision\<close>

lemma direct_plans:
  assumes I: "inst_ok I" "curves_ok I" and ps: "\<forall>p \<in> set ps. plan_fit I R p"
    and f: "factory_ok I f" "allow_revisits f = R"
  shows "\<exists>s f'. efold (\<lambda>(s, f) p. ebind (built (plan_sequence I f (plan_customers p) None)) (\<lambda>(q, f').
              ret (\<lparr>plans = plans s @ [q]\<rparr>, f'))) (s0, f) ps = ret (s, f') \<and>
    plans s = plans s0 @ map (\<lambda>p. fit_plan I (plan_customers p) (direct_gaps (length (plan_customers p)))) ps \<and>
    factory_ok I f' \<and> allow_revisits f' = R"
  using ps f
proof (induction ps arbitrary: s0 f)
  case (Cons p ps)
  have "customers_ok I (plan_customers p)" using Cons.prems(1) plan_fitD(1) by auto
  from make_plan_builds [OF I this, of "direct_gaps (length (plan_customers p))" R]
  have "builds I R (\<lambda>f. built (make_plan I f (plan_customers p) (direct_gaps (length (plan_customers p)))))
      (fit_plan I (plan_customers p) (direct_gaps (length (plan_customers p))))"
    by (simp add: direct_gaps_def gap_ok_def)
  then obtain f1 where f1: "built (make_plan I f (plan_customers p) (direct_gaps (length (plan_customers p)))) =
      ret (fit_plan I (plan_customers p) (direct_gaps (length (plan_customers p))), f1)"
    "factory_ok I f1" "allow_revisits f1 = R" using Cons.prems(2,3) by (rule buildsE)
  from Cons.IH [OF _ f1(2,3), of "\<lparr>plans = plans s0 @ [fit_plan I (plan_customers p) (direct_gaps (length (plan_customers p)))]\<rparr>"]
    Cons.prems(1) show ?case using f1(1) by (auto simp: plan_sequence_def)
qed simp

lemma rebound_scorer_ok:
  assumes h: "heuristic_ok h lambda" and st: "search_ok (h_inst h) R st" and cur: "solution_fit (h_inst h) R current"
    and m: "reference_gaps h current = Inr inherited"
  shows "\<exists>sc f. rebound_scorer h current inherited st = ret (sc, st\<lparr>ss_factory := f, ss_scorer := Some sc\<rparr>) \<and>
    scorer_fits (h_inst h) inherited current sc \<and> table_ok (h_inst h) sc \<and> factory_ok (h_inst h) f \<and> allow_revisits f = R"
proof -
  let ?I = "h_inst h"
  note H = heuristic_okD [OF h]
  have f: "factory_ok ?I (ss_factory st)" "allow_revisits (ss_factory st) = R" using st by (simp_all add: search_ok_def)
  have fit: "\<forall>p \<in> set (plans current). plan_fit ?I R p" and d: "distinct (concat (map plan_customers (plans current)))"
    using cur by (simp_all add: solution_fit_def)
  obtain src f' where src: "(if h_rebuild h then direct_source ?I current (ss_factory st) else ret (current, ss_factory st)) = ret (src, f')"
    "factory_ok ?I f'" "allow_revisits f' = R" "map plan_customers (plans src) = map plan_customers (plans current)"
    "reference_ok ?I src inherited"
  proof (cases "h_rebuild h")
    case True
    obtain s f' where s: "direct_source ?I current (ss_factory st) = ret (s, f')"
      "plans s = map (\<lambda>p. fit_plan ?I (plan_customers p) (direct_gaps (length (plan_customers p)))) (plans current)"
      "factory_ok ?I f'" "allow_revisits f' = R"
      using direct_plans [OF H(4,5) fit f, of "\<lparr>plans = []\<rparr>"] by (auto simp: direct_source_def)
    have "inherited = []" using m True by (simp add: reference_gaps_def)
    moreover have "plan_ok ?I q \<and> plan_matches [] q" if q: "q \<in> set (plans s)" for q
    proof -
      obtain p where p: "p \<in> set (plans current)" "q = fit_plan ?I (plan_customers p) (direct_gaps (length (plan_customers p)))"
        using q s(2) by auto
      have "customers_ok ?I (plan_customers p)" using fit p(1) plan_fitD(1) by blast
      from fit_plan_fit(1) [OF H(4,5) f(1) this, of "direct_gaps (length (plan_customers p))"]
      have "plan_fit ?I R q" using p(2) f(2) by (simp add: direct_gaps_def gap_ok_def)
      moreover have "plan_matches [] q" using p(2) by (auto simp: plan_matches_def gap_of_def direct_gaps_def nth_Cons')
      ultimately show ?thesis using plan_fit_ok by blast
    qed
    ultimately have "reference_ok ?I s inherited" by (simp add: reference_ok_def map_ok_def)
    with s show thesis using True by (intro that [of s f']) (simp_all add: comp_def)
  next
    case False
    have "reference_ok ?I current inherited"
      using m False fit plan_fit_ok by (intro gap_map_reference_ok [OF H(4) _ d]) (auto simp: reference_gaps_def)
    with False f show thesis by (intro that [of current "ss_factory st"]) simp_all
  qed
  have "\<exists>sc. (case ss_scorer st of None \<Rightarrow> make_sequence_scorer ?I src inherited | Some sc \<Rightarrow> reset_scorer ?I sc src inherited) = Inr sc \<and>
      table_ok ?I sc \<and> scorer_inv ?I (gap_of inherited) sc \<and> map prof_customers (profiles sc) = map plan_customers (plans src)"
  proof (cases "ss_scorer st")
    case None
    then show ?thesis using make_sequence_scorer_ok [OF H(4,6) src(5)] by simp
  next
    case (Some sc)
    then have "table_ok ?I sc" using st by (simp add: search_ok_def scorer_table_def)
    from reset_scorer_ok [OF H(4) this src(5)] show ?thesis using Some by simp
  qed
  then obtain sc where "(case ss_scorer st of None \<Rightarrow> make_sequence_scorer ?I src inherited | Some sc \<Rightarrow> reset_scorer ?I sc src inherited) = Inr sc"
      "table_ok ?I sc" "scorer_inv ?I (gap_of inherited) sc" "map prof_customers (profiles sc) = map plan_customers (plans src)" by blast
  then show ?thesis
    using src by (intro exI [of _ sc] exI [of _ f']) (simp add: rebound_scorer_def scorer_fits_def reference_ok_def)
qed

section \<open>The choice\<close>

definition chosen_ok ::
  "heuristic \<Rightarrow> real \<Rightarrow> gap_map \<Rightarrow> solution \<Rightarrow> int list \<Rightarrow> plan_factory \<Rightarrow> insertion_move \<Rightarrow> bool" where
  "chosen_ok h lambda inherited current cs f0 m \<longleftrightarrow> (\<exists>c \<in> set cs. move_slot m \<in> set (all_slots current c)) \<and>
     (move_completion m = None \<or> linked_good (h_sampler h) inherited lambda current f0 m)"

lemma keep_better_fold:
  "ms \<noteq> [] \<Longrightarrow> \<exists>m. foldl keep_better b ms = Some m \<and> (m \<in> set ms \<or> b = Some m)"
proof (induction ms arbitrary: b)
  case (Cons m ms)
  have "\<exists>b'. keep_better b m = Some b' \<and> (b' = m \<or> b = Some b')" by (cases b) (auto simp: keep_better_def)
  then obtain b' where b': "keep_better b m = Some b'" "b' = m \<or> b = Some b'" by blast
  show ?case
  proof (cases "ms = []")
    case True
    then show ?thesis using b' by auto
  next
    case False
    from Cons.IH [OF this, of "keep_better b m"] show ?thesis using b' by auto
  qed
qed simp

lemma direct_greedy_chosen:
  assumes "\<And>c. c \<in> set cs \<Longrightarrow> \<exists>ms. insertion_moves ctx sc False current c = ret (ms, []) \<and> ms \<noteq> [] \<and> (\<forall>m \<in> set ms. Q m)"
    and "cs \<noteq> [] \<or> b \<noteq> None" and "\<And>m. b = Some m \<Longrightarrow> Q m"
  shows "\<exists>m. efold (\<lambda>b c. ebind (insertion_moves ctx sc False current c) (\<lambda>(ms, _). ret (foldl keep_better b ms))) b cs = ret (Some m) \<and> Q m"
  using assms
proof (induction cs arbitrary: b)
  case (Cons c cs)
  obtain ms where ms: "insertion_moves ctx sc False current c = ret (ms, [])" "ms \<noteq> []" "\<forall>m \<in> set ms. Q m"
    using Cons.prems(1) [of c] by auto
  obtain m where m: "foldl keep_better b ms = Some m" "m \<in> set ms \<or> b = Some m"
    using keep_better_fold [OF ms(2)] by blast
  have "Q m" using m(2) ms(3) Cons.prems(3) by auto
  then have "\<exists>m'. efold (\<lambda>b c. ebind (insertion_moves ctx sc False current c) (\<lambda>(ms, _). ret (foldl keep_better b ms))) (Some m) cs = ret (Some m') \<and> Q m'"
    using Cons.prems(1) by (intro Cons.IH) auto
  then show ?case using ms(1) m(1) by simp
qed auto

lemma direct_regret_chosen:
  assumes "\<And>c. c \<in> set cs \<Longrightarrow> \<exists>ms. insertion_moves ctx sc False current c = ret (ms, []) \<and> ms \<noteq> [] \<and> (\<forall>m \<in> set ms. Q m)"
    and "cs \<noteq> [] \<or> b \<noteq> None" and "\<And>r m. b = Some (r, m) \<Longrightarrow> Q m"
  shows "\<exists>r m. efold (\<lambda>chosen c. ebind (insertion_moves ctx sc False current c) (\<lambda>(ms, _). lifted (keep_regret chosen ms))) b cs =
    ret (Some (r, m)) \<and> Q m"
  using assms
proof (induction cs arbitrary: b)
  case (Cons c cs)
  obtain ms where ms: "insertion_moves ctx sc False current c = ret (ms, [])" "ms \<noteq> []" "\<forall>m \<in> set ms. Q m"
    using Cons.prems(1) [of c] by auto
  obtain m' rest where so: "sorted_moves ms = m' # rest" using ms(2) unfolding sorted_moves_def
    by (metis length_0_conv length_sort neq_Nil_conv)
  have "m' \<in> set ms" using so unfolding sorted_moves_def by (metis list.set_intros(1) set_sort)
  then have "\<exists>r m. keep_regret b ms = Inr (Some (r, m)) \<and> Q m"
    using so ms(3) Cons.prems(3) by (cases b) (auto simp: keep_regret_def Let_def)
  then obtain r m where m: "keep_regret b ms = Inr (Some (r, m))" "Q m" by blast
  then have "\<exists>r' m'. efold (\<lambda>chosen c. ebind (insertion_moves ctx sc False current c) (\<lambda>(ms, _). lifted (keep_regret chosen ms))) (Some (r, m)) cs =
      ret (Some (r', m')) \<and> Q m'"
    using Cons.prems(1) by (intro Cons.IH) auto
  then show ?case using ms(1) m(1) by simp
qed (cases b; auto)

lemma choose_direct_ok:
  assumes h: "heuristic_ok h lambda" and set: "linked_setting (h_sampler h) rebuild lambda current inherited f0"
    and fits: "scorer_fits (h_inst h) inherited current sc"
    and cs: "cs \<noteq> []" "set cs \<subseteq> set (customer_ids (h_inst h)) - set (concat (map plan_customers (plans current)))"
  shows "\<exists>m. choose_direct h lambda operation current cs sc = ret m \<and> chosen_ok h lambda inherited current cs f0 m"
proof -
  let ?ctx = "insertion_context_of h lambda"
  let ?Q = "\<lambda>m. move_completion m = None \<and> (\<exists>c \<in> set cs. move_slot m \<in> set (all_slots current c))"
  have "\<exists>ms. insertion_moves ?ctx sc False current c = ret (ms, []) \<and> ms \<noteq> [] \<and> (\<forall>m \<in> set ms. ?Q m)" if c: "c \<in> set cs" for c
  proof -
    obtain ms where ms: "insertion_moves ?ctx sc False current c = ret (ms, [])" "\<forall>m \<in> set ms. move_completion m = None \<and> move_virtual m = None"
      "map move_slot ms = all_slots current c"
      using insertion_moves_direct [OF set _ heuristic_okD(8) [OF h], of sc c] fits c cs(2) by (auto simp: h_inst_def)
    have "ms \<noteq> []" using ms(3) all_slots_ne [of current c] by auto
    moreover have "move_slot m \<in> set (all_slots current c)" if "m \<in> set ms" for m using that ms(3) by (metis image_eqI list.set_map)
    ultimately show ?thesis using ms c by blast
  qed
  note moves = this
  obtain m where "direct_greedy ?ctx sc current cs = ret (Some m)" "?Q m"
    unfolding direct_greedy_def using direct_greedy_chosen [OF moves, of cs None] cs(1) by blast
  moreover obtain r m' where "efold (\<lambda>chosen c. ebind (insertion_moves ?ctx sc False current c) (\<lambda>(ms, _). lifted (keep_regret chosen ms))) None cs =
      ret (Some (r, m'))" "?Q m'"
    using direct_regret_chosen [OF moves, of cs None] cs(1) by blast
  ultimately show ?thesis
    by (cases operation) (auto simp: choose_direct_def Let_def direct_two_regret_def chosen_ok_def)
qed

lemma choose_linked_ok:
  assumes h: "heuristic_ok h lambda" and set: "linked_setting (h_sampler h) (h_rebuild h) lambda current inherited f0"
    and fits: "scorer_fits (h_inst h) inherited current sc"
    and s: "completer_ok (h_sampler h) (h_rebuild h) lambda (h_single_step h) f0 (completer_of st)"
    and cs: "cs \<noteq> []" "set cs \<subseteq> set (customer_ids (h_inst h)) - set (concat (map plan_customers (plans current)))"
  shows "\<exists>m f memo. choose_linked h lambda operation current cs inherited sc st = ret (m, st\<lparr>ss_factory := f, ss_memo := memo\<rparr>) \<and>
    completer_ok (h_sampler h) (h_rebuild h) lambda (h_single_step h) f0 \<lparr>cs_factory = f, cs_memo = memo\<rparr> \<and>
    chosen_ok h lambda inherited current cs f0 m"
proof -
  let ?ctx = "insertion_context_of h lambda" and ?ps = "h_sampler h"
  let ?ok = "completer_ok ?ps (h_rebuild h) lambda (h_single_step h) f0"
  note ctx = heuristic_okD(8) [OF h]
  have fits: "scorer_fits (ps_inst ?ps) inherited current sc" using fits by (simp add: h_inst_def)
  have cs': "set cs \<subseteq> set (customer_ids (ps_inst ?ps)) - set (concat (map plan_customers (plans current)))"
    using cs(2) by (simp add: h_inst_def)
  have "\<exists>w s'. (case operation of
      Greedy_Insertion \<Rightarrow> ebind (all_insertion_moves ?ctx sc True current cs) (\<lambda>(moves, _).
        linked_greedy ?ps inherited lambda (h_single_step h) current moves (completer_of st))
    | Two_Regret_Insertion \<Rightarrow> linked_two_regret ?ps inherited lambda (h_single_step h) current ?ctx sc cs (completer_of st)) = ret (w, s') \<and>
    ?ok s' \<and> chosen_ok h lambda inherited current cs f0 w"
  proof (cases operation)
    case Greedy_Insertion
    obtain ms where ms: "all_insertion_moves ?ctx sc True current cs = ret (ms, [])"
      "\<forall>m \<in> set ms. fresh_cand ?ps (h_rebuild h) inherited lambda (h_single_step h) current f0 m"
      "map move_slot ms = concat (map (all_slots current) cs)"
      using all_insertion_moves_cand [OF set fits ctx cs'] by blast
    have ne: "ms \<noteq> []"
    proof
      assume "ms = []"
      then have "concat (map (all_slots current) cs) = []" using ms(3) by simp
      then show False using cs(1) all_slots_ne by (cases cs) auto
    qed
    obtain w s' where w: "linked_greedy ?ps inherited lambda (h_single_step h) current ms (completer_of st) = ret (w, s')" "?ok s'"
      "linked_good ?ps inherited lambda current f0 w" "move_slot w \<in> move_slot ` set ms"
      using linked_greedy_least [OF set s ne ms(2)] by blast
    have "move_slot ` set ms = set (concat (map (all_slots current) cs))" using ms(3) by (metis list.set_map)
    then have "\<exists>c \<in> set cs. move_slot w \<in> set (all_slots current c)" using w(4) by auto
    then show ?thesis using Greedy_Insertion ms(1) w(1-3) by (auto simp: chosen_ok_def simp del: split_paired_Ex)
  next
    case Two_Regret_Insertion
    obtain w s' where "linked_two_regret ?ps inherited lambda (h_single_step h) current ?ctx sc cs (completer_of st) = ret (w, s')" "?ok s'"
      "linked_good ?ps inherited lambda current f0 w" "\<exists>c \<in> set cs. move_slot w \<in> set (all_slots current c)"
      using linked_two_regret_chosen [OF set fits ctx s cs(1) cs'] by blast
    then show ?thesis using Two_Regret_Insertion by (auto simp: chosen_ok_def simp del: split_paired_Ex)
  qed
  then obtain w s' where "(case operation of
      Greedy_Insertion \<Rightarrow> ebind (all_insertion_moves ?ctx sc True current cs) (\<lambda>(moves, _).
        linked_greedy ?ps inherited lambda (h_single_step h) current moves (completer_of st))
    | Two_Regret_Insertion \<Rightarrow> linked_two_regret ?ps inherited lambda (h_single_step h) current ?ctx sc cs (completer_of st)) = ret (w, s')"
    "?ok s'" "chosen_ok h lambda inherited current cs f0 w" by blast
  then show ?thesis
    unfolding choose_linked_def Let_def completer_of_def [symmetric]
    by (intro exI [of _ w] exI [of _ "cs_factory s'"] exI [of _ "cs_memo s'"]) (cases s'; simp)
qed

lemma choose_insertion_ok:
  assumes h: "heuristic_ok h lambda" and set: "linked_setting (h_sampler h) (h_rebuild h) lambda current inherited f0"
    and fits: "scorer_fits (h_inst h) inherited current sc" and st: "loop_ok h lambda f0 st"
    and cs: "cs \<noteq> []" "set cs \<subseteq> set (customer_ids (h_inst h)) - set (concat (map plan_customers (plans current)))"
  shows "\<exists>m st'. choose_insertion rng h lambda operation current cs inherited sc st = ret (m, st') \<and> loop_ok h lambda f0 st' \<and>
    chosen_ok h lambda inherited current cs f0 m"
proof (cases "completes_insertion_candidates (h_profile h)")
  case True
  have s: "completer_ok (h_sampler h) (h_rebuild h) lambda (h_single_step h) f0 (completer_of st)" using st by (simp add: loop_ok_def)
  obtain m f memo where "choose_linked h lambda operation current cs inherited sc st = ret (m, st\<lparr>ss_factory := f, ss_memo := memo\<rparr>)"
    "completer_ok (h_sampler h) (h_rebuild h) lambda (h_single_step h) f0 \<lparr>cs_factory = f, cs_memo = memo\<rparr>"
    "chosen_ok h lambda inherited current cs f0 m"
    using choose_linked_ok [OF h set fits s cs] by blast
  then show ?thesis
    using True st heuristic_okD(7) [OF h] by (auto simp: choose_insertion_def loop_ok_def completer_of_def)
next
  case False
  obtain m where "choose_direct h lambda operation current cs sc = ret m" "chosen_ok h lambda inherited current cs f0 m"
    using choose_direct_ok [OF h set fits cs] by blast
  then show ?thesis using False st heuristic_okD(7) [OF h] by (auto simp: choose_insertion_def)
qed

section \<open>One step\<close>

lemma materialized_ok:
  assumes h: "heuristic_ok h lambda" and set: "linked_setting (h_sampler h) (h_rebuild h) lambda current inherited f0"
    and m: "chosen_ok h lambda inherited current cs f0 m" and sl: "slot_ok (h_inst h) current (move_slot m)"
  shows "\<exists>p. builds (h_inst h) (allow_revisits f0) (materialized h lambda current inherited m) p \<and>
    plan_fit (h_inst h) (allow_revisits f0) p \<and> plan_customers p = slot_sequence current (move_slot m)"
proof -
  let ?I = "h_inst h" and ?R = "allow_revisits f0" and ?cs = "slot_sequence current (move_slot m)"
  note H = heuristic_okD [OF h] and S = linked_settingD [OF set, folded h_inst_def]
  have cs: "customers_ok ?I ?cs" by (rule slot_sequence_ok(1) [OF S(5) sl])
  have gs: "\<forall>g \<in> set (inherited_gaps (depot_id ?I) ?cs inherited). gap_ok ?I ?R g"
    by (rule inherited_gaps_ok [OF S(7)]) (use cs in \<open>simp add: customers_ok_def\<close>)
  have len: "length (inherited_gaps (depot_id ?I) ?cs inherited) = length ?cs + 1"
    using inherited_gaps_nth(2) [of 0 ?cs "depot_id ?I" inherited] by simp
  let ?p = "fit_plan ?I ?cs (inherited_gaps (depot_id ?I) ?cs inherited)"
  have fresh: "builds ?I ?R (\<lambda>f. built (plan_sequence_with ?I f ?cs inherited)) ?p" "plan_fit ?I ?R ?p"
    using plan_sequence_builds [OF H(4,5) cs gs] fit_plan_fit(1) [OF H(4,5) S(4) cs len gs] by auto
  have "\<exists>p0. builds ?I ?R (\<lambda>f. case move_completion m of
              Some out \<Rightarrow> if uses_granular_topology (h_profile h)
                then built (plan_sequence_with ?I f (insertion_sequence current m) inherited)
                else ret (completed_plan out, f)
            | None \<Rightarrow> built (plan_sequence_with ?I f (insertion_sequence current m) inherited)) p0 \<and>
      plan_fit ?I ?R p0 \<and> plan_customers p0 = ?cs \<and> \<not> exact_charging p0"
  proof (cases "move_completion m")
    case None
    then show ?thesis using fresh by (intro exI [of _ ?p]) (simp add: insertion_sequence_slot)
  next
    case (Some out)
    then have "completed_from (h_sampler h) inherited lambda ?R ?cs out" using m by (auto simp: chosen_ok_def linked_good_def)
    then show ?thesis using Some H(7) by (intro exI [of _ "completed_plan out"]) (simp add: completed_from_def builds_ret h_inst_def)
  qed
  then obtain p0 where p0: "builds ?I ?R (\<lambda>f. case move_completion m of
              Some out \<Rightarrow> if uses_granular_topology (h_profile h)
                then built (plan_sequence_with ?I f (insertion_sequence current m) inherited)
                else ret (completed_plan out, f)
            | None \<Rightarrow> built (plan_sequence_with ?I f (insertion_sequence current m) inherited)) p0"
      "plan_fit ?I ?R p0" "plan_customers p0 = ?cs" "\<not> exact_charging p0" by blast
  obtain p where p: "builds ?I ?R (\<lambda>f. if h_profile h = Linked_Winner then repair_new_gaps (h_sampler h) p0 inherited lambda False f else ret (p0, f)) p"
      "plan_fit ?I ?R p" "plan_customers p = ?cs"
  proof (cases "h_profile h = Linked_Winner")
    case True
    obtain q where "builds ?I ?R (repair_new_gaps (h_sampler h) p0 inherited lambda False) q"
      "improved_plan ?I ?R lambda (introduced_gaps ?I p0 inherited) p0 q"
      using repair_new_gaps_ok [OF H(1-3) S(4) [unfolded h_inst_def] refl p0(2) [unfolded h_inst_def] p0(4)] by (auto simp: h_inst_def)
    then show thesis using True p0(3) by (intro that [of q]) (simp_all add: improved_plan_def)
  qed (use p0 in \<open>simp add: that [of p0] builds_ret\<close>)
  have "builds ?I ?R (materialized h lambda current inherited m) p"
    unfolding materialized_def by (rule builds_bind [OF p0(1)]) (use p(1) in simp)
  with p show ?thesis by blast
qed

lemma slot_inserted:
  assumes sl: "slot_ok I current (c, r, k)" and p: "plan_customers p = slot_sequence current (c, r, k)"
  shows "mset (concat (map plan_customers (plans (apply_insertion current r p)))) =
      add_mset c (mset (concat (map plan_customers (plans current))))"
proof (cases "r = length (plans current)")
  case True
  then show ?thesis using p by (simp add: apply_insertion_def slot_sequence_def)
next
  case False
  then have r: "r < length (plans current)" using sl by (auto simp: slot_ok_def split: if_splits)
  let ?cs = "plan_customers (plans current ! r)"
  have e: "plans current = take r (plans current) @ plans current ! r # drop (Suc r) (plans current)"
    by (rule id_take_nth_drop [OF r])
  have "mset (plan_customers p) = add_mset c (mset ?cs)"
    using p False by (simp add: slot_sequence_def) (metis append_take_drop_id mset_append)
  moreover have "(plans current)[r := p] = take r (plans current) @ p # drop (Suc r) (plans current)"
    by (rule upd_conv_take_nth_drop [OF r])
  ultimately show ?thesis
    using False arg_cong [OF e, of "\<lambda>ps. mset (concat (map plan_customers ps))"] by (simp add: apply_insertion_def)
qed

definition loop_inv :: "heuristic \<Rightarrow> bool \<Rightarrow> solution \<Rightarrow> int list \<Rightarrow> bool" where
  "loop_inv h R current unassigned \<longleftrightarrow> solution_fit (h_inst h) R current \<and>
     mset (concat (map plan_customers (plans current))) + mset unassigned = mset (customer_ids (h_inst h))"

lemma loop_invD:
  assumes "inst_ok (h_inst h)" and "loop_inv h R current unassigned"
  shows "solution_fit (h_inst h) R current" "distinct unassigned"
    "set unassigned \<subseteq> set (customer_ids (h_inst h)) - set (concat (map plan_customers (plans current)))"
    "distinct (concat (map plan_customers (plans current)))"
proof -
  have m: "mset (concat (map plan_customers (plans current)) @ unassigned) = mset (customer_ids (h_inst h))"
    using assms(2) by (simp add: loop_inv_def)
  then have d: "distinct (concat (map plan_customers (plans current)) @ unassigned)"
    and s: "set (concat (map plan_customers (plans current)) @ unassigned) = set (customer_ids (h_inst h))"
    using customer_ids_distinct [OF assms(1)] mset_eq_imp_distinct_iff mset_eq_setD by blast+
  show "distinct unassigned" "distinct (concat (map plan_customers (plans current)))" using d by (simp_all del: set_concat)
  show "set unassigned \<subseteq> set (customer_ids (h_inst h)) - set (concat (map plan_customers (plans current)))"
    using d s by (auto simp del: set_concat)
  show "solution_fit (h_inst h) R current" using assms(2) by (simp add: loop_inv_def)
qed

lemma applied_fit:
  assumes I: "inst_ok (h_inst h)" and inv: "loop_inv h R current unassigned" and c: "c \<in> set unassigned"
    and sl: "slot_ok (h_inst h) current (c, r, k)"
    and p: "plan_fit (h_inst h) R p" "plan_customers p = slot_sequence current (c, r, k)"
  shows "loop_inv h R (apply_insertion current r p) (filter (\<lambda>d. d \<noteq> c) unassigned)"
proof -
  note L = loop_invD [OF I inv]
  have "filter (\<lambda>d. d \<noteq> c) unassigned = remove1 c unassigned"
    using distinct_remove1_removeAll [OF L(2), of c] by (simp add: removeAll_filter_not_eq neq_commute)
  then have rest: "mset unassigned = add_mset c (mset (filter (\<lambda>d. d \<noteq> c) unassigned))" using c by simp
  have "mset (concat (map plan_customers (plans current))) + mset unassigned = mset (customer_ids (h_inst h))"
    using inv by (simp add: loop_inv_def)
  then have m: "mset (concat (map plan_customers (plans (apply_insertion current r p)))) + mset (filter (\<lambda>d. d \<noteq> c) unassigned) =
      mset (customer_ids (h_inst h))"
    unfolding slot_inserted [OF sl p(2)] rest by simp
  have "\<forall>q \<in> set (plans (apply_insertion current r p)). plan_fit (h_inst h) R q"
    using L(1) p(1) by (auto simp: apply_insertion_def solution_fit_def dest: set_update_subset_insert [THEN subsetD])
  moreover have "distinct (concat (map plan_customers (plans (apply_insertion current r p))))"
  proof -
    have "distinct (concat (map plan_customers (plans (apply_insertion current r p))) @ filter (\<lambda>d. d \<noteq> c) unassigned)"
      using m customer_ids_distinct [OF I] mset_eq_imp_distinct_iff by (metis mset_append)
    then show ?thesis by (simp del: set_concat)
  qed
  ultimately show ?thesis using m by (simp add: loop_inv_def solution_fit_def)
qed

lemma insertion_step_ok:
  assumes h: "heuristic_ok h lambda" and st: "loop_ok h lambda f0 st" and f0: "factory_ok (h_inst h) f0"
    and inv: "loop_inv h (allow_revisits f0) current unassigned" and ne: "unassigned \<noteq> []"
  shows "\<exists>current' unassigned' st'. insertion_step rng h lambda operation current unassigned st = ret (current', unassigned', st') \<and>
    loop_ok h lambda f0 st' \<and> loop_inv h (allow_revisits f0) current' unassigned' \<and> length unassigned' < length unassigned"
proof -
  let ?I = "h_inst h" and ?R = "allow_revisits f0"
  note H = heuristic_okD [OF h] and L = loop_invD [OF heuristic_okD(4) [OF h] inv]
  obtain inherited where m: "reference_gaps h current = Inr inherited"
    using gap_map_exists [OF H(4), of current] by (cases "h_rebuild h") (auto simp: reference_gaps_def)
  have set: "linked_setting (h_sampler h) (h_rebuild h) lambda current inherited f0"
    using H(1-3) f0 L(1) m by (auto simp: linked_setting_def h_inst_def linked_to_def reference_gaps_def)
  obtain sc f where sc: "rebound_scorer h current inherited st = ret (sc, st\<lparr>ss_factory := f, ss_scorer := Some sc\<rparr>)"
    "scorer_fits ?I inherited current sc" "table_ok ?I sc" "factory_ok ?I f" "allow_revisits f = ?R"
    using rebound_scorer_ok [OF h loop_ok_search [OF st] L(1) m] by blast
  let ?st1 = "st\<lparr>ss_factory := f, ss_scorer := Some sc\<rparr>"
  have st1: "loop_ok h lambda f0 ?st1"
    using st sc(3-5) by (simp add: loop_ok_def completer_ok_def completer_of_def scorer_table_def h_inst_def)
  obtain mv st2 where mv: "choose_insertion rng h lambda operation current unassigned inherited sc ?st1 = ret (mv, st2)"
    "loop_ok h lambda f0 st2" "chosen_ok h lambda inherited current unassigned f0 mv"
    using choose_insertion_ok [OF h set sc(2) st1 ne L(3)] by blast
  obtain c where c: "c \<in> set unassigned" "move_slot mv \<in> set (all_slots current c)" using mv(3) by (auto simp: chosen_ok_def)
  have slot: "move_slot mv = (c, move_route mv, move_position mv)"
    using c(2) by (auto simp: all_slots_def route_slots_def move_slot_def)
  have sl: "slot_ok ?I current (c, move_route mv, move_position mv)"
    using all_slots_ok [OF _ _ c(2)] c(1) L(3) slot by (metis Diff_iff subset_eq)
  obtain p where p: "builds ?I ?R (materialized h lambda current inherited mv) p" "plan_fit ?I ?R p"
      "plan_customers p = slot_sequence current (c, move_route mv, move_position mv)"
    using materialized_ok [OF h set mv(3)] sl slot by auto
  have f2: "factory_ok ?I (ss_factory st2)" "allow_revisits (ss_factory st2) = ?R"
    using loop_ok_search [OF mv(2)] by (simp_all add: search_ok_def)
  obtain f3 where f3: "materialized h lambda current inherited mv (ss_factory st2) = ret (p, f3)" "factory_ok ?I f3" "allow_revisits f3 = ?R"
    using p(1) f2 by (rule buildsE)
  have e: "move_customer mv = c" using slot by (simp add: move_slot_def)
  have "loop_ok h lambda f0 (st2\<lparr>ss_factory := f3, ss_hints := ss_hints st2\<rparr>)"
    using mv(2) f3(2,3) by (simp add: loop_ok_def completer_ok_def completer_of_def h_inst_def)
  moreover have "loop_inv h ?R (apply_insertion current (move_route mv) p) (filter (\<lambda>d. d \<noteq> c) unassigned)"
    by (rule applied_fit [OF H(4) inv c(1) sl p(2,3)])
  moreover have "length (filter (\<lambda>d. d \<noteq> c) unassigned) < length unassigned"
    using c(1) by (intro length_filter_less [where x = c]) auto
  ultimately show ?thesis
    using m sc(1) mv(1) f3(1) H(7) e by (auto simp: insertion_step_def simp del: split_paired_Ex)
qed

lemma insert_all_ok:
  assumes h: "heuristic_ok h lambda" and f0: "factory_ok (h_inst h) f0"
  shows "loop_ok h lambda f0 st \<Longrightarrow> loop_inv h (allow_revisits f0) current unassigned \<Longrightarrow>
    \<exists>s st'. insert_all rng h lambda operation current unassigned st = ret (s, st') \<and>
      loop_ok h lambda f0 st' \<and> loop_inv h (allow_revisits f0) s []"
proof (induction unassigned arbitrary: current st rule: length_induct)
  case (1 unassigned)
  show ?case
  proof (cases "unassigned = []")
    case True
    then show ?thesis using 1 by (subst insert_all.simps) (auto simp: ret_def)
  next
    case False
    obtain current' unassigned' st' where s: "insertion_step rng h lambda operation current unassigned st = ret (current', unassigned', st')"
      "loop_ok h lambda f0 st'" "loop_inv h (allow_revisits f0) current' unassigned'" "length unassigned' < length unassigned"
      using insertion_step_ok [OF h 1(2) f0 1(3) False] by blast
    have "insert_all rng h lambda operation current unassigned st = insert_all rng h lambda operation current' unassigned' st'"
      using False s(1) by (subst insert_all.simps) (simp add: ret_def)
    then show ?thesis using 1(1) s(2-4) by auto
  qed
qed

lemma loop_inv_done:
  assumes "inst_ok (h_inst h)" and "loop_inv h R s []"
  shows "validate_partition (h_inst h) s = Inr ()" and "solution_fit (h_inst h) R s"
proof -
  show fit: "solution_fit (h_inst h) R s" using assms(2) by (simp add: loop_inv_def)
  have "mset (concat (customer_sequences s)) = mset (customer_ids (h_inst h))"
    using assms(2) by (simp add: loop_inv_def customer_sequences_def)
  then show "validate_partition (h_inst h) s = Inr ()"
    using fit plan_fit_consistent customer_ids_distinct [OF assms(1)]
    unfolding validate_partition_Inr [OF assms(1)] solution_fit_def
    by (metis mset_eq_imp_distinct_iff mset_eq_setD)
qed

end
