(* ===== verification/Perturbation_Sound.thy ===== *)
theory Perturbation_Sound
  imports Perturbation Construction_Sound
begin

text \<open>
  Destroying removes exactly the requested number of customers, whatever the operator and the
  random stream, and leaves well-formed plans that inherit their station paths; repairing
  inserts them again.
\<close>

section \<open>Building and repairing\<close>

lemma fresh_memos_ok:
  assumes "search_ok (h_inst h) R st"
  obtains st' where "fresh_memos st = Inr st'" and "ss_factory st' = ss_factory st" and "ss_hints st' = []"
    and "loop_ok h lambda (ss_factory st) st'"
proof -
  obtain memo :: completion_memo where memo: "lru_new kInsertionCompletionMemoCapacity = Inr memo"
    by (simp add: lru_new_def kInsertionCompletionMemoCapacity_def)
  obtain vm :: "(insertion_key, virtual_completion) lru_cache" where vm: "lru_new kVirtualInsertionCompletionMemoCapacity = Inr vm"
    by (simp add: lru_new_def kVirtualInsertionCompletionMemoCapacity_def)
  let ?st = "st\<lparr>ss_memo := memo, ss_virtual_memo := vm, ss_hints := []\<rparr>"
  have "loop_ok h lambda (ss_factory st) ?st"
    using assms lru_new_ok [OF memo] by (simp add: loop_ok_def search_ok_def completer_ok_def completer_of_def memo_agrees_def h_inst_def)
  then show thesis using memo vm by (intro that [of ?st]) (simp_all add: fresh_memos_def)
qed

lemma repair_ok:
  assumes h: "heuristic_ok h lambda" and st: "search_ok (h_inst h) R st" and inv: "loop_inv h R remaining removed"
  shows "\<exists>s st'. repair rng h lambda operation remaining removed st = ret (s, st') \<and> search_ok (h_inst h) R st' \<and>
    solution_fit (h_inst h) R s \<and> validate_partition (h_inst h) s = Inr ()"
proof -
  have f: "factory_ok (h_inst h) (ss_factory st)" "allow_revisits (ss_factory st) = R" using st by (simp_all add: search_ok_def)
  obtain st1 where st1: "fresh_memos st = Inr st1" "ss_factory st1 = ss_factory st" "ss_hints st1 = []"
    "loop_ok h lambda (ss_factory st) st1" by (rule fresh_memos_ok [OF st])
  obtain s st' where s: "insert_all rng h lambda operation remaining removed st1 = ret (s, st')" "loop_ok h lambda (ss_factory st) st'"
    "loop_inv h R s []"
    using insert_all_ok [OF h f(1) st1(4)] inv f(2) by blast
  note D = loop_inv_done [OF heuristic_okD(4) [OF h] s(3)]
  then show ?thesis using st1(1) s(1) loop_ok_search [OF s(2)] f(2) by (simp add: repair_def)
qed

lemma build_ok:
  assumes h: "heuristic_ok h lambda" and rng: "random_ok rng" and st: "search_ok (h_inst h) R st"
    and ne: "customer_ids (h_inst h) \<noteq> []"
  shows "\<exists>s st'. build rng h lambda st = ret (s, st') \<and> search_ok (h_inst h) R st' \<and>
    solution_fit (h_inst h) R s \<and> validate_partition (h_inst h) s = Inr ()"
proof -
  let ?I = "h_inst h" and ?cs = "customer_ids (h_inst h)"
  note H = heuristic_okD [OF h]
  have f: "factory_ok ?I (ss_factory st)" "allow_revisits (ss_factory st) = R" using st by (simp_all add: search_ok_def)
  obtain i r where i: "draw rng 0 (length ?cs - 1) (ss_random st) = (i, r)" by (cases "draw rng 0 (length ?cs - 1) (ss_random st)")
  have "fst (draw rng 0 (length ?cs - 1) (ss_random st)) \<le> length ?cs - 1" using rng by (simp add: random_ok_def)
  then have lt: "i < length ?cs" using i ne by (cases ?cs) auto
  have one: "customers_ok ?I [?cs ! i]" using lt by (simp add: customers_ok_def)
  have gs: "\<forall>g \<in> set (direct_gaps 1). gap_ok ?I R g" by (simp add: direct_gaps_def gap_ok_def)
  let ?p = "fit_plan ?I [?cs ! i] (direct_gaps 1)"
  have p: "builds ?I R (\<lambda>f. built (plan_sequence ?I f [?cs ! i] None)) ?p" "plan_fit ?I R ?p"
    using make_plan_builds [OF H(4,5) one _ gs] fit_plan_fit(1) [OF H(4,5) f(1) one, of "direct_gaps 1"] gs f(2)
    by (simp_all add: plan_sequence_def direct_gaps_def)
  obtain f1 where f1: "built (plan_sequence ?I (ss_factory st) [?cs ! i] None) = ret (?p, f1)" "factory_ok ?I f1" "allow_revisits f1 = R"
    using p(1) f by (rule buildsE)
  obtain q where q: "builds ?I R (\<lambda>f. if completes_construction_winner (h_profile h)
        then repair_new_gaps (h_sampler h) ?p [] lambda False f else ret (?p, f)) q"
      "plan_fit ?I R q" "plan_customers q = [?cs ! i]"
  proof (cases "completes_construction_winner (h_profile h)")
    case True
    obtain q where "builds ?I R (repair_new_gaps (h_sampler h) ?p [] lambda False) q"
      "improved_plan ?I R lambda (introduced_gaps ?I ?p []) ?p q"
      using repair_new_gaps_ok [OF H(1-3) f(1) [unfolded h_inst_def] f(2) p(2) [unfolded h_inst_def]] by (auto simp: h_inst_def)
    then show thesis using True by (intro that [of q]) (simp_all add: improved_plan_def)
  qed (use p in \<open>simp add: that [of ?p] builds_ret\<close>)
  obtain f2 where f2: "(if completes_construction_winner (h_profile h)
        then repair_new_gaps (h_sampler h) ?p [] lambda False f1 else ret (?p, f1)) = ret (q, f2)" "factory_ok ?I f2" "allow_revisits f2 = R"
    using q(1) f1(2,3) by (rule buildsE)
  let ?st = "st\<lparr>ss_factory := f2, ss_random := r, ss_scorer := None\<rparr>"
  have sst: "search_ok ?I R ?st" using f2 by (simp add: search_ok_def scorer_table_def)
  obtain st1 where st1: "fresh_memos ?st = Inr st1" "ss_factory st1 = ss_factory ?st" "ss_hints st1 = []"
    "loop_ok h lambda (ss_factory ?st) st1" by (rule fresh_memos_ok [OF sst])
  then have l: "loop_ok h lambda f2 st1" by simp
  let ?rest = "take i ?cs @ drop (i + 1) ?cs"
  have "mset ?cs = mset (take i ?cs @ ?cs ! i # drop (i + 1) ?cs)" using id_take_nth_drop [OF lt] by simp
  then have inv: "loop_inv h R \<lparr>plans = [q]\<rparr> ?rest" using q(2,3) by (simp add: loop_inv_def solution_fit_def)
  obtain s st' where s: "insert_all rng h lambda Greedy_Insertion \<lparr>plans = [q]\<rparr> ?rest st1 = ret (s, st')" "loop_ok h lambda f2 st'"
    "loop_inv h R s []"
    using insert_all_ok [OF h f2(2) l] inv f2(3) by blast
  note D = loop_inv_done [OF H(4) s(3)]
  have "search_ok ?I R (st'\<lparr>ss_scorer := ss_scorer st\<rparr>)"
    using loop_ok_search [OF s(2)] st f2(3) by (simp add: search_ok_def)
  then show ?thesis using i lt ne f1(1) f2(1) st1(1) s(1) D
    by (auto simp: build_def first_route_def random_index_def Let_def)
qed

section \<open>The removed customers\<close>

text \<open>\<open>xs\<close> was taken from \<open>base\<close> without repetition.\<close>

definition drawn_from :: "'a list \<Rightarrow> 'a list \<Rightarrow> nat \<Rightarrow> bool" where
  "drawn_from base xs n \<longleftrightarrow> distinct xs \<and> set xs \<subseteq> set base \<and> length xs = n"

lemma shuffled_mset: "random_ok rng \<Longrightarrow> mset (fst (shuffled rng xs r)) = mset xs"
proof -
  assume "random_ok rng"
  then have "mset (fst (shuffle_order rng (length xs) r)) = mset [0..<length xs]" by (simp add: random_ok_def)
  then have "mset (map (\<lambda>i. xs ! i) (fst (shuffle_order rng (length xs) r))) = mset (map (\<lambda>i. xs ! i) [0..<length xs])"
    by (simp only: mset_map)
  then show ?thesis by (simp add: shuffled_def map_nth split_beta flip: mset_map)
qed

lemma swapped_mset: "i < length xs \<Longrightarrow> j < length xs \<Longrightarrow> mset (swapped xs i j) = mset xs"
  by (simp add: swapped_def mset_swap)

lemma fisher_yates_mset:
  assumes "random_ok rng" and "quota \<le> n"
  shows "mset (fst (fisher_yates rng n quota r)) = mset [0..<n]"
proof -
  have "mset (fst (foldl (\<lambda>(positions, r) k. case draw rng k (n - 1) r of (j, r') \<Rightarrow> (swapped positions k j, r')) ([0..<n], r) ks)) =
      mset [0..<n]" if "set ks \<subseteq> {..<n}" for ks
    using that
  proof (induction ks rule: rev_induct)
    case (snoc k ks)
    obtain xs r' where x: "foldl (\<lambda>(positions, r) k. case draw rng k (n - 1) r of (j, r') \<Rightarrow> (swapped positions k j, r')) ([0..<n], r) ks = (xs, r')"
      by fastforce
    obtain j r'' where j: "draw rng k (n - 1) r' = (j, r'')" by fastforce
    have k: "k < n" using snoc.prems by simp
    have m: "mset xs = mset [0..<n]" using snoc x by simp
    then have "length xs = n" by (metis length_upt mset_eq_length minus_nat.diff_0)
    moreover have "fst (draw rng k (n - 1) r') \<le> n - 1" using assms(1) k by (simp add: random_ok_def)
    then have "j < n" using j k by simp
    ultimately have "mset (swapped xs k j) = mset xs" using k by (intro swapped_mset) auto
    then show ?case using x j m by simp
  qed simp
  moreover have "set [0..<quota] \<subseteq> {..<n}" using assms(2) by auto
  ultimately show ?thesis unfolding fisher_yates_def by blast
qed

lemma quota_appended:
  assumes "random_ok rng" and "distinct customers"
  shows "\<exists>xs r'. append_up_to_quota rng policy k oriented (removed, r) customers = (removed @ xs, r') \<and>
    drawn_from customers xs (min (length customers) (k - length removed))"
proof -
  define n where "n = min (length customers) (k - length removed)"
  have "\<exists>xs r'. append_up_to_quota rng policy k oriented (removed, r) customers = (removed @ xs, r') \<and>
    drawn_from customers xs n"
  proof (cases "n = 0")
    case True
    then show ?thesis by (intro exI [of _ "[]"]) (auto simp: append_up_to_quota_def drawn_from_def Let_def n_def [symmetric])
  next
    case False
    show ?thesis
    proof (cases "oriented \<and> n < length customers \<and> policy = Random_Subset")
      case True
      obtain positions r' where f: "fisher_yates rng (length customers) n r = (positions, r')" by fastforce
      have m: "mset positions = mset [0..<length customers]" using fisher_yates_mset [OF assms(1), of n "length customers" r] f by (simp add: n_def)
      have len: "length positions = length customers" using mset_eq_length [OF m] by simp
      have s: "set positions = {..<length customers}" using mset_eq_setD [OF m] by (simp add: atLeast0LessThan)
      have d: "distinct positions" using mset_eq_imp_distinct_iff [OF m] by simp
      let ?xs = "map (\<lambda>i. customers ! i) (sort (take n positions))"
      have sub: "set (take n positions) \<subseteq> {..<length customers}" using s by (auto dest: in_set_takeD)
      have "distinct ?xs"
      proof -
        have "inj_on (\<lambda>i. customers ! i) (set (take n positions))" by (rule inj_on_nth [OF assms(2)]) (use sub in blast)
        moreover have "distinct (take n positions)" using d by (rule distinct_take)
        ultimately show ?thesis unfolding distinct_map distinct_sort set_sort by (rule conjI [rotated])
      qed
      moreover have "n \<le> length customers" by (simp add: n_def)
      ultimately have "drawn_from customers ?xs n" using sub len by (auto simp: drawn_from_def)
      then show ?thesis using False True f by (intro exI [of _ ?xs] exI [of _ r']) (simp add: append_up_to_quota_def Let_def n_def [symmetric])
    next
      case no: False
      have "n \<le> length customers" by (simp add: n_def)
      then have "drawn_from customers (take n customers) n"
        using assms(2) by (auto simp: drawn_from_def dest: in_set_takeD)
      then show ?thesis using False no by (intro exI [of _ "take n customers"] exI [of _ r]) (auto simp: append_up_to_quota_def Let_def n_def [symmetric])
    qed
  qed
  then show ?thesis by (simp add: n_def)
qed

lemma drawn_append:
  assumes "drawn_from base xs n" and "drawn_from ys zs m" and "set ys \<inter> set xs = {}" and "set ys \<subseteq> set base"
  shows "drawn_from base (xs @ zs) (n + m)"
  using assms by (auto simp: drawn_from_def)

lemma quota_filled:
  assumes rng: "random_ok rng"
  shows "drawn_from base removed n \<Longrightarrow> n \<le> k \<Longrightarrow> distinct (removed @ concat css) \<Longrightarrow> set (concat css) \<subseteq> set base \<Longrightarrow>
    \<exists>xs r'. fill_quota rng policy k (removed, r) css = (removed @ xs, r') \<and>
      set xs \<subseteq> set (concat css) \<and> drawn_from base (removed @ xs) (min k (n + length (concat css)))"
proof (induction css arbitrary: removed r n)
  case Nil
  then show ?case by (auto simp: drawn_from_def min_def)
next
  case (Cons cs css)
  show ?case
  proof (cases "n \<ge> k")
    case True
    then show ?thesis using Cons.prems by (intro exI [of _ "[]"]) (auto simp: drawn_from_def)
  next
    case False
    have dc: "distinct cs" using Cons.prems(3) by simp
    obtain xs r1 where xs: "append_up_to_quota rng policy k True (removed, r) cs = (removed @ xs, r1)"
      "drawn_from cs xs (min (length cs) (k - length removed))"
      using quota_appended [OF rng dc] by blast
    have len: "length removed = n" using Cons.prems(1) by (simp add: drawn_from_def)
    have d1: "drawn_from base (removed @ xs) (n + min (length cs) (k - n))"
    proof -
      have "set cs \<inter> set removed = {}" "set cs \<subseteq> set base" using Cons.prems(3,4) by auto
      from drawn_append [OF Cons.prems(1) xs(2) this] show ?thesis using len by simp
    qed
    have d2: "distinct ((removed @ xs) @ concat css)"
      using Cons.prems(3) xs(2) by (auto simp: drawn_from_def)
    have le: "n + min (length cs) (k - n) \<le> k" using False by simp
    have sub: "set (concat css) \<subseteq> set base" using Cons.prems(4) by simp
    obtain ys r2 where ys: "fill_quota rng policy k (removed @ xs, r1) css = ((removed @ xs) @ ys, r2)" "set ys \<subseteq> set (concat css)"
      "drawn_from base ((removed @ xs) @ ys) (min k (n + min (length cs) (k - n) + length (concat css)))"
      using Cons.IH [OF d1 le d2, of r1] sub by blast
    have "min k (n + min (length cs) (k - n) + length (concat css)) = min k (n + length (concat (cs # css)))"
      using False by auto
    then show ?thesis using False len xs ys by (intro exI [of _ "xs @ ys"] exI [of _ r2]) (auto simp: drawn_from_def)
  qed
qed

lemma random_removal_drawn:
  assumes "random_ok rng" and "distinct cs" and "k \<le> length cs"
  shows "drawn_from cs (fst (random_removal rng k cs r)) k"
proof -
  obtain ds r' where s: "shuffled rng cs r = (ds, r')" by fastforce
  have m: "mset ds = mset cs" using shuffled_mset [OF assms(1), of cs r] s by simp
  then have "distinct ds" "set ds = set cs" "length ds = length cs"
    using assms(2) mset_eq_imp_distinct_iff mset_eq_setD mset_eq_length by blast+
  then show ?thesis using s assms(3) by (auto simp: random_removal_def drawn_from_def dest: in_set_takeD)
qed

text \<open>The customers of the routes in any order.\<close>

lemma routes_permuted:
  assumes "mset ks = mset [0..<length ps]"
  shows "mset (concat (map (\<lambda>k. plan_customers (ps ! k)) ks)) = mset (concat (map plan_customers ps))"
proof -
  have "mset (map (\<lambda>k. plan_customers (ps ! k)) ks) = mset (map (\<lambda>k. plan_customers (ps ! k)) [0..<length ps])"
    using assms by (simp only: mset_map)
  also have "map (\<lambda>k. plan_customers (ps ! k)) [0..<length ps] = map plan_customers ps"
    by (rule nth_equalityI) simp_all
  finally have m: "mset (map (\<lambda>k. plan_customers (ps ! k)) ks) = mset (map plan_customers ps)" .
  have "mset (concat xs) = sum_mset (image_mset mset (mset xs))" for xs :: "int list list" by (induction xs) simp_all
  then show ?thesis by (simp only: m)
qed

lemma random_route_drawn:
  assumes rng: "random_ok rng" and d: "distinct (all_customers s)" and k: "k \<le> length (all_customers s)"
  shows "drawn_from (all_customers s) (fst (random_route rng policy k s r)) k"
proof -
  obtain ks r' where sh: "shuffled rng [0..<length (plans s)] r = (ks, r')" by fastforce
  have "mset ks = mset [0..<length (plans s)]" using shuffled_mset [OF rng, of "[0..<length (plans s)]" r] sh by simp
  then have m: "mset (concat (map (\<lambda>k. plan_customers (plans s ! k)) ks)) = mset (all_customers s)"
    unfolding all_customers_def by (rule routes_permuted)
  have e: "drawn_from (all_customers s) [] 0" by (simp add: drawn_from_def)
  obtain xs r2 where "fill_quota rng policy k ([], r') (map (\<lambda>k. plan_customers (plans s ! k)) ks) = ([] @ xs, r2)"
    "drawn_from (all_customers s) ([] @ xs) (min k (0 + length (concat (map (\<lambda>k. plan_customers (plans s ! k)) ks))))"
    using quota_filled [OF rng e, of k "map (\<lambda>k. plan_customers (plans s ! k)) ks" policy r'] m d
      mset_eq_imp_distinct_iff [OF m] mset_eq_setD [OF m] by auto
  then show ?thesis using sh k mset_eq_length [OF m] by (simp add: random_route_def)
qed

lemma closest_removal_drawn:
  assumes I: "inst_ok I" and rng: "random_ok rng" and cs: "distinct cs" "set cs \<subseteq> set (ids I)" and k: "0 < k" "k \<le> length cs"
  shows "\<exists>removed r'. closest_removal rng policy I k cs r = Inr (removed, r') \<and> drawn_from cs removed k"
proof -
  have ne: "cs \<noteq> []" using k by auto
  obtain i r1 where i: "draw rng 0 (length cs - 1) r = (i, r1)" by fastforce
  have "fst (draw rng 0 (length cs - 1) r) \<le> length cs - 1" using rng by (simp add: random_ok_def)
  then have lt: "i < length cs" using i ne by (cases cs) auto
  let ?seed = "cs ! i" and ?others = "filter (\<lambda>c. c \<noteq> cs ! i) cs"
  have seed: "?seed \<in> set cs" using lt by simp
  have "rmap (\<lambda>c. rbind (distance_km I ?seed c) (\<lambda>d. Inr (d, c))) ?others = Inr (map (\<lambda>c. (dist_km I ?seed c, c)) ?others)"
    using distance_km_known [OF I subsetD [OF cs(2) seed] subsetD [OF cs(2)]] by (intro rmap_Inr) simp
  moreover define ranked where "ranked = map snd (sort (map (\<lambda>c. (dist_km I ?seed c, c)) ?others))"
  have m: "mset ranked = mset ?others" by (simp add: ranked_def multiset.map_comp comp_def)
  then have r: "distinct ranked" "set ranked = set cs - {?seed}" using cs(1) mset_eq_imp_distinct_iff [OF m] mset_eq_setD [OF m] by auto
  have len: "length ranked = length cs - 1"
  proof -
    have "length ranked = card (set cs - {?seed})" using r distinct_card by metis
    then show ?thesis using seed cs(1) by (simp add: distinct_card)
  qed
  obtain xs r' where xs: "append_up_to_quota rng policy k False ([?seed], r1) ranked = ([?seed] @ xs, r')"
    "drawn_from ranked xs (min (length ranked) (k - length [?seed]))"
    using quota_appended [OF rng r(1)] by blast
  have "drawn_from cs ([?seed] @ xs) (1 + min (length ranked) (k - length [?seed]))"
    by (rule drawn_append [OF _ xs(2)]) (use r seed in \<open>auto simp: drawn_from_def\<close>)
  moreover have "1 + min (length ranked) (k - length [?seed]) = k" using k len by auto
  ultimately show ?thesis
    using ne i xs(1) by (auto simp: closest_removal_def random_index_def Let_def ranked_def)
qed

section \<open>The target\<close>

lemma contributions_ok:
  assumes I: "inst_ok I" "curves_ok I" and l: "isfinite lambda" "0 \<le> lambda" and s: "solution_fit I R s"
    and fits: "scorer_fits I inherited s sc"
  shows "\<exists>cs. contributions I sc lambda s = ret cs \<and>
    map (\<lambda>c. (tc_route c, tc_customer c)) cs = concat (map (\<lambda>(r, p). map (Pair r) (plan_customers p)) (List.enumerate 0 (plans s)))"
proof -
  have score: "\<exists>x. contribution_of I sc lambda p cost r acc c = ret (acc @ [x]) \<and> tc_route x = r \<and> tc_customer x = c"
    if p: "p \<in> set (plans s)" and c: "c \<in> set (plan_customers p)" for p cost r acc c
  proof (cases "length (plan_customers p) > 1")
    case True
    let ?cs = "filter (\<lambda>d. d \<noteq> c) (plan_customers p)"
    have ok: "customers_ok I (plan_customers p)" by (rule solution_fitD(3) [OF s p])
    have "?cs \<noteq> []"
    proof
      assume e: "?cs = []"
      have "removeAll c (plan_customers p) = []" using e by (simp add: removeAll_filter_not_eq neq_commute)
      moreover have "length (removeAll c (plan_customers p)) = length (plan_customers p) - 1"
        using ok c by (metis customers_ok_def distinct_remove1_removeAll length_remove1)
      ultimately show False using True by simp
    qed
    moreover have sub: "set ?cs \<subseteq> set (customer_ids I)" using ok by (auto simp: customers_ok_def)
    ultimately have "score_sequence I sc ?cs = route_score I (inherited_visits I inherited ?cs)"
      using fits by (intro score_sequence_eq [OF I(1)]) (auto simp: scorer_fits_def)
    moreover have "set (inherited_visits I inherited ?cs) \<subseteq> set (ids I)"
      using fits sub by (intro inherited_visits_known [OF I(1)]) (auto simp: scorer_fits_def)
    then obtain S where "route_score I (inherited_visits I inherited ?cs) = Some (Inr S)"
      "summary_cost S I lambda = Inr (route_cost I lambda (inherited_visits I inherited ?cs))"
      by (rule route_cost_scored [OF I _ l])
    ultimately show ?thesis using True by (simp add: contribution_of_def ret_def [symmetric])
  qed (simp add: contribution_of_def)
  have inner: "\<exists>xs. efold (contribution_of I sc lambda p cost r) acc cs = ret (acc @ xs) \<and>
      map (\<lambda>c. (tc_route c, tc_customer c)) xs = map (Pair r) cs"
    if p: "p \<in> set (plans s)" and cs: "set cs \<subseteq> set (plan_customers p)" for p cost r acc cs
    using cs
  proof (induction cs arbitrary: acc)
    case (Cons c cs)
    obtain x where x: "contribution_of I sc lambda p cost r acc c = ret (acc @ [x])" "tc_route x = r" "tc_customer x = c"
      using score [OF p, of c cost r acc] Cons.prems by auto
    obtain xs where "efold (contribution_of I sc lambda p cost r) (acc @ [x]) cs = ret ((acc @ [x]) @ xs)"
      "map (\<lambda>c. (tc_route c, tc_customer c)) xs = map (Pair r) cs" using Cons.IH [of "acc @ [x]"] Cons.prems by auto
    then show ?case using x by (intro exI [of _ "x # xs"]) simp
  qed simp
  have "\<exists>xs. efold (\<lambda>acc (r, p). ebind (lifted (plan_cost I lambda p)) (\<lambda>current_cost.
              efold (contribution_of I sc lambda p current_cost r) acc (plan_customers p))) acc rps = ret (acc @ xs) \<and>
      map (\<lambda>c. (tc_route c, tc_customer c)) xs = concat (map (\<lambda>(r, p). map (Pair r) (plan_customers p)) rps)"
    if "snd ` set rps \<subseteq> set (plans s)" for acc rps
    using that
  proof (induction rps arbitrary: acc)
    case (Cons rp rps)
    obtain r p where rp: "rp = (r, p)" by fastforce
    then have p: "p \<in> set (plans s)" using Cons.prems by auto
    obtain xs where xs: "efold (contribution_of I sc lambda p (cost_of I lambda p) r) acc (plan_customers p) = ret (acc @ xs)"
      "map (\<lambda>c. (tc_route c, tc_customer c)) xs = map (Pair r) (plan_customers p)" using inner [OF p order_refl] by blast
    have cost: "plan_cost I lambda p = Inr (cost_of I lambda p)" by (rule plan_cost_fit(1) [OF I(1) solution_fitD(1) [OF s p] l])
    obtain ys where "efold (\<lambda>acc (r, p). ebind (lifted (plan_cost I lambda p)) (\<lambda>current_cost.
              efold (contribution_of I sc lambda p current_cost r) acc (plan_customers p))) (acc @ xs) rps = ret ((acc @ xs) @ ys)"
      "map (\<lambda>c. (tc_route c, tc_customer c)) ys = concat (map (\<lambda>(r, p). map (Pair r) (plan_customers p)) rps)"
      using Cons.IH [of "acc @ xs"] Cons.prems by auto
    then show ?case using rp xs cost by (intro exI [of _ "xs @ ys"]) simp
  qed simp
  moreover have "snd ` set (List.enumerate 0 (plans s)) \<subseteq> set (plans s)" by (auto simp: in_set_enumerate_eq)
  ultimately obtain xs where "efold (\<lambda>acc (r, p). ebind (lifted (plan_cost I lambda p)) (\<lambda>current_cost.
              efold (contribution_of I sc lambda p current_cost r) acc (plan_customers p))) [] (List.enumerate 0 (plans s)) = ret ([] @ xs)"
      "map (\<lambda>c. (tc_route c, tc_customer c)) xs = concat (map (\<lambda>(r, p). map (Pair r) (plan_customers p)) (List.enumerate 0 (plans s)))"
    by blast
  then show ?thesis by (auto simp: contributions_def)
qed

lemma fold_choice_in: "(\<And>a c. f a c = a \<or> f a c = c) \<Longrightarrow> a \<in> A \<Longrightarrow> set cs \<subseteq> A \<Longrightarrow> foldl f a cs \<in> A"
proof (induction cs arbitrary: a)
  case (Cons c cs)
  have "f a c \<in> A" using Cons.prems(1) [of a c] Cons.prems(2,3) by auto
  then show ?case using Cons.IH [OF Cons.prems(1)] Cons.prems(3) by simp
qed simp

lemma target_of_in:
  assumes "cs \<noteq> []"
  shows "target_of cs \<in> set cs"
proof -
  have m: "foldl (\<lambda>m c. if tc_value m < tc_value c then c else m) (hd cs) (tl cs) \<in> set cs"
    using assms by (intro fold_choice_in) (auto dest: list.set_sel(2))
  show ?thesis unfolding target_of_def Let_def by (rule fold_choice_in [OF _ m subset_refl]) auto
qed

lemma target_removal_drawn:
  assumes I: "inst_ok I" "curves_ok I" and l: "isfinite lambda" "0 \<le> lambda" and s: "solution_fit I R s"
    and fits: "scorer_fits I inherited s sc" and rng: "random_ok rng" and k: "0 < k" "k \<le> length (all_customers s)"
  shows "\<exists>removed r'. target_removal rng policy I sc lambda k s r = ret (removed, r') \<and> drawn_from (all_customers s) removed k"
proof -
  obtain cs where cs: "contributions I sc lambda s = ret cs"
    "map (\<lambda>c. (tc_route c, tc_customer c)) cs = concat (map (\<lambda>(r, p). map (Pair r) (plan_customers p)) (List.enumerate 0 (plans s)))"
    using contributions_ok [OF I l s fits] by blast
  have d: "distinct (all_customers s)" using s by (simp add: solution_fit_def all_customers_def)
  have ne: "cs \<noteq> []"
  proof
    assume "cs = []"
    then have e: "\<forall>rp \<in> set (List.enumerate 0 (plans s)). (case rp of (r, p) \<Rightarrow> map (Pair r) (plan_customers p)) = []"
      using cs(2) by simp
    have "plan_customers (plans s ! j) = []" if "j < length (plans s)" for j
      using bspec [OF e, of "(j, plans s ! j)"] that by (simp add: in_set_enumerate_eq)
    then have "\<forall>p \<in> set (plans s). plan_customers p = []" by (metis in_set_conv_nth)
    then have "all_customers s = []" by (simp add: all_customers_def)
    then show False using k by simp
  qed
  define t where "t = target_of cs"
  have "(tc_route t, tc_customer t) \<in> set (concat (map (\<lambda>(r, p). map (Pair r) (plan_customers p)) (List.enumerate 0 (plans s))))"
    using target_of_in [OF ne] unfolding cs(2) [symmetric] t_def by auto
  then have t: "tc_route t < length (plans s)" "tc_customer t \<in> set (plan_customers (plans s ! tc_route t))"
    by (auto simp: in_set_enumerate_eq)
  let ?r = "tc_route t" and ?c = "tc_customer t"
  let ?ks = "filter (\<lambda>k. k \<noteq> ?r) [0..<length (plans s)]"
  have known: "set (plan_customers p) \<subseteq> set (ids I)" if "p \<in> set (plans s)" for p
    using solution_fitD(3) [OF s that] customer_known(1) [OF I(1)] by (auto simp: customers_ok_def)
  have cid: "?c \<in> set (ids I)" using known [of "plans s ! ?r"] t by auto
  have dist: "\<exists>d. route_distance I ?c p = Inr d" if p: "p \<in> set (plans s)" for p
  proof -
    have "\<exists>d. rfold (\<lambda>d c. rbind (distance_km I ?c c) (\<lambda>x. Inr (Some (case d of None \<Rightarrow> x | Some y \<Rightarrow> min y x)))) d0 xs = Inr d"
      if "set xs \<subseteq> set (ids I)" for d0 xs
      using that by (induction xs arbitrary: d0) (simp_all add: distance_km_known [OF I(1) cid])
    then show ?thesis using known [OF p] by (simp add: route_distance_def)
  qed
  let ?rank = "\<lambda>k. route_rank (projr (route_distance I ?c (plans s ! k))) k"
  have ranked: "rmap (\<lambda>k. rbind (route_distance I ?c (plans s ! k)) (\<lambda>d. Inr (route_rank d k))) ?ks = Inr (map ?rank ?ks)"
  proof (rule rmap_Inr)
    fix k assume "k \<in> set ?ks"
    then obtain d where "route_distance I ?c (plans s ! k) = Inr d" using dist [of "plans s ! k"] by auto
    then show "rbind (route_distance I ?c (plans s ! k)) (\<lambda>d. Inr (route_rank d k)) = Inr (?rank k)" by simp
  qed
  define js where "js = map (\<lambda>k. snd (snd k)) (sort (map ?rank ?ks))"
  have "snd (snd (?rank k)) = k" for k by (simp add: route_rank_def split: option.split)
  then have js: "mset js = mset ?ks" by (simp add: js_def multiset.map_comp comp_def)
  let ?others = "map (\<lambda>k. plan_customers (plans s ! k)) js"
  let ?rest = "filter (\<lambda>c. c \<noteq> ?c) (plan_customers (plans s ! ?r))"
  have "mset (?r # js) = mset [0..<length (plans s)]"
  proof -
    have "filter (\<lambda>k. k \<noteq> ?r) [0..<length (plans s)] = remove1 ?r [0..<length (plans s)]"
      by (simp add: distinct_remove1_removeAll removeAll_filter_not_eq neq_commute)
    then show ?thesis using js t(1) by (simp del: mset_upt mset_filter)
  qed
  then have all: "mset (plan_customers (plans s ! ?r) @ concat ?others) = mset (all_customers s)"
    unfolding all_customers_def using routes_permuted [of "?r # js" "plans s"] by simp
  have dr: "distinct (plan_customers (plans s ! ?r))" using solution_fitD(3) [OF s] t(1) by (simp add: customers_ok_def)
  have "?rest = remove1 ?c (plan_customers (plans s ! ?r))"
    using distinct_remove1_removeAll [OF dr, of ?c] by (simp add: removeAll_filter_not_eq neq_commute)
  then have "mset (?c # ?rest) = mset (plan_customers (plans s ! ?r))" using t(2) by simp
  then have perm: "mset (?c # ?rest @ concat ?others) = mset (all_customers s)" using all by (metis append_Cons mset_append)
  have dd: "distinct (?c # ?rest @ concat ?others)" and ss: "set (?c # ?rest @ concat ?others) = set (all_customers s)"
    using mset_eq_imp_distinct_iff [OF perm] d mset_eq_setD [OF perm] by simp_all
  have one: "drawn_from (all_customers s) [?c] 1" using ss by (auto simp: drawn_from_def)
  obtain xs r1 where xs: "fill_quota rng policy k ([?c], r) ?others = ([?c] @ xs, r1)" "set xs \<subseteq> set (concat ?others)"
      "drawn_from (all_customers s) ([?c] @ xs) (min k (1 + length (concat ?others)))"
    using quota_filled [OF rng one, of k ?others policy r] k(1) dd ss by auto
  have len: "length ([?c] @ xs) = min k (1 + length (concat ?others))" using xs(3) by (simp add: drawn_from_def)
  have total: "1 + length ?rest + length (concat ?others) = length (all_customers s)" using mset_eq_length [OF perm] by simp
  have run: "target_removal rng policy I sc lambda k s r =
      ret (if length ([?c] @ xs) < k then append_up_to_quota rng policy k True ([?c] @ xs, r1) ?rest else ([?c] @ xs, r1))"
    using cs(1) ne ranked xs(1) unfolding target_removal_def
    by (simp add: Let_def t_def [symmetric] js_def comp_def)
  show ?thesis
  proof (cases "length ([?c] @ xs) < k")
    case False
    then have "length ([?c] @ xs) = k" using len by simp
    then have "drawn_from (all_customers s) ([?c] @ xs) k" using xs(3) by (simp add: drawn_from_def)
    then show ?thesis using run False by auto
  next
    case True
    have "distinct ?rest" using dd by simp
    then obtain ys r2 where ys: "append_up_to_quota rng policy k True ([?c] @ xs, r1) ?rest = (([?c] @ xs) @ ys, r2)"
      "drawn_from ?rest ys (min (length ?rest) (k - length ([?c] @ xs)))"
      using quota_appended [OF rng] by blast
    have n: "length ([?c] @ xs) = 1 + length (concat ?others)" using True len by simp
    have a: "set ?rest \<inter> set ([?c] @ xs) = {}" using dd xs(2) by auto
    have b: "set ?rest \<subseteq> set (all_customers s)" using ss by auto
    have c: "min k (1 + length (concat ?others)) + min (length ?rest) (k - length ([?c] @ xs)) = k"
      using n len total k(2) True by linarith
    have "drawn_from (all_customers s) (([?c] @ xs) @ ys) k"
      using drawn_append [OF xs(3) ys(2) a b] unfolding c .
    then show ?thesis using run True ys(1) by auto
  qed
qed

section \<open>Destroy\<close>

lemma remaining_customers:
  "concat (remove_customers s removed) = filter (\<lambda>c. c \<notin> set removed) (all_customers s)"
proof -
  have "concat (filter (\<lambda>cs. cs \<noteq> []) xss) = concat xss" for xss :: "int list list" by (induction xss) simp_all
  then show ?thesis by (simp add: remove_customers_def all_customers_def filter_concat comp_def)
qed

lemma remaining_sequences_ok:
  assumes s: "solution_fit I R s" and cs: "cs \<in> set (remove_customers s removed)"
  shows "customers_ok I cs"
proof -
  obtain p where p: "p \<in> set (plans s)" "cs = filter (\<lambda>c. c \<notin> set removed) (plan_customers p)" "cs \<noteq> []"
    using cs by (auto simp: remove_customers_def)
  then show ?thesis using solution_fitD(3) [OF s p(1)] by (auto simp: customers_ok_def)
qed

text \<open>The plan is the one of the reference, or its gaps are inherited from it.\<close>

definition kept_or_inherited :: "inst \<Rightarrow> solution \<Rightarrow> gap_map \<Rightarrow> plan \<Rightarrow> bool" where
  "kept_or_inherited I s m p \<longleftrightarrow> p \<in> set (plans s) \<or> gaps p = inherited_gaps (depot_id I) (plan_customers p) m"

lemma sequence_plan_ok:
  assumes I: "inst_ok I" "curves_ok I" and s: "solution_fit I R s" and m: "gap_map_of I s = Inr m"
    and cs: "customers_ok I cs" and f: "factory_ok I f" "allow_revisits f = R"
  shows "\<exists>p f'. sequence_plan I (plans s) (Some m) cs f = ret (p, f') \<and> factory_ok I f' \<and> allow_revisits f' = R \<and>
    plan_fit I R p \<and> plan_customers p = cs \<and> kept_or_inherited I s m p"
proof (cases "List.find (\<lambda>p. plan_customers p = cs) (plans s)")
  case (Some p)
  then have "p \<in> set (plans s)" "plan_customers p = cs" by (auto simp: find_Some_iff in_set_conv_nth)
  then show ?thesis using Some f solution_fitD(1) [OF s] by (auto simp: sequence_plan_def kept_or_inherited_def)
next
  case None
  have gs: "\<forall>g \<in> set (inherited_gaps (depot_id I) cs m). gap_ok I R g"
    by (rule inherited_gaps_ok [OF gap_map_paths_ok [OF I(1) s m]]) (use cs in \<open>simp add: customers_ok_def\<close>)
  have len: "length (inherited_gaps (depot_id I) cs m) = length cs + 1"
    using inherited_gaps_nth(2) [of 0 cs "depot_id I" m] by simp
  obtain f' where "built (plan_sequence_with I f cs m) = ret (fit_plan I cs (inherited_gaps (depot_id I) cs m), f')"
    "factory_ok I f'" "allow_revisits f' = R"
    by (rule buildsE [OF plan_sequence_builds [OF I cs gs] f])
  moreover have "plan_fit I R (fit_plan I cs (inherited_gaps (depot_id I) cs m))"
    using fit_plan_fit(1) [OF I f(1) cs len] gs f(2) by simp
  ultimately show ?thesis using None by (simp add: sequence_plan_def kept_or_inherited_def)
qed

lemma solution_built:
  assumes I: "inst_ok I" "curves_ok I" and s: "solution_fit I R s" and m: "gap_map_of I s = Inr m"
    and cs: "\<forall>cs \<in> set seqs. customers_ok I cs" and f: "factory_ok I f" "allow_revisits f = R"
  shows "\<exists>t f'. build_solution_from_sequences I seqs (Some s) f = ret (t, f') \<and> factory_ok I f' \<and> allow_revisits f' = R \<and>
    map plan_customers (plans t) = seqs \<and> (\<forall>p \<in> set (plans t). plan_fit I R p \<and> kept_or_inherited I s m p)"
proof -
  have "\<exists>ps f'. efold (\<lambda>(s', f) cs. if cs = [] then ret (s', f)
       else ebind (sequence_plan I (plans s) (Some m) cs f) (\<lambda>(p, f'). ret (\<lparr>plans = plans s' @ [p]\<rparr>, f'))) (t, f) seqs =
      ret (\<lparr>plans = plans t @ ps\<rparr>, f') \<and> factory_ok I f' \<and> allow_revisits f' = R \<and> map plan_customers ps = seqs \<and>
      (\<forall>p \<in> set ps. plan_fit I R p \<and> kept_or_inherited I s m p)" for t
    using cs f
  proof (induction seqs arbitrary: t f)
    case (Cons cs seqs)
    have ok: "customers_ok I cs" "cs \<noteq> []" using Cons.prems(1) by (auto simp: customers_ok_def)
    obtain p f1 where p: "sequence_plan I (plans s) (Some m) cs f = ret (p, f1)" "factory_ok I f1" "allow_revisits f1 = R"
      "plan_fit I R p" "plan_customers p = cs" "kept_or_inherited I s m p"
      using sequence_plan_ok [OF I s m ok(1) Cons.prems(2,3)] by blast
    have rest: "\<forall>cs \<in> set seqs. customers_ok I cs" using Cons.prems(1) by simp
    obtain ps f' where "efold (\<lambda>(s', f) cs. if cs = [] then ret (s', f)
       else ebind (sequence_plan I (plans s) (Some m) cs f) (\<lambda>(p, f'). ret (\<lparr>plans = plans s' @ [p]\<rparr>, f'))) (\<lparr>plans = plans t @ [p]\<rparr>, f1) seqs =
      ret (\<lparr>plans = plans \<lparr>plans = plans t @ [p]\<rparr> @ ps\<rparr>, f')" "factory_ok I f'" "allow_revisits f' = R" "map plan_customers ps = seqs"
      "\<forall>p \<in> set ps. plan_fit I R p \<and> kept_or_inherited I s m p"
      using Cons.IH [OF rest p(2,3)] by blast
    then show ?case using p ok(2) by (intro exI [of _ "p # ps"] exI [of _ f']) simp
  qed simp
  from this [of "\<lparr>plans = []\<rparr>"] show ?thesis
    using m by (auto simp: build_solution_from_sequences_def cong: if_cong simp del: split_paired_Ex)
qed

lemma select_removed_ok:
  assumes h: "heuristic_ok h lambda" and rng: "random_ok rng" and st: "search_ok (h_inst h) R st"
    and s: "solution_fit (h_inst h) R s" and k: "0 < k" "k \<le> length (all_customers s)"
  shows "\<exists>removed st'. select_removed rng policy h lambda operation k s st = ret (removed, st') \<and> search_ok (h_inst h) R st' \<and>
    drawn_from (all_customers s) removed k"
proof -
  let ?I = "h_inst h" and ?cs = "all_customers s"
  note H = heuristic_okD [OF h]
  have d: "distinct ?cs" using s by (simp add: solution_fit_def all_customers_def)
  show ?thesis
  proof (cases operation)
    case Random_Removal
    obtain removed r' where r: "random_removal rng k ?cs (ss_random st) = (removed, r')" by fastforce
    then show ?thesis using Random_Removal st random_removal_drawn [OF rng d k(2), of "ss_random st"]
      by (simp add: select_removed_def search_ok_def)
  next
    case Random_Route
    obtain removed r' where r: "random_route rng policy k s (ss_random st) = (removed, r')" by fastforce
    then show ?thesis using Random_Route st random_route_drawn [OF rng d k(2), of policy "ss_random st"]
      by (simp add: select_removed_def search_ok_def)
  next
    case Closest_Removal
    have "set ?cs \<subseteq> set (ids ?I)"
      using solution_fitD(3) [OF s] customer_known(1) [OF H(4)] by (auto simp: all_customers_def customers_ok_def)
    then obtain removed r' where "closest_removal rng policy ?I k ?cs (ss_random st) = Inr (removed, r')" "drawn_from ?cs removed k"
      using closest_removal_drawn [OF H(4) rng d _ k] by blast
    then show ?thesis using Closest_Removal st by (simp add: select_removed_def search_ok_def)
  next
    case Target_Removal
    obtain m where m: "gap_map_of ?I s = Inr m" using gap_map_exists [OF H(4)] by blast
    have ref: "reference_ok ?I s m"
      using s plan_fit_ok by (intro gap_map_reference_ok [OF H(4) _ _ m]) (auto simp: solution_fit_def)
    have "\<exists>sc. (case ss_scorer st of None \<Rightarrow> make_sequence_scorer ?I s m | Some sc \<Rightarrow> reset_scorer ?I sc s m) = Inr sc \<and>
        table_ok ?I sc \<and> scorer_inv ?I (gap_of m) sc \<and> map prof_customers (profiles sc) = map plan_customers (plans s)"
      using make_sequence_scorer_ok [OF H(4,6) ref] reset_scorer_ok [OF H(4) _ ref] st
      by (auto simp: search_ok_def scorer_table_def split: option.split)
    then obtain sc where sc: "(case ss_scorer st of None \<Rightarrow> make_sequence_scorer ?I s m | Some sc \<Rightarrow> reset_scorer ?I sc s m) = Inr sc"
      "table_ok ?I sc" "scorer_fits ?I m s sc" using ref by (auto simp: scorer_fits_def reference_ok_def)
    obtain removed r' where "target_removal rng policy ?I sc lambda k s (ss_random st) = ret (removed, r')" "drawn_from ?cs removed k"
      using target_removal_drawn [OF H(4,5,2,3) s sc(3) rng k] by blast
    then show ?thesis using Target_Removal st m sc by (simp add: select_removed_def search_ok_def scorer_table_def)
  qed
qed

lemma destroy_ok:
  assumes h: "heuristic_ok h lambda" and rng: "random_ok rng" and st: "search_ok (h_inst h) R st"
    and s: "solution_fit (h_inst h) R s" and m: "gap_map_of (h_inst h) s = Inr m"
  shows "\<exists>remaining removed st'. destroy rng policy h lambda operation requested s st = ret (remaining, removed, st') \<and>
    search_ok (h_inst h) R st' \<and> solution_fit (h_inst h) R remaining \<and>
    drawn_from (all_customers s) removed (min requested (length (all_customers s))) \<and>
    all_customers remaining = filter (\<lambda>c. c \<notin> set removed) (all_customers s) \<and>
    (\<forall>p \<in> set (plans remaining). kept_or_inherited (h_inst h) s m p)"
proof -
  let ?I = "h_inst h" and ?k = "min requested (length (all_customers s))"
  note H = heuristic_okD [OF h]
  show ?thesis
  proof (cases "?k = 0")
    case True
    then show ?thesis using st s
      by (intro exI [of _ s] exI [of _ "[]"] exI [of _ st]) (auto simp: destroy_def drawn_from_def kept_or_inherited_def)
  next
    case False
    then obtain removed st1 where r: "select_removed rng policy h lambda operation ?k s st = ret (removed, st1)" "search_ok ?I R st1"
      "drawn_from (all_customers s) removed ?k"
      using select_removed_ok [OF h rng st s, of ?k policy operation] by auto
    obtain t f where t: "build_solution_from_sequences ?I (remove_customers s removed) (Some s) (ss_factory st1) = ret (t, f)"
      "factory_ok ?I f" "allow_revisits f = R" "map plan_customers (plans t) = remove_customers s removed"
      "\<forall>p \<in> set (plans t). plan_fit ?I R p \<and> kept_or_inherited ?I s m p"
      using solution_built [OF H(4,5) s m, of "remove_customers s removed" "ss_factory st1"] remaining_sequences_ok [OF s] r(2)
      by (auto simp: search_ok_def)
    have c: "all_customers t = filter (\<lambda>c. c \<notin> set removed) (all_customers s)"
      using remaining_customers [of s removed] t(4) by (simp add: all_customers_def)
    have "distinct (all_customers t)" using s unfolding c by (simp add: solution_fit_def all_customers_def del: set_concat)
    then have "solution_fit ?I R t" using t(5) by (simp add: solution_fit_def all_customers_def)
    moreover have "search_ok ?I R (st1\<lparr>ss_factory := f\<rparr>)" using r(2) t(2,3) by (simp add: search_ok_def)
    moreover have "destroy rng policy h lambda operation requested s st = ret (t, removed, st1\<lparr>ss_factory := f\<rparr>)"
      unfolding destroy_def Let_def if_not_P [OF False] using r(1) t(1) by simp
    ultimately show ?thesis using r(3) t(5) c by blast
  qed
qed

lemma removed_complement:
  assumes s: "mset (all_customers s) = mset (customer_ids I)" and d: "distinct (all_customers s)"
    and r: "drawn_from (all_customers s) removed k" and t: "all_customers t = filter (\<lambda>c. c \<notin> set removed) (all_customers s)"
  shows "mset (all_customers t) + mset removed = mset (customer_ids I)"
proof -
  have "mset removed = filter_mset (\<lambda>c. c \<in> set removed) (mset (all_customers s))"
  proof (rule set_eq_iff_mset_eq_distinct [THEN iffD1, of removed "filter (\<lambda>c. c \<in> set removed) (all_customers s)", simplified])
  qed (use r d in \<open>auto simp: drawn_from_def\<close>)
  then show ?thesis unfolding t s [symmetric] by (simp add: multiset_partition [symmetric] add.commute)
qed

lemma perturb_ok:
  assumes h: "heuristic_ok h lambda" and rng: "random_ok rng" and st: "search_ok (h_inst h) R st"
    and s: "solution_fit (h_inst h) R s" "mset (all_customers s) = mset (customer_ids (h_inst h))"
  shows "\<exists>t k st'. perturb rng policy h lambda s st = ret (t, k, st') \<and> search_ok (h_inst h) R st' \<and>
    solution_fit (h_inst h) R t \<and> validate_partition (h_inst h) t = Inr () \<and>
    fst (removal_range (h_inst h)) \<le> k \<and> k \<le> snd (removal_range (h_inst h))"
proof -
  let ?I = "h_inst h"
  note H = heuristic_okD [OF h]
  obtain n r1 where n: "draw rng (fst (removal_range ?I)) (snd (removal_range ?I)) (ss_random st) = (n, r1)" by fastforce
  obtain d r2 where d: "draw rng 0 3 r1 = (d, r2)" by fastforce
  obtain op r3 where o: "draw rng 0 1 r2 = (op, r3)" by fastforce
  have range: "fst (removal_range ?I) \<le> snd (removal_range ?I)" by (simp add: removal_range_def Let_def)
  have "fst (removal_range ?I) \<le> fst (draw rng (fst (removal_range ?I)) (snd (removal_range ?I)) (ss_random st)) \<and>
      fst (draw rng (fst (removal_range ?I)) (snd (removal_range ?I)) (ss_random st)) \<le> snd (removal_range ?I)"
    using rng range by (simp add: random_ok_def)
  then have bounds: "fst (removal_range ?I) \<le> n" "n \<le> snd (removal_range ?I)" using n by simp_all
  obtain m where m: "gap_map_of ?I s = Inr m" using gap_map_exists [OF H(4)] by blast
  have st1: "search_ok ?I R (st\<lparr>ss_random := r3\<rparr>)" using st by (simp add: search_ok_def)
  let ?k = "min n (length (all_customers s))"
  obtain remaining removed st2 where de: "destroy rng policy h lambda (destroy_operator_of d) n s (st\<lparr>ss_random := r3\<rparr>) = ret (remaining, removed, st2)"
    "search_ok ?I R st2" "solution_fit ?I R remaining" "drawn_from (all_customers s) removed ?k"
    "all_customers remaining = filter (\<lambda>c. c \<notin> set removed) (all_customers s)"
    using destroy_ok [OF h rng st1 s(1) m] by blast
  have dist: "distinct (all_customers s)" using s(1) by (simp add: solution_fit_def all_customers_def)
  have inv: "loop_inv h R remaining removed"
    using removed_complement [OF s(2) dist de(4,5)] de(3) by (simp add: loop_inv_def all_customers_def)
  obtain t st3 where re: "repair rng h lambda (repair_operator_of op) remaining removed st2 = ret (t, st3)" "search_ok ?I R st3"
    "solution_fit ?I R t" "validate_partition ?I t = Inr ()"
    using repair_ok [OF h de(2) inv] by blast
  have len: "length removed = ?k" using de(4) by (simp add: drawn_from_def)
  have "length (all_customers s) = length (customer_ids ?I)" using mset_eq_length [OF s(2)] .
  then have "fst (removal_range ?I) \<le> length removed \<and> length removed \<le> snd (removal_range ?I)"
    using bounds len by (auto simp: removal_range_def Let_def)
  then show ?thesis using n d o de(1) re H(7) by (simp add: perturb_def)
qed

end
