(* ===== verification/Perturbation_Properties.thy ===== *)
theory Perturbation_Properties
  imports Perturbation_Sound
begin

text \<open>
  What construction, destroy and perturbation promise, for every random stream.
\<close>

section \<open>A search on the demonstration instance\<close>

definition demo_random :: "nat random_source" where
  "demo_random = \<lparr>draw = (\<lambda>lo hi r. (min hi (lo + r), r + 1)), shuffle_order = (\<lambda>n r. (rev [0..<n], r + 1))\<rparr>"

definition demo_heuristic :: heuristic where
  "demo_heuristic = \<lparr>h_sampler = demo_sampler, h_implicit = False, h_slack = Some 0, h_profile = Linked_Insertion_Candidates,
     h_rebuild = False, h_single_step = True, h_granular = None, h_hints = True\<rparr>"

definition demo_search :: "nat search_state" where
  "demo_search =
     (let c = \<lparr>capacity = 8, order = [], index = [], fresh_node = 0, hits = 0, misses = 0, evictions = 0\<rparr>
      in \<lparr>ss_factory = demo_factory, ss_cache = c, ss_memo = \<lparr>capacity = 8, order = [], index = [], fresh_node = 0, hits = 0, misses = 0, evictions = 0\<rparr>,
          ss_virtual_memo = \<lparr>capacity = 8, order = [], index = [], fresh_node = 0, hits = 0, misses = 0, evictions = 0\<rparr>,
          ss_scorer = None, ss_random = 0, ss_hints = []\<rparr>)"

lemma demo_heuristic_inst [simp]: "h_inst demo_heuristic = demo_inst"
  by (simp add: h_inst_def demo_heuristic_def)

lemma demo_random_ok: "random_ok demo_random"
  by (simp add: random_ok_def demo_random_def)

lemma demo_heuristic_ok: "heuristic_ok demo_heuristic 1"
  using demo_sampler_ok one_finite demo_anchors
  by (simp add: heuristic_ok_def) (simp add: demo_heuristic_def)

lemma demo_search_ok: "search_ok demo_inst (allow_revisits demo_factory) demo_search"
  using demo_factory_ok by (simp add: search_ok_def demo_search_def scorer_table_def Let_def)

definition demo_whole :: solution where
  "demo_whole = \<lparr>plans = [fit_plan demo_inst [1] [[], []], fit_plan demo_inst [3] [[], [2]]]\<rparr>"

lemma demo_whole_fit:
  shows "solution_fit demo_inst (allow_revisits demo_factory) demo_whole"
    and "mset (all_customers demo_whole) = mset (customer_ids demo_inst)"
proof -
  have c: "customers_ok demo_inst [1]" "customers_ok demo_inst [3]" by (simp_all add: customers_ok_def demo_inst_def)
  have "gap_ok demo_inst (allow_revisits demo_factory) [2]" using demo_station by (simp add: gap_ok_def)
  then show "solution_fit demo_inst (allow_revisits demo_factory) demo_whole"
    using fit_plan_fit(1) [OF demo_inst_ok demo_curves_ok demo_factory_ok c(1), of "[[], []]"]
      fit_plan_fit(1) [OF demo_inst_ok demo_curves_ok demo_factory_ok c(2), of "[[], [2]]"]
    by (simp add: solution_fit_def demo_whole_def gap_ok_def)
  show "mset (all_customers demo_whole) = mset (customer_ids demo_inst)"
    by (simp add: all_customers_def demo_whole_def demo_inst_def)
qed

section \<open>Properties\<close>

text \<open>
  C15: The construction never throws and always ends with a solution that visits every customer once, in
  well-formed evaluated plans, whatever the random stream and for every profile without granular
  neighbourhood, also when station paths are rebuilt in every decision.
\<close>

theorem construction_partitions:
  assumes "heuristic_ok h lambda" and "random_ok rng" and "search_ok (h_inst h) R st"
    and "customer_ids (h_inst h) \<noteq> []"
  shows "\<exists>s st'. build rng h lambda st = ret (s, st') \<and> validate_partition (h_inst h) s = Inr () \<and>
    solution_fit (h_inst h) R s \<and> search_ok (h_inst h) R st'"
  using build_ok [OF assms] by blast

theorem construction_partitions_witness:
  "\<exists>s st'. build demo_random demo_heuristic 1 demo_search = ret (s, st') \<and> validate_partition demo_inst s = Inr ()"
proof -
  have "customer_ids (h_inst demo_heuristic) \<noteq> []" by simp (simp add: demo_inst_def)
  from construction_partitions [OF demo_heuristic_ok demo_random_ok, of "allow_revisits demo_factory" demo_search] this demo_search_ok
  show ?thesis by auto
qed

text \<open>
  C14: Every destroy operator removes exactly the requested number of distinct customers, or all of them
  when there are fewer, whatever the random stream; the other customers stay in their order, and
  every remaining plan is a plan of the old solution or takes, gap by gap, the
  station path that the old solution drives between the same two nodes.
\<close>

theorem destroy_removes_exactly:
  assumes "heuristic_ok h lambda" and "random_ok rng" and "search_ok (h_inst h) R st"
    and "solution_fit (h_inst h) R s" and "gap_map_of (h_inst h) s = Inr m"
  shows "\<exists>remaining removed st'. destroy rng policy h lambda operation requested s st = ret (remaining, removed, st') \<and>
    distinct removed \<and> set removed \<subseteq> set (all_customers s) \<and> length removed = min requested (length (all_customers s)) \<and>
    all_customers remaining = filter (\<lambda>c. c \<notin> set removed) (all_customers s) \<and>
    (\<forall>p \<in> set (plans remaining). p \<in> set (plans s) \<or>
       gaps p = inherited_gaps (depot_id (h_inst h)) (plan_customers p) m)"
  using destroy_ok [OF assms] unfolding drawn_from_def kept_or_inherited_def by blast

theorem destroy_removes_exactly_witness:
  "\<exists>remaining removed st'. destroy demo_random Random_Subset demo_heuristic 1 Target_Removal 1 demo_whole demo_search =
     ret (remaining, removed, st') \<and> length removed = 1"
proof -
  obtain m where m: "gap_map_of demo_inst demo_whole = Inr m" using gap_map_exists [OF demo_inst_ok] by blast
  have "length (all_customers demo_whole) = 2" by (simp add: all_customers_def demo_whole_def)
  with destroy_removes_exactly [OF demo_heuristic_ok demo_random_ok, of "allow_revisits demo_factory" demo_search demo_whole m
      Random_Subset Target_Removal 1] demo_search_ok demo_whole_fit(1) m
  show ?thesis by auto
qed

text \<open>
  C8: A perturbation never throws and always ends: it removes between min(n, 3) and max(min(n, 3),
  floor(sqrt n)) customers with one of the four operators, inserts them again by one of the two repair
  operators, and returns a solution that visits every customer once in well-formed evaluated plans.
\<close>

theorem perturbation_keeps_partition:
  assumes "heuristic_ok h lambda" and "random_ok rng" and "search_ok (h_inst h) R st"
    and "solution_fit (h_inst h) R s" and "mset (all_customers s) = mset (customer_ids (h_inst h))"
  shows "\<exists>t k st'. perturb rng policy h lambda s st = ret (t, k, st') \<and> validate_partition (h_inst h) t = Inr () \<and>
    solution_fit (h_inst h) R t \<and> search_ok (h_inst h) R st' \<and>
    min (length (customer_ids (h_inst h))) 3 \<le> k \<and>
    k \<le> max (min (length (customer_ids (h_inst h))) 3) (nat \<lfloor>sqrt (real (length (customer_ids (h_inst h))))\<rfloor>)"
  using perturb_ok [OF assms] by (fastforce simp: removal_range_def Let_def)

theorem perturbation_keeps_partition_witness:
  "\<exists>t k st'. perturb demo_random Prefix_Subset demo_heuristic 1 demo_whole demo_search = ret (t, k, st') \<and>
     validate_partition demo_inst t = Inr ()"
  using perturbation_keeps_partition [OF demo_heuristic_ok demo_random_ok, of "allow_revisits demo_factory" demo_search demo_whole Prefix_Subset]
    demo_search_ok demo_whole_fit by auto

end
