(* ===== verification/Catalog_Build.thy ===== *)
theory Catalog_Build
  imports Path_Completion "HOL-Library.Char_ord" "HOL-Library.Product_Lexorder"
begin

text \<open>
  The construction of path catalogues (src/search.cpp: \<open>PathSampler::build_curve_order\<close>,
  \<open>build_reachable_station_index\<close> and \<open>path_catalog\<close> with complete paths): every elementary path of
  stations that some route can drive is enumerated depth first, dominated ones are dropped on
  the way and once more at the end, and the rest is sorted by distance.

  Paths are lists of stations.  The packed representation orders paths as their lists do
  (Path_Properties); the buckets by ranks and first station, which only speed up the tests of
  dominance, appear as the conditions on the paths that they admit.
\<close>

section \<open>The order of the curves\<close>

definition types_at :: "inst \<Rightarrow> string \<Rightarrow> charging_curve result" where
  "types_at I ty = (case map_of (charging_curves I) ty of Some c \<Rightarrow> Inr c | None \<Rightarrow> Inl (Out_Of_Range ''unordered_map::at''))"

definition pairs_of_list :: "'a list \<Rightarrow> ('a \<times> 'a) list" where
  "pairs_of_list xs = concat (map (\<lambda>i. map (\<lambda>j. (xs ! i, xs ! j)) [i + 1..<length xs]) [0..<length xs])"

definition check_comparable :: "inst \<Rightarrow> unit \<Rightarrow> string \<times> string \<Rightarrow> unit result" where
  "check_comparable I u lr =
     rbind (types_at I (fst lr)) (\<lambda>l. rbind (types_at I (snd lr)) (\<lambda>r.
     rbind (charging_curve_no_slower l r) (\<lambda>left_first.
     if left_first then Inr ()
     else rbind (charging_curve_no_slower r l) (\<lambda>right_first.
          if right_first then Inr ()
          else Inl (Invalid_Argument ''paper path dominance requires comparable charging curves'')))))"

definition energy_breakpoints :: "inst \<Rightarrow> string list \<Rightarrow> real list result" where
  "energy_breakpoints I types =
     rbind (rmap (\<lambda>ty. rbind (types_at I ty) (\<lambda>c. Inr (map energy_wh (points c)))) types) (\<lambda>es.
     Inr (remdups_adj (sort (concat es))))"

definition curve_signature :: "inst \<Rightarrow> real list \<Rightarrow> string \<Rightarrow> real list result" where
  "curve_signature I breakpoints ty =
     rbind (types_at I ty) (\<lambda>c. rmap (\<lambda>i.
       rbind (charge_duration c (breakpoints ! (i - 1)) (breakpoints ! i)) (\<lambda>duration.
       if \<not> isfinite duration then Inl (Invalid_Argument ''charging curve ordering requires finite durations'')
       else Inr duration)) [1..<length breakpoints])"

definition check_order :: "inst \<Rightarrow> unit \<Rightarrow> string \<times> string \<Rightarrow> unit result" where
  "check_order I u lr =
     rbind (types_at I (fst lr)) (\<lambda>l. rbind (types_at I (snd lr)) (\<lambda>r.
     rbind (charging_curve_no_slower l r) (\<lambda>ok.
     if ok then Inr ()
     else Inl (Invalid_Argument ''paper path dominance requires a consistent charging curve order''))))"

definition curve_order :: "inst \<Rightarrow> string list result" where
  "curve_order I =
     (let types = sort (map fst (charging_curves I))
      in rbind (rfold (check_comparable I) () (pairs_of_list types)) (\<lambda>_.
         rbind (energy_breakpoints I types) (\<lambda>breakpoints.
         rbind (rmap (curve_signature I breakpoints) types) (\<lambda>signatures.
         let ordered = map snd (sort (zip signatures types))
         in rbind (rfold (check_order I) () (pairs_of_list ordered)) (\<lambda>_. Inr ordered)))))"

definition curve_rank :: "string list \<Rightarrow> string \<Rightarrow> nat result" where
  "curve_rank ordered ty =
     (case map_of (zip ordered [0..<length ordered]) ty of Some k \<Rightarrow> Inr k
      | None \<Rightarrow> Inl (Out_Of_Range ''unordered_map::at''))"

definition station_rank :: "inst \<Rightarrow> string list \<Rightarrow> int \<Rightarrow> nat result" where
  "station_rank I ordered s = rbind (node_of I s) (\<lambda>n. curve_rank ordered (station_type n))"

section \<open>The index of the sampler\<close>

record sampler_index =
  si_inst :: inst
  si_maximum_rate :: rate
  si_curve_order :: "string list"
  si_station_ranks :: "nat list"

definition sampler_index_of :: "inst \<Rightarrow> rate \<Rightarrow> sampler_index result" where
  "sampler_index_of I maximum_rate =
     rbind (curve_order I) (\<lambda>ordered.
     rbind (rmap (station_rank I ordered) (station_ids I)) (\<lambda>ranks.
     Inr \<lparr>si_inst = I, si_maximum_rate = maximum_rate, si_curve_order = ordered, si_station_ranks = ranks\<rparr>))"

definition within_battery :: "inst \<Rightarrow> real \<Rightarrow> bool" where
  "within_battery I distance \<longleftrightarrow>
     distance * consumption_wh_per_km (vehicle_of I) \<le> battery_capacity_wh (vehicle_of I) + kEnergyToleranceWh"

section \<open>Dominance\<close>

record candidate_path =
  cp_stations :: "int list"
  cp_fastest :: nat
  cp_slowest :: nat
  cp_first_leg :: real
  cp_last_leg :: real
  cp_total :: real

definition dominates :: "candidate_path \<Rightarrow> candidate_path \<Rightarrow> bool" where
  "dominates left right \<longleftrightarrow> cp_slowest left \<le> cp_fastest right \<and>
     cp_first_leg left \<le> cp_first_leg right + kCostTolerance \<and>
     cp_last_leg left \<le> cp_last_leg right + kCostTolerance \<and>
     cp_total left \<le> cp_total right + kCostTolerance"

text \<open>The buckets that are searched for a path that dominates the proposal, and those it may dominate.\<close>

definition rejecting_bucket :: "candidate_path \<Rightarrow> candidate_path \<Rightarrow> bool" where
  "rejecting_bucket proposal known \<longleftrightarrow> cp_slowest known \<le> cp_fastest proposal \<and> cp_fastest known \<le> cp_slowest known \<and>
     cp_first_leg known \<le> cp_first_leg proposal + kCostTolerance"

definition erasing_bucket :: "nat \<Rightarrow> candidate_path \<Rightarrow> candidate_path \<Rightarrow> bool" where
  "erasing_bucket curve_types proposal known \<longleftrightarrow> cp_slowest proposal \<le> cp_fastest known \<and> cp_fastest known \<le> cp_slowest known \<and>
     cp_slowest known < curve_types \<and> cp_first_leg proposal \<le> cp_first_leg known + kCostTolerance"

definition rejected_proposal :: "candidate_path list \<Rightarrow> candidate_path \<Rightarrow> bool" where
  "rejected_proposal storage proposal =
     list_ex (\<lambda>known. rejecting_bucket proposal known \<and> dominates known proposal \<and>
        (\<not> dominates proposal known \<or> cp_stations known < cp_stations proposal)) storage"

definition store_proposal :: "nat \<Rightarrow> candidate_path list \<Rightarrow> candidate_path \<Rightarrow> candidate_path list" where
  "store_proposal curve_types storage proposal =
     (if rejected_proposal storage proposal then storage
      else filter (\<lambda>known. \<not> (erasing_bucket curve_types proposal known \<and> dominates proposal known)) storage @ [proposal])"

section \<open>Enumeration\<close>

text \<open>What a call of \<open>path_catalog\<close> computes once.\<close>

record catalog_context =
  cc_index :: sampler_index
  cc_origin :: int
  cc_target :: int
  cc_rest_distance :: real
  cc_service :: real

definition catalog_context_of :: "sampler_index \<Rightarrow> int \<Rightarrow> int \<Rightarrow> catalog_context result" where
  "catalog_context_of si a b =
     (let I = si_inst si
      in rbind (depot_of I) (\<lambda>d.
         rbind (distance_km I (node_id d) a) (\<lambda>out.
         rbind (distance_km I b (node_id d)) (\<lambda>home.
         rbind (node_of I a) (\<lambda>na. rbind (node_of I b) (\<lambda>nb.
         Inr \<lparr>cc_index = si, cc_origin = a, cc_target = b, cc_rest_distance = out + home,
              cc_service = node_service_time_h na + (if a = b then 0 else node_service_time_h nb)\<rparr>))))))"

definition over_rate :: "real \<Rightarrow> rate \<Rightarrow> real" where
  "over_rate x r = (case r of Infinite_Rate \<Rightarrow> 0 | Finite_Rate y \<Rightarrow> x / y)"

definition time_lower_bound :: "catalog_context \<Rightarrow> real \<Rightarrow> real" where
  "time_lower_bound cc distance =
     (let I = si_inst (cc_index cc); v = vehicle_of I; whole = distance + cc_rest_distance cc
      in cc_service cc + whole / speed_kmph v +
         over_rate (max 0 (whole * consumption_wh_per_km v - battery_capacity_wh v)) (si_maximum_rate (cc_index cc)))"

text \<open>The path so far: its end, its distance, its first leg, its ranks and its stations.\<close>

record path_state =
  st_previous :: int
  st_distance :: real
  st_first :: real
  st_fastest :: nat
  st_slowest :: nat
  st_path :: "int list"

definition extended :: "sampler_index \<Rightarrow> path_state \<Rightarrow> nat \<Rightarrow> real \<Rightarrow> path_state" where
  "extended si st i leg =
     (let s = station_ids (si_inst si) ! i; rank = si_station_ranks si ! i
      in \<lparr>st_previous = s, st_distance = st_distance st + leg, st_first = (if st_path st = [] then leg else st_first st),
          st_fastest = (if st_path st = [] then rank else min (st_fastest st) rank),
          st_slowest = (if st_path st = [] then rank else max (st_slowest st) rank), st_path = st_path st @ [s]\<rparr>)"

definition candidate_of_state :: "path_state \<Rightarrow> real \<Rightarrow> candidate_path" where
  "candidate_of_state st last_leg =
     \<lparr>cp_stations = st_path st, cp_fastest = st_fastest st, cp_slowest = st_slowest st,
      cp_first_leg = st_first st, cp_last_leg = last_leg, cp_total = st_distance st + last_leg\<rparr>"

text \<open>The next state when the station is allowed here, and the last leg from it.\<close>

definition visit_station :: "catalog_context \<Rightarrow> path_state \<Rightarrow> nat \<Rightarrow> (path_state \<times> real) option result" where
  "visit_station cc st i =
     (let si = cc_index cc; I = si_inst si; s = station_ids I ! i
      in if s \<in> set (st_path st) then Inr None
         else rbind (distance_km I (st_previous st) s) (\<lambda>leg.
              if \<not> within_battery I leg then Inr None
              else rbind (distance_km I s (cc_target cc)) (\<lambda>last_leg.
                   if time_lower_bound cc (st_distance st + leg + last_leg) > max_route_duration_h (vehicle_of I) + kTimeToleranceH
                   then Inr None
                   else Inr (Some (extended si st i leg, last_leg)))))"

text \<open>The depth is at most the number of stations.\<close>

primrec enumerate_paths :: "nat \<Rightarrow> catalog_context \<Rightarrow> path_state \<Rightarrow> candidate_path list \<Rightarrow> candidate_path list result" where
  "enumerate_paths 0 cc st storage = Inr storage"
| "enumerate_paths (Suc depth) cc st storage =
     rfold (\<lambda>storage i. rbind (visit_station cc st i) (\<lambda>v. case v of None \<Rightarrow> Inr storage
        | Some (st', last_leg) \<Rightarrow>
            enumerate_paths depth cc st'
              (if within_battery (si_inst (cc_index cc)) last_leg
               then store_proposal (length (si_curve_order (cc_index cc))) storage (candidate_of_state st' last_leg) else storage)))
       storage [0..<length (station_ids (si_inst (cc_index cc)))]"

definition no_path :: "int \<Rightarrow> path_state" where
  "no_path a = \<lparr>st_previous = a, st_distance = 0, st_first = 0, st_fastest = 0, st_slowest = 0, st_path = []\<rparr>"

definition enumerated :: "catalog_context \<Rightarrow> candidate_path list result" where
  "enumerated cc = enumerate_paths (length (station_ids (si_inst (cc_index cc)))) cc (no_path (cc_origin cc)) []"

section \<open>The dominance filter\<close>

definition candidate_key :: "candidate_path \<Rightarrow> real \<times> real \<times> real \<times> nat \<times> nat \<times> int list" where
  "candidate_key c = (cp_first_leg c, cp_last_leg c, cp_total c, cp_fastest c, cp_slowest c, cp_stations c)"

text \<open>The survivors in order: an earlier one drops the candidate, or is dropped by it.\<close>

definition filter_candidate :: "candidate_path list \<Rightarrow> candidate_path \<Rightarrow> candidate_path list" where
  "filter_candidate active c =
     (if list_ex (\<lambda>k. cp_slowest k \<le> cp_fastest c \<and> dominates k c) active then active
      else filter (\<lambda>k. \<not> (cp_slowest c \<le> cp_fastest k \<and> dominates c k)) active @ [c])"

definition nondominated :: "candidate_path list \<Rightarrow> candidate_path list" where
  "nondominated candidates = foldl filter_candidate [] (sort_key candidate_key candidates)"

section \<open>The catalogue\<close>

definition build_catalog :: "sampler_index \<Rightarrow> int \<Rightarrow> int \<Rightarrow> catalog_path list result" where
  "build_catalog si a b =
     rbind (catalog_context_of si a b) (\<lambda>cc.
     rbind (enumerated cc) (\<lambda>candidates.
     rbind (distance_km (si_inst si) a b) (\<lambda>direct.
     let entries = \<lparr>option_stations = [], option_distance_km = direct\<rparr> #
           map (\<lambda>c. \<lparr>option_stations = cp_stations c, option_distance_km = cp_total c\<rparr>) (nondominated candidates)
     in Inr (sort_key (\<lambda>p. (option_distance_km p, length (option_stations p), option_stations p)) entries))))"

section \<open>Dominance of a single path\<close>

text \<open>\<open>path_dominated\<close>: some other path that a route can drive dominates this one.\<close>

record path_measure =
  pm_first :: real
  pm_last :: real
  pm_total :: real
  pm_fastest :: nat
  pm_slowest :: nat
  pm_stations :: "int list"

fun rany :: "('a \<Rightarrow> bool result) \<Rightarrow> 'a list \<Rightarrow> bool result" where
  "rany f [] = Inr False"
| "rany f (x # xs) = rbind (f x) (\<lambda>b. if b then Inr True else rany f xs)"

definition measure_key :: "path_measure \<Rightarrow> real \<times> real \<times> real \<times> nat \<times> nat \<times> int list" where
  "measure_key m = (pm_first m, pm_last m, pm_total m, pm_fastest m, pm_slowest m, pm_stations m)"

definition energy_within :: "inst \<Rightarrow> int \<Rightarrow> int \<Rightarrow> bool result" where
  "energy_within I a b = rbind (energy_between_wh I a b) (\<lambda>e.
     Inr (e \<le> battery_capacity_wh (vehicle_of I) + kEnergyToleranceWh))"

definition path_measure_of :: "sampler_index \<Rightarrow> int \<Rightarrow> int \<Rightarrow> int list \<Rightarrow> path_measure result" where
  "path_measure_of si a b path =
     (let I = si_inst si
      in rbind (distance_km I a (hd path)) (\<lambda>first. rbind (distance_km I (last path) b) (\<lambda>final.
         rbind (rfold (\<lambda>(total, previous, fastest, slowest) i.
             rbind (distance_km I previous i) (\<lambda>d.
             rbind (station_rank I (si_curve_order si) i) (\<lambda>rank.
             Inr (total + d, i, min fastest rank, max slowest rank))))
           (final, a, length (si_curve_order si), 0 :: nat) path) (\<lambda>(total, _, fastest, slowest).
         Inr \<lparr>pm_first = first, pm_last = final, pm_total = total, pm_fastest = fastest, pm_slowest = slowest,
              pm_stations = path\<rparr>))))"

text \<open>Whether a complete witness path beats the reference.\<close>

definition witness_dominates :: "path_measure \<Rightarrow> path_state \<Rightarrow> real \<Rightarrow> bool" where
  "witness_dominates ref st trailing =
     (let mutual = pm_slowest ref \<le> st_fastest st \<and> pm_first ref \<le> st_first st + kCostTolerance \<and>
            pm_last ref \<le> trailing + kCostTolerance \<and> pm_total ref \<le> st_distance st + trailing + kCostTolerance
      in \<not> mutual \<or>
         (st_first st, trailing, st_distance st + trailing, st_fastest st, st_slowest st, st_path st) < measure_key ref)"

primrec dominated_from :: "nat \<Rightarrow> sampler_index \<Rightarrow> int \<Rightarrow> path_measure \<Rightarrow> path_state \<Rightarrow> bool result" where
  "dominated_from 0 si b ref st = Inr False"
| "dominated_from (Suc depth) si b ref st =
     (let I = si_inst si
      in rany (\<lambda>i. let s = station_ids I ! i in
           if s \<in> set (st_path st) \<or> si_station_ranks si ! i > pm_fastest ref then Inr False
           else rbind (distance_km I (st_previous st) s) (\<lambda>leg.
                rbind (energy_within I (st_previous st) s) (\<lambda>reachable.
                if \<not> reachable then Inr False
                else let st' = extended si st i leg in
                  if st_first st' > pm_first ref + kCostTolerance then Inr False
                  else rbind (distance_km I s b) (\<lambda>trailing.
                       if st_distance st' + trailing > pm_total ref + kCostTolerance then Inr False
                       else rbind (if trailing \<le> pm_last ref + kCostTolerance then energy_within I s b else Inr False) (\<lambda>ends.
                            if ends \<and> st_path st' \<noteq> pm_stations ref \<and> witness_dominates ref st' trailing then Inr True
                            else dominated_from depth si b ref st')))))
           [0..<length (station_ids I)])"

definition path_dominated :: "sampler_index \<Rightarrow> int \<Rightarrow> int \<Rightarrow> int list \<Rightarrow> bool result" where
  "path_dominated si a b path =
     (if path = [] then Inr False
      else rbind (path_measure_of si a b path) (\<lambda>ref.
           dominated_from (length (station_ids (si_inst si))) si b ref (no_path a)))"

end
