(* ===== verification/Catalog_Sound.thy ===== *)
theory Catalog_Sound
  imports Catalog_Build Path_Band
begin

text \<open>
  What the construction of a catalogue computes: the pruned search visits exactly the elementary
  paths that some route can drive, and the store and the filter drop a path only for one that
  dominates it, so that along chains of dominance every such path is represented.
\<close>

section \<open>Stores of candidates\<close>

lemma rejected_proposal_iff:
  "rejected_proposal storage c \<longleftrightarrow> (\<exists>k \<in> set storage. cp_fastest k \<le> cp_slowest k \<and> dominates k c \<and>
     (\<not> dominates c k \<or> cp_stations k < cp_stations c))"
  by (auto simp: rejected_proposal_def list_ex_iff rejecting_bucket_def dominates_def)

definition covers :: "candidate_path list \<Rightarrow> candidate_path \<Rightarrow> bool" where
  "covers storage c \<longleftrightarrow> (\<exists>k \<in> set storage. dominates\<^sup>*\<^sup>* k c)"

lemma covers_member: "c \<in> set storage \<Longrightarrow> covers storage c"
  by (auto simp: covers_def)

lemma covers_step: "covers storage c \<Longrightarrow> (\<And>k. k \<in> set storage \<Longrightarrow> covers storage' k) \<Longrightarrow> covers storage' c"
  unfolding covers_def by (meson rtranclp_trans)

lemma store_proposal_set: "set (store_proposal n storage c) \<subseteq> insert c (set storage)"
  by (auto simp: store_proposal_def)

lemma store_proposal_covers:
  assumes "k = c \<or> covers storage k"
  shows "covers (store_proposal n storage c) k"
proof (cases "rejected_proposal storage c")
  case True
  then obtain d where "d \<in> set storage" "dominates d c" by (auto simp: rejected_proposal_iff)
  then have "covers storage c" by (auto simp: covers_def)
  then show ?thesis using assms True by (auto simp: store_proposal_def)
next
  case False
  then have new: "c \<in> set (store_proposal n storage c)" by (simp add: store_proposal_def)
  have "covers (store_proposal n storage c) d" if "d \<in> set storage" for d
  proof (cases "erasing_bucket n c d \<and> dominates c d")
    case True
    then show ?thesis using new by (auto simp: covers_def)
  next
    case keep: False
    then show ?thesis using that False by (intro covers_member) (auto simp: store_proposal_def)
  qed
  then show ?thesis using assms covers_member [OF new] covers_step by blast
qed

lemma stored_all:
  "set (foldl (store_proposal n) storage cs) \<subseteq> set storage \<union> set cs"
  "k \<in> set cs \<or> covers storage k \<Longrightarrow> covers (foldl (store_proposal n) storage cs) k"
proof (induction cs arbitrary: storage)
  case (Cons c cs)
  case 1
  show ?case using Cons.IH(1) [of "store_proposal n storage c"] store_proposal_set [of n storage c] by auto
  case 2
  then show ?case using Cons.IH(2) [of "store_proposal n storage c"] store_proposal_covers [of k c storage n] by auto
qed auto

section \<open>The filter\<close>

lemma filter_candidate_eq:
  "filter_candidate active c =
     (if \<exists>k \<in> set active. dominates k c then active else filter (\<lambda>k. \<not> dominates c k) active @ [c])"
proof -
  have "list_ex (\<lambda>k. cp_slowest k \<le> cp_fastest c \<and> dominates k c) active \<longleftrightarrow> (\<exists>k \<in> set active. dominates k c)"
    by (auto simp: list_ex_iff dominates_def)
  moreover have "(cp_slowest c \<le> cp_fastest k \<and> dominates c k) \<longleftrightarrow> dominates c k" for k
    by (auto simp: dominates_def)
  ultimately show ?thesis by (simp add: filter_candidate_def)
qed

definition incomparable :: "candidate_path \<Rightarrow> candidate_path \<Rightarrow> bool" where
  "incomparable c d \<longleftrightarrow> \<not> dominates c d \<and> \<not> dominates d c"

lemma filtered_all:
  "set (foldl filter_candidate active cs) \<subseteq> set active \<union> set cs"
  "sorted_wrt incomparable active \<Longrightarrow> sorted_wrt incomparable (foldl filter_candidate active cs)"
  "k \<in> set cs \<or> covers active k \<Longrightarrow> covers (foldl filter_candidate active cs) k"
proof (induction cs arbitrary: active)
  case (Cons c cs)
  {
  case 1
  let ?new = "filter_candidate active c"
  have "set ?new \<subseteq> insert c (set active)"
    unfolding filter_candidate_eq by (cases "\<exists>k \<in> set active. dominates k c") auto
  then show ?case using Cons.IH(1) [of ?new] by auto
  next
  case 2
  let ?new = "filter_candidate active c"
  have "incomparable k c" if "k \<in> set active" "\<not> (\<exists>k \<in> set active. dominates k c)" "\<not> dominates c k" for k
    using that by (auto simp: incomparable_def)
  with 2 have "sorted_wrt incomparable ?new"
    unfolding filter_candidate_eq by (auto simp: sorted_wrt_append sorted_wrt_filter)
  then show ?case using Cons.IH(2) [of ?new] by simp
  next
  case 3
  let ?new = "filter_candidate active c"
  have "covers ?new d" if "d = c \<or> d \<in> set active" for d
  proof (cases "\<exists>k \<in> set active. dominates k c")
    case True
    then have "?new = active" "covers active c" by (auto simp: filter_candidate_eq covers_def)
    then show ?thesis using that covers_member by auto
  next
    case False
    then have new: "?new = filter (\<lambda>k. \<not> dominates c k) active @ [c]" by (simp add: filter_candidate_eq)
    then have c: "c \<in> set ?new" by simp
    show ?thesis
    proof (cases "d = c \<or> \<not> dominates c d")
      case True
      then show ?thesis using that new c by (intro covers_member) auto
    next
      case d: False
      then show ?thesis using c by (auto simp: covers_def)
    qed
  qed
  then have "k \<in> set cs \<or> covers ?new k" using 3 covers_step [of active k ?new] by auto
  then show ?case using Cons.IH(3) [of ?new] by simp
  }
qed auto

lemma nondominated_ok:
  "set (nondominated cs) \<subseteq> set cs" "sorted_wrt incomparable (nondominated cs)" "k \<in> set cs \<Longrightarrow> covers (nondominated cs) k"
  using filtered_all [where active = "[]" and cs = "sort_key candidate_key cs"] by (auto simp: nondominated_def)

section \<open>Paths and their states\<close>

text \<open>The measures of a path, by its list of stations.\<close>

definition rank_of :: "sampler_index \<Rightarrow> int \<Rightarrow> nat" where
  "rank_of si s = the (map_of (zip (station_ids (si_inst si)) (si_station_ranks si)) s)"

definition fastest_of :: "sampler_index \<Rightarrow> int list \<Rightarrow> nat" where
  "fastest_of si p = (if p = [] then 0 else Min (rank_of si ` set p))"

definition slowest_of :: "sampler_index \<Rightarrow> int list \<Rightarrow> nat" where
  "slowest_of si p = (if p = [] then 0 else Max (rank_of si ` set p))"

definition state_of :: "sampler_index \<Rightarrow> int \<Rightarrow> int list \<Rightarrow> path_state" where
  "state_of si a p = \<lparr>st_previous = last (a # p), st_distance = path_km (si_inst si) a p,
     st_first = (if p = [] then 0 else dist_km (si_inst si) a (hd p)),
     st_fastest = fastest_of si p, st_slowest = slowest_of si p, st_path = p\<rparr>"

definition candidate_of :: "sampler_index \<Rightarrow> int \<Rightarrow> int \<Rightarrow> int list \<Rightarrow> candidate_path" where
  "candidate_of si a b p = \<lparr>cp_stations = p, cp_fastest = fastest_of si p, cp_slowest = slowest_of si p,
     cp_first_leg = dist_km (si_inst si) a (hd p), cp_last_leg = dist_km (si_inst si) (last p) b,
     cp_total = path_km (si_inst si) a (p @ [b])\<rparr>"

definition index_ok :: "sampler_index \<Rightarrow> bool" where
  "index_ok si \<longleftrightarrow> inst_ok (si_inst si) \<and> length (si_station_ranks si) = length (station_ids (si_inst si)) \<and>
     (\<forall>x. si_maximum_rate si = Finite_Rate x \<longrightarrow> 0 \<le> x)"

lemma path_km_snoc: "path_km I a (p @ [s]) = path_km I a p + dist_km I (last (a # p)) s"
  by (induction p arbitrary: a) auto

lemma stations_distinct: "inst_ok I \<Longrightarrow> distinct (station_ids I)"
proof -
  assume "inst_ok I"
  then have "distinct (ids_of_kind Station (nodes I))"
    using inst_okD(2) by (auto simp: ids_of_kind_def intro: distinct_map_filter)
  then show ?thesis using inst_okD(8) [OF \<open>inst_ok I\<close>] by simp
qed

lemma rank_of_nth:
  "index_ok si \<Longrightarrow> i < length (station_ids (si_inst si)) \<Longrightarrow> rank_of si (station_ids (si_inst si) ! i) = si_station_ranks si ! i"
  using stations_distinct [of "si_inst si"] by (auto simp: rank_of_def index_ok_def map_of_zip_nth)

lemma extended_state:
  assumes "index_ok si" and "i < length (station_ids (si_inst si))"
  shows "extended si (state_of si a p) i (dist_km (si_inst si) (last (a # p)) (station_ids (si_inst si) ! i)) =
    state_of si a (p @ [station_ids (si_inst si) ! i])"
proof (cases "p = []")
  case True
  then show ?thesis using rank_of_nth [OF assms]
    by (simp add: extended_def state_of_def fastest_of_def slowest_of_def Let_def)
next
  case False
  have "{x. x \<in> set p} \<noteq> {}" using False by auto
  then show ?thesis using False rank_of_nth [OF assms]
    by (simp add: extended_def state_of_def fastest_of_def slowest_of_def Let_def path_km_snoc min.commute max.commute)
qed

lemma candidate_of_state_of:
  "p \<noteq> [] \<Longrightarrow> candidate_of_state (state_of si a p) (dist_km (si_inst si) (last p) b) = candidate_of si a b p"
  by (simp add: candidate_of_state_def state_of_def candidate_of_def path_km_snoc)

section \<open>The enumeration\<close>

text \<open>An elementary path that some route of the time horizon can drive between the two anchors.\<close>

definition context_ok :: "catalog_context \<Rightarrow> bool" where
  "context_ok cc \<longleftrightarrow> index_ok (cc_index cc) \<and> cc_origin cc \<in> set (ids (si_inst (cc_index cc))) \<and>
     cc_target cc \<in> set (ids (si_inst (cc_index cc)))"

definition in_time :: "catalog_context \<Rightarrow> int list \<Rightarrow> bool" where
  "in_time cc p \<longleftrightarrow> time_lower_bound cc (path_km (si_inst (cc_index cc)) (cc_origin cc) (p @ [cc_target cc]))
     \<le> max_route_duration_h (vehicle_of (si_inst (cc_index cc))) + kTimeToleranceH"

fun hops_within :: "inst \<Rightarrow> int \<Rightarrow> int list \<Rightarrow> bool" where
  "hops_within I a [] \<longleftrightarrow> True"
| "hops_within I a (s # p) \<longleftrightarrow> within_battery I (dist_km I a s) \<and> hops_within I s p"

definition prefix_ok :: "catalog_context \<Rightarrow> int list \<Rightarrow> bool" where
  "prefix_ok cc p \<longleftrightarrow> distinct p \<and> set p \<subseteq> set (station_ids (si_inst (cc_index cc))) \<and>
     hops_within (si_inst (cc_index cc)) (cc_origin cc) p \<and> (p \<noteq> [] \<longrightarrow> in_time cc p)"

definition drivable :: "catalog_context \<Rightarrow> int list \<Rightarrow> bool" where
  "drivable cc p \<longleftrightarrow> p \<noteq> [] \<and> prefix_ok cc p \<and>
     within_battery (si_inst (cc_index cc)) (dist_km (si_inst (cc_index cc)) (last p) (cc_target cc))"

lemma hops_within_snoc: "hops_within I a (p @ [s]) \<longleftrightarrow> hops_within I a p \<and> within_battery I (dist_km I (last (a # p)) s)"
  by (induction p arbitrary: a) auto

lemma hops_within_prefix: "hops_within I a (p @ q) \<Longrightarrow> hops_within I a p"
  by (induction p arbitrary: a) auto

lemma path_km_prefix: "path_km I a (p @ [b]) \<le> path_km I a (p @ q @ [b])"
proof (induction p arbitrary: a)
  case Nil
  show ?case
  proof (induction q arbitrary: a)
    case (Cons s q)
    have "dist_km I a b \<le> dist_km I a s + dist_km I s b" by (rule dist_km_triangle)
    with Cons [of s] show ?case by simp
  qed simp
qed simp

lemma over_rate_mono: "x \<le> y \<Longrightarrow> (\<forall>z. r = Finite_Rate z \<longrightarrow> 0 \<le> z) \<Longrightarrow> over_rate x r \<le> over_rate y r"
  by (auto simp: over_rate_def divide_right_mono split: rate.split)

lemma time_lower_bound_mono:
  assumes "context_ok cc" and "x \<le> y"
  shows "time_lower_bound cc x \<le> time_lower_bound cc y"
proof -
  let ?I = "si_inst (cc_index cc)"
  have I: "inst_ok ?I" and r: "\<forall>z. si_maximum_rate (cc_index cc) = Finite_Rate z \<longrightarrow> 0 \<le> z"
    using assms(1) by (simp_all add: context_ok_def index_ok_def)
  note v = vehicle_pos [OF I]
  have "(x + cc_rest_distance cc) / speed_kmph (vehicle_of ?I) \<le> (y + cc_rest_distance cc) / speed_kmph (vehicle_of ?I)"
    using assms(2) v(1) by (simp add: divide_right_mono)
  moreover have "max 0 ((x + cc_rest_distance cc) * consumption_wh_per_km (vehicle_of ?I) - battery_capacity_wh (vehicle_of ?I))
      \<le> max 0 ((y + cc_rest_distance cc) * consumption_wh_per_km (vehicle_of ?I) - battery_capacity_wh (vehicle_of ?I))"
    using assms(2) v(2) by (intro max.mono order_refl) (simp add: mult_right_mono)
  ultimately show ?thesis
    using over_rate_mono [OF _ r] by (simp add: time_lower_bound_def Let_def add_mono)
qed

lemma prefix_ok_prefix:
  assumes "context_ok cc" and "prefix_ok cc (p @ q)"
  shows "prefix_ok cc p"
proof -
  let ?I = "si_inst (cc_index cc)" and ?a = "cc_origin cc" and ?b = "cc_target cc"
  have "in_time cc p" if "p \<noteq> []"
  proof -
    have "in_time cc (p @ q)" using assms(2) that by (simp add: prefix_ok_def)
    moreover have "path_km ?I ?a (p @ [?b]) \<le> path_km ?I ?a (p @ q @ [?b])" by (rule path_km_prefix)
    then have "time_lower_bound cc (path_km ?I ?a (p @ [?b])) \<le> time_lower_bound cc (path_km ?I ?a (p @ q @ [?b]))"
      by (rule time_lower_bound_mono [OF assms(1)])
    ultimately show ?thesis by (simp add: in_time_def)
  qed
  then show ?thesis using assms(2) hops_within_prefix by (auto simp: prefix_ok_def)
qed

lemma visit_station_eq:
  assumes cc: "context_ok cc" and p: "prefix_ok cc p" and i: "i < length (station_ids (si_inst (cc_index cc)))"
  defines "s \<equiv> station_ids (si_inst (cc_index cc)) ! i"
  shows "visit_station cc (state_of (cc_index cc) (cc_origin cc) p) i =
    Inr (if prefix_ok cc (p @ [s])
         then Some (state_of (cc_index cc) (cc_origin cc) (p @ [s]), dist_km (si_inst (cc_index cc)) s (cc_target cc)) else None)"
proof -
  let ?si = "cc_index cc" and ?I = "si_inst (cc_index cc)" and ?a = "cc_origin cc" and ?b = "cc_target cc"
  have I: "inst_ok ?I" and idx: "index_ok ?si" and ab: "?a \<in> set (ids ?I)" "?b \<in> set (ids ?I)"
    using cc by (simp_all add: context_ok_def index_ok_def)
  have s: "s \<in> set (station_ids ?I)" using i by (simp add: s_def)
  then have sk: "s \<in> set (ids ?I)" using known_lookups(3) [OF I] by auto
  have prev: "last (?a # p) \<in> set (ids ?I)"
  proof (cases "p = []")
    case False
    then have "last p \<in> set p" by simp
    then show ?thesis using p known_lookups(3) [OF I] False by (auto simp: prefix_ok_def simp del: last_in_set)
  qed (simp add: ab)
  note d = distance_km_known [OF I prev sk] distance_km_known [OF I sk ab(2)]
  have ext: "extended ?si (state_of ?si ?a p) i (dist_km ?I (last (?a # p)) s) = state_of ?si ?a (p @ [s])"
    using extended_state [OF idx i] by (simp add: s_def)
  have total: "path_km ?I ?a p + dist_km ?I (last (?a # p)) s + dist_km ?I s ?b = path_km ?I ?a ((p @ [s]) @ [?b])"
    using path_km_snoc [of ?I ?a p s] path_km_snoc [of ?I ?a "p @ [s]" ?b] by simp
  have ok: "prefix_ok cc (p @ [s]) \<longleftrightarrow> s \<notin> set p \<and> within_battery ?I (dist_km ?I (last (?a # p)) s) \<and> in_time cc (p @ [s])"
    using p s by (auto simp: prefix_ok_def hops_within_snoc)
  have st: "st_path (state_of ?si ?a p) = p" "st_previous (state_of ?si ?a p) = last (?a # p)"
    "st_distance (state_of ?si ?a p) = path_km ?I ?a p" by (simp_all add: state_of_def)
  show ?thesis
    unfolding visit_station_def Let_def s_def [symmetric] st d rbind_Inr total ext ok in_time_def
    by (auto simp: not_le)
qed

text \<open>The paths below a path, depth first.\<close>

primrec paths_below :: "nat \<Rightarrow> catalog_context \<Rightarrow> int list \<Rightarrow> int list list" where
  "paths_below 0 cc p = []"
| "paths_below (Suc depth) cc p =
     concat (map (\<lambda>i. let q = p @ [station_ids (si_inst (cc_index cc)) ! i]
        in if prefix_ok cc q then q # paths_below depth cc q else [])
       [0..<length (station_ids (si_inst (cc_index cc)))])"

lemma foldl_concat: "foldl f s (concat xss) = foldl (foldl f) s xss"
  by (induction xss arbitrary: s) simp_all

lemma enumerate_paths_eq:
  assumes cc: "context_ok cc"
  shows "prefix_ok cc p \<Longrightarrow>
    enumerate_paths depth cc (state_of (cc_index cc) (cc_origin cc) p) storage =
      Inr (foldl (store_proposal (length (si_curve_order (cc_index cc)))) storage
             (map (candidate_of (cc_index cc) (cc_origin cc) (cc_target cc)) (filter (drivable cc) (paths_below depth cc p))))"
proof (induction depth arbitrary: p storage)
  case (Suc depth)
  let ?si = "cc_index cc" and ?I = "si_inst (cc_index cc)" and ?a = "cc_origin cc" and ?b = "cc_target cc"
  let ?store = "store_proposal (length (si_curve_order ?si))" and ?cand = "candidate_of ?si ?a ?b"
  let ?below = "\<lambda>i. let q = p @ [station_ids ?I ! i] in if prefix_ok cc q then q # paths_below depth cc q else []"
  have step: "rbind (visit_station cc (state_of ?si ?a p) i) (\<lambda>v. case v of None \<Rightarrow> Inr storage
        | Some (st', last_leg) \<Rightarrow> enumerate_paths depth cc st'
              (if within_battery ?I last_leg then ?store storage (candidate_of_state st' last_leg) else storage)) =
      Inr (foldl ?store storage (map ?cand (filter (drivable cc) (?below i))))"
    if i: "i < length (station_ids ?I)" for i storage
  proof (cases "prefix_ok cc (p @ [station_ids ?I ! i])")
    case True
    let ?q = "p @ [station_ids ?I ! i]"
    have c: "candidate_of_state (state_of ?si ?a ?q) (dist_km ?I (station_ids ?I ! i) ?b) = ?cand ?q"
      using candidate_of_state_of [of ?q ?si ?a ?b] by simp
    have d: "drivable cc ?q \<longleftrightarrow> within_battery ?I (dist_km ?I (station_ids ?I ! i) ?b)"
      using True by (simp add: drivable_def)
    show ?thesis
      using visit_station_eq [OF cc Suc.prems i] Suc.IH [OF True] True by (simp add: Let_def c d)
  next
    case False
    then show ?thesis using visit_station_eq [OF cc Suc.prems i] by (simp add: Let_def)
  qed
  have "rfold (\<lambda>storage i. rbind (visit_station cc (state_of ?si ?a p) i) (\<lambda>v. case v of None \<Rightarrow> Inr storage
        | Some (st', last_leg) \<Rightarrow> enumerate_paths depth cc st'
              (if within_battery ?I last_leg then ?store storage (candidate_of_state st' last_leg) else storage)))
      storage [0..<length (station_ids ?I)] =
    Inr (foldl (\<lambda>storage i. foldl ?store storage (map ?cand (filter (drivable cc) (?below i)))) storage [0..<length (station_ids ?I)])"
    by (rule rfold_Inr) (use step in auto)
  also have "foldl (\<lambda>storage i. foldl ?store storage (map ?cand (filter (drivable cc) (?below i)))) storage xs =
      foldl ?store storage (map ?cand (filter (drivable cc) (concat (map ?below xs))))" for xs
    by (induction xs arbitrary: storage) simp_all
  finally show ?case by simp
qed simp

lemma set_paths_below:
  assumes cc: "context_ok cc"
  shows "set (paths_below depth cc p) = {p @ q | q. q \<noteq> [] \<and> length q \<le> depth \<and> prefix_ok cc (p @ q)}"
proof (induction depth arbitrary: p)
  case (Suc depth)
  let ?S = "station_ids (si_inst (cc_index cc))"
  have "set (paths_below (Suc depth) cc p) =
      (\<Union>i \<in> {..<length ?S}. if prefix_ok cc (p @ [?S ! i])
         then insert (p @ [?S ! i]) (set (paths_below depth cc (p @ [?S ! i]))) else {})"
    by (simp add: Let_def lessThan_atLeast0 del: append_assoc cong: if_cong)
  also have "\<dots> = (\<Union>s \<in> set ?S. if prefix_ok cc (p @ [s]) then insert (p @ [s]) (set (paths_below depth cc (p @ [s]))) else {})"
    unfolding set_conv_nth [of ?S] by auto
  also have "\<dots> = {r. \<exists>s \<in> set ?S. prefix_ok cc (p @ [s]) \<and> (r = p @ [s] \<or> r \<in> set (paths_below depth cc (p @ [s])))}"
    by (auto split: if_splits)
  also have "\<dots> = {p @ q | q. q \<noteq> [] \<and> length q \<le> Suc depth \<and> prefix_ok cc (p @ q)}"
  proof (intro set_eqI iffI)
    fix r assume "r \<in> {r. \<exists>s \<in> set ?S. prefix_ok cc (p @ [s]) \<and> (r = p @ [s] \<or> r \<in> set (paths_below depth cc (p @ [s])))}"
    then obtain s where "prefix_ok cc (p @ [s])" "r = p @ [s] \<or> r \<in> set (paths_below depth cc (p @ [s]))" by blast
    then show "r \<in> {p @ q | q. q \<noteq> [] \<and> length q \<le> Suc depth \<and> prefix_ok cc (p @ q)}"
      unfolding Suc.IH by force
  next
    fix r assume "r \<in> {p @ q | q. q \<noteq> [] \<and> length q \<le> Suc depth \<and> prefix_ok cc (p @ q)}"
    then obtain s q where r: "r = p @ s # q" "length q \<le> depth" "prefix_ok cc (p @ s # q)" by (auto simp: neq_Nil_conv)
    then have "prefix_ok cc (p @ [s])" using prefix_ok_prefix [OF cc, of "p @ [s]" q] by simp
    moreover from this have "s \<in> set ?S" by (simp add: prefix_ok_def)
    moreover have "r = p @ [s] \<or> r \<in> set (paths_below depth cc (p @ [s]))" using r unfolding Suc.IH by (cases q) auto
    ultimately show "r \<in> {r. \<exists>s \<in> set ?S. prefix_ok cc (p @ [s]) \<and> (r = p @ [s] \<or> r \<in> set (paths_below depth cc (p @ [s])))}"
      by blast
  qed
  finally show ?case .
qed simp

lemma enumerated_ok:
  assumes cc: "context_ok cc"
  shows "\<exists>cs. enumerated cc = Inr cs \<and>
    set cs \<subseteq> candidate_of (cc_index cc) (cc_origin cc) (cc_target cc) ` Collect (drivable cc) \<and>
    (\<forall>p. drivable cc p \<longrightarrow> covers cs (candidate_of (cc_index cc) (cc_origin cc) (cc_target cc) p))"
proof -
  let ?n = "length (station_ids (si_inst (cc_index cc)))" and ?cand = "candidate_of (cc_index cc) (cc_origin cc) (cc_target cc)"
  have start: "no_path (cc_origin cc) = state_of (cc_index cc) (cc_origin cc) []"
    by (simp add: no_path_def state_of_def fastest_of_def slowest_of_def)
  have "prefix_ok cc []" by (simp add: prefix_ok_def)
  from enumerate_paths_eq [OF cc this, of ?n "[]"] have e: "enumerated cc =
      Inr (foldl (store_proposal (length (si_curve_order (cc_index cc)))) [] (map ?cand (filter (drivable cc) (paths_below ?n cc []))))"
    by (simp add: enumerated_def start)
  have "set (filter (drivable cc) (paths_below ?n cc [])) = Collect (drivable cc)"
  proof -
    have "length p \<le> ?n" if "drivable cc p" for p
    proof -
      have "card (set p) \<le> card (set (station_ids (si_inst (cc_index cc))))"
        using that by (intro card_mono) (auto simp: drivable_def prefix_ok_def)
      also have "\<dots> \<le> ?n" by (rule card_length)
      finally show ?thesis using that by (simp add: distinct_card drivable_def prefix_ok_def)
    qed
    then show ?thesis by (auto simp: set_paths_below [OF cc] drivable_def)
  qed
  then show ?thesis
    using e stored_all [where storage = "[]" and cs = "map ?cand (filter (drivable cc) (paths_below ?n cc []))"]
    by (fastforce simp del: set_filter)
qed

end
