(* ===== verification/Catalog_Properties.thy ===== *)
theory Catalog_Properties
  imports Catalog_Sound Completion_Properties
begin

text \<open>
  The claims on path catalogues: the catalogue represents every path that a route can drive, it
  meets the contract under which the completion of routes is verified, the ranks of the curves
  are a chain of dominance, and the test of a single path is exact.
\<close>

section \<open>The index\<close>

lemma curve_rate_nonneg: "(\<forall>x. r = Finite_Rate x \<longrightarrow> 0 \<le> x) \<Longrightarrow> curve_rate fp r ps = Finite_Rate y \<Longrightarrow> 0 \<le> y"
proof (induction fp r ps rule: curve_rate.induct)
  case (1 fp r left right ps)
  show ?case
  proof (cases r)
    case (Finite_Rate x)
    note IH = 1(1) [OF Finite_Rate refl refl] 1(2) [OF Finite_Rate refl refl]
    show ?thesis
      using 1(3,4) IH unfolding Finite_Rate by (auto simp: Let_def max_def split: if_splits)
  next
    case Infinite_Rate
    then show ?thesis using 1(4) by simp
  qed
qed auto

lemma maximum_rate_nonneg: "maximum_charging_rate I fp = Finite_Rate y \<Longrightarrow> 0 \<le> y"
proof -
  have "\<forall>y. foldl (\<lambda>r c. curve_rate fp r (points (snd c))) r cs = Finite_Rate y \<longrightarrow> 0 \<le> y"
    if "\<forall>x. r = Finite_Rate x \<longrightarrow> 0 \<le> x" for r and cs :: "(string \<times> charging_curve) list"
    using that
  proof (induction cs arbitrary: r)
    case (Cons c cs)
    have "\<forall>x. curve_rate fp r (points (snd c)) = Finite_Rate x \<longrightarrow> 0 \<le> x" using curve_rate_nonneg [OF Cons.prems] by blast
    from Cons.IH [OF this] show ?case by simp
  qed simp
  then show "maximum_charging_rate I fp = Finite_Rate y \<Longrightarrow> 0 \<le> y" by (fastforce simp: maximum_charging_rate_def)
qed

lemma sampler_index_ok:
  assumes "inst_ok I" and "sampler_index_of I (maximum_charging_rate I fp) = Inr si"
  shows "index_ok si" "si_inst si = I" "si_maximum_rate si = maximum_charging_rate I fp"
    "curve_order I = Inr (si_curve_order si)" "rmap (station_rank I (si_curve_order si)) (station_ids I) = Inr (si_station_ranks si)"
  using assms rmap_length maximum_rate_nonneg by (auto simp: sampler_index_of_def rbind_eq_Inr_conv index_ok_def)

lemma context_of_ok:
  assumes "index_ok si" and "a \<in> set (ids (si_inst si))" and "b \<in> set (ids (si_inst si))"
  shows "\<exists>cc. catalog_context_of si a b = Inr cc \<and> context_ok cc \<and> cc_index cc = si \<and> cc_origin cc = a \<and> cc_target cc = b"
proof -
  have I: "inst_ok (si_inst si)" using assms(1) by (simp add: index_ok_def)
  show ?thesis
    using assms depot_known [OF I] known_lookups(1) [OF I] distance_km_known [OF I] node_of_known(1) [OF I]
    by (simp add: catalog_context_of_def context_ok_def Let_def)
qed

section \<open>The catalogue\<close>

lemma station_known:
  assumes "inst_ok I" and "s \<in> set (station_ids I)"
  shows "known_station I s"
proof -
  have s: "s \<in> set (ids I)" using known_lookups(3) [OF assms(1)] assms(2) by blast
  then show ?thesis
    using kind_of_known [OF assms(1) s, of Station] assms(2) by (simp add: inst_okD(8) [OF assms(1)] known_station_def)
qed

lemma catalog_built:
  assumes "index_ok si" and "a \<in> set (ids (si_inst si))" and "b \<in> set (ids (si_inst si))"
  shows "\<exists>opts cc cs. build_catalog si a b = Inr opts \<and> catalog_context_of si a b = Inr cc \<and> context_ok cc \<and>
    enumerated cc = Inr cs \<and> sorted (map option_distance_km opts) \<and>
    set opts = insert \<lparr>option_stations = [], option_distance_km = dist_km (si_inst si) a b\<rparr>
      ((\<lambda>c. \<lparr>option_stations = cp_stations c, option_distance_km = cp_total c\<rparr>) ` set (nondominated cs)) \<and>
    set cs \<subseteq> candidate_of si a b ` Collect (drivable cc) \<and> (\<forall>p. drivable cc p \<longrightarrow> covers cs (candidate_of si a b p))"
proof -
  have I: "inst_ok (si_inst si)" using assms(1) by (simp add: index_ok_def)
  obtain cc where cc: "catalog_context_of si a b = Inr cc" "context_ok cc" "cc_index cc = si" "cc_origin cc = a" "cc_target cc = b"
    using context_of_ok [OF assms] by blast
  from enumerated_ok [OF cc(2)] obtain cs where cs: "enumerated cc = Inr cs"
    "set cs \<subseteq> candidate_of si a b ` Collect (drivable cc)" "\<forall>p. drivable cc p \<longrightarrow> covers cs (candidate_of si a b p)"
    unfolding cc(3-5) by blast
  let ?entries = "\<lparr>option_stations = [], option_distance_km = dist_km (si_inst si) a b\<rparr> #
     map (\<lambda>c. \<lparr>option_stations = cp_stations c, option_distance_km = cp_total c\<rparr>) (nondominated cs)"
  let ?key = "\<lambda>p. (option_distance_km p, length (option_stations p), option_stations p)"
  have "sorted (map ?key (sort_key ?key ?entries))" by (rule sorted_sort_key)
  then have "sorted (map option_distance_km (sort_key ?key ?entries))"
    unfolding sorted_map by (rule sorted_wrt_mono_rel [rotated]) (auto simp: less_eq_prod_def less_le)
  moreover have "build_catalog si a b = Inr (sort_key ?key ?entries)"
    using cc(1) cs(1) distance_km_known [OF I assms(2,3)] by (simp add: build_catalog_def)
  moreover have "set (sort_key ?key ?entries) = set ?entries" by (rule set_sort)
  then have "set (sort_key ?key ?entries) = insert \<lparr>option_stations = [], option_distance_km = dist_km (si_inst si) a b\<rparr>
      ((\<lambda>c. \<lparr>option_stations = cp_stations c, option_distance_km = cp_total c\<rparr>) ` set (nondominated cs))" by simp
  ultimately show ?thesis using cc(1,2) cs by blast
qed

lemma nondominated_covers:
  assumes "covers cs c" shows "covers (nondominated cs) c"
  using covers_step [OF assms] nondominated_ok(3) by blast

lemma catalog_is_paths:
  assumes I: "inst_ok I" and cc: "si_inst (cc_index cc) = I" "cc_index cc = si"
    and opts: "sorted (map option_distance_km opts)"
      "set opts = insert \<lparr>option_stations = [], option_distance_km = dist_km I a b\<rparr>
        ((\<lambda>c. \<lparr>option_stations = cp_stations c, option_distance_km = cp_total c\<rparr>) ` set (nondominated cs))"
    and kept: "\<And>c. c \<in> set (nondominated cs) \<Longrightarrow> \<exists>p. c = candidate_of si a b p \<and> drivable cc p"
  shows "catalog_paths I a b opts"
proof -
  have idx: "si_inst si = I" using cc by simp
  have "distinct p \<and> (\<forall>s \<in> set p. known_station I s)" if "drivable cc p" for p
  proof -
    have "set p \<subseteq> set (station_ids I)" "distinct p" using that cc by (simp_all add: drivable_def prefix_ok_def)
    then show ?thesis using station_known [OF I] by auto
  qed
  moreover have "\<exists>p. opt = \<lparr>option_stations = p, option_distance_km = path_km I a (p @ [b])\<rparr> \<and> (p = [] \<or> drivable cc p)"
    if opt: "opt \<in> set opts" for opt
  proof (cases "opt = \<lparr>option_stations = [], option_distance_km = dist_km I a b\<rparr>")
    case False
    then obtain c where c: "c \<in> set (nondominated cs)" "opt = \<lparr>option_stations = cp_stations c, option_distance_km = cp_total c\<rparr>"
      using opt unfolding opts(2) by auto
    from kept [OF c(1)] c(2) show ?thesis by (auto simp: candidate_of_def idx)
  qed auto
  ultimately show ?thesis using opts(1) unfolding catalog_paths_def by fastforce
qed

section \<open>Dominance of a single path\<close>

lemma rany_Inr: "(\<And>x. x \<in> set xs \<Longrightarrow> f x = Inr (P x)) \<Longrightarrow> rany f xs = Inr (\<exists>x \<in> set xs. P x)"
  by (induction xs) auto

text \<open>A path that beats another: dominance, with the key of the filter as the tie break.\<close>

definition beats :: "sampler_index \<Rightarrow> int \<Rightarrow> int \<Rightarrow> int list \<Rightarrow> int list \<Rightarrow> bool" where
  "beats si a b w p \<longleftrightarrow> w \<noteq> p \<and> dominates (candidate_of si a b w) (candidate_of si a b p) \<and>
     (\<not> dominates (candidate_of si a b p) (candidate_of si a b w) \<or>
      candidate_key (candidate_of si a b w) < candidate_key (candidate_of si a b p))"

definition elementary :: "sampler_index \<Rightarrow> int \<Rightarrow> int list \<Rightarrow> bool" where
  "elementary si a p \<longleftrightarrow> distinct p \<and> set p \<subseteq> set (station_ids (si_inst si)) \<and> hops_within (si_inst si) a p"

definition measure_of :: "sampler_index \<Rightarrow> int \<Rightarrow> int \<Rightarrow> int list \<Rightarrow> path_measure" where
  "measure_of si a b p = \<lparr>pm_first = dist_km (si_inst si) a (hd p), pm_last = dist_km (si_inst si) (last p) b,
     pm_total = path_km (si_inst si) a (p @ [b]), pm_fastest = fastest_of si p, pm_slowest = slowest_of si p, pm_stations = p\<rparr>"

lemma elementary_end:
  assumes "index_ok si" and "a \<in> set (ids (si_inst si))" and "elementary si a u"
  shows "last (a # u) \<in> set (ids (si_inst si))"
proof (cases "u = []")
  case False
  then have "last u \<in> set u" by simp
  then show ?thesis
    using assms known_lookups(3) [of "si_inst si"] False by (auto simp: elementary_def index_ok_def simp del: last_in_set)
qed (simp add: assms(2))

lemma slowest_bound: "u \<noteq> [] \<Longrightarrow> slowest_of si u \<le> k \<longleftrightarrow> (\<forall>s \<in> set u. rank_of si s \<le> k)"
  by (simp add: slowest_of_def)

lemma path_km_extension: "path_km I a (u @ [b]) \<le> path_km I a ((u @ q) @ [b])"
  using path_km_prefix [of I a u b q] by simp

lemma witness_dominates_eq:
  assumes "u \<noteq> []"
  shows "witness_dominates (measure_of si a b p) (state_of si a u) (dist_km (si_inst si) (last u) b) \<longleftrightarrow>
    \<not> dominates (candidate_of si a b p) (candidate_of si a b u) \<or>
    candidate_key (candidate_of si a b u) < candidate_key (candidate_of si a b p)"
proof -
  let ?ref = "measure_of si a b p" and ?st = "state_of si a u" and ?t = "dist_km (si_inst si) (last u) b"
  have total: "st_distance ?st + ?t = path_km (si_inst si) a (u @ [b])" using assms by (simp add: state_of_def path_km_snoc)
  have "(pm_slowest ?ref \<le> st_fastest ?st \<and> pm_first ?ref \<le> st_first ?st + kCostTolerance \<and>
        pm_last ?ref \<le> ?t + kCostTolerance \<and> pm_total ?ref \<le> st_distance ?st + ?t + kCostTolerance) \<longleftrightarrow>
      dominates (candidate_of si a b p) (candidate_of si a b u)"
    unfolding total using assms by (auto simp: dominates_def candidate_of_def measure_of_def state_of_def)
  moreover have "(st_first ?st, ?t, st_distance ?st + ?t, st_fastest ?st, st_slowest ?st, st_path ?st) = candidate_key (candidate_of si a b u)"
    unfolding total using assms by (simp add: candidate_key_def candidate_of_def state_of_def)
  moreover have "measure_key ?ref = candidate_key (candidate_of si a b p)"
    by (simp add: candidate_key_def candidate_of_def measure_key_def measure_of_def)
  ultimately show ?thesis unfolding witness_dominates_def Let_def by simp
qed

lemma bex_nth: "(\<exists>i \<in> set [0..<length xs]. P (xs ! i)) \<longleftrightarrow> (\<exists>x \<in> set xs. P x)"
  by (simp add: Bex_def in_set_conv_nth) blast

lemma first_step:
  assumes "\<And>s q. H (u @ s # q) \<Longrightarrow> s \<in> S"
  shows "(\<exists>s \<in> S. \<exists>q. length q \<le> d \<and> H (u @ s # q)) \<longleftrightarrow> (\<exists>q. q \<noteq> [] \<and> length q \<le> Suc d \<and> H (u @ q))"
proof
  assume "\<exists>s \<in> S. \<exists>q. length q \<le> d \<and> H (u @ s # q)"
  then obtain s q where "length q \<le> d" "H (u @ s # q)" by blast
  then show "\<exists>q. q \<noteq> [] \<and> length q \<le> Suc d \<and> H (u @ q)" by (intro exI [of _ "s # q"]) simp
next
  assume "\<exists>q. q \<noteq> [] \<and> length q \<le> Suc d \<and> H (u @ q)"
  then obtain s q where "length q \<le> d" "H (u @ s # q)" by (auto simp: neq_Nil_conv)
  then show "\<exists>s \<in> S. \<exists>q. length q \<le> d \<and> H (u @ s # q)" using assms by blast
qed

lemma if_found: "(if h then Inr True else Inr x) = Inr (h \<or> x)"
  by simp

lemma one_more:
  "(\<exists>q. length q \<le> d \<and> H (u @ s # q)) \<longleftrightarrow> H (u @ [s]) \<or> (\<exists>q. q \<noteq> [] \<and> length q \<le> d \<and> H ((u @ [s]) @ q))"
proof
  assume "\<exists>q. length q \<le> d \<and> H (u @ s # q)"
  then obtain q where "length q \<le> d" "H (u @ s # q)" by blast
  then show "H (u @ [s]) \<or> (\<exists>q. q \<noteq> [] \<and> length q \<le> d \<and> H ((u @ [s]) @ q))" by (cases "q = []") auto
next
  assume "H (u @ [s]) \<or> (\<exists>q. q \<noteq> [] \<and> length q \<le> d \<and> H ((u @ [s]) @ q))"
  then show "\<exists>q. length q \<le> d \<and> H (u @ s # q)"
  proof
    assume "H (u @ [s])"
    then show ?thesis by (intro exI [of _ "[]"]) simp
  qed auto
qed

lemma dominated_from_eq:
  assumes idx: "index_ok si" and ab: "a \<in> set (ids (si_inst si))" "b \<in> set (ids (si_inst si))" and p: "p \<noteq> []"
  shows "elementary si a u \<Longrightarrow> \<forall>s \<in> set u. rank_of si s \<le> fastest_of si p \<Longrightarrow> dominated_from depth si b (measure_of si a b p) (state_of si a u) =
    Inr (\<exists>q. q \<noteq> [] \<and> length q \<le> depth \<and> elementary si a (u @ q) \<and>
      within_battery (si_inst si) (dist_km (si_inst si) (last (u @ q)) b) \<and> beats si a b (u @ q) p)"
proof (induction depth arbitrary: u)
  case (Suc depth)
  let ?I = "si_inst si" and ?ref = "measure_of si a b p"
  let ?hit = "\<lambda>v. elementary si a v \<and> within_battery ?I (dist_km ?I (last v) b) \<and> beats si a b v p"
  let ?below = "\<lambda>s. \<exists>q. length q \<le> depth \<and> ?hit (u @ s # q)"
  have I: "inst_ok ?I" using idx by (simp add: index_ok_def)
  note prev = elementary_end [OF idx ab(1) Suc.prems(1)]
  have step: "(let s = station_ids ?I ! i in
           if s \<in> set (st_path (state_of si a u)) \<or> si_station_ranks si ! i > pm_fastest ?ref then Inr False
           else rbind (distance_km ?I (st_previous (state_of si a u)) s) (\<lambda>leg.
                rbind (energy_within ?I (st_previous (state_of si a u)) s) (\<lambda>reachable.
                if \<not> reachable then Inr False
                else let st' = extended si (state_of si a u) i leg in
                  if st_first st' > pm_first ?ref + kCostTolerance then Inr False
                  else rbind (distance_km ?I s b) (\<lambda>trailing.
                       if st_distance st' + trailing > pm_total ?ref + kCostTolerance then Inr False
                       else rbind (if trailing \<le> pm_last ?ref + kCostTolerance then energy_within ?I s b else Inr False) (\<lambda>ends.
                            if ends \<and> st_path st' \<noteq> pm_stations ?ref \<and> witness_dominates ?ref st' trailing then Inr True
                            else dominated_from depth si b ?ref st'))))) = Inr (?below (station_ids ?I ! i))"
    if i: "i < length (station_ids ?I)" for i
  proof -
    let ?s = "station_ids ?I ! i" and ?v = "u @ [station_ids ?I ! i]"
    have s: "?s \<in> set (ids ?I)" "?s \<in> set (station_ids ?I)" using i known_lookups(3) [OF I] by auto
    have rank: "si_station_ranks si ! i = rank_of si ?s" using rank_of_nth [OF idx i] by simp
    have ext: "extended si (state_of si a u) i (dist_km ?I (last (a # u)) ?s) = state_of si a ?v" by (rule extended_state [OF idx i])
    have st: "st_path (state_of si a w) = w" "st_previous (state_of si a w) = last (a # w)" for w by (simp_all add: state_of_def)
    have look: "distance_km ?I (last (a # u)) ?s = Inr (dist_km ?I (last (a # u)) ?s)" "distance_km ?I ?s b = Inr (dist_km ?I ?s b)"
      "energy_within ?I (last (a # u)) ?s = Inr (within_battery ?I (dist_km ?I (last (a # u)) ?s))"
      "energy_within ?I ?s b = Inr (within_battery ?I (dist_km ?I ?s b))"
      using distance_km_known [OF I] energy_known [OF I] prev s(1) ab(2)
      by (simp_all add: energy_within_def within_battery_def leg_energy_def)
    have first: "st_first (state_of si a ?v) = dist_km ?I a (hd ?v)" by (simp add: state_of_def)
    have total: "st_distance (state_of si a ?v) + dist_km ?I ?s b = path_km ?I a (?v @ [b])"
      using path_km_snoc [of ?I a ?v b] by (simp add: state_of_def)
    have ref: "pm_first ?ref = dist_km ?I a (hd p)" "pm_last ?ref = dist_km ?I (last p) b" "pm_total ?ref = path_km ?I a (p @ [b])"
      "pm_fastest ?ref = fastest_of si p" "pm_stations ?ref = p" by (simp_all add: measure_of_def)
    have none: "\<not> ?below ?s"
      if c: "?s \<in> set u \<or> rank_of si ?s > fastest_of si p \<or> \<not> within_battery ?I (dist_km ?I (last (a # u)) ?s) \<or>
          dist_km ?I a (hd ?v) > dist_km ?I a (hd p) + kCostTolerance \<or> path_km ?I a (?v @ [b]) > path_km ?I a (p @ [b]) + kCostTolerance"
    proof
      assume "?below ?s"
      then obtain q where q: "elementary si a (u @ ?s # q)" "beats si a b (u @ ?s # q) p" by blast
      have "?s \<notin> set u" using q(1) by (simp add: elementary_def)
      moreover have "slowest_of si (u @ ?s # q) \<le> fastest_of si p" using q(2) by (simp add: beats_def dominates_def candidate_of_def)
      then have "rank_of si ?s \<le> fastest_of si p" by (simp add: slowest_bound)
      moreover have "hops_within ?I a (?v @ q)" using q(1) by (simp add: elementary_def)
      then have "within_battery ?I (dist_km ?I (last (a # u)) ?s)" using hops_within_prefix hops_within_snoc by blast
      moreover have "dist_km ?I a (hd (u @ ?s # q)) \<le> dist_km ?I a (hd p) + kCostTolerance"
        "path_km ?I a ((u @ ?s # q) @ [b]) \<le> path_km ?I a (p @ [b]) + kCostTolerance"
        using q(2) by (simp_all add: beats_def dominates_def candidate_of_def)
      moreover have "hd (u @ ?s # q) = hd ?v" by (cases u) simp_all
      moreover have "path_km ?I a (?v @ [b]) \<le> path_km ?I a ((u @ ?s # q) @ [b])" using path_km_extension [of ?I a ?v b q] by simp
      ultimately show False using c by auto
    qed
    show ?thesis
    proof (cases "?s \<in> set u \<or> rank_of si ?s > fastest_of si p \<or> \<not> within_battery ?I (dist_km ?I (last (a # u)) ?s) \<or>
          dist_km ?I a (hd ?v) > dist_km ?I a (hd p) + kCostTolerance \<or> path_km ?I a (?v @ [b]) > path_km ?I a (p @ [b]) + kCostTolerance")
      case True
      have "?below ?s = False" using none [OF True] by simp
      then show ?thesis
        unfolding Let_def st rank ref look rbind_Inr ext first total using True by (elim disjE) simp_all
    next
      case False
      have v: "elementary si a ?v" using Suc.prems False s(2) by (auto simp: elementary_def hops_within_snoc)
      have ranks: "\<forall>s \<in> set ?v. rank_of si s \<le> fastest_of si p" using Suc.prems(2) False by auto
      then have slow: "slowest_of si ?v \<le> fastest_of si p" by (simp add: slowest_bound)
      have c: "\<not> (?s \<in> set u \<or> rank_of si ?s > fastest_of si p)" "\<not> \<not> within_battery ?I (dist_km ?I (last (a # u)) ?s)" "True"
        "\<not> dist_km ?I a (hd ?v) > dist_km ?I a (hd p) + kCostTolerance"
        "\<not> path_km ?I a (?v @ [b]) > path_km ?I a (p @ [b]) + kCostTolerance" using False by auto
      have dom: "dominates (candidate_of si a b ?v) (candidate_of si a b p) \<longleftrightarrow> dist_km ?I ?s b \<le> dist_km ?I (last p) b + kCostTolerance"
        using slow c(4,5) by (simp add: dominates_def candidate_of_def del: append_assoc)
      have wit: "witness_dominates ?ref (state_of si a ?v) (dist_km ?I ?s b) \<longleftrightarrow>
          \<not> dominates (candidate_of si a b p) (candidate_of si a b ?v) \<or>
          candidate_key (candidate_of si a b ?v) < candidate_key (candidate_of si a b p)"
        using witness_dominates_eq [of ?v si a b p] by simp
      have ends: "(if dist_km ?I ?s b \<le> dist_km ?I (last p) b + kCostTolerance then Inr (within_battery ?I (dist_km ?I ?s b)) else Inr False)
          = Inr (dist_km ?I ?s b \<le> dist_km ?I (last p) b + kCostTolerance \<and> within_battery ?I (dist_km ?I ?s b))" by simp
      have hit: "((dist_km ?I ?s b \<le> dist_km ?I (last p) b + kCostTolerance \<and> within_battery ?I (dist_km ?I ?s b)) \<and> ?v \<noteq> p \<and>
          witness_dominates ?ref (state_of si a ?v) (dist_km ?I ?s b)) \<longleftrightarrow> ?hit ?v"
        unfolding wit beats_def dom using v by auto
      have below: "?below ?s \<longleftrightarrow> ?hit ?v \<or> (\<exists>q. q \<noteq> [] \<and> length q \<le> depth \<and> ?hit (?v @ q))"
        by (rule one_more)
      show ?thesis
        unfolding Let_def st rank ref look rbind_Inr ext first total if_not_P [OF c(1)] if_not_P [OF c(2)] if_not_P [OF c(4)]
          if_not_P [OF c(5)] ends hit below Suc.IH [OF v ranks] by (rule if_found)
    qed
  qed
  have "dominated_from (Suc depth) si b ?ref (state_of si a u) = Inr (\<exists>i \<in> set [0..<length (station_ids ?I)]. ?below (station_ids ?I ! i))"
    unfolding dominated_from.simps Let_def [of ?I] by (rule rany_Inr, rule step) simp
  also have "(\<exists>i \<in> set [0..<length (station_ids ?I)]. ?below (station_ids ?I ! i)) \<longleftrightarrow> (\<exists>s \<in> set (station_ids ?I). ?below s)"
    by (rule bex_nth)
  also have "\<dots> \<longleftrightarrow> (\<exists>q. q \<noteq> [] \<and> length q \<le> Suc depth \<and> ?hit (u @ q))"
    by (rule first_step) (simp add: elementary_def)
  finally show ?case .
qed simp

section \<open>Properties\<close>

text \<open>
  C10: A catalogue is built for every two nodes without an exception.  It holds the direct path
  and elementary paths of stations whose hops fit the battery and whose time bound fits the
  shift, in the order of their distances; no two of them dominate each other; and every
  such path of the instance is dominated by one of the catalogue along a chain of dominances
  (one link loses at most the tolerance).
\<close>

theorem catalog_represents_drivable_paths:
  assumes "inst_ok I" and "sampler_index_of I (maximum_charging_rate I fp) = Inr si"
    and "a \<in> set (ids I)" and "b \<in> set (ids I)"
  shows "\<exists>opts cc. build_catalog si a b = Inr opts \<and> catalog_context_of si a b = Inr cc \<and> catalog_paths I a b opts \<and>
    [] \<in> option_stations ` set opts \<and>
    (\<forall>p \<in> option_stations ` set opts. p \<noteq> [] \<longrightarrow> drivable cc p) \<and>
    (\<forall>p \<in> option_stations ` set opts. \<forall>q \<in> option_stations ` set opts. p \<noteq> [] \<longrightarrow> q \<noteq> [] \<longrightarrow> p \<noteq> q \<longrightarrow>
       \<not> dominates (candidate_of si a b p) (candidate_of si a b q)) \<and>
    (\<forall>p. drivable cc p \<longrightarrow>
       (\<exists>q \<in> option_stations ` set opts. dominates\<^sup>*\<^sup>* (candidate_of si a b q) (candidate_of si a b p)))"
proof -
  note idx = sampler_index_ok [OF assms(1,2)]
  obtain opts cc cs where b: "build_catalog si a b = Inr opts" "catalog_context_of si a b = Inr cc"
    "sorted (map option_distance_km opts)"
    "set opts = insert \<lparr>option_stations = [], option_distance_km = dist_km I a b\<rparr>
      ((\<lambda>c. \<lparr>option_stations = cp_stations c, option_distance_km = cp_total c\<rparr>) ` set (nondominated cs))"
    "set cs \<subseteq> candidate_of si a b ` Collect (drivable cc)" "\<forall>p. drivable cc p \<longrightarrow> covers cs (candidate_of si a b p)"
    and cc: "context_ok cc" "cc_index cc = si"
    using catalog_built [OF idx(1), of a b] assms(3,4) context_of_ok [OF idx(1), of a b] unfolding idx(2) by fastforce
  have kept: "\<exists>p. c = candidate_of si a b p \<and> drivable cc p" if "c \<in> set (nondominated cs)" for c
    using b(5) nondominated_ok(1) [of cs] that by blast
  have stations: "option_stations ` set opts = insert [] (cp_stations ` set (nondominated cs))"
    by (simp add: b(4) image_image)
  have paths: "catalog_paths I a b opts"
    by (rule catalog_is_paths [OF assms(1) _ cc(2) b(3,4) kept]) (simp_all add: cc idx)
  have incomp: "\<not> dominates (candidate_of si a b p) (candidate_of si a b q)"
    if m: "candidate_of si a b p \<in> set (nondominated cs)" "candidate_of si a b q \<in> set (nondominated cs)" and ne: "p \<noteq> q" for p q
  proof -
    obtain i j where ij: "i < length (nondominated cs)" "nondominated cs ! i = candidate_of si a b p"
      "j < length (nondominated cs)" "nondominated cs ! j = candidate_of si a b q" using m by (auto simp: in_set_conv_nth)
    then have "i \<noteq> j" using ne by (auto simp: candidate_of_def)
    then show ?thesis
      using sorted_wrt_nth_less [OF nondominated_ok(2), of i j cs] sorted_wrt_nth_less [OF nondominated_ok(2), of j i cs] ij
      by (cases "i < j") (auto simp: incomparable_def)
  qed
  have member: "candidate_of si a b p \<in> set (nondominated cs)" if "p \<in> option_stations ` set opts" "p \<noteq> []" for p
    using that kept unfolding stations by (force simp: candidate_of_def)
  have cov: "\<exists>q \<in> option_stations ` set opts. dominates\<^sup>*\<^sup>* (candidate_of si a b q) (candidate_of si a b p)" if "drivable cc p" for p
  proof -
    have "covers (nondominated cs) (candidate_of si a b p)" using b(6) that nondominated_covers by blast
    then obtain c where c: "c \<in> set (nondominated cs)" "dominates\<^sup>*\<^sup>* c (candidate_of si a b p)" by (auto simp: covers_def)
    moreover have "c = candidate_of si a b (cp_stations c)" using kept [OF c(1)] by (auto simp: candidate_of_def)
    ultimately show ?thesis unfolding stations by (intro bexI [of _ "cp_stations c"]) simp_all
  qed
  have drv: "drivable cc p" if "p \<in> option_stations ` set opts" "p \<noteq> []" for p
    using kept [OF member [OF that]] by (auto simp: candidate_of_def)
  have "\<not> dominates (candidate_of si a b p) (candidate_of si a b q)"
    if p: "p \<in> option_stations ` set opts" "p \<noteq> []" and q: "q \<in> option_stations ` set opts" "q \<noteq> []" and ne: "p \<noteq> q" for p q
    by (rule incomp [OF member [OF p] member [OF q] ne])
  then show ?thesis using b(1,2) paths cov drv by (intro exI [of _ opts] exI [of _ cc] conjI) (simp_all add: stations)
qed

lemma rmap_nth: "rmap f xs = Inr ys \<Longrightarrow> i < length xs \<Longrightarrow> f (xs ! i) = Inr (ys ! i)"
proof (induction xs arbitrary: ys i)
  case (Cons x xs)
  then show ?case by (cases i) (auto simp: rbind_eq_Inr_conv)
qed simp

lemma rbind_right: "rbind m Inr = m"
  by (cases m) simp_all

lemma station_rank_of:
  assumes "index_ok si" and "rmap (station_rank (si_inst si) (si_curve_order si)) (station_ids (si_inst si)) = Inr (si_station_ranks si)"
    and "s \<in> set (station_ids (si_inst si))"
  shows "station_rank (si_inst si) (si_curve_order si) s = Inr (rank_of si s) \<and> rank_of si s < length (si_curve_order si)"
proof -
  obtain i where i: "i < length (station_ids (si_inst si))" "s = station_ids (si_inst si) ! i" using assms(3) by (auto simp: in_set_conv_nth)
  then have r: "station_rank (si_inst si) (si_curve_order si) s = Inr (rank_of si s)"
    using rmap_nth [OF assms(2) i(1)] rank_of_nth [OF assms(1) i(1)] by simp
  then obtain n :: node where "curve_rank (si_curve_order si) (station_type n) = Inr (rank_of si s)"
    by (auto simp: station_rank_def rbind_eq_Inr_conv)
  then obtain ty where "map_of (zip (si_curve_order si) [0..<length (si_curve_order si)]) ty = Some (rank_of si s)"
    by (cases "map_of (zip (si_curve_order si) [0..<length (si_curve_order si)]) (station_type n)")
      (simp_all add: curve_rank_def del: map_of_zip_upt)
  then have "(ty, rank_of si s) \<in> set (zip (si_curve_order si) [0..<length (si_curve_order si)])" by (rule map_of_SomeD)
  then have "rank_of si s \<in> set [0..<length (si_curve_order si)]" by (rule set_zip_rightD)
  with r show ?thesis by simp
qed

lemma path_measure_ok:
  assumes idx: "index_ok si" and ranks: "rmap (station_rank (si_inst si) (si_curve_order si)) (station_ids (si_inst si)) = Inr (si_station_ranks si)"
    and ab: "a \<in> set (ids (si_inst si))" "b \<in> set (ids (si_inst si))"
    and p: "p \<noteq> []" "set p \<subseteq> set (station_ids (si_inst si))"
  shows "path_measure_of si a b p = Inr (measure_of si a b p)"
proof -
  let ?I = "si_inst si" and ?n = "length (si_curve_order si)"
  let ?step = "\<lambda>(total, previous, fastest, slowest) i. rbind (distance_km ?I previous i) (\<lambda>d.
             rbind (station_rank ?I (si_curve_order si) i) (\<lambda>rank. Inr (total + d, i, min fastest rank, max slowest rank)))"
  let ?st = "\<lambda>t q. (t + path_km ?I a q, last (a # q), if q = [] then ?n else fastest_of si q, slowest_of si q)"
  have I: "inst_ok ?I" using idx by (simp add: index_ok_def)
  have st: "s \<in> set (ids ?I)" if "s \<in> set (station_ids ?I)" for s using known_lookups(3) [OF I] that by blast
  have fold: "set q \<subseteq> set (station_ids ?I) \<Longrightarrow> rfold ?step (t, a, ?n, 0) q = Inr (?st t q)" for t q
  proof (induction q rule: rev_induct)
    case Nil
    then show ?case by (simp add: slowest_of_def)
  next
    case (snoc s q)
    have s: "s \<in> set (station_ids ?I)" and q: "set q \<subseteq> set (station_ids ?I)" using snoc.prems by auto
    have prev: "last (a # q) \<in> set (ids ?I)"
    proof (cases "q = []")
      case False
      then have "last q \<in> set q" by (rule last_in_set)
      then have "last q \<in> set (ids ?I)" using q st by blast
      then show ?thesis using False by simp
    qed (simp add: ab)
    note d = distance_km_known [OF I prev st [OF s]] and r = station_rank_of [OF idx ranks s]
    have fast: "min (if q = [] then ?n else fastest_of si q) (rank_of si s) = fastest_of si (q @ [s])"
      using r by (auto simp: fastest_of_def min.commute)
    have slow: "max (slowest_of si q) (rank_of si s) = slowest_of si (q @ [s])" by (auto simp: slowest_of_def max.commute)
    have "rfold ?step (t, a, ?n, 0) (q @ [s]) = ?step (?st t q) s" using snoc.IH [OF q] by (simp only: rfold_append rbind_Inr rfold.simps rbind_right)
    also have "\<dots> = Inr (?st t (q @ [s]))" using d r fast slow by (simp add: path_km_snoc)
    finally show ?case .
  qed
  have ends: "hd p \<in> set (ids ?I)" "last p \<in> set (ids ?I)" using p st hd_in_set [OF p(1)] last_in_set [OF p(1)] by blast+
  show ?thesis
    using fold [OF p(2), of "dist_km ?I (last p) b"] p(1) distance_km_known [OF I ab(1) ends(1)] distance_km_known [OF I ends(2) ab(2)]
    by (simp add: path_measure_of_def measure_of_def path_km_snoc Let_def add.commute)
qed

text \<open>
  C12: \<open>path_dominated\<close> of a path of stations answers on every such path, and it answers true exactly when
  some elementary path whose hops fit the battery beats it: it dominates the path, and where the
  path dominates it as well, it comes first in the order of the filter.  The direct path is
  never dominated.
\<close>

theorem path_dominated_exact:
  assumes "inst_ok I" and "sampler_index_of I (maximum_charging_rate I fp) = Inr si"
    and "a \<in> set (ids I)" and "b \<in> set (ids I)" and "set p \<subseteq> set (station_ids I)"
  shows "path_dominated si a b p =
    Inr (p \<noteq> [] \<and> (\<exists>w. w \<noteq> [] \<and> elementary si a w \<and> within_battery I (dist_km I (last w) b) \<and> beats si a b w p))"
proof (cases "p = []")
  case False
  note idx = sampler_index_ok [OF assms(1,2)]
  have ab: "a \<in> set (ids (si_inst si))" "b \<in> set (ids (si_inst si))" using assms(3,4) idx(2) by simp_all
  have p: "set p \<subseteq> set (station_ids (si_inst si))" using assms(5) idx(2) by simp
  have "length w \<le> length (station_ids I)" if "elementary si a w" for w
  proof -
    have "card (set w) \<le> card (set (station_ids I))" using that idx(2) by (intro card_mono) (auto simp: elementary_def)
    also have "\<dots> \<le> length (station_ids I)" by (rule card_length)
    finally show ?thesis using that by (simp add: distinct_card elementary_def)
  qed
  moreover have "no_path a = state_of si a []" by (simp add: no_path_def state_of_def fastest_of_def slowest_of_def)
  moreover have "elementary si a []" by (simp add: elementary_def)
  ultimately show ?thesis
    using dominated_from_eq [OF idx(1) ab False, of "[]" "length (station_ids I)"] path_measure_ok [OF idx(1) _ ab False p] idx(5)
    by (auto simp: path_dominated_def False idx(2))
qed (simp add: path_dominated_def)

lemma rfold_unit_all: "rfold f () xs = Inr () \<Longrightarrow> x \<in> set xs \<Longrightarrow> f () x = Inr ()"
  by (induction xs) (auto simp: rbind_eq_Inr_conv)

text \<open>
  The station types are ranked so that a curve of smaller rank is no slower than one of greater
  rank, over all merged intervals; every type has one rank, and the ranks of the stations are
  those of their types.
\<close>

theorem curve_ranks_are_a_chain:
  assumes "sampler_index_of I r = Inr si"
  shows "mset (si_curve_order si) = mset (map fst (charging_curves I)) \<and>
    sorted_wrt (\<lambda>x y. \<exists>c d. types_at I x = Inr c \<and> types_at I y = Inr d \<and> charging_curve_no_slower c d = Inr True)
      (si_curve_order si) \<and>
    rmap (station_rank I (si_curve_order si)) (station_ids I) = Inr (si_station_ranks si)"
proof -
  obtain bs sigs ordered where o: "curve_order I = Inr ordered" "si_curve_order si = ordered"
    "rmap (curve_signature I bs) (sort (map fst (charging_curves I))) = Inr sigs"
    "ordered = map snd (sort (zip sigs (sort (map fst (charging_curves I)))))"
    "rfold (check_order I) () (pairs_of_list ordered) = Inr ()"
    and ranks: "rmap (station_rank I (si_curve_order si)) (station_ids I) = Inr (si_station_ranks si)"
    using assms by (auto simp: sampler_index_of_def curve_order_def Let_def rbind_eq_Inr_conv)
  have "\<exists>c d. types_at I (ordered ! i) = Inr c \<and> types_at I (ordered ! j) = Inr d \<and> charging_curve_no_slower c d = Inr True"
    if ij: "i < j" "j < length ordered" for i j
  proof -
    have "(ordered ! i, ordered ! j) \<in> set (pairs_of_list ordered)"
      using ij by (auto simp: pairs_of_list_def intro!: bexI [of _ i] imageI)
    from rfold_unit_all [OF o(5) this] show ?thesis by (auto simp: check_order_def rbind_eq_Inr_conv split: if_splits)
  qed
  then have "sorted_wrt (\<lambda>x y. \<exists>c d. types_at I x = Inr c \<and> types_at I y = Inr d \<and> charging_curve_no_slower c d = Inr True) ordered"
    by (simp add: sorted_wrt_iff_nth_less)
  moreover have "length sigs = length (sort (map fst (charging_curves I)))" using rmap_length [OF o(3)] by simp
  then have "mset ordered = mset (map fst (charging_curves I))"
    unfolding o(4) mset_map mset_sort by (simp flip: mset_map)
  ultimately show ?thesis using o(2) ranks by simp
qed

text \<open>
  C11: The sampler that uses the catalogues the program builds meets the contract under which the
  completion of routes, the insertions, the construction and the perturbation are verified.
\<close>

theorem built_catalogs_meet_the_contract:
  assumes "inst_ok I" and "curves_ok I" and "rounds fp"
    and "sampler_index_of I (maximum_charging_rate I fp) = Inr si"
  shows "sampler_ok \<lparr>ps_inst = I, ps_catalog = build_catalog si, ps_fp = fp, ps_fallback = fallback, ps_certified = certs,
    ps_complete_paths = True, ps_summary_budget = budget, ps_bulk_bound = bulk, ps_shortfall_bound = shortfall,
    ps_zero_shift_bound = zero_shift, ps_compatible = compatible, ps_maximum_rate = si_maximum_rate si\<rparr>"
proof -
  have "\<exists>opts. build_catalog si a b = Inr opts \<and> catalog_paths I a b opts" if ab: "anchor I a" "anchor I b" for a b
  proof -
    note idx = sampler_index_ok [OF assms(1,4)]
    have "a \<in> set (ids (si_inst si))" "b \<in> set (ids (si_inst si))" using anchor_known [OF assms(1)] ab idx(2) by simp_all
    from catalog_built [OF idx(1) this] context_of_ok [OF idx(1) this] obtain opts cc cs where b: "build_catalog si a b = Inr opts"
      "cc_index cc = si" "sorted (map option_distance_km opts)"
      "set opts = insert \<lparr>option_stations = [], option_distance_km = dist_km I a b\<rparr>
        ((\<lambda>c. \<lparr>option_stations = cp_stations c, option_distance_km = cp_total c\<rparr>) ` set (nondominated cs))"
      "set cs \<subseteq> candidate_of si a b ` Collect (drivable cc)"
      unfolding idx(2) by fastforce
    have "catalog_paths I a b opts"
      by (rule catalog_is_paths [OF assms(1) _ b(2-4)]) (use b(2,5) idx(2) nondominated_ok(1) [of cs] in auto)
    with b(1) show ?thesis by blast
  qed
  then show ?thesis using assms sampler_index_ok(3) [OF assms(1,4)] by (simp add: sampler_ok_def)
qed

section \<open>Witnesses\<close>

lemma demo_curve_time: "0 \<le> e \<Longrightarrow> e \<le> 100 \<Longrightarrow> 0 \<le> curve_time demo_curve e \<and> curve_time demo_curve e \<le> 2"
  using curve_time_nonneg [OF demo_curve_ok(1)] curve_time_le_last [OF curve_exact_ok [OF demo_curve_ok(1)], of e]
  by (simp add: demo_curve_def)

lemma demo_duration:
  assumes "0 \<le> a" and "a \<le> b" and "b \<le> 100"
  shows "\<exists>d. charge_duration demo_curve a b = Inr d \<and> isfinite d"
proof -
  have "charge_duration demo_curve a b = Inr (curve_time demo_curve b - curve_time demo_curve a)"
    using charge_duration_eq [OF curve_exact_ok [OF demo_curve_ok(1)], of a b] assms demo_curve_ok(2) by simp
  moreover have "\<bar>curve_time demo_curve b - curve_time demo_curve a\<bar> \<le> 2 ^ 64"
    using demo_curve_time [of a] demo_curve_time [of b] assms by (simp add: abs_le_iff)
  ultimately show ?thesis using isfinite_numeral_small by blast
qed

lemma demo_order: "curve_order demo_inst = Inr [''fast'']"
proof -
  have types: "map fst (charging_curves demo_inst) = [''fast'']" "types_at demo_inst ''fast'' = Inr demo_curve"
    by (simp_all add: demo_inst_def types_at_def)
  have "map energy_wh (points demo_curve) = [0, 80, 100]" by (simp add: demo_curve_def)
  then have breaks: "energy_breakpoints demo_inst [''fast''] = Inr [0, 80, 100]"
    by (simp add: energy_breakpoints_def types)
  obtain d e where "charge_duration demo_curve 0 80 = Inr d" "isfinite d" "charge_duration demo_curve 80 100 = Inr e" "isfinite e"
    using demo_duration [of 0 80] demo_duration [of 80 100] by auto
  then have sig: "curve_signature demo_inst [0, 80, 100] ''fast'' = Inr [d, e]"
    by (simp add: curve_signature_def types numeral_3_eq_3 upt_rec)
  have none: "pairs_of_list [x] = []" for x :: string by (simp add: pairs_of_list_def)
  show ?thesis unfolding curve_order_def types Let_def by (simp add: breaks sig none)
qed

lemma demo_index:
  obtains si where "sampler_index_of demo_inst (maximum_charging_rate demo_inst demo_fp) = Inr si"
    and "si_curve_order si = [''fast'']"
proof -
  have "find_node demo_inst 2 = Some (nodes demo_inst ! 2)" by (simp add: find_node_def demo_inst_def demo_nodes_def)
  then have "node_of demo_inst 2 = Inr (nodes demo_inst ! 2)" using node_of_find [OF demo_inst_ok, of 2] by simp
  then have "station_rank demo_inst [''fast''] 2 = Inr 0"
    by (simp add: station_rank_def curve_rank_def demo_inst_def demo_nodes_def)
  then have "rmap (station_rank demo_inst [''fast'']) (station_ids demo_inst) = Inr [0]" by (simp add: demo_inst_def)
  then show thesis
    by (intro that [of "\<lparr>si_inst = demo_inst, si_maximum_rate = maximum_charging_rate demo_inst demo_fp,
          si_curve_order = [''fast''], si_station_ranks = [0]\<rparr>"]) (simp_all add: sampler_index_of_def demo_order)
qed

lemma demo_rounds: "rounds demo_fp"
  by (simp add: rounds_def demo_fp_def)

theorem catalog_represents_drivable_paths_witness:
  "\<exists>si opts. sampler_index_of demo_inst (maximum_charging_rate demo_inst demo_fp) = Inr si \<and>
     build_catalog si 1 3 = Inr opts \<and> [] \<in> option_stations ` set opts"
proof -
  obtain si where si: "sampler_index_of demo_inst (maximum_charging_rate demo_inst demo_fp) = Inr si" by (rule demo_index)
  from catalog_represents_drivable_paths [OF demo_inst_ok si, of 1 3] si show ?thesis unfolding demo_known by auto
qed

theorem path_dominated_exact_witness:
  "\<exists>si v. sampler_index_of demo_inst (maximum_charging_rate demo_inst demo_fp) = Inr si \<and> path_dominated si 1 3 [2] = Inr v"
proof -
  obtain si where si: "sampler_index_of demo_inst (maximum_charging_rate demo_inst demo_fp) = Inr si" by (rule demo_index)
  have "set [2] \<subseteq> set (station_ids demo_inst)" by (simp add: demo_inst_def)
  from path_dominated_exact [OF demo_inst_ok si _ _ this, of 1 3] si show ?thesis unfolding demo_known by auto
qed

theorem built_catalogs_meet_the_contract_witness:
  "\<exists>si. sampler_index_of demo_inst (maximum_charging_rate demo_inst demo_fp) = Inr si \<and>
     sampler_ok (demo_sampler\<lparr>ps_catalog := build_catalog si\<rparr>)"
proof -
  obtain si where si: "sampler_index_of demo_inst (maximum_charging_rate demo_inst demo_fp) = Inr si" by (rule demo_index)
  from built_catalogs_meet_the_contract [OF demo_inst_ok demo_curves_ok demo_rounds si, of False True 1 True True True True]
    sampler_index_ok(3) [OF demo_inst_ok si] si
  show ?thesis by (auto simp: demo_sampler_def)
qed

theorem curve_ranks_are_a_chain_witness:
  "\<exists>si. sampler_index_of demo_inst (maximum_charging_rate demo_inst demo_fp) = Inr si \<and> mset (si_curve_order si) = {#''fast''#}"
proof -
  obtain si where si: "sampler_index_of demo_inst (maximum_charging_rate demo_inst demo_fp) = Inr si" by (rule demo_index)
  from curve_ranks_are_a_chain [OF si] si show ?thesis by (auto simp: demo_inst_def)
qed

end
