(* ===== verification/Customer_Moves.thy ===== *)
theory Customer_Moves
  imports Granular_Neighborhood Sequence_Scorer Physical_Scorer
begin

text \<open>
  The moves of the local search (src/search.cpp: \<open>VariableNeighborhoodDescent::best_customer_neighbor\<close>,
  the enumeration): for Swap, Relocate and 2-OPT* the candidates that the lists of promising
  neighbours propose, in the order in which they are scored, each described by slices of the
  incumbent routes.  The memory of moves scored in earlier passes is taken as empty: then no support
  of a move is closed, the flags of open supports are all set, and the tests on them are not
  written out.

  The descriptors are listed before they are scored, which changes no score; \<open>cm_row\<close> is the row of
  the tables of scores, from which a physical swap also reads its positions.
\<close>

section \<open>The layout of a pass\<close>

record customer_place =
  place_route :: nat
  place_position :: nat
  place_slot :: nat

record pass_layout =
  pl_current :: "int list list"
  pl_places :: "customer_place list"
  pl_ranks :: "nat list list"

definition no_place :: customer_place where
  "no_place = \<lparr>place_route = 0, place_position = 0, place_slot = 0\<rparr>"

definition place_customer ::
  "granular \<Rightarrow> nat \<Rightarrow> customer_place list \<times> nat list \<Rightarrow> nat \<times> int \<Rightarrow> (customer_place list \<times> nat list) result" where
  "place_customer g r x pc =
     (case (x, pc) of ((places, ranks), (position, c)) \<Rightarrow>
       rbind (customer_rank g c) (\<lambda>rank.
       Inr (places[rank := \<lparr>place_route = r, place_position = position, place_slot = rank\<rparr>], ranks @ [rank])))"

definition place_customers ::
  "granular \<Rightarrow> customer_place list \<times> nat list list \<Rightarrow> nat \<times> int list \<Rightarrow> (customer_place list \<times> nat list list) result" where
  "place_customers g x rc =
     (case (x, rc) of ((places, ranks), (r, cs)) \<Rightarrow>
       rbind (rfold (place_customer g r) (places, []) (List.enumerate 0 cs)) (\<lambda>(places, route_ranks).
       Inr (places, ranks @ [route_ranks])))"

definition pass_layout_of :: "inst \<Rightarrow> granular \<Rightarrow> int list list \<Rightarrow> pass_layout result" where
  "pass_layout_of I g current =
     rbind (rfold (place_customers g) (replicate (length (customer_ids I)) no_place, []) (List.enumerate 0 current)) (\<lambda>(places, ranks).
     Inr \<lparr>pl_current = current, pl_places = places, pl_ranks = ranks\<rparr>)"

text \<open>The lambda \<open>customer_location\<close>.\<close>

definition place_of :: "granular \<Rightarrow> pass_layout \<Rightarrow> int \<Rightarrow> customer_place result" where
  "place_of g lay c = rbind (customer_rank g c) (\<lambda>rank. Inr (pl_places lay ! rank))"

section \<open>Descriptors\<close>

record route_change =
  change_route :: nat
  change_slices :: "route_slice list"

text \<open>What a move does physically, when it does not inherit the paths of customer pairs.\<close>

datatype physical_form =
    Inherited
  | Reverse_Two_Opt nat nat
  | Forward_Two_Opt nat nat
  | Physical_Relocate nat nat nat nat

record customer_move =
  cm_changes :: "route_change list"
  cm_form :: physical_form
  cm_row :: nat
  cm_allowed :: bool

definition kMaximumMoveSlices :: nat where
  "kMaximumMoveSlices = 5"

definition fwd :: "nat \<Rightarrow> nat \<Rightarrow> nat \<Rightarrow> route_slice" where
  "fwd r b e = \<lparr>slice_route = r, slice_begin = b, slice_end = e, slice_reversed = False\<rparr>"

definition bwd :: "nat \<Rightarrow> nat \<Rightarrow> nat \<Rightarrow> route_slice" where
  "bwd r b e = \<lparr>slice_route = r, slice_begin = b, slice_end = e, slice_reversed = True\<rparr>"

definition add_slice :: "int list list \<Rightarrow> route_change \<Rightarrow> route_slice \<Rightarrow> route_change result" where
  "add_slice current change sl =
     (if slice_begin sl = slice_end sl then Inr change
      else if slice_route sl \<ge> length current \<or> slice_begin sl > slice_end sl \<or>
              slice_end sl > length (current ! slice_route sl)
      then Inl (Out_Of_Range ''move descriptor has invalid route slice'')
      else if length (change_slices change) \<ge> kMaximumMoveSlices
      then Inl (Logic_Error ''move descriptor exceeded its slice bound'')
      else Inr (change\<lparr>change_slices := change_slices change @ [sl]\<rparr>))"

definition one_change :: "int list list \<Rightarrow> nat \<Rightarrow> route_slice list \<Rightarrow> route_change result" where
  "one_change current r slices = rfold (add_slice current) \<lparr>change_route = r, change_slices = []\<rparr> slices"

definition two_changes ::
  "int list list \<Rightarrow> nat \<Rightarrow> route_slice list \<Rightarrow> nat \<Rightarrow> route_slice list \<Rightarrow> route_change list result" where
  "two_changes current r slices r' slices' =
     (if r = r' then Inl (Logic_Error ''move descriptor changes one route twice'')
      else rbind (one_change current r slices) (\<lambda>a. rbind (one_change current r' slices') (\<lambda>b.
           Inr (if r < r' then [a, b] else [b, a]))))"

definition slice_customers :: "int list list \<Rightarrow> route_slice \<Rightarrow> int list" where
  "slice_customers current sl =
     (let part = take (slice_end sl - slice_begin sl) (drop (slice_begin sl) (current ! slice_route sl))
      in if slice_reversed sl then rev part else part)"

definition materialize_route :: "int list list \<Rightarrow> route_change \<Rightarrow> int list" where
  "materialize_route current change = concat (map (slice_customers current) (change_slices change))"

text \<open>
  The order of descriptors: routes, then the customers that the slices spell out, then the
  number of changes.
\<close>

fun customers_before :: "int list \<Rightarrow> int list \<Rightarrow> bool option" where
  "customers_before [] [] = None"
| "customers_before [] (b # bs) = Some True"
| "customers_before (a # as) [] = Some False"
| "customers_before (a # as) (b # bs) = (if a \<noteq> b then Some (a < b) else customers_before as bs)"

fun changes_before :: "int list list \<Rightarrow> route_change list \<Rightarrow> route_change list \<Rightarrow> bool" where
  "changes_before current (a # as) (b # bs) =
     (if change_route a \<noteq> change_route b then change_route a < change_route b
      else case customers_before (materialize_route current a) (materialize_route current b) of
             Some smaller \<Rightarrow> smaller
           | None \<Rightarrow> changes_before current as bs)"
| "changes_before current as bs = (length as < length bs)"

definition described_move_less :: "int list list \<Rightarrow> customer_move \<Rightarrow> customer_move \<Rightarrow> bool" where
  "described_move_less current a b = changes_before current (cm_changes a) (cm_changes b)"

section \<open>Entry conditions\<close>

text \<open>\<open>a || b\<close> of conditions that may throw.\<close>

definition ror :: "bool result \<Rightarrow> bool result \<Rightarrow> bool result" where
  "ror x y = rbind x (\<lambda>b. if b then Inr True else y)"

definition promising_arc :: "granular \<Rightarrow> bool \<Rightarrow> nat \<Rightarrow> nat \<Rightarrow> bool result" where
  "promising_arc g present left_rank right_rank =
     (if present then promising_by_rank g left_rank right_rank else Inr False)"

definition is_numeric :: "int list \<Rightarrow> bool" where
  "is_numeric customers = list_all (\<lambda>i. customers ! i = int i + 1) [0..<length customers]"

section \<open>Swap\<close>

definition swap_from_adjacent ::
  "granular \<Rightarrow> pass_layout \<Rightarrow> int \<Rightarrow> (int \<times> int) list \<Rightarrow> int \<Rightarrow> (int \<times> int) list result" where
  "swap_from_adjacent g lay candidate pairs adjacent =
     rbind (promising_neighbors_of g adjacent) (rfold (\<lambda>pairs neighbor.
       rbind (place_of g lay neighbor) (\<lambda>_.
       Inr (if candidate = neighbor then pairs else pairs @ [(min candidate neighbor, max candidate neighbor)]))) pairs)"

definition adjacent_customers :: "int list \<Rightarrow> nat \<Rightarrow> int list" where
  "adjacent_customers cs position =
     (if position > 0 then [cs ! (position - 1)] else []) @
     (if position + 1 < length cs then [cs ! (position + 1)] else [])"

definition swap_proposals :: "granular \<Rightarrow> pass_layout \<Rightarrow> (int \<times> int) list result" where
  "swap_proposals g lay =
     rfold (\<lambda>pairs cs. rfold (\<lambda>pairs position.
        rfold (swap_from_adjacent g lay (cs ! position)) pairs (adjacent_customers cs position)) pairs [0..<length cs])
       [] (pl_current lay)"

text \<open>With numeric identifiers a table of flags replaces sorting.\<close>

definition swap_pairs :: "inst \<Rightarrow> (int \<times> int) list \<Rightarrow> (int \<times> int) list" where
  "swap_pairs I proposals =
     (let cs = customer_ids I; n = length cs
      in if is_numeric cs
         then concat (map (\<lambda>l. map (\<lambda>r. (cs ! l, cs ! r)) (filter (\<lambda>r. (cs ! l, cs ! r) \<in> set proposals) [l + 1..<n])) [0..<n])
         else remdups_adj (sort proposals))"

definition preceded_promisingly :: "granular \<Rightarrow> pass_layout \<Rightarrow> customer_place \<Rightarrow> customer_place \<Rightarrow> bool result" where
  "preceded_promisingly g lay here incoming =
     promising_arc g (place_position here > 0) (pl_ranks lay ! place_route here ! (place_position here - 1)) (place_slot incoming)"

definition swap_move :: "granular \<Rightarrow> pass_layout \<Rightarrow> int \<times> int \<Rightarrow> customer_move option result" where
  "swap_move g lay lr =
     rbind (place_of g lay (fst lr)) (\<lambda>left. rbind (place_of g lay (snd lr)) (\<lambda>right.
     rbind (ror (preceded_promisingly g lay left right) (preceded_promisingly g lay right left)) (\<lambda>allowed.
     let current = pl_current lay; a = place_route left; b = place_route right; p = place_position left; q = place_position right
     in if a = b then
          (let low = min p q; high = max p q; n = length (current ! a)
           in if high < low + 2 then Inr None
              else rbind (one_change current a [fwd a 0 low, fwd a high (high + 1), fwd a (low + 1) high,
                     fwd a low (low + 1), fwd a (high + 1) n]) (\<lambda>change.
                   Inr (Some \<lparr>cm_changes = [change], cm_form = Inherited, cm_row = low * n + high, cm_allowed = allowed\<rparr>)))
        else rbind (two_changes current
               a [fwd a 0 p, fwd b q (q + 1), fwd a (p + 1) (length (current ! a))]
               b [fwd b 0 q, fwd a p (p + 1), fwd b (q + 1) (length (current ! b))]) (\<lambda>changes.
             Inr (Some \<lparr>cm_changes = changes, cm_form = Inherited,
               cm_row = (if a < b then p * length (current ! b) + q else q * length (current ! a) + p), cm_allowed = allowed\<rparr>)))))"

definition moves_of_proposals :: "('a \<Rightarrow> customer_move option result) \<Rightarrow> 'a list \<Rightarrow> customer_move list result" where
  "moves_of_proposals f xs = rbind (rmap f xs) (\<lambda>ms. Inr (List.map_filter id ms))"

definition swap_moves :: "inst \<Rightarrow> granular \<Rightarrow> pass_layout \<Rightarrow> customer_move list result" where
  "swap_moves I g lay =
     rbind (swap_proposals g lay) (\<lambda>proposals. moves_of_proposals (swap_move g lay) (swap_pairs I proposals))"

section \<open>Physical profiles\<close>

text \<open>
  The modes of a pass: \<open>cooperative_physical_customers\<close> under the paper profile,
  \<open>project_opening_station_visits_\<close>, \<open>preserve_swap_station_visits_\<close>, and the build flags
  \<open>ILS_SP_FORWARD_ONLY_TWO_OPT\<close> and \<open>ILS_SP_PHYSICAL_REVERSE_EMPTY_CHILD\<close>.
\<close>

record pass_modes =
  pm_physical :: bool
  pm_projected :: bool
  pm_swap_stations :: bool
  pm_forward_only :: bool
  pm_reverse_empty :: bool

definition customer_slots :: "inst \<Rightarrow> int list \<Rightarrow> nat list result" where
  "customer_slots I vs =
     rfold (\<lambda>slots (slot, v). rbind (node_of I v) (\<lambda>n. Inr (if kind n = Customer then slots @ [slot] else slots)))
       [] (List.enumerate 0 vs)"

record swap_profile =
  sp_visits :: "int list"
  sp_slots :: "nat list"
  sp_scorer :: physical_scorer

definition swap_profile_of :: "inst \<Rightarrow> plan \<Rightarrow> swap_profile result" where
  "swap_profile_of I p =
     rbind (customer_slots I (visits (plan_route p))) (\<lambda>slots.
     rbind (make_scorer I p True) (\<lambda>sc.
     Inr \<lparr>sp_visits = visits (plan_route p), sp_slots = slots, sp_scorer = sc\<rparr>))"

definition slot_at :: "nat list \<Rightarrow> nat \<Rightarrow> nat result" where
  "slot_at slots i = (if i < length slots then Inr (slots ! i) else Inl (Out_Of_Range ''vector::_M_range_check''))"

text \<open>The slot behind the predecessor of a gap, before its stations.\<close>

definition slot_of_gap :: "swap_profile \<Rightarrow> nat \<Rightarrow> nat result" where
  "slot_of_gap pf gap = (if gap = 0 then Inr 0 else rbind (slot_at (sp_slots pf) (gap - 1)) (\<lambda>s. Inr (s + 1)))"

section \<open>Relocate\<close>

definition relocate_openings :: "int list list \<Rightarrow> (int \<times> nat \<times> nat) list" where
  "relocate_openings current =
     concat (map (\<lambda>cs. if length cs > 1 then map (\<lambda>c. (c, length current, 0)) cs else []) current)"

definition relocate_neighbors ::
  "granular \<Rightarrow> pass_layout \<Rightarrow> (int \<times> nat \<times> nat) list \<Rightarrow> int \<Rightarrow> (int \<times> nat \<times> nat) list result" where
  "relocate_neighbors g lay moves c =
     rbind (promising_neighbors_of g c) (rfold (\<lambda>moves neighbor.
       rbind (place_of g lay neighbor) (\<lambda>target. rbind (promising g neighbor c) (\<lambda>ok.
       Inr (if ok then moves @ [(c, place_route target, place_position target + 1)] else moves)))) moves)"

definition relocate_proposals :: "granular \<Rightarrow> pass_layout \<Rightarrow> (int \<times> nat \<times> nat) list result" where
  "relocate_proposals g lay =
     rfold (relocate_neighbors g lay) (relocate_openings (pl_current lay)) (concat (pl_current lay))"

definition gaps_of_route :: "int list list \<Rightarrow> nat \<Rightarrow> nat" where
  "gaps_of_route current r = (if r = length current then 1 else length (current ! r) + 1)"

definition order_relocate_moves ::
  "inst \<Rightarrow> int list list \<Rightarrow> (int \<times> nat \<times> nat) list \<Rightarrow> (int \<times> nat \<times> nat) list" where
  "order_relocate_moves I current moves =
     (if length moves < 2 then moves
      else if \<not> is_numeric (customer_ids I) then remdups_adj (sort moves)
      else concat (map (\<lambda>c. concat (map (\<lambda>r. map (\<lambda>gap. (c, r, gap))
             (filter (\<lambda>gap. (c, r, gap) \<in> set moves) [0..<gaps_of_route current r])) [0..<length current + 1]))
             (customer_ids I)))"

definition physical_relocate_of ::
  "pass_modes \<Rightarrow> inst \<Rightarrow> plan list \<Rightarrow> customer_place \<Rightarrow> nat \<Rightarrow> nat \<Rightarrow> physical_form result" where
  "physical_relocate_of md I ps source target gap =
     (if \<not> pm_physical md \<or> target = length ps then Inr Inherited
      else rbind (swap_profile_of I (ps ! place_route source)) (\<lambda>sp.
           rbind (slot_at (sp_slots sp) (place_position source)) (\<lambda>position.
           rbind (if gap = 0 then Inr 0 else rbind (swap_profile_of I (ps ! target)) (\<lambda>tp. slot_of_gap tp gap)) (\<lambda>slot.
           Inr (Physical_Relocate (place_route source) target position slot)))))"

text \<open>A customer that stays where it is; physically it may still cross a station.\<close>

definition relocate_is_idle ::
  "pass_modes \<Rightarrow> inst \<Rightarrow> plan list \<Rightarrow> customer_place \<Rightarrow> nat \<Rightarrow> bool result" where
  "relocate_is_idle md I ps source gap =
     (let p = place_position source; insertion = (if p < gap then gap - 1 else gap)
      in if \<not> pm_physical md then Inr (insertion = p)
         else rbind (swap_profile_of I (ps ! place_route source)) (\<lambda>sp.
              rbind (slot_at (sp_slots sp) p) (\<lambda>u.
              rbind (slot_of_gap sp gap) (\<lambda>v. Inr ((if u < v then v - 1 else v) = u)))))"

definition relocate_within ::
  "pass_modes \<Rightarrow> inst \<Rightarrow> plan list \<Rightarrow> pass_layout \<Rightarrow> customer_place \<Rightarrow> nat \<Rightarrow> bool \<Rightarrow> customer_move option result" where
  "relocate_within md I ps lay source gap allowed =
     (let r = place_route source; p = place_position source; n = length (pl_current lay ! r);
          insertion = (if p < gap then gap - 1 else gap)
      in rbind (relocate_is_idle md I ps source gap) (\<lambda>idle.
         if idle then Inr None
         else rbind (one_change (pl_current lay) r
                (if p < insertion then [fwd r 0 p, fwd r (p + 1) gap, fwd r p (p + 1), fwd r gap n]
                 else [fwd r 0 insertion, fwd r p (p + 1), fwd r insertion p, fwd r (p + 1) n])) (\<lambda>change.
              rbind (physical_relocate_of md I ps source r gap) (\<lambda>form.
              Inr (Some \<lparr>cm_changes = [change], cm_form = form, cm_row = p * (n + 1) + gap, cm_allowed = allowed\<rparr>)))))"

definition relocate_opening :: "pass_layout \<Rightarrow> customer_place \<Rightarrow> bool \<Rightarrow> customer_move option result" where
  "relocate_opening lay source allowed =
     (let r = place_route source; p = place_position source
      in rbind (two_changes (pl_current lay)
           r [fwd r 0 p, fwd r (p + 1) (length (pl_current lay ! r))]
           (length (pl_current lay)) [fwd r p (p + 1)]) (\<lambda>changes.
         Inr (Some \<lparr>cm_changes = changes, cm_form = Inherited, cm_row = p, cm_allowed = allowed\<rparr>)))"

definition relocate_across ::
  "pass_modes \<Rightarrow> inst \<Rightarrow> plan list \<Rightarrow> pass_layout \<Rightarrow> customer_place \<Rightarrow> nat \<Rightarrow> nat \<Rightarrow> bool \<Rightarrow> customer_move option result" where
  "relocate_across md I ps lay source target gap allowed =
     (let r = place_route source; p = place_position source; n = length (pl_current lay ! r); m = length (pl_current lay ! target)
      in rbind (two_changes (pl_current lay)
           r [fwd r 0 p, fwd r (p + 1) n]
           target [fwd target 0 gap, fwd r p (p + 1), fwd target gap m]) (\<lambda>changes.
         rbind (physical_relocate_of md I ps source target gap) (\<lambda>form.
         Inr (Some \<lparr>cm_changes = changes, cm_form = form,
           cm_row = (if r < target then p * (m + 1) + gap else m * (n + 1) + p * (m + 1) + gap), cm_allowed = allowed\<rparr>))))"

definition relocate_move ::
  "pass_modes \<Rightarrow> inst \<Rightarrow> plan list \<Rightarrow> granular \<Rightarrow> pass_layout \<Rightarrow> int \<times> nat \<times> nat \<Rightarrow> customer_move option result" where
  "relocate_move md I ps g lay m =
     (case m of (c, target, gap) \<Rightarrow>
       rbind (place_of g lay c) (\<lambda>source.
       rbind (if target = length (pl_current lay) then Inr True
              else promising_arc g (gap > 0) (pl_ranks lay ! target ! (gap - 1)) (place_slot source)) (\<lambda>allowed.
       if target = place_route source then relocate_within md I ps lay source gap allowed
       else if target = length (pl_current lay) then relocate_opening lay source allowed
       else relocate_across md I ps lay source target gap allowed)))"

definition relocate_moves ::
  "pass_modes \<Rightarrow> inst \<Rightarrow> plan list \<Rightarrow> granular \<Rightarrow> pass_layout \<Rightarrow> customer_move list result" where
  "relocate_moves md I ps g lay =
     rbind (relocate_proposals g lay) (\<lambda>proposals.
     moves_of_proposals (relocate_move md I ps g lay) (order_relocate_moves I (pl_current lay) proposals))"

section \<open>2-OPT*\<close>

type_synonym two_opt_cut = "nat \<times> nat \<times> nat \<times> nat \<times> bool"

definition two_opt_neighbors ::
  "pass_modes \<Rightarrow> granular \<Rightarrow> pass_layout \<Rightarrow> nat \<Rightarrow> two_opt_cut list \<Rightarrow> nat \<times> int \<Rightarrow> two_opt_cut list result" where
  "two_opt_neighbors md g lay l moves pc =
     (case pc of (p, c) \<Rightarrow>
       rbind (promising_neighbors_of g c) (rfold (\<lambda>moves neighbor.
         rbind (place_of g lay neighbor) (\<lambda>right. let r = place_route right; q = place_position right in
         Inr (if r \<le> l then moves
              else moves @ [(l, r, p + 1, q, False), (l, r, p, q + 1, False)] @
                   (if pm_forward_only md then [] else [(l, r, p + 1, q + 1, True), (l, r, p, q, True)])))) moves))"

definition two_opt_proposals :: "pass_modes \<Rightarrow> granular \<Rightarrow> pass_layout \<Rightarrow> two_opt_cut list result" where
  "two_opt_proposals md g lay =
     rfold (\<lambda>moves (l, cs). rfold (two_opt_neighbors md g lay l) moves (List.enumerate 0 cs))
       [] (List.enumerate 0 (pl_current lay))"

definition order_two_opt_moves :: "int list list \<Rightarrow> two_opt_cut list \<Rightarrow> two_opt_cut list" where
  "order_two_opt_moves current moves =
     (if length moves < 2 then moves
      else concat (map (\<lambda>l. concat (map (\<lambda>r. concat (map (\<lambda>lc. concat (map (\<lambda>rc.
             filter (\<lambda>m. m \<in> set moves) [(l, r, lc, rc, False), (l, r, lc, rc, True)])
             [0..<length (current ! r) + 1])) [0..<length (current ! l) + 1])) [l + 1..<length current])) [0..<length current]))"

text \<open>The reverse reconnection at the two depots, which keeps every physical visit.\<close>

definition depot_two_opt_move :: "int list list \<Rightarrow> nat \<times> nat \<Rightarrow> customer_move option result" where
  "depot_two_opt_move current lr =
     (case lr of (l, r) \<Rightarrow>
       if current ! l = [] \<or> current ! r = [] then Inr None
       else rbind (two_changes current l [bwd r 0 (length (current ! r))] r [bwd l 0 (length (current ! l))]) (\<lambda>changes.
            Inr (Some \<lparr>cm_changes = changes, cm_form = Reverse_Two_Opt 0 (length (current ! r) + 1),
              cm_row = 2 * (length (current ! l) + 1) * (length (current ! r) + 1), cm_allowed = True\<rparr>)))"

definition route_pairs :: "nat \<Rightarrow> (nat \<times> nat) list" where
  "route_pairs n = concat (map (\<lambda>l. map (Pair l) [l + 1..<n]) [0..<n])"

definition depot_two_opt_moves :: "pass_modes \<Rightarrow> int list list \<Rightarrow> customer_move list result" where
  "depot_two_opt_moves md current =
     (if pm_forward_only md \<or> \<not> pm_physical md then Inr []
      else moves_of_proposals (depot_two_opt_move current) (route_pairs (length current)))"

definition two_opt_allowed :: "granular \<Rightarrow> nat list \<Rightarrow> nat list \<Rightarrow> nat \<Rightarrow> nat \<Rightarrow> bool \<Rightarrow> bool result" where
  "two_opt_allowed g left right lc rc reversed =
     (if \<not> reversed
      then ror (promising_arc g (lc > 0 \<and> rc < length right) (left ! (lc - 1)) (right ! rc))
               (promising_arc g (rc > 0 \<and> lc < length left) (right ! (rc - 1)) (left ! lc))
      else ror (promising_arc g (lc > 0 \<and> rc > 0) (left ! (lc - 1)) (right ! (rc - 1)))
               (promising_arc g (lc < length left \<and> rc < length right) (left ! lc) (right ! rc)))"

definition two_opt_form :: "pass_modes \<Rightarrow> nat \<Rightarrow> nat \<Rightarrow> nat \<Rightarrow> bool \<Rightarrow> physical_form" where
  "two_opt_form md customers lc rc reversed =
     (if \<not> pm_physical md then Inherited
      else if \<not> reversed then Forward_Two_Opt lc rc
      else if pm_reverse_empty md \<or> lc + rc \<noteq> 0 \<and> lc + rc \<noteq> customers then Reverse_Two_Opt lc rc
      else Inherited)"

definition two_opt_move ::
  "pass_modes \<Rightarrow> granular \<Rightarrow> pass_layout \<Rightarrow> two_opt_cut \<Rightarrow> customer_move option result" where
  "two_opt_move md g lay m =
     (case m of (l, r, lc, rc, reversed) \<Rightarrow>
       let current = pl_current lay; n = length (current ! l); k = length (current ! r)
       in rbind (two_opt_allowed g (pl_ranks lay ! l) (pl_ranks lay ! r) lc rc reversed) (\<lambda>allowed.
          rbind (if \<not> reversed then two_changes current l [fwd l 0 lc, fwd r rc k] r [fwd r 0 rc, fwd l lc n]
                 else two_changes current l [fwd l 0 lc, bwd r 0 rc] r [bwd l lc n, fwd r rc k]) (\<lambda>changes.
          Inr (Some \<lparr>cm_changes = changes, cm_form = two_opt_form md (length (pl_ranks lay ! l) + length (pl_ranks lay ! r)) lc rc reversed,
            cm_row = 2 * (lc * (k + 1) + rc) + (if reversed then 1 else 0), cm_allowed = allowed\<rparr>))))"

definition two_opt_moves :: "pass_modes \<Rightarrow> granular \<Rightarrow> pass_layout \<Rightarrow> customer_move list result" where
  "two_opt_moves md g lay =
     rbind (depot_two_opt_moves md (pl_current lay)) (\<lambda>depot.
     rbind (two_opt_proposals md g lay) (\<lambda>proposals.
     rbind (moves_of_proposals (two_opt_move md g lay) (order_two_opt_moves (pl_current lay) proposals)) (\<lambda>ms.
     Inr (depot @ ms))))"

section \<open>The neighbourhoods\<close>

datatype customer_neighborhood = Swap | Relocate | Two_Opt_Star

definition customer_moves ::
  "pass_modes \<Rightarrow> inst \<Rightarrow> granular \<Rightarrow> plan list \<Rightarrow> pass_layout \<Rightarrow> customer_neighborhood \<Rightarrow> customer_move list result" where
  "customer_moves md I g ps lay nb =
     (case nb of Swap \<Rightarrow> swap_moves I g lay
      | Relocate \<Rightarrow> relocate_moves md I ps g lay
      | Two_Opt_Star \<Rightarrow> two_opt_moves md g lay)"

end
