(* ===== verification/Move_Selection.thy ===== *)
theory Move_Selection
  imports Customer_Moves Path_Moves
begin

text \<open>
  The best move of a customer neighbourhood (src/search.cpp:
  \<open>VariableNeighborhoodDescent::best_customer_neighbor\<close>): every allowed move is scored on its changed
  routes, the best one of every support (the routes it changes) is kept, the best support
  wins, and its plans are built.  For calls without deadline.

  What only saves time is left out: the memory of supports scored in earlier passes, the tables
  of physical scores, the memo of relocation sources and the rejection of a second child whose
  first one already costs too much.  The scorer is rebound at the start of the pass, where the
  code waits for its first use.  The memo would mix scores if physical moves came with an
  opening that is not projected, which the constructor of the solver excludes.
\<close>

record local_search =
  ls_sampler :: path_sampler
  ls_implicit :: bool
  ls_profile :: search_profile
  ls_granular :: granular
  ls_modes :: pass_modes

definition ls_inst :: "local_search \<Rightarrow> inst" where
  "ls_inst v = ps_inst (ls_sampler v)"

text \<open>The checks of the constructor.\<close>

definition local_search_check :: "search_profile \<Rightarrow> nat \<Rightarrow> bool \<Rightarrow> bool \<Rightarrow> unit result" where
  "local_search_check pf replace_path_attempts project_opening preserve_swap =
     (if preserve_swap \<and> pf \<noteq> Paper then Inl (Invalid_Argument ''physical-slot Swap requires the paper profile'')
      else if replace_path_attempts \<noteq> 1 then Inl (Invalid_Argument ''only the single-proposal ReplacePath stage is active; the four-trial experiment was rejected'')
      else if project_opening \<and> pf \<noteq> Paper then Inl (Invalid_Argument ''projected route opening requires the paper profile'')
      else Inr ())"

section \<open>Physical reconnections\<close>

text \<open>\<open>PhysicalReverseTwoOptProfile\<close>: labels of the prefixes and suffixes of a route, both ways.\<close>

record two_opt_profile =
  tp_visits :: "int list"
  tp_cuts :: "nat list"
  tp_prefix :: "charging_label list"
  tp_reverse_prefix :: "charging_label list"
  tp_suffix :: "charging_label list"
  tp_reverse_suffix :: "charging_label list"

definition two_opt_cuts :: "inst \<Rightarrow> plan \<Rightarrow> nat list result" where
  "two_opt_cuts I p =
     rbind (customer_slots I (visits (plan_route p))) (\<lambda>slots.
     if length slots \<noteq> length (plan_customers p) then Inl (Logic_Error ''physical 2OPT customer metadata differs'')
     else Inr (0 # map Suc slots @ [length (visits (plan_route p))]))"

definition profile_prefixes :: "inst \<Rightarrow> bool \<Rightarrow> int list \<Rightarrow> charging_label list result" where
  "profile_prefixes I reversed vs =
     rfold (\<lambda>labels past.
        rbind (if reversed then edge_label I (vs ! (past - 1)) [] (vs ! (past - 2))
               else edge_label I (vs ! (past - 2)) [] (vs ! (past - 1))) (\<lambda>e.
        rbind (if reversed then concatenate e (labels ! (past - 1)) else concatenate (labels ! (past - 1)) e) (\<lambda>l.
        Inr (labels @ [l]))))
       (replicate (min 2 (length vs + 1)) empty_label) [2..<length vs + 1]"

text \<open>From the back: the head of the list is the suffix from the last position treated.\<close>

definition profile_suffixes :: "inst \<Rightarrow> bool \<Rightarrow> int list \<Rightarrow> charging_label list result" where
  "profile_suffixes I reversed vs =
     rfold (\<lambda>labels b.
        rbind (if reversed then edge_label I (vs ! (b + 1)) [] (vs ! b) else edge_label I (vs ! b) [] (vs ! (b + 1))) (\<lambda>e.
        rbind (if reversed then concatenate (hd labels) e else concatenate e (hd labels)) (\<lambda>l.
        Inr (l # labels))))
       (replicate (min 2 (length vs + 1)) empty_label) (rev [0..<length vs - 1])"

definition two_opt_profile_of :: "inst \<Rightarrow> bool \<Rightarrow> plan \<Rightarrow> two_opt_profile result" where
  "two_opt_profile_of I forward_only p =
     (let vs = visits (plan_route p)
      in rbind (two_opt_cuts I p) (\<lambda>cuts.
         rbind (profile_prefixes I False vs) (\<lambda>pre.
         rbind (if forward_only then Inr [] else profile_prefixes I True vs) (\<lambda>rpre.
         rbind (profile_suffixes I False vs) (\<lambda>suf.
         rbind (if forward_only then Inr [] else profile_suffixes I True vs) (\<lambda>rsuf.
         Inr \<lparr>tp_visits = vs, tp_cuts = cuts, tp_prefix = pre, tp_reverse_prefix = rpre, tp_suffix = suf,
              tp_reverse_suffix = rsuf\<rparr>))))))"

definition fragment_bounds :: "two_opt_profile \<Rightarrow> nat \<Rightarrow> bool \<Rightarrow> (nat \<times> nat) result" where
  "fragment_bounds pf customer_cut is_prefix =
     rbind (slot_at (tp_cuts pf) customer_cut) (\<lambda>cut.
     Inr (if is_prefix then (0, cut) else (cut, length (tp_visits pf))))"

definition append_fragment ::
  "inst \<Rightarrow> two_opt_profile \<Rightarrow> nat \<Rightarrow> bool \<Rightarrow> bool \<Rightarrow> charging_label \<times> int \<Rightarrow> (charging_label \<times> int) result" where
  "append_fragment I pf customer_cut is_prefix reversed x =
     (case x of (label, previous) \<Rightarrow>
       rbind (fragment_bounds pf customer_cut is_prefix) (\<lambda>(b, e).
       if b = e then Inr (label, previous)
       else rbind (edge_label I previous [] (tp_visits pf ! (if reversed then e - 1 else b))) (\<lambda>edge.
            rbind (append_label label edge) (\<lambda>label.
            rbind (append_label label
                     (if is_prefix then (if reversed then tp_reverse_prefix pf ! e else tp_prefix pf ! e)
                      else (if reversed then tp_reverse_suffix pf ! b else tp_suffix pf ! b))) (\<lambda>label.
            Inr (label, tp_visits pf ! (if reversed then b else e - 1)))))))"

definition fragment_visits :: "two_opt_profile \<Rightarrow> nat \<Rightarrow> bool \<Rightarrow> bool \<Rightarrow> int list result" where
  "fragment_visits pf customer_cut is_prefix reversed =
     rbind (fragment_bounds pf customer_cut is_prefix) (\<lambda>(b, e).
     let part = take (e - b) (drop b (tp_visits pf)) in Inr (if reversed then rev part else part))"

text \<open>The two fragments of a child: the profile's change, its cut, whether a prefix, whether reversed.\<close>

definition child_fragments :: "physical_form \<Rightarrow> nat \<Rightarrow> (nat \<times> nat \<times> bool \<times> bool) list" where
  "child_fragments form child =
     (case form of
        Forward_Two_Opt lc rc \<Rightarrow>
          if child = 0 then [(0, lc, True, False), (1, rc, False, False)]
          else [(1, rc, True, False), (0, lc, False, False)]
      | Reverse_Two_Opt lc rc \<Rightarrow>
          [(0, lc, child = 0, child = 1), (1, rc, child = 0, child = 0)]
      | _ \<Rightarrow> [])"

definition two_opt_profiles :: "local_search \<Rightarrow> solution \<Rightarrow> customer_move \<Rightarrow> two_opt_profile list result" where
  "two_opt_profiles v s m =
     rmap (\<lambda>change. two_opt_profile_of (ls_inst v) (pm_forward_only (ls_modes v)) (plans s ! change_route change)) (cm_changes m)"

definition physical_two_opt_score :: "local_search \<Rightarrow> solution \<Rightarrow> customer_move \<Rightarrow> nat \<Rightarrow> route_cost_summary eff" where
  "physical_two_opt_score v s m child =
     (let I = ls_inst v
      in ebind (lifted (depot_of I)) (\<lambda>d.
         ebind (lifted (two_opt_profiles v s m)) (\<lambda>pfs.
         ebind (lifted (rfold (\<lambda>x (k, cut, is_prefix, reversed). append_fragment I (pfs ! k) cut is_prefix reversed x)
                          (empty_label, node_id d) (child_fragments (cm_form m) child))) (\<lambda>(label, previous).
         ebind (lifted (rbind (edge_label I previous [] (node_id d)) (append_label label))) (evaluate_label I)))))"

definition physical_two_opt_visits :: "local_search \<Rightarrow> solution \<Rightarrow> customer_move \<Rightarrow> nat \<Rightarrow> int list result" where
  "physical_two_opt_visits v s m child =
     rbind (two_opt_profiles v s m) (\<lambda>pfs.
     rfold (\<lambda>vs (k, cut, is_prefix, reversed). rbind (fragment_visits (pfs ! k) cut is_prefix reversed) (\<lambda>part. Inr (vs @ part)))
       [] (child_fragments (cm_form m) child))"

section \<open>Supports\<close>

text \<open>First route, second route if any, and whether the move opens a route.\<close>

type_synonym move_support = "nat \<times> nat option \<times> bool"

definition move_support_of :: "nat \<Rightarrow> customer_move \<Rightarrow> move_support result" where
  "move_support_of n m =
     (case cm_changes m of
        [a] \<Rightarrow> if change_route a < n then Inr (change_route a, None, False)
               else Inl (Logic_Error ''move descriptor has invalid route support'')
      | [a, b] \<Rightarrow>
          if change_route a \<ge> n then Inl (Logic_Error ''move descriptor has invalid route support'')
          else if change_route b = n then Inr (change_route a, None, True)
          else if change_route b < n then Inr (change_route a, Some (change_route b), False)
          else Inl (Logic_Error ''move descriptor opens an invalid route'')
      | _ \<Rightarrow> Inl (Logic_Error ''move descriptor has invalid route support''))"

fun support_index :: "nat \<Rightarrow> move_support \<Rightarrow> nat" where
  "support_index n (first, second, opens) =
     (if opens then n + first
      else case second of None \<Rightarrow> first | Some second \<Rightarrow> 2 * n + min first second * n + max first second)"

fun support_routes :: "move_support \<Rightarrow> nat list" where
  "support_routes (first, second, opens) =
     (case second of None \<Rightarrow> [first] | Some second \<Rightarrow> [min first second, max first second])"

section \<open>Scores\<close>

definition project_opening_visits :: "inst \<Rightarrow> plan \<Rightarrow> int \<Rightarrow> bool \<Rightarrow> int list result" where
  "project_opening_visits I parent moved singleton =
     (if singleton then Inr [moved]
      else rfold (\<lambda>vs i. rbind (node_of I i) (\<lambda>n. Inr (if kind n = Station \<or> i \<noteq> moved then vs @ [i] else vs)))
             [] (visits (plan_route parent)))"

definition is_physical_swap :: "local_search \<Rightarrow> customer_neighborhood \<Rightarrow> bool" where
  "is_physical_swap v nb \<longleftrightarrow> pm_swap_stations (ls_modes v) \<and> nb = Swap"

definition physical_relocate_score ::
  "inst \<Rightarrow> solution \<Rightarrow> nat \<Rightarrow> nat \<Rightarrow> nat \<Rightarrow> nat \<Rightarrow> route_change \<Rightarrow> route_cost_summary eff" where
  "physical_relocate_score I s source target position slot change =
     ebind (lifted (swap_profile_of I (plans s ! source))) (\<lambda>sp.
     if source = target then evaluate_relocate I (sp_scorer sp) position slot
     else if change_route change = source then evaluate_removal I (sp_scorer sp) position
     else ebind (lifted (swap_profile_of I (plans s ! target))) (\<lambda>tp.
          if position < length (sp_visits sp) then evaluate_insertion I (sp_scorer tp) slot (sp_visits sp ! position)
          else throw (Out_Of_Range ''vector::_M_range_check'')))"

definition physical_swap_score ::
  "inst \<Rightarrow> solution \<Rightarrow> move_support \<Rightarrow> nat \<Rightarrow> route_change \<Rightarrow> route_cost_summary eff" where
  "physical_swap_score I s support row change =
     (case support of
        (first, None, _) \<Rightarrow>
          let n = length (plan_customers (plans s ! first))
          in ebind (lifted (swap_profile_of I (plans s ! first))) (\<lambda>pf.
             ebind (lifted (slot_at (sp_slots pf) (row div n))) (\<lambda>p.
             ebind (lifted (slot_at (sp_slots pf) (row mod n))) (\<lambda>q.
             evaluate_swap I (sp_scorer pf) p q)))
      | (first, Some second, _) \<Rightarrow>
          let width = length (plan_customers (plans s ! second));
              first_child = change_route change = first;
              r = (if first_child then first else second)
          in ebind (lifted (swap_profile_of I (plans s ! r))) (\<lambda>pf.
             ebind (lifted (slot_at (sp_slots pf) (if first_child then row div width else row mod width))) (\<lambda>p.
             evaluate_replacement I (sp_scorer pf) p
               (if first_child then plan_customers (plans s ! second) ! (row mod width)
                else plan_customers (plans s ! first) ! (row div width)))))"

definition score_child ::
  "local_search \<Rightarrow> sequence_scorer \<Rightarrow> solution \<Rightarrow> customer_neighborhood \<Rightarrow> move_support \<Rightarrow> customer_move \<Rightarrow> nat \<Rightarrow>
     route_cost_summary eff" where
  "score_child v sc s nb support m child =
     (let I = ls_inst v; change = cm_changes m ! child
      in case cm_form m of
           Reverse_Two_Opt _ _ \<Rightarrow> physical_two_opt_score v s m child
         | Forward_Two_Opt _ _ \<Rightarrow> physical_two_opt_score v s m child
         | Physical_Relocate source target position slot \<Rightarrow> physical_relocate_score I s source target position slot change
         | Inherited \<Rightarrow>
             if is_physical_swap v nb then physical_swap_score I s support (cm_row m) change
             else if pm_projected (ls_modes v) \<and> snd (snd support)
             then ebind (lifted (project_opening_visits I (plans s ! fst support)
                      (plan_customers (plans s ! fst support) ! cm_row m) (change_route change = length (plans s)))) (\<lambda>vs.
                  ebind (lifted (route_label I \<lparr>visits = vs\<rparr>)) (evaluate_label I))
             else score_slices I sc (change_slices change))"

text \<open>Routes that lose all their customers cost nothing.\<close>

definition candidate_cost ::
  "local_search \<Rightarrow> real \<Rightarrow> sequence_scorer \<Rightarrow> solution \<Rightarrow> customer_neighborhood \<Rightarrow> move_support \<Rightarrow> customer_move \<Rightarrow> real eff" where
  "candidate_cost v lambda sc s nb support m =
     efold (\<lambda>cost child.
       if change_slices (cm_changes m ! child) = [] then ret cost
       else ebind (score_child v sc s nb support m child) (\<lambda>r.
            ebind (lifted (summary_cost r (ls_inst v) lambda)) (\<lambda>c. ret (cost + c))))
       0 [0..<length (cm_changes m)]"

record support_entry =
  se_routes :: "nat list"
  se_best :: "(real \<times> customer_move) option"

type_synonym support_entries = "(nat \<times> support_entry) list"

definition better_candidate :: "int list list \<Rightarrow> real \<Rightarrow> customer_move \<Rightarrow> (real \<times> customer_move) option \<Rightarrow> bool" where
  "better_candidate current cost m best_opt \<longleftrightarrow>
     (case best_opt of None \<Rightarrow> True
      | Some (b, m') \<Rightarrow> cost < b - kCostTolerance \<or> \<bar>cost - b\<bar> \<le> kCostTolerance \<and> described_move_less current m m')"

definition consider_move ::
  "local_search \<Rightarrow> real \<Rightarrow> sequence_scorer \<Rightarrow> solution \<Rightarrow> customer_neighborhood \<Rightarrow> support_entries \<Rightarrow> customer_move \<Rightarrow>
     support_entries eff" where
  "consider_move v lambda sc s nb entries m =
     ebind (lifted (move_support_of (length (plans s)) m)) (\<lambda>support.
     let slot = support_index (length (plans s)) support;
         entry = (case map_of entries slot of Some e \<Rightarrow> e | None \<Rightarrow> \<lparr>se_routes = support_routes support, se_best = None\<rparr>)
     in if \<not> cm_allowed m then ret (AList.update slot entry entries)
        else ebind (candidate_cost v lambda sc s nb support m) (\<lambda>cost.
             ret (AList.update slot
               (if better_candidate (customer_sequences s) cost m (se_best entry) then entry\<lparr>se_best := Some (cost, m)\<rparr> else entry)
               entries)))"

section \<open>The winner\<close>

definition keep_best_support ::
  "int list list \<Rightarrow> real list \<Rightarrow> support_entries \<Rightarrow> (real \<times> customer_move) option \<Rightarrow> nat \<Rightarrow> (real \<times> customer_move) option" where
  "keep_best_support current route_costs entries chosen slot =
     (case map_of entries slot of None \<Rightarrow> chosen
      | Some e \<Rightarrow> (case se_best e of None \<Rightarrow> chosen
          | Some (cost, m) \<Rightarrow>
              let delta = foldl (\<lambda>d r. d - route_costs ! r) cost (se_routes e)
              in if \<not> isfinite delta \<or> delta \<ge> - kCostTolerance then chosen
                 else if better_candidate current delta m chosen then Some (delta, m) else chosen))"

definition best_support :: "int list list \<Rightarrow> real list \<Rightarrow> support_entries \<Rightarrow> (real \<times> customer_move) option" where
  "best_support current route_costs entries =
     foldl (keep_best_support current route_costs entries) None
       [0..<length current * length current + 2 * length current]"

section \<open>The new plans\<close>

definition replace_customer :: "inst \<Rightarrow> int list \<Rightarrow> int list \<times> nat \<Rightarrow> int \<Rightarrow> (int list \<times> nat) result" where
  "replace_customer I sequence x i =
     (case x of (vs, customer) \<Rightarrow>
       rbind (node_of I i) (\<lambda>n.
       if kind n \<noteq> Customer then Inr (vs @ [i], customer)
       else if customer < length sequence then Inr (vs @ [sequence ! customer], customer + 1)
       else Inl (Out_Of_Range ''vector::_M_range_check'')))"

definition swapped_visits :: "inst \<Rightarrow> int list \<Rightarrow> int list \<Rightarrow> int list result" where
  "swapped_visits I sequence old =
     rbind (rfold (replace_customer I sequence) ([], 0) old) (\<lambda>(vs, customer).
     if customer \<noteq> length sequence then Inl (Logic_Error ''Swap materialization size'') else Inr vs)"

definition relocated_visits :: "solution \<Rightarrow> nat \<Rightarrow> nat \<Rightarrow> nat \<Rightarrow> nat \<Rightarrow> nat \<Rightarrow> int list" where
  "relocated_visits s source target position slot r =
     (let old = visits (plan_route (plans s ! r)); c = visits (plan_route (plans s ! source)) ! position;
          rest = (if r = source then take position old @ drop (position + 1) old else old);
          q = slot - (if source = r \<and> position < slot then 1 else 0)
      in if r = target then take q rest @ c # drop q rest else rest)"

definition with_customers :: "int list \<Rightarrow> string \<Rightarrow> plan \<times> plan_factory \<Rightarrow> (plan \<times> plan_factory) eff" where
  "with_customers sequence what x =
     (if plan_customers (fst x) \<noteq> sequence then throw (Logic_Error what) else ret x)"

definition plan_of_change ::
  "local_search \<Rightarrow> gap_map \<Rightarrow> solution \<Rightarrow> customer_neighborhood \<Rightarrow> customer_move \<Rightarrow> nat \<Rightarrow> int list \<Rightarrow> plan with_factory" where
  "plan_of_change v inherited s nb m child sequence f =
     (let I = ls_inst v; r = change_route (cm_changes m ! child);
          two_opt = ebind (lifted (physical_two_opt_visits v s m child)) (\<lambda>vs.
                    ebind (built (plan_visits I f vs)) (with_customers sequence ''physical 2OPT customer descriptor differs''))
      in case cm_form m of
           Reverse_Two_Opt _ _ \<Rightarrow> two_opt
         | Forward_Two_Opt _ _ \<Rightarrow> two_opt
         | Physical_Relocate source target position slot \<Rightarrow>
             ebind (built (plan_visits I f (relocated_visits s source target position slot r)))
               (with_customers sequence ''physical Relocate customer descriptor differs'')
         | Inherited \<Rightarrow>
             if is_physical_swap v nb
             then ebind (lifted (swapped_visits I sequence (visits (plan_route (plans s ! r))))) (\<lambda>vs. built (plan_visits I f vs))
             else ebind (lifted (move_support_of (length (plans s)) m)) (\<lambda>support.
                  if pm_projected (ls_modes v) \<and> snd (snd support)
                  then ebind (lifted (project_opening_visits I (plans s ! fst support)
                           (hd (materialize_route (customer_sequences s) (last (cm_changes m)))) (r = length (plans s))))
                         (\<lambda>vs. built (plan_visits I f vs))
                  else built (plan_sequence_with I f sequence inherited)))"

definition completes_vnd_winner :: "search_profile \<Rightarrow> bool" where
  "completes_vnd_winner p \<longleftrightarrow> p = Linked_Winner \<or> p = Linked_Insertion_Candidates"

definition prepare_change ::
  "local_search \<Rightarrow> real \<Rightarrow> gap_map \<Rightarrow> solution \<Rightarrow> customer_neighborhood \<Rightarrow> customer_move \<Rightarrow>
     (nat \<times> plan option) list \<times> plan_factory \<Rightarrow> nat \<Rightarrow> ((nat \<times> plan option) list \<times> plan_factory) eff" where
  "prepare_change v lambda inherited s nb m x child =
     (case x of (prepared, f) \<Rightarrow>
       let change = cm_changes m ! child; sequence = materialize_route (customer_sequences s) change
       in if sequence = [] then ret (prepared @ [(change_route change, None)], f)
          else ebind (plan_of_change v inherited s nb m child sequence f) (\<lambda>(p, f).
               ebind (if completes_vnd_winner (ls_profile v)
                      then repair_new_gaps (ls_sampler v) p inherited lambda False f else ret (p, f)) (\<lambda>(p, f).
               ret (prepared @ [(change_route change, Some p)], f))))"

definition list_of_option :: "'a option \<Rightarrow> 'a list" where
  "list_of_option x = (case x of None \<Rightarrow> [] | Some y \<Rightarrow> [y])"

text \<open>The routes with the changes in place, and the changes that are left.\<close>

fun replace_routes :: "nat \<Rightarrow> plan list \<Rightarrow> (nat \<times> plan option) list \<Rightarrow> plan list \<times> (nat \<times> plan option) list" where
  "replace_routes r [] changes = ([], changes)"
| "replace_routes r (p # ps) changes =
     (case changes of
        (k, q) # rest \<Rightarrow>
          if k = r then (case replace_routes (r + 1) ps rest of (ps', left) \<Rightarrow> (list_of_option q @ ps', left))
          else (case replace_routes (r + 1) ps changes of (ps', left) \<Rightarrow> (p # ps', left))
      | [] \<Rightarrow> (p # ps, []))"

definition assemble_neighbor :: "solution \<Rightarrow> (nat \<times> plan option) list \<Rightarrow> solution result" where
  "assemble_neighbor s prepared =
     (case replace_routes 0 (plans s) prepared of (ps, left) \<Rightarrow>
        case left of
          [] \<Rightarrow> Inr \<lparr>plans = ps\<rparr>
        | [(k, q)] \<Rightarrow> if k = length (plans s) then Inr \<lparr>plans = ps @ list_of_option q\<rparr>
                      else Inl (Logic_Error ''cached candidate route change is out of range'')
        | _ \<Rightarrow> Inl (Logic_Error ''cached candidate route change is out of range''))"

definition materialized_neighbor ::
  "local_search \<Rightarrow> real \<Rightarrow> gap_map \<Rightarrow> solution \<Rightarrow> customer_neighborhood \<Rightarrow> customer_move \<Rightarrow> solution with_factory" where
  "materialized_neighbor v lambda inherited s nb m f =
     ebind (efold (prepare_change v lambda inherited s nb m) ([], f) [0..<length (cm_changes m)]) (\<lambda>(prepared, f).
     ebind (lifted (assemble_neighbor s prepared)) (\<lambda>t. ret (t, f)))"

section \<open>A pass\<close>

text \<open>What changes from pass to pass.\<close>

record 'r local_state =
  lc_factory :: plan_factory
  lc_scorer :: "sequence_scorer option"
  lc_random :: 'r

definition scorer_of_pass :: "inst \<Rightarrow> sequence_scorer option \<Rightarrow> solution \<Rightarrow> gap_map \<Rightarrow> sequence_scorer result" where
  "scorer_of_pass I old s inherited =
     (case old of None \<Rightarrow> make_sequence_scorer I s inherited | Some sc \<Rightarrow> reset_scorer I sc s inherited)"

definition best_customer_neighbor ::
  "local_search \<Rightarrow> real \<Rightarrow> solution \<Rightarrow> customer_neighborhood \<Rightarrow> 'r local_state \<Rightarrow> (solution option \<times> 'r local_state) eff" where
  "best_customer_neighbor v lambda s nb st =
     (let I = ls_inst v; current = customer_sequences s
      in ebind (lifted (gap_map_of I s)) (\<lambda>inherited.
         ebind (lifted (scorer_of_pass I (lc_scorer st) s inherited)) (\<lambda>sc.
         ebind (lifted (rmap (plan_cost I lambda) (plans s))) (\<lambda>route_costs.
         ebind (lifted (pass_layout_of I (ls_granular v) current)) (\<lambda>lay.
         ebind (lifted (customer_moves (ls_modes v) I (ls_granular v) (plans s) lay nb)) (\<lambda>moves.
         ebind (efold (consider_move v lambda sc s nb) [] moves) (\<lambda>entries.
         case best_support current route_costs entries of
           None \<Rightarrow> ret (None, st\<lparr>lc_scorer := Some sc\<rparr>)
         | Some (_, m) \<Rightarrow>
             ebind (materialized_neighbor v lambda inherited s nb m (lc_factory st)) (\<lambda>(t, f).
             ret (Some t, st\<lparr>lc_factory := f, lc_scorer := Some sc\<rparr>)))))))))"

end
