(* ===== verification/Spec2Isabelle.thy ===== *)
theory Spec2Isabelle
  imports Plan_Factory Scorer_Properties Sequence_Properties Pool_Properties Certificate_Properties Xml_Properties Path_Properties Granular_Neighborhood Solver_Claims Insertion_Properties Perturbation_Properties Catalog_Properties Move_Selection
begin

text \<open>
  Verification development for ILS-SP, an iterated local search with set partitioning for the
  electric vehicle routing problem with nonlinear charging (C++20, src/ and include/ils_sp/).

  \<^bold>\<open>The program.\<close>  \<open>load_montoya_instance\<close> (src/xml.cpp) reads an instance: nodes, one vehicle and a
  concave piecewise linear charging curve per station.  A \<open>Plan\<close> is a sequence of customers with
  the stations visited in each of its gaps; a \<open>Solution\<close> is a list of plans that partition the
  customers.  Evaluators (src/evaluator.cpp) decide how long to charge where and return cost,
  duration excess and energy shortfall, which a penalty \<open>lambda\<close> weighs.  The search
  (src/search.cpp) edits plans, scores edits through labels of route segments, and completes
  routes by station paths of a catalogue.  The pool (src/pool.cpp) keeps the routes met.  The
  solver (src/solver.cpp) alternates search and an assembler that recombines pool columns by
  external optimisation models, adapts \<open>lambda\<close> and keeps the best feasible solution.

  \<^bold>\<open>Theories and code.\<close>
  \<^item> Prelude, Effects: errors as values (\<open>result\<close>), computations whose loops may not return
    (\<open>eff\<close>), folds with early failure, generic lemmas.
  \<^item> Charging_Curve, Instance_Model (core.hpp, core.cpp): curves and instances with the checks of
    their constructors.  Lemmas: class invariants \<open>curve_ok\<close> and \<open>inst_ok\<close>, the inverse curve,
    lookups, the distance table is a metric.
  \<^item> Route_Plan (core.hpp, core.cpp): plans, solutions, costs, the partition test.
  \<^item> Lru_Cache (lru_cache.hpp): index and list of the cache, a refinement of the recency list;
    the locale \<open>memo_cache\<close> for its clients.
  \<^item> Charging_Labels, Label_Tree (evaluator.cpp): labels of route segments, their monoid
    (locale \<open>label_algebra\<close>) and the segment trees over them.
  \<^item> Charge_Loop, Nonlinear_Eval, Route_Evaluator (evaluator.cpp): the greedy charging loop, which
    two evaluators share, the evaluation of labels (full and cut off at a limit), the evaluation
    of routes with schedule and memo.
  \<^item> Plan_Factory, Plan_Fit, Plan_Builds (evaluator.cpp): construction of plans from visits or
    from customers with inherited gaps, the cache of exact plans, the interface \<open>builds\<close> of the
    factory's clients.
  \<^item> Physical_Scorer, Physical_Scores, Scorer_Properties; Sequence_Scorer, Sequence_Scores,
    Sequence_Properties (evaluator.cpp): the two incremental scorers and their equivalence with
    evaluating the edited route from scratch.
  \<^item> Path_Codec, Path_Properties (search.hpp, search.cpp: \<open>PathCatalog\<close>): 64-bit path descriptors.
  \<^item> Granular_Neighborhood (search.cpp): nearest-customer lists, matrix and 64-bit edge keys.
  \<^item> Travel_Bounds (search.cpp): lower bounds on the cost of a route and on its completion.
  \<^item> Path_Completion, with Path_Band, Path_Scan, Path_Exact, Path_Improve, Path_Repair and
    Completion_Properties (search.cpp: \<open>PathSampler::best_replacement\<close>, \<open>improve_path_subset\<close>,
    \<open>repair_new_gaps\<close>, \<open>repair_affected_paths\<close>): the search for the best station path of a gap
    and the improvement loops over it.
  \<^item> Catalog_Build, Catalog_Sound, Catalog_Properties (search.cpp: \<open>PathSampler::build_curve_order\<close>,
    \<open>path_catalog\<close> with complete paths, \<open>path_dominated\<close>): the catalogue of station paths between
    two nodes, by depth-first enumeration and dominance.
  \<^item> Insertion_Moves, Insertion_Choice, Insertion_Eval (search.cpp: \<open>insertion_moves\<close>,
    \<open>choose_linked_greedy\<close>, \<open>choose_linked_two_regret\<close>, \<open>evaluate_linked_insertion\<close>), with the
    proofs in Insertion_Exact, Insertion_Regret, Insertion_Sound, Insertion_Memo,
    Insertion_Linked, Insertion_Candidates, Insertion_Properties: greedy and two-regret insertion
    with lower bounds, lazy completion and memo.
  \<^item> Virtual_Completion, Path_Moves (search.cpp: \<open>virtual_complete_insertion\<close>,
    \<open>evaluate_virtual_insertion\<close>; \<open>improving_atomic_replacement\<close>, \<open>apply_insertion_hints\<close>,
    \<open>limited_random_replacement\<close>, \<open>quasi_exhaustive_replacement\<close>): completion of an insertion on
    labels alone, replacement of the path of one gap.
  \<^item> Construction, Construction_Sound (search.cpp: \<open>InitialSolutionBuilder\<close>); Perturbation,
    Perturbation_Sound, Perturbation_Properties (search.cpp: \<open>Perturbation\<close>): building a first
    solution, the four destroy operators, the two repair operators and their composition.
  \<^item> Customer_Moves, Move_Selection (search.cpp: \<open>VariableNeighborhoodDescent::best_customer_neighbor\<close>):
    the moves of Swap, Relocate and 2-OPT* with their physical forms, their scores, and the best
    neighbour of a solution.
  \<^item> Route_Pool, Pool_Invariant, Pool_Admission, Pool_Columns, Pool_Properties (pool.cpp): the
    bounded route pool with protected partition, coverage costs and counters.
  \<^item> Sp_Certificate, Certificate_Bounds, Certificate_Properties (sp_dual_certificate.hpp): dual
    bounds of a warm start and the fixing of columns, with explicit rounding.
  \<^item> Solver_Control, Solver_Loop, Solver_Invariant, Solver_Properties, Solver_Stops, Solver_Claims
    (solver.hpp, solver.cpp): configuration, deadlines, penalty feedback, records, warm starts, the
    assembler and the main loop; Solver_Stops ties the reported stop reason to the record, the
    clock and the iteration counter.
  \<^item> Xml_Parser, Xml_Loader, Xml_Properties (xml.cpp): entities, the recursive descent parser and
    the loader.

  \<^bold>\<open>What the theorems show.\<close>  Evaluation: schedules respect the battery and the curves, a
  feasible verdict is right, bounded evaluation returns the exact cost or a certified bound.
  Incremental scores equal scores from scratch.  A catalogue represents every station path that a
  route can drive, up to dominance, and meets the contract of the completion of routes; the test
  for a dominated path is exact.  The pruned search for a path returns what an
  exhaustive search selects; improvement ends in a local optimum; lazy insertion with bounds and
  memo selects what completing every insertion would select.  Construction and perturbation always
  return a partition of the customers; destroying removes exactly the requested number.  The pool never loses a protected
  partition and its indices agree in every reachable state.  Certificates bound the optimum
  and fixing cuts off nothing that improves.  A run of the solver returns, its records improve
  strictly, its answer is a feasible partition not worse than any record, and it stops for the
  reason it reports.  The assembler hands back nothing only where the code says so, and otherwise
  a feasible partition that refines the selection of the model.  The parser
  answers on every input, and what the loader returns is a valid instance.

  \<^bold>\<open>How the code is read.\<close>
  \<^item> \<open>double\<close> is \<open>real\<close>; \<open>std::isfinite x\<close> is \<open>\<bar>x\<bar> \<le> dbl_max\<close>.  Where directed rounding is the
    point (certificates, travel bounds, regret pruning) the roundings \<open>fp_round\<close>, \<open>fp_down\<close>,
    \<open>fp_up\<close> are explicit parameters, and binary64 is shown to be an instance.  A bound of minus
    infinity or an infinite minimum is \<open>None\<close>; a bounded evaluation prunes above either of its
    two limits, so an infinite one is passed as the other limit.
  \<^item> Identifiers are \<open>int\<close>, indices and sizes \<open>nat\<close>; counters, epoch marks, edge keys and packed
    descriptors are \<open>64 word\<close> and wrap.  Hash maps are association lists.  Steady-clock points
    are counts of nanoseconds.
  \<^item> A throw is \<open>Inl\<close>; code whose loop may not end returns \<open>None\<close> then.  Termination is proved:
    \<open>charge_loop_rule\<close> (every iteration charges more than the tolerance), the parser's fuel
    \<open>2 * length + 1\<close> is enough (Xml_Parser), the loop of \<open>solve\<close> counts \<open>max_iterations\<close>, and
    improvement loops decrease the cost by more than the tolerance each time.
  \<^item> Bounds: components of a label are collected up to 256 (512) as in the code, beyond which it
    evaluates the label itself; the factory's epoch marks assume fewer than \<open>2 ^ 60\<close> visits in one
    route; the memo of completed insertions holds 8192 entries.
  \<^item> A parameter stands for what is outside the code: the external optimisation models, the
    clock, the random stream and, in Solver_Loop, the search procedures the loop calls; the
    contracts are the hypotheses of the theorems, and the witnesses instantiate them.  In
    Path_Completion the catalogue of paths is the field \<open>ps_catalog\<close>, under the contract
    \<open>sampler_ok\<close>, which Catalog_Properties proves for the catalogues the program builds.  The random stream is a \<open>random_source\<close>, whose draws lie in the asked range
    (\<open>random_ok\<close>).
  \<^item> The theorems on construction and perturbation are for profiles without granular
    neighborhood (\<open>heuristic_ok\<close>); the definitions cover the granular profiles too.
  \<^item> Observers, run times and statistics that are only printed are left out.  \<open>epoch_mode\<close> of
    \<open>solve\<close> is the constant false.  In the linked insertions the flags
    \<open>rank_by_linked_lower_bound\<close> and \<open>repair_affected_paths\<close> are false; \<open>linked_two_regret\<close>
    enumerates the moves of all customers before it ranks them, which changes no result because
    the enumeration does not touch the state.

  \<^bold>\<open>Not modelled.\<close>  The compressed catalogues (\<open>build_shortest_station_paths\<close>), the sampling of
  explicit and implicit paths by \<open>PathSampler\<close>, its option caches, and \<open>bounded_rp_proxy\<close>
  (threads, memory-mapped cache); the variants of construction and perturbation that keep stations
  in the destroyed routes; of \<open>VariableNeighborhoodDescent\<close> the loop over the neighbourhoods, the
  cooperative schedule, the neighbourhood that replaces paths, and the memory of moves and scores;
  the disk cache (operating-system files); src/copt_models.cpp and src/gurobi_models.cpp (calls of
  commercial solvers); the command line programs and the JSON output of schedule_certificate.hpp.
\<close>

end
